(* ===== verification/Prelude.thy ===== *)
theory Prelude
  imports Main "HOL-Library.Word" "HOL-Library.Monad_Syntax"
begin

text \<open>
  Shared base of the development: names for the C integer types of \<^verbatim>\<open>rtdef.h\<close>, the model of
  \<^verbatim>\<open>RT_ASSERT\<close>, of \<^verbatim>\<open>memcpy\<close> on byte arrays and of the alignment macros, and the generic lemmas
  on lists, options and words that the component theories use.

  Convention: a kernel routine that contains an assertion, or a loop that may not end, has a result
  of type \<open>'a option\<close>. The value \<^term>\<open>None\<close> means that the call does not return: a failed
  \<^verbatim>\<open>RT_ASSERT\<close> enters \<^verbatim>\<open>rt_assert_handler\<close>, whose default body spins forever.
\<close>

unbundle bit_operations_syntax

section \<open>Integer types\<close>

type_synonym rt_uint8_t = "8 word"
type_synonym rt_uint16_t = "16 word"
type_synonym rt_uint32_t = "32 word"
type_synonym rt_tick_t = "32 word"
type_synonym rt_int32_t = "32 word" \<comment> \<open>read with \<^term>\<open>sint\<close>\<close>
type_synonym rt_err_t = int

named_theorems list_heap \<open>facts about the pointer model of intrusive lists\<close>
named_theorems kfield \<open>field projections of the kernel's basic updates\<close>
named_theorems kinv_intro \<open>preservation of the kernel invariants\<close>

section \<open>Assertions\<close>

definition rt_assert :: "bool \<Rightarrow> unit option" where
  "rt_assert b = (if b then Some () else None)"

lemma rt_assert_bind [simp]:
  "(rt_assert b \<bind> f = Some y) \<longleftrightarrow> b \<and> f () = Some y"
  by (simp add: rt_assert_def)

lemma rt_assert_True [simp]: "rt_assert True = Some ()"
  by (simp add: rt_assert_def)

lemma rt_assert_False [simp]: "rt_assert False = None"
  by (simp add: rt_assert_def)

section \<open>Memory copies on byte arrays\<close>

definition memcpy_at :: "'a list \<Rightarrow> nat \<Rightarrow> 'a list \<Rightarrow> 'a list" where
  "memcpy_at dst off src = take off dst @ src @ drop (off + length src) dst"

lemma length_memcpy_at [simp]:
  "off + length src \<le> length dst \<Longrightarrow> length (memcpy_at dst off src) = length dst"
  by (simp add: memcpy_at_def)

lemma nth_memcpy_at:
  assumes "off + length src \<le> length dst" and "i < length dst"
  shows "memcpy_at dst off src ! i =
    (if off \<le> i \<and> i < off + length src then src ! (i - off) else dst ! i)"
  using assms by (auto simp: memcpy_at_def nth_append min_def)

lemma memcpy_at_Nil [simp]: "memcpy_at dst off [] = dst"
  by (simp add: memcpy_at_def)

lemma memcpy_at_one:
  "off < length dst \<Longrightarrow> memcpy_at dst off [x] = dst[off := x]"
  by (simp add: memcpy_at_def upd_conv_take_nth_drop)

lemma memcpy_at_snoc:
  "off + length src < length dst \<Longrightarrow> (memcpy_at dst off src)[off + length src := x] = memcpy_at dst off (src @ [x])"
  by (simp add: memcpy_at_def list_update_append upd_conv_take_nth_drop min_def)

lemma memcpy_at_Cons:
  "off < length dst \<Longrightarrow> memcpy_at (dst[off := x]) (Suc off) src = memcpy_at dst off (x # src)"
  by (simp add: memcpy_at_def take_Suc_conv_app_nth)

lemma memcpy_at_append:
  "off + length xs \<le> length dst \<Longrightarrow> memcpy_at (memcpy_at dst off xs) (off + length xs) ys = memcpy_at dst off (xs @ ys)"
  by (cases xs) (auto simp: memcpy_at_def min_def ac_simps)

section \<open>Alignment\<close>

text \<open>The macros of \<^verbatim>\<open>rtdef.h\<close>, on C integers of any width and on \<^typ>\<open>int\<close>.\<close>

definition RT_ALIGN_DOWN :: "'a::ring_bit_operations \<Rightarrow> 'a \<Rightarrow> 'a" where
  "RT_ALIGN_DOWN sz align = sz AND NOT (align - 1)"

definition RT_ALIGN :: "'a::ring_bit_operations \<Rightarrow> 'a \<Rightarrow> 'a" where
  "RT_ALIGN sz align = (sz + align - 1) AND NOT (align - 1)"

lemma and_not_mask:
  "(x::'a::ring_bit_operations) AND NOT (mask n) = x - take_bit n x"
proof -
  have "x AND NOT (mask n) = push_bit n (drop_bit n x)"
    by (rule bit_eqI) (auto simp: bit_simps)
  also have "\<dots> = x - take_bit n x"
    by (metis add_diff_cancel_right' bits_ident)
  finally show ?thesis .
qed

lemma RT_ALIGN_DOWN_4_int: "RT_ALIGN_DOWN (x::int) 4 = x - x mod 4"
  using and_not_mask [of x 2]
  by (simp add: RT_ALIGN_DOWN_def mask_eq_exp_minus_1 take_bit_eq_mod)

lemma RT_ALIGN_4_word:
  fixes x :: "32 word"
  assumes "unat x + 3 < 2 ^ 32"
  shows "unat (RT_ALIGN x 4) = (unat x + 3) div 4 * 4"
proof -
  have s: "unat (x + 3) = unat x + 3" using assms by (simp add: unat_word_ariths)
  have "RT_ALIGN x 4 = (x + 3) - take_bit 2 (x + 3)"
    using and_not_mask [of "x + 3" 2] by (simp add: RT_ALIGN_def mask_eq_exp_minus_1 algebra_simps)
  moreover have tb: "unat (take_bit 2 (x + 3)) = (unat x + 3) mod 4"
    by (simp add: take_bit_eq_mod unat_mod s)
  ultimately have "unat (RT_ALIGN x 4) = unat x + 3 - (unat x + 3) mod 4"
    using s by (simp add: unat_sub word_le_nat_alt tb)
  then show ?thesis by (simp add: minus_mod_eq_div_mult)
qed

section \<open>Counters\<close>

lemma word_dec_Suc: "0 < (v::'a::len word) \<Longrightarrow> unat v = Suc (unat (v - 1))"
  using unat_minus_one [of v] by (cases "v = 0") (auto simp: word_less_nat_alt)

lemma word_zero_cases: "(v::'a::len word) = 0 \<or> 0 < v"
  using word_neq_0_conv by blast

lemma u16_inc: "(v::16 word) < 0xFFFF \<Longrightarrow> unat (v + 1) = Suc (unat v)"
  by (simp add: word_less_nat_alt unat_word_ariths)

lemma u16_max: "\<not> (v::16 word) < 0xFFFF \<Longrightarrow> v = 0xFFFF"
  using unsigned_less [where w = v and ?'a = nat] by (simp add: word_less_nat_alt word_unat_eq_iff)

lemma u8_inc: "(v::8 word) < 0xFF \<Longrightarrow> unat (v + 1) = Suc (unat v)"
  by (simp add: word_less_nat_alt unat_word_ariths)

lemma u8_max: "\<not> (v::8 word) < 0xFF \<Longrightarrow> v = 0xFF"
  using unsigned_less [where w = v and ?'a = nat] by (simp add: word_less_nat_alt word_unat_eq_iff)

section \<open>Lists\<close>

lemma removeAll_hd:
  "distinct (x # xs) \<Longrightarrow> removeAll x (x # xs) = xs"
  by simp

section \<open>Sequences in a ring of cells\<close>

definition ring :: "nat \<Rightarrow> 'a list \<Rightarrow> nat \<Rightarrow> nat \<Rightarrow> 'a list" where
  "ring m buf r n = map (\<lambda>i. buf ! ((r + i) mod m)) [0..<n]"

lemma mod_below_double: "a < 2 * m \<Longrightarrow> a mod m = (if a < m then a else a - m)" for a m :: nat
  by (simp add: mod_if)

lemma length_ring [simp]: "length (ring m buf r n) = n"
  by (simp add: ring_def)

lemma nth_ring: "i < n \<Longrightarrow> ring m buf r n ! i = buf ! ((r + i) mod m)"
  by (simp add: ring_def)

lemma ring_drop:
  assumes "len \<le> n" shows "ring m buf ((r + len) mod m) (n - len) = drop len (ring m buf r n)"
  using assms by (intro nth_equalityI) (simp_all add: nth_ring mod_add_left_eq add.assoc)

lemma ring_cong:
  assumes "\<And>i. i < n \<Longrightarrow> buf' ! ((r + i) mod m) = buf ! ((r + i) mod m)"
  shows "ring m buf' r n = ring m buf r n"
  using assms by (simp add: ring_def)

lemma mod_diff_neq: "i < n \<Longrightarrow> n < m \<Longrightarrow> (r + i) mod m \<noteq> (r + n) mod m" for r :: nat
proof
  assume "i < n" "n < m" "(r + i) mod m = (r + n) mod m"
  then have "(n - i) mod m = 0"
    using mod_eq_dvd_iff_nat [of "r + i" "r + n" m] by auto
  then show False using \<open>i < n\<close> \<open>n < m\<close> by simp
qed

text \<open>Writing one element behind the sequence, and one in front of it.\<close>

lemma ring_snoc:
  assumes "n < m" "m \<le> length buf"
  shows "ring m (buf[(r + n) mod m := v]) r (Suc n) = ring m buf r n @ [v]"
proof -
  have "0 < m" using assms by simp
  then have "(r + n) mod m < length buf" using assms(2) mod_less_divisor less_le_trans by blast
  moreover have "ring m (buf[(r + n) mod m := v]) r n = ring m buf r n"
    using assms mod_diff_neq [of _ n m r] by (intro ring_cong nth_list_update_neq) metis
  ultimately show ?thesis by (simp add: ring_def)
qed

lemma ring_Cons:
  assumes "r < m" "n < m" "m \<le> length buf" and p: "p = (if r > 0 then r - 1 else m - 1)"
  shows "ring m (buf[p := v]) p (Suc n) = v # ring m buf r n"
proof -
  have p1: "(p + Suc i) mod m = (r + i) mod m" for i
    using assms(1) p by (cases "r = 0") (simp_all add: mod_add_self1)
  have lt: "p < m" using p assms(1) by auto
  have "(r + i) mod m \<noteq> p" if "i < n" for i
    using mod_diff_neq [of 0 "Suc i" m p] that assms(2) lt p1 by simp
  then have "ring m (buf[p := v]) r n = ring m buf r n" by (intro ring_cong nth_list_update_neq) metis
  then show ?thesis
    using lt assms(3) p1 by (simp add: ring_def upt_conv_Cons map_Suc_upt [symmetric] del: upt_Suc)
qed

section \<open>Linked lists of cells\<close>

text \<open>A null-terminated list of slots, and the slots reached in at most \<open>n\<close> links.\<close>

primrec chain :: "(nat \<Rightarrow> nat option) \<Rightarrow> nat option \<Rightarrow> nat list \<Rightarrow> bool" where
  "chain nx p [] \<longleftrightarrow> p = None"
| "chain nx p (x # xs) \<longleftrightarrow> p = Some x \<and> chain nx (nx x) xs"

fun walk :: "(nat \<Rightarrow> nat option) \<Rightarrow> nat option \<Rightarrow> nat \<Rightarrow> nat list" where
  "walk nx p 0 = []"
| "walk nx None (Suc n) = []"
| "walk nx (Some x) (Suc n) = x # walk nx (nx x) n"

lemma walk_chain: "chain nx p xs \<Longrightarrow> walk nx p (length xs) = xs"
  by (induction xs arbitrary: p) auto

lemma chain_upd [simp]: "i \<notin> set xs \<Longrightarrow> chain (nx(i := v)) p xs = chain nx p xs"
  by (induction xs arbitrary: p) auto

lemma chain_None [simp]: "chain nx None xs \<longleftrightarrow> xs = []"
  by (cases xs) auto

lemma chain_Some: "chain nx (Some i) xs \<longleftrightarrow> (\<exists>ys. xs = i # ys \<and> chain nx (nx i) ys)"
  by (cases xs) auto

lemma chain_snoc:
  "chain nx p xs \<Longrightarrow> xs \<noteq> [] \<Longrightarrow> distinct xs \<Longrightarrow> i \<notin> set xs \<Longrightarrow> nx i = None \<Longrightarrow>
   chain (nx(last xs := Some i)) p (xs @ [i])"
proof (induction xs arbitrary: p)
  case (Cons x xs)
  show ?case
  proof (cases "xs = []")
    case True
    then show ?thesis using Cons.prems by auto
  next
    case False
    then have "chain (nx(last xs := Some i)) (nx x) (xs @ [i])"
      by (intro Cons.IH) (use Cons.prems in auto)
    moreover have "x \<noteq> last xs" using False Cons.prems(3) by auto
    moreover have "last (x # xs) = last xs" using False by simp
    ultimately show ?thesis using Cons.prems by (simp only: append_Cons chain.simps fun_upd_other) simp
  qed
qed simp

end
