(* ===== verification/Ringbuffer.thy ===== *)
theory Ringbuffer
  imports Prelude
begin

text \<open>
  The byte ring buffer of \<^verbatim>\<open>components/drivers/ipc/ringbuffer.c\<close>, used by the serial driver for
  its receive and transmit queues. The two indices are 15-bit bit fields, so every store to them is
  taken modulo \<open>2 ^ 15\<close>; the two mirror bits are booleans. Contents: the operations, the
  invariant, the byte sequence a buffer holds, and the proofs that put, get and their forced and
  single-byte variants act on this sequence as a bounded first-in-first-out queue.
\<close>

section \<open>State and operations\<close>

record rt_ringbuffer =
  buffer_ptr :: "8 word list"
  read_mirror :: bool
  read_index :: nat
  write_mirror :: bool
  write_index :: nat
  buffer_size :: nat

datatype rt_ringbuffer_state =
  RT_RINGBUFFER_EMPTY | RT_RINGBUFFER_FULL | RT_RINGBUFFER_HALFFULL

definition index15 :: "nat \<Rightarrow> nat" where
  "index15 i = i mod 2 ^ 15"

definition rt_ringbuffer_status :: "rt_ringbuffer \<Rightarrow> rt_ringbuffer_state" where
  "rt_ringbuffer_status rb =
     (if read_index rb = write_index rb then
        (if read_mirror rb = write_mirror rb then RT_RINGBUFFER_EMPTY else RT_RINGBUFFER_FULL)
      else RT_RINGBUFFER_HALFFULL)"

text \<open>The pool is the array the caller supplies; \<open>sz\<close> is a signed 16-bit argument.\<close>

definition rt_ringbuffer_init :: "8 word list \<Rightarrow> int \<Rightarrow> rt_ringbuffer option" where
  "rt_ringbuffer_init pool sz = do {
     rt_assert (0 < sz);
     Some \<lparr>buffer_ptr = pool, read_mirror = False, read_index = 0,
           write_mirror = False, write_index = 0,
           buffer_size = nat (RT_ALIGN_DOWN sz 4)\<rparr> }"

definition rt_ringbuffer_data_len :: "rt_ringbuffer \<Rightarrow> nat" where
  "rt_ringbuffer_data_len rb =
     (case rt_ringbuffer_status rb of
        RT_RINGBUFFER_EMPTY \<Rightarrow> 0
      | RT_RINGBUFFER_FULL \<Rightarrow> buffer_size rb
      | RT_RINGBUFFER_HALFFULL \<Rightarrow>
          (if write_index rb > read_index rb then write_index rb - read_index rb
           else buffer_size rb - (read_index rb - write_index rb)))"

definition rt_ringbuffer_space_len :: "rt_ringbuffer \<Rightarrow> nat" where
  "rt_ringbuffer_space_len rb = buffer_size rb - rt_ringbuffer_data_len rb"

definition rt_ringbuffer_get_size :: "rt_ringbuffer \<Rightarrow> nat" where
  "rt_ringbuffer_get_size rb = buffer_size rb"

text \<open>The argument \<open>ptr\<close> is the array of the caller, whose length is the C argument
  \<^verbatim>\<open>length\<close>; the result is the returned count and the buffer after the call.\<close>

definition rt_ringbuffer_put :: "rt_ringbuffer \<Rightarrow> 8 word list \<Rightarrow> nat \<times> rt_ringbuffer" where
  "rt_ringbuffer_put rb ptr =
     (let size = rt_ringbuffer_space_len rb in
      if size = 0 then (0, rb)
      else let len = (if size < length ptr then size else length ptr);
               tail = buffer_size rb - write_index rb in
      if tail > len then
        (len, rb\<lparr>buffer_ptr := memcpy_at (buffer_ptr rb) (write_index rb) (take len ptr),
                 write_index := index15 (write_index rb + len)\<rparr>)
      else
        (len, rb\<lparr>buffer_ptr :=
                   memcpy_at (memcpy_at (buffer_ptr rb) (write_index rb) (take tail ptr))
                     0 (take (len - tail) (drop tail ptr)),
                 write_mirror := \<not> write_mirror rb,
                 write_index := index15 (len - tail)\<rparr>))"

definition rt_ringbuffer_put_force :: "rt_ringbuffer \<Rightarrow> 8 word list \<Rightarrow> nat \<times> rt_ringbuffer" where
  "rt_ringbuffer_put_force rb ptr0 =
     (let space_length = rt_ringbuffer_space_len rb;
          ptr = (if length ptr0 > buffer_size rb then drop (length ptr0 - buffer_size rb) ptr0
                 else ptr0);
          len = (if length ptr0 > buffer_size rb then buffer_size rb else length ptr0);
          tail = buffer_size rb - write_index rb in
      if tail > len then
        let rb1 = rb\<lparr>buffer_ptr := memcpy_at (buffer_ptr rb) (write_index rb) (take len ptr),
                     write_index := index15 (write_index rb + len)\<rparr> in
        (len, if len > space_length then rb1\<lparr>read_index := write_index rb1\<rparr> else rb1)
      else
        let rb1 = rb\<lparr>buffer_ptr :=
                       memcpy_at (memcpy_at (buffer_ptr rb) (write_index rb) (take tail ptr))
                         0 (take (len - tail) (drop tail ptr)),
                     write_mirror := \<not> write_mirror rb,
                     write_index := index15 (len - tail)\<rparr> in
        (len, if len > space_length then
                rb1\<lparr>read_mirror := (if write_index rb1 \<le> read_index rb1 then \<not> read_mirror rb1
                                   else read_mirror rb1),
                    read_index := write_index rb1\<rparr>
              else rb1))"

text \<open>\<^verbatim>\<open>rt_ringbuffer_get\<close> also returns the bytes it wrote to the caller's array.\<close>

definition rt_ringbuffer_get :: "rt_ringbuffer \<Rightarrow> nat \<Rightarrow> nat \<times> 8 word list \<times> rt_ringbuffer" where
  "rt_ringbuffer_get rb len0 =
     (let size = rt_ringbuffer_data_len rb in
      if size = 0 then (0, [], rb)
      else let len = (if size < len0 then size else len0);
               tail = buffer_size rb - read_index rb in
      if tail > len then
        (len, take len (drop (read_index rb) (buffer_ptr rb)),
         rb\<lparr>read_index := index15 (read_index rb + len)\<rparr>)
      else
        (len, take tail (drop (read_index rb) (buffer_ptr rb)) @ take (len - tail) (buffer_ptr rb),
         rb\<lparr>read_mirror := \<not> read_mirror rb, read_index := index15 (len - tail)\<rparr>))"

text \<open>\<^verbatim>\<open>rt_ringbuffer_peek\<close> returns a pointer into the buffer, here an offset.\<close>

definition rt_ringbuffer_peek :: "rt_ringbuffer \<Rightarrow> nat \<times> nat option \<times> rt_ringbuffer" where
  "rt_ringbuffer_peek rb =
     (let size = rt_ringbuffer_data_len rb in
      if size = 0 then (0, None, rb)
      else let ptr = read_index rb in
      if buffer_size rb - read_index rb > size then
        (size, Some ptr, rb\<lparr>read_index := index15 (read_index rb + size)\<rparr>)
      else
        (buffer_size rb - read_index rb, Some ptr,
         rb\<lparr>read_mirror := \<not> read_mirror rb, read_index := 0\<rparr>))"

definition rt_ringbuffer_putchar :: "rt_ringbuffer \<Rightarrow> 8 word \<Rightarrow> nat \<times> rt_ringbuffer" where
  "rt_ringbuffer_putchar rb ch =
     (if rt_ringbuffer_space_len rb = 0 then (0, rb)
      else let rb1 = rb\<lparr>buffer_ptr := (buffer_ptr rb)[write_index rb := ch]\<rparr> in
      if int (write_index rb) = int (buffer_size rb) - 1 then
        (1, rb1\<lparr>write_mirror := \<not> write_mirror rb, write_index := 0\<rparr>)
      else (1, rb1\<lparr>write_index := index15 (write_index rb + 1)\<rparr>))"

definition rt_ringbuffer_putchar_force :: "rt_ringbuffer \<Rightarrow> 8 word \<Rightarrow> nat \<times> rt_ringbuffer" where
  "rt_ringbuffer_putchar_force rb ch =
     (let old_state = rt_ringbuffer_status rb;
          rb1 = rb\<lparr>buffer_ptr := (buffer_ptr rb)[write_index rb := ch]\<rparr> in
      if int (write_index rb) = int (buffer_size rb) - 1 then
        let rb2 = rb1\<lparr>write_mirror := \<not> write_mirror rb, write_index := 0\<rparr> in
        (1, if old_state = RT_RINGBUFFER_FULL
            then rb2\<lparr>read_mirror := \<not> read_mirror rb, read_index := write_index rb2\<rparr> else rb2)
      else
        let rb2 = rb1\<lparr>write_index := index15 (write_index rb + 1)\<rparr> in
        (1, if old_state = RT_RINGBUFFER_FULL
            then rb2\<lparr>read_index := write_index rb2\<rparr> else rb2))"

text \<open>The byte is stored through the pointer argument only when the count returned is 1.\<close>

definition rt_ringbuffer_getchar :: "rt_ringbuffer \<Rightarrow> nat \<times> 8 word option \<times> rt_ringbuffer" where
  "rt_ringbuffer_getchar rb =
     (if rt_ringbuffer_data_len rb = 0 then (0, None, rb)
      else let ch = buffer_ptr rb ! read_index rb in
      if int (read_index rb) = int (buffer_size rb) - 1 then
        (1, Some ch, rb\<lparr>read_mirror := \<not> read_mirror rb, read_index := 0\<rparr>)
      else (1, Some ch, rb\<lparr>read_index := index15 (read_index rb + 1)\<rparr>))"

definition rt_ringbuffer_reset :: "rt_ringbuffer \<Rightarrow> rt_ringbuffer" where
  "rt_ringbuffer_reset rb =
     rb\<lparr>read_mirror := False, read_index := 0, write_mirror := False, write_index := 0\<rparr>"

section \<open>Writing and reading a ring of cells\<close>

text \<open>Overwriting \<open>length src\<close> cells from the end of the sequence on, and dropping what no longer
  fits from its front.\<close>

lemma ring_write:
  fixes m n r :: nat
  assumes m: "r < m" "n \<le> m" and w: "w = (r + n) mod m" and len: "length src \<le> m"
    and buf': "\<And>j. j < m \<Longrightarrow> buf' ! j =
      (if (j + (m - w)) mod m < length src then src ! ((j + (m - w)) mod m) else buf ! j)"
    and d: "d = n + length src - m"
  shows "ring m buf' ((r + d) mod m) (n + length src - d) = drop d (ring m buf r n @ src)"
proof (rule nth_equalityI)
  show "length (ring m buf' ((r + d) mod m) (n + length src - d)) =
      length (drop d (ring m buf r n @ src))"
    by simp
next
  fix i assume "i < length (ring m buf' ((r + d) mod m) (n + length src - d))"
  then have i: "i < n + length src - d" by simp
  define k where "k = d + i"
  have k: "k < n + length src" "k < d + m" "d \<le> k" "d \<le> m" using i d m len by (auto simp: k_def)
  have pos: "((r + d) mod m + i) mod m = (r + k) mod m"
    by (simp add: k_def mod_add_left_eq add.assoc)
  obtain q where q: "r + n = w + q * m"
    using w by (metis div_mult_mod_eq add.commute)
  have "w < m" using m w by simp
  have off: "((r + k) mod m + (m - w)) mod m = (if k < n then k + m - n else k - n)"
  proof (cases "k < n")
    case True
    then have "r + k + (m - w) = (k + m - n) + q * m" using q \<open>w < m\<close> m by linarith
    then have "(r + k + (m - w)) mod m = (k + m - n) mod m" by (simp only: mod_mult_self1)
    then show ?thesis using True m by (simp add: mod_add_left_eq)
  next
    case False
    then have "r + k + (m - w) = (k - n) + (q + 1) * m" using q \<open>w < m\<close> m by simp
    then have "(r + k + (m - w)) mod m = (k - n) mod m" by (simp only: mod_mult_self1)
    then show ?thesis using False k len by (simp add: mod_add_left_eq)
  qed
  have nov: "\<not> (k < n \<and> k + m < n + length src)" using d k by linarith
  have "buf' ! ((r + k) mod m) =
      (if k < n then buf ! ((r + k) mod m) else src ! (k - n))"
    using buf' [of "(r + k) mod m"] off nov k m by auto
  moreover have "drop d (ring m buf r n @ src) ! i = (ring m buf r n @ src) ! k"
    using k by (simp add: k_def del: drop_append)
  ultimately show "ring m buf' ((r + d) mod m) (n + length src - d) ! i =
      drop d (ring m buf r n @ src) ! i"
    using i k by (simp add: nth_ring pos nth_append)
qed

lemma ring_write_cells:
  fixes buf :: "'a list"
  assumes "w < m" "length src \<le> m" "m \<le> length buf" "j < m"
  shows "(if m - w > length src then memcpy_at buf w src
          else memcpy_at (memcpy_at buf w (take (m - w) src)) 0 (drop (m - w) src)) ! j =
    (if (j + (m - w)) mod m < length src then src ! ((j + (m - w)) mod m) else buf ! j)"
proof (cases "w \<le> j")
  case True
  then have "(j + (m - w)) mod m = j - w" using assms by (simp add: mod_if)
  with True assms show ?thesis by (auto simp: nth_memcpy_at)
next
  case False
  then have "(j + (m - w)) mod m = j + (m - w)" using assms by (simp add: mod_if)
  with False assms show ?thesis by (auto simp: nth_memcpy_at ac_simps)
qed

lemma ring_read_cells:
  assumes "r < m" "len \<le> n" "n \<le> m" "m \<le> length buf"
  shows "(if m - r > len then take len (drop r buf)
          else take (m - r) (drop r buf) @ take (len - (m - r)) buf) = take len (ring m buf r n)"
proof (rule nth_equalityI)
  fix i assume "i < length (if m - r > len then take len (drop r buf)
      else take (m - r) (drop r buf) @ take (len - (m - r)) buf)"
  then have "i < len" using assms by (auto split: if_splits)
  moreover from this have "(r + i) mod m = (if r + i < m then r + i else r + i - m)"
    using assms by (simp add: mod_if)
  ultimately show "(if m - r > len then take len (drop r buf)
      else take (m - r) (drop r buf) @ take (len - (m - r)) buf) ! i = take len (ring m buf r n) ! i"
    using assms by (auto simp: nth_ring nth_append ac_simps)
qed (use assms in auto)

section \<open>The index arithmetic, on plain numbers\<close>

text \<open>\<open>m\<close> is the capacity, \<open>rm\<close>, \<open>r\<close> the read mirror and index, \<open>wm\<close>, \<open>w\<close> those of the
  writer.\<close>

definition idx_ok :: "nat \<Rightarrow> bool \<Rightarrow> nat \<Rightarrow> bool \<Rightarrow> nat \<Rightarrow> bool" where
  "idx_ok m rm r wm w \<longleftrightarrow> r < m \<and> w < m \<and> (if rm = wm then r \<le> w else w \<le> r)"

definition idx_len :: "nat \<Rightarrow> bool \<Rightarrow> nat \<Rightarrow> bool \<Rightarrow> nat \<Rightarrow> nat" where
  "idx_len m rm r wm w = (if rm = wm then w - r else w + m - r)"

lemma idx_len_le: "idx_ok m rm r wm w \<Longrightarrow> idx_len m rm r wm w \<le> m"
  by (auto simp: idx_ok_def idx_len_def split: if_splits)

lemma idx_write_pos: "idx_ok m rm r wm w \<Longrightarrow> w = (r + idx_len m rm r wm w) mod m"
  by (auto simp: idx_ok_def idx_len_def mod_if split: if_splits)

lemma idx_advance_write:
  assumes "idx_ok m rm r wm w" "idx_len m rm r wm w + len \<le> m" "len < m - w"
  shows "idx_ok m rm r wm (w + len)" "idx_len m rm r wm (w + len) = idx_len m rm r wm w + len"
  using assms by (auto simp: idx_ok_def idx_len_def split: if_splits)

lemma idx_advance_write_wrap:
  assumes "idx_ok m rm r wm w" "idx_len m rm r wm w + len \<le> m" "\<not> len < m - w"
  shows "idx_ok m rm r (\<not> wm) (len - (m - w))"
    "idx_len m rm r (\<not> wm) (len - (m - w)) = idx_len m rm r wm w + len"
  using assms by (auto simp: idx_ok_def idx_len_def split: if_splits)

lemma idx_force_write:
  assumes "idx_ok m rm r wm w" "m < idx_len m rm r wm w + len" "len < m - w"
  shows "idx_ok m rm (w + len) wm (w + len)" "idx_len m rm (w + len) wm (w + len) = m"
    "w + len = (r + (idx_len m rm r wm w + len - m)) mod m"
proof -
  have "rm \<noteq> wm" using assms by (cases "rm = wm") (auto simp: idx_ok_def idx_len_def)
  then have "w \<le> r" "r < m" "idx_len m rm r wm w = w + m - r"
    using assms(1) by (auto simp: idx_ok_def idx_len_def)
  then have "r + (idx_len m rm r wm w + len - m) = w + len" using assms(2) by linarith
  with \<open>rm \<noteq> wm\<close> assms(3) show "idx_ok m rm (w + len) wm (w + len)"
    "idx_len m rm (w + len) wm (w + len) = m"
    "w + len = (r + (idx_len m rm r wm w + len - m)) mod m"
    by (auto simp: idx_ok_def idx_len_def)
qed

lemma idx_force_write_wrap:
  assumes ok: "idx_ok m rm r wm w" and full: "m < idx_len m rm r wm w + len"
    and len: "\<not> len < m - w" "len \<le> m"
    and rm': "rm' = (if len - (m - w) \<le> r then \<not> rm else rm)"
  shows "idx_ok m rm' (len - (m - w)) (\<not> wm) (len - (m - w))"
    "idx_len m rm' (len - (m - w)) (\<not> wm) (len - (m - w)) = m"
    "len - (m - w) = (r + (idx_len m rm r wm w + len - m)) mod m"
proof -
  have b: "r < m" "w < m" using ok by (auto simp: idx_ok_def)
  have "rm' = wm \<and> len - (m - w) = (r + (idx_len m rm r wm w + len - m)) mod m"
  proof (cases "rm = wm")
    case True
    with ok full b len have "r + (idx_len m rm r wm w + len - m) = len - (m - w)"
      "\<not> len - (m - w) \<le> r"
      by (auto simp: idx_ok_def idx_len_def)
    with True rm' len b show ?thesis by simp
  next
    case False
    with ok full b len have "r + (idx_len m rm r wm w + len - m) = len - (m - w) + m"
      "len - (m - w) \<le> r"
      by (auto simp: idx_ok_def idx_len_def)
    with False rm' len b show ?thesis by (auto simp: mod_if)
  qed
  then show "idx_ok m rm' (len - (m - w)) (\<not> wm) (len - (m - w))"
    "idx_len m rm' (len - (m - w)) (\<not> wm) (len - (m - w)) = m"
    "len - (m - w) = (r + (idx_len m rm r wm w + len - m)) mod m"
    using b len by (auto simp: idx_ok_def idx_len_def)
qed

lemma idx_advance_read:
  assumes "idx_ok m rm r wm w" "len \<le> idx_len m rm r wm w" "len < m - r"
  shows "idx_ok m rm (r + len) wm w" "idx_len m rm (r + len) wm w = idx_len m rm r wm w - len"
  using assms by (auto simp: idx_ok_def idx_len_def split: if_splits)

lemma idx_advance_read_wrap:
  assumes "idx_ok m rm r wm w" "len \<le> idx_len m rm r wm w" "\<not> len < m - r"
  shows "idx_ok m (\<not> rm) (len - (m - r)) wm w"
    "idx_len m (\<not> rm) (len - (m - r)) wm w = idx_len m rm r wm w - len"
  using assms by (auto simp: idx_ok_def idx_len_def split: if_splits)

section \<open>Invariant and contents\<close>

definition rb_idx_ok :: "rt_ringbuffer \<Rightarrow> bool" where
  "rb_idx_ok rb \<longleftrightarrow>
     idx_ok (buffer_size rb) (read_mirror rb) (read_index rb) (write_mirror rb) (write_index rb)"

definition rb_inv :: "rt_ringbuffer \<Rightarrow> bool" where
  "rb_inv rb \<longleftrightarrow> buffer_size rb < 2 ^ 15 \<and> buffer_size rb \<le> length (buffer_ptr rb) \<and> rb_idx_ok rb"

definition rb_list :: "rt_ringbuffer \<Rightarrow> 8 word list" where
  "rb_list rb = ring (buffer_size rb) (buffer_ptr rb) (read_index rb) (rt_ringbuffer_data_len rb)"

lemma data_len_idx:
  "rb_idx_ok rb \<Longrightarrow> rt_ringbuffer_data_len rb =
     idx_len (buffer_size rb) (read_mirror rb) (read_index rb) (write_mirror rb) (write_index rb)"
  by (auto simp: rb_idx_ok_def idx_ok_def idx_len_def rt_ringbuffer_data_len_def
      rt_ringbuffer_status_def split: if_splits)

lemma data_len_inv: "rb_inv rb \<Longrightarrow> rt_ringbuffer_data_len rb =
     idx_len (buffer_size rb) (read_mirror rb) (read_index rb) (write_mirror rb) (write_index rb)"
  by (rule data_len_idx) (simp add: rb_inv_def)

lemma rb_inv_bounds:
  assumes "rb_inv rb"
  shows "read_index rb < buffer_size rb" "write_index rb < buffer_size rb"
    "buffer_size rb \<le> length (buffer_ptr rb)" "buffer_size rb < 2 ^ 15" "0 < buffer_size rb"
    "rt_ringbuffer_data_len rb \<le> buffer_size rb"
    "write_index rb = (read_index rb + rt_ringbuffer_data_len rb) mod buffer_size rb"
proof -
  have ok: "idx_ok (buffer_size rb) (read_mirror rb) (read_index rb) (write_mirror rb)
      (write_index rb)"
    using assms by (simp add: rb_inv_def rb_idx_ok_def)
  show "read_index rb < buffer_size rb" "write_index rb < buffer_size rb"
    using ok by (simp_all add: idx_ok_def)
  then show "0 < buffer_size rb" by simp
  show "buffer_size rb \<le> length (buffer_ptr rb)" "buffer_size rb < 2 ^ 15"
    using assms by (simp_all add: rb_inv_def)
  show "rt_ringbuffer_data_len rb \<le> buffer_size rb"
    using idx_len_le [OF ok] by (simp add: data_len_inv [OF assms])
  show "write_index rb = (read_index rb + rt_ringbuffer_data_len rb) mod buffer_size rb"
    using idx_write_pos [OF ok] by (simp add: data_len_inv [OF assms])
qed

lemma length_rb_list [simp]: "length (rb_list rb) = rt_ringbuffer_data_len rb"
  by (simp add: rb_list_def)

lemma index15_small [simp]: "rb_inv rb \<Longrightarrow> i \<le> buffer_size rb \<Longrightarrow> index15 i = i"
  by (simp add: rb_inv_def index15_def)

definition write_cells :: "rt_ringbuffer \<Rightarrow> 8 word list \<Rightarrow> 8 word list" where
  "write_cells rb src =
     (let tail = buffer_size rb - write_index rb in
      if tail > length src then memcpy_at (buffer_ptr rb) (write_index rb) src
      else memcpy_at (memcpy_at (buffer_ptr rb) (write_index rb) (take tail src)) 0 (drop tail src))"

lemma length_write_cells [simp]:
  "rb_inv rb \<Longrightarrow> length src \<le> buffer_size rb \<Longrightarrow>
   length (write_cells rb src) = length (buffer_ptr rb)"
  using rb_inv_bounds(2,3) [of rb] by (auto simp: write_cells_def Let_def)

lemma nth_write_cells:
  "rb_inv rb \<Longrightarrow> length src \<le> buffer_size rb \<Longrightarrow> j < buffer_size rb \<Longrightarrow>
   write_cells rb src ! j =
     (if (j + (buffer_size rb - write_index rb)) mod buffer_size rb < length src
      then src ! ((j + (buffer_size rb - write_index rb)) mod buffer_size rb)
      else buffer_ptr rb ! j)"
  unfolding write_cells_def Let_def
  by (rule ring_write_cells) (simp_all add: rb_inv_bounds)

text \<open>What a write of \<open>src\<close> at the write position does to the contents, when \<open>d\<close> bytes are dropped
  from the front.\<close>

lemma rb_list_write:
  assumes "rb_inv rb" "length src \<le> buffer_size rb"
    and "buffer_ptr rb' = write_cells rb src" "buffer_size rb' = buffer_size rb"
    and d: "d = rt_ringbuffer_data_len rb + length src - buffer_size rb"
    and "read_index rb' = (read_index rb + d) mod buffer_size rb"
    and "rt_ringbuffer_data_len rb' = rt_ringbuffer_data_len rb + length src - d"
  shows "rb_list rb' = drop d (rb_list rb @ src)"
  unfolding rb_list_def assms(3,4,6,7)
proof (rule ring_write [where w = "write_index rb"])
  show "write_cells rb src ! j =
      (if (j + (buffer_size rb - write_index rb)) mod buffer_size rb < length src
       then src ! ((j + (buffer_size rb - write_index rb)) mod buffer_size rb)
       else buffer_ptr rb ! j)" if "j < buffer_size rb" for j
    using assms(1,2) that by (rule nth_write_cells)
qed (fact rb_inv_bounds [OF assms(1)] assms(2) d)+

section \<open>The operations as queue operations\<close>

lemma rt_ringbuffer_init_ok:
  assumes "4 \<le> sz" "sz < 2 ^ 15" "sz \<le> int (length pool)"
  shows "\<exists>rb. rt_ringbuffer_init pool sz = Some rb \<and> rb_inv rb \<and> rb_list rb = [] \<and>
    buffer_size rb = nat (sz - sz mod 4)"
proof -
  have "0 < sz - sz mod 4" "sz - sz mod 4 \<le> sz" using assms(1) by presburger+
  then show ?thesis
    using assms
    by (auto simp: rt_ringbuffer_init_def RT_ALIGN_DOWN_4_int rb_inv_def rb_idx_ok_def idx_ok_def
        rb_list_def ring_def rt_ringbuffer_data_len_def rt_ringbuffer_status_def)
qed

lemma rb_inv_write:
  assumes "rb_inv rb" "length src \<le> buffer_size rb"
    and "rt_ringbuffer_data_len rb + length src \<le> buffer_size rb"
    and rb': "rb' = (if length src < buffer_size rb - write_index rb
        then rb\<lparr>buffer_ptr := write_cells rb src, write_index := write_index rb + length src\<rparr>
        else rb\<lparr>buffer_ptr := write_cells rb src, write_mirror := \<not> write_mirror rb,
               write_index := length src - (buffer_size rb - write_index rb)\<rparr>)"
  shows "rb_inv rb'" "rb_list rb' = rb_list rb @ src" "buffer_size rb' = buffer_size rb"
proof -
  note ok = assms(1) [unfolded rb_inv_def rb_idx_ok_def]
  note fits = assms(3) [unfolded data_len_inv [OF assms(1)]]
  have idx: "rb_idx_ok rb'" "rt_ringbuffer_data_len rb' = rt_ringbuffer_data_len rb + length src"
  proof -
    have "rb_idx_ok rb' \<and>
      idx_len (buffer_size rb') (read_mirror rb') (read_index rb') (write_mirror rb')
        (write_index rb') = rt_ringbuffer_data_len rb + length src"
    proof (cases "length src < buffer_size rb - write_index rb")
      case True
      with idx_advance_write [OF _ fits] ok show ?thesis
        by (simp add: rb' rb_idx_ok_def data_len_inv [OF assms(1)])
    next
      case False
      with idx_advance_write_wrap [OF _ fits] ok show ?thesis
        by (simp add: rb' rb_idx_ok_def data_len_inv [OF assms(1)] del: diff_diff_right)
    qed
    then show "rb_idx_ok rb'" "rt_ringbuffer_data_len rb' = rt_ringbuffer_data_len rb + length src"
      by (auto simp: data_len_idx)
  qed
  show sz: "buffer_size rb' = buffer_size rb" by (simp add: rb')
  have bp: "buffer_ptr rb' = write_cells rb src" by (simp add: rb')
  show "rb_inv rb'"
    using idx(1) assms(1,2) rb_inv_bounds [OF assms(1)] by (simp add: rb_inv_def bp sz)
  have "read_index rb' = read_index rb" by (simp add: rb')
  then have "rb_list rb' = drop 0 (rb_list rb @ src)"
    using assms(3) idx(2) rb_inv_bounds(1) [OF assms(1)]
    by (intro rb_list_write [OF assms(1,2) bp sz]) simp_all
  then show "rb_list rb' = rb_list rb @ src" by simp
qed

lemma rt_ringbuffer_put_alt:
  assumes "rb_inv rb" and s: "rt_ringbuffer_space_len rb \<noteq> 0"
    and len: "len = min (length ptr) (rt_ringbuffer_space_len rb)"
  shows "rt_ringbuffer_put rb ptr = (len, let src = take len ptr in
     (if length src < buffer_size rb - write_index rb
        then rb\<lparr>buffer_ptr := write_cells rb src, write_index := write_index rb + length src\<rparr>
        else rb\<lparr>buffer_ptr := write_cells rb src, write_mirror := \<not> write_mirror rb,
               write_index := length src - (buffer_size rb - write_index rb)\<rparr>))"
proof -
  have le: "len \<le> buffer_size rb" "length (take len ptr) = len"
    using len by (auto simp: rt_ringbuffer_space_len_def)
  have len': "(if rt_ringbuffer_space_len rb < length ptr then rt_ringbuffer_space_len rb
      else length ptr) = len"
    using len by simp
  show ?thesis
  proof (cases "len < buffer_size rb - write_index rb")
    case True
    then show ?thesis using s le assms(1)
      by (simp add: rt_ringbuffer_put_def len' Let_def write_cells_def)
  next
    case False
    then show ?thesis using s le assms(1)
      by (simp add: rt_ringbuffer_put_def len' Let_def write_cells_def take_drop)
  qed
qed

lemma put_spec:
  assumes "rb_inv rb" and put: "rt_ringbuffer_put rb ptr = (len, rb')"
  shows "len = min (length ptr) (rt_ringbuffer_space_len rb)" "rb_inv rb'"
    "buffer_size rb' = buffer_size rb" "rb_list rb' = rb_list rb @ take len ptr"
proof -
  have "len = min (length ptr) (rt_ringbuffer_space_len rb) \<and> rb_inv rb' \<and>
    buffer_size rb' = buffer_size rb \<and> rb_list rb' = rb_list rb @ take len ptr"
  proof (cases "rt_ringbuffer_space_len rb = 0")
    case True
    with put assms(1) show ?thesis by (simp add: rt_ringbuffer_put_def)
  next
    case False
    let ?len = "min (length ptr) (rt_ringbuffer_space_len rb)"
    note alt = rt_ringbuffer_put_alt [OF assms(1) False refl, of ptr]
    have "length (take ?len ptr) \<le> buffer_size rb"
      "rt_ringbuffer_data_len rb + length (take ?len ptr) \<le> buffer_size rb"
      using rb_inv_bounds(6) [OF assms(1)] by (auto simp: rt_ringbuffer_space_len_def)
    note w = rb_inv_write [OF assms(1) this, of rb']
    have "len = ?len" "rb' = (let src = take ?len ptr in
     (if length src < buffer_size rb - write_index rb
        then rb\<lparr>buffer_ptr := write_cells rb src, write_index := write_index rb + length src\<rparr>
        else rb\<lparr>buffer_ptr := write_cells rb src, write_mirror := \<not> write_mirror rb,
               write_index := length src - (buffer_size rb - write_index rb)\<rparr>))"
      using put unfolding alt prod.inject by blast+
    with w show ?thesis unfolding Let_def by blast
  qed
  then show "len = min (length ptr) (rt_ringbuffer_space_len rb)" "rb_inv rb'"
    "buffer_size rb' = buffer_size rb" "rb_list rb' = rb_list rb @ take len ptr" by auto
qed

lemma rb_inv_read:
  assumes "rb_inv rb" "len \<le> rt_ringbuffer_data_len rb"
    and rb': "rb' = (if len < buffer_size rb - read_index rb
        then rb\<lparr>read_index := read_index rb + len\<rparr>
        else rb\<lparr>read_mirror := \<not> read_mirror rb,
               read_index := len - (buffer_size rb - read_index rb)\<rparr>)"
  shows "rb_inv rb'" "rb_list rb' = drop len (rb_list rb)" "buffer_size rb' = buffer_size rb"
    "buffer_ptr rb' = buffer_ptr rb"
proof -
  note ok = assms(1) [unfolded rb_inv_def rb_idx_ok_def]
  note fits = assms(2) [unfolded data_len_inv [OF assms(1)]]
  note bounds = rb_inv_bounds [OF assms(1)]
  have "rb_idx_ok rb' \<and>
    idx_len (buffer_size rb') (read_mirror rb') (read_index rb') (write_mirror rb')
      (write_index rb') = rt_ringbuffer_data_len rb - len"
  proof (cases "len < buffer_size rb - read_index rb")
    case True
    with idx_advance_read [OF _ fits] ok show ?thesis
      by (simp add: rb' rb_idx_ok_def data_len_inv [OF assms(1)])
  next
    case False
    with idx_advance_read_wrap [OF _ fits] ok show ?thesis
      by (simp add: rb' rb_idx_ok_def data_len_inv [OF assms(1)] del: diff_diff_right)
  qed
  then have idx: "rb_idx_ok rb'" "rt_ringbuffer_data_len rb' = rt_ringbuffer_data_len rb - len"
    by (auto simp: data_len_idx)
  show sz: "buffer_size rb' = buffer_size rb" and bp: "buffer_ptr rb' = buffer_ptr rb"
    by (simp_all add: rb')
  show "rb_inv rb'" using idx(1) bounds by (simp add: rb_inv_def bp sz)
  have "read_index rb' = (read_index rb + len) mod buffer_size rb"
    using bounds(1,6) assms(2) by (auto simp: rb' mod_if)
  then show "rb_list rb' = drop len (rb_list rb)"
    using assms(2) by (simp add: rb_list_def idx(2) sz bp ring_drop)
qed

lemma get_spec:
  assumes "rb_inv rb" and get: "rt_ringbuffer_get rb len0 = (len, bs, rb')"
  shows "len = min len0 (rt_ringbuffer_data_len rb)" "rb_inv rb'"
    "buffer_size rb' = buffer_size rb" "bs = take len (rb_list rb)"
    "rb_list rb' = drop len (rb_list rb)"
proof -
  note bounds = rb_inv_bounds [OF assms(1)]
  show len: "len = min len0 (rt_ringbuffer_data_len rb)"
    using get by (auto simp: rt_ringbuffer_get_def Let_def split: if_splits)
  have le: "len \<le> rt_ringbuffer_data_len rb" using len by simp
  have len': "(if rt_ringbuffer_data_len rb < len0 then rt_ringbuffer_data_len rb else len0) = len"
    using len by simp
  have i15: "index15 (read_index rb + len) = read_index rb + len" if
    "len < buffer_size rb - read_index rb"
    using that assms(1) bounds by simp
  have i15': "index15 (len - (buffer_size rb - read_index rb)) =
      len - (buffer_size rb - read_index rb)"
    by (rule index15_small [OF assms(1)]) (use bounds(1,6) le in linarith)
  have "rb' = (if len < buffer_size rb - read_index rb
        then rb\<lparr>read_index := read_index rb + len\<rparr>
        else rb\<lparr>read_mirror := \<not> read_mirror rb,
               read_index := len - (buffer_size rb - read_index rb)\<rparr>) \<and>
    bs = (if len < buffer_size rb - read_index rb
        then take len (drop (read_index rb) (buffer_ptr rb))
        else take (buffer_size rb - read_index rb) (drop (read_index rb) (buffer_ptr rb)) @
          take (len - (buffer_size rb - read_index rb)) (buffer_ptr rb))"
  proof (cases "rt_ringbuffer_data_len rb = 0")
    case True
    with get len bounds show ?thesis by (simp add: rt_ringbuffer_get_def)
  next
    case False
    with get i15 i15' show ?thesis
      by (cases "len < buffer_size rb - read_index rb")
        (simp_all add: rt_ringbuffer_get_def len' Let_def del: diff_diff_right)
  qed
  then have rb': "rb' = (if len < buffer_size rb - read_index rb
        then rb\<lparr>read_index := read_index rb + len\<rparr>
        else rb\<lparr>read_mirror := \<not> read_mirror rb,
               read_index := len - (buffer_size rb - read_index rb)\<rparr>)"
    and bs: "bs = (if len < buffer_size rb - read_index rb
        then take len (drop (read_index rb) (buffer_ptr rb))
        else take (buffer_size rb - read_index rb) (drop (read_index rb) (buffer_ptr rb)) @
          take (len - (buffer_size rb - read_index rb)) (buffer_ptr rb))"
    by blast+
  show "bs = take len (rb_list rb)"
    unfolding bs rb_list_def by (rule ring_read_cells) (fact bounds(1) le bounds(6,3))+
  show "rb_inv rb'" "buffer_size rb' = buffer_size rb" "rb_list rb' = drop len (rb_list rb)"
    by (fact rb_inv_read [OF assms(1) le rb'])+
qed

lemma rt_ringbuffer_putchar_put:
  assumes "rb_inv rb"
  shows "rt_ringbuffer_putchar rb ch = rt_ringbuffer_put rb [ch]"
proof -
  note bounds = rb_inv_bounds [OF assms]
  show ?thesis
  proof (cases "rt_ringbuffer_space_len rb = 0 \<or> write_index rb \<noteq> buffer_size rb - 1")
    case True
    then show ?thesis
      using assms bounds(2,3)
      by (auto simp: rt_ringbuffer_putchar_def rt_ringbuffer_put_def Let_def memcpy_at_one)
  next
    case False
    then show ?thesis
      using assms bounds(2,3)
      by (auto simp: rt_ringbuffer_putchar_def rt_ringbuffer_put_def Let_def memcpy_at_one
          index15_def)
  qed
qed

lemma rt_ringbuffer_getchar_get:
  assumes "rb_inv rb"
  shows "rt_ringbuffer_getchar rb =
    (case rt_ringbuffer_get rb 1 of (n, bs, rb') \<Rightarrow> (n, (case bs of [] \<Rightarrow> None | b # _ \<Rightarrow> Some b), rb'))"
proof -
  note bounds = rb_inv_bounds [OF assms]
  have "drop (read_index rb) (buffer_ptr rb) =
      buffer_ptr rb ! read_index rb # drop (Suc (read_index rb)) (buffer_ptr rb)"
    using bounds by (simp add: Cons_nth_drop_Suc)
  moreover have "buffer_size rb - read_index rb = 1 \<longleftrightarrow> int (read_index rb) = int (buffer_size rb) - 1"
    using bounds(1) by linarith
  ultimately show ?thesis
    using assms bounds(1,3)
    by (cases "buffer_size rb - read_index rb = 1")
      (auto simp: rt_ringbuffer_getchar_def rt_ringbuffer_get_def Let_def index15_def)
qed

lemma peek_spec:
  assumes "rb_inv rb" and peek: "rt_ringbuffer_peek rb = (c, p, rb')"
  shows "rb_inv rb'" "c = min (rt_ringbuffer_data_len rb) (buffer_size rb - read_index rb)"
    "rb_list rb' = drop c (rb_list rb)" "p = (if c = 0 then None else Some (read_index rb))"
    "take c (drop (read_index rb) (buffer_ptr rb)) = take c (rb_list rb)"
proof -
  note bounds = rb_inv_bounds [OF assms(1)]
  let ?n = "rt_ringbuffer_data_len rb"
  show c: "c = min ?n (buffer_size rb - read_index rb)"
    and "p = (if c = 0 then None else Some (read_index rb))"
    using peek bounds(1) by (auto simp: rt_ringbuffer_peek_def Let_def split: if_splits)
  have "rb' = (if c < buffer_size rb - read_index rb
        then rb\<lparr>read_index := read_index rb + c\<rparr>
        else rb\<lparr>read_mirror := \<not> read_mirror rb,
               read_index := c - (buffer_size rb - read_index rb)\<rparr>)"
    using peek bounds assms(1)
    by (auto simp: rt_ringbuffer_peek_def Let_def c split: if_splits)
  from rb_inv_read [OF assms(1) _ this] c
  show "rb_inv rb'" "rb_list rb' = drop c (rb_list rb)" by simp_all
  show "take c (drop (read_index rb) (buffer_ptr rb)) = take c (rb_list rb)"
    using ring_read_cells [of "read_index rb" "buffer_size rb" c ?n "buffer_ptr rb"] bounds c
    by (auto simp: rb_list_def split: if_splits)
qed

lemma put_force_spec:
  assumes "rb_inv rb" and put: "rt_ringbuffer_put_force rb ptr0 = (len, rb')"
  shows "len = min (length ptr0) (buffer_size rb)" "rb_inv rb'"
    "buffer_size rb' = buffer_size rb"
    "rb_list rb' = (let all = rb_list rb @ ptr0 in drop (length all - buffer_size rb) all)"
proof -
  note bounds = rb_inv_bounds [OF assms(1)]
  define m w r n where "m = buffer_size rb" and "w = write_index rb" and "r = read_index rb"
    and "n = rt_ringbuffer_data_len rb"
  define src where "src = drop (length ptr0 - m) ptr0"
  note ok = assms(1) [unfolded rb_inv_def rb_idx_ok_def]
  show len: "len = min (length ptr0) (buffer_size rb)"
    using put by (auto simp: rt_ringbuffer_put_force_def Let_def split: if_splits)
  have src: "length src = len" "len \<le> m" using len by (auto simp: src_def m_def)
  have w: "w < m" "r < m" "n \<le> m" using bounds by (auto simp: m_def w_def r_def n_def)
  have args: "(if length ptr0 > buffer_size rb then drop (length ptr0 - buffer_size rb) ptr0
      else ptr0) = src"
    "(if length ptr0 > buffer_size rb then buffer_size rb else length ptr0) = len"
    using len by (auto simp: src_def m_def)
  have sp: "rt_ringbuffer_space_len rb = m - n" by (simp add: rt_ringbuffer_space_len_def m_def n_def)
  note put' = put [unfolded rt_ringbuffer_put_force_def Let_def args sp, folded m_def w_def r_def]
  have n: "n = idx_len m (read_mirror rb) r (write_mirror rb) w"
    using data_len_inv [OF assms(1)] by (simp add: m_def w_def r_def n_def)
  have ok': "idx_ok m (read_mirror rb) r (write_mirror rb) w"
    using ok by (simp add: m_def w_def r_def)
  define d where "d = n + len - m"
  have main: "buffer_ptr rb' = write_cells rb src \<and> buffer_size rb' = m \<and> rb_idx_ok rb' \<and>
    read_index rb' = (r + d) mod m \<and> rt_ringbuffer_data_len rb' = n + len - d"
  proof (cases "len < m - w")
    case True
    then have "index15 (write_index rb + len) = w + len" "take len src = src"
      using assms(1) src by (auto simp: m_def w_def)
    with True put' src have rb': "rb' = (if len > m - n
        then rb\<lparr>buffer_ptr := write_cells rb src, write_index := w + len, read_index := w + len\<rparr>
        else rb\<lparr>buffer_ptr := write_cells rb src, write_index := w + len\<rparr>)"
      by (auto simp: Let_def write_cells_def simp flip: m_def w_def)
    show ?thesis
    proof (cases "len > m - n")
      case True
      then have "m < idx_len m (read_mirror rb) r (write_mirror rb) w + len" using n w by linarith
      note f = idx_force_write [OF ok' this \<open>len < m - w\<close>]
      have "rb_idx_ok rb'" using f(1) True by (simp add: rb' rb_idx_ok_def flip: m_def)
      then show ?thesis
        using f True n w(3) by (simp add: data_len_idx) (simp add: rb' d_def flip: m_def)
    next
      case False
      then have "idx_len m (read_mirror rb) r (write_mirror rb) w + len \<le> m" using n w by linarith
      note f = idx_advance_write [OF ok' this \<open>len < m - w\<close>]
      have "rb_idx_ok rb'" using f(1) False
        by (simp add: rb' rb_idx_ok_def flip: m_def r_def)
      then show ?thesis
        using f False n w by (simp add: data_len_idx) (simp add: rb' d_def flip: m_def r_def)
    qed
  next
    case False
    have "index15 (len - (m - w)) = len - (m - w)"
      by (rule index15_small [OF assms(1)]) (use src w in \<open>simp add: m_def\<close>)
    moreover have "take len src = src" "take (m - w) src @ drop (m - w) src = src"
      "take (len - (m - w)) (drop (m - w) src) = drop (m - w) src"
      using src by auto
    ultimately have rb': "rb' = (let w' = len - (m - w) in if len > m - n
        then rb\<lparr>buffer_ptr := write_cells rb src, write_mirror := \<not> write_mirror rb,
               write_index := w',
               read_mirror := (if w' \<le> r then \<not> read_mirror rb else read_mirror rb),
               read_index := w'\<rparr>
        else rb\<lparr>buffer_ptr := write_cells rb src, write_mirror := \<not> write_mirror rb,
               write_index := w'\<rparr>)"
      using False put' src
      by (cases "len > m - n"; cases "len - (m - w) \<le> r")
        (simp_all add: Let_def write_cells_def del: diff_diff_right flip: m_def w_def r_def)
    show ?thesis
    proof (cases "len > m - n")
      case True
      then have "m < idx_len m (read_mirror rb) r (write_mirror rb) w + len" using n w by linarith
      note f = idx_force_write_wrap [OF ok' this False src(2) refl]
      have "rb_idx_ok rb'" using f(1) True
        by (simp add: rb' rb_idx_ok_def Let_def del: diff_diff_right flip: m_def)
      then show ?thesis
        using f True n w(3)
        by (simp add: data_len_idx del: diff_diff_right)
          (simp add: rb' Let_def d_def del: diff_diff_right flip: m_def)
    next
      case False
      note nw = \<open>\<not> len < m - w\<close>
      have "idx_len m (read_mirror rb) r (write_mirror rb) w + len \<le> m" using n w False by linarith
      note f = idx_advance_write_wrap [OF ok' this nw]
      have "rb_idx_ok rb'" using f(1) False
        by (simp add: rb' rb_idx_ok_def Let_def del: diff_diff_right flip: m_def r_def)
      then show ?thesis
        using f False n w
        by (simp add: data_len_idx del: diff_diff_right)
          (simp add: rb' Let_def d_def del: diff_diff_right flip: m_def r_def)
    qed
  qed
  then show "buffer_size rb' = buffer_size rb" by (simp add: m_def)
  have "length (write_cells rb src) = length (buffer_ptr rb)"
    using assms(1) src by (intro length_write_cells) (auto simp: m_def)
  then show "rb_inv rb'"
    using main bounds(3,4) by (simp add: rb_inv_def m_def)
  have "rb_list rb' = drop d (rb_list rb @ src)"
    by (rule rb_list_write) (use assms(1) src main in \<open>auto simp: m_def r_def n_def d_def\<close>)
  also have "\<dots> = (let all = rb_list rb @ ptr0 in drop (length all - buffer_size rb) all)"
  proof (cases "length ptr0 \<le> m")
    case True
    then show ?thesis using len by (simp add: src_def d_def Let_def n_def flip: m_def)
  next
    case False
    then show ?thesis
      using len w(3) by (simp add: src_def d_def Let_def n_def flip: m_def)
  qed
  finally show "rb_list rb' = (let all = rb_list rb @ ptr0 in drop (length all - buffer_size rb) all)" .
qed

lemma rt_ringbuffer_putchar_force_put_force:
  assumes "rb_inv rb"
  shows "rt_ringbuffer_putchar_force rb ch = rt_ringbuffer_put_force rb [ch]"
proof -
  note bounds = rb_inv_bounds [OF assms]
  have full: "rt_ringbuffer_status rb = RT_RINGBUFFER_FULL \<longleftrightarrow> rt_ringbuffer_space_len rb < 1"
    using assms bounds(6) data_len_inv [OF assms]
    by (auto simp: rt_ringbuffer_space_len_def rt_ringbuffer_status_def idx_len_def rb_inv_def
        rb_idx_ok_def idx_ok_def split: if_splits)
  have fullr: "read_index rb = write_index rb" if "rt_ringbuffer_status rb = RT_RINGBUFFER_FULL"
    using that by (auto simp: rt_ringbuffer_status_def split: if_splits)
  have sz: "\<not> length [ch] > buffer_size rb" using bounds(5) by simp
  show ?thesis
  proof (cases "int (write_index rb) = int (buffer_size rb) - 1")
    case True
    then have "\<not> 1 < buffer_size rb - write_index rb" "buffer_size rb - write_index rb = 1"
      by linarith+
    with True sz full fullr assms bounds(2,3) show ?thesis
      by (auto simp: rt_ringbuffer_putchar_force_def rt_ringbuffer_put_force_def Let_def
          memcpy_at_one index15_def)
  next
    case False
    then have "1 < buffer_size rb - write_index rb" using bounds(2) by linarith
    with False sz full fullr assms bounds(2,3) show ?thesis
      by (auto simp: rt_ringbuffer_putchar_force_def rt_ringbuffer_put_force_def Let_def
          memcpy_at_one)
  qed
qed

section \<open>The contract of a bounded byte queue\<close>

locale bounded_fifo =
  fixes inv :: "'q \<Rightarrow> bool"
    and content :: "'q \<Rightarrow> 'b list"
    and cap :: "'q \<Rightarrow> nat"
    and put :: "'q \<Rightarrow> 'b list \<Rightarrow> nat \<times> 'q"
    and get :: "'q \<Rightarrow> nat \<Rightarrow> nat \<times> 'b list \<times> 'q"
  assumes bounded: "inv q \<Longrightarrow> length (content q) \<le> cap q"
    and put_law: "inv q \<Longrightarrow> put q bs = (n, q') \<Longrightarrow>
      n = min (length bs) (cap q - length (content q)) \<and> inv q' \<and> cap q' = cap q \<and>
      content q' = content q @ take n bs"
    and get_law: "inv q \<Longrightarrow> get q k = (n, bs, q') \<Longrightarrow>
      n = min k (length (content q)) \<and> inv q' \<and> cap q' = cap q \<and>
      bs = take n (content q) \<and> content q' = drop n (content q)"
begin

lemma put_all:
  "inv q \<Longrightarrow> length (content q) + length (concat bss) \<le> cap q \<Longrightarrow>
   inv (fold (\<lambda>bs q. snd (put q bs)) bss q) \<and>
   content (fold (\<lambda>bs q. snd (put q bs)) bss q) = content q @ concat bss"
proof (induction bss arbitrary: q)
  case Nil
  then show ?case by simp
next
  case (Cons bs bss)
  obtain n q' where put: "put q bs = (n, q')" by fastforce
  from put_law [OF Cons.prems(1) put] Cons.prems(2)
  have "n = length bs" "inv q'" "cap q' = cap q" "content q' = content q @ bs" by auto
  with Cons.IH [of q'] Cons.prems put show ?case by simp
qed

lemma stream_roundtrip:
  assumes "inv q" "length (content q) + length (concat bss) \<le> cap q"
    and "get (fold (\<lambda>bs q. snd (put q bs)) bss q) (length (content q) + length (concat bss)) =
      (n, bs, q')"
  shows "bs = content q @ concat bss \<and> content q' = [] \<and> inv q'"
  using put_all [OF assms(1,2)] get_law [OF _ assms(3)] by simp

end

interpretation rb: bounded_fifo rb_inv rb_list buffer_size rt_ringbuffer_put rt_ringbuffer_get
proof
  show "length (rb_list q) \<le> buffer_size q" if "rb_inv q" for q
    using rb_inv_bounds(6) [OF that] by simp
next
  fix q bs n q' assume "rb_inv q" "rt_ringbuffer_put q bs = (n, q')"
  from put_spec [OF this]
  show "n = min (length bs) (buffer_size q - length (rb_list q)) \<and> rb_inv q' \<and>
      buffer_size q' = buffer_size q \<and> rb_list q' = rb_list q @ take n bs"
    by (simp add: rt_ringbuffer_space_len_def)
next
  fix q k n bs q' assume "rb_inv q" "rt_ringbuffer_get q k = (n, bs, q')"
  from get_spec [OF this]
  show "n = min k (length (rb_list q)) \<and> rb_inv q' \<and> buffer_size q' = buffer_size q \<and>
      bs = take n (rb_list q) \<and> rb_list q' = drop n (rb_list q)"
    by simp
qed

section \<open>Properties\<close>

lemmas rb_eval = rb_inv_def rb_idx_ok_def idx_ok_def rb_list_def ring_def upt_rec
  rt_ringbuffer_data_len_def rt_ringbuffer_status_def

text \<open>\<^verbatim>\<open>rt_ringbuffer_put\<close> accepts as many bytes as there is space, returns this count,
  appends exactly these bytes to the contents, also when the copy wraps around the end of the
  array, and keeps the invariant and the capacity.\<close>

theorem rt_ringbuffer_put_appends:
  assumes "rb_inv rb" and "rt_ringbuffer_put rb ptr = (len, rb')"
  shows "len = min (length ptr) (buffer_size rb - length (rb_list rb)) \<and> rb_inv rb' \<and>
    buffer_size rb' = buffer_size rb \<and> rb_list rb' = rb_list rb @ take len ptr"
  using assms by (rule rb.put_law)

theorem rt_ringbuffer_put_appends_witness:
  "rb_list \<lparr>buffer_ptr = [9, 1, 1, 8], read_mirror = False, read_index = 3,
     write_mirror = True, write_index = 3, buffer_size = 4\<rparr> = [8, 9, 1, 1] \<and>
   rb_list (snd (rt_ringbuffer_put \<lparr>buffer_ptr = [0, 0, 7, 8], read_mirror = False, read_index = 2,
     write_mirror = True, write_index = 0, buffer_size = 4\<rparr> [5, 6, 4])) = [7, 8] @ take 2 [5, 6, 4]"
  (is "?A \<and> _")
proof
  show ?A by (simp add: rb_eval)
  have "rb_inv \<lparr>buffer_ptr = [0, 0, 7, 8], read_mirror = False, read_index = 2,
     write_mirror = True, write_index = 0, buffer_size = 4\<rparr>"
    "rb_list \<lparr>buffer_ptr = [0, 0, 7, 8], read_mirror = False, read_index = 2,
     write_mirror = True, write_index = 0, buffer_size = 4\<rparr> = [7, 8]" by (simp_all add: rb_eval)
  with rt_ringbuffer_put_appends [OF this(1) prod.collapse [symmetric], of "[5, 6, 4]"]
  show "rb_list (snd (rt_ringbuffer_put \<lparr>buffer_ptr = [0, 0, 7, 8], read_mirror = False,
     read_index = 2, write_mirror = True, write_index = 0, buffer_size = 4\<rparr> [5, 6, 4])) =
     [7, 8] @ take 2 [5, 6, 4]" by simp
qed

text \<open>\<^verbatim>\<open>rt_ringbuffer_put_force\<close> always accepts the last bytes of its input, up to the
  capacity; the oldest bytes that no longer fit are dropped, in order, and nothing else is lost.\<close>

theorem rt_ringbuffer_put_force_keeps_newest:
  assumes "rb_inv rb" and "rt_ringbuffer_put_force rb ptr = (len, rb')"
  shows "len = min (length ptr) (buffer_size rb) \<and> rb_inv rb' \<and> buffer_size rb' = buffer_size rb \<and>
    rb_list rb' = drop (length (rb_list rb @ ptr) - buffer_size rb) (rb_list rb @ ptr)"
  using put_force_spec [OF assms] by (simp only: Let_def simp_thms)

theorem rt_ringbuffer_put_force_keeps_newest_witness:
  "rb_list (snd (rt_ringbuffer_put_force \<lparr>buffer_ptr = [1, 2, 3, 4], read_mirror = False,
     read_index = 2, write_mirror = True, write_index = 1, buffer_size = 4\<rparr> [5, 6, 7])) =
   [1, 5, 6, 7]"
proof -
  have "rb_inv \<lparr>buffer_ptr = [1, 2, 3, 4], read_mirror = False, read_index = 2,
     write_mirror = True, write_index = 1, buffer_size = 4\<rparr>"
    "rb_list \<lparr>buffer_ptr = [1, 2, 3, 4], read_mirror = False, read_index = 2,
     write_mirror = True, write_index = 1, buffer_size = 4\<rparr> = [3, 4, 1]" by (simp_all add: rb_eval)
  with rt_ringbuffer_put_force_keeps_newest [OF this(1) prod.collapse [symmetric], of "[5, 6, 7]"]
  show ?thesis by (simp del: length_rb_list One_nat_def)
qed

text \<open>C27: Bytes put in any number of chunks that fit are read back in the order of arrival by one
  \<^verbatim>\<open>rt_ringbuffer_get\<close>, which leaves the buffer empty.\<close>

theorem rt_ringbuffer_stream_roundtrip:
  assumes "rb_inv rb" and "length (rb_list rb) + length (concat chunks) \<le> buffer_size rb"
    and "rt_ringbuffer_get (fold (\<lambda>bs q. snd (rt_ringbuffer_put q bs)) chunks rb)
      (length (rb_list rb) + length (concat chunks)) = (n, bs, rb')"
  shows "bs = rb_list rb @ concat chunks \<and> rb_list rb' = [] \<and> rb_inv rb'"
  using assms by (rule rb.stream_roundtrip)

theorem rt_ringbuffer_stream_roundtrip_witness:
  "fst (snd (rt_ringbuffer_get (fold (\<lambda>bs q. snd (rt_ringbuffer_put q bs)) [[5], [6, 7]]
     \<lparr>buffer_ptr = [1, 2, 3, 4], read_mirror = False, read_index = 2, write_mirror = False,
      write_index = 3, buffer_size = 4\<rparr>) 4)) = [3, 5, 6, 7]"
proof -
  let ?rb = "\<lparr>buffer_ptr = [1, 2, 3, 4], read_mirror = False, read_index = 2,
    write_mirror = False, write_index = 3, buffer_size = 4\<rparr>"
  have "rb_inv ?rb" "rb_list ?rb = [3]" by (simp_all add: rb_eval)
  then have "rt_ringbuffer_get (fold (\<lambda>bs q. snd (rt_ringbuffer_put q bs)) [[5], [6, 7]] ?rb) 4 =
      (n, bs, rb') \<Longrightarrow> bs = [3] @ concat [[5], [6, 7]]" for n bs rb'
    using rt_ringbuffer_stream_roundtrip [of ?rb "[[5], [6, 7]]" n bs rb']
    by (simp add: eval_nat_numeral del: fold.simps length_rb_list)
  then show ?thesis
    by (cases "rt_ringbuffer_get (fold (\<lambda>bs q. snd (rt_ringbuffer_put q bs)) [[5], [6, 7]] ?rb) 4")
      (simp del: fold.simps)
qed

text \<open>The single-byte routines are the block routines on one byte, on every reachable buffer:
  they have their own index arithmetic in the source.\<close>

theorem rt_ringbuffer_char_variants:
  assumes "rb_inv rb"
  shows "rt_ringbuffer_putchar rb ch = rt_ringbuffer_put rb [ch] \<and>
    rt_ringbuffer_putchar_force rb ch = rt_ringbuffer_put_force rb [ch] \<and>
    rt_ringbuffer_getchar rb = (case rt_ringbuffer_get rb 1 of
      (n, bs, rb') \<Rightarrow> (n, (case bs of [] \<Rightarrow> None | b # _ \<Rightarrow> Some b), rb'))"
  by (intro conjI rt_ringbuffer_putchar_put rt_ringbuffer_putchar_force_put_force
      rt_ringbuffer_getchar_get assms)

theorem rt_ringbuffer_char_variants_witness:
  "rt_ringbuffer_putchar \<lparr>buffer_ptr = [1, 2, 3, 4], read_mirror = False, read_index = 2,
      write_mirror = False, write_index = 3, buffer_size = 4\<rparr> 9 =
   rt_ringbuffer_put \<lparr>buffer_ptr = [1, 2, 3, 4], read_mirror = False, read_index = 2,
      write_mirror = False, write_index = 3, buffer_size = 4\<rparr> [9]"
proof -
  have "rb_inv \<lparr>buffer_ptr = [1, 2, 3, 4], read_mirror = False, read_index = 2,
    write_mirror = False, write_index = 3, buffer_size = 4\<rparr>" by (simp add: rb_eval)
  from rt_ringbuffer_char_variants [OF this] show ?thesis by blast
qed

end
