(* ===== verification/Rt_List.thy ===== *)
theory Rt_List
  imports Prelude
begin

text \<open>
  The intrusive doubly linked lists of \<^verbatim>\<open>include/rtservice.h\<close> over an explicit pointer store: a
  node is an address, \<open>nxt\<close> and \<open>prv\<close> are the two pointer fields. Each C assignment is one store
  update, in the order of the source, so aliasing (a list of one node, an empty list whose head
  points to itself) is in the model.

  The predicate \<open>dlist\<close> abstracts a ring of nodes to a HOL list. The relation \<open>represents\<close> does
  this for a whole family of lists that share their nodes, which is how the kernel keeps thread
  nodes: a node is linked into at most one list, and an unlinked node points to itself. The
  simulation lemmas show that the pointer operations implement the list operations \<open>push_front\<close>,
  \<open>push_back\<close>, \<open>push_before\<close> and \<open>unlink\<close> that the kernel theories use.
\<close>

section \<open>The pointer operations\<close>

record 'p list_store =
  nxt :: "'p \<Rightarrow> 'p"
  prv :: "'p \<Rightarrow> 'p"

definition set_nxt :: "'p \<Rightarrow> 'p \<Rightarrow> 'p list_store \<Rightarrow> 'p list_store" where
  "set_nxt a b s = s\<lparr>nxt := (nxt s)(a := b)\<rparr>"

definition set_prv :: "'p \<Rightarrow> 'p \<Rightarrow> 'p list_store \<Rightarrow> 'p list_store" where
  "set_prv a b s = s\<lparr>prv := (prv s)(a := b)\<rparr>"

lemma set_nxt_sel [simp]:
  "nxt (set_nxt a b s) = (nxt s)(a := b)" "prv (set_nxt a b s) = prv s"
  by (simp_all add: set_nxt_def)

lemma set_prv_sel [simp]:
  "prv (set_prv a b s) = (prv s)(a := b)" "nxt (set_prv a b s) = nxt s"
  by (simp_all add: set_prv_def)

definition rt_list_init :: "'p \<Rightarrow> 'p list_store \<Rightarrow> 'p list_store" where
  "rt_list_init l s = set_nxt l l (set_prv l l s)"

definition rt_list_insert_after :: "'p \<Rightarrow> 'p \<Rightarrow> 'p list_store \<Rightarrow> 'p list_store" where
  "rt_list_insert_after l n s0 =
     (let s1 = set_prv (nxt s0 l) n s0;
          s2 = set_nxt n (nxt s1 l) s1;
          s3 = set_nxt l n s2
      in set_prv n l s3)"

definition rt_list_insert_before :: "'p \<Rightarrow> 'p \<Rightarrow> 'p list_store \<Rightarrow> 'p list_store" where
  "rt_list_insert_before l n s0 =
     (let s1 = set_nxt (prv s0 l) n s0;
          s2 = set_prv n (prv s1 l) s1;
          s3 = set_prv l n s2
      in set_nxt n l s3)"

definition rt_list_remove :: "'p \<Rightarrow> 'p list_store \<Rightarrow> 'p list_store" where
  "rt_list_remove n s0 =
     (let s1 = set_prv (nxt s0 n) (prv s0 n) s0;
          s2 = set_nxt (prv s1 n) (nxt s1 n) s1;
          s3 = set_prv n n s2
      in set_nxt n n s3)"

definition rt_list_isempty :: "'p \<Rightarrow> 'p list_store \<Rightarrow> bool" where
  "rt_list_isempty l s \<longleftrightarrow> nxt s l = l"

text \<open>The loop of \<^verbatim>\<open>rt_list_len\<close>: \<^verbatim>\<open>while (p->next != l) { p = p->next; len++; }\<close>; on a corrupt
  ring it need not end.\<close>

partial_function (option) rt_list_len_loop ::
  "'p \<Rightarrow> 'p list_store \<Rightarrow> 'p \<Rightarrow> 32 word \<Rightarrow> 32 word option" where
  "rt_list_len_loop l s p len =
     (if nxt s p \<noteq> l then rt_list_len_loop l s (nxt s p) (len + 1) else Some len)"

definition rt_list_len :: "'p \<Rightarrow> 'p list_store \<Rightarrow> 32 word option" where
  "rt_list_len l s = rt_list_len_loop l s l 0"

section \<open>Abstraction of one ring\<close>

primrec seg :: "'p list_store \<Rightarrow> 'p \<Rightarrow> 'p list \<Rightarrow> 'p \<Rightarrow> bool" where
  "seg s a [] b \<longleftrightarrow> nxt s a = b \<and> prv s b = a"
| "seg s a (x # xs) b \<longleftrightarrow> nxt s a = x \<and> prv s x = a \<and> seg s x xs b"

definition dlist :: "'p list_store \<Rightarrow> 'p \<Rightarrow> 'p list \<Rightarrow> bool" where
  "dlist s l xs \<longleftrightarrow> distinct (l # xs) \<and> seg s l xs l"

lemma seg_append [simp]:
  "seg s a (xs @ y # ys) b \<longleftrightarrow> seg s a xs y \<and> seg s y ys b"
  by (induction xs arbitrary: a) auto

lemma seg_cong:
  assumes "\<And>x. x = a \<or> x \<in> set xs \<Longrightarrow> nxt s x = nxt t x"
    and "\<And>x. x = b \<or> x \<in> set xs \<Longrightarrow> prv s x = prv t x"
  shows "seg s a xs b \<longleftrightarrow> seg t a xs b"
  using assms by (induction xs arbitrary: a) auto

lemma seg_set_nxt [simp]:
  "u \<noteq> a \<Longrightarrow> u \<notin> set xs \<Longrightarrow> seg (set_nxt u v s) a xs b = seg s a xs b"
  by (rule seg_cong) auto

lemma seg_set_prv [simp]:
  "u \<noteq> b \<Longrightarrow> u \<notin> set xs \<Longrightarrow> seg (set_prv u v s) a xs b = seg s a xs b"
  by (rule seg_cong) auto

lemma seg_first: "seg s a xs b \<Longrightarrow> nxt s a = hd (xs @ [b]) \<and> prv s (hd (xs @ [b])) = a"
  by (cases xs) auto

lemma seg_last: "seg s a xs b \<Longrightarrow> prv s b = last (a # xs) \<and> nxt s (last (a # xs)) = b"
  by (induction xs arbitrary: a) auto

lemma dlist_init: "dlist (rt_list_init l s) l []"
  by (simp add: dlist_def rt_list_init_def)

lemma dlist_isempty: "dlist s l xs \<Longrightarrow> rt_list_isempty l s \<longleftrightarrow> xs = []"
  by (cases xs) (auto simp: dlist_def rt_list_isempty_def)

text \<open>Inserting before any member of the ring, the head included.\<close>

lemma dlist_insert_before_head:
  assumes "dlist s l xs" "n \<notin> set (l # xs)"
  shows "dlist (rt_list_insert_before l n s) l (xs @ [n])"
  using assms
  by (cases xs rule: rev_cases)
    (auto simp: dlist_def rt_list_insert_before_def Let_def dest: seg_last)

lemma dlist_insert_before_member:
  assumes "dlist s l (xs @ y # ys)" "n \<notin> set (l # xs @ y # ys)"
  shows "dlist (rt_list_insert_before y n s) l (xs @ n # y # ys)"
  using assms
  by (cases xs rule: rev_cases)
    (auto simp: dlist_def rt_list_insert_before_def Let_def dest: seg_last)

lemma dlist_insert_after_head:
  assumes "dlist s l xs" "n \<notin> set (l # xs)"
  shows "dlist (rt_list_insert_after l n s) l (n # xs)"
  using assms
  by (cases xs) (auto simp: dlist_def rt_list_insert_after_def Let_def)

lemma dlist_insert_after_member:
  assumes "dlist s l (xs @ y # ys)" "n \<notin> set (l # xs @ y # ys)"
  shows "dlist (rt_list_insert_after y n s) l (xs @ y # n # ys)"
  using assms
  by (cases ys) (auto simp: dlist_def rt_list_insert_after_def Let_def)

lemma dlist_remove:
  assumes "dlist s l (xs @ n # ys)"
  shows "dlist (rt_list_remove n s) l (xs @ ys)"
    and "dlist (rt_list_remove n s) n []"
  using assms
  by (cases xs rule: rev_cases; cases ys;
      auto simp: dlist_def rt_list_remove_def Let_def dest: seg_last)+

text \<open>Nodes outside a ring can be rewritten without touching it.\<close>

lemma dlist_cong:
  assumes "\<And>x. x \<in> set (l # xs) \<Longrightarrow> nxt s x = nxt t x \<and> prv s x = prv t x"
  shows "dlist s l xs \<longleftrightarrow> dlist t l xs"
  using assms by (auto simp: dlist_def intro: seg_cong [THEN iffD1])

lemma seg_closed:
  "seg s a xs b \<Longrightarrow> x \<in> set xs \<Longrightarrow> nxt s x \<in> insert b (set xs) \<and> prv s x \<in> insert a (set xs)"
proof (induction xs arbitrary: a)
  case Nil
  then show ?case by simp
next
  case (Cons y ys)
  from Cons.prems have *: "seg s y ys b" "prv s y = a" by auto
  have "nxt s y \<in> insert b (set ys)"
    using seg_first [OF *(1)] by (cases ys) auto
  with Cons.IH [OF *(1)] Cons.prems * show ?case by auto
qed

lemma dlist_closed:
  assumes "dlist s l xs" "x \<in> set (l # xs)"
  shows "nxt s x \<in> set (l # xs) \<and> prv s x \<in> set (l # xs)"
proof (cases "x = l")
  case True
  have "hd (xs @ [l]) \<in> set (l # xs)" "last (l # xs) \<in> set (l # xs)"
    by (cases xs; simp) (rule last_in_set, simp)
  with True assms(1) seg_first [of s l xs l] seg_last [of s l xs l] show ?thesis
    by (simp only: dlist_def)
next
  case False
  with assms seg_closed [of s l xs l x] show ?thesis by (auto simp: dlist_def)
qed

section \<open>Length\<close>

lemma rt_list_len_loop_seg:
  assumes "seg s p xs l" "l \<notin> set xs"
  shows "rt_list_len_loop l s p n = Some (n + of_nat (length xs))"
  using assms
proof (induction xs arbitrary: p n)
  case Nil
  then show ?case by (subst rt_list_len_loop.simps) simp
next
  case (Cons x xs)
  then show ?case by (subst rt_list_len_loop.simps) (auto simp: ac_simps)
qed

lemma dlist_len: "dlist s l xs \<Longrightarrow> rt_list_len l s = Some (of_nat (length xs))"
  using rt_list_len_loop_seg [of s l xs l 0] by (simp add: dlist_def rt_list_len_def)

section \<open>A family of lists that share their nodes\<close>

datatype ('h, 'n) node = Head 'h | Node 'n

type_synonym ('h, 'n) queues = "'h \<Rightarrow> 'n list"

fun insert_in_front_of :: "'n \<Rightarrow> 'n \<Rightarrow> 'n list \<Rightarrow> 'n list" where
  "insert_in_front_of y n [] = []"
| "insert_in_front_of y n (x # xs) =
     (if x = y then n # x # xs else x # insert_in_front_of y n xs)"

definition push_front :: "'h \<Rightarrow> 'n \<Rightarrow> ('h, 'n) queues \<Rightarrow> ('h, 'n) queues" where
  "push_front h n L = L(h := n # L h)"

definition push_back :: "'h \<Rightarrow> 'n \<Rightarrow> ('h, 'n) queues \<Rightarrow> ('h, 'n) queues" where
  "push_back h n L = L(h := L h @ [n])"

definition push_before :: "'n \<Rightarrow> 'n \<Rightarrow> ('h, 'n) queues \<Rightarrow> ('h, 'n) queues" where
  "push_before y n L = (\<lambda>h. insert_in_front_of y n (L h))"

definition unlink :: "'n \<Rightarrow> ('h, 'n) queues \<Rightarrow> ('h, 'n) queues" where
  "unlink n L = (\<lambda>h. removeAll n (L h))"

definition linked :: "'n \<Rightarrow> ('h, 'n) queues \<Rightarrow> bool" where
  "linked n L \<longleftrightarrow> (\<exists>h. n \<in> set (L h))"

definition wf_queues :: "('h, 'n) queues \<Rightarrow> bool" where
  "wf_queues L \<longleftrightarrow> (\<forall>h. distinct (L h)) \<and> (\<forall>h h' n. n \<in> set (L h) \<longrightarrow> n \<in> set (L h') \<longrightarrow> h = h')"

definition represents :: "('h, 'n) node list_store \<Rightarrow> ('h, 'n) queues \<Rightarrow> bool" where
  "represents s L \<longleftrightarrow> wf_queues L \<and> (\<forall>h. dlist s (Head h) (map Node (L h))) \<and>
     (\<forall>n. \<not> linked n L \<longrightarrow> nxt s (Node n) = Node n \<and> prv s (Node n) = Node n)"

subsection \<open>The list operations\<close>

lemma insert_in_front_of_split:
  "y \<notin> set xs \<Longrightarrow> insert_in_front_of y n (xs @ y # ys) = xs @ n # y # ys"
  by (induction xs) auto

lemma insert_in_front_of_notin [simp]:
  "y \<notin> set xs \<Longrightarrow> insert_in_front_of y n xs = xs"
  by (induction xs) auto

lemma set_insert_in_front_of:
  "set (insert_in_front_of y n xs) = (if y \<in> set xs then insert n (set xs) else set xs)"
  by (induction xs) auto

lemma distinct_insert_in_front_of:
  "n \<notin> set xs \<Longrightarrow> distinct xs \<Longrightarrow> distinct (insert_in_front_of y n xs)"
  by (induction xs) (auto simp: set_insert_in_front_of)

lemma wf_queues_distinct: "wf_queues L \<Longrightarrow> distinct (L h)"
  by (simp add: wf_queues_def)

lemma wf_queues_unique: "wf_queues L \<Longrightarrow> n \<in> set (L h) \<Longrightarrow> n \<in> set (L h') \<Longrightarrow> h = h'"
  by (auto simp: wf_queues_def)

lemma wf_push_front: "wf_queues L \<Longrightarrow> \<not> linked n L \<Longrightarrow> wf_queues (push_front h n L)"
  by (auto simp: wf_queues_def push_front_def linked_def split: if_splits)

lemma wf_push_back: "wf_queues L \<Longrightarrow> \<not> linked n L \<Longrightarrow> wf_queues (push_back h n L)"
  by (auto simp: wf_queues_def push_back_def linked_def split: if_splits)

lemma wf_push_before: "wf_queues L \<Longrightarrow> \<not> linked n L \<Longrightarrow> wf_queues (push_before y n L)"
  by (auto simp: wf_queues_def push_before_def linked_def set_insert_in_front_of
      distinct_insert_in_front_of split: if_splits)

lemma wf_unlink: "wf_queues L \<Longrightarrow> wf_queues (unlink n L)"
  by (auto simp: wf_queues_def unlink_def distinct_removeAll)

lemma linked_unlink [simp]: "linked m (unlink n L) \<longleftrightarrow> linked m L \<and> m \<noteq> n"
  by (auto simp: linked_def unlink_def)

lemma unlink_unlinked: "\<not> linked n L \<Longrightarrow> unlink n L = L"
  by (auto simp: linked_def unlink_def)

lemma linked_push_front [simp]: "linked m (push_front h n L) \<longleftrightarrow> m = n \<or> linked m L"
  by (auto simp: linked_def push_front_def)

lemma linked_push_back [simp]: "linked m (push_back h n L) \<longleftrightarrow> m = n \<or> linked m L"
  by (auto simp: linked_def push_back_def)

lemma unlink_push_front:
  "\<not> linked n L \<Longrightarrow> unlink n (push_front h n L) = L"
  by (rule ext) (auto simp: unlink_def push_front_def linked_def)

subsection \<open>Simulation by the pointer operations\<close>

lemma represents_ring:
  "represents s L \<Longrightarrow> dlist s (Head h) (map Node (L h))"
  by (simp add: represents_def)

text \<open>Two rings of a family have no node in common, and no pointer leaves a ring; so a store that
  differs only on one ring and one unlinked node represents the other rings unchanged.\<close>

lemma represents_frame:
  assumes rep: "represents s L"
    and agree: "\<And>x. x \<notin> insert (Node n) (set (Head h # map Node (L h))) \<Longrightarrow>
      nxt t x = nxt s x \<and> prv t x = prv s x"
    and wf: "wf_queues L'"
    and ring: "dlist t (Head h) (map Node (L' h))"
    and others: "\<And>h'. h' \<noteq> h \<Longrightarrow> L' h' = L h' \<and> n \<notin> set (L h')"
    and members: "set (L h) \<subseteq> insert n (set (L' h))"
    and n_free: "\<not> linked n L' \<Longrightarrow> nxt t (Node n) = Node n \<and> prv t (Node n) = Node n"
  shows "represents t L'"
  unfolding represents_def
proof (intro conjI allI impI)
  show "wf_queues L'" by (fact wf)
next
  fix h'
  show "dlist t (Head h') (map Node (L' h'))"
  proof (cases "h' = h")
    case True
    with ring show ?thesis by simp
  next
    case False
    have "dlist s (Head h') (map Node (L h'))" using rep by (rule represents_ring)
    moreover have "nxt s x = nxt t x \<and> prv s x = prv t x"
      if "x \<in> set (Head h' # map Node (L h'))" for x
    proof -
      have "x \<notin> insert (Node n) (set (Head h # map Node (L h)))"
        using that False others [OF False] rep wf_queues_unique [of L _ h' h]
        by (auto simp: represents_def)
      from agree [OF this] show ?thesis by simp
    qed
    ultimately show ?thesis
      using others [OF False] dlist_cong [of "Head h'" "map Node (L h')" s t] by simp
  qed
next
  fix m assume m: "\<not> linked m L'"
  show "nxt t (Node m) = Node m" "prv t (Node m) = Node m"
  proof -
    have "nxt t (Node m) = Node m \<and> prv t (Node m) = Node m"
    proof (cases "m = n")
      case True
      with m n_free show ?thesis by simp
    next
      case False
      with m members others have "\<not> linked m L"
        by (fastforce simp: linked_def)
      then have "Node m \<notin> insert (Node n) (set (Head h # map Node (L h)))"
        using False by (auto simp: linked_def)
      from agree [OF this] \<open>\<not> linked m L\<close> rep show ?thesis
        by (simp add: represents_def)
    qed
    then show "nxt t (Node m) = Node m" "prv t (Node m) = Node m" by auto
  qed
qed

lemma represents_insert_before_head:
  assumes rep: "represents s L" and n: "\<not> linked n L"
  shows "represents (rt_list_insert_before (Head h) (Node n) s) (push_back h n L)"
proof (rule represents_frame [OF rep, where h = h and n = n])
  note ring = represents_ring [OF rep, of h]
  show "dlist (rt_list_insert_before (Head h) (Node n) s) (Head h) (map Node (push_back h n L h))"
    using dlist_insert_before_head [OF ring, of "Node n"] n
    by (auto simp: push_back_def linked_def)
  have "prv s (Head h) \<in> set (Head h # map Node (L h))"
    using dlist_closed [OF ring] by simp
  then show "nxt (rt_list_insert_before (Head h) (Node n) s) x = nxt s x \<and>
      prv (rt_list_insert_before (Head h) (Node n) s) x = prv s x"
    if "x \<notin> insert (Node n) (set (Head h # map Node (L h)))" for x
    using that by (auto simp: rt_list_insert_before_def Let_def)
  show "wf_queues (push_back h n L)"
    using rep n by (auto simp: represents_def intro: wf_push_back)
  show "push_back h n L h' = L h' \<and> n \<notin> set (L h')" if "h' \<noteq> h" for h'
    using that n by (auto simp: push_back_def linked_def)
  show "set (L h) \<subseteq> insert n (set (push_back h n L h))"
    by (auto simp: push_back_def)
qed simp

lemma represents_insert_after_head:
  assumes rep: "represents s L" and n: "\<not> linked n L"
  shows "represents (rt_list_insert_after (Head h) (Node n) s) (push_front h n L)"
proof (rule represents_frame [OF rep, where h = h and n = n])
  note ring = represents_ring [OF rep, of h]
  show "dlist (rt_list_insert_after (Head h) (Node n) s) (Head h) (map Node (push_front h n L h))"
    using dlist_insert_after_head [OF ring, of "Node n"] n
    by (auto simp: push_front_def linked_def)
  have "nxt s (Head h) \<in> set (Head h # map Node (L h))"
    using dlist_closed [OF ring] by simp
  then show "nxt (rt_list_insert_after (Head h) (Node n) s) x = nxt s x \<and>
      prv (rt_list_insert_after (Head h) (Node n) s) x = prv s x"
    if "x \<notin> insert (Node n) (set (Head h # map Node (L h)))" for x
    using that by (auto simp: rt_list_insert_after_def Let_def)
  show "wf_queues (push_front h n L)"
    using rep n by (auto simp: represents_def intro: wf_push_front)
  show "push_front h n L h' = L h' \<and> n \<notin> set (L h')" if "h' \<noteq> h" for h'
    using that n by (auto simp: push_front_def linked_def)
  show "set (L h) \<subseteq> insert n (set (push_front h n L h))"
    by (auto simp: push_front_def)
qed simp

lemma represents_insert_before_node:
  assumes rep: "represents s L" and n: "\<not> linked n L" and y: "y \<in> set (L h)"
  shows "represents (rt_list_insert_before (Node y) (Node n) s) (push_before y n L)"
proof (rule represents_frame [OF rep, where h = h and n = n])
  note ring = represents_ring [OF rep, of h]
  from rep have wf: "wf_queues L" by (simp add: represents_def)
  obtain xs ys where split: "L h = xs @ y # ys" "y \<notin> set xs"
    using split_list_first [OF y] by auto
  have "n \<notin> set (xs @ y # ys)"
    using n split(1) by (metis linked_def)
  then have "Node n \<notin> set (Head h # map Node xs @ Node y # map Node ys)" by auto
  with dlist_insert_before_member [of s "Head h" "map Node xs" "Node y" "map Node ys" "Node n"]
    ring split
  show "dlist (rt_list_insert_before (Node y) (Node n) s) (Head h)
      (map Node (push_before y n L h))"
    by (simp add: push_before_def insert_in_front_of_split)
  have "prv s (Node y) \<in> set (Head h # map Node (L h))"
    using dlist_closed [OF ring, of "Node y"] y by simp
  then show "nxt (rt_list_insert_before (Node y) (Node n) s) x = nxt s x \<and>
      prv (rt_list_insert_before (Node y) (Node n) s) x = prv s x"
    if "x \<notin> insert (Node n) (set (Head h # map Node (L h)))" for x
    using that y by (auto simp: rt_list_insert_before_def Let_def)
  show "push_before y n L h' = L h' \<and> n \<notin> set (L h')" if "h' \<noteq> h" for h'
  proof -
    have "y \<notin> set (L h')" using wf_queues_unique [OF wf y, of h'] that by blast
    then show ?thesis using n by (simp add: push_before_def linked_def)
  qed
  show "\<not> linked n (push_before y n L) \<Longrightarrow>
      nxt (rt_list_insert_before (Node y) (Node n) s) (Node n) = Node n \<and>
      prv (rt_list_insert_before (Node y) (Node n) s) (Node n) = Node n"
  proof -
    have "n \<in> set (push_before y n L h)"
      using y by (simp add: push_before_def set_insert_in_front_of)
    then have "linked n (push_before y n L)" unfolding linked_def by blast
    moreover assume "\<not> linked n (push_before y n L)"
    ultimately show ?thesis by simp
  qed
  show "wf_queues (push_before y n L)" using wf n by (rule wf_push_before)
  show "set (L h) \<subseteq> insert n (set (push_before y n L h))"
    by (auto simp: push_before_def set_insert_in_front_of)
qed

lemma represents_remove:
  assumes rep: "represents s L"
  shows "represents (rt_list_remove (Node n) s) (unlink n L)"
proof (cases "linked n L")
  case False
  with rep have self: "nxt s (Node n) = Node n" "prv s (Node n) = Node n"
    by (auto simp: represents_def)
  then have "rt_list_remove (Node n) s = s"
    by (auto simp: rt_list_remove_def Let_def set_nxt_def set_prv_def fun_upd_idem)
  with rep False show ?thesis by (simp add: unlink_unlinked)
next
  case True
  then obtain h where h: "n \<in> set (L h)" by (auto simp: linked_def)
  note ring = represents_ring [OF rep, of h]
  from rep have wf: "wf_queues L" by (simp add: represents_def)
  obtain xs ys where split: "L h = xs @ n # ys" "n \<notin> set xs" "n \<notin> set ys"
    using split_list_first [OF h] wf_queues_distinct [OF wf, of h] by auto
  have rings: "dlist (rt_list_remove (Node n) s) (Head h) (map Node (xs @ ys))"
    "dlist (rt_list_remove (Node n) s) (Node n) []"
    using dlist_remove [of s "Head h" "map Node xs" "Node n" "map Node ys"] ring split by auto
  show ?thesis
  proof (rule represents_frame [OF rep, where h = h and n = n])
    have "prv s (Node n) \<in> set (Head h # map Node (L h))"
      "nxt s (Node n) \<in> set (Head h # map Node (L h))"
      using dlist_closed [OF ring, of "Node n"] h by auto
    then show "nxt (rt_list_remove (Node n) s) x = nxt s x \<and>
        prv (rt_list_remove (Node n) s) x = prv s x"
      if "x \<notin> insert (Node n) (set (Head h # map Node (L h)))" for x
      using that by (auto simp: rt_list_remove_def Let_def)
    show "unlink n L h' = L h' \<and> n \<notin> set (L h')" if "h' \<noteq> h" for h'
    proof -
      have "n \<notin> set (L h')" using wf_queues_unique [OF wf h, of h'] that by blast
      then show ?thesis by (simp add: unlink_def)
    qed
  qed (use rings split wf in \<open>auto simp: unlink_def dlist_def
    intro: wf_unlink [unfolded unlink_def]\<close>)
qed

section \<open>Properties\<close>

text \<open>C34: The pointer operations of the intrusive lists implement the operations on a family of
  abstract lists that the kernel theories are written in: inserting an unlinked node before or
  after a list head, inserting it before a linked node, and removing a node, linked or not, each
  take a store that represents the family to one that represents the updated family.\<close>

theorem rt_list_refines_queues:
  assumes "represents s L" and "\<not> linked n L"
  shows "represents (rt_list_insert_before (Head h) (Node n) s) (push_back h n L) \<and>
    represents (rt_list_insert_after (Head h) (Node n) s) (push_front h n L) \<and>
    (linked y L \<longrightarrow> represents (rt_list_insert_before (Node y) (Node n) s) (push_before y n L)) \<and>
    represents (rt_list_remove (Node y) s) (unlink y L)"
  using represents_insert_before_head [OF assms] represents_insert_after_head [OF assms]
    represents_insert_before_node [OF assms] represents_remove [OF assms(1)]
  by (auto simp: linked_def)

theorem rt_list_refines_queues_witness:
  "represents (rt_list_insert_before (Head ()) (Node (1::nat)) \<lparr>nxt = id, prv = id\<rparr>)
     (push_back () 1 (\<lambda>_. []))"
proof -
  have "represents \<lparr>nxt = id, prv = id\<rparr> (\<lambda>_::unit. [] :: nat list)"
    by (simp add: represents_def wf_queues_def dlist_def)
  moreover have "\<not> linked 1 (\<lambda>_::unit. [] :: nat list)" by (simp add: linked_def)
  ultimately show ?thesis by (rule rt_list_refines_queues [THEN conjunct1])
qed

text \<open>On a well-formed ring \<^verbatim>\<open>rt_list_len\<close> terminates with the number of nodes (modulo the
  width of its counter), and \<^verbatim>\<open>rt_list_isempty\<close> tells whether there are none.\<close>

theorem rt_list_len_terminates:
  assumes "dlist s l xs"
  shows "rt_list_len l s = Some (of_nat (length xs)) \<and> (rt_list_isempty l s \<longleftrightarrow> xs = [])"
  using dlist_len [OF assms] dlist_isempty [OF assms] by blast

theorem rt_list_len_terminates_witness:
  "rt_list_len (0::nat) \<lparr>nxt = (\<lambda>i. (i + 1) mod 3), prv = (\<lambda>i. (i + 2) mod 3)\<rparr> = Some 2"
proof -
  have "dlist \<lparr>nxt = (\<lambda>i. (i + 1) mod 3), prv = (\<lambda>i. (i + 2) mod 3)\<rparr> (0::nat) [1, 2]"
    by (simp add: dlist_def)
  from rt_list_len_terminates [OF this] show ?thesis by simp
qed

end
