(* ===== verification/Rtdef.thy ===== *)
theory Rtdef
  imports Rt_List
begin

text \<open>
  The data of the kernel (\<^verbatim>\<open>include/rtdef.h\<close> and the static variables of \<^verbatim>\<open>src/*.c\<close>) for the
  configuration of \<^verbatim>\<open>rtconfig.h\<close>: one core, 32 priorities, software timers, one level of timer
  list. A pointer to a kernel object is a reference (a thread number, a timer reference, an IPC
  reference); the fields that every object inherits from \<^verbatim>\<open>struct rt_object\<close> are in one table keyed
  by the reference. The intrusive lists are three families of abstract lists (theory \<open>Rt_List\<close>):
  the thread nodes \<^verbatim>\<open>tlist\<close>, the timer nodes \<^verbatim>\<open>row[0]\<close> and the object nodes \<^verbatim>\<open>list\<close>.
\<close>

section \<open>Constants\<close>

definition RT_EOK :: int where "RT_EOK = 0"
definition RT_ERROR :: int where "RT_ERROR = 1"
definition RT_ETIMEOUT :: int where "RT_ETIMEOUT = 2"
definition RT_EFULL :: int where "RT_EFULL = 3"
definition RT_EEMPTY :: int where "RT_EEMPTY = 4"
definition RT_ENOMEM :: int where "RT_ENOMEM = 5"
definition RT_ENOSYS :: int where "RT_ENOSYS = 6"
definition RT_EBUSY :: int where "RT_EBUSY = 7"
definition RT_EIO :: int where "RT_EIO = 8"
definition RT_EINTR :: int where "RT_EINTR = 9"
definition RT_EINVAL :: int where "RT_EINVAL = 10"

lemmas rt_errors = RT_EOK_def RT_ERROR_def RT_ETIMEOUT_def RT_EFULL_def RT_EEMPTY_def
  RT_ENOMEM_def RT_ENOSYS_def RT_EBUSY_def RT_EIO_def RT_EINTR_def RT_EINVAL_def

abbreviation RT_TICK_MAX :: "32 word" where "RT_TICK_MAX \<equiv> 0xFFFFFFFF"
abbreviation RT_TICK_HALF :: "32 word" where "RT_TICK_HALF \<equiv> 0x7FFFFFFF" \<comment> \<open>\<^verbatim>\<open>RT_TICK_MAX / 2\<close>\<close>
abbreviation RT_THREAD_PRIORITY_MAX :: nat where "RT_THREAD_PRIORITY_MAX \<equiv> 32"
abbreviation RT_TICK_PER_SECOND :: "32 word" where "RT_TICK_PER_SECOND \<equiv> 1000"

abbreviation RT_THREAD_INIT :: "8 word" where "RT_THREAD_INIT \<equiv> 0"
abbreviation RT_THREAD_READY :: "8 word" where "RT_THREAD_READY \<equiv> 1"
abbreviation RT_THREAD_SUSPEND :: "8 word" where "RT_THREAD_SUSPEND \<equiv> 2"
abbreviation RT_THREAD_RUNNING :: "8 word" where "RT_THREAD_RUNNING \<equiv> 3"
abbreviation RT_THREAD_CLOSE :: "8 word" where "RT_THREAD_CLOSE \<equiv> 4"
abbreviation RT_THREAD_STAT_MASK :: "8 word" where "RT_THREAD_STAT_MASK \<equiv> 7"
abbreviation RT_THREAD_STAT_YIELD :: "8 word" where "RT_THREAD_STAT_YIELD \<equiv> 8"

abbreviation RT_TIMER_FLAG_ACTIVATED :: "8 word" where "RT_TIMER_FLAG_ACTIVATED \<equiv> 1"
abbreviation RT_TIMER_FLAG_PERIODIC :: "8 word" where "RT_TIMER_FLAG_PERIODIC \<equiv> 2"
abbreviation RT_TIMER_FLAG_SOFT_TIMER :: "8 word" where "RT_TIMER_FLAG_SOFT_TIMER \<equiv> 4"

abbreviation RT_IPC_FLAG_FIFO :: "8 word" where "RT_IPC_FLAG_FIFO \<equiv> 0"
abbreviation RT_IPC_FLAG_PRIO :: "8 word" where "RT_IPC_FLAG_PRIO \<equiv> 1"

abbreviation RT_EVENT_FLAG_AND :: "8 word" where "RT_EVENT_FLAG_AND \<equiv> 1"
abbreviation RT_EVENT_FLAG_OR :: "8 word" where "RT_EVENT_FLAG_OR \<equiv> 2"
abbreviation RT_EVENT_FLAG_CLEAR :: "8 word" where "RT_EVENT_FLAG_CLEAR \<equiv> 4"

section \<open>References\<close>

type_synonym tid = nat

definition timer_thread :: tid where "timer_thread = 0" \<comment> \<open>\<^verbatim>\<open>_timer_thread\<close> of \<^verbatim>\<open>timer.c\<close>\<close>
definition idle_thread :: tid where "idle_thread = 1" \<comment> \<open>\<^verbatim>\<open>idle[0]\<close> of \<^verbatim>\<open>idle.c\<close>\<close>

datatype timer_id = Thread_timer tid | User_timer nat

datatype ipc_ref = Sem nat | Mutex nat | Event nat | Mailbox nat | Msgqueue nat | Mempool nat
  | Dataqueue nat | Completion nat

text \<open>The list heads a thread node can be linked to: the ready lists of
  \<^verbatim>\<open>rt_thread_priority_table\<close>, the \<^verbatim>\<open>suspend_thread\<close> and \<^verbatim>\<open>suspend_sender_thread\<close> lists of IPC
  objects, and \<^verbatim>\<open>_rt_thread_defunct\<close>.\<close>

datatype list_head = Ready nat | Suspend ipc_ref | Sender ipc_ref | Defunct

text \<open>The heads for timers: \<^verbatim>\<open>_timer_list\<close>, \<^verbatim>\<open>_soft_timer_list\<close> and the local lists of
  \<^verbatim>\<open>rt_timer_check\<close> and \<^verbatim>\<open>rt_soft_timer_check\<close>.\<close>

datatype timer_head = Hard_list | Soft_list | Check_list | Soft_check_list

datatype obj_ref = Obj_thread tid | Obj_timer timer_id | Obj_ipc ipc_ref | Obj_memory nat

text \<open>\<^verbatim>\<open>enum rt_object_class_type\<close>, as the byte the \<^verbatim>\<open>type\<close> field holds.\<close>

abbreviation RT_Object_Class_Null :: "8 word" where "RT_Object_Class_Null \<equiv> 0"
abbreviation RT_Object_Class_Thread :: "8 word" where "RT_Object_Class_Thread \<equiv> 1"
abbreviation RT_Object_Class_Semaphore :: "8 word" where "RT_Object_Class_Semaphore \<equiv> 2"
abbreviation RT_Object_Class_Mutex :: "8 word" where "RT_Object_Class_Mutex \<equiv> 3"
abbreviation RT_Object_Class_Event :: "8 word" where "RT_Object_Class_Event \<equiv> 4"
abbreviation RT_Object_Class_MailBox :: "8 word" where "RT_Object_Class_MailBox \<equiv> 5"
abbreviation RT_Object_Class_MessageQueue :: "8 word" where "RT_Object_Class_MessageQueue \<equiv> 6"
abbreviation RT_Object_Class_MemPool :: "8 word" where "RT_Object_Class_MemPool \<equiv> 8"
abbreviation RT_Object_Class_Device :: "8 word" where "RT_Object_Class_Device \<equiv> 9"
abbreviation RT_Object_Class_Timer :: "8 word" where "RT_Object_Class_Timer \<equiv> 10"
abbreviation RT_Object_Class_Memory :: "8 word" where "RT_Object_Class_Memory \<equiv> 12"
abbreviation RT_Object_Class_Static :: "8 word" where "RT_Object_Class_Static \<equiv> 0x80"

section \<open>Structures\<close>

record rt_object =
  obj_name :: string
  obj_type :: "8 word"
  obj_flag :: "8 word"

datatype timeout_fn = Thread_timeout | User_func nat

record rt_timer =
  timeout_func :: timeout_fn
  timer_parameter :: nat
  timer_init_tick :: "32 word"
  timeout_tick :: "32 word"

text \<open>\<open>stack_mark\<close> is the byte at \<^verbatim>\<open>stack_addr\<close>, which the overflow check reads.\<close>

record rt_thread =
  sp :: "32 word"
  thread_entry :: nat
  thread_parameter :: nat
  stack_addr :: "32 word"
  stack_size :: "32 word"
  stack_mark :: "8 word"
  thread_error :: int
  stat :: "8 word"
  current_priority :: "8 word"
  number_mask :: "32 word"
  event_set :: "32 word"
  event_info :: "8 word"
  init_tick :: "32 word"
  remaining_tick :: "32 word"
  cleanup :: "nat option"
  user_data :: "32 word"

record rt_semaphore =
  sem_value :: "16 word"

record rt_mutex =
  mutex_value :: "16 word"
  original_priority :: "8 word"
  hold :: "8 word"
  owner :: "tid option"

record rt_event =
  ev_set :: "32 word"

record rt_mailbox =
  mb_pool :: "32 word list"
  mb_size :: "16 word"
  mb_entry :: "16 word"
  mb_in_offset :: "16 word"
  mb_out_offset :: "16 word"

text \<open>A message slot is an index into the pool; \<^term>\<open>None\<close> is the null pointer.\<close>

record rt_messagequeue =
  mq_next :: "nat \<Rightarrow> nat option"
  mq_data :: "nat \<Rightarrow> 8 word list"
  msg_size :: "16 word"
  max_msgs :: "16 word"
  mq_entry :: "16 word"
  msg_queue_head :: "nat option"
  msg_queue_tail :: "nat option"
  msg_queue_free :: "nat option"

text \<open>The first word of a pool block: the next free block, or the pool the block belongs to.\<close>

datatype mp_link = Free_link "nat option" | Owner_link nat

record rt_mempool =
  mp_start_address :: "32 word"
  mp_pool_size :: "32 word"
  mp_block_size :: "32 word"
  mp_block_list :: "nat option"
  mp_links :: "nat \<Rightarrow> mp_link"
  block_total_count :: "32 word"
  block_free_count :: "32 word"

section \<open>The kernel state\<close>

record kernel =
  rt_tick :: "32 word"
  rt_interrupt_nest :: "8 word"
  rt_scheduler_lock_nest :: "16 word"
  rt_current_thread :: "tid option"
  rt_current_priority :: "8 word"
  rt_thread_ready_priority_group :: "32 word"
  tlists :: "(list_head, tid) queues"
  threads :: "tid \<Rightarrow> rt_thread"
  rows :: "(timer_head, timer_id) queues"
  timers :: "timer_id \<Rightarrow> rt_timer"
  soft_timer_busy :: bool
  obj_lists :: "(8 word, obj_ref) queues"
  objects :: "obj_ref \<Rightarrow> rt_object"
  sems :: "nat \<Rightarrow> rt_semaphore"
  mutexes :: "nat \<Rightarrow> rt_mutex"
  events :: "nat \<Rightarrow> rt_event"
  mailboxes :: "nat \<Rightarrow> rt_mailbox"
  msgqueues :: "nat \<Rightarrow> rt_messagequeue"
  mempools :: "nat \<Rightarrow> rt_mempool"
  idle_hook_list :: "nat option list"
  rt_errno :: int \<comment> \<open>\<^verbatim>\<open>__rt_errno\<close> of \<^verbatim>\<open>kservice.c\<close>\<close>

definition upd_thread :: "tid \<Rightarrow> (rt_thread \<Rightarrow> rt_thread) \<Rightarrow> kernel \<Rightarrow> kernel" where
  "upd_thread t f k = k\<lparr>threads := (threads k)(t := f (threads k t))\<rparr>"

definition upd_timer :: "timer_id \<Rightarrow> (rt_timer \<Rightarrow> rt_timer) \<Rightarrow> kernel \<Rightarrow> kernel" where
  "upd_timer t f k = k\<lparr>timers := (timers k)(t := f (timers k t))\<rparr>"

definition upd_object :: "obj_ref \<Rightarrow> (rt_object \<Rightarrow> rt_object) \<Rightarrow> kernel \<Rightarrow> kernel" where
  "upd_object r f k = k\<lparr>objects := (objects k)(r := f (objects k r))\<rparr>"

definition upd_tlists ::
  "((list_head, tid) queues \<Rightarrow> (list_head, tid) queues) \<Rightarrow> kernel \<Rightarrow> kernel" where
  "upd_tlists f k = k\<lparr>tlists := f (tlists k)\<rparr>"

definition upd_rows ::
  "((timer_head, timer_id) queues \<Rightarrow> (timer_head, timer_id) queues) \<Rightarrow> kernel \<Rightarrow> kernel" where
  "upd_rows f k = k\<lparr>rows := f (rows k)\<rparr>"

definition upd_obj_lists ::
  "((8 word, obj_ref) queues \<Rightarrow> (8 word, obj_ref) queues) \<Rightarrow> kernel \<Rightarrow> kernel" where
  "upd_obj_lists f k = k\<lparr>obj_lists := f (obj_lists k)\<rparr>"

lemmas upd_defs = upd_thread_def upd_timer_def upd_object_def upd_tlists_def upd_rows_def
  upd_obj_lists_def

abbreviation tstat :: "kernel \<Rightarrow> tid \<Rightarrow> 8 word" where
  "tstat k t \<equiv> stat (threads k t) AND RT_THREAD_STAT_MASK"

abbreviation tprio :: "kernel \<Rightarrow> tid \<Rightarrow> 8 word" where
  "tprio k t \<equiv> current_priority (threads k t)"

section \<open>State bytes\<close>

text \<open>\<^verbatim>\<open>thread->stat = S | (thread->stat & ~RT_THREAD_STAT_MASK)\<close>\<close>

definition set_stat :: "8 word \<Rightarrow> 8 word \<Rightarrow> 8 word" where
  "set_stat s x = s OR (x AND NOT RT_THREAD_STAT_MASK)"

lemma set_stat_mask [simp]: "set_stat s x AND 7 = s AND 7"
proof -
  have "(x AND NOT 7) AND 7 = 0" by (simp add: and.assoc)
  then show ?thesis by (simp add: set_stat_def bit.conj_disj_distrib2)
qed

lemma set_stat_yield: "s AND 8 = 0 \<Longrightarrow> set_stat s x AND 8 = x AND 8"
  by (simp add: set_stat_def bit.conj_disj_distrib2 and.assoc)

end
