(* ===== verification/Scheduler.thy ===== *)
theory Scheduler
  imports Rtdef
begin

text \<open>
  The single-core scheduler of \<^verbatim>\<open>src/scheduler.c\<close>, with \<^verbatim>\<open>src/irq.c\<close>: the ready bitmap, the 32
  ready lists, the stack check, the scheduler lock, and \<^verbatim>\<open>rt_schedule\<close>. A result \<^term>\<open>None\<close> means
  that the call does not return: an assertion or the stack check spins, or a null pointer is
  dereferenced. Sections between \<^verbatim>\<open>rt_hw_interrupt_disable\<close> and \<^verbatim>\<open>rt_hw_interrupt_enable\<close> are
  atomic; no hook is installed.
\<close>

section \<open>Operations\<close>

text \<open>\<^verbatim>\<open>__builtin_ffs\<close>: one plus the index of the least significant set bit, 0 if there is none.\<close>

definition rt_ffs :: "32 word \<Rightarrow> nat" where
  "rt_ffs w = (case List.find (bit w) [0..<32] of None \<Rightarrow> 0 | Some i \<Rightarrow> Suc i)"

definition rt_schedule_insert_thread :: "tid \<Rightarrow> kernel \<Rightarrow> kernel" where
  "rt_schedule_insert_thread t k =
     (if rt_current_thread k = Some t then
        upd_thread t (\<lambda>r. r\<lparr>stat := set_stat RT_THREAD_RUNNING (stat r)\<rparr>) k
      else
        let k1 = upd_thread t (\<lambda>r. r\<lparr>stat := set_stat RT_THREAD_READY (stat r)\<rparr>) k;
            h = Ready (unat (tprio k1 t));
            k2 = (if stat (threads k1 t) AND RT_THREAD_STAT_YIELD \<noteq> 0
                  then upd_tlists (push_back h t) k1 else upd_tlists (push_front h t) k1)
        in k2\<lparr>rt_thread_ready_priority_group :=
               rt_thread_ready_priority_group k2 OR number_mask (threads k2 t)\<rparr>)"

definition rt_schedule_remove_thread :: "tid \<Rightarrow> kernel \<Rightarrow> kernel" where
  "rt_schedule_remove_thread t k =
     (let k1 = upd_tlists (unlink t) k in
      if tlists k1 (Ready (unat (tprio k1 t))) = [] then
        k1\<lparr>rt_thread_ready_priority_group :=
             rt_thread_ready_priority_group k1 AND NOT (number_mask (threads k1 t))\<rparr>
      else k1)"

text \<open>The byte \<^verbatim>\<open>'#'\<close> at the low end of the stack, and the stack pointer within the stack. The loop
  \<^verbatim>\<open>while (level)\<close> does not end, because the caller has disabled interrupts.\<close>

definition scheduler_stack_check :: "tid \<Rightarrow> kernel \<Rightarrow> unit option" where
  "scheduler_stack_check t k =
     (let r = threads k t in
      if stack_mark r \<noteq> 0x23 \<or> sp r \<le> stack_addr r \<or> sp r > stack_addr r + stack_size r
      then None else Some ())"

definition scheduler_get_highest_priority_thread :: "kernel \<Rightarrow> (tid \<times> nat) option" where
  "scheduler_get_highest_priority_thread k =
     (case rt_ffs (rt_thread_ready_priority_group k) of
        0 \<Rightarrow> None
      | Suc highest_ready_priority \<Rightarrow>
          (case tlists k (Ready highest_ready_priority) of
             [] \<Rightarrow> None | t # _ \<Rightarrow> Some (t, highest_ready_priority)))"

definition rt_system_scheduler_init :: "kernel \<Rightarrow> kernel" where
  "rt_system_scheduler_init k =
     k\<lparr>rt_scheduler_lock_nest := 0,
       tlists := (\<lambda>h. case h of Ready p \<Rightarrow> if p < RT_THREAD_PRIORITY_MAX then [] else tlists k h
                     | _ \<Rightarrow> tlists k h),
       rt_thread_ready_priority_group := 0\<rparr>"

definition rt_system_scheduler_start :: "kernel \<Rightarrow> kernel option" where
  "rt_system_scheduler_start k = do {
     (to_thread, _) \<leftarrow> scheduler_get_highest_priority_thread k;
     let k1 = k\<lparr>rt_current_thread := Some to_thread\<rparr>;
     let k2 = rt_schedule_remove_thread to_thread k1;
     Some (upd_thread to_thread (\<lambda>r. r\<lparr>stat := RT_THREAD_RUNNING\<rparr>) k2) }"

text \<open>The part of \<^verbatim>\<open>rt_schedule\<close> that runs when the choice fell on another thread.\<close>

definition schedule_switch :: "tid \<Rightarrow> tid \<Rightarrow> nat \<Rightarrow> bool \<Rightarrow> kernel \<Rightarrow> kernel option" where
  "schedule_switch from_thread to_thread highest need_insert_from_thread k = do {
     let k1 = k\<lparr>rt_current_priority := of_nat highest, rt_current_thread := Some to_thread\<rparr>;
     let k2 = (if need_insert_from_thread then rt_schedule_insert_thread from_thread k1 else k1);
     let k3 = rt_schedule_remove_thread to_thread k2;
     let k4 = upd_thread to_thread (\<lambda>r. r\<lparr>stat := set_stat RT_THREAD_RUNNING (stat r)\<rparr>) k3;
     scheduler_stack_check to_thread k4;
     Some k4 }"

definition schedule_keep :: "tid \<Rightarrow> kernel \<Rightarrow> kernel" where
  "schedule_keep cur k =
     upd_thread cur (\<lambda>r. r\<lparr>stat := set_stat RT_THREAD_RUNNING (stat r)\<rparr>)
       (rt_schedule_remove_thread cur k)"

text \<open>\<^verbatim>\<open>rt_schedule\<close> up to the context switch, in thread or in interrupt context. The state after
  it is the one in which \<^const>\<open>rt_current_thread\<close> goes on to run.\<close>

definition rt_schedule :: "kernel \<Rightarrow> kernel option" where
  "rt_schedule k =
     (if rt_scheduler_lock_nest k \<noteq> 0 then Some k
      else if rt_thread_ready_priority_group k = 0 then Some k
      else do {
        (best, highest) \<leftarrow> scheduler_get_highest_priority_thread k;
        cur \<leftarrow> rt_current_thread k;
        let prio = unat (tprio k cur);
        if tstat k cur = RT_THREAD_RUNNING then
          let keep = (prio < highest \<or>
                (prio = highest \<and> stat (threads k cur) AND RT_THREAD_STAT_YIELD = 0));
              to_thread = (if keep then cur else best);
              k1 = upd_thread cur (\<lambda>r. r\<lparr>stat := stat r AND NOT RT_THREAD_STAT_YIELD\<rparr>) k
          in if to_thread \<noteq> cur then schedule_switch cur to_thread highest (\<not> keep) k1
             else Some (schedule_keep cur k1)
        else if best \<noteq> cur then schedule_switch cur best highest False k
        else Some (schedule_keep cur k) })"

definition rt_enter_critical :: "kernel \<Rightarrow> kernel" where
  "rt_enter_critical k = k\<lparr>rt_scheduler_lock_nest := rt_scheduler_lock_nest k + 1\<rparr>"

definition rt_exit_critical :: "kernel \<Rightarrow> kernel option" where
  "rt_exit_critical k =
     (let nest = rt_scheduler_lock_nest k - 1 in
      if sint nest \<le> 0 then
        let k1 = k\<lparr>rt_scheduler_lock_nest := 0\<rparr> in
        (if rt_current_thread k1 \<noteq> None then rt_schedule k1 else Some k1)
      else Some (k\<lparr>rt_scheduler_lock_nest := nest\<rparr>))"

definition rt_critical_level :: "kernel \<Rightarrow> 16 word" where
  "rt_critical_level k = rt_scheduler_lock_nest k"

section \<open>Interrupt nesting\<close>

definition rt_interrupt_enter :: "kernel \<Rightarrow> kernel" where
  "rt_interrupt_enter k = k\<lparr>rt_interrupt_nest := rt_interrupt_nest k + 1\<rparr>"

definition rt_interrupt_leave :: "kernel \<Rightarrow> kernel" where
  "rt_interrupt_leave k = k\<lparr>rt_interrupt_nest := rt_interrupt_nest k - 1\<rparr>"

definition rt_interrupt_get_nest :: "kernel \<Rightarrow> 8 word" where
  "rt_interrupt_get_nest k = rt_interrupt_nest k"

text \<open>The context checks of \<^verbatim>\<open>rtdebug.h\<close>.\<close>

definition RT_DEBUG_NOT_IN_INTERRUPT :: "kernel \<Rightarrow> unit option" where
  "RT_DEBUG_NOT_IN_INTERRUPT k = rt_assert (rt_interrupt_get_nest k = 0)"

definition RT_DEBUG_IN_THREAD_CONTEXT :: "kernel \<Rightarrow> unit option" where
  "RT_DEBUG_IN_THREAD_CONTEXT k = do {
     rt_assert (rt_current_thread k \<noteq> None);
     RT_DEBUG_NOT_IN_INTERRUPT k }"

definition RT_DEBUG_SCHEDULER_AVAILABLE :: "bool \<Rightarrow> kernel \<Rightarrow> unit option" where
  "RT_DEBUG_SCHEDULER_AVAILABLE need_check k =
     (if need_check then do {
        rt_assert (rt_critical_level k = 0);
        RT_DEBUG_IN_THREAD_CONTEXT k }
      else Some ())"

section \<open>Field access\<close>

lemma upd_thread_sel [simp]:
  "threads (upd_thread t f k) = (threads k)(t := f (threads k t))"
  "tlists (upd_thread t f k) = tlists k"
  "rt_current_thread (upd_thread t f k) = rt_current_thread k"
  "rt_thread_ready_priority_group (upd_thread t f k) = rt_thread_ready_priority_group k"
  "rt_scheduler_lock_nest (upd_thread t f k) = rt_scheduler_lock_nest k"
  "rt_interrupt_nest (upd_thread t f k) = rt_interrupt_nest k"
  "rt_tick (upd_thread t f k) = rt_tick k"
  "rows (upd_thread t f k) = rows k" "timers (upd_thread t f k) = timers k"
  "objects (upd_thread t f k) = objects k" "obj_lists (upd_thread t f k) = obj_lists k"
  "sems (upd_thread t f k) = sems k" "mutexes (upd_thread t f k) = mutexes k"
  "events (upd_thread t f k) = events k" "mailboxes (upd_thread t f k) = mailboxes k"
  "msgqueues (upd_thread t f k) = msgqueues k" "mempools (upd_thread t f k) = mempools k"
  "soft_timer_busy (upd_thread t f k) = soft_timer_busy k"
  by (simp_all add: upd_thread_def)

lemma upd_tlists_sel [simp]:
  "tlists (upd_tlists g k) = g (tlists k)"
  "threads (upd_tlists g k) = threads k"
  "rt_current_thread (upd_tlists g k) = rt_current_thread k"
  "rt_thread_ready_priority_group (upd_tlists g k) = rt_thread_ready_priority_group k"
  "rt_scheduler_lock_nest (upd_tlists g k) = rt_scheduler_lock_nest k"
  "rt_interrupt_nest (upd_tlists g k) = rt_interrupt_nest k"
  "rt_tick (upd_tlists g k) = rt_tick k"
  "rows (upd_tlists g k) = rows k" "timers (upd_tlists g k) = timers k"
  "objects (upd_tlists g k) = objects k" "obj_lists (upd_tlists g k) = obj_lists k"
  "sems (upd_tlists g k) = sems k" "mutexes (upd_tlists g k) = mutexes k"
  "events (upd_tlists g k) = events k" "mailboxes (upd_tlists g k) = mailboxes k"
  "msgqueues (upd_tlists g k) = msgqueues k" "mempools (upd_tlists g k) = mempools k"
  "soft_timer_busy (upd_tlists g k) = soft_timer_busy k"
  by (simp_all add: upd_tlists_def)

section \<open>The scheduler invariant\<close>

text \<open>A started thread has a priority below 32 and the mask that goes with it.\<close>

definition thread_ok :: "rt_thread \<Rightarrow> bool" where
  "thread_ok r \<longleftrightarrow> unat (current_priority r) < RT_THREAD_PRIORITY_MAX \<and>
     number_mask r = push_bit (unat (current_priority r)) 1"

text \<open>A thread linked to a list has the state that belongs there.\<close>

definition at_home :: "rt_thread \<Rightarrow> list_head \<Rightarrow> bool" where
  "at_home r h = (case h of
     Ready p \<Rightarrow> stat r AND RT_THREAD_STAT_MASK = RT_THREAD_READY \<and> p = unat (current_priority r)
   | Suspend _ \<Rightarrow> stat r AND RT_THREAD_STAT_MASK = RT_THREAD_SUSPEND
   | Sender _ \<Rightarrow> stat r AND RT_THREAD_STAT_MASK = RT_THREAD_SUSPEND
   | Defunct \<Rightarrow> stat r AND RT_THREAD_STAT_MASK = RT_THREAD_CLOSE)"

text \<open>Conversely a ready thread is in its ready list, and only the current thread is running.\<close>

definition thread_inv :: "kernel \<Rightarrow> tid \<Rightarrow> bool" where
  "thread_inv k t \<longleftrightarrow>
     (tstat k t \<in> {RT_THREAD_READY, RT_THREAD_SUSPEND, RT_THREAD_RUNNING} \<longrightarrow>
        thread_ok (threads k t)) \<and>
     (tstat k t = RT_THREAD_RUNNING \<longrightarrow> rt_current_thread k = Some t) \<and>
     (tstat k t = RT_THREAD_READY \<longrightarrow>
        t \<in> set (tlists k (Ready (unat (tprio k t)))) \<and> rt_current_thread k \<noteq> Some t)"

text \<open>The invariant with a set of threads exempt from the last part, for the states in the middle
  of an operation.\<close>

definition sched_inv_except :: "tid set \<Rightarrow> kernel \<Rightarrow> bool" where
  "sched_inv_except X k \<longleftrightarrow>
     wf_queues (tlists k) \<and>
     (\<forall>p. bit (rt_thread_ready_priority_group k) p \<longleftrightarrow>
        p < RT_THREAD_PRIORITY_MAX \<and> tlists k (Ready p) \<noteq> []) \<and>
     (\<forall>h. \<forall>t \<in> set (tlists k h). at_home (threads k t) h) \<and>
     (\<forall>t. t \<notin> X \<longrightarrow> thread_inv k t)"

definition sched_inv :: "kernel \<Rightarrow> bool" where
  "sched_inv k \<longleftrightarrow> sched_inv_except {} k"

lemma sched_inv_exceptI:
  assumes "wf_queues (tlists k)"
    and "\<And>p. bit (rt_thread_ready_priority_group k) p \<longleftrightarrow> p < 32 \<and> tlists k (Ready p) \<noteq> []"
    and "\<And>h t. t \<in> set (tlists k h) \<Longrightarrow> at_home (threads k t) h"
    and "\<And>t. t \<notin> X \<Longrightarrow> thread_inv k t"
  shows "sched_inv_except X k"
  using assms by (auto simp: sched_inv_except_def)

lemma sched_inv_exceptD:
  assumes "sched_inv_except X k"
  shows "wf_queues (tlists k)"
    and "\<And>p. bit (rt_thread_ready_priority_group k) p \<longleftrightarrow> p < 32 \<and> tlists k (Ready p) \<noteq> []"
    and "\<And>h t. t \<in> set (tlists k h) \<Longrightarrow> at_home (threads k t) h"
    and "\<And>t. t \<notin> X \<Longrightarrow> thread_inv k t"
  using assms by (auto simp: sched_inv_except_def)

lemma sched_inv_except_mono: "sched_inv_except X k \<Longrightarrow> X \<subseteq> Y \<Longrightarrow> sched_inv_except Y k"
  by (auto simp: sched_inv_except_def)

text \<open>The invariant reads only four fields of the kernel state.\<close>

lemma sched_inv_except_cong:
  assumes "tlists k' = tlists k" "threads k' = threads k"
    "rt_current_thread k' = rt_current_thread k"
    "rt_thread_ready_priority_group k' = rt_thread_ready_priority_group k"
  shows "sched_inv_except X k' \<longleftrightarrow> sched_inv_except X k"
  using assms by (simp add: sched_inv_except_def thread_inv_def)

text \<open>Thread fields other than the state, the priority and its mask do not matter.\<close>

lemma sched_inv_except_upd_thread:
  assumes "stat (f (threads k t)) AND 7 = tstat k t"
    "current_priority (f (threads k t)) = tprio k t"
    "number_mask (f (threads k t)) = number_mask (threads k t)"
  shows "sched_inv_except X (upd_thread t f k) \<longleftrightarrow> sched_inv_except X k"
proof -
  have home: "at_home (threads (upd_thread t f k) u) h = at_home (threads k u) h" for u h
    using assms by (simp add: at_home_def split: list_head.splits)
  have "thread_inv (upd_thread t f k) u = thread_inv k u" for u
    using assms by (simp add: thread_inv_def thread_ok_def)
  with home show ?thesis by (simp add: sched_inv_except_def)
qed

lemma sched_inv_thread_ok:
  "sched_inv_except X k \<Longrightarrow> t \<notin> X \<Longrightarrow> tstat k t \<in> {1, 2, 3} \<Longrightarrow> thread_ok (threads k t)"
  using sched_inv_exceptD(4) [of X k t] by (simp add: thread_inv_def)

lemma bit_or_mask:
  "thread_ok r \<Longrightarrow> bit (g OR number_mask r) p \<longleftrightarrow> bit g p \<or> p = unat (current_priority r)"
  by (auto simp: thread_ok_def bit_simps)

lemma bit_and_not_mask:
  "thread_ok r \<Longrightarrow> bit (g AND NOT (number_mask r)) p \<longleftrightarrow>
     bit g p \<and> p \<noteq> unat (current_priority r)"
  by (auto simp: thread_ok_def bit_simps dest: bit_imp_le_length)

section \<open>Insertion and removal\<close>

lemma remove_thread_sel [simp]:
  "tlists (rt_schedule_remove_thread t k) = unlink t (tlists k)"
  "threads (rt_schedule_remove_thread t k) = threads k"
  "rt_current_thread (rt_schedule_remove_thread t k) = rt_current_thread k"
  "rt_scheduler_lock_nest (rt_schedule_remove_thread t k) = rt_scheduler_lock_nest k"
  "rt_interrupt_nest (rt_schedule_remove_thread t k) = rt_interrupt_nest k"
  "rt_tick (rt_schedule_remove_thread t k) = rt_tick k"
  "rows (rt_schedule_remove_thread t k) = rows k"
  "timers (rt_schedule_remove_thread t k) = timers k"
  "objects (rt_schedule_remove_thread t k) = objects k"
  "obj_lists (rt_schedule_remove_thread t k) = obj_lists k"
  "sems (rt_schedule_remove_thread t k) = sems k"
  "mutexes (rt_schedule_remove_thread t k) = mutexes k"
  "events (rt_schedule_remove_thread t k) = events k"
  "mailboxes (rt_schedule_remove_thread t k) = mailboxes k"
  "msgqueues (rt_schedule_remove_thread t k) = msgqueues k"
  "mempools (rt_schedule_remove_thread t k) = mempools k"
  "soft_timer_busy (rt_schedule_remove_thread t k) = soft_timer_busy k"
  by (simp_all add: rt_schedule_remove_thread_def Let_def)

lemma remove_thread_group:
  "rt_thread_ready_priority_group (rt_schedule_remove_thread t k) =
    (if unlink t (tlists k) (Ready (unat (tprio k t))) = []
     then rt_thread_ready_priority_group k AND NOT (number_mask (threads k t))
     else rt_thread_ready_priority_group k)"
  by (simp add: rt_schedule_remove_thread_def Let_def)

lemma sched_inv_remove_thread:
  assumes inv: "sched_inv_except X k" and ok: "thread_ok (threads k t)"
  shows "sched_inv_except (insert t X) (rt_schedule_remove_thread t k)"
proof (rule sched_inv_exceptI)
  note inv' = sched_inv_exceptD [OF inv]
  show "wf_queues (tlists (rt_schedule_remove_thread t k))"
    using inv'(1) by (simp add: wf_unlink)
  show "bit (rt_thread_ready_priority_group (rt_schedule_remove_thread t k)) p \<longleftrightarrow>
      p < 32 \<and> tlists (rt_schedule_remove_thread t k) (Ready p) \<noteq> []" for p
  proof (cases "p = unat (tprio k t)")
    case True
    have "unlink t (tlists k) (Ready p) \<noteq> [] \<Longrightarrow> tlists k (Ready p) \<noteq> []"
      by (auto simp: unlink_def)
    moreover have "p < 32" using True ok by (simp add: thread_ok_def)
    ultimately show ?thesis
      using True inv'(2) [of p]
      by (cases "unlink t (tlists k) (Ready p) = []")
        (simp_all add: remove_thread_group bit_and_not_mask [OF ok])
  next
    case False
    have "t \<notin> set (tlists k (Ready p))"
      using inv'(3) [of t "Ready p"] False by (auto simp: at_home_def)
    then show ?thesis
      using False inv'(2) [of p]
      by (simp add: remove_thread_group bit_and_not_mask [OF ok]) (simp add: unlink_def)
  qed
  show "at_home (threads (rt_schedule_remove_thread t k) u) h"
    if "u \<in> set (tlists (rt_schedule_remove_thread t k) h)" for u h
    using that inv'(3) by (simp add: unlink_def)
  show "thread_inv (rt_schedule_remove_thread t k) u" if "u \<notin> insert t X" for u
    using that inv'(4) [of u] by (simp add: thread_inv_def unlink_def)
qed

text \<open>A thread that is in no ready list can be removed without any effect on the others.\<close>

lemma insert_thread_sel [simp]:
  "rt_current_thread (rt_schedule_insert_thread t k) = rt_current_thread k"
  "rt_scheduler_lock_nest (rt_schedule_insert_thread t k) = rt_scheduler_lock_nest k"
  "rt_interrupt_nest (rt_schedule_insert_thread t k) = rt_interrupt_nest k"
  "rt_tick (rt_schedule_insert_thread t k) = rt_tick k"
  "rows (rt_schedule_insert_thread t k) = rows k"
  "timers (rt_schedule_insert_thread t k) = timers k"
  "objects (rt_schedule_insert_thread t k) = objects k"
  "obj_lists (rt_schedule_insert_thread t k) = obj_lists k"
  "sems (rt_schedule_insert_thread t k) = sems k"
  "mutexes (rt_schedule_insert_thread t k) = mutexes k"
  "events (rt_schedule_insert_thread t k) = events k"
  "mailboxes (rt_schedule_insert_thread t k) = mailboxes k"
  "msgqueues (rt_schedule_insert_thread t k) = msgqueues k"
  "mempools (rt_schedule_insert_thread t k) = mempools k"
  "soft_timer_busy (rt_schedule_insert_thread t k) = soft_timer_busy k"
  by (simp_all add: rt_schedule_insert_thread_def Let_def)

lemma insert_thread_threads:
  "threads (rt_schedule_insert_thread t k) = (threads k)(t := (threads k t)\<lparr>stat :=
     set_stat (if rt_current_thread k = Some t then RT_THREAD_RUNNING else RT_THREAD_READY)
       (stat (threads k t))\<rparr>)"
  by (simp add: rt_schedule_insert_thread_def Let_def)

lemma insert_thread_tlists:
  "tlists (rt_schedule_insert_thread t k) =
    (if rt_current_thread k = Some t then tlists k
     else (if stat (threads k t) AND RT_THREAD_STAT_YIELD \<noteq> 0 then push_back else push_front)
       (Ready (unat (tprio k t))) t (tlists k))"
  by (simp add: rt_schedule_insert_thread_def Let_def set_stat_yield)

lemma insert_thread_group:
  "rt_thread_ready_priority_group (rt_schedule_insert_thread t k) =
    (if rt_current_thread k = Some t then rt_thread_ready_priority_group k
     else rt_thread_ready_priority_group k OR number_mask (threads k t))"
  by (simp add: rt_schedule_insert_thread_def Let_def)

lemma set_insert_thread_ready:
  "set (tlists (rt_schedule_insert_thread t k) h) =
    (if rt_current_thread k \<noteq> Some t \<and> h = Ready (unat (tprio k t)) then insert t (set (tlists k h))
     else set (tlists k h))"
  by (auto simp: insert_thread_tlists push_back_def push_front_def)

lemma sched_inv_insert_thread:
  assumes inv: "sched_inv_except (insert t X) k" and ok: "thread_ok (threads k t)"
    and free: "\<not> linked t (tlists k)"
  shows "sched_inv_except (X - {t}) (rt_schedule_insert_thread t k)"
proof (rule sched_inv_exceptI)
  note inv' = sched_inv_exceptD [OF inv]
  let ?k = "rt_schedule_insert_thread t k"
  have thr: "stat (threads ?k u) AND 7 = (if u = t
      then if rt_current_thread k = Some t then 3 else 1 else tstat k u)"
    "tprio ?k u = tprio k u" "number_mask (threads ?k u) = number_mask (threads k u)" for u
    by (simp_all add: insert_thread_threads)
  show "wf_queues (tlists ?k)"
    using inv'(1) free by (simp add: insert_thread_tlists wf_push_back wf_push_front)
  show "bit (rt_thread_ready_priority_group ?k) p \<longleftrightarrow> p < 32 \<and> tlists ?k (Ready p) \<noteq> []" for p
  proof (cases "rt_current_thread k = Some t \<or> p \<noteq> unat (tprio k t)")
    case True
    then show ?thesis
      using inv'(2) [of p]
      by (auto simp: insert_thread_group bit_or_mask [OF ok] insert_thread_tlists push_back_def
          push_front_def)
  next
    case False
    moreover have "unat (tprio k t) < 32" using ok by (simp add: thread_ok_def)
    ultimately show ?thesis
      by (simp add: insert_thread_group bit_or_mask [OF ok] insert_thread_tlists
          push_back_def push_front_def)
  qed
  show "at_home (threads ?k u) h" if "u \<in> set (tlists ?k h)" for u h
  proof (cases "u = t")
    case True
    then have "rt_current_thread k \<noteq> Some t \<and> h = Ready (unat (tprio k t))"
      using that free by (auto simp: set_insert_thread_ready linked_def split: if_splits)
    then show ?thesis using True thr [of t] by (simp add: at_home_def)
  next
    case False
    then have "u \<in> set (tlists k h)"
      using that by (auto simp: set_insert_thread_ready split: if_splits)
    then show ?thesis using inv'(3) [of u h] thr [of u] False by (simp add: at_home_def split: list_head.splits)
  qed
  show "thread_inv ?k u" if "u \<notin> X - {t}" for u
  proof (cases "u = t")
    case True
    then show ?thesis
      using thr [of t] ok by (simp add: thread_inv_def thread_ok_def set_insert_thread_ready)
  next
    case False
    then have "thread_inv k u" using that inv'(4) [of u] by auto
    then show ?thesis
      using thr [of u] False by (auto simp: thread_inv_def thread_ok_def set_insert_thread_ready)
  qed
qed

text \<open>Giving an unlinked thread a state: suspended or closed, or running if it is current.\<close>

lemma sched_inv_set_stat:
  assumes inv: "sched_inv_except (insert t X) k" and free: "\<not> linked t (tlists k)"
    and f: "current_priority (f (threads k t)) = tprio k t"
      "number_mask (f (threads k t)) = number_mask (threads k t)"
    and s: "stat (f (threads k t)) AND 7 = s"
      "s = RT_THREAD_CLOSE \<or> s = RT_THREAD_SUSPEND \<and> thread_ok (threads k t) \<or>
       s = RT_THREAD_RUNNING \<and> thread_ok (threads k t) \<and> rt_current_thread k = Some t"
  shows "sched_inv_except (X - {t}) (upd_thread t f k)"
proof (rule sched_inv_exceptI)
  note inv' = sched_inv_exceptD [OF inv]
  let ?k = "upd_thread t f k"
  show "wf_queues (tlists ?k)" using inv'(1) by simp
  show "bit (rt_thread_ready_priority_group ?k) p \<longleftrightarrow> p < 32 \<and> tlists ?k (Ready p) \<noteq> []" for p
    using inv'(2) by simp
  show "at_home (threads ?k u) h" if "u \<in> set (tlists ?k h)" for u h
    using that free inv'(3) [of u h] by (cases "u = t") (auto simp: linked_def)
  show "thread_inv ?k u" if "u \<notin> X - {t}" for u
  proof (cases "u = t")
    case True
    then show ?thesis using f s by (auto simp: thread_inv_def thread_ok_def)
  next
    case False
    then have "thread_inv k u" using that inv'(4) [of u] by auto
    then show ?thesis using False by (simp add: thread_inv_def)
  qed
qed

text \<open>Linking a suspended thread to a wait list, and unlinking it.\<close>

lemma sched_inv_link:
  assumes inv: "sched_inv_except X k" and wf: "wf_queues (g (tlists k))"
    and ready: "\<And>p. g (tlists k) (Ready p) = tlists k (Ready p)"
    and new: "\<And>h u. u \<in> set (g (tlists k) h) \<Longrightarrow> u \<notin> set (tlists k h) \<Longrightarrow> at_home (threads k u) h"
  shows "sched_inv_except X (upd_tlists g k)"
proof (rule sched_inv_exceptI)
  note inv' = sched_inv_exceptD [OF inv]
  show "at_home (threads (upd_tlists g k) u) h" if "u \<in> set (tlists (upd_tlists g k) h)" for u h
    using that new [of u h] inv'(3) [of u h] by auto
  show "thread_inv (upd_tlists g k) u" if "u \<notin> X" for u
    using that inv'(4) [of u] by (simp add: thread_inv_def ready)
qed (use wf ready sched_inv_exceptD(2) [OF inv] in simp_all)

lemma sched_inv_unlink_suspended:
  assumes inv: "sched_inv_except X k" and "tstat k t \<noteq> RT_THREAD_READY"
  shows "sched_inv_except X (upd_tlists (unlink t) k)"
proof (rule sched_inv_link [OF inv])
  show "wf_queues (unlink t (tlists k))" using sched_inv_exceptD(1) [OF inv] by (rule wf_unlink)
  show "unlink t (tlists k) (Ready p) = tlists k (Ready p)" for p
    using assms sched_inv_exceptD(3) [OF inv, of t "Ready p"]
    by (force simp: unlink_def at_home_def intro: removeAll_id)
qed (auto simp: unlink_def)

section \<open>Choosing the next thread\<close>

lemma rt_ffs_least:
  assumes "rt_ffs w = Suc i" shows "bit w i" "\<forall>j < i. \<not> bit w j"
proof -
  from assms have "List.find (bit w) [0..<32] = Some i"
    by (auto simp: rt_ffs_def split: option.splits)
  then obtain n where n: "n < 32" "bit w i" "i = n" "\<forall>j<n. \<not> bit w j"
    by (auto simp: find_Some_iff)
  then show "bit w i" "\<forall>j < i. \<not> bit w j" by simp_all
qed

lemma rt_ffs_zero: "rt_ffs w = 0 \<longleftrightarrow> w = 0"
proof
  assume "rt_ffs w = 0"
  then have "List.find (bit w) [0..<32] = None" by (auto simp: rt_ffs_def split: option.splits)
  then have "\<not> bit w n" if "n < 32" for n using that by (simp add: find_None_iff)
  then show "w = 0" by (intro bit_word_eqI) simp
qed (simp add: rt_ffs_def find_None_iff split: option.splits)

lemma get_highest_spec:
  assumes inv: "sched_inv_except X k" and "rt_thread_ready_priority_group k \<noteq> 0"
  shows "\<exists>t p ts. scheduler_get_highest_priority_thread k = Some (t, p) \<and>
    tlists k (Ready p) = t # ts \<and> p < 32 \<and> unat (tprio k t) = p \<and> tstat k t = RT_THREAD_READY \<and>
    (\<forall>q. tlists k (Ready q) \<noteq> [] \<longrightarrow> q < 32 \<longrightarrow> p \<le> q)"
proof -
  note inv' = sched_inv_exceptD [OF inv]
  from assms(2) obtain p where p: "rt_ffs (rt_thread_ready_priority_group k) = Suc p"
    by (metis rt_ffs_zero not0_implies_Suc)
  note least = rt_ffs_least [OF p]
  from least(1) inv'(2) [of p] obtain t ts where t: "tlists k (Ready p) = t # ts" "p < 32"
    by (auto simp: neq_Nil_conv)
  have "p \<le> q" if "tlists k (Ready q) \<noteq> []" "q < 32" for q
    using that least(2) inv'(2) [of q] by (meson not_le)
  with t p inv'(3) [of t "Ready p"] show ?thesis
    by (auto simp: scheduler_get_highest_priority_thread_def at_home_def)
qed

section \<open>The scheduler\<close>

text \<open>A stack that passes the overflow check.\<close>

definition stack_ok :: "rt_thread \<Rightarrow> bool" where
  "stack_ok r \<longleftrightarrow> stack_mark r = 0x23 \<and> stack_addr r < sp r \<and> sp r \<le> stack_addr r + stack_size r"

lemma stack_check_ok: "stack_ok (threads k t) \<Longrightarrow> scheduler_stack_check t k = Some ()"
  by (simp add: stack_ok_def scheduler_stack_check_def Let_def not_le not_less)

lemma stack_check_bad: "\<not> stack_ok (threads k t) \<Longrightarrow> scheduler_stack_check t k = None"
  by (auto simp: stack_ok_def scheduler_stack_check_def Let_def)

lemma schedule_switch_state:
  "schedule_switch c t p need k = Some k' \<Longrightarrow>
   k' = upd_thread t (\<lambda>r. r\<lparr>stat := set_stat RT_THREAD_RUNNING (stat r)\<rparr>)
     (rt_schedule_remove_thread t
       ((if need then rt_schedule_insert_thread c else id)
         (k\<lparr>rt_current_priority := of_nat p, rt_current_thread := Some t\<rparr>)))"
  by (cases need) (auto simp: schedule_switch_def Let_def bind_eq_Some_conv)

lemma schedule_switch_defined:
  assumes "stack_ok (threads k t)" "t \<noteq> c"
  shows "schedule_switch c t p need k \<noteq> None"
  using assms
  by (simp add: schedule_switch_def scheduler_stack_check_def stack_ok_def Let_def
      insert_thread_threads not_le not_less)

text \<open>Making \<open>t\<close> current exempts it and the thread that was current.\<close>

lemma sched_inv_set_current:
  assumes "sched_inv k" "rt_current_thread k = Some c"
  shows "sched_inv_except {c, t} (k\<lparr>rt_current_priority := q, rt_current_thread := Some t\<rparr>)"
  using assms by (auto simp: sched_inv_def sched_inv_except_def thread_inv_def)

lemma current_unlinked_ready:
  assumes "sched_inv k" "rt_current_thread k = Some c" "tstat k c = RT_THREAD_RUNNING"
  shows "\<not> linked c (tlists k)"
proof
  assume "linked c (tlists k)"
  then obtain h where "c \<in> set (tlists k h)" by (auto simp: linked_def)
  then have "at_home (threads k c) h"
    using assms(1) by (auto simp: sched_inv_def dest: sched_inv_exceptD(3))
  then show False using assms(3) by (simp add: at_home_def split: list_head.splits)
qed

lemma schedule_switch_running:
  assumes inv: "sched_inv k" and cur: "rt_current_thread k = Some c"
    and run: "tstat k c = RT_THREAD_RUNNING" and t: "tstat k t = RT_THREAD_READY"
    and sw: "schedule_switch c t p True k = Some k'"
  shows "sched_inv k' \<and> rt_current_thread k' = Some t \<and> tstat k' t = RT_THREAD_RUNNING \<and>
    tlists k' = unlink t ((if stat (threads k c) AND RT_THREAD_STAT_YIELD \<noteq> 0 then push_back
      else push_front) (Ready (unat (tprio k c))) c (tlists k))"
proof -
  let ?k1 = "k\<lparr>rt_current_priority := of_nat p, rt_current_thread := Some t\<rparr>"
  let ?k2 = "rt_schedule_insert_thread c ?k1"
  let ?k3 = "rt_schedule_remove_thread t ?k2"
  have ct: "c \<noteq> t" using run t by auto
  have ok: "thread_ok (threads k c)" "thread_ok (threads k t)"
    using inv run t by (auto simp: sched_inv_def dest: sched_inv_thread_ok)
  have "sched_inv_except (insert c {t}) ?k1" using sched_inv_set_current [OF inv cur] by simp
  moreover have "\<not> linked c (tlists ?k1)" using current_unlinked_ready [OF inv cur run] by simp
  ultimately have "sched_inv_except ({t} - {c}) ?k2"
    using ok by (intro sched_inv_insert_thread) simp_all
  then have k2: "sched_inv_except {t} ?k2" using ct by simp
  have okt: "thread_ok (threads ?k2 t)" using ok ct by (simp add: insert_thread_threads)
  have "sched_inv_except {t} ?k3" using sched_inv_remove_thread [OF k2 okt] by simp
  moreover have "rt_current_thread ?k3 = Some t" by simp
  ultimately have "sched_inv_except ({} - {t})
      (upd_thread t (\<lambda>r. r\<lparr>stat := set_stat RT_THREAD_RUNNING (stat r)\<rparr>) ?k3)"
    using okt by (intro sched_inv_set_stat) auto
  moreover note schedule_switch_state [OF sw]
  ultimately show ?thesis using ct by (simp add: sched_inv_def insert_thread_tlists)
qed

lemma schedule_switch_not_running:
  assumes inv: "sched_inv k" and cur: "rt_current_thread k = Some c"
    and run: "tstat k c \<noteq> RT_THREAD_RUNNING" and t: "tstat k t = RT_THREAD_READY"
    and sw: "schedule_switch c t p False k = Some k'"
  shows "sched_inv k' \<and> rt_current_thread k' = Some t \<and> tstat k' t = RT_THREAD_RUNNING \<and>
    tlists k' = unlink t (tlists k)"
proof -
  let ?k1 = "k\<lparr>rt_current_priority := of_nat p, rt_current_thread := Some t\<rparr>"
  let ?k3 = "rt_schedule_remove_thread t ?k1"
  have ok: "thread_ok (threads k t)" using inv t by (auto simp: sched_inv_def dest: sched_inv_thread_ok)
  have "thread_inv ?k1 c"
    using inv cur run sched_inv_exceptD(4) [of "{}" k c] by (auto simp: sched_inv_def thread_inv_def)
  with sched_inv_set_current [OF inv cur, of t "of_nat p"] have k1: "sched_inv_except {t} ?k1"
    by (auto simp: sched_inv_except_def)
  have "sched_inv_except {t} ?k3" using sched_inv_remove_thread [OF k1, of t] ok by simp
  then have "sched_inv_except ({} - {t})
      (upd_thread t (\<lambda>r. r\<lparr>stat := set_stat RT_THREAD_RUNNING (stat r)\<rparr>) ?k3)"
    using ok by (intro sched_inv_set_stat) auto
  with schedule_switch_state [OF sw] show ?thesis by (simp add: sched_inv_def)
qed

lemma schedule_keep_running:
  assumes inv: "sched_inv k" and cur: "rt_current_thread k = Some c"
    and run: "tstat k c = RT_THREAD_RUNNING"
  shows "sched_inv (schedule_keep c k) \<and> rt_current_thread (schedule_keep c k) = Some c \<and>
    tstat (schedule_keep c k) c = RT_THREAD_RUNNING \<and> tlists (schedule_keep c k) = tlists k"
proof -
  have ok: "thread_ok (threads k c)"
    using inv run by (auto simp: sched_inv_def dest: sched_inv_thread_ok)
  have free: "\<not> linked c (tlists k)" using inv cur run by (rule current_unlinked_ready)
  have "sched_inv_except {c} (rt_schedule_remove_thread c k)"
    using sched_inv_remove_thread [OF inv [unfolded sched_inv_def] ok] by simp
  then have "sched_inv_except ({} - {c}) (schedule_keep c k)"
    unfolding schedule_keep_def using ok cur by (intro sched_inv_set_stat) auto
  then show ?thesis
    using cur free by (simp add: sched_inv_def schedule_keep_def unlink_unlinked)
qed

text \<open>Only the state bytes of threads, the thread lists, the bitmap and the current thread change.\<close>

definition same_but_sched :: "kernel \<Rightarrow> kernel \<Rightarrow> bool" where
  "same_but_sched k k' \<longleftrightarrow>
     (\<forall>t. threads k' t = (threads k t)\<lparr>stat := stat (threads k' t)\<rparr>) \<and>
     k' = k\<lparr>rt_current_thread := rt_current_thread k', rt_current_priority := rt_current_priority k',
       rt_thread_ready_priority_group := rt_thread_ready_priority_group k',
       tlists := tlists k', threads := threads k'\<rparr>"

lemma same_but_sched_refl [simp]: "same_but_sched k k"
  by (simp add: same_but_sched_def)

lemma same_but_sched_trans:
  assumes "same_but_sched k k1" "same_but_sched k1 k2" shows "same_but_sched k k2"
  unfolding same_but_sched_def
proof
  show "\<forall>t. threads k2 t = (threads k t)\<lparr>stat := stat (threads k2 t)\<rparr>"
  proof
    fix t
    have "threads k2 t = (threads k1 t)\<lparr>stat := stat (threads k2 t)\<rparr>"
      "threads k1 t = (threads k t)\<lparr>stat := stat (threads k1 t)\<rparr>"
      using assms unfolding same_but_sched_def by blast+
    then show "threads k2 t = (threads k t)\<lparr>stat := stat (threads k2 t)\<rparr>"
      by (metis rt_thread.update_convs(8) rt_thread.surjective)
  qed
  have "k2 = k1\<lparr>rt_current_thread := rt_current_thread k2,
      rt_current_priority := rt_current_priority k2,
      rt_thread_ready_priority_group := rt_thread_ready_priority_group k2,
      tlists := tlists k2, threads := threads k2\<rparr>"
    "k1 = k\<lparr>rt_current_thread := rt_current_thread k1,
      rt_current_priority := rt_current_priority k1,
      rt_thread_ready_priority_group := rt_thread_ready_priority_group k1,
      tlists := tlists k1, threads := threads k1\<rparr>"
    using assms unfolding same_but_sched_def by blast+
  then show "k2 = k\<lparr>rt_current_thread := rt_current_thread k2,
      rt_current_priority := rt_current_priority k2,
      rt_thread_ready_priority_group := rt_thread_ready_priority_group k2,
      tlists := tlists k2, threads := threads k2\<rparr>"
    by (cases k; cases k1; cases k2) simp
qed

lemma same_but_sched_sel:
  assumes "same_but_sched k k'"
  shows "rt_scheduler_lock_nest k' = rt_scheduler_lock_nest k"
    "rt_interrupt_nest k' = rt_interrupt_nest k" "rt_tick k' = rt_tick k"
    "rows k' = rows k" "timers k' = timers k" "objects k' = objects k"
    "obj_lists k' = obj_lists k" "sems k' = sems k" "mutexes k' = mutexes k"
    "events k' = events k" "mailboxes k' = mailboxes k" "msgqueues k' = msgqueues k"
    "mempools k' = mempools k" "soft_timer_busy k' = soft_timer_busy k"
    "thread_error (threads k' t) = thread_error (threads k t)"
    "tprio k' t = tprio k t" "event_set (threads k' t) = event_set (threads k t)"
    "event_info (threads k' t) = event_info (threads k t)"
    "number_mask (threads k' t) = number_mask (threads k t)"
    "remaining_tick (threads k' t) = remaining_tick (threads k t)"
    "init_tick (threads k' t) = init_tick (threads k t)"
proof -
  from assms have t: "threads k' t = (threads k t)\<lparr>stat := stat (threads k' t)\<rparr>"
    and k: "k' = k\<lparr>rt_current_thread := rt_current_thread k',
      rt_current_priority := rt_current_priority k',
      rt_thread_ready_priority_group := rt_thread_ready_priority_group k',
      tlists := tlists k', threads := threads k'\<rparr>"
    unfolding same_but_sched_def by blast+
  show "rt_scheduler_lock_nest k' = rt_scheduler_lock_nest k"
    "rt_interrupt_nest k' = rt_interrupt_nest k" "rt_tick k' = rt_tick k"
    "rows k' = rows k" "timers k' = timers k" "objects k' = objects k"
    "obj_lists k' = obj_lists k" "sems k' = sems k" "mutexes k' = mutexes k"
    "events k' = events k" "mailboxes k' = mailboxes k" "msgqueues k' = msgqueues k"
    "mempools k' = mempools k" "soft_timer_busy k' = soft_timer_busy k"
    by (subst k, simp)+
  show "thread_error (threads k' t) = thread_error (threads k t)"
    "tprio k' t = tprio k t" "event_set (threads k' t) = event_set (threads k t)"
    "event_info (threads k' t) = event_info (threads k t)"
    "number_mask (threads k' t) = number_mask (threads k t)"
    "remaining_tick (threads k' t) = remaining_tick (threads k t)"
    "init_tick (threads k' t) = init_tick (threads k t)"
    by (subst t, simp)+
qed

lemma same_but_sched_upd_stat:
  "same_but_sched k (upd_thread t (\<lambda>r. r\<lparr>stat := g r\<rparr>) k)"
  by (simp add: same_but_sched_def upd_thread_def)

lemma same_but_sched_current:
  "same_but_sched k (k\<lparr>rt_current_priority := q, rt_current_thread := c\<rparr>)"
  by (simp add: same_but_sched_def)

lemma same_but_sched_remove: "same_but_sched k (rt_schedule_remove_thread t k)"
  by (simp add: same_but_sched_def rt_schedule_remove_thread_def Let_def upd_tlists_def)

lemma same_but_sched_insert: "same_but_sched k (rt_schedule_insert_thread t k)"
  by (simp add: same_but_sched_def rt_schedule_insert_thread_def Let_def upd_tlists_def
      upd_thread_def)

lemma same_but_sched_switch:
  assumes "schedule_switch c t p need k = Some k'" shows "same_but_sched k k'"
  unfolding schedule_switch_state [OF assms]
  by (cases need)
    (auto intro!: same_but_sched_trans [OF _ same_but_sched_upd_stat]
      same_but_sched_trans [OF _ same_but_sched_remove]
      same_but_sched_trans [OF _ same_but_sched_insert] same_but_sched_current)

lemma same_but_sched_keep: "same_but_sched k (schedule_keep c k)"
  unfolding schedule_keep_def
  by (rule same_but_sched_trans [OF same_but_sched_remove same_but_sched_upd_stat])

lemma rt_schedule_same:
  assumes "rt_schedule k = Some k'" shows "same_but_sched k k'"
  using assms
  by (auto simp: rt_schedule_def Let_def bind_eq_Some_conv split: if_splits prod.splits
      dest: same_but_sched_switch
      intro: same_but_sched_trans [OF same_but_sched_upd_stat]
        same_but_sched_trans [OF same_but_sched_upd_stat same_but_sched_keep]
        same_but_sched_keep)

definition clear_yield :: "tid \<Rightarrow> kernel \<Rightarrow> kernel" where
  "clear_yield c = upd_thread c (\<lambda>r. r\<lparr>stat := stat r AND NOT RT_THREAD_STAT_YIELD\<rparr>)"

text \<open>The simplifier writes \<^term>\<open>NOT 8\<close> as \<^term>\<open>- 9\<close>.\<close>

lemma and_not_8 [simp]:
  "((s::8 word) AND - 9) AND 7 = s AND 7" "((s::8 word) AND - 9) AND 8 = 0"
  by (simp_all add: and.assoc)

lemma clear_yield_sel [simp]:
  "tlists (clear_yield c k) = tlists k" "rt_current_thread (clear_yield c k) = rt_current_thread k"
  "tstat (clear_yield c k) t = tstat k t" "tprio (clear_yield c k) t = tprio k t"
  "stat (threads (clear_yield c k) c) AND 8 = 0"
  by (simp_all add: clear_yield_def)

lemma sched_inv_clear_yield [simp]: "sched_inv (clear_yield c k) = sched_inv k"
  unfolding clear_yield_def sched_inv_def by (rule sched_inv_except_upd_thread) simp_all

text \<open>The five ways through \<^const>\<open>rt_schedule\<close>.\<close>

lemma rt_schedule_cases:
  assumes inv: "sched_inv k" and cur: "rt_current_thread k = Some c"
    and sched: "rt_schedule k = Some k'"
  obtains
    (locked) "rt_scheduler_lock_nest k \<noteq> 0" "k' = k"
  | (idle) "rt_scheduler_lock_nest k = 0" "rt_thread_ready_priority_group k = 0" "k' = k"
  | (keep) p ts t where "rt_scheduler_lock_nest k = 0" "tlists k (Ready p) = t # ts"
      "\<forall>q. tlists k (Ready q) \<noteq> [] \<longrightarrow> q < 32 \<longrightarrow> p \<le> q" "tstat k c = RT_THREAD_RUNNING"
      "unat (tprio k c) < p \<or> unat (tprio k c) = p \<and> stat (threads k c) AND 8 = 0"
      "k' = schedule_keep c (clear_yield c k)"
  | (preempt) p ts t where "rt_scheduler_lock_nest k = 0" "tlists k (Ready p) = t # ts"
      "\<forall>q. tlists k (Ready q) \<noteq> [] \<longrightarrow> q < 32 \<longrightarrow> p \<le> q" "tstat k c = RT_THREAD_RUNNING"
      "p < unat (tprio k c) \<or> unat (tprio k c) = p \<and> stat (threads k c) AND 8 \<noteq> 0"
      "tstat k t = RT_THREAD_READY" "t \<noteq> c"
      "schedule_switch c t p True (clear_yield c k) = Some k'"
  | (dispatch) p ts t where "rt_scheduler_lock_nest k = 0" "tlists k (Ready p) = t # ts"
      "\<forall>q. tlists k (Ready q) \<noteq> [] \<longrightarrow> q < 32 \<longrightarrow> p \<le> q" "tstat k c \<noteq> RT_THREAD_RUNNING"
      "tstat k t = RT_THREAD_READY" "t \<noteq> c" "schedule_switch c t p False k = Some k'"
proof (cases "rt_scheduler_lock_nest k = 0 \<and> rt_thread_ready_priority_group k \<noteq> 0")
  case False
  then show thesis using sched locked idle by (auto simp: rt_schedule_def split: if_splits)
next
  case True
  obtain t p ts where best: "scheduler_get_highest_priority_thread k = Some (t, p)"
    "tlists k (Ready p) = t # ts" "tstat k t = RT_THREAD_READY"
    "\<forall>q. tlists k (Ready q) \<noteq> [] \<longrightarrow> q < 32 \<longrightarrow> p \<le> q"
    using get_highest_spec [OF inv [unfolded sched_inv_def]] True by blast
  have tc: "t \<noteq> c"
    using sched_inv_exceptD(4) [OF inv [unfolded sched_inv_def], of t] best(3) cur
    by (auto simp: thread_inv_def)
  show thesis
  proof (cases "tstat k c = RT_THREAD_RUNNING")
    case run: True
    show thesis
    proof (cases "unat (tprio k c) < p \<or> unat (tprio k c) = p \<and> stat (threads k c) AND 8 = 0")
      case stay: True
      have "k' = schedule_keep c (clear_yield c k)"
        using sched True best(1) cur run stay
        by (auto simp: rt_schedule_def Let_def clear_yield_def)
      then show thesis using True best run stay keep by blast
    next
      case go: False
      have "schedule_switch c t p True (clear_yield c k) = Some k'"
        using sched True best(1) cur run go tc
        by (auto simp: rt_schedule_def Let_def clear_yield_def split: if_splits)
      moreover have "p < unat (tprio k c) \<or> unat (tprio k c) = p \<and> stat (threads k c) AND 8 \<noteq> 0"
        using go by linarith
      ultimately show thesis using True best run tc preempt by blast
    qed
  next
    case run: False
    have "schedule_switch c t p False k = Some k'"
      using sched True best(1) cur run tc by (auto simp: rt_schedule_def Let_def)
    then show thesis using True best run tc dispatch by blast
  qed
qed

lemma sched_inv_rt_schedule:
  assumes inv: "sched_inv k" and cur: "rt_current_thread k = Some c"
    and sched: "rt_schedule k = Some k'"
  shows "sched_inv k'" "\<exists>c'. rt_current_thread k' = Some c'"
proof -
  from inv cur sched have "sched_inv k' \<and> (\<exists>c'. rt_current_thread k' = Some c')"
  proof (cases rule: rt_schedule_cases)
    case keep
    then show ?thesis using schedule_keep_running [of "clear_yield c k" c] inv cur by simp
  next
    case (preempt p ts t)
    then show ?thesis using schedule_switch_running [of "clear_yield c k" c t p k'] inv cur by simp
  next
    case (dispatch p ts t)
    then show ?thesis using schedule_switch_not_running [of k c t p k'] inv cur by simp
  qed (use inv cur in auto)
  then show "sched_inv k'" "\<exists>c'. rt_current_thread k' = Some c'" by auto
qed

text \<open>A ready thread of the state after the switch was ready before, or is the preempted one.\<close>

lemma ready_bound:
  assumes inv: "sched_inv k'" and "tstat k' u = RT_THREAD_READY"
    and low: "\<And>q v. v \<in> set (tlists k' (Ready q)) \<Longrightarrow> q < 32 \<Longrightarrow> n \<le> q"
  shows "n \<le> unat (tprio k' u)"
proof -
  have "thread_inv k' u" using inv by (auto simp: sched_inv_def dest: sched_inv_exceptD(4))
  then have "u \<in> set (tlists k' (Ready (unat (tprio k' u))))" "thread_ok (threads k' u)"
    using assms(2) by (auto simp: thread_inv_def)
  then show ?thesis using low by (auto simp: thread_ok_def)
qed

lemma rt_schedule_highest:
  assumes inv: "sched_inv k" and cur: "rt_current_thread k = Some c"
    and sched: "rt_schedule k = Some k'" and unlocked: "rt_scheduler_lock_nest k = 0"
    and work: "tstat k c = RT_THREAD_RUNNING \<or> rt_thread_ready_priority_group k \<noteq> 0"
  shows "\<exists>c'. rt_current_thread k' = Some c' \<and> tstat k' c' = RT_THREAD_RUNNING \<and>
    (\<forall>u. tstat k' u = RT_THREAD_READY \<longrightarrow> unat (tprio k' c') \<le> unat (tprio k' u))"
proof -
  note inv' = sched_inv_rt_schedule(1) [OF inv cur sched]
  note prio = same_but_sched_sel(16) [OF rt_schedule_same [OF sched]]
  have prio_best: "unat (tprio k t) = p" if "tlists k (Ready p) = t # ts" for t p ts
    using that inv sched_inv_exceptD(3) [of "{}" k t "Ready p"]
    by (auto simp: sched_inv_def at_home_def)
  from inv cur sched show ?thesis
  proof (cases rule: rt_schedule_cases)
    case locked
    then show ?thesis using unlocked by simp
  next
    case idle
    have "\<not> tstat k u = RT_THREAD_READY" for u
    proof
      assume "tstat k u = RT_THREAD_READY"
      then have "32 \<le> unat (tprio k u)"
        using idle inv sched_inv_exceptD(2) [of "{}" k]
        by (intro ready_bound [OF inv]) (auto simp: sched_inv_def)
      moreover have "thread_ok (threads k u)"
        using inv \<open>tstat k u = RT_THREAD_READY\<close>
        by (auto simp: sched_inv_def dest: sched_inv_thread_ok)
      ultimately show False by (simp add: thread_ok_def)
    qed
    then show ?thesis using idle cur work by simp
  next
    case (keep p ts t)
    note kk = schedule_keep_running [of "clear_yield c k" c]
    have lists: "tlists k' = tlists k" using kk keep inv cur by simp
    have "unat (tprio k' c) \<le> unat (tprio k' u)" if "tstat k' u = RT_THREAD_READY" for u
    proof (rule ready_bound [OF inv' that])
      fix q v assume "v \<in> set (tlists k' (Ready q))" "q < 32"
      then have "tlists k (Ready q) \<noteq> []" "q < 32" using lists by auto
      then have "p \<le> q" using keep(3) by blast
      then show "unat (tprio k' c) \<le> q" using keep(5) prio [of c] by auto
    qed
    then show ?thesis using kk keep inv cur by auto
  next
    case (preempt p ts t)
    note sw = schedule_switch_running [of "clear_yield c k" c t p k']
    have "p \<le> unat (tprio k' u)" if "tstat k' u = RT_THREAD_READY" for u
    proof (rule ready_bound [OF inv' that])
      fix q v assume v: "v \<in> set (tlists k' (Ready q))" "q < 32"
      then have "tlists k (Ready q) \<noteq> [] \<or> q = unat (tprio k c)"
        using sw preempt inv cur by (auto simp: unlink_def push_front_def split: if_splits)
      then show "p \<le> q" using preempt(3) [rule_format, of q] preempt(5) v(2) by auto
    qed
    then show ?thesis using sw preempt inv cur prio prio_best by auto
  next
    case (dispatch p ts t)
    note sw = schedule_switch_not_running [of k c t p k']
    have "p \<le> unat (tprio k' u)" if "tstat k' u = RT_THREAD_READY" for u
    proof (rule ready_bound [OF inv' that])
      fix q v assume v: "v \<in> set (tlists k' (Ready q))" "q < 32"
      then have "tlists k (Ready q) \<noteq> []" using sw dispatch inv cur by (auto simp: unlink_def)
      then show "p \<le> q" using dispatch(3) v(2) by blast
    qed
    then show ?thesis using sw dispatch inv cur prio prio_best by auto
  qed
qed

lemma rt_schedule_defined:
  assumes inv: "sched_inv k" and cur: "rt_current_thread k = Some c"
    and stacks: "\<And>t. tstat k t = RT_THREAD_READY \<Longrightarrow> stack_ok (threads k t)"
  shows "\<exists>k'. rt_schedule k = Some k'"
proof (cases "rt_scheduler_lock_nest k = 0 \<and> rt_thread_ready_priority_group k \<noteq> 0")
  case False
  then show ?thesis by (auto simp: rt_schedule_def)
next
  case True
  obtain t p where best: "scheduler_get_highest_priority_thread k = Some (t, p)"
    "tstat k t = RT_THREAD_READY"
    using get_highest_spec [OF inv [unfolded sched_inv_def]] True by blast
  have tc: "t \<noteq> c"
    using sched_inv_exceptD(4) [OF inv [unfolded sched_inv_def], of t] best(2) cur
    by (auto simp: thread_inv_def)
  have "schedule_switch c t p need j \<noteq> None" if "threads j t = threads k t" for need j
    using stacks [OF best(2)] tc that by (intro schedule_switch_defined) auto
  then show ?thesis
    using True best(1) cur tc by (auto simp: rt_schedule_def Let_def)
qed

text \<open>Scheduling turns a running thread into a ready one and a ready thread into a running one;
  every other state is unchanged.\<close>

lemma rt_schedule_states:
  assumes inv: "sched_inv k" and cur: "rt_current_thread k = Some c"
    and sched: "rt_schedule k = Some k'"
  shows "tstat k' t = tstat k t \<or>
    tstat k t \<in> {RT_THREAD_READY, RT_THREAD_RUNNING} \<and>
    tstat k' t \<in> {RT_THREAD_READY, RT_THREAD_RUNNING}"
  using inv cur sched
proof (cases rule: rt_schedule_cases)
  case keep
  then show ?thesis by (simp add: schedule_keep_def clear_yield_def)
next
  case (preempt p ts u)
  then have "c \<noteq> u" by simp
  with schedule_switch_state [OF preempt(8)] preempt(4,6) show ?thesis
    by (simp add: insert_thread_threads clear_yield_def)
next
  case (dispatch p ts u)
  with schedule_switch_state [OF dispatch(7)] show ?thesis by simp
qed simp_all

lemma rt_schedule_keeps_runnable:
  assumes "sched_inv k" "rt_current_thread k = Some c" "rt_schedule k = Some k'"
    "tstat k t \<in> {RT_THREAD_READY, RT_THREAD_RUNNING}"
  shows "tstat k' t \<in> {RT_THREAD_READY, RT_THREAD_RUNNING}"
  using rt_schedule_states [OF assms(1-3), of t] assms(4) by auto

text \<open>The wait lists and the list of closed threads are not touched.\<close>

lemma rt_schedule_wait_lists:
  assumes inv: "sched_inv k" and cur: "rt_current_thread k = Some c"
    and sched: "rt_schedule k = Some k'" and h: "\<forall>p. h \<noteq> Ready p"
  shows "tlists k' h = tlists k h"
proof -
  have un: "unlink t (tlists k) h = tlists k h" if "tstat k t = RT_THREAD_READY" for t
  proof -
    have "t \<notin> set (tlists k h)"
      using that h inv sched_inv_exceptD(3) [of "{}" k t h]
      by (cases h) (auto simp: sched_inv_def at_home_def)
    then show ?thesis by (simp add: unlink_def)
  qed
  from inv cur sched show ?thesis
  proof (cases rule: rt_schedule_cases)
    case keep
    then show ?thesis using schedule_keep_running [of "clear_yield c k" c] inv cur by simp
  next
    case (preempt p ts t)
    then have "tlists k' h = unlink t (push_front (Ready (unat (tprio k c))) c (tlists k)) h"
      using schedule_switch_running [of "clear_yield c k" c t p k'] inv cur by simp
    also have "\<dots> = unlink t (tlists k) h" using h by (simp add: unlink_def push_front_def)
    finally show ?thesis using un [OF preempt(6)] by simp
  next
    case (dispatch p ts t)
    then show ?thesis
      using schedule_switch_not_running [of k c t p k'] inv cur un [OF dispatch(5)] by simp
  qed simp_all
qed

end
