(* ===== verification/Kobject.thy ===== *)
theory Kobject
  imports Scheduler
begin

text \<open>
  The object registry of \<^verbatim>\<open>src/object.c\<close>: one list of objects per class, static and dynamic
  objects, lookup by name. A name is a HOL string, the characters of the C string before its
  terminator. \<^verbatim>\<open>RT_KERNEL_MALLOC\<close> appears as the argument \<open>mem\<close> of the allocating operations: the
  reference of the block it returned, or \<^term>\<open>None\<close> for a null pointer. \<^verbatim>\<open>rt_exit_critical\<close> calls
  the scheduler; an operation goes on in the state that the scheduler leaves.
\<close>

section \<open>Operations\<close>

abbreviation RT_NAME_MAX :: nat where "RT_NAME_MAX \<equiv> 8"

text \<open>The classes of \<^verbatim>\<open>_object_container\<close>, in the order of the table.\<close>

definition object_container :: "8 word list" where
  "object_container = [RT_Object_Class_Thread, RT_Object_Class_Semaphore, RT_Object_Class_Mutex,
     RT_Object_Class_Event, RT_Object_Class_MailBox, RT_Object_Class_MessageQueue,
     RT_Object_Class_MemPool, RT_Object_Class_Device, RT_Object_Class_Timer,
     RT_Object_Class_Memory]"

definition rt_object_get_information :: "8 word \<Rightarrow> 8 word option" where
  "rt_object_get_information ty = List.find (\<lambda>c. c = ty) object_container"

definition rt_object_get_length :: "8 word \<Rightarrow> kernel \<Rightarrow> nat" where
  "rt_object_get_length ty k =
     (case rt_object_get_information ty of None \<Rightarrow> 0 | Some c \<Rightarrow> length (obj_lists k c))"

definition rt_object_get_pointers :: "8 word \<Rightarrow> int \<Rightarrow> kernel \<Rightarrow> nat \<times> obj_ref list" where
  "rt_object_get_pointers ty maxlen k =
     (if maxlen \<le> 0 then (0, [])
      else case rt_object_get_information ty of
        None \<Rightarrow> (0, [])
      | Some c \<Rightarrow> (let ps = take (nat maxlen) (obj_lists k c) in (length ps, ps)))"

definition rt_object_init :: "obj_ref \<Rightarrow> 8 word \<Rightarrow> string \<Rightarrow> kernel \<Rightarrow> kernel option" where
  "rt_object_init r ty nm k = do {
     c \<leftarrow> rt_object_get_information ty;
     let k1 = rt_enter_critical k;
     rt_assert (r \<notin> set (obj_lists k1 c));
     k2 \<leftarrow> rt_exit_critical k1;
     let k3 = upd_object r (\<lambda>ob. ob\<lparr>obj_type := ty OR RT_Object_Class_Static,
                                    obj_name := take RT_NAME_MAX nm\<rparr>) k2;
     Some (upd_obj_lists (push_front c r) k3) }"

definition rt_object_detach :: "obj_ref \<Rightarrow> kernel \<Rightarrow> kernel" where
  "rt_object_detach r k =
     upd_obj_lists (unlink r) (upd_object r (\<lambda>ob. ob\<lparr>obj_type := 0\<rparr>) k)"

definition zero_object :: rt_object where
  "zero_object = \<lparr>obj_name = [], obj_type = 0, obj_flag = 0\<rparr>"

definition zero_timer :: rt_timer where
  "zero_timer = \<lparr>timeout_func = User_func 0, timer_parameter = 0, timer_init_tick = 0,
     timeout_tick = 0\<rparr>"

definition zero_thread :: rt_thread where
  "zero_thread = \<lparr>sp = 0, thread_entry = 0, thread_parameter = 0, stack_addr = 0, stack_size = 0,
     stack_mark = 0, thread_error = 0, stat = 0, current_priority = 0, number_mask = 0,
     event_set = 0, event_info = 0, init_tick = 0, remaining_tick = 0, cleanup = None,
     user_data = 0\<rparr>"

definition zero_mailbox :: rt_mailbox where
  "zero_mailbox = \<lparr>mb_pool = [], mb_size = 0, mb_entry = 0, mb_in_offset = 0, mb_out_offset = 0\<rparr>"

definition zero_msgqueue :: rt_messagequeue where
  "zero_msgqueue = \<lparr>mq_next = (\<lambda>_. None), mq_data = (\<lambda>_. []), msg_size = 0, max_msgs = 0,
     mq_entry = 0, msg_queue_head = None, msg_queue_tail = None, msg_queue_free = None\<rparr>"

definition zero_mempool :: rt_mempool where
  "zero_mempool = \<lparr>mp_start_address = 0, mp_pool_size = 0, mp_block_size = 0, mp_block_list = None,
     mp_links = (\<lambda>_. Free_link None), block_total_count = 0, block_free_count = 0\<rparr>"

text \<open>The state at reset: the static variables are zero, the lists empty.\<close>

definition zero_kernel :: kernel where
  "zero_kernel = \<lparr>rt_tick = 0, rt_interrupt_nest = 0, rt_scheduler_lock_nest = 0,
     rt_current_thread = None, rt_current_priority = 0, rt_thread_ready_priority_group = 0,
     tlists = (\<lambda>_. []), threads = (\<lambda>_. zero_thread), rows = (\<lambda>_. []),
     timers = (\<lambda>_. zero_timer), soft_timer_busy = False, obj_lists = (\<lambda>_. []),
     objects = (\<lambda>_. zero_object), sems = (\<lambda>_. \<lparr>sem_value = 0\<rparr>),
     mutexes = (\<lambda>_. \<lparr>mutex_value = 0, original_priority = 0, hold = 0, owner = None\<rparr>),
     events = (\<lambda>_. \<lparr>ev_set = 0\<rparr>), mailboxes = (\<lambda>_. zero_mailbox),
     msgqueues = (\<lambda>_. zero_msgqueue), mempools = (\<lambda>_. zero_mempool),
     idle_hook_list = replicate 4 None, rt_errno = 0\<rparr>"

text \<open>\<^verbatim>\<open>rt_memset(object, 0x0, information->object_size)\<close> on the structure a reference stands for.\<close>

definition object_memset :: "obj_ref \<Rightarrow> kernel \<Rightarrow> kernel" where
  "object_memset r k =
     (let k1 = upd_object r (\<lambda>_. zero_object) k in
      case r of
        Obj_thread t \<Rightarrow>
          upd_object (Obj_timer (Thread_timer t)) (\<lambda>_. zero_object)
            (upd_timer (Thread_timer t) (\<lambda>_. zero_timer) (upd_thread t (\<lambda>_. zero_thread) k1))
      | Obj_timer tm \<Rightarrow> upd_timer tm (\<lambda>_. zero_timer) k1
      | Obj_ipc (Sem n) \<Rightarrow> k1\<lparr>sems := (sems k1)(n := \<lparr>sem_value = 0\<rparr>)\<rparr>
      | Obj_ipc (Mutex n) \<Rightarrow> k1\<lparr>mutexes := (mutexes k1)(n :=
          \<lparr>mutex_value = 0, original_priority = 0, hold = 0, owner = None\<rparr>)\<rparr>
      | Obj_ipc (Event n) \<Rightarrow> k1\<lparr>events := (events k1)(n := \<lparr>ev_set = 0\<rparr>)\<rparr>
      | Obj_ipc (Mailbox n) \<Rightarrow> k1\<lparr>mailboxes := (mailboxes k1)(n := zero_mailbox)\<rparr>
      | Obj_ipc (Msgqueue n) \<Rightarrow> k1\<lparr>msgqueues := (msgqueues k1)(n := zero_msgqueue)\<rparr>
      | Obj_ipc (Mempool n) \<Rightarrow> k1\<lparr>mempools := (mempools k1)(n := zero_mempool)\<rparr>
      | Obj_memory _ \<Rightarrow> k1)"

definition rt_object_allocate ::
  "8 word \<Rightarrow> string \<Rightarrow> obj_ref option \<Rightarrow> kernel \<Rightarrow> (obj_ref option \<times> kernel) option" where
  "rt_object_allocate ty nm mem k = do {
     RT_DEBUG_NOT_IN_INTERRUPT k;
     c \<leftarrow> rt_object_get_information ty;
     case mem of
       None \<Rightarrow> Some (None, k)
     | Some r \<Rightarrow>
         let k1 = object_memset r k;
             k2 = upd_object r (\<lambda>ob. ob\<lparr>obj_type := ty, obj_flag := 0,
                                        obj_name := take RT_NAME_MAX nm\<rparr>) k1
         in Some (Some r, upd_obj_lists (push_front c r) k2) }"

definition rt_object_is_systemobject :: "obj_ref \<Rightarrow> kernel \<Rightarrow> bool" where
  "rt_object_is_systemobject r k \<longleftrightarrow> obj_type (objects k r) AND RT_Object_Class_Static \<noteq> 0"

definition rt_object_get_type :: "obj_ref \<Rightarrow> kernel \<Rightarrow> 8 word" where
  "rt_object_get_type r k = obj_type (objects k r) AND NOT RT_Object_Class_Static"

text \<open>The block is returned to the heap, which the registry does not see.\<close>

definition rt_object_delete :: "obj_ref \<Rightarrow> kernel \<Rightarrow> kernel option" where
  "rt_object_delete r k = do {
     rt_assert (obj_type (objects k r) AND RT_Object_Class_Static = 0);
     Some (upd_obj_lists (unlink r) (upd_object r (\<lambda>ob. ob\<lparr>obj_type := RT_Object_Class_Null\<rparr>) k)) }"

text \<open>\<^verbatim>\<open>rt_strncmp(a, b, RT_NAME_MAX) == 0\<close>\<close>

definition names_equal :: "string \<Rightarrow> string \<Rightarrow> bool" where
  "names_equal a b \<longleftrightarrow> take RT_NAME_MAX a = take RT_NAME_MAX b"

definition rt_object_find ::
  "string option \<Rightarrow> 8 word \<Rightarrow> kernel \<Rightarrow> (obj_ref option \<times> kernel) option" where
  "rt_object_find nm ty k =
     (case (nm, rt_object_get_information ty) of
        (Some s, Some c) \<Rightarrow> do {
          RT_DEBUG_NOT_IN_INTERRUPT k;
          let k1 = rt_enter_critical k;
          let found = List.find (\<lambda>r. names_equal (obj_name (objects k1 r)) s) (obj_lists k1 c);
          k2 \<leftarrow> rt_exit_critical k1;
          Some (found, k2) }
      | _ \<Rightarrow> Some (None, k))"

section \<open>Field access\<close>

lemma upd_object_sel [simp]:
  "objects (upd_object r f k) = (objects k)(r := f (objects k r))"
  "threads (upd_object r f k) = threads k" "tlists (upd_object r f k) = tlists k"
  "rt_current_thread (upd_object r f k) = rt_current_thread k"
  "rt_thread_ready_priority_group (upd_object r f k) = rt_thread_ready_priority_group k"
  "rt_scheduler_lock_nest (upd_object r f k) = rt_scheduler_lock_nest k"
  "rt_interrupt_nest (upd_object r f k) = rt_interrupt_nest k"
  "rt_tick (upd_object r f k) = rt_tick k"
  "rows (upd_object r f k) = rows k" "timers (upd_object r f k) = timers k"
  "obj_lists (upd_object r f k) = obj_lists k" "sems (upd_object r f k) = sems k"
  "mutexes (upd_object r f k) = mutexes k" "events (upd_object r f k) = events k"
  "mailboxes (upd_object r f k) = mailboxes k" "msgqueues (upd_object r f k) = msgqueues k"
  "mempools (upd_object r f k) = mempools k"
  "soft_timer_busy (upd_object r f k) = soft_timer_busy k"
  by (simp_all add: upd_object_def)

lemma upd_obj_lists_sel [simp]:
  "obj_lists (upd_obj_lists g k) = g (obj_lists k)" "objects (upd_obj_lists g k) = objects k"
  "threads (upd_obj_lists g k) = threads k" "tlists (upd_obj_lists g k) = tlists k"
  "rt_current_thread (upd_obj_lists g k) = rt_current_thread k"
  "rt_thread_ready_priority_group (upd_obj_lists g k) = rt_thread_ready_priority_group k"
  "rt_scheduler_lock_nest (upd_obj_lists g k) = rt_scheduler_lock_nest k"
  "rt_interrupt_nest (upd_obj_lists g k) = rt_interrupt_nest k"
  "rt_tick (upd_obj_lists g k) = rt_tick k"
  "rows (upd_obj_lists g k) = rows k" "timers (upd_obj_lists g k) = timers k"
  "sems (upd_obj_lists g k) = sems k" "mutexes (upd_obj_lists g k) = mutexes k"
  "events (upd_obj_lists g k) = events k" "mailboxes (upd_obj_lists g k) = mailboxes k"
  "msgqueues (upd_obj_lists g k) = msgqueues k" "mempools (upd_obj_lists g k) = mempools k"
  "soft_timer_busy (upd_obj_lists g k) = soft_timer_busy k"
  by (simp_all add: upd_obj_lists_def)

lemma sched_inv_obj [simp]:
  "sched_inv_except X (upd_object r f k) = sched_inv_except X k"
  "sched_inv_except X (upd_obj_lists g k) = sched_inv_except X k"
  by (rule sched_inv_except_cong; simp)+

lemma sched_inv_detach [simp]:
  "sched_inv_except X (rt_object_detach r k) = sched_inv_except X k"
  by (simp add: rt_object_detach_def)

section \<open>The registry invariant\<close>

text \<open>An object is in at most one list, and in the list of its own class.\<close>

definition registry_inv :: "kernel \<Rightarrow> bool" where
  "registry_inv k \<longleftrightarrow> wf_queues (obj_lists k) \<and>
     (\<forall>c. \<forall>r \<in> set (obj_lists k c). c \<in> set object_container \<and> rt_object_get_type r k = c \<and>
        length (obj_name (objects k r)) \<le> RT_NAME_MAX)"

lemma get_information_iff: "rt_object_get_information ty = Some c \<longleftrightarrow> ty \<in> set object_container \<and> c = ty"
proof -
  have "List.find (\<lambda>c. c = ty) xs = Some c \<longleftrightarrow> ty \<in> set xs \<and> c = ty" for xs :: "8 word list"
    by (induction xs) auto
  then show ?thesis by (simp add: rt_object_get_information_def)
qed

lemma class_bits:
  "ty \<in> set object_container \<Longrightarrow> (ty OR RT_Object_Class_Static) AND NOT RT_Object_Class_Static = ty"
  "ty \<in> set object_container \<Longrightarrow> ty AND NOT RT_Object_Class_Static = ty"
  "ty \<in> set object_container \<Longrightarrow> ty AND RT_Object_Class_Static = 0"
  "(ty OR RT_Object_Class_Static) AND RT_Object_Class_Static \<noteq> 0"
  by (auto simp: object_container_def bit.conj_disj_distrib2)

lemma exit_critical_same:
  "rt_exit_critical k = Some k' \<Longrightarrow>
   same_but_sched (k\<lparr>rt_scheduler_lock_nest := rt_scheduler_lock_nest k'\<rparr>) k'"
  by (auto simp: rt_exit_critical_def Let_def split: if_splits dest!: rt_schedule_same
      simp: same_but_sched_sel(1))

lemma critical_same:
  assumes "rt_exit_critical (rt_enter_critical k) = Some k'"
  shows "objects k' = objects k" "obj_lists k' = obj_lists k"
  using same_but_sched_sel(6,7) [OF exit_critical_same [OF assms]]
  by (simp_all add: rt_enter_critical_def)

lemma sched_inv_critical:
  assumes "rt_exit_critical (rt_enter_critical k) = Some k'" "sched_inv k"
  shows "sched_inv k'"
proof -
  have lock: "sched_inv (k\<lparr>rt_scheduler_lock_nest := n\<rparr>)" for n
    using assms(2) sched_inv_except_cong [of "k\<lparr>rt_scheduler_lock_nest := n\<rparr>" k]
    by (simp add: sched_inv_def)
  show ?thesis
  proof (cases "rt_current_thread k")
    case None
    then show ?thesis
      using assms(1) lock assms(2) by (auto simp: rt_exit_critical_def rt_enter_critical_def Let_def split: if_splits)
  next
    case (Some c)
    then show ?thesis
      using assms(1) lock sched_inv_rt_schedule(1) [of "k\<lparr>rt_scheduler_lock_nest := 0\<rparr>" c k']
        assms(2)
      by (auto simp: rt_exit_critical_def rt_enter_critical_def Let_def split: if_splits)
  qed
qed

lemma registry_push:
  assumes inv: "registry_inv k" and free: "\<not> linked r (obj_lists k)"
    and c: "c \<in> set object_container"
    and f: "obj_type (f (objects k r)) AND NOT RT_Object_Class_Static = c"
      "length (obj_name (f (objects k r))) \<le> RT_NAME_MAX"
  shows "registry_inv (upd_obj_lists (push_front c r) (upd_object r f k))"
  unfolding registry_inv_def
proof (intro conjI allI ballI)
  let ?k = "upd_obj_lists (push_front c r) (upd_object r f k)"
  show "wf_queues (obj_lists ?k)" using inv free by (simp add: registry_inv_def wf_push_front)
  fix d s assume s: "s \<in> set (obj_lists ?k d)"
  then have "s = r \<and> d = c \<or> s \<noteq> r \<and> s \<in> set (obj_lists k d)"
    using free by (auto simp: push_front_def linked_def split: if_splits)
  then show "d \<in> set object_container" "rt_object_get_type s ?k = d"
    "length (obj_name (objects ?k s)) \<le> RT_NAME_MAX"
    using inv c f by (auto simp: registry_inv_def rt_object_get_type_def)
qed

lemma registry_unlink:
  assumes "registry_inv k"
  shows "registry_inv (upd_obj_lists (unlink r) (upd_object r (\<lambda>ob. ob\<lparr>obj_type := 0\<rparr>) k))"
  using assms wf_unlink [of "obj_lists k" r]
  by (auto simp: registry_inv_def rt_object_get_type_def unlink_def)

lemma registry_inv_cong:
  "objects k' = objects k \<Longrightarrow> obj_lists k' = obj_lists k \<Longrightarrow> registry_inv k' = registry_inv k"
  by (simp add: registry_inv_def rt_object_get_type_def)

lemma rt_object_init_spec:
  assumes init: "rt_object_init r ty nm k = Some k'"
    and inv: "registry_inv k" "\<not> linked r (obj_lists k)"
  shows "registry_inv k'" "rt_object_get_type r k' = ty" "rt_object_is_systemobject r k'"
    "obj_name (objects k' r) = take RT_NAME_MAX nm" "ty \<in> set object_container"
    "obj_lists k' = push_front ty r (obj_lists k)"
    "\<And>s. s \<noteq> r \<Longrightarrow> objects k' s = objects k s"
proof -
  from init obtain k2 where ty: "ty \<in> set object_container"
    and k2: "rt_exit_critical (rt_enter_critical k) = Some k2"
    and k': "k' = upd_obj_lists (push_front ty r) (upd_object r
      (\<lambda>ob. ob\<lparr>obj_type := ty OR RT_Object_Class_Static, obj_name := take RT_NAME_MAX nm\<rparr>) k2)"
    by (auto simp: rt_object_init_def Let_def bind_eq_Some_conv get_information_iff)
  note same = critical_same [OF k2]
  have "registry_inv k2" using inv(1) same registry_inv_cong by blast
  then show "registry_inv k'"
    unfolding k' using inv(2) same ty class_bits(1) [OF ty] by (intro registry_push) simp_all
  show "ty \<in> set object_container" by (fact ty)
  show "rt_object_get_type r k' = ty" "rt_object_is_systemobject r k'"
    using class_bits [of ty] ty
    by (simp_all add: k' rt_object_get_type_def rt_object_is_systemobject_def)
qed (use init in \<open>auto simp: rt_object_init_def Let_def bind_eq_Some_conv get_information_iff
  dest: critical_same\<close>)

lemma rt_object_find_same:
  assumes "rt_object_find nm ty k = Some (x, k')"
  shows "objects k' = objects k" "obj_lists k' = obj_lists k"
  using assms
  by (auto simp: rt_object_find_def Let_def bind_eq_Some_conv RT_DEBUG_NOT_IN_INTERRUPT_def
      split: option.splits dest: critical_same)

section \<open>Properties\<close>

text \<open>An object registered by \<^verbatim>\<open>rt_object_init\<close> is what \<^verbatim>\<open>rt_object_find\<close> returns for its name
  (shortened to \<^verbatim>\<open>RT_NAME_MAX\<close> characters) and class, even when other objects have that name; it is
  a static object of the class, and the registry stays well formed.\<close>

theorem rt_object_init_find:
  assumes "registry_inv k" "\<not> linked r (obj_lists k)"
    and "rt_object_init r ty nm k = Some k1"
    and "rt_object_find (Some nm) ty k1 = Some (found, k2)"
  shows "found = Some r \<and> rt_object_get_type r k2 = ty \<and> rt_object_is_systemobject r k2 \<and>
    registry_inv k2"
proof -
  note spec = rt_object_init_spec [OF assms(3,1,2)]
  note same = rt_object_find_same [OF assms(4)]
  have "found = List.find (\<lambda>s. names_equal (obj_name (objects k1 s)) nm) (obj_lists k1 ty)"
    using assms(4) spec(5) get_information_iff [of ty ty]
    by (auto simp: rt_object_find_def Let_def bind_eq_Some_conv RT_DEBUG_NOT_IN_INTERRUPT_def
        rt_enter_critical_def)
  then have "found = Some r" using spec(4,6) by (simp add: push_front_def names_equal_def)
  then show ?thesis
    using spec(1,2,3) same registry_inv_cong [OF same]
    by (simp add: rt_object_get_type_def rt_object_is_systemobject_def)
qed

lemma zero_kernel_sel [simp]:
  "rt_interrupt_nest zero_kernel = 0" "rt_scheduler_lock_nest zero_kernel = 0"
  "rt_current_thread zero_kernel = None" "tlists zero_kernel = (\<lambda>_. [])"
  "obj_lists zero_kernel = (\<lambda>_. [])" "objects zero_kernel = (\<lambda>_. zero_object)"
  "threads zero_kernel = (\<lambda>_. zero_thread)" "rt_thread_ready_priority_group zero_kernel = 0"
  "rows zero_kernel = (\<lambda>_. [])" "timers zero_kernel = (\<lambda>_. zero_timer)"
  by (simp_all add: zero_kernel_def)

lemma registry_inv_zero: "registry_inv zero_kernel"
  by (simp add: registry_inv_def wf_queues_def)

theorem rt_object_init_find_witness:
  "\<exists>k1 k2. rt_object_init (Obj_ipc (Sem 3)) RT_Object_Class_Semaphore ''dist_lock_sem'' zero_kernel =
       Some k1 \<and>
     rt_object_find (Some ''dist_lock_sem'') RT_Object_Class_Semaphore k1 =
       Some (Some (Obj_ipc (Sem 3)), k2)"
proof -
  let ?init = "rt_object_init (Obj_ipc (Sem 3)) RT_Object_Class_Semaphore ''dist_lock_sem'' zero_kernel"
  have info: "rt_object_get_information 2 = Some 2"
    by (simp add: get_information_iff object_container_def)
  obtain k1 where k1: "?init = Some k1"
    by (simp add: rt_object_init_def info Let_def rt_enter_critical_def rt_exit_critical_def)
  then have k1': "rt_interrupt_nest k1 = 0" "rt_current_thread k1 = None"
    by (auto simp: rt_object_init_def info Let_def rt_enter_critical_def rt_exit_critical_def)
  have "\<exists>found k2. rt_object_find (Some ''dist_lock_sem'') RT_Object_Class_Semaphore k1 =
      Some (found, k2)"
    using k1' by (auto simp: rt_object_find_def info Let_def rt_enter_critical_def
        rt_exit_critical_def RT_DEBUG_NOT_IN_INTERRUPT_def rt_interrupt_get_nest_def)
  then obtain found k2 where
    k2: "rt_object_find (Some ''dist_lock_sem'') RT_Object_Class_Semaphore k1 = Some (found, k2)"
    by blast
  have "\<not> linked (Obj_ipc (Sem 3)) (obj_lists zero_kernel)" by (simp add: linked_def)
  from rt_object_init_find [OF registry_inv_zero this k1 k2] k1 k2 show ?thesis by blast
qed

end
