(* ===== verification/Timer.thy ===== *)
theory Timer
  imports Kobject
begin

text \<open>
  The timer objects of \<^verbatim>\<open>src/timer.c\<close>: initialisation, removal, control, the wrap-around order of
  the timer lists. Ticks are 32-bit and wrap; two timeouts are compared through the sign of their
  difference. \<^verbatim>\<open>rt_timer_start\<close> resumes the timer thread and is in theory \<open>Thread\<close>; the expiry loops
  are in theory \<open>Tick\<close>.
\<close>

section \<open>Operations\<close>

definition rt_tick_get :: "kernel \<Rightarrow> 32 word" where
  "rt_tick_get k = rt_tick k"

abbreviation timer_flag :: "kernel \<Rightarrow> timer_id \<Rightarrow> 8 word" where
  "timer_flag k tm \<equiv> obj_flag (objects k (Obj_timer tm))"

definition set_timer_flag :: "timer_id \<Rightarrow> (8 word \<Rightarrow> 8 word) \<Rightarrow> kernel \<Rightarrow> kernel" where
  "set_timer_flag tm f = upd_object (Obj_timer tm) (\<lambda>ob. ob\<lparr>obj_flag := f (obj_flag ob)\<rparr>)"

text \<open>\<^verbatim>\<open>rt_list_init\<close> on the row of a fresh timer makes it unlinked.\<close>

definition timer_init ::
  "timer_id \<Rightarrow> timeout_fn \<Rightarrow> nat \<Rightarrow> 32 word \<Rightarrow> 8 word \<Rightarrow> kernel \<Rightarrow> kernel" where
  "timer_init tm timeout param time flag k =
     (let k1 = set_timer_flag tm (\<lambda>_. flag) k;
          k2 = set_timer_flag tm (\<lambda>fl. fl AND NOT RT_TIMER_FLAG_ACTIVATED) k1;
          k3 = upd_timer tm (\<lambda>r. r\<lparr>timeout_func := timeout, timer_parameter := param,
                 timeout_tick := 0, timer_init_tick := time\<rparr>) k2
      in upd_rows (unlink tm) k3)"

definition timer_list_next_timeout :: "timer_head \<Rightarrow> kernel \<Rightarrow> int \<times> 32 word option" where
  "timer_list_next_timeout h k =
     (case rows k h of
        tm # _ \<Rightarrow> (RT_EOK, Some (timeout_tick (timers k tm)))
      | [] \<Rightarrow> (- RT_ERROR, None))"

definition timer_remove :: "timer_id \<Rightarrow> kernel \<Rightarrow> kernel" where
  "timer_remove tm = upd_rows (unlink tm)"

definition rt_timer_init ::
  "timer_id \<Rightarrow> string \<Rightarrow> timeout_fn \<Rightarrow> nat \<Rightarrow> 32 word \<Rightarrow> 8 word \<Rightarrow> kernel \<Rightarrow> kernel option" where
  "rt_timer_init tm nm timeout param time flag k = do {
     rt_assert (time < RT_TICK_HALF);
     k1 \<leftarrow> rt_object_init (Obj_timer tm) RT_Object_Class_Timer nm k;
     Some (timer_init tm timeout param time flag k1) }"

definition rt_timer_detach :: "timer_id \<Rightarrow> kernel \<Rightarrow> (int \<times> kernel) option" where
  "rt_timer_detach tm k = do {
     rt_assert (rt_object_get_type (Obj_timer tm) k = RT_Object_Class_Timer);
     rt_assert (rt_object_is_systemobject (Obj_timer tm) k);
     let k1 = timer_remove tm k;
     let k2 = set_timer_flag tm (\<lambda>fl. fl AND NOT RT_TIMER_FLAG_ACTIVATED) k1;
     Some (RT_EOK, rt_object_detach (Obj_timer tm) k2) }"

text \<open>\<open>mem\<close> is the timer that the heap block returned by \<^verbatim>\<open>rt_object_allocate\<close> holds.\<close>

definition rt_timer_create ::
  "string \<Rightarrow> timeout_fn \<Rightarrow> nat \<Rightarrow> 32 word \<Rightarrow> 8 word \<Rightarrow> timer_id option \<Rightarrow> kernel \<Rightarrow>
   (timer_id option \<times> kernel) option" where
  "rt_timer_create nm timeout param time flag mem k = do {
     rt_assert (time < RT_TICK_HALF);
     (_, k1) \<leftarrow> rt_object_allocate RT_Object_Class_Timer nm (map_option Obj_timer mem) k;
     case mem of
       None \<Rightarrow> Some (None, k1)
     | Some tm \<Rightarrow> Some (Some tm, timer_init tm timeout param time flag k1) }"

definition rt_timer_delete :: "timer_id \<Rightarrow> kernel \<Rightarrow> (int \<times> kernel) option" where
  "rt_timer_delete tm k = do {
     rt_assert (rt_object_get_type (Obj_timer tm) k = RT_Object_Class_Timer);
     rt_assert (\<not> rt_object_is_systemobject (Obj_timer tm) k);
     let k1 = timer_remove tm k;
     let k2 = set_timer_flag tm (\<lambda>fl. fl AND NOT RT_TIMER_FLAG_ACTIVATED) k1;
     k3 \<leftarrow> rt_object_delete (Obj_timer tm) k2;
     Some (RT_EOK, k3) }"

definition rt_timer_stop :: "timer_id \<Rightarrow> kernel \<Rightarrow> (int \<times> kernel) option" where
  "rt_timer_stop tm k = do {
     rt_assert (rt_object_get_type (Obj_timer tm) k = RT_Object_Class_Timer);
     if timer_flag k tm AND RT_TIMER_FLAG_ACTIVATED = 0 then Some (- RT_ERROR, k)
     else Some (RT_EOK, set_timer_flag tm (\<lambda>fl. fl AND NOT RT_TIMER_FLAG_ACTIVATED)
                          (timer_remove tm k)) }"

text \<open>The commands of \<^verbatim>\<open>rt_timer_control\<close>; \<open>arg\<close> is the word the pointer argument refers to, and
  the result holds its value after the call.\<close>

datatype timer_cmd = RT_TIMER_CTRL_SET_TIME | RT_TIMER_CTRL_GET_TIME | RT_TIMER_CTRL_SET_ONESHOT
  | RT_TIMER_CTRL_SET_PERIODIC | RT_TIMER_CTRL_GET_STATE | RT_TIMER_CTRL_GET_REMAIN_TIME
  | RT_TIMER_CTRL_OTHER nat

definition rt_timer_control ::
  "timer_id \<Rightarrow> timer_cmd \<Rightarrow> 32 word \<Rightarrow> kernel \<Rightarrow> (int \<times> 32 word \<times> kernel) option" where
  "rt_timer_control tm cmd arg k = do {
     rt_assert (rt_object_get_type (Obj_timer tm) k = RT_Object_Class_Timer);
     case cmd of
       RT_TIMER_CTRL_GET_TIME \<Rightarrow> Some (RT_EOK, timer_init_tick (timers k tm), k)
     | RT_TIMER_CTRL_SET_TIME \<Rightarrow> do {
         rt_assert (arg < RT_TICK_HALF);
         Some (RT_EOK, arg, upd_timer tm (\<lambda>r. r\<lparr>timer_init_tick := arg\<rparr>) k) }
     | RT_TIMER_CTRL_SET_ONESHOT \<Rightarrow>
         Some (RT_EOK, arg, set_timer_flag tm (\<lambda>fl. fl AND NOT RT_TIMER_FLAG_PERIODIC) k)
     | RT_TIMER_CTRL_SET_PERIODIC \<Rightarrow>
         Some (RT_EOK, arg, set_timer_flag tm (\<lambda>fl. fl OR RT_TIMER_FLAG_PERIODIC) k)
     | RT_TIMER_CTRL_GET_STATE \<Rightarrow>
         Some (RT_EOK, (if timer_flag k tm AND RT_TIMER_FLAG_ACTIVATED \<noteq> 0 then 1 else 0), k)
     | RT_TIMER_CTRL_GET_REMAIN_TIME \<Rightarrow> Some (RT_EOK, timeout_tick (timers k tm), k)
     | RT_TIMER_CTRL_OTHER _ \<Rightarrow> Some (RT_EOK, arg, k) }"

definition rt_timer_next_timeout_tick :: "kernel \<Rightarrow> 32 word" where
  "rt_timer_next_timeout_tick k =
     (case snd (timer_list_next_timeout Hard_list k) of None \<Rightarrow> RT_TICK_MAX | Some n \<Rightarrow> n)"

definition rt_system_timer_init :: "kernel \<Rightarrow> kernel" where
  "rt_system_timer_init = upd_rows (\<lambda>L. L(Hard_list := []))"

text \<open>The row search of \<^verbatim>\<open>rt_timer_start\<close>: step over the timers that expire no later than the new
  one. \<open>timeout\<close> gives the expiry of the listed timers, \<open>new\<close> that of the timer to insert.\<close>

fun timer_row_insert ::
  "(timer_id \<Rightarrow> 32 word) \<Rightarrow> 32 word \<Rightarrow> timer_id \<Rightarrow> timer_id list \<Rightarrow> timer_id list" where
  "timer_row_insert timeout new tm [] = [tm]"
| "timer_row_insert timeout new tm (t # ts) =
     (if timeout t - new = 0 then t # timer_row_insert timeout new tm ts
      else if timeout t - new < RT_TICK_HALF then tm # t # ts
      else t # timer_row_insert timeout new tm ts)"

section \<open>Field access\<close>

lemma upd_timer_sel [simp]:
  "timers (upd_timer tm f k) = (timers k)(tm := f (timers k tm))"
  "objects (upd_timer tm f k) = objects k" "obj_lists (upd_timer tm f k) = obj_lists k"
  "threads (upd_timer tm f k) = threads k" "tlists (upd_timer tm f k) = tlists k"
  "rt_current_thread (upd_timer tm f k) = rt_current_thread k"
  "rt_thread_ready_priority_group (upd_timer tm f k) = rt_thread_ready_priority_group k"
  "rt_scheduler_lock_nest (upd_timer tm f k) = rt_scheduler_lock_nest k"
  "rt_interrupt_nest (upd_timer tm f k) = rt_interrupt_nest k"
  "rt_tick (upd_timer tm f k) = rt_tick k" "rows (upd_timer tm f k) = rows k"
  "sems (upd_timer tm f k) = sems k" "mutexes (upd_timer tm f k) = mutexes k"
  "events (upd_timer tm f k) = events k" "mailboxes (upd_timer tm f k) = mailboxes k"
  "msgqueues (upd_timer tm f k) = msgqueues k" "mempools (upd_timer tm f k) = mempools k"
  "soft_timer_busy (upd_timer tm f k) = soft_timer_busy k"
  by (simp_all add: upd_timer_def)

lemma upd_rows_sel [simp]:
  "rows (upd_rows g k) = g (rows k)" "timers (upd_rows g k) = timers k"
  "objects (upd_rows g k) = objects k" "obj_lists (upd_rows g k) = obj_lists k"
  "threads (upd_rows g k) = threads k" "tlists (upd_rows g k) = tlists k"
  "rt_current_thread (upd_rows g k) = rt_current_thread k"
  "rt_thread_ready_priority_group (upd_rows g k) = rt_thread_ready_priority_group k"
  "rt_scheduler_lock_nest (upd_rows g k) = rt_scheduler_lock_nest k"
  "rt_interrupt_nest (upd_rows g k) = rt_interrupt_nest k" "rt_tick (upd_rows g k) = rt_tick k"
  "sems (upd_rows g k) = sems k" "mutexes (upd_rows g k) = mutexes k"
  "events (upd_rows g k) = events k" "mailboxes (upd_rows g k) = mailboxes k"
  "msgqueues (upd_rows g k) = msgqueues k" "mempools (upd_rows g k) = mempools k"
  "soft_timer_busy (upd_rows g k) = soft_timer_busy k"
  by (simp_all add: upd_rows_def)

lemma set_timer_flag_sel [simp]:
  "objects (set_timer_flag tm h k) = (objects k)(Obj_timer tm := (objects k (Obj_timer tm))\<lparr>obj_flag :=
     h (timer_flag k tm)\<rparr>)"
  "rows (set_timer_flag tm h k) = rows k" "timers (set_timer_flag tm h k) = timers k"
  "obj_lists (set_timer_flag tm h k) = obj_lists k" "threads (set_timer_flag tm h k) = threads k"
  "tlists (set_timer_flag tm h k) = tlists k"
  "rt_current_thread (set_timer_flag tm h k) = rt_current_thread k"
  "rt_thread_ready_priority_group (set_timer_flag tm h k) = rt_thread_ready_priority_group k"
  "rt_scheduler_lock_nest (set_timer_flag tm h k) = rt_scheduler_lock_nest k"
  "rt_interrupt_nest (set_timer_flag tm h k) = rt_interrupt_nest k"
  "rt_tick (set_timer_flag tm h k) = rt_tick k" "sems (set_timer_flag tm h k) = sems k"
  "mutexes (set_timer_flag tm h k) = mutexes k" "events (set_timer_flag tm h k) = events k"
  "mailboxes (set_timer_flag tm h k) = mailboxes k"
  "msgqueues (set_timer_flag tm h k) = msgqueues k" "mempools (set_timer_flag tm h k) = mempools k"
  "soft_timer_busy (set_timer_flag tm h k) = soft_timer_busy k"
  by (simp_all add: set_timer_flag_def)

lemma timer_remove_sel [simp]:
  "rows (timer_remove tm k) = unlink tm (rows k)" "timers (timer_remove tm k) = timers k"
  "objects (timer_remove tm k) = objects k" "obj_lists (timer_remove tm k) = obj_lists k"
  "threads (timer_remove tm k) = threads k" "tlists (timer_remove tm k) = tlists k"
  "rt_current_thread (timer_remove tm k) = rt_current_thread k"
  "rt_thread_ready_priority_group (timer_remove tm k) = rt_thread_ready_priority_group k"
  "rt_scheduler_lock_nest (timer_remove tm k) = rt_scheduler_lock_nest k"
  "rt_interrupt_nest (timer_remove tm k) = rt_interrupt_nest k"
  "rt_tick (timer_remove tm k) = rt_tick k" "sems (timer_remove tm k) = sems k"
  "mutexes (timer_remove tm k) = mutexes k" "events (timer_remove tm k) = events k"
  "mailboxes (timer_remove tm k) = mailboxes k" "msgqueues (timer_remove tm k) = msgqueues k"
  "mempools (timer_remove tm k) = mempools k"
  "soft_timer_busy (timer_remove tm k) = soft_timer_busy k"
  by (simp_all add: timer_remove_def)

lemma sched_inv_timer [simp]:
  "sched_inv_except X (upd_timer tm f k) = sched_inv_except X k"
  "sched_inv_except X (upd_rows g k) = sched_inv_except X k"
  "sched_inv_except X (set_timer_flag tm h k) = sched_inv_except X k"
  "sched_inv_except X (timer_remove tm k) = sched_inv_except X k"
  by (rule sched_inv_except_cong; simp add: set_timer_flag_def timer_remove_def)+

section \<open>The wrap-around order\<close>

text \<open>Two timeouts in a window of less than half the tick range are compared correctly by their
  difference, wherever the window lies.\<close>

lemma tick_le_iff:
  fixes a b c :: "32 word"
  assumes "a - c < RT_TICK_HALF" "b - c < RT_TICK_HALF"
  shows "a - b = 0 \<or> \<not> a - b < RT_TICK_HALF \<longleftrightarrow> a - c \<le> b - c"
proof -
  define x y where "x = a - c" and "y = b - c"
  have diff: "a - b = x - y" by (simp add: x_def y_def)
  have b: "unat x < 0x7FFFFFFF" "unat y < 0x7FFFFFFF"
    using assms by (simp_all add: x_def y_def word_less_nat_alt)
  show ?thesis
  proof (cases "y \<le> x")
    case True
    then have "unat (x - y) = unat x - unat y" by (rule unat_sub)
    then have "x - y < RT_TICK_HALF" using b by (simp add: word_less_nat_alt)
    then show ?thesis using True by (auto simp: diff simp flip: x_def y_def)
  next
    case False
    then have lt: "unat x < unat y" by (simp add: word_le_nat_alt)
    then have "unat (x - y) = unat x + 2 ^ 32 - unat y"
      using unat_sub_if_size [of x y] False by (simp add: word_size word_le_nat_alt)
    then have "\<not> x - y < RT_TICK_HALF" using b lt by (simp add: word_less_nat_alt)
    then show ?thesis using False by (simp add: diff flip: x_def y_def)
  qed
qed

text \<open>A list of timers in order of expiry, all in one window that starts at \<open>c\<close>.\<close>

definition timers_sorted :: "(timer_id \<Rightarrow> 32 word) \<Rightarrow> 32 word \<Rightarrow> timer_id list \<Rightarrow> bool" where
  "timers_sorted timeout c ts \<longleftrightarrow> (\<forall>t \<in> set ts. timeout t - c < RT_TICK_HALF) \<and>
     sorted (map (\<lambda>t. timeout t - c) ts)"

lemma set_timer_row_insert: "set (timer_row_insert timeout new tm ts) = insert tm (set ts)"
  by (induction ts) auto

lemma timers_sorted_Cons:
  "timers_sorted timeout c (t # ts) \<longleftrightarrow> timeout t - c < RT_TICK_HALF \<and>
     (\<forall>u \<in> set ts. timeout t - c \<le> timeout u - c) \<and> timers_sorted timeout c ts"
  by (auto simp: timers_sorted_def)

lemma timers_sorted_row_insert:
  assumes "timers_sorted timeout c ts" "timeout tm - c < RT_TICK_HALF"
  shows "timers_sorted timeout c (timer_row_insert timeout (timeout tm) tm ts)"
  using assms
proof (induction ts)
  case Nil
  then show ?case by (simp add: timers_sorted_def)
next
  case (Cons t ts)
  then have t: "timeout t - c < RT_TICK_HALF" and sorted: "timers_sorted timeout c ts"
    and le: "\<forall>u \<in> set ts. timeout t - c \<le> timeout u - c"
    by (simp_all add: timers_sorted_Cons)
  note iff = tick_le_iff [OF t Cons.prems(2)]
  show ?case
  proof (cases "timeout t - c \<le> timeout tm - c")
    case True
    then have "timer_row_insert timeout (timeout tm) tm (t # ts) =
        t # timer_row_insert timeout (timeout tm) tm ts"
      using iff by auto
    with True t sorted le Cons.IH Cons.prems(2) show ?thesis
      by (auto simp: timers_sorted_Cons set_timer_row_insert)
  next
    case False
    then have "timer_row_insert timeout (timeout tm) tm (t # ts) = tm # t # ts"
      using iff by auto
    with False t sorted le Cons.prems(2) show ?thesis
      by (fastforce simp: timers_sorted_Cons)
  qed
qed

text \<open>Equal timeouts expire in the order in which the timers were started.\<close>

lemma timer_row_insert_split:
  assumes "timers_sorted timeout c ts" "timeout tm - c < RT_TICK_HALF"
  shows "timer_row_insert timeout (timeout tm) tm ts =
    takeWhile (\<lambda>t. timeout t - c \<le> timeout tm - c) ts @
    tm # dropWhile (\<lambda>t. timeout t - c \<le> timeout tm - c) ts"
  using assms
proof (induction ts)
  case (Cons t ts)
  then have t: "timeout t - c < RT_TICK_HALF" and sorted: "timers_sorted timeout c ts"
    by (simp_all add: timers_sorted_Cons)
  note iff = tick_le_iff [OF t Cons.prems(2)]
  show ?case using Cons.IH [OF sorted Cons.prems(2)] iff
    by (cases "timeout t - c \<le> timeout tm - c") auto
qed simp

lemma timer_row_insert_position:
  assumes "timers_sorted timeout c ts" "timeout tm - c < RT_TICK_HALF"
  shows "\<exists>xs ys. ts = xs @ ys \<and> timer_row_insert timeout (timeout tm) tm ts = xs @ tm # ys \<and>
    (\<forall>t \<in> set xs. timeout t - c \<le> timeout tm - c) \<and> (\<forall>t \<in> set ys. timeout t - c > timeout tm - c)"
proof (intro exI conjI)
  let ?P = "\<lambda>t. timeout t - c \<le> timeout tm - c"
  show "ts = takeWhile ?P ts @ dropWhile ?P ts" by simp
  show "timer_row_insert timeout (timeout tm) tm ts = takeWhile ?P ts @ tm # dropWhile ?P ts"
    by (rule timer_row_insert_split [OF assms])
  show "\<forall>t \<in> set (takeWhile ?P ts). ?P t" by (auto dest: set_takeWhileD)
  have "sorted (map (\<lambda>t. timeout t - c) ts)" using assms(1) by (simp add: timers_sorted_def)
  then show "\<forall>t \<in> set (dropWhile ?P ts). timeout t - c > timeout tm - c"
    by (induction ts) auto
qed

lemma timers_sorted_cong:
  assumes "timers_sorted f c ts" "\<And>t. t \<in> set ts \<Longrightarrow> g t = f t"
  shows "timers_sorted g c ts"
proof -
  have "map (\<lambda>t. g t - c) ts = map (\<lambda>t. f t - c) ts" using assms(2) by (intro map_cong) auto
  then show ?thesis using assms unfolding timers_sorted_def by metis
qed

section \<open>What the timer operations leave alone\<close>

text \<open>Stopping, arming or detaching a timer changes only the timer rows, the timer and the flag and
  type bytes of its object.\<close>

definition same_but_timers :: "kernel \<Rightarrow> kernel \<Rightarrow> bool" where
  "same_but_timers k k' \<longleftrightarrow>
     k' = k\<lparr>rows := rows k', timers := timers k', objects := objects k', obj_lists := obj_lists k'\<rparr>"

lemma same_but_timers_sel:
  assumes "same_but_timers k k'"
  shows "threads k' = threads k" "tlists k' = tlists k"
    "rt_current_thread k' = rt_current_thread k"
    "rt_thread_ready_priority_group k' = rt_thread_ready_priority_group k"
    "rt_scheduler_lock_nest k' = rt_scheduler_lock_nest k"
    "rt_interrupt_nest k' = rt_interrupt_nest k" "rt_tick k' = rt_tick k"
    "sems k' = sems k" "mutexes k' = mutexes k" "events k' = events k"
    "mailboxes k' = mailboxes k" "msgqueues k' = msgqueues k" "mempools k' = mempools k"
    "soft_timer_busy k' = soft_timer_busy k"
  by (subst assms [unfolded same_but_timers_def], simp)+

lemma same_but_timers_intros [simp]:
  "same_but_timers k k" "same_but_timers k (set_timer_flag tm h k)"
  "same_but_timers k (timer_remove tm k)" "same_but_timers k (upd_timer tm f k)"
  "same_but_timers k (upd_rows g k)" "same_but_timers k (rt_object_detach r k)"
  by (simp_all add: same_but_timers_def set_timer_flag_def timer_remove_def rt_object_detach_def
      upd_defs)

lemma same_but_timers_trans:
  "same_but_timers k k1 \<Longrightarrow> same_but_timers k1 k2 \<Longrightarrow> same_but_timers k k2"
  unfolding same_but_timers_def by (cases k; cases k1; cases k2) (simp only: kernel.simps)

lemma sched_inv_same_timers:
  "same_but_timers k k' \<Longrightarrow> sched_inv_except X k' = sched_inv_except X k"
  by (rule sched_inv_except_cong) (erule same_but_timers_sel)+

lemma rt_timer_stop_same: "rt_timer_stop tm k = Some (e, k') \<Longrightarrow> same_but_timers k k'"
  by (auto simp: rt_timer_stop_def split: if_splits
      intro: same_but_timers_trans [OF same_but_timers_intros(3) same_but_timers_intros(2)])

lemma rt_timer_detach_same:
  assumes "rt_timer_detach tm k = Some (e, k')" shows "same_but_timers k k'"
proof -
  have "k' = rt_object_detach (Obj_timer tm)
      (set_timer_flag tm (\<lambda>fl. fl AND NOT RT_TIMER_FLAG_ACTIVATED) (timer_remove tm k))"
    using assms by (simp add: rt_timer_detach_def Let_def)
  then show ?thesis
    using same_but_timers_trans same_but_timers_intros(2,3,6) by metis
qed

lemma rt_timer_control_same: "rt_timer_control tm cmd a k = Some (e, a', k') \<Longrightarrow> same_but_timers k k'"
  by (auto simp: rt_timer_control_def split: timer_cmd.splits)

lemma rt_timer_stop_types:
  "rt_timer_stop tm k = Some (e, k') \<Longrightarrow> rt_object_get_type r k' = rt_object_get_type r k"
  by (auto simp: rt_timer_stop_def rt_object_get_type_def split: if_splits)

text \<open>What neither the scheduler nor the timer operations touch: the IPC objects, the clock, the
  nesting counters, and all of a thread except its state byte.\<close>

definition kframe :: "kernel \<Rightarrow> kernel \<Rightarrow> bool" where
  "kframe k k' \<longleftrightarrow>
     (\<forall>t. threads k' t = (threads k t)\<lparr>stat := stat (threads k' t)\<rparr>) \<and>
     k' = k\<lparr>rt_current_thread := rt_current_thread k', rt_current_priority := rt_current_priority k',
       rt_thread_ready_priority_group := rt_thread_ready_priority_group k',
       tlists := tlists k', threads := threads k', rows := rows k', timers := timers k',
       objects := objects k', obj_lists := obj_lists k'\<rparr>"

lemma kframe_sel:
  assumes "kframe k k'"
  shows "sems k' = sems k" "mutexes k' = mutexes k" "events k' = events k"
    "mailboxes k' = mailboxes k" "msgqueues k' = msgqueues k" "mempools k' = mempools k"
    "rt_tick k' = rt_tick k" "rt_scheduler_lock_nest k' = rt_scheduler_lock_nest k"
    "rt_interrupt_nest k' = rt_interrupt_nest k" "soft_timer_busy k' = soft_timer_busy k"
  by (subst conjunct2 [OF assms [unfolded kframe_def]], simp)+

lemma kframe_thread:
  assumes "kframe k k'"
  shows "thread_error (threads k' t) = thread_error (threads k t)"
    "tprio k' t = tprio k t" "event_set (threads k' t) = event_set (threads k t)"
    "event_info (threads k' t) = event_info (threads k t)"
    "number_mask (threads k' t) = number_mask (threads k t)"
    "stack_ok (threads k' t) = stack_ok (threads k t)"
  by (subst conjunct1 [OF assms [unfolded kframe_def], rule_format], simp add: stack_ok_def)+

lemma kframe_trans: "kframe k k1 \<Longrightarrow> kframe k1 k2 \<Longrightarrow> kframe k k2"
  unfolding kframe_def
proof (elim conjE, intro conjI allI)
  fix t
  assume "\<forall>t. threads k2 t = (threads k1 t)\<lparr>stat := stat (threads k2 t)\<rparr>"
    "\<forall>t. threads k1 t = (threads k t)\<lparr>stat := stat (threads k1 t)\<rparr>"
  then have "threads k2 t = (threads k1 t)\<lparr>stat := stat (threads k2 t)\<rparr>"
    "threads k1 t = (threads k t)\<lparr>stat := stat (threads k1 t)\<rparr>" by blast+
  then show "threads k2 t = (threads k t)\<lparr>stat := stat (threads k2 t)\<rparr>"
    by (metis rt_thread.update_convs(8) rt_thread.surjective)
qed (cases k; cases k1; cases k2; simp only: kernel.simps)

lemma kframe_refl [simp]: "kframe k k" by (simp add: kframe_def)

lemma kframe_sched: "same_but_sched k k' \<Longrightarrow> kframe k k'"
  unfolding same_but_sched_def kframe_def
  by (elim conjE, intro conjI, assumption) (cases k; cases k'; simp only: kernel.simps)

lemma kframe_timers: "same_but_timers k k' \<Longrightarrow> kframe k k'"
  unfolding same_but_timers_def kframe_def by (cases k; cases k') simp

lemma kframe_tlists [simp]: "kframe k (upd_tlists g k)"
  by (simp add: kframe_def upd_tlists_def)

text \<open>After a stop the timer is in no row, if an idle timer was in none before.\<close>

definition timer_idle_unlinked :: "kernel \<Rightarrow> timer_id \<Rightarrow> bool" where
  "timer_idle_unlinked k tm \<longleftrightarrow>
     (timer_flag k tm AND RT_TIMER_FLAG_ACTIVATED = 0 \<longrightarrow> \<not> linked tm (rows k))"

lemma rt_timer_stop_unlinks:
  assumes "rt_timer_stop tm k = Some (e, k')" "timer_idle_unlinked k tm"
  shows "\<not> linked tm (rows k')" "timer_flag k' tm AND RT_TIMER_FLAG_ACTIVATED = 0"
  using assms by (auto simp: rt_timer_stop_def timer_idle_unlinked_def and.assoc split: if_splits)

end
