(* ===== verification/Thread.thy ===== *)
theory Thread
  imports Timer
begin

text \<open>
  Threads (\<^verbatim>\<open>src/thread.c\<close>), the start of a timer (\<^verbatim>\<open>src/timer.c\<close>) and the idle thread's
  clean-up (\<^verbatim>\<open>src/idle.c\<close>). A blocking call is modelled in two parts: the part up to the call of
  the scheduler that gives the processor away, and the part that runs when the thread is scheduled
  again.
\<close>

section \<open>Suspending and resuming\<close>

definition rt_thread_self :: "kernel \<Rightarrow> tid option" where
  "rt_thread_self k = rt_current_thread k"

definition rt_thread_resume :: "tid \<Rightarrow> kernel \<Rightarrow> (int \<times> kernel) option" where
  "rt_thread_resume t k = do {
     rt_assert (rt_object_get_type (Obj_thread t) k = RT_Object_Class_Thread);
     if tstat k t \<noteq> RT_THREAD_SUSPEND then Some (- RT_ERROR, k)
     else do {
       let k1 = upd_tlists (unlink t) k;
       (_, k2) \<leftarrow> rt_timer_stop (Thread_timer t) k1;
       Some (RT_EOK, rt_schedule_insert_thread t k2) } }"

definition rt_thread_suspend :: "tid \<Rightarrow> kernel \<Rightarrow> (int \<times> kernel) option" where
  "rt_thread_suspend t k = do {
     rt_assert (rt_object_get_type (Obj_thread t) k = RT_Object_Class_Thread);
     rt_assert (Some t = rt_thread_self k);
     if tstat k t \<noteq> RT_THREAD_READY \<and> tstat k t \<noteq> RT_THREAD_RUNNING then Some (- RT_ERROR, k)
     else do {
       let k1 = rt_schedule_remove_thread t k;
       let k2 = upd_thread t (\<lambda>r. r\<lparr>stat := set_stat RT_THREAD_SUSPEND (stat r)\<rparr>) k1;
       (_, k3) \<leftarrow> rt_timer_stop (Thread_timer t) k2;
       Some (RT_EOK, k3) } }"

section \<open>Starting a timer\<close>

definition timer_start_list :: "timer_id \<Rightarrow> kernel \<Rightarrow> timer_head" where
  "timer_start_list tm k =
     (if timer_flag k tm AND RT_TIMER_FLAG_SOFT_TIMER \<noteq> 0 then Soft_list else Hard_list)"

definition rt_timer_start :: "timer_id \<Rightarrow> kernel \<Rightarrow> (int \<times> kernel) option" where
  "rt_timer_start tm k = do {
     rt_assert (rt_object_get_type (Obj_timer tm) k = RT_Object_Class_Timer);
     let k1 = timer_remove tm k;
     let k2 = set_timer_flag tm (\<lambda>fl. fl AND NOT RT_TIMER_FLAG_ACTIVATED) k1;
     let k3 = upd_timer tm (\<lambda>r. r\<lparr>timeout_tick := rt_tick_get k2 + timer_init_tick r\<rparr>) k2;
     let h = timer_start_list tm k3;
     let k4 = upd_rows (\<lambda>L. L(h := timer_row_insert (\<lambda>t. timeout_tick (timers k3 t))
                (timeout_tick (timers k3 tm)) tm (L h))) k3;
     let k5 = set_timer_flag tm (\<lambda>fl. fl OR RT_TIMER_FLAG_ACTIVATED) k4;
     if timer_flag k5 tm AND RT_TIMER_FLAG_SOFT_TIMER \<noteq> 0 \<and>
        \<not> soft_timer_busy k5 \<and> tstat k5 timer_thread = RT_THREAD_SUSPEND
     then do {
       (_, k6) \<leftarrow> rt_thread_resume timer_thread k5;
       k7 \<leftarrow> rt_schedule k6;
       Some (RT_EOK, k7) }
     else Some (RT_EOK, k5) }"

section \<open>Life cycle\<close>

definition rt_thread_defunct_enqueue :: "tid \<Rightarrow> kernel \<Rightarrow> kernel" where
  "rt_thread_defunct_enqueue t = upd_tlists (push_front Defunct t)"

definition rt_thread_defunct_dequeue :: "kernel \<Rightarrow> tid option \<times> kernel" where
  "rt_thread_defunct_dequeue k =
     (case tlists k Defunct of
        [] \<Rightarrow> (None, k)
      | t # _ \<Rightarrow> (Some t, upd_tlists (unlink t) k))"

definition thread_exit :: "kernel \<Rightarrow> kernel option" where
  "thread_exit k = do {
     t \<leftarrow> rt_thread_self k;
     let k1 = rt_schedule_remove_thread t k;
     (_, k2) \<leftarrow> rt_timer_detach (Thread_timer t) k1;
     let k3 = upd_thread t (\<lambda>r. r\<lparr>stat := RT_THREAD_CLOSE\<rparr>) k2;
     let k4 = rt_thread_defunct_enqueue t k3;
     rt_schedule k4 }"

definition thread_timeout :: "tid \<Rightarrow> kernel \<Rightarrow> kernel option" where
  "thread_timeout t k = do {
     rt_assert (tstat k t = RT_THREAD_SUSPEND);
     rt_assert (rt_object_get_type (Obj_thread t) k = RT_Object_Class_Thread);
     let k1 = upd_thread t (\<lambda>r. r\<lparr>thread_error := - RT_ETIMEOUT\<rparr>) k;
     let k2 = upd_tlists (unlink t) k1;
     let k3 = rt_schedule_insert_thread t k2;
     rt_schedule k3 }"

text \<open>\<^verbatim>\<open>rt_hw_stack_init\<close> of \<^verbatim>\<open>libcpu/arm/cortex-m4/cpuport.c\<close> with the FPU enabled: a frame of 17
  words below the aligned end of the stack.\<close>

definition rt_hw_stack_init :: "32 word \<Rightarrow> 32 word" where
  "rt_hw_stack_init addr = RT_ALIGN_DOWN (addr + 4) 8 - 68"

definition thread_init ::
  "tid \<Rightarrow> nat \<Rightarrow> nat \<Rightarrow> 32 word \<Rightarrow> 32 word \<Rightarrow> 8 word \<Rightarrow> 32 word \<Rightarrow> kernel \<Rightarrow> (int \<times> kernel) option"
where
  "thread_init t entry param stack_start sz priority tick k = do {
     let k1 = upd_tlists (unlink t) k;
     let k2 = upd_thread t (\<lambda>r. r\<lparr>thread_entry := entry, thread_parameter := param,
                stack_addr := stack_start, stack_size := sz,
                stack_mark := (if sz = 0 then stack_mark r else 0x23),
                sp := rt_hw_stack_init (stack_start + sz - 4)\<rparr>) k1;
     rt_assert (unat priority < RT_THREAD_PRIORITY_MAX);
     let k3 = upd_thread t (\<lambda>r. r\<lparr>current_priority := priority, number_mask := 0,
                event_set := 0, event_info := 0, init_tick := tick, remaining_tick := tick,
                thread_error := RT_EOK, stat := RT_THREAD_INIT, cleanup := None,
                user_data := 0\<rparr>) k2;
     k4 \<leftarrow> rt_timer_init (Thread_timer t) (obj_name (objects k3 (Obj_thread t)))
            Thread_timeout t 0 0 k3;
     Some (RT_EOK, k4) }"

definition rt_thread_init ::
  "tid \<Rightarrow> string \<Rightarrow> nat \<Rightarrow> nat \<Rightarrow> 32 word \<Rightarrow> 32 word \<Rightarrow> 8 word \<Rightarrow> 32 word \<Rightarrow> kernel \<Rightarrow>
   (int \<times> kernel) option" where
  "rt_thread_init t nm entry param stack_start sz priority tick k = do {
     rt_assert (stack_start \<noteq> 0);
     k1 \<leftarrow> rt_object_init (Obj_thread t) RT_Object_Class_Thread nm k;
     thread_init t entry param stack_start sz priority tick k1 }"

text \<open>\<open>mem\<close> and \<open>stk\<close> are the results of the two heap allocations.\<close>

definition rt_thread_create ::
  "string \<Rightarrow> nat \<Rightarrow> nat \<Rightarrow> 32 word \<Rightarrow> 8 word \<Rightarrow> 32 word \<Rightarrow> tid option \<Rightarrow> 32 word option \<Rightarrow> kernel \<Rightarrow>
   (tid option \<times> kernel) option" where
  "rt_thread_create nm entry param sz priority tick mem stk k = do {
     (_, k1) \<leftarrow> rt_object_allocate RT_Object_Class_Thread nm (map_option Obj_thread mem) k;
     case mem of
       None \<Rightarrow> Some (None, k1)
     | Some t \<Rightarrow>
         (case stk of
            None \<Rightarrow> do {
              k2 \<leftarrow> rt_object_delete (Obj_thread t) k1;
              Some (None, k2) }
          | Some stack_start \<Rightarrow> do {
              (_, k2) \<leftarrow> thread_init t entry param stack_start sz priority tick k1;
              Some (Some t, k2) }) }"

definition rt_thread_startup :: "tid \<Rightarrow> kernel \<Rightarrow> (int \<times> kernel) option" where
  "rt_thread_startup t k = do {
     rt_assert (tstat k t = RT_THREAD_INIT);
     rt_assert (rt_object_get_type (Obj_thread t) k = RT_Object_Class_Thread);
     let k1 = upd_thread t (\<lambda>r. r\<lparr>number_mask := push_bit (unat (current_priority r)) 1\<rparr>) k;
     let k2 = upd_thread t (\<lambda>r. r\<lparr>stat := RT_THREAD_SUSPEND\<rparr>) k1;
     (_, k3) \<leftarrow> rt_thread_resume t k2;
     k4 \<leftarrow> (if rt_thread_self k3 \<noteq> None then rt_schedule k3 else Some k3);
     Some (RT_EOK, k4) }"

text \<open>The common body of \<^verbatim>\<open>rt_thread_detach\<close> and \<^verbatim>\<open>rt_thread_delete\<close>.\<close>

definition thread_close :: "tid \<Rightarrow> kernel \<Rightarrow> (int \<times> kernel) option" where
  "thread_close t k =
     (if tstat k t = RT_THREAD_CLOSE then Some (RT_EOK, k)
      else do {
        let k1 = (if tstat k t \<noteq> RT_THREAD_INIT then rt_schedule_remove_thread t k else k);
        (_, k2) \<leftarrow> rt_timer_detach (Thread_timer t) k1;
        let k3 = upd_thread t (\<lambda>r. r\<lparr>stat := RT_THREAD_CLOSE\<rparr>) k2;
        Some (RT_EOK, rt_thread_defunct_enqueue t k3) })"

definition rt_thread_detach :: "tid \<Rightarrow> kernel \<Rightarrow> (int \<times> kernel) option" where
  "rt_thread_detach t k = do {
     rt_assert (rt_object_get_type (Obj_thread t) k = RT_Object_Class_Thread);
     rt_assert (rt_object_is_systemobject (Obj_thread t) k);
     thread_close t k }"

definition rt_thread_delete :: "tid \<Rightarrow> kernel \<Rightarrow> (int \<times> kernel) option" where
  "rt_thread_delete t k = do {
     rt_assert (rt_object_get_type (Obj_thread t) k = RT_Object_Class_Thread);
     rt_assert (\<not> rt_object_is_systemobject (Obj_thread t) k);
     thread_close t k }"

text \<open>The clean-up loop of the idle thread; \<open>cl\<close> runs a thread's clean-up function. A clean-up
  function may close further threads, so the loop need not end.\<close>

partial_function (option) rt_defunct_execute ::
  "(nat \<Rightarrow> tid \<Rightarrow> kernel \<Rightarrow> kernel option) \<Rightarrow> kernel \<Rightarrow> kernel option" where
  "rt_defunct_execute cl k =
     (case rt_thread_defunct_dequeue k of
        (None, k1) \<Rightarrow> Some k1
      | (Some t, k1) \<Rightarrow> do {
          let sys = rt_object_is_systemobject (Obj_thread t) k1;
          let k2 = (if sys then rt_object_detach (Obj_thread t) k1 else k1);
          k3 \<leftarrow> (case cleanup (threads k1 t) of None \<Rightarrow> Some k2 | Some f \<Rightarrow> cl f t k2);
          k4 \<leftarrow> (if sys then Some k3 else rt_object_delete (Obj_thread t) k3);
          rt_defunct_execute cl k4 })"

section \<open>Yield and sleep\<close>

definition rt_thread_yield :: "kernel \<Rightarrow> (int \<times> kernel) option" where
  "rt_thread_yield k = do {
     t \<leftarrow> rt_thread_self k;
     let k1 = upd_thread t (\<lambda>r. r\<lparr>remaining_tick := init_tick r,
                                  stat := stat r OR RT_THREAD_STAT_YIELD\<rparr>) k;
     k2 \<leftarrow> rt_schedule k1;
     Some (RT_EOK, k2) }"

text \<open>Suspend the calling thread, arm its timer and give the processor away.\<close>

definition thread_sleep_for :: "tid \<Rightarrow> 32 word \<Rightarrow> kernel \<Rightarrow> kernel option" where
  "thread_sleep_for t tick k = do {
     (_, k1) \<leftarrow> rt_thread_suspend t k;
     (_, _, k2) \<leftarrow> rt_timer_control (Thread_timer t) RT_TIMER_CTRL_SET_TIME tick k1;
     (_, k3) \<leftarrow> rt_timer_start (Thread_timer t) k2;
     rt_schedule k3 }"

definition rt_thread_sleep :: "32 word \<Rightarrow> kernel \<Rightarrow> kernel option" where
  "rt_thread_sleep tick k = do {
     t \<leftarrow> rt_thread_self k;
     rt_assert (rt_object_get_type (Obj_thread t) k = RT_Object_Class_Thread);
     let k1 = upd_thread t (\<lambda>r. r\<lparr>thread_error := RT_EOK\<rparr>) k;
     thread_sleep_for t tick k1 }"

text \<open>The rest of \<^verbatim>\<open>rt_thread_sleep\<close>, when the thread runs again.\<close>

definition rt_thread_sleep_resume :: "tid \<Rightarrow> kernel \<Rightarrow> int \<times> kernel" where
  "rt_thread_sleep_resume t k =
     (let k1 = (if thread_error (threads k t) = - RT_ETIMEOUT
                then upd_thread t (\<lambda>r. r\<lparr>thread_error := RT_EOK\<rparr>) k else k)
      in (thread_error (threads k1 t), k1))"

definition rt_thread_delay :: "32 word \<Rightarrow> kernel \<Rightarrow> kernel option" where
  "rt_thread_delay tick k = rt_thread_sleep tick k"

datatype 'a outcome = Return 'a | Block

text \<open>\<open>tick\<close> is the word that the pointer argument refers to; the result holds its new value. A
  thread that blocks goes on with \<^const>\<open>rt_thread_sleep_resume\<close>.\<close>

definition rt_thread_delay_until ::
  "32 word \<Rightarrow> 32 word \<Rightarrow> kernel \<Rightarrow> (int outcome \<times> 32 word \<times> kernel) option" where
  "rt_thread_delay_until tick inc_tick k = do {
     t \<leftarrow> rt_thread_self k;
     rt_assert (rt_object_get_type (Obj_thread t) k = RT_Object_Class_Thread);
     let k1 = upd_thread t (\<lambda>r. r\<lparr>thread_error := RT_EOK\<rparr>) k;
     let cur_tick = rt_tick_get k1;
     if cur_tick - tick < inc_tick then do {
       let tick' = tick + inc_tick;
       k2 \<leftarrow> thread_sleep_for t (tick' - cur_tick) k1;
       Some (Block, tick', k2) }
     else Some (Return (thread_error (threads k1 t)), cur_tick, k1) }"

definition rt_tick_from_millisecond :: "32 word \<Rightarrow> 32 word" where
  "rt_tick_from_millisecond ms =
     (if sint ms < 0 then 0xFFFFFFFF
      else let q = of_int (sint ms div 1000); r = of_int (sint ms mod 1000) in
        RT_TICK_PER_SECOND * q + (RT_TICK_PER_SECOND * r + 999) div 1000)"

definition rt_thread_mdelay :: "32 word \<Rightarrow> kernel \<Rightarrow> kernel option" where
  "rt_thread_mdelay ms k = rt_thread_sleep (rt_tick_from_millisecond ms) k"

section \<open>Control and lookup\<close>

datatype thread_cmd = RT_THREAD_CTRL_STARTUP | RT_THREAD_CTRL_CLOSE
  | RT_THREAD_CTRL_CHANGE_PRIORITY "8 word" | RT_THREAD_CTRL_OTHER nat

definition set_priority :: "tid \<Rightarrow> 8 word \<Rightarrow> kernel \<Rightarrow> kernel" where
  "set_priority t p = upd_thread t (\<lambda>r. r\<lparr>current_priority := p,
     number_mask := push_bit (unat p) 1\<rparr>)"

definition rt_thread_control :: "tid \<Rightarrow> thread_cmd \<Rightarrow> kernel \<Rightarrow> (int \<times> kernel) option" where
  "rt_thread_control t cmd k = do {
     rt_assert (rt_object_get_type (Obj_thread t) k = RT_Object_Class_Thread);
     case cmd of
       RT_THREAD_CTRL_CHANGE_PRIORITY p \<Rightarrow>
         Some (RT_EOK,
           if tstat k t = RT_THREAD_READY then
             rt_schedule_insert_thread t (set_priority t p (rt_schedule_remove_thread t k))
           else set_priority t p k)
     | RT_THREAD_CTRL_STARTUP \<Rightarrow> rt_thread_startup t k
     | RT_THREAD_CTRL_CLOSE \<Rightarrow> do {
         (err, k1) \<leftarrow> (if rt_object_is_systemobject (Obj_thread t) k then rt_thread_detach t k
                       else rt_thread_delete t k);
         k2 \<leftarrow> rt_schedule k1;
         Some (err, k2) }
     | RT_THREAD_CTRL_OTHER _ \<Rightarrow> Some (RT_EOK, k) }"

definition rt_thread_find :: "string option \<Rightarrow> kernel \<Rightarrow> (obj_ref option \<times> kernel) option" where
  "rt_thread_find nm k = rt_object_find nm RT_Object_Class_Thread k"

section \<open>Idle hooks\<close>

fun idle_hook_replace :: "nat option \<Rightarrow> nat option \<Rightarrow> nat option list \<Rightarrow> nat option list option" where
  "idle_hook_replace old new [] = None"
| "idle_hook_replace old new (h # hs) =
     (if h = old then Some (new # hs) else map_option ((#) h) (idle_hook_replace old new hs))"

definition rt_thread_idle_sethook :: "nat option \<Rightarrow> kernel \<Rightarrow> int \<times> kernel" where
  "rt_thread_idle_sethook hook k =
     (case idle_hook_replace None hook (idle_hook_list k) of
        None \<Rightarrow> (- RT_EFULL, k)
      | Some hs \<Rightarrow> (RT_EOK, k\<lparr>idle_hook_list := hs\<rparr>))"

definition rt_thread_idle_delhook :: "nat option \<Rightarrow> kernel \<Rightarrow> int \<times> kernel" where
  "rt_thread_idle_delhook hook k =
     (case idle_hook_replace hook None (idle_hook_list k) of
        None \<Rightarrow> (- RT_ENOSYS, k)
      | Some hs \<Rightarrow> (RT_EOK, k\<lparr>idle_hook_list := hs\<rparr>))"

section \<open>Preservation of the scheduler invariant\<close>

lemma sched_invD: "sched_inv k \<Longrightarrow> sched_inv_except {} k" by (simp add: sched_inv_def)

lemma sched_inv_weaken: "sched_inv k \<Longrightarrow> sched_inv_except X k"
  by (auto simp: sched_inv_def intro: sched_inv_except_mono)

lemma suspended_ok:
  "sched_inv k \<Longrightarrow> tstat k t = RT_THREAD_SUSPEND \<Longrightarrow> thread_ok (threads k t)"
  by (auto simp: sched_inv_def dest: sched_inv_thread_ok)

text \<open>Waking a suspended thread: unlink it from its wait list and hand it to the scheduler.\<close>

lemma sched_inv_wake:
  assumes inv: "sched_inv k" and st: "tstat k t = RT_THREAD_SUSPEND"
    and same: "same_but_timers (upd_tlists (unlink t) k) k1"
  shows "sched_inv (rt_schedule_insert_thread t k1)"
proof -
  have "sched_inv_except {t} (upd_tlists (unlink t) k)"
    by (rule sched_inv_unlink_suspended [OF sched_inv_weaken [OF inv]]) (simp add: st)
  then have "sched_inv_except (insert t {}) k1" using sched_inv_same_timers [OF same] by simp
  moreover have "thread_ok (threads k1 t)" "\<not> linked t (tlists k1)"
    using suspended_ok [OF inv st] by (simp_all add: same_but_timers_sel [OF same])
  ultimately have "sched_inv_except ({} - {t}) (rt_schedule_insert_thread t k1)"
    by (rule sched_inv_insert_thread)
  then show ?thesis by (simp add: sched_inv_def)
qed

lemma rt_thread_resume_cases:
  assumes "rt_thread_resume t k = Some (e, k')"
  obtains (fail) "tstat k t \<noteq> RT_THREAD_SUSPEND" "e = - RT_ERROR" "k' = k"
  | (wake) k1 where "tstat k t = RT_THREAD_SUSPEND" "e = RT_EOK"
      "same_but_timers (upd_tlists (unlink t) k) k1" "k' = rt_schedule_insert_thread t k1"
  using assms
  by (auto simp: rt_thread_resume_def Let_def bind_eq_Some_conv split: if_splits
      dest: rt_timer_stop_same)

lemma sched_inv_resume:
  assumes "rt_thread_resume t k = Some (e, k')" "sched_inv k" shows "sched_inv k'"
  using assms(1)
proof (cases rule: rt_thread_resume_cases)
  case (wake k1)
  then show ?thesis using sched_inv_wake assms(2) by blast
qed (use assms(2) in simp)

lemma rt_thread_resume_frame:
  assumes "rt_thread_resume t k = Some (e, k')"
  shows "kframe k k'" "rt_current_thread k' = rt_current_thread k"
    "\<And>u. u \<noteq> t \<Longrightarrow> threads k' u = threads k u"
proof -
  from assms have "k' = k \<or> (\<exists>k1. k' = rt_schedule_insert_thread t k1 \<and>
      same_but_timers (upd_tlists (unlink t) k) k1)"
    by (cases rule: rt_thread_resume_cases) auto
  then have "kframe k k' \<and> rt_current_thread k' = rt_current_thread k \<and>
      (\<forall>u. u \<noteq> t \<longrightarrow> threads k' u = threads k u)"
  proof (elim disjE exE conjE)
    fix k1 assume k1: "k' = rt_schedule_insert_thread t k1"
      "same_but_timers (upd_tlists (unlink t) k) k1"
    note sel = same_but_timers_sel [OF k1(2)]
    have "kframe k k1" using kframe_trans [OF kframe_tlists kframe_timers [OF k1(2)]] .
    then show ?thesis
      using kframe_trans [OF _ kframe_sched [OF same_but_sched_insert]] sel
      by (simp add: k1(1) insert_thread_threads)
  qed simp
  then show "kframe k k'" "rt_current_thread k' = rt_current_thread k"
    "\<And>u. u \<noteq> t \<Longrightarrow> threads k' u = threads k u" by blast+
qed

lemma rt_thread_resume_wakes:
  assumes "rt_thread_resume t k = Some (e, k')" "tstat k t = RT_THREAD_SUSPEND"
  shows "e = RT_EOK"
    "tstat k' t = (if rt_current_thread k = Some t then RT_THREAD_RUNNING else RT_THREAD_READY)"
    "\<And>h. (\<forall>p. h \<noteq> Ready p) \<Longrightarrow> tlists k' h = unlink t (tlists k) h"
proof -
  from assms obtain k1 where k1: "e = RT_EOK"
    "same_but_timers (upd_tlists (unlink t) k) k1" "k' = rt_schedule_insert_thread t k1"
    by (cases rule: rt_thread_resume_cases) auto
  show "e = RT_EOK" by (fact k1)
  show "tstat k' t = (if rt_current_thread k = Some t then RT_THREAD_RUNNING else RT_THREAD_READY)"
    by (simp add: k1(3) insert_thread_threads same_but_timers_sel [OF k1(2)])
  show "tlists k' h = unlink t (tlists k) h" if "\<forall>p. h \<noteq> Ready p" for h
    using that by (simp add: k1(3) insert_thread_tlists same_but_timers_sel [OF k1(2)]
        push_back_def push_front_def)
qed

lemma sched_inv_suspend:
  assumes sus: "rt_thread_suspend t k = Some (e, k')" and inv: "sched_inv k"
  shows "sched_inv k'"
proof (cases "tstat k t \<noteq> RT_THREAD_READY \<and> tstat k t \<noteq> RT_THREAD_RUNNING")
  case True
  then show ?thesis using sus inv by (auto simp: rt_thread_suspend_def)
next
  case False
  let ?k2 = "upd_thread t (\<lambda>r. r\<lparr>stat := set_stat RT_THREAD_SUSPEND (stat r)\<rparr>)
    (rt_schedule_remove_thread t k)"
  have same: "same_but_timers ?k2 k'"
    using sus False by (auto simp: rt_thread_suspend_def Let_def bind_eq_Some_conv
        dest: rt_timer_stop_same split: if_splits)
  have ok: "thread_ok (threads k t)"
    using False sched_inv_thread_ok [OF sched_invD [OF inv], of t] by auto
  have "sched_inv_except {t} (rt_schedule_remove_thread t k)"
    using sched_inv_remove_thread [OF sched_invD [OF inv] ok] by simp
  then have "sched_inv_except ({} - {t}) ?k2"
    using ok by (intro sched_inv_set_stat) auto
  then show ?thesis using sched_inv_same_timers [OF same] by (simp add: sched_inv_def)
qed

lemma rt_thread_suspend_current:
  assumes sus: "rt_thread_suspend t k = Some (e, k')" and run: "tstat k t = RT_THREAD_RUNNING"
  shows "rt_current_thread k = Some t" "e = RT_EOK" "tstat k' t = RT_THREAD_SUSPEND"
    "tlists k' = unlink t (tlists k)" "rt_current_thread k' = Some t" "kframe k k'"
    "\<And>u. u \<noteq> t \<Longrightarrow> threads k' u = threads k u"
proof -
  from sus run show cur: "rt_current_thread k = Some t"
    by (simp add: rt_thread_suspend_def rt_thread_self_def)
  let ?k2 = "upd_thread t (\<lambda>r. r\<lparr>stat := set_stat RT_THREAD_SUSPEND (stat r)\<rparr>)
      (rt_schedule_remove_thread t k)"
  from sus run obtain e1 where k': "e = RT_EOK" "rt_timer_stop (Thread_timer t) ?k2 = Some (e1, k')"
    by (auto simp: rt_thread_suspend_def Let_def bind_eq_Some_conv)
  note same = rt_timer_stop_same [OF k'(2)]
  note st = k'(1) same_but_timers_sel [OF same]
  show "e = RT_EOK" "tstat k' t = RT_THREAD_SUSPEND"
    "tlists k' = unlink t (tlists k)" "rt_current_thread k' = Some t"
    using st cur by simp_all
  show "u \<noteq> t \<Longrightarrow> threads k' u = threads k u" for u using st by simp
  show "kframe k k'"
    by (rule kframe_trans [OF kframe_sched kframe_timers [OF same]])
      (rule same_but_sched_trans [OF same_but_sched_remove same_but_sched_upd_stat])
qed

section \<open>Starting a timer: frame and order\<close>

text \<open>The state after the row insertion, before the timer thread is looked at.\<close>

definition timer_armed :: "timer_id \<Rightarrow> kernel \<Rightarrow> kernel" where
  "timer_armed tm k =
     (let k3 = upd_timer tm (\<lambda>r. r\<lparr>timeout_tick := rt_tick k + timer_init_tick r\<rparr>)
            (set_timer_flag tm (\<lambda>fl. fl AND NOT RT_TIMER_FLAG_ACTIVATED) (timer_remove tm k));
          h = timer_start_list tm k3
      in set_timer_flag tm (\<lambda>fl. fl OR RT_TIMER_FLAG_ACTIVATED)
        (upd_rows (\<lambda>L. L(h := timer_row_insert (\<lambda>t. timeout_tick (timers k3 t))
           (timeout_tick (timers k3 tm)) tm (L h))) k3))"

lemma timer_armed_same: "same_but_timers k (timer_armed tm k)"
  unfolding timer_armed_def Let_def
  by (rule same_but_timers_trans [OF _ same_but_timers_intros(2)],
      rule same_but_timers_trans [OF _ same_but_timers_intros(5)],
      rule same_but_timers_trans [OF _ same_but_timers_intros(4)],
      rule same_but_timers_trans [OF same_but_timers_intros(3) same_but_timers_intros(2)])

lemma soft_flag_bits [simp]:
  "((fl::8 word) AND - 2) AND 4 = fl AND 4" "((fl::8 word) OR 1) AND 4 = fl AND 4"
  "((fl::8 word) AND - 2) OR 1 = fl OR 1" "((fl::8 word) OR 1) AND 1 = 1"
  by (simp_all add: and.assoc bit.conj_disj_distrib2)
    (simp add: bit.disj_conj_distrib2)

lemma timer_armed_rows:
  "rows (timer_armed tm k) = (unlink tm (rows k))(timer_start_list tm k :=
     timer_row_insert (\<lambda>t. timeout_tick (timers (timer_armed tm k) t))
       (timeout_tick (timers (timer_armed tm k) tm)) tm (unlink tm (rows k) (timer_start_list tm k)))"
  "timers (timer_armed tm k) = (timers k)(tm := (timers k tm)\<lparr>timeout_tick :=
     rt_tick k + timer_init_tick (timers k tm)\<rparr>)"
  "timer_flag (timer_armed tm k) tm = timer_flag k tm OR RT_TIMER_FLAG_ACTIVATED"
  "obj_type (objects (timer_armed tm k) r) = obj_type (objects k r)"
  by (simp_all add: timer_armed_def Let_def timer_start_list_def fun_eq_iff)

lemma rt_timer_start_eq:
  "rt_timer_start tm k = do {
     rt_assert (rt_object_get_type (Obj_timer tm) k = RT_Object_Class_Timer);
     if timer_flag k tm AND RT_TIMER_FLAG_SOFT_TIMER \<noteq> 0 \<and> \<not> soft_timer_busy k \<and>
        tstat k timer_thread = RT_THREAD_SUSPEND
     then do {
       (_, k6) \<leftarrow> rt_thread_resume timer_thread (timer_armed tm k);
       k7 \<leftarrow> rt_schedule k6;
       Some (RT_EOK, k7) }
     else Some (RT_EOK, timer_armed tm k) }"
  by (simp add: rt_timer_start_def timer_armed_def Let_def rt_tick_get_def)

text \<open>A hard timer, as every thread timer is, starts without any scheduling.\<close>

lemma rt_timer_start_hard:
  assumes "rt_timer_start tm k = Some (e, k')" "timer_flag k tm AND RT_TIMER_FLAG_SOFT_TIMER = 0"
  shows "e = RT_EOK" "k' = timer_armed tm k"
  using assms by (auto simp: rt_timer_start_eq)

lemma rt_timer_start_frame:
  assumes start: "rt_timer_start tm k = Some (e, k')"
  shows "kframe k k'" "e = RT_EOK"
    "sched_inv k \<Longrightarrow> rt_current_thread k = Some c \<Longrightarrow> sched_inv k'"
proof -
  note armed = timer_armed_same [of k tm]
  from start have "k' = timer_armed tm k \<or> (\<exists>e6 k6. rt_thread_resume timer_thread (timer_armed tm k) =
      Some (e6, k6) \<and> rt_schedule k6 = Some k')" (is "?A \<or> ?B") and "e = RT_EOK"
    by (auto simp: rt_timer_start_eq bind_eq_Some_conv split: if_splits)
  then show "kframe k k'" "e = RT_EOK"
    by (auto intro: kframe_timers [OF armed] kframe_trans [OF kframe_timers [OF armed]]
        kframe_trans [OF rt_thread_resume_frame(1) kframe_sched [OF rt_schedule_same]])
  assume inv: "sched_inv k" and cur: "rt_current_thread k = Some c"
  have inv': "sched_inv (timer_armed tm k)"
    using inv sched_inv_same_timers [OF armed] by (simp add: sched_inv_def)
  have cur': "rt_current_thread (timer_armed tm k) = Some c"
    using cur same_but_timers_sel(3) [OF armed] by simp
  from \<open>?A \<or> ?B\<close> show "sched_inv k'"
  proof
    assume ?B
    then obtain e6 k6 where k6: "rt_thread_resume timer_thread (timer_armed tm k) = Some (e6, k6)"
      "rt_schedule k6 = Some k'" by blast
    have "rt_current_thread k6 = Some c" using rt_thread_resume_frame(2) [OF k6(1)] cur' by simp
    with sched_inv_rt_schedule(1) [OF sched_inv_resume [OF k6(1) inv'] _ k6(2)] show ?thesis .
  qed (use inv' in simp)
qed

text \<open>The list the timer goes to stays sorted, wherever the window of pending timeouts lies in the
  tick range.\<close>

lemma timer_armed_sorted:
  assumes "wf_queues (rows k)"
    and "timers_sorted (\<lambda>t. timeout_tick (timers k t)) c
      (removeAll tm (rows k (timer_start_list tm k)))"
    and "rt_tick k + timer_init_tick (timers k tm) - c < RT_TICK_HALF"
  shows "timers_sorted (\<lambda>t. timeout_tick (timers (timer_armed tm k) t)) c
    (rows (timer_armed tm k) (timer_start_list tm k))"
proof -
  let ?tt = "\<lambda>t. timeout_tick (timers (timer_armed tm k) t)"
  let ?xs = "removeAll tm (rows k (timer_start_list tm k))"
  have eq: "?tt t = timeout_tick (timers k t)" if "t \<in> set ?xs" for t
    using that by (simp add: timer_armed_rows(2))
  have "map (\<lambda>t. ?tt t - c) ?xs = map (\<lambda>t. timeout_tick (timers k t) - c) ?xs"
    using eq by (intro map_cong) auto
  with assms(2) have "timers_sorted ?tt c ?xs"
    using eq unfolding timers_sorted_def by (metis (no_types, lifting))
  moreover have "?tt tm - c < RT_TICK_HALF" using assms(3) by (simp add: timer_armed_rows(2))
  ultimately have "timers_sorted ?tt c (timer_row_insert ?tt (?tt tm) tm ?xs)"
    by (rule timers_sorted_row_insert)
  moreover have "rows (timer_armed tm k) (timer_start_list tm k) = timer_row_insert ?tt (?tt tm) tm ?xs"
    by (subst timer_armed_rows(1)) (simp add: unlink_def)
  ultimately show ?thesis by simp
qed

end
