(* ===== verification/Thread_Props.thy ===== *)
theory Thread_Props
  imports Thread
begin

text \<open>
  The thread operations keep the scheduler invariant; the behaviour of \<^verbatim>\<open>rt_thread_yield\<close> among
  threads of equal priority; the properties of scheduler, timers and threads.
\<close>

section \<open>The thread operations keep the scheduler invariant\<close>

lemma sched_inv_upd_exempt:
  assumes inv: "sched_inv_except X k" and t: "t \<in> X" "\<not> linked t (tlists k)"
  shows "sched_inv_except X (upd_thread t f k)"
proof (rule sched_inv_exceptI)
  note inv' = sched_inv_exceptD [OF inv]
  show "at_home (threads (upd_thread t f k) u) h" if "u \<in> set (tlists (upd_thread t f k) h)" for u h
    using that t inv'(3) [of u h] by (cases "u = t") (auto simp: linked_def)
  show "thread_inv (upd_thread t f k) u" if "u \<notin> X" for u
    using that t inv'(4) [of u] by (cases "u = t") (auto simp: thread_inv_def)
qed (use sched_inv_exceptD(1,2) [OF inv] in simp_all)

lemma unlinked_state:
  assumes "sched_inv k" "tstat k t \<in> {RT_THREAD_INIT, RT_THREAD_RUNNING}"
  shows "\<not> linked t (tlists k)"
proof
  assume "linked t (tlists k)"
  then obtain h where "t \<in> set (tlists k h)" by (auto simp: linked_def)
  then have "at_home (threads k t) h" using assms(1) by (auto simp: sched_inv_def dest: sched_inv_exceptD(3))
  then show False using assms(2) by (auto simp: at_home_def split: list_head.splits)
qed

lemma sched_inv_error [simp]:
  "sched_inv_except X (upd_thread t (\<lambda>r. r\<lparr>thread_error := e\<rparr>) k) = sched_inv_except X k"
  by (rule sched_inv_except_upd_thread) simp_all

lemma thread_timeout_spec:
  assumes to: "thread_timeout t k = Some k'" and inv: "sched_inv k"
    and cur: "rt_current_thread k = Some c"
  shows "sched_inv k'" "thread_error (threads k' t) = - RT_ETIMEOUT"
    "tstat k t = RT_THREAD_SUSPEND" "tstat k' t \<in> {RT_THREAD_READY, RT_THREAD_RUNNING}"
    "\<exists>c'. rt_current_thread k' = Some c'"
proof -
  let ?k1 = "upd_thread t (\<lambda>r. r\<lparr>thread_error := - RT_ETIMEOUT\<rparr>) k"
  let ?k3 = "rt_schedule_insert_thread t (upd_tlists (unlink t) ?k1)"
  from to show st: "tstat k t = RT_THREAD_SUSPEND" by (simp add: thread_timeout_def)
  from to have k': "rt_schedule ?k3 = Some k'" by (simp add: thread_timeout_def Let_def)
  have "sched_inv ?k1" using inv by (simp add: sched_inv_def)
  then have inv3: "sched_inv ?k3"
    by (rule sched_inv_wake) (simp_all add: st)
  have cur3: "rt_current_thread ?k3 = Some c" using cur by simp
  note same = same_but_sched_sel [OF rt_schedule_same [OF k']]
  show "sched_inv k'" "\<exists>c'. rt_current_thread k' = Some c'"
    using sched_inv_rt_schedule [OF inv3 cur3 k'] by auto
  show "thread_error (threads k' t) = - RT_ETIMEOUT"
    using same(15) [of t] by (simp add: insert_thread_threads)
  have "tstat ?k3 t \<in> {RT_THREAD_READY, RT_THREAD_RUNNING}"
    by (simp add: insert_thread_threads)
  with rt_schedule_keeps_runnable [OF inv3 cur3 k'] show
    "tstat k' t \<in> {RT_THREAD_READY, RT_THREAD_RUNNING}" by blast
qed

lemma sched_inv_sleep_for:
  assumes sl: "thread_sleep_for t tick k = Some k'" and inv: "sched_inv k"
    and cur: "rt_current_thread k = Some c"
  shows "sched_inv k'"
proof -
  from sl obtain e1 k1 e2 a k2 e3 k3 where
    k1: "rt_thread_suspend t k = Some (e1, k1)"
    and k2: "rt_timer_control (Thread_timer t) RT_TIMER_CTRL_SET_TIME tick k1 = Some (e2, a, k2)"
    and k3: "rt_timer_start (Thread_timer t) k2 = Some (e3, k3)"
    and k': "rt_schedule k3 = Some k'"
    by (auto simp: thread_sleep_for_def bind_eq_Some_conv)
  have "rt_current_thread k1 = Some c"
    using k1 cur
    by (auto simp: rt_thread_suspend_def Let_def bind_eq_Some_conv split: if_splits
        dest!: rt_timer_stop_same same_but_timers_sel(3))
  moreover have "sched_inv k1" using k1 inv by (rule sched_inv_suspend)
  ultimately have inv2: "sched_inv k2" and cur2: "rt_current_thread k2 = Some c"
    using sched_inv_same_timers [OF rt_timer_control_same [OF k2]]
      same_but_timers_sel(3) [OF rt_timer_control_same [OF k2]]
    by (simp_all add: sched_inv_def)
  have inv3: "sched_inv k3" by (rule rt_timer_start_frame(3) [OF k3 inv2 cur2])
  have "\<exists>c3. rt_current_thread k3 = Some c3"
  proof -
    from k3 have "k3 = timer_armed (Thread_timer t) k2 \<or> (\<exists>e6 k6. rt_thread_resume timer_thread
        (timer_armed (Thread_timer t) k2) = Some (e6, k6) \<and> rt_schedule k6 = Some k3)"
      by (auto simp: rt_timer_start_eq bind_eq_Some_conv split: if_splits)
    then show ?thesis
    proof (elim disjE exE conjE)
      fix e6 k6
      assume k6: "rt_thread_resume timer_thread (timer_armed (Thread_timer t) k2) = Some (e6, k6)"
        "rt_schedule k6 = Some k3"
      have "sched_inv (timer_armed (Thread_timer t) k2)"
        using inv2 sched_inv_same_timers [OF timer_armed_same] by (simp add: sched_inv_def)
      from sched_inv_resume [OF k6(1) this] show ?thesis
        using sched_inv_rt_schedule(2) [OF _ _ k6(2), of c] rt_thread_resume_frame(2) [OF k6(1)]
          same_but_timers_sel(3) [OF timer_armed_same [of k2 "Thread_timer t"]] cur2 by simp
    qed (use cur2 same_but_timers_sel(3) [OF timer_armed_same] in auto)
  qed
  then show ?thesis using sched_inv_rt_schedule(1) [OF inv3 _ k'] by blast
qed

lemma sched_inv_sleep:
  assumes "rt_thread_sleep tick k = Some k'" "sched_inv k"
  shows "sched_inv k'"
proof -
  from assms(1) obtain t where "rt_current_thread k = Some t"
    "thread_sleep_for t tick (upd_thread t (\<lambda>r. r\<lparr>thread_error := RT_EOK\<rparr>) k) = Some k'"
    by (auto simp: rt_thread_sleep_def rt_thread_self_def Let_def bind_eq_Some_conv)
  from sched_inv_sleep_for [OF this(2), of t] this(1) assms(2) show ?thesis
    by (simp add: sched_inv_def)
qed

lemma sched_inv_startup:
  assumes st: "rt_thread_startup t k = Some (e, k')" and inv: "sched_inv k"
    and prio: "unat (tprio k t) < RT_THREAD_PRIORITY_MAX"
  shows "sched_inv k'"
proof -
  let ?k1 = "upd_thread t (\<lambda>r. r\<lparr>number_mask := push_bit (unat (current_priority r)) 1\<rparr>) k"
  let ?k2 = "upd_thread t (\<lambda>r. r\<lparr>stat := RT_THREAD_SUSPEND\<rparr>) ?k1"
  from st have init: "tstat k t = RT_THREAD_INIT" by (simp add: rt_thread_startup_def)
  from st obtain e3 k3 where k3: "rt_thread_resume t ?k2 = Some (e3, k3)"
    and k': "(if rt_thread_self k3 \<noteq> None then rt_schedule k3 else Some k3) = Some k'"
    by (auto simp: rt_thread_startup_def Let_def bind_eq_Some_conv)
  have free: "\<not> linked t (tlists k)" using inv init by (intro unlinked_state) auto
  have "sched_inv_except {t} ?k1"
    using sched_inv_weaken [OF inv] free by (intro sched_inv_upd_exempt) auto
  then have "sched_inv_except ({} - {t}) ?k2"
    using free prio by (intro sched_inv_set_stat [where s = 2]) (simp_all add: thread_ok_def)
  then have "sched_inv k3" by (intro sched_inv_resume [OF k3]) (simp add: sched_inv_def)
  then show ?thesis
    using k' by (auto simp: rt_thread_self_def split: if_splits dest: sched_inv_rt_schedule(1))
qed

text \<open>Closing a thread in any state: it leaves its list and goes to the list of closed threads.\<close>

lemma sched_inv_closed:
  assumes inv: "sched_inv_except (insert t {}) k" and free: "\<not> linked t (tlists k)"
    and same: "same_but_timers k k2"
  shows "sched_inv (rt_thread_defunct_enqueue t (upd_thread t (\<lambda>r. r\<lparr>stat := RT_THREAD_CLOSE\<rparr>) k2))"
proof -
  let ?k3 = "upd_thread t (\<lambda>r. r\<lparr>stat := RT_THREAD_CLOSE\<rparr>) k2"
  have "sched_inv_except (insert t {}) k2" using inv sched_inv_same_timers [OF same] by simp
  moreover have free2: "\<not> linked t (tlists k2)" using free same_but_timers_sel(2) [OF same] by simp
  ultimately have "sched_inv_except ({} - {t}) ?k3"
    by (intro sched_inv_set_stat [where s = 4]) simp_all
  then have k3: "sched_inv_except {} ?k3" by simp
  have "sched_inv_except {} (upd_tlists (push_front Defunct t) ?k3)"
  proof (rule sched_inv_link [OF k3])
    show "wf_queues (push_front Defunct t (tlists ?k3))"
      using sched_inv_exceptD(1) [OF k3] free2 by (intro wf_push_front) simp_all
  qed (auto simp: push_front_def at_home_def split: if_splits)
  then show ?thesis by (simp add: sched_inv_def rt_thread_defunct_enqueue_def)
qed

lemma small_stat:
  assumes "s \<le> (4::8 word)" shows "s \<in> {0, 1, 2, 3, 4}"
proof -
  obtain n where n: "s = word_of_nat n" "n \<le> 4"
    using assms that [of "unat s"] by (simp add: word_le_nat_alt)
  then have "n \<in> {0, 1, 2, 3, 4}" by auto
  then show ?thesis by (auto simp: n(1))
qed

lemma sched_inv_close:
  assumes cl: "thread_close t k = Some (e, k')" and inv: "sched_inv k"
    and st: "tstat k t \<le> RT_THREAD_CLOSE"
  shows "sched_inv k'"
proof (cases "tstat k t = RT_THREAD_CLOSE")
  case True
  then show ?thesis using cl inv by (simp add: thread_close_def)
next
  case False
  let ?k1 = "if tstat k t \<noteq> RT_THREAD_INIT then rt_schedule_remove_thread t k else k"
  from cl False obtain e2 k2 where k2: "rt_timer_detach (Thread_timer t) ?k1 = Some (e2, k2)"
    and k': "k' = rt_thread_defunct_enqueue t (upd_thread t (\<lambda>r. r\<lparr>stat := RT_THREAD_CLOSE\<rparr>) k2)"
    by (auto simp: thread_close_def Let_def bind_eq_Some_conv)
  have "sched_inv_except (insert t {}) ?k1 \<and> \<not> linked t (tlists ?k1)"
  proof (cases "tstat k t = RT_THREAD_INIT")
    case True
    then show ?thesis using inv unlinked_state [OF inv, of t] by (auto intro: sched_inv_weaken)
  next
    case init: False
    have "tstat k t \<in> {1, 2, 3}" using small_stat [OF st] init False by blast
    then have "thread_ok (threads k t)" using sched_inv_thread_ok [OF sched_invD [OF inv], of t] by blast
    then show ?thesis using init sched_inv_remove_thread [OF sched_invD [OF inv]] by simp
  qed
  then show ?thesis
    unfolding k' using rt_timer_detach_same [OF k2] by (blast intro: sched_inv_closed)
qed

lemma sched_inv_exit:
  assumes ex: "thread_exit k = Some k'" and inv: "sched_inv k"
    and run: "rt_current_thread k = Some t" "tstat k t = RT_THREAD_RUNNING"
  shows "sched_inv k'"
proof -
  let ?k1 = "rt_schedule_remove_thread t k"
  from ex run obtain e2 k2 where k2: "rt_timer_detach (Thread_timer t) ?k1 = Some (e2, k2)"
    and k': "rt_schedule (rt_thread_defunct_enqueue t
      (upd_thread t (\<lambda>r. r\<lparr>stat := RT_THREAD_CLOSE\<rparr>) k2)) = Some k'"
    by (auto simp: thread_exit_def rt_thread_self_def Let_def bind_eq_Some_conv)
  have "thread_ok (threads k t)" using run sched_inv_thread_ok [OF sched_invD [OF inv], of t] by simp
  then have "sched_inv (rt_thread_defunct_enqueue t
      (upd_thread t (\<lambda>r. r\<lparr>stat := RT_THREAD_CLOSE\<rparr>) k2))"
    using sched_inv_remove_thread [OF sched_invD [OF inv]] rt_timer_detach_same [OF k2]
    by (intro sched_inv_closed [of t ?k1]) simp_all
  moreover have "rt_current_thread (rt_thread_defunct_enqueue t
      (upd_thread t (\<lambda>r. r\<lparr>stat := RT_THREAD_CLOSE\<rparr>) k2)) = Some t"
    using run same_but_timers_sel(3) [OF rt_timer_detach_same [OF k2]]
    by (simp add: rt_thread_defunct_enqueue_def)
  ultimately show ?thesis using k' by (blast intro: sched_inv_rt_schedule(1))
qed

text \<open>Changing the priority of a thread that is not in a ready list.\<close>

lemma sched_inv_set_priority:
  assumes inv: "sched_inv k" and st: "tstat k t \<noteq> RT_THREAD_READY"
    and p: "unat p < RT_THREAD_PRIORITY_MAX"
  shows "sched_inv (set_priority t p k)"
proof -
  note inv' = sched_inv_exceptD [OF sched_invD [OF inv]]
  have "sched_inv_except {} (set_priority t p k)"
  proof (rule sched_inv_exceptI)
    show "at_home (threads (set_priority t p k) u) h"
      if "u \<in> set (tlists (set_priority t p k) h)" for u h
      using that inv'(3) [of u h] st
      by (cases "u = t") (auto simp: set_priority_def at_home_def split: list_head.splits)
    show "thread_inv (set_priority t p k) u" for u
      using inv'(4) [of u] st p
      by (cases "u = t") (auto simp: set_priority_def thread_inv_def thread_ok_def)
  qed (use inv'(1,2) in \<open>simp_all add: set_priority_def\<close>)
  then show ?thesis by (simp add: sched_inv_def)
qed

lemma sched_inv_change_priority:
  assumes c: "rt_thread_control t (RT_THREAD_CTRL_CHANGE_PRIORITY p) k = Some (e, k')"
    and inv: "sched_inv k" and p: "unat p < RT_THREAD_PRIORITY_MAX"
  shows "sched_inv k'"
proof (cases "tstat k t = RT_THREAD_READY")
  case True
  let ?k2 = "set_priority t p (rt_schedule_remove_thread t k)"
  have k': "k' = rt_schedule_insert_thread t ?k2"
    using c True by (simp add: rt_thread_control_def)
  have "thread_ok (threads k t)" using True sched_inv_thread_ok [OF sched_invD [OF inv], of t] by simp
  then have "sched_inv_except {t} (rt_schedule_remove_thread t k)"
    using sched_inv_remove_thread [OF sched_invD [OF inv]] by simp
  then have "sched_inv_except {t} ?k2"
    unfolding set_priority_def by (intro sched_inv_upd_exempt) simp_all
  then have "sched_inv_except ({} - {t}) k'"
    unfolding k' using p
    by (intro sched_inv_insert_thread) (simp_all add: set_priority_def thread_ok_def)
  then show ?thesis by (simp add: sched_inv_def)
next
  case False
  then show ?thesis
    using c sched_inv_set_priority [OF inv False p] by (simp add: rt_thread_control_def)
qed

section \<open>Yielding\<close>

lemma yield_bits [simp]:
  "((s::8 word) OR 8) AND 7 = s AND 7" "((s::8 word) OR 8) AND 8 = 8"
  by (simp_all add: bit.conj_disj_distrib2)

text \<open>A running thread at the head of the highest priority level: \<open>c\<close> runs, \<open>t\<close> is first in the
  ready list of the same priority, \<open>ts\<close> are the threads behind it.\<close>

definition equal_turn :: "tid \<Rightarrow> tid \<Rightarrow> tid list \<Rightarrow> kernel \<Rightarrow> bool" where
  "equal_turn c t ts k \<longleftrightarrow> sched_inv k \<and> rt_scheduler_lock_nest k = 0 \<and>
     rt_current_thread k = Some c \<and> tstat k c = RT_THREAD_RUNNING \<and>
     tlists k (Ready (unat (tprio k c))) = t # ts \<and>
     (\<forall>q < unat (tprio k c). tlists k (Ready q) = []) \<and>
     stack_ok (threads k c) \<and> stack_ok (threads k t)"

lemma sched_inv_yield_mark:
  "sched_inv (upd_thread t (\<lambda>r. r\<lparr>remaining_tick := x r, stat := stat r OR 8\<rparr>) k) = sched_inv k"
  unfolding sched_inv_def by (rule sched_inv_except_upd_thread) simp_all

lemma rt_thread_yield_turn:
  assumes turn: "equal_turn c t ts k"
  shows "\<exists>k'. rt_thread_yield k = Some (RT_EOK, k') \<and> equal_turn t c ts k'"
proof -
  from turn have inv: "sched_inv k" and lock: "rt_scheduler_lock_nest k = 0"
    and cur: "rt_current_thread k = Some c" and run: "tstat k c = RT_THREAD_RUNNING"
    and rdy: "tlists k (Ready (unat (tprio k c))) = t # ts"
    and top: "\<And>q. q < unat (tprio k c) \<Longrightarrow> tlists k (Ready q) = []"
    and stk: "stack_ok (threads k c)" "stack_ok (threads k t)"
    by (auto simp: equal_turn_def)
  let ?m = "upd_thread c (\<lambda>r. r\<lparr>remaining_tick := init_tick r, stat := stat r OR 8\<rparr>) k"
  let ?p = "unat (tprio k c)"
  have inv1: "sched_inv ?m" using inv by (simp only: sched_inv_yield_mark)
  have t: "tstat k t = RT_THREAD_READY" "unat (tprio k t) = ?p" "t \<noteq> c"
    using rdy inv run sched_inv_exceptD(3) [of "{}" k t "Ready ?p"]
    by (auto simp: sched_inv_def at_home_def)
  have p32: "?p < 32"
    using sched_inv_thread_ok [OF sched_invD [OF inv], of c] run by (simp add: thread_ok_def)
  then have "bit (rt_thread_ready_priority_group ?m) ?p"
    using sched_inv_exceptD(2) [OF sched_invD [OF inv], of ?p] rdy by simp
  then have grp: "rt_thread_ready_priority_group ?m \<noteq> 0" by (auto simp del: upd_thread_sel)
  obtain t' p' ts' where best: "scheduler_get_highest_priority_thread ?m = Some (t', p')"
    "tlists ?m (Ready p') = t' # ts'" "\<forall>q. tlists ?m (Ready q) \<noteq> [] \<longrightarrow> q < 32 \<longrightarrow> p' \<le> q"
    using get_highest_spec [OF sched_invD [OF inv1] grp] by blast
  have "p' = ?p"
    using best(2,3) top rdy p32 by (metis leD list.distinct(1) nat_neq_iff upd_thread_sel(2))
  with best(1,2) rdy have hi: "scheduler_get_highest_priority_thread ?m = Some (t, ?p)" by simp
  have "schedule_switch c t ?p True (clear_yield c ?m) \<noteq> None"
    using stk(2) t(3) by (intro schedule_switch_defined) (simp_all add: clear_yield_def)
  then obtain k' where sw: "schedule_switch c t ?p True (clear_yield c ?m) = Some k'" by blast
  have sched: "rt_schedule ?m = Some k'"
    using sw hi lock grp cur run t(3) by (simp add: rt_schedule_def Let_def clear_yield_def)
  then have "rt_thread_yield k = Some (RT_EOK, k')"
    using cur by (simp add: rt_thread_yield_def rt_thread_self_def)
  moreover have after: "sched_inv k' \<and> rt_current_thread k' = Some t \<and>
      tstat k' t = RT_THREAD_RUNNING \<and> tlists k' = unlink t (push_front (Ready ?p) c (tlists k))"
    using schedule_switch_running [of "clear_yield c ?m" c t ?p k'] inv1 cur run t sw by simp
  have same: "same_but_sched ?m k'" by (rule rt_schedule_same [OF sched])
  have prio: "tprio k' u = tprio k u" for u using same_but_sched_sel(16) [OF same, of u] by simp
  have "t \<notin> set ts" using rdy inv wf_queues_distinct [of "tlists k" "Ready ?p"]
    by (auto simp: sched_inv_def dest: sched_inv_exceptD(1))
  then have "tlists k' (Ready (unat (tprio k' t))) = c # ts"
    using after rdy t(2,3) prio by (simp add: unlink_def push_front_def)
  moreover have "tlists k' (Ready q) = []" if "q < unat (tprio k' t)" for q
    using that after top [of q] prio t(2) by (simp add: unlink_def push_front_def)
  moreover have "stack_ok (threads k' u) = stack_ok (threads k u)" for u
    using kframe_thread(6) [OF kframe_sched [OF same], of u] by (simp add: stack_ok_def)
  ultimately have "equal_turn t c ts k'"
    unfolding equal_turn_def
    using after lock stk same_but_sched_sel(1) [OF same] by simp
  with \<open>rt_thread_yield k = Some (RT_EOK, k')\<close> show ?thesis by blast
qed

text \<open>\<open>n\<close> successive calls of \<^verbatim>\<open>rt_thread_yield\<close>, each by the thread that is then running.\<close>

fun yields :: "nat \<Rightarrow> kernel \<Rightarrow> kernel option" where
  "yields 0 k = Some k"
| "yields (Suc n) k = do { (_, k1) \<leftarrow> rt_thread_yield k; yields n k1 }"

lemma yields_turn:
  "equal_turn c t ts k \<Longrightarrow>
   \<exists>k'. yields n k = Some k' \<and> (if even n then equal_turn c t ts k' else equal_turn t c ts k')"
proof (induction n arbitrary: c t k)
  case (Suc n)
  from rt_thread_yield_turn [OF Suc.prems] obtain k1
    where k1: "rt_thread_yield k = Some (RT_EOK, k1)" "equal_turn t c ts k1" by blast
  from Suc.IH [OF k1(2)] k1(1) show ?case by auto
qed simp

section \<open>A concrete state\<close>

text \<open>Three started threads of priority 10: thread 2 runs, 3 and 4 are ready.\<close>

definition demo_thread :: "8 word \<Rightarrow> 8 word \<Rightarrow> rt_thread" where
  "demo_thread st p = zero_thread\<lparr>stat := st, current_priority := p,
     number_mask := push_bit (unat p) 1, stack_addr := 0x1000, stack_size := 0x100, sp := 0x1080,
     stack_mark := 0x23, init_tick := 10, remaining_tick := 10\<rparr>"

definition demo_objects :: "obj_ref \<Rightarrow> rt_object" where
  "demo_objects r = \<lparr>obj_name = [], obj_type = (case r of Obj_thread _ \<Rightarrow> 0x81 | Obj_timer _ \<Rightarrow> 0x8A
     | Obj_ipc (Sem _) \<Rightarrow> 0x82 | Obj_ipc (Mutex _) \<Rightarrow> 0x83 | Obj_ipc (Event _) \<Rightarrow> 0x84
     | Obj_ipc (Mailbox _) \<Rightarrow> 0x85 | Obj_ipc (Msgqueue _) \<Rightarrow> 0x86 | Obj_ipc (Mempool _) \<Rightarrow> 0x88
     | Obj_memory _ \<Rightarrow> 0x8C), obj_flag = 0\<rparr>"

definition three_threads :: kernel where
  "three_threads = zero_kernel\<lparr>rt_current_thread := Some 2, rt_current_priority := 10,
     rt_thread_ready_priority_group := 0x400,
     tlists := (\<lambda>h. if h = Ready 10 then [3, 4] else []),
     threads := (\<lambda>t. if t = 2 then demo_thread RT_THREAD_RUNNING 10
       else if t = 3 \<or> t = 4 then demo_thread RT_THREAD_READY 10 else zero_thread),
     objects := demo_objects\<rparr>"

lemma demo_thread_sel [simp]:
  "stat (demo_thread st p) = st" "current_priority (demo_thread st p) = p"
  "number_mask (demo_thread st p) = push_bit (unat p) 1"
  "stack_ok (demo_thread st p)" "thread_ok (demo_thread st 10)"
  "timer_init_tick zero_timer = 0" "timeout_tick zero_timer = 0" "stat zero_thread = 0"
  by (simp_all add: demo_thread_def stack_ok_def thread_ok_def zero_thread_def zero_timer_def)

lemma three_threads_sel [simp]:
  "rt_current_thread three_threads = Some 2" "rt_thread_ready_priority_group three_threads = 0x400"
  "tlists three_threads = (\<lambda>h. if h = Ready 10 then [3, 4] else [])"
  "threads three_threads = (\<lambda>t. if t = 2 then demo_thread RT_THREAD_RUNNING 10
       else if t = 3 \<or> t = 4 then demo_thread RT_THREAD_READY 10 else zero_thread)"
  "rt_scheduler_lock_nest three_threads = 0" "rt_interrupt_nest three_threads = 0"
  "objects three_threads = demo_objects" "rows three_threads = (\<lambda>_. [])"
  "timers three_threads = (\<lambda>_. zero_timer)" "rt_tick three_threads = 0"
  by (simp_all add: three_threads_def zero_kernel_def)

lemma sched_inv_three_threads: "sched_inv three_threads"
proof -
  have "bit (0x400 :: 32 word) p \<longleftrightarrow> p = 10" for p
  proof -
    have "(0x400 :: 32 word) = push_bit 10 1" by simp
    then show ?thesis by (simp only: bit_push_bit_iff bit_1_iff) auto
  qed
  then show ?thesis
    by (auto simp: sched_inv_def sched_inv_except_def wf_queues_def at_home_def thread_inv_def)
qed

section \<open>Properties\<close>

text \<open>C3: Called with the scheduler unlocked, \<^verbatim>\<open>rt_schedule\<close> returns (it neither spins nor faults) when
  the stacks of the ready threads are intact. Afterwards the current thread is running, no ready
  thread has a more urgent priority, and the invariant holds: the ready bitmap mirrors the ready
  lists, every ready thread is in the list of its priority, and at most one thread is running.\<close>

theorem rt_schedule_selects_highest:
  assumes "sched_inv k" and "rt_current_thread k = Some c"
    and "rt_scheduler_lock_nest k = 0"
    and "tstat k c = RT_THREAD_RUNNING \<or> rt_thread_ready_priority_group k \<noteq> 0"
    and "\<And>t. tstat k t = RT_THREAD_READY \<Longrightarrow> stack_ok (threads k t)"
  shows "\<exists>k' c'. rt_schedule k = Some k' \<and> sched_inv k' \<and> rt_current_thread k' = Some c' \<and>
    tstat k' c' = RT_THREAD_RUNNING \<and>
    (\<forall>t. tstat k' t = RT_THREAD_READY \<longrightarrow> unat (tprio k' c') \<le> unat (tprio k' t))"
proof -
  from rt_schedule_defined [OF assms(1,2,5)] obtain k' where k': "rt_schedule k = Some k'" by blast
  from rt_schedule_highest [OF assms(1,2) k' assms(3,4)] sched_inv_rt_schedule(1) [OF assms(1,2) k']
  show ?thesis using k' by blast
qed

theorem rt_schedule_selects_highest_witness:
  "\<exists>k' c'. rt_schedule three_threads = Some k' \<and> rt_current_thread k' = Some c' \<and>
    tstat k' c' = RT_THREAD_RUNNING"
proof -
  have "stack_ok (threads three_threads t)" if "tstat three_threads t = RT_THREAD_READY" for t
    using that by (auto split: if_splits)
  then show ?thesis
    using rt_schedule_selects_highest [OF sched_inv_three_threads, of 2] by auto
qed

text \<open>C24: \<^verbatim>\<open>rt_thread_yield\<close> puts the calling thread at the head of the ready list of its priority, not
  at its tail: \<^verbatim>\<open>rt_schedule\<close> clears the yield mark before it reinserts the thread. So with three or
  more threads of the highest priority two of them alternate for ever: after any number of yields
  the running thread is one of the first two, and the threads behind them have not moved.\<close>

theorem rt_thread_yield_starves:
  assumes "equal_turn c t ts k"
  shows "\<exists>k'. yields n k = Some k' \<and>
    rt_current_thread k' = Some (if even n then c else t) \<and>
    tlists k' (Ready (unat (tprio k' (if even n then c else t)))) = (if even n then t else c) # ts"
proof -
  from yields_turn [OF assms, of n] obtain k' where "yields n k = Some k'"
    "if even n then equal_turn c t ts k' else equal_turn t c ts k'" by blast
  then show ?thesis by (cases "even n") (auto simp: equal_turn_def)
qed

theorem rt_thread_yield_starves_witness:
  "\<exists>k'. yields 1001 three_threads = Some k' \<and> rt_current_thread k' = Some 3 \<and>
    tlists k' (Ready (unat (tprio k' 3))) = [2, 4]"
proof -
  have "equal_turn 2 3 [4] three_threads"
    using sched_inv_three_threads by (simp add: equal_turn_def)
  from rt_thread_yield_starves [OF this, of 1001] show ?thesis by simp
qed

text \<open>C25: \<^verbatim>\<open>rt_timer_start\<close> keeps the timer list sorted by expiry across the wrap-around of the tick
  counter: if the pending timeouts and the new one lie in one window of less than half the tick
  range, the new timer comes after every timer that expires no later and before every timer that
  expires later.\<close>

theorem rt_timer_start_sorted:
  assumes "rt_timer_start tm k = Some (e, k')" and "timer_flag k tm AND RT_TIMER_FLAG_SOFT_TIMER = 0"
    and "wf_queues (rows k)"
    and "timers_sorted (\<lambda>t. timeout_tick (timers k t)) c (removeAll tm (rows k Hard_list))"
    and "rt_tick k + timer_init_tick (timers k tm) - c < RT_TICK_HALF"
  shows "timers_sorted (\<lambda>t. timeout_tick (timers k' t)) c (rows k' Hard_list) \<and>
    (\<exists>xs ys. removeAll tm (rows k Hard_list) = xs @ ys \<and> rows k' Hard_list = xs @ tm # ys \<and>
       (\<forall>t \<in> set xs. timeout_tick (timers k t) - c \<le> timeout_tick (timers k' tm) - c) \<and>
       (\<forall>t \<in> set ys. timeout_tick (timers k t) - c > timeout_tick (timers k' tm) - c)) \<and>
    timeout_tick (timers k' tm) = rt_tick k + timer_init_tick (timers k tm) \<and>
    timer_flag k' tm AND RT_TIMER_FLAG_ACTIVATED \<noteq> 0"
proof -
  have k': "k' = timer_armed tm k" by (rule rt_timer_start_hard(2) [OF assms(1,2)])
  have hard: "timer_start_list tm k = Hard_list" using assms(2) by (simp add: timer_start_list_def)
  let ?zs = "removeAll tm (rows k Hard_list)"
  let ?new = "rt_tick k + timer_init_tick (timers k tm)"
  let ?tt = "\<lambda>t. timeout_tick (timers k' t)"
  have tt: "?tt t = (if t = tm then ?new else timeout_tick (timers k t))" for t
    by (simp add: k' timer_armed_rows(2))
  have rows: "rows k' Hard_list = timer_row_insert ?tt ?new tm ?zs"
    using timer_armed_rows(1) [of tm k] by (simp add: k' hard unlink_def timer_armed_rows(2))
  have srt: "timers_sorted ?tt c ?zs"
    using assms(4) by (rule timers_sorted_cong) (simp add: tt)
  from timer_row_insert_position [of ?tt c ?zs tm] srt assms(5) tt [of tm]
  obtain xs ys where xy: "?zs = xs @ ys" "timer_row_insert ?tt ?new tm ?zs = xs @ tm # ys"
    "\<forall>t \<in> set xs. ?tt t - c \<le> ?new - c" "\<forall>t \<in> set ys. ?tt t - c > ?new - c"
    by auto
  have "tm \<notin> set xs \<union> set ys" using xy(1) by (metis set_append set_removeAll DiffE singletonI)
  then have "\<forall>t \<in> set xs. timeout_tick (timers k t) - c \<le> ?tt tm - c"
    "\<forall>t \<in> set ys. timeout_tick (timers k t) - c > ?tt tm - c"
    using xy(3,4) by (auto simp: tt split: if_splits)
  moreover have "rows k' Hard_list = xs @ tm # ys" using rows xy(2) by simp
  ultimately show ?thesis
    using timer_armed_sorted [of k c tm] assms(3-5) hard xy(1)
    by (auto simp: k' timer_armed_rows(2,3))
qed

theorem rt_timer_start_sorted_witness:
  "\<exists>e k'. rt_timer_start (User_timer 1) (three_threads\<lparr>rt_tick := 0xFFFFFFF0,
      rows := (\<lambda>h. if h = Hard_list then [User_timer 2] else []),
      timers := (\<lambda>t. zero_timer\<lparr>timer_init_tick := 0x20, timeout_tick := 0xFFFFFFF8\<rparr>)\<rparr>) = Some (e, k') \<and>
    timers_sorted (\<lambda>t. timeout_tick (timers k' t)) 0xFFFFFFF0 (rows k' Hard_list) \<and>
    timeout_tick (timers k' (User_timer 1)) = 0x10"
proof -
  let ?k = "three_threads\<lparr>rt_tick := 0xFFFFFFF0,
      rows := (\<lambda>h. if h = Hard_list then [User_timer 2] else []),
      timers := (\<lambda>t. zero_timer\<lparr>timer_init_tick := 0x20, timeout_tick := 0xFFFFFFF8\<rparr>)\<rparr>"
  have fl: "timer_flag ?k (User_timer 1) AND RT_TIMER_FLAG_SOFT_TIMER = 0"
    by (simp add: demo_objects_def)
  obtain e k' where k': "rt_timer_start (User_timer 1) ?k = Some (e, k')"
    using fl by (simp add: rt_timer_start_eq rt_object_get_type_def demo_objects_def)
  have "wf_queues (rows ?k)" by (simp add: wf_queues_def)
  from rt_timer_start_sorted [where c = "0xFFFFFFF0", OF k' fl this] k' show ?thesis
    by (fastforce simp: timers_sorted_def)
qed

end
