(* ===== verification/Ipc.thy ===== *)
theory Ipc
  imports Thread_Props
begin

text \<open>
  The part of \<^verbatim>\<open>src/ipc.c\<close> that all IPC objects share: the wait lists, in order of arrival or of
  priority, and the sequence with which a thread blocks on one.
\<close>

section \<open>Operations\<close>

definition ipc_object_init :: "ipc_ref \<Rightarrow> kernel \<Rightarrow> kernel" where
  "ipc_object_init r = upd_tlists (\<lambda>L. L(Suspend r := []))"

text \<open>The insertion that \<^verbatim>\<open>_ipc_list_suspend\<close> makes after it suspended the thread.\<close>

definition ipc_list_insert :: "list_head \<Rightarrow> tid \<Rightarrow> 8 word \<Rightarrow> kernel \<Rightarrow> kernel option" where
  "ipc_list_insert h t flag k =
     (if flag = RT_IPC_FLAG_FIFO then Some (upd_tlists (push_back h t) k)
      else if flag = RT_IPC_FLAG_PRIO then
        (case List.find (\<lambda>s. tprio k t < tprio k s) (tlists k h) of
           Some s \<Rightarrow> Some (upd_tlists (push_before s t) k)
         | None \<Rightarrow> Some (upd_tlists (push_back h t) k))
      else None)"

definition ipc_list_suspend :: "list_head \<Rightarrow> tid \<Rightarrow> 8 word \<Rightarrow> kernel \<Rightarrow> (int \<times> kernel) option" where
  "ipc_list_suspend h t flag k = do {
     (_, k1) \<leftarrow> rt_thread_suspend t k;
     k2 \<leftarrow> ipc_list_insert h t flag k1;
     Some (RT_EOK, k2) }"

definition ipc_list_resume :: "list_head \<Rightarrow> kernel \<Rightarrow> (int \<times> kernel) option" where
  "ipc_list_resume h k =
     (case tlists k h of
        [] \<Rightarrow> None
      | t # _ \<Rightarrow> do {
          (_, k1) \<leftarrow> rt_thread_resume t k;
          Some (RT_EOK, k1) })"

partial_function (option) ipc_list_resume_all :: "list_head \<Rightarrow> kernel \<Rightarrow> (int \<times> kernel) option" where
  "ipc_list_resume_all h k =
     (case tlists k h of
        [] \<Rightarrow> Some (RT_EOK, k)
      | t # _ \<Rightarrow> do {
          let k1 = upd_thread t (\<lambda>r. r\<lparr>thread_error := - RT_ERROR\<rparr>) k;
          (_, k2) \<leftarrow> rt_thread_resume t k1;
          ipc_list_resume_all h k2 })"

text \<open>The tail of every blocking operation: suspend on the list, arm the thread's timer unless the
  wait is unlimited, and give the processor away.\<close>

definition ipc_arm_timer :: "tid \<Rightarrow> 32 word \<Rightarrow> kernel \<Rightarrow> kernel option" where
  "ipc_arm_timer t timeout k =
     (if sint timeout > 0 then do {
        (_, _, k1) \<leftarrow> rt_timer_control (Thread_timer t) RT_TIMER_CTRL_SET_TIME timeout k;
        (_, k2) \<leftarrow> rt_timer_start (Thread_timer t) k1;
        Some k2 }
      else Some k)"

definition ipc_block :: "list_head \<Rightarrow> tid \<Rightarrow> 8 word \<Rightarrow> 32 word \<Rightarrow> kernel \<Rightarrow> kernel option" where
  "ipc_block h t flag timeout k = do {
     (_, k1) \<leftarrow> ipc_list_suspend h t flag k;
     k2 \<leftarrow> ipc_arm_timer t timeout k1;
     rt_schedule k2 }"

abbreviation ipc_flag :: "kernel \<Rightarrow> ipc_ref \<Rightarrow> 8 word" where
  "ipc_flag k r \<equiv> obj_flag (objects k (Obj_ipc r))"

definition set_ipc_flag :: "ipc_ref \<Rightarrow> 8 word \<Rightarrow> kernel \<Rightarrow> kernel" where
  "set_ipc_flag r flag = upd_object (Obj_ipc r) (\<lambda>ob. ob\<lparr>obj_flag := flag\<rparr>)"

section \<open>The order of a wait list\<close>

text \<open>Insertion by arrival, and by priority behind the threads that are at least as urgent.\<close>

definition wait_insert :: "8 word \<Rightarrow> (tid \<Rightarrow> 8 word) \<Rightarrow> tid \<Rightarrow> tid list \<Rightarrow> tid list" where
  "wait_insert flag prio t ts =
     (if flag = RT_IPC_FLAG_FIFO then ts @ [t]
      else takeWhile (\<lambda>s. \<not> prio t < prio s) ts @ t # dropWhile (\<lambda>s. \<not> prio t < prio s) ts)"

lemma set_wait_insert [simp]: "set (wait_insert flag prio t ts) = insert t (set ts)"
proof -
  have "set ts = set (takeWhile (\<lambda>s. \<not> prio t < prio s) ts) \<union> set (dropWhile (\<lambda>s. \<not> prio t < prio s) ts)"
    by (metis set_append takeWhile_dropWhile_id)
  then show ?thesis by (auto simp: wait_insert_def)
qed

lemma length_wait_insert [simp]: "length (wait_insert flag prio t ts) = Suc (length ts)"
proof -
  have "length (takeWhile P ts) + length (dropWhile P ts) = length ts" for P
    by (metis length_append takeWhile_dropWhile_id)
  then show ?thesis by (simp add: wait_insert_def)
qed

lemma wait_insert_sorted:
  assumes "sorted (map prio ts)"
  shows "sorted (map prio (wait_insert RT_IPC_FLAG_PRIO prio t ts))"
proof -
  let ?P = "\<lambda>s. \<not> prio t < prio s"
  have "takeWhile ?P ts @ dropWhile ?P ts = ts" by (rule takeWhile_dropWhile_id)
  with assms have s: "sorted (map prio (takeWhile ?P ts) @ map prio (dropWhile ?P ts))"
    by (simp flip: map_append)
  have lo: "prio x \<le> prio t" if "x \<in> set (takeWhile ?P ts)" for x
    using set_takeWhileD [OF that] by (simp add: not_less)
  have hi: "prio t \<le> prio x" if "x \<in> set (dropWhile ?P ts)" for x
  proof (cases "dropWhile ?P ts")
    case Nil
    show ?thesis using that unfolding Nil by simp
  next
    case (Cons y ys)
    then have "prio t < prio y" by (metis dropWhile_eq_Cons_conv)
    moreover have "prio y \<le> prio x" using s Cons that by (auto simp: sorted_append)
    ultimately show ?thesis by simp
  qed
  show ?thesis using s lo hi by (auto simp: wait_insert_def sorted_append)
qed

lemma find_split:
  "List.find Q ts = Some s \<Longrightarrow>
   insert_in_front_of s t ts = takeWhile (\<lambda>x. \<not> Q x) ts @ t # dropWhile (\<lambda>x. \<not> Q x) ts \<and>
   s \<in> set ts \<and> Q s"
proof (induction ts)
  case (Cons x xs)
  then show ?case by (cases "Q x") auto
qed simp

lemma find_None_split:
  "List.find Q ts = None \<Longrightarrow> takeWhile (\<lambda>x. \<not> Q x) ts = ts \<and> dropWhile (\<lambda>x. \<not> Q x) ts = []"
  by (induction ts) (auto split: if_splits)

lemma ipc_list_insert_spec:
  assumes ins: "ipc_list_insert h t flag k = Some k'" and wf: "wf_queues (tlists k)"
    and free: "\<not> linked t (tlists k)"
  shows "\<exists>g. k' = upd_tlists g k \<and> wf_queues (g (tlists k)) \<and>
    g (tlists k) = (tlists k)(h := wait_insert flag (tprio k) t (tlists k h))"
proof -
  consider (fifo) "flag = RT_IPC_FLAG_FIFO" | (last) "flag = RT_IPC_FLAG_PRIO"
      "List.find (\<lambda>s. tprio k t < tprio k s) (tlists k h) = None"
    | (mid) s where "flag = RT_IPC_FLAG_PRIO"
      "List.find (\<lambda>s. tprio k t < tprio k s) (tlists k h) = Some s"
    using ins by (auto simp: ipc_list_insert_def split: if_splits option.splits)
  then show ?thesis
  proof cases
    case fifo
    then show ?thesis
      using ins wf_push_back [OF wf free, of h]
      by (intro exI [of _ "push_back h t"]) (simp add: ipc_list_insert_def push_back_def wait_insert_def)
  next
    case last
    then show ?thesis
      using ins wf_push_back [OF wf free, of h] find_None_split [OF last(2)]
      by (intro exI [of _ "push_back h t"])
        (simp add: ipc_list_insert_def push_back_def wait_insert_def
          del: takeWhile_eq_all_conv dropWhile_eq_Nil_conv)
  next
    case (mid s)
    note f = find_split [OF mid(2), of t]
    have "insert_in_front_of s t (tlists k h') = tlists k h'" if "h' \<noteq> h" for h'
      using wf_queues_unique [OF wf, of s h h'] f that by (intro insert_in_front_of_notin) blast
    with f mid have "push_before s t (tlists k) =
        (tlists k)(h := wait_insert flag (tprio k) t (tlists k h))"
      by (auto simp: push_before_def wait_insert_def fun_eq_iff)
    then show ?thesis
      using ins mid wf_push_before [OF wf free, of s]
      by (intro exI [of _ "push_before s t"]) (simp add: ipc_list_insert_def)
  qed
qed

section \<open>Blocking\<close>

text \<open>Thread timers are one-shot hard timers: \<^verbatim>\<open>_thread_init\<close> makes them so and no routine of the
  kernel changes them.\<close>

definition thread_timers_hard :: "kernel \<Rightarrow> bool" where
  "thread_timers_hard k \<longleftrightarrow> (\<forall>t. timer_flag k (Thread_timer t) AND RT_TIMER_FLAG_SOFT_TIMER = 0)"

lemma rt_timer_control_flag:
  "rt_timer_control tm RT_TIMER_CTRL_SET_TIME a k = Some (e, a', k') \<Longrightarrow> objects k' = objects k"
  by (auto simp: rt_timer_control_def)

lemma ipc_arm_timer_same:
  assumes "ipc_arm_timer t timeout k = Some k'" "timer_flag k (Thread_timer t) AND 4 = 0"
  shows "same_but_timers k k'"
proof (cases "sint timeout > 0")
  case True
  then obtain e a k1 e2 where k1:
    "rt_timer_control (Thread_timer t) RT_TIMER_CTRL_SET_TIME timeout k = Some (e, a, k1)"
    "rt_timer_start (Thread_timer t) k1 = Some (e2, k')"
    using assms(1) by (auto simp: ipc_arm_timer_def bind_eq_Some_conv)
  have "k' = timer_armed (Thread_timer t) k1"
    using rt_timer_start_hard(2) [OF k1(2)] assms(2) rt_timer_control_flag [OF k1(1)] by simp
  then show ?thesis
    using same_but_timers_trans [OF rt_timer_control_same [OF k1(1)] timer_armed_same] by simp
qed (use assms(1) in \<open>simp add: ipc_arm_timer_def\<close>)

lemma ipc_arm_timer_flag:
  assumes "ipc_arm_timer t timeout k = Some k'" "timer_flag k (Thread_timer t) AND 4 = 0"
  shows "timer_flag k' u AND 4 = timer_flag k u AND 4"
proof (cases "sint timeout > 0")
  case True
  then obtain e a k1 e2 where k1:
    "rt_timer_control (Thread_timer t) RT_TIMER_CTRL_SET_TIME timeout k = Some (e, a, k1)"
    "rt_timer_start (Thread_timer t) k1 = Some (e2, k')"
    using assms(1) by (auto simp: ipc_arm_timer_def bind_eq_Some_conv)
  note same = rt_timer_control_flag [OF k1(1)]
  have "k' = timer_armed (Thread_timer t) k1"
    using rt_timer_start_hard(2) [OF k1(2)] assms(2) same by simp
  then show ?thesis
    using same by (cases "u = Thread_timer t") (simp_all add: timer_armed_def Let_def)
qed (use assms(1) in \<open>simp add: ipc_arm_timer_def\<close>)

lemma rt_timer_stop_flag:
  "rt_timer_stop tm k = Some (e, k') \<Longrightarrow> timer_flag k' u AND 4 = timer_flag k u AND 4"
  by (auto simp: rt_timer_stop_def split: if_splits)

lemma rt_thread_suspend_flag:
  "rt_thread_suspend t k = Some (e, k') \<Longrightarrow> timer_flag k' u AND 4 = timer_flag k u AND 4"
  by (auto simp: rt_thread_suspend_def Let_def bind_eq_Some_conv split: if_splits
      dest: rt_timer_stop_flag [where u = u])

lemma rt_thread_resume_flag:
  "rt_thread_resume t k = Some (e, k') \<Longrightarrow> timer_flag k' u AND 4 = timer_flag k u AND 4"
  by (auto simp: rt_thread_resume_def Let_def bind_eq_Some_conv split: if_splits
      dest: rt_timer_stop_flag [where u = u])

text \<open>What a blocking operation does to the thread that calls it.\<close>

lemma ipc_list_suspend_spec:
  assumes sus: "ipc_list_suspend h t flag k = Some (e, k')" and inv: "sched_inv k"
    and run: "tstat k t = RT_THREAD_RUNNING" and h: "h = Suspend r \<or> h = Sender r"
  shows "sched_inv k'" "tstat k' t = RT_THREAD_SUSPEND" "kframe k k'"
    "rt_current_thread k = Some t" "rt_current_thread k' = Some t"
    "tlists k' = (tlists k)(h := wait_insert flag (tprio k) t (tlists k h))"
    "\<And>u. u \<noteq> t \<Longrightarrow> threads k' u = threads k u"
    "\<And>u. timer_flag k' u AND 4 = timer_flag k u AND 4"
proof -
  from sus obtain e1 k1 where k1: "rt_thread_suspend t k = Some (e1, k1)"
    and k2: "ipc_list_insert h t flag k1 = Some k'"
    by (auto simp: ipc_list_suspend_def bind_eq_Some_conv)
  note st = rt_thread_suspend_current [OF k1 run]
  have inv1: "sched_inv k1" using sched_inv_suspend [OF k1 inv] .
  have lists: "tlists k1 = tlists k"
    using st(4) unlinked_state [OF inv, of t] run by (simp add: unlink_unlinked)
  have free: "\<not> linked t (tlists k1)" using unlinked_state [OF inv, of t] run lists by simp
  have wf: "wf_queues (tlists k1)" using sched_inv_exceptD(1) [OF sched_invD [OF inv1]] .
  obtain g where g: "k' = upd_tlists g k1" "wf_queues (g (tlists k1))"
    "g (tlists k1) = (tlists k1)(h := wait_insert flag (tprio k1) t (tlists k1 h))"
    using ipc_list_insert_spec [OF k2 wf free] by blast
  have prio: "tprio k1 = tprio k" using kframe_thread(2) [OF st(6)] by auto
  have "sched_inv_except {} (upd_tlists g k1)"
  proof (rule sched_inv_link [where g = g, OF sched_invD [OF inv1] g(2)])
    show "g (tlists k1) (Ready p) = tlists k1 (Ready p)" for p using g(3) h by auto
    show "at_home (threads k1 u) h'" if "u \<in> set (g (tlists k1) h')" "u \<notin> set (tlists k1 h')" for h' u
    proof -
      have "u = t \<and> h' = h" using that g(3) by (cases "h' = h") auto
      then show ?thesis using st(3) h by (auto simp: at_home_def)
    qed
  qed
  then show "sched_inv k'" by (simp add: sched_inv_def g(1))
  show "tstat k' t = RT_THREAD_SUSPEND" "rt_current_thread k = Some t"
    "rt_current_thread k' = Some t" using st by (simp_all add: g(1))
  show "kframe k k'" unfolding g(1) by (rule kframe_trans [OF st(6) kframe_tlists])
  have "tlists k' = g (tlists k1)" by (simp add: g(1))
  also have "\<dots> = (tlists k)(h := wait_insert flag (tprio k) t (tlists k h))"
    using g(3) unfolding lists prio .
  finally show "tlists k' = (tlists k)(h := wait_insert flag (tprio k) t (tlists k h))" .
  show "u \<noteq> t \<Longrightarrow> threads k' u = threads k u" for u using st(7) by (simp add: g(1))
  show "timer_flag k' u AND 4 = timer_flag k u AND 4" for u
    using rt_thread_suspend_flag [OF k1, of u] by (simp add: g(1) upd_tlists_def)
qed

lemma ipc_block_spec:
  assumes bl: "ipc_block h t flag timeout k = Some k'" and inv: "sched_inv k"
    and run: "tstat k t = RT_THREAD_RUNNING" and h: "h = Suspend r \<or> h = Sender r"
    and hard: "thread_timers_hard k"
  shows "sched_inv k'" "tstat k' t = RT_THREAD_SUSPEND" "kframe k k'"
    "\<And>h'. \<forall>p. h' \<noteq> Ready p \<Longrightarrow>
       tlists k' h' = (if h' = h then wait_insert flag (tprio k) t (tlists k h) else tlists k h')"
    "\<exists>c. rt_current_thread k' = Some c" "thread_timers_hard k'"
proof -
  from bl obtain e1 k1 k2 where k1: "ipc_list_suspend h t flag k = Some (e1, k1)"
    and k2: "ipc_arm_timer t timeout k1 = Some k2" and k': "rt_schedule k2 = Some k'"
    by (auto simp: ipc_block_def bind_eq_Some_conv)
  note s = ipc_list_suspend_spec [OF k1 inv run h]
  have "timer_flag k1 (Thread_timer t) AND 4 = 0"
    using s(8) hard by (simp add: thread_timers_hard_def)
  note same = ipc_arm_timer_same [OF k2 this]
  show "thread_timers_hard k'"
    using hard s(8) ipc_arm_timer_flag [OF k2] same_but_sched_sel(6) [OF rt_schedule_same [OF k']]
      \<open>timer_flag k1 (Thread_timer t) AND 4 = 0\<close>
    by (simp add: thread_timers_hard_def)
  note sel = same_but_timers_sel [OF same]
  have inv2: "sched_inv k2" using s(1) sched_inv_same_timers [OF same] by (simp add: sched_inv_def)
  have cur2: "rt_current_thread k2 = Some t" using s(5) sel(3) by simp
  show "sched_inv k'" "\<exists>c. rt_current_thread k' = Some c"
    using sched_inv_rt_schedule [OF inv2 cur2 k'] by auto
  show "tstat k' t = RT_THREAD_SUSPEND"
    using rt_schedule_states [OF inv2 cur2 k', of t] s(2) sel(1) by simp
  show "kframe k k'"
    using kframe_trans [OF kframe_trans [OF s(3) kframe_timers [OF same]]
      kframe_sched [OF rt_schedule_same [OF k']]] .
  show "tlists k' h' = (if h' = h then wait_insert flag (tprio k) t (tlists k h) else tlists k h')"
    if "\<forall>p. h' \<noteq> Ready p" for h'
    using rt_schedule_wait_lists [OF inv2 cur2 k' that] sel(2) s(6) by simp
qed

section \<open>Waking\<close>

lemma unlink_head:
  assumes wf: "wf_queues L" and h: "L h = t # ts"
  shows "unlink t L h' = (if h' = h then ts else L h')"
proof (cases "h' = h")
  case True
  then show ?thesis using h wf_queues_distinct [OF wf, of h] by (simp add: unlink_def)
next
  case False
  then have "t \<notin> set (L h')" using wf_queues_unique [OF wf, of t h h'] h by auto
  then show ?thesis using False by (simp add: unlink_def)
qed

lemma waiter_suspended:
  assumes "sched_inv k" "t \<in> set (tlists k h)" "h = Suspend r \<or> h = Sender r"
  shows "tstat k t = RT_THREAD_SUSPEND"
  using assms sched_inv_exceptD(3) [of "{}" k t h] by (auto simp: sched_inv_def at_home_def)

lemma ipc_list_resume_spec:
  assumes res: "ipc_list_resume h k = Some (e, k')" and inv: "sched_inv k"
    and h: "h = Suspend r \<or> h = Sender r"
  shows "\<exists>t ts. tlists k h = t # ts \<and> sched_inv k' \<and> kframe k k' \<and>
    rt_current_thread k' = rt_current_thread k \<and>
    tstat k' t \<in> {RT_THREAD_READY, RT_THREAD_RUNNING} \<and>
    (thread_timers_hard k \<longrightarrow> thread_timers_hard k') \<and>
    (\<forall>h'. (\<forall>p. h' \<noteq> Ready p) \<longrightarrow> tlists k' h' = (if h' = h then ts else tlists k h'))"
proof -
  from res obtain t ts e1 where t: "tlists k h = t # ts" and r1: "rt_thread_resume t k = Some (e1, k')"
    by (auto simp: ipc_list_resume_def bind_eq_Some_conv split: list.splits)
  have st: "tstat k t = RT_THREAD_SUSPEND" using waiter_suspended [OF inv, of t h r] t h by simp
  note w = rt_thread_resume_wakes [OF r1 st]
  have wf: "wf_queues (tlists k)" using sched_inv_exceptD(1) [OF sched_invD [OF inv]] .
  note un = unlink_head [OF wf t]
  show ?thesis
    using t w un rt_thread_resume_frame [OF r1] rt_thread_resume_flag [OF r1, of "Thread_timer _"]
      thread_timers_hard_def sched_inv_resume [OF r1 inv] by auto
qed

text \<open>A thread whose object and timer have their types can be resumed.\<close>

definition resumable :: "kernel \<Rightarrow> tid \<Rightarrow> bool" where
  "resumable k t \<longleftrightarrow> rt_object_get_type (Obj_thread t) k = RT_Object_Class_Thread \<and>
     rt_object_get_type (Obj_timer (Thread_timer t)) k = RT_Object_Class_Timer"

lemma rt_thread_resume_defined: "resumable k t \<Longrightarrow> \<exists>e k'. rt_thread_resume t k = Some (e, k')"
  by (cases "tstat k t = RT_THREAD_SUSPEND"; cases "timer_flag k (Thread_timer t) AND 1 = 0")
    (auto simp: resumable_def rt_thread_resume_def rt_timer_stop_def rt_object_get_type_def Let_def)

lemma rt_thread_resume_types:
  "rt_thread_resume t k = Some (e, k') \<Longrightarrow> rt_object_get_type r k' = rt_object_get_type r k"
  by (auto simp: rt_thread_resume_def Let_def bind_eq_Some_conv rt_object_get_type_def
      split: if_splits dest: rt_timer_stop_types [where r = r, unfolded rt_object_get_type_def])

text \<open>Waking all waiters ends, with every one of them runnable and holding the error.\<close>

lemma ipc_list_resume_all_spec:
  assumes "sched_inv k" and h: "h = Suspend r \<or> h = Sender r"
    and "\<And>t. t \<in> set (tlists k h) \<Longrightarrow> resumable k t"
  shows "\<exists>k'. ipc_list_resume_all h k = Some (RT_EOK, k') \<and> sched_inv k' \<and>
    rt_current_thread k' = rt_current_thread k \<and>
    (\<forall>h'. (\<forall>p. h' \<noteq> Ready p) \<longrightarrow> tlists k' h' = (if h' = h then [] else tlists k h')) \<and>
    (\<forall>t \<in> set (tlists k h). tstat k' t \<in> {RT_THREAD_READY, RT_THREAD_RUNNING} \<and>
       thread_error (threads k' t) = - RT_ERROR) \<and>
    (\<forall>t. t \<notin> set (tlists k h) \<longrightarrow> threads k' t = threads k t) \<and>
    sems k' = sems k \<and> mutexes k' = mutexes k \<and> events k' = events k \<and>
    mailboxes k' = mailboxes k \<and> msgqueues k' = msgqueues k \<and> mempools k' = mempools k \<and>
    (thread_timers_hard k \<longrightarrow> thread_timers_hard k')"
  using assms(1,3)
proof (induction "tlists k h" arbitrary: k)
  case Nil
  then show ?case by (subst ipc_list_resume_all.simps) (auto split: list.splits)
next
  case (Cons t ts)
  note eq = Cons.hyps(2) [symmetric]
  let ?k1 = "upd_thread t (\<lambda>r. r\<lparr>thread_error := - RT_ERROR\<rparr>) k"
  have inv1: "sched_inv ?k1" using Cons.prems(1) by (simp add: sched_inv_def)
  have st: "tstat k t = RT_THREAD_SUSPEND"
    using waiter_suspended [OF Cons.prems(1) _ h, of t] eq by simp
  have "resumable ?k1 t" using Cons.prems(2) [of t] eq by (simp add: resumable_def rt_object_get_type_def)
  then obtain e2 k2 where k2: "rt_thread_resume t ?k1 = Some (e2, k2)"
    using rt_thread_resume_defined by blast
  note fr = rt_thread_resume_frame [OF k2]
  have w: "tstat k2 t \<in> {RT_THREAD_READY, RT_THREAD_RUNNING}"
    "\<And>h'. \<forall>p. h' \<noteq> Ready p \<Longrightarrow> tlists k2 h' = unlink t (tlists k) h'"
    using rt_thread_resume_wakes [OF k2] st by auto
  have wf: "wf_queues (tlists k)" using sched_inv_exceptD(1) [OF sched_invD [OF Cons.prems(1)]] .
  have ts: "t \<notin> set ts" using wf_queues_distinct [OF wf, of h] eq by simp
  note un = unlink_head [OF wf eq]
  have l2: "tlists k2 h = ts" using w(2) [of h] h un by auto
  have res: "resumable k2 u" if "u \<in> set (tlists k2 h)" for u
    using that Cons.prems(2) [of u] eq l2 rt_thread_resume_types [OF k2]
    by (simp add: resumable_def rt_object_get_type_def)
  from Cons.hyps(1) [OF l2 [symmetric] sched_inv_resume [OF k2 inv1] res] obtain k' where k':
    "ipc_list_resume_all h k2 = Some (RT_EOK, k')" "sched_inv k'"
    "rt_current_thread k' = rt_current_thread k2"
    "\<forall>h'. (\<forall>p. h' \<noteq> Ready p) \<longrightarrow> tlists k' h' = (if h' = h then [] else tlists k2 h')"
    "\<forall>t \<in> set (tlists k2 h). tstat k' t \<in> {RT_THREAD_READY, RT_THREAD_RUNNING} \<and>
       thread_error (threads k' t) = - RT_ERROR"
    "\<forall>t. t \<notin> set (tlists k2 h) \<longrightarrow> threads k' t = threads k2 t"
    and same: "sems k' = sems k2" "mutexes k' = mutexes k2" "events k' = events k2"
      "mailboxes k' = mailboxes k2" "msgqueues k' = msgqueues k2" "mempools k' = mempools k2"
    and hard: "thread_timers_hard k2 \<longrightarrow> thread_timers_hard k'"
    by blast
  have hard2: "thread_timers_hard k \<longrightarrow> thread_timers_hard k'"
    using hard rt_thread_resume_flag [OF k2, of "Thread_timer _"]
    by (simp add: thread_timers_hard_def)
  have same2: "sems k' = sems k" "mutexes k' = mutexes k" "events k' = events k"
      "mailboxes k' = mailboxes k" "msgqueues k' = msgqueues k" "mempools k' = mempools k"
    using same kframe_sel [OF fr(1)] by simp_all
  have "ipc_list_resume_all h k = Some (RT_EOK, k')"
    by (subst ipc_list_resume_all.simps) (simp add: eq k2 k'(1))
  moreover have "thread_error (threads k2 t) = - RT_ERROR"
    using kframe_thread(1) [OF fr(1), of t] by simp
  moreover have "threads k' u = threads k u" if "u \<notin> set (tlists k h)" for u
    using that k'(6) l2 eq fr(3) [of u] by simp
  ultimately show ?case
    using k'(2-6) l2 eq ts w un fr(2) hard2 same2 by (intro exI [of _ k']) auto
qed

section \<open>Blocking and waking return\<close>

text \<open>The started threads have intact stacks, and thread and timer objects of the right type.\<close>

definition live :: "kernel \<Rightarrow> tid \<Rightarrow> bool" where
  "live k t \<longleftrightarrow> tstat k t \<in> {RT_THREAD_READY, RT_THREAD_SUSPEND, RT_THREAD_RUNNING}"

definition live_ok :: "kernel \<Rightarrow> bool" where
  "live_ok k \<longleftrightarrow> (\<forall>t. live k t \<longrightarrow> stack_ok (threads k t) \<and> resumable k t)"

text \<open>The invariant of a running system.\<close>

definition kready :: "kernel \<Rightarrow> bool" where
  "kready k \<longleftrightarrow> sched_inv k \<and> thread_timers_hard k \<and> live_ok k"

lemma rt_schedule_returns:
  assumes "sched_inv k" "rt_current_thread k = Some c" "live_ok k"
  shows "\<exists>k'. rt_schedule k = Some k'"
  using assms by (intro rt_schedule_defined) (auto simp: live_ok_def live_def)

lemma live_ok_mono:
  assumes "live_ok k" "kframe k k'" "\<And>t. live k' t \<Longrightarrow> live k t"
    and "\<And>r. rt_object_get_type r k' = rt_object_get_type r k"
  shows "live_ok k'"
  using assms kframe_thread(6) [OF assms(2)] by (simp add: live_ok_def resumable_def)

lemma live_ok_cong:
  assumes "objects k' = objects k" "\<And>t. tstat k' t = tstat k t"
    "\<And>t. stack_ok (threads k' t) = stack_ok (threads k t)"
  shows "live_ok k' = live_ok k"
  by (simp add: live_ok_def live_def resumable_def rt_object_get_type_def assms)

lemma live_schedule:
  assumes "sched_inv k" "rt_current_thread k = Some c" "rt_schedule k = Some k'"
  shows "live k' t = live k t"
  using rt_schedule_states [OF assms, of t] by (auto simp: live_def)

lemma live_ok_schedule:
  assumes "sched_inv k" "rt_current_thread k = Some c" "rt_schedule k = Some k'" "live_ok k"
  shows "live_ok k'"
proof (rule live_ok_mono [OF assms(4)])
  show "kframe k k'" by (rule kframe_sched [OF rt_schedule_same [OF assms(3)]])
  show "rt_object_get_type r k' = rt_object_get_type r k" for r
    using same_but_sched_sel(6) [OF rt_schedule_same [OF assms(3)]]
    by (simp add: rt_object_get_type_def)
qed (simp add: live_schedule [OF assms(1-3)])

lemma kready_schedule:
  assumes "rt_schedule k = Some k'" "kready k" "rt_current_thread k = Some c"
  shows "kready k'"
  using assms sched_inv_rt_schedule(1) live_ok_schedule
    same_but_sched_sel(6) [OF rt_schedule_same [OF assms(1)]]
  by (auto simp: kready_def thread_timers_hard_def)

lemma live_ok_resume:
  assumes "rt_thread_resume t k = Some (e, k')" "live_ok k"
  shows "live_ok k'"
proof (rule live_ok_mono [OF assms(2) rt_thread_resume_frame(1) [OF assms(1)]])
  show "rt_object_get_type r k' = rt_object_get_type r k" for r
    using rt_thread_resume_types [OF assms(1)] .
  show "live k u" if "live k' u" for u
    using assms(1)
  proof (cases rule: rt_thread_resume_cases)
    case fail
    then show ?thesis using that by simp
  next
    case (wake k1)
    then show ?thesis
      using that rt_thread_resume_frame(3) [OF assms(1), of u] by (cases "u = t") (auto simp: live_def)
  qed
qed

lemma rt_timer_stop_defined:
  "rt_object_get_type (Obj_timer tm) k = RT_Object_Class_Timer \<Longrightarrow> \<exists>e k'. rt_timer_stop tm k = Some (e, k')"
  by (simp add: rt_timer_stop_def)

lemma ipc_arm_timer_defined:
  assumes "rt_object_get_type (Obj_timer (Thread_timer t)) k = RT_Object_Class_Timer"
    and "sint timeout \<le> 0 \<or> timeout < RT_TICK_HALF"
    and "timer_flag k (Thread_timer t) AND 4 = 0"
  shows "\<exists>k'. ipc_arm_timer t timeout k = Some k'"
proof (cases "sint timeout > 0")
  case True
  then have "timeout < RT_TICK_HALF" using assms(2) by simp
  then show ?thesis
    using True assms(1,3)
    by (simp add: ipc_arm_timer_def rt_timer_control_def rt_timer_start_eq rt_object_get_type_def)
qed (simp add: ipc_arm_timer_def)

lemma rt_timer_control_types:
  "rt_timer_control tm RT_TIMER_CTRL_SET_TIME a k = Some (e, a', k') \<Longrightarrow>
   rt_object_get_type r k' = rt_object_get_type r k"
  by (auto simp: rt_timer_control_def rt_object_get_type_def)

lemma ipc_arm_timer_types:
  assumes "ipc_arm_timer t timeout k = Some k'" "timer_flag k (Thread_timer t) AND 4 = 0"
  shows "rt_object_get_type r k' = rt_object_get_type r k"
proof (cases "sint timeout > 0")
  case True
  then obtain e a k1 e2 where k1:
    "rt_timer_control (Thread_timer t) RT_TIMER_CTRL_SET_TIME timeout k = Some (e, a, k1)"
    "rt_timer_start (Thread_timer t) k1 = Some (e2, k')"
    using assms(1) by (auto simp: ipc_arm_timer_def bind_eq_Some_conv)
  have "k' = timer_armed (Thread_timer t) k1"
    using rt_timer_start_hard(2) [OF k1(2)] assms(2) rt_timer_control_flag [OF k1(1)] by simp
  then show ?thesis
    using rt_timer_control_types [OF k1(1), of r] by (simp add: rt_object_get_type_def timer_armed_rows(4))
qed (use assms(1) in \<open>simp add: ipc_arm_timer_def\<close>)

lemma ipc_list_suspend_types:
  "ipc_list_suspend h t flag k = Some (e, k') \<Longrightarrow> rt_object_get_type r k' = rt_object_get_type r k"
  by (auto simp: ipc_list_suspend_def ipc_list_insert_def rt_thread_suspend_def Let_def
      bind_eq_Some_conv rt_object_get_type_def split: if_splits option.splits
      dest!: rt_timer_stop_types [where r = r, unfolded rt_object_get_type_def])

lemma ipc_list_suspend_defined:
  assumes run: "tstat k t = RT_THREAD_RUNNING" "rt_current_thread k = Some t"
    and res: "resumable k t" and flag: "flag = RT_IPC_FLAG_FIFO \<or> flag = RT_IPC_FLAG_PRIO"
  shows "\<exists>k'. ipc_list_suspend h t flag k = Some (RT_EOK, k')"
proof -
  let ?k2 = "upd_thread t (\<lambda>r. r\<lparr>stat := set_stat RT_THREAD_SUSPEND (stat r)\<rparr>)
      (rt_schedule_remove_thread t k)"
  have "rt_object_get_type (Obj_timer (Thread_timer t)) ?k2 = RT_Object_Class_Timer"
    using res by (simp add: resumable_def rt_object_get_type_def)
  then obtain e3 k3 where k3: "rt_timer_stop (Thread_timer t) ?k2 = Some (e3, k3)"
    using rt_timer_stop_defined by blast
  have sus: "rt_thread_suspend t k = Some (RT_EOK, k3)"
    using k3 run res by (simp add: rt_thread_suspend_def rt_thread_self_def resumable_def Let_def)
  obtain k4 where "ipc_list_insert h t flag k3 = Some k4"
    using flag by (cases "List.find (\<lambda>s. tprio k3 t < tprio k3 s) (tlists k3 h)")
      (auto simp: ipc_list_insert_def)
  then show ?thesis by (simp add: ipc_list_suspend_def sus)
qed

lemma rt_thread_suspend_defined:
  assumes "tstat k t = RT_THREAD_RUNNING" "rt_current_thread k = Some t" "resumable k t"
  shows "\<exists>e k'. rt_thread_suspend t k = Some (e, k')"
  using ipc_list_suspend_defined [OF assms, of RT_IPC_FLAG_FIFO Defunct]
  by (auto simp: ipc_list_suspend_def bind_eq_Some_conv)

lemma ipc_block_ready:
  assumes rdy: "kready k" and run: "tstat k t = RT_THREAD_RUNNING" "rt_current_thread k = Some t"
    and flag: "flag = RT_IPC_FLAG_FIFO \<or> flag = RT_IPC_FLAG_PRIO"
    and time: "sint timeout \<le> 0 \<or> timeout < RT_TICK_HALF" and h: "h = Suspend r \<or> h = Sender r"
  shows "\<exists>k'. ipc_block h t flag timeout k = Some k' \<and> kready k' \<and>
    (\<exists>d. rt_current_thread k' = Some d) \<and>
    (\<forall>q. rt_object_get_type q k' = rt_object_get_type q k)"
proof -
  have inv: "sched_inv k" and hard: "thread_timers_hard k" and lok: "live_ok k"
    using rdy by (auto simp: kready_def)
  have res: "resumable k t" using lok run by (simp add: live_ok_def live_def)
  obtain k4 where ls: "ipc_list_suspend h t flag k = Some (RT_EOK, k4)"
    using ipc_list_suspend_defined [OF run res flag] by blast
  note s = ipc_list_suspend_spec [OF ls inv run(1) h]
  have ty: "rt_object_get_type (Obj_timer (Thread_timer t)) k4 = RT_Object_Class_Timer"
    using ipc_list_suspend_types [OF ls] res by (simp add: resumable_def)
  have fl: "timer_flag k4 (Thread_timer t) AND 4 = 0"
    using s(8) hard by (simp add: thread_timers_hard_def)
  obtain k5 where k5: "ipc_arm_timer t timeout k4 = Some k5"
    using ipc_arm_timer_defined [OF ty time fl] by blast
  note same = ipc_arm_timer_same [OF k5 fl]
  note sel = same_but_timers_sel [OF same]
  have lok5: "live_ok k5"
  proof (rule live_ok_mono [OF lok kframe_trans [OF s(3) kframe_timers [OF same]]])
    show "live k u" if "live k5 u" for u
      using that sel(1) s(7) [of u] run by (cases "u = t") (auto simp: live_def)
    show "rt_object_get_type q k5 = rt_object_get_type q k" for q
      using ipc_arm_timer_types [OF k5 fl] ipc_list_suspend_types [OF ls] by simp
  qed
  have inv5: "sched_inv k5"
    using s(1) sched_inv_same_timers [OF same] by (simp add: sched_inv_def)
  have cur5: "rt_current_thread k5 = Some t" using s(5) sel(3) by simp
  obtain k6 where k6: "rt_schedule k5 = Some k6" using rt_schedule_returns [OF inv5 cur5 lok5] by blast
  then have bl: "ipc_block h t flag timeout k = Some k6" by (simp add: ipc_block_def ls k5)
  have "kready k6"
    using ipc_block_spec(1,6) [OF bl inv run(1) h hard] live_ok_schedule [OF inv5 cur5 k6 lok5]
    by (simp add: kready_def)
  moreover have "rt_object_get_type q k6 = rt_object_get_type q k" for q
    using ipc_arm_timer_types [OF k5 fl] ipc_list_suspend_types [OF ls]
      same_but_sched_sel(6) [OF rt_schedule_same [OF k6]] by (simp add: rt_object_get_type_def)
  ultimately show ?thesis using bl sched_inv_rt_schedule(2) [OF inv5 cur5 k6] by blast
qed

lemma kready_resume:
  assumes "rt_thread_resume t k = Some (e, k')" "kready k"
  shows "kready k'"
  using assms sched_inv_resume [OF assms(1)] live_ok_resume [OF assms(1)]
    rt_thread_resume_flag [OF assms(1), of "Thread_timer _"]
  by (simp add: kready_def thread_timers_hard_def)

lemma ipc_list_resume_ready:
  assumes rdy: "kready k" and h: "h = Suspend r \<or> h = Sender r" and ne: "tlists k h = t # ts"
  shows "\<exists>k'. ipc_list_resume h k = Some (RT_EOK, k') \<and> kready k'"
proof -
  have inv: "sched_inv k" and lok: "live_ok k" using rdy by (auto simp: kready_def)
  have "tstat k t = RT_THREAD_SUSPEND" using waiter_suspended [OF inv _ h, of t] ne by simp
  then have "resumable k t" using lok by (simp add: live_ok_def live_def)
  then obtain e k' where k': "rt_thread_resume t k = Some (e, k')"
    using rt_thread_resume_defined by blast
  then have res: "ipc_list_resume h k = Some (RT_EOK, k')" by (simp add: ipc_list_resume_def ne)
  with kready_resume [OF k' rdy] show ?thesis by blast
qed

text \<open>The example state of theory \<open>Thread_Props\<close> meets the invariant.\<close>

lemma three_threads_types:
  "resumable three_threads t"
  "rt_object_get_type (Obj_ipc (Sem n)) three_threads = RT_Object_Class_Semaphore"
  "rt_object_get_type (Obj_ipc (Mutex n)) three_threads = RT_Object_Class_Mutex"
  "rt_object_get_type (Obj_ipc (Event n)) three_threads = RT_Object_Class_Event"
  "rt_object_get_type (Obj_ipc (Mailbox n)) three_threads = RT_Object_Class_MailBox"
  "rt_object_get_type (Obj_ipc (Msgqueue n)) three_threads = RT_Object_Class_MessageQueue"
  "ipc_flag three_threads r = RT_IPC_FLAG_FIFO"
  by (simp_all add: demo_objects_def resumable_def rt_object_get_type_def)

lemma kready_three_threads: "kready three_threads"
  using three_threads_types(1)
  by (auto simp: kready_def sched_inv_three_threads live_ok_def live_def thread_timers_hard_def
      demo_objects_def)

section \<open>The kernel invariant and the calling context\<close>

definition kinv :: "kernel \<Rightarrow> bool" where
  "kinv k \<longleftrightarrow> sched_inv k \<and> thread_timers_hard k"

definition running :: "tid \<Rightarrow> kernel \<Rightarrow> bool" where
  "running c k \<longleftrightarrow> rt_current_thread k = Some c \<and> tstat k c = RT_THREAD_RUNNING"

lemma kinv_error [simp]: "kinv (upd_thread t (\<lambda>r. r\<lparr>thread_error := e\<rparr>) k) = kinv k"
  by (simp add: kinv_def sched_inv_def thread_timers_hard_def)

lemma hard_schedule: "rt_schedule k = Some k' \<Longrightarrow> thread_timers_hard k' = thread_timers_hard k"
  by (simp add: thread_timers_hard_def same_but_sched_sel(6) [OF rt_schedule_same])

lemma kinv_schedule:
  assumes "rt_schedule k = Some k'" "kinv k" "rt_current_thread k = Some c"
  shows "kinv k'"
  using assms sched_inv_rt_schedule(1) hard_schedule [OF assms(1)] by (auto simp: kinv_def)

lemma wait_insert_split: "\<exists>xs ys. ts = xs @ ys \<and> wait_insert flag prio t ts = xs @ t # ys"
  unfolding wait_insert_def by (metis append.right_neutral takeWhile_dropWhile_id)

text \<open>A waiter whose time is up leaves the queue.\<close>

lemma thread_timeout_lists:
  assumes to: "thread_timeout t k = Some k'" and inv: "kinv k" and cur: "rt_current_thread k = Some c"
  shows "kinv k'" "sems k' = sems k" "mutexes k' = mutexes k" "mailboxes k' = mailboxes k"
    "\<forall>p. h \<noteq> Ready p \<Longrightarrow> tlists k' h = removeAll t (tlists k h)"
proof -
  let ?k1 = "upd_thread t (\<lambda>r. r\<lparr>thread_error := - RT_ETIMEOUT\<rparr>) k"
  let ?k3 = "rt_schedule_insert_thread t (upd_tlists (unlink t) ?k1)"
  from to have st: "tstat k t = RT_THREAD_SUSPEND" and k': "rt_schedule ?k3 = Some k'"
    by (simp_all add: thread_timeout_def Let_def)
  have "sched_inv ?k1" using inv by (simp add: kinv_def sched_inv_def)
  then have inv3: "sched_inv ?k3" by (rule sched_inv_wake) (simp_all add: st)
  have cur3: "rt_current_thread ?k3 = Some c" using cur by simp
  note same = same_but_sched_sel [OF rt_schedule_same [OF k']]
  have "thread_timers_hard ?k3" using inv by (simp add: kinv_def thread_timers_hard_def)
  then show "kinv k'" using kinv_schedule [OF k' _ cur3] inv3 by (simp add: kinv_def)
  show "sems k' = sems k" "mutexes k' = mutexes k" "mailboxes k' = mailboxes k"
    using same(8,9,11) by simp_all
  show "tlists k' h = removeAll t (tlists k h)" if "\<forall>p. h \<noteq> Ready p"
    using rt_schedule_wait_lists [OF inv3 cur3 k' that] that
    by (simp add: insert_thread_tlists push_back_def push_front_def unlink_def)
qed

lemma unat_16_bound: "unat (v :: 16 word) < 2 ^ 16"
  using unsigned_less [where w = v and ?'a = nat] by simp

lemma kready_error [simp]:
  "kready (upd_thread t (\<lambda>r. r\<lparr>thread_error := e\<rparr>) k) = kready k"
proof -
  have "live_ok (upd_thread t (\<lambda>r. r\<lparr>thread_error := e\<rparr>) k) = live_ok k"
    by (rule live_ok_cong) (simp_all add: stack_ok_def)
  then show ?thesis by (simp add: kready_def sched_inv_def thread_timers_hard_def)
qed

definition thread_context :: "tid \<Rightarrow> kernel \<Rightarrow> bool" where
  "thread_context c k \<longleftrightarrow> running c k \<and> rt_critical_level k = 0 \<and> rt_interrupt_nest k = 0"

lemma scheduler_available: "thread_context c k \<Longrightarrow> RT_DEBUG_SCHEDULER_AVAILABLE b k = Some ()"
  by (simp add: thread_context_def RT_DEBUG_SCHEDULER_AVAILABLE_def RT_DEBUG_IN_THREAD_CONTEXT_def
      RT_DEBUG_NOT_IN_INTERRUPT_def rt_interrupt_get_nest_def running_def)

lemma kinv_three_threads: "kinv three_threads"
  using kready_three_threads by (simp add: kinv_def kready_def)

lemma running_three_threads: "running 2 three_threads"
  by (simp add: running_def)

lemma thread_timeout_returns:
  assumes rdy: "kready k" and st: "tstat k t = RT_THREAD_SUSPEND" and cur: "rt_current_thread k = Some c"
  shows "\<exists>k'. thread_timeout t k = Some k'"
proof -
  let ?k1 = "upd_thread t (\<lambda>r. r\<lparr>thread_error := - RT_ETIMEOUT\<rparr>) k"
  let ?k3 = "rt_schedule_insert_thread t (upd_tlists (unlink t) ?k1)"
  have k1: "kready ?k1" using rdy by simp
  then have "sched_inv ?k1" by (simp add: kready_def)
  then have inv3: "sched_inv ?k3" by (rule sched_inv_wake) (simp_all add: st)
  have "live ?k3 u = live k u" for u
    using st by (cases "u = t") (auto simp: live_def insert_thread_threads)
  moreover have "stack_ok (threads ?k3 u) = stack_ok (threads k u)" for u
    by (simp add: insert_thread_threads stack_ok_def)
  ultimately have "live_ok ?k3"
    using rdy by (auto simp: kready_def live_ok_def resumable_def rt_object_get_type_def)
  then obtain k' where "rt_schedule ?k3 = Some k'"
    using rt_schedule_returns [OF inv3, of c] cur by auto
  moreover have "rt_object_get_type (Obj_thread t) k = RT_Object_Class_Thread"
    using rdy st by (auto simp: kready_def live_ok_def live_def resumable_def)
  ultimately show ?thesis using st by (simp add: thread_timeout_def Let_def)
qed

lemma thread_timeout_threads:
  assumes to: "thread_timeout t k = Some k'"
  shows "tprio k' u = tprio k u"
    "thread_error (threads k' u) = (if u = t then - RT_ETIMEOUT else thread_error (threads k u))"
proof -
  let ?k1 = "upd_thread t (\<lambda>r. r\<lparr>thread_error := - RT_ETIMEOUT\<rparr>) k"
  let ?k3 = "rt_schedule_insert_thread t (upd_tlists (unlink t) ?k1)"
  from to have k': "rt_schedule ?k3 = Some k'" by (simp add: thread_timeout_def Let_def)
  show "tprio k' u = tprio k u"
    "thread_error (threads k' u) = (if u = t then - RT_ETIMEOUT else thread_error (threads k u))"
    using same_but_sched_sel(15,16) [OF rt_schedule_same [OF k'], of u]
    by (simp_all add: insert_thread_threads)
qed

lemma kready_upd_thread:
  assumes "\<And>r. stat (f r) = stat r" "\<And>r. current_priority (f r) = current_priority r"
    "\<And>r. number_mask (f r) = number_mask r" "\<And>r. stack_ok (f r) = stack_ok r"
  shows "kready (upd_thread t f k) = kready k"
proof -
  have "live_ok (upd_thread t f k) = live_ok k" by (rule live_ok_cong) (simp_all add: assms)
  moreover have "sched_inv (upd_thread t f k) = sched_inv k"
    unfolding sched_inv_def by (rule sched_inv_except_upd_thread) (simp_all add: assms)
  ultimately show ?thesis by (simp add: kready_def thread_timers_hard_def)
qed

lemma kready_kinv: "kready k \<Longrightarrow> kinv k"
  by (simp add: kready_def kinv_def)

lemma kready_timeout:
  assumes to: "thread_timeout t k = Some k'" and rdy: "kready k" and cur: "rt_current_thread k = Some c"
  shows "kready k'"
proof -
  let ?k3 = "rt_schedule_insert_thread t (upd_tlists (unlink t)
    (upd_thread t (\<lambda>r. r\<lparr>thread_error := - RT_ETIMEOUT\<rparr>) k))"
  from to have st: "tstat k t = RT_THREAD_SUSPEND" and k': "rt_schedule ?k3 = Some k'"
    by (simp_all add: thread_timeout_def Let_def)
  note f = kframe_sched [OF rt_schedule_same [OF k']]
  have "kinv k'" by (rule thread_timeout_lists(1) [OF to kready_kinv [OF rdy] cur])
  moreover have "live_ok k'"
    unfolding live_ok_def
  proof (intro allI impI)
    fix u assume "live k' u"
    moreover have "sched_inv (upd_thread t (\<lambda>r. r\<lparr>thread_error := - RT_ETIMEOUT\<rparr>) k)"
      using rdy by (simp add: kready_def sched_inv_def)
    then have "sched_inv ?k3" by (rule sched_inv_wake) (simp_all add: st)
    ultimately have "live ?k3 u" using live_schedule [OF _ _ k', of c u] cur by simp
    then have "live k u" using st by (cases "u = t") (auto simp: live_def insert_thread_threads)
    then have "stack_ok (threads k u) \<and> resumable k u" using rdy by (simp add: kready_def live_ok_def)
    then show "stack_ok (threads k' u) \<and> resumable k' u"
      using kframe_thread(6) [OF f, of u] same_but_sched_sel(6) [OF rt_schedule_same [OF k']]
      by (cases "u = t") (simp_all add: resumable_def rt_object_get_type_def insert_thread_threads stack_ok_def)
  qed
  ultimately show ?thesis by (simp add: kready_def kinv_def)
qed

lemma kready_resume_all:
  assumes "kready k" and h: "h = Suspend r \<or> h = Sender r"
  shows "\<exists>k'. ipc_list_resume_all h k = Some (RT_EOK, k') \<and> kready k' \<and>
    rt_current_thread k' = rt_current_thread k \<and>
    (\<forall>q. rt_object_get_type q k' = rt_object_get_type q k)"
  using assms(1)
proof (induction "tlists k h" arbitrary: k)
  case Nil
  then show ?case by (subst ipc_list_resume_all.simps) (auto split: list.splits)
next
  case (Cons t ts)
  note eq = Cons.hyps(2) [symmetric]
  let ?k1 = "upd_thread t (\<lambda>r. r\<lparr>thread_error := - RT_ERROR\<rparr>) k"
  have inv: "sched_inv k" using Cons.prems by (simp add: kready_def)
  have st: "tstat k t = RT_THREAD_SUSPEND" using waiter_suspended [OF inv _ h, of t] eq by simp
  then have "resumable ?k1 t"
    using Cons.prems by (auto simp: kready_def live_ok_def live_def resumable_def rt_object_get_type_def)
  then obtain e2 k2 where k2: "rt_thread_resume t ?k1 = Some (e2, k2)"
    using rt_thread_resume_defined by blast
  have "tlists k2 h = unlink t (tlists k) h"
    using rt_thread_resume_wakes(3) [OF k2, of h] st h by auto
  then have "ts = tlists k2 h"
    using unlink_head [OF sched_inv_exceptD(1) [OF sched_invD [OF inv]] eq] by simp
  moreover have "kready k2" using kready_resume [OF k2] Cons.prems by simp
  ultimately obtain k' where k': "ipc_list_resume_all h k2 = Some (RT_EOK, k')" "kready k'"
    "rt_current_thread k' = rt_current_thread k2"
    "\<forall>q. rt_object_get_type q k' = rt_object_get_type q k2"
    using Cons.hyps(1) by blast
  have "ipc_list_resume_all h k = Some (RT_EOK, k')"
    by (subst ipc_list_resume_all.simps) (simp add: eq k2 k'(1))
  then show ?case
    using k' rt_thread_resume_frame(2) [OF k2] rt_thread_resume_types [OF k2]
    by (simp add: rt_object_get_type_def)
qed

end
