(* ===== verification/Ipc_Event.thy ===== *)
theory Ipc_Event
  imports Ipc
begin

text \<open>
  Event sets (\<^verbatim>\<open>src/ipc.c\<close>): sending and receiving bit sets with \<^verbatim>\<open>AND\<close>, \<^verbatim>\<open>OR\<close> and \<^verbatim>\<open>CLEAR\<close>,
  the reference semantics of a delivery, and the invariant that no thread waits for a set that
  has already occurred.
\<close>

section \<open>Operations\<close>

definition upd_event :: "nat \<Rightarrow> (32 word \<Rightarrow> 32 word) \<Rightarrow> kernel \<Rightarrow> kernel" where
  "upd_event n f k = k\<lparr>events := (events k)(n := (events k n)\<lparr>ev_set := f (ev_set (events k n))\<rparr>)\<rparr>"

definition rt_event_init :: "nat \<Rightarrow> string \<Rightarrow> 8 word \<Rightarrow> kernel \<Rightarrow> (int \<times> kernel) option" where
  "rt_event_init n nm flag k = do {
     rt_assert (flag = RT_IPC_FLAG_FIFO \<or> flag = RT_IPC_FLAG_PRIO);
     k1 \<leftarrow> rt_object_init (Obj_ipc (Event n)) RT_Object_Class_Event nm k;
     let k2 = set_ipc_flag (Event n) flag k1;
     let k3 = ipc_object_init (Event n) k2;
     Some (RT_EOK, upd_event n (\<lambda>_. 0) k3) }"

definition rt_event_detach :: "nat \<Rightarrow> kernel \<Rightarrow> (int \<times> kernel) option" where
  "rt_event_detach n k = do {
     rt_assert (rt_object_get_type (Obj_ipc (Event n)) k = RT_Object_Class_Event);
     rt_assert (rt_object_is_systemobject (Obj_ipc (Event n)) k);
     (_, k1) \<leftarrow> ipc_list_resume_all (Suspend (Event n)) k;
     Some (RT_EOK, rt_object_detach (Obj_ipc (Event n)) k1) }"

definition rt_event_create ::
  "string \<Rightarrow> 8 word \<Rightarrow> nat option \<Rightarrow> kernel \<Rightarrow> (nat option \<times> kernel) option" where
  "rt_event_create nm flag mem k = do {
     rt_assert (flag = RT_IPC_FLAG_FIFO \<or> flag = RT_IPC_FLAG_PRIO);
     RT_DEBUG_NOT_IN_INTERRUPT k;
     (_, k1) \<leftarrow> rt_object_allocate RT_Object_Class_Event nm (map_option (Obj_ipc \<circ> Event) mem) k;
     case mem of
       None \<Rightarrow> Some (None, k1)
     | Some n \<Rightarrow>
         let k2 = set_ipc_flag (Event n) flag k1;
             k3 = ipc_object_init (Event n) k2
         in Some (Some n, upd_event n (\<lambda>_. 0) k3) }"

definition rt_event_delete :: "nat \<Rightarrow> kernel \<Rightarrow> (int \<times> kernel) option" where
  "rt_event_delete n k = do {
     rt_assert (rt_object_get_type (Obj_ipc (Event n)) k = RT_Object_Class_Event);
     rt_assert (\<not> rt_object_is_systemobject (Obj_ipc (Event n)) k);
     RT_DEBUG_NOT_IN_INTERRUPT k;
     (_, k1) \<leftarrow> ipc_list_resume_all (Suspend (Event n)) k;
     k2 \<leftarrow> rt_object_delete (Obj_ipc (Event n)) k1;
     Some (RT_EOK, k2) }"

text \<open>The test \<^verbatim>\<open>rt_event_send\<close> makes for one waiting thread: whether it is satisfied, and the thread
  with the events it receives; \<^term>\<open>None\<close> if it asked for neither \<^verbatim>\<open>AND\<close> nor \<^verbatim>\<open>OR\<close>.\<close>

definition event_match :: "rt_thread \<Rightarrow> 32 word \<Rightarrow> (bool \<times> rt_thread) option" where
  "event_match th s =
     (if event_info th AND RT_EVENT_FLAG_AND \<noteq> 0 then
        Some (event_set th AND s = event_set th, th)
      else if event_info th AND RT_EVENT_FLAG_OR \<noteq> 0 then
        (if event_set th AND s \<noteq> 0 then Some (True, th\<lparr>event_set := event_set th AND s\<rparr>)
         else Some (False, th))
      else None)"

text \<open>The loop over the wait list. The loop reads the successor of a node before it resumes the
  thread, and a resume unlinks that thread only, so it visits the threads that wait at the start.
  The result is the error code, \<^verbatim>\<open>need_schedule\<close> and the state.\<close>

fun event_send_loop :: "nat \<Rightarrow> tid list \<Rightarrow> bool \<Rightarrow> kernel \<Rightarrow> (int \<times> bool \<times> kernel) option" where
  "event_send_loop n [] need k = Some (RT_EOK, need, k)"
| "event_send_loop n (t # ts) need k =
     (case event_match (threads k t) (ev_set (events k n)) of
        None \<Rightarrow> Some (- RT_EINVAL, need, k)
      | Some (ok, th) \<Rightarrow>
          let k1 = upd_thread t (\<lambda>_. th) k in
          if ok then do {
            let k2 = (if event_info th AND RT_EVENT_FLAG_CLEAR \<noteq> 0
                      then upd_event n (\<lambda>s. s AND NOT (event_set th)) k1 else k1);
            (_, k3) \<leftarrow> rt_thread_resume t k2;
            event_send_loop n ts True k3 }
          else event_send_loop n ts need k1)"

definition rt_event_send :: "nat \<Rightarrow> 32 word \<Rightarrow> kernel \<Rightarrow> (int \<times> kernel) option" where
  "rt_event_send n evs k = do {
     rt_assert (rt_object_get_type (Obj_ipc (Event n)) k = RT_Object_Class_Event);
     if evs = 0 then Some (- RT_ERROR, k)
     else do {
       let k1 = upd_event n (\<lambda>s. s OR evs) k;
       (e, need, k2) \<leftarrow> event_send_loop n (tlists k1 (Suspend (Event n))) False k1;
       if e \<noteq> RT_EOK then Some (e, k2)
       else if need then do {
         k3 \<leftarrow> rt_schedule k2;
         Some (RT_EOK, k3) }
       else Some (RT_EOK, k2) } }"

text \<open>\<^verbatim>\<open>rt_event_recv\<close> returns the error code and what it stores at \<^verbatim>\<open>recved\<close>; \<open>want\<close> says whether
  that pointer is not null.\<close>

definition rt_event_recv :: "nat \<Rightarrow> 32 word \<Rightarrow> 8 word \<Rightarrow> 32 word \<Rightarrow> bool \<Rightarrow> kernel \<Rightarrow>
    ((int \<times> 32 word option) outcome \<times> kernel) option" where
  "rt_event_recv n evs opt timeout want k = do {
     rt_assert (rt_object_get_type (Obj_ipc (Event n)) k = RT_Object_Class_Event);
     RT_DEBUG_SCHEDULER_AVAILABLE True k;
     if evs = 0 then Some (Return (- RT_ERROR, None), k)
     else do {
       t \<leftarrow> rt_thread_self k;
       let k1 = upd_thread t (\<lambda>r. r\<lparr>thread_error := RT_EOK\<rparr>) k;
       let es = ev_set (events k1 n);
       ok \<leftarrow> (if opt AND RT_EVENT_FLAG_AND \<noteq> 0 then Some (es AND evs = evs)
              else if opt AND RT_EVENT_FLAG_OR \<noteq> 0 then Some (es AND evs \<noteq> 0)
              else None);
       if ok then
         let k2 = upd_thread t (\<lambda>r. r\<lparr>event_set := es AND evs, event_info := opt\<rparr>) k1;
             k3 = (if opt AND RT_EVENT_FLAG_CLEAR \<noteq> 0 then upd_event n (\<lambda>s. s AND NOT evs) k2 else k2)
         in Some (Return (thread_error (threads k3 t), if want then Some (es AND evs) else None), k3)
       else if timeout = 0 then
         Some (Return (- RT_ETIMEOUT, None), upd_thread t (\<lambda>r. r\<lparr>thread_error := - RT_ETIMEOUT\<rparr>) k1)
       else do {
         let k2 = upd_thread t (\<lambda>r. r\<lparr>event_set := evs, event_info := opt\<rparr>) k1;
         k3 \<leftarrow> ipc_block (Suspend (Event n)) t (ipc_flag k2 (Event n)) timeout k2;
         Some (Block, k3) } } }"

definition rt_event_recv_resume :: "tid \<Rightarrow> bool \<Rightarrow> kernel \<Rightarrow> int \<times> 32 word option" where
  "rt_event_recv_resume t want k =
     (if thread_error (threads k t) \<noteq> RT_EOK then (thread_error (threads k t), None)
      else (thread_error (threads k t), if want then Some (event_set (threads k t)) else None))"

text \<open>\<open>reset\<close>: the command is \<^verbatim>\<open>RT_IPC_CMD_RESET\<close>.\<close>

definition rt_event_control :: "nat \<Rightarrow> bool \<Rightarrow> kernel \<Rightarrow> (int \<times> kernel) option" where
  "rt_event_control n reset k = do {
     rt_assert (rt_object_get_type (Obj_ipc (Event n)) k = RT_Object_Class_Event);
     if reset then do {
       (_, k1) \<leftarrow> ipc_list_resume_all (Suspend (Event n)) k;
       let k2 = upd_event n (\<lambda>_. 0) k1;
       k3 \<leftarrow> rt_schedule k2;
       Some (RT_EOK, k3) }
     else Some (- RT_ERROR, k) }"

section \<open>Reference semantics of a delivery\<close>

definition waits_and_or :: "rt_thread \<Rightarrow> bool" where
  "waits_and_or th \<longleftrightarrow> event_info th AND RT_EVENT_FLAG_AND \<noteq> 0 \<or> event_info th AND RT_EVENT_FLAG_OR \<noteq> 0"

definition satisfied :: "rt_thread \<Rightarrow> 32 word \<Rightarrow> bool" where
  "satisfied th s \<longleftrightarrow>
     (if event_info th AND RT_EVENT_FLAG_AND \<noteq> 0 then event_set th AND s = event_set th
      else event_set th AND s \<noteq> 0)"

definition received :: "rt_thread \<Rightarrow> 32 word \<Rightarrow> 32 word" where
  "received th s = event_set th AND s"

text \<open>In the order of the wait list: the threads that are satisfied with the events they receive, the
  threads that go on waiting, and the events left in the set. A thread with \<^verbatim>\<open>CLEAR\<close> takes its
  events away from the threads behind it.\<close>

fun deliver :: "(tid \<Rightarrow> rt_thread) \<Rightarrow> tid list \<Rightarrow> 32 word \<Rightarrow> (tid \<times> 32 word) list \<times> tid list \<times> 32 word" where
  "deliver w [] s = ([], [], s)"
| "deliver w (t # ts) s =
     (if satisfied (w t) s then
        let got = received (w t) s;
            s' = (if event_info (w t) AND RT_EVENT_FLAG_CLEAR \<noteq> 0 then s AND NOT got else s);
            (woken, left, s'') = deliver w ts s'
        in ((t, got) # woken, left, s'')
      else let (woken, left, s'') = deliver w ts s in (woken, t # left, s''))"

lemma deliver_cong:
  "(\<And>t. t \<in> set ts \<Longrightarrow> w t = w' t) \<Longrightarrow> deliver w ts s = deliver w' ts s"
  by (induction ts arbitrary: s) (auto split: prod.splits)

lemma deliver_set:
  "deliver w ts s = (woken, left, s') \<Longrightarrow> set ts = fst ` set woken \<union> set left"
  by (induction ts arbitrary: s woken left s') (auto simp: Let_def split: if_splits prod.splits)

lemma deliver_disjoint:
  "deliver w ts s = (woken, left, s') \<Longrightarrow> distinct ts \<Longrightarrow> fst ` set woken \<inter> set left = {}"
proof (induction ts arbitrary: s woken left s')
  case (Cons t ts)
  let ?s1 = "if event_info (w t) AND RT_EVENT_FLAG_CLEAR \<noteq> 0 then s AND NOT (received (w t) s) else s"
  obtain wk lf where d: "deliver w ts (if satisfied (w t) s then ?s1 else s) = (wk, lf, s')"
    and eq: "woken = (if satisfied (w t) s then (t, received (w t) s) # wk else wk)"
      "left = (if satisfied (w t) s then lf else t # lf)"
    using Cons.prems(1) by (auto simp: Let_def split: if_splits prod.splits)
  have "fst ` set wk \<inter> set lf = {}" using Cons.IH [OF d] Cons.prems(2) by simp
  moreover have "t \<notin> fst ` set wk \<union> set lf" using deliver_set [OF d] Cons.prems(2) by auto
  ultimately show ?case by (simp add: eq)
qed simp

lemma and_subset: "(a::32 word) AND b = a \<Longrightarrow> b AND c = b \<Longrightarrow> a AND c = a"
  by (metis and.assoc)

text \<open>Clearing bits never satisfies a thread that was not satisfied before.\<close>

lemma satisfied_mono: "satisfied th s' \<Longrightarrow> s' AND s = s' \<Longrightarrow> satisfied th s"
proof -
  assume s: "satisfied th s'" "s' AND s = s'"
  have "event_set th AND s' = event_set th AND s' AND s" using s(2) by (simp add: and.assoc)
  then show ?thesis
    using s(1) by (auto simp: satisfied_def) (metis and.commute and.left_commute and_zero_eq)+
qed

lemma deliver_shrinks:
  "deliver w ts s = (woken, left, s') \<Longrightarrow> s' AND s = s' \<and> (\<forall>t \<in> set left. \<not> satisfied (w t) s')"
proof (induction ts arbitrary: s woken left s')
  case (Cons t ts)
  show ?case
  proof (cases "satisfied (w t) s")
    case True
    let ?s1 = "if event_info (w t) AND RT_EVENT_FLAG_CLEAR \<noteq> 0 then s AND NOT (received (w t) s) else s"
    obtain wk where "deliver w ts ?s1 = (wk, left, s')"
      using Cons.prems True by (auto simp: Let_def split: prod.splits)
    from Cons.IH [OF this] have ih: "s' AND ?s1 = s'" "\<forall>t \<in> set left. \<not> satisfied (w t) s'" by auto
    have "?s1 AND s = ?s1" by (auto simp: and.assoc and.commute and.left_commute)
    then show ?thesis using and_subset ih by blast
  next
    case False
    obtain wk lf where d: "deliver w ts s = (wk, lf, s')" "left = t # lf"
      using Cons.prems False by (auto simp: Let_def split: prod.splits)
    from Cons.IH [OF d(1)] show ?thesis using False satisfied_mono d(2) by auto
  qed
qed simp

section \<open>Sending\<close>

lemma upd_event_sel [simp]:
  "ev_set (events (upd_event n f k) m) = (if m = n then f (ev_set (events k n)) else ev_set (events k m))"
  "tlists (upd_event n f k) = tlists k" "threads (upd_event n f k) = threads k"
  "rt_current_thread (upd_event n f k) = rt_current_thread k" "objects (upd_event n f k) = objects k"
  "rt_thread_ready_priority_group (upd_event n f k) = rt_thread_ready_priority_group k"
  by (simp_all add: upd_event_def)

lemma kready_upd_event [simp]: "kready (upd_event n f k) = kready k"
proof -
  have "sched_inv (upd_event n f k) = sched_inv k"
    unfolding sched_inv_def by (rule sched_inv_except_cong) simp_all
  then show ?thesis
    using live_ok_cong [of "upd_event n f k" k] by (auto simp: kready_def thread_timers_hard_def)
qed

lemma event_match_eq:
  assumes "waits_and_or th"
  shows "event_match th s =
    Some (satisfied th s, if satisfied th s then th\<lparr>event_set := received th s\<rparr> else th)"
proof -
  have "th\<lparr>event_set := event_set th\<rparr> = th" by simp
  then show ?thesis using assms
    by (auto simp: event_match_def satisfied_def waits_and_or_def received_def)
qed

lemma kready_event_set [simp]:
  "kready (upd_thread t (\<lambda>r. r\<lparr>event_set := e\<rparr>) k) = kready k"
  "kready (upd_thread t (\<lambda>r. r\<lparr>event_set := e, event_info := i\<rparr>) k) = kready k"
  by (rule kready_upd_thread; simp add: stack_ok_def)+

text \<open>One satisfied thread: it leaves the list with its events, and everything else stays.\<close>

lemma event_wake_one:
  assumes rdy: "kready k" and t: "t \<in> set (tlists k (Suspend (Event n)))"
    and clear: "k2 = (if c then upd_event n (\<lambda>s. s AND NOT got) (upd_thread t (\<lambda>r. r\<lparr>event_set := got\<rparr>) k)
                 else upd_thread t (\<lambda>r. r\<lparr>event_set := got\<rparr>) k)"
  shows "\<exists>e k3. rt_thread_resume t k2 = Some (e, k3) \<and> kready k3 \<and>
    rt_current_thread k3 = rt_current_thread k \<and>
    tlists k3 (Suspend (Event n)) = removeAll t (tlists k (Suspend (Event n))) \<and>
    ev_set (events k3 n) = (if c then ev_set (events k n) AND NOT got else ev_set (events k n)) \<and>
    tstat k3 t \<in> {RT_THREAD_READY, RT_THREAD_RUNNING} \<and> event_set (threads k3 t) = got \<and>
    thread_error (threads k3 t) = thread_error (threads k t) \<and>
    (\<forall>u. u \<noteq> t \<longrightarrow> threads k3 u = threads k u) \<and>
    (\<forall>q. rt_object_get_type q k3 = rt_object_get_type q k)"
proof -
  have inv: "sched_inv k" using rdy by (simp add: kready_def)
  have st: "tstat k t = RT_THREAD_SUSPEND" using waiter_suspended [OF inv t disjI1 [OF refl]] .
  have rdy2: "kready k2" using rdy by (simp add: clear)
  have st2: "tstat k2 t = RT_THREAD_SUSPEND" using st by (simp add: clear)
  have "resumable k t" using rdy st by (auto simp: kready_def live_ok_def live_def)
  then have "resumable k2 t" by (simp add: clear resumable_def rt_object_get_type_def)
  then obtain e k3 where k3: "rt_thread_resume t k2 = Some (e, k3)"
    using rt_thread_resume_defined by blast
  note fr = rt_thread_resume_frame [OF k3] and wk = rt_thread_resume_wakes [OF k3 st2]
  have "threads k3 u = threads k u" if "u \<noteq> t" for u using fr(3) [OF that] that by (simp add: clear)
  moreover have "ev_set (events k3 n) =
      (if c then ev_set (events k n) AND NOT got else ev_set (events k n))"
    using kframe_sel(3) [OF fr(1)] by (simp add: clear upd_thread_def)
  moreover have "event_set (threads k3 t) = got" "thread_error (threads k3 t) = thread_error (threads k t)"
    using kframe_thread(1,3) [OF fr(1), of t] by (simp_all add: clear)
  moreover have "tlists k3 (Suspend (Event n)) = removeAll t (tlists k (Suspend (Event n)))"
    using wk(3) [of "Suspend (Event n)"] by (simp add: clear unlink_def)
  moreover have "rt_object_get_type q k3 = rt_object_get_type q k" for q
    using rt_thread_resume_types [OF k3, of q] by (simp add: clear rt_object_get_type_def)
  ultimately show ?thesis
    using k3 kready_resume [OF k3 rdy2] fr(2) wk(2) by (simp add: clear)
qed

lemma event_send_loop_deliver:
  assumes "kready k" "tlists k (Suspend (Event n)) = ls @ ts" "\<And>t. t \<in> set ts \<Longrightarrow> waits_and_or (threads k t)"
    and "deliver (threads k) ts (ev_set (events k n)) = (woken, left, s')"
  shows "\<exists>need' k'. event_send_loop n ts need k = Some (RT_EOK, need', k') \<and> kready k' \<and>
    rt_current_thread k' = rt_current_thread k \<and> tlists k' (Suspend (Event n)) = ls @ left \<and>
    ev_set (events k' n) = s' \<and> (need' \<longleftrightarrow> need \<or> woken \<noteq> []) \<and>
    (\<forall>(t, got) \<in> set woken. tstat k' t \<in> {RT_THREAD_READY, RT_THREAD_RUNNING} \<and>
       event_set (threads k' t) = got \<and> thread_error (threads k' t) = thread_error (threads k t)) \<and>
    (\<forall>t. t \<notin> fst ` set woken \<longrightarrow> threads k' t = threads k t) \<and>
    (\<forall>q. rt_object_get_type q k' = rt_object_get_type q k)"
  using assms
proof (induction ts arbitrary: k ls woken left s' need)
  case (Cons t ts)
  let ?s = "ev_set (events k n)"
  let ?th = "threads k t"
  have wf: "wf_queues (tlists k)"
    using Cons.prems(1) by (auto simp: kready_def intro: sched_inv_exceptD(1) [OF sched_invD])
  then have dist: "distinct (ls @ t # ts)" using wf_queues_distinct [of "tlists k" "Suspend (Event n)"] Cons.prems(2) by simp
  have m: "event_match ?th ?s =
      Some (satisfied ?th ?s, if satisfied ?th ?s then ?th\<lparr>event_set := received ?th ?s\<rparr> else ?th)"
    using Cons.prems(3) by (intro event_match_eq) simp
  show ?case
  proof (cases "satisfied ?th ?s")
    case False
    have same: "upd_thread t (\<lambda>_. ?th) k = k" by (simp add: upd_thread_def)
    obtain lf where d: "deliver (threads k) ts ?s = (woken, lf, s')" "left = t # lf"
      using Cons.prems(4) False by (auto simp: Let_def split: prod.splits)
    have "tlists k (Suspend (Event n)) = (ls @ [t]) @ ts" using Cons.prems(2) by simp
    from Cons.IH [OF Cons.prems(1) this _ d(1), of need] Cons.prems(3) show ?thesis
      using False by (simp add: m same d(2))
  next
    case True
    let ?got = "received ?th ?s"
    let ?c = "event_info ?th AND RT_EVENT_FLAG_CLEAR \<noteq> 0"
    let ?s1 = "if ?c then ?s AND NOT ?got else ?s"
    let ?k1 = "upd_thread t (\<lambda>r. r\<lparr>event_set := ?got\<rparr>) k"
    let ?k2 = "if ?c then upd_event n (\<lambda>s. s AND NOT ?got) ?k1 else ?k1"
    obtain wk where d: "deliver (threads k) ts ?s1 = (wk, left, s')" "woken = (t, ?got) # wk"
      using Cons.prems(4) True by (auto simp: Let_def split: prod.splits)
    from event_wake_one [OF Cons.prems(1) _ refl, of t n ?c ?got] Cons.prems(2) obtain e k3 where
      k3: "rt_thread_resume t ?k2 = Some (e, k3)" "kready k3"
        "rt_current_thread k3 = rt_current_thread k"
        "tlists k3 (Suspend (Event n)) = removeAll t (ls @ t # ts)" "ev_set (events k3 n) = ?s1"
        "tstat k3 t \<in> {RT_THREAD_READY, RT_THREAD_RUNNING}" "event_set (threads k3 t) = ?got"
        "thread_error (threads k3 t) = thread_error (threads k t)"
        "\<And>u. u \<noteq> t \<Longrightarrow> threads k3 u = threads k u"
        "\<And>q. rt_object_get_type q k3 = rt_object_get_type q k" by auto
    have l3: "tlists k3 (Suspend (Event n)) = ls @ ts" using k3(4) dist by simp
    have others: "threads k3 u = threads k u" if "u \<in> set ts" for u
      using that dist k3(9) [of u] by auto
    have "deliver (threads k3) ts (ev_set (events k3 n)) = (wk, left, s')"
      using d(1) deliver_cong [of ts "threads k3" "threads k"] others k3(5) by simp
    from Cons.IH [OF k3(2) l3 _ this, of True] Cons.prems(3) others obtain k' where
      k': "event_send_loop n ts True k3 = Some (RT_EOK, True, k')" "kready k'"
        "rt_current_thread k' = rt_current_thread k3" "tlists k' (Suspend (Event n)) = ls @ left"
        "ev_set (events k' n) = s'"
        "\<forall>(t, got) \<in> set wk. tstat k' t \<in> {RT_THREAD_READY, RT_THREAD_RUNNING} \<and>
           event_set (threads k' t) = got \<and> thread_error (threads k' t) = thread_error (threads k3 t)"
        "\<forall>t. t \<notin> fst ` set wk \<longrightarrow> threads k' t = threads k3 t"
        "\<forall>q. rt_object_get_type q k' = rt_object_get_type q k3"
      by auto
    have wkt: "fst ` set wk \<subseteq> set ts" using deliver_set [OF d(1)] by blast
    have "upd_thread t (\<lambda>_. ?th\<lparr>event_set := ?got\<rparr>) k = ?k1" by (simp add: upd_thread_def)
    then have loop: "event_send_loop n (t # ts) need k = Some (RT_EOK, True, k')"
      using True k3(1) k'(1) by (cases ?c) (simp_all add: m)
    have new: "threads k' t = threads k3 t" using k'(7) wkt dist by auto
    have "\<forall>(u, got) \<in> set woken. tstat k' u \<in> {RT_THREAD_READY, RT_THREAD_RUNNING} \<and>
        event_set (threads k' u) = got \<and> thread_error (threads k' u) = thread_error (threads k u)"
      using k'(6) new k3(6-8) others wkt unfolding d(2) by fastforce
    moreover have "threads k' u = threads k u" if "u \<notin> fst ` set woken" for u
      using that k'(7) k3(9) [of u] unfolding d(2) by auto
    ultimately show ?thesis
      using loop k'(2-5,8) k3(3,10) d(2) by (intro exI [of _ True] exI [of _ k']) simp
  qed
qed simp

section \<open>No missed wake-up\<close>

text \<open>Every waiting thread asked for \<^verbatim>\<open>AND\<close> or \<^verbatim>\<open>OR\<close>, and its condition does not hold.\<close>

definition event_inv :: "nat \<Rightarrow> kernel \<Rightarrow> bool" where
  "event_inv n k \<longleftrightarrow> (\<forall>t \<in> set (tlists k (Suspend (Event n))).
     waits_and_or (threads k t) \<and> \<not> satisfied (threads k t) (ev_set (events k n)))"

lemma event_inv_mono:
  assumes "event_inv n k" "set (tlists k' (Suspend (Event n))) \<subseteq> set (tlists k (Suspend (Event n)))"
    and "\<And>t. t \<in> set (tlists k (Suspend (Event n))) \<Longrightarrow>
      event_set (threads k' t) = event_set (threads k t) \<and> event_info (threads k' t) = event_info (threads k t)"
    and "ev_set (events k' n) AND ev_set (events k n) = ev_set (events k' n)"
  shows "event_inv n k'"
  unfolding event_inv_def
proof
  fix t assume "t \<in> set (tlists k' (Suspend (Event n)))"
  then have t: "t \<in> set (tlists k (Suspend (Event n)))" using assms(2) by blast
  have "satisfied (threads k' t) s = satisfied (threads k t) s" "waits_and_or (threads k' t) = waits_and_or (threads k t)" for s
    using assms(3) [OF t] by (simp_all add: satisfied_def waits_and_or_def)
  then show "waits_and_or (threads k' t) \<and> \<not> satisfied (threads k' t) (ev_set (events k' n))"
    using assms(1) t satisfied_mono [OF _ assms(4)] by (auto simp: event_inv_def)
qed

lemma rt_event_send_spec:
  assumes rdy: "kready k" and cur: "rt_current_thread k = Some c" and inv: "event_inv n k"
    and ty: "rt_object_get_type (Obj_ipc (Event n)) k = RT_Object_Class_Event" and s: "s \<noteq> 0"
    and d: "deliver (threads k) (tlists k (Suspend (Event n))) (ev_set (events k n) OR s) = (woken, left, s')"
  shows "\<exists>k'. rt_event_send n s k = Some (RT_EOK, k') \<and> kready k' \<and> (\<exists>c. rt_current_thread k' = Some c) \<and>
    tlists k' (Suspend (Event n)) = left \<and> ev_set (events k' n) = s' \<and> event_inv n k' \<and>
    (\<forall>(t, got) \<in> set woken. tstat k' t \<in> {RT_THREAD_READY, RT_THREAD_RUNNING} \<and>
       event_set (threads k' t) = got \<and> thread_error (threads k' t) = thread_error (threads k t)) \<and>
    (\<forall>q. rt_object_get_type q k' = rt_object_get_type q k)"
proof -
  let ?k1 = "upd_event n (\<lambda>x. x OR s) k"
  have waits: "waits_and_or (threads ?k1 t)" if "t \<in> set (tlists k (Suspend (Event n)))" for t
    using inv that by (simp add: event_inv_def)
  have d1: "deliver (threads ?k1) (tlists k (Suspend (Event n))) (ev_set (events ?k1 n)) = (woken, left, s')"
    using d by simp
  from event_send_loop_deliver [of ?k1 n "[]", OF _ _ waits d1, of False] rdy obtain k2 where
    k2: "event_send_loop n (tlists k (Suspend (Event n))) False ?k1 = Some (RT_EOK, woken \<noteq> [], k2)"
      "kready k2" "rt_current_thread k2 = Some c" "tlists k2 (Suspend (Event n)) = left"
      "ev_set (events k2 n) = s'"
      "\<forall>(t, got) \<in> set woken. tstat k2 t \<in> {RT_THREAD_READY, RT_THREAD_RUNNING} \<and>
         event_set (threads k2 t) = got \<and> thread_error (threads k2 t) = thread_error (threads k t)"
      "\<forall>t. t \<notin> fst ` set woken \<longrightarrow> threads k2 t = threads k t"
      "\<forall>q. rt_object_get_type q k2 = rt_object_get_type q k"
    using cur by (auto simp: rt_object_get_type_def)
  have inv2: "sched_inv k2" using k2(2) by (simp add: kready_def)
  have "distinct (tlists k (Suspend (Event n)))"
    using rdy wf_queues_distinct [OF sched_inv_exceptD(1) [OF sched_invD]] by (simp add: kready_def)
  then have dis: "fst ` set woken \<inter> set left = {}" using deliver_disjoint [OF d] by simp
  have ei2: "event_inv n k2"
    unfolding event_inv_def k2(4,5)
  proof
    fix t assume t: "t \<in> set left"
    then have "threads k2 t = threads k t" using k2(7) dis by blast
    then show "waits_and_or (threads k2 t) \<and> \<not> satisfied (threads k2 t) s'"
      using deliver_shrinks [OF d] deliver_set [OF d] waits t by auto
  qed
  show ?thesis
  proof (cases "woken = []")
    case True
    then have "rt_event_send n s k = Some (RT_EOK, k2)"
      using k2(1) s ty by (simp add: rt_event_send_def Let_def)
    then show ?thesis using k2 ei2 by blast
  next
    case False
    obtain k3 where k3: "rt_schedule k2 = Some k3"
      using rt_schedule_returns [OF inv2 k2(3)] k2(2) by (auto simp: kready_def)
    note sel = same_but_sched_sel [OF rt_schedule_same [OF k3]]
    have "rt_event_send n s k = Some (RT_EOK, k3)"
      using k2(1) k3 s ty False by (simp add: rt_event_send_def Let_def)
    moreover have l: "tlists k3 (Suspend (Event n)) = left"
      using rt_schedule_wait_lists [OF inv2 k2(3) k3, of "Suspend (Event n)"] k2(4) by simp
    moreover have "event_inv n k3" using ei2 by (rule event_inv_mono) (simp_all add: l k2(4) sel)
    moreover have "tstat k3 t \<in> {RT_THREAD_READY, RT_THREAD_RUNNING} \<and> event_set (threads k3 t) = got \<and>
        thread_error (threads k3 t) = thread_error (threads k t)" if "(t, got) \<in> set woken" for t got
      using that k2(6) rt_schedule_keeps_runnable [OF inv2 k2(3) k3, of t] sel(15,17) [of t] by auto
    ultimately show ?thesis
      using kready_schedule [OF k3 k2(2,3)] sched_inv_rt_schedule(2) [OF inv2 k2(3) k3] k2(5,8) sel(6,10)
      by (intro exI [of _ k3]) (auto simp: rt_object_get_type_def)
  qed
qed

section \<open>Receiving\<close>

definition occurred :: "32 word \<Rightarrow> 8 word \<Rightarrow> 32 word \<Rightarrow> bool" where
  "occurred s opt es \<longleftrightarrow> (if opt AND RT_EVENT_FLAG_AND \<noteq> 0 then es AND s = s else es AND s \<noteq> 0)"

lemma satisfied_occurred:
  "event_set th = s \<Longrightarrow> event_info th = opt \<Longrightarrow> satisfied th es = occurred s opt es"
  by (simp add: satisfied_def occurred_def and.commute)

text \<open>A legal call of \<^verbatim>\<open>rt_event_recv\<close>: from a thread, with the scheduler unlocked, an initialised
  event, a non-empty set, a valid option and a timeout the timer accepts.\<close>

definition recv_legal :: "tid \<Rightarrow> nat \<Rightarrow> 32 word \<Rightarrow> 8 word \<Rightarrow> 32 word \<Rightarrow> kernel \<Rightarrow> bool" where
  "recv_legal c n s opt timeout k \<longleftrightarrow> thread_context c k \<and>
     rt_object_get_type (Obj_ipc (Event n)) k = RT_Object_Class_Event \<and>
     ipc_flag k (Event n) \<in> {RT_IPC_FLAG_FIFO, RT_IPC_FLAG_PRIO} \<and> s \<noteq> 0 \<and>
     (opt AND RT_EVENT_FLAG_AND \<noteq> 0 \<or> opt AND RT_EVENT_FLAG_OR \<noteq> 0) \<and>
     (sint timeout \<le> 0 \<or> timeout < RT_TICK_HALF)"

lemma rt_event_recv_eq:
  assumes "recv_legal c n s opt timeout k"
  shows "rt_event_recv n s opt timeout want k =
    (let k1 = upd_thread c (\<lambda>r. r\<lparr>thread_error := RT_EOK\<rparr>) k; es = ev_set (events k n) in
     if occurred s opt es then
       let k2 = upd_thread c (\<lambda>r. r\<lparr>event_set := es AND s, event_info := opt\<rparr>) k1
       in Some (Return (RT_EOK, if want then Some (es AND s) else None),
            if opt AND RT_EVENT_FLAG_CLEAR \<noteq> 0 then upd_event n (\<lambda>x. x AND NOT s) k2 else k2)
     else if timeout = 0 then
       Some (Return (- RT_ETIMEOUT, None), upd_thread c (\<lambda>r. r\<lparr>thread_error := - RT_ETIMEOUT\<rparr>) k1)
     else map_option (\<lambda>k3. (Block, k3)) (ipc_block (Suspend (Event n)) c (ipc_flag k (Event n)) timeout
       (upd_thread c (\<lambda>r. r\<lparr>event_set := s, event_info := opt\<rparr>) k1)))"
proof -
  have ctx: "thread_context c k" and ty: "rt_object_get_type (Obj_ipc (Event n)) k = RT_Object_Class_Event"
    using assms by (auto simp: recv_legal_def)
  have ok: "(if opt AND RT_EVENT_FLAG_AND \<noteq> 0 then Some (es AND s = s)
      else if opt AND RT_EVENT_FLAG_OR \<noteq> 0 then Some (es AND s \<noteq> 0) else None) = Some (occurred s opt es)" for es
    using assms by (auto simp: recv_legal_def occurred_def)
  have self: "rt_thread_self k = Some c" using ctx by (simp add: thread_context_def running_def rt_thread_self_def)
  have ev: "events (upd_thread c f k) = events k" for f by (simp add: upd_thread_def)
  have blk: "x \<bind> (\<lambda>y. Some (Block, y)) = map_option (\<lambda>y. (Block, y)) x" for x :: "kernel option"
    by (cases x) auto
  show ?thesis
    using assms scheduler_available [OF ctx]
    by (simp add: rt_event_recv_def ty self ok Let_def ev blk recv_legal_def)
qed

lemma rt_event_recv_spec:
  assumes rdy: "kready k" and inv: "event_inv n k" and legal: "recv_legal c n s opt timeout k"
  shows "\<exists>r k'. rt_event_recv n s opt timeout want k = Some (r, k') \<and> kready k' \<and> event_inv n k' \<and>
    (let es = ev_set (events k n) in
     if occurred s opt es then
       r = Return (RT_EOK, if want then Some (es AND s) else None) \<and>
       ev_set (events k' n) = (if opt AND RT_EVENT_FLAG_CLEAR \<noteq> 0 then es AND NOT s else es)
     else ev_set (events k' n) = es \<and>
       (if timeout = 0 then r = Return (- RT_ETIMEOUT, None)
        else r = Block \<and> tstat k' c = RT_THREAD_SUSPEND \<and>
          tlists k' (Suspend (Event n)) =
            wait_insert (ipc_flag k (Event n)) (tprio k) c (tlists k (Suspend (Event n))) \<and>
          event_set (threads k' c) = s \<and> event_info (threads k' c) = opt \<and>
          thread_error (threads k' c) = RT_EOK))"
proof -
  let ?k1 = "upd_thread c (\<lambda>r. r\<lparr>thread_error := RT_EOK\<rparr>) k"
  let ?es = "ev_set (events k n)"
  have run: "running c k" and ctx: "thread_context c k" using legal by (auto simp: recv_legal_def thread_context_def)
  have sinv: "sched_inv k" using rdy by (simp add: kready_def)
  have nc: "c \<notin> set (tlists k (Suspend (Event n)))"
    using waiter_suspended [OF sinv _ disjI1 [OF refl], of c "Event n"] run by (auto simp: running_def)
  have ev: "events (upd_thread c f k2) = events k2" for f k2 by (simp add: upd_thread_def)
  note eq = rt_event_recv_eq [OF legal, of want]
  consider (got) "occurred s opt ?es" | (busy) "\<not> occurred s opt ?es" "timeout = 0"
    | (wait) "\<not> occurred s opt ?es" "timeout \<noteq> 0" by blast
  then show ?thesis
  proof cases
    case got
    let ?k2 = "upd_thread c (\<lambda>r. r\<lparr>event_set := ?es AND s, event_info := opt\<rparr>) ?k1"
    let ?k3 = "if opt AND RT_EVENT_FLAG_CLEAR \<noteq> 0 then upd_event n (\<lambda>x. x AND NOT s) ?k2 else ?k2"
    have "event_inv n ?k3"
      using inv by (rule event_inv_mono) (use nc in \<open>auto simp: ev and.assoc and.commute and.left_commute\<close>)
    moreover have "kready ?k3" using rdy by simp
    ultimately show ?thesis using got by (simp add: eq Let_def ev)
  next
    case busy
    let ?k2 = "upd_thread c (\<lambda>r. r\<lparr>thread_error := - RT_ETIMEOUT\<rparr>) ?k1"
    have "event_inv n ?k2" using inv by (rule event_inv_mono) (use nc in \<open>auto simp: ev\<close>)
    then show ?thesis unfolding eq using busy rdy by (simp add: Let_def ev)
  next
    case wait
    let ?k2 = "upd_thread c (\<lambda>r. r\<lparr>event_set := s, event_info := opt\<rparr>) ?k1"
    have k2: "kready ?k2" "tstat ?k2 c = RT_THREAD_RUNNING" "rt_current_thread ?k2 = Some c"
      using rdy run by (simp_all add: running_def)
    have fl: "ipc_flag k (Event n) = RT_IPC_FLAG_FIFO \<or> ipc_flag k (Event n) = RT_IPC_FLAG_PRIO"
      "sint timeout \<le> 0 \<or> timeout < RT_TICK_HALF" using legal by (auto simp: recv_legal_def)
    obtain k' where bl: "ipc_block (Suspend (Event n)) c (ipc_flag k (Event n)) timeout ?k2 = Some k'"
      and rdy': "kready k'"
      using ipc_block_ready [OF k2 fl disjI1 [OF refl]] by blast
    have "sched_inv ?k2" "thread_timers_hard ?k2" using k2(1) by (auto simp: kready_def)
    note b = ipc_block_spec [OF bl this(1) k2(2) disjI1 [OF refl] this(2)]
    have "tprio ?k2 = tprio k" by auto
    then have wi: "tlists k' (Suspend (Event n)) =
        wait_insert (ipc_flag k (Event n)) (tprio k) c (tlists k (Suspend (Event n)))"
      using b(4) [of "Suspend (Event n)"] by simp
    then have l: "set (tlists k' (Suspend (Event n))) = insert c (set (tlists k (Suspend (Event n))))" by simp
    have es: "ev_set (events k' n) = ?es" using kframe_sel(3) [OF b(3)] by (simp add: ev)
    have c: "event_set (threads k' c) = s" "event_info (threads k' c) = opt" "thread_error (threads k' c) = RT_EOK"
      using kframe_thread(1,3,4) [OF b(3), of c] by simp_all
    have "waits_and_or (threads k' u) \<and> \<not> satisfied (threads k' u) ?es"
      if "u \<in> set (tlists k' (Suspend (Event n)))" for u
    proof (cases "u = c")
      case True
      then show ?thesis
        using c wait(1) legal satisfied_occurred [OF c(1,2)] by (simp add: waits_and_or_def recv_legal_def)
    next
      case False
      have "waits_and_or (threads k u) \<and> \<not> satisfied (threads k u) ?es"
        using that False l inv by (simp add: event_inv_def)
      then show ?thesis
        using kframe_thread(3,4) [OF b(3), of u] False
        by (simp add: waits_and_or_def satisfied_def split: if_splits)
    qed
    then have "event_inv n k'" by (simp add: event_inv_def es)
    then show ?thesis using wait bl rdy' b(2) wi es c by (simp add: eq Let_def)
  qed
qed

lemma recv_block_frame:
  assumes rdy: "kready k" and legal: "recv_legal c n s opt timeout k"
    and r: "rt_event_recv n s opt timeout want k = Some (Block, k')"
  shows "\<exists>d. rt_current_thread k' = Some d" "rt_object_get_type q k' = rt_object_get_type q k"
proof -
  let ?k2 = "upd_thread c (\<lambda>r. r\<lparr>event_set := s, event_info := opt\<rparr>)
    (upd_thread c (\<lambda>r. r\<lparr>thread_error := RT_EOK\<rparr>) k)"
  have bl: "ipc_block (Suspend (Event n)) c (ipc_flag k (Event n)) timeout ?k2 = Some k'"
    using r rt_event_recv_eq [OF legal, of want] by (auto simp: Let_def split: if_splits)
  have k2: "kready ?k2" "tstat ?k2 c = RT_THREAD_RUNNING" "rt_current_thread ?k2 = Some c"
    using rdy legal by (simp_all add: recv_legal_def thread_context_def running_def)
  have fl: "ipc_flag k (Event n) = RT_IPC_FLAG_FIFO \<or> ipc_flag k (Event n) = RT_IPC_FLAG_PRIO"
    "sint timeout \<le> 0 \<or> timeout < RT_TICK_HALF" using legal by (auto simp: recv_legal_def)
  show "\<exists>d. rt_current_thread k' = Some d" "rt_object_get_type q k' = rt_object_get_type q k"
    using ipc_block_ready [OF k2 fl disjI1 [OF refl], of "Event n"] bl by (auto simp: rt_object_get_type_def)
qed

section \<open>Steps of an event\<close>

inductive event_step :: "nat \<Rightarrow> kernel \<Rightarrow> kernel \<Rightarrow> bool" for n where
  estep_send: "rt_current_thread k = Some c \<Longrightarrow> rt_event_send n s k = Some (e, k') \<Longrightarrow> event_step n k k'"
| estep_recv: "recv_legal c n s opt timeout k \<Longrightarrow> rt_event_recv n s opt timeout want k = Some (r, k') \<Longrightarrow>
    event_step n k k'"
| estep_reset: "rt_current_thread k = Some c \<Longrightarrow> rt_event_control n True k = Some (e, k') \<Longrightarrow>
    event_step n k k'"
| estep_timeout: "rt_current_thread k = Some c \<Longrightarrow> thread_timeout t k = Some k' \<Longrightarrow> event_step n k k'"
| estep_schedule: "rt_current_thread k = Some c \<Longrightarrow> rt_schedule k = Some k' \<Longrightarrow> event_step n k k'"

lemma event_inv_send:
  assumes rdy: "kready k" and inv: "event_inv n k" and cur: "rt_current_thread k = Some c"
    and send: "rt_event_send n s k = Some (e, k')"
  shows "kready k' \<and> event_inv n k'"
proof (cases "s = 0")
  case True
  then show ?thesis using assms by (simp add: rt_event_send_def)
next
  case False
  have ty: "rt_object_get_type (Obj_ipc (Event n)) k = RT_Object_Class_Event"
    using send by (simp add: rt_event_send_def)
  obtain wk lf s' where d: "deliver (threads k) (tlists k (Suspend (Event n)))
      (ev_set (events k n) OR s) = (wk, lf, s')"
    using prod_cases3 by blast
  from rt_event_send_spec [OF rdy cur inv ty False d] send show ?thesis by auto
qed

lemma event_inv_reset:
  assumes rdy: "kready k" and cur: "rt_current_thread k = Some c"
    and ctl: "rt_event_control n True k = Some (e, k')"
  shows "kready k' \<and> event_inv n k'"
proof -
  from kready_resume_all [OF rdy disjI1 [OF refl], of "Event n"] obtain k1 where
    k1: "ipc_list_resume_all (Suspend (Event n)) k = Some (RT_EOK, k1)" "kready k1"
      "rt_current_thread k1 = Some c" using cur by auto
  have "resumable k t" if "t \<in> set (tlists k (Suspend (Event n)))" for t
    using waiter_suspended [OF _ that disjI1 [OF refl]] rdy by (simp add: kready_def live_ok_def live_def)
  with ipc_list_resume_all_spec [of k "Suspend (Event n)" "Event n"] rdy k1(1)
  have l1: "tlists k1 (Suspend (Event n)) = []" by (auto simp: kready_def)
  let ?k2 = "upd_event n (\<lambda>_. 0) k1"
  have k3: "rt_schedule ?k2 = Some k'" using ctl k1(1) by (auto simp: rt_event_control_def bind_eq_Some_conv)
  have r2: "kready ?k2" "rt_current_thread ?k2 = Some c" using k1(2,3) by simp_all
  then have "tlists k' (Suspend (Event n)) = []"
    using rt_schedule_wait_lists [OF _ r2(2) k3, of "Suspend (Event n)"] l1 by (simp add: kready_def)
  then show ?thesis using kready_schedule [OF k3 r2] by (simp add: event_inv_def)
qed

lemma event_inv_step:
  assumes "event_step n k k'" "kready k \<and> event_inv n k"
  shows "kready k' \<and> event_inv n k'"
  using assms(1)
proof (cases rule: event_step.cases)
  case (estep_send c s e)
  then show ?thesis using event_inv_send assms(2) by blast
next
  case (estep_recv c s opt timeout want r)
  then show ?thesis using rt_event_recv_spec [of k n c s opt timeout want] assms(2) by auto
next
  case (estep_reset c e)
  then show ?thesis using event_inv_reset assms(2) by blast
next
  case (estep_timeout c t)
  have kinv: "kinv k" using assms(2) kready_kinv by blast
  let ?k3 = "rt_schedule_insert_thread t (upd_tlists (unlink t)
    (upd_thread t (\<lambda>r. r\<lparr>thread_error := - RT_ETIMEOUT\<rparr>) k))"
  have "rt_schedule ?k3 = Some k'" using estep_timeout by (simp add: thread_timeout_def Let_def)
  note sel = same_but_sched_sel(10,17,18) [OF rt_schedule_same [OF this]]
  have "event_inv n k'"
    using conjunct2 [OF assms(2)]
  proof (rule event_inv_mono)
    show "set (tlists k' (Suspend (Event n))) \<subseteq> set (tlists k (Suspend (Event n)))"
      using thread_timeout_lists(5) [OF estep_timeout(2) kinv estep_timeout(1), of "Suspend (Event n)"] by auto
  qed (use sel in \<open>simp_all add: insert_thread_threads upd_thread_def\<close>)
  then show ?thesis using kready_timeout [OF estep_timeout(2) _ estep_timeout(1)] assms(2) by simp
next
  case (estep_schedule c)
  note sel = same_but_sched_sel(10,17,18) [OF rt_schedule_same [OF estep_schedule(2)]]
  have "event_inv n k'"
    using conjunct2 [OF assms(2)]
  proof (rule event_inv_mono)
    show "set (tlists k' (Suspend (Event n))) \<subseteq> set (tlists k (Suspend (Event n)))"
      using rt_schedule_wait_lists [OF _ estep_schedule(1,2), of "Suspend (Event n)"] assms(2)
      by (simp add: kready_def)
  qed (simp_all add: sel)
  then show ?thesis using kready_schedule [OF estep_schedule(2) _ estep_schedule(1)] assms(2) by simp
qed

text \<open>In the example state the running thread waits for two events.\<close>

lemma recv_legal_three_threads: "recv_legal 2 0 3 RT_EVENT_FLAG_AND 0xFFFFFFFF three_threads"
  using running_three_threads
  by (simp add: recv_legal_def thread_context_def rt_critical_level_def three_threads_types
      del: three_threads_sel(7))

lemma recv_three_threads:
  "\<exists>k'. rt_event_recv 0 3 RT_EVENT_FLAG_AND 0xFFFFFFFF True three_threads = Some (Block, k') \<and>
     kready k' \<and> event_inv 0 k' \<and> tlists k' (Suspend (Event 0)) = [2] \<and> ev_set (events k' 0) = 0 \<and>
     event_set (threads k' 2) = 3 \<and> event_info (threads k' 2) = RT_EVENT_FLAG_AND \<and>
     thread_error (threads k' 2) = RT_EOK"
proof -
  have "event_inv 0 three_threads" "ev_set (events three_threads 0) = 0"
    by (simp_all add: event_inv_def three_threads_def zero_kernel_def)
  then show ?thesis
    using rt_event_recv_spec [OF kready_three_threads _ recv_legal_three_threads, of True]
    by (auto simp: occurred_def wait_insert_def)
qed

section \<open>Properties\<close>

text \<open>C28: No missed wake-up. From a consistent event set (a fresh one has no waiters), after any
  sequence of sends, receives, resets, timeouts and context switches, no thread waits for events
  that have occurred: the condition of every thread on the wait list is false in the current set.\<close>

theorem event_no_missed_wakeup:
  assumes "(event_step n)\<^sup>*\<^sup>* k k'" and "kready k" and "event_inv n k"
    and "t \<in> set (tlists k' (Suspend (Event n)))"
  shows "waits_and_or (threads k' t) \<and> \<not> satisfied (threads k' t) (ev_set (events k' n))"
proof -
  have "kready k' \<and> event_inv n k'"
    using assms(1-3) by (induction rule: rtranclp_induct) (auto dest: event_inv_step)
  then show ?thesis using assms(4) by (simp add: event_inv_def)
qed

theorem event_no_missed_wakeup_witness:
  "\<exists>k'. (event_step 0)\<^sup>*\<^sup>* three_threads k' \<and> 2 \<in> set (tlists k' (Suspend (Event 0))) \<and>
     \<not> satisfied (threads k' 2) (ev_set (events k' 0))"
proof -
  obtain k' where k': "rt_event_recv 0 3 RT_EVENT_FLAG_AND 0xFFFFFFFF True three_threads = Some (Block, k')"
    "tlists k' (Suspend (Event 0)) = [2]" using recv_three_threads by blast
  then have "event_step 0 three_threads k'" using estep_recv [OF recv_legal_three_threads] by blast
  then have st: "(event_step 0)\<^sup>*\<^sup>* three_threads k'" by blast
  from event_no_missed_wakeup [OF st kready_three_threads, of 2] k'(2) have
    "\<not> satisfied (threads k' 2) (ev_set (events k' 0))" by (simp add: event_inv_def)
  then show ?thesis using st k'(2) by auto
qed

text \<open>C31: \<^verbatim>\<open>rt_event_send\<close> delivers. It returns \<^verbatim>\<open>RT_EOK\<close>, and in the order of the wait list exactly
  the threads whose condition holds are made runnable, each with the events it receives; the others
  keep waiting in their order, and the events taken by \<^verbatim>\<open>CLEAR\<close> are removed from the set, so that
  the result is that of the reference function \<open>deliver\<close>. The woken call of \<^verbatim>\<open>rt_event_recv\<close> returns
  those events.\<close>

theorem rt_event_send_delivers:
  assumes "kready k" and "rt_current_thread k = Some c" and "event_inv n k"
    and "rt_object_get_type (Obj_ipc (Event n)) k = RT_Object_Class_Event" and "s \<noteq> 0"
    and "deliver (threads k) (tlists k (Suspend (Event n))) (ev_set (events k n) OR s) = (woken, left, s')"
  shows "\<exists>k'. rt_event_send n s k = Some (RT_EOK, k') \<and> kready k' \<and>
    tlists k' (Suspend (Event n)) = left \<and> ev_set (events k' n) = s' \<and>
    (\<forall>(t, got) \<in> set woken. tstat k' t \<in> {RT_THREAD_READY, RT_THREAD_RUNNING} \<and>
       (thread_error (threads k t) = RT_EOK \<longrightarrow> rt_event_recv_resume t True k' = (RT_EOK, Some got)))"
  using rt_event_send_spec [OF assms] by (fastforce simp: rt_event_recv_resume_def)

theorem rt_event_send_delivers_witness:
  "\<exists>k k'. kready k \<and> tlists k (Suspend (Event 0)) = [2] \<and> rt_event_send 0 7 k = Some (RT_EOK, k') \<and>
     ev_set (events k' 0) = 7 \<and> tlists k' (Suspend (Event 0)) = [] \<and>
     rt_event_recv_resume 2 True k' = (RT_EOK, Some 3)"
proof -
  obtain k where r: "rt_event_recv 0 3 RT_EVENT_FLAG_AND 0xFFFFFFFF True three_threads = Some (Block, k)"
    and k: "kready k" "event_inv 0 k" "tlists k (Suspend (Event 0)) = [2]" "ev_set (events k 0) = 0"
      "event_set (threads k 2) = 3" "event_info (threads k 2) = RT_EVENT_FLAG_AND"
      "thread_error (threads k 2) = RT_EOK"
    using recv_three_threads by blast
  obtain c where c: "rt_current_thread k = Some c"
    and ty: "rt_object_get_type (Obj_ipc (Event 0)) k = RT_Object_Class_Event"
    using recv_block_frame [OF kready_three_threads recv_legal_three_threads r] three_threads_types(4) by auto
  have "deliver (threads k) (tlists k (Suspend (Event 0))) (ev_set (events k 0) OR 7) = ([(2, 3)], [], 7)"
    using k by (simp add: satisfied_def received_def)
  from rt_event_send_delivers [OF k(1) c k(2) ty _ this] show ?thesis using k by auto
qed

text \<open>What \<^verbatim>\<open>rt_event_recv\<close> does on each branch. If the condition holds it returns \<^verbatim>\<open>RT_EOK\<close> with
  the events, and clears the requested ones if asked to; otherwise it fails with \<^verbatim>\<open>RT_ETIMEOUT\<close>
  without waiting, or suspends the caller on the wait list with its condition recorded. It always
  returns for a legal call.\<close>

theorem rt_event_recv_result:
  assumes "kready k" and "event_inv n k" and "recv_legal c n s opt timeout k"
  shows "\<exists>r k'. rt_event_recv n s opt timeout want k = Some (r, k') \<and> kready k' \<and> event_inv n k' \<and>
    (let es = ev_set (events k n) in
     if occurred s opt es then
       r = Return (RT_EOK, if want then Some (es AND s) else None) \<and>
       ev_set (events k' n) = (if opt AND RT_EVENT_FLAG_CLEAR \<noteq> 0 then es AND NOT s else es)
     else ev_set (events k' n) = es \<and>
       (if timeout = 0 then r = Return (- RT_ETIMEOUT, None)
        else r = Block \<and> tstat k' c = RT_THREAD_SUSPEND \<and>
          tlists k' (Suspend (Event n)) =
            wait_insert (ipc_flag k (Event n)) (tprio k) c (tlists k (Suspend (Event n))) \<and>
          event_set (threads k' c) = s \<and> event_info (threads k' c) = opt \<and>
          thread_error (threads k' c) = RT_EOK))"
  by (rule rt_event_recv_spec [OF assms])

theorem rt_event_recv_result_witness:
  "\<exists>k'. rt_event_recv 0 3 RT_EVENT_FLAG_AND 0xFFFFFFFF True three_threads = Some (Block, k') \<and>
     tstat k' 2 = RT_THREAD_SUSPEND \<and> event_set (threads k' 2) = 3"
proof -
  have "event_inv 0 three_threads" "ev_set (events three_threads 0) = 0"
    by (simp_all add: event_inv_def three_threads_def zero_kernel_def)
  then show ?thesis
    using rt_event_recv_result [OF kready_three_threads _ recv_legal_three_threads, of True]
    by (auto simp: occurred_def)
qed

end
