(* ===== verification/Ipc_Channel.thy ===== *)
theory Ipc_Channel
  imports Ipc "HOL-Library.Multiset"
begin

text \<open>
  What mailboxes and message queues share: the wake-up at the end of a send or receive, the
  remaining time of a wait that is resumed too early, and the contract of a message channel with
  what follows from it for any sequence of operations (order, no loss, no duplication).
\<close>

section \<open>Operations\<close>

text \<open>The tail of a send or receive: resume the first thread of the other side's list, if there is
  one, and reschedule.\<close>

definition ipc_wake :: "list_head \<Rightarrow> kernel \<Rightarrow> kernel option" where
  "ipc_wake h k =
     (if tlists k h \<noteq> [] then do {
        (_, k1) \<leftarrow> ipc_list_resume h k;
        rt_schedule k1 }
      else Some k)"

text \<open>A woken thread that has to wait again subtracts the ticks since \<open>tick0\<close>, in 32-bit arithmetic.\<close>

definition remaining_timeout :: "32 word \<Rightarrow> 32 word \<Rightarrow> kernel \<Rightarrow> 32 word" where
  "remaining_timeout timeout tick0 k =
     (if sint timeout > 0 then
        let r = timeout - (rt_tick_get k - tick0) in if sint r < 0 then 0 else r
      else timeout)"

definition sender_list_init :: "ipc_ref \<Rightarrow> kernel \<Rightarrow> kernel" where
  "sender_list_init r = upd_tlists (\<lambda>L. L(Sender r := []))"

section \<open>Total correctness of the shared parts\<close>

definition time_ok :: "32 word \<Rightarrow> bool" where
  "time_ok timeout \<longleftrightarrow> sint timeout \<le> 0 \<or> timeout < RT_TICK_HALF"

definition flag_ok :: "8 word \<Rightarrow> bool" where
  "flag_ok flag \<longleftrightarrow> flag = RT_IPC_FLAG_FIFO \<or> flag = RT_IPC_FLAG_PRIO"

text \<open>A thread that waits for no more than half the tick range gets at most its timeout.\<close>

lemma sint_32_pos: "0 < sint (w :: 32 word) \<Longrightarrow> unat w < 2 ^ 31"
  and sint_32_nonneg: "unat (w :: 32 word) < 2 ^ 31 \<Longrightarrow> 0 \<le> sint w"
proof -
  have s: "sint w = (uint w + 2 ^ 31) mod 2 ^ 32 - 2 ^ 31"
    by (simp add: sint_uint signed_take_bit_eq_take_bit_shift take_bit_eq_mod)
  have u: "uint w = int (unat w)" "0 \<le> uint w" "uint w < 2 ^ 32"
    using uint_lt2p [of w] by simp_all
  show "unat w < 2 ^ 31" if "0 < sint w"
  proof (rule ccontr)
    assume "\<not> unat w < 2 ^ 31"
    then have "int (2 ^ 31) \<le> int (unat w)" by (simp only: of_nat_le_iff not_less)
    then have "2 ^ 31 \<le> uint w" by simp
    then have "(uint w + 2 ^ 31 - 2 ^ 32) mod 2 ^ 32 = uint w + 2 ^ 31 - 2 ^ 32"
      using u(3) by (intro mod_pos_pos_trivial) simp_all
    then have "(uint w + 2 ^ 31) mod 2 ^ 32 = uint w + 2 ^ 31 - 2 ^ 32"
      by (simp only: minus_mod_self2)
    then show False using that s u(3) by simp
  qed
  show "0 \<le> sint w" if "unat w < 2 ^ 31"
  proof -
    have "int (unat w) < int (2 ^ 31)" using that by (simp only: of_nat_less_iff)
    then have "uint w < 2 ^ 31" by simp
    then have "(uint w + 2 ^ 31) mod 2 ^ 32 = uint w + 2 ^ 31"
      using u(2) by (intro mod_pos_pos_trivial) simp_all
    then show ?thesis using s u(2) by simp
  qed
qed

lemma remaining_timeout_bounds:
  assumes "0 < sint timeout" "unat (rt_tick k - tick0) \<le> unat timeout"
  shows "unat (remaining_timeout timeout tick0 k) = unat timeout - unat (rt_tick k - tick0)"
proof -
  let ?d = "rt_tick k - tick0"
  have "unat (timeout - ?d) = unat timeout - unat ?d"
    using assms(2) by (simp add: unat_sub word_le_nat_alt)
  moreover from this have "0 \<le> sint (timeout - ?d)"
    using sint_32_pos [OF assms(1)] by (intro sint_32_nonneg) simp
  ultimately show ?thesis using assms(1) by (simp add: remaining_timeout_def Let_def rt_tick_get_def)
qed

lemma ipc_block_total:
  assumes rdy: "kready k" and run: "running c k" and fl: "flag_ok flag" and time: "time_ok timeout"
    and h: "h = Suspend r \<or> h = Sender r"
  obtains k' d where "ipc_block h c flag timeout k = Some k'" "kready k'" "kframe k k'"
    "rt_current_thread k' = Some d" "tstat k' c = RT_THREAD_SUSPEND"
    "tlists k' h = wait_insert flag (tprio k) c (tlists k h)"
    "\<And>q. rt_object_get_type q k' = rt_object_get_type q k"
proof -
  have st: "tstat k c = RT_THREAD_RUNNING" "rt_current_thread k = Some c" using run by (auto simp: running_def)
  from ipc_block_ready [OF rdy st fl [unfolded flag_ok_def] time [unfolded time_ok_def] h] obtain k' d where
    bl: "ipc_block h c flag timeout k = Some k'" and k': "kready k'" "rt_current_thread k' = Some d"
      "\<And>q. rt_object_get_type q k' = rt_object_get_type q k" by auto
  have inv: "sched_inv k" "thread_timers_hard k" using rdy by (auto simp: kready_def)
  note b = ipc_block_spec [OF bl inv(1) st(1) h inv(2)]
  show thesis using that [OF bl k'(1) b(3) k'(2) b(2) _ k'(3)] b(4) [of h] h by auto
qed

lemma ipc_wake_total:
  assumes rdy: "kready k" and cur: "rt_current_thread k = Some c" and h: "h = Suspend r \<or> h = Sender r"
  obtains k' d where "ipc_wake h k = Some k'" "kready k'" "kframe k k'" "rt_current_thread k' = Some d"
    "tlists k' h = tl (tlists k h)"
    "\<And>t ts. tlists k h = t # ts \<Longrightarrow> tstat k' t \<in> {RT_THREAD_READY, RT_THREAD_RUNNING}"
    "\<And>q. rt_object_get_type q k' = rt_object_get_type q k"
proof (cases "tlists k h")
  case Nil
  show thesis using that [of k c] Nil rdy cur by (simp add: ipc_wake_def)
next
  case (Cons t ts)
  obtain k1 where k1: "ipc_list_resume h k = Some (RT_EOK, k1)" "kready k1"
    using ipc_list_resume_ready [OF rdy h Cons] by blast
  have inv: "sched_inv k" using rdy by (simp add: kready_def)
  from ipc_list_resume_spec [OF k1(1) inv h] Cons cur have
    s: "sched_inv k1" "kframe k k1" "rt_current_thread k1 = Some c"
      "tstat k1 t \<in> {RT_THREAD_READY, RT_THREAD_RUNNING}" "tlists k1 h = ts"
    using h by auto
  obtain k2 where k2: "rt_schedule k1 = Some k2"
    using rt_schedule_returns [OF s(1,3)] k1(2) by (auto simp: kready_def)
  obtain d where d: "rt_current_thread k2 = Some d" using sched_inv_rt_schedule(2) [OF s(1,3) k2] by blast
  have ty: "rt_object_get_type q k2 = rt_object_get_type q k" for q
  proof -
    obtain e where "rt_thread_resume t k = Some (e, k1)"
      using k1(1) Cons by (auto simp: ipc_list_resume_def bind_eq_Some_conv)
    from rt_thread_resume_types [OF this] show ?thesis
      using same_but_sched_sel(6) [OF rt_schedule_same [OF k2]] by (simp add: rt_object_get_type_def)
  qed
  show thesis
  proof (rule that [OF _ _ _ d])
    show "ipc_wake h k = Some k2" using Cons k1(1) k2 by (simp add: ipc_wake_def)
    show "kready k2" using kready_schedule [OF k2 k1(2) s(3)] .
    show "kframe k k2" using kframe_trans [OF s(2) kframe_sched [OF rt_schedule_same [OF k2]]] .
    show "tlists k2 h = tl (tlists k h)"
      using rt_schedule_wait_lists [OF s(1,3) k2, of h] h s(5) Cons by auto
    show "tstat k2 u \<in> {RT_THREAD_READY, RT_THREAD_RUNNING}" if "tlists k h = u # us" for u us
      using rt_schedule_keeps_runnable [OF s(1,3) k2 s(4)] that Cons by simp
  qed (rule ty)
qed

lemma resume_all_total:
  assumes rdy: "kready k" and h: "h = Suspend r \<or> h = Sender r"
  obtains k' where "ipc_list_resume_all h k = Some (RT_EOK, k')" "kready k'"
    "rt_current_thread k' = rt_current_thread k" "mailboxes k' = mailboxes k" "msgqueues k' = msgqueues k"
    "mempools k' = mempools k" "tlists k' h = []" "\<And>q. rt_object_get_type q k' = rt_object_get_type q k"
proof -
  have inv: "sched_inv k" using rdy by (simp add: kready_def)
  have "resumable k t" if "t \<in> set (tlists k h)" for t
    using waiter_suspended [OF inv that h] rdy by (simp add: kready_def live_ok_def live_def)
  then show thesis
    using that ipc_list_resume_all_spec [OF inv h] kready_resume_all [OF rdy h] h by auto
qed

text \<open>The calls that are legal: without waiting from any context, with waiting from a thread.\<close>

definition may_wait :: "tid \<Rightarrow> ipc_ref \<Rightarrow> 32 word \<Rightarrow> kernel \<Rightarrow> bool" where
  "may_wait c r timeout k \<longleftrightarrow> running c k \<and> flag_ok (ipc_flag k r) \<and> time_ok timeout"

definition chan_legal :: "tid \<Rightarrow> ipc_ref \<Rightarrow> 32 word \<Rightarrow> kernel \<Rightarrow> bool" where
  "chan_legal c r timeout k \<longleftrightarrow> timeout = 0 \<or> thread_context c k \<and> may_wait c r timeout k"

lemma chan_legal_attempt:
  assumes "chan_legal c r timeout k" "\<not> (x \<and> timeout = 0)"
  shows "x \<Longrightarrow> rt_thread_self k = Some c \<and> may_wait c r timeout k"
    and "RT_DEBUG_SCHEDULER_AVAILABLE (timeout \<noteq> 0) k = Some ()"
  using assms scheduler_available [of c k "timeout \<noteq> 0"]
  by (auto simp: chan_legal_def thread_context_def running_def rt_thread_self_def RT_DEBUG_SCHEDULER_AVAILABLE_def)

text \<open>A round of a waiting loop: clear the error and block.\<close>

lemma ipc_wait_total:
  assumes rdy: "kready k" and may: "may_wait c r timeout k" and h: "h = Suspend r \<or> h = Sender r"
  obtains k' d where
    "ipc_block h c (ipc_flag k r) timeout (upd_thread c (\<lambda>r. r\<lparr>thread_error := RT_EOK\<rparr>) k) = Some k'"
    "kready k'" "rt_current_thread k' = Some d" "tstat k' c = RT_THREAD_SUSPEND" "c \<in> set (tlists k' h)"
    "mailboxes k' = mailboxes k" "msgqueues k' = msgqueues k" "mempools k' = mempools k"
    "\<And>q. rt_object_get_type q k' = rt_object_get_type q k"
proof -
  let ?k1 = "upd_thread c (\<lambda>r. r\<lparr>thread_error := RT_EOK\<rparr>) k"
  have k1: "kready ?k1" "running c ?k1" "flag_ok (ipc_flag k r)" "time_ok timeout"
    using rdy may by (auto simp: running_def may_wait_def)
  obtain k' d where b: "ipc_block h c (ipc_flag k r) timeout ?k1 = Some k'" "kready k'" "kframe ?k1 k'"
    "rt_current_thread k' = Some d" "tstat k' c = RT_THREAD_SUSPEND"
    "tlists k' h = wait_insert (ipc_flag k r) (tprio ?k1) c (tlists ?k1 h)"
    "\<And>q. rt_object_get_type q k' = rt_object_get_type q ?k1"
    using ipc_block_total [OF k1 h] by blast
  show thesis
  proof (rule that [OF b(1,2,4,5)])
    show "c \<in> set (tlists k' h)" by (simp add: b(6))
    show "mailboxes k' = mailboxes k" "msgqueues k' = msgqueues k" "mempools k' = mempools k"
      using kframe_sel(4-6) [OF b(3)] by (simp_all add: upd_thread_def)
    show "rt_object_get_type q k' = rt_object_get_type q k" for q
      using b(7) by (simp add: rt_object_get_type_def)
  qed
qed

text \<open>The same for the objects outside the kernel registry, which always wait in order of arrival: calls
  without waiting are legal from any context, calls with waiting from a thread.\<close>

definition fifo_may_wait :: "tid \<Rightarrow> 32 word \<Rightarrow> kernel \<Rightarrow> bool" where
  "fifo_may_wait c timeout k \<longleftrightarrow> running c k \<and> time_ok timeout"

definition fifo_legal :: "tid \<Rightarrow> 32 word \<Rightarrow> kernel \<Rightarrow> bool" where
  "fifo_legal c timeout k \<longleftrightarrow> timeout = 0 \<or> thread_context c k \<and> fifo_may_wait c timeout k"

lemma fifo_legal_attempt:
  assumes "fifo_legal c timeout k"
  shows "timeout \<noteq> 0 \<Longrightarrow> rt_thread_self k = Some c \<and> fifo_may_wait c timeout k"
    and "RT_DEBUG_SCHEDULER_AVAILABLE (timeout \<noteq> 0) k = Some ()"
  using assms scheduler_available [of c k "timeout \<noteq> 0"]
  by (auto simp: fifo_legal_def thread_context_def running_def rt_thread_self_def RT_DEBUG_SCHEDULER_AVAILABLE_def)

lemma fifo_wait_total:
  assumes rdy: "kready k" and may: "fifo_may_wait c timeout k" and h: "h = Suspend r \<or> h = Sender r"
  obtains k' d where
    "ipc_block h c RT_IPC_FLAG_FIFO timeout (upd_thread c (\<lambda>r. r\<lparr>thread_error := RT_EOK\<rparr>) k) = Some k'"
    "kready k'" "rt_current_thread k' = Some d" "tstat k' c = RT_THREAD_SUSPEND" "tlists k' h = tlists k h @ [c]"
proof -
  let ?k1 = "upd_thread c (\<lambda>r. r\<lparr>thread_error := RT_EOK\<rparr>) k"
  have k1: "kready ?k1" "running c ?k1" "flag_ok RT_IPC_FLAG_FIFO" "time_ok timeout"
    using rdy may by (auto simp: running_def fifo_may_wait_def flag_ok_def)
  show thesis
    by (rule ipc_block_total [OF k1 h]) (use that in \<open>auto simp: wait_insert_def\<close>)
qed

lemma kready_scheduled:
  assumes "kready k" "rt_current_thread k = Some c"
  obtains k' d where "rt_schedule k = Some k'" "kready k'" "rt_current_thread k' = Some d"
proof -
  have inv: "sched_inv k" "live_ok k" using assms(1) by (simp_all add: kready_def)
  obtain k' where k': "rt_schedule k = Some k'" using rt_schedule_returns [OF inv(1) assms(2) inv(2)] by blast
  show thesis
    using that [OF k' kready_schedule [OF k' assms]] sched_inv_rt_schedule(2) [OF inv(1) assms(2) k'] by blast
qed

text \<open>The first of the threads, if there is one, can run.\<close>

definition first_runnable :: "kernel \<Rightarrow> tid list \<Rightarrow> bool" where
  "first_runnable k ts \<longleftrightarrow> (\<forall>t \<in> set (take 1 ts). tstat k t \<in> {RT_THREAD_READY, RT_THREAD_RUNNING})"

section \<open>The contract of a message channel\<close>

datatype 'm chan_event = Sent 'm | Urgent 'm | Received 'm | Silent | Cleared

fun chan_update :: "'m chan_event \<Rightarrow> 'm list \<Rightarrow> 'm list option" where
  "chan_update (Sent m) ms = Some (ms @ [m])"
| "chan_update (Urgent m) ms = Some (m # ms)"
| "chan_update (Received m) (x # xs) = (if x = m then Some xs else None)"
| "chan_update (Received m) [] = None"
| "chan_update Silent ms = Some ms"
| "chan_update Cleared ms = Some []"

fun chan_sent :: "'m chan_event list \<Rightarrow> 'm list" where
  "chan_sent [] = []"
| "chan_sent (Sent m # es) = m # chan_sent es"
| "chan_sent (_ # es) = chan_sent es"

fun chan_urgent :: "'m chan_event list \<Rightarrow> 'm list" where
  "chan_urgent [] = []"
| "chan_urgent (Urgent m # es) = m # chan_urgent es"
| "chan_urgent (_ # es) = chan_urgent es"

fun chan_received :: "'m chan_event list \<Rightarrow> 'm list" where
  "chan_received [] = []"
| "chan_received (Received m # es) = m # chan_received es"
| "chan_received (_ # es) = chan_received es"

inductive trace :: "('k \<Rightarrow> 'm chan_event \<Rightarrow> 'k \<Rightarrow> bool) \<Rightarrow> 'k \<Rightarrow> 'm chan_event list \<Rightarrow> 'k \<Rightarrow> bool"
  for step where
  trace_Nil: "trace step k [] k"
| trace_Cons: "step k e k1 \<Longrightarrow> trace step k1 es k2 \<Longrightarrow> trace step k (e # es) k2"

lemma chan_update_Received: "chan_update (Received m) ms = Some ms' \<longleftrightarrow> ms = m # ms'"
  by (cases ms) auto

text \<open>The events that the results of the operations stand for.\<close>

definition send_event :: "'m \<Rightarrow> int outcome \<Rightarrow> 'm chan_event" where
  "send_event v r = (if r = Return RT_EOK then Sent v else Silent)"

definition urgent_event :: "'m \<Rightarrow> int \<Rightarrow> 'm chan_event" where
  "urgent_event v e = (if e = RT_EOK then Urgent v else Silent)"

definition recv_event :: "(int \<times> 'm option) outcome \<Rightarrow> 'm chan_event" where
  "recv_event r = (case r of Return (_, Some v) \<Rightarrow> Received v | _ \<Rightarrow> Silent)"

locale message_channel =
  fixes step :: "'k \<Rightarrow> 'm chan_event \<Rightarrow> 'k \<Rightarrow> bool"
    and msgs :: "'k \<Rightarrow> 'm list" and inv :: "'k \<Rightarrow> bool" and cap :: "'k \<Rightarrow> nat"
  assumes step_inv: "inv k \<Longrightarrow> step k e k' \<Longrightarrow> inv k' \<and> cap k' = cap k"
    and step_msgs: "inv k \<Longrightarrow> step k e k' \<Longrightarrow> chan_update e (msgs k) = Some (msgs k')"
    and bounded: "inv k \<Longrightarrow> length (msgs k) \<le> cap k"
begin

lemma trace_inv: "trace step k es k' \<Longrightarrow> inv k \<Longrightarrow> inv k' \<and> cap k' = cap k"
  by (induction rule: trace.induct) (auto dest: step_inv)

lemma trace_bounded: "trace step k es k' \<Longrightarrow> inv k \<Longrightarrow> length (msgs k') \<le> cap k"
  using trace_inv bounded by metis

text \<open>Without urgent messages and resets the messages come out in the order they went in.\<close>

lemma fifo:
  "trace step k es k' \<Longrightarrow> inv k \<Longrightarrow> chan_urgent es = [] \<Longrightarrow> Cleared \<notin> set es \<Longrightarrow>
   chan_received es @ msgs k' = msgs k @ chan_sent es"
proof (induction rule: trace.induct)
  case (trace_Cons k e k1 es k2)
  note ih = trace_Cons.IH [OF conjunct1 [OF step_inv [OF trace_Cons.prems(1) trace_Cons.hyps(1)]]]
  show ?case
    using step_msgs [OF trace_Cons.prems(1) trace_Cons.hyps(1)] ih trace_Cons.prems(2,3)
    by (cases e) (auto simp: chan_update_Received)
qed simp

text \<open>Without resets no message is lost or duplicated.\<close>

lemma conservation:
  "trace step k es k' \<Longrightarrow> inv k \<Longrightarrow> Cleared \<notin> set es \<Longrightarrow>
   mset (chan_received es) + mset (msgs k') = mset (msgs k) + mset (chan_sent es) + mset (chan_urgent es)"
proof (induction rule: trace.induct)
  case (trace_Cons k e k1 es k2)
  note ih = trace_Cons.IH [OF conjunct1 [OF step_inv [OF trace_Cons.prems(1) trace_Cons.hyps(1)]]]
  show ?case
    using step_msgs [OF trace_Cons.prems(1) trace_Cons.hyps(1)] ih trace_Cons.prems(2)
    by (cases e) (auto simp: chan_update_Received dest: arg_cong [of _ _ mset])
qed simp

end

end
