(* ===== verification/Ipc_Mailbox.thy ===== *)
theory Ipc_Mailbox
  imports Ipc_Channel
begin

text \<open>
  Mailboxes (\<^verbatim>\<open>src/ipc.c\<close>): a ring of words with blocking senders and receivers. The loops of
  \<^verbatim>\<open>rt_mb_send_wait\<close> and \<^verbatim>\<open>rt_mb_recv\<close> are split where the caller is switched out: an attempt is one
  round of the loop, and the \<open>_resume\<close> operations are what the thread does when it runs again. The
  mailbox is shown to be a message channel in the sense of theory \<open>Ipc_Channel\<close>.
\<close>

section \<open>Operations\<close>

definition upd_mb :: "nat \<Rightarrow> (rt_mailbox \<Rightarrow> rt_mailbox) \<Rightarrow> kernel \<Rightarrow> kernel" where
  "upd_mb n f k = k\<lparr>mailboxes := (mailboxes k)(n := f (mailboxes k n))\<rparr>"

definition mb_reset :: "rt_mailbox \<Rightarrow> rt_mailbox" where
  "mb_reset m = m\<lparr>mb_entry := 0, mb_in_offset := 0, mb_out_offset := 0\<rparr>"

text \<open>\<open>pool\<close> is the memory at \<^verbatim>\<open>msgpool\<close>; \<^verbatim>\<open>size\<close> is cut to 16 bits when it is stored.\<close>

definition rt_mb_init ::
  "nat \<Rightarrow> string \<Rightarrow> 32 word list \<Rightarrow> 32 word \<Rightarrow> 8 word \<Rightarrow> kernel \<Rightarrow> (int \<times> kernel) option" where
  "rt_mb_init n nm pool sz flag k = do {
     rt_assert (flag = RT_IPC_FLAG_FIFO \<or> flag = RT_IPC_FLAG_PRIO);
     k1 \<leftarrow> rt_object_init (Obj_ipc (Mailbox n)) RT_Object_Class_MailBox nm k;
     let k2 = set_ipc_flag (Mailbox n) flag k1;
     let k3 = ipc_object_init (Mailbox n) k2;
     let k4 = upd_mb n (\<lambda>m. mb_reset (m\<lparr>mb_pool := pool, mb_size := ucast sz\<rparr>)) k3;
     Some (RT_EOK, sender_list_init (Mailbox n) k4) }"

definition rt_mb_detach :: "nat \<Rightarrow> kernel \<Rightarrow> (int \<times> kernel) option" where
  "rt_mb_detach n k = do {
     rt_assert (rt_object_get_type (Obj_ipc (Mailbox n)) k = RT_Object_Class_MailBox);
     rt_assert (rt_object_is_systemobject (Obj_ipc (Mailbox n)) k);
     (_, k1) \<leftarrow> ipc_list_resume_all (Suspend (Mailbox n)) k;
     (_, k2) \<leftarrow> ipc_list_resume_all (Sender (Mailbox n)) k1;
     Some (RT_EOK, rt_object_detach (Obj_ipc (Mailbox n)) k2) }"

text \<open>\<open>mem\<close> is the object the heap returns, \<open>pool\<close> the memory for the messages.\<close>

definition rt_mb_create :: "string \<Rightarrow> 32 word \<Rightarrow> 8 word \<Rightarrow> nat option \<Rightarrow> 32 word list option \<Rightarrow> kernel \<Rightarrow>
    (nat option \<times> kernel) option" where
  "rt_mb_create nm sz flag mem pool k = do {
     rt_assert (flag = RT_IPC_FLAG_FIFO \<or> flag = RT_IPC_FLAG_PRIO);
     RT_DEBUG_NOT_IN_INTERRUPT k;
     (_, k1) \<leftarrow> rt_object_allocate RT_Object_Class_MailBox nm (map_option (Obj_ipc \<circ> Mailbox) mem) k;
     case mem of
       None \<Rightarrow> Some (None, k1)
     | Some n \<Rightarrow>
         let k2 = set_ipc_flag (Mailbox n) flag k1;
             k3 = ipc_object_init (Mailbox n) k2;
             k4 = upd_mb n (\<lambda>m. m\<lparr>mb_size := ucast sz\<rparr>) k3
         in (case pool of
               None \<Rightarrow> do {
                 k5 \<leftarrow> rt_object_delete (Obj_ipc (Mailbox n)) k4;
                 Some (None, k5) }
             | Some p \<Rightarrow>
                 let k5 = upd_mb n (\<lambda>m. mb_reset (m\<lparr>mb_pool := p\<rparr>)) k4
                 in Some (Some n, sender_list_init (Mailbox n) k5)) }"

definition rt_mb_delete :: "nat \<Rightarrow> kernel \<Rightarrow> (int \<times> kernel) option" where
  "rt_mb_delete n k = do {
     rt_assert (rt_object_get_type (Obj_ipc (Mailbox n)) k = RT_Object_Class_MailBox);
     rt_assert (\<not> rt_object_is_systemobject (Obj_ipc (Mailbox n)) k);
     RT_DEBUG_NOT_IN_INTERRUPT k;
     (_, k1) \<leftarrow> ipc_list_resume_all (Suspend (Mailbox n)) k;
     (_, k2) \<leftarrow> ipc_list_resume_all (Sender (Mailbox n)) k1;
     k3 \<leftarrow> rt_object_delete (Obj_ipc (Mailbox n)) k2;
     Some (RT_EOK, k3) }"

text \<open>Writing to \<^verbatim>\<open>msg_pool[in_offset]\<close> and advancing; a write outside the pool has no defined
  result.\<close>

definition mb_store :: "32 word \<Rightarrow> rt_mailbox \<Rightarrow> rt_mailbox option" where
  "mb_store v m =
     (if unat (mb_in_offset m) < length (mb_pool m) then
        let i = mb_in_offset m + 1 in
        Some (m\<lparr>mb_pool := (mb_pool m)[unat (mb_in_offset m) := v],
                mb_in_offset := (if i \<ge> mb_size m then 0 else i)\<rparr>)
      else None)"

definition mb_send_finish :: "nat \<Rightarrow> 32 word \<Rightarrow> kernel \<Rightarrow> (int \<times> kernel) option" where
  "mb_send_finish n v k = do {
     m1 \<leftarrow> mb_store v (mailboxes k n);
     let k1 = upd_mb n (\<lambda>_. m1) k;
     if mb_entry m1 < 0xFFFF then do {
       let k2 = upd_mb n (\<lambda>m. m\<lparr>mb_entry := mb_entry m + 1\<rparr>) k1;
       k3 \<leftarrow> ipc_wake (Suspend (Mailbox n)) k2;
       Some (RT_EOK, k3) }
     else Some (- RT_EFULL, k1) }"

text \<open>One round of the sending loop for the thread \<open>th\<close>, and what follows the loop.\<close>

definition mb_send_attempt ::
  "tid option \<Rightarrow> nat \<Rightarrow> 32 word \<Rightarrow> 32 word \<Rightarrow> kernel \<Rightarrow> (int outcome \<times> kernel) option" where
  "mb_send_attempt th n v timeout k =
     (if mb_entry (mailboxes k n) = mb_size (mailboxes k n) then do {
        t \<leftarrow> th;
        let k1 = upd_thread t (\<lambda>r. r\<lparr>thread_error := RT_EOK\<rparr>) k;
        if timeout = 0 then Some (Return (- RT_EFULL), k1)
        else do {
          k2 \<leftarrow> ipc_block (Sender (Mailbox n)) t (ipc_flag k1 (Mailbox n)) timeout k1;
          Some (Block, k2) } }
      else do {
        (e, k1) \<leftarrow> mb_send_finish n v k;
        Some (Return e, k1) })"

definition rt_mb_send_wait ::
  "nat \<Rightarrow> 32 word \<Rightarrow> 32 word \<Rightarrow> kernel \<Rightarrow> (int outcome \<times> kernel) option" where
  "rt_mb_send_wait n v timeout k = do {
     rt_assert (rt_object_get_type (Obj_ipc (Mailbox n)) k = RT_Object_Class_MailBox);
     RT_DEBUG_SCHEDULER_AVAILABLE (timeout \<noteq> 0) k;
     if mb_entry (mailboxes k n) = mb_size (mailboxes k n) \<and> timeout = 0
     then Some (Return (- RT_EFULL), k)
     else mb_send_attempt (rt_thread_self k) n v timeout k }"

text \<open>The sender \<open>t\<close> that blocked at tick \<open>tick0\<close> runs again.\<close>

definition rt_mb_send_wait_resume ::
  "nat \<Rightarrow> 32 word \<Rightarrow> tid \<Rightarrow> 32 word \<Rightarrow> 32 word \<Rightarrow> kernel \<Rightarrow> (int outcome \<times> kernel) option" where
  "rt_mb_send_wait_resume n v t timeout tick0 k =
     (if thread_error (threads k t) \<noteq> RT_EOK then Some (Return (thread_error (threads k t)), k)
      else mb_send_attempt (Some t) n v (remaining_timeout timeout tick0 k) k)"

definition rt_mb_send :: "nat \<Rightarrow> 32 word \<Rightarrow> kernel \<Rightarrow> (int outcome \<times> kernel) option" where
  "rt_mb_send n v k = rt_mb_send_wait n v 0 k"

definition rt_mb_urgent :: "nat \<Rightarrow> 32 word \<Rightarrow> kernel \<Rightarrow> (int \<times> kernel) option" where
  "rt_mb_urgent n v k = do {
     rt_assert (rt_object_get_type (Obj_ipc (Mailbox n)) k = RT_Object_Class_MailBox);
     let m = mailboxes k n;
     if mb_entry m = mb_size m then Some (- RT_EFULL, k)
     else do {
       let i = (if mb_out_offset m > 0 then mb_out_offset m - 1 else mb_size m - 1);
       rt_assert (unat i < length (mb_pool m));
       let k1 = upd_mb n (\<lambda>m. m\<lparr>mb_out_offset := i, mb_pool := (mb_pool m)[unat i := v],
                  mb_entry := mb_entry m + 1\<rparr>) k;
       k2 \<leftarrow> ipc_wake (Suspend (Mailbox n)) k1;
       Some (RT_EOK, k2) } }"

definition mb_recv_finish :: "nat \<Rightarrow> kernel \<Rightarrow> (32 word \<times> kernel) option" where
  "mb_recv_finish n k = do {
     let m = mailboxes k n;
     rt_assert (unat (mb_out_offset m) < length (mb_pool m));
     let v = mb_pool m ! unat (mb_out_offset m);
     let i = mb_out_offset m + 1;
     let k1 = upd_mb n (\<lambda>m. m\<lparr>mb_out_offset := (if i \<ge> mb_size m then 0 else i),
                mb_entry := (if mb_entry m > 0 then mb_entry m - 1 else mb_entry m)\<rparr>) k;
     k2 \<leftarrow> ipc_wake (Sender (Mailbox n)) k1;
     Some (v, k2) }"

text \<open>A receive returns the error code and the word it stores at \<^verbatim>\<open>value\<close>.\<close>

definition mb_recv_attempt ::
  "tid option \<Rightarrow> nat \<Rightarrow> 32 word \<Rightarrow> kernel \<Rightarrow> ((int \<times> 32 word option) outcome \<times> kernel) option" where
  "mb_recv_attempt th n timeout k =
     (if mb_entry (mailboxes k n) = 0 then do {
        t \<leftarrow> th;
        let k1 = upd_thread t (\<lambda>r. r\<lparr>thread_error := RT_EOK\<rparr>) k;
        if timeout = 0 then
          Some (Return (- RT_ETIMEOUT, None), upd_thread t (\<lambda>r. r\<lparr>thread_error := - RT_ETIMEOUT\<rparr>) k1)
        else do {
          k2 \<leftarrow> ipc_block (Suspend (Mailbox n)) t (ipc_flag k1 (Mailbox n)) timeout k1;
          Some (Block, k2) } }
      else do {
        (v, k1) \<leftarrow> mb_recv_finish n k;
        Some (Return (RT_EOK, Some v), k1) })"

definition rt_mb_recv ::
  "nat \<Rightarrow> 32 word \<Rightarrow> kernel \<Rightarrow> ((int \<times> 32 word option) outcome \<times> kernel) option" where
  "rt_mb_recv n timeout k = do {
     rt_assert (rt_object_get_type (Obj_ipc (Mailbox n)) k = RT_Object_Class_MailBox);
     RT_DEBUG_SCHEDULER_AVAILABLE (timeout \<noteq> 0) k;
     if mb_entry (mailboxes k n) = 0 \<and> timeout = 0 then Some (Return (- RT_ETIMEOUT, None), k)
     else mb_recv_attempt (rt_thread_self k) n timeout k }"

definition rt_mb_recv_resume ::
  "nat \<Rightarrow> tid \<Rightarrow> 32 word \<Rightarrow> 32 word \<Rightarrow> kernel \<Rightarrow> ((int \<times> 32 word option) outcome \<times> kernel) option" where
  "rt_mb_recv_resume n t timeout tick0 k =
     (if thread_error (threads k t) \<noteq> RT_EOK then Some (Return (thread_error (threads k t), None), k)
      else mb_recv_attempt (Some t) n (remaining_timeout timeout tick0 k) k)"

text \<open>\<open>reset\<close>: the command is \<^verbatim>\<open>RT_IPC_CMD_RESET\<close>.\<close>

definition rt_mb_control :: "nat \<Rightarrow> bool \<Rightarrow> kernel \<Rightarrow> (int \<times> kernel) option" where
  "rt_mb_control n reset k = do {
     rt_assert (rt_object_get_type (Obj_ipc (Mailbox n)) k = RT_Object_Class_MailBox);
     if reset then do {
       (_, k1) \<leftarrow> ipc_list_resume_all (Suspend (Mailbox n)) k;
       (_, k2) \<leftarrow> ipc_list_resume_all (Sender (Mailbox n)) k1;
       let k3 = upd_mb n mb_reset k2;
       k4 \<leftarrow> rt_schedule k3;
       Some (RT_EOK, k4) }
     else Some (- RT_ERROR, k) }"

section \<open>The ring of messages\<close>

definition mb_ok :: "rt_mailbox \<Rightarrow> bool" where
  "mb_ok m \<longleftrightarrow> 0 < mb_size m \<and> length (mb_pool m) = unat (mb_size m) \<and>
     unat (mb_entry m) \<le> unat (mb_size m) \<and> unat (mb_out_offset m) < unat (mb_size m) \<and>
     unat (mb_in_offset m) = (unat (mb_out_offset m) + unat (mb_entry m)) mod unat (mb_size m)"

definition mb_msgs :: "rt_mailbox \<Rightarrow> 32 word list" where
  "mb_msgs m = ring (unat (mb_size m)) (mb_pool m) (unat (mb_out_offset m)) (unat (mb_entry m))"

text \<open>Advancing an offset below the size.\<close>

lemma offset_next:
  assumes "unat (i :: 16 word) < unat s"
  shows "unat (if i + 1 \<ge> s then 0 else i + 1) = (unat i + 1) mod unat s"
proof -
  have "unat s < 2 ^ 16" by (rule unat_16_bound)
  then have "unat (i + 1) = unat i + 1" using assms by (simp add: unat_word_ariths)
  then show ?thesis using assms by (auto simp: word_le_nat_alt mod_if)
qed

lemma entry_next:
  assumes "unat (e :: 16 word) \<le> unat s" "e \<noteq> s"
  shows "unat (e + 1) = Suc (unat e)" "unat e < unat s" "e < 0xFFFF"
proof -
  show lt: "unat e < unat s" using assms by (simp add: le_less word_unat_eq_iff)
  then have "unat e < 0xFFFF" using unat_16_bound [of s] by simp
  then show "e < 0xFFFF" by (simp add: word_less_nat_alt)
  then show "unat (e + 1) = Suc (unat e)" by (rule u16_inc)
qed

lemma mb_store_spec:
  assumes ok: "mb_ok m" and room: "mb_entry m \<noteq> mb_size m"
  obtains m1 where "mb_store v m = Some m1" "mb_entry m1 = mb_entry m" "mb_entry m1 < 0xFFFF"
    "mb_ok (m1\<lparr>mb_entry := mb_entry m1 + 1\<rparr>)" "mb_size m1 = mb_size m"
    "mb_msgs (m1\<lparr>mb_entry := mb_entry m1 + 1\<rparr>) = mb_msgs m @ [v]"
proof -
  let ?s = "unat (mb_size m)" and ?o = "unat (mb_out_offset m)" and ?e = "unat (mb_entry m)"
  have in_off: "unat (mb_in_offset m) = (?o + ?e) mod ?s" and len: "length (mb_pool m) = ?s"
    and s: "0 < ?s" using ok by (auto simp: mb_ok_def word_less_nat_alt)
  then have lt: "unat (mb_in_offset m) < ?s" by simp
  note e = entry_next [of "mb_entry m" "mb_size m"]
  have e': "unat (mb_entry m + 1) = Suc ?e" "?e < ?s" "mb_entry m < 0xFFFF"
    using ok room by (auto simp: mb_ok_def intro: e)
  let ?m1 = "m\<lparr>mb_pool := (mb_pool m)[unat (mb_in_offset m) := v],
    mb_in_offset := (if mb_in_offset m + 1 \<ge> mb_size m then 0 else mb_in_offset m + 1)\<rparr>"
  have "mb_ok (?m1\<lparr>mb_entry := mb_entry m + 1\<rparr>)"
    using ok e' offset_next [OF lt] in_off by (simp add: mb_ok_def mod_Suc_eq)
  moreover have "mb_msgs (?m1\<lparr>mb_entry := mb_entry m + 1\<rparr>) = mb_msgs m @ [v]"
    using ring_snoc [OF e'(2), of "mb_pool m" ?o v] len by (simp add: mb_msgs_def e'(1) in_off)
  ultimately show thesis
    using that [of ?m1] e'(3) lt len by (simp add: mb_store_def Let_def)
qed

lemma mb_push_spec:
  assumes ok: "mb_ok m" and room: "mb_entry m \<noteq> mb_size m"
    and i: "i = (if mb_out_offset m > 0 then mb_out_offset m - 1 else mb_size m - 1)"
    and m1: "m1 = m\<lparr>mb_out_offset := i, mb_pool := (mb_pool m)[unat i := v], mb_entry := mb_entry m + 1\<rparr>"
  shows "unat i < length (mb_pool m)" "mb_ok m1" "mb_msgs m1 = v # mb_msgs m" "mb_size m1 = mb_size m"
proof -
  let ?s = "unat (mb_size m)" and ?o = "unat (mb_out_offset m)" and ?e = "unat (mb_entry m)"
  have b: "length (mb_pool m) = ?s" "?o < ?s" "unat (mb_in_offset m) = (?o + ?e) mod ?s" "0 < mb_size m"
    using ok by (auto simp: mb_ok_def)
  have e': "unat (mb_entry m + 1) = Suc ?e" "?e < ?s"
    using ok room entry_next [of "mb_entry m" "mb_size m"] by (auto simp: mb_ok_def)
  have ui: "unat i = (if ?o > 0 then ?o - 1 else ?s - 1)"
    using i word_dec_Suc [of "mb_out_offset m"] word_dec_Suc [OF b(4)]
    by (auto simp: word_less_nat_alt)
  then show lt: "unat i < length (mb_pool m)" using b by auto
  have eq: "unat i + Suc ?e = (if ?o > 0 then ?o + ?e else ?s + ?e)" using ui b(2) by auto
  have "(unat i + Suc ?e) mod ?s = (?o + ?e) mod ?s" unfolding eq by (cases "?o > 0") auto
  then show "mb_ok m1" using ok e' lt b by (simp add: m1 mb_ok_def)
  show "mb_msgs m1 = v # mb_msgs m"
    using ring_Cons [OF b(2) e'(2) eq_refl [OF b(1) [symmetric]] ui, of v] e'(1)
    by (simp add: m1 mb_msgs_def)
qed (simp add: m1)

lemma mb_pop_spec:
  assumes ok: "mb_ok m" and ne: "mb_entry m \<noteq> 0"
    and m1: "m1 = m\<lparr>mb_out_offset := (if mb_out_offset m + 1 \<ge> mb_size m then 0 else mb_out_offset m + 1),
      mb_entry := (if mb_entry m > 0 then mb_entry m - 1 else mb_entry m)\<rparr>"
  shows "unat (mb_out_offset m) < length (mb_pool m)" "mb_ok m1" "mb_size m1 = mb_size m"
    "mb_msgs m = mb_pool m ! unat (mb_out_offset m) # mb_msgs m1"
proof -
  let ?s = "unat (mb_size m)" and ?o = "unat (mb_out_offset m)" and ?e = "unat (mb_entry m)"
  have b: "length (mb_pool m) = ?s" "?o < ?s" "unat (mb_in_offset m) = (?o + ?e) mod ?s"
    using ok by (auto simp: mb_ok_def)
  then show "unat (mb_out_offset m) < length (mb_pool m)" by simp
  have pos: "0 < mb_entry m" using ne word_zero_cases by blast
  note e' = word_dec_Suc [OF pos]
  note o' = offset_next [OF b(2)]
  have "((?o + 1) mod ?s + unat (mb_entry m - 1)) mod ?s = (?o + ?e) mod ?s"
    using e' by (simp add: mod_add_left_eq)
  then show "mb_ok m1" using ok pos e' o' b by (simp add: m1 mb_ok_def)
  have "mb_msgs m1 = drop 1 (mb_msgs m)"
    using ring_drop [of 1 ?e ?s "mb_pool m" ?o] pos e' o' by (simp add: m1 mb_msgs_def)
  moreover have "mb_msgs m ! 0 = mb_pool m ! ?o" "length (mb_msgs m) = ?e"
    using e' b(2) by (simp_all add: mb_msgs_def nth_ring)
  ultimately show "mb_msgs m = mb_pool m ! ?o # mb_msgs m1"
    using e' Cons_nth_drop_Suc [of 0 "mb_msgs m"] by simp
qed (simp add: m1)

section \<open>The operations on the kernel state\<close>

lemma upd_mb_sel [simp]:
  "mailboxes (upd_mb n f k) = (mailboxes k)(n := f (mailboxes k n))"
  "tlists (upd_mb n f k) = tlists k" "threads (upd_mb n f k) = threads k"
  "rt_current_thread (upd_mb n f k) = rt_current_thread k" "objects (upd_mb n f k) = objects k"
  "rt_thread_ready_priority_group (upd_mb n f k) = rt_thread_ready_priority_group k"
  "rt_object_get_type q (upd_mb n f k) = rt_object_get_type q k"
  by (simp_all add: upd_mb_def rt_object_get_type_def)

lemma kready_upd_mb [simp]: "kready (upd_mb n f k) = kready k"
proof -
  have "sched_inv (upd_mb n f k) = sched_inv k"
    unfolding sched_inv_def by (rule sched_inv_except_cong) simp_all
  then show ?thesis
    using live_ok_cong [of "upd_mb n f k" k] by (auto simp: kready_def thread_timers_hard_def)
qed

lemma mailboxes_upd_thread [simp]: "mailboxes (upd_thread t f k) = mailboxes k"
  by (simp add: upd_thread_def)

text \<open>The invariant of a system with mailbox \<open>n\<close>.\<close>

definition mb_inv :: "nat \<Rightarrow> kernel \<Rightarrow> bool" where
  "mb_inv n k \<longleftrightarrow> kready k \<and> rt_current_thread k \<noteq> None \<and> mb_ok (mailboxes k n) \<and>
     rt_object_get_type (Obj_ipc (Mailbox n)) k = RT_Object_Class_MailBox"

lemma mb_send_attempt_spec:
  assumes inv: "mb_inv n k"
    and legal: "mb_entry (mailboxes k n) = mb_size (mailboxes k n) \<Longrightarrow>
      th = Some c \<and> may_wait c (Mailbox n) timeout k"
  obtains (sent) k' where "mb_send_attempt th n v timeout k = Some (Return RT_EOK, k')" "mb_inv n k'"
      "mb_msgs (mailboxes k' n) = mb_msgs (mailboxes k n) @ [v]"
      "mb_size (mailboxes k' n) = mb_size (mailboxes k n)"
      "mb_entry (mailboxes k n) \<noteq> mb_size (mailboxes k n)"
      "tlists k' (Suspend (Mailbox n)) = tl (tlists k (Suspend (Mailbox n)))"
      "\<And>t ts. tlists k (Suspend (Mailbox n)) = t # ts \<Longrightarrow> tstat k' t \<in> {RT_THREAD_READY, RT_THREAD_RUNNING}"
  | (full) k' where "mb_send_attempt th n v timeout k = Some (Return (- RT_EFULL), k')" "mb_inv n k'"
      "timeout = 0" "mb_entry (mailboxes k n) = mb_size (mailboxes k n)" "mailboxes k' = mailboxes k"
  | (wait) k' where "mb_send_attempt th n v timeout k = Some (Block, k')" "mb_inv n k'"
      "timeout \<noteq> 0" "mb_entry (mailboxes k n) = mb_size (mailboxes k n)" "mailboxes k' = mailboxes k"
      "tstat k' c = RT_THREAD_SUSPEND" "c \<in> set (tlists k' (Sender (Mailbox n)))"
proof (cases "mb_entry (mailboxes k n) = mb_size (mailboxes k n)")
  case False
  have ok: "mb_ok (mailboxes k n)" using inv by (simp add: mb_inv_def)
  obtain m1 where m1: "mb_store v (mailboxes k n) = Some m1" "mb_entry m1 < 0xFFFF"
      "mb_ok (m1\<lparr>mb_entry := mb_entry m1 + 1\<rparr>)" "mb_size m1 = mb_size (mailboxes k n)"
      "mb_msgs (m1\<lparr>mb_entry := mb_entry m1 + 1\<rparr>) = mb_msgs (mailboxes k n) @ [v]"
    using mb_store_spec [OF ok False] by blast
  let ?k2 = "upd_mb n (\<lambda>m. m\<lparr>mb_entry := mb_entry m + 1\<rparr>) (upd_mb n (\<lambda>_. m1) k)"
  obtain c' where "kready ?k2" "rt_current_thread ?k2 = Some c'" using inv by (auto simp: mb_inv_def)
  then obtain k3 d where k3: "ipc_wake (Suspend (Mailbox n)) ?k2 = Some k3" "kready k3" "kframe ?k2 k3"
    "rt_current_thread k3 = Some d" "tlists k3 (Suspend (Mailbox n)) = tl (tlists ?k2 (Suspend (Mailbox n)))"
    "\<And>t ts. tlists ?k2 (Suspend (Mailbox n)) = t # ts \<Longrightarrow> tstat k3 t \<in> {RT_THREAD_READY, RT_THREAD_RUNNING}"
    "\<And>q. rt_object_get_type q k3 = rt_object_get_type q ?k2"
    using ipc_wake_total [OF _ _ disjI1 [OF refl]] by blast
  have "mb_send_attempt th n v timeout k = Some (Return RT_EOK, k3)"
    using False m1 k3(1) by (simp add: mb_send_attempt_def mb_send_finish_def Let_def)
  then show thesis
    using sent [of k3] k3 m1 inv False kframe_sel(4) [OF k3(3)] by (simp add: mb_inv_def)
next
  case True
  note l = legal [OF True, unfolded may_wait_def]
  let ?k1 = "upd_thread c (\<lambda>r. r\<lparr>thread_error := RT_EOK\<rparr>) k"
  have ty: "rt_object_get_type q ?k1 = rt_object_get_type q k" for q by (simp add: rt_object_get_type_def)
  show thesis
  proof (cases "timeout = 0")
    case True
    have "mb_send_attempt th n v timeout k = Some (Return (- RT_EFULL), ?k1)"
      using True \<open>mb_entry _ = _\<close> l by (simp add: mb_send_attempt_def)
    then show thesis using full [of ?k1] True \<open>mb_entry _ = _\<close> inv ty by (simp add: mb_inv_def)
  next
    case False
    have rdy: "kready k" and may: "may_wait c (Mailbox n) timeout k" using inv l by (auto simp: mb_inv_def may_wait_def)
    obtain k' d where b: "ipc_block (Sender (Mailbox n)) c (ipc_flag k (Mailbox n)) timeout ?k1 = Some k'"
      "kready k'" "rt_current_thread k' = Some d" "tstat k' c = RT_THREAD_SUSPEND"
      "c \<in> set (tlists k' (Sender (Mailbox n)))" "mailboxes k' = mailboxes k"
      "\<And>q. rt_object_get_type q k' = rt_object_get_type q k"
      using ipc_wait_total [OF rdy may disjI2 [OF refl]] by metis
    have "mb_send_attempt th n v timeout k = Some (Block, k')"
      using False True l b(1) by (simp add: mb_send_attempt_def)
    then show thesis
      using wait [of k'] True False b ty inv by (simp add: mb_inv_def)
  qed
qed

lemma mb_recv_attempt_spec:
  assumes inv: "mb_inv n k"
    and legal: "mb_entry (mailboxes k n) = 0 \<Longrightarrow> th = Some c \<and> may_wait c (Mailbox n) timeout k"
  obtains (received) v k' where "mb_recv_attempt th n timeout k = Some (Return (RT_EOK, Some v), k')"
      "mb_inv n k'" "mb_msgs (mailboxes k n) = v # mb_msgs (mailboxes k' n)"
      "mb_size (mailboxes k' n) = mb_size (mailboxes k n)"
      "tlists k' (Sender (Mailbox n)) = tl (tlists k (Sender (Mailbox n)))"
      "\<And>t ts. tlists k (Sender (Mailbox n)) = t # ts \<Longrightarrow> tstat k' t \<in> {RT_THREAD_READY, RT_THREAD_RUNNING}"
  | (empty) k' where "mb_recv_attempt th n timeout k = Some (Return (- RT_ETIMEOUT, None), k')"
      "mb_inv n k'" "timeout = 0" "mb_entry (mailboxes k n) = 0" "mailboxes k' = mailboxes k"
  | (wait) k' where "mb_recv_attempt th n timeout k = Some (Block, k')" "mb_inv n k'"
      "timeout \<noteq> 0" "mb_entry (mailboxes k n) = 0" "mailboxes k' = mailboxes k"
      "tstat k' c = RT_THREAD_SUSPEND" "c \<in> set (tlists k' (Suspend (Mailbox n)))"
proof (cases "mb_entry (mailboxes k n) = 0")
  case False
  let ?m = "mailboxes k n"
  have ok: "mb_ok ?m" using inv by (simp add: mb_inv_def)
  note p = mb_pop_spec [OF ok False refl]
  let ?k1 = "upd_mb n (\<lambda>m. m\<lparr>mb_out_offset := (if mb_out_offset ?m + 1 \<ge> mb_size m then 0 else mb_out_offset ?m + 1),
    mb_entry := (if mb_entry m > 0 then mb_entry m - 1 else mb_entry m)\<rparr>) k"
  obtain c' where "kready ?k1" "rt_current_thread ?k1 = Some c'" using inv by (auto simp: mb_inv_def)
  then obtain k3 d where k3: "ipc_wake (Sender (Mailbox n)) ?k1 = Some k3" "kready k3" "kframe ?k1 k3"
    "rt_current_thread k3 = Some d" "tlists k3 (Sender (Mailbox n)) = tl (tlists ?k1 (Sender (Mailbox n)))"
    "\<And>t ts. tlists ?k1 (Sender (Mailbox n)) = t # ts \<Longrightarrow> tstat k3 t \<in> {RT_THREAD_READY, RT_THREAD_RUNNING}"
    "\<And>q. rt_object_get_type q k3 = rt_object_get_type q ?k1"
    using ipc_wake_total [OF _ _ disjI2 [OF refl]] by blast
  have "mb_recv_attempt th n timeout k = Some (Return (RT_EOK, Some (mb_pool ?m ! unat (mb_out_offset ?m))), k3)"
    using False p(1) k3(1) by (simp add: mb_recv_attempt_def mb_recv_finish_def Let_def)
  then show thesis
    using received [of _ k3] k3 p inv False kframe_sel(4) [OF k3(3)] by (simp add: mb_inv_def)
next
  case True
  note l = legal [OF True, unfolded may_wait_def]
  let ?k1 = "upd_thread c (\<lambda>r. r\<lparr>thread_error := RT_EOK\<rparr>) k"
  have ty: "rt_object_get_type q (upd_thread c f k2) = rt_object_get_type q k2" for q f k2
    by (simp add: rt_object_get_type_def)
  show thesis
  proof (cases "timeout = 0")
    case True
    let ?k2 = "upd_thread c (\<lambda>r. r\<lparr>thread_error := - RT_ETIMEOUT\<rparr>) ?k1"
    have "mb_recv_attempt th n timeout k = Some (Return (- RT_ETIMEOUT, None), ?k2)"
      using True \<open>mb_entry _ = _\<close> l by (simp add: mb_recv_attempt_def)
    then show thesis using empty [of ?k2] True \<open>mb_entry _ = _\<close> inv ty by (simp add: mb_inv_def)
  next
    case False
    have rdy: "kready k" and may: "may_wait c (Mailbox n) timeout k" using inv l by (auto simp: mb_inv_def may_wait_def)
    obtain k' d where b: "ipc_block (Suspend (Mailbox n)) c (ipc_flag k (Mailbox n)) timeout ?k1 = Some k'"
      "kready k'" "rt_current_thread k' = Some d" "tstat k' c = RT_THREAD_SUSPEND"
      "c \<in> set (tlists k' (Suspend (Mailbox n)))" "mailboxes k' = mailboxes k"
      "\<And>q. rt_object_get_type q k' = rt_object_get_type q k"
      using ipc_wait_total [OF rdy may disjI1 [OF refl]] by metis
    have "mb_recv_attempt th n timeout k = Some (Block, k')"
      using False True l b(1) by (simp add: mb_recv_attempt_def)
    then show thesis
      using wait [of k'] True False b ty inv by (simp add: mb_inv_def)
  qed
qed

lemma rt_mb_urgent_spec:
  assumes inv: "mb_inv n k"
  obtains (sent) k' where "rt_mb_urgent n v k = Some (RT_EOK, k')" "mb_inv n k'"
      "mb_msgs (mailboxes k' n) = v # mb_msgs (mailboxes k n)"
      "mb_size (mailboxes k' n) = mb_size (mailboxes k n)"
  | (full) "rt_mb_urgent n v k = Some (- RT_EFULL, k)" "mb_entry (mailboxes k n) = mb_size (mailboxes k n)"
proof (cases "mb_entry (mailboxes k n) = mb_size (mailboxes k n)")
  case True
  then show thesis using full inv by (simp add: rt_mb_urgent_def mb_inv_def)
next
  case False
  let ?m = "mailboxes k n"
  let ?i = "if mb_out_offset ?m > 0 then mb_out_offset ?m - 1 else mb_size ?m - 1"
  have ok: "mb_ok ?m" using inv by (simp add: mb_inv_def)
  note p = mb_push_spec [where v = v, OF ok False refl refl]
  define k1 where "k1 = upd_mb n (\<lambda>m. m\<lparr>mb_out_offset := ?i, mb_pool := (mb_pool m)[unat ?i := v],
    mb_entry := mb_entry m + 1\<rparr>) k"
  obtain c' where k1: "kready k1" "rt_current_thread k1 = Some c'" using inv by (auto simp: mb_inv_def k1_def)
  from ipc_wake_total [OF k1 disjI1 [OF refl], of "Mailbox n"] obtain k3 d where
    k3: "ipc_wake (Suspend (Mailbox n)) k1 = Some k3" "kready k3" "kframe k1 k3"
      "rt_current_thread k3 = Some d" "\<And>q. rt_object_get_type q k3 = rt_object_get_type q k1" by metis
  have "rt_mb_urgent n v k = Some (RT_EOK, k3)"
    using False p(1) k3(1) inv by (simp add: rt_mb_urgent_def Let_def mb_inv_def k1_def)
  moreover have "mailboxes k3 n = mailboxes k1 n" using kframe_sel(4) [OF k3(3)] by simp
  ultimately show thesis
    using sent [of k3] k3(2,4,5) p inv by (simp add: mb_inv_def) (simp add: k1_def)
qed

lemma mb_reset_ok: "mb_ok m \<Longrightarrow> mb_ok (mb_reset m)" "mb_msgs (mb_reset m) = []" "mb_size (mb_reset m) = mb_size m"
  by (simp_all add: mb_ok_def mb_reset_def mb_msgs_def ring_def word_less_nat_alt)

lemma rt_mb_control_spec:
  assumes inv: "mb_inv n k"
  obtains k' where "rt_mb_control n True k = Some (RT_EOK, k')" "mb_inv n k'"
    "mailboxes k' n = mb_reset (mailboxes k n)"
proof -
  have rdy: "kready k" using inv by (simp add: mb_inv_def)
  obtain k1 where k1: "ipc_list_resume_all (Suspend (Mailbox n)) k = Some (RT_EOK, k1)" "kready k1"
    "rt_current_thread k1 = rt_current_thread k" "mailboxes k1 = mailboxes k"
    "\<And>q. rt_object_get_type q k1 = rt_object_get_type q k"
    using resume_all_total [OF rdy disjI1 [OF refl]] by metis
  obtain k2 where k2: "ipc_list_resume_all (Sender (Mailbox n)) k1 = Some (RT_EOK, k2)" "kready k2"
    "rt_current_thread k2 = rt_current_thread k1" "mailboxes k2 = mailboxes k1"
    "\<And>q. rt_object_get_type q k2 = rt_object_get_type q k1"
    using resume_all_total [OF k1(2) disjI2 [OF refl]] by metis
  let ?k3 = "upd_mb n mb_reset k2"
  have k3: "kready ?k3" "sched_inv ?k3" using k2(2) kready_upd_mb [of n mb_reset k2] by (auto simp: kready_def)
  obtain c where cur: "rt_current_thread ?k3 = Some c" using inv k1(3) k2(3) by (auto simp: mb_inv_def)
  obtain k4 where k4: "rt_schedule ?k3 = Some k4"
    using rt_schedule_returns [OF k3(2) cur] k3(1) by (auto simp: kready_def)
  note sel = same_but_sched_sel [OF rt_schedule_same [OF k4]]
  have "rt_mb_control n True k = Some (RT_EOK, k4)"
    using k1(1) k2(1) k4 inv by (simp add: rt_mb_control_def mb_inv_def)
  moreover have "mailboxes k4 n = mb_reset (mailboxes k n)" using sel(11) k1(4) k2(4) by simp
  moreover have "rt_object_get_type q k4 = rt_object_get_type q k" for q
    using sel(6) k1(5) k2(5) by (simp add: rt_object_get_type_def)
  ultimately show thesis
    using that [of k4] kready_schedule [OF k4 k3(1) cur] sched_inv_rt_schedule(2) [OF k3(2) cur k4]
      mb_reset_ok(1) inv by (auto simp: mb_inv_def)
qed

section \<open>A mailbox is a message channel\<close>

text \<open>Everything that can happen: calls of the operations, woken senders and receivers that go on,
  a reset, and any activity of the rest of the system that leaves the mailbox alone.\<close>

inductive mb_step :: "nat \<Rightarrow> kernel \<Rightarrow> 32 word chan_event \<Rightarrow> kernel \<Rightarrow> bool" for n where
  ms_send: "chan_legal c (Mailbox n) timeout k \<Longrightarrow> rt_mb_send_wait n v timeout k = Some (r, k') \<Longrightarrow>
    mb_step n k (send_event v r) k'"
| ms_send_resume: "may_wait c (Mailbox n) (remaining_timeout timeout tick0 k) k \<Longrightarrow>
    rt_mb_send_wait_resume n v c timeout tick0 k = Some (r, k') \<Longrightarrow> mb_step n k (send_event v r) k'"
| ms_urgent: "rt_mb_urgent n v k = Some (e, k') \<Longrightarrow> mb_step n k (urgent_event v e) k'"
| ms_recv: "chan_legal c (Mailbox n) timeout k \<Longrightarrow> rt_mb_recv n timeout k = Some (rv, k') \<Longrightarrow>
    mb_step n k (recv_event rv) k'"
| ms_recv_resume: "may_wait c (Mailbox n) (remaining_timeout timeout tick0 k) k \<Longrightarrow>
    rt_mb_recv_resume n c timeout tick0 k = Some (rv, k') \<Longrightarrow> mb_step n k (recv_event rv) k'"
| ms_reset: "rt_mb_control n True k = Some (e, k') \<Longrightarrow> mb_step n k Cleared k'"
| ms_other: "mb_inv n k' \<Longrightarrow> mailboxes k' n = mailboxes k n \<Longrightarrow> mb_step n k Silent k'"

definition chan_ok :: "nat \<Rightarrow> kernel \<Rightarrow> 32 word chan_event \<Rightarrow> kernel \<Rightarrow> bool" where
  "chan_ok n k e k' \<longleftrightarrow> mb_inv n k' \<and> mb_size (mailboxes k' n) = mb_size (mailboxes k n) \<and>
     chan_update e (mb_msgs (mailboxes k n)) = Some (mb_msgs (mailboxes k' n))"

lemma mb_send_attempt_chan:
  assumes "mb_send_attempt th n v timeout k = Some (r, k')" "mb_inv n k"
    and "mb_entry (mailboxes k n) = mb_size (mailboxes k n) \<Longrightarrow>
      th = Some c \<and> may_wait c (Mailbox n) timeout k"
  shows "chan_ok n k (send_event v r) k'"
  by (rule mb_send_attempt_spec [OF assms(2,3), where v = v])
    (use assms(1) in \<open>auto simp: chan_ok_def send_event_def rt_errors\<close>)

lemma mb_recv_attempt_chan:
  assumes "mb_recv_attempt th n timeout k = Some (r, k')" "mb_inv n k"
    and "mb_entry (mailboxes k n) = 0 \<Longrightarrow> th = Some c \<and> may_wait c (Mailbox n) timeout k"
  shows "chan_ok n k (recv_event r) k'"
  by (rule mb_recv_attempt_spec [OF assms(2,3)])
    (use assms(1) in \<open>auto simp: chan_ok_def recv_event_def\<close>)

lemma chan_ok_refl: "mb_inv n k \<Longrightarrow> chan_ok n k Silent k"
  by (simp add: chan_ok_def)

lemma mb_step_chan_ok:
  assumes "mb_step n k e k'" and inv: "mb_inv n k"
  shows "chan_ok n k e k'"
  using assms(1)
proof (cases rule: mb_step.cases)
  case (ms_send c timeout v r)
  let ?full = "mb_entry (mailboxes k n) = mb_size (mailboxes k n)"
  show ?thesis
  proof (cases "?full \<and> timeout = 0")
    case True
    then have "r = Return (- RT_EFULL)" "k' = k" using ms_send(3) by (auto simp: rt_mb_send_wait_def bind_eq_Some_conv)
    then show ?thesis using ms_send(1) chan_ok_refl [OF inv] by (simp add: send_event_def rt_errors)
  next
    case False
    note l = chan_legal_attempt [OF ms_send(2) False]
    have "mb_send_attempt (rt_thread_self k) n v timeout k = Some (r, k')"
      using ms_send(3) False by (auto simp: rt_mb_send_wait_def bind_eq_Some_conv)
    from mb_send_attempt_chan [OF this inv l(1)] show ?thesis using ms_send(1) by simp
  qed
next
  case (ms_send_resume c timeout tick0 v r)
  show ?thesis
  proof (cases "thread_error (threads k c) = RT_EOK")
    case True
    then show ?thesis
      using ms_send_resume mb_send_attempt_chan [OF _ inv, of "Some c" v] by (simp add: rt_mb_send_wait_resume_def)
  next
    case False
    then show ?thesis
      using ms_send_resume chan_ok_refl [OF inv] by (auto simp: rt_mb_send_wait_resume_def send_event_def)
  qed
next
  case (ms_urgent v e')
  show ?thesis
    by (rule rt_mb_urgent_spec [OF inv, where v = v])
      (use ms_urgent inv in \<open>auto simp: chan_ok_def urgent_event_def rt_errors\<close>)
next
  case (ms_recv c timeout rv)
  let ?empty = "mb_entry (mailboxes k n) = 0"
  show ?thesis
  proof (cases "?empty \<and> timeout = 0")
    case True
    then have "rv = Return (- RT_ETIMEOUT, None)" "k' = k"
      using ms_recv(3) by (auto simp: rt_mb_recv_def bind_eq_Some_conv)
    then show ?thesis using ms_recv(1) chan_ok_refl [OF inv] by (simp add: recv_event_def)
  next
    case False
    note l = chan_legal_attempt [OF ms_recv(2) False]
    have "mb_recv_attempt (rt_thread_self k) n timeout k = Some (rv, k')"
      using ms_recv(3) False by (auto simp: rt_mb_recv_def bind_eq_Some_conv)
    from mb_recv_attempt_chan [OF this inv l(1)] show ?thesis using ms_recv(1) by simp
  qed
next
  case (ms_recv_resume c timeout tick0 rv)
  show ?thesis
  proof (cases "thread_error (threads k c) = RT_EOK")
    case True
    then show ?thesis
      using ms_recv_resume mb_recv_attempt_chan [OF _ inv, of "Some c"] by (simp add: rt_mb_recv_resume_def)
  next
    case False
    then show ?thesis
      using ms_recv_resume chan_ok_refl [OF inv] by (auto simp: rt_mb_recv_resume_def recv_event_def)
  qed
next
  case (ms_reset e')
  show ?thesis
    by (rule rt_mb_control_spec [OF inv]) (use ms_reset in \<open>simp add: chan_ok_def mb_reset_ok(2,3)\<close>)
next
  case ms_other
  then show ?thesis by (simp add: chan_ok_def)
qed

interpretation mb: message_channel "mb_step n" "\<lambda>k. mb_msgs (mailboxes k n)" "mb_inv n"
  "\<lambda>k. unat (mb_size (mailboxes k n))" for n
proof
  show "length (mb_msgs (mailboxes k n)) \<le> unat (mb_size (mailboxes k n))" if "mb_inv n k" for k
    using that by (simp add: mb_inv_def mb_ok_def mb_msgs_def)
qed (auto dest: mb_step_chan_ok simp: chan_ok_def)

section \<open>The operations return\<close>

lemma rt_mb_send_wait_total:
  assumes "mb_inv n k" and "chan_legal c (Mailbox n) timeout k"
  shows "\<exists>r k'. rt_mb_send_wait n v timeout k = Some (r, k') \<and> mb_inv n k' \<and>
    (if length (mb_msgs (mailboxes k n)) < unat (mb_size (mailboxes k n)) then
       r = Return RT_EOK \<and> mb_msgs (mailboxes k' n) = mb_msgs (mailboxes k n) @ [v] \<and>
       tlists k' (Suspend (Mailbox n)) = tl (tlists k (Suspend (Mailbox n))) \<and>
       (\<forall>t \<in> set (take 1 (tlists k (Suspend (Mailbox n)))). tstat k' t \<in> {RT_THREAD_READY, RT_THREAD_RUNNING})
     else mailboxes k' = mailboxes k \<and>
       (if timeout = 0 then r = Return (- RT_EFULL)
        else r = Block \<and> tstat k' c = RT_THREAD_SUSPEND \<and> c \<in> set (tlists k' (Sender (Mailbox n)))))"
proof -
  let ?full = "mb_entry (mailboxes k n) = mb_size (mailboxes k n)"
  have room: "length (mb_msgs (mailboxes k n)) < unat (mb_size (mailboxes k n)) \<longleftrightarrow> \<not> ?full"
    using assms(1) by (auto simp: mb_inv_def mb_ok_def mb_msgs_def le_less word_unat_eq_iff)
  have ty: "rt_object_get_type (Obj_ipc (Mailbox n)) k = RT_Object_Class_MailBox" using assms(1) by (simp add: mb_inv_def)
  show ?thesis
  proof (cases "?full \<and> timeout = 0")
    case True
    then show ?thesis
      using assms room ty by (simp add: rt_mb_send_wait_def RT_DEBUG_SCHEDULER_AVAILABLE_def)
  next
    case False
    note l = chan_legal_attempt [OF assms(2) False]
    have eq: "rt_mb_send_wait n v timeout k = mb_send_attempt (rt_thread_self k) n v timeout k"
      using False ty l(2) by (auto simp: rt_mb_send_wait_def)
    show ?thesis
    proof (rule mb_send_attempt_spec [OF assms(1) l(1), where v = v])
      fix k' assume k': "mb_send_attempt (rt_thread_self k) n v timeout k = Some (Return RT_EOK, k')"
        "mb_inv n k'" "mb_msgs (mailboxes k' n) = mb_msgs (mailboxes k n) @ [v]" "\<not> ?full"
        "tlists k' (Suspend (Mailbox n)) = tl (tlists k (Suspend (Mailbox n)))"
        "\<And>t ts. tlists k (Suspend (Mailbox n)) = t # ts \<Longrightarrow> tstat k' t \<in> {RT_THREAD_READY, RT_THREAD_RUNNING}"
      then have "\<forall>t \<in> set (take 1 (tlists k (Suspend (Mailbox n)))). tstat k' t \<in> {RT_THREAD_READY, RT_THREAD_RUNNING}"
        by (cases "tlists k (Suspend (Mailbox n))") auto
      then show ?thesis using k' by (simp add: eq room)
    qed (use False in \<open>auto simp: eq room\<close>)
  qed
qed

lemma rt_mb_recv_total:
  assumes "mb_inv n k" and "chan_legal c (Mailbox n) timeout k"
  shows "\<exists>r k'. rt_mb_recv n timeout k = Some (r, k') \<and> mb_inv n k' \<and>
    (case mb_msgs (mailboxes k n) of
       v # vs \<Rightarrow> r = Return (RT_EOK, Some v) \<and> mb_msgs (mailboxes k' n) = vs \<and>
         tlists k' (Sender (Mailbox n)) = tl (tlists k (Sender (Mailbox n))) \<and>
         (\<forall>t \<in> set (take 1 (tlists k (Sender (Mailbox n)))). tstat k' t \<in> {RT_THREAD_READY, RT_THREAD_RUNNING})
     | [] \<Rightarrow> mailboxes k' = mailboxes k \<and>
         (if timeout = 0 then r = Return (- RT_ETIMEOUT, None)
          else r = Block \<and> tstat k' c = RT_THREAD_SUSPEND \<and> c \<in> set (tlists k' (Suspend (Mailbox n)))))"
proof -
  let ?empty = "mb_entry (mailboxes k n) = 0"
  have em: "?empty \<longleftrightarrow> mb_msgs (mailboxes k n) = []" by (simp add: mb_msgs_def ring_def unat_eq_0)
  have ty: "rt_object_get_type (Obj_ipc (Mailbox n)) k = RT_Object_Class_MailBox" using assms(1) by (simp add: mb_inv_def)
  show ?thesis
  proof (cases "?empty \<and> timeout = 0")
    case True
    then show ?thesis
      using assms em ty by (simp add: rt_mb_recv_def RT_DEBUG_SCHEDULER_AVAILABLE_def)
  next
    case False
    note l = chan_legal_attempt [OF assms(2) False]
    have eq: "rt_mb_recv n timeout k = mb_recv_attempt (rt_thread_self k) n timeout k"
      using False ty l(2) by (auto simp: rt_mb_recv_def)
    show ?thesis
    proof (rule mb_recv_attempt_spec [OF assms(1) l(1)])
      fix v k' assume k': "mb_recv_attempt (rt_thread_self k) n timeout k = Some (Return (RT_EOK, Some v), k')"
        "mb_inv n k'" "mb_msgs (mailboxes k n) = v # mb_msgs (mailboxes k' n)"
        "tlists k' (Sender (Mailbox n)) = tl (tlists k (Sender (Mailbox n)))"
        "\<And>t ts. tlists k (Sender (Mailbox n)) = t # ts \<Longrightarrow> tstat k' t \<in> {RT_THREAD_READY, RT_THREAD_RUNNING}"
      then have "\<forall>t \<in> set (take 1 (tlists k (Sender (Mailbox n)))). tstat k' t \<in> {RT_THREAD_READY, RT_THREAD_RUNNING}"
        by (cases "tlists k (Sender (Mailbox n))") auto
      then show ?thesis using k' by (simp add: eq)
    qed (use False in \<open>auto simp: eq em\<close>)
  qed
qed

text \<open>The example state with mailbox 0 of two cells.\<close>

definition mb_demo :: kernel where
  "mb_demo = upd_mb 0 (\<lambda>_. \<lparr>mb_pool = [0, 0], mb_size = 2, mb_entry = 0, mb_in_offset = 0,
     mb_out_offset = 0\<rparr>) three_threads"

lemma mb_demo_ok: "mb_inv 0 mb_demo" "mb_msgs (mailboxes mb_demo 0) = []"
  "mb_size (mailboxes mb_demo 0) = 2" "chan_legal c (Mailbox 0) 0 k"
  using kready_three_threads three_threads_types(5) [of 0]
  by (simp_all add: mb_demo_def mb_inv_def mb_ok_def mb_msgs_def ring_def chan_legal_def)

lemma mb_demo_trace:
  "\<exists>k'. trace (mb_step 0) mb_demo [Sent 7, Sent 8, Received 7] k' \<and> mb_msgs (mailboxes k' 0) = [8]"
proof -
  obtain k1 where k1: "rt_mb_send_wait 0 7 0 mb_demo = Some (Return RT_EOK, k1)" "mb_inv 0 k1"
    "mb_msgs (mailboxes k1 0) = [7]" "mb_size (mailboxes k1 0) = 2"
  proof -
    obtain k1 where k1: "rt_mb_send_wait 0 7 0 mb_demo = Some (Return RT_EOK, k1)" "mb_inv 0 k1"
      "mb_msgs (mailboxes k1 0) = [7]"
      using rt_mb_send_wait_total [OF mb_demo_ok(1) mb_demo_ok(4), of 7] mb_demo_ok(2,3) by auto
    have "mb_step 0 mb_demo (send_event 7 (Return RT_EOK)) k1" by (rule ms_send [OF mb_demo_ok(4) k1(1)])
    from mb_step_chan_ok [OF this mb_demo_ok(1)] have "mb_size (mailboxes k1 0) = 2"
      by (simp add: chan_ok_def mb_demo_ok(3))
    with k1 that show thesis by blast
  qed
  obtain k2 where k2: "rt_mb_send_wait 0 8 0 k1 = Some (Return RT_EOK, k2)" "mb_inv 0 k2"
    "mb_msgs (mailboxes k2 0) = [7, 8]"
    using rt_mb_send_wait_total [OF k1(2) mb_demo_ok(4), of 8] k1(3,4) by auto
  obtain k3 where k3: "rt_mb_recv 0 0 k2 = Some (Return (RT_EOK, Some 7), k3)" "mb_msgs (mailboxes k3 0) = [8]"
    using rt_mb_recv_total [OF k2(2) mb_demo_ok(4)] k2(3) by auto
  have "mb_step 0 mb_demo (Sent 7) k1" "mb_step 0 k1 (Sent 8) k2" "mb_step 0 k2 (Received 7) k3"
    using ms_send [OF mb_demo_ok(4) k1(1)] ms_send [OF mb_demo_ok(4) k2(1)] ms_recv [OF mb_demo_ok(4) k3(1)]
    by (simp_all add: send_event_def recv_event_def)
  then show ?thesis using k3(2) by (auto intro!: trace_Cons trace_Nil)
qed

section \<open>Properties\<close>

text \<open>C10: Order of a mailbox. For any sequence of sends and receives with any timeouts, by any threads,
  with senders and receivers that block, time out and go on, and any other activity in between: as
  long as no urgent message is sent and the mailbox is not reset, the messages received followed by
  the messages in the mailbox are the messages that were in it followed by the messages sent, and
  the mailbox never holds more messages than its size.\<close>

theorem mb_fifo:
  assumes "trace (mb_step n) k es k'" and "mb_inv n k" and "chan_urgent es = []" and "Cleared \<notin> set es"
  shows "chan_received es @ mb_msgs (mailboxes k' n) = mb_msgs (mailboxes k n) @ chan_sent es \<and>
    length (mb_msgs (mailboxes k' n)) \<le> unat (mb_size (mailboxes k n))"
  using mb.fifo [OF assms] mb.trace_bounded [OF assms(1,2)] by simp

theorem mb_fifo_witness:
  "\<exists>k'. trace (mb_step 0) mb_demo [Sent 7, Sent 8, Received 7] k' \<and> [7] @ mb_msgs (mailboxes k' 0) = [7, 8]"
proof -
  obtain k' where k': "trace (mb_step 0) mb_demo [Sent 7, Sent 8, Received 7] k'" using mb_demo_trace by blast
  from mb_fifo [OF k' mb_demo_ok(1)] k' show ?thesis using mb_demo_ok(2) by auto
qed

text \<open>No loss and no duplication, urgent messages included: over any sequence of operations without
  a reset, the messages received and those still in the mailbox are, as a multiset, the ones that
  were in it and the ones sent.\<close>

theorem mb_conservation:
  assumes "trace (mb_step n) k es k'" and "mb_inv n k" and "Cleared \<notin> set es"
  shows "mset (chan_received es) + mset (mb_msgs (mailboxes k' n)) =
    mset (mb_msgs (mailboxes k n)) + mset (chan_sent es) + mset (chan_urgent es)"
  by (rule mb.conservation [OF assms])

theorem mb_conservation_witness:
  "\<exists>k'. trace (mb_step 0) mb_demo [Sent 7, Sent 8, Received 7] k' \<and>
     mset [7] + mset (mb_msgs (mailboxes k' 0)) = mset [7, 8]"
proof -
  obtain k' where k': "trace (mb_step 0) mb_demo [Sent 7, Sent 8, Received 7] k'" using mb_demo_trace by blast
  from mb_conservation [OF k' mb_demo_ok(1)] k' show ?thesis using mb_demo_ok(2) by auto
qed

text \<open>Errors and blocking of \<^verbatim>\<open>rt_mb_send_wait\<close>. A legal call always returns or blocks: into a
  mailbox with room it stores the message at the end, returns \<^verbatim>\<open>RT_EOK\<close> and makes the first waiting
  receiver runnable; a full mailbox is left unchanged, and the call returns \<^verbatim>\<open>RT_EFULL\<close> at once
  without a timeout and otherwise suspends the caller on the sender list.\<close>

theorem rt_mb_send_wait_result:
  assumes "mb_inv n k" and "chan_legal c (Mailbox n) timeout k"
  shows "\<exists>r k'. rt_mb_send_wait n v timeout k = Some (r, k') \<and> mb_inv n k' \<and>
    (if length (mb_msgs (mailboxes k n)) < unat (mb_size (mailboxes k n)) then
       r = Return RT_EOK \<and> mb_msgs (mailboxes k' n) = mb_msgs (mailboxes k n) @ [v] \<and>
       tlists k' (Suspend (Mailbox n)) = tl (tlists k (Suspend (Mailbox n))) \<and>
       (\<forall>t \<in> set (take 1 (tlists k (Suspend (Mailbox n)))). tstat k' t \<in> {RT_THREAD_READY, RT_THREAD_RUNNING})
     else mailboxes k' = mailboxes k \<and>
       (if timeout = 0 then r = Return (- RT_EFULL)
        else r = Block \<and> tstat k' c = RT_THREAD_SUSPEND \<and> c \<in> set (tlists k' (Sender (Mailbox n)))))"
  by (rule rt_mb_send_wait_total [OF assms])

theorem rt_mb_send_wait_result_witness:
  "\<exists>k'. rt_mb_send_wait 0 7 0 mb_demo = Some (Return RT_EOK, k') \<and> mb_msgs (mailboxes k' 0) = [7]"
  using rt_mb_send_wait_result [OF mb_demo_ok(1) mb_demo_ok(4), of 7] mb_demo_ok(2,3) by auto

text \<open>Results of \<^verbatim>\<open>rt_mb_recv\<close>. A legal call always returns or blocks: it returns the oldest message
  with \<^verbatim>\<open>RT_EOK\<close>, removes it and makes the first waiting sender runnable; on an empty mailbox it
  returns \<^verbatim>\<open>RT_ETIMEOUT\<close> at once without a timeout and otherwise suspends the caller.\<close>

theorem rt_mb_recv_result:
  assumes "mb_inv n k" and "chan_legal c (Mailbox n) timeout k"
  shows "\<exists>r k'. rt_mb_recv n timeout k = Some (r, k') \<and> mb_inv n k' \<and>
    (case mb_msgs (mailboxes k n) of
       v # vs \<Rightarrow> r = Return (RT_EOK, Some v) \<and> mb_msgs (mailboxes k' n) = vs \<and>
         tlists k' (Sender (Mailbox n)) = tl (tlists k (Sender (Mailbox n))) \<and>
         (\<forall>t \<in> set (take 1 (tlists k (Sender (Mailbox n)))). tstat k' t \<in> {RT_THREAD_READY, RT_THREAD_RUNNING})
     | [] \<Rightarrow> mailboxes k' = mailboxes k \<and>
         (if timeout = 0 then r = Return (- RT_ETIMEOUT, None)
          else r = Block \<and> tstat k' c = RT_THREAD_SUSPEND \<and> c \<in> set (tlists k' (Suspend (Mailbox n)))))"
  by (rule rt_mb_recv_total [OF assms])

theorem rt_mb_recv_result_witness:
  "\<exists>k'. rt_mb_recv 0 0 mb_demo = Some (Return (- RT_ETIMEOUT, None), k') \<and> mailboxes k' = mailboxes mb_demo"
  using rt_mb_recv_result [OF mb_demo_ok(1) mb_demo_ok(4)] mb_demo_ok(2) by auto

end
