(* ===== verification/Data_Queue.thy ===== *)
theory Data_Queue
  imports Ipc_Channel
begin

text \<open>
  The data queue of \<^verbatim>\<open>components/drivers/ipc/dataqueue.c\<close>: a ring of items (a pointer and a size) with threads
  that wait to push and to pop. The queue is not a kernel object, so its structure is a record beside
  the kernel state; only its two lists of suspended threads are part of the kernel. As for mailboxes, an attempt
  is one round of the waiting loop, and the \<open>_resume\<close> operations are what a woken thread does. A thread
  that has to wait again waits for the full timeout. The queue is shown to be a message channel in the sense
  of theory \<open>Ipc_Channel\<close>.
\<close>

section \<open>State\<close>

abbreviation DATAQUEUE_MAGIC :: "32 word" where "DATAQUEUE_MAGIC \<equiv> 0xbead0e0e"
abbreviation RT_DATAQUEUE_EVENT_POP :: "32 word" where "RT_DATAQUEUE_EVENT_POP \<equiv> 1"
abbreviation RT_DATAQUEUE_EVENT_PUSH :: "32 word" where "RT_DATAQUEUE_EVENT_PUSH \<equiv> 2"
abbreviation RT_DATAQUEUE_EVENT_LWM :: "32 word" where "RT_DATAQUEUE_EVENT_LWM \<equiv> 3"

record rt_data_item =
  item_ptr :: "32 word"
  item_size :: "32 word"

text \<open>The indices are bit fields of 15 bits. \<open>evt_notify\<close>: a notification function is installed. Its call, the
  last action of a push or pop, is the event in the result of the operation.\<close>

record rt_data_queue =
  dq_magic :: "32 word"
  dq_size :: "16 word"
  dq_lwm :: "16 word"
  dq_get_index :: "15 word"
  dq_is_empty :: bool
  dq_put_index :: "15 word"
  dq_is_full :: bool
  dq_queue :: "rt_data_item list"
  evt_notify :: bool

type_synonym dq_state = "rt_data_queue \<times> kernel"

abbreviation pop_list :: "nat \<Rightarrow> list_head" where "pop_list n \<equiv> Suspend (Dataqueue n)"
abbreviation push_list :: "nat \<Rightarrow> list_head" where "push_list n \<equiv> Sender (Dataqueue n)"

section \<open>Operations\<close>

text \<open>\<open>mem\<close> is the memory the heap returns for the items.\<close>

definition rt_data_queue_init ::
  "nat \<Rightarrow> 16 word \<Rightarrow> 16 word \<Rightarrow> bool \<Rightarrow> rt_data_item list option \<Rightarrow> kernel \<Rightarrow> (int \<times> dq_state) option" where
  "rt_data_queue_init n sz lwm notify mem k = do {
     rt_assert (sz > 0);
     let q = \<lparr>dq_magic = DATAQUEUE_MAGIC, dq_size = sz, dq_lwm = lwm, dq_get_index = 0, dq_is_empty = True,
              dq_put_index = 0, dq_is_full = False, dq_queue = [], evt_notify = notify\<rparr>;
     let k1 = sender_list_init (Dataqueue n) (ipc_object_init (Dataqueue n) k);
     case mem of
       None \<Rightarrow> Some (- RT_ENOMEM, q, k1)
     | Some cells \<Rightarrow> Some (RT_EOK, q\<lparr>dq_queue := cells\<rparr>, k1) }"

definition rt_data_queue_len :: "rt_data_queue \<Rightarrow> 16 word option" where
  "rt_data_queue_len q = do {
     rt_assert (dq_magic q = DATAQUEUE_MAGIC);
     Some (if dq_is_empty q then 0
           else if dq_put_index q > dq_get_index q then ucast (dq_put_index q) - ucast (dq_get_index q)
           else dq_size q + ucast (dq_put_index q) - ucast (dq_get_index q)) }"

text \<open>The next index. The comparison with the size is made in \<^verbatim>\<open>int\<close>.\<close>

definition dq_next :: "rt_data_queue \<Rightarrow> 15 word \<Rightarrow> 15 word" where
  "dq_next q i = (if ucast (i + 1) = dq_size q then 0 else i + 1)"

definition dq_store :: "rt_data_item \<Rightarrow> rt_data_queue \<Rightarrow> rt_data_queue option" where
  "dq_store v q =
     (if unat (dq_put_index q) < length (dq_queue q) then
        let p = dq_next q (dq_put_index q) in
        Some (q\<lparr>dq_queue := (dq_queue q)[unat (dq_put_index q) := v], dq_put_index := p, dq_is_empty := False,
                dq_is_full := (if p = dq_get_index q then True else dq_is_full q)\<rparr>)
      else None)"

definition notified :: "rt_data_queue \<Rightarrow> 32 word \<Rightarrow> 32 word option" where
  "notified q ev = (if evt_notify q then Some ev else None)"

definition dq_push_attempt ::
  "tid option \<Rightarrow> nat \<Rightarrow> rt_data_item \<Rightarrow> 32 word \<Rightarrow> dq_state \<Rightarrow> (int outcome \<times> 32 word option \<times> dq_state) option" where
  "dq_push_attempt th n v timeout s = (let (q, k) = s in
     if dq_is_full q then
       if timeout = 0 then Some (Return (- RT_ETIMEOUT), None, q, k)
       else do {
         t \<leftarrow> th;
         let k1 = upd_thread t (\<lambda>r. r\<lparr>thread_error := RT_EOK\<rparr>) k;
         k2 \<leftarrow> ipc_block (push_list n) t RT_IPC_FLAG_FIFO timeout k1;
         Some (Block, None, q, k2) }
     else do {
       q1 \<leftarrow> dq_store v q;
       if tlists k (pop_list n) \<noteq> [] then do {
         k1 \<leftarrow> ipc_wake (pop_list n) k;
         Some (Return RT_EOK, None, q1, k1) }
       else Some (Return RT_EOK, notified q1 RT_DATAQUEUE_EVENT_PUSH, q1, k) })"

definition rt_data_queue_push ::
  "nat \<Rightarrow> rt_data_item \<Rightarrow> 32 word \<Rightarrow> dq_state \<Rightarrow> (int outcome \<times> 32 word option \<times> dq_state) option" where
  "rt_data_queue_push n v timeout s = do {
     rt_assert (dq_magic (fst s) = DATAQUEUE_MAGIC);
     RT_DEBUG_SCHEDULER_AVAILABLE (timeout \<noteq> 0) (snd s);
     dq_push_attempt (rt_thread_self (snd s)) n v timeout s }"

text \<open>The thread \<open>t\<close> that waited to push runs again.\<close>

definition rt_data_queue_push_resume ::
  "nat \<Rightarrow> rt_data_item \<Rightarrow> tid \<Rightarrow> 32 word \<Rightarrow> dq_state \<Rightarrow> (int outcome \<times> 32 word option \<times> dq_state) option" where
  "rt_data_queue_push_resume n v t timeout s =
     (if thread_error (threads (snd s) t) \<noteq> RT_EOK then Some (Return (thread_error (threads (snd s) t)), None, s)
      else dq_push_attempt (Some t) n v timeout s)"

definition dq_take :: "rt_data_queue \<Rightarrow> (rt_data_item \<times> rt_data_queue) option" where
  "dq_take q =
     (if unat (dq_get_index q) < length (dq_queue q) then
        let g = dq_next q (dq_get_index q) in
        Some (dq_queue q ! unat (dq_get_index q),
              q\<lparr>dq_get_index := g, dq_is_full := False,
                dq_is_empty := (if dq_put_index q = g then True else dq_is_empty q)\<rparr>)
      else None)"

text \<open>A pop returns the error code and the item it stores at \<^verbatim>\<open>data_ptr\<close> and \<^verbatim>\<open>size\<close>.\<close>

definition dq_pop_attempt ::
  "tid option \<Rightarrow> nat \<Rightarrow> 32 word \<Rightarrow> dq_state \<Rightarrow> ((int \<times> rt_data_item option) outcome \<times> 32 word option \<times> dq_state) option" where
  "dq_pop_attempt th n timeout s = (let (q, k) = s in
     if dq_is_empty q then
       if timeout = 0 then Some (Return (- RT_ETIMEOUT, None), None, q, k)
       else do {
         t \<leftarrow> th;
         let k1 = upd_thread t (\<lambda>r. r\<lparr>thread_error := RT_EOK\<rparr>) k;
         k2 \<leftarrow> ipc_block (pop_list n) t RT_IPC_FLAG_FIFO timeout k1;
         Some (Block, None, q, k2) }
     else do {
       (v, q1) \<leftarrow> dq_take q;
       len \<leftarrow> rt_data_queue_len q1;
       if len \<le> dq_lwm q1 then do {
         k1 \<leftarrow> ipc_wake (push_list n) k;
         Some (Return (RT_EOK, Some v), notified q1 RT_DATAQUEUE_EVENT_LWM, q1, k1) }
       else Some (Return (RT_EOK, Some v), notified q1 RT_DATAQUEUE_EVENT_POP, q1, k) })"

definition rt_data_queue_pop ::
  "nat \<Rightarrow> 32 word \<Rightarrow> dq_state \<Rightarrow> ((int \<times> rt_data_item option) outcome \<times> 32 word option \<times> dq_state) option" where
  "rt_data_queue_pop n timeout s = do {
     rt_assert (dq_magic (fst s) = DATAQUEUE_MAGIC);
     RT_DEBUG_SCHEDULER_AVAILABLE (timeout \<noteq> 0) (snd s);
     dq_pop_attempt (rt_thread_self (snd s)) n timeout s }"

definition rt_data_queue_pop_resume ::
  "nat \<Rightarrow> tid \<Rightarrow> 32 word \<Rightarrow> dq_state \<Rightarrow> ((int \<times> rt_data_item option) outcome \<times> 32 word option \<times> dq_state) option" where
  "rt_data_queue_pop_resume n t timeout s =
     (if thread_error (threads (snd s) t) \<noteq> RT_EOK then Some (Return (thread_error (threads (snd s) t), None), None, s)
      else dq_pop_attempt (Some t) n timeout s)"

definition rt_data_queue_peek :: "rt_data_queue \<Rightarrow> (int \<times> rt_data_item option) option" where
  "rt_data_queue_peek q = do {
     rt_assert (dq_magic q = DATAQUEUE_MAGIC);
     if dq_is_empty q then Some (- RT_EEMPTY, None)
     else if unat (dq_get_index q) < length (dq_queue q) then Some (RT_EOK, Some (dq_queue q ! unat (dq_get_index q)))
     else None }"

definition rt_data_queue_reset :: "nat \<Rightarrow> dq_state \<Rightarrow> dq_state option" where
  "rt_data_queue_reset n s = (let (q, k) = s in do {
     rt_assert (dq_magic q = DATAQUEUE_MAGIC);
     let q1 = q\<lparr>dq_get_index := 0, dq_put_index := 0, dq_is_empty := True, dq_is_full := False\<rparr>;
     let k1 = rt_enter_critical k;
     (_, k2) \<leftarrow> ipc_list_resume_all (pop_list n) k1;
     (_, k3) \<leftarrow> ipc_list_resume_all (push_list n) k2;
     k4 \<leftarrow> rt_exit_critical k3;
     k5 \<leftarrow> rt_schedule k4;
     Some (q1, k5) })"

text \<open>The items are given back to the heap.\<close>

definition rt_data_queue_deinit :: "nat \<Rightarrow> dq_state \<Rightarrow> (int \<times> dq_state) option" where
  "rt_data_queue_deinit n s = do {
     (q, k) \<leftarrow> rt_data_queue_reset n s;
     Some (RT_EOK, q\<lparr>dq_magic := 0, dq_queue := []\<rparr>, k) }"

section \<open>The ring of items\<close>

text \<open>The index fields hold 15 bits, so a queue must not have more than \<open>2 ^ 15\<close> items.\<close>

definition dq_count :: "rt_data_queue \<Rightarrow> nat" where
  "dq_count q =
     (if dq_is_empty q then 0
      else if dq_put_index q > dq_get_index q then unat (dq_put_index q) - unat (dq_get_index q)
      else unat (dq_size q) + unat (dq_put_index q) - unat (dq_get_index q))"

definition dq_ok :: "rt_data_queue \<Rightarrow> bool" where
  "dq_ok q \<longleftrightarrow> dq_magic q = DATAQUEUE_MAGIC \<and> 0 < unat (dq_size q) \<and> unat (dq_size q) \<le> 2 ^ 15 \<and>
     length (dq_queue q) = unat (dq_size q) \<and>
     unat (dq_get_index q) < unat (dq_size q) \<and> unat (dq_put_index q) < unat (dq_size q) \<and>
     (dq_is_empty q \<longrightarrow> dq_put_index q = dq_get_index q \<and> \<not> dq_is_full q) \<and>
     (\<not> dq_is_empty q \<longrightarrow> (dq_is_full q \<longleftrightarrow> dq_put_index q = dq_get_index q))"

definition dq_items :: "rt_data_queue \<Rightarrow> rt_data_item list" where
  "dq_items q = ring (unat (dq_size q)) (dq_queue q) (unat (dq_get_index q)) (dq_count q)"

lemma unat_15_bound: "unat (v :: 15 word) < 2 ^ 15"
  using unsigned_less [where w = v and ?'a = nat] by simp

lemma unat_ucast_15: "unat (ucast (v :: 15 word) :: 16 word) = unat v"
proof -
  have "unat v < 2 ^ 16" using unat_15_bound [of v] by simp
  then show ?thesis by (simp add: unsigned_ucast_eq take_bit_nat_eq_self_iff)
qed

lemma dq_next_mod:
  assumes "dq_ok q" "unat i < unat (dq_size q)"
  shows "unat (dq_next q i) = (unat i + 1) mod unat (dq_size q)"
proof (cases "unat i + 1 < 2 ^ 15")
  case True
  then have u: "unat (i + 1) = unat i + 1" by (simp add: unat_word_ariths)
  moreover have "ucast (i + 1) = dq_size q \<longleftrightarrow> unat i + 1 = unat (dq_size q)"
    using u by (simp add: word_unat_eq_iff unat_ucast_15)
  ultimately show ?thesis using assms(2) by (auto simp: dq_next_def)
next
  case False
  then have e: "unat i + 1 = 2 ^ 15" using unat_15_bound [of i] by simp
  then have s: "unat (dq_size q) = 2 ^ 15" using assms by (simp add: dq_ok_def)
  have "unat (i + 1) = 0" using e by (simp add: unat_word_ariths)
  then have "i + 1 = 0" by (simp add: unat_eq_0)
  then show ?thesis using e s by (simp add: dq_next_def)
qed

lemma dq_count_bounds:
  assumes "dq_ok q"
  shows "dq_count q \<le> unat (dq_size q)" "dq_count q = unat (dq_size q) \<longleftrightarrow> dq_is_full q" "dq_count q = 0 \<longleftrightarrow> dq_is_empty q"
    "unat (dq_put_index q) = (unat (dq_get_index q) + dq_count q) mod unat (dq_size q)"
  using assms by (auto simp: dq_ok_def dq_count_def word_less_nat_alt word_unat_eq_iff mod_if split: if_splits)

text \<open>The indices and the flags are determined by the first index and the number of items.\<close>

lemma dq_okI:
  assumes "dq_magic q = DATAQUEUE_MAGIC" "0 < unat (dq_size q)" "unat (dq_size q) \<le> 2 ^ 15" "length (dq_queue q) = unat (dq_size q)"
    and "unat (dq_get_index q) < unat (dq_size q)" "n \<le> unat (dq_size q)"
    and "unat (dq_put_index q) = (unat (dq_get_index q) + n) mod unat (dq_size q)"
    and "dq_is_empty q \<longleftrightarrow> n = 0" "dq_is_full q \<longleftrightarrow> n = unat (dq_size q)"
  shows "dq_ok q" "dq_count q = n"
  using assms by (auto simp: dq_ok_def dq_count_def word_less_nat_alt word_unat_eq_iff mod_if split: if_splits)

lemma dq_len_count:
  assumes "dq_ok q"
  shows "rt_data_queue_len q = Some (of_nat (dq_count q))"
proof -
  let ?g = "dq_get_index q" and ?p = "dq_put_index q"
  have b: "unat ?g < unat (dq_size q)" "unat (dq_size q) \<le> 2 ^ 15" using assms by (simp_all add: dq_ok_def)
  have eq: "v = of_nat (unat v)" for v :: "16 word" by (simp add: word_unat_eq_iff)
  have c: "ucast v = (of_nat (unat v) :: 16 word)" for v :: "15 word"
    using eq [of "ucast v"] unfolding unat_ucast_15 .
  show ?thesis
  proof (cases "dq_is_empty q")
    case True
    then show ?thesis using assms by (simp add: rt_data_queue_len_def dq_count_def dq_ok_def)
  next
    case False
    show ?thesis
    proof (cases "?p > ?g")
      case True
      then have le: "unat ?g \<le> unat ?p" by (simp add: word_less_nat_alt)
      have "ucast ?p - ucast ?g = (of_nat (unat ?p - unat ?g) :: 16 word)"
        by (simp only: c of_nat_diff [OF le])
      then show ?thesis using True False assms
        by (simp add: rt_data_queue_len_def dq_count_def dq_ok_def)
    next
      case no: False
      have le: "unat ?g \<le> unat (dq_size q) + unat ?p" using b(1) by simp
      have "dq_size q + ucast ?p - ucast ?g = of_nat (unat (dq_size q)) + of_nat (unat ?p) - of_nat (unat ?g)"
        using eq [of "dq_size q"] by (simp only: c)
      also have "\<dots> = of_nat (unat (dq_size q) + unat ?p - unat ?g)" by (simp only: of_nat_diff [OF le] of_nat_add)
      finally show ?thesis using False no assms by (simp add: rt_data_queue_len_def dq_count_def dq_ok_def)
    qed
  qed
qed

lemma dq_store_spec:
  assumes ok: "dq_ok q" and room: "\<not> dq_is_full q"
  obtains q1 where "dq_store v q = Some q1" "dq_ok q1" "dq_items q1 = dq_items q @ [v]" "dq_size q1 = dq_size q"
    "dq_lwm q1 = dq_lwm q" "evt_notify q1 = evt_notify q" "dq_count q1 = dq_count q + 1"
proof -
  let ?s = "unat (dq_size q)" and ?g = "unat (dq_get_index q)" and ?n = "dq_count q"
  note c = dq_count_bounds [OF ok]
  have b: "length (dq_queue q) = ?s" "unat (dq_put_index q) < ?s" "?g < ?s" "0 < ?s" "?s \<le> 2 ^ 15"
    "dq_magic q = DATAQUEUE_MAGIC" using ok by (simp_all add: dq_ok_def)
  have n: "?n < ?s" using c(1,2) room by linarith
  let ?p = "dq_next q (dq_put_index q)"
  let ?q1 = "q\<lparr>dq_queue := (dq_queue q)[unat (dq_put_index q) := v], dq_put_index := ?p, dq_is_empty := False,
    dq_is_full := (if ?p = dq_get_index q then True else dq_is_full q)\<rparr>"
  have p: "unat ?p = (?g + (?n + 1)) mod ?s"
    using dq_next_mod [OF ok b(2)] c(4) by (simp add: mod_Suc_eq)
  have full: "?p = dq_get_index q \<longleftrightarrow> ?n + 1 = ?s"
  proof
    assume "?p = dq_get_index q"
    then have "(?g + (?n + 1)) mod ?s = ?g" using p by simp
    then show "?n + 1 = ?s"
      using n b(3) by (cases "?g + (?n + 1) < ?s") (auto simp: mod_if split: if_splits)
  qed (use p b(3) in \<open>simp add: word_unat_eq_iff\<close>)
  have "dq_ok ?q1" "dq_count ?q1 = ?n + 1"
    by (rule dq_okI [of _ "?n + 1"]; use b n p full room c(2) in simp)+
  moreover have "dq_items ?q1 = dq_items q @ [v]"
    using ring_snoc [OF n, of "dq_queue q" ?g v] b(1) c(4) calculation(2) by (simp add: dq_items_def)
  ultimately show thesis using that [of ?q1] b(1,2) by (simp add: dq_store_def Let_def)
qed

lemma dq_take_spec:
  assumes ok: "dq_ok q" and some: "\<not> dq_is_empty q"
  obtains v q1 where "dq_take q = Some (v, q1)" "dq_ok q1" "dq_items q = v # dq_items q1" "dq_size q1 = dq_size q"
    "dq_lwm q1 = dq_lwm q" "evt_notify q1 = evt_notify q" "dq_count q1 = dq_count q - 1"
proof -
  let ?s = "unat (dq_size q)" and ?g = "unat (dq_get_index q)" and ?n = "dq_count q"
  note c = dq_count_bounds [OF ok]
  have b: "length (dq_queue q) = ?s" "unat (dq_put_index q) < ?s" "?g < ?s" "0 < ?s" "?s \<le> 2 ^ 15"
    "dq_magic q = DATAQUEUE_MAGIC" using ok by (simp_all add: dq_ok_def)
  have n: "0 < ?n" "?n \<le> ?s" using c(1,3) some by auto
  let ?i = "dq_next q (dq_get_index q)"
  let ?q1 = "q\<lparr>dq_get_index := ?i, dq_is_full := False, dq_is_empty := (if dq_put_index q = ?i then True else dq_is_empty q)\<rparr>"
  have i: "unat ?i = (?g + 1) mod ?s" using dq_next_mod [OF ok b(3)] by simp
  have "?g + ?n = ?g + 1 + (?n - 1)" using n(1) by simp
  then have p: "unat (dq_put_index q) = (unat ?i + (?n - 1)) mod ?s"
    using c(4) i by (simp only: mod_add_left_eq)
  have empty: "dq_put_index q = ?i \<longleftrightarrow> ?n - 1 = 0"
  proof
    assume "dq_put_index q = ?i"
    then have "(unat ?i + (?n - 1)) mod ?s = unat ?i" using p by simp
    moreover have "unat ?i < ?s" using i b(4) by simp
    ultimately show "?n - 1 = 0"
      using n by (cases "unat ?i + (?n - 1) < ?s") (auto simp: mod_if split: if_splits)
  next
    assume "?n - 1 = 0"
    then have "unat (dq_put_index q) = unat ?i" using p i by simp
    then show "dq_put_index q = ?i" by (simp add: word_unat_eq_iff)
  qed
  have "dq_ok ?q1" "dq_count ?q1 = ?n - 1"
    by (rule dq_okI [of _ "?n - 1"]; use b n p i empty some in \<open>simp; linarith?\<close>)+
  moreover have "dq_items q = dq_queue q ! ?g # dq_items ?q1"
  proof -
    have "drop 1 (dq_items q) = ring ?s (dq_queue q) ((?g + 1) mod ?s) (?n - 1)"
      using ring_drop [of 1 ?n ?s "dq_queue q" ?g] n(1) by (simp add: dq_items_def)
    also have "\<dots> = dq_items ?q1" using i calculation \<open>dq_count ?q1 = ?n - 1\<close> by (simp add: dq_items_def)
    finally have "drop 1 (dq_items q) = dq_items ?q1" .
    moreover have "dq_items q ! 0 = dq_queue q ! ?g" "dq_items q \<noteq> []"
      using n(1) b(3) nth_ring [of 0 ?n] by (auto simp: dq_items_def ring_def)
    ultimately show ?thesis by (metis Cons_nth_drop_Suc One_nat_def drop0 length_greater_0_conv)
  qed
  ultimately show thesis using that b(1,3) by (simp add: dq_take_def Let_def)
qed

section \<open>The operations on the kernel state\<close>

definition dq_inv :: "dq_state \<Rightarrow> bool" where
  "dq_inv s \<longleftrightarrow> kready (snd s) \<and> rt_current_thread (snd s) \<noteq> None \<and> dq_ok (fst s)"

lemma dq_push_attempt_spec:
  assumes inv: "dq_inv (q, k)"
    and legal: "dq_is_full q \<Longrightarrow> timeout \<noteq> 0 \<Longrightarrow> th = Some c \<and> fifo_may_wait c timeout k"
  obtains (pushed) ev q' k' where "dq_push_attempt th n v timeout (q, k) = Some (Return RT_EOK, ev, q', k')"
      "dq_inv (q', k')" "dq_items q' = dq_items q @ [v]" "dq_size q' = dq_size q" "\<not> dq_is_full q"
      "tlists k' (pop_list n) = tl (tlists k (pop_list n))"
      "\<And>t ts. tlists k (pop_list n) = t # ts \<Longrightarrow> tstat k' t \<in> {RT_THREAD_READY, RT_THREAD_RUNNING}"
  | (full) "dq_push_attempt th n v timeout (q, k) = Some (Return (- RT_ETIMEOUT), None, q, k)" "timeout = 0" "dq_is_full q"
  | (wait) k' where "dq_push_attempt th n v timeout (q, k) = Some (Block, None, q, k')" "dq_inv (q, k')"
      "timeout \<noteq> 0" "dq_is_full q" "tstat k' c = RT_THREAD_SUSPEND" "tlists k' (push_list n) = tlists k (push_list n) @ [c]"
proof (cases "dq_is_full q")
  case False
  have ok: "dq_ok q" and rdy: "kready k" using inv by (simp_all add: dq_inv_def)
  obtain c' where cur: "rt_current_thread k = Some c'" using inv by (auto simp: dq_inv_def)
  obtain q1 where q1: "dq_store v q = Some q1" "dq_ok q1" "dq_items q1 = dq_items q @ [v]" "dq_size q1 = dq_size q"
    using dq_store_spec [OF ok False] by metis
  obtain k1 d where k1: "ipc_wake (pop_list n) k = Some k1" "kready k1" "rt_current_thread k1 = Some d"
    "tlists k1 (pop_list n) = tl (tlists k (pop_list n))"
    "\<And>t ts. tlists k (pop_list n) = t # ts \<Longrightarrow> tstat k1 t \<in> {RT_THREAD_READY, RT_THREAD_RUNNING}"
    using ipc_wake_total [OF rdy cur disjI1 [OF refl]] by metis
  show thesis
  proof (cases "tlists k (pop_list n) = []")
    case True
    then show thesis
      using pushed [of "notified q1 RT_DATAQUEUE_EVENT_PUSH" q1 k] q1 inv False by (simp add: dq_push_attempt_def dq_inv_def)
  next
    case ne: False
    have "dq_push_attempt th n v timeout (q, k) = Some (Return RT_EOK, None, q1, k1)"
      using ne False q1(1) k1(1) by (simp add: dq_push_attempt_def)
    then show thesis using pushed [of None q1 k1] q1 k1 False by (simp add: dq_inv_def)
  qed
next
  case True
  show thesis
  proof (cases "timeout = 0")
    case True
    then show thesis using full \<open>dq_is_full q\<close> by (simp add: dq_push_attempt_def)
  next
    case False
    note l = legal [OF True False]
    have rdy: "kready k" using inv by (simp add: dq_inv_def)
    obtain k' d where b: "ipc_block (push_list n) c RT_IPC_FLAG_FIFO timeout (upd_thread c (\<lambda>r. r\<lparr>thread_error := RT_EOK\<rparr>) k) = Some k'"
      "kready k'" "rt_current_thread k' = Some d" "tstat k' c = RT_THREAD_SUSPEND" "tlists k' (push_list n) = tlists k (push_list n) @ [c]"
      using fifo_wait_total [OF rdy conjunct2 [OF l] disjI2 [OF refl]] by metis
    have "dq_push_attempt th n v timeout (q, k) = Some (Block, None, q, k')"
      using True False l b(1) by (simp add: dq_push_attempt_def)
    then show thesis using wait [of k'] b True False inv by (simp add: dq_inv_def)
  qed
qed

lemma dq_pop_attempt_spec:
  assumes inv: "dq_inv (q, k)"
    and legal: "dq_is_empty q \<Longrightarrow> timeout \<noteq> 0 \<Longrightarrow> th = Some c \<and> fifo_may_wait c timeout k"
  obtains (popped) v ev q' k' where "dq_pop_attempt th n timeout (q, k) = Some (Return (RT_EOK, Some v), ev, q', k')"
      "dq_inv (q', k')" "dq_items q = v # dq_items q'" "dq_size q' = dq_size q"
      "ev = notified q (if dq_count q - 1 \<le> unat (dq_lwm q) then RT_DATAQUEUE_EVENT_LWM else RT_DATAQUEUE_EVENT_POP)"
      "tlists k' (push_list n) =
        (if dq_count q - 1 \<le> unat (dq_lwm q) then tl (tlists k (push_list n)) else tlists k (push_list n))"
      "\<And>t ts. dq_count q - 1 \<le> unat (dq_lwm q) \<Longrightarrow> tlists k (push_list n) = t # ts \<Longrightarrow>
        tstat k' t \<in> {RT_THREAD_READY, RT_THREAD_RUNNING}"
  | (empty) "dq_pop_attempt th n timeout (q, k) = Some (Return (- RT_ETIMEOUT, None), None, q, k)" "timeout = 0" "dq_is_empty q"
  | (wait) k' where "dq_pop_attempt th n timeout (q, k) = Some (Block, None, q, k')" "dq_inv (q, k')"
      "timeout \<noteq> 0" "dq_is_empty q" "tstat k' c = RT_THREAD_SUSPEND" "tlists k' (pop_list n) = tlists k (pop_list n) @ [c]"
proof (cases "dq_is_empty q")
  case False
  have ok: "dq_ok q" and rdy: "kready k" using inv by (simp_all add: dq_inv_def)
  obtain c' where cur: "rt_current_thread k = Some c'" using inv by (auto simp: dq_inv_def)
  obtain v q1 where q1: "dq_take q = Some (v, q1)" "dq_ok q1" "dq_items q = v # dq_items q1" "dq_size q1 = dq_size q"
    "dq_lwm q1 = dq_lwm q" "dq_count q1 = dq_count q - 1" "evt_notify q1 = evt_notify q"
    using dq_take_spec [OF ok False] by metis
  obtain k1 d where k1: "ipc_wake (push_list n) k = Some k1" "kready k1" "rt_current_thread k1 = Some d"
    "tlists k1 (push_list n) = tl (tlists k (push_list n))"
    "\<And>t ts. tlists k (push_list n) = t # ts \<Longrightarrow> tstat k1 t \<in> {RT_THREAD_READY, RT_THREAD_RUNNING}"
    using ipc_wake_total [OF rdy cur disjI2 [OF refl]] by metis
  have "dq_count q1 < 2 ^ 16"
    using dq_count_bounds(1) [OF q1(2)] unat_16_bound [of "dq_size q1"] by linarith
  then have low: "of_nat (dq_count q1) \<le> dq_lwm q1 \<longleftrightarrow> dq_count q - 1 \<le> unat (dq_lwm q)"
    using q1(5,6) by (simp add: word_le_nat_alt unat_of_nat)
  show thesis
  proof (cases "dq_count q - 1 \<le> unat (dq_lwm q)")
    case True
    have "dq_pop_attempt th n timeout (q, k) =
        Some (Return (RT_EOK, Some v), notified q1 RT_DATAQUEUE_EVENT_LWM, q1, k1)"
      using True False q1(1) low k1(1) dq_len_count [OF q1(2)] by (simp add: dq_pop_attempt_def)
    then show thesis
      by (rule popped) (use q1 k1 True in \<open>simp_all add: dq_inv_def notified_def\<close>)
  next
    case no: False
    have "dq_pop_attempt th n timeout (q, k) =
        Some (Return (RT_EOK, Some v), notified q1 RT_DATAQUEUE_EVENT_POP, q1, k)"
      using no False q1(1) low dq_len_count [OF q1(2)] by (simp add: dq_pop_attempt_def)
    then show thesis
      by (rule popped) (use q1 no inv in \<open>simp_all add: dq_inv_def notified_def\<close>)
  qed
next
  case True
  show thesis
  proof (cases "timeout = 0")
    case True
    then show thesis using empty \<open>dq_is_empty q\<close> by (simp add: dq_pop_attempt_def)
  next
    case False
    note l = legal [OF True False]
    have rdy: "kready k" using inv by (simp add: dq_inv_def)
    obtain k' d where b: "ipc_block (pop_list n) c RT_IPC_FLAG_FIFO timeout (upd_thread c (\<lambda>r. r\<lparr>thread_error := RT_EOK\<rparr>) k) = Some k'"
      "kready k'" "rt_current_thread k' = Some d" "tstat k' c = RT_THREAD_SUSPEND" "tlists k' (pop_list n) = tlists k (pop_list n) @ [c]"
      using fifo_wait_total [OF rdy conjunct2 [OF l] disjI1 [OF refl]] by metis
    have "dq_pop_attempt th n timeout (q, k) = Some (Block, None, q, k')"
      using True False l b(1) by (simp add: dq_pop_attempt_def)
    then show thesis using wait [of k'] b True False inv by (simp add: dq_inv_def)
  qed
qed

lemma rt_data_queue_push_attempt:
  assumes inv: "dq_inv (q, k)" and legal: "fifo_legal c timeout k"
  shows "rt_data_queue_push n v timeout (q, k) = dq_push_attempt (rt_thread_self k) n v timeout (q, k)"
    and "rt_data_queue_pop n timeout (q, k) = dq_pop_attempt (rt_thread_self k) n timeout (q, k)"
  using inv fifo_legal_attempt(2) [OF legal]
  by (simp_all add: rt_data_queue_push_def rt_data_queue_pop_def dq_inv_def dq_ok_def)

lemma kready_lock [simp]: "kready (k\<lparr>rt_scheduler_lock_nest := m\<rparr>) = kready k"
proof -
  have "sched_inv (k\<lparr>rt_scheduler_lock_nest := m\<rparr>) = sched_inv k"
    unfolding sched_inv_def by (rule sched_inv_except_cong) simp_all
  then show ?thesis
    using live_ok_cong [of "k\<lparr>rt_scheduler_lock_nest := m\<rparr>" k] by (auto simp: kready_def thread_timers_hard_def)
qed

lemma rt_exit_critical_total:
  assumes "kready k" "rt_current_thread k = Some c"
  obtains k' d where "rt_exit_critical k = Some k'" "kready k'" "rt_current_thread k' = Some d"
proof (cases "sint (rt_scheduler_lock_nest k - 1) \<le> 0")
  case True
  let ?k = "k\<lparr>rt_scheduler_lock_nest := 0\<rparr>"
  have "kready ?k" "rt_current_thread ?k = Some c" using assms by simp_all
  then obtain k' d where "rt_schedule ?k = Some k'" "kready k'" "rt_current_thread k' = Some d"
    by (rule kready_scheduled)
  then show thesis using that True assms(2) by (simp add: rt_exit_critical_def Let_def)
next
  case False
  then show thesis using that [of "k\<lparr>rt_scheduler_lock_nest := rt_scheduler_lock_nest k - 1\<rparr>"] assms
    by (simp add: rt_exit_critical_def Let_def)
qed

lemma rt_data_queue_reset_spec:
  assumes inv: "dq_inv (q, k)"
  obtains q' k' where "rt_data_queue_reset n (q, k) = Some (q', k')" "dq_inv (q', k')" "dq_items q' = []"
    "dq_size q' = dq_size q"
proof -
  let ?q = "q\<lparr>dq_get_index := 0, dq_put_index := 0, dq_is_empty := True, dq_is_full := False\<rparr>"
  obtain c where c: "kready (rt_enter_critical k)" "rt_current_thread (rt_enter_critical k) = Some c"
    using inv by (auto simp: dq_inv_def rt_enter_critical_def)
  obtain k2 where k2: "ipc_list_resume_all (pop_list n) (rt_enter_critical k) = Some (RT_EOK, k2)" "kready k2"
    "rt_current_thread k2 = Some c"
    using resume_all_total [OF c(1) disjI1 [OF refl]] c(2) by metis
  obtain k3 where k3: "ipc_list_resume_all (push_list n) k2 = Some (RT_EOK, k3)" "kready k3" "rt_current_thread k3 = Some c"
    using resume_all_total [OF k2(2) disjI2 [OF refl]] k2(3) by metis
  obtain k4 d where k4: "rt_exit_critical k3 = Some k4" "kready k4" "rt_current_thread k4 = Some d"
    using rt_exit_critical_total [OF k3(2,3)] .
  obtain k5 d' where k5: "rt_schedule k4 = Some k5" "kready k5" "rt_current_thread k5 = Some d'"
    using kready_scheduled [OF k4(2,3)] .
  have "dq_ok ?q" "dq_items ?q = []"
    using inv by (simp_all add: dq_inv_def dq_ok_def dq_items_def dq_count_def ring_def)
  moreover have "rt_data_queue_reset n (q, k) = Some (?q, k5)"
    using inv k2(1) k3(1) k4(1) k5(1) by (simp add: rt_data_queue_reset_def dq_inv_def dq_ok_def)
  ultimately show thesis using that k5 by (simp add: dq_inv_def)
qed

text \<open>A fresh queue of at most \<open>2 ^ 15\<close> items.\<close>

lemma rt_data_queue_init_ok:
  assumes "kready k" "rt_current_thread k \<noteq> None" "0 < unat sz" "unat sz \<le> 2 ^ 15" "length cells = unat sz"
    and "tlists k (pop_list n) = []" "tlists k (push_list n) = []"
  obtains q where "rt_data_queue_init n sz lwm notify (Some cells) k = Some (RT_EOK, q, k)" "dq_inv (q, k)"
    "dq_items q = []" "dq_size q = sz" "dq_lwm q = lwm"
proof -
  let ?q = "\<lparr>dq_magic = DATAQUEUE_MAGIC, dq_size = sz, dq_lwm = lwm, dq_get_index = 0, dq_is_empty = True,
              dq_put_index = 0, dq_is_full = False, dq_queue = cells, evt_notify = notify\<rparr>"
  have "(tlists k)(pop_list n := [], push_list n := []) = tlists k" using assms(6,7) by (auto simp: fun_eq_iff)
  then have "sender_list_init (Dataqueue n) (ipc_object_init (Dataqueue n) k) = k"
    by (simp add: sender_list_init_def ipc_object_init_def upd_tlists_def)
  then have "rt_data_queue_init n sz lwm notify (Some cells) k = Some (RT_EOK, ?q, k)"
    using assms(3) by (simp add: rt_data_queue_init_def word_less_nat_alt)
  then show thesis
    using that [of ?q] assms by (simp add: dq_inv_def dq_ok_def dq_items_def dq_count_def ring_def)
qed

section \<open>A data queue is a message channel\<close>

text \<open>Calls of the operations, woken threads that go on, a reset, and any activity of the rest of
  the system that leaves the queue alone.\<close>

inductive dq_step :: "nat \<Rightarrow> dq_state \<Rightarrow> rt_data_item chan_event \<Rightarrow> dq_state \<Rightarrow> bool" for n where
  ds_push: "fifo_legal c timeout k \<Longrightarrow> rt_data_queue_push n v timeout (q, k) = Some (r, ev, s') \<Longrightarrow>
    dq_step n (q, k) (send_event v r) s'"
| ds_push_resume: "fifo_may_wait c timeout k \<Longrightarrow>
    rt_data_queue_push_resume n v c timeout (q, k) = Some (r, ev, s') \<Longrightarrow> dq_step n (q, k) (send_event v r) s'"
| ds_pop: "fifo_legal c timeout k \<Longrightarrow> rt_data_queue_pop n timeout (q, k) = Some (rv, ev, s') \<Longrightarrow>
    dq_step n (q, k) (recv_event rv) s'"
| ds_pop_resume: "fifo_may_wait c timeout k \<Longrightarrow>
    rt_data_queue_pop_resume n c timeout (q, k) = Some (rv, ev, s') \<Longrightarrow> dq_step n (q, k) (recv_event rv) s'"
| ds_reset: "rt_data_queue_reset n (q, k) = Some s' \<Longrightarrow> dq_step n (q, k) Cleared s'"
| ds_other: "dq_inv (q, k') \<Longrightarrow> dq_step n (q, k) Silent (q, k')"

definition dq_chan_ok :: "dq_state \<Rightarrow> rt_data_item chan_event \<Rightarrow> dq_state \<Rightarrow> bool" where
  "dq_chan_ok s e s' \<longleftrightarrow> dq_inv s' \<and> dq_size (fst s') = dq_size (fst s) \<and>
     chan_update e (dq_items (fst s)) = Some (dq_items (fst s'))"

lemma dq_chan_ok_refl: "dq_inv s \<Longrightarrow> dq_chan_ok s Silent s"
  by (simp add: dq_chan_ok_def)

lemma dq_push_attempt_chan:
  assumes "dq_push_attempt th n v timeout (q, k) = Some (r, ev, s')" "dq_inv (q, k)"
    and "timeout \<noteq> 0 \<Longrightarrow> th = Some c \<and> fifo_may_wait c timeout k"
  shows "dq_chan_ok (q, k) (send_event v r) s'"
  by (rule dq_push_attempt_spec [OF assms(2,3), where v = v and n = n])
    (use assms(1,2) in \<open>auto simp: dq_chan_ok_def send_event_def rt_errors\<close>)

lemma dq_pop_attempt_chan:
  assumes "dq_pop_attempt th n timeout (q, k) = Some (r, ev, s')" "dq_inv (q, k)"
    and "timeout \<noteq> 0 \<Longrightarrow> th = Some c \<and> fifo_may_wait c timeout k"
  shows "dq_chan_ok (q, k) (recv_event r) s'"
  by (rule dq_pop_attempt_spec [OF assms(2,3), where n = n])
    (use assms(1,2) in \<open>auto simp: dq_chan_ok_def recv_event_def\<close>)

lemma dq_step_chan_ok:
  assumes "dq_step n s e s'" and inv: "dq_inv s"
  shows "dq_chan_ok s e s'"
  using assms
proof (induction rule: dq_step.induct)
  case (ds_push c timeout k v q r ev s')
  then show ?case
    using dq_push_attempt_chan [OF _ ds_push.prems fifo_legal_attempt(1) [OF ds_push.hyps(1)]]
      rt_data_queue_push_attempt(1) [OF ds_push.prems ds_push.hyps(1)] by simp
next
  case (ds_pop c timeout k q rv ev s')
  then show ?case
    using dq_pop_attempt_chan [OF _ ds_pop.prems fifo_legal_attempt(1) [OF ds_pop.hyps(1)]]
      rt_data_queue_push_attempt(2) [OF ds_pop.prems ds_pop.hyps(1)] by simp
next
  case (ds_push_resume c timeout k v q r ev s')
  then show ?case
    using dq_push_attempt_chan [of "Some c" n v timeout q k r ev s' c]
    by (auto simp: rt_data_queue_push_resume_def send_event_def dq_chan_ok_refl split: if_splits)
next
  case (ds_pop_resume c timeout k q rv ev s')
  then show ?case
    using dq_pop_attempt_chan [of "Some c" n timeout q k rv ev s' c]
    by (auto simp: rt_data_queue_pop_resume_def recv_event_def dq_chan_ok_refl split: if_splits)
next
  case (ds_reset q k s')
  obtain q' k' where "rt_data_queue_reset n (q, k) = Some (q', k')" "dq_inv (q', k')" "dq_items q' = []"
    "dq_size q' = dq_size q" using rt_data_queue_reset_spec [OF ds_reset.prems] .
  then show ?case using ds_reset.hyps by (simp add: dq_chan_ok_def)
next
  case (ds_other q k' k)
  then show ?case by (simp add: dq_chan_ok_def)
qed

interpretation dq: message_channel "dq_step n" "\<lambda>s. dq_items (fst s)" dq_inv "\<lambda>s. unat (dq_size (fst s))" for n
proof
  show "length (dq_items (fst s)) \<le> unat (dq_size (fst s))" if "dq_inv s" for s
    using that dq_count_bounds(1) by (simp add: dq_inv_def dq_items_def)
qed (auto dest: dq_step_chan_ok simp: dq_chan_ok_def)

lemma dq_trace_urgent: "trace (dq_step n) s es s' \<Longrightarrow> chan_urgent es = []"
proof (induction rule: trace.induct)
  case (trace_Cons s e s1 es s2)
  from trace_Cons.hyps(1) have "chan_urgent (e # es) = chan_urgent es"
    by (cases rule: dq_step.cases) (auto simp: send_event_def recv_event_def split: outcome.splits option.splits)
  then show ?case using trace_Cons.IH by simp
qed simp

section \<open>The operations return\<close>

lemma dq_items_empty:
  assumes "dq_inv (q, k)"
  shows "dq_items q = [] \<longleftrightarrow> dq_is_empty q" "length (dq_items q) = dq_count q"
    "dq_is_full q \<longleftrightarrow> length (dq_items q) = unat (dq_size q)"
proof -
  have ok: "dq_ok q" using assms by (simp add: dq_inv_def)
  show l: "length (dq_items q) = dq_count q" by (simp add: dq_items_def)
  show "dq_items q = [] \<longleftrightarrow> dq_is_empty q" using dq_count_bounds(3) [OF ok] l by auto
  show "dq_is_full q \<longleftrightarrow> length (dq_items q) = unat (dq_size q)" using dq_count_bounds(2) [OF ok] l by auto
qed

lemma rt_data_queue_push_total:
  assumes inv: "dq_inv (q, k)" and legal: "fifo_legal c timeout k"
  shows "\<exists>r ev q' k'. rt_data_queue_push n v timeout (q, k) = Some (r, ev, q', k') \<and> dq_inv (q', k') \<and>
    (if length (dq_items q) < unat (dq_size q) then
       r = Return RT_EOK \<and> dq_items q' = dq_items q @ [v] \<and> dq_size q' = dq_size q \<and>
       tlists k' (pop_list n) = tl (tlists k (pop_list n)) \<and> first_runnable k' (tlists k (pop_list n))
     else q' = q \<and>
       (if timeout = 0 then r = Return (- RT_ETIMEOUT) \<and> k' = k
        else r = Block \<and> tstat k' c = RT_THREAD_SUSPEND \<and> tlists k' (push_list n) = tlists k (push_list n) @ [c]))"
proof -
  note i = dq_items_empty [OF inv] and a = rt_data_queue_push_attempt(1) [OF inv legal]
  have bound: "length (dq_items q) \<le> unat (dq_size q)"
    using inv dq_count_bounds(1) i(2) by (simp add: dq_inv_def)
  show ?thesis
  proof (rule dq_push_attempt_spec [OF inv fifo_legal_attempt(1) [OF legal], where v = v and n = n])
    fix ev q' k'
    assume "dq_push_attempt (rt_thread_self k) n v timeout (q, k) = Some (Return RT_EOK, ev, q', k')"
      "dq_inv (q', k')" "dq_items q' = dq_items q @ [v]" "dq_size q' = dq_size q" "\<not> dq_is_full q"
      "tlists k' (pop_list n) = tl (tlists k (pop_list n))"
      "\<And>t ts. tlists k (pop_list n) = t # ts \<Longrightarrow> tstat k' t \<in> {RT_THREAD_READY, RT_THREAD_RUNNING}"
    then show ?thesis
      using a i bound by (cases "tlists k (pop_list n)") (auto simp: first_runnable_def)
  qed (use a i bound inv in auto)
qed

lemma rt_data_queue_pop_total:
  assumes inv: "dq_inv (q, k)" and legal: "fifo_legal c timeout k"
  shows "\<exists>r ev q' k'. rt_data_queue_pop n timeout (q, k) = Some (r, ev, q', k') \<and> dq_inv (q', k') \<and>
    (case dq_items q of
       v # vs \<Rightarrow> r = Return (RT_EOK, Some v) \<and> dq_items q' = vs \<and>
         (if length vs \<le> unat (dq_lwm q) then
            ev = notified q RT_DATAQUEUE_EVENT_LWM \<and> tlists k' (push_list n) = tl (tlists k (push_list n)) \<and>
            first_runnable k' (tlists k (push_list n))
          else ev = notified q RT_DATAQUEUE_EVENT_POP \<and> tlists k' (push_list n) = tlists k (push_list n))
     | [] \<Rightarrow> q' = q \<and> ev = None \<and>
         (if timeout = 0 then r = Return (- RT_ETIMEOUT, None) \<and> k' = k
          else r = Block \<and> tstat k' c = RT_THREAD_SUSPEND \<and> tlists k' (pop_list n) = tlists k (pop_list n) @ [c]))"
proof -
  note i = dq_items_empty [OF inv] and a = rt_data_queue_push_attempt(2) [OF inv legal]
  show ?thesis
  proof (rule dq_pop_attempt_spec [OF inv fifo_legal_attempt(1) [OF legal], where n = n])
    fix v ev q' k'
    assume p: "dq_pop_attempt (rt_thread_self k) n timeout (q, k) = Some (Return (RT_EOK, Some v), ev, q', k')"
      "dq_inv (q', k')" "dq_items q = v # dq_items q'"
      "ev = notified q (if dq_count q - 1 \<le> unat (dq_lwm q) then RT_DATAQUEUE_EVENT_LWM else RT_DATAQUEUE_EVENT_POP)"
      "tlists k' (push_list n) =
        (if dq_count q - 1 \<le> unat (dq_lwm q) then tl (tlists k (push_list n)) else tlists k (push_list n))"
      "\<And>t ts. dq_count q - 1 \<le> unat (dq_lwm q) \<Longrightarrow> tlists k (push_list n) = t # ts \<Longrightarrow>
        tstat k' t \<in> {RT_THREAD_READY, RT_THREAD_RUNNING}"
    have l: "length (dq_items q') = dq_count q - 1" using i(2) p(3) by simp
    have w: "first_runnable k' (tlists k (push_list n))" if "dq_count q - 1 \<le> unat (dq_lwm q)"
      using p(6) [OF that] by (cases "tlists k (push_list n)") (auto simp: first_runnable_def)
    show ?thesis using a p(1-5) w l by simp
  qed (use a i inv in auto)
qed

text \<open>A queue whose size does not fit the 15-bit indices: after one push the length is more than 7000 too large.\<close>

lemma dq_oversized:
  assumes "dq_magic q = DATAQUEUE_MAGIC" "dq_size q = 40000" "dq_get_index q = 5" "dq_put_index q = 0x7FFF"
    and "\<not> dq_is_empty q" "length (dq_queue q) = 40000"
  shows "rt_data_queue_len q = Some 32762 \<and> (\<exists>q1. dq_store v q = Some q1 \<and> rt_data_queue_len q1 = Some 39995)"
  using assms by (simp add: rt_data_queue_len_def dq_store_def dq_next_def Let_def)

section \<open>Example\<close>

definition dq_demo :: dq_state where
  "dq_demo = (\<lparr>dq_magic = DATAQUEUE_MAGIC, dq_size = 2, dq_lwm = 0, dq_get_index = 0, dq_is_empty = True,
     dq_put_index = 0, dq_is_full = False, dq_queue = [\<lparr>item_ptr = 0, item_size = 0\<rparr>, \<lparr>item_ptr = 0, item_size = 0\<rparr>],
     evt_notify = True\<rparr>, three_threads)"

lemma dq_demo_ok: "dq_inv dq_demo" "dq_items (fst dq_demo) = []" "dq_size (fst dq_demo) = 2" "fifo_legal c 0 k"
  using kready_three_threads
  by (simp_all add: dq_demo_def dq_inv_def dq_ok_def dq_items_def dq_count_def ring_def fifo_legal_def)

abbreviation dq_item :: "32 word \<Rightarrow> rt_data_item" where "dq_item p \<equiv> \<lparr>item_ptr = p, item_size = 4\<rparr>"

lemma dq_demo_trace:
  "\<exists>s. trace (dq_step 0) dq_demo [Sent (dq_item 8), Sent (dq_item 12), Received (dq_item 8)] s \<and>
     dq_items (fst s) = [dq_item 12]"
proof -
  obtain q0 k0 where s0: "dq_demo = (q0, k0)" by (cases dq_demo)
  have i0: "dq_inv (q0, k0)" "dq_items q0 = []" "dq_size q0 = 2" using dq_demo_ok(1-3) by (simp_all add: s0)
  obtain ev1 q1 k1 where p1: "rt_data_queue_push 0 (dq_item 8) 0 (q0, k0) = Some (Return RT_EOK, ev1, q1, k1)"
    "dq_inv (q1, k1)" "dq_items q1 = [dq_item 8]" "dq_size q1 = 2"
    using rt_data_queue_push_total [OF i0(1) dq_demo_ok(4), of 0 "dq_item 8"] i0(2,3) by auto
  obtain ev2 q2 k2 where p2: "rt_data_queue_push 0 (dq_item 12) 0 (q1, k1) = Some (Return RT_EOK, ev2, q2, k2)"
    "dq_inv (q2, k2)" "dq_items q2 = [dq_item 8, dq_item 12]"
    using rt_data_queue_push_total [OF p1(2) dq_demo_ok(4), of 0 "dq_item 12"] p1(3,4) by auto
  obtain ev3 q3 k3 where p3: "rt_data_queue_pop 0 0 (q2, k2) = Some (Return (RT_EOK, Some (dq_item 8)), ev3, q3, k3)"
    "dq_items q3 = [dq_item 12]"
    using rt_data_queue_pop_total [OF p2(2) dq_demo_ok(4), of 0] p2(3) by auto
  have "dq_step 0 (q0, k0) (Sent (dq_item 8)) (q1, k1)" "dq_step 0 (q1, k1) (Sent (dq_item 12)) (q2, k2)"
    "dq_step 0 (q2, k2) (Received (dq_item 8)) (q3, k3)"
    using ds_push [OF dq_demo_ok(4) p1(1)] ds_push [OF dq_demo_ok(4) p2(1)] ds_pop [OF dq_demo_ok(4) p3(1)]
    by (simp_all add: send_event_def recv_event_def)
  then show ?thesis using p3(2) by (auto simp: s0 intro!: trace_Cons trace_Nil)
qed

section \<open>Properties\<close>

text \<open>C11: Order of a data queue. For any sequence of pushes and pops with any timeouts, by any threads that
  block, are woken, time out and go on, and any other activity in between: as long as the queue is not
  reset, the items popped followed by the items in the queue are the items that were in it followed by the items
  pushed, and the queue never holds more items than its size.\<close>

theorem dq_fifo:
  assumes "trace (dq_step n) s es s'" and "dq_inv s" and "Cleared \<notin> set es"
  shows "chan_received es @ dq_items (fst s') = dq_items (fst s) @ chan_sent es \<and>
    length (dq_items (fst s')) \<le> unat (dq_size (fst s))"
  using dq.fifo [OF assms(1,2) dq_trace_urgent [OF assms(1)] assms(3)] dq.trace_bounded [OF assms(1,2)] by simp

theorem dq_fifo_witness:
  "\<exists>s. trace (dq_step 0) dq_demo [Sent (dq_item 8), Sent (dq_item 12), Received (dq_item 8)] s \<and>
     [dq_item 8] @ dq_items (fst s) = [dq_item 8, dq_item 12]"
proof -
  obtain s where s: "trace (dq_step 0) dq_demo [Sent (dq_item 8), Sent (dq_item 12), Received (dq_item 8)] s"
    using dq_demo_trace by blast
  from dq_fifo [OF s dq_demo_ok(1)] s show ?thesis using dq_demo_ok(2) by (intro exI [of _ s]) auto
qed

text \<open>Results of \<^verbatim>\<open>rt_data_queue_pop\<close>. A legal call always returns or blocks. It removes and returns the
  oldest item. When no more items than the low-water mark are left it makes the first waiting pusher
  runnable and notifies the low-water mark; above the mark it notifies the pop and leaves the waiting pushers
  where they are, although there is room. On an empty queue it returns \<^verbatim>\<open>RT_ETIMEOUT\<close> without a timeout, and
  otherwise suspends the caller at the end of the list of waiting threads.\<close>

theorem rt_data_queue_pop_result:
  assumes "dq_inv (q, k)" and "fifo_legal c timeout k"
  shows "\<exists>r ev q' k'. rt_data_queue_pop n timeout (q, k) = Some (r, ev, q', k') \<and> dq_inv (q', k') \<and>
    (case dq_items q of
       v # vs \<Rightarrow> r = Return (RT_EOK, Some v) \<and> dq_items q' = vs \<and>
         (if length vs \<le> unat (dq_lwm q) then
            ev = notified q RT_DATAQUEUE_EVENT_LWM \<and> tlists k' (push_list n) = tl (tlists k (push_list n)) \<and>
            first_runnable k' (tlists k (push_list n))
          else ev = notified q RT_DATAQUEUE_EVENT_POP \<and> tlists k' (push_list n) = tlists k (push_list n))
     | [] \<Rightarrow> q' = q \<and> ev = None \<and>
         (if timeout = 0 then r = Return (- RT_ETIMEOUT, None) \<and> k' = k
          else r = Block \<and> tstat k' c = RT_THREAD_SUSPEND \<and> tlists k' (pop_list n) = tlists k (pop_list n) @ [c]))"
  by (rule rt_data_queue_pop_total [OF assms])

theorem rt_data_queue_pop_result_witness:
  "\<exists>ev q' k'. rt_data_queue_pop 0 0 dq_demo = Some (Return (- RT_ETIMEOUT, None), ev, q', k') \<and> q' = fst dq_demo"
  using rt_data_queue_pop_result [of "fst dq_demo" "snd dq_demo", OF _ dq_demo_ok(4), of 0] dq_demo_ok(1,2)
  by (auto intro: exI [of _ "snd dq_demo"])

end
