(* ===== verification/Completion.thy ===== *)
theory Completion
  imports Ipc_Channel
begin

text \<open>
  The completion of \<^verbatim>\<open>components/drivers/ipc/completion.c\<close>: a flag that one thread waits for and another
  thread or an interrupt sets. The waiting operation is split where the caller is switched out. The lemmas
  say what every operation does and which of two concurrent events a waiting thread sees.
\<close>

section \<open>Operations\<close>

abbreviation RT_COMPLETED :: "32 word" where "RT_COMPLETED \<equiv> 1"
abbreviation RT_UNCOMPLETED :: "32 word" where "RT_UNCOMPLETED \<equiv> 0"

record rt_completion =
  cmp_flag :: "32 word"

type_synonym cmp_state = "rt_completion \<times> kernel"

abbreviation cmp_list :: "nat \<Rightarrow> list_head" where "cmp_list n \<equiv> Suspend (Completion n)"

definition rt_completion_init :: "nat \<Rightarrow> kernel \<Rightarrow> cmp_state" where
  "rt_completion_init n k = (\<lparr>cmp_flag = RT_UNCOMPLETED\<rparr>, ipc_object_init (Completion n) k)"

definition rt_completion_wait :: "nat \<Rightarrow> 32 word \<Rightarrow> cmp_state \<Rightarrow> (int outcome \<times> cmp_state) option" where
  "rt_completion_wait n timeout s = (let (q, k) = s in do {
     RT_DEBUG_SCHEDULER_AVAILABLE (timeout \<noteq> 0) k;
     if cmp_flag q \<noteq> RT_COMPLETED then do {
       rt_assert (tlists k (cmp_list n) = []);
       if timeout = 0 then Some (Return (- RT_ETIMEOUT), q, k)
       else do {
         t \<leftarrow> rt_thread_self k;
         let k1 = upd_thread t (\<lambda>r. r\<lparr>thread_error := RT_EOK\<rparr>) k;
         k2 \<leftarrow> ipc_block (cmp_list n) t RT_IPC_FLAG_FIFO timeout k1;
         Some (Block, q, k2) } }
     else Some (Return RT_EOK, q\<lparr>cmp_flag := RT_UNCOMPLETED\<rparr>, k) })"

text \<open>The thread \<open>t\<close> that waited runs again.\<close>

definition rt_completion_wait_resume :: "tid \<Rightarrow> cmp_state \<Rightarrow> int \<times> cmp_state" where
  "rt_completion_wait_resume t s =
     (let (q, k) = s in (thread_error (threads k t), q\<lparr>cmp_flag := RT_UNCOMPLETED\<rparr>, k))"

definition rt_completion_done :: "nat \<Rightarrow> cmp_state \<Rightarrow> cmp_state option" where
  "rt_completion_done n s = (let (q, k) = s in
     if cmp_flag q = RT_COMPLETED then Some (q, k)
     else let q1 = q\<lparr>cmp_flag := RT_COMPLETED\<rparr> in
       if tlists k (cmp_list n) \<noteq> [] then do {
         k1 \<leftarrow> ipc_wake (cmp_list n) k;
         Some (q1, k1) }
       else Some (q1, k))"

section \<open>What the operations do\<close>

definition cmp_inv :: "cmp_state \<Rightarrow> bool" where
  "cmp_inv s \<longleftrightarrow> kready (snd s) \<and> rt_current_thread (snd s) \<noteq> None"

lemma rt_completion_wait_completed:
  assumes "fifo_legal c timeout k" "cmp_flag q = RT_COMPLETED"
  shows "rt_completion_wait n timeout (q, k) = Some (Return RT_EOK, q\<lparr>cmp_flag := RT_UNCOMPLETED\<rparr>, k)"
  using assms fifo_legal_attempt(2) [OF assms(1)] by (simp add: rt_completion_wait_def)

lemma rt_completion_wait_uncompleted:
  assumes "cmp_inv (q, k)" "fifo_legal c timeout k" "cmp_flag q \<noteq> RT_COMPLETED" "tlists k (cmp_list n) = []"
  obtains "timeout = 0" "rt_completion_wait n timeout (q, k) = Some (Return (- RT_ETIMEOUT), q, k)"
  | k' where "timeout \<noteq> 0" "rt_completion_wait n timeout (q, k) = Some (Block, q, k')" "cmp_inv (q, k')"
      "tlists k' (cmp_list n) = [c]" "tstat k' c = RT_THREAD_SUSPEND"
proof (cases "timeout = 0")
  case True
  then show thesis
    using that(1) assms(3,4) fifo_legal_attempt(2) [OF assms(2)] by (simp add: rt_completion_wait_def)
next
  case False
  note l = fifo_legal_attempt(1) [OF assms(2) False]
  have rdy: "kready k" using assms(1) by (simp add: cmp_inv_def)
  obtain k' d where b: "ipc_block (cmp_list n) c RT_IPC_FLAG_FIFO timeout (upd_thread c (\<lambda>r. r\<lparr>thread_error := RT_EOK\<rparr>) k) = Some k'"
    "kready k'" "rt_current_thread k' = Some d" "tstat k' c = RT_THREAD_SUSPEND" "tlists k' (cmp_list n) = tlists k (cmp_list n) @ [c]"
    using fifo_wait_total [OF rdy conjunct2 [OF l] disjI1 [OF refl]] by metis
  have "rt_completion_wait n timeout (q, k) = Some (Block, q, k')"
    using False l b(1) assms(3,4) fifo_legal_attempt(2) [OF assms(2)] by (simp add: rt_completion_wait_def)
  then show thesis using that(2) [of k'] False b assms(4) by (simp add: cmp_inv_def)
qed

lemma rt_completion_done_total:
  assumes "cmp_inv (q, k)" "cmp_flag q \<noteq> RT_COMPLETED"
  obtains k' where "rt_completion_done n (q, k) = Some (q\<lparr>cmp_flag := RT_COMPLETED\<rparr>, k')"
    "cmp_inv (q\<lparr>cmp_flag := RT_COMPLETED\<rparr>, k')" "tlists k' (cmp_list n) = tl (tlists k (cmp_list n))"
    "first_runnable k' (tlists k (cmp_list n))" "\<And>t. thread_error (threads k' t) = thread_error (threads k t)"
    "tlists k (cmp_list n) = [] \<Longrightarrow> k' = k"
proof -
  have rdy: "kready k" using assms(1) by (simp add: cmp_inv_def)
  obtain c where cur: "rt_current_thread k = Some c" using assms(1) by (auto simp: cmp_inv_def)
  obtain k' d where w: "ipc_wake (cmp_list n) k = Some k'" "kready k'" "kframe k k'" "rt_current_thread k' = Some d"
    "tlists k' (cmp_list n) = tl (tlists k (cmp_list n))"
    "\<And>t ts. tlists k (cmp_list n) = t # ts \<Longrightarrow> tstat k' t \<in> {RT_THREAD_READY, RT_THREAD_RUNNING}"
    using ipc_wake_total [OF rdy cur disjI1 [OF refl]] by metis
  note err = kframe_thread(1) [OF w(3)]
  have run: "first_runnable k' (tlists k (cmp_list n))"
    using w(6) by (cases "tlists k (cmp_list n)") (auto simp: first_runnable_def)
  have "tlists k (cmp_list n) = [] \<Longrightarrow> k' = k" using w(1) by (simp add: ipc_wake_def)
  then show thesis
    using that [of k'] w err run assms(2) by (cases "tlists k (cmp_list n) = []") (simp_all add: rt_completion_done_def cmp_inv_def)
qed

text \<open>The flag is up until the woken thread runs, so another wait in between succeeds as well: two waits
  return \<^verbatim>\<open>RT_EOK\<close> for one completion.\<close>

lemma completion_two_successes:
  assumes "cmp_inv (q, k)" "cmp_flag q \<noteq> RT_COMPLETED" "tlists k (cmp_list n) = [c]" "thread_error (threads k c) = RT_EOK"
  shows "\<exists>s1 s2. rt_completion_done n (q, k) = Some s1 \<and> rt_completion_wait n 0 s1 = Some (Return RT_EOK, s2) \<and>
    fst (rt_completion_wait_resume c s2) = RT_EOK"
proof -
  let ?q = "q\<lparr>cmp_flag := RT_COMPLETED\<rparr>"
  obtain k' where d: "rt_completion_done n (q, k) = Some (?q, k')"
    "\<And>t. thread_error (threads k' t) = thread_error (threads k t)"
    using rt_completion_done_total [OF assms(1,2)] by metis
  have "rt_completion_wait n 0 (?q, k') = Some (Return RT_EOK, ?q\<lparr>cmp_flag := RT_UNCOMPLETED\<rparr>, k')"
    by (rule rt_completion_wait_completed [where c = c]) (simp_all add: fifo_legal_def)
  then show ?thesis using d assms(4) by (auto simp: rt_completion_wait_resume_def)
qed

section \<open>Example\<close>

definition cmp_demo :: cmp_state where
  "cmp_demo = rt_completion_init 0 three_threads"

lemma cmp_demo_ok: "cmp_inv cmp_demo" "cmp_flag (fst cmp_demo) = RT_UNCOMPLETED" "snd cmp_demo = three_threads"
  "tlists (snd cmp_demo) (cmp_list 0) = []" "fifo_legal 2 100 (snd cmp_demo)"
proof -
  have "ipc_object_init (Completion 0) three_threads = three_threads"
    by (simp add: ipc_object_init_def upd_tlists_def three_threads_def fun_eq_iff)
  then show s: "snd cmp_demo = three_threads" by (simp add: cmp_demo_def rt_completion_init_def)
  show "cmp_inv cmp_demo" using kready_three_threads by (simp add: cmp_inv_def s)
  show "cmp_flag (fst cmp_demo) = RT_UNCOMPLETED" by (simp add: cmp_demo_def rt_completion_init_def)
  show "tlists (snd cmp_demo) (cmp_list 0) = []" by (simp add: s)
  show "fifo_legal 2 100 (snd cmp_demo)"
    using running_three_threads by (simp add: s fifo_legal_def thread_context_def fifo_may_wait_def
        rt_critical_level_def time_ok_def)
qed

lemma cmp_demo_waits:
  obtains k where "rt_completion_wait 0 100 cmp_demo = Some (Block, fst cmp_demo, k)" "cmp_inv (fst cmp_demo, k)"
    "tlists k (cmp_list 0) = [2]" "tstat k 2 = RT_THREAD_SUSPEND"
proof -
  have "cmp_inv (fst cmp_demo, snd cmp_demo)" "cmp_flag (fst cmp_demo) \<noteq> RT_COMPLETED" using cmp_demo_ok(1,2) by simp_all
  then show thesis
    by (rule rt_completion_wait_uncompleted [OF _ cmp_demo_ok(5) _ cmp_demo_ok(4)]) (use that in simp_all)
qed

section \<open>Properties\<close>

text \<open>C29: The handshake of a completion. When a thread waits and the completion is not done yet,
  \<^verbatim>\<open>rt_completion_done\<close> sets the flag and makes the thread runnable, and the thread's wait, when it runs
  again, takes the flag down and returns \<^verbatim>\<open>RT_EOK\<close>. When nobody waits, the flag stays up, and the next wait, with any
  timeout, succeeds at once and takes it down.\<close>

theorem completion_handshake:
  assumes "cmp_inv (q, k)" and "cmp_flag q \<noteq> RT_COMPLETED"
  shows "\<exists>q1 k1. rt_completion_done n (q, k) = Some (q1, k1) \<and> cmp_inv (q1, k1) \<and> cmp_flag q1 = RT_COMPLETED \<and>
    (\<forall>c. tlists k (cmp_list n) = [c] \<and> thread_error (threads k c) = RT_EOK \<longrightarrow>
       tstat k1 c \<in> {RT_THREAD_READY, RT_THREAD_RUNNING} \<and> tlists k1 (cmp_list n) = [] \<and>
       rt_completion_wait_resume c (q1, k1) = (RT_EOK, q1\<lparr>cmp_flag := RT_UNCOMPLETED\<rparr>, k1)) \<and>
    (\<forall>c timeout. tlists k (cmp_list n) = [] \<and> fifo_legal c timeout k1 \<longrightarrow>
       rt_completion_wait n timeout (q1, k1) = Some (Return RT_EOK, q1\<lparr>cmp_flag := RT_UNCOMPLETED\<rparr>, k1))"
proof -
  let ?q = "q\<lparr>cmp_flag := RT_COMPLETED\<rparr>"
  obtain k' where d: "rt_completion_done n (q, k) = Some (?q, k')" "cmp_inv (?q, k')"
    "tlists k' (cmp_list n) = tl (tlists k (cmp_list n))" "first_runnable k' (tlists k (cmp_list n))"
    "\<And>t. thread_error (threads k' t) = thread_error (threads k t)"
    using rt_completion_done_total [OF assms] by metis
  then show ?thesis
    using rt_completion_wait_completed [of _ _ k' ?q n]
    by (intro exI [of _ ?q] exI [of _ k']) (auto simp: rt_completion_wait_resume_def first_runnable_def)
qed

theorem completion_handshake_witness:
  "\<exists>k q1 k1. rt_completion_wait 0 100 cmp_demo = Some (Block, fst cmp_demo, k) \<and>
     rt_completion_done 0 (fst cmp_demo, k) = Some (q1, k1) \<and> cmp_flag q1 = RT_COMPLETED"
proof -
  obtain k where k: "rt_completion_wait 0 100 cmp_demo = Some (Block, fst cmp_demo, k)" "cmp_inv (fst cmp_demo, k)"
    using cmp_demo_waits by metis
  show ?thesis using completion_handshake [OF k(2), of 0] k(1) cmp_demo_ok(2) by auto
qed

text \<open>C30: A completion can be lost. When a thread waits and its time is up, and the completion is done before
  the thread runs again, the wait returns \<^verbatim>\<open>RT_ETIMEOUT\<close> and nevertheless takes the flag down: the
  completion is forgotten, and the next wait fails although \<^verbatim>\<open>rt_completion_done\<close> was called.\<close>

theorem completion_done_lost:
  assumes "cmp_inv (q, k)" and "fifo_legal c timeout k" and "timeout \<noteq> 0" and "tlists k (cmp_list n) = []"
    and wait: "rt_completion_wait n timeout (q, k) = Some (Block, q1, k1)" and to: "thread_timeout c k1 = Some k2"
  shows "\<exists>q2 q3. rt_completion_done n (q1, k2) = Some (q2, k2) \<and> cmp_flag q2 = RT_COMPLETED \<and>
    rt_completion_wait_resume c (q2, k2) = (- RT_ETIMEOUT, q3, k2) \<and>
    rt_completion_wait n 0 (q3, k2) = Some (Return (- RT_ETIMEOUT), q3, k2)"
proof -
  have flag: "cmp_flag q \<noteq> RT_COMPLETED"
    using rt_completion_wait_completed [OF assms(2)] wait by fastforce
  obtain k' where k': "rt_completion_wait n timeout (q, k) = Some (Block, q, k')" "cmp_inv (q, k')" "tlists k' (cmp_list n) = [c]"
    using rt_completion_wait_uncompleted [OF assms(1,2) flag assms(4)] assms(3) by metis
  then have eq: "q1 = q" "k1 = k'" using wait by auto
  obtain d where d: "rt_current_thread k1 = Some d" "kready k1" using k'(2) by (auto simp: cmp_inv_def eq)
  have "tlists k2 (cmp_list n) = []"
    using thread_timeout_lists(5) [OF to kready_kinv [OF d(2)] d(1), of "cmp_list n"] k'(3) by (simp add: eq)
  moreover have "thread_error (threads k2 c) = - RT_ETIMEOUT" using thread_timeout_threads(2) [OF to, of c] by simp
  ultimately show ?thesis
    using flag by (simp add: rt_completion_done_def rt_completion_wait_resume_def rt_completion_wait_def eq
        RT_DEBUG_SCHEDULER_AVAILABLE_def)
qed

theorem completion_done_lost_witness:
  "\<exists>k1 k2 q2. rt_completion_wait 0 100 cmp_demo = Some (Block, fst cmp_demo, k1) \<and> thread_timeout 2 k1 = Some k2 \<and>
     rt_completion_done 0 (fst cmp_demo, k2) = Some (q2, k2) \<and> cmp_flag q2 = RT_COMPLETED"
proof -
  obtain k1 where k1: "rt_completion_wait 0 100 cmp_demo = Some (Block, fst cmp_demo, k1)" "cmp_inv (fst cmp_demo, k1)"
    "tstat k1 2 = RT_THREAD_SUSPEND"
    using cmp_demo_waits by metis
  obtain d where d: "kready k1" "rt_current_thread k1 = Some d" using k1(2) by (auto simp: cmp_inv_def)
  obtain k2 where k2: "thread_timeout 2 k1 = Some k2" using thread_timeout_returns [OF d(1) k1(3) d(2)] by blast
  show ?thesis
    using completion_done_lost [of "fst cmp_demo" "snd cmp_demo" 2 100 0, OF _ cmp_demo_ok(5) _ cmp_demo_ok(4) _ k2]
      k1(1) k2 cmp_demo_ok(1) by auto
qed

end
