(* ===== verification/Ipc_Sem.thy ===== *)
theory Ipc_Sem
  imports Ipc
begin

text \<open>
  Counting semaphores (\<^verbatim>\<open>src/ipc.c\<close>): the operations, an abstract specification as a transition
  system on the count and the queue of waiters, the refinement of the operations to it, and the
  invariant that no thread waits while the count is positive.
\<close>

section \<open>Operations\<close>

definition set_sem_value :: "nat \<Rightarrow> 16 word \<Rightarrow> kernel \<Rightarrow> kernel" where
  "set_sem_value n v k = k\<lparr>sems := (sems k)(n := (sems k n)\<lparr>sem_value := v\<rparr>)\<rparr>"

definition rt_sem_init :: "nat \<Rightarrow> string \<Rightarrow> 32 word \<Rightarrow> 8 word \<Rightarrow> kernel \<Rightarrow> (int \<times> kernel) option" where
  "rt_sem_init n nm value flag k = do {
     rt_assert (value < 0x10000);
     rt_assert (flag = RT_IPC_FLAG_FIFO \<or> flag = RT_IPC_FLAG_PRIO);
     k1 \<leftarrow> rt_object_init (Obj_ipc (Sem n)) RT_Object_Class_Semaphore nm k;
     let k2 = ipc_object_init (Sem n) k1;
     let k3 = set_sem_value n (ucast value) k2;
     Some (RT_EOK, set_ipc_flag (Sem n) flag k3) }"

definition rt_sem_detach :: "nat \<Rightarrow> kernel \<Rightarrow> (int \<times> kernel) option" where
  "rt_sem_detach n k = do {
     rt_assert (rt_object_get_type (Obj_ipc (Sem n)) k = RT_Object_Class_Semaphore);
     rt_assert (rt_object_is_systemobject (Obj_ipc (Sem n)) k);
     (_, k1) \<leftarrow> ipc_list_resume_all (Suspend (Sem n)) k;
     Some (RT_EOK, rt_object_detach (Obj_ipc (Sem n)) k1) }"

definition rt_sem_create ::
  "string \<Rightarrow> 32 word \<Rightarrow> 8 word \<Rightarrow> nat option \<Rightarrow> kernel \<Rightarrow> (nat option \<times> kernel) option" where
  "rt_sem_create nm value flag mem k = do {
     rt_assert (value < 0x10000);
     rt_assert (flag = RT_IPC_FLAG_FIFO \<or> flag = RT_IPC_FLAG_PRIO);
     RT_DEBUG_NOT_IN_INTERRUPT k;
     (_, k1) \<leftarrow> rt_object_allocate RT_Object_Class_Semaphore nm (map_option (Obj_ipc \<circ> Sem) mem) k;
     case mem of
       None \<Rightarrow> Some (None, k1)
     | Some n \<Rightarrow>
         let k2 = ipc_object_init (Sem n) k1;
             k3 = set_sem_value n (ucast value) k2
         in Some (Some n, set_ipc_flag (Sem n) flag k3) }"

definition rt_sem_delete :: "nat \<Rightarrow> kernel \<Rightarrow> (int \<times> kernel) option" where
  "rt_sem_delete n k = do {
     rt_assert (rt_object_get_type (Obj_ipc (Sem n)) k = RT_Object_Class_Semaphore);
     rt_assert (\<not> rt_object_is_systemobject (Obj_ipc (Sem n)) k);
     RT_DEBUG_NOT_IN_INTERRUPT k;
     (_, k1) \<leftarrow> ipc_list_resume_all (Suspend (Sem n)) k;
     k2 \<leftarrow> rt_object_delete (Obj_ipc (Sem n)) k1;
     Some (RT_EOK, k2) }"

definition rt_sem_take :: "nat \<Rightarrow> 32 word \<Rightarrow> kernel \<Rightarrow> (int outcome \<times> kernel) option" where
  "rt_sem_take n timeout k = do {
     rt_assert (rt_object_get_type (Obj_ipc (Sem n)) k = RT_Object_Class_Semaphore);
     if sem_value (sems k n) > 0 then
       Some (Return RT_EOK, set_sem_value n (sem_value (sems k n) - 1) k)
     else if timeout = 0 then Some (Return (- RT_ETIMEOUT), k)
     else do {
       RT_DEBUG_SCHEDULER_AVAILABLE True k;
       t \<leftarrow> rt_thread_self k;
       let k1 = upd_thread t (\<lambda>r. r\<lparr>thread_error := RT_EOK\<rparr>) k;
       k2 \<leftarrow> ipc_block (Suspend (Sem n)) t (ipc_flag k1 (Sem n)) timeout k1;
       Some (Block, k2) } }"

text \<open>What \<^verbatim>\<open>rt_sem_take\<close> returns when the blocked thread runs again.\<close>

definition rt_sem_take_resume :: "tid \<Rightarrow> kernel \<Rightarrow> int" where
  "rt_sem_take_resume t k =
     (if thread_error (threads k t) \<noteq> RT_EOK then thread_error (threads k t) else RT_EOK)"

definition rt_sem_trytake :: "nat \<Rightarrow> kernel \<Rightarrow> (int outcome \<times> kernel) option" where
  "rt_sem_trytake n k = rt_sem_take n 0 k"

definition rt_sem_release :: "nat \<Rightarrow> kernel \<Rightarrow> (int \<times> kernel) option" where
  "rt_sem_release n k = do {
     rt_assert (rt_object_get_type (Obj_ipc (Sem n)) k = RT_Object_Class_Semaphore);
     if tlists k (Suspend (Sem n)) \<noteq> [] then do {
       (_, k1) \<leftarrow> ipc_list_resume (Suspend (Sem n)) k;
       k2 \<leftarrow> rt_schedule k1;
       Some (RT_EOK, k2) }
     else if sem_value (sems k n) < 0xFFFF then
       Some (RT_EOK, set_sem_value n (sem_value (sems k n) + 1) k)
     else Some (- RT_EFULL, k) }"

text \<open>\<open>reset\<close> is the value passed with \<^verbatim>\<open>RT_IPC_CMD_RESET\<close>, \<^term>\<open>None\<close> any other command.\<close>

definition rt_sem_control :: "nat \<Rightarrow> 32 word option \<Rightarrow> kernel \<Rightarrow> (int \<times> kernel) option" where
  "rt_sem_control n reset k = do {
     rt_assert (rt_object_get_type (Obj_ipc (Sem n)) k = RT_Object_Class_Semaphore);
     case reset of
       Some value \<Rightarrow> do {
         (_, k1) \<leftarrow> ipc_list_resume_all (Suspend (Sem n)) k;
         let k2 = set_sem_value n (ucast value) k1;
         k3 \<leftarrow> rt_schedule k2;
         Some (RT_EOK, k3) }
     | None \<Rightarrow> Some (- RT_ERROR, k) }"

section \<open>Frame\<close>

lemma set_sem_value_sel [simp]:
  "sems (set_sem_value n v k) = (sems k)(n := (sems k n)\<lparr>sem_value := v\<rparr>)"
  "tlists (set_sem_value n v k) = tlists k" "threads (set_sem_value n v k) = threads k"
  "rt_current_thread (set_sem_value n v k) = rt_current_thread k"
  "rt_thread_ready_priority_group (set_sem_value n v k) = rt_thread_ready_priority_group k"
  "objects (set_sem_value n v k) = objects k" "rows (set_sem_value n v k) = rows k"
  by (simp_all add: set_sem_value_def)

lemma kinv_set_sem_value [simp]: "kinv (set_sem_value n v k) = kinv k"
  unfolding kinv_def sched_inv_def thread_timers_hard_def
  by (subst sched_inv_except_cong [of "set_sem_value n v k" k]) simp_all

text \<open>The view of a semaphore that its specification is about.\<close>

definition sem_view :: "nat \<Rightarrow> kernel \<Rightarrow> nat \<times> tid list" where
  "sem_view n k = (unat (sem_value (sems k n)), tlists k (Suspend (Sem n)))"

lemma sem_view_schedule:
  assumes "rt_schedule k = Some k'" "kinv k" "rt_current_thread k = Some c"
  shows "sem_view n k' = sem_view n k"
  using rt_schedule_wait_lists [OF _ assms(3,1), of "Suspend (Sem n)"] assms(2)
    same_but_sched_sel(8) [OF rt_schedule_same [OF assms(1)]]
  by (simp add: sem_view_def kinv_def)

section \<open>Specification\<close>

text \<open>A semaphore as a count and a queue: taking, waiting, waking the first waiter, giving, a waiter
  that gives up, and reset.\<close>

inductive sem_spec :: "nat \<times> 't list \<Rightarrow> nat \<times> 't list \<Rightarrow> bool" where
  spec_take: "sem_spec (Suc v, ws) (v, ws)"
| spec_wait: "sem_spec (0, xs @ ys) (0, xs @ t # ys)"
| spec_wake: "sem_spec (v, t # ws) (v, ws)"
| spec_give: "Suc v < 2 ^ 16 \<Longrightarrow> sem_spec (v, []) (Suc v, [])"
| spec_leave: "sem_spec (v, xs @ t # ys) (v, xs @ ys)"
| spec_reset: "v' < 2 ^ 16 \<Longrightarrow> sem_spec (v, ws) (v', [])"
| spec_stay: "sem_spec s s"

text \<open>The contract of a component that refines the specification.\<close>

locale semaphore_like =
  fixes step :: "'k \<Rightarrow> 'k \<Rightarrow> bool" and view :: "'k \<Rightarrow> nat \<times> 't list"
  assumes refines: "step k k' \<Longrightarrow> sem_spec (view k) (view k')"
begin

definition no_idle_waiters :: "'k \<Rightarrow> bool" where
  "no_idle_waiters k \<longleftrightarrow> (0 < fst (view k) \<longrightarrow> snd (view k) = [])"

lemma no_idle_waiters_step: "step k k' \<Longrightarrow> no_idle_waiters k \<Longrightarrow> no_idle_waiters k'"
  using refines [of k k'] unfolding no_idle_waiters_def
  by (cases rule: sem_spec.cases) auto

lemma no_idle_waiters_reachable: "step\<^sup>*\<^sup>* k k' \<Longrightarrow> no_idle_waiters k \<Longrightarrow> no_idle_waiters k'"
  by (induction rule: rtranclp_induct) (auto intro: no_idle_waiters_step)

lemma bound_step: "step k k' \<Longrightarrow> fst (view k) < 2 ^ 16 \<Longrightarrow> fst (view k') < 2 ^ 16"
  using refines [of k k'] by (cases rule: sem_spec.cases) auto

end

section \<open>Refinement\<close>

lemma rt_sem_take_cases:
  assumes take: "rt_sem_take n timeout k = Some (r, k')" and inv: "kinv k" and run: "running c k"
  obtains
    (got) "0 < sem_value (sems k n)" "r = Return RT_EOK"
      "k' = set_sem_value n (sem_value (sems k n) - 1) k"
  | (busy) "sem_value (sems k n) = 0" "timeout = 0" "r = Return (- RT_ETIMEOUT)" "k' = k"
  | (blocked) "sem_value (sems k n) = 0" "timeout \<noteq> 0" "r = Block" "kinv k'"
      "tstat k' c = RT_THREAD_SUSPEND" "sems k' = sems k" "thread_error (threads k' c) = RT_EOK"
      "tlists k' (Suspend (Sem n)) =
         wait_insert (ipc_flag k (Sem n)) (tprio k) c (tlists k (Suspend (Sem n)))"
      "\<And>q. q \<noteq> Sem n \<Longrightarrow> tlists k' (Suspend q) = tlists k (Suspend q)"
proof -
  consider "0 < sem_value (sems k n)" | "sem_value (sems k n) = 0" "timeout = 0"
    | "sem_value (sems k n) = 0" "timeout \<noteq> 0"
    using word_zero_cases [of "sem_value (sems k n)"] by blast
  then show thesis
  proof cases
    case 1
    then have "r = Return RT_EOK" "k' = set_sem_value n (sem_value (sems k n) - 1) k"
      using take by (simp_all add: rt_sem_take_def)
    with 1 show thesis by (rule got)
  next
    case 2
    then have "r = Return (- RT_ETIMEOUT)" "k' = k" using take by (simp_all add: rt_sem_take_def)
    with 2 show thesis by (rule busy)
  next
    case 3
    let ?k1 = "upd_thread c (\<lambda>r. r\<lparr>thread_error := RT_EOK\<rparr>) k"
    from take 3 run have bl: "ipc_block (Suspend (Sem n)) c (ipc_flag k (Sem n)) timeout ?k1 = Some k'"
      and r: "r = Block"
      by (auto simp: rt_sem_take_def bind_eq_Some_conv running_def rt_thread_self_def Let_def)
    have k1: "sched_inv ?k1" "thread_timers_hard ?k1" "tstat ?k1 c = RT_THREAD_RUNNING"
      using inv run by (simp_all add: kinv_def sched_inv_def running_def thread_timers_hard_def)
    note b = ipc_block_spec [OF bl k1(1,3) disjI1 [OF refl] k1(2)]
    have prio: "tprio ?k1 = tprio k" by auto
    show thesis
    proof (rule blocked)
      show "kinv k'" using b(1,6) by (simp add: kinv_def)
      show "sems k' = sems k" using kframe_sel(1) [OF b(3)] by simp
      show "thread_error (threads k' c) = RT_EOK" using kframe_thread(1) [OF b(3), of c] by simp
      show "tlists k' (Suspend (Sem n)) =
          wait_insert (ipc_flag k (Sem n)) (tprio k) c (tlists k (Suspend (Sem n)))"
        using b(4) [of "Suspend (Sem n)"] prio by simp
      show "tlists k' (Suspend q) = tlists k (Suspend q)" if "q \<noteq> Sem n" for q
        using b(4) [of "Suspend q"] that by simp
    qed (use 3 r b(2) in auto)
  qed
qed

lemma rt_sem_take_refines:
  assumes "rt_sem_take n timeout k = Some (r, k')" "kinv k" "running c k"
  shows "sem_spec (sem_view n k) (sem_view n k')" "kinv k'"
proof -
  have "sem_spec (sem_view n k) (sem_view n k') \<and> kinv k'"
    using assms
  proof (cases rule: rt_sem_take_cases)
    case got
    then have "unat (sem_value (sems k n)) = Suc (unat (sem_value (sems k n) - 1))"
      by (intro word_dec_Suc)
    then show ?thesis using got assms(2) by (simp add: sem_view_def spec_take)
  next
    case busy
    then show ?thesis using assms(2) by (simp add: spec_stay)
  next
    case blocked
    then show ?thesis
      using wait_insert_split [of "tlists k (Suspend (Sem n))" "ipc_flag k (Sem n)" "tprio k" c]
      by (auto simp: sem_view_def spec_wait)
  qed
  then show "sem_spec (sem_view n k) (sem_view n k')" "kinv k'" by auto
qed

lemma rt_sem_release_cases:
  assumes rel: "rt_sem_release n k = Some (e, k')" and inv: "kinv k"
    and cur: "rt_current_thread k = Some c"
  obtains
    (woken) t ts where "tlists k (Suspend (Sem n)) = t # ts" "e = RT_EOK" "kinv k'"
      "sems k' = sems k" "tlists k' (Suspend (Sem n)) = ts"
      "tstat k' t \<in> {RT_THREAD_READY, RT_THREAD_RUNNING}"
      "thread_error (threads k' t) = thread_error (threads k t)"
  | (counted) "tlists k (Suspend (Sem n)) = []" "sem_value (sems k n) < 0xFFFF" "e = RT_EOK"
      "k' = set_sem_value n (sem_value (sems k n) + 1) k"
  | (full) "tlists k (Suspend (Sem n)) = []" "sem_value (sems k n) = 0xFFFF" "e = - RT_EFULL"
      "k' = k"
proof (cases "tlists k (Suspend (Sem n)) = []")
  case True
  have "sem_value (sems k n) = 0xFFFF" if "\<not> sem_value (sems k n) < 0xFFFF"
    using that by (rule u16_max)
  then show thesis using True rel counted full by (auto simp: rt_sem_release_def split: if_splits)
next
  case False
  with rel obtain e1 k1 where k1: "ipc_list_resume (Suspend (Sem n)) k = Some (e1, k1)"
    and k': "rt_schedule k1 = Some k'" and e: "e = RT_EOK"
    by (auto simp: rt_sem_release_def bind_eq_Some_conv)
  have sinv: "sched_inv k" using inv by (simp add: kinv_def)
  from ipc_list_resume_spec [OF k1 sinv disjI1 [OF refl]] obtain t ts where
    w: "tlists k (Suspend (Sem n)) = t # ts" "sched_inv k1" "kframe k k1"
      "rt_current_thread k1 = rt_current_thread k"
      "tstat k1 t \<in> {RT_THREAD_READY, RT_THREAD_RUNNING}"
      "thread_timers_hard k \<longrightarrow> thread_timers_hard k1"
      "tlists k1 (Suspend (Sem n)) = ts" by auto
  have cur1: "rt_current_thread k1 = Some c" using w(4) cur by simp
  have fr: "kframe k k'" using kframe_trans [OF w(3) kframe_sched [OF rt_schedule_same [OF k']]] .
  show thesis
  proof (rule woken)
    show "kinv k'" using kinv_schedule [OF k' _ cur1] w(2,6) inv by (simp add: kinv_def)
    show "sems k' = sems k" using kframe_sel(1) [OF fr] .
    show "tlists k' (Suspend (Sem n)) = ts"
      using rt_schedule_wait_lists [OF w(2) cur1 k', of "Suspend (Sem n)"] w(7) by simp
    show "tstat k' t \<in> {RT_THREAD_READY, RT_THREAD_RUNNING}"
      using rt_schedule_keeps_runnable [OF w(2) cur1 k' w(5)] .
    show "thread_error (threads k' t) = thread_error (threads k t)" using kframe_thread(1) [OF fr] .
  qed (use w(1) e in auto)
qed

lemma rt_sem_release_refines:
  assumes "rt_sem_release n k = Some (e, k')" "kinv k" "rt_current_thread k = Some c"
  shows "sem_spec (sem_view n k) (sem_view n k')" "kinv k'"
proof -
  have "sem_spec (sem_view n k) (sem_view n k') \<and> kinv k'"
    using assms
  proof (cases rule: rt_sem_release_cases)
    case (woken t ts)
    then show ?thesis by (simp add: sem_view_def spec_wake)
  next
    case counted
    then have "unat (sem_value (sems k n)) < 65535" by (simp add: word_less_nat_alt)
    moreover have "unat (sem_value (sems k n) + 1) = Suc (unat (sem_value (sems k n)))"
      using counted by (intro u16_inc)
    ultimately show ?thesis using counted assms(2)
      by (simp add: sem_view_def spec_give)
  next
    case full
    then show ?thesis using assms(2) by (simp add: spec_stay)
  qed
  then show "sem_spec (sem_view n k) (sem_view n k')" "kinv k'" by auto
qed

lemma sem_timeout_refines:
  assumes "thread_timeout t k = Some k'" "kinv k" "rt_current_thread k = Some c"
  shows "sem_spec (sem_view n k) (sem_view n k')"
proof -
  note l = thread_timeout_lists(2) [OF assms] thread_timeout_lists(5) [OF assms, of "Suspend (Sem n)"]
  let ?ws = "tlists k (Suspend (Sem n))"
  have dist: "distinct ?ws"
    using assms(2) sched_inv_exceptD(1) [of "{}" k] by (auto simp: kinv_def sched_inv_def wf_queues_def)
  show ?thesis
  proof (cases "t \<in> set ?ws")
    case True
    then obtain xs ys where ws: "?ws = xs @ t # ys" by (meson split_list)
    then have "removeAll t ?ws = xs @ ys" using dist by simp
    then show ?thesis using l ws by (simp add: sem_view_def spec_leave)
  next
    case False
    then show ?thesis using l by (simp add: sem_view_def spec_stay)
  qed
qed

lemma rt_sem_control_refines:
  assumes ctl: "rt_sem_control n (Some v) k = Some (e, k')" and inv: "kinv k"
    and cur: "rt_current_thread k = Some c"
    and res: "\<And>t. t \<in> set (tlists k (Suspend (Sem n))) \<Longrightarrow> resumable k t"
  shows "sem_view n k' = (unat (ucast v :: 16 word), [])" "kinv k'" "e = RT_EOK"
    "\<And>t. t \<in> set (tlists k (Suspend (Sem n))) \<Longrightarrow>
      tstat k' t \<in> {RT_THREAD_READY, RT_THREAD_RUNNING} \<and> rt_sem_take_resume t k' = - RT_ERROR"
proof -
  have sinv: "sched_inv k" using inv by (simp add: kinv_def)
  from ipc_list_resume_all_spec [of k "Suspend (Sem n)" "Sem n"] sinv res obtain k1 where k1:
    "ipc_list_resume_all (Suspend (Sem n)) k = Some (RT_EOK, k1)" "sched_inv k1"
    "rt_current_thread k1 = rt_current_thread k" "tlists k1 (Suspend (Sem n)) = []"
    "\<And>t. t \<in> set (tlists k (Suspend (Sem n))) \<Longrightarrow>
      tstat k1 t \<in> {RT_THREAD_READY, RT_THREAD_RUNNING} \<and> thread_error (threads k1 t) = - RT_ERROR"
    "thread_timers_hard k \<longrightarrow> thread_timers_hard k1"
    by auto
  let ?k2 = "set_sem_value n (ucast v) k1"
  from ctl k1(1) have k': "rt_schedule ?k2 = Some k'" and e: "e = RT_EOK"
    by (auto simp: rt_sem_control_def Let_def bind_eq_Some_conv)
  have kinv2: "kinv ?k2" using inv k1(2,6) by (simp add: kinv_def [of k] kinv_def [of k1])
  have cur2: "rt_current_thread ?k2 = Some c" using cur k1(3) by simp
  show "sem_view n k' = (unat (ucast v :: 16 word), [])"
    using sem_view_schedule [OF k' kinv2 cur2, of n] k1(4) by (simp add: sem_view_def)
  show "kinv k'" by (rule kinv_schedule [OF k' kinv2 cur2])
  show "e = RT_EOK" by (fact e)
  show "tstat k' t \<in> {RT_THREAD_READY, RT_THREAD_RUNNING} \<and> rt_sem_take_resume t k' = - RT_ERROR"
    if "t \<in> set (tlists k (Suspend (Sem n)))" for t
  proof -
    have "tstat ?k2 t \<in> {RT_THREAD_READY, RT_THREAD_RUNNING}" using k1(5) [OF that] by simp
    then have "tstat k' t \<in> {RT_THREAD_READY, RT_THREAD_RUNNING}"
      using rt_schedule_keeps_runnable [OF _ cur2 k'] kinv2 by (simp add: kinv_def)
    moreover have "thread_error (threads k' t) = - RT_ERROR"
      using same_but_sched_sel(15) [OF rt_schedule_same [OF k'], of t] k1(5) [OF that] by simp
    ultimately show ?thesis by (simp add: rt_sem_take_resume_def rt_errors)
  qed
qed

section \<open>Steps of a semaphore\<close>

text \<open>Everything that can happen to semaphore \<open>n\<close>: a thread takes it, any context releases or
  resets it, a waiting thread's timer expires.\<close>

inductive sem_step :: "nat \<Rightarrow> kernel \<Rightarrow> kernel \<Rightarrow> bool" for n where
  step_take: "kinv k \<Longrightarrow> running c k \<Longrightarrow> rt_sem_take n timeout k = Some (r, k') \<Longrightarrow> sem_step n k k'"
| step_release: "kinv k \<Longrightarrow> rt_current_thread k = Some c \<Longrightarrow> rt_sem_release n k = Some (e, k') \<Longrightarrow>
    sem_step n k k'"
| step_reset: "kinv k \<Longrightarrow> rt_current_thread k = Some c \<Longrightarrow>
    (\<And>t. t \<in> set (tlists k (Suspend (Sem n))) \<Longrightarrow> resumable k t) \<Longrightarrow>
    rt_sem_control n (Some v) k = Some (e, k') \<Longrightarrow> sem_step n k k'"
| step_timeout: "kinv k \<Longrightarrow> rt_current_thread k = Some c \<Longrightarrow> thread_timeout t k = Some k' \<Longrightarrow>
    sem_step n k k'"

interpretation sem: semaphore_like "sem_step n" "sem_view n" for n
proof
  fix k k' assume "sem_step n k k'"
  then show "sem_spec (sem_view n k) (sem_view n k')"
  proof (cases rule: sem_step.cases)
    case step_take
    then show ?thesis using rt_sem_take_refines(1) by blast
  next
    case step_release
    then show ?thesis using rt_sem_release_refines(1) by blast
  next
    case (step_reset c v e)
    have "sem_view n k' = (unat (ucast v :: 16 word), [])"
      using rt_sem_control_refines(1) [OF step_reset(4,1,2,3)] .
    then show ?thesis
      using spec_reset [OF unat_16_bound] by (metis surj_pair)
  next
    case step_timeout
    then show ?thesis using sem_timeout_refines by blast
  qed
qed

section \<open>The operations return\<close>

lemma kready_sem_value [simp]: "kready (set_sem_value n v k) = kready k"
  using kinv_set_sem_value [of n v k] live_ok_cong [of "set_sem_value n v k" k]
  by (auto simp: kready_def kinv_def)

lemma rt_sem_take_blocks_ready:
  assumes "kready k" "thread_context c k" "sem_value (sems k n) = 0" "timeout \<noteq> 0"
    and "rt_object_get_type (Obj_ipc (Sem n)) k = RT_Object_Class_Semaphore"
    and "ipc_flag k (Sem n) = RT_IPC_FLAG_FIFO \<or> ipc_flag k (Sem n) = RT_IPC_FLAG_PRIO"
    and "sint timeout \<le> 0 \<or> timeout < RT_TICK_HALF"
  shows "\<exists>k' d. rt_sem_take n timeout k = Some (Block, k') \<and> kready k' \<and>
    rt_current_thread k' = Some d \<and>
    rt_object_get_type (Obj_ipc (Sem n)) k' = RT_Object_Class_Semaphore"
proof -
  let ?k = "upd_thread c (\<lambda>r. r\<lparr>thread_error := RT_EOK\<rparr>) k"
  have "tstat ?k c = RT_THREAD_RUNNING" "rt_current_thread ?k = Some c" "kready ?k"
    using assms(1,2) by (simp_all add: thread_context_def running_def)
  from ipc_block_ready [OF this(3,1,2) assms(6,7), of "Suspend (Sem n)" "Sem n"] obtain k' d where
    "ipc_block (Suspend (Sem n)) c (ipc_flag k (Sem n)) timeout ?k = Some k'" "kready k'"
    "rt_current_thread k' = Some d"
    "rt_object_get_type (Obj_ipc (Sem n)) k' = rt_object_get_type (Obj_ipc (Sem n)) ?k" by blast
  then show ?thesis
    using assms(2-5) scheduler_available [OF assms(2)]
    by (simp add: rt_object_get_type_def rt_sem_take_def rt_thread_self_def Let_def thread_context_def running_def)
qed

lemma rt_sem_release_returns:
  assumes rdy: "kready k" and ty: "rt_object_get_type (Obj_ipc (Sem n)) k = RT_Object_Class_Semaphore"
    and cur: "rt_current_thread k = Some c"
  shows "\<exists>e k'. rt_sem_release n k = Some (e, k') \<and> kready k'"
proof (cases "tlists k (Suspend (Sem n))")
  case Nil
  then show ?thesis using ty rdy by (simp add: rt_sem_release_def)
next
  case (Cons t ts)
  from ipc_list_resume_ready [OF rdy disjI1 [OF refl] this] obtain k1 where
    k1: "ipc_list_resume (Suspend (Sem n)) k = Some (RT_EOK, k1)" "kready k1" by blast
  have cur1: "rt_current_thread k1 = Some c"
    using ipc_list_resume_spec [OF k1(1) _ disjI1 [OF refl]] rdy cur by (auto simp: kready_def)
  obtain k2 where k2: "rt_schedule k1 = Some k2"
    using rt_schedule_returns [OF _ cur1] k1(2) by (auto simp: kready_def)
  then show ?thesis using kready_schedule [OF k2 k1(2) cur1] k1 Cons ty by (simp add: rt_sem_release_def)
qed

section \<open>Properties\<close>

text \<open>C2: No thread waits for a semaphore whose count is positive: starting from a semaphore where
  this holds (a fresh one has no waiters), it holds after any sequence of takes (with any timeout),
  releases, resets and timeouts. A release therefore never gets lost to a waiting thread.\<close>

theorem sem_no_idle_waiters:
  assumes "(sem_step n)\<^sup>*\<^sup>* k k'"
    and "0 < sem_value (sems k n) \<longrightarrow> tlists k (Suspend (Sem n)) = []"
  shows "0 < sem_value (sems k' n) \<longrightarrow> tlists k' (Suspend (Sem n)) = []"
  using sem.no_idle_waiters_reachable [OF assms(1)] assms(2)
  by (simp add: sem.no_idle_waiters_def sem_view_def word_less_nat_alt)

theorem sem_no_idle_waiters_witness:
  "\<exists>k'. (sem_step 0)\<^sup>*\<^sup>* three_threads k' \<and> 0 < sem_value (sems k' 0) \<and>
     tlists k' (Suspend (Sem 0)) = []"
proof -
  have zero: "sem_value (sems three_threads 0) = 0" by (simp add: three_threads_def zero_kernel_def)
  then have "rt_sem_release 0 three_threads = Some (RT_EOK, set_sem_value 0 1 three_threads)"
    by (simp add: rt_sem_release_def three_threads_types)
  then have "sem_step 0 three_threads (set_sem_value 0 1 three_threads)"
    by (intro step_release [OF kinv_three_threads]) simp_all
  then have "(sem_step 0)\<^sup>*\<^sup>* three_threads (set_sem_value 0 1 three_threads)" by blast
  from this sem_no_idle_waiters [OF this] zero show ?thesis by fastforce
qed

text \<open>A thread that blocks in \<^verbatim>\<open>rt_sem_take\<close> on a free queue is suspended with the count
  still zero; the next release hands the token to it without raising the count, makes it runnable,
  and its call returns \<^verbatim>\<open>RT_EOK\<close>.\<close>

theorem sem_handoff:
  assumes "kinv k" and "running c k" and "sem_value (sems k n) = 0"
    and "tlists k (Suspend (Sem n)) = []"
    and "rt_sem_take n timeout k = Some (Block, k1)"
    and "rt_sem_release n k1 = Some (e, k2)"
  shows "tstat k1 c = RT_THREAD_SUSPEND \<and> tlists k1 (Suspend (Sem n)) = [c] \<and> e = RT_EOK \<and>
    tstat k2 c \<in> {RT_THREAD_READY, RT_THREAD_RUNNING} \<and> rt_sem_take_resume c k2 = RT_EOK \<and>
    sem_value (sems k2 n) = 0 \<and> tlists k2 (Suspend (Sem n)) = [] \<and> kinv k2"
  using assms(5,1,2)
proof (cases rule: rt_sem_take_cases)
  case blocked
  have one: "tlists k1 (Suspend (Sem n)) = [c]" using blocked(8) assms(4) by (simp add: wait_insert_def)
  have "\<exists>d. rt_current_thread k1 = Some d"
    using assms(5) assms(1,2,3)
    by (auto simp: rt_sem_take_def bind_eq_Some_conv Let_def running_def rt_thread_self_def kinv_def
        sched_inv_def thread_timers_hard_def split: if_splits
        dest!: ipc_block_spec(5) [where r = "Sem n"])
  then obtain d where d: "rt_current_thread k1 = Some d" by blast
  from assms(6) blocked(4) d show ?thesis
  proof (cases rule: rt_sem_release_cases)
    case (woken t ts)
    then have "t = c" "ts = []" using one by auto
    with woken blocked one assms(3) show ?thesis by (simp add: rt_sem_take_resume_def)
  qed (use one in auto)
qed simp_all

theorem sem_handoff_witness:
  "\<exists>k1 e k2. rt_sem_take 0 0xFFFFFFFF three_threads = Some (Block, k1) \<and>
     rt_sem_release 0 k1 = Some (e, k2) \<and> rt_sem_take_resume 2 k2 = RT_EOK \<and>
     tstat k1 2 = RT_THREAD_SUSPEND \<and> tstat k2 2 \<in> {RT_THREAD_READY, RT_THREAD_RUNNING}"
proof -
  have zero: "sem_value (sems three_threads 0) = 0" by (simp add: three_threads_def zero_kernel_def)
  have "thread_context 2 three_threads"
    using running_three_threads by (simp add: thread_context_def rt_critical_level_def)
  moreover have "ipc_flag three_threads (Sem 0) = RT_IPC_FLAG_FIFO" by (rule three_threads_types)
  ultimately obtain k1 d where take: "rt_sem_take 0 0xFFFFFFFF three_threads = Some (Block, k1)"
    and k1: "kready k1" "rt_current_thread k1 = Some d"
      "rt_object_get_type (Obj_ipc (Sem 0)) k1 = RT_Object_Class_Semaphore"
    using rt_sem_take_blocks_ready [OF kready_three_threads _ zero, of 2 "0xFFFFFFFF"]
      three_threads_types(2) by auto
  obtain e k2 where "rt_sem_release 0 k1 = Some (e, k2)"
    using rt_sem_release_returns [OF k1(1,3,2)] by blast
  from sem_handoff [OF kinv_three_threads running_three_threads zero _ take this] this take
  show ?thesis by auto
qed

end
