(* ===== verification/Tick.thy ===== *)
theory Tick
  imports Ipc_Sem
begin

text \<open>
  The clock interrupt (\<^verbatim>\<open>src/clock.c\<close>) and the expiry of timers (\<^verbatim>\<open>src/timer.c\<close>). The time-out
  functions of user timers are not part of the kernel: they are the parameter \<open>cb\<close>, applied to the
  function and its argument. The loops end only if those functions let them, so they are partial
  functions, and that they return is proved.
\<close>

section \<open>Operations\<close>

type_synonym callbacks = "nat \<Rightarrow> nat \<Rightarrow> kernel \<Rightarrow> kernel option"

definition timer_due :: "32 word \<Rightarrow> kernel \<Rightarrow> timer_id \<Rightarrow> bool" where
  "timer_due current_tick k tm \<longleftrightarrow> current_tick - timeout_tick (timers k tm) < RT_TICK_HALF"

text \<open>\<^verbatim>\<open>t->timeout_func(t->parameter)\<close>\<close>

definition timer_call :: "callbacks \<Rightarrow> timer_id \<Rightarrow> kernel \<Rightarrow> kernel option" where
  "timer_call cb tm k =
     (case timeout_func (timers k tm) of
        Thread_timeout \<Rightarrow> thread_timeout (timer_parameter (timers k tm)) k
      | User_func f \<Rightarrow> cb f (timer_parameter (timers k tm)) k)"

text \<open>An expired timer moves to the local list \<open>tmp\<close> before its function runs; afterwards it leaves
  that list, and a periodic timer that is still active starts again.\<close>

definition timer_expire :: "timer_head \<Rightarrow> timer_id \<Rightarrow> kernel \<Rightarrow> kernel" where
  "timer_expire tmp tm k =
     (let k1 = timer_remove tm k;
          k2 = (if timer_flag k1 tm AND RT_TIMER_FLAG_PERIODIC = 0
                then set_timer_flag tm (\<lambda>fl. fl AND NOT RT_TIMER_FLAG_ACTIVATED) k1 else k1)
      in upd_rows (push_front tmp tm) k2)"

definition timer_restart :: "timer_id \<Rightarrow> kernel \<Rightarrow> kernel option" where
  "timer_restart tm k = do {
     let k1 = upd_rows (unlink tm) k;
     if timer_flag k1 tm AND RT_TIMER_FLAG_PERIODIC \<noteq> 0 \<and>
        timer_flag k1 tm AND RT_TIMER_FLAG_ACTIVATED \<noteq> 0
     then do {
       let k2 = set_timer_flag tm (\<lambda>fl. fl AND NOT RT_TIMER_FLAG_ACTIVATED) k1;
       (_, k3) \<leftarrow> rt_timer_start tm k2;
       Some k3 }
     else Some k1 }"

partial_function (option) timer_check_loop :: "callbacks \<Rightarrow> 32 word \<Rightarrow> kernel \<Rightarrow> kernel option" where
  "timer_check_loop cb current_tick k =
     (case rows k Hard_list of
        [] \<Rightarrow> Some k
      | tm # _ \<Rightarrow>
          if timer_due current_tick k tm then do {
            k1 \<leftarrow> timer_call cb tm (timer_expire Check_list tm k);
            k2 \<leftarrow> (if rows k1 Check_list = [] then Some k1 else timer_restart tm k1);
            timer_check_loop cb (rt_tick_get k1) k2 }
          else Some k)"

definition rt_timer_check :: "callbacks \<Rightarrow> kernel \<Rightarrow> kernel option" where
  "rt_timer_check cb k =
     timer_check_loop cb (rt_tick_get k) (upd_rows (\<lambda>L. L(Check_list := [])) k)"

text \<open>The software timers run in the timer thread, with interrupts enabled during the call: \<open>cb\<close>
  then also stands for what the interrupts do.\<close>

partial_function (option) soft_timer_check_loop :: "callbacks \<Rightarrow> kernel \<Rightarrow> kernel option" where
  "soft_timer_check_loop cb k =
     (case rows k Soft_list of
        [] \<Rightarrow> Some k
      | tm # _ \<Rightarrow>
          if timer_due (rt_tick_get k) k tm then do {
            k1 \<leftarrow> timer_call cb tm ((timer_expire Soft_check_list tm k)\<lparr>soft_timer_busy := True\<rparr>);
            let k2 = k1\<lparr>soft_timer_busy := False\<rparr>;
            k3 \<leftarrow> (if rows k2 Soft_check_list = [] then Some k2 else timer_restart tm k2);
            soft_timer_check_loop cb k3 }
          else Some k)"

definition rt_soft_timer_check :: "callbacks \<Rightarrow> kernel \<Rightarrow> kernel option" where
  "rt_soft_timer_check cb k = soft_timer_check_loop cb (upd_rows (\<lambda>L. L(Soft_check_list := [])) k)"

text \<open>One round of the timer thread: up to the point where it gives the processor away, and the
  check that follows when it runs again. With an overdue timer it does not wait.\<close>

definition timer_thread_entry_wait :: "kernel \<Rightarrow> kernel option" where
  "timer_thread_entry_wait k =
     (case timer_list_next_timeout Soft_list k of
        (_, None) \<Rightarrow> do {
          self \<leftarrow> rt_thread_self k;
          (_, k1) \<leftarrow> rt_thread_suspend self k;
          rt_schedule k1 }
      | (_, Some next_timeout) \<Rightarrow>
          if next_timeout - rt_tick_get k < RT_TICK_HALF
          then rt_thread_delay (next_timeout - rt_tick_get k) k
          else Some k)"

definition timer_thread_entry_resume :: "callbacks \<Rightarrow> kernel \<Rightarrow> kernel option" where
  "timer_thread_entry_resume cb k = rt_soft_timer_check cb k"

text \<open>\<open>entry\<close> is the number of \<^verbatim>\<open>_timer_thread_entry\<close>, \<open>stk\<close> the address of
  \<^verbatim>\<open>_timer_thread_stack\<close>, of 512 bytes.\<close>

definition rt_system_timer_thread_init :: "nat \<Rightarrow> 32 word \<Rightarrow> kernel \<Rightarrow> kernel option" where
  "rt_system_timer_thread_init entry stk k = do {
     let k1 = upd_rows (\<lambda>L. L(Soft_list := [])) k;
     (_, k2) \<leftarrow> rt_thread_init timer_thread ''timer'' entry 0 stk 512 4 10 k1;
     (_, k3) \<leftarrow> rt_thread_startup timer_thread k2;
     Some k3 }"

section \<open>The clock\<close>

definition rt_tick_set :: "32 word \<Rightarrow> kernel \<Rightarrow> kernel" where
  "rt_tick_set tick k = k\<lparr>rt_tick := tick\<rparr>"

definition rt_tick_increase :: "callbacks \<Rightarrow> kernel \<Rightarrow> kernel option" where
  "rt_tick_increase cb k = do {
     let k1 = k\<lparr>rt_tick := rt_tick k + 1\<rparr>;
     self \<leftarrow> rt_thread_self k1;
     let k2 = upd_thread self (\<lambda>r. r\<lparr>remaining_tick := remaining_tick r - 1\<rparr>) k1;
     k4 \<leftarrow> (if remaining_tick (threads k2 self) = 0 then do {
              let k3 = upd_thread self (\<lambda>r. r\<lparr>remaining_tick := init_tick r,
                         stat := stat r OR RT_THREAD_STAT_YIELD\<rparr>) k2;
              rt_schedule k3 }
            else Some k2);
     rt_timer_check cb k4 }"

definition rt_tick_get_millisecond :: "kernel \<Rightarrow> 32 word" where
  "rt_tick_get_millisecond k = rt_tick_get k * (1000 div RT_TICK_PER_SECOND)"

section \<open>The state in which the clock interrupt runs\<close>

text \<open>What a timer needs so that it can expire and start again: a hard timer whose next timeout stays
  in the window, with its own thread as argument if it is a thread timer, and with a positive period
  if it is periodic.\<close>

definition timer_fit :: "nat \<Rightarrow> kernel \<Rightarrow> timer_id \<Rightarrow> bool" where
  "timer_fit B k tm \<longleftrightarrow>
     rt_object_get_type (Obj_timer tm) k = RT_Object_Class_Timer \<and>
     timer_flag k tm AND RT_TIMER_FLAG_SOFT_TIMER = 0 \<and>
     B + unat (timer_init_tick (timers k tm)) < 0x7FFFFFFF \<and>
     (case tm of
        Thread_timer t \<Rightarrow> timeout_func (timers k tm) = Thread_timeout \<and>
          timer_parameter (timers k tm) = t \<and> timer_flag k tm AND RT_TIMER_FLAG_PERIODIC = 0
      | User_timer _ \<Rightarrow> timeout_func (timers k tm) \<noteq> Thread_timeout \<and>
          (timer_flag k tm AND RT_TIMER_FLAG_PERIODIC \<noteq> 0 \<longrightarrow> timer_init_tick (timers k tm) \<noteq> 0))"

definition timer_listed :: "kernel \<Rightarrow> timer_id \<Rightarrow> bool" where
  "timer_listed k tm \<longleftrightarrow> timer_flag k tm AND RT_TIMER_FLAG_ACTIVATED \<noteq> 0 \<and>
     (\<forall>t. tm = Thread_timer t \<longrightarrow> tstat k t = RT_THREAD_SUSPEND)"

text \<open>All timeouts lie in a window that starts at \<open>c\<close>; the clock has advanced by at most \<open>B\<close> since.\<close>

definition timer_state :: "32 word \<Rightarrow> nat \<Rightarrow> kernel \<Rightarrow> bool" where
  "timer_state c B k \<longleftrightarrow> kready k \<and> rt_current_thread k \<noteq> None \<and> wf_queues (rows k) \<and>
     B < 0x7FFFFFFF \<and> unat (rt_tick k - c) \<le> B \<and>
     timers_sorted (\<lambda>t. timeout_tick (timers k t)) c (rows k Hard_list) \<and>
     (\<forall>tm \<in> set (rows k Hard_list) \<union> set (rows k Check_list). timer_fit B k tm) \<and>
     (\<forall>tm \<in> set (rows k Hard_list). timer_listed k tm) \<and> length (rows k Check_list) \<le> 1"

definition runnable :: "kernel \<Rightarrow> tid \<Rightarrow> bool" where
  "runnable k t \<longleftrightarrow> tstat k t \<in> {RT_THREAD_READY, RT_THREAD_RUNNING}"

definition due_timers :: "kernel \<Rightarrow> timer_id set" where
  "due_timers k = {tm \<in> set (rows k Hard_list). timer_due (rt_tick k) k tm}"

text \<open>What the expiry of timers may do to the rest of the system.\<close>

definition expiry_step :: "kernel \<Rightarrow> kernel \<Rightarrow> bool" where
  "expiry_step k k' \<longleftrightarrow> rt_tick k' = rt_tick k \<and> due_timers k' \<subseteq> due_timers k \<and>
     (\<forall>t. runnable k t \<longrightarrow> runnable k' t) \<and>
     (\<forall>t. Thread_timer t \<in> set (rows k Hard_list) \<longrightarrow> runnable k' t \<or>
        Thread_timer t \<in> set (rows k' Hard_list) \<and>
        timeout_tick (timers k' (Thread_timer t)) = timeout_tick (timers k (Thread_timer t)))"

lemma timer_stateD:
  assumes "timer_state c B k"
  shows "kready k" "wf_queues (rows k)" "unat (rt_tick k - c) \<le> B" "B < 0x7FFFFFFF"
    "timers_sorted (\<lambda>t. timeout_tick (timers k t)) c (rows k Hard_list)"
    "\<And>tm. tm \<in> set (rows k Hard_list) \<Longrightarrow> timer_fit B k tm \<and> timer_listed k tm"
    "\<And>tm. tm \<in> set (rows k Check_list) \<Longrightarrow> timer_fit B k tm"
    "\<exists>d. rt_current_thread k = Some d" "length (rows k Check_list) \<le> 1"
  using assms by (auto simp: timer_state_def)

lemma expiry_step_trans: "expiry_step k k1 \<Longrightarrow> expiry_step k1 k2 \<Longrightarrow> expiry_step k k2"
  unfolding expiry_step_def by (metis subset_trans)

lemma expiry_step_refl [simp]: "expiry_step k k"
  by (simp add: expiry_step_def)

text \<open>A timer is due exactly if its timeout is not after the clock in the window.\<close>

lemma timer_due_iff:
  assumes "timeout_tick (timers k tm) - c < RT_TICK_HALF" "tick - c < RT_TICK_HALF"
  shows "timer_due tick k tm \<longleftrightarrow> timeout_tick (timers k tm) - c \<le> tick - c"
proof -
  let ?t = "timeout_tick (timers k tm)"
  note iff = tick_le_iff [OF assms(2,1)]
  show ?thesis
  proof (cases "tick = ?t")
    case False
    then have "tick - ?t \<noteq> 0" "tick - c \<noteq> ?t - c" by simp_all
    then show ?thesis using iff unfolding timer_due_def by (metis linorder_not_less order_less_le)
  qed (simp add: timer_due_def)
qed

lemma window_tick: "timer_state c B k \<Longrightarrow> rt_tick k - c < RT_TICK_HALF"
  by (auto simp: timer_state_def word_less_nat_alt)

text \<open>If the first timer is not due, none is.\<close>

lemma head_not_due:
  assumes st: "timer_state c B k" and hd: "rows k Hard_list = tm # ts"
    and nd: "\<not> timer_due (rt_tick k) k tm"
  shows "due_timers k = {}"
proof -
  note srt = timer_stateD(5) [OF st]
  have win: "timeout_tick (timers k u) - c < RT_TICK_HALF" if "u \<in> set (tm # ts)" for u
    using srt that hd by (auto simp: timers_sorted_def)
  have le: "timeout_tick (timers k tm) - c \<le> timeout_tick (timers k u) - c" if "u \<in> set (tm # ts)" for u
    using srt that unfolding hd timers_sorted_Cons by auto
  have "\<not> timer_due (rt_tick k) k u" if "u \<in> set (tm # ts)" for u
    using nd le [OF that] timer_due_iff [OF win [OF that] window_tick [OF st]]
      timer_due_iff [OF win [of tm] window_tick [OF st]] by simp
  then show ?thesis by (auto simp: due_timers_def hd)
qed

lemma timer_fit_cong:
  assumes "rt_object_get_type (Obj_timer tm) k' = rt_object_get_type (Obj_timer tm) k"
    "timer_flag k' tm AND 4 = timer_flag k tm AND 4" "timer_flag k' tm AND 2 = timer_flag k tm AND 2"
    "timeout_func (timers k' tm) = timeout_func (timers k tm)"
    "timer_parameter (timers k' tm) = timer_parameter (timers k tm)"
    "timer_init_tick (timers k' tm) = timer_init_tick (timers k tm)"
  shows "timer_fit B k' tm = timer_fit B k tm"
  unfolding timer_fit_def assms ..

lemma timer_state_sched:
  assumes st: "timer_state c B k" and rdy: "kready k'" "rt_current_thread k' \<noteq> None"
    and same: "rows k' = rows k" "timers k' = timers k" "objects k' = objects k" "rt_tick k' = rt_tick k"
    and sus: "\<And>t. Thread_timer t \<in> set (rows k Hard_list) \<Longrightarrow> tstat k' t = RT_THREAD_SUSPEND"
  shows "timer_state c B k'"
proof -
  have "timer_fit B k' tm = timer_fit B k tm" for tm
    by (rule timer_fit_cong) (simp_all add: same rt_object_get_type_def)
  then show ?thesis
    using st rdy sus unfolding timer_state_def same by (auto simp: timer_listed_def same)
qed

lemma expiry_step_sched:
  assumes "rows k' = rows k" "timers k' = timers k" "rt_tick k' = rt_tick k"
    "\<And>t. runnable k t \<Longrightarrow> runnable k' t"
  shows "expiry_step k k'"
  using assms by (auto simp: expiry_step_def due_timers_def timer_due_def)

section \<open>The steps of the check\<close>

lemma timer_expire_sel [simp]:
  "rows (timer_expire h tm k) = push_front h tm (unlink tm (rows k))"
  "timers (timer_expire h tm k) = timers k" "threads (timer_expire h tm k) = threads k"
  "tlists (timer_expire h tm k) = tlists k" "rt_tick (timer_expire h tm k) = rt_tick k"
  "rt_current_thread (timer_expire h tm k) = rt_current_thread k"
  "obj_type (objects (timer_expire h tm k) r) = obj_type (objects k r)"
  "timer_flag (timer_expire h tm k) u = (if u = tm \<and> timer_flag k tm AND 2 = 0
     then timer_flag k tm AND NOT 1 else timer_flag k u)"
  by (simp_all add: timer_expire_def Let_def)

lemma timer_expire_same: "same_but_timers k (timer_expire h tm k)"
  by (auto simp: timer_expire_def Let_def
      intro: same_but_timers_trans [OF _ same_but_timers_intros(5)]
        same_but_timers_trans [OF same_but_timers_intros(3) same_but_timers_intros(2)])

text \<open>The invariant of a running system looks at the timers only through the types of their objects
  and the \<^verbatim>\<open>RT_TIMER_FLAG_SOFT_TIMER\<close> bits.\<close>

lemma kready_same_timers:
  assumes rdy: "kready k" and same: "same_but_timers k k'"
    and ty: "\<And>r. rt_object_get_type r k' = rt_object_get_type r k"
    and fl: "\<And>t. timer_flag k' (Thread_timer t) AND 4 = timer_flag k (Thread_timer t) AND 4"
  shows "kready k'"
proof -
  have "live_ok k'"
    using rdy same_but_timers_sel(1) [OF same] ty
    by (simp add: kready_def live_ok_def live_def resumable_def)
  then show ?thesis
    using rdy sched_inv_same_timers [OF same, of "{}"] fl
    by (simp add: kready_def sched_inv_def thread_timers_hard_def)
qed

lemma timer_state_expire:
  assumes st: "timer_state c B k" and hd: "rows k Hard_list = tm # ts" and ch: "rows k Check_list = []"
  shows "timer_state c B (timer_expire Check_list tm k)"
    "rows (timer_expire Check_list tm k) Hard_list = ts"
    "rows (timer_expire Check_list tm k) Check_list = [tm]"
proof -
  let ?k = "timer_expire Check_list tm k"
  note d = timer_stateD [OF st]
  have un: "unlink tm (rows k) Hard_list = ts" "unlink tm (rows k) Check_list = []"
    using unlink_head [OF d(2) hd] ch by simp_all
  show r: "rows ?k Hard_list = ts" "rows ?k Check_list = [tm]"
    using un by (simp_all add: push_front_def)
  have notin: "tm \<notin> set ts" using wf_queues_distinct [OF d(2), of Hard_list] hd by simp
  have fl4: "timer_flag ?k u AND 4 = timer_flag k u AND 4" for u by simp
  have fl2: "timer_flag ?k u AND 2 = timer_flag k u AND 2" for u by (auto simp: and.assoc)
  have fit: "timer_fit B ?k u = timer_fit B k u" for u
    by (rule timer_fit_cong [OF _ fl4 fl2]) (simp_all add: rt_object_get_type_def)
  have lst: "timer_listed ?k u = timer_listed k u" if "u \<noteq> tm" for u
    using that by (simp add: timer_listed_def)
  have "kready ?k"
    by (rule kready_same_timers [OF d(1) timer_expire_same]) (simp_all add: rt_object_get_type_def)
  moreover have "wf_queues (rows ?k)"
    using wf_push_front [OF wf_unlink [OF d(2)], of tm tm Check_list] by simp
  moreover have "timers_sorted (\<lambda>t. timeout_tick (timers ?k t)) c ts"
    using d(5) by (simp add: hd timers_sorted_Cons)
  moreover have "timer_fit B ?k u \<and> timer_listed ?k u" if "u \<in> set ts" for u
    using that d(6) [of u] fit [of u] lst [of u] notin hd by (cases "u = tm") simp_all
  moreover have "timer_fit B ?k tm" using d(6) [of tm] fit hd by simp
  ultimately show "timer_state c B ?k"
    using d(3,4,8) unfolding timer_state_def r by auto
qed

text \<open>The timeout of a thread: it becomes runnable, and the timers are not touched.\<close>

lemma thread_timeout_step:
  assumes st: "timer_state c B k" and sus: "tstat k t = RT_THREAD_SUSPEND"
    and off: "Thread_timer t \<notin> set (rows k Hard_list)"
  shows "\<exists>k'. thread_timeout t k = Some k' \<and> timer_state c B k' \<and> expiry_step k k' \<and> runnable k' t \<and>
    rows k' = rows k \<and> (\<forall>r. rt_object_get_type r k' = rt_object_get_type r k)"
proof -
  note d = timer_stateD [OF st]
  obtain q where cur: "rt_current_thread k = Some q" using d(8) by blast
  obtain k' where k': "thread_timeout t k = Some k'" using thread_timeout_returns [OF d(1) sus cur] by blast
  let ?k3 = "rt_schedule_insert_thread t (upd_tlists (unlink t)
    (upd_thread t (\<lambda>r. r\<lparr>thread_error := - RT_ETIMEOUT\<rparr>) k))"
  have sched: "rt_schedule ?k3 = Some k'" using k' by (simp add: thread_timeout_def Let_def)
  have inv: "sched_inv k" using d(1) by (simp add: kready_def)
  then have "sched_inv (upd_thread t (\<lambda>r. r\<lparr>thread_error := - RT_ETIMEOUT\<rparr>) k)" by (simp add: sched_inv_def)
  then have inv3: "sched_inv ?k3" by (rule sched_inv_wake) (simp_all add: sus)
  have "rt_current_thread ?k3 = Some q" using cur by simp
  note states = rt_schedule_states [OF inv3 this sched]
  note same = same_but_sched_sel [OF rt_schedule_same [OF sched]]
  note spec = thread_timeout_spec [OF k' inv cur]
  have run: "runnable k' t" using spec(4) by (simp add: runnable_def)
  have keep: "runnable k' u" if "runnable k u" for u
    using that states [of u] sus run by (cases "u = t") (auto simp: runnable_def insert_thread_threads)
  have susp: "tstat k' u = RT_THREAD_SUSPEND" if "Thread_timer u \<in> set (rows k Hard_list)" for u
  proof -
    have "u \<noteq> t" "tstat k u = RT_THREAD_SUSPEND"
      using that off d(6) [OF that] by (auto simp: timer_listed_def)
    then show ?thesis using states [of u] by (simp add: insert_thread_threads)
  qed
  have rows: "rows k' = rows k" "timers k' = timers k" "objects k' = objects k" "rt_tick k' = rt_tick k"
    using same(3-6) by simp_all
  have "timer_state c B k'"
    using timer_state_sched [OF st kready_timeout [OF k' d(1) cur] _ rows susp] spec(5) by blast
  then show ?thesis
    using k' expiry_step_sched [OF rows(1,2,4) keep] run rows
    by (auto simp: rt_object_get_type_def)
qed

text \<open>A timer that starts again at the current tick, with a positive period, is not due.\<close>

lemma not_due_after_start:
  fixes p :: "32 word"
  assumes "p \<noteq> 0" "unat p < 0x7FFFFFFF"
  shows "\<not> tick - (tick + p) < RT_TICK_HALF"
proof -
  have "unat p \<noteq> 0" using assms(1) by (simp add: unat_eq_0)
  moreover have "unat (- p) = 2 ^ 32 - unat p"
    using unat_sub_if_size [of 0 p] assms(1) by (simp add: word_size word_le_nat_alt unat_eq_0)
  ultimately show ?thesis using assms(2) by (simp add: word_less_nat_alt)
qed

lemma window_start:
  fixes p :: "32 word"
  assumes "unat (tick - c) \<le> B" "B + unat p < 0x7FFFFFFF"
  shows "tick + p - c < RT_TICK_HALF"
proof -
  have eq: "tick + p - c = (tick - c) + p" by simp
  have "unat ((tick - c) + p) = unat (tick - c) + unat p"
    using assms by (intro unat_add_lem [THEN iffD1]) simp
  then show ?thesis using assms unfolding eq word_less_nat_alt by simp
qed

lemma timer_armed_state:
  assumes st: "timer_state c B k" and off: "\<not> linked tm (rows k)" and fit: "timer_fit B k tm"
    and sus: "\<And>t. tm = Thread_timer t \<Longrightarrow> tstat k t = RT_THREAD_SUSPEND"
  shows "timer_state c B (timer_armed tm k)"
    "timer_init_tick (timers k tm) \<noteq> 0 \<Longrightarrow> expiry_step k (timer_armed tm k)"
    "rows (timer_armed tm k) Check_list = rows k Check_list"
    "set (rows (timer_armed tm k) Hard_list) = insert tm (set (rows k Hard_list))"
proof -
  let ?k = "timer_armed tm k"
  note d = timer_stateD [OF st]
  note same = same_but_timers_sel [OF timer_armed_same [of k tm]]
  note rw = timer_armed_rows(1) [of tm k, unfolded unlink_unlinked [OF off]]
  have hard: "timer_start_list tm k = Hard_list" using fit by (simp add: timer_start_list_def timer_fit_def)
  have tt: "timers ?k u = (if u = tm then (timers k tm)\<lparr>timeout_tick :=
      rt_tick k + timer_init_tick (timers k tm)\<rparr> else timers k u)" for u
    by (simp add: timer_armed_rows(2))
  show ch: "rows ?k Check_list = rows k Check_list" using rw hard by simp
  show set: "set (rows ?k Hard_list) = insert tm (set (rows k Hard_list))"
    using rw hard by (simp add: set_timer_row_insert)
  have fl: "timer_flag ?k u = (if u = tm then timer_flag k tm OR 1 else timer_flag k u)" for u
    by (simp add: timer_armed_def Let_def)
  have fits: "timer_fit B ?k u = timer_fit B k u" for u
    by (rule timer_fit_cong) (simp_all add: fl tt rt_object_get_type_def timer_armed_rows(4)
        bit.conj_disj_distrib2)
  have lst: "timer_listed ?k u \<longleftrightarrow> u = tm \<or> timer_listed k u" for u
    using sus by (auto simp: timer_listed_def fl same(1))
  have bound: "B + unat (timer_init_tick (timers k tm)) < 0x7FFFFFFF" using fit by (simp add: timer_fit_def)
  have "kready ?k"
    by (rule kready_same_timers [OF d(1) timer_armed_same])
      (simp_all add: fl rt_object_get_type_def timer_armed_rows(4))
  moreover have "wf_queues (rows ?k)"
  proof -
    have "distinct (timer_row_insert f n tm ts)" if "distinct ts" "tm \<notin> set ts" for f n ts
      using that by (induction ts) (auto simp: set_timer_row_insert)
    then show ?thesis
      using d(2) off unfolding wf_queues_def rw hard
      by (auto simp: linked_def set_timer_row_insert)
  qed
  moreover have "timers_sorted (\<lambda>t. timeout_tick (timers ?k t)) c (rows ?k Hard_list)"
    using timer_armed_sorted [of k c tm] d(2,5) off window_start [OF d(3) bound] hard
    by (simp add: linked_def)
  ultimately show "timer_state c B ?k"
    using d(3,4,6-9) fit unfolding timer_state_def set ch fits lst by (auto simp: same(3,7))
  assume per: "timer_init_tick (timers k tm) \<noteq> 0"
  have "\<not> timer_due (rt_tick ?k) ?k tm"
    using not_due_after_start [OF per, of "rt_tick k"] bound by (simp add: timer_due_def tt same(7))
  then show "expiry_step k ?k"
    using off unfolding expiry_step_def due_timers_def set
    by (auto simp: same(1,7) runnable_def timer_due_def tt linked_def split: if_splits)
qed

lemma timer_restart_step:
  assumes st: "timer_state c B k" and ch: "rows k Check_list = [tm]"
  shows "\<exists>k'. timer_restart tm k = Some k' \<and> timer_state c B k' \<and> expiry_step k k' \<and>
    rows k' Check_list = [] \<and> (\<forall>r. rt_object_get_type r k' = rt_object_get_type r k)"
proof -
  note d = timer_stateD [OF st]
  let ?k1 = "upd_rows (unlink tm) k"
  let ?k2 = "set_timer_flag tm (\<lambda>fl. fl AND NOT RT_TIMER_FLAG_ACTIVATED) ?k1"
  have un: "unlink tm (rows k) h = (if h = Check_list then [] else rows k h)" for h
    using unlink_head [OF d(2) ch] .
  have notin: "tm \<notin> set (rows k Hard_list)" using wf_queues_unique [OF d(2), of tm Check_list Hard_list] ch by auto
  have fit: "timer_fit B k tm" using d(7) [of tm] ch by simp
  have kr: "kready (set_timer_flag tm f ?k1)" if "\<And>fl. f fl AND 4 = fl AND 4" for f
  proof (rule kready_same_timers [OF d(1)])
    show "same_but_timers k (set_timer_flag tm f ?k1)"
      by (rule same_but_timers_trans [OF same_but_timers_intros(5) same_but_timers_intros(2)])
  qed (simp_all add: rt_object_get_type_def that)
  have "timer_state c B (set_timer_flag tm f ?k1) \<and> expiry_step k (set_timer_flag tm f ?k1)"
    if f: "\<And>fl. f fl AND 4 = fl AND 4" "\<And>fl. f fl AND 2 = fl AND 2" for f
  proof -
    let ?k = "set_timer_flag tm f ?k1"
    have fl: "timer_flag ?k u = (if u = tm then f (timer_flag k tm) else timer_flag k u)" for u by simp
    have "timer_fit B ?k u = timer_fit B k u" for u
      by (rule timer_fit_cong) (simp_all add: f rt_object_get_type_def)
    moreover have "timer_listed ?k u" if "u \<in> set (rows k Hard_list)" for u
      using that notin d(6) [OF that] by (cases "u = tm") (simp_all add: timer_listed_def)
    moreover have "wf_queues (rows ?k)" using wf_unlink [OF d(2), of tm] by simp
    moreover have "rows ?k Hard_list = rows k Hard_list" "rows ?k Check_list = []" by (simp_all add: un)
    ultimately have "timer_state c B ?k"
      using d kr [OF f(1)] unfolding timer_state_def by simp
    moreover have "expiry_step k ?k"
      by (auto simp: expiry_step_def due_timers_def timer_due_def runnable_def un)
    ultimately show ?thesis ..
  qed
  note flag = this
  show ?thesis
  proof (cases "timer_flag k tm AND 2 \<noteq> 0 \<and> timer_flag k tm AND 1 \<noteq> 0")
    case False
    then have "timer_restart tm k = Some ?k1" by (auto simp: timer_restart_def Let_def)
    moreover have "set_timer_flag tm (\<lambda>fl. fl) ?k1 = ?k1"
      by (simp add: set_timer_flag_def upd_object_def)
    ultimately show ?thesis using flag [of "\<lambda>fl. fl"] by (auto simp: un rt_object_get_type_def)
  next
    case True
    have st2: "timer_state c B ?k2" "expiry_step k ?k2"
      using flag [of "\<lambda>fl. fl AND NOT 1"] by (auto simp: and.assoc)
    have fit2: "timer_fit B ?k2 tm = timer_fit B k tm"
      by (rule timer_fit_cong) (simp_all add: rt_object_get_type_def and.assoc)
    have soft: "timer_flag ?k2 tm AND 4 = 0" "rt_object_get_type (Obj_timer tm) ?k2 = RT_Object_Class_Timer"
      using fit fit2 by (simp_all add: timer_fit_def)
    have start: "rt_timer_start tm ?k2 = Some (RT_EOK, timer_armed tm ?k2)"
      using soft unfolding rt_timer_start_eq by simp
    have off: "\<not> linked tm (rows ?k2)" by simp
    have user: "tm \<noteq> Thread_timer t" for t using fit True by (auto simp: timer_fit_def)
    have per: "timer_init_tick (timers ?k2 tm) \<noteq> 0"
      using fit True user by (cases tm) (auto simp: timer_fit_def)
    note a = timer_armed_state [OF st2(1) off, unfolded fit2, OF fit]
    have "timer_restart tm k = Some (timer_armed tm ?k2)"
      using True start by (simp add: timer_restart_def Let_def)
    then show ?thesis
      using a(1,2,3) user per expiry_step_trans [OF st2(2)]
      by (auto simp: un rt_object_get_type_def timer_armed_rows(4))
  qed
qed

section \<open>The time slice\<close>

text \<open>The part of \<^verbatim>\<open>rt_tick_increase\<close> before the timer check.\<close>

definition time_slice :: "kernel \<Rightarrow> kernel option" where
  "time_slice k = do {
     self \<leftarrow> rt_current_thread k;
     let k2 = upd_thread self (\<lambda>r. r\<lparr>remaining_tick := remaining_tick r - 1\<rparr>) (k\<lparr>rt_tick := rt_tick k + 1\<rparr>);
     if remaining_tick (threads k2 self) = 0 then
       rt_schedule (upd_thread self (\<lambda>r. r\<lparr>remaining_tick := init_tick r,
         stat := stat r OR RT_THREAD_STAT_YIELD\<rparr>) k2)
     else Some k2 }"

lemma rt_tick_increase_eq: "rt_tick_increase cb k = do { k4 \<leftarrow> time_slice k; rt_timer_check cb k4 }"
  unfolding rt_tick_increase_def time_slice_def Let_def rt_thread_self_def
  by (cases "rt_current_thread k") simp_all

lemma kready_tick [simp]: "kready (k\<lparr>rt_tick := x\<rparr>) = kready k"
proof -
  have "sched_inv_except {} (k\<lparr>rt_tick := x\<rparr>) = sched_inv_except {} k"
    by (rule sched_inv_except_cong) simp_all
  moreover have "live_ok (k\<lparr>rt_tick := x\<rparr>) = live_ok k" by (rule live_ok_cong) simp_all
  ultimately show ?thesis by (simp add: kready_def sched_inv_def thread_timers_hard_def)
qed

lemma kready_yield:
  "kready (upd_thread t (\<lambda>r. r\<lparr>remaining_tick := x r, stat := stat r OR 8\<rparr>) k) = kready k"
proof -
  have "live_ok (upd_thread t (\<lambda>r. r\<lparr>remaining_tick := x r, stat := stat r OR 8\<rparr>) k) = live_ok k"
    by (rule live_ok_cong) (simp_all add: stack_ok_def)
  then show ?thesis using sched_inv_yield_mark [of t x k] by (simp add: kready_def thread_timers_hard_def)
qed

lemma timer_state_tick:
  assumes st: "timer_state c B k" and b: "unat (rt_tick k - c) < B"
  shows "timer_state c B (k\<lparr>rt_tick := rt_tick k + 1\<rparr>)"
proof -
  have eq: "rt_tick k + 1 - c = (rt_tick k - c) + 1" by simp
  have "unat ((rt_tick k - c) + 1) = unat (rt_tick k - c) + 1"
    using b timer_stateD(4) [OF st] by (subst unat_add_lem [THEN iffD1]) simp_all
  then have "unat (rt_tick k + 1 - c) \<le> B" unfolding eq using b by simp
  moreover have "timer_fit B (k\<lparr>rt_tick := rt_tick k + 1\<rparr>) tm = timer_fit B k tm" for tm
    by (rule timer_fit_cong) (simp_all add: rt_object_get_type_def)
  ultimately show ?thesis using st unfolding timer_state_def by (simp add: timer_listed_def)
qed

lemma time_slice_step:
  assumes st: "timer_state c B k" and b: "unat (rt_tick k - c) < B"
  shows "\<exists>k'. time_slice k = Some k' \<and> timer_state c B k' \<and> rows k' = rows k \<and> timers k' = timers k \<and>
    rt_tick k' = rt_tick k + 1 \<and> (\<forall>t. runnable k t \<longrightarrow> runnable k' t) \<and>
    (\<forall>r. rt_object_get_type r k' = rt_object_get_type r k)"
proof -
  let ?k1 = "k\<lparr>rt_tick := rt_tick k + 1\<rparr>"
  have st1: "timer_state c B ?k1" by (rule timer_state_tick [OF assms])
  obtain d where cur: "rt_current_thread k = Some d" using timer_stateD(8) [OF st] by blast
  let ?k2 = "upd_thread d (\<lambda>r. r\<lparr>remaining_tick := remaining_tick r - 1\<rparr>) ?k1"
  have rdy2: "kready ?k2" using timer_stateD(1) [OF st] by (subst kready_upd_thread) (simp_all add: stack_ok_def)
  have sus: "tstat k t = RT_THREAD_SUSPEND" if "Thread_timer t \<in> set (rows k Hard_list)" for t
    using timer_stateD(6) [OF st that] by (simp add: timer_listed_def)
  have stat2: "tstat ?k2 t = tstat k t" for t by simp
  show ?thesis
  proof (cases "remaining_tick (threads ?k2 d) = 0")
    case False
    then have "time_slice k = Some ?k2" using cur by (simp add: time_slice_def Let_def)
    moreover have "timer_state c B ?k2"
      by (rule timer_state_sched [OF st1 rdy2]) (use cur sus stat2 in simp_all)
    ultimately show ?thesis using stat2 by (intro exI [of _ ?k2]) (simp add: runnable_def rt_object_get_type_def)
  next
    case True
    define k3 where "k3 = upd_thread d (\<lambda>r. r\<lparr>remaining_tick := init_tick r,
      stat := stat r OR RT_THREAD_STAT_YIELD\<rparr>) ?k2"
    have rdy3: "kready k3" using rdy2 unfolding k3_def kready_yield .
    have cur3: "rt_current_thread k3 = Some d" using cur by (simp add: k3_def)
    have inv3: "sched_inv k3" "live_ok k3" using rdy3 by (simp_all add: kready_def)
    obtain k4 where k4: "rt_schedule k3 = Some k4" using rt_schedule_returns [OF inv3(1) cur3 inv3(2)] by blast
    note same = same_but_sched_sel [OF rt_schedule_same [OF k4]]
    have rows: "rows k4 = rows ?k1" "timers k4 = timers ?k1" "objects k4 = objects ?k1" "rt_tick k4 = rt_tick ?k1"
      using same(3-6) by (simp_all add: k3_def)
    note states = rt_schedule_states [OF inv3(1) cur3 k4]
    have stat3: "tstat k3 t = tstat k t" for t by (simp add: k3_def)
    have "timer_state c B k4"
    proof (rule timer_state_sched [OF st1 kready_schedule [OF k4 rdy3 cur3] _ rows])
      show "rt_current_thread k4 \<noteq> None" using sched_inv_rt_schedule(2) [OF inv3(1) cur3 k4] by auto
      show "tstat k4 t = RT_THREAD_SUSPEND" if "Thread_timer t \<in> set (rows ?k1 Hard_list)" for t
        using states [of t] stat3 [of t] sus [of t] that by auto
    qed
    moreover have "runnable k4 t" if "runnable k t" for t
      using that states [of t] stat3 [of t] by (auto simp: runnable_def)
    moreover have "time_slice k = Some k4" using cur True k4 by (simp add: time_slice_def Let_def k3_def)
    ultimately show ?thesis using rows by (intro exI [of _ k4]) (simp add: rt_object_get_type_def)
  qed
qed

text \<open>A thread timer stays in its list, with its timeout, until the thread is runnable; and runnable
  threads stay so.\<close>

definition timers_persist :: "kernel \<Rightarrow> kernel \<Rightarrow> bool" where
  "timers_persist k k' \<longleftrightarrow> (\<forall>t. runnable k t \<longrightarrow> runnable k' t) \<and>
     (\<forall>t. Thread_timer t \<in> set (rows k Hard_list) \<longrightarrow> runnable k' t \<or>
        Thread_timer t \<in> set (rows k' Hard_list) \<and>
        timeout_tick (timers k' (Thread_timer t)) = timeout_tick (timers k (Thread_timer t)))"

definition tick_effect :: "kernel \<Rightarrow> kernel \<Rightarrow> bool" where
  "tick_effect k k' \<longleftrightarrow> rt_tick k' = rt_tick k + 1 \<and> due_timers k' = {} \<and> timers_persist k k'"

lemma timers_persist_trans: "timers_persist k k1 \<Longrightarrow> timers_persist k1 k2 \<Longrightarrow> timers_persist k k2"
  unfolding timers_persist_def by metis

text \<open>\<open>n\<close> clock interrupts in a row.\<close>

fun ticks :: "callbacks \<Rightarrow> nat \<Rightarrow> kernel \<Rightarrow> kernel option" where
  "ticks cb 0 k = Some k"
| "ticks cb (Suc n) k = do { k1 \<leftarrow> rt_tick_increase cb k; ticks cb n k1 }"

section \<open>The check ends, and leaves no timer due\<close>

text \<open>What the kernel relies on in the time-out functions of user timers: they return, keep the state
  of the timers well-formed, add no timer that is already due, take a timer of a waiting thread away
  only by making the thread runnable, and block no thread. \<open>J\<close> is what they rely on in turn, a
  property of the object types.\<close>

locale timer_callbacks =
  fixes cb :: callbacks and J :: "kernel \<Rightarrow> bool" and c :: "32 word" and B :: nat
  assumes J_types:
      "J k \<Longrightarrow> (\<And>r. rt_object_get_type r k' = rt_object_get_type r k) \<Longrightarrow> J k'"
    and cb_step: "timer_state c B k \<Longrightarrow> J k \<Longrightarrow> \<exists>k'. cb f p k = Some k' \<and> timer_state c B k' \<and> J k' \<and>
      expiry_step k k' \<and> (rows k' Check_list = rows k Check_list \<or> rows k' Check_list = [])"
begin

lemma call_step:
  assumes st: "timer_state c B k" and J: "J k" and fit: "timer_fit B k tm"
    and off: "tm \<notin> set (rows k Hard_list)"
    and sus: "\<And>t. tm = Thread_timer t \<Longrightarrow> tstat k t = RT_THREAD_SUSPEND"
  shows "\<exists>k'. timer_call cb tm k = Some k' \<and> timer_state c B k' \<and> J k' \<and> expiry_step k k' \<and>
    (rows k' Check_list = rows k Check_list \<or> rows k' Check_list = []) \<and>
    (\<forall>t. tm = Thread_timer t \<longrightarrow> runnable k' t)"
proof (cases tm)
  case (Thread_timer t)
  have "timer_call cb tm k = thread_timeout t k"
    using fit by (simp add: Thread_timer timer_call_def timer_fit_def)
  then show ?thesis
    using thread_timeout_step [OF st, of t] sus off J_types [OF J] by (auto simp: Thread_timer)
next
  case (User_timer u)
  then obtain f where "timeout_func (timers k tm) = User_func f"
    using fit by (cases "timeout_func (timers k tm)") (auto simp: timer_fit_def)
  then have "timer_call cb tm k = cb f (timer_parameter (timers k tm)) k" by (simp add: timer_call_def)
  then show ?thesis using cb_step [OF st J] User_timer by simp
qed

text \<open>One round of the loop: the first timer is due.\<close>

lemma check_step:
  assumes st: "timer_state c B k" and J: "J k" and ch: "rows k Check_list = []"
    and hd: "rows k Hard_list = tm # ts" and due: "timer_due (rt_tick k) k tm"
  shows "\<exists>k1 k2. timer_call cb tm (timer_expire Check_list tm k) = Some k1 \<and>
    (if rows k1 Check_list = [] then Some k1 else timer_restart tm k1) = Some k2 \<and>
    timer_state c B k2 \<and> J k2 \<and> rows k2 Check_list = [] \<and> rt_tick k1 = rt_tick k \<and>
    expiry_step k k2 \<and> due_timers k2 \<subset> due_timers k"
proof -
  let ?k = "timer_expire Check_list tm k"
  note ex = timer_state_expire [OF st hd ch]
  have tmts: "tm \<notin> set ts" using wf_queues_distinct [OF timer_stateD(2) [OF st], of Hard_list] hd by simp
  have Jk: "J ?k" using J by (rule J_types) (simp add: rt_object_get_type_def)
  have less: "due_timers ?k \<subset> due_timers k"
    using due tmts unfolding due_timers_def ex(2) hd by (auto simp: timer_due_def)
  have fit: "timer_fit B ?k tm" using timer_stateD(7) [OF ex(1), of tm] unfolding ex(3) by simp
  have sus: "tstat ?k t = RT_THREAD_SUSPEND" if "tm = Thread_timer t" for t
    using timer_stateD(6) [OF st, of tm] that hd by (simp add: timer_listed_def)
  obtain k1 where k1: "timer_call cb tm ?k = Some k1" "timer_state c B k1" "J k1" "expiry_step ?k k1"
      "rows k1 Check_list = [tm] \<or> rows k1 Check_list = []" "\<And>t. tm = Thread_timer t \<Longrightarrow> runnable k1 t"
    using call_step [OF ex(1) Jk fit _ sus] tmts unfolding ex(2,3) by auto
  obtain k2 where k2: "(if rows k1 Check_list = [] then Some k1 else timer_restart tm k1) = Some k2"
      "timer_state c B k2" "J k2" "rows k2 Check_list = []" "expiry_step k1 k2"
    using k1(2,3,5) timer_restart_step [OF k1(2), of tm] J_types [OF k1(3)]
    by (cases "rows k1 Check_list = []") auto
  have s: "expiry_step ?k k2" by (rule expiry_step_trans [OF k1(4) k2(5)])
  have "expiry_step k k2"
    unfolding expiry_step_def
  proof (intro conjI allI impI)
    show "rt_tick k2 = rt_tick k" "due_timers k2 \<subseteq> due_timers k"
      using s less unfolding expiry_step_def by auto
    show "runnable k2 t" if "runnable k t" for t
    proof -
      have "runnable ?k t" using that by (simp add: runnable_def)
      then show ?thesis using s unfolding expiry_step_def by blast
    qed
    fix t assume "Thread_timer t \<in> set (rows k Hard_list)"
    then have "tm = Thread_timer t \<or> Thread_timer t \<in> set (rows ?k Hard_list)" unfolding ex(2) hd by auto
    then show "runnable k2 t \<or> Thread_timer t \<in> set (rows k2 Hard_list) \<and>
        timeout_tick (timers k2 (Thread_timer t)) = timeout_tick (timers k (Thread_timer t))"
      using s k2(5) k1(6) [of t] unfolding expiry_step_def by (auto simp: timer_expire_sel(2))
  qed
  moreover have "due_timers k2 \<subset> due_timers k" using s less unfolding expiry_step_def by blast
  moreover have "rt_tick k1 = rt_tick k" using k1(4) unfolding expiry_step_def by simp
  ultimately show ?thesis using k1(1) k2 by blast
qed

lemma check_loop_ends:
  assumes "timer_state c B k" "J k" "rows k Check_list = []"
  shows "\<exists>k'. timer_check_loop cb (rt_tick k) k = Some k' \<and> timer_state c B k' \<and> J k' \<and>
    rows k' Check_list = [] \<and> expiry_step k k' \<and> due_timers k' = {}"
  using assms
proof (induction "card (due_timers k)" arbitrary: k rule: less_induct)
  case less
  show ?case
  proof (cases "rows k Hard_list")
    case Nil
    then have "due_timers k = {}" by (simp add: due_timers_def)
    then show ?thesis using less.prems Nil by (subst timer_check_loop.simps) auto
  next
    case (Cons tm ts)
    show ?thesis
    proof (cases "timer_due (rt_tick k) k tm")
      case False
      then show ?thesis
        using less.prems Cons head_not_due [OF less.prems(1) Cons False]
        by (subst timer_check_loop.simps) auto
    next
      case True
      obtain k1 k2 where k2: "timer_call cb tm (timer_expire Check_list tm k) = Some k1"
        "(if rows k1 Check_list = [] then Some k1 else timer_restart tm k1) = Some k2"
        "timer_state c B k2" "J k2" "rows k2 Check_list = []" "rt_tick k1 = rt_tick k"
        "expiry_step k k2" "due_timers k2 \<subset> due_timers k"
        using check_step [OF less.prems Cons True] by blast
      have "finite (due_timers k)" by (simp add: due_timers_def)
      then have "card (due_timers k2) < card (due_timers k)" using k2(8) by (rule psubset_card_mono)
      from less.hyps [OF this k2(3-5)] obtain k' where k':
        "timer_check_loop cb (rt_tick k2) k2 = Some k'" "timer_state c B k'" "J k'"
        "rows k' Check_list = []" "expiry_step k2 k'" "due_timers k' = {}" by blast
      have "rt_tick k1 = rt_tick k2" using k2(6,7) by (simp add: expiry_step_def)
      then have "timer_check_loop cb (rt_tick k) k = Some k'"
        using k2(1,2) k'(1) True
        by (subst timer_check_loop.simps) (simp add: Cons rt_tick_get_def)
      then show ?thesis using k' expiry_step_trans [OF k2(7) k'(5)] by blast
    qed
  qed
qed

lemma check_ends:
  assumes "timer_state c B k" "J k" "rows k Check_list = []"
  shows "\<exists>k'. rt_timer_check cb k = Some k' \<and> timer_state c B k' \<and> J k' \<and>
    rows k' Check_list = [] \<and> expiry_step k k' \<and> due_timers k' = {}"
proof -
  have "upd_rows (\<lambda>L. L(Check_list := [])) k = k" using assms(3) by (simp add: upd_rows_def fun_upd_idem)
  then show ?thesis using check_loop_ends [OF assms] by (simp add: rt_timer_check_def rt_tick_get_def)
qed

text \<open>Every thread whose time is up is runnable after the check.\<close>

lemma check_wakes:
  assumes st: "timer_state c B k" "J k" "rows k Check_list = []" and k': "rt_timer_check cb k = Some k'"
    and due: "Thread_timer t \<in> due_timers k"
  shows "runnable k' t"
proof (rule ccontr)
  assume "\<not> runnable k' t"
  moreover have ex: "expiry_step k k'" "due_timers k' = {}" using check_ends [OF st] k' by auto
  moreover have "Thread_timer t \<in> set (rows k Hard_list)" using due by (simp add: due_timers_def)
  ultimately have "Thread_timer t \<in> due_timers k'"
    using due unfolding expiry_step_def by (auto simp: due_timers_def timer_due_def)
  then show False using ex(2) by simp
qed

text \<open>One tick, in which every thread that could run still can.\<close>

lemma tick_step:
  assumes st: "timer_state c B k" and J: "J k" and ch: "rows k Check_list = []"
    and b: "unat (rt_tick k - c) < B"
  shows "\<exists>k'. rt_tick_increase cb k = Some k' \<and> timer_state c B k' \<and> J k' \<and> rows k' Check_list = [] \<and>
    tick_effect k k'"
proof -
  obtain k4 where k4: "time_slice k = Some k4" "timer_state c B k4" "rows k4 = rows k"
      "timers k4 = timers k" "rt_tick k4 = rt_tick k + 1" "\<And>t. runnable k t \<Longrightarrow> runnable k4 t"
      "\<And>r. rt_object_get_type r k4 = rt_object_get_type r k"
    using time_slice_step [OF st b] by blast
  have "J k4" by (rule J_types [OF J k4(7)])
  from check_ends [OF k4(2) this] ch k4(3) obtain k' where k': "rt_timer_check cb k4 = Some k'"
    "timer_state c B k'" "J k'" "rows k' Check_list = []" "expiry_step k4 k'" "due_timers k' = {}" by auto
  have "rt_tick_increase cb k = Some k'" using k4(1) k'(1) by (simp add: rt_tick_increase_eq)
  moreover have "tick_effect k k'"
    using k'(5,6) k4(3-6) by (auto simp: tick_effect_def expiry_step_def timers_persist_def)
  ultimately show ?thesis using k' by blast
qed

lemma ticks_steps:
  assumes "timer_state c B k" "J k" "rows k Check_list = []" "unat (rt_tick k - c) + n \<le> B"
  shows "\<exists>k'. ticks cb n k = Some k' \<and> timer_state c B k' \<and> J k' \<and> rows k' Check_list = [] \<and>
    rt_tick k' = rt_tick k + word_of_nat n \<and> (0 < n \<longrightarrow> due_timers k' = {}) \<and> timers_persist k k'"
  using assms
proof (induction n arbitrary: k)
  case (Suc n)
  have "unat (rt_tick k - c) < B" using Suc.prems(4) by simp
  from tick_step [OF Suc.prems(1-3) this] obtain k1 where k1: "rt_tick_increase cb k = Some k1"
    "timer_state c B k1" "J k1" "rows k1 Check_list = []" "tick_effect k k1" by blast
  have t1: "rt_tick k1 = rt_tick k + 1" using k1(5) by (simp add: tick_effect_def)
  have "unat (rt_tick k1 - c) = unat (rt_tick k - c) + 1"
  proof -
    have eq: "rt_tick k1 - c = (rt_tick k - c) + 1" using t1 by simp
    show ?thesis
      unfolding eq using Suc.prems(4) timer_stateD(4) [OF Suc.prems(1)]
      by (subst unat_add_lem [THEN iffD1]) simp_all
  qed
  then have "unat (rt_tick k1 - c) + n \<le> B" using Suc.prems(4) by simp
  from Suc.IH [OF k1(2-4) this] obtain k' where k': "ticks cb n k1 = Some k'" "timer_state c B k'" "J k'"
    "rows k' Check_list = []" "rt_tick k' = rt_tick k1 + word_of_nat n"
    "0 < n \<longrightarrow> due_timers k' = {}" "timers_persist k1 k'" by blast
  have "due_timers k' = {}" using k'(1,6) k1(5) by (cases n) (auto simp: tick_effect_def)
  moreover have "timers_persist k k'"
    using timers_persist_trans [OF _ k'(7)] k1(5) by (simp add: tick_effect_def)
  ultimately show ?case using k1(1) k' t1 by (auto simp: add.assoc)
qed (auto simp: timers_persist_def)

text \<open>A thread that sleeps for \<open>n\<close> ticks can run again once \<open>n\<close> ticks have passed.\<close>

lemma sleep_ends:
  assumes st: "timer_state c B k" "J k" "rows k Check_list = []" and b: "unat (rt_tick k - c) + n \<le> B"
    and n: "0 < n" and t: "Thread_timer t \<in> set (rows k Hard_list)"
    and tt: "timeout_tick (timers k (Thread_timer t)) = rt_tick k + word_of_nat n"
  shows "\<exists>k'. ticks cb n k = Some k' \<and> timer_state c B k' \<and> runnable k' t"
proof -
  obtain k' where k': "ticks cb n k = Some k'" "timer_state c B k'"
    "rt_tick k' = rt_tick k + word_of_nat n" "due_timers k' = {}" "timers_persist k k'"
    using ticks_steps [OF st b] n by blast
  have "runnable k' t"
  proof (rule ccontr)
    assume "\<not> runnable k' t"
    then have "Thread_timer t \<in> due_timers k'"
      using k'(3,5) t tt by (auto simp: timers_persist_def due_timers_def timer_due_def)
    then show False using k'(4) by simp
  qed
  then show ?thesis using k' by blast
qed

end

end
