(* ===== verification/Tick_Props.thy ===== *)
theory Tick_Props
  imports Tick
begin

text \<open>
  The clock together with threads and semaphores: waking a thread keeps the state of the timers, so
  a timer whose function releases a semaphore meets the contract of the expiry loop; a sleeping
  thread wakes; a timer with period zero never lets the interrupt return.
\<close>

section \<open>Waking and scheduling keep the state of the timers\<close>

lemma schedule_state:
  assumes sc: "rt_schedule k = Some k'" and st: "timer_state c B k"
  shows "timer_state c B k'" "expiry_step k k'" "rows k' = rows k"
    "rt_object_get_type r k' = rt_object_get_type r k"
proof -
  note d = timer_stateD [OF st]
  obtain q where cur: "rt_current_thread k = Some q" using d(8) by blast
  have inv: "sched_inv k" using d(1) by (simp add: kready_def)
  note same = same_but_sched_sel [OF rt_schedule_same [OF sc]]
  note states = rt_schedule_states [OF inv cur sc]
  show "timer_state c B k'"
  proof (rule timer_state_sched [OF st kready_schedule [OF sc d(1) cur] _ same(4,5,6,3)])
    show "rt_current_thread k' \<noteq> None" using sched_inv_rt_schedule(2) [OF inv cur sc] by auto
    show "tstat k' t = RT_THREAD_SUSPEND" if "Thread_timer t \<in> set (rows k Hard_list)" for t
      using states [of t] d(6) [OF that] by (auto simp: timer_listed_def)
  qed
  have "runnable k' t" if "runnable k t" for t using that states [of t] by (auto simp: runnable_def)
  then show "expiry_step k k'" by (rule expiry_step_sched [OF same(4,5,3)])
  show "rows k' = rows k" "rt_object_get_type r k' = rt_object_get_type r k"
    using same(4,6) by (simp_all add: rt_object_get_type_def)
qed

lemma length_le_1: "length xs \<le> 1 \<Longrightarrow> removeAll x xs = xs \<or> removeAll x xs = []"
  by (cases xs) auto

lemma resume_state:
  assumes res: "rt_thread_resume t k = Some (e, k')" and st: "timer_state c B k"
    and sus: "tstat k t = RT_THREAD_SUSPEND"
  shows "timer_state c B k'" "expiry_step k k'"
    "rows k' Check_list = rows k Check_list \<or> rows k' Check_list = []"
proof -
  note d = timer_stateD [OF st]
  let ?tm = "Thread_timer t"
  let ?k1 = "upd_tlists (unlink t) k"
  from res sus obtain e2 k2 where k2: "rt_timer_stop ?tm ?k1 = Some (e2, k2)"
    and k': "k' = rt_schedule_insert_thread t k2"
    by (auto simp: rt_thread_resume_def Let_def bind_eq_Some_conv)
  note wk = rt_thread_resume_wakes [OF res sus]
  have fr: "rt_tick k' = rt_tick k" "timers k' = timers k" "\<And>u. u \<noteq> t \<Longrightarrow> threads k' u = threads k u"
    using kframe_sel(7) [OF rt_thread_resume_frame(1) [OF res]] rt_thread_resume_frame(3) [OF res] k2
    by (auto simp: k' rt_timer_stop_def split: if_splits)
  have act: "?tm \<notin> set (rows k Hard_list)" if "timer_flag k ?tm AND 1 = 0"
    using that d(6) [of ?tm] by (auto simp: timer_listed_def)
  have hard: "rows k' Hard_list = removeAll ?tm (rows k Hard_list)"
    using k2 act by (auto simp: k' rt_timer_stop_def unlink_def split: if_splits)
  have rw: "rows k' = rows k \<or> rows k' = unlink ?tm (rows k)"
    and fl: "timer_flag k' u = timer_flag k u \<or> u = ?tm \<and> timer_flag k' u = timer_flag k u AND NOT 1" for u
    using k2 by (auto simp: k' rt_timer_stop_def split: if_splits)
  have ch: "rows k' Check_list = rows k Check_list \<or> rows k' Check_list = removeAll ?tm (rows k Check_list)"
    using rw by (auto simp: unlink_def)
  then show "rows k' Check_list = rows k Check_list \<or> rows k' Check_list = []"
    using length_le_1 [OF d(9)] by metis
  have run: "runnable k' t" using wk(2) by (simp add: runnable_def)
  have "timer_fit B k' u = timer_fit B k u" for u
    by (rule timer_fit_cong) (use fl [of u] rt_thread_resume_types [OF res] fr(2) in \<open>auto simp: and.assoc\<close>)
  moreover have "timer_listed k' u" if "u \<in> set (rows k Hard_list)" "u \<noteq> ?tm" for u
    using d(6) [OF that(1)] that(2) fl [of u] by (cases u) (auto simp: timer_listed_def fr(3))
  moreover have "wf_queues (rows k')" using rw d(2) wf_unlink [OF d(2), of ?tm] by auto
  moreover have "timers_sorted (\<lambda>t. timeout_tick (timers k' t)) c (rows k' Hard_list)"
    using d(5) unfolding fr(2) hard timers_sorted_def removeAll_filter_not_eq
    by (auto simp: sorted_filter)
  moreover have "length (rows k' Check_list) \<le> 1"
    using ch d(9) length_le_1 [OF d(9), of ?tm] by auto
  moreover have "set (rows k' Check_list) \<subseteq> set (rows k Check_list)" using ch by auto
  ultimately show "timer_state c B k'"
    using d(3,4,6-8) kready_resume [OF res d(1)] rt_thread_resume_frame(2) [OF res]
    unfolding timer_state_def by (auto simp: hard fr(1))
  have "runnable k' u" if "runnable k u" for u using that run fr(3) [of u] by (cases "u = t") (auto simp: runnable_def)
  then show "expiry_step k k'"
    using run by (auto simp: expiry_step_def hard due_timers_def timer_due_def fr(1,2))
qed

section \<open>Timers that release a semaphore\<close>

definition sem_callback :: callbacks where
  "sem_callback f n k = map_option snd (rt_sem_release n k)"

definition sems_typed :: "kernel \<Rightarrow> bool" where
  "sems_typed k \<longleftrightarrow>
     (\<forall>n. rt_object_get_type (Obj_ipc (Sem n)) k = RT_Object_Class_Semaphore)"

lemma set_sem_value_state:
  assumes "timer_state c B k"
  shows "timer_state c B (set_sem_value n v k)" "expiry_step k (set_sem_value n v k)"
proof -
  note d = timer_stateD [OF assms]
  let ?k = "set_sem_value n v k"
  have same: "timers ?k = timers k" "rt_tick ?k = rt_tick k" by (simp_all add: set_sem_value_def)
  have "live_ok ?k = live_ok k" by (rule live_ok_cong) simp_all
  then have "kready ?k" using d(1) kinv_set_sem_value [of n v k] by (simp add: kready_def kinv_def)
  then show "timer_state c B ?k"
    by (rule timer_state_sched [OF assms])
      (use d(6,8) same in \<open>auto simp: timer_listed_def\<close>)
  show "expiry_step k ?k" by (rule expiry_step_sched) (simp_all add: same runnable_def)
qed

lemma sem_callback_step:
  assumes st: "timer_state c B k" and J: "sems_typed k"
  shows "\<exists>k'. sem_callback f n k = Some k' \<and> timer_state c B k' \<and> sems_typed k' \<and>
    expiry_step k k' \<and> (rows k' Check_list = rows k Check_list \<or> rows k' Check_list = [])"
proof (cases "tlists k (Suspend (Sem n))")
  case Nil
  then have "\<exists>k'. sem_callback f n k = Some k' \<and> (k' = k \<or> (\<exists>v. k' = set_sem_value n v k))"
    using J by (auto simp: sem_callback_def rt_sem_release_def sems_typed_def)
  then show ?thesis
    using st J set_sem_value_state [OF st, of n] by (auto simp: sems_typed_def rt_object_get_type_def)
next
  case (Cons t ts)
  have rdy: "kready k" and inv: "sched_inv k" using timer_stateD(1) [OF st] by (simp_all add: kready_def)
  obtain k1 where k1: "ipc_list_resume (Suspend (Sem n)) k = Some (RT_EOK, k1)"
    using ipc_list_resume_ready [OF rdy _ Cons] by blast
  then obtain e where r: "rt_thread_resume t k = Some (e, k1)"
    using Cons by (auto simp: ipc_list_resume_def bind_eq_Some_conv)
  have sus: "tstat k t = RT_THREAD_SUSPEND" using waiter_suspended [OF inv, of t "Suspend (Sem n)"] Cons by simp
  note rs = resume_state [OF r st sus]
  note d = timer_stateD [OF rs(1)]
  obtain k2 where k2: "rt_schedule k1 = Some k2"
    using d(1,8) rt_schedule_returns by (auto simp: kready_def)
  note sc = schedule_state [OF k2 rs(1)]
  have "sem_callback f n k = Some k2"
    using J Cons k1 k2 by (simp add: sem_callback_def rt_sem_release_def sems_typed_def)
  then show ?thesis
    using sc rs(3) J expiry_step_trans [OF rs(2) sc(2)] rt_thread_resume_types [OF r]
    by (auto simp: sems_typed_def)
qed

interpretation sem_timers: timer_callbacks sem_callback sems_typed c B for c B
proof unfold_locales
  show "sems_typed k'" if "sems_typed k" "\<And>r. rt_object_get_type r k' = rt_object_get_type r k" for k k'
    using that by (simp add: sems_typed_def)
qed (rule sem_callback_step)

section \<open>Sleeping\<close>

text \<open>The timer of a thread that runs is idle, and it is the timer that \<^verbatim>\<open>_thread_init\<close> made.\<close>

definition sleep_ready :: "tid \<Rightarrow> nat \<Rightarrow> kernel \<Rightarrow> bool" where
  "sleep_ready t B k \<longleftrightarrow> running t k \<and> \<not> linked (Thread_timer t) (rows k) \<and>
     timeout_func (timers k (Thread_timer t)) = Thread_timeout \<and>
     timer_parameter (timers k (Thread_timer t)) = t \<and>
     timer_flag k (Thread_timer t) AND RT_TIMER_FLAG_PERIODIC = 0"

lemma suspend_state:
  assumes sus: "rt_thread_suspend t k = Some (e, k')" and st: "timer_state c B k" and sl: "sleep_ready t B k"
  shows "timer_state c B k'" "rows k' = rows k" "timers k' = timers k" "rt_tick k' = rt_tick k"
    "\<And>r. rt_object_get_type r k' = rt_object_get_type r k"
    "timer_flag k' u AND 2 = timer_flag k u AND 2" "kready k'"
proof -
  note d = timer_stateD [OF st]
  let ?tm = "Thread_timer t"
  have run: "tstat k t = RT_THREAD_RUNNING" and off: "\<not> linked ?tm (rows k)"
    using sl by (simp_all add: sleep_ready_def running_def)
  note cu = rt_thread_suspend_current [OF sus run]
  from sus run obtain e3 where k3: "rt_timer_stop ?tm (upd_thread t
      (\<lambda>r. r\<lparr>stat := set_stat RT_THREAD_SUSPEND (stat r)\<rparr>) (rt_schedule_remove_thread t k)) = Some (e3, k')"
    by (auto simp: rt_thread_suspend_def Let_def bind_eq_Some_conv)
  show rw: "rows k' = rows k" "timers k' = timers k"
    using k3 off by (auto simp: rt_timer_stop_def unlink_unlinked split: if_splits)
  show tk: "rt_tick k' = rt_tick k" using kframe_sel(7) [OF cu(6)] .
  show ty: "rt_object_get_type r k' = rt_object_get_type r k" for r
    using rt_timer_stop_types [OF k3, of r] by (simp add: rt_object_get_type_def)
  have fl: "timer_flag k' u = timer_flag k u \<or> u = ?tm \<and> timer_flag k' u = timer_flag k u AND NOT 1" for u
    using k3 by (auto simp: rt_timer_stop_def split: if_splits)
  show fl2: "timer_flag k' u AND 2 = timer_flag k u AND 2" for u using fl [of u] by (auto simp: and.assoc)
  have fl4: "timer_flag k' u AND 4 = timer_flag k u AND 4" for u by (rule rt_thread_suspend_flag [OF sus])
  have "live_ok k'"
  proof (rule live_ok_mono [OF _ cu(6) _ ty])
    show "live_ok k" using d(1) by (simp add: kready_def)
    show "live k u" if "live k' u" for u
      using that cu(7) [of u] run by (cases "u = t") (auto simp: live_def)
  qed
  then show rdy: "kready k'"
    using d(1) sched_inv_suspend [OF sus] fl4 by (simp add: kready_def thread_timers_hard_def)
  have "timer_fit B k' u = timer_fit B k u" for u
    by (rule timer_fit_cong [OF ty fl4 fl2]) (simp_all add: rw)
  moreover have "timer_listed k' u" if u: "u \<in> set (rows k Hard_list)" for u
  proof -
    have "u \<noteq> ?tm" using off u by (auto simp: linked_def)
    then show ?thesis using d(6) [OF u] fl [of u] by (cases u) (auto simp: timer_listed_def cu(7))
  qed
  ultimately show "timer_state c B k'"
    using d rdy cu(5) unfolding timer_state_def rw tk by auto
qed

lemma upd_timer_state:
  assumes st: "timer_state c B k" and off: "\<not> linked tm (rows k)"
  shows "timer_state c B (upd_timer tm f k)"
proof -
  note d = timer_stateD [OF st]
  let ?k = "upd_timer tm f k"
  have ne: "u \<noteq> tm" if "u \<in> set (rows k h)" for u h using that off by (auto simp: linked_def)
  have "kready ?k"
    by (rule kready_same_timers [OF d(1)]) (simp_all add: rt_object_get_type_def)
  moreover have "timers_sorted (\<lambda>t. timeout_tick (timers ?k t)) c (rows k Hard_list)"
  proof -
    have "map (\<lambda>t. timeout_tick (timers ?k t) - c) (rows k Hard_list) =
        map (\<lambda>t. timeout_tick (timers k t) - c) (rows k Hard_list)"
      using ne by (intro map_cong) auto
    moreover have "timeout_tick (timers ?k u) - c < RT_TICK_HALF" if "u \<in> set (rows k Hard_list)" for u
      using that ne [OF that] d(5) by (simp add: timers_sorted_def)
    ultimately show ?thesis using d(5) unfolding timers_sorted_def by metis
  qed
  moreover have "timer_fit B ?k u = timer_fit B k u" if "u \<in> set (rows k h)" for u h
    by (rule timer_fit_cong) (use ne [OF that] in \<open>simp_all add: rt_object_get_type_def\<close>)
  ultimately show ?thesis
    using d unfolding timer_state_def by (auto simp: timer_listed_def)
qed

lemma sleep_state:
  assumes st: "timer_state c B k" and sl: "sleep_ready t B k"
    and n: "n < 0x7FFFFFFF" "B + n < 0x7FFFFFFF"
  shows "\<exists>k'. rt_thread_sleep (word_of_nat n) k = Some k' \<and> timer_state c B k' \<and>
    rows k' Check_list = rows k Check_list \<and> rt_tick k' = rt_tick k \<and>
    Thread_timer t \<in> set (rows k' Hard_list) \<and>
    timeout_tick (timers k' (Thread_timer t)) = rt_tick k + word_of_nat n \<and>
    (\<forall>r. rt_object_get_type r k' = rt_object_get_type r k)"
proof -
  let ?tm = "Thread_timer t"
  let ?k1 = "upd_thread t (\<lambda>r. r\<lparr>thread_error := RT_EOK\<rparr>) k"
  note d = timer_stateD [OF st]
  have cur: "rt_current_thread k = Some t" "tstat k t = RT_THREAD_RUNNING"
    using sl by (simp_all add: sleep_ready_def running_def)
  have res: "resumable k t" using d(1) cur by (simp add: kready_def live_ok_def live_def)
  have st1: "timer_state c B ?k1"
    by (rule timer_state_sched [OF st])
      (use d(1) cur d(6) in \<open>auto simp: timer_listed_def\<close>)
  have sl1: "sleep_ready t B ?k1" using sl by (simp add: sleep_ready_def running_def)
  have "resumable ?k1 t" using res by (simp add: resumable_def rt_object_get_type_def)
  then obtain e2 k2 where k2: "rt_thread_suspend t ?k1 = Some (e2, k2)"
    using rt_thread_suspend_defined [of ?k1 t] cur by auto
  note s2 = suspend_state [OF k2 st1 sl1]
  note cu = rt_thread_suspend_current [OF k2]
  let ?k3 = "upd_timer ?tm (\<lambda>r. r\<lparr>timer_init_tick := word_of_nat n\<rparr>) k2"
  have w: "unat (word_of_nat n :: 32 word) = n" using n(1) by (simp add: unat_of_nat)
  have ty: "rt_object_get_type (Obj_timer ?tm) k2 = RT_Object_Class_Timer"
    using s2(5) [of "Obj_timer ?tm"] res by (simp add: resumable_def rt_object_get_type_def)
  have k3: "rt_timer_control ?tm RT_TIMER_CTRL_SET_TIME (word_of_nat n) k2 = Some (RT_EOK, word_of_nat n, ?k3)"
    using ty n(1) w by (simp add: rt_timer_control_def word_less_nat_alt)
  have off: "\<not> linked ?tm (rows k2)" using sl s2(2) by (simp add: sleep_ready_def)
  have st3: "timer_state c B ?k3" by (rule upd_timer_state [OF s2(1) off])
  have hard: "timer_flag k2 ?tm AND 4 = 0" using s2(7) by (simp add: kready_def thread_timers_hard_def)
  have fit3: "timer_fit B ?k3 ?tm"
    using ty hard s2(6) [of ?tm] sl s2(3) n(2) w
    by (simp add: timer_fit_def sleep_ready_def rt_object_get_type_def)
  have off3: "\<not> linked ?tm (rows ?k3)" using off by simp
  have sus3: "tstat ?k3 u = RT_THREAD_SUSPEND" if "?tm = Thread_timer u" for u
    using cu(3) cur that by simp
  note a = timer_armed_state [OF st3 off3 fit3 sus3]
  let ?k4 = "timer_armed ?tm ?k3"
  have start: "rt_timer_start ?tm ?k3 = Some (RT_EOK, ?k4)"
    using ty hard unfolding rt_timer_start_eq by (simp add: rt_object_get_type_def)
  note d4 = timer_stateD [OF a(1)]
  obtain k5 where k5: "rt_schedule ?k4 = Some k5"
    using d4(1,8) rt_schedule_returns by (auto simp: kready_def)
  note sc = schedule_state [OF k5 a(1)]
  have "rt_thread_sleep (word_of_nat n) k = Some k5"
    using cur res k2 k3 start k5
    by (simp add: rt_thread_sleep_def thread_sleep_for_def rt_thread_self_def resumable_def)
  moreover have "timers k5 = timers ?k4" "rt_tick k5 = rt_tick ?k4"
    using same_but_sched_sel(3,5) [OF rt_schedule_same [OF k5]] by blast+
  moreover have "rt_tick ?k4 = rt_tick k"
    using same_but_timers_sel(7) [OF timer_armed_same] s2(4) by simp
  moreover have "rt_object_get_type r k5 = rt_object_get_type r k" for r
    using sc(4) s2(5) [of r] by (simp add: rt_object_get_type_def timer_armed_rows(4))
  ultimately show ?thesis
    using sc a(3,4) s2(2,4) by (simp add: timer_armed_rows(2))
qed

section \<open>A period of zero\<close>

text \<open>One pass through the body of the loop of \<^verbatim>\<open>rt_timer_check\<close>: the loop ends in a state, or it goes on
  with a tick and a state; none if an assertion fails or the function of the timer does not return.\<close>

definition timer_check_body :: "callbacks \<Rightarrow> 32 word \<Rightarrow> kernel \<Rightarrow> (kernel + 32 word \<times> kernel) option" where
  "timer_check_body cb current_tick k =
     (case rows k Hard_list of
        [] \<Rightarrow> Some (Inl k)
      | tm # _ \<Rightarrow>
          if timer_due current_tick k tm then do {
            k1 \<leftarrow> timer_call cb tm (timer_expire Check_list tm k);
            k2 \<leftarrow> (if rows k1 Check_list = [] then Some k1 else timer_restart tm k1);
            Some (Inr (rt_tick_get k1, k2)) }
          else Some (Inl k))"

lemma timer_check_loop_body:
  "timer_check_loop cb tick k = (case timer_check_body cb tick k of
     None \<Rightarrow> None | Some (Inl k') \<Rightarrow> Some k' | Some (Inr (tick', k')) \<Rightarrow> timer_check_loop cb tick' k')"
  by (subst timer_check_loop.simps)
    (simp add: timer_check_body_def split: list.split bind_split)

text \<open>The state in which round \<open>n + 1\<close> of the loop begins, if the loop gets that far.\<close>

fun timer_check_rounds :: "callbacks \<Rightarrow> nat \<Rightarrow> 32 word \<Rightarrow> kernel \<Rightarrow> (32 word \<times> kernel) option" where
  "timer_check_rounds cb 0 tick k = Some (tick, k)"
| "timer_check_rounds cb (Suc n) tick k =
     (case timer_check_body cb tick k of
        Some (Inr (tick', k')) \<Rightarrow> timer_check_rounds cb n tick' k'
      | _ \<Rightarrow> None)"

lemma timer_check_loop_bounded:
  assumes "timer_check_loop cb tick k = Some k'"
  shows "\<exists>n. timer_check_rounds cb n tick k = None"
proof (rule timer_check_loop.raw_induct [OF _ assms,
      where P = "\<lambda>cb tick k k'. \<exists>n. timer_check_rounds cb n tick k = None"])
  fix loop :: "callbacks \<Rightarrow> 32 word \<Rightarrow> kernel \<Rightarrow> kernel option" and cb :: callbacks and tick k k'
  assume IH: "\<And>cb tick k k'. loop cb tick k = Some k' \<Longrightarrow> \<exists>n. timer_check_rounds cb n tick k = None"
    and body: "(case rows k Hard_list of [] \<Rightarrow> Some k | tm # x \<Rightarrow>
        if timer_due tick k tm then do {
          k1 \<leftarrow> timer_call cb tm (timer_expire Check_list tm k);
          k2 \<leftarrow> (if rows k1 Check_list = [] then Some k1 else timer_restart tm k1);
          loop cb (rt_tick_get k1) k2 } else Some k) = Some k'"
  show "\<exists>n. timer_check_rounds cb n tick k = None"
  proof (cases "\<exists>tick1 k1. timer_check_body cb tick k = Some (Inr (tick1, k1))")
    case True
    then obtain tick1 k1 where r: "timer_check_body cb tick k = Some (Inr (tick1, k1))" by blast
    then have "loop cb tick1 k1 = Some k'"
      using body by (auto simp: timer_check_body_def bind_eq_Some_conv split: list.splits if_splits)
    from IH [OF this] obtain n where "timer_check_rounds cb n tick1 k1 = None" by blast
    then show ?thesis using r by (intro exI [of _ "Suc n"]) simp
  next
    case False
    then have "timer_check_rounds cb (Suc 0) tick k = None"
      by (auto split: option.split sum.split)
    then show ?thesis by blast
  qed
qed

text \<open>A periodic hard timer with period 0, function \<open>f\<close> and parameter \<open>p\<close> that is due now; the other timers are not yet due.\<close>

definition zero_period :: "timer_id \<Rightarrow> nat \<Rightarrow> nat \<Rightarrow> kernel \<Rightarrow> bool" where
  "zero_period tm f p k \<longleftrightarrow>
     (\<exists>later. rows k Hard_list = tm # later \<and> tm \<notin> set later \<and>
        (\<forall>u \<in> set later. timeout_tick (timers k u) - rt_tick k \<noteq> 0 \<and>
           timeout_tick (timers k u) - rt_tick k < RT_TICK_HALF)) \<and>
     rt_object_get_type (Obj_timer tm) k = RT_Object_Class_Timer \<and>
     timer_flag k tm AND RT_TIMER_FLAG_SOFT_TIMER = 0 \<and>
     timer_flag k tm AND RT_TIMER_FLAG_PERIODIC \<noteq> 0 \<and>
     timer_flag k tm AND RT_TIMER_FLAG_ACTIVATED \<noteq> 0 \<and>
     timer_init_tick (timers k tm) = 0 \<and> timer_due (rt_tick k) k tm \<and>
     timeout_func (timers k tm) = User_func f \<and> timer_parameter (timers k tm) = p"

text \<open>A function of a user timer that returns and leaves the timers and the clock alone.\<close>

definition same_timers :: "kernel \<Rightarrow> kernel \<Rightarrow> bool" where
  "same_timers k k' \<longleftrightarrow> rows k' = rows k \<and> timers k' = timers k \<and> rt_tick k' = rt_tick k \<and>
     (\<forall>tm. objects k' (Obj_timer tm) = objects k (Obj_timer tm))"

text \<open>After one round of the loop the timer is due again.\<close>

lemma zero_period_round:
  assumes z: "zero_period tm f p k" and lst: "rows k Check_list = []"
    and cb: "\<forall>k. \<exists>k'. cb f p k = Some k' \<and> same_timers k k'"
  shows "\<exists>k'. timer_check_body cb (rt_tick k) k = Some (Inr (rt_tick k, k')) \<and> zero_period tm f p k' \<and>
    rows k' Check_list = [] \<and> rt_tick k' = rt_tick k"
proof -
  obtain later where rw: "rows k Hard_list = tm # later" "tm \<notin> set later"
      "\<forall>u \<in> set later. timeout_tick (timers k u) - rt_tick k \<noteq> 0 \<and>
         timeout_tick (timers k u) - rt_tick k < RT_TICK_HALF"
    using z by (auto simp: zero_period_def)
  let ?k0 = "timer_expire Check_list tm k"
  have fl: "timer_flag ?k0 tm = timer_flag k tm" using z by (simp add: zero_period_def)
  obtain k1 where call: "timer_call cb tm ?k0 = Some k1" and same: "same_timers ?k0 k1"
    using z cb [rule_format, of ?k0] by (auto simp: timer_call_def zero_period_def)
  have k1: "rows k1 = push_front Check_list tm (unlink tm (rows k))" "timers k1 = timers k" "rt_tick k1 = rt_tick k"
      "timer_flag k1 tm = timer_flag k tm" "obj_type (objects k1 (Obj_timer tm)) = obj_type (objects k (Obj_timer tm))"
    using same fl z by (simp_all add: same_timers_def zero_period_def)
  let ?k2 = "set_timer_flag tm (\<lambda>fl. fl AND NOT RT_TIMER_FLAG_ACTIVATED) (upd_rows (unlink tm) k1)"
  have start: "rt_timer_start tm ?k2 = Some (RT_EOK, timer_armed tm ?k2)"
    using z k1 unfolding rt_timer_start_eq by (simp add: zero_period_def rt_object_get_type_def)
  have restart: "timer_restart tm k1 = Some (timer_armed tm ?k2)"
    using z k1 start by (simp add: timer_restart_def Let_def zero_period_def)
  define k3 where "k3 = timer_armed tm ?k2"
  have body: "timer_check_body cb (rt_tick k) k = Some (Inr (rt_tick k, k3))"
    using z rw(1) call restart [folded k3_def] k1(1,3)
    by (simp add: timer_check_body_def zero_period_def push_front_def rt_tick_get_def)
  have hard: "timer_start_list tm ?k2 = Hard_list"
    using z k1 by (simp add: timer_start_list_def zero_period_def)
  have tt: "timers k3 = (timers k)(tm := (timers k tm)\<lparr>timeout_tick := rt_tick k\<rparr>)"
    using z k1 by (simp add: k3_def timer_armed_rows(2) zero_period_def)
  have tick: "rt_tick k3 = rt_tick k"
    using same_but_timers_sel(7) [OF timer_armed_same [of ?k2 tm]] k1(3) by (simp add: k3_def)
  have un: "unlink tm (rows ?k2) Hard_list = later" "unlink tm (rows ?k2) Check_list = []"
    using rw lst by (simp_all add: k1(1) unlink_def push_front_def)
  have "timer_row_insert (\<lambda>t. timeout_tick (timers k3 t)) (rt_tick k) tm later = tm # later"
    using rw by (cases later) (auto simp: tt)
  then have rows': "rows k3 Hard_list = tm # later" "rows k3 Check_list = []"
    using timer_armed_rows(1) [of tm ?k2, unfolded hard, folded k3_def] un tt by simp_all
  have fl3: "timer_flag k3 tm = (timer_flag k tm AND NOT RT_TIMER_FLAG_ACTIVATED) OR RT_TIMER_FLAG_ACTIVATED"
      "obj_type (objects k3 (Obj_timer tm)) = obj_type (objects k (Obj_timer tm))"
    using k1(4,5) by (simp_all add: k3_def timer_armed_rows(3,4))
  have "zero_period tm f p k3"
    unfolding zero_period_def rows'(1) using z rw(2,3) fl3 tick
    by (auto simp: zero_period_def rt_object_get_type_def timer_due_def tt bit.conj_disj_distrib2 and.assoc)
  then show ?thesis using body tick rows'(2) by blast
qed

lemma zero_period_rounds:
  assumes cb: "\<forall>k. \<exists>k'. cb f p k = Some k' \<and> same_timers k k'"
  shows "zero_period tm f p k \<Longrightarrow> rows k Check_list = [] \<Longrightarrow>
    \<exists>k'. timer_check_rounds cb n (rt_tick k) k = Some (rt_tick k, k') \<and> zero_period tm f p k' \<and> rt_tick k' = rt_tick k"
proof (induction n arbitrary: k)
  case (Suc n)
  from zero_period_round [of tm f p k cb] Suc.prems cb obtain k1 where
    k1: "timer_check_body cb (rt_tick k) k = Some (Inr (rt_tick k, k1))" "zero_period tm f p k1"
      "rows k1 Check_list = []" "rt_tick k1 = rt_tick k"
    by blast
  from Suc.IH [OF k1(2,3)] k1(1,4) show ?case by simp
qed simp

section \<open>Properties\<close>

text \<open>C26: The timer check of the clock interrupt returns and leaves no timer due. Every thread whose
  sleep or bounded wait is over is runnable afterwards, and the timer list is sorted and well-formed
  again. The functions of user timers, which are not part of the kernel, are assumed to keep the
  contract \<open>timer_callbacks\<close>; periodic timers have a positive period.\<close>

theorem rt_timer_check_wakes_due:
  assumes "timer_callbacks cb J c B" and "timer_state c B k" and "J k" and "rows k Check_list = []"
  shows "\<exists>k'. rt_timer_check cb k = Some k' \<and> timer_state c B k' \<and> due_timers k' = {} \<and>
    (\<forall>t. Thread_timer t \<in> due_timers k \<longrightarrow> runnable k' t)"
  using timer_callbacks.check_ends [OF assms] timer_callbacks.check_wakes [OF assms] by blast

text \<open>Thread 2 of the three threads, with its timer as \<^verbatim>\<open>_thread_init\<close> leaves it.\<close>

definition sleeper :: kernel where
  "sleeper = upd_timer (Thread_timer 2)
     (\<lambda>r. r\<lparr>timeout_func := Thread_timeout, timer_parameter := 2\<rparr>) three_threads"

lemma sleeper_state: "timer_state 0 1000 sleeper" "sems_typed sleeper" "sleep_ready 2 1000 sleeper"
  "rows sleeper = (\<lambda>_. [])" "rt_tick sleeper = 0"
proof -
  have "wf_queues (rows three_threads)" by (simp add: wf_queues_def)
  then have "timer_state 0 1000 three_threads"
    by (simp add: timer_state_def kready_three_threads timers_sorted_def)
  then show "timer_state 0 1000 sleeper"
    unfolding sleeper_def by (rule upd_timer_state) (simp add: linked_def)
  show "sems_typed sleeper"
    using three_threads_types(2) by (simp add: sems_typed_def sleeper_def rt_object_get_type_def)
  show "sleep_ready 2 1000 sleeper"
    by (simp add: sleep_ready_def sleeper_def running_def linked_def demo_objects_def)
qed (simp_all add: sleeper_def)

theorem rt_timer_check_wakes_due_witness:
  "\<exists>k1 k'. rt_thread_sleep 0 sleeper = Some k1 \<and> Thread_timer 2 \<in> due_timers k1 \<and>
    rt_timer_check sem_callback k1 = Some k' \<and> runnable k' 2"
proof -
  obtain k1 where k1: "rt_thread_sleep 0 sleeper = Some k1" "timer_state 0 1000 k1"
    "rows k1 Check_list = []" "rt_tick k1 = 0" "Thread_timer 2 \<in> set (rows k1 Hard_list)"
    "timeout_tick (timers k1 (Thread_timer 2)) = 0"
    "\<forall>r. rt_object_get_type r k1 = rt_object_get_type r sleeper"
    using sleep_state [OF sleeper_state(1,3), of 0] sleeper_state(4,5) by auto
  have due: "Thread_timer 2 \<in> due_timers k1" using k1(4-6) by (simp add: due_timers_def timer_due_def)
  have "sems_typed k1" using k1(7) sleeper_state(2) by (simp add: sems_typed_def)
  from rt_timer_check_wakes_due [OF sem_timers.timer_callbacks_axioms k1(2) this k1(3)]
  show ?thesis using k1(1) due by blast
qed

text \<open>C8: A thread that calls \<^verbatim>\<open>rt_thread_sleep\<close> with \<open>n\<close> ticks is suspended with its timer in the list,
  and when \<open>n\<close> clock interrupts have passed it is runnable; none of the interrupts fails to return,
  whatever the wrap-around of the tick counter in between. (In the window \<open>c\<close>, \<open>B\<close> of theory \<open>Tick\<close>
  all timeouts are less than half the tick range apart.)\<close>

theorem rt_thread_sleep_wakes:
  assumes "timer_callbacks cb J c B" and "timer_state c B k" and "J k" and "rows k Check_list = []"
    and "sleep_ready t B k" and "0 < n" and "unat (rt_tick k - c) + n \<le> B" and "B + n < 0x7FFFFFFF"
  shows "\<exists>k1 k'. rt_thread_sleep (word_of_nat n) k = Some k1 \<and> tstat k1 t = RT_THREAD_SUSPEND \<and>
    ticks cb n k1 = Some k' \<and> timer_state c B k' \<and> runnable k' t"
proof -
  have n: "n < 0x7FFFFFFF" using assms(8) by simp
  obtain k1 where k1: "rt_thread_sleep (word_of_nat n) k = Some k1" "timer_state c B k1"
    "rows k1 Check_list = []" "rt_tick k1 = rt_tick k" "Thread_timer t \<in> set (rows k1 Hard_list)"
    "timeout_tick (timers k1 (Thread_timer t)) = rt_tick k1 + word_of_nat n"
    "\<forall>r. rt_object_get_type r k1 = rt_object_get_type r k"
    using sleep_state [OF assms(2,5) n assms(8)] assms(4) by auto
  have J: "J k1" using timer_callbacks.J_types [OF assms(1,3)] k1(7) by blast
  have b: "unat (rt_tick k1 - c) + n \<le> B" using assms(7) k1(4) by simp
  have "tstat k1 t = RT_THREAD_SUSPEND"
    using timer_stateD(6) [OF k1(2,5)] by (simp add: timer_listed_def)
  then show ?thesis
    using timer_callbacks.sleep_ends [OF assms(1) k1(2) J k1(3) b assms(6) k1(5,6)] k1(1) by blast
qed

theorem rt_thread_sleep_wakes_witness:
  "\<exists>k1 k'. rt_thread_sleep 20 sleeper = Some k1 \<and> tstat k1 2 = RT_THREAD_SUSPEND \<and>
    ticks sem_callback 20 k1 = Some k' \<and> runnable k' 2"
  using rt_thread_sleep_wakes [OF sem_timers.timer_callbacks_axioms sleeper_state(1,2) _ sleeper_state(3),
      of 20] sleeper_state(4,5) by auto

text \<open>C35: A periodic timer with period 0, which \<^verbatim>\<open>rt_timer_init\<close> and \<^verbatim>\<open>RT_TIMER_CTRL_SET_TIME\<close> accept, hangs
  the system. Let such a timer be due while all other hard timers are due later, and let its
  function return and leave the timers and the clock alone (a function that stops the timer would end
  the loop). Then for every \<open>n\<close> the loop of \<^verbatim>\<open>rt_timer_check\<close> completes \<open>n\<close> rounds without a failing
  assertion, the tick is the same as before and the timer is due again, because it was started again with
  a timeout that is already reached: \<^verbatim>\<open>rt_timer_check\<close> does not return from the clock interrupt.\<close>

theorem rt_timer_check_zero_period_hangs:
  assumes "zero_period tm f p k" and "\<forall>k. \<exists>k'. cb f p k = Some k' \<and> same_timers k k'"
  shows "(\<forall>n. \<exists>k'. timer_check_rounds cb n (rt_tick_get k) (upd_rows (\<lambda>L. L(Check_list := [])) k) =
      Some (rt_tick k, k') \<and> zero_period tm f p k' \<and> rt_tick k' = rt_tick k) \<and>
    rt_timer_check cb k = None"
proof -
  let ?k = "upd_rows (\<lambda>L. L(Check_list := [])) k"
  have "zero_period tm f p ?k"
    using assms(1) by (simp add: zero_period_def rt_object_get_type_def timer_due_def)
  then have rounds: "\<exists>k'. timer_check_rounds cb n (rt_tick k) ?k = Some (rt_tick k, k') \<and>
      zero_period tm f p k' \<and> rt_tick k' = rt_tick k" for n
    using zero_period_rounds [of cb f p tm ?k n] assms(2) by simp
  have "timer_check_loop cb (rt_tick k) ?k = None"
  proof (rule ccontr)
    assume "timer_check_loop cb (rt_tick k) ?k \<noteq> None"
    then obtain n where "timer_check_rounds cb n (rt_tick k) ?k = None"
      using timer_check_loop_bounded by blast
    then show False using rounds [of n] by simp
  qed
  then show ?thesis using rounds by (simp add: rt_timer_check_def rt_tick_get_def)
qed

text \<open>A poll function that releases semaphore 0, on which nobody waits, every 0 ticks, while another timer
  is due in 5 ticks.\<close>

definition zero_timer_state :: kernel where
  "zero_timer_state = three_threads\<lparr>
     rows := (\<lambda>h. if h = Hard_list then [User_timer 7, User_timer 8] else []),
     timers := (\<lambda>tm. \<lparr>timeout_func = User_func 1, timer_parameter = 0, timer_init_tick = (if tm = User_timer 7 then 0 else 5),
       timeout_tick = (if tm = User_timer 7 then 0 else 5)\<rparr>),
     objects := demo_objects(Obj_timer (User_timer 7) := \<lparr>obj_name = ''poll'', obj_type = 0x8A, obj_flag = 3\<rparr>)\<rparr>"

definition poll_function :: callbacks where
  "poll_function f p k = Some (set_sem_value p (sem_value (sems k p) + 1) k)"

theorem rt_timer_check_zero_period_hangs_witness:
  "zero_period (User_timer 7) 1 0 zero_timer_state \<and>
   (\<exists>k'. timer_check_rounds poll_function 1000 (rt_tick_get zero_timer_state)
      (upd_rows (\<lambda>L. L(Check_list := [])) zero_timer_state) = Some (0, k')) \<and>
   rt_timer_check poll_function zero_timer_state = None"
proof -
  have tick: "rt_tick zero_timer_state = 0"
    by (simp add: zero_timer_state_def)
  have z: "zero_period (User_timer 7) 1 0 zero_timer_state"
    by (simp add: zero_period_def zero_timer_state_def rt_object_get_type_def timer_due_def)
  have cb: "\<forall>k. \<exists>k'. poll_function 1 0 k = Some k' \<and> same_timers k k'"
    by (simp add: poll_function_def same_timers_def set_sem_value_def)
  show ?thesis
    using rt_timer_check_zero_period_hangs [of "User_timer 7" 1 0 zero_timer_state poll_function] cb z tick by auto
qed

end
