(* ===== verification/Kservice.thy ===== *)
theory Kservice
  imports Thread
begin

text \<open>
  The error number of \<^verbatim>\<open>src/kservice.c\<close>: one per thread, and a global one for interrupt handlers and
  for the time before the scheduler runs.
\<close>

definition rt_get_errno :: "kernel \<Rightarrow> int" where
  "rt_get_errno k =
     (if rt_interrupt_get_nest k \<noteq> 0 then rt_errno k
      else case rt_thread_self k of None \<Rightarrow> rt_errno k | Some t \<Rightarrow> thread_error (threads k t))"

definition rt_set_errno :: "int \<Rightarrow> kernel \<Rightarrow> kernel" where
  "rt_set_errno e k =
     (if rt_interrupt_get_nest k \<noteq> 0 then k\<lparr>rt_errno := e\<rparr>
      else case rt_thread_self k of
        None \<Rightarrow> k\<lparr>rt_errno := e\<rparr>
      | Some t \<Rightarrow> upd_thread t (\<lambda>r. r\<lparr>thread_error := e\<rparr>) k)"

lemma rt_set_errno_sel [simp]:
  "rt_get_errno (rt_set_errno e k) = e"
  "rt_current_thread (rt_set_errno e k) = rt_current_thread k"
  "tlists (rt_set_errno e k) = tlists k" "mempools (rt_set_errno e k) = mempools k"
  "objects (rt_set_errno e k) = objects k" "rows (rt_set_errno e k) = rows k"
  "stat (threads (rt_set_errno e k) t) = stat (threads k t)"
  by (auto simp: rt_get_errno_def rt_set_errno_def rt_interrupt_get_nest_def rt_thread_self_def upd_thread_def
      split: option.splits)

end
