(* ===== verification/Mempool.thy ===== *)
theory Mempool
  imports Kservice Ipc_Channel
begin

text \<open>
  Memory pools (\<^verbatim>\<open>src/mempool.c\<close>): blocks of one size, the free ones linked through their first word,
  and threads that wait for a block. A block is an index into the pool: block \<open>i\<close> starts at
  \<^verbatim>\<open>start_address + i * (block_size + sizeof(rt_uint8_t *))\<close>. Its first word is the link while it is
  free, and the pool it belongs to while it is allocated.
\<close>

section \<open>Operations\<close>

definition upd_mp :: "nat \<Rightarrow> (rt_mempool \<Rightarrow> rt_mempool) \<Rightarrow> kernel \<Rightarrow> kernel" where
  "upd_mp n f k = k\<lparr>mempools := (mempools k)(n := f (mempools k n))\<rparr>"

text \<open>The loop that links every block to the next, and the end of the list. With no block at all the
  code writes to the word before the pool, which has no defined result.\<close>

definition mp_link_blocks :: "32 word \<Rightarrow> (nat \<Rightarrow> mp_link) \<Rightarrow> (nat \<Rightarrow> mp_link) option" where
  "mp_link_blocks cnt links =
     (let links' = fold (\<lambda>i L. L(i := Free_link (Some (Suc i)))) [0..<unat cnt] links in
      if cnt = 0 then None else Some (links'(unat cnt - 1 := Free_link None)))"

text \<open>The division faults if the block size wraps to zero.\<close>

definition rt_mp_init ::
  "nat \<Rightarrow> string \<Rightarrow> 32 word \<Rightarrow> 32 word \<Rightarrow> 32 word \<Rightarrow> kernel \<Rightarrow> (int \<times> kernel) option" where
  "rt_mp_init n nm start sz block_size k = do {
     rt_assert (start \<noteq> 0);
     rt_assert (sz > 0 \<and> block_size > 0);
     k1 \<leftarrow> rt_object_init (Obj_ipc (Mempool n)) RT_Object_Class_MemPool nm k;
     let block_size' = RT_ALIGN block_size 4;
     rt_assert (block_size' + 4 \<noteq> 0);
     let cnt = RT_ALIGN_DOWN sz 4 div (block_size' + 4);
     let k2 = upd_mp n (\<lambda>m. m\<lparr>mp_start_address := start, mp_pool_size := RT_ALIGN_DOWN sz 4,
                mp_block_size := block_size', block_total_count := cnt, block_free_count := cnt\<rparr>) k1;
     let k3 = ipc_object_init (Mempool n) k2;
     links \<leftarrow> mp_link_blocks cnt (mp_links (mempools k3 n));
     Some (RT_EOK, upd_mp n (\<lambda>m. m\<lparr>mp_links := links, mp_block_list := Some 0\<rparr>) k3) }"

definition rt_mp_detach :: "nat \<Rightarrow> kernel \<Rightarrow> (int \<times> kernel) option" where
  "rt_mp_detach n k = do {
     rt_assert (rt_object_get_type (Obj_ipc (Mempool n)) k = RT_Object_Class_MemPool);
     rt_assert (rt_object_is_systemobject (Obj_ipc (Mempool n)) k);
     (_, k1) \<leftarrow> ipc_list_resume_all (Suspend (Mempool n)) k;
     Some (RT_EOK, rt_object_detach (Obj_ipc (Mempool n)) k1) }"

text \<open>\<open>mem\<close> is the object the heap returns, \<open>pool\<close> the address of the memory for the blocks.\<close>

definition rt_mp_create ::
  "string \<Rightarrow> 32 word \<Rightarrow> 32 word \<Rightarrow> nat option \<Rightarrow> 32 word option \<Rightarrow> kernel \<Rightarrow>
   (nat option \<times> kernel) option" where
  "rt_mp_create nm block_count block_size mem pool k = do {
     RT_DEBUG_NOT_IN_INTERRUPT k;
     rt_assert (block_count > 0 \<and> block_size > 0);
     (_, k1) \<leftarrow> rt_object_allocate RT_Object_Class_MemPool nm (map_option (Obj_ipc \<circ> Mempool) mem) k;
     case mem of
       None \<Rightarrow> Some (None, k1)
     | Some n \<Rightarrow>
         let block_size' = RT_ALIGN block_size 4;
             k2 = upd_mp n (\<lambda>m. m\<lparr>mp_block_size := block_size',
                    mp_pool_size := (block_size' + 4) * block_count\<rparr>) k1
         in (case pool of
               None \<Rightarrow> do {
                 k3 \<leftarrow> rt_object_delete (Obj_ipc (Mempool n)) (upd_mp n (\<lambda>m. m\<lparr>mp_start_address := 0\<rparr>) k2);
                 Some (None, k3) }
             | Some start \<Rightarrow> do {
                 let k3 = upd_mp n (\<lambda>m. m\<lparr>mp_start_address := start, block_total_count := block_count,
                            block_free_count := block_count\<rparr>) k2;
                 let k4 = ipc_object_init (Mempool n) k3;
                 links \<leftarrow> mp_link_blocks block_count (mp_links (mempools k4 n));
                 Some (Some n, upd_mp n (\<lambda>m. m\<lparr>mp_links := links, mp_block_list := Some 0\<rparr>) k4) }) }"

definition rt_mp_delete :: "nat \<Rightarrow> kernel \<Rightarrow> (int \<times> kernel) option" where
  "rt_mp_delete n k = do {
     RT_DEBUG_NOT_IN_INTERRUPT k;
     rt_assert (rt_object_get_type (Obj_ipc (Mempool n)) k = RT_Object_Class_MemPool);
     rt_assert (\<not> rt_object_is_systemobject (Obj_ipc (Mempool n)) k);
     (_, k1) \<leftarrow> ipc_list_resume_all (Suspend (Mempool n)) k;
     k2 \<leftarrow> rt_object_delete (Obj_ipc (Mempool n)) k1;
     Some (RT_EOK, k2) }"

text \<open>The part of \<^verbatim>\<open>rt_mp_alloc\<close> after the loop.\<close>

definition mp_take :: "nat \<Rightarrow> kernel \<Rightarrow> (nat \<times> kernel) option" where
  "mp_take n k = do {
     let k1 = upd_mp n (\<lambda>m. m\<lparr>block_free_count := block_free_count m - 1\<rparr>) k;
     i \<leftarrow> mp_block_list (mempools k1 n);
     case mp_links (mempools k1 n) i of
       Free_link next \<Rightarrow> Some (i, upd_mp n (\<lambda>m. m\<lparr>mp_links := (mp_links m)(i := Owner_link n),
                           mp_block_list := next\<rparr>) k1)
     | Owner_link _ \<Rightarrow> None }"

text \<open>A waiting thread goes to the front of the wait list.\<close>

definition mp_block :: "nat \<Rightarrow> tid \<Rightarrow> 32 word \<Rightarrow> kernel \<Rightarrow> kernel option" where
  "mp_block n t time k = do {
     (_, k1) \<leftarrow> rt_thread_suspend t k;
     let k2 = upd_tlists (push_front (Suspend (Mempool n)) t) k1;
     k3 \<leftarrow> ipc_arm_timer t time k2;
     rt_schedule k3 }"

definition mp_alloc_attempt ::
  "tid option \<Rightarrow> nat \<Rightarrow> 32 word \<Rightarrow> kernel \<Rightarrow> (nat option outcome \<times> kernel) option" where
  "mp_alloc_attempt th n time k =
     (if block_free_count (mempools k n) = 0 then
        if time = 0 then Some (Return None, rt_set_errno (- RT_ETIMEOUT) k)
        else do {
          RT_DEBUG_NOT_IN_INTERRUPT k;
          t \<leftarrow> th;
          k1 \<leftarrow> mp_block n t time (upd_thread t (\<lambda>r. r\<lparr>thread_error := RT_EOK\<rparr>) k);
          Some (Block, k1) }
      else do {
        (i, k1) \<leftarrow> mp_take n k;
        Some (Return (Some i), k1) })"

definition rt_mp_alloc :: "nat \<Rightarrow> 32 word \<Rightarrow> kernel \<Rightarrow> (nat option outcome \<times> kernel) option" where
  "rt_mp_alloc n time k = mp_alloc_attempt (rt_thread_self k) n time k"

text \<open>The thread \<open>t\<close> that blocked at tick \<open>before_sleep\<close> runs again.\<close>

definition rt_mp_alloc_resume ::
  "nat \<Rightarrow> tid \<Rightarrow> 32 word \<Rightarrow> 32 word \<Rightarrow> kernel \<Rightarrow> (nat option outcome \<times> kernel) option" where
  "rt_mp_alloc_resume n t time before_sleep k =
     (if thread_error (threads k t) \<noteq> RT_EOK then Some (Return None, k)
      else mp_alloc_attempt (Some t) n (remaining_timeout time before_sleep k) k)"

text \<open>Freeing block \<open>i\<close> of pool \<open>n\<close>. The pool is found through the first word of the block; if that
  word is a link, because the block is free already, it is taken for a pool and nothing can be said
  about the result.\<close>

definition rt_mp_free :: "(nat \<times> nat) option \<Rightarrow> kernel \<Rightarrow> kernel option" where
  "rt_mp_free block k =
     (case block of
        None \<Rightarrow> Some k
      | Some (n, i) \<Rightarrow> do {
          rt_assert (mp_links (mempools k n) i = Owner_link n);
          let k1 = upd_mp n (\<lambda>m. m\<lparr>block_free_count := block_free_count m + 1,
                     mp_links := (mp_links m)(i := Free_link (mp_block_list m)),
                     mp_block_list := Some i\<rparr>) k;
          case tlists k1 (Suspend (Mempool n)) of
            t # _ \<Rightarrow> do {
              let k2 = upd_thread t (\<lambda>r. r\<lparr>thread_error := RT_EOK\<rparr>) k1;
              (_, k3) \<leftarrow> rt_thread_resume t k2;
              rt_schedule k3 }
          | [] \<Rightarrow> Some k1 })"

section \<open>The blocks of a pool\<close>

definition mp_next :: "rt_mempool \<Rightarrow> nat \<Rightarrow> nat option" where
  "mp_next m i = (case mp_links m i of Free_link x \<Rightarrow> x | Owner_link _ \<Rightarrow> None)"

text \<open>The free list is \<open>fs\<close>; the blocks \<open>A\<close> are allocated; together they are all the blocks.\<close>

definition mp_wf :: "nat \<Rightarrow> rt_mempool \<Rightarrow> nat list \<Rightarrow> nat set \<Rightarrow> bool" where
  "mp_wf n m fs A \<longleftrightarrow> chain (mp_next m) (mp_block_list m) fs \<and> distinct fs \<and>
     (\<forall>i \<in> set fs. \<exists>x. mp_links m i = Free_link x) \<and> (\<forall>i \<in> A. mp_links m i = Owner_link n) \<and>
     set fs \<union> A = {..<unat (block_total_count m)} \<and> unat (block_free_count m) = length fs"

lemma mp_wfD:
  assumes "mp_wf n m fs A"
  shows "chain (mp_next m) (mp_block_list m) fs" "distinct fs"
    "\<And>i. i \<in> set fs \<Longrightarrow> \<exists>x. mp_links m i = Free_link x" "\<And>i. i \<in> A \<Longrightarrow> mp_links m i = Owner_link n"
    "set fs \<union> A = {..<unat (block_total_count m)}" "unat (block_free_count m) = length fs"
    "set fs \<inter> A = {}" "card A + unat (block_free_count m) = unat (block_total_count m)"
proof -
  show "chain (mp_next m) (mp_block_list m) fs" "distinct fs"
    "\<And>i. i \<in> set fs \<Longrightarrow> \<exists>x. mp_links m i = Free_link x" "\<And>i. i \<in> A \<Longrightarrow> mp_links m i = Owner_link n"
    and un: "set fs \<union> A = {..<unat (block_total_count m)}" and len: "unat (block_free_count m) = length fs"
    using assms by (auto simp: mp_wf_def)
  show dis: "set fs \<inter> A = {}" using assms by (fastforce simp: mp_wf_def)
  have "finite A" using un by (metis finite_Un finite_lessThan)
  then have "card (set fs \<union> A) = card (set fs) + card A" using dis by (intro card_Un_disjoint) simp_all
  moreover have "card (set fs) = length fs" using assms by (simp add: mp_wf_def distinct_card)
  ultimately have "card (set fs \<union> A) = length fs + card A" by simp
  then show "card A + unat (block_free_count m) = unat (block_total_count m)" using un len by simp
qed

lemma mp_next_upd:
  "mp_next (m\<lparr>block_free_count := x, mp_links := (mp_links m)(i := Owner_link n), mp_block_list := b\<rparr>) =
     (mp_next m)(i := None)"
  "mp_next (m\<lparr>block_free_count := x, mp_links := (mp_links m)(i := Free_link y), mp_block_list := b\<rparr>) =
     (mp_next m)(i := y)"
  by (auto simp: mp_next_def)

text \<open>Taking a block, and giving it back.\<close>

lemma mp_wf_take:
  assumes wf: "mp_wf n m (i # fs) A"
  shows "mp_block_list m = Some i" "\<exists>x. mp_links m i = Free_link x" "i \<notin> A"
    "i < unat (block_total_count m)"
    "mp_wf n (m\<lparr>block_free_count := block_free_count m - 1, mp_links := (mp_links m)(i := Owner_link n),
       mp_block_list := mp_next m i\<rparr>) fs (insert i A)"
proof -
  note d = mp_wfD [OF wf]
  show "mp_block_list m = Some i" using d(1) by simp
  show "\<exists>x. mp_links m i = Free_link x" using d(3) [of i] by simp
  show i: "i \<notin> A" using d(7) by auto
  show "i < unat (block_total_count m)" using d(5) by auto
  have "block_free_count m \<noteq> 0" using d(6) by auto
  then have "unat (block_free_count m - 1) = length fs" using d(6) unat_minus_one [of "block_free_count m"] by simp
  then show "mp_wf n (m\<lparr>block_free_count := block_free_count m - 1, mp_links := (mp_links m)(i := Owner_link n),
       mp_block_list := mp_next m i\<rparr>) fs (insert i A)"
    using d(1-5) i unfolding mp_wf_def mp_next_upd by auto
qed

lemma mp_wf_give:
  assumes wf: "mp_wf n m fs A" and i: "i \<in> A"
  shows "mp_wf n (m\<lparr>block_free_count := block_free_count m + 1,
      mp_links := (mp_links m)(i := Free_link (mp_block_list m)), mp_block_list := Some i\<rparr>) (i # fs) (A - {i})"
proof -
  note d = mp_wfD [OF wf]
  have notin: "i \<notin> set fs" using d(7) i by auto
  have "finite A" using d(5) by (metis finite_Un finite_lessThan)
  then have "0 < card A" using i by (auto simp: card_gt_0_iff)
  then have "unat (block_free_count m) + 1 < 2 ^ 32"
    using d(8) unsigned_less [where w = "block_total_count m" and ?'a = nat] by simp
  then have "unat (block_free_count m + 1) = Suc (length fs)" using d(6) by (simp add: unat_word_ariths)
  then show ?thesis
    using d(1-5) i notin unfolding mp_wf_def mp_next_upd by (auto simp: insert_absorb)
qed

text \<open>The list that the initialisation builds.\<close>

lemma mp_link_fold:
  "fold (\<lambda>i L. L(i := Free_link (Some (Suc i)))) [0..<n] links =
   (\<lambda>i. if i < n then Free_link (Some (Suc i)) else links i)"
  by (induction n) (auto simp: fun_eq_iff)

lemma chain_upto:
  assumes "\<And>i. a \<le> i \<Longrightarrow> i < a + n \<Longrightarrow> nx i = Some (Suc i)" "nx (a + n) = None"
  shows "chain nx (Some a) [a..<Suc (a + n)]"
  using assms
proof (induction n arbitrary: a)
  case 0
  then show ?case by simp
next
  case (Suc n)
  have "chain nx (Some (Suc a)) [Suc a..<Suc (Suc a + n)]"
    by (rule Suc.IH) (use Suc.prems in auto)
  then show ?case using Suc.prems(1) [of a] by (simp add: upt_conv_Cons del: upt_Suc)
qed

lemma mp_wf_init:
  assumes "mp_link_blocks cnt links = Some links'"
  shows "mp_wf n (m\<lparr>block_total_count := cnt, block_free_count := cnt, mp_links := links',
    mp_block_list := Some 0\<rparr>) [0..<unat cnt] {}"
proof -
  have cnt: "0 < unat cnt" and eq: "links' = (\<lambda>i. if i < unat cnt then Free_link (Some (Suc i)) else links i)
      (unat cnt - 1 := Free_link None)"
    using assms unfolding mp_link_blocks_def mp_link_fold
    by (simp_all add: Let_def unat_gt_0 split: if_splits)
  have links': "links' = (\<lambda>i. if i < unat cnt
      then Free_link (if Suc i < unat cnt then Some (Suc i) else None) else links i)"
  proof
    fix i
    consider "Suc i < unat cnt" | "i = unat cnt - 1" | "unat cnt \<le> i" by linarith
    then show "links' i = (if i < unat cnt
        then Free_link (if Suc i < unat cnt then Some (Suc i) else None) else links i)"
      using cnt by cases (auto simp: eq)
  qed
  let ?m = "m\<lparr>block_total_count := cnt, block_free_count := cnt, mp_links := links', mp_block_list := Some 0\<rparr>"
  have "chain (mp_next ?m) (Some 0) [0..<Suc (0 + (unat cnt - 1))]"
    using cnt by (intro chain_upto) (auto simp: mp_next_def links')
  then show ?thesis using cnt by (auto simp: mp_wf_def links' lessThan_atLeast0)
qed

section \<open>Allocations over time\<close>

text \<open>A step of the pool \<open>n\<close>: the set is that of the blocks the clients hold. They free only what they
  hold and leave the first word of a block alone.\<close>

fun held :: "nat option outcome \<Rightarrow> nat set \<Rightarrow> nat set" where
  "held (Return (Some i)) A = insert i A"
| "held _ A = A"

inductive mp_step :: "nat \<Rightarrow> kernel \<times> nat set \<Rightarrow> kernel \<times> nat set \<Rightarrow> bool" for n where
  mp_alloc: "rt_mp_alloc n time k = Some (r, k') \<Longrightarrow> mp_step n (k, A) (k', held r A)"
| mp_alloc_resume: "rt_mp_alloc_resume n t time b k = Some (r, k') \<Longrightarrow> mp_step n (k, A) (k', held r A)"
| mp_free: "i \<in> A \<Longrightarrow> rt_mp_free (Some (n, i)) k = Some k' \<Longrightarrow> mp_step n (k, A) (k', A - {i})"
| mp_other: "mempools k' n = mempools k n \<Longrightarrow> mp_step n (k, A) (k', A)"

inductive_cases mp_stepE: "mp_step n kA kA'"

definition mp_inv :: "nat \<Rightarrow> 32 word \<Rightarrow> kernel \<Rightarrow> nat set \<Rightarrow> bool" where
  "mp_inv n cnt k A \<longleftrightarrow> (\<exists>fs. mp_wf n (mempools k n) fs A) \<and> block_total_count (mempools k n) = cnt"

lemma upd_mp_sel [simp]:
  "mempools (upd_mp n f k) = (mempools k)(n := f (mempools k n))" "tlists (upd_mp n f k) = tlists k"
  "threads (upd_mp n f k) = threads k" "rt_current_thread (upd_mp n f k) = rt_current_thread k"
  "objects (upd_mp n f k) = objects k" "rt_interrupt_nest (upd_mp n f k) = rt_interrupt_nest k"
  "rt_thread_ready_priority_group (upd_mp n f k) = rt_thread_ready_priority_group k"
  by (simp_all add: upd_mp_def)

lemma mp_take_eq:
  assumes "mp_wf n (mempools k n) (i # fs) A"
  shows "mp_take n k = Some (i, upd_mp n (\<lambda>m. m\<lparr>block_free_count := block_free_count m - 1,
    mp_links := (mp_links m)(i := Owner_link n), mp_block_list := mp_next m i\<rparr>) k)"
  using mp_wf_take(1,2) [OF assms] by (auto simp: mp_take_def Let_def mp_next_def upd_mp_def)

lemma mp_block_mempools:
  assumes "mp_block n t time k = Some k'"
  shows "mempools k' = mempools k"
proof -
  from assms obtain e k1 k3 where k1: "rt_thread_suspend t k = Some (e, k1)"
    and k3: "ipc_arm_timer t time (upd_tlists (push_front (Suspend (Mempool n)) t) k1) = Some k3"
    and k': "rt_schedule k3 = Some k'"
    by (auto simp: mp_block_def bind_eq_Some_conv)
  have "mempools k1 = mempools k"
    using k1 by (auto simp: rt_thread_suspend_def Let_def bind_eq_Some_conv split: if_splits
        dest!: rt_timer_stop_same same_but_timers_sel(13))
  moreover have "mempools k3 = mempools k1"
    using k3 by (auto simp: ipc_arm_timer_def bind_eq_Some_conv split: if_splits
        dest!: rt_timer_control_same same_but_timers_sel(13) rt_timer_start_frame(1) kframe_sel(6))
  moreover have "mempools k' = mempools k3" using same_but_sched_sel(13) [OF rt_schedule_same [OF k']] .
  ultimately show ?thesis by simp
qed

lemma mp_attempt_inv:
  assumes at: "mp_alloc_attempt th n time k = Some (r, k')" and inv: "mp_inv n cnt k A"
  shows "mp_inv n cnt k' (held r A)" "r = Return (Some i) \<Longrightarrow> i \<notin> A \<and> i < unat cnt"
proof -
  obtain fs where wf: "mp_wf n (mempools k n) fs A" and tot: "block_total_count (mempools k n) = cnt"
    using inv by (auto simp: mp_inv_def)
  show "mp_inv n cnt k' (held r A)" "r = Return (Some i) \<Longrightarrow> i \<notin> A \<and> i < unat cnt"
  proof -
    consider (none) "r = Return None" "k' = rt_set_errno (- RT_ETIMEOUT) k"
      | (wait) t where "r = Block" "mp_block n t time (upd_thread t (\<lambda>r. r\<lparr>thread_error := RT_EOK\<rparr>) k) = Some k'"
      | (take) i where "block_free_count (mempools k n) \<noteq> 0" "r = Return (Some i)" "mp_take n k = Some (i, k')"
      using at by (auto simp: mp_alloc_attempt_def bind_eq_Some_conv split: if_splits)
    then have "mp_inv n cnt k' (held r A) \<and> (\<forall>i. r = Return (Some i) \<longrightarrow> i \<notin> A \<and> i < unat cnt)"
    proof cases
      case wait
      then show ?thesis using inv mp_block_mempools [OF wait(2)] by (simp add: mp_inv_def upd_thread_def)
    next
      case (take i)
      have "unat (block_free_count (mempools k n)) \<noteq> 0" using take(1) by (simp add: unat_eq_0)
      then obtain j fs' where fs: "fs = j # fs'" using mp_wfD(6) [OF wf] by (cases fs) auto
      have "j = i" using take(3) mp_take_eq [of n k j fs'] wf fs by simp
      then show ?thesis
        using take mp_take_eq [of n k i fs'] mp_wf_take [of n "mempools k n" i fs' A] wf fs tot
        by (auto simp: mp_inv_def)
    qed (use inv in \<open>simp add: mp_inv_def\<close>)
    then show "mp_inv n cnt k' (held r A)" "r = Return (Some i) \<Longrightarrow> i \<notin> A \<and> i < unat cnt" by auto
  qed
qed

lemma mp_free_inv:
  assumes fr: "rt_mp_free (Some (n, i)) k = Some k'" and inv: "mp_inv n cnt k A" and i: "i \<in> A"
  shows "mp_inv n cnt k' (A - {i})"
proof -
  let ?k1 = "upd_mp n (\<lambda>m. m\<lparr>block_free_count := block_free_count m + 1,
    mp_links := (mp_links m)(i := Free_link (mp_block_list m)), mp_block_list := Some i\<rparr>) k"
  have "mp_inv n cnt ?k1 (A - {i})" using inv mp_wf_give [OF _ i] by (auto simp: mp_inv_def)
  moreover have "mempools k' = mempools ?k1"
  proof (cases "tlists k (Suspend (Mempool n))")
    case Nil
    then show ?thesis using fr by (simp add: rt_mp_free_def Let_def)
  next
    case (Cons t ts)
    then obtain e k3 where k3: "rt_thread_resume t (upd_thread t (\<lambda>r. r\<lparr>thread_error := RT_EOK\<rparr>) ?k1) = Some (e, k3)"
      and k': "rt_schedule k3 = Some k'"
      using fr by (auto simp: rt_mp_free_def Let_def bind_eq_Some_conv)
    have "mempools k' = mempools k3" using same_but_sched_sel(13) [OF rt_schedule_same [OF k']] .
    then show ?thesis using kframe_sel(6) [OF rt_thread_resume_frame(1) [OF k3]] by simp
  qed
  ultimately show ?thesis by (simp add: mp_inv_def)
qed

lemma mp_step_inv:
  assumes "mp_step n (k, A) (k', A')" "mp_inv n cnt k A" shows "mp_inv n cnt k' A'"
  using assms(1)
proof (cases rule: mp_step.cases)
  case (mp_alloc time r)
  then show ?thesis using mp_attempt_inv(1) [OF _ assms(2)] by (simp add: rt_mp_alloc_def)
next
  case (mp_alloc_resume t time b r)
  then show ?thesis
    using mp_attempt_inv(1) [OF _ assms(2)] assms(2)
    by (auto simp: rt_mp_alloc_resume_def split: if_splits)
next
  case (mp_free i)
  then show ?thesis using mp_free_inv [OF _ assms(2)] by simp
next
  case mp_other
  then show ?thesis using assms(2) by (simp add: mp_inv_def)
qed

lemma mp_reach_inv:
  "(mp_step n)\<^sup>*\<^sup>* kA kA' \<Longrightarrow> mp_inv n cnt (fst kA) (snd kA) \<Longrightarrow> mp_inv n cnt (fst kA') (snd kA')"
proof (induction rule: rtranclp_induct)
  case (step x y)
  then show ?case using mp_step_inv [of n "fst x" "snd x" "fst y" "snd y"] by simp
qed

section \<open>Blocking and waking return\<close>

lemma mp_suspend_ready:
  assumes rdy: "kready k" and run: "running c k" and h: "h = Suspend r"
  obtains e k1 where "rt_thread_suspend c k = Some (e, k1)"
    "kready (upd_tlists (push_front h c) k1)" "kframe k (upd_tlists (push_front h c) k1)"
    "rt_current_thread k1 = Some c" "tstat k1 c = RT_THREAD_SUSPEND" "tlists k1 = tlists k"
    "\<And>q. rt_object_get_type q k1 = rt_object_get_type q k"
proof -
  have st: "tstat k c = RT_THREAD_RUNNING" "rt_current_thread k = Some c" using run by (auto simp: running_def)
  have inv: "sched_inv k" and hard: "thread_timers_hard k" and lok: "live_ok k" using rdy by (auto simp: kready_def)
  have "resumable k c" using lok st by (simp add: live_ok_def live_def)
  then obtain e k1 where k1: "rt_thread_suspend c k = Some (e, k1)"
    using rt_thread_suspend_defined [OF st] by blast
  note s = rt_thread_suspend_current [OF k1 st(1)]
  have ty: "rt_object_get_type q k1 = rt_object_get_type q k" for q
    using k1 by (auto simp: rt_thread_suspend_def Let_def bind_eq_Some_conv rt_object_get_type_def
        split: if_splits dest!: rt_timer_stop_types [where r = q, unfolded rt_object_get_type_def])
  have free: "\<not> linked c (tlists k)" using unlinked_state [OF inv, of c] st by simp
  have lists: "tlists k1 = tlists k" using s(4) free by (simp add: unlink_unlinked)
  have inv1: "sched_inv k1" using sched_inv_suspend [OF k1 inv] .
  let ?k2 = "upd_tlists (push_front h c) k1"
  have "sched_inv_except {} ?k2"
  proof (rule sched_inv_link [OF sched_invD [OF inv1]])
    show "wf_queues (push_front h c (tlists k1))"
      using sched_inv_exceptD(1) [OF sched_invD [OF inv1]] free lists by (intro wf_push_front) simp_all
    show "push_front h c (tlists k1) (Ready p) = tlists k1 (Ready p)" for p by (simp add: push_front_def h)
    show "at_home (threads k1 u) h'"
      if "u \<in> set (push_front h c (tlists k1) h')" "u \<notin> set (tlists k1 h')" for h' u
      using that s(3) h by (auto simp: push_front_def at_home_def split: if_splits)
  qed
  moreover have fr: "kframe k ?k2" by (rule kframe_trans [OF s(6) kframe_tlists])
  moreover have "live_ok ?k2"
  proof (rule live_ok_mono [OF lok fr])
    show "live k u" if "live ?k2 u" for u
      using that s(7) [of u] st by (cases "u = c") (auto simp: live_def)
  qed (use ty in \<open>simp add: rt_object_get_type_def\<close>)
  moreover have "thread_timers_hard ?k2"
    using hard rt_thread_suspend_flag [OF k1] by (simp add: thread_timers_hard_def)
  ultimately have "kready ?k2" by (simp add: kready_def sched_inv_def)
  then show thesis using that [OF k1 _ fr s(5,3) lists ty] by blast
qed

lemma mp_block_total:
  assumes rdy: "kready k" and run: "running c k" and time: "time_ok time"
  obtains k' d where "mp_block n c time k = Some k'" "kready k'" "rt_current_thread k' = Some d"
    "tstat k' c = RT_THREAD_SUSPEND" "mempools k' = mempools k"
    "tlists k' (Suspend (Mempool n)) = c # tlists k (Suspend (Mempool n))"
proof -
  let ?h = "Suspend (Mempool n)"
  obtain e k1 where k1: "rt_thread_suspend c k = Some (e, k1)" "kready (upd_tlists (push_front ?h c) k1)"
    "rt_current_thread k1 = Some c" "tstat k1 c = RT_THREAD_SUSPEND" "tlists k1 = tlists k"
    using mp_suspend_ready [OF rdy run refl] by metis
  let ?k2 = "upd_tlists (push_front ?h c) k1"
  have st2: "tstat ?k2 c = RT_THREAD_SUSPEND" using k1(4) by simp
  then have "resumable ?k2 c" using k1(2) by (auto simp: kready_def live_ok_def live_def)
  then have ty: "rt_object_get_type (Obj_timer (Thread_timer c)) ?k2 = RT_Object_Class_Timer"
    by (simp add: resumable_def)
  have fl: "timer_flag ?k2 (Thread_timer c) AND 4 = 0" using k1(2) by (simp add: kready_def thread_timers_hard_def)
  obtain k3 where k3: "ipc_arm_timer c time ?k2 = Some k3"
    using ipc_arm_timer_defined [OF ty time [unfolded time_ok_def] fl] by blast
  note same = ipc_arm_timer_same [OF k3 fl]
  note sel = same_but_timers_sel [OF same]
  have rdy3: "kready k3"
    using k1(2) sched_inv_same_timers [OF same, of "{}"] ipc_arm_timer_flag [OF k3 fl] ipc_arm_timer_types [OF k3 fl]
    by (simp add: kready_def sched_inv_def thread_timers_hard_def live_ok_def live_def resumable_def sel(1))
  then have inv3: "sched_inv k3" "live_ok k3" by (simp_all add: kready_def)
  have cur3: "rt_current_thread k3 = Some c" using sel(3) k1(3) by simp
  obtain k4 where k4: "rt_schedule k3 = Some k4" using rt_schedule_returns [OF inv3(1) cur3 inv3(2)] by blast
  obtain d where d: "rt_current_thread k4 = Some d" using sched_inv_rt_schedule(2) [OF inv3(1) cur3 k4] by blast
  have bl: "mp_block n c time k = Some k4" using k1(1) k3 k4 by (simp add: mp_block_def)
  have "tstat k4 c = RT_THREAD_SUSPEND" using rt_schedule_states [OF inv3(1) cur3 k4, of c] st2 sel(1) by simp
  moreover have "tlists k4 ?h = c # tlists k ?h"
    using rt_schedule_wait_lists [OF inv3(1) cur3 k4, of ?h] sel(2) k1(5) by (simp add: push_front_def)
  ultimately show thesis
    using that [OF bl kready_schedule [OF k4 rdy3 cur3] d] mp_block_mempools [OF bl] by blast
qed

lemma kready_upd_mp [simp]: "kready (upd_mp n f k) = kready k"
proof -
  have "sched_inv_except {} (upd_mp n f k) = sched_inv_except {} k" by (rule sched_inv_except_cong) simp_all
  moreover have "live_ok (upd_mp n f k) = live_ok k" by (rule live_ok_cong) simp_all
  ultimately show ?thesis by (simp add: kready_def sched_inv_def thread_timers_hard_def)
qed

text \<open>Freeing a block that is allocated returns, and the thread that waits in front is runnable.\<close>

lemma rt_mp_free_total:
  assumes rdy: "kready k" and cur: "rt_current_thread k = Some c" and inv: "mp_inv n cnt k A" and i: "i \<in> A"
  shows "\<exists>k'. rt_mp_free (Some (n, i)) k = Some k' \<and> kready k' \<and> mp_inv n cnt k' (A - {i}) \<and>
    (\<forall>t ts. tlists k (Suspend (Mempool n)) = t # ts \<longrightarrow>
       tstat k' t \<in> {RT_THREAD_READY, RT_THREAD_RUNNING} \<and> thread_error (threads k' t) = RT_EOK \<and>
       tlists k' (Suspend (Mempool n)) = ts)"
proof -
  let ?h = "Suspend (Mempool n)"
  define k1 where "k1 = upd_mp n (\<lambda>m. m\<lparr>block_free_count := block_free_count m + 1,
    mp_links := (mp_links m)(i := Free_link (mp_block_list m)), mp_block_list := Some i\<rparr>) k"
  have own: "mp_links (mempools k n) i = Owner_link n" using inv i by (auto simp: mp_inv_def mp_wf_def)
  have k1: "kready k1" "tlists k1 = tlists k" "rt_current_thread k1 = Some c" using rdy cur by (simp_all add: k1_def)
  show ?thesis
  proof (cases "tlists k ?h")
    case Nil
    then have "rt_mp_free (Some (n, i)) k = Some k1" using own by (simp add: rt_mp_free_def k1_def)
    then show ?thesis using k1(1) mp_free_inv [OF _ inv i] Nil by auto
  next
    case (Cons t ts)
    let ?k2 = "upd_thread t (\<lambda>r. r\<lparr>thread_error := RT_EOK\<rparr>) k1"
    have rdy2: "kready ?k2" using k1(1) by simp
    have l2: "tlists ?k2 ?h = t # ts" using Cons k1(2) by simp
    have inv2: "sched_inv ?k2" using rdy2 by (simp add: kready_def)
    have sus: "tstat ?k2 t = RT_THREAD_SUSPEND" using waiter_suspended [OF inv2, of t ?h "Mempool n"] l2 by simp
    then have "resumable ?k2 t" using rdy2 by (auto simp: kready_def live_ok_def live_def)
    then obtain e k3 where k3: "rt_thread_resume t ?k2 = Some (e, k3)" using rt_thread_resume_defined by blast
    note w = rt_thread_resume_wakes [OF k3 sus] and fr = rt_thread_resume_frame [OF k3]
    have rdy3: "kready k3" by (rule kready_resume [OF k3 rdy2])
    then have inv3: "sched_inv k3" "live_ok k3" by (simp_all add: kready_def)
    have cur3: "rt_current_thread k3 = Some c" using fr(2) k1(3) by simp
    obtain k4 where k4: "rt_schedule k3 = Some k4" using rt_schedule_returns [OF inv3(1) cur3 inv3(2)] by blast
    have free: "rt_mp_free (Some (n, i)) k = Some k4"
      using own Cons k3 k4 by (simp add: rt_mp_free_def k1_def)
    have "tlists k4 ?h = ts"
      using rt_schedule_wait_lists [OF inv3(1) cur3 k4, of ?h] w(3) [of ?h]
        unlink_head [OF sched_inv_exceptD(1) [OF sched_invD [OF inv2]] l2, of ?h] by simp
    moreover have "tstat k4 t \<in> {RT_THREAD_READY, RT_THREAD_RUNNING}"
      using rt_schedule_keeps_runnable [OF inv3(1) cur3 k4, of t] w(2) by auto
    moreover have "thread_error (threads k4 t) = RT_EOK"
      using same_but_sched_sel(15) [OF rt_schedule_same [OF k4], of t] kframe_thread(1) [OF fr(1), of t] by simp
    ultimately show ?thesis
      using free kready_schedule [OF k4 rdy3 cur3] mp_free_inv [OF free inv i] Cons by auto
  qed
qed

section \<open>Initialisation\<close>

lemma rt_mp_init_spec:
  assumes "rt_mp_init n nm start sz bs k = Some (e, k')"
  shows "e = RT_EOK" "mp_inv n (RT_ALIGN_DOWN sz 4 div (RT_ALIGN bs 4 + 4)) k' {}"
    "RT_ALIGN_DOWN sz 4 div (RT_ALIGN bs 4 + 4) \<noteq> 0" "mp_block_size (mempools k' n) = RT_ALIGN bs 4"
proof -
  let ?cnt = "RT_ALIGN_DOWN sz 4 div (RT_ALIGN bs 4 + 4)"
  from assms obtain k1 links where e: "e = RT_EOK"
    and l: "mp_link_blocks ?cnt (mp_links (mempools k1 n)) = Some links"
    and k': "k' = upd_mp n (\<lambda>m. m\<lparr>mp_links := links, mp_block_list := Some 0\<rparr>) (ipc_object_init (Mempool n)
      (upd_mp n (\<lambda>m. m\<lparr>mp_start_address := start, mp_pool_size := RT_ALIGN_DOWN sz 4,
        mp_block_size := RT_ALIGN bs 4, block_total_count := ?cnt, block_free_count := ?cnt\<rparr>) k1))"
    by (auto simp: rt_mp_init_def Let_def bind_eq_Some_conv ipc_object_init_def)
  have m: "mempools k' n = (mempools k1 n)\<lparr>mp_start_address := start, mp_pool_size := RT_ALIGN_DOWN sz 4,
      mp_block_size := RT_ALIGN bs 4, block_total_count := ?cnt, block_free_count := ?cnt,
      mp_links := links, mp_block_list := Some 0\<rparr>"
    by (simp add: k' ipc_object_init_def)
  show "e = RT_EOK" by (fact e)
  show "?cnt \<noteq> 0" using l by (auto simp: mp_link_blocks_def)
  show "mp_inv n ?cnt k' {}"
    using mp_wf_init [OF l, of n "(mempools k1 n)\<lparr>mp_start_address := start,
      mp_pool_size := RT_ALIGN_DOWN sz 4, mp_block_size := RT_ALIGN bs 4\<rparr>"] m
    by (auto simp: mp_inv_def)
  show "mp_block_size (mempools k' n) = RT_ALIGN bs 4" by (simp add: m)
qed

lemma RT_ALIGN_DOWN_le: "unat (RT_ALIGN_DOWN (x :: 32 word) 4) \<le> unat x"
  unfolding RT_ALIGN_DOWN_def by (metis word_and_le2 word_le_nat_alt)

lemma pool_block_size:
  fixes bs :: "32 word"
  assumes "unat bs < 0xFFFFFFF8"
  shows "unat bs \<le> unat (RT_ALIGN bs 4)" "unat (RT_ALIGN bs 4 + 4) = unat (RT_ALIGN bs 4) + 4"
proof -
  have al: "unat (RT_ALIGN bs 4) = (unat bs + 3) div 4 * 4" using assms by (intro RT_ALIGN_4_word) simp
  have "x \<le> (x + 3) div 4 * 4" "(x + 3) div 4 * 4 \<le> x + 3" for x :: nat by presburger+
  from this [of "unat bs"] show "unat bs \<le> unat (RT_ALIGN bs 4)" unfolding al by simp
  have "unat (RT_ALIGN bs 4) \<le> unat bs + 3" unfolding al by presburger
  then have "unat (RT_ALIGN bs 4) + 4 < 2 ^ 32" using assms by simp
  then show "unat (RT_ALIGN bs 4 + 4) = unat (RT_ALIGN bs 4) + 4" by (simp add: unat_word_ariths)
qed

section \<open>Properties\<close>

text \<open>C12: A memory pool never hands out a block twice. After its initialisation and any sequence of
  allocations (waiting ones included), frees of held blocks and activities elsewhere, the blocks the
  clients hold and the free blocks add up to the number of blocks, and a further allocation that
  succeeds returns a block of the pool that nobody holds.\<close>

theorem mp_exclusive:
  assumes "rt_mp_init n nm start sz bs k0 = Some (e, k1)" and "(mp_step n)\<^sup>*\<^sup>* (k1, {}) (k, A)"
  shows "card A + unat (block_free_count (mempools k n)) = unat (block_total_count (mempools k n)) \<and>
    block_total_count (mempools k n) = RT_ALIGN_DOWN sz 4 div (RT_ALIGN bs 4 + 4) \<and>
    (\<forall>time i k'. rt_mp_alloc n time k = Some (Return (Some i), k') \<longrightarrow>
       i \<notin> A \<and> i < unat (block_total_count (mempools k n)))"
proof -
  let ?cnt = "RT_ALIGN_DOWN sz 4 div (RT_ALIGN bs 4 + 4)"
  have inv: "mp_inv n ?cnt k A"
    using mp_reach_inv [OF assms(2)] rt_mp_init_spec(2) [OF assms(1)] by simp
  then obtain fs where "mp_wf n (mempools k n) fs A" and tot: "block_total_count (mempools k n) = ?cnt"
    by (auto simp: mp_inv_def)
  then show ?thesis
    using mp_wfD(8) mp_attempt_inv(2) [OF _ inv] by (auto simp: rt_mp_alloc_def)
qed

text \<open>The blocks of a pool fit into the memory given to \<^verbatim>\<open>rt_mp_init\<close>: each has at least the size that
  was asked for, and with its link word all of them together take no more than the size of the
  pool. All blocks are free.\<close>

theorem rt_mp_init_bounds:
  assumes "rt_mp_init n nm start sz bs k = Some (e, k')" and "unat bs < 0xFFFFFFF8"
  shows "e = RT_EOK \<and> unat bs \<le> unat (mp_block_size (mempools k' n)) \<and>
    0 < unat (block_total_count (mempools k' n)) \<and>
    unat (block_total_count (mempools k' n)) * (unat (mp_block_size (mempools k' n)) + 4) \<le> unat sz \<and>
    block_free_count (mempools k' n) = block_total_count (mempools k' n)"
proof -
  note s = rt_mp_init_spec [OF assms(1)] and b = pool_block_size [OF assms(2)]
  obtain fs where wf: "mp_wf n (mempools k' n) fs {}"
    and tot: "block_total_count (mempools k' n) = RT_ALIGN_DOWN sz 4 div (RT_ALIGN bs 4 + 4)"
    using s(2) by (auto simp: mp_inv_def)
  have "unat (RT_ALIGN_DOWN sz 4 div (RT_ALIGN bs 4 + 4)) * (unat (RT_ALIGN bs 4) + 4) \<le> unat (RT_ALIGN_DOWN sz 4)"
    using b(2) by (simp add: unat_div div_times_less_eq_dividend)
  also have "\<dots> \<le> unat sz" by (rule RT_ALIGN_DOWN_le)
  finally have fits: "unat (block_total_count (mempools k' n)) * (unat (mp_block_size (mempools k' n)) + 4) \<le> unat sz"
    unfolding tot s(4) .
  have "0 < unat (block_total_count (mempools k' n))" using s(3) unfolding tot by (rule unat_gt_0 [THEN iffD2])
  moreover have "block_free_count (mempools k' n) = block_total_count (mempools k' n)"
    using mp_wfD(8) [OF wf] by (simp add: word_unat_eq_iff)
  ultimately show ?thesis using s(1,4) b(1) fits by simp
qed

text \<open>A pool of two blocks of 16 bytes.\<close>

definition pool_demo :: kernel where
  "pool_demo = upd_mp 0 (\<lambda>m. m\<lparr>mp_block_size := 16, block_total_count := 2, block_free_count := 2,
     mp_links := (\<lambda>i. if i = 0 then Free_link (Some 1) else Free_link None), mp_block_list := Some 0\<rparr>) three_threads"

lemma pool_demo_state: "kready pool_demo" "mp_inv 0 2 pool_demo {}" "thread_context 2 pool_demo"
proof -
  show "kready pool_demo" by (simp add: pool_demo_def kready_three_threads)
  have "mp_wf 0 (mempools pool_demo 0) [0, 1] {}"
    by (auto simp: mp_wf_def pool_demo_def mp_next_def)
  then show "mp_inv 0 2 pool_demo {}" by (auto simp: mp_inv_def pool_demo_def)
  show "thread_context 2 pool_demo"
    by (simp add: thread_context_def pool_demo_def running_def rt_critical_level_def upd_mp_def)
qed

lemma demo_mp_init:
  "\<exists>k1. rt_mp_init 0 ''pool'' 0x1000 100 10 zero_kernel = Some (RT_EOK, k1)"
proof -
  obtain k1 where "rt_object_init (Obj_ipc (Mempool 0)) 8 ''pool'' zero_kernel = Some k1"
    by (simp add: rt_object_init_def rt_object_get_information_def object_container_def Let_def
        rt_enter_critical_def rt_exit_critical_def)
  then show ?thesis
    by (simp add: rt_mp_init_def RT_ALIGN_def RT_ALIGN_DOWN_def mp_link_blocks_def Let_def)
qed

theorem rt_mp_init_bounds_witness:
  "\<exists>e k'. rt_mp_init 0 ''pool'' 0x1000 100 10 zero_kernel = Some (e, k') \<and>
     10 \<le> unat (mp_block_size (mempools k' 0)) \<and>
     unat (block_total_count (mempools k' 0)) * (unat (mp_block_size (mempools k' 0)) + 4) \<le> 100"
proof -
  obtain k1 where k1: "rt_mp_init 0 ''pool'' 0x1000 100 10 zero_kernel = Some (RT_EOK, k1)"
    using demo_mp_init by blast
  from rt_mp_init_bounds [OF k1] k1 show ?thesis by (intro exI [of _ RT_EOK] exI [of _ k1]) simp
qed

theorem mp_exclusive_witness:
  "\<exists>k1 k2 i j k3. rt_mp_init 0 ''pool'' 0x1000 100 10 zero_kernel = Some (RT_EOK, k1) \<and>
     rt_mp_alloc 0 0 k1 = Some (Return (Some i), k2) \<and>
     rt_mp_alloc 0 0 k2 = Some (Return (Some j), k3) \<and> i \<noteq> j"
proof -
  obtain k1 where k1: "rt_mp_init 0 ''pool'' 0x1000 100 10 zero_kernel = Some (RT_EOK, k1)"
    using demo_mp_init by blast
  note s = rt_mp_init_spec [OF k1]
  have cnt: "RT_ALIGN_DOWN 100 4 div (RT_ALIGN 10 4 + 4) = (6 :: 32 word)"
    by (simp add: RT_ALIGN_def RT_ALIGN_DOWN_def)
  have take: "\<exists>i k'. rt_mp_alloc 0 0 k = Some (Return (Some i), k') \<and> mp_inv 0 6 k' (insert i A)"
    if inv: "mp_inv 0 6 k A" and A: "card A < 6" for k A
  proof -
    obtain fs where wf: "mp_wf 0 (mempools k 0) fs A" "block_total_count (mempools k 0) = 6"
      using inv by (auto simp: mp_inv_def)
    have ne: "unat (block_free_count (mempools k 0)) \<noteq> 0" using mp_wfD(8) [OF wf(1)] wf(2) A by simp
    then obtain i fs' where "fs = i # fs'" using mp_wfD(6) [OF wf(1)] by (cases fs) auto
    then have "\<exists>k'. rt_mp_alloc 0 0 k = Some (Return (Some i), k')"
      using mp_take_eq [of 0 k i fs' A] wf ne by (auto simp: rt_mp_alloc_def mp_alloc_attempt_def unat_eq_0)
    then show ?thesis using mp_attempt_inv(1) [OF _ inv] by (fastforce simp: rt_mp_alloc_def)
  qed
  obtain i k2 where k2: "rt_mp_alloc 0 0 k1 = Some (Return (Some i), k2)" "mp_inv 0 6 k2 {i}"
    using take [of k1 "{}"] s(2) cnt by auto
  obtain j k3 where k3: "rt_mp_alloc 0 0 k2 = Some (Return (Some j), k3)" using take [OF k2(2)] by auto
  have "(mp_step 0)\<^sup>*\<^sup>* (k1, {}) (k2, {i})" using mp_step.mp_alloc [OF k2(1), of "{}"] by auto
  from mp_exclusive [OF k1 this] k3 have "j \<noteq> i" by auto
  then show ?thesis using k1 k2(1) k3 by metis
qed

text \<open>Every outcome of \<^verbatim>\<open>rt_mp_alloc\<close>, called by a running thread: a free block; or, without a free
  block, \<^verbatim>\<open>RT_NULL\<close> with \<^verbatim>\<open>errno\<close> \<^verbatim>\<open>-RT_ETIMEOUT\<close> if the caller does not want to wait, and otherwise a
  suspended caller, in front of the threads that already wait. The call returns in every case.\<close>

theorem rt_mp_alloc_result:
  assumes "kready k" and "thread_context c k" and "mp_inv n cnt k A" and "time_ok time"
  shows "\<exists>r k'. rt_mp_alloc n time k = Some (r, k') \<and> mp_inv n cnt k' (held r A) \<and>
    (if block_free_count (mempools k n) \<noteq> 0 then
       \<exists>i. r = Return (Some i) \<and> i \<notin> A \<and> i < unat cnt \<and>
         block_free_count (mempools k' n) = block_free_count (mempools k n) - 1
     else if time = 0 then r = Return None \<and> rt_get_errno k' = - RT_ETIMEOUT
     else r = Block \<and> tstat k' c = RT_THREAD_SUSPEND \<and>
       tlists k' (Suspend (Mempool n)) = c # tlists k (Suspend (Mempool n)))"
proof -
  have run: "running c k" "rt_thread_self k = Some c" "rt_interrupt_nest k = 0"
    using assms(2) by (auto simp: thread_context_def running_def rt_thread_self_def)
  obtain fs where wf: "mp_wf n (mempools k n) fs A" using assms(3) by (auto simp: mp_inv_def)
  consider (take) i fs' where "block_free_count (mempools k n) \<noteq> 0" "fs = i # fs'"
    | (none) "block_free_count (mempools k n) = 0" "time = 0"
    | (wait) "block_free_count (mempools k n) = 0" "time \<noteq> 0"
    using mp_wfD(6) [OF wf] by (cases fs) (auto simp: unat_eq_0)
  then show ?thesis
  proof cases
    case take
    note t = mp_take_eq [of n k i fs' A]
    have "\<exists>k'. rt_mp_alloc n time k = Some (Return (Some i), k') \<and>
        block_free_count (mempools k' n) = block_free_count (mempools k n) - 1"
      using t wf take by (simp add: rt_mp_alloc_def mp_alloc_attempt_def)
    then show ?thesis using take mp_attempt_inv [OF _ assms(3)] by (fastforce simp: rt_mp_alloc_def)
  next
    case none
    then have "rt_mp_alloc n time k = Some (Return None, rt_set_errno (- RT_ETIMEOUT) k)"
      by (simp add: rt_mp_alloc_def mp_alloc_attempt_def)
    then show ?thesis using none assms(3) by (simp add: mp_inv_def)
  next
    case wait
    let ?k1 = "upd_thread c (\<lambda>r. r\<lparr>thread_error := RT_EOK\<rparr>) k"
    have k1: "kready ?k1" "running c ?k1" using assms(1) run by (simp_all add: running_def)
    obtain k' d where k': "mp_block n c time ?k1 = Some k'" "tstat k' c = RT_THREAD_SUSPEND"
      "mempools k' = mempools ?k1" "tlists k' (Suspend (Mempool n)) = c # tlists ?k1 (Suspend (Mempool n))"
      using mp_block_total [OF k1 assms(4)] by metis
    have "rt_mp_alloc n time k = Some (Block, k')"
      using wait k'(1) run by (simp add: rt_mp_alloc_def mp_alloc_attempt_def RT_DEBUG_NOT_IN_INTERRUPT_def
          rt_interrupt_get_nest_def)
    then show ?thesis using wait k' assms(3) by (simp add: mp_inv_def upd_thread_def)
  qed
qed

theorem rt_mp_alloc_result_witness:
  "\<exists>k' i. rt_mp_alloc 0 0 pool_demo = Some (Return (Some i), k') \<and> i < 2 \<and>
    block_free_count (mempools k' 0) = 1"
  using rt_mp_alloc_result [OF pool_demo_state(1,3,2), of 0]
  by (auto simp: time_ok_def pool_demo_def)

text \<open>Freeing a held block returns, puts the block back into the pool and wakes the thread in front of
  the wait list, which is the one that waited last; the other waiters stay.\<close>

theorem rt_mp_free_result:
  assumes "kready k" and "rt_current_thread k = Some c" and "mp_inv n cnt k A" and "i \<in> A"
  shows "\<exists>k'. rt_mp_free (Some (n, i)) k = Some k' \<and> kready k' \<and> mp_inv n cnt k' (A - {i}) \<and>
    (\<forall>t ts. tlists k (Suspend (Mempool n)) = t # ts \<longrightarrow>
       tstat k' t \<in> {RT_THREAD_READY, RT_THREAD_RUNNING} \<and> thread_error (threads k' t) = RT_EOK \<and>
       tlists k' (Suspend (Mempool n)) = ts)"
  by (rule rt_mp_free_total [OF assms])

theorem rt_mp_free_result_witness:
  "\<exists>i k1 k2. rt_mp_alloc 0 0 pool_demo = Some (Return (Some i), k1) \<and>
     rt_mp_free (Some (0, i)) k1 = Some k2 \<and> mp_inv 0 2 k2 {}"
proof -
  let ?k1 = "upd_mp 0 (\<lambda>m. m\<lparr>block_free_count := block_free_count m - 1,
    mp_links := (mp_links m)(0 := Owner_link 0), mp_block_list := mp_next m 0\<rparr>) pool_demo"
  have "mp_wf 0 (mempools pool_demo 0) [0, 1] {}" by (auto simp: mp_wf_def pool_demo_def mp_next_def)
  then have al: "rt_mp_alloc 0 0 pool_demo = Some (Return (Some 0), ?k1)"
    using mp_take_eq [of 0 pool_demo 0 "[1]" "{}"]
    by (simp add: rt_mp_alloc_def mp_alloc_attempt_def, simp add: pool_demo_def)
  then have inv: "mp_inv 0 2 ?k1 {0}" using mp_attempt_inv(1) [OF _ pool_demo_state(2)] by (fastforce simp: rt_mp_alloc_def)
  have "kready ?k1" "rt_current_thread ?k1 = Some 2"
    using pool_demo_state(1) by (simp, simp add: pool_demo_def)
  from rt_mp_free_result [OF this inv, of 0] al show ?thesis by auto
qed

end
