(* ===== verification/Memory.thy ===== *)
theory Memory
  imports Prelude
begin

text \<open>
  The memory of the processor: a byte for each of the \<open>2\<^sup>3\<^sup>2\<close> addresses. A word is four bytes, the lowest
  first (\<^verbatim>\<open>ARCH_ARM_CORTEX_M4\<close> is little endian).
\<close>

type_synonym memory = "32 word \<Rightarrow> 8 word"

definition load32 :: "memory \<Rightarrow> 32 word \<Rightarrow> 32 word" where
  "load32 m a = ucast (m a) OR push_bit 8 (ucast (m (a + 1))) OR push_bit 16 (ucast (m (a + 2)))
                OR push_bit 24 (ucast (m (a + 3)))"

definition store32 :: "32 word \<Rightarrow> 32 word \<Rightarrow> memory \<Rightarrow> memory" where
  "store32 a v m = m(a := ucast v, a + 1 := ucast (drop_bit 8 v), a + 2 := ucast (drop_bit 16 v),
                     a + 3 := ucast (drop_bit 24 v))"

text \<open>\<^verbatim>\<open>rt_memset\<close> and \<^verbatim>\<open>rt_memcpy\<close> of \<open>n\<close> bytes.\<close>

definition in_span :: "32 word \<Rightarrow> nat \<Rightarrow> 32 word \<Rightarrow> bool" where
  "in_span a n x \<longleftrightarrow> unat (x - a) < n"

definition mem_set :: "32 word \<Rightarrow> 8 word \<Rightarrow> nat \<Rightarrow> memory \<Rightarrow> memory" where
  "mem_set a c n m = (\<lambda>x. if in_span a n x then c else m x)"

definition mem_copy :: "32 word \<Rightarrow> 32 word \<Rightarrow> nat \<Rightarrow> memory \<Rightarrow> memory" where
  "mem_copy dst src n m = (\<lambda>x. if in_span dst n x then m (src + (x - dst)) else m x)"

text \<open>The bytes of a block.\<close>

definition read_block :: "memory \<Rightarrow> 32 word \<Rightarrow> nat \<Rightarrow> 8 word list" where
  "read_block m a n = map (\<lambda>i. m (a + of_nat i)) [0..<n]"

lemma length_read_block [simp]: "length (read_block m a n) = n"
  by (simp add: read_block_def)

lemma nth_read_block [simp]: "i < n \<Longrightarrow> read_block m a n ! i = m (a + of_nat i)"
  by (simp add: read_block_def)

section \<open>Separation\<close>

text \<open>Two spans of addresses without a common byte.\<close>

definition apart :: "32 word \<Rightarrow> nat \<Rightarrow> 32 word \<Rightarrow> nat \<Rightarrow> bool" where
  "apart a n b k \<longleftrightarrow> (\<forall>x. in_span a n x \<longrightarrow> \<not> in_span b k x)"

lemma unat_of_nat32: "n < 2 ^ 32 \<Longrightarrow> unat (of_nat n :: 32 word) = n"
  by (simp add: unsigned_of_nat take_bit_nat_eq_self)

lemma in_span_offset:
  assumes "unat h + p + n \<le> 2 ^ 32" "unat h + q < 2 ^ 32"
  shows "in_span (h + of_nat p) n (h + of_nat q) \<longleftrightarrow> p \<le> q \<and> q < p + n"
proof (cases "p \<le> q")
  case True
  then have "h + of_nat q - (h + of_nat p) = (of_nat (q - p) :: 32 word)"
    by (simp add: of_nat_diff)
  moreover have "unat (of_nat (q - p) :: 32 word) = q - p"
    using assms by (intro unat_of_nat32) simp
  ultimately show ?thesis
    using True by (auto simp: in_span_def)
next
  case False
  show ?thesis
  proof (cases "n = 0")
    case n: False
    have d: "0 < p - q" "p - q \<le> p" "p \<le> 2 ^ 32 - n"
      using False assms by simp_all
    have "h + of_nat q - (h + of_nat p) = - (of_nat (p - q) :: 32 word)"
      using False by (simp add: of_nat_diff)
    also have "\<dots> = of_nat (2 ^ 32 - (p - q))"
      using d by (subst of_nat_diff) simp_all
    also have "unat \<dots> = 2 ^ 32 - (p - q)"
      using d by (intro unat_of_nat32) simp
    finally have "unat (h + of_nat q - (h + of_nat p)) = 2 ^ 32 - (p - q)" .
    then show ?thesis
      using False assms by (simp add: in_span_def)
  qed (simp add: in_span_def)
qed

lemma in_span_shift: "in_span (h + p) n (h + q) \<longleftrightarrow> in_span p n q"
  by (simp add: in_span_def)

lemma offset_cases:
  assumes "unat h + k \<le> 2 ^ 32"
  shows "in_span h k x \<longleftrightarrow> (\<exists>q < k. x = h + of_nat q)"
proof
  assume "in_span h k x"
  then show "\<exists>q < k. x = h + of_nat q"
    by (intro exI [of _ "unat (x - h)"]) (simp add: in_span_def)
next
  assume "\<exists>q < k. x = h + of_nat q"
  then show "in_span h k x"
    using assms in_span_offset [of h 0 k] by fastforce
qed

lemma apart_offset:
  assumes "unat h + p + n \<le> 2 ^ 32" "unat h + q + k \<le> 2 ^ 32" "p + n \<le> q \<or> q + k \<le> p"
  shows "apart (h + of_nat p) n (h + of_nat q) k"
  unfolding apart_def
proof (intro allI impI)
  fix x
  assume "in_span (h + of_nat p) n x"
  define r where "r = unat (x - (h + of_nat p))"
  have r: "r < n" "x = h + of_nat (p + r)"
    using \<open>in_span (h + of_nat p) n x\<close> by (simp_all add: r_def in_span_def algebra_simps)
  then show "\<not> in_span (h + of_nat q) k x"
    using assms in_span_offset [of h q k "p + r"] by auto
qed

lemma apart_sym: "apart a n b k \<Longrightarrow> apart b k a n"
  by (auto simp: apart_def)

section \<open>Loads and stores\<close>

lemma span_4: "in_span a 4 a" "in_span a 4 (a + 1)" "in_span a 4 (a + 2)" "in_span a 4 (a + 3)"
  by (simp_all add: in_span_def)

lemma distinct_4 [simp]:
  "(a::32 word) + 1 \<noteq> a" "a + 2 \<noteq> a" "a + 3 \<noteq> a" "a + 2 \<noteq> a + 1" "a + 3 \<noteq> a + 1" "a + 3 \<noteq> a + 2"
  "a \<noteq> a + 1" "a \<noteq> a + 2" "a \<noteq> a + 3" "a + 1 \<noteq> a + 2" "a + 1 \<noteq> a + 3" "a + 2 \<noteq> a + 3"
  by simp_all

lemma load32_store32 [simp]: "load32 (store32 a v m) a = v"
proof -
  have "ucast (ucast v :: 8 word) OR push_bit 8 (ucast (ucast (drop_bit 8 v) :: 8 word)) OR
        push_bit 16 (ucast (ucast (drop_bit 16 v) :: 8 word)) OR
        push_bit 24 (ucast (ucast (drop_bit 24 v) :: 8 word)) = v"
  proof (rule bit_word_eqI)
    fix n
    assume "n < LENGTH(32)"
    then consider "n < 8" | "8 \<le> n" "n < 16" | "16 \<le> n" "n < 24" | "24 \<le> n" "n < 32" by fastforce
    then show "bit ((ucast (ucast v :: 8 word) :: 32 word) OR push_bit 8 (ucast (ucast (drop_bit 8 v) :: 8 word)) OR
        push_bit 16 (ucast (ucast (drop_bit 16 v) :: 8 word)) OR
        push_bit 24 (ucast (ucast (drop_bit 24 v) :: 8 word))) n = bit v n"
      by cases (auto simp: bit_simps)
  qed
  then show ?thesis
    by (simp add: load32_def store32_def)
qed

lemma store32_other: "\<not> in_span a 4 x \<Longrightarrow> store32 a v m x = m x"
  using span_4 [of a] by (auto simp: store32_def)

lemma load32_cong: "(\<And>x. in_span a 4 x \<Longrightarrow> m' x = m x) \<Longrightarrow> load32 m' a = load32 m a"
  by (simp add: load32_def span_4)

lemma mem_set_other: "\<not> in_span a n x \<Longrightarrow> mem_set a c n m x = m x"
  by (simp add: mem_set_def)

lemma mem_copy_other: "\<not> in_span a n x \<Longrightarrow> mem_copy a b n m x = m x"
  by (simp add: mem_copy_def)

lemma load32_apart: "apart a 4 b 4 \<Longrightarrow> load32 (store32 b v m) a = load32 m a"
  by (rule load32_cong) (auto simp: apart_def store32_other)

lemma in_span_4: "in_span a 4 x \<longleftrightarrow> x = a \<or> x = a + 1 \<or> x = a + 2 \<or> x = a + 3"
proof -
  have "unat y < 4 \<longleftrightarrow> y = 0 \<or> y = 1 \<or> y = 2 \<or> y = 3" for y :: "32 word"
    by (auto simp: word_unat_eq_iff)
  from this [of "x - a"] show ?thesis
    by (auto simp: in_span_def algebra_simps)
qed

text \<open>The three words of a header do not overlap.\<close>

lemma apart_fields [simp]:
  "apart a 4 (a + 4) 4" "apart a 4 (a + 8) 4" "apart (a + 4) 4 a 4" "apart (a + 4) 4 (a + 8) 4"
  "apart (a + 8) 4 a 4" "apart (a + 8) 4 (a + 4) 4"
  by (auto simp: apart_def in_span_4)

lemma apart_sub:
  "apart a n b k \<Longrightarrow> (\<And>x. in_span a' n' x \<Longrightarrow> in_span a n x) \<Longrightarrow> (\<And>x. in_span b' k' x \<Longrightarrow> in_span b k x) \<Longrightarrow> apart a' n' b' k'"
  by (auto simp: apart_def)

lemma in_header:
  "in_span a 4 x \<Longrightarrow> in_span a 12 x" "in_span (a + 4) 4 x \<Longrightarrow> in_span a 12 x" "in_span (a + 8) 4 x \<Longrightarrow> in_span a 12 x"
  by (auto simp: in_span_4) (simp_all add: in_span_def)

end
