(* ===== verification/Kmem.thy ===== *)
theory Kmem
  imports Memory
begin

text \<open>
  The memory routines of \<^verbatim>\<open>src/kservice.c\<close>, which work on aligned words where they can
  (\<^verbatim>\<open>RT_KSERVICE_USING_TINY_SIZE\<close> is not configured): \<^verbatim>\<open>rt_memset\<close>, \<^verbatim>\<open>rt_memcpy\<close>, \<^verbatim>\<open>rt_memmove\<close>, \<^verbatim>\<open>rt_memcmp\<close>.
  The result of a routine, its first argument, is left out; the models return the memory. The other
  theories use \<^const>\<open>mem_set\<close> and \<^const>\<open>mem_copy\<close>, to which the routines are shown equal here.
\<close>

section \<open>The routines\<close>

lemma unat_dec: "n \<noteq> 0 \<Longrightarrow> unat (n - 1 :: 32 word) < unat n"
  using unat_gt_0 [of n] by (simp add: unat_minus_one)

function memset_blocks :: "32 word \<Rightarrow> 32 word \<Rightarrow> 32 word \<Rightarrow> memory \<Rightarrow> 32 word \<times> 32 word \<times> memory" where
  "memset_blocks buffer a count m =
     (if count \<ge> 16 then
        memset_blocks buffer (a + 16) (count - 16)
          (store32 (a + 12) buffer (store32 (a + 8) buffer (store32 (a + 4) buffer (store32 a buffer m))))
      else (a, count, m))"
  by auto
termination by (relation "measure (\<lambda>(_, _, count, _). unat count)") (auto simp: word_le_nat_alt unat_sub)

function memset_words :: "32 word \<Rightarrow> 32 word \<Rightarrow> 32 word \<Rightarrow> memory \<Rightarrow> 32 word \<times> 32 word \<times> memory" where
  "memset_words buffer a count m =
     (if count \<ge> 4 then memset_words buffer (a + 4) (count - 4) (store32 a buffer m) else (a, count, m))"
  by auto
termination by (relation "measure (\<lambda>(_, _, count, _). unat count)") (auto simp: word_le_nat_alt unat_sub)

function memset_bytes :: "32 word \<Rightarrow> 32 word \<Rightarrow> 32 word \<Rightarrow> memory \<Rightarrow> memory" where
  "memset_bytes d a count m =
     (if count \<noteq> 0 then memset_bytes d (a + 1) (count - 1) (m(a := ucast d)) else m)"
  by auto
termination by (relation "measure (\<lambda>(_, _, count, _). unat count)") (auto intro: unat_dec)

definition rt_memset :: "32 word \<Rightarrow> 32 word \<Rightarrow> 32 word \<Rightarrow> memory \<Rightarrow> memory" where
  "rt_memset s c count m = (
     let d = c AND 0xff in
     if \<not> count < 4 \<and> s AND (4 - 1) = 0 then
       let buffer = push_bit 8 d OR d;
           buffer = buffer OR push_bit 16 buffer;
           (a, count, m) = memset_blocks buffer s count m;
           (a, count, m) = memset_words buffer a count m
       in memset_bytes d a count m
     else memset_bytes d s count m)"

function memcpy_blocks :: "32 word \<Rightarrow> 32 word \<Rightarrow> 32 word \<Rightarrow> memory \<Rightarrow> 32 word \<times> 32 word \<times> 32 word \<times> memory" where
  "memcpy_blocks dst src len m =
     (if len \<ge> 16 then
        let m = store32 dst (load32 m src) m;
            m = store32 (dst + 4) (load32 m (src + 4)) m;
            m = store32 (dst + 8) (load32 m (src + 8)) m;
            m = store32 (dst + 12) (load32 m (src + 12)) m
        in memcpy_blocks (dst + 16) (src + 16) (len - 16) m
      else (dst, src, len, m))"
  by auto
termination by (relation "measure (\<lambda>(_, _, len, _). unat len)") (auto simp: word_le_nat_alt unat_sub)

function memcpy_words :: "32 word \<Rightarrow> 32 word \<Rightarrow> 32 word \<Rightarrow> memory \<Rightarrow> 32 word \<times> 32 word \<times> 32 word \<times> memory" where
  "memcpy_words dst src len m =
     (if len \<ge> 4 then memcpy_words (dst + 4) (src + 4) (len - 4) (store32 dst (load32 m src) m) else (dst, src, len, m))"
  by auto
termination by (relation "measure (\<lambda>(_, _, len, _). unat len)") (auto simp: word_le_nat_alt unat_sub)

function memcpy_bytes :: "32 word \<Rightarrow> 32 word \<Rightarrow> 32 word \<Rightarrow> memory \<Rightarrow> memory" where
  "memcpy_bytes dst src len m =
     (if len \<noteq> 0 then memcpy_bytes (dst + 1) (src + 1) (len - 1) (m(dst := m src)) else m)"
  by auto
termination by (relation "measure (\<lambda>(_, _, len, _). unat len)") (auto intro: unat_dec)

definition rt_memcpy :: "32 word \<Rightarrow> 32 word \<Rightarrow> 32 word \<Rightarrow> memory \<Rightarrow> memory" where
  "rt_memcpy dst src count m =
     (if \<not> count < 16 \<and> (src AND (4 - 1)) OR (dst AND (4 - 1)) = 0 then
        let (dst, src, len, m) = memcpy_blocks dst src count m;
            (dst, src, len, m) = memcpy_words dst src len m
        in memcpy_bytes dst src len m
      else memcpy_bytes dst src count m)"

text \<open>From the end to the beginning; the pointers are behind the byte that is moved.\<close>

function memmove_back :: "32 word \<Rightarrow> 32 word \<Rightarrow> 32 word \<Rightarrow> memory \<Rightarrow> memory" where
  "memmove_back tmp s n m =
     (if n \<noteq> 0 then memmove_back (tmp - 1) (s - 1) (n - 1) (m(tmp - 1 := m (s - 1))) else m)"
  by auto
termination by (relation "measure (\<lambda>(_, _, n, _). unat n)") (auto intro: unat_dec)

definition rt_memmove :: "32 word \<Rightarrow> 32 word \<Rightarrow> 32 word \<Rightarrow> memory \<Rightarrow> memory" where
  "rt_memmove dest src n m =
     (if src < dest \<and> dest < src + n then memmove_back (dest + n) (src + n) n m
      else memcpy_bytes dest src n m)"

function rt_memcmp :: "32 word \<Rightarrow> 32 word \<Rightarrow> 32 word \<Rightarrow> memory \<Rightarrow> int" where
  "rt_memcmp cs ct count m =
     (if 0 < count then
        let res = uint (m cs) - uint (m ct) in
        if res \<noteq> 0 then res else rt_memcmp (cs + 1) (ct + 1) (count - 1) m
      else 0)"
  by auto
termination by (relation "measure (\<lambda>(_, _, count, _). unat count)") (auto intro: unat_dec)

declare memset_blocks.simps [simp del] memset_words.simps [simp del] memset_bytes.simps [simp del]
  memcpy_blocks.simps [simp del] memcpy_words.simps [simp del] memcpy_bytes.simps [simp del]
  memmove_back.simps [simp del] rt_memcmp.simps [simp del]

section \<open>Sets\<close>

lemma in_span_join:
  assumes "k + n \<le> 2 ^ 32"
  shows "in_span a k x \<or> in_span (a + of_nat k) n x \<longleftrightarrow> in_span a (k + n) x"
proof (cases "k < 2 ^ 32")
  case True
  define y where "y = x - a"
  have y: "x - (a + of_nat k) = y - of_nat k" by (simp add: y_def)
  have k: "unat (of_nat k :: 32 word) = k" using True by (rule unat_of_nat32)
  show ?thesis
  proof (cases "k \<le> unat y")
    case True
    then have "unat (y - of_nat k) = unat y - k" using k by (simp add: unat_sub word_le_nat_alt)
    then show ?thesis unfolding in_span_def y y_def [symmetric] using True by auto
  next
    case False
    then show ?thesis by (simp add: in_span_def y_def)
  qed
next
  case False
  then show ?thesis using assms unsigned_less [of "x - a", where 'a = nat] by (simp add: in_span_def)
qed

lemma mem_set_join:
  "k + n \<le> 2 ^ 32 \<Longrightarrow> mem_set (a + of_nat k) c n (mem_set a c k m) = mem_set a c (k + n) m"
  using in_span_join [of k n a] by (auto simp: mem_set_def fun_eq_iff)

lemma mem_set_0 [simp]: "mem_set a c 0 m = m"
  by (simp add: mem_set_def in_span_def)

lemma in_span_1: "in_span a 1 x \<longleftrightarrow> x = a"
proof -
  have "unat (x - a) < 1 \<longleftrightarrow> x - a = 0" by (simp add: unat_eq_zero)
  then show ?thesis by (simp add: in_span_def)
qed

lemma mem_set_1: "mem_set a c 1 m = m(a := c)"
  unfolding mem_set_def in_span_1 by auto

lemma store32_bytes:
  assumes "ucast v = c" "ucast (drop_bit 8 v) = c" "ucast (drop_bit 16 v) = c" "ucast (drop_bit 24 v) = c"
  shows "store32 a v m = mem_set a c 4 m"
  using assms by (auto simp: store32_def mem_set_def in_span_4 fun_eq_iff)

lemma memset_bytes_set: "memset_bytes d a count m = mem_set a (ucast d) (unat count) m"
proof (induction d a count m rule: memset_bytes.induct)
  case (1 d a count m)
  show ?case
  proof (cases "count = 0")
    case False
    then have "unat count = 1 + unat (count - 1)"
      using unat_gt_0 [of count] by (simp add: unat_minus_one)
    moreover have "unat count < 2 ^ 32" using unsigned_less [of count, where 'a = nat] by simp
    ultimately have "mem_set (a + of_nat 1) (ucast d) (unat (count - 1)) (mem_set a (ucast d) 1 m) = mem_set a (ucast d) (unat count) m"
      using mem_set_join [of 1 "unat (count - 1)"] by simp
    then show ?thesis
      using 1 [OF False] False by (simp add: memset_bytes.simps [of d a count] mem_set_1 [simplified] fun_upd_def)
  qed (simp add: memset_bytes.simps)
qed

lemma mem_set_front:
  assumes "of_nat k \<le> n" "k < 2 ^ 32"
  shows "mem_set (a + of_nat k) c (unat (n - of_nat k)) (mem_set a c k m) = mem_set a c (unat (n :: 32 word)) m"
proof -
  have "unat n = k + unat (n - of_nat k)"
    using assms unat_of_nat32 [OF assms(2)] by (simp add: unat_sub word_le_nat_alt)
  moreover have "unat n < 2 ^ 32" using unsigned_less [of n, where 'a = nat] by simp
  ultimately show ?thesis using mem_set_join [of k "unat (n - of_nat k)"] by simp
qed

lemma four_stores:
  assumes "\<And>a m. store32 a b m = mem_set a c 4 m"
  shows "store32 (a + 12) b (store32 (a + 8) b (store32 (a + 4) b (store32 a b m))) = mem_set a c 16 m"
  using mem_set_join [of 4 4 a c m] mem_set_join [of 8 4 a c m] mem_set_join [of 12 4 a c m]
  by (simp add: assms)

lemma memset_words_set:
  assumes "\<And>a m. store32 a b m = mem_set a c 4 m"
  shows "(case memset_words b a n m of (a', n', m') \<Rightarrow> mem_set a' c (unat n') m') = mem_set a c (unat n) m"
  using assms
proof (induction b a n m rule: memset_words.induct)
  case (1 buffer a count m)
  then show ?case
    using mem_set_front [of 4 count a c m] by (simp add: memset_words.simps [of buffer a count])
qed

lemma memset_blocks_set:
  assumes "\<And>a m. store32 a b m = mem_set a c 4 m"
  shows "(case memset_blocks b a n m of (a', n', m') \<Rightarrow> mem_set a' c (unat n') m') = mem_set a c (unat n) m"
  using assms
proof (induction b a n m rule: memset_blocks.induct)
  case (1 buffer a count m)
  then show ?case
    using mem_set_front [of 16 count a c m] four_stores [of buffer c a m]
    by (simp add: memset_blocks.simps [of buffer a count])
qed

lemma memset_buffer:
  defines "b d \<equiv> (push_bit 8 (d :: 32 word) OR d) OR push_bit 16 (push_bit 8 d OR d)"
  assumes "d = c AND 0xff"
  shows "store32 a (b d) m = mem_set a (ucast c) 4 m"
proof -
  have d: "bit d n \<longleftrightarrow> bit c n \<and> n < 8" for n
  proof -
    have "d = c AND mask 8" by (simp add: assms(2) mask_eq_exp_minus_1)
    then show ?thesis by (auto simp: bit_simps)
  qed
  show ?thesis
    by (rule store32_bytes) (rule bit_word_eqI; auto simp: b_def bit_simps d)+
qed

lemma mem_copy_join:
  assumes "k + n \<le> 2 ^ 32" "d = s \<or> k + n \<le> unat (d - s)"
  shows "mem_copy (d + of_nat k) (s + of_nat k) n (mem_copy d s k m) = mem_copy d s (k + n) m"
proof
  fix x
  define u v where "u = x - d" and "v = d - s"
  define i \<delta> where "i = unat u" and "\<delta> = unat v"
  show "mem_copy (d + of_nat k) (s + of_nat k) n (mem_copy d s k m) x = mem_copy d s (k + n) m x"
  proof (cases "in_span (d + of_nat k) n x")
    case False
    then show ?thesis using in_span_join [OF assms(1), of d x] by (simp add: mem_copy_def)
  next
    case True
    have i: "i < k + n" using in_span_join [OF assms(1), of d x] True by (simp add: in_span_def i_def u_def)
    have ki: "k \<le> i"
    proof (rule ccontr)
      assume nk: "\<not> k \<le> i"
      have "k < 2 ^ 32" using assms(1) True by (cases "n = 0") (auto simp: in_span_def)
      then have "unat (u - of_nat k) = i + 2 ^ 32 - k"
        using unat_of_nat32 [of k] nk by (simp add: unat_sub_if' i_def)
      moreover have "x - (d + of_nat k) = u - of_nat k" by (simp add: u_def)
      ultimately have "unat (x - (d + of_nat k)) = i + 2 ^ 32 - k" by (simp only:)
      then show False using True assms(1) nk unfolding in_span_def by linarith
    qed
    have y: "s + of_nat k + (x - (d + of_nat k)) = s + (x - d)" by simp
    have "\<not> in_span d k (s + (x - d)) \<or> d = s"
    proof (rule disjCI)
      assume "d \<noteq> s"
      then have g: "k + n \<le> \<delta>" using assms(2) by (simp add: \<delta>_def v_def)
      have "unat (u - v) = i + 2 ^ 32 - \<delta>"
        using g i by (simp add: unat_sub_if' i_def \<delta>_def)
      moreover have "s + (x - d) - d = u - v" by (simp add: u_def v_def)
      ultimately have "unat (s + (x - d) - d) = i + 2 ^ 32 - \<delta>" by (simp only:)
      moreover have "\<delta> < 2 ^ 32" using unsigned_less [of v, where 'a = nat] by (simp add: \<delta>_def)
      ultimately show "\<not> in_span d k (s + (x - d))" using ki unfolding in_span_def by linarith
    qed
    then show ?thesis
      using True in_span_join [OF assms(1), of d x] unfolding mem_copy_def y by auto
  qed
qed

lemma mem_copy_0 [simp]: "mem_copy d s 0 m = m"
  by (simp add: mem_copy_def in_span_def)

lemma mem_copy_1: "mem_copy d s 1 m = m(d := m s)"
  unfolding mem_copy_def in_span_1 by auto

lemma load32_bytes:
  "ucast (load32 m a) = m a" "ucast (drop_bit 8 (load32 m a)) = m (a + 1)"
  "ucast (drop_bit 16 (load32 m a)) = m (a + 2)" "ucast (drop_bit 24 (load32 m a)) = m (a + 3)"
  by (rule bit_word_eqI; auto simp: load32_def bit_simps dest: bit_imp_le_length)+

lemma mem_copy_4: "mem_copy d s 4 m = store32 d (load32 m s) m"
  unfolding mem_copy_def in_span_4 store32_def load32_bytes by (auto simp: fun_eq_iff)

text \<open>A copy that starts at the lower end may be split.\<close>

definition forward :: "32 word \<Rightarrow> 32 word \<Rightarrow> 32 word \<Rightarrow> bool" where
  "forward d s n \<longleftrightarrow> d = s \<or> unat n \<le> unat (d - s)"

lemma mem_copy_front:
  assumes "of_nat k \<le> n" "k < 2 ^ 32" "forward d s n"
  shows "mem_copy (d + of_nat k) (s + of_nat k) (unat (n - of_nat k)) (mem_copy d s k m) = mem_copy d s (unat n) m"
    "forward (d + of_nat k) (s + of_nat k) (n - of_nat k)"
proof -
  have u: "unat n = k + unat (n - of_nat k)"
    using assms(1) unat_of_nat32 [OF assms(2)] by (simp add: unat_sub word_le_nat_alt)
  moreover have "unat n < 2 ^ 32" using unsigned_less [of n, where 'a = nat] by simp
  ultimately show "mem_copy (d + of_nat k) (s + of_nat k) (unat (n - of_nat k)) (mem_copy d s k m) = mem_copy d s (unat n) m"
    using mem_copy_join [of k "unat (n - of_nat k)" d s m] assms(3) by (simp add: forward_def)
  show "forward (d + of_nat k) (s + of_nat k) (n - of_nat k)"
    using assms(3) u by (auto simp: forward_def)
qed

lemma memcpy_bytes_copy: "forward d s n \<Longrightarrow> memcpy_bytes d s n m = mem_copy d s (unat n) m"
proof (induction d s n m rule: memcpy_bytes.induct)
  case (1 d s n m)
  show ?case
  proof (cases "n = 0")
    case False
    then have "of_nat 1 \<le> n" using unat_gt_0 [of n] by (simp add: word_le_nat_alt)
    then show ?thesis
      using 1(1) [OF False] mem_copy_front(1) [of 1 n d s m] mem_copy_front(2) [of 1 n d s] 1(2) False
      by (simp add: memcpy_bytes.simps [of d s n] mem_copy_1 [simplified] fun_upd_def)
  qed (simp add: memcpy_bytes.simps)
qed

lemma memcpy_words_copy:
  "forward d s n \<Longrightarrow> (case memcpy_words d s n m of (d', s', n', m') \<Rightarrow>
     mem_copy d' s' (unat n') m' = mem_copy d s (unat n) m \<and> forward d' s' n')"
proof (induction d s n m rule: memcpy_words.induct)
  case (1 d s n m)
  then show ?case
    using mem_copy_front(1) [of 4 n d s m] mem_copy_front(2) [of 4 n d s] mem_copy_4 [of d s m]
    by (auto simp: memcpy_words.simps [of d s n])
qed

lemma four_copies:
  assumes "forward d s n" "16 \<le> n"
  defines "c k m \<equiv> store32 (d + k) (load32 m (s + k)) m"
  shows "c 12 (c 8 (c 4 (c 0 m))) = mem_copy d s 16 m"
proof -
  have b: "d = s \<or> 16 \<le> unat (d - s)"
    using assms(1,2) by (auto simp: forward_def word_le_nat_alt)
  then show ?thesis
    using mem_copy_join [of 4 4 d s m] mem_copy_join [of 8 4 d s m] mem_copy_join [of 12 4 d s m]
    by (auto simp: c_def mem_copy_4)
qed

lemma memcpy_blocks_copy:
  "forward d s n \<Longrightarrow> (case memcpy_blocks d s n m of (d', s', n', m') \<Rightarrow>
     mem_copy d' s' (unat n') m' = mem_copy d s (unat n) m \<and> forward d' s' n')"
proof (induction d s n m rule: memcpy_blocks.induct)
  case (1 d s n m)
  then show ?case
    using mem_copy_front(1) [of 16 n d s m] mem_copy_front(2) [of 16 n d s] four_copies [of d s n m]
    by (auto simp: memcpy_blocks.simps [of d s n] Let_def)
qed

text \<open>A copy that starts at the upper end.\<close>

lemma mem_copy_join_back:
  assumes "Suc k \<le> 2 ^ 32" "d = s \<or> Suc k \<le> unat (s - d)"
  shows "mem_copy d s k (m(d + of_nat k := m (s + of_nat k))) = mem_copy d s (Suc k) m"
proof
  fix x
  define u v where "u = x - d" and "v = s - d"
  have k: "unat (of_nat k :: 32 word) = k" using assms(1) by (intro unat_of_nat32) simp
  have sp: "in_span d (Suc k) x \<longleftrightarrow> in_span d k x \<or> x = d + of_nat k"
    using in_span_join [of k 1 d x] assms(1) by (simp add: in_span_1 [simplified])
  show "mem_copy d s k (m(d + of_nat k := m (s + of_nat k))) x = mem_copy d s (Suc k) m x"
  proof (cases "in_span d k x")
    case True
    have "s + (x - d) \<noteq> d + of_nat k \<or> d = s"
    proof (rule disjCI)
      assume "d \<noteq> s"
      then have g: "Suc k \<le> unat v" using assms(2) by (simp add: v_def)
      have i: "unat u < k" using True by (simp add: in_span_def u_def)
      have "unat (u + v) \<noteq> k"
        using g i unsigned_less [of v, where 'a = nat] unat_plus_if' [of u v] by (auto split: if_splits)
      then have "u + v \<noteq> of_nat k" using k by metis
      moreover have "u + v = s + (x - d) - d" by (simp add: u_def v_def)
      ultimately show "s + (x - d) \<noteq> d + of_nat k" by (auto simp: algebra_simps)
    qed
    moreover have "x \<noteq> d + of_nat k" using True k by (auto simp: in_span_def)
    ultimately show ?thesis using True sp by (auto simp: mem_copy_def)
  next
    case False
    then show ?thesis using sp by (auto simp: mem_copy_def)
  qed
qed

lemma memmove_back_copy:
  "d = s \<or> unat n \<le> unat (s - d) \<Longrightarrow> memmove_back (d + n) (s + n) n m = mem_copy d s (unat n) m"
proof (induction "unat n" arbitrary: n m)
  case 0
  then show ?case by (simp add: memmove_back.simps unat_eq_zero)
next
  case (Suc k)
  have "n \<noteq> 0" using Suc.hyps(2) by auto
  moreover from this have "unat (n - 1) = k" using Suc.hyps(2) by (simp add: unat_minus_one)
  ultimately have n: "n \<noteq> 0" "unat (n - 1) = k" by simp_all
  have k: "n - 1 = of_nat k" unfolding n(2) [symmetric] by simp
  have "Suc k < 2 ^ 32" using Suc.hyps(2) unsigned_less [of n, where 'a = nat] by simp
  have "memmove_back (d + n) (s + n) n m
      = memmove_back (d + (n - 1)) (s + (n - 1)) (n - 1) (m(d + (n - 1) := m (s + (n - 1))))"
    using n(1) by (simp add: memmove_back.simps [of "d + n" "s + n"] add_diff_eq)
  also have "\<dots> = mem_copy d s k (m(d + (n - 1) := m (s + (n - 1))))"
    using Suc.hyps(1) [of "n - 1"] Suc.prems Suc.hyps(2) n(2) by auto
  also have "\<dots> = mem_copy d s (Suc k) m"
    unfolding k using mem_copy_join_back [of k d s m] Suc.prems Suc.hyps(2) \<open>Suc k < 2 ^ 32\<close> by simp
  finally show ?case using Suc.hyps(2) by simp
qed

section \<open>The routines byte by byte\<close>

lemma rt_memset_set: "rt_memset s c count m = mem_set s (ucast c) (unat count) m"
proof -
  define b where "b = (push_bit 8 (c AND 0xff) OR (c AND 0xff)) OR push_bit 16 (push_bit 8 (c AND 0xff) OR (c AND 0xff))"
  have low: "ucast (c AND 0xff) = (ucast c :: 8 word)"
  proof -
    have "c AND 0xff = take_bit 8 c" by (simp add: take_bit_eq_mask mask_eq_exp_minus_1)
    then show ?thesis by (simp add: bit_word_eqI bit_simps)
  qed
  have st: "store32 a b m = mem_set a (ucast c) 4 m" for a m
    using memset_buffer [OF refl, of a c m] by (simp add: b_def)
  show ?thesis
  proof (cases "\<not> count < 4 \<and> s AND (4 - 1) = 0")
    case True
    obtain a1 n1 m1 where 1: "memset_blocks b s count m = (a1, n1, m1)" by (rule prod_cases3)
    obtain a2 n2 m2 where 2: "memset_words b a1 n1 m1 = (a2, n2, m2)" by (rule prod_cases3)
    have "rt_memset s c count m = memset_bytes (c AND 0xff) a2 n2 m2"
      using True 1 2 by (simp add: rt_memset_def b_def Let_def)
    also have "\<dots> = mem_set s (ucast c) (unat count) m"
      using memset_blocks_set [OF st, of s count m] memset_words_set [OF st, of a1 n1 m1] 1 2
      by (simp add: memset_bytes_set low)
    finally show ?thesis .
  next
    case False
    then show ?thesis by (simp only: rt_memset_def Let_def if_False memset_bytes_set low)
  qed
qed

lemma rt_memcpy_copy:
  assumes f: "forward dst src count"
  shows "rt_memcpy dst src count m = mem_copy dst src (unat count) m"
proof (cases "\<not> count < 16 \<and> (src AND (4 - 1)) OR (dst AND (4 - 1)) = 0")
  case True
  obtain d1 s1 n1 m1 where 1: "memcpy_blocks dst src count m = (d1, s1, n1, m1)" by (rule prod_cases4)
  obtain d2 s2 n2 m2 where 2: "memcpy_words d1 s1 n1 m1 = (d2, s2, n2, m2)" by (rule prod_cases4)
  have a: "mem_copy d1 s1 (unat n1) m1 = mem_copy dst src (unat count) m" "forward d1 s1 n1"
    using memcpy_blocks_copy [OF f, of m] 1 by auto
  have "mem_copy d2 s2 (unat n2) m2 = mem_copy dst src (unat count) m" "forward d2 s2 n2"
    using memcpy_words_copy [OF a(2), of m1] 2 a(1) by auto
  then show ?thesis
    using True 1 2 by (simp add: rt_memcpy_def Let_def memcpy_bytes_copy)
next
  case False
  then show ?thesis by (simp only: rt_memcpy_def if_False memcpy_bytes_copy [OF f])
qed

lemma rt_memmove_copy:
  assumes "unat src + unat n < 2 ^ 32" "unat dest + unat n \<le> 2 ^ 32"
  shows "rt_memmove dest src n m = mem_copy dest src (unat n) m"
proof -
  note b = assms
  have sn: "unat (src + n) = unat src + unat n" using b by (subst unat_add_lem [THEN iffD1]) auto
  show ?thesis
  proof (cases "src < dest \<and> dest < src + n")
    case True
    then have "unat n \<le> unat (src - dest)"
      using b by (auto simp: unat_sub_if' word_less_nat_alt)
    then show ?thesis using True by (simp add: rt_memmove_def memmove_back_copy)
  next
    case False
    then have "forward dest src n"
      using b sn by (auto simp: forward_def unat_sub_if' word_less_nat_alt not_less word_unat_eq_iff)
    then show ?thesis using False by (auto simp: rt_memmove_def memcpy_bytes_copy)
  qed
qed

lemma rt_memcmp_equal:
  "rt_memcmp a b n m = 0 \<longleftrightarrow> (\<forall>i < unat n. m (a + of_nat i) = m (b + of_nat i))"
proof (induction a b n m rule: rt_memcmp.induct)
  case (1 a b n m)
  show ?case
  proof (cases "n = 0")
    case False
    then have n: "0 < n" by (simp add: word_neq_0_conv)
    define k where "k = unat (n - 1)"
    have u: "unat n = Suc k"
      using n unat_gt_0 [of n] by (simp add: k_def unat_minus_one)
    have "(\<forall>i < Suc k. m (a + of_nat i) = m (b + of_nat i)) \<longleftrightarrow>
        m a = m b \<and> (\<forall>i < k. m (a + 1 + of_nat i) = m (b + 1 + of_nat i))"
      by (auto simp: less_Suc_eq_0_disj algebra_simps)
    then show ?thesis
      using 1 [OF n refl] n by (auto simp: rt_memcmp.simps [of a b n] u k_def Let_def word_uint_eq_iff)
  qed (simp add: rt_memcmp.simps)
qed

section \<open>Properties\<close>

text \<open>C20: The memory routines agree with their byte-wise meaning. \<^verbatim>\<open>rt_memset\<close> and \<^verbatim>\<open>rt_memcpy\<close>, which work on
  aligned words, four at a time, set or copy exactly \<open>n\<close> bytes, at any address and of any number:
  \<^verbatim>\<open>rt_memset\<close> always, \<^verbatim>\<open>rt_memcpy\<close> if the destination does not begin inside the source, \<^verbatim>\<open>rt_memmove\<close> for any
  overlap of blocks that end below the end of the address space. \<^verbatim>\<open>rt_memcmp\<close> returns 0 for equal blocks
  only.\<close>

theorem rt_mem_routines_bytewise:
  "rt_memset a c n m = mem_set a (ucast c) (unat n) m \<and>
   (a = b \<or> unat n \<le> unat (a - b) \<longrightarrow> rt_memcpy a b n m = mem_copy a b (unat n) m) \<and>
   (unat b + unat n < 2 ^ 32 \<and> unat a + unat n \<le> 2 ^ 32 \<longrightarrow> rt_memmove a b n m = mem_copy a b (unat n) m) \<and>
   (rt_memcmp a b n m = 0 \<longleftrightarrow> (\<forall>i < unat n. m (a + of_nat i) = m (b + of_nat i)))"
  using rt_memset_set rt_memcpy_copy rt_memmove_copy rt_memcmp_equal by (auto simp: forward_def)

theorem rt_mem_routines_bytewise_witness:
  "\<exists>m :: memory. m 0x1000 = 7 \<and> rt_memcpy 0x2000 0x1000 20 m = mem_copy 0x2000 0x1000 20 m \<and>
   rt_memmove 0x1001 0x1000 5 m = mem_copy 0x1001 0x1000 5 m"
  using rt_mem_routines_bytewise [of "0x2000" 0 20 "\<lambda>_. 7" "0x1000"]
    rt_mem_routines_bytewise [of "0x1001" 0 5 "\<lambda>_. 7" "0x1000"]
  by (intro exI [of _ "\<lambda>_. 7"]) simp

end
