(* ===== verification/Smem.thy ===== *)
theory Smem
  imports Kmem Kobject
begin

text \<open>
  The small-memory heap (\<^verbatim>\<open>src/mem.c\<close>). A block is a header \<^verbatim>\<open>struct rt_small_mem_item\<close> of three words,
  followed by its data; the headers lie in the heap, between the data of the clients, so that they are
  read from and written to the bytes of the memory. Offsets in the \<^verbatim>\<open>next\<close> and \<^verbatim>\<open>prev\<close> fields count
  from \<^verbatim>\<open>heap_ptr\<close>. The heap object itself (\<^verbatim>\<open>struct rt_small_mem\<close>) is a record; \<open>self\<close> is its address. There
  is one heap, so a header that names another heap object is refused. Memory tracing
  (\<^verbatim>\<open>RT_USING_MEMTRACE\<close>) is not configured.
\<close>

section \<open>State\<close>

record smem =
  self :: "32 word"
  mem_address :: "32 word"
  mem_total :: "32 word"
  mem_used :: "32 word"
  mem_max :: "32 word"
  heap_ptr :: "32 word"
  heap_end :: "32 word"
  lfree :: "32 word"
  mem_size_aligned :: "32 word"
  ram :: memory

abbreviation MIN_SIZE_ALIGNED :: "32 word" where "MIN_SIZE_ALIGNED \<equiv> 12"
abbreviation SIZEOF_STRUCT_MEM :: "32 word" where "SIZEOF_STRUCT_MEM \<equiv> 12"
abbreviation SIZEOF_RT_SMALL_MEM :: "32 word" where "SIZEOF_RT_SMALL_MEM \<equiv> 56"
abbreviation MEM_MASK :: "32 word" where "MEM_MASK \<equiv> 0xfffffffe"
abbreviation RT_NULL :: "32 word" where "RT_NULL \<equiv> 0"

definition MEM_USED :: "32 word \<Rightarrow> 32 word" where "MEM_USED small_mem = (small_mem AND MEM_MASK) OR 1"
definition MEM_FREED :: "32 word \<Rightarrow> 32 word" where "MEM_FREED small_mem = (small_mem AND MEM_MASK) OR 0"

text \<open>The fields of the header at an address.\<close>

definition pool_ptr :: "32 word \<Rightarrow> smem \<Rightarrow> 32 word" where "pool_ptr a h = load32 (ram h) a"
definition next_off :: "32 word \<Rightarrow> smem \<Rightarrow> 32 word" where "next_off a h = load32 (ram h) (a + 4)"
definition prev_off :: "32 word \<Rightarrow> smem \<Rightarrow> 32 word" where "prev_off a h = load32 (ram h) (a + 8)"

definition set_pool_ptr :: "32 word \<Rightarrow> 32 word \<Rightarrow> smem \<Rightarrow> smem" where
  "set_pool_ptr a v h = h\<lparr>ram := store32 a v (ram h)\<rparr>"
definition set_next :: "32 word \<Rightarrow> 32 word \<Rightarrow> smem \<Rightarrow> smem" where
  "set_next a v h = h\<lparr>ram := store32 (a + 4) v (ram h)\<rparr>"
definition set_prev :: "32 word \<Rightarrow> 32 word \<Rightarrow> smem \<Rightarrow> smem" where
  "set_prev a v h = h\<lparr>ram := store32 (a + 8) v (ram h)\<rparr>"

definition MEM_ISUSED :: "32 word \<Rightarrow> smem \<Rightarrow> bool" where
  "MEM_ISUSED a h \<longleftrightarrow> pool_ptr a h AND NOT MEM_MASK \<noteq> 0"

definition MEM_POOL :: "32 word \<Rightarrow> smem \<Rightarrow> 32 word" where
  "MEM_POOL a h = pool_ptr a h AND MEM_MASK"

text \<open>The assertions on the heap object at the head of the operations.\<close>

definition smem_obj :: "32 word \<Rightarrow> obj_ref" where "smem_obj a = Obj_memory (unat a)"

definition smem_check :: "kernel \<Rightarrow> smem \<Rightarrow> unit option" where
  "smem_check k h = do {
     rt_assert (rt_object_get_type (smem_obj (self h)) k = RT_Object_Class_Memory);
     rt_assert (rt_object_is_systemobject (smem_obj (self h)) k) }"

section \<open>Operations\<close>

text \<open>The block \<open>b\<close>, which follows the block \<open>a\<close>, becomes a part of it.\<close>

definition smem_join :: "32 word \<Rightarrow> 32 word \<Rightarrow> smem \<Rightarrow> smem" where
  "smem_join a b h = (
     let h1 = set_pool_ptr b 0 h;
         h2 = set_next a (next_off b h1) h1
     in set_prev (heap_ptr h2 + next_off b h2) (a - heap_ptr h2) h2)"

definition plug_holes :: "32 word \<Rightarrow> smem \<Rightarrow> smem option" where
  "plug_holes a h = do {
     rt_assert (a \<ge> heap_ptr h);
     rt_assert (a < heap_end h);
     let nmem = heap_ptr h + next_off a h;
     let h1 = (if a \<noteq> nmem \<and> \<not> MEM_ISUSED nmem h \<and> nmem \<noteq> heap_end h
               then smem_join a nmem (if lfree h = nmem then h\<lparr>lfree := a\<rparr> else h) else h);
     let pmem = heap_ptr h1 + prev_off a h1;
     Some (if pmem \<noteq> a \<and> \<not> MEM_ISUSED pmem h1
           then smem_join pmem a (if lfree h1 = a then h1\<lparr>lfree := pmem\<rparr> else h1) else h1) }"

definition rt_smem_init ::
  "string \<Rightarrow> 32 word \<Rightarrow> 32 word \<Rightarrow> memory \<Rightarrow> kernel \<Rightarrow> (smem option \<times> kernel) option" where
  "rt_smem_init name begin_addr sz m k = (
     let small_mem = RT_ALIGN begin_addr 4;
         start_addr = small_mem + SIZEOF_RT_SMALL_MEM;
         begin_align = RT_ALIGN start_addr 4;
         end_align = RT_ALIGN_DOWN (begin_addr + sz) 4
     in if end_align > 2 * SIZEOF_STRUCT_MEM \<and> end_align - 2 * SIZEOF_STRUCT_MEM \<ge> start_addr then do {
          let mem_size = end_align - begin_align - 2 * SIZEOF_STRUCT_MEM;
          k1 \<leftarrow> rt_object_init (smem_obj small_mem) RT_Object_Class_Memory name k;
          let a = begin_align;
          let e = begin_align + (mem_size + SIZEOF_STRUCT_MEM);
          let h = \<lparr>self = small_mem, mem_address = begin_align, mem_total = mem_size, mem_used = 0, mem_max = 0,
                   heap_ptr = a, heap_end = e, lfree = a, mem_size_aligned = mem_size, ram = m\<rparr>;
          let h1 = set_prev a 0 (set_next a (mem_size + SIZEOF_STRUCT_MEM)
                     (set_pool_ptr a (MEM_FREED small_mem) h));
          let h2 = set_prev e (mem_size + SIZEOF_STRUCT_MEM) (set_next e (mem_size + SIZEOF_STRUCT_MEM)
                     (set_pool_ptr e (MEM_USED small_mem) h1));
          Some (Some h2, k1) }
        else Some (None, k))"

definition rt_smem_detach :: "smem \<Rightarrow> kernel \<Rightarrow> (int \<times> kernel) option" where
  "rt_smem_detach h k = do {
     smem_check k h;
     Some (RT_EOK, rt_object_detach (smem_obj (self h)) k) }"

text \<open>\<^verbatim>\<open>used += n\<close>, and the maximum.\<close>

definition add_used :: "32 word \<Rightarrow> smem \<Rightarrow> smem" where
  "add_used n h = (
     let h1 = h\<lparr>mem_used := mem_used h + n\<rparr>
     in if mem_max h1 < mem_used h1 then h1\<lparr>mem_max := mem_used h1\<rparr> else h1)"

text \<open>A new free block at offset \<open>ptr2\<close> in the block \<open>a\<close> at offset \<open>ptr\<close>.\<close>

definition smem_insert :: "32 word \<Rightarrow> 32 word \<Rightarrow> smem \<Rightarrow> smem" where
  "smem_insert ptr ptr2 h = (
     let a = heap_ptr h + ptr; mem2 = heap_ptr h + ptr2;
         h1 = set_pool_ptr mem2 (MEM_FREED (self h)) h;
         h2 = set_next mem2 (next_off a h1) h1;
         h3 = set_prev mem2 ptr h2;
         h4 = set_next a ptr2 h3
     in if next_off mem2 h4 \<noteq> mem_size_aligned h4 + SIZEOF_STRUCT_MEM
        then set_prev (heap_ptr h4 + next_off mem2 h4) ptr2 h4 else h4)"

text \<open>The search of \<^verbatim>\<open>rt_smem_alloc\<close> along the \<^verbatim>\<open>next\<close> offsets.\<close>

partial_function (option) smem_search :: "32 word \<Rightarrow> 32 word \<Rightarrow> smem \<Rightarrow> 32 word option option" where
  "smem_search sz ptr h =
     (if ptr \<le> mem_size_aligned h - sz then
        let a = heap_ptr h + ptr in
        if \<not> MEM_ISUSED a h \<and> next_off a h - (ptr + SIZEOF_STRUCT_MEM) \<ge> sz then Some (Some ptr)
        else smem_search sz (next_off a h) h
      else Some None)"

partial_function (option) smem_next_free :: "32 word \<Rightarrow> smem \<Rightarrow> 32 word option" where
  "smem_next_free a h =
     (if MEM_ISUSED a h \<and> a \<noteq> heap_end h then smem_next_free (heap_ptr h + next_off a h) h else Some a)"

definition smem_take :: "32 word \<Rightarrow> 32 word \<Rightarrow> smem \<Rightarrow> (32 word \<times> smem) option" where
  "smem_take sz ptr h = do {
     let a = heap_ptr h + ptr;
     let h1 = (if next_off a h - (ptr + SIZEOF_STRUCT_MEM) \<ge> sz + SIZEOF_STRUCT_MEM + MIN_SIZE_ALIGNED
               then add_used (sz + SIZEOF_STRUCT_MEM) (smem_insert ptr (ptr + SIZEOF_STRUCT_MEM + sz) h)
               else add_used (next_off a h - (a - heap_ptr h)) h);
     let h2 = set_pool_ptr a (MEM_USED (self h1)) h1;
     h3 \<leftarrow> (if a = lfree h2 then do {
              p \<leftarrow> smem_next_free (lfree h2) h2;
              rt_assert (p = heap_end h2 \<or> \<not> MEM_ISUSED p h2);
              Some (h2\<lparr>lfree := p\<rparr>) }
            else Some h2);
     rt_assert (a + SIZEOF_STRUCT_MEM + sz \<le> heap_end h3);
     rt_assert ((a + SIZEOF_STRUCT_MEM) mod 4 = 0);
     rt_assert (a AND (4 - 1) = 0);
     Some (a + SIZEOF_STRUCT_MEM, h3) }"

definition smem_request :: "32 word \<Rightarrow> 32 word" where
  "smem_request sz =
     (let sz = RT_ALIGN sz 4 in if sz < MIN_SIZE_ALIGNED then MIN_SIZE_ALIGNED else sz)"

definition rt_smem_alloc :: "32 word \<Rightarrow> kernel \<Rightarrow> smem \<Rightarrow> (32 word \<times> smem) option" where
  "rt_smem_alloc sz k h =
     (if sz = 0 then Some (RT_NULL, h)
      else do {
        smem_check k h;
        let sz = smem_request sz;
        if sz > mem_size_aligned h then Some (RT_NULL, h)
        else do {
          found \<leftarrow> smem_search sz (lfree h - heap_ptr h) h;
          case found of None \<Rightarrow> Some (RT_NULL, h) | Some ptr \<Rightarrow> smem_take sz ptr h } })"

definition rt_smem_free :: "32 word \<Rightarrow> kernel \<Rightarrow> smem \<Rightarrow> smem option" where
  "rt_smem_free rmem k h =
     (if rmem = RT_NULL then Some h
      else do {
        rt_assert (rmem AND (4 - 1) = 0);
        let a = rmem - SIZEOF_STRUCT_MEM;
        let small_mem = MEM_POOL a h;
        rt_assert (small_mem \<noteq> RT_NULL);
        rt_assert (MEM_ISUSED a h);
        rt_assert (small_mem = self h);
        smem_check k h;
        rt_assert (rmem \<ge> heap_ptr h \<and> rmem < heap_end h);
        rt_assert (MEM_POOL (heap_ptr h + next_off a h) h = small_mem);
        let h1 = set_pool_ptr a (MEM_FREED (self h)) h;
        let h2 = (if a < lfree h1 then h1\<lparr>lfree := a\<rparr> else h1);
        let h3 = h2\<lparr>mem_used := mem_used h2 - (next_off a h2 - (a - heap_ptr h2))\<rparr>;
        plug_holes a h3 })"

definition smem_shrink :: "32 word \<Rightarrow> 32 word \<Rightarrow> 32 word \<Rightarrow> smem \<Rightarrow> smem option" where
  "smem_shrink ptr sz newsize h = (
     let h1 = h\<lparr>mem_used := mem_used h - (sz - newsize)\<rparr>;
         ptr2 = ptr + SIZEOF_STRUCT_MEM + newsize;
         mem2 = heap_ptr h1 + ptr2;
         h2 = smem_insert ptr ptr2 h1;
         h3 = (if mem2 < lfree h2 then h2\<lparr>lfree := mem2\<rparr> else h2)
     in plug_holes mem2 h3)"

definition rt_smem_realloc :: "32 word \<Rightarrow> 32 word \<Rightarrow> kernel \<Rightarrow> smem \<Rightarrow> (32 word \<times> smem) option" where
  "rt_smem_realloc rmem newsize k h = do {
     smem_check k h;
     let newsize = RT_ALIGN newsize 4;
     if newsize > mem_size_aligned h then Some (RT_NULL, h)
     else if newsize = 0 then map_option (\<lambda>h1. (RT_NULL, h1)) (rt_smem_free rmem k h)
     else if rmem = RT_NULL then rt_smem_alloc newsize k h
     else do {
       rt_assert (rmem AND (4 - 1) = 0);
       rt_assert (rmem \<ge> heap_ptr h);
       rt_assert (rmem < heap_end h);
       let a = rmem - SIZEOF_STRUCT_MEM;
       let ptr = a - heap_ptr h;
       let sz = next_off a h - ptr - SIZEOF_STRUCT_MEM;
       if sz = newsize then Some (rmem, h)
       else if newsize + SIZEOF_STRUCT_MEM + 12 < sz
       then map_option (\<lambda>h1. (rmem, h1)) (smem_shrink ptr sz newsize h)
       else do {
         (nmem, h1) \<leftarrow> rt_smem_alloc newsize k h;
         if nmem \<noteq> RT_NULL then do {
           let h2 = h1\<lparr>ram := rt_memcpy nmem rmem (if sz < newsize then sz else newsize) (ram h1)\<rparr>;
           h3 \<leftarrow> rt_smem_free rmem k h2;
           Some (nmem, h3) }
         else Some (nmem, h1) } } }"

end
