(* ===== verification/Smem_Blocks.thy ===== *)
theory Smem_Blocks
  imports Smem
begin

text \<open>
  The abstract heap: the list of its blocks in the order of their addresses, each with its length
  (header included) and whether it is in use. Allocation is first fit, release merges a block with free
  neighbours. \<open>layout\<close> says that the headers in memory represent a list of blocks.
\<close>

section \<open>Blocks\<close>

type_synonym blocks = "(nat \<times> bool) list"

definition total :: "blocks \<Rightarrow> nat" where "total bs = sum_list (map fst bs)"

lemma total_simps [simp]:
  "total [] = 0" "total (b # bs) = fst b + total bs" "total (xs @ ys) = total xs + total ys"
  by (simp_all add: total_def)

text \<open>The blocks in use, as pairs of offset and length.\<close>

fun used_at :: "nat \<Rightarrow> blocks \<Rightarrow> (nat \<times> nat) set" where
  "used_at p [] = {}"
| "used_at p ((n, u) # bs) = (if u then {(p, n)} else {}) \<union> used_at (p + n) bs"

fun used_total :: "blocks \<Rightarrow> nat" where
  "used_total [] = 0"
| "used_total ((n, u) # bs) = (if u then n else 0) + used_total bs"

fun first_free :: "nat \<Rightarrow> blocks \<Rightarrow> nat" where
  "first_free p [] = p"
| "first_free p ((n, u) # bs) = (if u then first_free (p + n) bs else p)"

fun find_fit :: "nat \<Rightarrow> nat \<Rightarrow> blocks \<Rightarrow> nat option" where
  "find_fit s p [] = None"
| "find_fit s p ((n, u) # bs) = (if \<not> u \<and> s + 12 \<le> n then Some p else find_fit s (p + n) bs)"

definition carve :: "nat \<Rightarrow> nat \<Rightarrow> blocks" where
  "carve s n = (if s + 36 \<le> n then [(s + 12, True), (n - (s + 12), False)] else [(n, True)])"

fun absorb :: "nat \<Rightarrow> blocks \<Rightarrow> blocks" where
  "absorb n ((m, False) # ys) = (n + m, False) # ys"
| "absorb n ys = (n, False) # ys"

definition merge_left :: "blocks \<Rightarrow> blocks \<Rightarrow> blocks" where
  "merge_left xs ys =
     (if xs \<noteq> [] \<and> \<not> snd (last xs) then butlast xs @ (fst (last xs) + fst (hd ys), False) # tl ys
      else xs @ ys)"

definition good :: "blocks \<Rightarrow> bool" where
  "good bs \<longleftrightarrow> (\<forall>b \<in> set bs. 12 \<le> fst b \<and> 4 dvd fst b)"

fun no_adjacent :: "blocks \<Rightarrow> bool" where
  "no_adjacent (b # c # bs) \<longleftrightarrow> (snd b \<or> snd c) \<and> no_adjacent (c # bs)"
| "no_adjacent _ \<longleftrightarrow> True"

lemma good_simps [simp]:
  "good []" "good (b # bs) \<longleftrightarrow> 12 \<le> fst b \<and> 4 dvd fst b \<and> good bs" "good (xs @ ys) \<longleftrightarrow> good xs \<and> good ys"
  by (auto simp: good_def)

lemma good_dvd: "good bs \<Longrightarrow> 4 dvd total bs"
  by (induction bs) auto

lemma no_adjacent_append:
  "no_adjacent (xs @ ys) \<longleftrightarrow> no_adjacent xs \<and> no_adjacent ys \<and> (xs = [] \<or> ys = [] \<or> snd (last xs) \<or> snd (hd ys))"
proof (induction xs)
  case (Cons b xs)
  then show ?case by (cases xs; cases ys) auto
qed simp

lemma no_adjacent_Cons: "no_adjacent (b # bs) \<longleftrightarrow> no_adjacent bs \<and> (bs = [] \<or> snd b \<or> snd (hd bs))"
  by (cases bs) auto

lemma used_at_append: "used_at p (xs @ ys) = used_at p xs \<union> used_at (p + total xs) ys"
  by (induction xs arbitrary: p) (auto simp: add.assoc)

lemma used_total_append [simp]: "used_total (xs @ ys) = used_total xs + used_total ys"
  by (induction xs) auto

lemma used_total_le: "used_total bs \<le> total bs"
  by (induction bs) auto

lemma first_free_ge: "p \<le> first_free p bs" "first_free p bs \<le> p + total bs"
  by (induction p bs rule: first_free.induct) auto

lemma first_free_append:
  "first_free p (xs @ ys) = (if first_free p xs = p + total xs then first_free (p + total xs) ys else first_free p xs)"
  if "good xs"
  using that
proof (induction p xs rule: first_free.induct)
  case (2 p n u bs)
  then show ?case by (auto simp: add.assoc)
qed simp

lemma used_at_bounds: "(q, n) \<in> used_at p bs \<Longrightarrow> p \<le> q \<and> q + n \<le> p + total bs"
  by (induction p bs rule: used_at.induct) (auto split: if_splits)

lemma used_at_good: "(q, n) \<in> used_at p bs \<Longrightarrow> good bs \<Longrightarrow> 12 \<le> n \<and> 4 dvd n \<and> (4 dvd p \<longrightarrow> 4 dvd q)"
  by (induction p bs rule: used_at.induct) (auto split: if_splits)

text \<open>A block in use stands at a place in the list.\<close>

lemma used_at_split:
  "(q, n) \<in> used_at p bs \<Longrightarrow> \<exists>xs ys. bs = xs @ (n, True) # ys \<and> q = p + total xs"
proof (induction p bs rule: used_at.induct)
  case (2 p m u bs)
  show ?case
  proof (cases "u \<and> (q, n) = (p, m)")
    case True
    then show ?thesis by (intro exI [of _ "[]"] exI [of _ bs]) simp
  next
    case False
    with 2 obtain xs ys where "bs = xs @ (n, True) # ys" "q = p + m + total xs"
      by (auto split: if_splits)
    then show ?thesis by (intro exI [of _ "(m, u) # xs"] exI [of _ ys]) simp
  qed
qed simp

lemma used_at_apart:
  "(q, n) \<in> used_at p bs \<Longrightarrow> (r, k) \<in> used_at p bs \<Longrightarrow> (q, n) \<noteq> (r, k) \<Longrightarrow> q + n \<le> r \<or> r + k \<le> q"
proof (induction p bs rule: used_at.induct)
  case (2 p m u bs)
  then show ?case
    using used_at_bounds [of q n "p + m" bs] used_at_bounds [of r k "p + m" bs] by (fastforce split: if_splits)
qed simp

text \<open>What an allocation and a release do to the set of blocks in use.\<close>

lemma used_at_carve:
  "s + 12 \<le> n \<Longrightarrow> used_at p (xs @ carve s n @ ys)
     = insert (p + total xs, fst (hd (carve s n))) (used_at p (xs @ (n, False) # ys))"
  by (auto simp: carve_def used_at_append add.assoc)

lemma carve_props:
  assumes "s + 12 \<le> n" "4 dvd s" "4 dvd n" "12 \<le> s"
  shows "total (carve s n) = n" "good (carve s n)" "s + 12 \<le> fst (hd (carve s n))"
    "snd (hd (carve s n))" "carve s n \<noteq> []" "used_total (carve s n) = fst (hd (carve s n))"
  using assms by (auto simp: carve_def)

lemma no_adjacent_carve:
  "no_adjacent (xs @ (n, False) # ys) \<Longrightarrow> no_adjacent (xs @ carve s n @ ys)"
  by (auto simp: carve_def no_adjacent_append no_adjacent_Cons)

lemma absorb_props:
  assumes "good ys" "12 \<le> n" "4 dvd n"
  shows "total (absorb n ys) = n + total ys" "good (absorb n ys)" "used_at p (absorb n ys) = used_at (p + n) ys"
    "used_total (absorb n ys) = used_total ys" "\<exists>m zs. absorb n ys = (m, False) # zs"
  using assms by (cases "(n, ys)" rule: absorb.cases; auto simp: add.assoc)+

lemma no_adjacent_absorb: "no_adjacent ys \<Longrightarrow> no_adjacent (absorb n ys)"
  by (cases "(n, ys)" rule: absorb.cases) (auto simp: no_adjacent_Cons)

lemma merge_left_props:
  assumes "good xs" "good (absorb n ys)"
  shows "total (merge_left xs (absorb n ys)) = total xs + total (absorb n ys)"
    "good (merge_left xs (absorb n ys))"
    "used_at p (merge_left xs (absorb n ys)) = used_at p xs \<union> used_at (p + total xs) (absorb n ys)"
    "used_total (merge_left xs (absorb n ys)) = used_total xs + used_total (absorb n ys)"
proof -
  obtain m zs where a: "absorb n ys = (m, False) # zs"
    by (cases "(n, ys)" rule: absorb.cases) auto
  show "total (merge_left xs (absorb n ys)) = total xs + total (absorb n ys)"
    "good (merge_left xs (absorb n ys))"
    "used_at p (merge_left xs (absorb n ys)) = used_at p xs \<union> used_at (p + total xs) (absorb n ys)"
    "used_total (merge_left xs (absorb n ys)) = used_total xs + used_total (absorb n ys)"
    using assms unfolding a
    by (cases xs rule: rev_cases; auto simp: merge_left_def used_at_append add.assoc)+
qed

lemma no_adjacent_merge:
  assumes "no_adjacent xs" "no_adjacent ys"
  shows "no_adjacent (merge_left xs (absorb n ys))"
proof -
  obtain m zs where a: "absorb n ys = (m, False) # zs"
    by (cases "(n, ys)" rule: absorb.cases) auto
  then have "no_adjacent ((m, False) # zs)"
    using no_adjacent_absorb [OF assms(2), of n] by simp
  then show ?thesis
    using assms(1) unfolding a
    by (cases xs rule: rev_cases) (auto simp: merge_left_def no_adjacent_append no_adjacent_Cons)
qed

lemma find_fit_split:
  "find_fit s p bs = Some q \<Longrightarrow> \<exists>xs n ys. bs = xs @ (n, False) # ys \<and> q = p + total xs \<and> s + 12 \<le> n"
proof (induction s p bs rule: find_fit.induct)
  case (2 s p n u bs)
  show ?case
  proof (cases "\<not> u \<and> s + 12 \<le> n")
    case True
    with 2 show ?thesis by (intro exI [of _ "[]"]) auto
  next
    case False
    with 2 obtain xs m ys where "bs = xs @ (m, False) # ys" "q = p + n + total xs" "s + 12 \<le> m"
      by auto
    then show ?thesis by (intro exI [of _ "(n, u) # xs"]) auto
  qed
qed simp

lemma find_fit_bound: "find_fit s p bs = Some q \<Longrightarrow> p \<le> q \<and> q + s + 12 \<le> p + total bs"
  by (drule find_fit_split) auto

lemma find_fit_None: "find_fit s p bs = None \<longleftrightarrow> (\<forall>n. (n, False) \<in> set bs \<longrightarrow> n < s + 12)"
  by (induction s p bs rule: find_fit.induct) auto

text \<open>The offsets of all headers, the one at the end included.\<close>

fun heads :: "nat \<Rightarrow> blocks \<Rightarrow> nat set" where
  "heads p [] = {p}"
| "heads p ((n, u) # bs) = insert p (heads (p + n) bs)"

lemma heads_append: "heads p (xs @ ys) = heads p xs \<union> heads (p + total xs) ys"
proof (induction xs arbitrary: p)
  case Nil
  then show ?case by (cases ys) auto
qed (auto simp: add.assoc)

lemma heads_bounds: "q \<in> heads p bs \<Longrightarrow> p \<le> q \<and> q \<le> p + total bs"
  by (induction p bs rule: heads.induct) auto

lemma heads_self [simp]: "p \<in> heads p bs"
  by (cases bs) auto

lemma heads_end: "p + total bs \<in> heads p bs"
  by (induction p bs rule: heads.induct) (auto simp: add.assoc)

text \<open>No header lies in the data of a block in use.\<close>

lemma heads_used:
  "good bs \<Longrightarrow> (q, k) \<in> used_at p bs \<Longrightarrow> r \<in> heads p bs \<Longrightarrow> r \<le> q \<or> q + k \<le> r"
proof (induction p bs rule: heads.induct)
  case (2 p n u bs)
  then show ?case
    using heads_bounds [of r "p + n" bs] used_at_bounds [of q k "p + n" bs] by (fastforce split: if_splits)
qed simp

lemma first_free_merge:
  assumes "good xs" "12 \<le> n"
  shows "first_free 0 (merge_left xs (absorb n ys)) = first_free 0 (xs @ (n, False) # ys)"
    "first_free 0 (xs @ (n, False) # ys) \<le> total xs"
    "xs = xs' @ [(k, False)] \<Longrightarrow> first_free 0 (xs @ (n, False) # ys) \<le> total xs'"
proof -
  obtain m zs where a: "absorb n ys = (m, False) # zs"
    by (cases "(n, ys)" rule: absorb.cases) auto
  show "first_free 0 (merge_left xs (absorb n ys)) = first_free 0 (xs @ (n, False) # ys)"
    using assms unfolding a by (cases xs rule: rev_cases) (auto simp: merge_left_def first_free_append)
  show "first_free 0 (xs @ (n, False) # ys) \<le> total xs"
    using assms first_free_ge(2) [of 0 xs] by (auto simp: first_free_append)
  show "first_free 0 (xs @ (n, False) # ys) \<le> total xs'" if "xs = xs' @ [(k, False)]"
    using assms first_free_ge(2) [of 0 xs'] unfolding that by (auto simp: first_free_append)
qed

lemma first_free_split:
  "first_free p bs = p + total bs \<or> (\<exists>xs n ys. bs = xs @ (n, False) # ys \<and> first_free p bs = p + total xs)"
proof (induction p bs rule: first_free.induct)
  case (2 p n u bs)
  show ?case
  proof (cases u)
    case False
    then show ?thesis by (intro disjI2 exI [of _ "[]"] exI [of _ n] exI [of _ bs]) simp
  next
    case True
    with 2 consider "first_free (p + n) bs = p + n + total bs"
      | xs m ys where "bs = xs @ (m, False) # ys" "first_free (p + n) bs = p + n + total xs" by blast
    then show ?thesis
    proof cases
      case 1
      then show ?thesis using True by simp
    next
      case (2 xs m ys)
      then show ?thesis using True
        by (intro disjI2 exI [of _ "(n, True) # xs"] exI [of _ m] exI [of _ ys]) simp
    qed
  qed
qed simp

text \<open>The search may start at the first free block.\<close>

lemma find_fit_first:
  "\<exists>us vs. bs = us @ vs \<and> first_free p bs = p + total us \<and> find_fit s p bs = find_fit s (p + total us) vs"
proof (induction p bs rule: first_free.induct)
  case (2 p n u bs)
  show ?case
  proof (cases u)
    case False
    then show ?thesis by (intro exI [of _ "[]"] exI [of _ "(n, u) # bs"]) simp
  next
    case True
    with 2 obtain us vs where "bs = us @ vs" "first_free (p + n) bs = p + n + total us"
      "find_fit s (p + n) bs = find_fit s (p + n + total us) vs" by blast
    then show ?thesis using True by (intro exI [of _ "(n, True) # us"] exI [of _ vs]) (simp add: add.assoc)
  qed
qed simp

lemma used_none: "used_at p bs = {} \<Longrightarrow> (\<forall>b \<in> set bs. \<not> snd b) \<and> used_total bs = 0"
  by (induction p bs rule: used_at.induct) (auto split: if_splits)

section \<open>The abstract operations\<close>

text \<open>First fit, and release with immediate merging.\<close>

fun alloc_blocks :: "nat \<Rightarrow> nat \<Rightarrow> blocks \<Rightarrow> (nat \<times> blocks) option" where
  "alloc_blocks s p [] = None"
| "alloc_blocks s p ((n, u) # bs) =
     (if \<not> u \<and> s + 12 \<le> n then Some (p, carve s n @ bs)
      else map_option (\<lambda>(q, cs). (q, (n, u) # cs)) (alloc_blocks s (p + n) bs))"

fun push_block :: "nat \<times> bool \<Rightarrow> blocks \<Rightarrow> blocks" where
  "push_block (n, False) ((m, False) # bs) = (n + m, False) # bs"
| "push_block b bs = b # bs"

fun free_blocks :: "nat \<Rightarrow> nat \<Rightarrow> blocks \<Rightarrow> blocks" where
  "free_blocks q p [] = []"
| "free_blocks q p ((n, u) # bs) =
     (if q = p then push_block (n, False) bs else push_block (n, u) (free_blocks q (p + n) bs))"

lemma alloc_blocks_split:
  assumes "find_fit s p (xs @ (n, False) # ys) = Some (p + total xs)" "good xs" "0 < n"
  shows "alloc_blocks s p (xs @ (n, False) # ys) = Some (p + total xs, xs @ carve s n @ ys)"
  using assms
proof (induction xs arbitrary: p)
  case Nil
  then show ?case using find_fit_bound [of s "p + n" ys p] by (auto split: if_splits)
next
  case (Cons b xs)
  then show ?case by (cases b) (auto simp: add.assoc split: if_splits)
qed

lemma alloc_blocks_None: "alloc_blocks s p bs = None \<longleftrightarrow> find_fit s p bs = None"
  by (induction s p bs rule: alloc_blocks.induct) auto

lemma push_absorb: "push_block (n, False) ys = absorb n ys"
  by (cases "(n, ys)" rule: absorb.cases) auto

lemma free_blocks_split:
  assumes "good (xs @ (n, True) # ys)" "no_adjacent xs"
  shows "free_blocks (p + total xs) p (xs @ (n, True) # ys) = merge_left xs (absorb n ys)"
  using assms
proof (induction xs arbitrary: p)
  case Nil
  then show ?case by (simp add: push_absorb merge_left_def)
next
  case (Cons b xs)
  obtain m u where b: "b = (m, u)" by (cases b)
  obtain k zs where a: "absorb n ys = (k, False) # zs"
    by (cases "(n, ys)" rule: absorb.cases) auto
  have "free_blocks (p + total (b # xs)) p ((b # xs) @ (n, True) # ys) = push_block b (merge_left xs (absorb n ys))"
    using Cons.IH [of "p + m"] Cons.prems by (auto simp: b add.assoc no_adjacent_Cons)
  also have "\<dots> = merge_left (b # xs) (absorb n ys)"
  proof (cases "xs = []")
    case True
    then show ?thesis by (cases u) (simp_all add: b a merge_left_def)
  next
    case False
    then obtain c cs where xs: "xs = c # cs" by (cases xs) auto
    have "u \<or> snd c" using Cons.prems(2) by (simp add: b xs no_adjacent_Cons)
    then show ?thesis
      by (cases c; cases u; cases cs) (auto simp: b xs a merge_left_def)
  qed
  finally show ?case .
qed

end
