(* ===== verification/Smem_Refine.thy ===== *)
theory Smem_Refine
  imports Smem_Blocks
begin

text \<open>
  The operations of \<^verbatim>\<open>mem.c\<close> implement first fit and merging on lists of blocks.
\<close>

section \<open>Headers in memory\<close>

definition hdr :: "memory \<Rightarrow> 32 word \<Rightarrow> 32 word \<Rightarrow> 32 word \<Rightarrow> 32 word \<Rightarrow> bool" where
  "hdr m a pool nx pv \<longleftrightarrow> load32 m a = pool \<and> load32 m (a + 4) = nx \<and> load32 m (a + 8) = pv"

lemma hdr_store:
  "hdr m a pool nx pv \<Longrightarrow> hdr (store32 a v m) a v nx pv"
  "hdr m a pool nx pv \<Longrightarrow> hdr (store32 (a + 4) v m) a pool v pv"
  "hdr m a pool nx pv \<Longrightarrow> hdr (store32 (a + 8) v m) a pool nx v"
  by (simp_all add: hdr_def load32_apart)

lemma hdr_cong: "(\<And>x. in_span a 12 x \<Longrightarrow> m' x = m x) \<Longrightarrow> hdr m' a p n v = hdr m a p n v"
proof -
  assume *: "\<And>x. in_span a 12 x \<Longrightarrow> m' x = m x"
  have "load32 m' a = load32 m a" "load32 m' (a + 4) = load32 m (a + 4)" "load32 m' (a + 8) = load32 m (a + 8)"
    by (rule load32_cong; simp add: * in_header)+
  then show ?thesis by (simp add: hdr_def)
qed

definition tag :: "32 word \<Rightarrow> bool \<Rightarrow> 32 word" where
  "tag S u = (if u then MEM_USED S else MEM_FREED S)"

fun layout :: "32 word \<Rightarrow> 32 word \<Rightarrow> memory \<Rightarrow> nat \<Rightarrow> nat \<Rightarrow> blocks \<Rightarrow> bool" where
  "layout B S m pr p [] \<longleftrightarrow> True"
| "layout B S m pr p ((n, u) # bs) \<longleftrightarrow>
     hdr m (B + of_nat p) (tag S u) (of_nat (p + n)) (of_nat pr) \<and> layout B S m p (p + n) bs"

fun last_off :: "nat \<Rightarrow> nat \<Rightarrow> blocks \<Rightarrow> nat" where
  "last_off pr p [] = pr"
| "last_off pr p (b # bs) = last_off p (p + fst b) bs"

lemma last_off_snoc [simp]: "last_off pr p (xs @ [b]) = p + total xs"
  by (induction xs arbitrary: pr p) auto

lemma layout_append:
  "layout B S m pr p (xs @ ys) \<longleftrightarrow> layout B S m pr p xs \<and> layout B S m (last_off pr p xs) (p + total xs) ys"
  by (induction xs arbitrary: pr p) (auto simp: add.assoc)

text \<open>A write outside the blocks does not matter.\<close>

lemma layout_cong:
  assumes "\<And>x. in_span (B + of_nat p) (total bs) x \<Longrightarrow> m' x = m x"
    and "unat B + p + total bs \<le> 2 ^ 32" "good bs"
  shows "layout B S m' pr p bs = layout B S m pr p bs"
  using assms
proof (induction bs arbitrary: pr p)
  case (Cons b bs)
  obtain n u where b: "b = (n, u)" by (cases b)
  have sub: "in_span (B + of_nat p) k x \<Longrightarrow> k \<le> total (b # bs) \<Longrightarrow> m' x = m x" for k x
    using Cons.prems(1) [of x] by (simp add: in_span_def)
  have "hdr m' (B + of_nat p) (tag S u) (of_nat (p + n)) (of_nat pr)
      = hdr m (B + of_nat p) (tag S u) (of_nat (p + n)) (of_nat pr)"
    using Cons.prems(3) by (intro hdr_cong sub) (auto simp: b)
  moreover have "layout B S m' p (p + n) bs = layout B S m p (p + n) bs"
  proof (rule Cons.IH)
    fix x
    assume x: "in_span (B + of_nat (p + n)) (total bs) x"
    define r where "r = unat (x - (B + of_nat (p + n)))"
    have r: "r < total bs" "x = B + of_nat (p + n + r)"
      using x by (simp_all add: r_def in_span_def algebra_simps)
    have "in_span (B + of_nat p) (total (b # bs)) x"
      unfolding r(2) using r(1) Cons.prems(2) by (subst in_span_offset) (simp_all add: b)
    then show "m' x = m x" by (rule Cons.prems(1))
  qed (use Cons.prems in \<open>simp_all add: b add.assoc\<close>)
  ultimately show ?case by (simp add: b)
qed simp

text \<open>The first header of a list has its own back offset.\<close>

lemma layout_prev:
  assumes "layout B S m pr p bs" "bs \<noteq> []" "unat B + p + total bs \<le> 2 ^ 32" "good bs"
  shows "layout B S (store32 (B + of_nat p + 8) (of_nat pr') m) pr' p bs"
proof -
  obtain n u cs where bs: "bs = (n, u) # cs" using assms(2) by (cases bs) auto
  let ?m = "store32 (B + of_nat p + 8) (of_nat pr') m"
  have "hdr ?m (B + of_nat p) (tag S u) (of_nat (p + n)) (of_nat pr')"
    using assms(1) by (auto simp: bs intro: hdr_store)
  moreover have "layout B S ?m p (p + n) cs = layout B S m p (p + n) cs"
  proof (rule layout_cong)
    fix x
    assume "in_span (B + of_nat (p + n)) (total cs) x"
    moreover have "apart (B + of_nat p) 12 (B + of_nat (p + n)) (total cs)"
      using assms by (intro apart_offset) (auto simp: bs)
    ultimately have "\<not> in_span (B + of_nat p + 8) 4 x"
      using in_header(3) by (auto simp: apart_def)
    then show "?m x = m x" by (rule store32_other)
  qed (use assms in \<open>auto simp: bs\<close>)
  ultimately show ?thesis
    using assms(1) by (simp add: bs)
qed

text \<open>A write to a header outside.\<close>

lemma layout_header:
  assumes "\<And>x. \<not> in_span (B + of_nat q) 12 x \<Longrightarrow> m' x = m x"
    and "q + 12 \<le> p \<or> p + total bs \<le> q" "unat B + p + total bs \<le> 2 ^ 32" "unat B + q + 12 \<le> 2 ^ 32" "good bs"
  shows "layout B S m' pr p bs = layout B S m pr p bs"
proof (rule layout_cong)
  fix x
  assume "in_span (B + of_nat p) (total bs) x"
  moreover have "apart (B + of_nat q) 12 (B + of_nat p) (total bs)"
    using assms by (intro apart_offset) auto
  ultimately show "m' x = m x"
    using assms(1) by (auto simp: apart_def)
qed (use assms in auto)

lemma store_header_other:
  assumes "\<not> in_span a 12 x"
  shows "store32 a v m x = m x" "store32 (a + 4) v m x = m x" "store32 (a + 8) v m x = m x"
  using assms in_header [of a x] by (auto intro: store32_other)

section \<open>The heap\<close>

abbreviation heap_layout :: "smem \<Rightarrow> nat \<Rightarrow> nat \<Rightarrow> blocks \<Rightarrow> bool" where
  "heap_layout h \<equiv> layout (heap_ptr h) (self h) (ram h)"

text \<open>\<open>heap_shape h E\<close>: what no operation changes. \<open>E\<close> is the offset of the header at the end.\<close>

definition heap_shape :: "smem \<Rightarrow> nat \<Rightarrow> bool" where
  "heap_shape h E \<longleftrightarrow>
     4 dvd unat (self h) \<and> self h \<noteq> 0 \<and> 4 dvd unat (heap_ptr h) \<and> E = unat (mem_size_aligned h) + 12 \<and>
     unat (heap_ptr h) + E + 12 \<le> 2 ^ 32 \<and> heap_end h = heap_ptr h + of_nat E \<and>
     heap_ptr h \<noteq> 0"

definition end_header :: "smem \<Rightarrow> bool" where
  "end_header h \<longleftrightarrow> load32 (ram h) (heap_end h) = MEM_USED (self h) \<and>
     load32 (ram h) (heap_end h + 4) = mem_size_aligned h + 12"

definition heap_rep :: "smem \<Rightarrow> blocks \<Rightarrow> bool" where
  "heap_rep h bs \<longleftrightarrow> heap_shape h (total bs) \<and> good bs \<and> heap_layout h 0 0 bs \<and> end_header h \<and>
     no_adjacent bs \<and> lfree h = heap_ptr h + of_nat (first_free 0 bs) \<and> mem_used h = of_nat (used_total bs)"

lemma heap_shape_bounds:
  assumes "heap_shape h E"
  shows "E < 2 ^ 32" "12 \<le> E" "p \<le> E \<Longrightarrow> unat (of_nat p :: 32 word) = p"
    "p \<le> E \<Longrightarrow> unat (heap_ptr h + of_nat p) = unat (heap_ptr h) + p"
    "mem_size_aligned h + 12 = of_nat E"
proof -
  show 1: "E < 2 ^ 32" "12 \<le> E" using assms by (simp_all add: heap_shape_def)
  show 2: "p \<le> E \<Longrightarrow> unat (of_nat p :: 32 word) = p" for p using 1 by (intro unat_of_nat32) simp
  show "p \<le> E \<Longrightarrow> unat (heap_ptr h + of_nat p) = unat (heap_ptr h) + p"
    using assms 2 [of p] by (subst unat_add_lem [THEN iffD1]) (auto simp: heap_shape_def)
  show "mem_size_aligned h + 12 = of_nat E"
    using assms by (simp add: heap_shape_def)
qed

lemma heap_addr_less:
  assumes "heap_shape h E" "p \<le> E" "q \<le> E"
  shows "heap_ptr h + of_nat p < heap_ptr h + of_nat q \<longleftrightarrow> p < q"
    "heap_ptr h + of_nat p \<le> heap_ptr h + of_nat q \<longleftrightarrow> p \<le> q"
    "heap_ptr h + of_nat p = heap_ptr h + of_nat q \<longleftrightarrow> p = q"
    "(of_nat p :: 32 word) = of_nat q \<longleftrightarrow> p = q"
proof -
  have e: "unat (heap_ptr h + of_nat p) = unat (heap_ptr h) + p" "unat (heap_ptr h + of_nat q) = unat (heap_ptr h) + q"
    using heap_shape_bounds(4) [OF assms(1)] assms(2,3) by auto
  show "heap_ptr h + of_nat p < heap_ptr h + of_nat q \<longleftrightarrow> p < q"
    "heap_ptr h + of_nat p \<le> heap_ptr h + of_nat q \<longleftrightarrow> p \<le> q"
    by (simp_all only: word_less_nat_alt word_le_nat_alt e nat_add_left_cancel_less nat_add_left_cancel_le)
  show *: "heap_ptr h + of_nat p = heap_ptr h + of_nat q \<longleftrightarrow> p = q"
  proof
    assume "heap_ptr h + of_nat p = heap_ptr h + of_nat q"
    then have "unat (heap_ptr h) + p = unat (heap_ptr h) + q" using e by metis
    then show "p = q" by simp
  qed simp
  then show "(of_nat p :: 32 word) = of_nat q \<longleftrightarrow> p = q" by simp
qed

lemma tag_used:
  assumes "4 dvd unat S"
  shows "tag S u AND NOT MEM_MASK \<noteq> 0 \<longleftrightarrow> u" "tag S u AND MEM_MASK = S"
proof -
  have b: "\<not> bit S 0"
  proof -
    have "bit S 0 \<longleftrightarrow> bit (unat S) 0" by (simp add: bit_unsigned_iff)
    then show ?thesis using assms by (auto simp: bit_0)
  qed
  have m: "bit (0xfffffffe :: 32 word) n \<longleftrightarrow> n < 32 \<and> n \<noteq> 0" for n
  proof -
    have e: "(0xfffffffe :: 32 word) = NOT 1" by simp
    show ?thesis unfolding e bit_not_iff by (simp add: bit_1_iff)
  qed
  have n: "NOT MEM_MASK = (1 :: 32 word)" by simp
  show "tag S u AND NOT MEM_MASK \<noteq> 0 \<longleftrightarrow> u"
  proof -
    have "x AND 1 \<noteq> 0 \<longleftrightarrow> bit x 0" for x :: "32 word"
      by (simp add: and_one_eq mod_2_eq_odd bit_0)
    then have "tag S u AND NOT MEM_MASK \<noteq> 0 \<longleftrightarrow> bit (tag S u) 0"
      unfolding n by blast
    also have "\<dots> \<longleftrightarrow> u"
      by (simp add: tag_def MEM_USED_def MEM_FREED_def bit_or_iff bit_and_iff bit_1_iff m)
    finally show ?thesis .
  qed
  show "tag S u AND MEM_MASK = S"
    by (rule bit_word_eqI) (use b in \<open>auto simp: tag_def MEM_USED_def MEM_FREED_def bit_or_iff bit_and_iff bit_1_iff m intro: gr0I simp del: bit_numeral_word_iff\<close>)
qed

text \<open>The header of a block, and the one behind it.\<close>

lemma block_header:
  assumes "heap_shape h E" "heap_layout h pr p (xs @ (n, u) # ys)"
  shows "pool_ptr (heap_ptr h + of_nat (p + total xs)) h = tag (self h) u"
    "next_off (heap_ptr h + of_nat (p + total xs)) h = of_nat (p + total xs + n)"
    "prev_off (heap_ptr h + of_nat (p + total xs)) h = of_nat (last_off pr p xs)"
    "MEM_ISUSED (heap_ptr h + of_nat (p + total xs)) h \<longleftrightarrow> u"
    "MEM_POOL (heap_ptr h + of_nat (p + total xs)) h = self h"
proof -
  have "hdr (ram h) (heap_ptr h + of_nat (p + total xs)) (tag (self h) u) (of_nat (p + total xs + n))
          (of_nat (last_off pr p xs))"
    using assms(2) by (simp add: layout_append)
  then show 1: "pool_ptr (heap_ptr h + of_nat (p + total xs)) h = tag (self h) u"
    "next_off (heap_ptr h + of_nat (p + total xs)) h = of_nat (p + total xs + n)"
    "prev_off (heap_ptr h + of_nat (p + total xs)) h = of_nat (last_off pr p xs)"
    by (simp_all add: hdr_def pool_ptr_def next_off_def prev_off_def)
  show "MEM_ISUSED (heap_ptr h + of_nat (p + total xs)) h \<longleftrightarrow> u"
    "MEM_POOL (heap_ptr h + of_nat (p + total xs)) h = self h"
    using assms(1) unfolding MEM_ISUSED_def MEM_POOL_def 1 by (simp_all only: heap_shape_def tag_used)
qed

lemmas first_header = block_header [where xs = "[]", simplified]

lemma end_header_facts:
  assumes "heap_shape h E" "end_header h"
  shows "MEM_ISUSED (heap_ptr h + of_nat E) h" "MEM_POOL (heap_ptr h + of_nat E) h = self h"
proof -
  have "pool_ptr (heap_ptr h + of_nat E) h = tag (self h) True"
    using assms by (simp add: end_header_def heap_shape_def pool_ptr_def tag_def)
  then show "MEM_ISUSED (heap_ptr h + of_nat E) h" "MEM_POOL (heap_ptr h + of_nat E) h = self h"
    using assms(1) unfolding MEM_ISUSED_def MEM_POOL_def by (simp_all only: heap_shape_def tag_used)
qed

lemma next_header:
  assumes "heap_shape h (p + total ys)" "end_header h" "heap_layout h pr p ys"
  shows "MEM_ISUSED (heap_ptr h + of_nat p) h \<longleftrightarrow> ys = [] \<or> snd (hd ys)"
    "MEM_POOL (heap_ptr h + of_nat p) h = self h"
proof -
  have "(MEM_ISUSED (heap_ptr h + of_nat p) h \<longleftrightarrow> ys = [] \<or> snd (hd ys)) \<and>
        MEM_POOL (heap_ptr h + of_nat p) h = self h"
  proof (cases ys)
    case Nil
    then show ?thesis using end_header_facts [OF assms(1,2)] by simp
  next
    case (Cons b zs)
    obtain n u where "b = (n, u)" by (cases b)
    with Cons show ?thesis
      using block_header(4,5) [of h "p + total ys" pr p "[]" n u zs] assms by simp
  qed
  then show "MEM_ISUSED (heap_ptr h + of_nat p) h \<longleftrightarrow> ys = [] \<or> snd (hd ys)"
    "MEM_POOL (heap_ptr h + of_nat p) h = self h" by auto
qed

section \<open>Search\<close>

lemma word_block_size:
  assumes "12 \<le> n" "p + n < 2 ^ 32"
  shows "unat ((of_nat (p + n) :: 32 word) - (of_nat p + 12)) = n - 12"
proof -
  have "(of_nat (p + n) :: 32 word) - (of_nat p + 12) = of_nat (n - 12)"
    using assms(1) by (simp add: of_nat_diff)
  then show ?thesis
    using assms by (simp only:) (intro unat_of_nat32, simp)
qed

lemma smem_search_ok:
  assumes "heap_shape h (p + total bs)" "heap_layout h pr p bs" "good bs" "sz \<le> mem_size_aligned h"
  shows "smem_search sz (of_nat p) h = Some (map_option of_nat (find_fit (unat sz) p bs))"
  using assms
proof (induction bs arbitrary: p pr)
  case Nil
  have "unat (mem_size_aligned h - sz) = unat (mem_size_aligned h) - unat sz"
    using Nil.prems(4) by (simp add: unat_sub word_le_nat_alt)
  moreover have "unat (of_nat p :: 32 word) = unat (mem_size_aligned h) + 12"
    using Nil.prems(1) heap_shape_bounds(3) [of h p p] by (simp add: heap_shape_def)
  ultimately have "\<not> of_nat p \<le> mem_size_aligned h - sz"
    by (simp add: word_le_nat_alt)
  then show ?case by (simp add: smem_search.simps)
next
  case (Cons b bs)
  obtain n u where b: "b = (n, u)" by (cases b)
  have p: "unat (of_nat p :: 32 word) = p" "p + n < 2 ^ 32" "12 \<le> n"
    using heap_shape_bounds [OF Cons.prems(1)] Cons.prems(3) by (auto simp: b)
  have lim: "unat (mem_size_aligned h - sz) = unat (mem_size_aligned h) - unat sz"
    using Cons.prems(4) by (simp add: unat_sub word_le_nat_alt)
  have hd: "MEM_ISUSED (heap_ptr h + of_nat p) h \<longleftrightarrow> u" "next_off (heap_ptr h + of_nat p) h = of_nat (p + n)"
    using first_header(2,4) [where h = h and pr = pr and p = p and n = n and u = u and ys = bs] Cons.prems(1,2) by (auto simp: b)
  have fit: "of_nat (p + n) - (of_nat p + 12) \<ge> sz \<longleftrightarrow> unat sz + 12 \<le> n"
    using word_block_size [OF p(3,2)] p(3) by (simp add: word_le_nat_alt del: of_nat_add) linarith
  show ?case
  proof (cases "of_nat p \<le> mem_size_aligned h - sz")
    case True
    show ?thesis
    proof (cases "\<not> u \<and> unat sz + 12 \<le> n")
      case f: True
      then show ?thesis
        using True hd fit by (simp add: smem_search.simps [of sz "of_nat p"] b del: of_nat_add)
    next
      case False
      have "smem_search sz (of_nat p) h = smem_search sz (of_nat (p + n)) h"
        using True hd fit False by (simp add: smem_search.simps [of sz "of_nat p"] del: of_nat_add) blast
      also have "\<dots> = Some (map_option of_nat (find_fit (unat sz) (p + n) bs))"
        using Cons.prems by (intro Cons.IH [of _ p]) (auto simp: b add.assoc)
      finally show ?thesis using False by (auto simp: b)
    qed
  next
    case False
    then have "unat (mem_size_aligned h) - unat sz < p"
      using p(1) lim by (simp add: word_le_nat_alt)
    moreover have "unat (mem_size_aligned h) + 12 = p + total (b # bs)"
      using Cons.prems(1) by (simp add: heap_shape_def)
    ultimately have "find_fit (unat sz) p (b # bs) = None"
      using find_fit_bound [of "unat sz" p "b # bs"] by (cases "find_fit (unat sz) p (b # bs)") auto
    then show ?thesis
      using False by (simp add: smem_search.simps)
  qed
qed

lemma smem_next_free_ok:
  assumes "heap_shape h (p + total bs)" "heap_layout h pr p bs" "good bs" "end_header h"
  shows "smem_next_free (heap_ptr h + of_nat p) h = Some (heap_ptr h + of_nat (first_free p bs))"
  using assms
proof (induction bs arbitrary: p pr)
  case Nil
  then show ?case by (simp add: smem_next_free.simps heap_shape_def)
next
  case (Cons b bs)
  obtain n u where b: "b = (n, u)" by (cases b)
  have hd: "MEM_ISUSED (heap_ptr h + of_nat p) h \<longleftrightarrow> u" "next_off (heap_ptr h + of_nat p) h = of_nat (p + n)"
    using first_header(2,4) [where h = h and pr = pr and p = p and n = n and u = u and ys = bs] Cons.prems(1,2) by (auto simp: b)
  have "heap_ptr h + of_nat p \<noteq> heap_end h"
    using heap_addr_less(3) [OF Cons.prems(1), of p "p + total (b # bs)"] Cons.prems(1,3)
    by (auto simp: heap_shape_def b)
  moreover have "smem_next_free (heap_ptr h + of_nat (p + n)) h = Some (heap_ptr h + of_nat (first_free (p + n) bs))"
    using Cons.prems by (intro Cons.IH [of _ p]) (auto simp: b add.assoc)
  ultimately show ?case
    using hd by (simp add: smem_next_free.simps [of "heap_ptr h + of_nat p"] b del: of_nat_add)
qed

end
