(* ===== verification/Smem_Ops.thy ===== *)
theory Smem_Ops
  imports Smem_Refine
begin

text \<open>
  The writes of the operations, and what each operation does to the list of blocks.
\<close>

section \<open>Writes to headers\<close>

definition only_headers :: "32 word \<Rightarrow> nat set \<Rightarrow> memory \<Rightarrow> memory \<Rightarrow> bool" where
  "only_headers B Q m m' \<longleftrightarrow> (\<forall>x. (\<forall>q \<in> Q. \<not> in_span (B + of_nat q) 12 x) \<longrightarrow> m' x = m x)"

lemma only_headers_refl [simp]: "only_headers B Q m m"
  by (simp add: only_headers_def)

lemma only_headers_store:
  assumes "only_headers B Q m m'" "q \<in> Q"
  shows "only_headers B Q m (store32 (B + of_nat q) v m')"
    "only_headers B Q m (store32 (B + of_nat q + 4) v m')"
    "only_headers B Q m (store32 (B + of_nat q + 8) v m')"
  using assms by (auto simp: only_headers_def store_header_other)

lemma only_headers_mono: "only_headers B Q m m' \<Longrightarrow> Q \<subseteq> R \<Longrightarrow> only_headers B R m m'"
  by (auto simp: only_headers_def)

lemma only_headers_trans: "only_headers B Q m m' \<Longrightarrow> only_headers B Q m' m'' \<Longrightarrow> only_headers B Q m m''"
  by (auto simp: only_headers_def)

lemma layout_headers:
  assumes "only_headers B Q m m'" "\<And>q. q \<in> Q \<Longrightarrow> q + 12 \<le> p \<or> p + total bs \<le> q"
    "unat B + p + total bs \<le> 2 ^ 32" "\<And>q. q \<in> Q \<Longrightarrow> unat B + q + 12 \<le> 2 ^ 32" "good bs"
  shows "layout B S m' pr p bs = layout B S m pr p bs"
proof (rule layout_cong)
  fix x
  assume x: "in_span (B + of_nat p) (total bs) x"
  have "\<not> in_span (B + of_nat q) 12 x" if "q \<in> Q" for q
    using x apart_offset [of B q 12 p "total bs"] assms(2-4) that by (auto simp: apart_def)
  then show "m' x = m x"
    using assms(1) by (simp add: only_headers_def)
qed (use assms in auto)

lemma hdr_headers:
  assumes "only_headers B Q m m'" "\<And>q. q \<in> Q \<Longrightarrow> q + 12 \<le> p \<or> p + 12 \<le> q"
    "unat B + p + 12 \<le> 2 ^ 32" "\<And>q. q \<in> Q \<Longrightarrow> unat B + q + 12 \<le> 2 ^ 32"
  shows "hdr m' (B + of_nat p) pool nx pv = hdr m (B + of_nat p) pool nx pv"
proof (rule hdr_cong)
  fix x
  assume x: "in_span (B + of_nat p) 12 x"
  have "\<not> in_span (B + of_nat q) 12 x" if "q \<in> Q" for q
    using x apart_offset [of B q 12 p 12] assms(2-4) that by (auto simp: apart_def)
  then show "m' x = m x"
    using assms(1) by (simp add: only_headers_def)
qed

lemma hdr_new: "hdr (store32 (a + 8) v3 (store32 (a + 4) v2 (store32 a v1 m))) a v1 v2 v3"
  by (simp add: hdr_def load32_apart)

text \<open>The header at the end keeps its first two words when only its last is written.\<close>

lemma end_header_iff:
  "end_header h \<longleftrightarrow> (\<exists>pv. hdr (ram h) (heap_end h) (MEM_USED (self h)) (mem_size_aligned h + 12) pv)"
  by (auto simp: end_header_def hdr_def)

section \<open>Splitting a block\<close>

lemma smem_insert_ok:
  assumes sh: "heap_shape h (total (xs @ (n, u) # ys))"
    and lay: "heap_layout h 0 0 (xs @ (n, u) # ys)" and eh0: "end_header h"
    and good: "good (xs @ (n, u) # ys)" and c: "12 \<le> c" "c + 12 \<le> n"
  shows "\<exists>m'. smem_insert (of_nat (total xs)) (of_nat (total xs + c)) h = h\<lparr>ram := m'\<rparr> \<and>
     layout (heap_ptr h) (self h) m' 0 0 (xs @ (c, u) # (n - c, False) # ys) \<and> end_header (h\<lparr>ram := m'\<rparr>) \<and>
     only_headers (heap_ptr h) {total xs, total xs + c, total xs + n} (ram h) m'"
proof -
  let ?B = "heap_ptr h" and ?S = "self h" and ?p = "total xs" and ?E = "total (xs @ (n, u) # ys)"
  let ?pr = "last_off 0 0 xs"
  let ?Q = "{?p, ?p + c, ?p + n}"
  have E: "?E = ?p + n + total ys" "unat ?B + ?E + 12 \<le> 2 ^ 32" "heap_end h = ?B + of_nat ?E"
  proof -
    show "?E = ?p + n + total ys" by simp
  qed (use sh in \<open>unfold heap_shape_def, blast+\<close>)
  have size: "mem_size_aligned h + 12 = of_nat ?E"
    by (rule heap_shape_bounds(5) [OF sh])
  have parts: "layout ?B ?S (ram h) 0 0 xs"
    "hdr (ram h) (?B + of_nat ?p) (tag ?S u) (of_nat (?p + n)) (of_nat ?pr)"
    "layout ?B ?S (ram h) ?p (?p + n) ys"
    using lay by (simp_all add: layout_append)
  define m3 where "m3 = store32 (?B + of_nat (?p + c) + 8) (of_nat ?p)
     (store32 (?B + of_nat (?p + c) + 4) (of_nat (?p + n)) (store32 (?B + of_nat (?p + c)) (MEM_FREED ?S) (ram h)))"
  define m4 where "m4 = store32 (?B + of_nat ?p + 4) (of_nat (?p + c)) m3"
  define m5 where "m5 = (if ys = [] then m4 else store32 (?B + of_nat (?p + n) + 8) (of_nat (?p + c)) m4)"
  have w1: "only_headers ?B {?p + c} (ram h) (store32 (?B + of_nat (?p + c)) (MEM_FREED ?S) (ram h))"
    by (rule only_headers_store) simp_all
  have w3: "only_headers ?B {?p + c} (ram h) m3"
    unfolding m3_def by (intro only_headers_store) simp_all
  have w4: "only_headers ?B {?p} m3 m4"
    unfolding m4_def by (intro only_headers_store) simp_all
  have w5: "only_headers ?B {?p + n} m4 m5"
    unfolding m5_def by (simp only: only_headers_store only_headers_refl singletonI split: if_split) simp
  have nx1: "load32 (store32 (?B + of_nat (?p + c)) (MEM_FREED ?S) (ram h)) (?B + of_nat ?p + 4) = of_nat (?p + n)"
  proof -
    have "hdr (store32 (?B + of_nat (?p + c)) (MEM_FREED ?S) (ram h)) (?B + of_nat ?p) (tag ?S u)
            (of_nat (?p + n)) (of_nat ?pr)"
      using parts(2) hdr_headers [OF w1, of ?p] c E by auto
    then show ?thesis by (simp add: hdr_def)
  qed
  have new: "hdr m5 (?B + of_nat (?p + c)) (tag ?S False) (of_nat (?p + n)) (of_nat ?p)"
  proof -
    have "hdr m3 (?B + of_nat (?p + c)) (tag ?S False) (of_nat (?p + n)) (of_nat ?p)"
      unfolding m3_def tag_def by (simp only: if_False) (rule hdr_new)
    then have "hdr m4 (?B + of_nat (?p + c)) (tag ?S False) (of_nat (?p + n)) (of_nat ?p)"
      using hdr_headers [OF w4, of "?p + c"] c E by auto
    then show ?thesis
      using hdr_headers [OF w5, of "?p + c"] c E by auto
  qed
  have old: "hdr m5 (?B + of_nat ?p) (tag ?S u) (of_nat (?p + c)) (of_nat ?pr)"
  proof -
    have "hdr m3 (?B + of_nat ?p) (tag ?S u) (of_nat (?p + n)) (of_nat ?pr)"
      using parts(2) hdr_headers [OF w3, of ?p] c E by auto
    then have "hdr m4 (?B + of_nat ?p) (tag ?S u) (of_nat (?p + c)) (of_nat ?pr)"
      unfolding m4_def by (rule hdr_store)
    then show ?thesis
      using hdr_headers [OF w5, of ?p] c E by auto
  qed
  have w: "only_headers ?B ?Q (ram h) m5"
    using w3 w4 w5 by (meson only_headers_mono only_headers_trans insertI1 insertI2 empty_subsetI insert_subset)
  have "layout ?B ?S m4 ?p (?p + n) ys"
  proof -
    have "only_headers ?B {?p, ?p + c} (ram h) m4"
      using w3 w4 by (meson only_headers_mono only_headers_trans insertI1 insertI2 empty_subsetI insert_subset)
    then show ?thesis
      by (subst layout_headers) (use parts(3) c E good in auto)
  qed
  then have ys: "layout ?B ?S m5 (?p + c) (?p + n) ys"
    using layout_prev [of ?B ?S m4 ?p "?p + n" ys "?p + c"] E good by (cases "ys = []") (auto simp: m5_def)
  have xs: "layout ?B ?S m5 0 0 xs"
    by (subst layout_headers [OF w]) (use parts(1) c E good in auto)
  have eh: "end_header (h\<lparr>ram := m5\<rparr>)"
  proof -
    obtain pv where pv: "hdr (ram h) (?B + of_nat ?E) (MEM_USED ?S) (of_nat ?E) pv"
      using eh0 E size by (auto simp: end_header_iff)
    then have "hdr m3 (?B + of_nat ?E) (MEM_USED ?S) (of_nat ?E) pv"
      using hdr_headers [OF w3, of ?E] c E by auto
    then have h4: "hdr m4 (?B + of_nat ?E) (MEM_USED ?S) (of_nat ?E) pv"
      using hdr_headers [OF w4, of ?E] c E by auto
    have "hdr m5 (?B + of_nat ?E) (MEM_USED ?S) (of_nat ?E) pv"
    proof (cases ys)
      case Nil
      then show ?thesis using h4 by (simp add: m5_def)
    next
      case (Cons b zs)
      then show ?thesis using h4 hdr_headers [OF w5, of ?E] E good by auto
    qed
    then show ?thesis using E size by (auto simp: end_header_iff)
  qed
  have "(of_nat (?p + n) :: 32 word) = of_nat ?E \<longleftrightarrow> ys = []"
  proof -
    have "(of_nat (?p + n) :: 32 word) = of_nat ?E \<longleftrightarrow> ?p + n = ?E"
      by (rule heap_addr_less(4) [OF sh]) (simp_all add: E(1))
    then show ?thesis using good by (cases ys) auto
  qed
  moreover have "load32 m4 (?B + of_nat (?p + c) + 4) = of_nat (?p + n)"
  proof -
    have "hdr m4 (?B + of_nat (?p + c)) (tag ?S False) (of_nat (?p + n)) (of_nat ?p)"
      using new hdr_headers [OF w5, of "?p + c"] c E by auto
    then show ?thesis by (simp add: hdr_def)
  qed
  ultimately have "smem_insert (of_nat ?p) (of_nat (?p + c)) h = h\<lparr>ram := m5\<rparr>"
    using nx1 size
    by (simp add: smem_insert_def Let_def set_pool_ptr_def set_next_def set_prev_def next_off_def m5_def m4_def m3_def
        del: of_nat_add)
  then show ?thesis
    using xs ys new old eh w c by (intro exI [of _ m5]) (auto simp: layout_append add.assoc)
qed

section \<open>Merging blocks\<close>

lemma smem_join_ok:
  assumes sh: "heap_shape h (total (xs @ (n, u) # (m, v) # ys))"
    and lay: "heap_layout h 0 0 (xs @ (n, u) # (m, v) # ys)" and eh0: "end_header h"
    and good: "good (xs @ (n, u) # (m, v) # ys)"
  shows "\<exists>m'. smem_join (heap_ptr h + of_nat (total xs)) (heap_ptr h + of_nat (total xs + n)) h = h\<lparr>ram := m'\<rparr> \<and>
     layout (heap_ptr h) (self h) m' 0 0 (xs @ (n + m, u) # ys) \<and> end_header (h\<lparr>ram := m'\<rparr>) \<and>
     only_headers (heap_ptr h) {total xs, total xs + n, total xs + n + m} (ram h) m'"
proof -
  let ?B = "heap_ptr h" and ?S = "self h" and ?p = "total xs" and ?E = "total (xs @ (n, u) # (m, v) # ys)"
  let ?pr = "last_off 0 0 xs"
  let ?Q = "{?p, ?p + n, ?p + n + m}"
  have E: "?E = ?p + n + m + total ys" "unat ?B + ?E + 12 \<le> 2 ^ 32" "heap_end h = ?B + of_nat ?E"
  proof -
    show "?E = ?p + n + m + total ys" by simp
  qed (use sh in \<open>unfold heap_shape_def, blast+\<close>)
  have size: "mem_size_aligned h + 12 = of_nat ?E"
    by (rule heap_shape_bounds(5) [OF sh])
  have g: "12 \<le> n" "12 \<le> m" "good xs" "good ys" using good by auto
  have parts: "layout ?B ?S (ram h) 0 0 xs"
    "hdr (ram h) (?B + of_nat ?p) (tag ?S u) (of_nat (?p + n)) (of_nat ?pr)"
    "hdr (ram h) (?B + of_nat (?p + n)) (tag ?S v) (of_nat (?p + n + m)) (of_nat ?p)"
    "layout ?B ?S (ram h) (?p + n) (?p + n + m) ys"
    using lay by (simp_all add: layout_append)
  define m1 where "m1 = store32 (?B + of_nat (?p + n)) 0 (ram h)"
  define m2 where "m2 = store32 (?B + of_nat ?p + 4) (of_nat (?p + n + m)) m1"
  define m3 where "m3 = store32 (?B + of_nat (?p + n + m) + 8) (of_nat ?p) m2"
  have w1: "only_headers ?B {?p + n} (ram h) m1"
    unfolding m1_def by (intro only_headers_store) simp_all
  have w2: "only_headers ?B {?p} m1 m2"
    unfolding m2_def by (intro only_headers_store) simp_all
  have w3: "only_headers ?B {?p + n + m} m2 m3"
    unfolding m3_def by (intro only_headers_store) simp_all
  have w: "only_headers ?B ?Q (ram h) m3"
    using w1 w2 w3 by (meson only_headers_mono only_headers_trans insertI1 insertI2 empty_subsetI insert_subset)
  have nx1: "load32 m1 (?B + of_nat (?p + n) + 4) = of_nat (?p + n + m)"
    using hdr_store(1) [OF parts(3), of 0] by (simp add: m1_def hdr_def)
  have nx2: "load32 m2 (?B + of_nat (?p + n) + 4) = of_nat (?p + n + m)"
  proof -
    have "hdr m2 (?B + of_nat (?p + n)) 0 (of_nat (?p + n + m)) (of_nat ?p)"
      using hdr_store(1) [OF parts(3), of 0] hdr_headers [OF w2, of "?p + n"] g E by (auto simp: m1_def)
    then show ?thesis by (simp add: hdr_def)
  qed
  have head: "hdr m3 (?B + of_nat ?p) (tag ?S u) (of_nat (?p + n + m)) (of_nat ?pr)"
  proof -
    have "hdr m1 (?B + of_nat ?p) (tag ?S u) (of_nat (?p + n)) (of_nat ?pr)"
      using parts(2) hdr_headers [OF w1, of ?p] g E by auto
    then have "hdr m2 (?B + of_nat ?p) (tag ?S u) (of_nat (?p + n + m)) (of_nat ?pr)"
      unfolding m2_def by (rule hdr_store)
    then show ?thesis
      using hdr_headers [OF w3, of ?p] g E by auto
  qed
  have xs: "layout ?B ?S m3 0 0 xs"
    by (subst layout_headers [OF w]) (use parts(1) g E in auto)
  have w12: "only_headers ?B {?p, ?p + n} (ram h) m2"
    using w1 w2 by (meson only_headers_mono only_headers_trans insertI1 insertI2 empty_subsetI insert_subset)
  have "layout ?B ?S m2 (?p + n) (?p + n + m) ys"
    by (subst layout_headers [OF w12]) (use parts(4) g E in auto)
  then have ys: "layout ?B ?S m3 ?p (?p + n + m) ys"
    using layout_prev [of ?B ?S m2 "?p + n" "?p + n + m" ys ?p] E g by (cases "ys = []") (auto simp: m3_def)
  have eh: "end_header (h\<lparr>ram := m3\<rparr>)"
  proof -
    obtain pv where pv: "hdr (ram h) (?B + of_nat ?E) (MEM_USED ?S) (of_nat ?E) pv"
      using eh0 E size by (auto simp: end_header_iff)
    then have h2: "hdr m2 (?B + of_nat ?E) (MEM_USED ?S) (of_nat ?E) pv"
      by (subst hdr_headers [OF w12, of ?E]) (use g E in auto)
    have "\<exists>pv. hdr m3 (?B + of_nat ?E) (MEM_USED ?S) (of_nat ?E) pv"
    proof (cases "ys = []")
      case True
      then have "?E = ?p + n + m" by simp
      then show ?thesis using hdr_store(3) [OF h2] unfolding m3_def by metis
    next
      case False
      then have "12 \<le> total ys" using g by (cases ys) auto
      then show ?thesis using h2 hdr_headers [OF w3, of ?E] E g by auto
    qed
    then show ?thesis using E size by (simp add: end_header_iff)
  qed
  have "smem_join (?B + of_nat ?p) (?B + of_nat (?p + n)) h = h\<lparr>ram := m3\<rparr>"
    using nx1 nx2
    by (simp add: smem_join_def Let_def set_pool_ptr_def set_next_def set_prev_def next_off_def m1_def m2_def m3_def
        del: of_nat_add)
  then show ?thesis
    using xs ys head eh w by (intro exI [of _ m3]) (auto simp: layout_append add.assoc)
qed

lemma heap_shape_cong:
  "self h' = self h \<Longrightarrow> heap_ptr h' = heap_ptr h \<Longrightarrow> mem_size_aligned h' = mem_size_aligned h \<Longrightarrow> heap_end h' = heap_end h
     \<Longrightarrow> heap_shape h' E \<longleftrightarrow> heap_shape h E"
  by (simp add: heap_shape_def)

lemma heap_shape_ram [simp]: "heap_shape (h\<lparr>ram := m\<rparr>) E \<longleftrightarrow> heap_shape h E"
  by (simp add: heap_shape_def)

lemma plug_holes_ok:
  assumes sh: "heap_shape h (total (xs @ (n, False) # ys))"
    and lay: "heap_layout h 0 0 (xs @ (n, False) # ys)" and eh0: "end_header h"
    and good: "good (xs @ (n, False) # ys)" and lf: "lfree h = heap_ptr h + of_nat (first_free 0 (xs @ (n, False) # ys))"
  shows "\<exists>m'. plug_holes (heap_ptr h + of_nat (total xs)) h = Some (h\<lparr>ram := m'\<rparr>) \<and>
     layout (heap_ptr h) (self h) m' 0 0 (merge_left xs (absorb n ys)) \<and> end_header (h\<lparr>ram := m'\<rparr>) \<and>
     only_headers (heap_ptr h) (heads 0 (xs @ (n, False) # ys)) (ram h) m'"
proof -
  let ?B = "heap_ptr h" and ?S = "self h" and ?p = "total xs" and ?L = "xs @ (n, False) # ys"
  let ?a = "?B + of_nat ?p" and ?H = "heads 0 ?L"
  have g: "12 \<le> n" "good xs" "good ys" using good by auto
  have E: "heap_end h = ?B + of_nat (total ?L)"
    using sh by (unfold heap_shape_def) blast
  have guard: "?B \<le> ?a" "?a < heap_end h" "?a \<noteq> ?B + of_nat (?p + n)"
    using heap_addr_less [OF sh, of 0 ?p] heap_addr_less [OF sh, of ?p "total ?L"]
      heap_addr_less [OF sh, of ?p "?p + n"] g by (simp_all add: E)
  have nx: "?B + next_off ?a h = ?B + of_nat (?p + n)"
    using block_header(2) [of h "total ?L" 0 0 xs n False ys] sh lay by simp
  have used: "MEM_ISUSED (?B + of_nat (?p + n)) h \<longleftrightarrow> ys = [] \<or> snd (hd ys)"
    using next_header(1) [of h "?p + n" ys ?p] sh lay eh0 by (simp add: layout_append add.assoc)
  have lf1: "lfree h \<noteq> ?B + of_nat (?p + n)"
    using first_free_merge(2) [OF g(2,1), of ys] heap_addr_less(3) [OF sh, of "first_free 0 ?L" "?p + n"] g(1)
    by (simp add: lf)
  \<comment> \<open>forward\<close>
  define h1 where "h1 = (if ?a \<noteq> ?B + next_off ?a h \<and> \<not> MEM_ISUSED (?B + next_off ?a h) h \<and> ?B + next_off ?a h \<noteq> heap_end h
     then smem_join ?a (?B + next_off ?a h) (if lfree h = ?B + next_off ?a h then h\<lparr>lfree := ?a\<rparr> else h) else h)"
  have "\<exists>m1 k zs. absorb n ys = (k, False) # zs \<and> h1 = h\<lparr>ram := m1\<rparr> \<and>
     layout ?B ?S m1 0 0 (xs @ (k, False) # zs) \<and> end_header (h\<lparr>ram := m1\<rparr>) \<and> only_headers ?B ?H (ram h) m1"
  proof (cases "ys = [] \<or> snd (hd ys)")
    case True
    then have "absorb n ys = (n, False) # ys"
      by (cases "(n, ys)" rule: absorb.cases) auto
    moreover have "h1 = h\<lparr>ram := ram h\<rparr>"
      using True by (simp add: h1_def nx used del: of_nat_add)
    ultimately show ?thesis using lay eh0 by (intro exI [of _ "ram h"]) simp
  next
    case False
    then obtain m zs where ys: "ys = (m, False) # zs"
      by (cases ys) auto
    have "?B + of_nat (?p + n) \<noteq> heap_end h"
      using heap_addr_less(3) [OF sh, of "?p + n" "total ?L"] g(3) by (simp add: E ys)
    then have "h1 = smem_join ?a (?B + of_nat (?p + n)) h"
      using False guard(3) lf1 used by (simp add: h1_def nx)
    moreover have "{?p, ?p + n, ?p + n + m} \<subseteq> ?H"
      by (auto simp: ys heads_append)
    ultimately show ?thesis
      using smem_join_ok [of h xs n False m False zs] sh lay eh0 good
      by (auto simp: ys intro: only_headers_mono)
  qed
  then obtain m1 k zs where ab: "absorb n ys = (k, False) # zs" and h1: "h1 = h\<lparr>ram := m1\<rparr>"
    and lay1: "layout ?B ?S m1 0 0 (xs @ (k, False) # zs)" and eh1: "end_header (h\<lparr>ram := m1\<rparr>)"
    and w1: "only_headers ?B ?H (ram h) m1" by blast
  have tot: "total (xs @ (k, False) # zs) = total ?L" and good1: "good (xs @ (k, False) # zs)"
    using absorb_props(1,2) [of ys n] good ab by auto
  have pv: "?B + prev_off ?a h1 = ?B + of_nat (last_off 0 0 xs)"
    using block_header(3) [of h1 "total ?L" 0 0 xs k False zs] sh lay1 by (simp add: h1)
  have ph: "plug_holes ?a h = Some (if ?B + prev_off ?a h1 \<noteq> ?a \<and> \<not> MEM_ISUSED (?B + prev_off ?a h1) h1
      then smem_join (?B + prev_off ?a h1) ?a (if lfree h1 = ?a then h1\<lparr>lfree := ?B + prev_off ?a h1\<rparr> else h1) else h1)"
  proof -
    have hb: "heap_ptr h1 = ?B" by (simp add: h1)
    show ?thesis
      unfolding plug_holes_def Let_def h1_def [symmetric] hb
      by (simp only: guard(1,2) rt_assert_bind if_True)
  qed
  \<comment> \<open>backward\<close>
  show ?thesis
  proof (cases "xs \<noteq> [] \<and> \<not> snd (last xs)")
    case False
    have "?B + prev_off ?a h1 = ?a \<or> MEM_ISUSED (?B + prev_off ?a h1) h1"
    proof (cases xs rule: rev_cases)
      case (snoc ws b)
      then obtain j where b: "b = (j, True)" using False by (cases b) auto
      show ?thesis
        using block_header(4) [of h1 "total ?L" 0 0 ws j True "(k, False) # zs"] sh lay1 unfolding pv
        by (simp add: h1 snoc b)
    next
      case Nil
      show ?thesis unfolding pv by (simp add: Nil)
    qed
    moreover have "merge_left xs (absorb n ys) = xs @ (k, False) # zs"
      using False by (auto simp: merge_left_def ab)
    ultimately show ?thesis
      using lay1 eh1 w1 unfolding ph by (auto simp: h1)
  next
    case True
    then obtain ws j where xs: "xs = ws @ [(j, False)]"
      by (cases xs rule: rev_cases) auto
    have "\<not> MEM_ISUSED (?B + of_nat (total ws)) h1"
      using block_header(4) [of h1 "total ?L" 0 0 ws j False "(k, False) # zs"] sh lay1
      by (simp add: h1 xs)
    moreover have "?B + of_nat (total ws) \<noteq> ?a"
      using heap_addr_less(3) [OF sh, of "total ws" ?p] g(2) by (simp add: xs)
    moreover have "lfree h1 \<noteq> ?a"
    proof -
      have "first_free 0 ?L \<le> total ws" by (rule first_free_merge(3) [OF g(2,1) xs])
      then show ?thesis
        using heap_addr_less(3) [OF sh, of "first_free 0 ?L" ?p] g(2) by (simp add: h1 lf xs)
    qed
    ultimately have "plug_holes ?a h = Some (smem_join (?B + of_nat (total ws)) (?B + of_nat (total ws + j)) h1)"
      unfolding ph pv by (simp add: xs)
    moreover have "{total ws, total ws + j, total ws + j + k} \<subseteq> ?H"
    proof -
      have "total ws + j + k \<in> heads ?p ((n, False) # ys)"
      proof (cases "(n, ys)" rule: absorb.cases)
        case (1 n' m ys')
        then show ?thesis using ab by (auto simp: xs add.assoc)
      qed (use ab in \<open>auto simp: xs add.assoc\<close>)
      then show ?thesis by (auto simp: xs heads_append)
    qed
    moreover have "merge_left xs (absorb n ys) = ws @ (j + k, False) # zs"
      using True by (simp add: merge_left_def ab xs)
    ultimately show ?thesis
      using smem_join_ok [of h1 ws j False k False zs] sh lay1 eh1 good1 tot w1
      by (auto simp: h1 xs intro: only_headers_mono only_headers_trans)
  qed
qed

section \<open>Allocation\<close>

lemma aligned_4:
  fixes a :: "32 word"
  assumes "4 dvd unat a"
  shows "a AND (4 - 1) = 0" "a mod 4 = 0"
proof -
  show m: "a mod 4 = 0"
    using assms by (simp add: word_unat_eq_iff unat_mod)
  have "a AND mask 2 = a mod 4"
    by (simp add: take_bit_eq_mask [symmetric] take_bit_eq_mod)
  then show "a AND (4 - 1) = 0"
    using m by (simp add: mask_eq_exp_minus_1)
qed

lemma request_ok:
  "4 dvd unat (smem_request sz)" "12 \<le> unat (smem_request sz)"
  "sz \<le> 0xFFFFFFFC \<Longrightarrow> unat sz \<le> unat (smem_request sz)"
proof -
  have "RT_ALIGN sz 4 = (sz + 3) - take_bit 2 (sz + 3)"
    using and_not_mask [of "sz + 3" 2] by (simp add: RT_ALIGN_def mask_eq_exp_minus_1 algebra_simps)
  moreover have "take_bit 2 (sz + 3) \<le> sz + 3"
    by (simp add: take_bit_eq_mod word_le_nat_alt unat_mod)
  ultimately have "unat (RT_ALIGN sz 4) = unat (sz + 3) - unat (sz + 3) mod 4"
    by (simp add: unat_sub word_le_nat_alt take_bit_eq_mod unat_mod)
  then have "4 dvd unat (RT_ALIGN sz 4)"
    by (simp add: dvd_minus_mod)
  then show "4 dvd unat (smem_request sz)"
    by (simp add: smem_request_def Let_def)
  show "12 \<le> unat (smem_request sz)"
    by (auto simp: smem_request_def Let_def word_less_nat_alt)
  show "unat sz \<le> unat (smem_request sz)" if "sz \<le> 0xFFFFFFFC"
  proof -
    have "unat sz + 3 < 2 ^ 32" using that by (simp add: word_le_nat_alt)
    from RT_ALIGN_4_word [OF this] show ?thesis
      by (auto simp: smem_request_def Let_def word_less_nat_alt)
  qed
qed

definition same_heap :: "smem \<Rightarrow> smem \<Rightarrow> bool" where
  "same_heap h h' \<longleftrightarrow> self h' = self h \<and> mem_address h' = mem_address h \<and> mem_total h' = mem_total h \<and>
     heap_ptr h' = heap_ptr h \<and> heap_end h' = heap_end h \<and> mem_size_aligned h' = mem_size_aligned h"

lemma same_heap_refl [simp]: "same_heap h h"
  by (simp add: same_heap_def)

lemma same_heap_trans: "same_heap h h' \<Longrightarrow> same_heap h' h'' \<Longrightarrow> same_heap h h''"
  by (simp add: same_heap_def)

lemma same_heap_shape: "same_heap h h' \<Longrightarrow> heap_shape h' E \<longleftrightarrow> heap_shape h E"
  by (simp add: same_heap_def heap_shape_def)

lemma same_heap_check: "same_heap h h' \<Longrightarrow> smem_check k h' = smem_check k h"
  by (simp add: same_heap_def smem_check_def)

text \<open>The mark of a block.\<close>

lemma set_tag_ok:
  assumes sh: "heap_shape h (total (xs @ (n, u) # ys))"
    and lay: "heap_layout h 0 0 (xs @ (n, u) # ys)" and eh0: "end_header h"
    and good: "good (xs @ (n, u) # ys)"
  shows "\<exists>m'. set_pool_ptr (heap_ptr h + of_nat (total xs)) (tag (self h) v) h = h\<lparr>ram := m'\<rparr> \<and>
     layout (heap_ptr h) (self h) m' 0 0 (xs @ (n, v) # ys) \<and> end_header (h\<lparr>ram := m'\<rparr>) \<and>
     only_headers (heap_ptr h) {total xs} (ram h) m'"
proof -
  let ?B = "heap_ptr h" and ?S = "self h" and ?p = "total xs" and ?E = "total (xs @ (n, u) # ys)"
  let ?m = "store32 (?B + of_nat ?p) (tag ?S v) (ram h)"
  have E: "unat ?B + ?E + 12 \<le> 2 ^ 32" "heap_end h = ?B + of_nat ?E"
    using sh by (unfold heap_shape_def, blast+)
  have size: "mem_size_aligned h + 12 = of_nat ?E"
    by (rule heap_shape_bounds(5) [OF sh])
  have g: "12 \<le> n" "good xs" "good ys" using good by auto
  have w: "only_headers ?B {?p} (ram h) ?m"
    by (intro only_headers_store) simp_all
  have parts: "layout ?B ?S (ram h) 0 0 xs"
    "hdr (ram h) (?B + of_nat ?p) (tag ?S u) (of_nat (?p + n)) (of_nat (last_off 0 0 xs))"
    "layout ?B ?S (ram h) ?p (?p + n) ys"
    using lay by (simp_all add: layout_append)
  have "layout ?B ?S ?m 0 0 xs" "layout ?B ?S ?m ?p (?p + n) ys"
    by (subst layout_headers [OF w]; use parts g E in auto)+
  moreover have "hdr ?m (?B + of_nat ?p) (tag ?S v) (of_nat (?p + n)) (of_nat (last_off 0 0 xs))"
    using parts(2) by (rule hdr_store)
  moreover have "end_header (h\<lparr>ram := ?m\<rparr>)"
  proof -
    obtain pv where pv: "hdr (ram h) (?B + of_nat ?E) (MEM_USED ?S) (of_nat ?E) pv"
      using eh0 E size by (auto simp: end_header_iff)
    then have "hdr ?m (?B + of_nat ?E) (MEM_USED ?S) (of_nat ?E) pv"
      by (subst hdr_headers [OF w, of ?E]) (use g E in auto)
    then show ?thesis using E size by (auto simp: end_header_iff)
  qed
  ultimately show ?thesis
    using w by (intro exI [of _ ?m]) (simp add: set_pool_ptr_def layout_append)
qed

lemma add_used_sel [simp]:
  "self (add_used n h) = self h" "mem_address (add_used n h) = mem_address h" "mem_total (add_used n h) = mem_total h"
  "heap_ptr (add_used n h) = heap_ptr h" "heap_end (add_used n h) = heap_end h" "lfree (add_used n h) = lfree h"
  "mem_size_aligned (add_used n h) = mem_size_aligned h" "ram (add_used n h) = ram h"
  "mem_used (add_used n h) = mem_used h + n"
  by (simp_all add: add_used_def Let_def)

text \<open>The first half of \<^verbatim>\<open>smem_take\<close>: the block is carved and marked.\<close>

lemma take_carve:
  assumes rep: "heap_rep h (xs @ (n, False) # ys)" and s: "unat sz + 12 \<le> n" "4 dvd unat sz" "12 \<le> unat sz"
  defines "p \<equiv> total xs" and "a \<equiv> heap_ptr h + of_nat (total xs)"
  defines "h1 \<equiv> (if next_off a h - (of_nat p + SIZEOF_STRUCT_MEM) \<ge> sz + SIZEOF_STRUCT_MEM + MIN_SIZE_ALIGNED
               then add_used (sz + SIZEOF_STRUCT_MEM) (smem_insert (of_nat p) (of_nat p + SIZEOF_STRUCT_MEM + sz) h)
               else add_used (next_off a h - (a - heap_ptr h)) h)"
  defines "h2 \<equiv> set_pool_ptr a (MEM_USED (self h1)) h1"
  shows "same_heap h h2" "heap_layout h2 0 0 (xs @ carve (unat sz) n @ ys)" "end_header h2" "lfree h2 = lfree h"
    "mem_used h2 = of_nat (used_total (xs @ carve (unat sz) n @ ys))"
    "only_headers (heap_ptr h) (heads 0 (xs @ carve (unat sz) n @ ys)) (ram h) (ram h2)"
proof -
  let ?L = "xs @ (n, False) # ys" and ?N = "xs @ carve (unat sz) n @ ys" and ?B = "heap_ptr h"
  have sh: "heap_shape h (total ?L)" and good: "good ?L" and lay: "heap_layout h 0 0 ?L" and eh: "end_header h"
    and us: "mem_used h = of_nat (used_total ?L)"
    using rep by (auto simp: heap_rep_def)
  have n: "12 \<le> n" "4 dvd n" using good by auto
  have lim: "unat (heap_ptr h) + total ?L + 12 \<le> 2 ^ 32" "heap_ptr h \<noteq> 0"
    using sh by (unfold heap_shape_def, blast+)
  then have lim: "n + 12 < 2 ^ 32" "p + n < 2 ^ 32"
    by (auto simp: p_def unat_gt_0 [symmetric] simp del: unat_gt_0)
  have nx: "next_off a h = of_nat (p + n)" and ap: "a - heap_ptr h = of_nat p"
    using block_header(2) [OF sh lay] by (simp_all add: a_def p_def)
  have cond: "next_off a h - (of_nat p + SIZEOF_STRUCT_MEM) \<ge> sz + SIZEOF_STRUCT_MEM + MIN_SIZE_ALIGNED
      \<longleftrightarrow> unat sz + 36 \<le> n"
  proof -
    have "unat (sz + 12 + 12) = unat sz + 24"
      using s(1) lim(1) by (simp add: unat_word_ariths)
    then show ?thesis
      using word_block_size [OF n(1) lim(2)] n(1) unfolding nx by (simp add: word_le_nat_alt del: of_nat_add) linarith
  qed
  have "\<exists>m1 k rest. carve (unat sz) n = (k, True) # rest \<and> h1 = add_used (of_nat k) (h\<lparr>ram := m1\<rparr>) \<and>
      layout ?B (self h) m1 0 0 (xs @ (k, False) # rest @ ys) \<and> end_header (h\<lparr>ram := m1\<rparr>) \<and>
      only_headers ?B (heads 0 ?N) (ram h) m1"
  proof (cases "unat sz + 36 \<le> n")
    case True
    have "(of_nat p + SIZEOF_STRUCT_MEM + sz) = of_nat (total xs + (unat sz + 12))"
      by (simp add: p_def)
    then have "h1 = add_used (of_nat (unat sz + 12)) (smem_insert (of_nat (total xs)) (of_nat (total xs + (unat sz + 12))) h)"
      using cond True by (simp add: h1_def p_def ac_simps)
    moreover have "{total xs, total xs + (unat sz + 12), total xs + n} \<subseteq> heads 0 ?N"
      using True by (auto simp: carve_def heads_append)
    ultimately show ?thesis
      using smem_insert_ok [OF sh lay eh good, of "unat sz + 12"] True
      by (auto simp: carve_def intro: only_headers_mono)
  next
    case False
    then have "h1 = add_used (of_nat n) (h\<lparr>ram := ram h\<rparr>)"
      using cond ap by (simp add: h1_def nx)
    then show ?thesis
      using False lay eh
      by (intro exI [of _ "ram h"] exI [of _ n] exI [of _ "[]"]) (simp add: carve_def)
  qed
  then obtain m1 k rest where c: "carve (unat sz) n = (k, True) # rest" and h1: "h1 = add_used (of_nat k) (h\<lparr>ram := m1\<rparr>)"
    and lay1: "layout ?B (self h) m1 0 0 (xs @ (k, False) # rest @ ys)" and eh1: "end_header (h\<lparr>ram := m1\<rparr>)"
    and w1: "only_headers ?B (heads 0 ?N) (ram h) m1" by blast
  note cp = carve_props [OF s(1,2) n(2) s(3)]
  have tot: "total (xs @ (k, False) # rest @ ys) = total ?L" "good (xs @ (k, False) # rest @ ys)"
    using cp(1,2) good by (auto simp: c)
  have eh1': "end_header h1" using eh1 by (simp add: h1 end_header_def)
  have sh1: "heap_shape h1 (total (xs @ (k, False) # rest @ ys))"
    using sh unfolding tot(1) by (rule heap_shape_cong [THEN iffD2, rotated -1]) (simp_all add: h1)
  obtain m2 where m2: "set_pool_ptr (heap_ptr h1 + of_nat (total xs)) (tag (self h1) True) h1 = h1\<lparr>ram := m2\<rparr>"
    "layout (heap_ptr h1) (self h1) m2 0 0 (xs @ (k, True) # rest @ ys)" "end_header (h1\<lparr>ram := m2\<rparr>)"
    "only_headers (heap_ptr h1) {total xs} (ram h1) m2"
    using set_tag_ok [OF sh1 _ eh1' tot(2), of True] lay1 by (auto simp: h1)
  have h2: "h2 = h1\<lparr>ram := m2\<rparr>"
    using m2(1) by (simp add: h2_def a_def tag_def h1)
  show "same_heap h h2" "lfree h2 = lfree h"
    by (simp_all add: h2 h1 same_heap_def)
  show "heap_layout h2 0 0 ?N" "end_header h2"
    using m2(2,3) by (simp_all add: h2 h1 c)
  show "mem_used h2 = of_nat (used_total ?N)"
    using us cp(6) by (simp add: h2 h1 c)
  have "total xs \<in> heads 0 ?N" by (simp add: heads_append)
  then show "only_headers ?B (heads 0 ?N) (ram h) (ram h2)"
    using w1 m2(4) by (auto simp: h2 h1 intro: only_headers_mono only_headers_trans)
qed

lemma smem_take_ok:
  assumes rep: "heap_rep h (xs @ (n, False) # ys)" and s: "unat sz + 12 \<le> n" "4 dvd unat sz" "12 \<le> unat sz"
  shows "\<exists>h'. smem_take sz (of_nat (total xs)) h = Some (heap_ptr h + of_nat (total xs + 12), h') \<and> same_heap h h' \<and>
     heap_rep h' (xs @ carve (unat sz) n @ ys) \<and>
     only_headers (heap_ptr h) (heads 0 (xs @ carve (unat sz) n @ ys)) (ram h) (ram h')"
proof -
  let ?L = "xs @ (n, False) # ys" and ?N = "xs @ carve (unat sz) n @ ys" and ?B = "heap_ptr h" and ?p = "total xs"
  let ?a = "?B + of_nat ?p"
  define h1 where "h1 = (if next_off ?a h - (of_nat ?p + SIZEOF_STRUCT_MEM) \<ge> sz + SIZEOF_STRUCT_MEM + MIN_SIZE_ALIGNED
               then add_used (sz + SIZEOF_STRUCT_MEM) (smem_insert (of_nat ?p) (of_nat ?p + SIZEOF_STRUCT_MEM + sz) h)
               else add_used (next_off ?a h - (?a - heap_ptr h)) h)"
  define h2 where "h2 = set_pool_ptr ?a (MEM_USED (self h1)) h1"
  note t = take_carve [OF rep s, folded h1_def, folded h2_def]
  have sh: "heap_shape h (total ?L)" and good: "good ?L" and na: "no_adjacent ?L"
    and lf: "lfree h = ?B + of_nat (first_free 0 ?L)"
    using rep by (auto simp: heap_rep_def)
  note cp = carve_props [OF s(1,2) _ s(3)]
  have n: "12 \<le> n" "4 dvd n" using good by auto
  have goodN: "good ?N" and totN: "total ?N = total ?L"
    using cp(1,2) [OF n(2)] good by auto
  have he: "heap_end h = ?B + of_nat (total ?L)"
    using sh by (unfold heap_shape_def) blast
  have sh2: "heap_shape h2 (total ?N)"
    using sh same_heap_shape [OF t(1)] by (simp only: totN)
  have B2: "heap_ptr h2 = ?B" "heap_end h2 = ?B + of_nat (total ?N)" "self h2 = self h"
    using t(1) he by (simp_all only: same_heap_def totN)
  have ff: "first_free 0 ?L = first_free 0 xs"
    using good by (auto simp: first_free_append)
  have pE: "?p + 12 + unat sz \<le> total ?L" using s(1) by simp
  define h3 where "h3 = h2\<lparr>lfree := ?B + of_nat (first_free 0 ?N)\<rparr>"
  have step: "(if ?a = lfree h2 then do {
              p \<leftarrow> smem_next_free (lfree h2) h2;
              rt_assert (p = heap_end h2 \<or> \<not> MEM_ISUSED p h2);
              Some (h2\<lparr>lfree := p\<rparr>) }
            else Some h2) = Some h3"
  proof (cases "first_free 0 xs = ?p")
    case True
    then have a: "?a = lfree h2" using t(4) lf ff by simp
    have "smem_next_free (heap_ptr h2 + of_nat ?p) h2 = Some (heap_ptr h2 + of_nat (first_free ?p (carve (unat sz) n @ ys)))"
    proof (rule smem_next_free_ok)
      show "heap_shape h2 (?p + total (carve (unat sz) n @ ys))" using sh2 by simp
      show "heap_layout h2 (last_off 0 0 xs) ?p (carve (unat sz) n @ ys)"
        using t(2) by (simp add: layout_append)
    qed (use goodN t(3) in simp_all)
    then have nf: "smem_next_free (lfree h2) h2 = Some (?B + of_nat (first_free 0 ?N))"
      using True good by (simp add: a [symmetric] B2 first_free_append)
    have "?B + of_nat (first_free 0 ?N) = heap_end h2 \<or> \<not> MEM_ISUSED (?B + of_nat (first_free 0 ?N)) h2"
    proof -
      consider "first_free 0 ?N = total ?N" | us m vs where "?N = us @ (m, False) # vs" "first_free 0 ?N = total us"
        using first_free_split [of 0 ?N] by auto
      then show ?thesis
      proof cases
        case 1
        then show ?thesis by (simp add: B2)
      next
        case 2
        then show ?thesis
          using block_header(4) [OF sh2, of 0 0 us m False vs] t(2) by (simp add: B2)
      qed
    qed
    then show ?thesis using a nf by (simp add: h3_def)
  next
    case False
    have le: "first_free 0 xs \<le> ?p" using first_free_ge(2) [of 0 xs] by simp
    then have "?a \<noteq> lfree h2"
      using False heap_addr_less(3) [OF sh, of ?p "first_free 0 xs"] by (simp add: t(4) lf ff)
    moreover have "h3 = h2"
      using False good t(4) lf ff by (simp add: h3_def first_free_append)
    ultimately show ?thesis by simp
  qed
  have B3: "heap_end h3 = ?B + of_nat (total ?L)" 
    unfolding totN [symmetric] by (simp add: h3_def B2)
  have addr: "?a + SIZEOF_STRUCT_MEM + sz = ?B + of_nat (?p + 12 + unat sz)" "?a + SIZEOF_STRUCT_MEM = ?B + of_nat (?p + 12)"
    by simp_all
  have a1: "?a + SIZEOF_STRUCT_MEM + sz \<le> heap_end h3"
    unfolding addr(1) B3 by (rule heap_addr_less(2) [OF sh, THEN iffD2]) (use pE in simp_all)
  have al: "4 dvd unat (?B + of_nat ?p)" "4 dvd unat (?B + of_nat (?p + 12))"
  proof -
    have "4 dvd unat ?B" using sh by (simp add: heap_shape_def)
    moreover have "4 dvd ?p" using good by (auto intro: good_dvd)
    ultimately show "4 dvd unat (?B + of_nat ?p)" "4 dvd unat (?B + of_nat (?p + 12))"
      using heap_shape_bounds(4) [OF sh, of ?p] heap_shape_bounds(4) [OF sh, of "?p + 12"] pE s(3)
      by (simp_all del: of_nat_add)
  qed
  have am: "(?a + SIZEOF_STRUCT_MEM) mod 4 = 0"
    unfolding addr(2) by (rule aligned_4(2) [OF al(2)])
  have "smem_take sz (of_nat ?p) h = Some (?a + SIZEOF_STRUCT_MEM, h3)"
    unfolding smem_take_def Let_def h1_def [symmetric] h2_def [symmetric] step
    using a1 am aligned_4(1) [OF al(1)] by simp
  moreover have "same_heap h h3" using t(1) by (simp add: h3_def same_heap_def)
  moreover have "heap_rep h3 ?N"
    using sh2 goodN t(2,3,5) no_adjacent_carve [OF na] cp(1) [OF n(2)]
    by (simp add: heap_rep_def h3_def B2 heap_shape_def end_header_def)
  ultimately show ?thesis
    using t(6) unfolding addr by (intro exI [of _ h3]) (simp add: h3_def)
qed

lemma rt_smem_alloc_ok:
  assumes rep: "heap_rep h bs" and obj: "smem_check k h = Some ()" and nz: "sz \<noteq> 0"
  shows "find_fit (unat (smem_request sz)) 0 bs = None \<Longrightarrow> rt_smem_alloc sz k h = Some (RT_NULL, h)"
    "find_fit (unat (smem_request sz)) 0 bs = Some p \<Longrightarrow>
       \<exists>xs n ys h'. bs = xs @ (n, False) # ys \<and> p = total xs \<and> unat (smem_request sz) + 12 \<le> n \<and>
         rt_smem_alloc sz k h = Some (heap_ptr h + of_nat (p + 12), h') \<and> same_heap h h' \<and>
         heap_rep h' (xs @ carve (unat (smem_request sz)) n @ ys) \<and>
         only_headers (heap_ptr h) (heads 0 (xs @ carve (unat (smem_request sz)) n @ ys)) (ram h) (ram h')"
proof -
  let ?r = "smem_request sz"
  have sh: "heap_shape h (total bs)" and good: "good bs" and lay: "heap_layout h 0 0 bs" and eh: "end_header h"
    and lf: "lfree h = heap_ptr h + of_nat (first_free 0 bs)"
    using rep by (auto simp: heap_rep_def)
  have E: "total bs = unat (mem_size_aligned h) + 12" using sh by (simp add: heap_shape_def)
  have big: "find_fit (unat ?r) 0 bs = None" if "?r > mem_size_aligned h"
    using find_fit_bound [of "unat ?r" 0 bs] that E
    by (cases "find_fit (unat ?r) 0 bs") (auto simp: word_less_nat_alt)
  have search: "smem_search ?r (lfree h - heap_ptr h) h = Some (map_option of_nat (find_fit (unat ?r) 0 bs))"
    if le: "\<not> ?r > mem_size_aligned h"
  proof -
    obtain us vs where uv: "bs = us @ vs" "first_free 0 bs = total us"
      "find_fit (unat ?r) 0 bs = find_fit (unat ?r) (total us) vs"
      using find_fit_first [of bs 0 "unat ?r"] by auto
    have "smem_search ?r (of_nat (total us)) h = Some (map_option of_nat (find_fit (unat ?r) (total us) vs))"
      using sh lay good le by (intro smem_search_ok [of _ _ _ "last_off 0 0 us"]) (auto simp: uv(1) layout_append)
    then show ?thesis using lf uv by simp
  qed
  have alloc: "rt_smem_alloc sz k h = (case find_fit (unat ?r) 0 bs of None \<Rightarrow> Some (RT_NULL, h)
      | Some p \<Rightarrow> smem_take ?r (of_nat p) h)"
    using nz obj big search
    by (cases "mem_size_aligned h < ?r") (auto simp: rt_smem_alloc_def Let_def split: option.splits)
  then show "find_fit (unat ?r) 0 bs = None \<Longrightarrow> rt_smem_alloc sz k h = Some (RT_NULL, h)" by simp
  assume f: "find_fit (unat ?r) 0 bs = Some p"
  then obtain xs n ys where bs: "bs = xs @ (n, False) # ys" "p = total xs" "unat ?r + 12 \<le> n"
    using find_fit_split by fastforce
  show "\<exists>xs n ys h'. bs = xs @ (n, False) # ys \<and> p = total xs \<and> unat ?r + 12 \<le> n \<and>
         rt_smem_alloc sz k h = Some (heap_ptr h + of_nat (p + 12), h') \<and> same_heap h h' \<and>
         heap_rep h' (xs @ carve (unat ?r) n @ ys) \<and>
         only_headers (heap_ptr h) (heads 0 (xs @ carve (unat ?r) n @ ys)) (ram h) (ram h')"
    using smem_take_ok [of h xs n ys ?r] rep bs f alloc request_ok(1,2) [of sz] by (auto simp del: of_nat_add)
qed

section \<open>Release\<close>

lemma data_addr:
  assumes rep: "heap_rep h (xs @ (n, u) # ys)" and n: "12 < n"
  defines "r \<equiv> heap_ptr h + of_nat (total xs + 12)"
  shows "r \<noteq> 0" "r AND (4 - 1) = 0" "r - SIZEOF_STRUCT_MEM = heap_ptr h + of_nat (total xs)"
    "heap_ptr h \<le> r" "r < heap_end h"
proof -
  let ?L = "xs @ (n, u) # ys"
  have sh: "heap_shape h (total ?L)" and good: "good ?L"
    using rep by (auto simp: heap_rep_def)
  have he: "heap_end h = heap_ptr h + of_nat (total ?L)" "4 dvd unat (heap_ptr h)"
    using sh by (unfold heap_shape_def, blast+)
  have le: "total xs + 12 < total ?L" using n by simp
  have r: "unat r = unat (heap_ptr h) + (total xs + 12)"
    unfolding r_def using heap_shape_bounds(4) [OF sh, of "total xs + 12"] le by (simp only: less_imp_le)
  then show "r \<noteq> 0" by auto
  have "4 dvd total xs" using good by (auto intro: good_dvd)
  then have "4 dvd unat r" using he(2) unfolding r by simp
  then show "r AND (4 - 1) = 0" by (rule aligned_4)
  show "r - SIZEOF_STRUCT_MEM = heap_ptr h + of_nat (total xs)" by (simp add: r_def)
  show "heap_ptr h \<le> r" using r by (simp add: word_le_nat_alt)
  show "r < heap_end h"
    unfolding r_def he(1) by (rule heap_addr_less(1) [OF sh, THEN iffD2]) (use le in simp_all)
qed

lemma rt_smem_free_ok:
  assumes rep: "heap_rep h (xs @ (n, True) # ys)" and obj: "smem_check k h = Some ()" and n: "12 < n"
  shows "\<exists>h'. rt_smem_free (heap_ptr h + of_nat (total xs + 12)) k h = Some h' \<and> same_heap h h' \<and>
     heap_rep h' (merge_left xs (absorb n ys)) \<and>
     only_headers (heap_ptr h) (heads 0 (xs @ (n, True) # ys)) (ram h) (ram h')"
proof -
  let ?L = "xs @ (n, True) # ys" and ?F = "xs @ (n, False) # ys" and ?B = "heap_ptr h" and ?p = "total xs"
  let ?a = "?B + of_nat ?p" and ?r = "?B + of_nat (?p + 12)"
  have sh: "heap_shape h (total ?L)" and good: "good ?L" and na: "no_adjacent ?L" and lay: "heap_layout h 0 0 ?L"
    and eh: "end_header h" and lf: "lfree h = ?B + of_nat (first_free 0 ?L)"
    and us: "mem_used h = of_nat (used_total ?L)"
    using rep by (auto simp: heap_rep_def)
  note ad = data_addr [OF rep n]
  have goodF: "good ?F" "good xs" "good ys" "12 \<le> n" "4 dvd n" using good by auto
  have pool: "MEM_POOL ?a h = self h" "MEM_ISUSED ?a h" "next_off ?a h = of_nat (?p + n)"
    using block_header(2,4,5) [OF sh lay] by simp_all
  have nn: "self h \<noteq> 0" using sh by (simp add: heap_shape_def)
  have np: "MEM_POOL (?B + next_off ?a h) h = self h"
    using next_header(2) [of h "?p + n" ys ?p] sh lay eh unfolding pool(3) by (simp add: layout_append add.assoc)
  obtain m1 where m1: "set_pool_ptr ?a (tag (self h) False) h = h\<lparr>ram := m1\<rparr>"
    "layout ?B (self h) m1 0 0 ?F" "end_header (h\<lparr>ram := m1\<rparr>)" "only_headers ?B {?p} (ram h) m1"
    using set_tag_ok [OF sh lay eh good] by blast
  define h3 where "h3 = h\<lparr>ram := m1, lfree := ?B + of_nat (first_free 0 ?F), mem_used := mem_used h - of_nat n\<rparr>"
  have sh3: "heap_shape h3 (total ?F)"
  proof -
    have "total ?F = total ?L" by simp
    with sh show ?thesis
      by (simp only:) (rule heap_shape_cong [THEN iffD2, rotated -1], simp_all add: h3_def)
  qed
  have "next_off ?a (h\<lparr>ram := m1\<rparr>) = of_nat (?p + n)"
    using block_header(2) [of "h\<lparr>ram := m1\<rparr>" "total ?F" 0 0 xs n False ys] sh m1(2) by simp
  then have nx1: "load32 m1 (?a + 4) = of_nat (?p + n)" by (simp add: next_off_def)
  have lfe: "(if ?a < lfree h then h\<lparr>ram := m1, lfree := ?a\<rparr> else h\<lparr>ram := m1\<rparr>)
      = h\<lparr>ram := m1, lfree := ?B + of_nat (first_free 0 ?F)\<rparr>"
  proof (cases "first_free 0 xs = ?p")
    case True
    then have f: "first_free 0 ?F = ?p" "first_free 0 ?L = first_free (?p + n) ys"
      using goodF by (simp_all add: first_free_append)
    have "?p < first_free 0 ?L" "first_free 0 ?L \<le> total ?L"
      using first_free_ge [of "?p + n" ys] goodF unfolding f(2) by auto
    then have "?a < lfree h"
      unfolding lf using heap_addr_less(1) [OF sh, of ?p "first_free 0 ?L"] by simp
    then show ?thesis using f by simp
  next
    case False
    then have f: "first_free 0 ?F = first_free 0 xs" "first_free 0 ?L = first_free 0 xs"
      using goodF by (simp_all add: first_free_append)
    have "first_free 0 xs \<le> ?p" using first_free_ge [of 0 xs] by simp
    then have "\<not> ?a < lfree h"
      unfolding lf f(2) using heap_addr_less(1) [OF sh, of ?p "first_free 0 xs"] by simp
    then show ?thesis using lf f by simp
  qed
  have free: "rt_smem_free ?r k h = plug_holes ?a h3"
  proof -
    have "rt_smem_free ?r k h = (
        let h1 = set_pool_ptr ?a (MEM_FREED (self h)) h;
            h2 = (if ?a < lfree h1 then h1\<lparr>lfree := ?a\<rparr> else h1);
            h3 = h2\<lparr>mem_used := mem_used h2 - (next_off ?a h2 - (?a - heap_ptr h2))\<rparr>
        in plug_holes ?a h3)"
      unfolding rt_smem_free_def ad(3)
      using ad(1,2,4,5) pool(1,2) nn np obj by (simp add: Let_def)
    also have "\<dots> = plug_holes ?a h3"
    proof -
      have "set_pool_ptr ?a (MEM_FREED (self h)) h = h\<lparr>ram := m1\<rparr>"
        using m1(1) by (simp add: tag_def)
      moreover have "(if ?a < lfree (h\<lparr>ram := m1\<rparr>) then h\<lparr>ram := m1, lfree := ?a\<rparr> else h\<lparr>ram := m1\<rparr>)
          = h\<lparr>ram := m1, lfree := ?B + of_nat (first_free 0 ?F)\<rparr>"
        using lfe by simp
      ultimately show ?thesis
        using nx1 by (simp add: Let_def h3_def next_off_def)
    qed
    finally show ?thesis .
  qed
  obtain m' where m': "plug_holes ?a h3 = Some (h3\<lparr>ram := m'\<rparr>)"
    "layout ?B (self h) m' 0 0 (merge_left xs (absorb n ys))" "end_header (h3\<lparr>ram := m'\<rparr>)"
    "only_headers ?B (heads 0 ?F) m1 m'"
    using plug_holes_ok [OF sh3] m1(2,3) goodF(1) by (auto simp: h3_def end_header_def)
  have hd: "heads 0 ?F = heads 0 ?L" by (simp add: heads_append)
  note mp = merge_left_props [OF goodF(2) absorb_props(2) [OF goodF(3,4,5)]]
  have tot: "total (merge_left xs (absorb n ys)) = total ?L"
    using mp(1) absorb_props(1) [OF goodF(3,4,5)] by simp
  have "heap_rep (h3\<lparr>ram := m'\<rparr>) (merge_left xs (absorb n ys))"
    unfolding heap_rep_def
  proof (intro conjI)
    show "heap_shape (h3\<lparr>ram := m'\<rparr>) (total (merge_left xs (absorb n ys)))"
      using sh3 unfolding tot by simp
    show "good (merge_left xs (absorb n ys))" by (rule mp(2))
    show "no_adjacent (merge_left xs (absorb n ys))"
      using na by (intro no_adjacent_merge) (auto simp: no_adjacent_append no_adjacent_Cons)
    show "lfree (h3\<lparr>ram := m'\<rparr>) = heap_ptr (h3\<lparr>ram := m'\<rparr>) + of_nat (first_free 0 (merge_left xs (absorb n ys)))"
      using first_free_merge(1) [OF goodF(2,4)] by (simp add: h3_def)
    show "mem_used (h3\<lparr>ram := m'\<rparr>) = of_nat (used_total (merge_left xs (absorb n ys)))"
      using us mp(4) absorb_props(4) [OF goodF(3,4,5)] by (simp add: h3_def)
  qed (use m'(2,3) in \<open>simp_all add: h3_def\<close>)
  moreover have "only_headers ?B (heads 0 ?L) (ram h) m'"
  proof (rule only_headers_trans)
    show "only_headers ?B (heads 0 ?L) (ram h) m1"
      using m1(4) by (rule only_headers_mono) (simp add: heads_append)
  qed (use m'(4) hd in simp)
  ultimately show ?thesis
    using free m'(1) by (intro exI [of _ "h3\<lparr>ram := m'\<rparr>"]) (simp add: h3_def same_heap_def)
qed

section \<open>Change of size\<close>

lemma smem_shrink_ok:
  assumes rep: "heap_rep h (xs @ (n, True) # ys)" and s: "unat sz + 36 < n" "4 dvd unat sz"
  shows "\<exists>h'. smem_shrink (of_nat (total xs)) (of_nat n - 12) sz h = Some h' \<and> same_heap h h' \<and>
     heap_rep h' (xs @ (unat sz + 12, True) # absorb (n - (unat sz + 12)) ys) \<and>
     only_headers (heap_ptr h) (heads 0 (xs @ [(unat sz + 12, True)] @ (n - (unat sz + 12), False) # ys)) (ram h) (ram h')"
proof -
  let ?L = "xs @ (n, True) # ys" and ?B = "heap_ptr h" and ?p = "total xs" and ?c = "unat sz + 12"
  let ?X = "xs @ [(?c, True)]" and ?n = "n - ?c"
  let ?F = "?X @ (?n, False) # ys"
  let ?q = "?B + of_nat (total ?X)"
  have sh: "heap_shape h (total ?L)" and good: "good ?L" and na: "no_adjacent ?L" and lay: "heap_layout h 0 0 ?L"
    and eh: "end_header h" and lf: "lfree h = ?B + of_nat (first_free 0 ?L)"
    and us: "mem_used h = of_nat (used_total ?L)"
    using rep by (auto simp: heap_rep_def)
  have goodF: "good ?F" "good ?X" "good ys" "12 \<le> ?n" "4 dvd ?n" using good s by auto
  define h1 where "h1 = h\<lparr>mem_used := mem_used h - (of_nat n - 12 - sz)\<rparr>"
  have rep1: "heap_shape h1 (total ?L)" "heap_layout h1 0 0 ?L" "end_header h1"
    using sh lay eh by (simp_all add: h1_def end_header_def) (rule heap_shape_cong [THEN iffD2, rotated -1], simp_all)
  obtain m1 where m1: "smem_insert (of_nat ?p) (of_nat (?p + ?c)) h1 = h1\<lparr>ram := m1\<rparr>"
    "layout ?B (self h) m1 0 0 ?F" "end_header (h1\<lparr>ram := m1\<rparr>)" "only_headers ?B {?p, ?p + ?c, ?p + n} (ram h) m1"
    using smem_insert_ok [OF rep1 good, of ?c] s(1) by (auto simp: h1_def)
  define h3 where "h3 = h1\<lparr>ram := m1, lfree := ?B + of_nat (first_free 0 ?F)\<rparr>"
  have tot: "total ?F = total ?L" using s(1) by simp
  have sh3: "heap_shape h3 (total ?F)"
    using sh unfolding tot by (rule heap_shape_cong [THEN iffD2, rotated -1]) (simp_all add: h3_def h1_def)
  have lfe: "(if ?q < lfree h then h1\<lparr>ram := m1, lfree := ?q\<rparr> else h1\<lparr>ram := m1\<rparr>) = h3"
  proof (cases "first_free 0 xs = ?p")
    case True
    then have f: "first_free 0 ?F = total ?X" "first_free 0 ?L = first_free (?p + n) ys"
      using good goodF(2) by (simp_all add: first_free_append)
    have "total ?X < first_free 0 ?L" "first_free 0 ?L \<le> total ?L"
      using first_free_ge [of "?p + n" ys] s unfolding f(2) by auto
    then have "?q < lfree h"
      unfolding lf by (intro heap_addr_less(1) [OF sh, THEN iffD2]) simp_all
    then show ?thesis using f by (simp add: h3_def)
  next
    case False
    then have f: "first_free 0 ?F = first_free 0 xs" "first_free 0 ?L = first_free 0 xs"
      using good by (simp_all add: first_free_append)
    have "first_free 0 xs \<le> total ?X" "total ?X \<le> total ?L"
      using first_free_ge [of 0 xs] s by simp_all
    then have "\<not> ?q < lfree h"
      unfolding lf f(2) by (subst heap_addr_less(1) [OF sh]) simp_all
    then show ?thesis using lf f by (simp add: h3_def h1_def)
  qed
  have ptr2: "(of_nat ?p :: 32 word) + SIZEOF_STRUCT_MEM + sz = of_nat (?p + ?c)" by simp
  have sq: "?B + of_nat (?p + ?c) = ?q" by simp
  have run: "smem_shrink (of_nat ?p) (of_nat n - 12) sz h = plug_holes ?q h3"
  proof -
    have a: "heap_ptr h1 = ?B" "lfree (h1\<lparr>ram := m1\<rparr>) = lfree h" by (simp_all add: h1_def)
    have b: "h1\<lparr>ram := m1\<rparr>\<lparr>lfree := ?q\<rparr> = h1\<lparr>ram := m1, lfree := ?q\<rparr>" by simp
    show ?thesis
      unfolding smem_shrink_def Let_def h1_def [symmetric] ptr2 m1(1) a sq lfe by (rule refl)
  qed
  obtain m' where m': "plug_holes ?q h3 = Some (h3\<lparr>ram := m'\<rparr>)"
    "layout ?B (self h) m' 0 0 (merge_left ?X (absorb ?n ys))" "end_header (h3\<lparr>ram := m'\<rparr>)"
    "only_headers ?B (heads 0 ?F) m1 m'"
  proof -
    have "\<exists>m'. plug_holes (heap_ptr h3 + of_nat (total ?X)) h3 = Some (h3\<lparr>ram := m'\<rparr>) \<and>
       layout (heap_ptr h3) (self h3) m' 0 0 (merge_left ?X (absorb ?n ys)) \<and> end_header (h3\<lparr>ram := m'\<rparr>) \<and>
       only_headers (heap_ptr h3) (heads 0 ?F) (ram h3) m'"
    proof (rule plug_holes_ok [OF sh3 _ _ goodF(1)])
      show "heap_layout h3 0 0 ?F" using m1(2) by (simp add: h3_def h1_def)
      show "end_header h3" using m1(3) by (simp add: h3_def h1_def end_header_def)
    qed (simp add: h3_def h1_def)
    then show ?thesis using that by (auto simp: h3_def h1_def)
  qed
  have ml: "merge_left ?X (absorb ?n ys) = xs @ (?c, True) # absorb ?n ys"
    by (simp add: merge_left_def)
  note mp = merge_left_props [OF goodF(2) absorb_props(2) [OF goodF(3,4,5)]]
  have "heap_rep (h3\<lparr>ram := m'\<rparr>) (merge_left ?X (absorb ?n ys))"
    unfolding heap_rep_def
  proof (intro conjI)
    have "total (merge_left ?X (absorb ?n ys)) = total ?F"
      using mp(1) absorb_props(1) [OF goodF(3,4,5)] by simp
    then show "heap_shape (h3\<lparr>ram := m'\<rparr>) (total (merge_left ?X (absorb ?n ys)))"
      using sh3 by simp
    show "good (merge_left ?X (absorb ?n ys))" by (rule mp(2))
    show "no_adjacent (merge_left ?X (absorb ?n ys))"
      using na by (intro no_adjacent_merge) (auto simp: no_adjacent_append no_adjacent_Cons)
    show "lfree (h3\<lparr>ram := m'\<rparr>) = heap_ptr (h3\<lparr>ram := m'\<rparr>) + of_nat (first_free 0 (merge_left ?X (absorb ?n ys)))"
      using first_free_merge(1) [OF goodF(2,4)] by (simp add: h3_def h1_def)
    show "mem_used (h3\<lparr>ram := m'\<rparr>) = of_nat (used_total (merge_left ?X (absorb ?n ys)))"
      using us mp(4) absorb_props(4) [OF goodF(3,4,5)] by (simp add: h3_def h1_def)
  qed (use m'(2,3) in \<open>simp_all add: h3_def h1_def\<close>)
  moreover have "only_headers ?B (heads 0 ?F) (ram h) m'"
  proof (rule only_headers_trans)
    show "only_headers ?B (heads 0 ?F) (ram h) m1"
      using m1(4) by (rule only_headers_mono) (use s(1) in \<open>simp add: heads_append\<close>)
  qed (rule m'(4))
  ultimately show ?thesis
    using run m'(1) unfolding ml by (intro exI [of _ "h3\<lparr>ram := m'\<rparr>"]) (simp add: h3_def h1_def same_heap_def)
qed

end
