(* ===== verification/Smem_Client.thy ===== *)
theory Smem_Client
  imports Smem_Ops
begin

text \<open>
  What the heap promises to its clients: blocks that are handed out do not overlap, and their contents
  are kept until they are given back. The abstract heap of the clients maps the address of a live block
  to its contents.
\<close>

section \<open>Data and headers\<close>

lemma layout_heads:
  "(\<And>q x. q \<in> heads p bs \<Longrightarrow> in_span (B + of_nat q) 12 x \<Longrightarrow> m' x = m x)
     \<Longrightarrow> layout B S m' pr p bs = layout B S m pr p bs"
proof (induction bs arbitrary: p pr)
  case (Cons b bs)
  obtain n u where b: "b = (n, u)" by (cases b)
  have "hdr m' (B + of_nat p) x y z = hdr m (B + of_nat p) x y z" for x y z
    by (rule hdr_cong) (rule Cons.prems [of p], simp_all add: b)
  moreover have "layout B S m' p (p + n) bs = layout B S m p (p + n) bs"
    by (rule Cons.IH) (rule Cons.prems, simp_all add: b)
  ultimately show ?case by (simp add: b)
qed simp

lemma data_not_header:
  assumes "heap_shape h (total bs)" "good bs" "(q, n) \<in> used_at 0 bs" "r \<in> heads 0 bs" "12 \<le> i" "i < n"
  shows "\<not> in_span (heap_ptr h + of_nat r) 12 (heap_ptr h + of_nat (q + i))"
proof -
  have "q + n \<le> total bs" "r \<le> total bs"
    using used_at_bounds [OF assms(3)] heads_bounds [OF assms(4)] by auto
  moreover have "unat (heap_ptr h) + total bs + 12 \<le> 2 ^ 32"
    using assms(1) by (unfold heap_shape_def) blast
  ultimately have "in_span (heap_ptr h + of_nat r) 12 (heap_ptr h + of_nat (q + i)) \<longleftrightarrow> r \<le> q + i \<and> q + i < r + 12"
    using assms(6) by (intro in_span_offset) linarith+
  then show ?thesis
    using heads_used [OF assms(2-4)] assms(5,6) by auto
qed

lemma data_kept:
  assumes "only_headers (heap_ptr h) (heads 0 bs) m m'" "heap_shape h (total bs)" "good bs" "(q, n) \<in> used_at 0 bs"
    "12 \<le> i" "i < n"
  shows "m' (heap_ptr h + of_nat (q + i)) = m (heap_ptr h + of_nat (q + i))"
proof -
  have "\<forall>r \<in> heads 0 bs. \<not> in_span (heap_ptr h + of_nat r) 12 (heap_ptr h + of_nat (q + i))"
    using data_not_header [OF assms(2-4) _ assms(5,6)] by blast
  then show ?thesis using assms(1) by (simp add: only_headers_def)
qed

section \<open>Live blocks\<close>

type_synonym contents = "32 word \<Rightarrow> 8 word list option"

definition data_at :: "smem \<Rightarrow> nat \<Rightarrow> 32 word" where
  "data_at h q = heap_ptr h + of_nat (q + 12)"

definition holds :: "smem \<Rightarrow> 32 word \<Rightarrow> 8 word list \<Rightarrow> bool" where
  "holds h a xs \<longleftrightarrow> read_block (ram h) a (length xs) = xs"

lemma holds_iff: "holds h a xs \<longleftrightarrow> (\<forall>i < length xs. ram h (a + of_nat i) = xs ! i)"
  by (auto simp: holds_def list_eq_iff_nth_eq)

definition client_inv :: "contents \<Rightarrow> smem \<Rightarrow> blocks \<Rightarrow> bool" where
  "client_inv live h bs \<longleftrightarrow> heap_rep h bs \<and> (\<forall>(q, n) \<in> used_at 0 bs. 16 \<le> n) \<and>
     dom live = (\<lambda>(q, n). data_at h q) ` used_at 0 bs \<and>
     (\<forall>(q, n) \<in> used_at 0 bs. \<forall>xs. live (data_at h q) = Some xs \<longrightarrow> length xs + 12 \<le> n \<and> holds h (data_at h q) xs)"

lemma client_invD:
  assumes "client_inv live h bs"
  shows "heap_rep h bs" "heap_shape h (total bs)" "good bs"
    "(q, n) \<in> used_at 0 bs \<Longrightarrow> 16 \<le> n"
    "(q, n) \<in> used_at 0 bs \<Longrightarrow> \<exists>xs. live (data_at h q) = Some xs"
    "(q, n) \<in> used_at 0 bs \<Longrightarrow> live (data_at h q) = Some xs \<Longrightarrow> length xs + 12 \<le> n \<and> holds h (data_at h q) xs"
proof -
  show "heap_rep h bs" "heap_shape h (total bs)" "good bs" "(q, n) \<in> used_at 0 bs \<Longrightarrow> 16 \<le> n"
    "(q, n) \<in> used_at 0 bs \<Longrightarrow> live (data_at h q) = Some xs \<Longrightarrow> length xs + 12 \<le> n \<and> holds h (data_at h q) xs"
    using assms by (auto simp: client_inv_def heap_rep_def)
  assume "(q, n) \<in> used_at 0 bs"
  then have "data_at h q \<in> dom live"
    using assms by (force simp: client_inv_def)
  then show "\<exists>xs. live (data_at h q) = Some xs" by auto
qed

lemma client_inv_live:
  assumes "client_inv live h bs" "live a = Some xs"
  obtains q n where "(q, n) \<in> used_at 0 bs" "a = data_at h q" "length xs + 12 \<le> n" "holds h a xs" "16 \<le> n"
proof -
  have "a \<in> (\<lambda>(q, n). data_at h q) ` used_at 0 bs"
    using assms by (auto simp: client_inv_def)
  then obtain q n where "(q, n) \<in> used_at 0 bs" "a = data_at h q" by auto
  with assms show ?thesis
    using client_invD(4,6) [OF assms(1)] by (intro that) auto
qed

lemma data_at_inj:
  assumes "heap_shape h (total bs)" "(q, n) \<in> used_at 0 bs" "(r, k) \<in> used_at 0 bs" "12 \<le> n" "12 \<le> k"
  shows "data_at h q = data_at h r \<longleftrightarrow> q = r"
proof -
  have "q + 12 \<le> total bs" "r + 12 \<le> total bs"
    using used_at_bounds [OF assms(2)] used_at_bounds [OF assms(3)] assms(4,5) by auto
  then show ?thesis
    unfolding data_at_def using heap_addr_less(3) [OF assms(1)] by auto
qed

lemma used_at_unique:
  assumes "(q, n) \<in> used_at 0 bs" "(q, k) \<in> used_at 0 bs" "0 < n" "0 < k"
  shows "n = k"
  using used_at_apart [OF assms(1,2)] assms(3,4) by auto

lemma holds_kept:
  assumes "only_headers (heap_ptr h) (heads 0 bs) (ram h) (ram h')" "heap_shape h (total bs)" "good bs"
    "(q, n) \<in> used_at 0 bs" "length xs + 12 \<le> n"
  shows "holds h' (data_at h q) xs \<longleftrightarrow> holds h (data_at h q) xs"
proof -
  have "ram h' (data_at h q + of_nat i) = ram h (data_at h q + of_nat i)" if "i < length xs" for i
    using data_kept [OF assms(1-4), of "12 + i"] that assms(5) by (simp add: data_at_def add.assoc)
  then show ?thesis by (simp add: holds_iff)
qed

lemma same_heap_data: "same_heap h h' \<Longrightarrow> data_at h' q = data_at h q"
  by (simp add: same_heap_def data_at_def)

section \<open>Operations on live blocks\<close>

lemma client_alloc:
  assumes inv: "client_inv live h bs" and obj: "smem_check k h = Some ()" and nz: "sz \<noteq> 0"
  shows "\<exists>p h'. rt_smem_alloc sz k h = Some (p, h') \<and> same_heap h h' \<and>
     (p = 0 \<longrightarrow> h' = h \<and> find_fit (unat (smem_request sz)) 0 bs = None) \<and>
     (p \<noteq> 0 \<longrightarrow> live p = None \<and> (\<forall>len \<le> unat (smem_request sz).
        \<exists>bs'. client_inv (live(p \<mapsto> read_block (ram h') p len)) h' bs'))"
proof (cases "find_fit (unat (smem_request sz)) 0 bs")
  case None
  then show ?thesis
    using rt_smem_alloc_ok(1) [OF client_invD(1) [OF inv] obj nz] by auto
next
  case (Some p)
  let ?r = "unat (smem_request sz)"
  obtain xs n ys h' where bs: "bs = xs @ (n, False) # ys" "p = total xs" "?r + 12 \<le> n"
    and alloc: "rt_smem_alloc sz k h = Some (heap_ptr h + of_nat (p + 12), h')"
    and sm: "same_heap h h'" and rep': "heap_rep h' (xs @ carve ?r n @ ys)"
    and w: "only_headers (heap_ptr h) (heads 0 (xs @ carve ?r n @ ys)) (ram h) (ram h')"
    using rt_smem_alloc_ok(2) [OF client_invD(1) [OF inv] obj nz Some] by blast
  let ?N = "xs @ carve ?r n @ ys" and ?a = "data_at h p"
  have gN: "good ?N" and sh: "heap_shape h (total bs)" and good: "good bs"
    using rep' client_invD(2,3) [OF inv] by (auto simp: heap_rep_def)
  note cp = carve_props [OF bs(3) request_ok(1)]
  have n: "4 dvd n" using good by (simp add: bs(1))
  define j where "j = fst (hd (carve ?r n))"
  have j: "?r + 12 \<le> j" using cp(3) n request_ok(2) by (simp add: j_def)
  have tot: "total ?N = total bs" using cp(1) n request_ok(2) by (simp add: bs(1))
  have shN: "heap_shape h (total ?N)" using sh by (simp only: tot)
  have used: "used_at 0 ?N = insert (p, j) (used_at 0 bs)"
    using used_at_carve [OF bs(3), of 0 xs ys] by (simp add: bs(1,2) j_def)
  have pos: "12 \<le> m" if "(q, m) \<in> used_at 0 ?N" for q m
    using used_at_good [OF that gN] by simp
  have fresh: "q \<noteq> p" if "(q, m) \<in> used_at 0 bs" for q m
  proof
    assume "q = p"
    moreover have "q + m \<le> p \<or> p + n \<le> q"
    proof -
      have "(q, m) \<in> used_at 0 xs \<or> (q, m) \<in> used_at (p + n) ys"
        using that by (auto simp: bs used_at_append)
      then show ?thesis
        using used_at_bounds [of q m 0 xs] used_at_bounds [of q m "p + n" ys] by (auto simp: bs(2))
    qed
    ultimately show False using pos [of q m] that bs(3) used request_ok(2) [of sz] by auto
  qed
  have fa: "data_at h q \<noteq> ?a" if "(q, m) \<in> used_at 0 bs" for q m
    using data_at_inj [OF shN, of q m p j] fresh [OF that] that pos used by auto
  have none: "live ?a = None"
  proof (rule ccontr)
    assume "live ?a \<noteq> None"
    then obtain zs where "live ?a = Some zs" by auto
    from client_inv_live [OF inv this] show False using fa by metis
  qed
  have "client_inv (live(?a \<mapsto> read_block (ram h') ?a len)) h' ?N" if len: "len \<le> ?r" for len
    unfolding client_inv_def
  proof (intro conjI)
    show "heap_rep h' ?N" by (rule rep')
    show "\<forall>(q, n) \<in> used_at 0 ?N. 16 \<le> n"
      using j request_ok(2) [of sz] client_invD(4) [OF inv] unfolding used by auto
    show "dom (live(?a \<mapsto> read_block (ram h') ?a len)) = (\<lambda>(q, n). data_at h' q) ` used_at 0 ?N"
      using inv unfolding used by (auto simp: client_inv_def same_heap_data [OF sm])
    show "\<forall>(q, n) \<in> used_at 0 ?N. \<forall>xs. (live(?a \<mapsto> read_block (ram h') ?a len)) (data_at h' q) = Some xs
        \<longrightarrow> length xs + 12 \<le> n \<and> holds h' (data_at h' q) xs"
    proof (intro ballI, clarify)
      fix q m zs
      assume q: "(q, m) \<in> used_at 0 ?N"
        and l: "(live(?a \<mapsto> read_block (ram h') ?a len)) (data_at h' q) = Some zs"
      have d: "data_at h' q = data_at h q" by (rule same_heap_data [OF sm])
      show "length zs + 12 \<le> m \<and> holds h' (data_at h' q) zs"
      proof (cases "(q, m) \<in> used_at 0 bs")
        case True
        then have "live (data_at h q) = Some zs" using l fa [OF True] by (simp add: d)
        then have "length zs + 12 \<le> m" "holds h (data_at h q) zs"
          using client_invD(6) [OF inv True] by auto
        then show ?thesis
          using holds_kept [OF w shN gN q, of zs] by (simp add: d)
      next
        case False
        then have "q = p" "m = j" using q used by auto
        then show ?thesis using l j len by (auto simp: same_heap_data [OF sm] holds_def)
      qed
    qed
  qed
  moreover have "?a \<noteq> 0"
    using data_addr(1) [of h' "xs" j True] rep' sm j request_ok(2) [of sz]
  proof -
    obtain rest where "carve ?r n = (j, True) # rest"
      using cp(4,5) n request_ok(2) [of sz] by (cases "carve ?r n") (auto simp: j_def)
    then have "heap_rep h' (xs @ (j, True) # rest @ ys)" using rep' by simp
    from data_addr(1) [OF this] show ?thesis
      using j request_ok(2) [of sz] sm by (simp add: data_at_def bs(2) same_heap_def)
  qed
  ultimately show ?thesis
    using alloc sm none by (intro exI [of _ ?a] exI [of _ h']) (auto simp: data_at_def)
qed

text \<open>A new block is not in the way of a copy from an old one.\<close>

lemma alloc_forward:
  assumes inv: "client_inv live h bs" and obj: "smem_check k h = Some ()" and nz: "sz \<noteq> 0"
    and alloc: "rt_smem_alloc sz k h = Some (r, h')" "r \<noteq> 0"
    and q: "(q, m) \<in> used_at 0 bs" "unat w \<le> m"
  shows "forward r (data_at h q) w"
proof -
  let ?r = "unat (smem_request sz)"
  note rep = client_invD(1) [OF inv] and sh = client_invD(2) [OF inv]
  obtain p where "find_fit ?r 0 bs = Some p"
    using rt_smem_alloc_ok(1) [OF rep obj nz] alloc by (cases "find_fit ?r 0 bs") auto
  from rt_smem_alloc_ok(2) [OF rep obj nz this] alloc(1) obtain xs n ys
    where bs: "bs = xs @ (n, False) # ys" "p = total xs" "?r + 12 \<le> n" and r: "r = data_at h p"
    by (auto simp: data_at_def)
  have ap: "q + m \<le> p \<or> p + n \<le> q"
  proof -
    have "(q, m) \<in> used_at 0 xs \<or> (q, m) \<in> used_at (p + n) ys"
      using q(1) by (auto simp: bs used_at_append)
    then show ?thesis
      using used_at_bounds [of q m 0 xs] used_at_bounds [of q m "p + n" ys] by (auto simp: bs(2))
  qed
  have lim: "total bs < 2 ^ 32" by (rule heap_shape_bounds(1) [OF sh])
  have qm: "q + m \<le> total bs" using used_at_bounds [OF q(1)] by simp
  have pn: "p + n \<le> total bs" by (simp add: bs)
  have "unat w \<le> unat (r - data_at h q)"
  proof (cases "q \<le> p")
    case True
    then have "r - data_at h q = of_nat (p - q)" by (simp add: r data_at_def of_nat_diff)
    moreover have "unat (of_nat (p - q) :: 32 word) = p - q" using pn lim by (intro unat_of_nat32) simp
    ultimately show ?thesis using ap True q(2) bs(3) by auto
  next
    case False
    then have e: "data_at h q - r = of_nat (q - p)" by (simp add: r data_at_def of_nat_diff)
    have "unat (of_nat (q - p) :: 32 word) = q - p" using qm lim by (intro unat_of_nat32) simp
    then have u: "unat (data_at h q - r) = q - p" using e by simp
    have "r - data_at h q = - (data_at h q - r)" by simp
    then have "unat (r - data_at h q) = 2 ^ 32 - (q - p)"
      using u False unat_sub_if' [of 0 "data_at h q - r"] by simp
    then show ?thesis using q(2) qm lim by simp
  qed
  then show ?thesis by (simp add: forward_def)
qed

text \<open>The contents of one block change.\<close>

lemma client_write:
  assumes inv: "client_inv live h bs" and a: "live a = Some xs"
    and m': "\<And>x. \<not> in_span a (length xs) x \<Longrightarrow> m' x = ram h x"
  shows "client_inv (live(a \<mapsto> read_block m' a (length xs))) (h\<lparr>ram := m'\<rparr>) bs"
proof -
  obtain q n where q: "(q, n) \<in> used_at 0 bs" "a = data_at h q" "length xs + 12 \<le> n"
    using client_inv_live [OF inv a] by metis
  note sh = client_invD(2) [OF inv] and good = client_invD(3) [OF inv]
  have bnd: "q + n \<le> total bs" using used_at_bounds [OF q(1)] by simp
  have lim: "unat (heap_ptr h) + total bs + 12 \<le> 2 ^ 32"
    using sh by (unfold heap_shape_def) blast
  have data: "\<exists>i. 12 \<le> i \<and> i < n \<and> x = heap_ptr h + of_nat (q + i)" if "in_span a (length xs) x" for x
  proof -
    define i where "i = unat (x - a)"
    have "i < length xs" "x = a + of_nat i" using that by (simp_all add: in_span_def i_def)
    then show ?thesis using q(2,3) by (intro exI [of _ "12 + i"]) (simp add: data_at_def add.assoc)
  qed
  have head: "m' x = ram h x" if "r \<in> heads 0 bs" "in_span (heap_ptr h + of_nat r) 12 x" for r x
    using data [of x] data_not_header [OF sh good q(1) that(1)] that(2) by (metis m')
  have rep: "heap_rep (h\<lparr>ram := m'\<rparr>) bs"
  proof -
    have "heap_layout h 0 0 bs" "end_header h" using client_invD(1) [OF inv] by (auto simp: heap_rep_def)
    then have "layout (heap_ptr h) (self h) m' 0 0 bs"
      using layout_heads [of 0 bs "heap_ptr h" m' "ram h"] head by blast
    moreover have "end_header (h\<lparr>ram := m'\<rparr>)"
    proof -
      have e: "heap_end h = heap_ptr h + of_nat (total bs)" using sh by (unfold heap_shape_def) blast
      have "m' x = ram h x" if "in_span (heap_end h) 12 x" for x
        using head [of "total bs" x] that heads_end [of 0 bs] by (simp add: e)
      then have "hdr m' (heap_end h) u v w = hdr (ram h) (heap_end h) u v w" for u v w
        by (rule hdr_cong)
      then show ?thesis using \<open>end_header h\<close> by (simp add: end_header_iff)
    qed
    ultimately show ?thesis using client_invD(1) [OF inv] by (simp add: heap_rep_def)
  qed
  have other: "holds (h\<lparr>ram := m'\<rparr>) (data_at h r) zs \<longleftrightarrow> holds h (data_at h r) zs"
    if "(r, k) \<in> used_at 0 bs" "r \<noteq> q" "length zs + 12 \<le> k" for r k zs
  proof -
    have "m' (data_at h r + of_nat i) = ram h (data_at h r + of_nat i)" if "i < length zs" for i
    proof (rule m')
      have ap: "r + k \<le> q \<or> q + n \<le> r"
        using used_at_apart [OF \<open>(r, k) \<in> used_at 0 bs\<close> q(1)] \<open>r \<noteq> q\<close> by auto
      have "r + k \<le> total bs" using used_at_bounds [OF \<open>(r, k) \<in> used_at 0 bs\<close>] by simp
      then have "in_span (heap_ptr h + of_nat (q + 12)) (length xs) (heap_ptr h + of_nat (r + 12 + i))
          \<longleftrightarrow> q + 12 \<le> r + 12 + i \<and> r + 12 + i < q + 12 + length xs"
        using lim bnd q(3) that \<open>length zs + 12 \<le> k\<close> by (intro in_span_offset) linarith+
      then show "\<not> in_span a (length xs) (data_at h r + of_nat i)"
        using ap that \<open>length zs + 12 \<le> k\<close> q(2,3) by (auto simp: data_at_def add.assoc)
    qed
    then show ?thesis by (simp add: holds_iff)
  qed
  have d: "data_at (h\<lparr>ram := m'\<rparr>) r = data_at h r" for r by (simp add: data_at_def)
  have neq: "data_at h r \<noteq> a" if "(r, k) \<in> used_at 0 bs" "r \<noteq> q" for r k
    using data_at_inj [OF sh that(1) q(1)] that client_invD(4) [OF inv that(1)] client_invD(4) [OF inv q(1)]
    by (auto simp: q(2))
  show ?thesis
    unfolding client_inv_def d
  proof (intro conjI)
    show "dom (live(a \<mapsto> read_block m' a (length xs))) = (\<lambda>(q, n). data_at h q) ` used_at 0 bs"
      using inv a by (auto simp: client_inv_def)
    show "\<forall>(r, k) \<in> used_at 0 bs. \<forall>zs. (live(a \<mapsto> read_block m' a (length xs))) (data_at h r) = Some zs
        \<longrightarrow> length zs + 12 \<le> k \<and> holds (h\<lparr>ram := m'\<rparr>) (data_at h r) zs"
    proof (intro ballI, clarify)
      fix r k zs
      assume r: "(r, k) \<in> used_at 0 bs" and l: "(live(a \<mapsto> read_block m' a (length xs))) (data_at h r) = Some zs"
      show "length zs + 12 \<le> k \<and> holds (h\<lparr>ram := m'\<rparr>) (data_at h r) zs"
      proof (cases "r = q")
        case True
        then have "k = n" using used_at_unique [of q k bs n] r q(1) client_invD(4) [OF inv] by fastforce
        then show ?thesis using l q by (auto simp: True holds_def)
      next
        case False
        then have "live (data_at h r) = Some zs" using l neq [OF r] by simp
        then show ?thesis using client_invD(6) [OF inv r] other [OF r False] by blast
      qed
    qed
  qed (use rep client_invD(4) [OF inv] in auto)
qed

lemma client_prefix:
  assumes "client_inv live h bs" "live a = Some xs"
  shows "client_inv (live(a \<mapsto> take n xs)) h bs"
proof -
  have "dom (live(a \<mapsto> take n xs)) = dom live" using assms(2) by auto
  moreover have "holds h a xs \<Longrightarrow> holds h a (take n xs)" by (auto simp: holds_iff)
  ultimately show ?thesis
    using assms by (fastforce simp: client_inv_def split: if_splits)
qed

lemma client_resize:
  assumes "client_inv live h bs" "(q, n) \<in> used_at 0 bs" "len + 12 \<le> n"
  shows "client_inv (live(data_at h q \<mapsto> read_block (ram h) (data_at h q) len)) h bs"
proof -
  have "dom (live(data_at h q \<mapsto> read_block (ram h) (data_at h q) len)) = dom live"
    using client_invD(5) [OF assms(1,2)] by auto
  moreover have "length zs + 12 \<le> m \<and> holds h (data_at h r) zs"
    if r: "(r, m) \<in> used_at 0 bs" "(live(data_at h q \<mapsto> read_block (ram h) (data_at h q) len)) (data_at h r) = Some zs"
    for r m zs
  proof (cases "r = q")
    case True
    then have "m = n"
      using used_at_unique [of q m bs n] r(1) assms client_invD(4) [OF assms(1)] by fastforce
    then show ?thesis using r(2) assms(3) True by (auto simp: holds_def)
  next
    case False
    then have "data_at h r \<noteq> data_at h q"
      using data_at_inj [OF client_invD(2) [OF assms(1)] r(1) assms(2)]
        client_invD(4) [OF assms(1) r(1)] client_invD(4) [OF assms(1,2)] by auto
    then show ?thesis using client_invD(6) [OF assms(1) r(1)] r(2) by simp
  qed
  ultimately show ?thesis
    using assms(1) by (auto simp: client_inv_def)
qed

text \<open>Blocks in use, without one of them.\<close>

lemma used_at_remove:
  assumes "good (xs @ (n, u) # ys)" "0 < k"
  shows "(q, k) \<in> used_at 0 xs \<union> used_at (total xs + n) ys \<Longrightarrow> q \<noteq> total xs"
  using used_at_bounds [of q k 0 xs] used_at_bounds [of q k "total xs + n" ys] assms by auto

lemma client_free:
  assumes inv: "client_inv live h bs" and obj: "smem_check k h = Some ()" and a: "live a = Some cs"
  shows "\<exists>h' bs'. rt_smem_free a k h = Some h' \<and> same_heap h h' \<and> client_inv (live(a := None)) h' bs'"
proof -
  obtain p n where p: "(p, n) \<in> used_at 0 bs" "a = data_at h p" "16 \<le> n"
    using client_inv_live [OF inv a] by metis
  obtain xs ys where bs: "bs = xs @ (n, True) # ys" "p = total xs"
    using used_at_split [OF p(1)] by auto
  let ?N = "merge_left xs (absorb n ys)"
  note sh = client_invD(2) [OF inv] and good = client_invD(3) [OF inv]
  have n: "12 < n" using p(3) by simp
  obtain h' where free: "rt_smem_free a k h = Some h'" and sm: "same_heap h h'" and rep': "heap_rep h' ?N"
    and w: "only_headers (heap_ptr h) (heads 0 bs) (ram h) (ram h')"
    using rt_smem_free_ok [OF client_invD(1) [OF inv, unfolded bs(1)] obj n] by (auto simp: p(2) data_at_def bs)
  have g: "good xs" "good ys" "12 \<le> n" "4 dvd n" using good by (auto simp: bs(1))
  have used: "used_at 0 ?N = used_at 0 xs \<union> used_at (p + n) ys"
    using merge_left_props(3) [OF g(1) absorb_props(2) [OF g(2-4)]] absorb_props(3) [OF g(2-4)] by (simp add: bs(2))
  have old: "used_at 0 bs = insert (p, n) (used_at 0 ?N)"
    unfolding used by (auto simp: bs used_at_append)
  have new: "(q, m) \<in> used_at 0 bs \<and> q \<noteq> p" if "(q, m) \<in> used_at 0 ?N" for q m
    using that used_at_remove [of xs n True ys m q] good client_invD(4) [OF inv, of q m] old
    unfolding used by (auto simp: bs)
  have da: "data_at h q \<noteq> a" if "(q, m) \<in> used_at 0 ?N" for q m
    using data_at_inj [OF sh, of q m p n] new [OF that] p client_invD(4) [OF inv, of q m] by auto
  have "client_inv (live(a := None)) h' ?N"
    unfolding client_inv_def
  proof (intro conjI)
    show "\<forall>(q, n) \<in> used_at 0 ?N. 16 \<le> n"
      using client_invD(4) [OF inv] new by blast
    show "dom (live(a := None)) = (\<lambda>(q, n). data_at h' q) ` used_at 0 ?N"
    proof -
      have "dom live = insert a ((\<lambda>(q, n). data_at h q) ` used_at 0 ?N)"
        using inv unfolding client_inv_def old by (simp add: p(2))
      then show ?thesis using da by (auto simp: same_heap_data [OF sm])
    qed
    show "\<forall>(q, n) \<in> used_at 0 ?N. \<forall>xs. (live(a := None)) (data_at h' q) = Some xs
        \<longrightarrow> length xs + 12 \<le> n \<and> holds h' (data_at h' q) xs"
    proof (intro ballI, clarify)
      fix q m zs
      assume q: "(q, m) \<in> used_at 0 ?N" and l: "(live(a := None)) (data_at h' q) = Some zs"
      have "live (data_at h q) = Some zs" using l by (simp add: same_heap_data [OF sm] split: if_splits)
      then show "length zs + 12 \<le> m \<and> holds h' (data_at h' q) zs"
        using client_invD(6) [OF inv, of q m zs] new [OF q] holds_kept [OF w sh good, of q m zs]
        by (simp add: same_heap_data [OF sm])
    qed
  qed (rule rep')
  then show ?thesis using free sm by blast
qed

lemma client_shrink:
  assumes inv: "client_inv live h bs" and a: "live a = Some cs" and n: "(p, n) \<in> used_at 0 bs" "a = data_at h p"
    and s: "unat sz + 36 < n" "4 dvd unat sz" "4 \<le> unat sz"
  shows "\<exists>h' bs'. smem_shrink (of_nat p) (of_nat n - 12) sz h = Some h' \<and> same_heap h h' \<and>
     (\<forall>i < unat sz. ram h' (a + of_nat i) = ram h (a + of_nat i)) \<and>
     (\<forall>len \<le> unat sz. client_inv (live(a \<mapsto> read_block (ram h') a len)) h' bs')"
proof -
  obtain xs ys where bs: "bs = xs @ (n, True) # ys" "p = total xs"
    using used_at_split [OF n(1)] by auto
  let ?c = "unat sz + 12" and ?k = "n - (unat sz + 12)"
  let ?F = "xs @ [(?c, True)] @ (?k, False) # ys" and ?N = "xs @ (?c, True) # absorb ?k ys"
  note sh = client_invD(2) [OF inv] and good = client_invD(3) [OF inv]
  obtain h' where run: "smem_shrink (of_nat p) (of_nat n - 12) sz h = Some h'" and sm: "same_heap h h'"
    and rep': "heap_rep h' ?N" and w: "only_headers (heap_ptr h) (heads 0 ?F) (ram h) (ram h')"
    using smem_shrink_ok [OF client_invD(1) [OF inv, unfolded bs(1)] s(1,2)] by (auto simp: bs(2))
  have g: "good xs" "good ys" "12 \<le> ?k" "4 dvd ?k" using good s by (auto simp: bs(1))
  have gF: "good ?F" and tF: "total ?F = total bs" using g s by (auto simp: bs(1))
  have shF: "heap_shape h (total ?F)" using sh by (simp only: tF)
  have used: "used_at 0 ?N = insert (p, ?c) (used_at 0 xs \<union> used_at (p + n) ys)"
    using absorb_props(3) [OF g(2-4)] s(1) by (auto simp: bs(2) used_at_append add.assoc)
  have usedF: "used_at 0 ?F = used_at 0 ?N"
    using s(1) unfolding used by (auto simp: bs(2) used_at_append add.assoc)
  have old: "used_at 0 bs = insert (p, n) (used_at 0 xs \<union> used_at (p + n) ys)"
    by (auto simp: bs used_at_append)
  have new: "(q, m) \<in> used_at 0 bs \<and> q \<noteq> p" if "(q, m) \<in> used_at 0 xs \<union> used_at (p + n) ys" for q m
    using that used_at_remove [of xs n True ys m q] good client_invD(4) [OF inv, of q m] old
    by (auto simp: bs)
  have p16: "16 \<le> n" using client_invD(4) [OF inv n(1)] .
  have da: "data_at h q \<noteq> a" if "(q, m) \<in> used_at 0 xs \<union> used_at (p + n) ys" for q m
    using data_at_inj [OF sh, of q m p n] new [OF that] n p16 client_invD(4) [OF inv, of q m] by auto
  have "client_inv (live(a \<mapsto> read_block (ram h') a len)) h' ?N" if len: "len \<le> unat sz" for len
    unfolding client_inv_def
  proof (intro conjI)
    show "\<forall>(q, n) \<in> used_at 0 ?N. 16 \<le> n"
      using client_invD(4) [OF inv] new s(3) unfolding used by auto
    show "dom (live(a \<mapsto> read_block (ram h') a len)) = (\<lambda>(q, n). data_at h' q) ` used_at 0 ?N"
    proof -
      have "dom live = insert a ((\<lambda>(q, n). data_at h q) ` (used_at 0 xs \<union> used_at (p + n) ys))"
        using inv unfolding client_inv_def old by (simp add: n(2))
      then show ?thesis unfolding used by (auto simp: same_heap_data [OF sm] n(2))
    qed
    show "\<forall>(q, n) \<in> used_at 0 ?N. \<forall>xs. (live(a \<mapsto> read_block (ram h') a len)) (data_at h' q) = Some xs
        \<longrightarrow> length xs + 12 \<le> n \<and> holds h' (data_at h' q) xs"
    proof (intro ballI, clarify)
      fix q m zs
      assume q: "(q, m) \<in> used_at 0 ?N" and l: "(live(a \<mapsto> read_block (ram h') a len)) (data_at h' q) = Some zs"
      show "length zs + 12 \<le> m \<and> holds h' (data_at h' q) zs"
      proof (cases "(q, m) \<in> used_at 0 xs \<union> used_at (p + n) ys")
        case True
        then have "live (data_at h q) = Some zs"
          using l da [OF True] by (simp add: same_heap_data [OF sm])
        then show ?thesis
          using client_invD(6) [OF inv, of q m zs] new [OF True] holds_kept [OF w shF gF, of q m zs] q usedF
          by (simp add: same_heap_data [OF sm])
      next
        case False
        then have "q = p" "m = ?c" using q unfolding used by auto
        then show ?thesis using l len by (auto simp: same_heap_data [OF sm] n(2) holds_def)
      qed
    qed
  qed (rule rep')
  moreover have "\<forall>i < unat sz. ram h' (a + of_nat i) = ram h (a + of_nat i)"
  proof (intro allI impI)
    fix i
    assume "i < unat sz"
    then show "ram h' (a + of_nat i) = ram h (a + of_nat i)"
      using data_kept [OF w shF gF, of p ?c "12 + i"] unfolding usedF used
      by (simp add: n(2) data_at_def add.assoc)
  qed
  ultimately show ?thesis using run sm by blast
qed

section \<open>Change of size\<close>

lemma align_sane:
  fixes sz :: "32 word"
  assumes "sz \<le> 0xFFFFFFFC"
  shows "4 dvd unat (RT_ALIGN sz 4)" "unat sz \<le> unat (RT_ALIGN sz 4)" "RT_ALIGN sz 4 = 0 \<longleftrightarrow> sz = 0"
    "unat (smem_request (RT_ALIGN sz 4)) = max 12 (unat (RT_ALIGN sz 4))"
proof -
  have u: "unat (RT_ALIGN sz 4) = (unat sz + 3) div 4 * 4"
    using assms by (intro RT_ALIGN_4_word) (simp add: word_le_nat_alt)
  show d: "4 dvd unat (RT_ALIGN sz 4)" "unat sz \<le> unat (RT_ALIGN sz 4)" unfolding u by auto
  show "RT_ALIGN sz 4 = 0 \<longleftrightarrow> sz = 0"
    by (auto simp: word_unat_eq_iff u)
  have b: "unat (RT_ALIGN sz 4) + 3 < 2 ^ 32"
  proof -
    have "unat (RT_ALIGN sz 4) < 2 ^ 32" using unsigned_less [of "RT_ALIGN sz 4", where 'a = nat] by simp
    moreover obtain c where c: "unat (RT_ALIGN sz 4) = 4 * c" using d(1) by (elim dvdE)
    ultimately have "c < 2 ^ 30" by simp
    then show ?thesis using c by simp
  qed
  have "unat (RT_ALIGN (RT_ALIGN sz 4) 4) = unat (RT_ALIGN sz 4)"
    unfolding RT_ALIGN_4_word [OF b] using d(1) by (elim dvdE) simp
  then show "unat (smem_request (RT_ALIGN sz 4)) = max 12 (unat (RT_ALIGN sz 4))"
    by (auto simp: smem_request_def Let_def word_less_nat_alt max_def)
qed

lemma client_realloc:
  assumes inv: "client_inv live h bs" and obj: "smem_check k h = Some ()" and a: "live a = Some cs"
    and sane: "sz \<le> 0xFFFFFFFC"
  shows "\<exists>r h' bs' fill. rt_smem_realloc a sz k h = Some (r, h') \<and> same_heap h h' \<and>
     (if sz = 0 then r = 0 \<and> client_inv (live(a := None)) h' bs'
      else if r = 0 then h' = h
      else (r = a \<or> live r = None) \<and> length fill = unat sz - length cs \<and>
        client_inv (live(a := None, r \<mapsto> take (unat sz) cs @ fill)) h' bs')"
proof -
  let ?s = "RT_ALIGN sz 4"
  obtain p n where p: "(p, n) \<in> used_at 0 bs" "a = data_at h p" "length cs + 12 \<le> n" "holds h a cs" "16 \<le> n"
    using client_inv_live [OF inv a] by metis
  obtain xs ys where bs: "bs = xs @ (n, True) # ys" "p = total xs"
    using used_at_split [OF p(1)] by auto
  note sh = client_invD(2) [OF inv] and good = client_invD(3) [OF inv] and rep = client_invD(1) [OF inv]
  have n: "12 < n" "12 \<le> n" using p(5) by auto
  have ar: "a = heap_ptr h + of_nat (total xs + 12)" by (simp add: p(2) data_at_def bs(2))
  note ad = data_addr [OF rep [unfolded bs(1)] n(1), folded ar]
  have lay: "heap_layout h 0 0 bs" using rep by (simp add: heap_rep_def)
  have nx: "next_off (heap_ptr h + of_nat p) h = of_nat (p + n)"
    using block_header(2) [OF sh [unfolded bs(1)] lay [unfolded bs(1)]] by (simp add: bs(2))
  have a12: "a - SIZEOF_STRUCT_MEM = heap_ptr h + of_nat p"
    using ad(3) by (simp add: bs(2))
  have un: "unat (of_nat n - (12 :: 32 word)) = n - 12" and nl: "n < 2 ^ 32"
  proof -
    have E: "total bs < 2 ^ 32" by (rule heap_shape_bounds(1) [OF sh])
    then show "n < 2 ^ 32" by (simp add: bs(1))
    have "of_nat n - (12 :: 32 word) = of_nat (n - 12)" using n by (simp add: of_nat_diff)
    moreover have "unat (of_nat (n - 12) :: 32 word) = n - 12" using E by (intro unat_of_nat32) (simp add: bs(1))
    ultimately show "unat (of_nat n - (12 :: 32 word)) = n - 12" by simp
  qed
  note al = align_sane [OF sane]
  have body: "rt_smem_realloc a sz k h = (
      if ?s > mem_size_aligned h then Some (RT_NULL, h)
      else if ?s = 0 then map_option (\<lambda>h1. (RT_NULL, h1)) (rt_smem_free a k h)
      else let size = of_nat n - 12 in
        if size = ?s then Some (a, h)
        else if ?s + SIZEOF_STRUCT_MEM + 12 < size then map_option (\<lambda>h1. (a, h1)) (smem_shrink (of_nat p) size ?s h)
        else do {
          (nmem, h1) \<leftarrow> rt_smem_alloc ?s k h;
          if nmem \<noteq> RT_NULL then do {
            let h2 = h1\<lparr>ram := rt_memcpy nmem a (if size < ?s then size else ?s) (ram h1)\<rparr>;
            h3 \<leftarrow> rt_smem_free a k h2;
            Some (nmem, h3) }
          else Some (nmem, h1) })"
  proof -
    have size: "next_off (heap_ptr h + of_nat p) h - (heap_ptr h + of_nat p - heap_ptr h) - SIZEOF_STRUCT_MEM = of_nat n - 12"
      using nx by simp
    show ?thesis
      unfolding rt_smem_realloc_def Let_def obj a12 size using ad(1,2,4,5) by (simp add: rt_assert_def)
  qed
  show ?thesis
  proof (cases "?s > mem_size_aligned h \<or> ?s = 0")
    case True
    show ?thesis
    proof (cases "?s = 0")
      case z: True
      then have "\<not> ?s > mem_size_aligned h" by simp
      then show ?thesis
        using client_free [OF inv obj a] al(3) z unfolding body by auto
    next
      case False
      then show ?thesis using True al(3) unfolding body by auto
    qed
  next
    case False
    then have nz: "?s \<noteq> 0" "sz \<noteq> 0" and bd: "\<not> ?s > mem_size_aligned h" using al(3) by auto
    have s4: "4 \<le> unat ?s" using al(1) nz(1) by (auto simp: word_unat_eq_iff elim!: dvdE)
    have keep: "take (unat sz) cs @ drop (length cs) (read_block m r (unat sz)) = read_block m r (unat sz)"
      if "\<And>i. i < length cs \<Longrightarrow> i < unat sz \<Longrightarrow> m (r + of_nat i) = cs ! i" for m r
      using that by (intro nth_equalityI) (auto simp: nth_append min_def not_less)
    have held: "ram h (a + of_nat i) = cs ! i" if "i < length cs" for i
      using p(4) that by (simp add: holds_iff)
    consider (same) "of_nat n - 12 = ?s" | (less) "of_nat n - 12 \<noteq> ?s" "?s + SIZEOF_STRUCT_MEM + 12 < of_nat n - 12"
      | (move) "of_nat n - 12 \<noteq> ?s" "\<not> ?s + SIZEOF_STRUCT_MEM + 12 < of_nat n - 12" by blast
    then show ?thesis
    proof cases
      case same
      then have "unat ?s = n - 12" using un by metis
      then have "client_inv (live(a \<mapsto> read_block (ram h) a (unat sz))) h bs"
        using client_resize [OF inv p(1), of "unat sz"] al(2) n by (simp add: p(2))
      then show ?thesis
        using same nz bd keep [of "ram h" a] held unfolding body
        by (intro exI [of _ a] exI [of _ h] exI [of _ bs] exI [of _ "drop (length cs) (read_block (ram h) a (unat sz))"])
          (simp add: Let_def ad(1))
    next
      case less
      have "unat ?s + 24 < n - 12"
      proof -
        have "unat ?s \<le> unat (mem_size_aligned h)" using bd by (simp add: word_less_nat_alt)
        moreover have "unat (mem_size_aligned h) + 24 < 2 ^ 32"
        proof -
          have "total bs = unat (mem_size_aligned h) + 12" "unat (heap_ptr h) + total bs + 12 \<le> 2 ^ 32"
            "heap_ptr h \<noteq> 0" using sh by (unfold heap_shape_def, blast+)
          then show ?thesis by (auto simp: unat_gt_0 [symmetric] simp del: unat_gt_0)
        qed
        ultimately have "unat (?s + 12 + 12) = unat ?s + 24" by (simp add: unat_word_ariths)
        then show ?thesis using less(2) un by (simp add: word_less_nat_alt)
      qed
      then have lt: "unat ?s + 36 < n" by simp
      obtain h' bs' where sh': "smem_shrink (of_nat p) (of_nat n - 12) ?s h = Some h'" "same_heap h h'"
        "\<forall>i < unat ?s. ram h' (a + of_nat i) = ram h (a + of_nat i)"
        "\<forall>len \<le> unat ?s. client_inv (live(a \<mapsto> read_block (ram h') a len)) h' bs'"
        using client_shrink [OF inv a p(1,2) lt al(1) s4] by blast
      have "take (unat sz) cs @ drop (length cs) (read_block (ram h') a (unat sz)) = read_block (ram h') a (unat sz)"
        using sh'(3) al(2) held by (intro keep) simp
      then show ?thesis
        using less nz bd sh' al(2) unfolding body
        by (intro exI [of _ a] exI [of _ h'] exI [of _ bs'] exI [of _ "drop (length cs) (read_block (ram h') a (unat sz))"])
          (simp add: Let_def ad(1))
    next
      case move
      obtain r h1 where alloc: "rt_smem_alloc ?s k h = Some (r, h1)" "same_heap h h1"
        and fail: "r = 0 \<Longrightarrow> h1 = h" and none: "r \<noteq> 0 \<Longrightarrow> live r = None"
        and inv1: "r \<noteq> 0 \<Longrightarrow> \<exists>bs'. client_inv (live(r \<mapsto> read_block (ram h1) r (unat ?s))) h1 bs'"
        using client_alloc [OF inv obj nz(1)] al(4) by fastforce
      show ?thesis
      proof (cases "r = 0")
        case True
        then show ?thesis using move nz bd alloc fail unfolding body by (simp add: Let_def)
      next
        case False
        then have ra: "r \<noteq> a" using none a by auto
        obtain bs1 where i1: "client_inv (live(r \<mapsto> read_block (ram h1) r (unat ?s))) h1 bs1"
          using inv1 [OF False] by blast
        define len where "len = (if of_nat n - 12 < ?s then of_nat n - 12 else ?s)"
        define cnt where "cnt = unat len"
        have cnt: "cnt \<le> unat ?s" "length cs \<le> n - 12 \<Longrightarrow> i < length cs \<Longrightarrow> i < unat ?s \<Longrightarrow> i < cnt" for i
          using un by (auto simp: cnt_def len_def word_less_nat_alt)
        define m2 where "m2 = rt_memcpy r a len (ram h1)"
        have m2: "m2 = mem_copy r a cnt (ram h1)"
        proof -
          have "unat len \<le> n" using un by (auto simp: len_def word_less_nat_alt)
          then have "forward r a len"
            unfolding p(2) by (rule alloc_forward [OF inv obj nz(1) alloc(1) False p(1)])
          then show ?thesis by (simp add: m2_def cnt_def rt_memcpy_copy)
        qed
        have i2: "client_inv (live(r \<mapsto> read_block m2 r (unat ?s))) (h1\<lparr>ram := m2\<rparr>) bs1"
          using client_write [OF i1, of r "read_block (ram h1) r (unat ?s)" m2] cnt(1)
          by (simp add: m2 mem_copy_def in_span_def)
        have chk: "smem_check k (h1\<lparr>ram := m2\<rparr>) = Some ()"
          using same_heap_check [OF alloc(2)] obj by (simp add: smem_check_def)
        obtain h3 bs3 where f: "rt_smem_free a k (h1\<lparr>ram := m2\<rparr>) = Some h3" "same_heap (h1\<lparr>ram := m2\<rparr>) h3"
          "client_inv (live(r \<mapsto> read_block m2 r (unat ?s), a := None)) h3 bs3"
          using client_free [OF i2 chk, of a cs] a ra by auto
        have i4: "client_inv (live(a := None, r \<mapsto> read_block m2 r (unat sz))) h3 bs3"
        proof -
          have "take (unat sz) (read_block m2 r (unat ?s)) = read_block m2 r (unat sz)"
            using al(2) by (intro nth_equalityI) simp_all
          then show ?thesis
            using client_prefix [OF f(3), of r _ "unat sz"] ra by (simp add: fun_upd_twist)
        qed
        have c1: "ram h1 (a + of_nat i) = cs ! i" if "i < length cs" for i
        proof -
          have "(live(r \<mapsto> read_block (ram h1) r (unat ?s))) a = Some cs" using a ra by simp
          then have "holds h1 a cs" by (rule client_inv_live [OF i1])
          then show ?thesis using that by (simp add: holds_iff)
        qed
        have "m2 (r + of_nat i) = cs ! i" if "i < length cs" "i < unat sz" for i
        proof -
          have "i < cnt" using that cnt(2) [of i] p(3) al(2) by simp
          moreover have "cnt < 2 ^ 32"
            using cnt(1) unsigned_less [of ?s, where 'a = nat] by simp
          ultimately show ?thesis
            using c1 [OF that(1)] unat_of_nat32 [of i] by (simp add: m2 mem_copy_def in_span_def)
        qed
        then have "take (unat sz) cs @ drop (length cs) (read_block m2 r (unat sz)) = read_block m2 r (unat sz)"
          by (rule keep)
        moreover have "same_heap h h3"
          using alloc(2) f(2) by (simp add: same_heap_def)
        ultimately show ?thesis
          using move nz bd alloc(1) False f(1) i4 none unfolding body
          by (intro exI [of _ r] exI [of _ h3] exI [of _ bs3] exI [of _ "drop (length cs) (read_block m2 r (unat sz))"])
            (simp add: Let_def m2_def len_def)
      qed
    qed
  qed
qed

section \<open>A fresh heap\<close>

lemma RT_ALIGN_DOWN_4_word: "unat (RT_ALIGN_DOWN (x :: 32 word) 4) = unat x - unat x mod 4"
proof -
  have "RT_ALIGN_DOWN x 4 = x - take_bit 2 x"
    using and_not_mask [of x 2] by (simp add: RT_ALIGN_DOWN_def mask_eq_exp_minus_1)
  moreover have "take_bit 2 x \<le> x"
    by (simp add: take_bit_eq_mod word_le_nat_alt unat_mod)
  ultimately show ?thesis
    by (simp add: unat_sub word_le_nat_alt take_bit_eq_mod unat_mod)
qed

lemma init_layout:
  assumes al: "4 dvd unat S" "S \<noteq> 0" "4 dvd unat a" "a \<noteq> 0" and fit: "unat a + unat n + 24 \<le> 2 ^ 32" "4 dvd unat n"
    and flds: "heap_ptr h = a" "heap_end h = a + (n + 12)" "lfree h = a" "mem_size_aligned h = n" "self h = S" "mem_used h = 0"
    and ram: "hdr (ram h) a (MEM_FREED S) (n + 12) 0" "hdr (ram h) (a + (n + 12)) (MEM_USED S) (n + 12) (n + 12)"
  shows "client_inv Map.empty h [(unat n + 12, False)]"
proof -
  have w: "of_nat (unat n + 12) = n + 12" by simp
  have "heap_shape h (unat n + 12)"
    using assms by (auto simp: heap_shape_def)
  moreover have "end_header h" using ram(2) flds by (auto simp: end_header_iff)
  moreover have "heap_layout h 0 0 [(unat n + 12, False)]"
    using ram(1) flds by (simp add: tag_def)
  ultimately show ?thesis
    using flds fit(2) by (simp add: client_inv_def heap_rep_def)
qed

lemma rt_smem_init_ok:
  assumes init: "rt_smem_init nm b sz m k = Some (Some h, k1)"
    and inv: "registry_inv k" "\<not> linked (smem_obj (RT_ALIGN b 4)) (obj_lists k)"
    and b: "b \<noteq> 0" "unat b + max (unat sz) 64 < 2 ^ 32"
  shows "smem_check k1 h = Some ()" "\<exists>bs. client_inv Map.empty h bs"
proof -
  define S where "S = RT_ALIGN b 4"
  have S: "unat S = (unat b + 3) div 4 * 4"
    unfolding S_def using b(2) by (intro RT_ALIGN_4_word) simp
  have S2: "4 dvd unat S" "unat b \<le> unat S" "unat S \<le> unat b + 3" unfolding S by auto
  have st: "unat (S + 56) = unat S + 56" using S2 b(2) by (simp add: unat_word_ariths)
  have a: "RT_ALIGN (S + 56) 4 = S + 56"
  proof -
    have "unat (RT_ALIGN (S + 56) 4) = (unat (S + 56) + 3) div 4 * 4"
      using S2 b(2) by (intro RT_ALIGN_4_word) (simp add: st)
    also have "\<dots> = unat (S + 56)" using S2(1) unfolding st by (elim dvdE) simp
    finally show ?thesis by (simp add: word_unat_eq_iff)
  qed
  define e where "e = RT_ALIGN_DOWN (b + sz) 4"
  have e: "4 dvd unat e" unfolding e_def RT_ALIGN_DOWN_4_word by (simp add: dvd_minus_mod)
  define n where "n = e - (S + 56) - 24"
  define h0 where "h0 = \<lparr>self = S, mem_address = S + 56, mem_total = n, mem_used = 0, mem_max = 0,
      heap_ptr = S + 56, heap_end = S + 56 + (n + 12), lfree = S + 56, mem_size_aligned = n, ram = m\<rparr>"
  let ?e = "S + 56 + (n + 12)"
  define m1 where "m1 = store32 (S + 56 + 8) 0 (store32 (S + 56 + 4) (n + 12) (store32 (S + 56) (MEM_FREED S) m))"
  define m2 where "m2 = store32 (?e + 8) (n + 12) (store32 (?e + 4) (n + 12) (store32 ?e (MEM_USED S) m1))"
  have cond: "e > 24" "e - 24 \<ge> S + 56" and k1: "rt_object_init (smem_obj S) RT_Object_Class_Memory nm k = Some k1"
    and h: "h = h0\<lparr>ram := m2\<rparr>"
    using init unfolding rt_smem_init_def Let_def S_def [symmetric] a e_def [symmetric]
    by (auto simp: bind_eq_Some_conv n_def h0_def m1_def m2_def set_prev_def set_next_def set_pool_ptr_def
        split: if_splits)
  have "unat (e - 24) = unat e - 24" using cond(1) by (simp add: unat_sub word_le_nat_alt word_less_nat_alt)
  then have ge: "unat S + 56 + 24 \<le> unat e"
    using cond by (simp add: word_le_nat_alt word_less_nat_alt st)
  have n: "unat n = unat e - unat S - 80"
  proof -
    have "unat (e - (S + 56)) = unat e - (unat S + 56)"
      using ge by (simp add: unat_sub word_le_nat_alt st)
    then show ?thesis using ge by (simp add: n_def unat_sub word_le_nat_alt)
  qed
  have ul: "unat e < 2 ^ 32" using unsigned_less [of e, where 'a = nat] by simp
  have fit: "unat (S + 56) + unat n + 24 \<le> 2 ^ 32" using n ge ul unfolding st by simp
  have pos: "?e = S + 56 + of_nat (unat n + 12)" by simp
  have w: "only_headers (S + 56) {unat n + 12} m1 m2"
    unfolding m2_def pos by (intro only_headers_store) simp_all
  have ram: "hdr m2 (S + 56) (MEM_FREED S) (n + 12) 0" "hdr m2 ?e (MEM_USED S) (n + 12) (n + 12)"
  proof -
    have "hdr m1 (S + 56) (MEM_FREED S) (n + 12) 0" unfolding m1_def by (rule hdr_new)
    then show "hdr m2 (S + 56) (MEM_FREED S) (n + 12) 0"
      using hdr_headers [OF w, of 0] fit by simp
    show "hdr m2 ?e (MEM_USED S) (n + 12) (n + 12)" unfolding m2_def by (rule hdr_new)
  qed
  have "client_inv Map.empty h [(unat n + 12, False)]"
  proof (rule init_layout [OF S2(1) _ _ _ fit])
    show "S \<noteq> 0" using S2(2) b(1) by (auto simp: word_unat_eq_iff)
    show "4 dvd unat (S + 56)" using S2(1) unfolding st by simp
    show "S + 56 \<noteq> 0" using st by (auto simp: word_unat_eq_iff)
    show "4 dvd unat n" using e S2(1) unfolding n by (simp add: dvd_diff_nat)
  qed (use ram in \<open>simp_all add: h h0_def\<close>)
  then show "\<exists>bs. client_inv Map.empty h bs" by blast
  show "smem_check k1 h = Some ()"
    using rt_object_init_spec(2,3) [OF k1 inv(1)] inv(2) by (simp add: smem_check_def h h0_def S_def)
qed

end
