(* ===== verification/Smem_Props.thy ===== *)
theory Smem_Props
  imports Smem_Client
begin

text \<open>
  The properties of the heap over any sequence of calls. \<open>heap_run\<close> is a client that passes only live
  addresses to \<^verbatim>\<open>rt_smem_free\<close> and \<^verbatim>\<open>rt_smem_realloc\<close>, asks for sizes up to \<^verbatim>\<open>0xFFFFFFFC\<close>, and writes
  only into its own blocks; it remembers what each live block should hold.
\<close>

datatype heap_op = Malloc "32 word" | Free "32 word" | Realloc "32 word" "32 word" | Write "32 word" nat "8 word"

fun heap_step :: "kernel \<Rightarrow> heap_op \<Rightarrow> contents \<Rightarrow> smem \<Rightarrow> (contents \<times> smem) option" where
  "heap_step k (Malloc sz) live h =
     (if sz > 0xFFFFFFFC then Some (live, h)
      else do {
        (p, h1) \<leftarrow> rt_smem_alloc sz k h;
        Some (if p = RT_NULL then live else live(p \<mapsto> read_block (ram h1) p (unat sz)), h1) })"
| "heap_step k (Free a) live h =
     (if live a = None then Some (live, h)
      else do { h1 \<leftarrow> rt_smem_free a k h; Some (live(a := None), h1) })"
| "heap_step k (Realloc a sz) live h =
     (case live a of
        None \<Rightarrow> Some (live, h)
      | Some cs \<Rightarrow>
          if sz > 0xFFFFFFFC then Some (live, h)
          else do {
            (p, h1) \<leftarrow> rt_smem_realloc a sz k h;
            Some (if sz = 0 then live(a := None)
                  else if p = RT_NULL then live
                  else live(a := None, p \<mapsto> take (unat sz) cs @ drop (length cs) (read_block (ram h1) p (unat sz))), h1) })"
| "heap_step k (Write a i c) live h =
     (case live a of
        None \<Rightarrow> Some (live, h)
      | Some cs \<Rightarrow>
          if i < length cs then Some (live(a \<mapsto> cs[i := c]), h\<lparr>ram := (ram h)(a + of_nat i := c)\<rparr>)
          else Some (live, h))"

primrec heap_run :: "kernel \<Rightarrow> heap_op list \<Rightarrow> contents \<Rightarrow> smem \<Rightarrow> (contents \<times> smem) option" where
  "heap_run k [] live h = Some (live, h)"
| "heap_run k (op # ops) live h = do { (live1, h1) \<leftarrow> heap_step k op live h; heap_run k ops live1 h1 }"

lemma heap_step_ok:
  assumes inv: "client_inv live h bs" and obj: "smem_check k h = Some ()"
  shows "\<exists>live' h' bs'. heap_step k op live h = Some (live', h') \<and> same_heap h h' \<and> client_inv live' h' bs'"
proof (cases op)
  case (Malloc sz)
  show ?thesis
  proof (cases "sz = 0 \<or> sz > 0xFFFFFFFC")
    case True
    then show ?thesis using inv by (auto simp: Malloc rt_smem_alloc_def)
  next
    case False
    then have "unat sz \<le> unat (smem_request sz)" by (auto intro!: request_ok(3) simp: not_less)
    then obtain p h1 where al: "rt_smem_alloc sz k h = Some (p, h1)" "same_heap h h1" "p = 0 \<Longrightarrow> h1 = h"
      "p \<noteq> 0 \<Longrightarrow> \<exists>bs'. client_inv (live(p \<mapsto> read_block (ram h1) p (unat sz))) h1 bs'"
      using client_alloc [OF inv obj, of sz] False by blast
    show ?thesis
    proof (cases "p = 0")
      case True
      then show ?thesis using al(1-3) False inv by (auto simp: Malloc)
    next
      case p: False
      then show ?thesis using al(1,2) al(4) [OF p] False by (auto simp: Malloc)
    qed
  qed
next
  case (Free a)
  show ?thesis
  proof (cases "live a")
    case None
    then show ?thesis using inv by (auto simp: Free)
  next
    case (Some cs)
    then show ?thesis using client_free [OF inv obj Some] by (auto simp: Free)
  qed
next
  case (Realloc a sz)
  show ?thesis
  proof (cases "live a = None \<or> sz > 0xFFFFFFFC")
    case True
    then show ?thesis using inv by (auto simp: Realloc split: option.splits)
  next
    case False
    then obtain cs where a: "live a = Some cs" by auto
    have sane: "sz \<le> 0xFFFFFFFC" using False by (auto simp: not_less)
    obtain r h' bs' fill where re: "rt_smem_realloc a sz k h = Some (r, h')" "same_heap h h'"
      "if sz = 0 then r = 0 \<and> client_inv (live(a := None)) h' bs'
       else if r = 0 then h' = h
       else (r = a \<or> live r = None) \<and> length fill = unat sz - length cs \<and>
        client_inv (live(a := None, r \<mapsto> take (unat sz) cs @ fill)) h' bs'"
      using client_realloc [OF inv obj a sane] by blast
    show ?thesis
    proof (cases "sz = 0 \<or> r = 0")
      case True
      show ?thesis
      proof (cases "sz = 0")
        case z: True
        then show ?thesis using re(1,2,3) a by (auto simp: Realloc)
      next
        case z: False
        then have "r = 0" "h' = h" using True re(3) by auto
        then show ?thesis using re(1,2) z inv a sane by (auto simp: Realloc)
      qed
    next
      case f: False
      let ?new = "take (unat sz) cs @ fill"
      have i: "client_inv (live(a := None, r \<mapsto> ?new)) h' bs'" and len: "length fill = unat sz - length cs"
        using re(3) f by auto
      have "holds h' r ?new"
        using client_inv_live [OF i, of r ?new] by auto
      then have "fill = drop (length cs) (read_block (ram h') r (unat sz))"
      proof (intro nth_equalityI)
        show "length fill = length (drop (length cs) (read_block (ram h') r (unat sz)))" using len by simp
        fix j
        assume j: "j < length fill"
        have "?new ! (length cs + j) = fill ! j"
          using j len by (simp add: nth_append min_def)
        moreover have "length cs + j < length ?new" using j len by simp
        ultimately show "fill ! j = drop (length cs) (read_block (ram h') r (unat sz)) ! j"
          using \<open>holds h' r ?new\<close> j len unfolding holds_iff by fastforce
      qed
      then show ?thesis using re(1,2) f i a sane by (auto simp: Realloc)
    qed
  qed
next
  case (Write a i c)
  show ?thesis
  proof (cases "\<exists>cs. live a = Some cs \<and> i < length cs")
    case True
    then obtain cs where a: "live a = Some cs" "i < length cs" by auto
    obtain q n where q: "length cs + 12 \<le> n" "holds h a cs" "(q, n) \<in> used_at 0 bs"
      using client_inv_live [OF inv a(1)] by metis
    have "n < 2 ^ 32"
      using used_at_bounds [OF q(3)] heap_shape_bounds(1) [OF client_invD(2) [OF inv]] by simp
    then have u: "j < length cs \<Longrightarrow> unat (of_nat j :: 32 word) = j" for j
      using q(1) by (intro unat_of_nat32) simp
    let ?m = "(ram h)(a + of_nat i := c)"
    have "?m x = ram h x" if "\<not> in_span a (length cs) x" for x
      using that a(2) u [OF a(2)] by (auto simp: in_span_def)
    then have "client_inv (live(a \<mapsto> read_block ?m a (length cs))) (h\<lparr>ram := ?m\<rparr>) bs"
      by (rule client_write [OF inv a(1)])
    moreover have "read_block ?m a (length cs) = cs[i := c]"
    proof (rule nth_equalityI)
      fix j
      assume "j < length (read_block ?m a (length cs))"
      then have j: "j < length cs" by simp
      have "(of_nat j :: 32 word) = of_nat i \<longleftrightarrow> j = i" using u [OF j] u [OF a(2)] by metis
      then show "read_block ?m a (length cs) ! j = cs[i := c] ! j"
        using q(2) j by (auto simp: holds_iff nth_list_update)
    qed simp
    ultimately show ?thesis using a by (auto simp: Write same_heap_def)
  next
    case False
    then show ?thesis using inv by (auto simp: Write split: option.splits)
  qed
qed

lemma heap_run_ok:
  "client_inv live h bs \<Longrightarrow> smem_check k h = Some () \<Longrightarrow>
     \<exists>live' h' bs'. heap_run k ops live h = Some (live', h') \<and> same_heap h h' \<and> client_inv live' h' bs'"
proof (induction ops arbitrary: live h bs)
  case (Cons op ops)
  obtain live1 h1 bs1 where 1: "heap_step k op live h = Some (live1, h1)" "same_heap h h1" "client_inv live1 h1 bs1"
    using heap_step_ok [OF Cons.prems] by blast
  obtain live' h' bs' where "heap_run k ops live1 h1 = Some (live', h')" "same_heap h1 h'" "client_inv live' h' bs'"
    using Cons.IH [OF 1(3)] same_heap_check [OF 1(2)] Cons.prems(2) by auto
  then show ?case using 1 by (auto intro: same_heap_trans)
qed auto

text \<open>Where live blocks lie.\<close>

lemma client_block:
  assumes inv: "client_inv live h bs" and a: "live a = Some cs"
  shows "4 dvd unat a" "heap_ptr h < a" "unat a + length cs \<le> unat (heap_end h)" "read_block (ram h) a (length cs) = cs"
    "live b = Some ds \<Longrightarrow> a \<noteq> b \<Longrightarrow> unat a + length cs \<le> unat b \<or> unat b + length ds \<le> unat a"
proof -
  note sh = client_invD(2) [OF inv] and good = client_invD(3) [OF inv]
  have addr: "unat (data_at h q) = unat (heap_ptr h) + (q + 12)" "q + n \<le> total bs" "12 \<le> n" "4 dvd q"
    if "(q, n) \<in> used_at 0 bs" for q n
  proof -
    show 1: "q + n \<le> total bs" "12 \<le> n" "4 dvd q"
      using used_at_bounds [OF that] used_at_good [OF that good] by auto
    show "unat (data_at h q) = unat (heap_ptr h) + (q + 12)"
      unfolding data_at_def using 1 by (intro heap_shape_bounds(4) [OF sh]) simp
  qed
  have he: "heap_end h = heap_ptr h + of_nat (total bs)" "4 dvd unat (heap_ptr h)"
    using sh by (unfold heap_shape_def, blast+)
  have en: "unat (heap_end h) = unat (heap_ptr h) + total bs"
    unfolding he(1) by (intro heap_shape_bounds(4) [OF sh]) simp
  obtain q n where q: "(q, n) \<in> used_at 0 bs" "a = data_at h q" "length cs + 12 \<le> n" "holds h a cs"
    using client_inv_live [OF inv a] by metis
  show "4 dvd unat a" "heap_ptr h < a" "unat a + length cs \<le> unat (heap_end h)"
    using addr [OF q(1)] q(2,3) he(2) en by (auto simp: word_less_nat_alt)
  show "read_block (ram h) a (length cs) = cs" using q(4) by (simp add: holds_def)
  assume b: "live b = Some ds" "a \<noteq> b"
  obtain r m where r: "(r, m) \<in> used_at 0 bs" "b = data_at h r" "length ds + 12 \<le> m"
    using client_inv_live [OF inv b(1)] by metis
  have "q + n \<le> r \<or> r + m \<le> q"
    using used_at_apart [OF q(1) r(1)] b(2) q(2) r(2) by auto
  then show "unat a + length cs \<le> unat b \<or> unat b + length ds \<le> unat a"
    using addr [OF q(1)] addr [OF r(1)] q(2,3) r(2,3) by auto
qed

section \<open>Properties\<close>

text \<open>C7: The heap is safe for its clients. After \<^verbatim>\<open>rt_smem_init\<close>, any sequence of allocations, releases,
  changes of size and writes returns (no assertion fails and no search is endless). The live blocks are
  aligned, lie inside the heap, do not overlap, and hold what the client wrote to them: nothing that
  happens to other blocks, and no header of the heap, changes them; a change of size keeps the common
  part.\<close>

theorem heap_keeps_blocks:
  assumes "rt_smem_init nm b sz m k = Some (Some h, k1)"
    and "registry_inv k" "\<not> linked (smem_obj (RT_ALIGN b 4)) (obj_lists k)"
    and "b \<noteq> 0" "unat b + max (unat sz) 64 < 2 ^ 32"
  shows "\<exists>live h'. heap_run k1 ops Map.empty h = Some (live, h') \<and>
     (\<forall>a cs. live a = Some cs \<longrightarrow>
        4 dvd unat a \<and> heap_ptr h < a \<and> unat a + length cs \<le> unat (heap_end h) \<and>
        read_block (ram h') a (length cs) = cs \<and>
        (\<forall>b ds. live b = Some ds \<longrightarrow> a \<noteq> b \<longrightarrow> unat a + length cs \<le> unat b \<or> unat b + length ds \<le> unat a))"
proof -
  obtain bs where "client_inv Map.empty h bs" "smem_check k1 h = Some ()"
    using rt_smem_init_ok [OF assms] by blast
  then obtain live h' bs' where run: "heap_run k1 ops Map.empty h = Some (live, h')" "same_heap h h'"
    and inv: "client_inv live h' bs'"
    using heap_run_ok by blast
  show ?thesis
    using run client_block [OF inv] by (intro exI [of _ live] exI [of _ h']) (auto simp: same_heap_def)
qed

text \<open>C21: Nothing leaks. Whatever happened before, when all blocks have been given back the heap is one
  free block again: no memory is in use, and a request of any size up to the size of the heap is granted.\<close>

theorem heap_all_given_back:
  assumes "rt_smem_init nm b sz m k = Some (Some h, k1)"
    and "registry_inv k" "\<not> linked (smem_obj (RT_ALIGN b 4)) (obj_lists k)"
    and "b \<noteq> 0" "unat b + max (unat sz) 64 < 2 ^ 32"
    and "heap_run k1 ops Map.empty h = Some (Map.empty, h')"
    and "n \<noteq> 0" "smem_request n \<le> mem_size_aligned h"
  shows "mem_used h' = 0 \<and> (\<exists>p h2. rt_smem_alloc n k1 h' = Some (p, h2) \<and> p = heap_ptr h + 12)"
proof -
  obtain bs where "client_inv Map.empty h bs" and chk: "smem_check k1 h = Some ()"
    using rt_smem_init_ok [OF assms(1-5)] by blast
  then obtain bs' where sm: "same_heap h h'" and inv: "client_inv Map.empty h' bs'"
    using heap_run_ok [of Map.empty h bs k1 ops] assms(6) by auto
  have rep: "heap_rep h' bs'" and sh: "heap_shape h' (total bs')"
    using client_invD(1,2) [OF inv] by auto
  have "used_at 0 bs' = {}"
    using inv by (auto simp: client_inv_def)
  then have free: "\<forall>c \<in> set bs'. \<not> snd c" and ut: "used_total bs' = 0"
    using used_none [of 0 bs'] by auto
  have "no_adjacent bs'" using rep by (simp add: heap_rep_def)
  moreover have E: "total bs' = unat (mem_size_aligned h) + 12"
    using sh sm by (simp add: heap_shape_def same_heap_def)
  ultimately have bs': "bs' = [(total bs', False)]"
    using free by (cases bs' rule: no_adjacent.cases) auto
  have "find_fit (unat (smem_request n)) 0 bs' = Some 0"
    using assms(8) E by (subst bs') (simp add: word_le_nat_alt)
  then have "\<exists>h2. rt_smem_alloc n k1 h' = Some (heap_ptr h' + of_nat (0 + 12), h2)"
    using rt_smem_alloc_ok(2) [OF rep _ assms(7)] chk same_heap_check [OF sm] by metis
  moreover have "mem_used h' = 0"
    using rep ut by (simp add: heap_rep_def)
  ultimately show ?thesis using sm by (auto simp: same_heap_def)
qed

text \<open>C13: The header manipulation implements an abstract allocator. Whenever the headers in memory represent
  a list of blocks, \<^verbatim>\<open>rt_smem_alloc\<close> is first fit on that list: it returns NULL and changes nothing if no
  free block is large enough, and otherwise carves the first one; \<^verbatim>\<open>rt_smem_free\<close> of a block in use
  releases it and merges it with its free neighbours. The headers represent the new list again.\<close>

theorem heap_refines_first_fit:
  assumes "heap_rep h bs" "smem_check k h = Some ()"
  shows "(sz \<noteq> 0 \<longrightarrow>
      (case alloc_blocks (unat (smem_request sz)) 0 bs of
         None \<Rightarrow> rt_smem_alloc sz k h = Some (RT_NULL, h)
       | Some (p, bs') \<Rightarrow> \<exists>h'. rt_smem_alloc sz k h = Some (heap_ptr h + of_nat (p + 12), h') \<and> heap_rep h' bs')) \<and>
    ((q, n) \<in> used_at 0 bs \<and> 12 < n \<longrightarrow>
      (\<exists>h'. rt_smem_free (heap_ptr h + of_nat (q + 12)) k h = Some h' \<and> heap_rep h' (free_blocks q 0 bs)))"
proof (intro conjI impI)
  assume nz: "sz \<noteq> 0"
  let ?r = "unat (smem_request sz)"
  show "case alloc_blocks ?r 0 bs of
         None \<Rightarrow> rt_smem_alloc sz k h = Some (RT_NULL, h)
       | Some (p, bs') \<Rightarrow> \<exists>h'. rt_smem_alloc sz k h = Some (heap_ptr h + of_nat (p + 12), h') \<and> heap_rep h' bs'"
  proof (cases "find_fit ?r 0 bs")
    case None
    then show ?thesis
      using rt_smem_alloc_ok(1) [OF assms nz] by (simp add: alloc_blocks_None [THEN iffD2])
  next
    case (Some p)
    from rt_smem_alloc_ok(2) [OF assms nz Some] obtain xs m ys h' where
      r: "bs = xs @ (m, False) # ys" "p = total xs" "rt_smem_alloc sz k h = Some (heap_ptr h + of_nat (p + 12), h')"
      "heap_rep h' (xs @ carve ?r m @ ys)" by blast
    have "good bs" using assms(1) by (simp add: heap_rep_def)
    then have "alloc_blocks ?r 0 bs = Some (p, xs @ carve ?r m @ ys)"
      using alloc_blocks_split [of ?r 0 xs m ys] Some by (auto simp: r(1,2))
    then show ?thesis using r(3,4) by auto
  qed
next
  assume q: "(q, n) \<in> used_at 0 bs \<and> 12 < n"
  then obtain xs ys where bs: "bs = xs @ (n, True) # ys" "q = total xs"
    using used_at_split [of q n 0 bs] by auto
  have "good bs" "no_adjacent bs" using assms(1) by (simp_all add: heap_rep_def)
  then have "free_blocks q 0 bs = merge_left xs (absorb n ys)"
    using free_blocks_split [of xs n ys 0] by (simp add: bs no_adjacent_append)
  then show "\<exists>h'. rt_smem_free (heap_ptr h + of_nat (q + 12)) k h = Some h' \<and> heap_rep h' (free_blocks q 0 bs)"
    using rt_smem_free_ok [OF assms(1) [unfolded bs(1)] assms(2)] q by (auto simp: bs)
qed

section \<open>A request of nearly four gigabytes\<close>

text \<open>\<^verbatim>\<open>RT_ALIGN\<close> wraps to 0, and the minimum size is handed out.\<close>

lemma rt_smem_alloc_wraps:
  assumes "0xFFFFFFFC < sz"
  shows "smem_request sz = 12" "rt_smem_alloc sz k h = rt_smem_alloc 12 k h"
proof -
  have "sz = 0xFFFFFFFD \<or> sz = 0xFFFFFFFE \<or> sz = 0xFFFFFFFF"
    using assms unsigned_less [of sz, where 'a = nat]
    by (auto simp: word_less_nat_alt word_unat_eq_iff)
  then show *: "smem_request sz = 12"
    by (auto simp: smem_request_def RT_ALIGN_def)
  have "smem_request 12 = 12" by (simp add: smem_request_def RT_ALIGN_def)
  then show "rt_smem_alloc sz k h = rt_smem_alloc 12 k h"
    using * assms by (auto simp: rt_smem_alloc_def Let_def)
qed

section \<open>Witnesses\<close>

lemma heap_demo:
  "\<exists>h k1. rt_smem_init ''heap'' 0x20000000 256 (\<lambda>_. 0) zero_kernel = Some (Some h, k1) \<and> mem_size_aligned h = 176 \<and>
     heap_ptr h = 0x20000038"
proof -
  have i: "\<exists>k1. rt_object_init (smem_obj 0x20000000) RT_Object_Class_Memory ''heap'' zero_kernel = Some k1"
    by (simp add: rt_object_init_def rt_object_get_information_def object_container_def rt_enter_critical_def
      rt_exit_critical_def rt_assert_def Let_def)
  then show ?thesis
    by (auto simp: rt_smem_init_def Let_def RT_ALIGN_def RT_ALIGN_DOWN_def set_prev_def set_next_def set_pool_ptr_def)
qed

lemma heap_demo_free: "\<not> linked (smem_obj (RT_ALIGN 0x20000000 4)) (obj_lists zero_kernel)"
  by (simp add: linked_def)

theorem heap_keeps_blocks_witness:
  "\<exists>h k1 live h'. rt_smem_init ''heap'' 0x20000000 256 (\<lambda>_. 0) zero_kernel = Some (Some h, k1) \<and>
     heap_run k1 [Malloc 20, Malloc 8, Write 0x20000050 1 7, Free 0x20000044, Realloc 0x20000050 40] Map.empty h = Some (live, h') \<and>
     (\<forall>a cs. live a = Some cs \<longrightarrow> 4 dvd unat a \<and> heap_ptr h < a \<and> read_block (ram h') a (length cs) = cs)"
proof -
  obtain h k1 where init: "rt_smem_init ''heap'' 0x20000000 256 (\<lambda>_. 0) zero_kernel = Some (Some h, k1)"
    using heap_demo by blast
  from heap_keeps_blocks [OF init registry_inv_zero heap_demo_free] show ?thesis
    using init by fastforce
qed

theorem heap_all_given_back_witness:
  "\<exists>h k1 p h2. rt_smem_init ''heap'' 0x20000000 256 (\<lambda>_. 0) zero_kernel = Some (Some h, k1) \<and>
     rt_smem_alloc 176 k1 h = Some (p, h2) \<and> p = 0x20000044"
proof -
  obtain h k1 where init: "rt_smem_init ''heap'' 0x20000000 256 (\<lambda>_. 0) zero_kernel = Some (Some h, k1)"
    and sz: "mem_size_aligned h = 176" "heap_ptr h = 0x20000038"
    using heap_demo by blast
  have "smem_request 176 = 176" by (simp add: smem_request_def RT_ALIGN_def)
  then have "\<exists>p h2. rt_smem_alloc 176 k1 h = Some (p, h2) \<and> p = heap_ptr h + 12"
    using heap_all_given_back [OF init registry_inv_zero heap_demo_free, of "[]" h 176] sz by simp
  then show ?thesis using init sz by auto
qed

theorem heap_refines_first_fit_witness:
  "\<exists>h k1 h'. rt_smem_init ''heap'' 0x20000000 256 (\<lambda>_. 0) zero_kernel = Some (Some h, k1) \<and>
     rt_smem_alloc 20 k1 h = Some (0x20000044, h') \<and> heap_rep h' [(32, True), (156, False)]"
proof -
  obtain h k1 where init: "rt_smem_init ''heap'' 0x20000000 256 (\<lambda>_. 0) zero_kernel = Some (Some h, k1)"
    and sz: "mem_size_aligned h = 176" "heap_ptr h = 0x20000038"
    using heap_demo by blast
  obtain bs where inv: "client_inv Map.empty h bs" and chk: "smem_check k1 h = Some ()"
    using rt_smem_init_ok [OF init registry_inv_zero heap_demo_free] by auto
  have rep: "heap_rep h bs" by (rule client_invD(1) [OF inv])
  have "used_at 0 bs = {}" using inv by (auto simp: client_inv_def)
  then have "\<forall>c \<in> set bs. \<not> snd c" using used_none by blast
  moreover have "no_adjacent bs" "total bs = 188"
    using rep sz by (simp_all add: heap_rep_def heap_shape_def)
  ultimately have bs: "bs = [(188, False)]"
    by (cases bs rule: no_adjacent.cases) auto
  have "smem_request 20 = 20" by (simp add: smem_request_def RT_ALIGN_def)
  then have "alloc_blocks (unat (smem_request 20)) 0 bs = Some (0, [(32, True), (156, False)])"
    by (simp add: bs carve_def)
  then show ?thesis
    using heap_refines_first_fit [OF rep chk, of 20 0 0] init sz by auto
qed

end
