(* ===== verification/Ipc_Mutex.thy ===== *)
theory Ipc_Mutex
  imports Ipc
begin

text \<open>
  Recursive mutexes with priority inheritance (\<^verbatim>\<open>src/ipc.c\<close>): the operations, the invariant that
  ties value, owner and hold count together, hand-over on release, and what happens to priorities.
\<close>

section \<open>Operations\<close>

definition upd_mutex :: "nat \<Rightarrow> (rt_mutex \<Rightarrow> rt_mutex) \<Rightarrow> kernel \<Rightarrow> kernel" where
  "upd_mutex n f k = k\<lparr>mutexes := (mutexes k)(n := f (mutexes k n))\<rparr>"

definition mutex_fields_init :: "nat \<Rightarrow> kernel \<Rightarrow> kernel" where
  "mutex_fields_init n k =
     (let k1 = ipc_object_init (Mutex n) k;
          k2 = upd_mutex n (\<lambda>m. m\<lparr>mutex_value := 1, owner := None, original_priority := 0xFF,
                 hold := 0\<rparr>) k1
      in set_ipc_flag (Mutex n) RT_IPC_FLAG_PRIO k2)"

definition rt_mutex_init :: "nat \<Rightarrow> string \<Rightarrow> 8 word \<Rightarrow> kernel \<Rightarrow> (int \<times> kernel) option" where
  "rt_mutex_init n nm flag k = do {
     k1 \<leftarrow> rt_object_init (Obj_ipc (Mutex n)) RT_Object_Class_Mutex nm k;
     Some (RT_EOK, mutex_fields_init n k1) }"

definition rt_mutex_detach :: "nat \<Rightarrow> kernel \<Rightarrow> (int \<times> kernel) option" where
  "rt_mutex_detach n k = do {
     rt_assert (rt_object_get_type (Obj_ipc (Mutex n)) k = RT_Object_Class_Mutex);
     rt_assert (rt_object_is_systemobject (Obj_ipc (Mutex n)) k);
     (_, k1) \<leftarrow> ipc_list_resume_all (Suspend (Mutex n)) k;
     Some (RT_EOK, rt_object_detach (Obj_ipc (Mutex n)) k1) }"

definition rt_mutex_create ::
  "string \<Rightarrow> 8 word \<Rightarrow> nat option \<Rightarrow> kernel \<Rightarrow> (nat option \<times> kernel) option" where
  "rt_mutex_create nm flag mem k = do {
     RT_DEBUG_NOT_IN_INTERRUPT k;
     (_, k1) \<leftarrow> rt_object_allocate RT_Object_Class_Mutex nm (map_option (Obj_ipc \<circ> Mutex) mem) k;
     case mem of
       None \<Rightarrow> Some (None, k1)
     | Some n \<Rightarrow> Some (Some n, mutex_fields_init n k1) }"

definition rt_mutex_delete :: "nat \<Rightarrow> kernel \<Rightarrow> (int \<times> kernel) option" where
  "rt_mutex_delete n k = do {
     rt_assert (rt_object_get_type (Obj_ipc (Mutex n)) k = RT_Object_Class_Mutex);
     rt_assert (\<not> rt_object_is_systemobject (Obj_ipc (Mutex n)) k);
     RT_DEBUG_NOT_IN_INTERRUPT k;
     (_, k1) \<leftarrow> ipc_list_resume_all (Suspend (Mutex n)) k;
     k2 \<leftarrow> rt_object_delete (Obj_ipc (Mutex n)) k1;
     Some (RT_EOK, k2) }"

definition change_priority :: "tid \<Rightarrow> 8 word \<Rightarrow> kernel \<Rightarrow> kernel option" where
  "change_priority t p k = map_option snd (rt_thread_control t (RT_THREAD_CTRL_CHANGE_PRIORITY p) k)"

definition rt_mutex_take :: "nat \<Rightarrow> 32 word \<Rightarrow> kernel \<Rightarrow> (int outcome \<times> kernel) option" where
  "rt_mutex_take n timeout k = do {
     RT_DEBUG_SCHEDULER_AVAILABLE True k;
     rt_assert (rt_object_get_type (Obj_ipc (Mutex n)) k = RT_Object_Class_Mutex);
     t \<leftarrow> rt_thread_self k;
     let k1 = upd_thread t (\<lambda>r. r\<lparr>thread_error := RT_EOK\<rparr>) k;
     let mx = mutexes k1 n;
     if owner mx = Some t then
       (if hold mx < 0xFF then Some (Return RT_EOK, upd_mutex n (\<lambda>m. m\<lparr>hold := hold m + 1\<rparr>) k1)
        else Some (Return (- RT_EFULL), k1))
     else if mutex_value mx > 0 then
       let k2 = upd_mutex n (\<lambda>m. m\<lparr>mutex_value := mutex_value m - 1, owner := Some t,
                  original_priority := tprio k1 t\<rparr>) k1
       in if hold mx < 0xFF then Some (Return RT_EOK, upd_mutex n (\<lambda>m. m\<lparr>hold := hold m + 1\<rparr>) k2)
          else Some (Return (- RT_EFULL), k2)
     else if timeout = 0 then
       Some (Return (- RT_ETIMEOUT), upd_thread t (\<lambda>r. r\<lparr>thread_error := - RT_ETIMEOUT\<rparr>) k1)
     else do {
       ow \<leftarrow> owner mx;
       k2 \<leftarrow> (if tprio k1 t < tprio k1 ow then change_priority ow (tprio k1 t) k1 else Some k1);
       k3 \<leftarrow> ipc_block (Suspend (Mutex n)) t (ipc_flag k2 (Mutex n)) timeout k2;
       Some (Block, k3) } }"

definition rt_mutex_take_resume :: "tid \<Rightarrow> kernel \<Rightarrow> int" where
  "rt_mutex_take_resume t k =
     (if thread_error (threads k t) \<noteq> RT_EOK then thread_error (threads k t) else RT_EOK)"

definition rt_mutex_trytake :: "nat \<Rightarrow> kernel \<Rightarrow> (int outcome \<times> kernel) option" where
  "rt_mutex_trytake n k = rt_mutex_take n 0 k"

text \<open>The body of \<^verbatim>\<open>rt_mutex_release\<close> once the hold count has reached zero.\<close>

definition mutex_hand_over :: "nat \<Rightarrow> tid \<Rightarrow> kernel \<Rightarrow> (int \<times> kernel) option" where
  "mutex_hand_over n t k = do {
     k1 \<leftarrow> (if original_priority (mutexes k n) \<noteq> tprio k t
            then change_priority t (original_priority (mutexes k n)) k else Some k);
     case tlists k1 (Suspend (Mutex n)) of
       w # _ \<Rightarrow>
         let k2 = upd_mutex n (\<lambda>m. m\<lparr>owner := Some w, original_priority := tprio k1 w\<rparr>) k1 in
         if hold (mutexes k2 n) < 0xFF then do {
           let k3 = upd_mutex n (\<lambda>m. m\<lparr>hold := hold m + 1\<rparr>) k2;
           (_, k4) \<leftarrow> ipc_list_resume (Suspend (Mutex n)) k3;
           k5 \<leftarrow> rt_schedule k4;
           Some (RT_EOK, k5) }
         else Some (- RT_EFULL, k2)
     | [] \<Rightarrow>
         if mutex_value (mutexes k1 n) < 0xFFFF then
           Some (RT_EOK, upd_mutex n (\<lambda>m. m\<lparr>mutex_value := mutex_value m + 1, owner := None,
                           original_priority := 0xFF\<rparr>) k1)
         else Some (- RT_EFULL, k1) }"

definition rt_mutex_release :: "nat \<Rightarrow> kernel \<Rightarrow> (int \<times> kernel) option" where
  "rt_mutex_release n k = do {
     rt_assert (rt_object_get_type (Obj_ipc (Mutex n)) k = RT_Object_Class_Mutex);
     RT_DEBUG_IN_THREAD_CONTEXT k;
     t \<leftarrow> rt_thread_self k;
     if Some t \<noteq> owner (mutexes k n) then
       Some (- RT_ERROR, upd_thread t (\<lambda>r. r\<lparr>thread_error := - RT_ERROR\<rparr>) k)
     else
       let k1 = upd_mutex n (\<lambda>m. m\<lparr>hold := hold m - 1\<rparr>) k in
       if hold (mutexes k1 n) = 0 then mutex_hand_over n t k1 else Some (RT_EOK, k1) }"

definition rt_mutex_control :: "nat \<Rightarrow> kernel \<Rightarrow> (int \<times> kernel) option" where
  "rt_mutex_control n k = do {
     rt_assert (rt_object_get_type (Obj_ipc (Mutex n)) k = RT_Object_Class_Mutex);
     Some (- RT_ERROR, k) }"

section \<open>Changing a priority\<close>

lemma upd_mutex_sel [simp]:
  "mutexes (upd_mutex n f k) = (mutexes k)(n := f (mutexes k n))"
  "tlists (upd_mutex n f k) = tlists k" "threads (upd_mutex n f k) = threads k"
  "rt_current_thread (upd_mutex n f k) = rt_current_thread k"
  "rt_thread_ready_priority_group (upd_mutex n f k) = rt_thread_ready_priority_group k"
  "objects (upd_mutex n f k) = objects k"
  by (simp_all add: upd_mutex_def)

lemma kinv_upd_mutex [simp]: "kinv (upd_mutex n f k) = kinv k"
  unfolding kinv_def sched_inv_def thread_timers_hard_def
  by (subst sched_inv_except_cong [of "upd_mutex n f k" k]) simp_all

lemma change_priority_spec:
  assumes ch: "change_priority t p k = Some k'" and inv: "kinv k" and p: "unat p < 32"
  shows "kinv k'" "mutexes k' = mutexes k" "rt_current_thread k' = rt_current_thread k"
    "objects k' = objects k" "\<And>u. tstat k' u = tstat k u"
    "\<And>u. tprio k' u = (if u = t then p else tprio k u)"
    "\<And>u. thread_error (threads k' u) = thread_error (threads k u)"
    "\<And>h. \<forall>q. h \<noteq> Ready q \<Longrightarrow> tlists k' h = tlists k h"
proof -
  from ch obtain e where c: "rt_thread_control t (RT_THREAD_CTRL_CHANGE_PRIORITY p) k = Some (e, k')"
    by (auto simp: change_priority_def)
  then have k': "k' = (if tstat k t = RT_THREAD_READY
      then rt_schedule_insert_thread t (set_priority t p (rt_schedule_remove_thread t k))
      else set_priority t p k)"
    by (simp add: rt_thread_control_def split: if_splits)
  have sinv: "sched_inv k" using inv by (simp add: kinv_def)
  have nc: "rt_current_thread k \<noteq> Some t" if "tstat k t = RT_THREAD_READY"
    using that sched_inv_exceptD(4) [OF sched_invD [OF sinv], of t] by (simp add: thread_inv_def)
  show obj: "objects k' = objects k" and "mutexes k' = mutexes k"
    and "rt_current_thread k' = rt_current_thread k"
    by (simp_all add: k' set_priority_def)
  show "kinv k'"
    using sched_inv_change_priority [OF c sinv p] inv obj by (simp add: kinv_def thread_timers_hard_def)
  show "tstat k' u = tstat k u" "tprio k' u = (if u = t then p else tprio k u)"
    "thread_error (threads k' u) = thread_error (threads k u)" for u
    using nc by (simp_all add: k' set_priority_def insert_thread_threads)
  show "tlists k' h = tlists k h" if h: "\<forall>q. h \<noteq> Ready q" for h
  proof (cases "tstat k t = RT_THREAD_READY")
    case True
    then have "t \<notin> set (tlists k h)"
      using h sched_inv_exceptD(3) [OF sched_invD [OF sinv], of t h]
      by (cases h) (auto simp: at_home_def)
    then show ?thesis
      using True h nc by (simp add: k' set_priority_def insert_thread_tlists unlink_def push_back_def
          push_front_def)
  qed (simp add: k' set_priority_def)
qed

section \<open>The mutex invariant\<close>

text \<open>A free mutex has no owner, no holds and no waiters; a taken one has an owner, a positive hold
  count and the priority to restore.\<close>

definition mutex_inv :: "nat \<Rightarrow> kernel \<Rightarrow> bool" where
  "mutex_inv n k \<longleftrightarrow>
     (let m = mutexes k n in
      (mutex_value m = 1 \<and> owner m = None \<and> hold m = 0 \<and> tlists k (Suspend (Mutex n)) = []) \<or>
      (mutex_value m = 0 \<and> owner m \<noteq> None \<and> 0 < hold m \<and> unat (original_priority m) < 32))"

lemma running_prio: "kinv k \<Longrightarrow> running c k \<Longrightarrow> unat (tprio k c) < 32"
  using sched_inv_thread_ok [of "{}" k c]
  by (auto simp: kinv_def sched_inv_def running_def thread_ok_def)

lemma rt_mutex_take_cases:
  assumes take: "rt_mutex_take n timeout k = Some (r, k')" and inv: "kinv k" and run: "running c k"
    and minv: "mutex_inv n k"
  obtains
    (recursive) "owner (mutexes k n) = Some c" "hold (mutexes k n) < 0xFF" "r = Return RT_EOK"
      "k' = upd_mutex n (\<lambda>m. m\<lparr>hold := hold m + 1\<rparr>)
        (upd_thread c (\<lambda>r. r\<lparr>thread_error := RT_EOK\<rparr>) k)"
  | (full) "owner (mutexes k n) = Some c" "hold (mutexes k n) = 0xFF" "r = Return (- RT_EFULL)"
      "k' = upd_thread c (\<lambda>r. r\<lparr>thread_error := RT_EOK\<rparr>) k"
  | (free) "owner (mutexes k n) = None" "r = Return RT_EOK"
      "k' = upd_mutex n (\<lambda>m. m\<lparr>mutex_value := 0, owner := Some c, original_priority := tprio k c,
         hold := 1\<rparr>) (upd_thread c (\<lambda>r. r\<lparr>thread_error := RT_EOK\<rparr>) k)"
  | (busy) ow where "owner (mutexes k n) = Some ow" "ow \<noteq> c" "timeout = 0"
      "r = Return (- RT_ETIMEOUT)"
      "k' = upd_thread c (\<lambda>r. r\<lparr>thread_error := - RT_ETIMEOUT\<rparr>)
        (upd_thread c (\<lambda>r. r\<lparr>thread_error := RT_EOK\<rparr>) k)"
  | (blocked) ow where "owner (mutexes k n) = Some ow" "ow \<noteq> c" "timeout \<noteq> 0" "r = Block" "kinv k'"
      "tstat k' c = RT_THREAD_SUSPEND" "mutexes k' = mutexes k"
      "thread_error (threads k' c) = RT_EOK" "\<exists>d. rt_current_thread k' = Some d"
      "set (tlists k' (Suspend (Mutex n))) = insert c (set (tlists k (Suspend (Mutex n))))"
      "\<And>u. tprio k' u = (if u = ow \<and> tprio k c < tprio k ow then tprio k c else tprio k u)"
proof -
  let ?k1 = "upd_thread c (\<lambda>r. r\<lparr>thread_error := RT_EOK\<rparr>) k"
  let ?m = "mutexes k n"
  have self: "rt_thread_self k = Some c" using run by (simp add: running_def rt_thread_self_def)
  consider "owner ?m = Some c" | "owner ?m = None" "mutex_value ?m = 1" "hold ?m = 0"
    | ow where "owner ?m = Some ow" "ow \<noteq> c" "mutex_value ?m = 0"
    using minv by (cases "owner ?m") (auto simp: mutex_inv_def Let_def)
  then show thesis
  proof cases
    case 1
    then show thesis
      using take self recursive full u8_max [of "hold ?m"]
      by (cases "hold ?m < 0xFF") (auto simp: rt_mutex_take_def bind_eq_Some_conv Let_def)
  next
    case 2
    then have "r = Return RT_EOK" "k' = upd_mutex n (\<lambda>m. m\<lparr>mutex_value := 0, owner := Some c,
        original_priority := tprio k c, hold := 1\<rparr>) ?k1"
      using take self by (auto simp: rt_mutex_take_def bind_eq_Some_conv Let_def upd_mutex_def)
    with 2(1) show thesis by (rule free)
  next
    case (3 ow)
    show thesis
    proof (cases "timeout = 0")
      case True
      then show thesis
        using take self 3 busy by (auto simp: rt_mutex_take_def bind_eq_Some_conv Let_def)
    next
      case False
      then obtain k2 where
        k2: "(if tprio k c < tprio k ow then change_priority ow (tprio ?k1 c) ?k1 else Some ?k1) =
          Some k2"
        and bl: "ipc_block (Suspend (Mutex n)) c (ipc_flag k2 (Mutex n)) timeout k2 = Some k'"
        and r: "r = Block"
        using take self 3 by (auto simp: rt_mutex_take_def bind_eq_Some_conv Let_def)
      have inv1: "kinv ?k1" using inv by simp
      have boost: "kinv k2 \<and> mutexes k2 = mutexes k \<and> tstat k2 c = tstat k c \<and>
          thread_error (threads k2 c) = RT_EOK \<and>
          tlists k2 (Suspend (Mutex n)) = tlists k (Suspend (Mutex n)) \<and>
          (\<forall>u. tprio k2 u = (if u = ow \<and> tprio k c < tprio k ow then tprio k c else tprio k u))"
      proof (cases "tprio k c < tprio k ow")
        case True
        with k2 have "change_priority ow (tprio k c) ?k1 = Some k2" by simp
        from change_priority_spec [OF this inv1 running_prio [OF inv run]] True show ?thesis by auto
      next
        case False
        then show ?thesis using k2 inv1 by auto
      qed
      have s2: "sched_inv k2" "thread_timers_hard k2" "tstat k2 c = RT_THREAD_RUNNING"
        using boost run by (auto simp: kinv_def running_def)
      note b = ipc_block_spec [OF bl s2(1,3) disjI1 [OF refl] s2(2)]
      show thesis
      proof (rule blocked [OF 3(1,2) False r])
        show "kinv k'" using b(1,6) by (simp add: kinv_def)
        show "tstat k' c = RT_THREAD_SUSPEND" by (fact b(2))
        show "mutexes k' = mutexes k" using kframe_sel(2) [OF b(3)] boost by simp
        show "thread_error (threads k' c) = RT_EOK" using kframe_thread(1) [OF b(3)] boost by simp
        show "set (tlists k' (Suspend (Mutex n))) = insert c (set (tlists k (Suspend (Mutex n))))"
          using b(4) [of "Suspend (Mutex n)"] boost by simp
        show "\<exists>d. rt_current_thread k' = Some d" by (fact b(5))
        show "tprio k' u = (if u = ow \<and> tprio k c < tprio k ow then tprio k c else tprio k u)" for u
          using kframe_thread(2) [OF b(3), of u] boost by simp
      qed
    qed
  qed
qed

lemma mutex_inv_take:
  assumes "rt_mutex_take n timeout k = Some (r, k')" "kinv k" "running c k" "mutex_inv n k"
  shows "mutex_inv n k'" "kinv k'"
proof -
  have "mutex_inv n k' \<and> kinv k'"
    using assms
  proof (cases rule: rt_mutex_take_cases)
    case recursive
    have "0 < hold (mutexes k n) + 1" using u8_inc [OF recursive(2)] by (simp add: word_less_nat_alt)
    then show ?thesis using recursive assms(2,4) by (auto simp: mutex_inv_def Let_def)
  next
    case free
    then show ?thesis using running_prio [OF assms(2,3)] assms(2) by (simp add: mutex_inv_def Let_def)
  next
    case (blocked ow)
    then show ?thesis using assms(4) by (auto simp: mutex_inv_def Let_def)
  qed (use assms(2,4) in \<open>auto simp: mutex_inv_def Let_def\<close>)
  then show "mutex_inv n k'" "kinv k'" by auto
qed

section \<open>Release\<close>

lemma rt_mutex_release_cases:
  assumes rel: "rt_mutex_release n k = Some (e, k')" and inv: "kinv k"
    and run: "running c k" and minv: "mutex_inv n k"
  obtains
    (not_owner) "owner (mutexes k n) \<noteq> Some c" "e = - RT_ERROR"
      "k' = upd_thread c (\<lambda>r. r\<lparr>thread_error := - RT_ERROR\<rparr>) k"
  | (still_held) "owner (mutexes k n) = Some c" "1 < hold (mutexes k n)" "e = RT_EOK"
      "k' = upd_mutex n (\<lambda>m. m\<lparr>hold := hold m - 1\<rparr>) k"
  | (given_back) "owner (mutexes k n) = Some c" "hold (mutexes k n) = 1" "e = RT_EOK" "kinv k'"
      "tlists k (Suspend (Mutex n)) = []"
      "mutexes k' n = \<lparr>mutex_value = 1, original_priority = 0xFF, hold = 0, owner = None\<rparr>"
      "tlists k' (Suspend (Mutex n)) = []" "tprio k' c = original_priority (mutexes k n)"
  | (handed) w ws where "owner (mutexes k n) = Some c" "hold (mutexes k n) = 1" "e = RT_EOK" "kinv k'"
      "tlists k (Suspend (Mutex n)) = w # ws" "tlists k' (Suspend (Mutex n)) = ws"
      "mutexes k' n = \<lparr>mutex_value = 0, original_priority = tprio k w, hold = 1, owner = Some w\<rparr>"
      "tprio k' c = original_priority (mutexes k n)"
      "tstat k' w \<in> {RT_THREAD_READY, RT_THREAD_RUNNING}"
      "thread_error (threads k' w) = thread_error (threads k w)"
proof -
  let ?m = "mutexes k n"
  let ?k1 = "upd_mutex n (\<lambda>m. m\<lparr>hold := hold m - 1\<rparr>) k"
  have self: "rt_thread_self k = Some c" using run by (simp add: running_def rt_thread_self_def)
  consider "owner ?m \<noteq> Some c" | "owner ?m = Some c" "hold ?m - 1 \<noteq> 0" | "owner ?m = Some c" "hold ?m = 1"
    by force
  then show thesis
  proof cases
    case 1
    then show thesis using rel self not_owner
      by (auto simp: rt_mutex_release_def bind_eq_Some_conv)
  next
    case 2
    then have "0 < hold ?m" using minv by (simp add: mutex_inv_def Let_def)
    moreover have "0 < hold ?m - 1" using 2(2) word_zero_cases by blast
    ultimately have "1 < hold ?m"
      using word_dec_Suc [of "hold ?m"] by (simp add: word_less_nat_alt)
    then show thesis using 2 rel self still_held
      by (auto simp: rt_mutex_release_def bind_eq_Some_conv Let_def)
  next
    case 3
    then have rel1: "mutex_hand_over n c ?k1 = Some (e, k')"
      using rel self by (auto simp: rt_mutex_release_def bind_eq_Some_conv Let_def)
    have m: "mutex_value ?m = 0" "unat (original_priority ?m) < 32"
      using minv 3 by (auto simp: mutex_inv_def Let_def)
    from rel1 obtain k2 where
      k2: "(if original_priority ?m \<noteq> tprio k c then change_priority c (original_priority ?m) ?k1
        else Some ?k1) = Some k2"
      by (auto simp: mutex_hand_over_def bind_eq_Some_conv cong: if_cong)
    have restored: "kinv k2 \<and> mutexes k2 = mutexes ?k1 \<and> rt_current_thread k2 = Some c \<and>
        tlists k2 (Suspend (Mutex n)) = tlists k (Suspend (Mutex n)) \<and>
        (\<forall>u. tprio k2 u = (if u = c then original_priority ?m else tprio k u)) \<and>
        (\<forall>u. thread_error (threads k2 u) = thread_error (threads k u))"
    proof (cases "original_priority ?m = tprio k c")
      case True
      then show ?thesis using k2 inv run by (auto simp: running_def)
    next
      case False
      with k2 have "change_priority c (original_priority ?m) ?k1 = Some k2" by simp
      from change_priority_spec [OF this _ m(2)] inv run show ?thesis by (auto simp: running_def)
    qed
    have hold0: "hold (mutexes k2 n) = 0" "mutex_value (mutexes k2 n) = 0" "owner (mutexes k2 n) = Some c"
      using restored 3 m by auto
    show thesis
    proof (cases "tlists k (Suspend (Mutex n))")
      case Nil
      have "e = RT_EOK" "k' = upd_mutex n (\<lambda>m. m\<lparr>mutex_value := mutex_value m + 1, owner := None,
          original_priority := 0xFF\<rparr>) k2"
        using rel1 k2 Nil restored hold0 by (auto simp: mutex_hand_over_def bind_eq_Some_conv cong: if_cong)
      then show thesis
        using given_back 3 Nil restored hold0 by simp
    next
      case (Cons w ws)
      let ?k3 = "upd_mutex n (\<lambda>m. m\<lparr>hold := hold m + 1\<rparr>)
        (upd_mutex n (\<lambda>m. m\<lparr>owner := Some w, original_priority := tprio k2 w\<rparr>) k2)"
      from rel1 k2 Cons restored hold0 obtain e4 k4 where e: "e = RT_EOK"
        and k4: "ipc_list_resume (Suspend (Mutex n)) ?k3 = Some (e4, k4)" and k5: "rt_schedule k4 = Some k'"
        by (auto simp: mutex_hand_over_def bind_eq_Some_conv Let_def cong: if_cong)
      have kinv3: "kinv ?k3" using restored by simp
      then have inv3: "sched_inv ?k3" "thread_timers_hard ?k3" unfolding kinv_def by auto
      have "tlists ?k3 (Suspend (Mutex n)) = w # ws" using Cons restored by simp
      with ipc_list_resume_spec [OF k4 inv3(1) disjI1 [OF refl]] inv3(2) have
        r: "sched_inv k4" "kframe ?k3 k4" "rt_current_thread k4 = rt_current_thread ?k3"
          "tstat k4 w \<in> {RT_THREAD_READY, RT_THREAD_RUNNING}" "thread_timers_hard k4"
          "tlists k4 (Suspend (Mutex n)) = ws" by auto
      have cur4: "rt_current_thread k4 = Some c" using r(3) restored by simp
      have fr: "kframe ?k3 k'" using kframe_trans [OF r(2) kframe_sched [OF rt_schedule_same [OF k5]]] .
      have "tstat k w = RT_THREAD_SUSPEND"
        using waiter_suspended [of k w "Suspend (Mutex n)" "Mutex n"] inv Cons by (simp add: kinv_def)
      then have wc: "w \<noteq> c" using run by (auto simp: running_def)
      show thesis
      proof (rule handed [OF 3 e _ Cons])
        show "kinv k'" using kinv_schedule [OF k5 _ cur4] r(1,5) by (simp add: kinv_def)
        show "tlists k' (Suspend (Mutex n)) = ws"
          using rt_schedule_wait_lists [OF r(1) cur4 k5, of "Suspend (Mutex n)"] r(6) by simp
        show "mutexes k' n =
            \<lparr>mutex_value = 0, original_priority = tprio k w, hold = 1, owner = Some w\<rparr>"
          using kframe_sel(2) [OF fr] restored hold0 wc by simp
        show "tprio k' c = original_priority ?m" using kframe_thread(2) [OF fr, of c] restored by simp
        show "tstat k' w \<in> {RT_THREAD_READY, RT_THREAD_RUNNING}"
          using rt_schedule_keeps_runnable [OF r(1) cur4 k5 r(4)] .
        show "thread_error (threads k' w) = thread_error (threads k w)"
          using kframe_thread(1) [OF fr, of w] restored by simp
      qed
    qed
  qed
qed

lemma mutex_inv_release:
  assumes "rt_mutex_release n k = Some (e, k')" "kinv k" "running c k" "mutex_inv n k"
  shows "mutex_inv n k'" "kinv k'"
proof -
  have "mutex_inv n k' \<and> kinv k'"
    using assms
  proof (cases rule: rt_mutex_release_cases)
    case still_held
    then have "hold (mutexes k n) - 1 \<noteq> 0" by auto
    then have "0 < hold (mutexes k n) - 1" using word_zero_cases by blast
    then show ?thesis using still_held assms(2,4) by (auto simp: mutex_inv_def Let_def)
  next
    case (handed w ws)
    have "tstat k w = RT_THREAD_SUSPEND"
      using waiter_suspended [of k w "Suspend (Mutex n)" "Mutex n"] assms(2) handed by (simp add: kinv_def)
    then have "unat (tprio k w) < 32"
      using sched_inv_thread_ok [of "{}" k w] assms(2)
      by (auto simp: kinv_def sched_inv_def thread_ok_def)
    then show ?thesis using handed by (simp add: mutex_inv_def Let_def)
  qed (use assms(2,4) in \<open>auto simp: mutex_inv_def Let_def\<close>)
  then show "mutex_inv n k'" "kinv k'" by auto
qed

lemma mutex_inv_timeout:
  assumes "thread_timeout t k = Some k'" "kinv k" "rt_current_thread k = Some c" "mutex_inv n k"
  shows "mutex_inv n k'" "kinv k'"
  using thread_timeout_lists [OF assms(1-3)] assms(4) by (auto simp: mutex_inv_def Let_def)

section \<open>Steps of a mutex\<close>

text \<open>The events in the life of mutex \<open>n\<close>: the running thread takes or releases it, the time of a
  waiting thread is up, or the scheduler switches threads.\<close>

inductive mutex_step :: "nat \<Rightarrow> kernel \<Rightarrow> kernel \<Rightarrow> bool" for n where
  mstep_take: "running c k \<Longrightarrow> rt_mutex_take n timeout k = Some (r, k') \<Longrightarrow> mutex_step n k k'"
| mstep_release: "running c k \<Longrightarrow> rt_mutex_release n k = Some (e, k') \<Longrightarrow> mutex_step n k k'"
| mstep_timeout: "rt_current_thread k = Some c \<Longrightarrow> thread_timeout t k = Some k' \<Longrightarrow> mutex_step n k k'"
| mstep_schedule: "rt_current_thread k = Some c \<Longrightarrow> rt_schedule k = Some k' \<Longrightarrow> mutex_step n k k'"

lemma mutex_inv_schedule:
  assumes "rt_schedule k = Some k'" "kinv k" "rt_current_thread k = Some c" "mutex_inv n k"
  shows "mutex_inv n k'" "kinv k'"
  using rt_schedule_wait_lists [OF _ assms(3,1), of "Suspend (Mutex n)"] assms(2,4)
    same_but_sched_sel(9) [OF rt_schedule_same [OF assms(1)]] kinv_schedule [OF assms(1-3)]
  by (auto simp: mutex_inv_def Let_def kinv_def)

lemma mutex_inv_step:
  assumes "mutex_step n k k'" "kinv k \<and> mutex_inv n k"
  shows "kinv k' \<and> mutex_inv n k'"
  using assms
  by (cases rule: mutex_step.cases)
    (auto dest: mutex_inv_take mutex_inv_release mutex_inv_timeout mutex_inv_schedule)

lemma mutex_inv_reachable:
  "(mutex_step n)\<^sup>*\<^sup>* k k' \<Longrightarrow> kinv k \<and> mutex_inv n k \<Longrightarrow> kinv k' \<and> mutex_inv n k'"
  by (induction rule: rtranclp_induct) (auto dest: mutex_inv_step)

section \<open>The operations return\<close>

lemma kready_upd_mutex [simp]: "kready (upd_mutex n f k) = kready k"
  using kinv_upd_mutex [of n f k] live_ok_cong [of "upd_mutex n f k" k]
  by (auto simp: kready_def kinv_def)

lemma change_priority_ready:
  assumes rdy: "kready k" and ty: "rt_object_get_type (Obj_thread t) k = RT_Object_Class_Thread"
    and p: "unat p < 32"
  shows "\<exists>k'. change_priority t p k = Some k' \<and> kready k'"
proof -
  obtain k' where k': "change_priority t p k = Some k'"
    using ty by (simp add: change_priority_def rt_thread_control_def)
  have inv: "kinv k" using rdy by (simp add: kready_def kinv_def)
  note s = change_priority_spec [OF k' inv p]
  have "stack_ok (threads k' u) = stack_ok (threads k u)" for u
    using k' ty by (cases "tstat k t = RT_THREAD_READY"; cases "u = t")
      (auto simp: change_priority_def rt_thread_control_def set_priority_def
        insert_thread_threads stack_ok_def)
  then have "live_ok k'" using live_ok_cong [of k' k] s(4,5) rdy by (simp add: kready_def)
  with s(1) k' show ?thesis by (simp add: kready_def kinv_def)
qed

lemma rt_mutex_take_blocks_ready:
  assumes rdy: "kready k" and ctx: "thread_context c k"
    and ow: "owner (mutexes k n) = Some ow" "ow \<noteq> c" "mutex_value (mutexes k n) = 0"
    and ty: "rt_object_get_type (Obj_ipc (Mutex n)) k = RT_Object_Class_Mutex"
      "rt_object_get_type (Obj_thread ow) k = RT_Object_Class_Thread"
    and flag: "ipc_flag k (Mutex n) = RT_IPC_FLAG_FIFO \<or> ipc_flag k (Mutex n) = RT_IPC_FLAG_PRIO"
    and time: "timeout \<noteq> 0" "sint timeout \<le> 0 \<or> timeout < RT_TICK_HALF"
  shows "\<exists>k' d. rt_mutex_take n timeout k = Some (Block, k') \<and> kready k' \<and>
    rt_current_thread k' = Some d \<and> (\<forall>q. rt_object_get_type q k' = rt_object_get_type q k)"
proof -
  let ?k1 = "upd_thread c (\<lambda>r. r\<lparr>thread_error := RT_EOK\<rparr>) k"
  have run: "running c k" "kinv k" using ctx rdy by (auto simp: thread_context_def kready_def kinv_def)
  have ty1: "rt_object_get_type (Obj_thread ow) ?k1 = RT_Object_Class_Thread"
    using ty(2) by (simp add: rt_object_get_type_def)
  obtain k2 where k2: "(if tprio k c < tprio k ow then change_priority ow (tprio ?k1 c) ?k1
      else Some ?k1) = Some k2" "kready k2"
    using change_priority_ready [OF _ ty1, of "tprio k c"] running_prio [OF run(2,1)] rdy
    by (cases "tprio k c < tprio k ow") auto
  have same: "objects k2 = objects k \<and> tstat k2 c = tstat k c \<and>
      rt_current_thread k2 = rt_current_thread k"
  proof (cases "tprio k c < tprio k ow")
    case True
    with k2 have "change_priority ow (tprio k c) ?k1 = Some k2" by simp
    from change_priority_spec [OF this _ running_prio [OF run(2,1)]] run(2) show ?thesis by simp
  next
    case False
    then show ?thesis using k2 by auto
  qed
  have "tstat k2 c = RT_THREAD_RUNNING" "rt_current_thread k2 = Some c"
    "ipc_flag k2 (Mutex n) = RT_IPC_FLAG_FIFO \<or> ipc_flag k2 (Mutex n) = RT_IPC_FLAG_PRIO"
    using same run flag by (auto simp: running_def)
  from ipc_block_ready [OF k2(2) this time(2) disjI1 [OF refl]] obtain k' d where
    b: "ipc_block (Suspend (Mutex n)) c (ipc_flag k2 (Mutex n)) timeout k2 = Some k'" "kready k'"
      "rt_current_thread k' = Some d" "\<forall>q. rt_object_get_type q k' = rt_object_get_type q k2"
    by blast
  have "rt_mutex_take n timeout k = Some (Block, k')"
    using b(1) k2(1) ow ty time scheduler_available [OF ctx] run(1)
    by (auto simp: rt_mutex_take_def Let_def rt_thread_self_def running_def)
  then show ?thesis using b same by (simp add: rt_object_get_type_def)
qed

text \<open>Mutex \<open>n\<close> fresh, and taken by the running thread, in the example state.\<close>

definition mutex_demo :: "nat \<Rightarrow> kernel" where
  "mutex_demo n = upd_mutex n (\<lambda>_. \<lparr>mutex_value = 1, original_priority = 0xFF, hold = 0, owner = None\<rparr>)
     three_threads"

definition mutex_taken :: "nat \<Rightarrow> kernel" where
  "mutex_taken n = upd_mutex n (\<lambda>_. \<lparr>mutex_value = 0, original_priority = 10, hold = 1, owner = Some 2\<rparr>)
     three_threads"

lemma mutex_demo_ok:
  "kinv (mutex_demo n)" "kinv (mutex_taken n)" "running 2 (mutex_demo n)" "running 2 (mutex_taken n)"
  "mutex_inv n (mutex_demo n)" "mutex_inv n (mutex_taken n)"
  "owner (mutexes (mutex_demo n) n) = None" "owner (mutexes (mutex_taken n) n) = Some 2"
  "hold (mutexes (mutex_demo n) n) = 0" "hold (mutexes (mutex_taken n) n) = 1"
  "original_priority (mutexes (mutex_taken n) n) = 10" "tlists (mutex_taken n) (Suspend (Mutex n)) = []"
  by (simp_all add: mutex_demo_def mutex_taken_def kinv_three_threads running_def mutex_inv_def)

lemma mutex_demo_take: "rt_mutex_take n 0 (mutex_demo n) = Some (Return RT_EOK, mutex_taken n)"
proof -
  have "RT_DEBUG_SCHEDULER_AVAILABLE True (mutex_demo n) = Some ()"
    by (rule scheduler_available [of 2])
      (simp add: thread_context_def rt_critical_level_def mutex_demo_ok(3), simp add: mutex_demo_def upd_mutex_def)
  moreover have "rt_object_get_type (Obj_ipc (Mutex n)) (mutex_demo n) = RT_Object_Class_Mutex"
    using three_threads_types(3) [of n] by (simp add: mutex_demo_def rt_object_get_type_def)
  moreover have "upd_thread 2 (\<lambda>r. r\<lparr>thread_error := RT_EOK\<rparr>) three_threads = three_threads"
    by (simp add: upd_thread_def three_threads_def demo_thread_def zero_thread_def RT_EOK_def fun_eq_iff)
  ultimately show ?thesis
    by (simp add: rt_mutex_take_def rt_thread_self_def Let_def)
      (simp add: mutex_demo_def mutex_taken_def upd_mutex_def upd_thread_def)
qed

lemma mutex_demo_release: "rt_mutex_release n (mutex_taken n) = Some (RT_EOK, mutex_demo n)"
proof -
  have "rt_object_get_type (Obj_ipc (Mutex n)) (mutex_taken n) = RT_Object_Class_Mutex"
    using three_threads_types(3) [of n] by (simp add: mutex_taken_def rt_object_get_type_def)
  moreover have "RT_DEBUG_IN_THREAD_CONTEXT (mutex_taken n) = Some ()"
    by (simp add: mutex_taken_def upd_mutex_def RT_DEBUG_IN_THREAD_CONTEXT_def
        RT_DEBUG_NOT_IN_INTERRUPT_def rt_interrupt_get_nest_def rt_thread_self_def)
  ultimately show ?thesis
    by (simp add: rt_mutex_release_def mutex_hand_over_def rt_thread_self_def Let_def)
      (simp add: mutex_demo_def mutex_taken_def upd_mutex_def rt_mutex_release_def mutex_hand_over_def)
qed

section \<open>Properties\<close>

text \<open>C1: Mutual exclusion. From any state in which mutex \<open>n\<close> is consistent (a fresh one is), after
  any sequence of takes, releases, timeouts and context switches, the ownership of a taken mutex
  changes in one way only: the owner, while it is the running thread, releases its last hold, and
  that release returns \<^verbatim>\<open>RT_EOK\<close>. No take, no timeout and no release by another thread removes or
  replaces an owner.\<close>

theorem mutex_exclusion:
  assumes reach: "(mutex_step n)\<^sup>*\<^sup>* k0 k" and "kinv k0" "mutex_inv n k0"
    and step: "mutex_step n k k'"
    and own: "owner (mutexes k n) = Some a" "owner (mutexes k' n) \<noteq> Some a"
  shows "running a k \<and> hold (mutexes k n) = 1 \<and> rt_mutex_release n k = Some (RT_EOK, k')"
proof -
  have inv: "kinv k" "mutex_inv n k" using mutex_inv_reachable [OF reach] assms(2,3) by auto
  from step show ?thesis
  proof (cases rule: mutex_step.cases)
    case (mstep_take c timeout r)
    from mstep_take(2) inv(1) mstep_take(1) inv(2) own show ?thesis
      by (cases rule: rt_mutex_take_cases) auto
  next
    case (mstep_release c e)
    note rel = mstep_release(2)
    from mstep_release(2) inv(1) mstep_release(1) inv(2) own show ?thesis
      using rel mstep_release(1) by (cases rule: rt_mutex_release_cases) auto
  next
    case (mstep_timeout c t)
    then show ?thesis using thread_timeout_lists(3) [OF mstep_timeout(2) inv(1) mstep_timeout(1)] own by simp
  next
    case (mstep_schedule c)
    then show ?thesis using same_but_sched_sel(9) [OF rt_schedule_same] own by simp
  qed
qed

theorem mutex_exclusion_witness:
  "running 2 (mutex_taken 0) \<and> rt_mutex_release 0 (mutex_taken 0) = Some (RT_EOK, mutex_demo 0) \<and>
   hold (mutexes (mutex_taken 0) 0) = 1"
proof -
  have "mutex_step 0 (mutex_demo 0) (mutex_taken 0)"
    by (rule mstep_take [OF mutex_demo_ok(3) mutex_demo_take])
  moreover have "mutex_step 0 (mutex_taken 0) (mutex_demo 0)"
    by (rule mstep_release [OF mutex_demo_ok(4) mutex_demo_release])
  ultimately show ?thesis
    using mutex_exclusion [of 0 "mutex_demo 0" "mutex_taken 0" "mutex_demo 0" 2] mutex_demo_ok
    by (simp add: r_into_rtranclp)
qed

text \<open>What \<^verbatim>\<open>rt_mutex_take\<close> returns. It succeeds at once exactly if the mutex is free or the
  caller owns it with fewer than 255 holds; then the caller owns it with one hold more. At 255 holds
  it fails with \<^verbatim>\<open>RT_EFULL\<close> and the count does not wrap. A thread that does not get the mutex fails
  with \<^verbatim>\<open>RT_ETIMEOUT\<close> if it does not want to wait, and is otherwise suspended on the wait list; then
  the owner's priority is at least that of the caller (priority inheritance) and never lower than
  before.\<close>

theorem rt_mutex_take_result:
  assumes "kinv k" and "running c k" and "mutex_inv n k" and "rt_mutex_take n timeout k = Some (r, k')"
  shows "(r = Return RT_EOK \<longleftrightarrow> owner (mutexes k n) = None \<or>
            owner (mutexes k n) = Some c \<and> unat (hold (mutexes k n)) < 255) \<and>
    (r = Return RT_EOK \<longrightarrow> owner (mutexes k' n) = Some c \<and>
       unat (hold (mutexes k' n)) = Suc (unat (hold (mutexes k n)))) \<and>
    (r = Return (- RT_EFULL) \<longleftrightarrow> owner (mutexes k n) = Some c \<and> unat (hold (mutexes k n)) = 255) \<and>
    (r = Return (- RT_ETIMEOUT) \<longleftrightarrow> (\<exists>ow. owner (mutexes k n) = Some ow \<and> ow \<noteq> c \<and> timeout = 0)) \<and>
    (\<forall>ow. owner (mutexes k n) = Some ow \<and> ow \<noteq> c \<and> timeout \<noteq> 0 \<longrightarrow>
       r = Block \<and> tstat k' c = RT_THREAD_SUSPEND \<and> c \<in> set (tlists k' (Suspend (Mutex n))) \<and>
       tprio k' ow \<le> tprio k' c \<and> tprio k' ow \<le> tprio k ow)"
  using assms(4,1,2,3)
proof (cases rule: rt_mutex_take_cases)
  case recursive
  then show ?thesis using u8_inc [of "hold (mutexes k n)"] by (auto simp: rt_errors word_less_nat_alt)
next
  case free
  then have "hold (mutexes k n) = 0" using assms(3) by (auto simp: mutex_inv_def Let_def)
  then show ?thesis using free by (auto simp: rt_errors)
qed (use assms in \<open>auto simp: rt_errors\<close>)

theorem rt_mutex_take_result_witness:
  "rt_mutex_take 0 0 (mutex_demo 0) = Some (Return RT_EOK, mutex_taken 0) \<and>
   owner (mutexes (mutex_taken 0) 0) = Some 2"
  using rt_mutex_take_result [OF mutex_demo_ok(1,3,5) mutex_demo_take [of 0]] mutex_demo_ok
    mutex_demo_take by simp

text \<open>What \<^verbatim>\<open>rt_mutex_release\<close> does. Only the owner can release: any other thread gets
  \<^verbatim>\<open>RT_ERROR\<close> and the mutex does not change. The last release restores the priority the owner had
  when it took the mutex, and hands the mutex to the first waiter, who becomes runnable as its owner
  with one hold; without waiters the mutex is free.\<close>

theorem rt_mutex_release_result:
  assumes "kinv k" and "running c k" and "mutex_inv n k" and "rt_mutex_release n k = Some (e, k')"
  shows "(owner (mutexes k n) \<noteq> Some c \<longrightarrow> e = - RT_ERROR \<and> mutexes k' = mutexes k) \<and>
    (owner (mutexes k n) = Some c \<longrightarrow> e = RT_EOK \<and>
       (if unat (hold (mutexes k n)) > 1 then owner (mutexes k' n) = Some c \<and>
            Suc (unat (hold (mutexes k' n))) = unat (hold (mutexes k n))
        else tprio k' c = original_priority (mutexes k n) \<and>
          (case tlists k (Suspend (Mutex n)) of
             [] \<Rightarrow> owner (mutexes k' n) = None \<and> mutex_value (mutexes k' n) = 1 \<and>
                   hold (mutexes k' n) = 0
           | w # ws \<Rightarrow> owner (mutexes k' n) = Some w \<and> hold (mutexes k' n) = 1 \<and>
                   tlists k' (Suspend (Mutex n)) = ws \<and>
                   tstat k' w \<in> {RT_THREAD_READY, RT_THREAD_RUNNING})))"
  using assms(4,1,2,3)
proof (cases rule: rt_mutex_release_cases)
  case still_held
  then have "0 < hold (mutexes k n)" by (simp add: word_less_nat_alt)
  from word_dec_Suc [OF this] show ?thesis using still_held by (simp add: word_less_nat_alt)
qed auto

theorem rt_mutex_release_result_witness:
  "rt_mutex_release 0 (mutex_taken 0) = Some (RT_EOK, mutex_demo 0) \<and>
   tprio (mutex_demo 0) 2 = 10 \<and> owner (mutexes (mutex_demo 0) 0) = None"
  using rt_mutex_release_result [OF mutex_demo_ok(2,4,6) mutex_demo_release [of 0]] mutex_demo_ok
    mutex_demo_release by simp

text \<open>C33: Priority inheritance is not undone when the waiter gives up. If the running thread blocks on
  a mutex whose owner is less urgent, the owner gets the caller's priority; if the caller's time is
  then up, it returns with \<^verbatim>\<open>RT_ETIMEOUT\<close> and nobody waits for the mutex, but the owner keeps the
  higher priority (until its last release).\<close>

theorem mutex_boost_outlives_waiter:
  assumes "kinv k" and "running c k" and "mutex_inv n k"
    and ow: "owner (mutexes k n) = Some ow" "tprio k c < tprio k ow"
    and "tlists k (Suspend (Mutex n)) = []"
    and take: "rt_mutex_take n timeout k = Some (Block, k1)"
    and to: "thread_timeout c k1 = Some k2"
  shows "rt_mutex_take_resume c k2 = - RT_ETIMEOUT \<and> tlists k2 (Suspend (Mutex n)) = [] \<and>
    mutexes k2 n = mutexes k n \<and> tprio k2 ow = tprio k c \<and> tprio k2 ow < tprio k ow"
  using take assms(1,2,3)
proof (cases rule: rt_mutex_take_cases)
  case (blocked o')
  then obtain d where d: "rt_current_thread k1 = Some d" by blast
  note l = thread_timeout_lists [OF to blocked(5) d] and e = thread_timeout_threads [OF to]
  have "set (tlists k2 (Suspend (Mutex n))) = {}" using l(5) [of "Suspend (Mutex n)"] blocked assms(6) by simp
  then show ?thesis
    using e(1) [of ow] e(2) [of c] blocked l(3) ow by (simp add: rt_mutex_take_resume_def rt_errors)
qed simp_all

theorem mutex_boost_outlives_waiter_witness:
  "\<exists>k k1 k2. rt_mutex_take 0 100 k = Some (Block, k1) \<and> thread_timeout 2 k1 = Some k2 \<and>
     tprio k 3 = 20 \<and> tprio k2 3 = 10 \<and> tlists k2 (Suspend (Mutex 0)) = []"
proof -
  obtain k0 where k0: "change_priority 3 20 three_threads = Some k0" "kready k0"
    using change_priority_ready [OF kready_three_threads, of 3 20] three_threads_types(1) [of 3]
    by (auto simp: resumable_def)
  note s = change_priority_spec [OF k0(1) kinv_three_threads]
  define k where "k = upd_mutex 0 (\<lambda>_. \<lparr>mutex_value = 0, original_priority = 20, hold = 1,
    owner = Some 3\<rparr>) k0"
  have run: "running 2 k" "kinv k" "mutex_inv 0 k" "kready k" "tprio k 3 = 20" "tprio k 2 = 10"
    "owner (mutexes k 0) = Some 3" "mutex_value (mutexes k 0) = 0" "tlists k (Suspend (Mutex 0)) = []"
    "objects k = objects three_threads"
    using s k0(2) by (simp_all add: k_def running_def mutex_inv_def)
  have "rt_scheduler_lock_nest k0 = 0" "rt_interrupt_nest k0 = 0"
    using k0(1) by (auto simp: change_priority_def rt_thread_control_def set_priority_def split: if_splits)
  then have ctx: "thread_context 2 k"
    using run(1) by (simp add: thread_context_def k_def upd_mutex_def rt_critical_level_def)
  have "rt_object_get_type r k = rt_object_get_type r three_threads" for r
    using run(10) by (simp add: rt_object_get_type_def)
  then have ty: "rt_object_get_type (Obj_ipc (Mutex 0)) k = RT_Object_Class_Mutex"
    "rt_object_get_type (Obj_thread 3) k = RT_Object_Class_Thread"
    using three_threads_types(1) [of 3] by (simp_all add: three_threads_types resumable_def)
  have "ipc_flag k (Mutex 0) = RT_IPC_FLAG_FIFO" using run(10) three_threads_types(7) by simp
  then obtain k1 d where k1: "rt_mutex_take 0 100 k = Some (Block, k1)" "kready k1"
    "rt_current_thread k1 = Some d"
    using rt_mutex_take_blocks_ready [OF run(4) ctx run(7) _ run(8) ty, of 100] by auto
  have "tstat k1 2 = RT_THREAD_SUSPEND"
    using rt_mutex_take_result [OF run(2,1,3) k1(1)] run(7) by simp
  then obtain k2 where k2: "thread_timeout 2 k1 = Some k2"
    using thread_timeout_returns [OF k1(2) _ k1(3)] by blast
  show ?thesis
    using mutex_boost_outlives_waiter [OF run(2,1,3,7) _ run(9) k1(1) k2] k1(1) k2 run(5,6) by auto
qed

end
