(* ===== verification/Ipc_Mutex_Free.thy ===== *)
theory Ipc_Mutex_Free
  imports Ipc_Mutex
begin

text \<open>
  A thread that finds a mutex free takes it, takes it again and gives it back without blocking: the exact
  states, for the clients of a mutex (the heap lock, the sensor lock of the application).
\<close>

text \<open>The kernel state \<open>k\<close> after its thread \<open>c\<close> took the free mutex \<open>n\<close> \<open>h\<close> times.\<close>

definition held :: "nat \<Rightarrow> tid \<Rightarrow> 8 word \<Rightarrow> kernel \<Rightarrow> kernel" where
  "held n c h k = upd_mutex n (\<lambda>_. \<lparr>mutex_value = 0, original_priority = tprio k c, hold = h, owner = Some c\<rparr>)
     (upd_thread c (\<lambda>r. r\<lparr>thread_error := RT_EOK\<rparr>) k)"

definition given_back :: "nat \<Rightarrow> tid \<Rightarrow> kernel \<Rightarrow> kernel" where
  "given_back n c k = upd_mutex n (\<lambda>_. \<lparr>mutex_value = 1, original_priority = 0xFF, hold = 0, owner = None\<rparr>)
     (upd_thread c (\<lambda>r. r\<lparr>thread_error := RT_EOK\<rparr>) k)"

definition mutex_free :: "nat \<Rightarrow> tid \<Rightarrow> kernel \<Rightarrow> bool" where
  "mutex_free n c k \<longleftrightarrow> thread_context c k \<and>
     rt_object_get_type (Obj_ipc (Mutex n)) k = RT_Object_Class_Mutex \<and>
     mutex_value (mutexes k n) = 1 \<and> owner (mutexes k n) = None \<and> hold (mutexes k n) = 0 \<and>
     tlists k (Suspend (Mutex n)) = []"

lemma mutex_freeD:
  assumes "mutex_free n c k"
  shows "rt_thread_self k = Some c" "RT_DEBUG_SCHEDULER_AVAILABLE b k = Some ()"
    "RT_DEBUG_IN_THREAD_CONTEXT k = Some ()"
    "rt_object_get_type (Obj_ipc (Mutex n)) k = RT_Object_Class_Mutex"
  using assms scheduler_available [of c k b]
  by (simp_all add: mutex_free_def thread_context_def running_def rt_thread_self_def
    RT_DEBUG_IN_THREAD_CONTEXT_def RT_DEBUG_NOT_IN_INTERRUPT_def rt_interrupt_get_nest_def)

lemma held_sel [simp]:
  "mutexes (held n c h k) n = \<lparr>mutex_value = 0, original_priority = tprio k c, hold = h, owner = Some c\<rparr>"
  "rt_thread_self (held n c h k) = rt_thread_self k"
  "RT_DEBUG_SCHEDULER_AVAILABLE b (held n c h k) = RT_DEBUG_SCHEDULER_AVAILABLE b k"
  "RT_DEBUG_IN_THREAD_CONTEXT (held n c h k) = RT_DEBUG_IN_THREAD_CONTEXT k"
  "rt_object_get_type r (held n c h k) = rt_object_get_type r k"
  "tlists (held n c h k) = tlists k" "tprio (held n c h k) c = tprio k c"
  by (simp_all add: held_def upd_mutex_def upd_thread_def rt_thread_self_def RT_DEBUG_SCHEDULER_AVAILABLE_def
    RT_DEBUG_IN_THREAD_CONTEXT_def RT_DEBUG_NOT_IN_INTERRUPT_def rt_interrupt_get_nest_def rt_object_get_type_def
    rt_critical_level_def)

lemma held_upd:
  "upd_mutex n (\<lambda>m. m\<lparr>hold := h'\<rparr>) (held n c h k) = held n c h' k"
  "upd_thread c (\<lambda>r. r\<lparr>thread_error := RT_EOK\<rparr>) (held n c h k) = held n c h k"
  by (simp_all add: held_def upd_mutex_def upd_thread_def fun_upd_def cong: if_cong)

lemma take_free:
  assumes "mutex_free n c k"
  shows "rt_mutex_take n timeout k = Some (Return RT_EOK, held n c 1 k)"
proof -
  obtain p where m: "mutexes k n = \<lparr>mutex_value = 1, original_priority = p, hold = 0, owner = None\<rparr>"
    using assms by (cases "mutexes k n") (auto simp: mutex_free_def)
  show ?thesis
    using mutex_freeD [OF assms] by (simp add: rt_mutex_take_def m held_def upd_mutex_def upd_thread_def)
qed

lemma take_again:
  assumes "mutex_free n c k" and "h < 0xFF"
  shows "rt_mutex_take n timeout (held n c h k) = Some (Return RT_EOK, held n c (h + 1) k)"
proof -
  have "upd_mutex n (\<lambda>m. m\<lparr>hold := hold m + 1\<rparr>) (held n c h k) = held n c (h + 1) k"
    by (simp add: held_def upd_mutex_def)
  then show ?thesis
    using assms(2) mutex_freeD [OF assms(1)] by (simp add: rt_mutex_take_def held_upd)
qed

lemma release_again:
  assumes "mutex_free n c k" and "h \<noteq> 0" "h + 1 \<noteq> 0"
  shows "rt_mutex_release n (held n c (h + 1) k) = Some (RT_EOK, held n c h k)"
proof -
  have "upd_mutex n (\<lambda>m. m\<lparr>hold := hold m - 1\<rparr>) (held n c (h + 1) k) = held n c h k"
    by (simp add: held_def upd_mutex_def)
  then show ?thesis
    using assms(2) mutex_freeD [OF assms(1)] by (simp add: rt_mutex_release_def)
qed

lemma release_last:
  assumes "mutex_free n c k"
  shows "rt_mutex_release n (held n c 1 k) = Some (RT_EOK, given_back n c k)"
proof -
  have "upd_mutex n (\<lambda>m. m\<lparr>hold := hold m - 1\<rparr>) (held n c 1 k) = held n c 0 k"
    by (simp add: held_def upd_mutex_def)
  moreover have "mutex_hand_over n c (held n c 0 k) = Some (RT_EOK, given_back n c k)"
    using assms by (simp add: mutex_hand_over_def mutex_free_def) (simp add: held_def given_back_def upd_mutex_def)
  ultimately show ?thesis
    using mutex_freeD [OF assms] by (simp add: rt_mutex_release_def)
qed

lemma given_back_free:
  assumes "mutex_free n c k"
  shows "mutex_free n c (given_back n c k)"
  using assms by (simp add: mutex_free_def given_back_def upd_mutex_def upd_thread_def thread_context_def
    running_def rt_critical_level_def rt_object_get_type_def)

end
