(* ===== verification/Kheap.thy ===== *)
theory Kheap
  imports Smem_Props Ipc_Mutex_Free
begin

text \<open>
  The system heap (\<^verbatim>\<open>src/kservice.c\<close>): the small-memory heap behind a mutex. A call that finds the mutex
  taken blocks (\<^const>\<open>Block\<close>) and goes on with \<open>heap_locked_body\<close> when the mutex has been handed over to
  it. \<open>lk\<close> is the number of the mutex \<^verbatim>\<open>_lock\<close>; the record \<open>smem\<close> is \<^verbatim>\<open>system_heap\<close>. The hooks are not
  installed.
\<close>

section \<open>The lock\<close>

definition heap_lock :: "nat \<Rightarrow> kernel \<Rightarrow> (int outcome \<times> kernel) option" where
  "heap_lock lk k =
     (if rt_current_thread k \<noteq> None then rt_mutex_take lk 0xFFFFFFFF k else Some (Return RT_EOK, k))"

definition heap_unlock :: "nat \<Rightarrow> int \<Rightarrow> kernel \<Rightarrow> kernel option" where
  "heap_unlock lk level k = do {
     rt_assert (level = RT_EOK);
     if rt_current_thread k \<noteq> None then map_option snd (rt_mutex_release lk k) else Some k }"

definition heap_locked_body ::
  "nat \<Rightarrow> int \<Rightarrow> (kernel \<Rightarrow> smem \<Rightarrow> ('a \<times> smem) option) \<Rightarrow> kernel \<Rightarrow> smem \<Rightarrow> ('a outcome \<times> kernel \<times> smem) option" where
  "heap_locked_body lk level f k h = do {
     (r, h1) \<leftarrow> f k h;
     k1 \<leftarrow> heap_unlock lk level k;
     Some (Return r, k1, h1) }"

definition heap_locked ::
  "nat \<Rightarrow> (kernel \<Rightarrow> smem \<Rightarrow> ('a \<times> smem) option) \<Rightarrow> kernel \<Rightarrow> smem \<Rightarrow> ('a outcome \<times> kernel \<times> smem) option" where
  "heap_locked lk f k h = do {
     (r, k1) \<leftarrow> heap_lock lk k;
     case r of Block \<Rightarrow> Some (Block, k1, h) | Return level \<Rightarrow> heap_locked_body lk level f k1 h }"

section \<open>Operations\<close>

definition rt_system_heap_init ::
  "nat \<Rightarrow> 32 word \<Rightarrow> 32 word \<Rightarrow> memory \<Rightarrow> kernel \<Rightarrow> (smem option \<times> kernel) option" where
  "rt_system_heap_init lk begin_addr end_addr m k = do {
     let begin_align = RT_ALIGN begin_addr 4;
     let end_align = RT_ALIGN_DOWN end_addr 4;
     rt_assert (end_align > begin_align);
     (h, k1) \<leftarrow> rt_smem_init ''heap'' begin_addr (end_align - begin_align) m k;
     (_, k2) \<leftarrow> rt_mutex_init lk ''heap'' RT_IPC_FLAG_PRIO k1;
     Some (h, k2) }"

definition rt_malloc :: "nat \<Rightarrow> 32 word \<Rightarrow> kernel \<Rightarrow> smem \<Rightarrow> (32 word outcome \<times> kernel \<times> smem) option" where
  "rt_malloc lk sz = heap_locked lk (rt_smem_alloc sz)"

definition rt_realloc ::
  "nat \<Rightarrow> 32 word \<Rightarrow> 32 word \<Rightarrow> kernel \<Rightarrow> smem \<Rightarrow> (32 word outcome \<times> kernel \<times> smem) option" where
  "rt_realloc lk rmem newsize = heap_locked lk (rt_smem_realloc rmem newsize)"

definition rt_free :: "nat \<Rightarrow> 32 word \<Rightarrow> kernel \<Rightarrow> smem \<Rightarrow> (unit outcome \<times> kernel \<times> smem) option" where
  "rt_free lk rmem k h =
     (if rmem = RT_NULL then Some (Return (), k, h)
      else heap_locked lk (\<lambda>k h. map_option (Pair ()) (rt_smem_free rmem k h)) k h)"

text \<open>What follows \<^verbatim>\<open>rt_malloc\<close> in \<^verbatim>\<open>rt_calloc\<close>.\<close>

definition calloc_clear :: "32 word \<Rightarrow> 32 word \<Rightarrow> smem \<Rightarrow> smem" where
  "calloc_clear n p h = (if p \<noteq> RT_NULL then h\<lparr>ram := rt_memset p 0 n (ram h)\<rparr> else h)"

definition rt_calloc ::
  "nat \<Rightarrow> 32 word \<Rightarrow> 32 word \<Rightarrow> kernel \<Rightarrow> smem \<Rightarrow> (32 word outcome \<times> kernel \<times> smem) option" where
  "rt_calloc lk count sz k h = do {
     (r, k1, h1) \<leftarrow> rt_malloc lk (count * sz) k h;
     Some (case r of Block \<Rightarrow> (Block, k1, h1) | Return p \<Rightarrow> (Return p, k1, calloc_clear (count * sz) p h1)) }"

definition rt_memory_info ::
  "nat \<Rightarrow> kernel \<Rightarrow> smem \<Rightarrow> ((32 word \<times> 32 word \<times> 32 word) outcome \<times> kernel \<times> smem) option" where
  "rt_memory_info lk = heap_locked lk (\<lambda>k h. Some ((mem_total h, mem_used h, mem_max h), h))"

section \<open>Aligned blocks\<close>

definition align_up4 :: "32 word \<Rightarrow> 32 word" where "align_up4 x = (x + 3) AND NOT 3"

text \<open>The address in the block \<open>ptr\<close>, and the word before it that remembers \<open>ptr\<close>.\<close>

definition place_aligned :: "32 word \<Rightarrow> 32 word \<Rightarrow> smem \<Rightarrow> 32 word \<times> smem" where
  "place_aligned align ptr h =
     (let align_ptr = (if ptr AND (align - 1) = 0 then ptr + align
                       else (ptr + (align - 1)) AND NOT (align - 1))
      in (align_ptr, h\<lparr>ram := store32 (align_ptr - 4) ptr (ram h)\<rparr>))"

definition rt_malloc_align ::
  "nat \<Rightarrow> 32 word \<Rightarrow> 32 word \<Rightarrow> kernel \<Rightarrow> smem \<Rightarrow> (32 word outcome \<times> kernel \<times> smem) option" where
  "rt_malloc_align lk sz align k h = do {
     let align = align_up4 align;
     let align_size = align_up4 sz + align;
     (r, k1, h1) \<leftarrow> rt_malloc lk align_size k h;
     Some (case r of
        Block \<Rightarrow> (Block, k1, h1)
      | Return ptr \<Rightarrow>
          if ptr \<noteq> RT_NULL then let (a, h2) = place_aligned align ptr h1 in (Return a, k1, h2)
          else (Return ptr, k1, h1)) }"

definition rt_free_align :: "nat \<Rightarrow> 32 word \<Rightarrow> kernel \<Rightarrow> smem \<Rightarrow> (unit outcome \<times> kernel \<times> smem) option" where
  "rt_free_align lk ptr k h =
     (if ptr = RT_NULL then Some (Return (), k, h) else rt_free lk (load32 (ram h) (ptr - 4)) k h)"

end

