(* ===== verification/Kheap_Props.thy ===== *)
theory Kheap_Props
  imports Kheap
begin

text \<open>
  The system heap behind its lock: with the lock free a call does what the small-memory heap does and
  gives the lock back; blocks with a wider alignment.
\<close>

lemma smem_check_objects: "objects k' = objects k \<Longrightarrow> smem_check k' h = smem_check k h"
  by (simp add: smem_check_def rt_object_get_type_def rt_object_is_systemobject_def)

lemma held_objects [simp]: "objects (held n c x k) = objects k" "rt_current_thread (held n c x k) = rt_current_thread k"
  by (simp_all add: held_def upd_mutex_def upd_thread_def)

lemma given_back_objects [simp]: "objects (given_back n c k) = objects k"
  by (simp add: given_back_def upd_mutex_def upd_thread_def)

lemma smem_ops_objects:
  assumes "objects k' = objects k"
  shows "rt_smem_alloc sz k' h = rt_smem_alloc sz k h" "rt_smem_free a k' h = rt_smem_free a k h"
proof -
  have "smem_check k' h = smem_check k h" by (rule smem_check_objects [OF assms])
  then show "rt_smem_alloc sz k' h = rt_smem_alloc sz k h" "rt_smem_free a k' h = rt_smem_free a k h"
    by (simp_all add: rt_smem_alloc_def rt_smem_free_def)
qed

lemma heap_locked_free:
  assumes "mutex_free lk c k" "f (held lk c 1 k) h = f k h"
  shows "heap_locked lk f k h = map_option (\<lambda>(r, h'). (Return r, given_back lk c k, h')) (f k h)"
proof -
  have self: "rt_current_thread k = Some c"
    using mutex_freeD(1) [OF assms(1)] by (simp add: rt_thread_self_def)
  have unl: "heap_unlock lk RT_EOK (held lk c 1 k) = Some (given_back lk c k)"
    using release_last [OF assms(1)] self by (simp add: heap_unlock_def)
  have "heap_lock lk k = Some (Return RT_EOK, held lk c 1 k)"
    using take_free [OF assms(1)] self by (simp add: heap_lock_def)
  then show ?thesis
    using unl assms(2)
    by (cases "f k h") (auto simp: heap_locked_def heap_locked_body_def split: prod.splits)
qed

lemma rt_malloc_free:
  assumes "mutex_free lk c k"
  shows "rt_malloc lk sz k h = map_option (\<lambda>(p, h'). (Return p, given_back lk c k, h')) (rt_smem_alloc sz k h)"
  unfolding rt_malloc_def by (rule heap_locked_free [OF assms smem_ops_objects(1)]) simp

lemma rt_free_free:
  assumes "mutex_free lk c k" "a \<noteq> 0"
  shows "rt_free lk a k h = map_option (\<lambda>h'. (Return (), given_back lk c k, h')) (rt_smem_free a k h)"
proof -
  have "rt_smem_free a (held lk c 1 k) h = rt_smem_free a k h"
    by (rule smem_ops_objects) simp
  then show ?thesis
    using assms(2) heap_locked_free [OF assms(1), of "\<lambda>k h. map_option (Pair ()) (rt_smem_free a k h)" h]
    by (simp add: rt_free_def option.map_comp comp_def)
qed

section \<open>Alignment\<close>

lemma unat_exp32: "j < 32 \<Longrightarrow> unat (2 ^ j :: 32 word) = 2 ^ j"
  using unat_of_nat32 [of "2 ^ j"] power_strict_increasing [of j 32 "2 :: nat"] by simp

lemma align_word:
  fixes x :: "32 word"
  assumes "unat x + 2 ^ j \<le> 2 ^ 32" "j < 32"
  shows "unat ((x + (2 ^ j - 1)) AND NOT (2 ^ j - 1)) = (unat x + (2 ^ j - 1)) div 2 ^ j * 2 ^ j"
    "x AND (2 ^ j - 1) = 0 \<longleftrightarrow> 2 ^ j dvd unat x"
proof -
  have m: "(2 ^ j - 1 :: 32 word) = mask j" by (simp add: mask_eq_exp_minus_1)
  have p: "unat (2 ^ j :: 32 word) = 2 ^ j" using assms(2) by (rule unat_exp32)
  have one: "unat (2 ^ j - 1 :: 32 word) = 2 ^ j - 1"
    using assms(2) p by (simp add: unat_sub word_le_nat_alt)
  have s: "unat (x + (2 ^ j - 1)) = unat x + (2 ^ j - 1)"
    using assms one by (subst unat_add_lem [THEN iffD1]) auto
  have tb: "unat (take_bit j y) = unat y mod 2 ^ j" for y :: "32 word"
    using p by (simp add: take_bit_eq_mod unat_mod)
  have le: "take_bit j y \<le> y" for y :: "32 word"
    by (simp add: word_le_nat_alt tb)
  have "unat ((x + (2 ^ j - 1)) AND NOT (mask j)) = unat (x + (2 ^ j - 1)) - unat (x + (2 ^ j - 1)) mod 2 ^ j"
    unfolding and_not_mask using le by (simp add: unat_sub word_le_nat_alt tb)
  then show "unat ((x + (2 ^ j - 1)) AND NOT (2 ^ j - 1)) = (unat x + (2 ^ j - 1)) div 2 ^ j * 2 ^ j"
    unfolding m [symmetric] s by (simp add: minus_mod_eq_div_mult)
  have "x AND mask j = take_bit j x" by (simp add: take_bit_eq_mask)
  then have "x AND mask j = 0 \<longleftrightarrow> unat x mod 2 ^ j = 0"
    using tb [of x] by (metis unat_0 unat_eq_zero)
  then show "x AND (2 ^ j - 1) = 0 \<longleftrightarrow> 2 ^ j dvd unat x"
    unfolding m by (simp add: mod_eq_0_iff_dvd)
qed

lemma place_aligned_ok:
  fixes p :: "32 word" and h :: smem
  assumes p: "4 dvd unat p" and j: "2 \<le> j" "j < 31" and top: "unat p + 2 ^ j + n \<le> 2 ^ 32 - 4"
  defines "a \<equiv> fst (place_aligned (2 ^ j) p h)"
  shows "2 ^ j dvd unat a" "unat p + 4 \<le> unat a" "unat a \<le> unat p + 2 ^ j"
    "snd (place_aligned (2 ^ j) p h) = h\<lparr>ram := store32 (a - 4) p (ram h)\<rparr>"
proof -
  have A: "unat (2 ^ j :: 32 word) = 2 ^ j" using j by (simp add: unat_exp32)
  have d4: "(4 :: nat) dvd 2 ^ j" using le_imp_power_dvd [of 2 j "2 :: nat"] j(1) by simp
  then have ge: "(4 :: nat) \<le> 2 ^ j" by (rule dvd_imp_le) simp
  note w = align_word [of p j]
  show "snd (place_aligned (2 ^ j) p h) = h\<lparr>ram := store32 (a - 4) p (ram h)\<rparr>"
    by (simp add: a_def place_aligned_def Let_def)
  have "2 ^ j dvd unat a \<and> unat p + 4 \<le> unat a \<and> unat a \<le> unat p + 2 ^ j"
  proof (cases "p AND (2 ^ j - 1) = 0")
    case True
    then have "a = p + 2 ^ j" by (simp add: a_def place_aligned_def Let_def)
    moreover have "unat (p + 2 ^ j) = unat p + 2 ^ j"
      using A top by (subst unat_add_lem [THEN iffD1]) auto
    ultimately show ?thesis using True w(2) top j ge by simp
  next
    case False
    then have "a = (p + (2 ^ j - 1)) AND NOT (2 ^ j - 1)" by (simp add: a_def place_aligned_def Let_def)
    then have a: "unat a = (unat p + (2 ^ j - 1)) div 2 ^ j * 2 ^ j"
      using w(1) top j by simp
    have nd: "\<not> 2 ^ j dvd unat p" using False w(2) top j by simp
    define q r where "q = unat p div 2 ^ j" and "r = unat p mod 2 ^ j"
    have pq: "unat p = q * 2 ^ j + r" "r < 2 ^ j" "0 < r"
      using nd div_mult_mod_eq [of "unat p" "2 ^ j"] unfolding q_def r_def by (simp_all add: dvd_eq_mod_eq_0)
    have "(unat p + (2 ^ j - 1)) div 2 ^ j = q + 1"
    proof -
      have "unat p + (2 ^ j - 1) = (r - 1) + (q + 1) * 2 ^ j" using pq by simp
      moreover have "(r - 1) div 2 ^ j = 0" using pq by simp
      moreover have "(r - 1 + (q + 1) * 2 ^ j) div 2 ^ j = q + 1 + (r - 1) div 2 ^ j" by (rule div_mult_self1) simp
      ultimately show ?thesis by simp
    qed
    then have aq: "unat a = q * 2 ^ j + 2 ^ j" using a by simp
    have "4 dvd unat a" using d4 unfolding aq by simp
    moreover have "unat p < unat a" using pq aq by simp
    ultimately have "unat p + 4 \<le> unat a" using p by (elim dvdE) simp
    then show ?thesis using aq pq by (simp add: a)
  qed
  then show "2 ^ j dvd unat a" "unat p + 4 \<le> unat a" "unat a \<le> unat p + 2 ^ j" by auto
qed

lemma align_up4_ok:
  assumes "unat (x :: 32 word) + 4 \<le> 2 ^ 32"
  shows "unat (align_up4 x) = (unat x + 3) div 4 * 4"
  using align_word(1) [of x 2] assms by (simp add: align_up4_def)

lemma align_up4_exp: "2 \<le> j \<Longrightarrow> j < 32 \<Longrightarrow> align_up4 (2 ^ j) = 2 ^ j"
proof -
  assume j: "2 \<le> j" "j < 32"
  have d: "(4 :: nat) dvd 2 ^ j" using le_imp_power_dvd [of 2 j "2 :: nat"] j(1) by simp
  have "(2 :: nat) ^ j \<le> 2 ^ 31" using j(2) by (intro power_increasing) auto
  then have "unat (align_up4 (2 ^ j)) = (2 ^ j + 3) div 4 * 4"
    using j by (subst align_up4_ok) (simp_all add: unat_exp32)
  also have "\<dots> = 2 ^ j" using d by (elim dvdE) simp
  finally show ?thesis using j by (simp add: word_unat_eq_iff unat_exp32)
qed

lemma in_span_sub:
  assumes "in_span (p + of_nat d) n x" "d + n \<le> N" "N < 2 ^ 32"
  shows "in_span p N x"
proof -
  let ?y = "x - (p + of_nat d)"
  have "x - p = of_nat d + ?y" by simp
  moreover have "unat (of_nat d + ?y) = d + unat ?y"
    using assms unat_of_nat32 [of d] by (subst unat_add_lem [THEN iffD1]) (auto simp: in_span_def)
  ultimately have "unat (x - p) = d + unat ?y" by metis
  then show ?thesis using assms by (simp add: in_span_def)
qed

lemma word_before:
  assumes "in_span (a - 4) 4 x" "4 \<le> unat a" "unat a + n \<le> 2 ^ 32"
  shows "\<not> in_span a n x"
proof -
  have u: "unat (a - 4) = unat a - 4" using assms(2) by (simp add: unat_sub word_le_nat_alt)
  have "x = (a - 4) + of_nat (unat (x - (a - 4)))" by simp
  moreover have "a = (a - 4) + of_nat 4" by simp
  ultimately have "in_span a n x \<longleftrightarrow> 4 \<le> unat (x - (a - 4)) \<and> unat (x - (a - 4)) < 4 + n"
    using in_span_offset [of "a - 4" 4 n "unat (x - (a - 4))"] assms u by (auto simp: in_span_def)
  then show ?thesis using assms(1) by (simp add: in_span_def)
qed

section \<open>The round trip\<close>

text \<open>C14: \<^verbatim>\<open>rt_free_align\<close> gives back what \<^verbatim>\<open>rt_malloc_align\<close> took. With the lock free, a request with a
  power of two as alignment returns, and an address other than NULL has the alignment. Its \<open>sz\<close> bytes lie
  in a block of the heap that was not live before, so that whatever the client writes into them leaves
  every live block as it was. The word before the address leads \<^verbatim>\<open>rt_free_align\<close> to that block, and after
  it the heap holds the same live blocks as before the request.\<close>

theorem rt_malloc_align_roundtrip:
  assumes inv: "client_inv owned h bs" and obj: "smem_check k h = Some ()" and lock: "mutex_free lk c k"
    and j: "2 \<le> j" "j < 31" and sz: "unat sz + 2 ^ j + 8 \<le> 2 ^ 32"
  shows "\<exists>a k1 h1. rt_malloc_align lk sz (2 ^ j) k h = Some (Return a, k1, h1) \<and> (a = RT_NULL \<longrightarrow> h1 = h) \<and>
     (a \<noteq> RT_NULL \<longrightarrow> 2 ^ j dvd unat a \<and>
        (\<forall>m. (\<forall>x. \<not> in_span a (unat sz) x \<longrightarrow> m x = ram h1 x) \<longrightarrow>
           (\<exists>p cs bs1. owned p = None \<and> unat p + 4 \<le> unat a \<and> unat a + unat sz \<le> unat p + length cs \<and>
              client_inv (owned(p \<mapsto> cs)) (h1\<lparr>ram := m\<rparr>) bs1) \<and>
           (\<exists>k2 h2 bs2. rt_free_align lk a k1 (h1\<lparr>ram := m\<rparr>) = Some (Return (), k2, h2) \<and> client_inv owned h2 bs2)))"
proof -
  let ?n = "align_up4 sz + 2 ^ j"
  have J: "unat (2 ^ j :: 32 word) = 2 ^ j" using j by (simp add: unat_exp32)
  have d4: "(4 :: nat) dvd 2 ^ j" using le_imp_power_dvd [of 2 j "2 :: nat"] j(1) by simp
  then have j4: "(4 :: nat) \<le> 2 ^ j" by (rule dvd_imp_le) simp
  have u4: "unat (align_up4 sz) = (unat sz + 3) div 4 * 4" using sz j4 by (intro align_up4_ok) simp
  then have up: "unat sz \<le> unat (align_up4 sz)" "unat (align_up4 sz) \<le> unat sz + 3" by auto
  have n: "unat ?n = unat (align_up4 sz) + 2 ^ j"
    using up sz J by (subst unat_add_lem [THEN iffD1]) auto
  have nz: "?n \<noteq> 0" using n j4 by (auto simp: word_unat_eq_iff)
  have "?n \<le> 0xFFFFFFFC" using n up(2) sz by (simp add: word_le_nat_alt)
  then have req: "unat ?n \<le> unat (smem_request ?n)" by (rule request_ok(3))
  obtain p h1 where al: "rt_smem_alloc ?n k h = Some (p, h1)" "same_heap h h1" "p = 0 \<Longrightarrow> h1 = h"
    and fresh: "p \<noteq> 0 \<Longrightarrow> owned p = None"
    and got: "p \<noteq> 0 \<Longrightarrow> \<exists>bs'. client_inv (owned(p \<mapsto> read_block (ram h1) p (unat ?n))) h1 bs'"
    using client_alloc [OF inv obj nz] req by blast
  have run: "rt_malloc_align lk sz (2 ^ j) k h =
      Some (if p \<noteq> 0 then let (a, h2) = place_aligned (2 ^ j) p h1 in (Return a, given_back lk c k, h2)
            else (Return p, given_back lk c k, h1))"
    using al(1) rt_malloc_free [OF lock] align_up4_exp [OF j(1)] j(2) by (simp add: rt_malloc_align_def Let_def)
  show ?thesis
  proof (cases "p = 0")
    case True
    then show ?thesis using run al(3) by simp
  next
    case False
    let ?owned = "owned(p \<mapsto> read_block (ram h1) p (unat ?n))"
    obtain bs1 where i1: "client_inv ?owned h1 bs1" using got [OF False] by blast
    have blk: "4 dvd unat p" "unat p + unat ?n \<le> unat (heap_end h1)"
      using client_block(1,3) [OF i1, of p] by auto
    have top: "unat p + unat ?n + 12 \<le> 2 ^ 32"
    proof -
      note sh = client_invD(2) [OF i1]
      have "heap_end h1 = heap_ptr h1 + of_nat (total bs1)" "unat (heap_ptr h1) + total bs1 + 12 \<le> 2 ^ 32"
        using sh by (unfold heap_shape_def, blast+)
      then show ?thesis using blk(2) heap_shape_bounds(4) [OF sh, of "total bs1"] by simp
    qed
    define a where "a = fst (place_aligned (2 ^ j) p h1)"
    have "unat p + 2 ^ j + 0 \<le> 2 ^ 32 - 4" using top n by simp
    note pl = place_aligned_ok [OF blk(1) j this, of h1, folded a_def]
    have a4: "4 \<le> unat a" and az: "a \<noteq> 0" using pl(2) by (auto simp: word_unat_eq_iff)
    have fits: "unat a + unat sz \<le> unat p + unat ?n" using pl(3) n up(1) by simp
    define h2 where "h2 = h1\<lparr>ram := store32 (a - 4) p (ram h1)\<rparr>"
    have run: "rt_malloc_align lk sz (2 ^ j) k h = Some (Return a, given_back lk c k, h2)"
      using run False pl(4) by (cases "place_aligned (2 ^ j) p h1") (simp add: a_def h2_def)
    have off: "a = p + of_nat (unat a - unat p)" "a - 4 = p + of_nat (unat a - unat p - 4)"
      using pl(2) by (simp_all add: of_nat_diff)
    have inside: "in_span p (unat ?n) x" if "in_span (a - 4) 4 x \<or> in_span a (unat sz) x" for x
    proof -
      have N: "unat ?n < 2 ^ 32" using unsigned_less [of ?n, where 'a = nat] by simp
      from that show ?thesis
      proof
        assume "in_span (a - 4) 4 x"
        then have "in_span (p + of_nat (unat a - unat p - 4)) 4 x" by (simp only: off(2) [symmetric])
        then show ?thesis by (rule in_span_sub) (use pl(2) fits N in simp_all)
      next
        assume "in_span a (unat sz) x"
        then have "in_span (p + of_nat (unat a - unat p)) (unat sz) x" by (simp only: off(1) [symmetric])
        then show ?thesis by (rule in_span_sub) (use pl(2) fits N in simp_all)
      qed
    qed
    have "(\<exists>p cs bs1. owned p = None \<and> unat p + 4 \<le> unat a \<and> unat a + unat sz \<le> unat p + length cs \<and>
              client_inv (owned(p \<mapsto> cs)) (h2\<lparr>ram := m\<rparr>) bs1) \<and>
           (\<exists>k2 h3 bs2. rt_free_align lk a (given_back lk c k) (h2\<lparr>ram := m\<rparr>) = Some (Return (), k2, h3) \<and>
              client_inv owned h3 bs2)" if m: "\<forall>x. \<not> in_span a (unat sz) x \<longrightarrow> m x = ram h2 x" for m
    proof -
      have h2m: "h2\<lparr>ram := m\<rparr> = h1\<lparr>ram := m\<rparr>" by (simp add: h2_def)
      have out: "m x = ram h1 x" if "\<not> in_span p (unat ?n) x" for x
      proof -
        have "\<not> in_span a (unat sz) x" "\<not> in_span (a - 4) 4 x" using inside that by blast+
        then show ?thesis using m by (simp add: h2_def store32_other)
      qed
      have i2: "client_inv (owned(p \<mapsto> read_block m p (unat ?n))) (h1\<lparr>ram := m\<rparr>) bs1"
        using client_write [OF i1, of p "read_block (ram h1) p (unat ?n)" m] out by simp
      have "load32 m (a - 4) = load32 (ram h2) (a - 4)"
      proof (rule load32_cong)
        fix x
        assume "in_span (a - 4) 4 x"
        then have "\<not> in_span a (unat sz) x"
          by (rule word_before) (use a4 fits top in auto)
        then show "m x = ram h2 x" using m by blast
      qed
      then have ld: "load32 m (a - 4) = p" by (simp add: h2_def)
      have chk: "smem_check k (h1\<lparr>ram := m\<rparr>) = Some ()"
        using same_heap_check [OF al(2)] obj by (simp add: smem_check_def)
      obtain h3 bs3 where fr: "rt_smem_free p k (h1\<lparr>ram := m\<rparr>) = Some h3"
        and i3: "client_inv ((owned(p \<mapsto> read_block m p (unat ?n)))(p := None)) h3 bs3"
        using client_free [OF i2 chk, of p] by auto
      have "rt_free lk p (given_back lk c k) (h1\<lparr>ram := m\<rparr>) = Some (Return (), given_back lk c (given_back lk c k), h3)"
        using rt_free_free [OF given_back_free [OF lock] False]
          smem_ops_objects(2) [OF given_back_objects, of p lk c k] fr by simp
      then have "rt_free_align lk a (given_back lk c k) (h2\<lparr>ram := m\<rparr>)
          = Some (Return (), given_back lk c (given_back lk c k), h3)"
        using az ld by (simp add: rt_free_align_def h2m)
      moreover have "(owned(p \<mapsto> read_block m p (unat ?n)))(p := None) = owned"
        using fresh [OF False] by (simp add: fun_upd_idem_iff)
      ultimately show ?thesis
        using i2 i3 fresh [OF False] pl(2) fits unfolding h2m
        by (intro conjI exI [of _ p] exI [of _ "read_block m p (unat ?n)"]) auto
    qed
    then show ?thesis
      using run az pl(1) by (intro exI [of _ a] exI [of _ "given_back lk c k"] exI [of _ h2]) simp
  qed
qed

section \<open>Witness\<close>

text \<open>A kernel with a heap object and a free lock.\<close>

lemma heap_lock_demo:
  assumes "smem_check k1 h = Some ()"
  shows "\<exists>k. smem_check k h = Some () \<and> mutex_free 0 2 k"
proof -
  let ?k = "(mutex_demo 0)\<lparr>objects := \<lambda>r. if r = Obj_ipc (Mutex 0) then objects three_threads r else objects k1 r\<rparr>"
  have "mutex_free 0 2 ?k"
    using three_threads_types(3) [of 0] running_three_threads
    by (simp add: mutex_free_def mutex_demo_def thread_context_def running_def rt_critical_level_def
      upd_mutex_def rt_object_get_type_def)
  moreover have "smem_check ?k h = Some ()"
    using assms by (simp add: smem_check_def rt_object_get_type_def rt_object_is_systemobject_def smem_obj_def)
  ultimately show ?thesis by blast
qed

theorem rt_malloc_align_roundtrip_witness:
  "\<exists>k h a k1 h1. rt_malloc_align 0 20 16 k h = Some (Return a, k1, h1) \<and> 16 dvd unat a \<and> heap_end h = 0x200000F4"
proof -
  obtain h k0 where init: "rt_smem_init ''heap'' 0x20000000 256 (\<lambda>_. 0) zero_kernel = Some (Some h, k0)"
    and sz: "mem_size_aligned h = 176" "heap_ptr h = 0x20000038"
    using heap_demo by blast
  obtain bs where inv: "client_inv Map.empty h bs" and chk: "smem_check k0 h = Some ()"
    using rt_smem_init_ok [OF init registry_inv_zero heap_demo_free] by auto
  obtain k where k: "smem_check k h = Some ()" "mutex_free 0 2 k"
    using heap_lock_demo [OF chk] by blast
  have "heap_end h = heap_ptr h + of_nat (total bs)" "total bs = unat (mem_size_aligned h) + 12"
    using client_invD(2) [OF inv] by (unfold heap_shape_def, blast+)
  then have "heap_end h = 0x200000F4" using sz by simp
  moreover have "\<exists>a k1 h1. rt_malloc_align 0 20 16 k h = Some (Return a, k1, h1) \<and> 16 dvd unat a"
    using rt_malloc_align_roundtrip [OF inv k, of 4 20] by fastforce
  ultimately show ?thesis by blast
qed

end
