(* ===== verification/Kprintf.thy ===== *)
theory Kprintf
  imports Kmem
begin

text \<open>
  The formatted output of \<^verbatim>\<open>src/kservice.c\<close>: \<^verbatim>\<open>rt_vsnprintf\<close> and the functions on it, in this configuration
  (\<^verbatim>\<open>RT_PRINTF_PRECISION\<close>, neither \<^verbatim>\<open>RT_PRINTF_SPECIAL\<close> nor \<^verbatim>\<open>RT_KPRINTF_USING_LONGLONG\<close>). A format string is
  the list of its characters before the NUL. A position in the output is a pair of the pointer \<^verbatim>\<open>str\<close> and
  the memory. The variables of type \<^verbatim>\<open>int\<close> are integers, and every operation on them that can leave the range
  of 32 bits is checked: \<^term>\<open>None\<close> is such an overflow, which has no defined result in C, or an argument that is
  missing or has another type than the conversion.
\<close>

section \<open>Output\<close>

abbreviation INT_MAX :: int where "INT_MAX \<equiv> 0x7FFFFFFF"
abbreviation INT_MIN :: int where "INT_MIN \<equiv> - 0x80000000"

type_synonym outpos = "32 word \<times> memory"

definition put :: "32 word \<Rightarrow> char \<Rightarrow> outpos \<Rightarrow> outpos" where
  "put e c = (\<lambda>(str, m). (str + 1, if str < e then m(str := of_char c) else m))"

primrec put_many :: "32 word \<Rightarrow> char \<Rightarrow> nat \<Rightarrow> outpos \<Rightarrow> outpos" where
  "put_many e c 0 q = q"
| "put_many e c (Suc n) q = put_many e c n (put e c q)"

fun put_list :: "32 word \<Rightarrow> string \<Rightarrow> outpos \<Rightarrow> outpos" where
  "put_list e [] q = q"
| "put_list e (c # cs) q = put_list e cs (put e c q)"

text \<open>\<^verbatim>\<open>while (size-- > 0)\<close>, \<^verbatim>\<open>while (--width > 0)\<close> and \<^verbatim>\<open>while (len < width--)\<close>, with the final value of the counter.\<close>

definition pad_while :: "32 word \<Rightarrow> char \<Rightarrow> int \<times> outpos \<Rightarrow> int \<times> outpos" where
  "pad_while e c = (\<lambda>(size, q). (if size > 0 then (-1, put_many e c (nat size) q) else (size - 1, q)))"

definition pad_before :: "32 word \<Rightarrow> int \<times> outpos \<Rightarrow> int \<times> outpos" where
  "pad_before e = (\<lambda>(width, q). (if width > 1 then (0, put_many e CHR '' '' (nat (width - 1)) q) else (width - 1, q)))"

definition pad_string :: "32 word \<Rightarrow> int \<Rightarrow> int \<times> outpos \<Rightarrow> int \<times> outpos" where
  "pad_string e len = (\<lambda>(width, q).
     (if len < width then (len - 1, put_many e CHR '' '' (nat (width - len)) q) else (width - 1, q)))"

section \<open>Numbers\<close>

abbreviation ZEROPAD :: "8 word" where "ZEROPAD \<equiv> 1"
abbreviation SIGN :: "8 word" where "SIGN \<equiv> 2"
abbreviation PLUS :: "8 word" where "PLUS \<equiv> 4"
abbreviation SPACE :: "8 word" where "SPACE \<equiv> 8"
abbreviation LEFT :: "8 word" where "LEFT \<equiv> 16"
abbreviation SPECIAL :: "8 word" where "SPECIAL \<equiv> 32"
abbreviation LARGE :: "8 word" where "LARGE \<equiv> 64"

definition flag :: "8 word \<Rightarrow> 8 word \<Rightarrow> bool" where "flag b x \<longleftrightarrow> x AND b \<noteq> 0"

definition small_digits :: string where "small_digits = ''0123456789abcdef''"
definition large_digits :: string where "large_digits = ''0123456789ABCDEF''"

definition divide :: "32 word \<Rightarrow> int \<Rightarrow> nat \<times> 32 word" where
  "divide n base = (if base = 10 then (unat (n mod 10), n div 10) else (unat (n mod 16), n div 16))"

text \<open>The digits in the order of \<^verbatim>\<open>tmp\<close>, the lowest first.\<close>

lemma divide_less: "n \<noteq> 0 \<Longrightarrow> unat (snd (divide n base)) < unat n"
  using unat_gt_0 [of n] by (simp add: divide_def unat_div)

function number_tmp :: "string \<Rightarrow> int \<Rightarrow> 32 word \<Rightarrow> string" where
  "number_tmp digits base num =
     (if num \<noteq> 0 then let (r, num) = divide num base in digits ! r # number_tmp digits base num else [])"
  by auto
termination
  by (relation "measure (\<lambda>(_, _, num). unat num)") (simp, metis divide_less in_measure snd_conv case_prod_conv)

declare number_tmp.simps [simp del]

lemma number_tmp_0 [simp]: "number_tmp ds base 0 = []"
  by (simp add: number_tmp.simps)

text \<open>The negation of the least number overflows. The counter \<open>size\<close> only falls once it is not positive, so it
  has left the range if and only if it is outside at the end.\<close>

definition print_number :: "32 word \<Rightarrow> 32 word \<Rightarrow> int \<Rightarrow> int \<Rightarrow> int \<Rightarrow> 8 word \<Rightarrow> outpos \<Rightarrow> outpos option" where
  "print_number e num base s precision type q = (
     if flag SIGN type \<and> sint num = INT_MIN then None else
     let digits = (if flag LARGE type then large_digits else small_digits);
         type = (if flag LEFT type then type AND NOT ZEROPAD else type);
         c = (if flag ZEROPAD type then CHR ''0'' else CHR '' '');
         (sign, num) =
           (if flag SIGN type then
              if num <s 0 then (Some CHR ''-'', - num)
              else if flag PLUS type then (Some CHR ''+'', num)
              else if flag SPACE type then (Some CHR '' '', num) else (None, num)
            else (None, num));
         tmp = (if num = 0 then ''0'' else number_tmp digits base num);
         i = int (length tmp);
         p = (if i > precision then i else precision);
         size = s - p;
         (size, q) =
           (if \<not> flag (ZEROPAD OR LEFT) type
            then pad_while e CHR '' '' (if sign \<noteq> None \<and> size > 0 then size - 1 else size, q) else (size, q));
         (size, q) = (case sign of None \<Rightarrow> (size, q) | Some ch \<Rightarrow> (size - 1, put e ch q));
         (size, q) = (if \<not> flag LEFT type then pad_while e c (size, q) else (size, q));
         q = put_many e CHR ''0'' (nat (p - i)) q;
         q = (if precision \<noteq> 0 then put_list e (rev tmp) q else q);
         (size, q) = pad_while e CHR '' '' (size, q)
     in if size < INT_MIN then None else Some q)"

section \<open>Format specifications\<close>

text \<open>The arguments of a call.\<close>

datatype va_arg = Num "32 word" | Str "string option"

definition ISDIGIT :: "char \<Rightarrow> bool" where
  "ISDIGIT c \<longleftrightarrow> 0 \<le> (of_char c :: int) - 48 \<and> (of_char c :: int) - 48 < 10"

text \<open>\<^verbatim>\<open>i * 10 + *((*s)++) - '0'\<close> adds the code of the digit before it subtracts 48.\<close>

fun skip_atoi_loop :: "int \<Rightarrow> string \<Rightarrow> (int \<times> string) option" where
  "skip_atoi_loop i [] = Some (i, [])"
| "skip_atoi_loop i (c # cs) =
     (if ISDIGIT c then
        (if i * 10 + of_char c > INT_MAX then None else skip_atoi_loop (i * 10 + of_char c - 48) cs)
      else Some (i, c # cs))"

definition skip_atoi :: "string \<Rightarrow> (int \<times> string) option" where
  "skip_atoi s = skip_atoi_loop 0 s"

fun fmt_flags :: "8 word \<Rightarrow> string \<Rightarrow> 8 word \<times> string" where
  "fmt_flags fl [] = (fl, [])"
| "fmt_flags fl (c # cs) =
     (if c = CHR ''-'' then fmt_flags (fl OR LEFT) cs
      else if c = CHR ''+'' then fmt_flags (fl OR PLUS) cs
      else if c = CHR '' '' then fmt_flags (fl OR SPACE) cs
      else if c = CHR ''#'' then fmt_flags (fl OR SPECIAL) cs
      else if c = CHR ''0'' then fmt_flags (fl OR ZEROPAD) cs
      else (fl, c # cs))"

definition next_int :: "va_arg list \<Rightarrow> (32 word \<times> va_arg list) option" where
  "next_int args = (case args of Num v # args \<Rightarrow> Some (v, args) | _ \<Rightarrow> None)"

definition fmt_width :: "8 word \<Rightarrow> string \<Rightarrow> va_arg list \<Rightarrow> (int \<times> 8 word \<times> string \<times> va_arg list) option" where
  "fmt_width fl fs args =
     (case fs of
        [] \<Rightarrow> Some (-1, fl, fs, args)
      | c # cs \<Rightarrow>
          if ISDIGIT c then do { (w, fs) \<leftarrow> skip_atoi fs; Some (w, fl, fs, args) }
          else if c = CHR ''*'' then do {
            (v, args) \<leftarrow> next_int args;
            if sint v < 0 then
              (if sint v = INT_MIN then None else Some (- sint v, fl OR LEFT, cs, args))
            else Some (sint v, fl, cs, args) }
          else Some (-1, fl, fs, args))"

definition fmt_precision :: "string \<Rightarrow> va_arg list \<Rightarrow> (int \<times> string \<times> va_arg list) option" where
  "fmt_precision fs args =
     (case fs of
        [] \<Rightarrow> Some (-1, fs, args)
      | c # cs \<Rightarrow>
          if c = CHR ''.'' then do {
            (p, fs, args) \<leftarrow>
              (case cs of
                 [] \<Rightarrow> Some (-1, cs, args)
               | d # ds \<Rightarrow>
                   if ISDIGIT d then do { (p, fs) \<leftarrow> skip_atoi cs; Some (p, fs, args) }
                   else if d = CHR ''*'' then do { (v, args) \<leftarrow> next_int args; Some (sint v, ds, args) }
                   else Some (-1, cs, args));
            Some (if p < 0 then 0 else p, fs, args) }
          else Some (-1, fs, args))"

definition fmt_qualifier :: "string \<Rightarrow> char option \<times> string" where
  "fmt_qualifier fs =
     (case fs of c # cs \<Rightarrow> if c = CHR ''h'' \<or> c = CHR ''l'' then (Some c, cs) else (None, fs) | [] \<Rightarrow> (None, fs))"

record fmt_spec =
  flags :: "8 word"
  field_width :: int
  precision :: int
  qualifier :: "char option"

definition fmt_parse :: "string \<Rightarrow> va_arg list \<Rightarrow> (fmt_spec \<times> string \<times> va_arg list) option" where
  "fmt_parse fs args = do {
     let (fl, fs) = fmt_flags 0 fs;
     (w, fl, fs, args) \<leftarrow> fmt_width fl fs args;
     (p, fs, args) \<leftarrow> fmt_precision fs args;
     let (ql, fs) = fmt_qualifier fs;
     Some (\<lparr>flags = fl, field_width = w, precision = p, qualifier = ql\<rparr>, fs, args) }"

section \<open>Conversions\<close>

fun str_len :: "int \<Rightarrow> int \<Rightarrow> string \<Rightarrow> int" where
  "str_len width len [] = len"
| "str_len width len (c # cs) = (if len \<noteq> width then str_len width (len + 1) cs else len)"

definition print_char :: "32 word \<Rightarrow> fmt_spec \<Rightarrow> 32 word \<Rightarrow> outpos \<Rightarrow> outpos" where
  "print_char e sp v q = (
     let (w, q) = (if \<not> flag LEFT (flags sp) then pad_before e (field_width sp, q) else (field_width sp, q));
         q = put e (char_of (unat (ucast v :: 8 word))) q
     in snd (pad_before e (w, q)))"

definition print_string :: "32 word \<Rightarrow> fmt_spec \<Rightarrow> string option \<Rightarrow> outpos \<Rightarrow> outpos option" where
  "print_string e sp s q = (
     let s = (case s of None \<Rightarrow> ''(NULL)'' | Some s \<Rightarrow> s);
         len = str_len (field_width sp) 0 s
     in if len > INT_MAX then None else
     let len = (if precision sp > 0 \<and> len > precision sp then precision sp else len);
         (w, q) = (if \<not> flag LEFT (flags sp) then pad_string e len (field_width sp, q) else (field_width sp, q));
         q = put_list e (take (nat len) s) q
     in Some (snd (pad_string e len (w, q))))"

text \<open>The value of an integer conversion.\<close>

definition number_arg :: "8 word \<Rightarrow> char option \<Rightarrow> 32 word \<Rightarrow> 32 word" where
  "number_arg fl ql v =
     (if ql = Some CHR ''h'' then
        let num = ucast (ucast v :: 16 word) in if flag SIGN fl then scast (ucast num :: 16 word) else num
      else v)"

definition fmt_convert ::
  "32 word \<Rightarrow> fmt_spec \<Rightarrow> char option \<Rightarrow> va_arg list \<Rightarrow> outpos \<Rightarrow> (va_arg list \<times> outpos) option" where
  "fmt_convert e sp conv args q = (
     let number = (\<lambda>base fl. do {
           (v, args) \<leftarrow> next_int args;
           q \<leftarrow> print_number e (number_arg fl (qualifier sp) v) base (field_width sp) (precision sp) fl q;
           Some (args, q) })
     in case conv of
       None \<Rightarrow> Some (args, put e CHR ''%'' q)
     | Some c \<Rightarrow>
         if c = CHR ''c'' then do { (v, args) \<leftarrow> next_int args; Some (args, print_char e sp v q) }
         else if c = CHR ''s'' then
           (case args of Str s # args \<Rightarrow> do { q \<leftarrow> print_string e sp s q; Some (args, q) } | _ \<Rightarrow> None)
         else if c = CHR ''p'' then do {
           (v, args) \<leftarrow> next_int args;
           let (w, fl) = (if field_width sp = -1 then (8, flags sp OR ZEROPAD) else (field_width sp, flags sp));
           q \<leftarrow> print_number e v 16 w (precision sp) fl q;
           Some (args, q) }
         else if c = CHR ''%'' then Some (args, put e CHR ''%'' q)
         else if c = CHR ''o'' then number 8 (flags sp)
         else if c = CHR ''X'' then number 16 (flags sp OR LARGE)
         else if c = CHR ''x'' then number 16 (flags sp)
         else if c = CHR ''d'' \<or> c = CHR ''i'' then number 10 (flags sp OR SIGN)
         else if c = CHR ''u'' then number 10 (flags sp)
         else Some (args, put e c (put e CHR ''%'' q)))"

definition first_char :: "string \<Rightarrow> char option" where
  "first_char fs = (case fs of [] \<Rightarrow> None | c # _ \<Rightarrow> Some c)"

section \<open>The main loop\<close>

lemma skip_atoi_loop_length: "skip_atoi_loop i s = Some (j, s') \<Longrightarrow> length s' \<le> length s"
  by (induction i s rule: skip_atoi_loop.induct) (auto split: if_splits)

lemma skip_atoi_length: "skip_atoi s = Some (i, s') \<Longrightarrow> length s' \<le> length s"
  unfolding skip_atoi_def by (rule skip_atoi_loop_length)

lemma fmt_flags_length: "fmt_flags fl fs = (fl', fs') \<Longrightarrow> length fs' \<le> length fs"
  by (induction fl fs rule: fmt_flags.induct) (auto split: if_splits)

lemma fmt_width_length: "fmt_width fl fs args = Some (w, fl', fs', args') \<Longrightarrow> length fs' \<le> length fs"
  by (auto simp: fmt_width_def next_int_def dest: skip_atoi_length
    split: list.splits if_splits prod.splits va_arg.splits bind_splits)

lemma fmt_precision_length: "fmt_precision fs args = Some (p, fs', args') \<Longrightarrow> length fs' \<le> length fs"
  by (auto simp: fmt_precision_def next_int_def dest!: skip_atoi_length
    split: list.splits if_splits prod.splits va_arg.splits bind_splits)

lemma fmt_qualifier_length: "fmt_qualifier fs = (ql, fs') \<Longrightarrow> length fs' \<le> length fs"
  by (auto simp: fmt_qualifier_def split: list.splits if_splits)

lemma fmt_parse_length: "fmt_parse fs args = Some (sp, fs', args') \<Longrightarrow> length fs' \<le> length fs"
  unfolding fmt_parse_def
  by (auto split: prod.splits bind_splits
    dest!: fmt_flags_length fmt_width_length fmt_precision_length fmt_qualifier_length)

function fmt_run :: "32 word \<Rightarrow> string \<Rightarrow> va_arg list \<Rightarrow> outpos \<Rightarrow> outpos option" where
  "fmt_run e [] args q = Some q"
| "fmt_run e (c # fs) args q =
     (if c \<noteq> CHR ''%'' then fmt_run e fs args (put e c q)
      else case fmt_parse fs args of
        None \<Rightarrow> None
      | Some (sp, fs1, args1) \<Rightarrow>
          (case fmt_convert e sp (first_char fs1) args1 q of
             None \<Rightarrow> None
           | Some (args2, q2) \<Rightarrow> fmt_run e (tl fs1) args2 q2))"
  by pat_completeness auto
termination
  by (relation "measure (\<lambda>(_, fs, _, _). length fs)") (auto dest!: fmt_parse_length)

text \<open>The result is a difference of pointers, which has no value beyond \<^verbatim>\<open>INT_MAX\<close>.\<close>

definition rt_vsnprintf ::
  "32 word \<Rightarrow> 32 word \<Rightarrow> string \<Rightarrow> va_arg list \<Rightarrow> memory \<Rightarrow> (32 word \<times> memory) option" where
  "rt_vsnprintf buf sz fmt args m = do {
     let e = buf + sz;
     let (e, sz) = (if e < buf then (0xFFFFFFFF, 0xFFFFFFFF - buf) else (e, sz));
     (str, m1) \<leftarrow> fmt_run e fmt args (buf, m);
     rt_assert (str - buf \<le> 0x7FFFFFFF);
     Some (str - buf, if sz > 0 then (if str < e then m1(str := 0) else m1(e - 1 := 0)) else m1) }"

definition rt_snprintf ::
  "32 word \<Rightarrow> 32 word \<Rightarrow> string \<Rightarrow> va_arg list \<Rightarrow> memory \<Rightarrow> (32 word \<times> memory) option" where
  "rt_snprintf buf sz fmt args m = rt_vsnprintf buf sz fmt args m"

definition rt_vsprintf :: "32 word \<Rightarrow> string \<Rightarrow> va_arg list \<Rightarrow> memory \<Rightarrow> (32 word \<times> memory) option" where
  "rt_vsprintf buf fmt args m = rt_vsnprintf buf (-1) fmt args m"

definition rt_sprintf :: "32 word \<Rightarrow> string \<Rightarrow> va_arg list \<Rightarrow> memory \<Rightarrow> (32 word \<times> memory) option" where
  "rt_sprintf buf fmt args m = rt_vsprintf buf fmt args m"

text \<open>What \<^verbatim>\<open>rt_kprintf\<close> writes to the console device, from its buffer at \<open>log_buf\<close>.\<close>

abbreviation RT_CONSOLEBUF_SIZE :: "32 word" where "RT_CONSOLEBUF_SIZE \<equiv> 256"

definition rt_kprintf :: "32 word \<Rightarrow> string \<Rightarrow> va_arg list \<Rightarrow> memory \<Rightarrow> (32 word \<times> 8 word list \<times> memory) option" where
  "rt_kprintf log_buf fmt args m = do {
     (len, m1) \<leftarrow> rt_vsnprintf log_buf (RT_CONSOLEBUF_SIZE - 1) fmt args m;
     let len = (if len > RT_CONSOLEBUF_SIZE - 1 then RT_CONSOLEBUF_SIZE - 1 else len);
     Some (len, read_block m1 log_buf (unat len), m1) }"

end
