(* ===== verification/Kprintf_Props.thy ===== *)
theory Kprintf_Props
  imports Kprintf
begin

text \<open>
  The text that a format and its arguments stand for, as a function without buffer and pointers, and the
  proof that the formatted output writes this text, cut to the size of the buffer, and nothing else. A
  format has no text where the arithmetic of the code on widths, precisions and numbers leaves the range of \<^verbatim>\<open>int\<close>.
\<close>

section \<open>The text of a conversion\<close>

abbreviation spaces :: "int \<Rightarrow> string" where "spaces n \<equiv> replicate (nat n) CHR '' ''"
abbreviation zeros :: "int \<Rightarrow> string" where "zeros n \<equiv> replicate (nat n) CHR ''0''"

definition justify :: "bool \<Rightarrow> int \<Rightarrow> string \<Rightarrow> string" where
  "justify left w t = (let p = spaces (w - int (length t)) in if left then t @ p else p @ t)"

text \<open>Sign and magnitude.\<close>

definition number_sign :: "8 word \<Rightarrow> 32 word \<Rightarrow> string" where
  "number_sign fl num =
     (if \<not> flag SIGN fl then '''' else if num <s 0 then ''-''
      else if flag PLUS fl then ''+'' else if flag SPACE fl then '' '' else '''')"

definition magnitude :: "8 word \<Rightarrow> 32 word \<Rightarrow> 32 word" where
  "magnitude fl num = (if flag SIGN fl \<and> num <s 0 then - num else num)"

definition numeral_text :: "8 word \<Rightarrow> int \<Rightarrow> 32 word \<Rightarrow> string" where
  "numeral_text fl base n =
     (if n = 0 then ''0'' else rev (number_tmp (if flag LARGE fl then large_digits else small_digits) base n))"

definition number_text :: "32 word \<Rightarrow> int \<Rightarrow> int \<Rightarrow> int \<Rightarrow> 8 word \<Rightarrow> string" where
  "number_text num base w prec fl = (
     let ds = numeral_text fl base (magnitude fl num);
         sign = number_sign fl num;
         n = int (length ds);
         pad = w - max n prec - int (length sign);
         body = zeros (prec - n) @ (if prec = 0 then '''' else ds)
     in if flag LEFT fl then sign @ body @ spaces pad
        else if flag ZEROPAD fl then sign @ zeros pad @ body
        else spaces pad @ sign @ body)"

text \<open>When a number has a text: it can be negated, and the padding stays in range. The precision is at most the
  largest number \<^verbatim>\<open>skip_atoi\<close> can read; only an argument for \<^verbatim>\<open>*\<close> can be larger.\<close>

definition number_ok :: "32 word \<Rightarrow> int \<Rightarrow> int \<Rightarrow> 8 word \<Rightarrow> bool" where
  "number_ok num w prec fl \<longleftrightarrow> \<not> (flag SIGN fl \<and> sint num = INT_MIN) \<and> -1 \<le> w \<and> prec \<le> INT_MAX - 48"

section \<open>Output of a text\<close>

lemma put_list_append [simp]: "put_list e (s @ t) q = put_list e t (put_list e s q)"
  by (induction s arbitrary: q) auto

lemma put_many_list [simp]: "put_many e c n q = put_list e (replicate n c) q"
  by (induction n arbitrary: q) auto

lemma put_put_list: "put e c q = put_list e [c] q"
  by simp

lemma pad_while_list:
  "pad_while e c (n, q) = (if n > 0 then (-1, put_list e (replicate (nat n) c) q) else (n - 1, q))"
  by (simp add: pad_while_def)

lemma flag_exp: "flag (2 ^ k) x \<longleftrightarrow> bit x k"
  by (simp add: flag_def and_exp_eq_0_iff_not_bit)

lemma flag_bits:
  "flag 1 x \<longleftrightarrow> bit x 0" "flag 2 x \<longleftrightarrow> bit x 1" "flag 4 x \<longleftrightarrow> bit x 2" "flag 8 x \<longleftrightarrow> bit x 3"
  "flag 16 x \<longleftrightarrow> bit x 4" "flag 32 x \<longleftrightarrow> bit x 5" "flag 64 x \<longleftrightarrow> bit x 6"
  using flag_exp [of 0 x] flag_exp [of 1 x] flag_exp [of 2 x] flag_exp [of 3 x] flag_exp [of 4 x] flag_exp [of 5 x]
    flag_exp [of 6 x] by simp_all

lemma flag_or: "flag (a OR b) x \<longleftrightarrow> flag a x \<or> flag b x"
  by (auto simp: flag_def bit_eq_iff bit_simps)

lemma number_tmp_length16: "unat n < 10 ^ k \<Longrightarrow> length (number_tmp ds base n) \<le> k"
proof (induction k arbitrary: n)
  case 0
  then show ?case by (simp add: unat_eq_zero)
next
  case (Suc k)
  have "unat (snd (divide n base)) \<le> unat n div 10"
    by (simp add: divide_def unat_div div_le_mono2)
  then have "unat (snd (divide n base)) < 10 ^ k" using Suc.prems by simp
  then show ?case using Suc.IH [of "snd (divide n base)"]
    by (cases "n = 0") (simp_all add: number_tmp.simps [of ds base n] case_prod_beta)
qed

lemma numeral_length: "length (numeral_text fl base n) \<le> 10"
proof -
  have "unat n < 10 ^ 10" using unsigned_less [of n, where 'a = nat] by simp
  then show ?thesis using number_tmp_length16 [of n 10] by (simp add: numeral_text_def)
qed

lemma print_number_text:
  assumes "number_ok num w prec fl"
  shows "print_number e num base w prec fl q = Some (put_list e (number_text num base w prec fl) q)"
proof -
  define ty where "ty = (if flag LEFT fl then fl AND NOT ZEROPAD else fl)"
  have ty: "flag LEFT ty = flag LEFT fl" "flag ZEROPAD ty \<longleftrightarrow> flag ZEROPAD fl \<and> \<not> flag LEFT fl"
    "flag SIGN ty = flag SIGN fl" "flag PLUS ty = flag PLUS fl" "flag SPACE ty = flag SPACE fl"
    by (auto simp: ty_def flag_bits bit_simps)
  have zl: "flag 17 ty \<longleftrightarrow> flag ZEROPAD ty \<or> flag LEFT ty"
    using flag_or [of ZEROPAD LEFT ty] by simp
  have ok: "\<not> (flag SIGN fl \<and> sint num = INT_MIN)" and range: "-1 \<le> w" "prec \<le> INT_MAX - 48"
    using assms by (auto simp: number_ok_def)
  have sgn: "(if flag SIGN fl then if num <s 0 then (Some CHR ''-'', - num) else if flag PLUS fl then (Some CHR ''+'', num)
        else if flag SPACE fl then (Some CHR '' '', num) else (None, num) else (None, num))
      = (case number_sign fl num of [] \<Rightarrow> None | c # _ \<Rightarrow> Some c, magnitude fl num)"
    by (auto simp: number_sign_def magnitude_def)
  have sl: "number_sign fl num = [] \<or> (\<exists>c. number_sign fl num = [c])"
    by (auto simp: number_sign_def)
  define ds where "ds = numeral_text fl base (magnitude fl num)"
  have tmp: "(if magnitude fl num = 0 then ''0''
      else number_tmp (if flag LARGE fl then large_digits else small_digits) base (magnitude fl num)) = rev ds"
    by (simp add: ds_def numeral_text_def)
  have mx: "(if int (length ds) > prec then int (length ds) else prec) = max (int (length ds)) prec"
    by auto
  have mz: "nat (max (int (length ds)) prec - int (length ds)) = nat (prec - int (length ds))"
    by auto
  have len: "max (int (length ds)) prec \<le> INT_MAX - 48"
    using numeral_length [of fl base "magnitude fl num"] range(2) by (simp add: ds_def)
  show ?thesis
    unfolding print_number_def Let_def ty_def [symmetric] ty(3-5) sgn prod.case tmp length_rev mx mz
      number_text_def ds_def [symmetric] if_not_P [OF ok]
    using sl len range(1) by (auto simp: ty(1,2) zl pad_while_list simp del: max_less_iff_conj)
qed

section \<open>The text of a format\<close>

definition string_text :: "fmt_spec \<Rightarrow> string \<Rightarrow> string" where
  "string_text sp s = (
     let w = field_width sp; p = precision sp;
         t = (if w < 0 then s else take (nat w) s);
         t = (if p > 0 then take (nat p) t else t)
     in justify (flag LEFT (flags sp)) w t)"

definition convert_text :: "fmt_spec \<Rightarrow> char option \<Rightarrow> va_arg list \<Rightarrow> (string \<times> va_arg list) option" where
  "convert_text sp conv args = (
     let number = (\<lambda>base fl. do {
           (v, args) \<leftarrow> next_int args;
           rt_assert (number_ok (number_arg fl (qualifier sp) v) (field_width sp) (precision sp) fl);
           Some (number_text (number_arg fl (qualifier sp) v) base (field_width sp) (precision sp) fl, args) })
     in case conv of
       None \<Rightarrow> Some (''%'', args)
     | Some c \<Rightarrow>
         if c = CHR ''c'' then do {
           (v, args) \<leftarrow> next_int args;
           Some (justify (flag LEFT (flags sp)) (field_width sp) [char_of (unat (ucast v :: 8 word))], args) }
         else if c = CHR ''s'' then
           (case args of
              Str s # args \<Rightarrow> do {
                let s = (case s of None \<Rightarrow> ''(NULL)'' | Some s \<Rightarrow> s);
                rt_assert (int (length s) \<le> INT_MAX);
                Some (string_text sp s, args) }
            | _ \<Rightarrow> None)
         else if c = CHR ''p'' then do {
           (v, args) \<leftarrow> next_int args;
           let (w, fl) = (if field_width sp = -1 then (8, flags sp OR ZEROPAD) else (field_width sp, flags sp));
           rt_assert (number_ok v w (precision sp) fl);
           Some (number_text v 16 w (precision sp) fl, args) }
         else if c = CHR ''%'' then Some (''%'', args)
         else if c = CHR ''o'' then number 8 (flags sp)
         else if c = CHR ''X'' then number 16 (flags sp OR LARGE)
         else if c = CHR ''x'' then number 16 (flags sp)
         else if c = CHR ''d'' \<or> c = CHR ''i'' then number 10 (flags sp OR SIGN)
         else if c = CHR ''u'' then number 10 (flags sp)
         else Some (''%'' @ [c], args))"

function text_run :: "string \<Rightarrow> va_arg list \<Rightarrow> string option" where
  "text_run [] args = Some []"
| "text_run (c # fs) args =
     (if c \<noteq> CHR ''%'' then map_option ((#) c) (text_run fs args)
      else case fmt_parse fs args of
        None \<Rightarrow> None
      | Some (sp, fs1, args1) \<Rightarrow>
          (case convert_text sp (first_char fs1) args1 of
             None \<Rightarrow> None
           | Some (t, args2) \<Rightarrow> map_option ((@) t) (text_run (tl fs1) args2)))"
  by pat_completeness auto
termination
  by (relation "measure (\<lambda>(fs, _). length fs)") (auto dest!: fmt_parse_length)

lemma pad_before_list:
  "pad_before e (w, q) = (if w > 1 then (0, put_list e (replicate (nat (w - 1)) CHR '' '') q) else (w - 1, q))"
  by (simp add: pad_before_def)

lemma pad_string_list:
  "pad_string e len (w, q) = (if len < w then (len - 1, put_list e (replicate (nat (w - len)) CHR '' '') q) else (w - 1, q))"
  by (simp add: pad_string_def)

lemma print_char_text:
  "print_char e sp v q = put_list e (justify (flag LEFT (flags sp)) (field_width sp) [char_of (unat (ucast v :: 8 word))]) q"
  by (auto simp: print_char_def justify_def pad_before_list Let_def)

lemma str_len_take: "0 \<le> l \<Longrightarrow> str_len w l s = (if w < l then l + int (length s) else l + int (min (length s) (nat (w - l))))"
  by (induction w l s rule: str_len.induct) (auto simp: min_def)

lemma print_string_text:
  assumes "int (length (case s of None \<Rightarrow> ''(NULL)'' | Some s \<Rightarrow> s)) \<le> INT_MAX"
  shows "print_string e sp s q = Some (put_list e (string_text sp (case s of None \<Rightarrow> ''(NULL)'' | Some s \<Rightarrow> s)) q)"
proof -
  define t where "t = (case s of None \<Rightarrow> ''(NULL)'' | Some s \<Rightarrow> s)"
  have fit: "\<not> str_len (field_width sp) 0 t > INT_MAX"
    using assms by (auto simp: t_def [symmetric] str_len_take min_def)
  define len where "len = (if precision sp > 0 \<and> str_len (field_width sp) 0 t > precision sp then precision sp
    else str_len (field_width sp) 0 t)"
  define u where "u = (let u = (if field_width sp < 0 then t else take (nat (field_width sp)) t)
    in if precision sp > 0 then take (nat (precision sp)) u else u)"
  have u: "take (nat len) t = u" "int (length u) = len"
    by (auto simp: u_def len_def str_len_take Let_def min_def)
      (metis nat_le_eq_zle linorder_not_less order_antisym)
  show ?thesis
    unfolding print_string_def Let_def t_def [symmetric] if_not_P [OF fit] len_def [symmetric] u(1)
    by (auto simp: string_text_def t_def [symmetric] justify_def pad_string_list u(2) Let_def u_def [unfolded Let_def, symmetric])
qed

text \<open>The output of a conversion is its text.\<close>

definition renders ::
  "32 word \<Rightarrow> outpos \<Rightarrow> (string \<times> va_arg list) option \<Rightarrow> (va_arg list \<times> outpos) option \<Rightarrow> bool" where
  "renders e q a b \<longleftrightarrow> (\<forall>t args. a = Some (t, args) \<longrightarrow> b = Some (args, put_list e t q))"

lemma renders_if:
  "(P \<Longrightarrow> renders e q a b) \<Longrightarrow> (\<not> P \<Longrightarrow> renders e q a' b') \<Longrightarrow>
   renders e q (if P then a else a') (if P then b else b')"
  by simp

lemma renders_char: "renders e q (Some ([c], args)) (Some (args, put e c q))"
  by (simp add: renders_def)

lemma renders_two: "renders e q (Some (''%'' @ [c], args)) (Some (args, put e c (put e CHR ''%'' q)))"
  by (simp add: renders_def)

lemma renders_number:
  "renders e q
     (do { (v, args) \<leftarrow> next_int args; rt_assert (number_ok (f v) w p fl); Some (number_text (f v) base w p fl, args) })
     (do { (v, args) \<leftarrow> next_int args; q \<leftarrow> print_number e (f v) base w p fl q; Some (args, q) })"
  by (auto simp: renders_def bind_eq_Some_conv rt_assert_def print_number_text split: if_splits)
    (metis surj_pair)

lemma renders_pointer:
  "renders e q
     (do { (v, args) \<leftarrow> next_int args; let (w, fl) = x;
           rt_assert (number_ok v w p fl); Some (number_text v base w p fl, args) })
     (do { (v, args) \<leftarrow> next_int args; let (w, fl) = x; q \<leftarrow> print_number e v base w p fl q; Some (args, q) })"
  by (cases x, auto simp: renders_def bind_eq_Some_conv rt_assert_def print_number_text split: if_splits)
    (metis surj_pair)

lemma renders_print_char:
  "renders e q
     (do { (v, args) \<leftarrow> next_int args;
           Some (justify (flag LEFT (flags sp)) (field_width sp) [char_of (unat (ucast v :: 8 word))], args) })
     (do { (v, args) \<leftarrow> next_int args; Some (args, print_char e sp v q) })"
  by (auto simp: renders_def bind_eq_Some_conv print_char_text)

lemma renders_string:
  "renders e q
     (case args of
        Str s # args \<Rightarrow> do {
          let s = (case s of None \<Rightarrow> ''(NULL)'' | Some s \<Rightarrow> s);
          rt_assert (int (length s) \<le> INT_MAX);
          Some (string_text sp s, args) }
      | _ \<Rightarrow> None)
     (case args of Str s # args \<Rightarrow> do { q \<leftarrow> print_string e sp s q; Some (args, q) } | _ \<Rightarrow> None)"
  by (auto simp: renders_def Let_def bind_eq_Some_conv rt_assert_def print_string_text
      split: list.splits va_arg.splits if_splits)
    (metis surj_pair)

lemma fmt_convert_renders: "renders e q (convert_text sp conv args) (fmt_convert e sp conv args q)"
proof (cases conv)
  case None
  then show ?thesis by (simp add: fmt_convert_def convert_text_def renders_char)
next
  case (Some c)
  show ?thesis
    unfolding fmt_convert_def convert_text_def Some Let_def [of "\<lambda>base fl. _ base fl"] option.case
    by (intro renders_if renders_char renders_two renders_number renders_pointer renders_print_char renders_string)
qed

lemma fmt_convert_text:
  "convert_text sp conv args = Some (t, args') \<Longrightarrow> fmt_convert e sp conv args q = Some (args', put_list e t q)"
  using fmt_convert_renders by (simp add: renders_def)

lemma fmt_run_text: "text_run fs args = Some t \<Longrightarrow> fmt_run e fs args q = Some (put_list e t q)"
proof (induction fs args arbitrary: q t rule: text_run.induct)
  case (2 c fs args)
  show ?case
  proof (cases "c = CHR ''%''")
    case False
    then obtain z where z: "text_run fs args = Some z" "t = c # z" using 2(3) by auto
    then show ?thesis using 2(1) [OF False z(1)] False by simp
  next
    case True
    then obtain sp fs1 args1 u args2 t2 where p: "fmt_parse fs args = Some (sp, fs1, args1)"
      "convert_text sp (first_char fs1) args1 = Some (u, args2)" "text_run (tl fs1) args2 = Some t2" "t = u @ t2"
      using 2(3) by (auto split: option.splits)
    show ?thesis using 2(2) [OF _ p(1) refl refl p(2) refl p(3)] True p(1,4) fmt_convert_text [OF p(2)] by simp
  qed
qed simp

section \<open>The buffer\<close>

lemma put_list_full:
  assumes "\<not> a < e" "unat a + length t < 2 ^ 32"
  shows "put_list e t (a, m) = (a + of_nat (length t), m)"
  using assms
proof (induction t arbitrary: a)
  case (Cons c t)
  then have u: "unat (a + 1) = unat a + 1" by (subst unat_add_lem [THEN iffD1]) auto
  then have "\<not> a + 1 < e" using Cons.prems by (auto simp: word_less_nat_alt)
  then show ?case using Cons u by (simp add: put_def)
qed simp

text \<open>The bytes of a text from \<open>a\<close> to the end \<open>e\<close> of the buffer.\<close>

definition written :: "32 word \<Rightarrow> 32 word \<Rightarrow> string \<Rightarrow> memory \<Rightarrow> memory" where
  "written e a t m = (\<lambda>x. if in_span a (min (length t) (unat (e - a))) x then of_char (t ! unat (x - a)) else m x)"

lemma put_list_written:
  assumes "a \<le> e" "unat a + length t < 2 ^ 32"
  shows "put_list e t (a, m) = (a + of_nat (length t), written e a t m)"
  using assms
proof (induction t arbitrary: a m)
  case Nil
  then show ?case by (simp add: written_def in_span_def)
next
  case (Cons c t)
  show ?case
  proof (cases "a < e")
    case False
    then have "e = a" using Cons.prems by simp
    then show ?thesis
      using put_list_full [OF False Cons.prems(2)] by (simp add: written_def in_span_def)
  next
    case True
    have u: "unat (a + 1) = unat a + 1" using Cons.prems by (subst unat_add_lem [THEN iffD1]) auto
    have le: "a + 1 \<le> e" using True u by (simp add: word_less_nat_alt word_le_nat_alt)
    have k: "unat (e - a) = Suc (unat (e - (a + 1)))"
      using u le True by (simp add: unat_sub word_le_nat_alt)
    define n where "n = min (length t) (unat (e - (a + 1)))"
    have j: "in_span a (Suc n) x \<longleftrightarrow> x = a \<or> in_span (a + 1) n x" for x
    proof -
      have "1 + n \<le> 2 ^ 32" using Cons.prems(2) by (simp add: n_def)
      then show ?thesis using in_span_join [of 1 n a x] by (simp add: in_span_1 [simplified])
    qed
    have idx: "unat (x - a) = Suc (unat (x - (a + 1)))" if "x \<noteq> a" for x
    proof -
      have "x - a \<noteq> 0" using that by simp
      then have "unat (x - a - 1) = unat (x - a) - 1" "0 < unat (x - a)"
        by (auto simp: unat_minus_one unat_gt_0)
      then show ?thesis by (simp add: diff_diff_add)
    qed
    have out: "\<not> in_span (a + 1) n a"
    proof -
      have "unat (a - (a + 1)) = 2 ^ 32 - 1" by (simp add: unsigned_minus_1_eq_mask mask_eq_exp_minus_1)
      moreover have "n \<le> 2 ^ 32 - 1" using Cons.prems(2) by (simp add: n_def)
      ultimately show ?thesis unfolding in_span_def by linarith
    qed
    have "written e (a + 1) t (m(a := of_char c)) x = written e a (c # t) m x" for x
    proof (cases "x = a")
      case True
      then show ?thesis using out j [of a] by (simp add: written_def n_def [symmetric] k)
    next
      case False
      then show ?thesis using j [of x] idx [OF False] by (simp add: written_def n_def [symmetric] k)
    qed
    then have "written e (a + 1) t (m(a := of_char c)) = written e a (c # t) m" by blast
    then show ?thesis
      using True Cons.IH [OF le] Cons.prems(2) u by (simp add: put_def)
  qed
qed

lemma vsnprintf_writes:
  assumes t: "text_run fmt args = Some t" and buf: "unat buf + unat sz < 2 ^ 32" "unat buf + length t < 2 ^ 32"
    and fit: "length t < 2 ^ 31"
  defines "k \<equiv> min (length t) (unat sz - 1)"
  shows "\<exists>m'. rt_vsnprintf buf sz fmt args m = Some (of_nat (length t), m') \<and>
     (sz \<noteq> 0 \<longrightarrow> read_block m' buf (k + 1) = map of_char (take k t) @ [0]) \<and>
     (\<forall>x. \<not> in_span buf (min (length t + 1) (unat sz)) x \<longrightarrow> m' x = m x)"
proof -
  let ?e = "buf + sz" and ?L = "length t"
  have e: "unat ?e = unat buf + unat sz" using buf(1) by (subst unat_add_lem [THEN iffD1]) auto
  then have ge: "buf \<le> ?e" "\<not> ?e < buf" by (auto simp: word_le_nat_alt word_less_nat_alt)
  have L: "unat (of_nat ?L :: 32 word) = ?L" using buf(2) by (intro unat_of_nat32) simp
  have str: "unat (buf + of_nat ?L) = unat buf + ?L"
    using buf(2) L by (subst unat_add_lem [THEN iffD1]) auto
  let ?w = "written ?e buf t m"
  define m' where "m' = (if sz > 0 then ?w(buf + of_nat k := 0) else ?w)"
  have run: "fmt_run ?e fmt args (buf, m) = Some (buf + of_nat ?L, ?w)"
    using put_list_written [OF ge(1) buf(2)] t by (simp add: fmt_run_text)
  have last: "(if buf + of_nat ?L < ?e then buf + of_nat ?L else ?e - 1) = buf + of_nat k" if "sz > 0"
  proof (cases "?L < unat sz")
    case True
    then show ?thesis using e str by (simp add: word_less_nat_alt k_def)
  next
    case False
    have "of_nat (unat sz - 1) = sz - 1"
    proof -
      have "unat (sz - 1) = unat sz - 1" using that by (intro unat_minus_one) (simp add: word_neq_0_conv)
      then show ?thesis by (metis of_nat_unat word_unat_eq_iff ucast_id unsigned_of_nat take_bit_nat_eq_self)
    qed
    moreover have "k = unat sz - 1" using False by (simp add: k_def)
    ultimately show ?thesis using False e str by (simp add: word_less_nat_alt)
  qed
  have "rt_vsnprintf buf sz fmt args m = Some (of_nat ?L, m')"
    using run last ge(2) fit L by (auto simp: rt_vsnprintf_def Let_def m'_def word_le_nat_alt)
  moreover have "read_block m' buf (k + 1) = map of_char (take k t) @ [0]" if "sz \<noteq> 0"
  proof -
    have s: "0 < unat sz" using that by (simp add: unat_gt_0)
    have lt: "i < 2 ^ 32" "unat (of_nat i :: 32 word) = i" if "i \<le> k" for i
      using that buf(2) by (auto simp: k_def intro!: unat_of_nat32)
    have neq: "buf + of_nat i \<noteq> buf + of_nat k" if "i < k" for i
      using that lt(2) [of i] lt(2) [of k] by auto
    show ?thesis
    proof (rule nth_equalityI)
      fix i
      assume "i < length (read_block m' buf (k + 1))"
      then have i: "i \<le> k" by simp
      show "read_block m' buf (k + 1) ! i = (map of_char (take k t) @ [0]) ! i"
      proof (cases "i = k")
        case False
        then have ik: "i < k" using i by simp
        then have il: "i < ?L" "i < unat sz" by (auto simp: k_def)
        then have "in_span buf (min ?L (unat (?e - buf))) (buf + of_nat i)"
          using lt(2) [OF i] by (simp add: in_span_def)
        then have "m' (buf + of_nat i) = of_char (t ! i)"
          using neq [OF ik] lt(2) [OF i] that by (simp add: m'_def written_def)
        then show ?thesis using ik il by (simp add: nth_append min_def k_def)
      qed (use that i in \<open>simp add: m'_def nth_append word_neq_0_conv k_def\<close>)
    qed (simp add: k_def)
  qed
  moreover have "m' x = m x" if x: "\<not> in_span buf (min (?L + 1) (unat sz)) x" for x
  proof -
    have "in_span buf (min (?L + 1) (unat sz)) (buf + of_nat k)" if "sz > 0"
    proof -
      have "0 < unat sz" using that by (simp add: unat_gt_0 word_neq_0_conv)
      then show ?thesis
        using buf(2) unat_of_nat32 [of k] by (auto simp: in_span_def k_def)
    qed
    then have "x \<noteq> buf + of_nat k" if "sz > 0" using that x by blast
    moreover have "\<not> in_span buf (min ?L (unat sz)) x" using x by (auto simp: in_span_def)
    ultimately show ?thesis by (auto simp: m'_def written_def)
  qed
  ultimately show ?thesis by blast
qed

section \<open>Decimal numbers\<close>

lemma decimal_digit:
  assumes "r < 10"
  shows "ISDIGIT ((if l then large_digits else small_digits) ! r)"
    "of_char ((if l then large_digits else small_digits) ! r) = (48 + int r :: int)"
proof -
  have "r \<in> {0, 1, 2, 3, 4, 5, 6, 7, 8, 9}" using assms by auto
  then show "ISDIGIT ((if l then large_digits else small_digits) ! r)"
    "of_char ((if l then large_digits else small_digits) ! r) = (48 + int r :: int)"
    by (auto simp: small_digits_def large_digits_def ISDIGIT_def)
qed

lemma number_tmp_decimal:
  "n \<noteq> 0 \<Longrightarrow> number_tmp ds 10 n = ds ! unat (n mod 10) # number_tmp ds 10 (n div 10)"
  by (simp add: number_tmp.simps [of ds 10 n] divide_def)

text \<open>The largest number that \<^verbatim>\<open>skip_atoi\<close> reads without an overflow is \<^verbatim>\<open>INT_MAX - '0'\<close>.\<close>

lemma skip_atoi_decimal:
  defines "ds l \<equiv> if l then large_digits else small_digits"
  shows "skip_atoi_loop 0 (rev (number_tmp (ds l) 10 n) @ s) =
    (if uint n \<le> INT_MAX - 48 then skip_atoi_loop (uint n) s else None)"
proof (induction "unat n" arbitrary: n s rule: less_induct)
  case less
  show ?case
  proof (cases "n = 0")
    case False
    let ?a = "n div 10" and ?r = "n mod 10"
    have r: "unat ?r < 10" by (simp add: unat_mod)
    have n: "uint n = uint ?a * 10 + int (unat ?r)"
      by (simp add: uint_div uint_mod)
    have le: "uint ?a \<le> uint n" using n uint_ge_0 [of ?a] by linarith
    have "unat ?a < unat n" using False unat_gt_0 [of n] by (simp add: unat_div)
    then have "skip_atoi_loop 0 (rev (number_tmp (ds l) 10 n) @ s)
        = (if uint ?a \<le> INT_MAX - 48 then skip_atoi_loop (uint ?a) (ds l ! unat ?r # s) else None)"
      using less False by (simp add: number_tmp_decimal)
    also have "\<dots> = (if uint n \<le> INT_MAX - 48 then skip_atoi_loop (uint n) s else None)"
    proof (cases "uint ?a \<le> INT_MAX - 48")
      case True
      then show ?thesis using decimal_digit [OF r, of l] n by (simp add: ds_def)
    next
      case no: False
      then have "\<not> uint n \<le> INT_MAX - 48" using le by linarith
      then show ?thesis using no by (simp only: if_False)
    qed
    finally show ?thesis .
  qed simp
qed

lemma numeral_decimal:
  "skip_atoi (numeral_text fl 10 n) = (if uint n \<le> INT_MAX - 48 then Some (uint n, []) else None)" "numeral_text fl 10 n \<noteq> []"
proof -
  show "numeral_text fl 10 n \<noteq> []"
    by (cases "n = 0") (simp_all add: numeral_text_def number_tmp_decimal)
  show "skip_atoi (numeral_text fl 10 n) = (if uint n \<le> INT_MAX - 48 then Some (uint n, []) else None)"
  proof (cases "n = 0")
    case True
    then show ?thesis by (simp add: skip_atoi_def numeral_text_def ISDIGIT_def)
  next
    case False
    then show ?thesis
      using skip_atoi_decimal [of "flag LARGE fl" n "[]"] by (simp add: skip_atoi_def numeral_text_def)
  qed
qed

lemma abs_magnitude: "uint (magnitude SIGN v) = \<bar>sint v\<bar>"
proof -
  have b: "- (2 ^ 31) \<le> sint v" "sint v < 2 ^ 31"
    using sint_ge [of v] sint_lt [of v] by simp_all
  have u: "int (unat (word_of_int k :: 32 word)) = k mod 2 ^ 32" for k
    by (simp add: unsigned_of_int take_bit_eq_mod)
  have "v = word_of_int (sint v)" "- v = word_of_int (- sint v)" by simp_all
  then have "int (unat v) = sint v mod 2 ^ 32" "int (unat (- v)) = (- sint v) mod 2 ^ 32"
    using u by metis+
  moreover have "sint v < 0 \<Longrightarrow> (- sint v) mod 2 ^ 32 = - sint v" "0 \<le> sint v \<Longrightarrow> sint v mod 2 ^ 32 = sint v"
    using b by (simp_all add: mod_pos_pos_trivial)
  ultimately show ?thesis
    by (auto simp: magnitude_def flag_def word_sless_alt )
qed

section \<open>Properties\<close>

text \<open>C18: The formatted output is the text of the format, cut to the buffer. The buffer gets as much of the
  text as fits, with a terminating NUL; no byte outside the buffer, and none behind the NUL, is written; the
  result is the length of the whole text, also when the buffer holds less of it. The text, \<open>text_run\<close>, is
  defined without pointers and buffers: sign, padding to the field width on the side that the flags ask for,
  precision. It exists where no \<^verbatim>\<open>int\<close> of the code overflows: \<open>fmt_parse\<close> reads widths and precisions up to
  \<^verbatim>\<open>INT_MAX - '0'\<close>, and the least number is not printed with a sign. The text is shorter than \<open>2 ^ 31\<close>, and
  neither it nor the buffer reaches the end of the address space. (The documentation of \<^verbatim>\<open>rt_snprintf\<close> says
  that it returns the number of characters actually written; the code returns the length of the text.)\<close>

theorem rt_snprintf_writes_text:
  assumes "text_run fmt args = Some t" "unat buf + unat sz < 2 ^ 32" "unat buf + length t < 2 ^ 32"
    and "length t < 2 ^ 31"
  shows "\<exists>m'. rt_snprintf buf sz fmt args m = Some (of_nat (length t), m') \<and>
     (sz \<noteq> 0 \<longrightarrow> read_block m' buf (min (length t) (unat sz - 1) + 1) = map of_char (take (unat sz - 1) t) @ [0]) \<and>
     (\<forall>x. \<not> in_span buf (min (length t + 1) (unat sz)) x \<longrightarrow> m' x = m x)"
proof -
  have "take (min (length t) (unat sz - 1)) t = take (unat sz - 1) t" by (simp add: min_def)
  then show ?thesis
    using vsnprintf_writes [OF assms, of m] unfolding rt_snprintf_def by auto
qed

lemma fmt_parse_letter:
  assumes "c \<noteq> CHR ''-''" "c \<noteq> CHR ''+''" "c \<noteq> CHR '' ''" "c \<noteq> CHR ''#''" "\<not> ISDIGIT c" "c \<noteq> CHR ''*''"
    "c \<noteq> CHR ''.''" "c \<noteq> CHR ''h''" "c \<noteq> CHR ''l''"
  shows "fmt_parse [c] args = Some (\<lparr>flags = 0, field_width = -1, precision = -1, qualifier = None\<rparr>, [c], args)"
proof -
  have "c \<noteq> CHR ''0''" using assms(5) by (auto simp: ISDIGIT_def)
  then show ?thesis
    using assms by (simp add: fmt_parse_def fmt_width_def fmt_precision_def fmt_qualifier_def)
qed

lemma fmt_parse_d:
  "fmt_parse ''d'' args = Some (\<lparr>flags = 0, field_width = -1, precision = -1, qualifier = None\<rparr>, ''d'', args)"
  by (rule fmt_parse_letter) (simp_all add: ISDIGIT_def)

lemma text_run_one:
  assumes "fmt_parse [c] args = Some (sp, [c], args)"
  shows "text_run [CHR ''%'', c] args = map_option fst (convert_text sp (Some c) args)"
  using assms by (simp add: first_char_def split: option.splits prod.splits)

lemma text_d:
  assumes "sint v \<noteq> INT_MIN"
  shows "text_run ''%d'' [Num v] = Some ((if v <s 0 then ''-'' else '''') @ numeral_text SIGN 10 (magnitude SIGN v))"
proof -
  have "numeral_text SIGN 10 n \<noteq> []" for n by (rule numeral_decimal(2))
  then show ?thesis
    unfolding text_run_one [OF fmt_parse_d] using assms
    by (simp add: convert_text_def next_int_def number_arg_def number_text_def number_sign_def number_ok_def flag_def Let_def)
qed

text \<open>Printing \<^verbatim>\<open>INT_MIN\<close> with a sign negates it, and a text of ten digits above \<^verbatim>\<open>INT_MAX - '0'\<close> is not read: both
  are overflows of \<^verbatim>\<open>int\<close>.\<close>

lemma int_overflows:
  "rt_snprintf buf sz ''%d'' [Num 0x80000000] m = None" "skip_atoi ''2147483600'' = None"
  "skip_atoi ''2147483599'' = Some (2147483599, [])" "fmt_parse ''3000000000d'' args = None"
proof -
  have "print_number e 0x80000000 10 (-1) (-1) SIGN q = None" for e q
    by (simp add: print_number_def flag_def)
  then have "fmt_run e ''%d'' [Num 0x80000000] q = None" for e q
    by (simp add: fmt_parse_d first_char_def fmt_convert_def next_int_def number_arg_def)
  then show "rt_snprintf buf sz ''%d'' [Num 0x80000000] m = None"
    by (simp add: rt_snprintf_def rt_vsnprintf_def)
qed (simp_all add: skip_atoi_def ISDIGIT_def fmt_parse_def fmt_width_def)

text \<open>C19: A number comes back from its text, within the limits of \<^verbatim>\<open>int\<close>. \<^verbatim>\<open>rt_snprintf\<close> of any 32-bit number but
  \<^verbatim>\<open>INT_MIN\<close> with \<^verbatim>\<open>%d\<close> into a buffer of at least twelve bytes writes a minus sign for a negative number, and
  then digits, up to the terminating NUL. From these \<^verbatim>\<open>skip_atoi\<close> reads the absolute value if that is at most
  \<^verbatim>\<open>INT_MAX - '0'\<close>; reading a larger one overflows.\<close>

theorem rt_snprintf_decimal_roundtrip:
  assumes "12 \<le> sz" "unat buf + unat sz < 2 ^ 32" "sint v \<noteq> - (2 ^ 31)"
  shows "\<exists>m' ds. rt_snprintf buf sz ''%d'' [Num v] m = Some (of_nat (length ((if v <s 0 then ''-'' else '''') @ ds)), m') \<and>
     read_block m' buf (length ((if v <s 0 then ''-'' else '''') @ ds) + 1)
       = map of_char ((if v <s 0 then ''-'' else '''') @ ds) @ [0] \<and>
     skip_atoi ds = (if \<bar>sint v\<bar> \<le> 2 ^ 31 - 1 - 48 then Some (\<bar>sint v\<bar>, []) else None)"
proof -
  define ds where "ds = numeral_text SIGN 10 (magnitude SIGN v)"
  let ?t = "(if v <s 0 then ''-'' else '''') @ ds"
  have t: "text_run ''%d'' [Num v] = Some ?t" unfolding ds_def using assms(3) by (intro text_d) simp
  have "length ds \<le> 10" by (simp add: ds_def numeral_length)
  then have l: "length ?t \<le> 11" by simp
  have sz: "12 \<le> unat sz" using assms(1) by (simp add: word_le_nat_alt)
  have "length ?t < 2 ^ 31" by (rule le_less_trans [OF l]) simp
  moreover have "unat buf + length ?t < 2 ^ 32" using assms(2) l sz by linarith
  ultimately obtain m' where m': "rt_snprintf buf sz ''%d'' [Num v] m = Some (of_nat (length ?t), m')"
    "sz \<noteq> 0 \<longrightarrow> read_block m' buf (min (length ?t) (unat sz - 1) + 1) = map of_char (take (min (length ?t) (unat sz - 1)) ?t) @ [0]"
    using vsnprintf_writes [OF t assms(2), of m] unfolding rt_snprintf_def by blast
  have "skip_atoi ds = (if \<bar>sint v\<bar> \<le> 2 ^ 31 - 1 - 48 then Some (\<bar>sint v\<bar>, []) else None)"
    by (simp add: ds_def numeral_decimal(1) abs_magnitude)
  moreover have "sz \<noteq> 0" "min (length ?t) (unat sz - 1) = length ?t"
    using sz l by auto
  ultimately show ?thesis using m' by (intro exI [of _ m'] exI [of _ ds]) auto
qed

text \<open>\<^verbatim>\<open>rt_kprintf\<close> sends the text to the console, at most 254 characters of it; of a longer text it also sends
  the NUL that terminates the cut text.\<close>

theorem rt_kprintf_sends:
  assumes "text_run fmt args = Some t" "unat log_buf + 256 < 2 ^ 32" "unat log_buf + length t < 2 ^ 32"
    and "length t < 2 ^ 31"
  shows "\<exists>m'. rt_kprintf log_buf fmt args m =
     Some (of_nat (min (length t) 255), map of_char (take 254 t) @ (if length t \<ge> 255 then [0] else []), m')"
proof -
  have "unat log_buf + unat (255 :: 32 word) < 2 ^ 32" using assms(2) by simp
  from vsnprintf_writes [OF assms(1) this assms(3,4), of m] obtain m'
    where run: "rt_vsnprintf log_buf 255 fmt args m = Some (of_nat (length t), m')"
      and rd: "read_block m' log_buf (min (length t) 254 + 1) = map of_char (take (min (length t) 254) t) @ [0]"
    by auto
  have L: "unat (of_nat (length t) :: 32 word) = length t" using assms(3) by (intro unat_of_nat32) simp
  have len: "(if of_nat (length t) > (255 :: 32 word) then 255 else of_nat (length t)) = of_nat (min (length t) 255)"
    using L by (auto simp: word_less_nat_alt min_def)
  have ul: "unat (of_nat (min (length t) 255) :: 32 word) = min (length t) 255"
    by (rule unat_of_nat32) simp
  have pre: "read_block m' log_buf n = take n (read_block m' log_buf k)" if "n \<le> k" for n k
    using that by (intro nth_equalityI) simp_all
  have "read_block m' log_buf (min (length t) 255) = map of_char (take 254 t) @ (if length t \<ge> 255 then [0] else [])"
  proof (cases "length t \<ge> 255")
    case True
    then show ?thesis using rd by (simp add: min_def)
  next
    case False
    then have "min (length t) 255 = length t" "min (length t) 254 = length t" by auto
    then show ?thesis using rd False pre [of "length t" "length t + 1"] by simp
  qed
  then show ?thesis
    using run len ul by (auto simp: rt_kprintf_def Let_def)
qed

text \<open>\<^verbatim>\<open>divide\<close> knows the bases 10 and 16 only, so that \<^verbatim>\<open>%o\<close> prints hexadecimal digits; a precision of 0
  suppresses the digits of every number, not only of 0; and the field width cuts strings.\<close>

lemma octal_is_hex: "numeral_text fl 8 n = numeral_text fl 16 n"
proof -
  have "number_tmp ds 8 n = number_tmp ds 16 n" for ds
  proof (induction "unat n" arbitrary: n rule: less_induct)
    case less
    have "n \<noteq> 0 \<Longrightarrow> unat (n div 16) < unat n" using divide_less [of n 16] by (simp add: divide_def)
    then show ?case
      using less by (simp add: number_tmp.simps [of ds 8 n] number_tmp.simps [of ds 16 n] divide_def)
  qed
  then show ?thesis by (simp add: numeral_text_def)
qed

lemma print_quirks:
  "text_run ''%o'' [Num 15] = Some ''f''" "text_run ''%.0d'' [Num 5] = Some ''''"
  "text_run ''%3s|'' [Str (Some ''hello'')] = Some ''hel|''"
  by code_simp+

section \<open>Witnesses\<close>

theorem rt_snprintf_writes_text_witness:
  "\<exists>m'. rt_snprintf 0x20000000 8 ''%-5d|%05x|%s'' [Num (-42), Num 0xBEEF, Str None] (\<lambda>_. 1) = Some (18, m') \<and>
      read_block m' 0x20000000 8 = map of_char ''-42  |0'' @ [0] \<and> m' 0x20000008 = 1"
proof -
  let ?s = "''-42  |0beef|(NULL)''"
  have t: "text_run ''%-5d|%05x|%s'' [Num (-42), Num 0xBEEF, Str None] = Some ?s"
    by code_simp
  have k: "min (length ?s) (unat (8 :: 32 word) - 1) + 1 = 8" "take (unat (8 :: 32 word) - 1) ?s = ''-42  |0''" by simp_all
  have "\<exists>m'. rt_snprintf 0x20000000 8 ''%-5d|%05x|%s'' [Num (-42), Num 0xBEEF, Str None] (\<lambda>_. 1) = Some (of_nat (length ?s), m') \<and>
     ((8 :: 32 word) \<noteq> 0 \<longrightarrow> read_block m' 0x20000000 8 = map of_char ''-42  |0'' @ [0]) \<and>
     (\<forall>x. \<not> in_span 0x20000000 (min (length ?s + 1) (unat (8 :: 32 word))) x \<longrightarrow> m' x = 1)"
    using rt_snprintf_writes_text [OF t, of "0x20000000" 8 "\<lambda>_. 1", unfolded k] by simp
  then show ?thesis by (auto simp: in_span_def)
qed

theorem rt_snprintf_decimal_roundtrip_witness:
  "\<exists>m' ds. rt_snprintf 0x20000000 12 ''%d'' [Num (-1234567890)] (\<lambda>_. 0) = Some (of_nat (length (''-'' @ ds)), m') \<and>
     skip_atoi ds = Some (1234567890, [])"
  using rt_snprintf_decimal_roundtrip [of 12 "0x20000000" "-1234567890" "\<lambda>_. 0"] by (auto simp: word_sless_alt)

end
