(* ===== verification/Shell.thy ===== *)
theory Shell
  imports Kprintf
begin

text \<open>
  The shell: the line editor \<^verbatim>\<open>components/finsh/shell.c\<close> and the command interpreter
  \<^verbatim>\<open>components/finsh/msh.c\<close>, with the history, the symbol table and the built-in commands of this
  configuration, and without a file system and a password. Memory is the array \<^verbatim>\<open>line\<close> of
  the shell; a pointer into it is an index, and \<^term>\<open>None\<close> is an access outside it. What the shell
  does to the outside is a list of events: the texts it prints and the calls of command functions.
  A command function gets its arguments as strings; it may write to them, which nothing depends on, as the
  line is cleared after the call.
\<close>

section \<open>State\<close>

abbreviation NUL :: char where "NUL \<equiv> CHR 0x00"
abbreviation FINSH_CMD_SIZE :: nat where "FINSH_CMD_SIZE \<equiv> 80"
abbreviation FINSH_HISTORY_LINES :: nat where "FINSH_HISTORY_LINES \<equiv> 5"
abbreviation FINSH_ARG_MAX :: nat where "FINSH_ARG_MAX \<equiv> 10"

datatype input_stat = WAIT_NORMAL | WAIT_SPEC_KEY | WAIT_FUNC_KEY

record finsh_shell =
  shell_stat :: input_stat
  echo_mode :: bool
  prompt_mode :: bool
  current_history :: "16 word"
  history_count :: "16 word"
  cmd_history :: "string list"
  line :: string
  line_position :: "16 word"
  line_curpos :: "16 word"
  finsh_prompt_custom :: "string option"

record finsh_syscall =
  syscall_name :: string
  syscall_desc :: string
  syscall_func :: "string list \<Rightarrow> int"

datatype shell_event = Out string | Call nat "string list"

text \<open>The string at the start of a memory.\<close>

definition cstr :: "string \<Rightarrow> string option" where
  "cstr m = (if NUL \<in> set m then Some (takeWhile (\<lambda>c. c \<noteq> NUL) m) else None)"

text \<open>What \<^verbatim>\<open>rt_kprintf\<close> sends of the text \<open>t\<close>.\<close>

definition kout :: "string \<Rightarrow> shell_event list" where
  "kout t = [Out (take 254 t @ (if length t \<ge> 255 then [NUL] else []))]"

section \<open>The prompt\<close>

text \<open>\<open>mem\<close>: the heap has room for the copy.\<close>

definition finsh_set_prompt :: "bool \<Rightarrow> string option \<Rightarrow> finsh_shell \<Rightarrow> finsh_shell" where
  "finsh_set_prompt mem prompt s = s\<lparr>finsh_prompt_custom := (if mem then prompt else None)\<rparr>"

text \<open>The buffer has 257 bytes. \<^verbatim>\<open>strcat\<close> needs two of them after the custom prompt, of which
  \<^verbatim>\<open>strncpy\<close> took up to 256.\<close>

definition finsh_get_prompt :: "finsh_shell \<Rightarrow> string option" where
  "finsh_get_prompt s =
     (if \<not> prompt_mode s then Some []
      else let p = (case finsh_prompt_custom s of Some c \<Rightarrow> take 256 c | None \<Rightarrow> ''msh '')
           in if length p + 2 \<le> 257 then Some (p @ ''>'') else None)"

text \<open>The modes are bit fields of one bit.\<close>

definition finsh_get_prompt_mode :: "finsh_shell \<Rightarrow> 32 word" where
  "finsh_get_prompt_mode s = (if prompt_mode s then 1 else 0)"

definition finsh_set_prompt_mode :: "32 word \<Rightarrow> finsh_shell \<Rightarrow> finsh_shell" where
  "finsh_set_prompt_mode v s = s\<lparr>prompt_mode := bit v 0\<rparr>"

definition finsh_set_echo :: "32 word \<Rightarrow> finsh_shell \<Rightarrow> finsh_shell" where
  "finsh_set_echo v s = s\<lparr>echo_mode := bit (ucast v :: 8 word) 0\<rparr>"

definition finsh_get_echo :: "finsh_shell \<Rightarrow> 32 word" where
  "finsh_get_echo s = (if echo_mode s then 1 else 0)"

section \<open>Splitting a command line\<close>

text \<open>In this section \<open>cmd\<close> is the memory from the pointer \<^verbatim>\<open>cmd\<close> on, and the pointer \<^verbatim>\<open>ptr\<close>, which advances
  together with \<^verbatim>\<open>position\<close>, is \<^verbatim>\<open>cmd + position\<close>.\<close>

definition blank :: "char \<Rightarrow> bool" where
  "blank c \<longleftrightarrow> c = CHR '' '' \<or> c = CHR 0x09"

function strip_blanks :: "nat \<Rightarrow> string \<Rightarrow> nat \<Rightarrow> (string \<times> nat) option" where
  "strip_blanks len cmd position =
     (if position < length cmd then
        if blank (cmd ! position) \<and> position < len then strip_blanks len (cmd[position := NUL]) (Suc position)
        else Some (cmd, position)
      else None)"
  by auto
termination by (relation "measure (\<lambda>(len, cmd, position). length cmd - position)") auto

function skip_string :: "nat \<Rightarrow> string \<Rightarrow> nat \<Rightarrow> nat option" where
  "skip_string len cmd position =
     (if position < length cmd then
        if cmd ! position \<noteq> CHR 0x22 \<and> position < len then
          if cmd ! position = CHR 0x5C then
            if Suc position < length cmd
            then skip_string len cmd (if cmd ! Suc position = CHR 0x22 then position + 2 else position + 1)
            else None
          else skip_string len cmd (position + 1)
        else Some position
      else None)"
  by auto
termination by (relation "measure (\<lambda>(len, cmd, position). length cmd - position)") auto

function skip_word :: "nat \<Rightarrow> string \<Rightarrow> nat \<Rightarrow> nat option" where
  "skip_word len cmd position =
     (if position < length cmd then
        if \<not> blank (cmd ! position) \<and> position < len then skip_word len cmd (position + 1)
        else Some position
      else None)"
  by auto
termination by (relation "measure (\<lambda>(len, cmd, position). length cmd - position)") auto

declare strip_blanks.simps [simp del] skip_string.simps [simp del] skip_word.simps [simp del]

text \<open>The strings at the given positions.\<close>

fun argv_strings :: "string \<Rightarrow> nat list \<Rightarrow> string list option" where
  "argv_strings cmd [] = Some []"
| "argv_strings cmd (p # ps) = do {
     a \<leftarrow> cstr (drop p cmd);
     as \<leftarrow> argv_strings cmd ps;
     Some (a # as) }"

definition too_many_args :: "string \<Rightarrow> nat list \<Rightarrow> shell_event list option" where
  "too_many_args cmd argv = do {
     as \<leftarrow> argv_strings cmd argv;
     Some (kout (''Too many args ! We only Use:'' @ [CHR 0x0A]) @ concat (map (\<lambda>a. kout (a @ '' '')) as) @ kout [CHR 0x0A]) }"

function split_loop :: "nat \<Rightarrow> nat list \<Rightarrow> string \<Rightarrow> nat \<Rightarrow> (nat list \<times> string \<times> shell_event list) option" where
  "split_loop len argv cmd position =
     (if position < len then
        case strip_blanks len cmd position of
          None \<Rightarrow> None
        | Some (cmd, position) \<Rightarrow>
            if length argv \<ge> FINSH_ARG_MAX then map_option (\<lambda>out. (argv, cmd, out)) (too_many_args cmd argv)
            else if position \<ge> len then Some (argv, cmd, [])
            else if cmd ! position = CHR 0x22 then
              (case skip_string len cmd (Suc position) of
                 None \<Rightarrow> None
               | Some p \<Rightarrow>
                   if p \<ge> len then Some (argv @ [Suc position], cmd, [])
                   else split_loop len (argv @ [Suc position]) (cmd[p := NUL]) (Suc p))
            else
              (case skip_word len cmd position of
                 None \<Rightarrow> None
               | Some p \<Rightarrow>
                   if p \<ge> len then Some (argv @ [position], cmd, [])
                   else split_loop len (argv @ [position]) cmd p)
      else Some (argv, cmd, []))"
  by auto
termination by (relation "measure (\<lambda>(len, argv, cmd, position). FINSH_ARG_MAX - length argv)") auto

declare split_loop.simps [simp del]

definition msh_split :: "string \<Rightarrow> nat \<Rightarrow> (nat list \<times> string \<times> shell_event list) option" where
  "msh_split cmd len = split_loop len [] cmd 0"

section \<open>Running a command\<close>

text \<open>\<^verbatim>\<open>strncmp(a, b, n) == 0\<close> for two strings.\<close>

definition strncmp_eq :: "string \<Rightarrow> string \<Rightarrow> nat \<Rightarrow> bool" where
  "strncmp_eq a b n \<longleftrightarrow> take n (a @ [NUL]) = take n (b @ [NUL])"

text \<open>The index of the first entry with the name \<^verbatim>\<open>cmd[0..n)\<close>, of which \<open>cmd\<close> is the part before a NUL. The
  outer \<^term>\<open>None\<close> is a read behind the end of a name.\<close>

fun msh_get_cmd :: "finsh_syscall list \<Rightarrow> string \<Rightarrow> nat \<Rightarrow> nat option option" where
  "msh_get_cmd [] cmd n = Some None"
| "msh_get_cmd (x # tab) cmd n =
     (if strncmp_eq (syscall_name x) cmd n then
        if n > length (syscall_name x) then None
        else if n = length (syscall_name x) then Some (Some 0)
        else map_option (map_option Suc) (msh_get_cmd tab cmd n)
      else map_option (map_option Suc) (msh_get_cmd tab cmd n))"

text \<open>The error code, the result of the command, the memory and the events.\<close>

definition msh_exec_cmd ::
  "finsh_syscall list \<Rightarrow> string \<Rightarrow> nat \<Rightarrow> (int \<times> int \<times> string \<times> shell_event list) option" where
  "msh_exec_cmd tab cmd len = do {
     cmd0_size \<leftarrow> skip_word len cmd 0;
     if cmd0_size = 0 then Some (-1, 0, cmd, [])
     else do {
       cmd_func \<leftarrow> msh_get_cmd tab (takeWhile (\<lambda>c. c \<noteq> NUL) (take cmd0_size cmd)) cmd0_size;
       case cmd_func of
         None \<Rightarrow> Some (-1, 0, cmd, [])
       | Some i \<Rightarrow> do {
           (argv, cmd, out) \<leftarrow> msh_split cmd len;
           if argv = [] then Some (-1, 0, cmd, out)
           else do {
             as \<leftarrow> argv_strings cmd argv;
             Some (0, syscall_func (tab ! i) as, cmd, out @ [Call i as]) } } } }"

fun trim_command :: "string \<Rightarrow> nat \<Rightarrow> (string \<times> nat) option" where
  "trim_command [] len = (if len > 0 then None else Some ([], 0))"
| "trim_command (c # cs) len = (if len > 0 \<and> blank c then trim_command cs (len - 1) else Some (c # cs, len))"

definition msh_exec :: "finsh_syscall list \<Rightarrow> string \<Rightarrow> nat \<Rightarrow> (int \<times> shell_event list) option" where
  "msh_exec tab cmd len = do {
     (cmd, len) \<leftarrow> trim_command cmd len;
     if len = 0 then Some (0, [])
     else do {
       (e, ret, cmd, out) \<leftarrow> msh_exec_cmd tab cmd len;
       if e = 0 then Some (ret, out)
       else do {
         let name = takeWhile (\<lambda>c. c \<noteq> CHR '' '' \<and> c \<noteq> NUL) cmd;
         if length name < length cmd then Some (-1, out @ kout (name @ '': command not found.'' @ [CHR 0x0A])) else None } } }"

section \<open>Completion\<close>

definition help_line :: "finsh_syscall \<Rightarrow> string" where
  "help_line x = (let n = take 16 (syscall_name x) in n @ replicate (16 - length n) CHR '' '') @ '' - '' @ syscall_desc x @ [CHR 0x0A]"

definition msh_help :: "finsh_syscall list \<Rightarrow> shell_event list" where
  "msh_help tab = kout (''RT-Thread shell commands:'' @ [CHR 0x0A]) @ concat (map (\<lambda>x. kout (help_line x)) tab) @ kout [CHR 0x0A]"

fun str_common :: "string \<Rightarrow> string \<Rightarrow> nat" where
  "str_common (a # as) (b # bs) = (if a = b then Suc (str_common as bs) else 0)"
| "str_common _ _ = 0"

fun complete_loop ::
  "string \<Rightarrow> finsh_syscall list \<Rightarrow> string option \<Rightarrow> nat \<Rightarrow> string option \<times> nat \<times> shell_event list" where
  "complete_loop prefix [] name_ptr min_length = (name_ptr, min_length, [])"
| "complete_loop prefix (x # tab) name_ptr min_length = (
     let cmd_name = syscall_name x in
     if strncmp_eq prefix cmd_name (length prefix) then
       let (n, m) = (if min_length = 0 then (cmd_name, length cmd_name) else (the name_ptr, min_length));
           m = min m (str_common n cmd_name);
           (p, l, out) = complete_loop prefix tab (Some n) m
       in (p, l, kout (cmd_name @ [CHR 0x0A]) @ out)
     else complete_loop prefix tab name_ptr min_length)"

text \<open>\<open>ln\<close> is the memory at \<^verbatim>\<open>prefix\<close>.\<close>

definition msh_auto_complete :: "finsh_syscall list \<Rightarrow> string \<Rightarrow> (string \<times> shell_event list) option" where
  "msh_auto_complete tab ln = do {
     prefix \<leftarrow> cstr ln;
     if prefix = [] then Some (ln, msh_help tab)
     else let (name_ptr, min_length, out) = complete_loop prefix tab None 0 in
       case name_ptr of
         None \<Rightarrow> Some (ln, out)
       | Some name \<Rightarrow>
           if min_length \<le> length ln then Some (memcpy_at ln 0 (take min_length name), out) else None }"

definition shell_auto_complete :: "finsh_syscall list \<Rightarrow> finsh_shell \<Rightarrow> (string \<times> shell_event list) option" where
  "shell_auto_complete tab s = do {
     (ln, out) \<leftarrow> msh_auto_complete tab (line s);
     p \<leftarrow> finsh_get_prompt s;
     prefix \<leftarrow> cstr ln;
     Some (ln, kout [CHR 0x0A] @ out @ kout (p @ prefix)) }"

section \<open>History\<close>

definition shell_handle_history :: "finsh_shell \<Rightarrow> shell_event list option" where
  "shell_handle_history s = do {
     p \<leftarrow> finsh_get_prompt s;
     ln \<leftarrow> cstr (line s);
     Some (kout ([CHR 0x1B] @ ''[2K'' @ [CHR 0x0D]) @ kout (p @ ln)) }"

text \<open>Replacing a line of the history by the first \<open>n\<close> characters of the shell's line.\<close>

definition history_entry :: "string \<Rightarrow> nat \<Rightarrow> string option" where
  "history_entry ln n =
     (if n \<le> FINSH_CMD_SIZE \<and> n \<le> length ln then Some (take n ln @ replicate (FINSH_CMD_SIZE - n) NUL) else None)"

definition shell_push_history :: "finsh_shell \<Rightarrow> finsh_shell option" where
  "shell_push_history s = do {
     let n = unat (line_position s);
     let ct = unat (history_count s);
     s \<leftarrow>
       (if n \<noteq> 0 then
          if ct \<ge> FINSH_HISTORY_LINES then
            if cmd_history s ! (FINSH_HISTORY_LINES - 1) \<noteq> take FINSH_CMD_SIZE (line s) then
              map_option (\<lambda>h. s\<lparr>cmd_history := tl (cmd_history s) @ [h], history_count := of_nat FINSH_HISTORY_LINES\<rparr>)
                (history_entry (line s) n)
            else Some s
          else
            if ct = 0 \<or> cmd_history s ! (ct - 1) \<noteq> take FINSH_CMD_SIZE (line s) then
              map_option (\<lambda>h. s\<lparr>current_history := history_count s, cmd_history := (cmd_history s)[ct := h],
                                history_count := history_count s + 1\<rparr>)
                (history_entry (line s) n)
            else Some s
        else Some s);
     Some (s\<lparr>current_history := history_count s\<rparr>) }"

text \<open>Showing the line of the history at \<^verbatim>\<open>current_history\<close>.\<close>

definition recall_history :: "finsh_shell \<Rightarrow> (finsh_shell \<times> shell_event list) option" where
  "recall_history s = do {
     h \<leftarrow> (if unat (current_history s) < length (cmd_history s) then Some (cmd_history s ! unat (current_history s)) else None);
     let s = s\<lparr>line := memcpy_at (line s) 0 h\<rparr>;
     ln \<leftarrow> cstr (line s);
     let s = s\<lparr>line_curpos := of_nat (length ln), line_position := of_nat (length ln)\<rparr>;
     out \<leftarrow> shell_handle_history s;
     Some (s, out) }"

definition up_key :: "finsh_shell \<Rightarrow> (finsh_shell \<times> shell_event list) option" where
  "up_key s =
     (if current_history s > 0 then recall_history (s\<lparr>current_history := current_history s - 1\<rparr>)
      else Some (s\<lparr>current_history := 0\<rparr>, []))"

definition down_key :: "finsh_shell \<Rightarrow> (finsh_shell \<times> shell_event list) option" where
  "down_key s =
     (if int (unat (current_history s)) < int (unat (history_count s)) - 1
      then recall_history (s\<lparr>current_history := current_history s + 1\<rparr>)
      else if history_count s \<noteq> 0 then recall_history (s\<lparr>current_history := history_count s - 1\<rparr>)
      else Some (s, []))"

section \<open>Editing\<close>

definition backspaces :: "nat \<Rightarrow> shell_event list" where
  "backspaces n = concat (replicate n (kout [CHR 0x08]))"

text \<open>\<^verbatim>\<open>rt_memmove\<close> and a store inside the line.\<close>

definition move_chars :: "nat \<Rightarrow> nat \<Rightarrow> nat \<Rightarrow> string \<Rightarrow> string option" where
  "move_chars dst src n ln =
     (if dst + n \<le> length ln \<and> src + n \<le> length ln then Some (memcpy_at ln dst (take n (drop src ln))) else None)"

definition store_char :: "nat \<Rightarrow> char \<Rightarrow> string \<Rightarrow> string option" where
  "store_char i c ln = (if i < length ln then Some (ln[i := c]) else None)"

definition left_key :: "finsh_shell \<Rightarrow> finsh_shell \<times> shell_event list" where
  "left_key s =
     (if line_curpos s \<noteq> 0 then (s\<lparr>line_curpos := line_curpos s - 1\<rparr>, kout [CHR 0x08]) else (s, []))"

definition right_key :: "finsh_shell \<Rightarrow> (finsh_shell \<times> shell_event list) option" where
  "right_key s =
     (if line_curpos s < line_position s then
        if unat (line_curpos s) < length (line s)
        then Some (s\<lparr>line_curpos := line_curpos s + 1\<rparr>, kout [line s ! unat (line_curpos s)])
        else None
      else Some (s, []))"

definition tab_key :: "finsh_syscall list \<Rightarrow> finsh_shell \<Rightarrow> (finsh_shell \<times> shell_event list) option" where
  "tab_key tab s = do {
     (ln, out) \<leftarrow> shell_auto_complete tab s;
     t \<leftarrow> cstr ln;
     Some (s\<lparr>line := ln, line_curpos := of_nat (length t), line_position := of_nat (length t)\<rparr>,
           backspaces (unat (line_curpos s)) @ out) }"

definition backspace_key :: "finsh_shell \<Rightarrow> (finsh_shell \<times> shell_event list) option" where
  "backspace_key s =
     (if line_curpos s = 0 then Some (s, [])
      else let p = line_position s - 1; c = line_curpos s - 1 in
        if p > c then do {
          ln \<leftarrow> move_chars (unat c) (unat c + 1) (unat (p - c)) (line s);
          ln \<leftarrow> store_char (unat p) NUL ln;
          rest \<leftarrow> cstr (drop (unat c) ln);
          Some (s\<lparr>line := ln, line_position := p, line_curpos := c\<rparr>,
                kout ([CHR 0x08] @ rest @ ''  '' @ [CHR 0x08]) @ backspaces (unat p + 1 - unat c)) }
        else do {
          ln \<leftarrow> store_char (unat p) NUL (line s);
          Some (s\<lparr>line := ln, line_position := p, line_curpos := c\<rparr>, kout [CHR 0x08, CHR '' '', CHR 0x08]) })"

definition enter_key :: "finsh_syscall list \<Rightarrow> finsh_shell \<Rightarrow> (finsh_shell \<times> shell_event list) option" where
  "enter_key tab s = do {
     s \<leftarrow> shell_push_history s;
     (ret, out) \<leftarrow> msh_exec tab (line s) (unat (line_position s));
     p \<leftarrow> finsh_get_prompt s;
     Some (s\<lparr>line := replicate (length (line s)) NUL, line_curpos := 0, line_position := 0\<rparr>,
           (if echo_mode s then kout [CHR 0x0A] else []) @ out @ kout p) }"

definition normal_key :: "char \<Rightarrow> finsh_shell \<Rightarrow> (finsh_shell \<times> shell_event list) option" where
  "normal_key ch s = do {
     let p = (if unat (line_position s) \<ge> FINSH_CMD_SIZE then 0 else line_position s);
     let c = line_curpos s;
     (ln, out) \<leftarrow>
       (if c < p then do {
          ln \<leftarrow> move_chars (unat c + 1) (unat c) (unat (p - c)) (line s);
          ln \<leftarrow> store_char (unat c) ch ln;
          out \<leftarrow> (if echo_mode s then map_option kout (cstr (drop (unat c) ln)) else Some []);
          Some (ln, out @ backspaces (unat p - unat c)) }
        else do {
          ln \<leftarrow> store_char (unat p) ch (line s);
          Some (ln, if echo_mode s then kout [ch] else []) });
     let (p, c) = (if unat (p + 1) \<ge> FINSH_CMD_SIZE then (0, 0) else (p + 1, c + 1));
     Some (s\<lparr>line := ln, line_position := p, line_curpos := c\<rparr>, out) }"

section \<open>The thread\<close>

text \<open>A character that is not part of an escape sequence.\<close>

definition plain_key :: "finsh_syscall list \<Rightarrow> char \<Rightarrow> finsh_shell \<Rightarrow> (finsh_shell \<times> shell_event list) option" where
  "plain_key tab ch s =
     (if ch = NUL \<or> ch = CHR 0xFF then Some (s, [])
      else if ch = CHR 0x09 then tab_key tab s
      else if ch = CHR 0x7F \<or> ch = CHR 0x08 then backspace_key s
      else if ch = CHR 0x0D \<or> ch = CHR 0x0A then enter_key tab s
      else normal_key ch s)"

text \<open>One pass of the loop of \<^verbatim>\<open>finsh_thread_entry\<close>; no character when \<^verbatim>\<open>finsh_getchar\<close> returns a
  negative number.\<close>

definition finsh_key ::
  "finsh_syscall list \<Rightarrow> char option \<Rightarrow> finsh_shell \<Rightarrow> (finsh_shell \<times> shell_event list) option" where
  "finsh_key tab inp s =
     (case inp of
        None \<Rightarrow> Some (s, [])
      | Some ch \<Rightarrow>
          if ch = CHR 0x1B then Some (s\<lparr>shell_stat := WAIT_SPEC_KEY\<rparr>, [])
          else if shell_stat s = WAIT_SPEC_KEY \<and> ch = CHR 0x5B then Some (s\<lparr>shell_stat := WAIT_FUNC_KEY\<rparr>, [])
          else
            let func = (shell_stat s = WAIT_FUNC_KEY); s = s\<lparr>shell_stat := WAIT_NORMAL\<rparr> in
            if func \<and> ch = CHR 0x41 then up_key s
            else if func \<and> ch = CHR 0x42 then down_key s
            else if func \<and> ch = CHR 0x44 then Some (left_key s)
            else if func \<and> ch = CHR 0x43 then right_key s
            else plain_key tab ch s)"

fun finsh_keys ::
  "finsh_syscall list \<Rightarrow> char option list \<Rightarrow> finsh_shell \<Rightarrow> (finsh_shell \<times> shell_event list) option" where
  "finsh_keys tab [] s = Some (s, [])"
| "finsh_keys tab (x # xs) s = do {
     (s, out) \<leftarrow> finsh_key tab x s;
     (s, out') \<leftarrow> finsh_keys tab xs s;
     Some (s, out @ out') }"

text \<open>The thread, reading the characters \<open>inp\<close>.\<close>

definition finsh_thread_entry ::
  "finsh_syscall list \<Rightarrow> char option list \<Rightarrow> finsh_shell \<Rightarrow> (finsh_shell \<times> shell_event list) option" where
  "finsh_thread_entry tab inp s = do {
     let s = s\<lparr>echo_mode := True\<rparr>;
     p \<leftarrow> finsh_get_prompt s;
     (s, out) \<leftarrow> finsh_keys tab inp s;
     Some (s, kout p @ out) }"

text \<open>The structure of the shell after \<^verbatim>\<open>finsh_system_init\<close>, in cleared memory.\<close>

definition finsh_shell_init :: finsh_shell where
  "finsh_shell_init = finsh_set_prompt_mode 1
     \<lparr>shell_stat = WAIT_NORMAL, echo_mode = False, prompt_mode = False, current_history = 0, history_count = 0,
      cmd_history = replicate FINSH_HISTORY_LINES (replicate FINSH_CMD_SIZE NUL),
      line = replicate (FINSH_CMD_SIZE + 1) NUL, line_position = 0, line_curpos = 0, finsh_prompt_custom = None\<rparr>"

end
