(* ===== verification/Shell_Split.thy ===== *)
theory Shell_Split
  imports Shell
begin

text \<open>
  The specification of \<^verbatim>\<open>msh_split\<close>: the arguments of a text, defined without positions, and the proof
  that the strings at the pointers of \<^verbatim>\<open>argv\<close> are the first ten of them. That \<^verbatim>\<open>msh_split\<close> stays inside the
  line is shown without assuming that the line is zero behind the command.
\<close>

section \<open>Specification\<close>

function quoted :: "string \<Rightarrow> string \<times> string" where
  "quoted [] = ([], [])"
| "quoted (c # cs) =
     (if c = CHR 0x22 then ([], cs)
      else if c = CHR 0x5C \<and> take 1 cs = [CHR 0x22] then let (a, r) = quoted (tl cs) in (c # CHR 0x22 # a, r)
      else let (a, r) = quoted cs in (c # a, r))"
  by pat_completeness auto
termination by (relation "measure length") auto

lemma quoted_split: "quoted t = (a, r) \<Longrightarrow> (t = a \<and> r = []) \<or> t = a @ CHR 0x22 # r"
proof (induction t arbitrary: a r rule: quoted.induct)
  case (2 c cs)
  show ?case
  proof (cases "c \<noteq> CHR 0x22 \<and> c = CHR 0x5C \<and> take 1 cs = [CHR 0x22]")
    case True
    then obtain ds where "cs = CHR 0x22 # ds" by (cases cs) auto
    then show ?thesis using 2 True by (auto split: prod.splits)
  next
    case False
    then show ?thesis using 2 by (auto split: if_splits prod.splits)
  qed
qed simp

lemma quoted_length: "length (snd (quoted t)) \<le> length t"
  using quoted_split [of t "fst (quoted t)" "snd (quoted t)"] by (metis append_Cons le_add2 le_SucI length_Cons length_append list.size(3) add_Suc_right prod.collapse zero_le)

function split_args :: "string \<Rightarrow> string list" where
  "split_args t =
     (case dropWhile blank t of
        [] \<Rightarrow> []
      | c # cs \<Rightarrow>
          if c = CHR 0x22 then let (a, r) = quoted cs in a # split_args r
          else (c # takeWhile (\<lambda>d. \<not> blank d) cs) # split_args (dropWhile (\<lambda>d. \<not> blank d) cs))"
  by auto
termination
proof (relation "measure length")
  fix t c cs x a r
  assume a: "dropWhile blank t = c # cs" "x = quoted cs" "(a, r) = x"
  have "length (dropWhile blank t) \<le> length t" by (rule length_dropWhile_le)
  moreover have "length r \<le> length cs" using quoted_length [of cs] a(2) a(3) by (metis snd_conv)
  ultimately show "(r, t) \<in> measure length" using a(1) by simp
next
  fix t c cs
  assume a: "dropWhile blank t = c # cs"
  have "length (dropWhile blank t) \<le> length t" by (rule length_dropWhile_le)
  moreover have "length (dropWhile (\<lambda>d. \<not> blank d) cs) \<le> length cs" by (rule length_dropWhile_le)
  ultimately show "(dropWhile (\<lambda>d. \<not> blank d) cs, t) \<in> measure length" using a by simp
qed simp

declare split_args.simps [simp del]

section \<open>Strings in memory\<close>

definition str_at :: "string \<Rightarrow> nat \<Rightarrow> string" where
  "str_at m p = takeWhile (\<lambda>c. c \<noteq> NUL) (drop p m)"

lemma str_at_eq:
  assumes "take (length w) (drop p m) = w" "NUL \<notin> set w" "p + length w < length m" "m ! (p + length w) = NUL"
  shows "str_at m p = w"
proof -
  have "drop p m = w @ NUL # drop (p + length w + 1) m"
    using assms by (metis Cons_nth_drop_Suc Suc_eq_plus1 add.commute append_take_drop_id drop_drop)
  then show ?thesis using assms(2) by (simp add: str_at_def takeWhile_append)
qed

lemma cstr_Some: "NUL \<in> set m \<Longrightarrow> cstr m = Some (str_at m 0)"
  by (simp add: cstr_def str_at_def)

definition nul_at_end :: "string \<Rightarrow> bool" where
  "nul_at_end m \<longleftrightarrow> m \<noteq> [] \<and> last m = NUL"

lemma nul_at_endD: "nul_at_end m \<Longrightarrow> p < length m \<Longrightarrow> NUL \<in> set (drop p m)"
  by (metis drop_eq_Nil last_drop last_in_set leD nul_at_end_def)

lemma nul_at_end_update: "nul_at_end m \<Longrightarrow> nul_at_end (m[i := NUL])"
  by (simp add: nul_at_end_def last_list_update)

lemma argv_strings_Some:
  "\<forall>p \<in> set ps. p < length m \<Longrightarrow> nul_at_end m \<Longrightarrow> argv_strings m ps = Some (map (str_at m) ps)"
  by (induction ps) (auto simp: cstr_def str_at_def nul_at_endD)

section \<open>The loops stay inside the line\<close>

lemma strip_blanks_in:
  assumes "position \<le> len" "len < length cmd" "nul_at_end cmd"
  shows "\<exists>cmd' p. strip_blanks len cmd position = Some (cmd', p) \<and> position \<le> p \<and> p \<le> len \<and>
    length cmd' = length cmd \<and> nul_at_end cmd'"
  using assms
proof (induction len cmd position rule: strip_blanks.induct)
  case (1 len cmd position)
  show ?case
  proof (cases "blank (cmd ! position) \<and> position < len")
    case True
    then show ?thesis
      using 1 by (subst strip_blanks.simps) (auto simp: nul_at_end_update dest!: 1(1) Suc_leD)
  next
    case False
    then show ?thesis using 1(2-) by (subst strip_blanks.simps) auto
  qed
qed

lemma skip_word_in:
  assumes "position \<le> len" "len < length cmd"
  shows "\<exists>p. skip_word len cmd position = Some p \<and> position \<le> p \<and> p \<le> len"
  using assms
proof (induction len cmd position rule: skip_word.induct)
  case (1 len cmd position)
  show ?case
  proof (cases "\<not> blank (cmd ! position) \<and> position < len")
    case True
    then obtain p where "skip_word len cmd (position + 1) = Some p \<and> position + 1 \<le> p \<and> p \<le> len" using 1 by auto
    then show ?thesis using 1(2,3) True by (subst skip_word.simps) auto
  next
    case False
    then show ?thesis using 1(2,3) by (subst skip_word.simps) auto
  qed
qed

lemma skip_string_in:
  assumes "position < length cmd" "len < length cmd" "nul_at_end cmd"
  shows "\<exists>p. skip_string len cmd position = Some p \<and> position \<le> p \<and> p < length cmd"
  using assms
proof (induction len cmd position rule: skip_string.induct)
  case (1 len cmd position)
  have L: "cmd ! (length cmd - 1) = NUL" using "1.prems"(3) last_conv_nth [of cmd] by (simp add: nul_at_end_def)
  show ?case
  proof (cases "cmd ! position \<noteq> CHR 0x22 \<and> position < len")
    case go: True
    then have s: "Suc position < length cmd" using "1.prems"(2) by simp
    have "position + 2 < length cmd" if "cmd ! Suc position = CHR 0x22"
    proof (rule ccontr)
      assume "\<not> position + 2 < length cmd"
      then have "Suc position = length cmd - 1" using s by simp
      then show False using that L by simp
    qed
    then have n: "(if cmd ! Suc position = CHR 0x22 then position + 2 else position + 1) < length cmd"
      using s by simp
    show ?thesis
    proof (cases "cmd ! position = CHR 0x5C")
      case True
      then show ?thesis using "1.IH"(1) [OF "1.prems"(1) go True s n "1.prems"(2,3)] "1.prems"(1) go s
        by (subst skip_string.simps) auto
    next
      case False
      then show ?thesis using "1.IH"(2) [OF "1.prems"(1) go False _ "1.prems"(2,3)] "1.prems"(1) go s
        by (subst skip_string.simps) auto
    qed
  next
    case False
    then show ?thesis using "1.prems"(1) by (subst skip_string.simps) auto
  qed
qed

section \<open>The loops on texts\<close>

text \<open>The part of the command that is not yet read.\<close>

definition unread :: "string \<Rightarrow> nat \<Rightarrow> nat \<Rightarrow> string" where
  "unread cmd len p = take (len - p) (drop p cmd)"

lemma unread_Cons:
  assumes "unread cmd len p = c # cs"
  shows "p < len" "p < length cmd" "cmd ! p = c" "unread cmd len (Suc p) = cs"
proof -
  show a: "p < len" "p < length cmd" using assms by (cases "p < len"; cases "p < length cmd"; simp add: unread_def)+
  then have "unread cmd len p = cmd ! p # unread cmd len (Suc p)"
    by (simp add: unread_def Cons_nth_drop_Suc [symmetric] take_Suc_conv_app_nth Suc_diff_Suc [symmetric] del: Suc_diff_Suc)
  then show "cmd ! p = c" "unread cmd len (Suc p) = cs" using assms by auto
qed

lemma unread_Nil: "unread cmd len p = [] \<Longrightarrow> len < length cmd \<Longrightarrow> p \<le> len \<Longrightarrow> p = len"
  by (auto simp: unread_def)

lemma length_unread: "len \<le> length cmd \<Longrightarrow> length (unread cmd len p) = len - p"
  by (simp add: unread_def)

lemma unread_drop: "unread cmd len (p + n) = drop n (unread cmd len p)"
  by (simp add: unread_def drop_take add.commute)

lemma unread_cong: "drop p cmd' = drop p cmd \<Longrightarrow> unread cmd' len p = unread cmd len p"
  by (simp add: unread_def)

lemma strip_blanks_text:
  assumes "len < length cmd" "p \<le> len" "unread cmd len p = t"
  shows "strip_blanks len cmd p =
    Some (memcpy_at cmd p (replicate (length (takeWhile blank t)) NUL), p + length (takeWhile blank t))"
  using assms
proof (induction t arbitrary: p cmd)
  case Nil
  then show ?case using unread_Nil [of cmd len p] by (subst strip_blanks.simps) auto
next
  case (Cons c cs)
  note u = unread_Cons [OF Cons.prems(3)]
  have "unread (cmd[p := NUL]) len (Suc p) = cs" using u(4) by (simp add: unread_def)
  from Cons.IH [OF _ _ this] Cons.prems u show ?case
    by (subst strip_blanks.simps) (auto simp: memcpy_at_Cons)
qed

lemma skip_word_text:
  assumes "len < length cmd" "p \<le> len" "unread cmd len p = t"
  shows "skip_word len cmd p = Some (p + length (takeWhile (\<lambda>c. \<not> blank c) t))"
  using assms
proof (induction t arbitrary: p)
  case Nil
  then show ?case using unread_Nil [of cmd len p] by (subst skip_word.simps) auto
next
  case (Cons c cs)
  note u = unread_Cons [OF Cons.prems(3)]
  from Cons.IH [OF _ _ u(4)] Cons.prems(1) u show ?case
    by (subst skip_word.simps) auto
qed

lemma skip_string_text:
  assumes "len < length cmd" "p \<le> len" "unread cmd len p = t" "cmd ! len = NUL"
  shows "skip_string len cmd p = Some (p + length (fst (quoted t)))"
  using assms
proof (induction t arbitrary: p rule: quoted.induct)
  case 1
  then show ?case using unread_Nil [of cmd len p] by (subst skip_string.simps) auto
next
  case (2 c cs)
  note u = unread_Cons [OF "2.prems"(3)]
  have s: "Suc p < length cmd" using u(1) "2.prems"(1) by simp
  have nxt: "take 1 cs = [CHR 0x22] \<longleftrightarrow> cmd ! Suc p = CHR 0x22"
  proof (cases cs)
    case Nil
    then have "Suc p = len" using unread_Nil [of cmd len "Suc p"] u "2.prems"(1) by auto
    then show ?thesis using Nil "2.prems"(4) by simp
  next
    case (Cons d ds)
    then show ?thesis using unread_Cons(3) [of cmd len "Suc p" d ds] u(4) by simp
  qed
  consider "c = CHR 0x22" | "c \<noteq> CHR 0x22" "c = CHR 0x5C \<and> take 1 cs = [CHR 0x22]"
    | "c \<noteq> CHR 0x22" "\<not> (c = CHR 0x5C \<and> take 1 cs = [CHR 0x22])" by blast
  then show ?case
  proof cases
    case 1
    then show ?thesis using u by (subst skip_string.simps) auto
  next
    case 2
    then obtain ds where ds: "cs = CHR 0x22 # ds" by (cases cs) auto
    have "unread cmd len (p + 2) = ds" "p + 2 \<le> len" using unread_Cons [OF u(4) [unfolded ds]] by simp_all
    then have "skip_string len cmd (p + 2) = Some (p + 2 + length (fst (quoted ds)))"
      using "2.IH"(1) [OF 2, of "p + 2"] "2.prems" ds by simp
    then show ?thesis using 2 nxt u s ds by (subst skip_string.simps) (auto split: prod.splits)
  next
    case 3
    have "skip_string len cmd (p + 1) = Some (p + 1 + length (fst (quoted cs)))"
      using "2.IH"(2) [OF 3, of "p + 1"] "2.prems" u by simp
    then show ?thesis using 3 nxt u s by (subst skip_string.simps) (auto split: prod.splits)
  qed
qed

section \<open>Splitting\<close>

text \<open>What the bounds of the loop need.\<close>

lemma split_loop_in:
  assumes "len < length cmd" "nul_at_end cmd" "p < length cmd" "\<forall>q \<in> set argv. q < length cmd"
  shows "\<exists>argv' cmd' out. split_loop len argv cmd p = Some (argv', cmd', out) \<and> length cmd' = length cmd \<and>
    nul_at_end cmd' \<and> (\<forall>q \<in> set argv'. q < length cmd)"
  using assms
proof (induction len argv cmd p rule: split_loop.induct)
  case (1 len argv cmd p)
  show ?case
  proof (cases "p < len")
    case True
    then obtain cmd1 q where st: "strip_blanks len cmd p = Some (cmd1, q)" "q \<le> len"
      and c1: "length cmd1 = length cmd" "nul_at_end cmd1"
      using strip_blanks_in [of p len cmd] "1.prems" by auto
    consider "length argv \<ge> FINSH_ARG_MAX" | "length argv < FINSH_ARG_MAX" "q \<ge> len"
      | "length argv < FINSH_ARG_MAX" "q < len" "cmd1 ! q = CHR 0x22"
      | "length argv < FINSH_ARG_MAX" "q < len" "cmd1 ! q \<noteq> CHR 0x22" by linarith
    then show ?thesis
    proof cases
      case 1
      have "argv_strings cmd1 argv = Some (map (str_at cmd1) argv)"
        using argv_strings_Some [of argv cmd1] "1.prems"(4) c1 by auto
      then show ?thesis using st c1 True 1 "1.prems"(4)
        by (subst split_loop.simps) (simp add: too_many_args_def)
    next
      case 2
      then show ?thesis using st c1 True "1.prems"(4) by (subst split_loop.simps) simp
    next
      case 3
      obtain p' where sk: "skip_string len cmd1 (Suc q) = Some p'" "p' < length cmd1"
        using skip_string_in [of "Suc q" cmd1 len] 3 c1 "1.prems"(1) by auto
      show ?thesis
      proof (cases "p' \<ge> len")
        case True
        then show ?thesis using st c1 \<open>p < len\<close> 3 sk "1.prems" by (subst split_loop.simps) simp
      next
        case False
        then show ?thesis
          using "1.IH"(1) [OF \<open>p < len\<close> st(1) refl _ _ 3(3) sk(1)] st c1 \<open>p < len\<close> 3 sk "1.prems"
          by (subst split_loop.simps) (simp add: nul_at_end_update)
      qed
    next
      case 4
      obtain p' where sk: "skip_word len cmd1 q = Some p'" "p' \<le> len"
        using skip_word_in [of q len cmd1] 4 c1 "1.prems"(1) by auto
      show ?thesis
      proof (cases "p' \<ge> len")
        case True
        then show ?thesis using st c1 \<open>p < len\<close> 4 sk "1.prems" by (subst split_loop.simps) simp
      next
        case False
        then show ?thesis
          using "1.IH"(2) [OF \<open>p < len\<close> st(1) refl _ _ 4(3) sk(1)] st c1 \<open>p < len\<close> 4 sk "1.prems"
          by (subst split_loop.simps) simp
      qed
    qed
  next
    case False
    then show ?thesis using "1.prems" by (subst split_loop.simps) simp
  qed
qed

section \<open>The calls among the events\<close>

fun calls :: "shell_event list \<Rightarrow> (nat \<times> string list) list" where
  "calls [] = []"
| "calls (Out t # es) = calls es"
| "calls (Call i as # es) = (i, as) # calls es"

lemma calls_append [simp]: "calls (a @ b) = calls a @ calls b"
  by (induction a rule: calls.induct) auto

lemma calls_kout [simp]: "calls (kout t) = []"
  by (simp add: kout_def)

lemma calls_kouts [simp]: "calls (concat (map (\<lambda>x. kout (f x)) xs)) = []"
  by (induction xs) auto

section \<open>The arguments\<close>

lemma takeWhile_unread_set: "c \<in> set (takeWhile P t) \<Longrightarrow> c \<in> set t"
  by (rule set_takeWhileD [THEN conjunct1])

text \<open>An argument that starts at \<open>q\<close>, ends at \<open>e\<close> and is followed by a NUL.\<close>

lemma str_at_unread:
  assumes "take e cmd' = take e cmd" "cmd' ! e = NUL" "e < length cmd'" "length cmd' = length cmd" "e \<le> len" "len < length cmd"
    and "NUL \<notin> set (unread cmd len q)" "q \<le> e" "w = take (e - q) (unread cmd len q)"
  shows "str_at cmd' q = w"
proof (rule str_at_eq)
  have w: "w = take (e - q) (drop q cmd)" using assms(5,8,9) by (simp add: unread_def min_def)
  have L: "length w = e - q" using w assms(3,4) by simp
  have "take (e - q) (drop q cmd') = drop q (take e cmd')" by (simp add: drop_take)
  then show "take (length w) (drop q cmd') = w" using assms(1) L w by (simp add: drop_take)
  show "NUL \<notin> set w" using assms(7,9) set_take_subset by fastforce
  show "q + length w < length cmd'" "cmd' ! (q + length w) = NUL" using L assms(2,3,8) by simp_all
qed

lemma split_args_blanks: "split_args t = split_args (dropWhile blank t)"
  by (subst (1 2) split_args.simps) simp

lemma split_args_word:
  "\<not> blank c \<Longrightarrow> c \<noteq> CHR 0x22 \<Longrightarrow>
   split_args (c # cs) = takeWhile (\<lambda>d. \<not> blank d) (c # cs) # split_args (dropWhile (\<lambda>d. \<not> blank d) (c # cs))"
  by (subst split_args.simps) simp

lemma split_args_string: "split_args (CHR 0x22 # cs) = fst (quoted cs) # split_args (snd (quoted cs))"
  by (subst split_args.simps) (simp add: blank_def split: prod.splits)

lemma split_args_Nil [simp]: "split_args [] = []"
  by (subst split_args.simps) simp

text \<open>What a run of the loop from position \<open>p\<close> does: it adds the positions \<open>new\<close> and changes the memory to
  \<open>cmd'\<close>.\<close>

definition splits_to :: "nat \<Rightarrow> nat \<Rightarrow> string \<Rightarrow> nat \<Rightarrow> nat list \<Rightarrow> string \<Rightarrow> bool" where
  "splits_to n len cmd p new cmd' \<longleftrightarrow>
     length cmd' = length cmd \<and> take p cmd' = take p cmd \<and> (p < len \<and> blank (cmd ! p) \<longrightarrow> cmd' ! p = NUL) \<and>
     cmd' ! len = NUL \<and> map (str_at cmd') new = take n (split_args (unread cmd len p))"

lemma splits_to_arg:
  assumes "splits_to n len cmd2 r new cmd'" "e < r \<and> cmd2 ! e = NUL \<or> e = r \<and> r < len \<and> blank (cmd2 ! e)"
    and "length cmd2 = length cmd1" "take e cmd2 = take e cmd1" "e < len" "len < length cmd1" "q \<le> e"
    and "NUL \<notin> set (unread cmd1 len q)"
    and "split_args (unread cmd1 len q0) = take (e - q) (unread cmd1 len q) # split_args (unread cmd2 len r)"
    and "q0 \<le> q" "blank (cmd1 ! q0) \<longrightarrow> q0 = len"
  shows "splits_to (Suc n) len cmd1 q0 (q # new) cmd'"
proof -
  have t: "take r cmd' = take r cmd2" "length cmd' = length cmd2" using assms(1) by (simp_all add: splits_to_def)
  have te: "take e cmd' = take e cmd1"
    using t(1) assms(2,4) by (metis min.absorb1 nless_le take_take)
  have "cmd' ! e = NUL"
  proof (cases "e < r")
    case True
    then show ?thesis using t assms(2) by (metis nth_take nless_le)
  next
    case False
    then show ?thesis using assms(1,2) by (auto simp: splits_to_def)
  qed
  then have "str_at cmd' q = take (e - q) (unread cmd1 len q)"
    using te t assms by (intro str_at_unread [of e _ cmd1 len]) simp_all
  moreover have "take q0 cmd' = take q0 cmd1"
    using te assms(7,10) by (metis (no_types, lifting) le_trans min.absorb1 take_take)
  ultimately show ?thesis
    using assms(1,3,9,11) by (auto simp: splits_to_def)
qed

lemma strip_blanks_split:
  assumes "len < length cmd" "p < len" "cmd ! len = NUL" "NUL \<notin> set (unread cmd len p)" "nul_at_end cmd"
  obtains cmd1 q where "strip_blanks len cmd p = Some (cmd1, q)" "q \<le> len" "length cmd1 = length cmd" "nul_at_end cmd1"
    "cmd1 ! len = NUL" "NUL \<notin> set (unread cmd1 len q)" "q < len \<longrightarrow> \<not> blank (cmd1 ! q)"
    "\<And>n new cmd'. splits_to n len cmd1 q new cmd' \<Longrightarrow> splits_to n len cmd p new cmd'"
proof -
  define t where "t = unread cmd len p"
  define k where "k = length (takeWhile blank t)"
  define cmd1 where "cmd1 = memcpy_at cmd p (replicate k NUL)"
  have lt: "length t = len - p" using assms(1) by (simp add: t_def length_unread)
  then have kl: "p + k \<le> len" using length_takeWhile_le [of blank t] assms(2) by (simp add: k_def)
  have st: "strip_blanks len cmd p = Some (cmd1, p + k)"
    using strip_blanks_text [of len cmd p t] assms(1,2) by (simp add: t_def k_def cmd1_def)
  have L: "length cmd1 = length cmd" using kl assms(1) by (simp add: cmd1_def)
  have d1: "drop (p + k) cmd1 = drop (p + k) cmd" using kl assms(1,2) by (simp add: cmd1_def memcpy_at_def)
  have u: "unread cmd1 len (p + k) = dropWhile blank t"
    using unread_cong [OF d1] by (simp add: unread_drop t_def [symmetric] k_def dropWhile_eq_drop)
  have tk: "take p cmd1 = take p cmd" using assms(1,2) by (simp add: cmd1_def memcpy_at_def)
  have "drop (p + k) cmd1 ! (len - (p + k)) = drop (p + k) cmd ! (len - (p + k))" using d1 by simp
  then have "cmd1 ! len = NUL" using kl assms(1,3) L by simp
  moreover have "nul_at_end cmd1" using strip_blanks_in [OF _ assms(1,5), of p] assms(2) st by auto
  moreover have "NUL \<notin> set (unread cmd1 len (p + k))"
    using assms(4) u set_dropWhileD [of NUL blank t] by (auto simp: t_def)
  moreover have "p + k < len \<longrightarrow> \<not> blank (cmd1 ! (p + k))"
  proof
    assume a: "p + k < len"
    then have "length (unread cmd1 len (p + k)) \<noteq> 0" using assms(1) L by (simp add: length_unread)
    then have "dropWhile blank t \<noteq> []" using u by simp
    then show "\<not> blank (cmd1 ! (p + k))" using u unread_Cons(3) [of cmd1 len "p + k"] hd_dropWhile [of blank t]
      by (metis list.collapse)
  qed
  moreover have "splits_to n len cmd p new cmd'" if "splits_to n len cmd1 (p + k) new cmd'" for n new cmd'
  proof -
    have tq: "take (p + k) cmd' = take (p + k) cmd1" using that by (simp add: splits_to_def)
    then have "take p cmd' = take p cmd" using tk by (metis le_add1 min.absorb1 take_take)
    moreover have "cmd' ! p = NUL" if "blank (cmd ! p)"
    proof -
      have "unread cmd len p = cmd ! p # unread cmd len (Suc p)"
        using lt assms(2) unread_Cons(3,4) [of cmd len p] t_def by (metis length_0_conv list.collapse zero_less_diff less_irrefl)
      then have "0 < k" using that by (simp add: k_def t_def)
      then have "cmd' ! p = cmd1 ! p" using tq by (metis add.right_neutral add_less_cancel_left nth_take)
      also have "\<dots> = NUL" using \<open>0 < k\<close> kl assms(1) by (simp add: cmd1_def nth_memcpy_at)
      finally show ?thesis .
    qed
    ultimately show ?thesis
      using that u L split_args_blanks [of t] by (simp add: splits_to_def t_def)
  qed
  ultimately show ?thesis using that [OF st kl L] by blast
qed

lemma splits_to_last:
  assumes "cmd1 ! len = NUL" "len < length cmd1" "NUL \<notin> set (unread cmd1 len q)" "q0 \<le> q" "q \<le> len" "\<not> blank (cmd1 ! q0)"
    and "split_args (unread cmd1 len q0) = [unread cmd1 len q]"
  shows "splits_to (Suc n) len cmd1 q0 [q] cmd1"
proof -
  have "str_at cmd1 q = unread cmd1 len q"
    using assms by (intro str_at_unread [of len _ cmd1 len]) (simp_all add: length_unread)
  then show ?thesis using assms by (simp add: splits_to_def)
qed

lemma unread_here: "p < len \<Longrightarrow> len < length cmd \<Longrightarrow> unread cmd len p = cmd ! p # unread cmd len (Suc p)"
  by (cases "unread cmd len p") (auto dest: unread_Cons unread_Nil)

text \<open>The strings of \<^verbatim>\<open>argv\<close> are the first ten arguments.\<close>

lemma split_loop_args:
  assumes "len < length cmd" "p \<le> len" "cmd ! len = NUL" "NUL \<notin> set (unread cmd len p)" "nul_at_end cmd"
    "\<forall>q \<in> set argv. q < length cmd"
  shows "\<exists>new cmd' out. split_loop len argv cmd p = Some (argv @ new, cmd', out) \<and> calls out = [] \<and>
    nul_at_end cmd' \<and> (\<forall>q \<in> set new. q < length cmd) \<and> splits_to (FINSH_ARG_MAX - length argv) len cmd p new cmd'"
  using assms
proof (induction len argv cmd p rule: split_loop.induct)
  case (1 len argv cmd p)
  show ?case
  proof (cases "p < len")
    case pl: True
    obtain cmd1 q where st: "strip_blanks len cmd p = Some (cmd1, q)" "q \<le> len" "length cmd1 = length cmd" "nul_at_end cmd1"
      and c1: "cmd1 ! len = NUL" "NUL \<notin> set (unread cmd1 len q)" "q < len \<longrightarrow> \<not> blank (cmd1 ! q)"
      and sp: "\<And>n new cmd'. splits_to n len cmd1 q new cmd' \<Longrightarrow> splits_to n len cmd p new cmd'"
      using strip_blanks_split [OF "1.prems"(1) pl "1.prems"(3,4,5)] by blast
    have stop: "splits_to n len cmd1 q [] cmd1" if "n = 0 \<or> q = len" for n
      using that c1 st(2) by (auto simp: splits_to_def unread_def)
    consider "length argv \<ge> FINSH_ARG_MAX" | "length argv < FINSH_ARG_MAX" "q \<ge> len"
      | "length argv < FINSH_ARG_MAX" "q < len" "cmd1 ! q = CHR 0x22"
      | "length argv < FINSH_ARG_MAX" "q < len" "cmd1 ! q \<noteq> CHR 0x22" by linarith
    then show ?thesis
    proof cases
      case 1
      have "argv_strings cmd1 argv = Some (map (str_at cmd1) argv)"
        using argv_strings_Some [of argv cmd1] "1.prems"(6) st by auto
      then show ?thesis using st pl 1 sp [OF stop [of 0]]
        by (subst split_loop.simps) (simp add: too_many_args_def comp_def)
    next
      case 2
      then show ?thesis using st pl sp [OF stop [of "FINSH_ARG_MAX - length argv"]] by (subst split_loop.simps) simp
    next
      case 3
      define cs where "cs = unread cmd1 len (Suc q)"
      define e where "e = Suc q + length (fst (quoted cs))"
      obtain a r where ar: "quoted cs = (a, r)" by fastforce
      have u: "unread cmd1 len q = CHR 0x22 # cs"
        using unread_here [of q len cmd1] 3 st(3) "1.prems"(1) by (simp add: cs_def)
      have lc: "length cs = len - Suc q" using length_unread [of len cmd1 "Suc q"] "1.prems"(1) st(3) by (simp add: cs_def)
      have nul: "NUL \<notin> set cs" using c1(2) u by simp
      have sa: "split_args (unread cmd1 len q) = a # split_args r" by (simp add: u split_args_string ar)
      have sk: "skip_string len cmd1 (Suc q) = Some e"
        using skip_string_text [of len cmd1 "Suc q" cs] 3 "1.prems"(1) st(3) c1(1) by (simp add: cs_def e_def)
      show ?thesis
      proof (cases "e \<ge> len")
        case True
        then have "cs = a \<and> r = []" using quoted_split [OF ar] lc ar by (auto simp: e_def)
        then have "splits_to (Suc n) len cmd1 q [Suc q] cmd1" for n
          using 3 c1 st nul sa "1.prems"(1) by (intro splits_to_last) (simp_all add: cs_def blank_def)
        then have "splits_to (FINSH_ARG_MAX - length argv) len cmd p [Suc q] cmd1"
          using sp 3(1) by (metis Suc_diff_Suc)
        then show ?thesis using st pl 3 sk True "1.prems"(1) by (subst split_loop.simps) simp
      next
        case False
        then have csr: "cs = a @ CHR 0x22 # r" using quoted_split [OF ar] lc ar by (auto simp: e_def)
        define cmd2 where "cmd2 = cmd1[e := NUL]"
        have e: "e < len" "length cmd2 = length cmd" "cmd2 ! e = NUL" "cmd2 ! len = NUL" "nul_at_end cmd2"
          using False st "1.prems"(1) c1 by (simp_all add: cmd2_def nul_at_end_update)
        have ur: "unread cmd2 len (Suc e) = r"
        proof -
          have "unread cmd2 len (Suc e) = unread cmd1 len (Suc e)" by (simp add: cmd2_def unread_def)
          also have "\<dots> = drop (Suc (length a)) cs"
            using unread_drop [of cmd1 len "Suc q" "Suc (length a)"] ar by (simp add: e_def cs_def)
          finally show ?thesis by (simp add: csr)
        qed
        obtain new cmd' out where run: "split_loop len (argv @ [Suc q]) cmd2 (Suc e) = Some ((argv @ [Suc q]) @ new, cmd', out)"
          "calls out = []" "nul_at_end cmd'" "\<forall>q \<in> set new. q < length cmd2"
          and sn: "splits_to (FINSH_ARG_MAX - length (argv @ [Suc q])) len cmd2 (Suc e) new cmd'"
          using "1.IH"(1) [OF pl st(1) refl _ _ 3(3) sk] 3 e False ur nul csr "1.prems"(1,6) st(3) by (auto simp: cmd2_def)
        have "splits_to (Suc (FINSH_ARG_MAX - length (argv @ [Suc q]))) len cmd1 q (Suc q # new) cmd'"
        proof (rule splits_to_arg [OF sn])
          show "split_args (unread cmd1 len q) = take (e - Suc q) (unread cmd1 len (Suc q)) # split_args (unread cmd2 len (Suc e))"
            using sa ur csr ar by (simp add: cs_def [symmetric] e_def)
        qed (use e c1 st nul 3 "1.prems"(1) in \<open>simp_all add: cs_def cmd2_def e_def blank_def\<close>)
        moreover have "Suc (FINSH_ARG_MAX - length (argv @ [Suc q])) = FINSH_ARG_MAX - length argv" using 3(1) by simp
        ultimately have "splits_to (FINSH_ARG_MAX - length argv) len cmd p (Suc q # new) cmd'"
          using sp by simp
        then show ?thesis using st pl 3 sk False run e "1.prems"(1)
          by (subst split_loop.simps) (simp add: cmd2_def [symmetric])
      qed
    next
      case 4
      define t where "t = unread cmd1 len q"
      define e where "e = q + length (takeWhile (\<lambda>c. \<not> blank c) t)"
      have th: "t = cmd1 ! q # unread cmd1 len (Suc q)"
        using unread_here [of q len cmd1] 4 st(3) "1.prems"(1) by (simp add: t_def)
      have lt: "length t = len - q" using length_unread [of len cmd1 q] "1.prems"(1) st(3) by (simp add: t_def)
      have sa: "split_args t = takeWhile (\<lambda>c. \<not> blank c) t # split_args (dropWhile (\<lambda>c. \<not> blank c) t)"
        unfolding th by (rule split_args_word) (use c1(3) 4 in simp_all)
      have sk: "skip_word len cmd1 q = Some e"
        using skip_word_text [of len cmd1 q t] 4 "1.prems"(1) st by (simp add: t_def e_def)
      show ?thesis
      proof (cases "e \<ge> len")
        case True
        then have "length (takeWhile (\<lambda>c. \<not> blank c) t) = length t"
          using length_takeWhile_le [of "\<lambda>c. \<not> blank c" t] lt by (simp add: e_def)
        then have "takeWhile (\<lambda>c. \<not> blank c) t = t" "dropWhile (\<lambda>c. \<not> blank c) t = []"
          by (metis takeWhile_eq_take take_all order_refl, simp add: dropWhile_eq_drop)
        then have "split_args t = [t]" using sa by (simp only: split_args_Nil)
        then have "splits_to (Suc n) len cmd1 q [q] cmd1" for n
          using 4 c1 st "1.prems"(1) by (intro splits_to_last) (simp_all add: t_def)
        then have "splits_to (FINSH_ARG_MAX - length argv) len cmd p [q] cmd1"
          using sp 4(1) by (metis Suc_diff_Suc)
        then show ?thesis using st pl 4 sk True "1.prems"(1) by (subst split_loop.simps) simp
      next
        case False
        have ur: "unread cmd1 len e = dropWhile (\<lambda>c. \<not> blank c) t"
          using unread_drop [of cmd1 len q] by (simp add: e_def t_def [symmetric] dropWhile_eq_drop)
        have be: "blank (cmd1 ! e)"
        proof -
          have "dropWhile (\<lambda>c. \<not> blank c) t = cmd1 ! e # unread cmd1 len (Suc e)"
            using unread_here [of e len cmd1] ur False st(3) "1.prems"(1) by simp
          then show ?thesis using hd_dropWhile [of "\<lambda>c. \<not> blank c" t] by simp
        qed
        have nul: "NUL \<notin> set (unread cmd1 len e)"
          using c1(2) set_dropWhileD by (fastforce simp: ur t_def)
        obtain new cmd' out where run: "split_loop len (argv @ [q]) cmd1 e = Some ((argv @ [q]) @ new, cmd', out)"
          "calls out = []" "nul_at_end cmd'" "\<forall>q \<in> set new. q < length cmd1"
          and sn: "splits_to (FINSH_ARG_MAX - length (argv @ [q])) len cmd1 e new cmd'"
          using "1.IH"(2) [OF pl st(1) refl _ _ 4(3) sk] 4 False nul c1 "1.prems"(1,6) st by auto
        have "splits_to (Suc (FINSH_ARG_MAX - length (argv @ [q]))) len cmd1 q (q # new) cmd'"
        proof (rule splits_to_arg [OF sn])
          show "split_args (unread cmd1 len q) = take (e - q) (unread cmd1 len q) # split_args (unread cmd1 len e)"
            using sa ur by (simp add: t_def [symmetric] e_def takeWhile_eq_take [symmetric])
        qed (use c1 st 4 False be "1.prems"(1) in \<open>simp_all add: e_def\<close>)
        moreover have "Suc (FINSH_ARG_MAX - length (argv @ [q])) = FINSH_ARG_MAX - length argv" using 4(1) by simp
        ultimately have "splits_to (FINSH_ARG_MAX - length argv) len cmd p (q # new) cmd'"
          using sp by simp
        then show ?thesis using st pl 4 sk False run "1.prems"(1)
          by (subst split_loop.simps) simp
      qed
    qed
  next
    case False
    then show ?thesis using "1.prems" by (subst split_loop.simps) (simp add: splits_to_def unread_def)
  qed
qed

lemma msh_split_args:
  assumes "len < length cmd" "cmd ! len = NUL" "NUL \<notin> set (take len cmd)" "nul_at_end cmd"
  shows "\<exists>argv cmd' out. msh_split cmd len = Some (argv, cmd', out) \<and> calls out = [] \<and>
    argv_strings cmd' argv = Some (take FINSH_ARG_MAX (split_args (take len cmd)))"
proof -
  have "unread cmd len 0 = take len cmd" by (simp add: unread_def)
  then obtain new cmd' out where "split_loop len [] cmd 0 = Some (new, cmd', out)" "calls out = []" "nul_at_end cmd'"
    "\<forall>q \<in> set new. q < length cmd" "splits_to FINSH_ARG_MAX len cmd 0 new cmd'"
    using split_loop_args [of len cmd 0 "[]"] assms by auto
  then show ?thesis
    using argv_strings_Some [of new cmd'] \<open>unread cmd len 0 = take len cmd\<close> by (auto simp: msh_split_def splits_to_def)
qed

lemma msh_split_in:
  assumes "len < length cmd" "nul_at_end cmd"
  shows "\<exists>argv cmd' out as. msh_split cmd len = Some (argv, cmd', out) \<and> length cmd' = length cmd \<and> nul_at_end cmd' \<and>
    argv_strings cmd' argv = Some as"
proof -
  have "0 < length cmd" using assms(1) by linarith
  then obtain argv cmd' out where "split_loop len [] cmd 0 = Some (argv, cmd', out)" "length cmd' = length cmd" "nul_at_end cmd'"
    "\<forall>q \<in> set argv. q < length cmd"
    using split_loop_in [OF assms, of 0 "[]"] by auto
  then show ?thesis using argv_strings_Some [of argv cmd'] by (auto simp: msh_split_def)
qed

end
