(* ===== verification/Shell_Edit.thy ===== *)
theory Shell_Edit
  imports Shell_Split "HOL-Library.Sublist"
begin

text \<open>
  The specification of the shell: an editor whose state is the text before and after the cursor and the last
  five lines, and which runs a line as a name and a list of arguments. The shell implements it
  step by step as long as no line has eighty characters.
\<close>

section \<open>The editor\<close>

record editor =
  ed_stat :: input_stat
  ed_left :: string
  ed_right :: string
  ed_hist :: "string list"
  ed_pos :: nat

definition ed_text :: "editor \<Rightarrow> string" where
  "ed_text e = ed_left e @ ed_right e"

definition ed_set :: "string \<Rightarrow> string \<Rightarrow> editor \<Rightarrow> editor" where
  "ed_set l r e = e\<lparr>ed_left := l, ed_right := r\<rparr>"

definition ed_recall :: "nat \<Rightarrow> editor \<Rightarrow> editor" where
  "ed_recall i e = ed_set (ed_hist e ! i) [] (e\<lparr>ed_pos := i\<rparr>)"

text \<open>A line is remembered unless it is empty or the last one again.\<close>

definition remember :: "string list \<Rightarrow> string \<Rightarrow> string list" where
  "remember h t =
     (if t = [] \<or> (h \<noteq> [] \<and> last h = t) then h else if length h < FINSH_HISTORY_LINES then h @ [t] else tl h @ [t])"

fun lookup :: "finsh_syscall list \<Rightarrow> string \<Rightarrow> nat option" where
  "lookup [] w = None"
| "lookup (x # tab) w = (if syscall_name x = w then Some 0 else map_option Suc (lookup tab w))"

text \<open>The command a line runs, with its arguments.\<close>

definition command :: "finsh_syscall list \<Rightarrow> string \<Rightarrow> (nat \<times> string list) list" where
  "command tab t = (let u = dropWhile blank t in
     if u = [] then []
     else case lookup tab (takeWhile (\<lambda>c. \<not> blank c) u) of
       None \<Rightarrow> []
     | Some i \<Rightarrow> [(i, take FINSH_ARG_MAX (split_args u))])"

text \<open>A text is completed to the longest common prefix of the names that start with it.\<close>

definition complete :: "finsh_syscall list \<Rightarrow> string \<Rightarrow> string" where
  "complete tab t =
     (if t = [] then t
      else case filter (prefix t) (map syscall_name tab) of [] \<Rightarrow> t | n # ns \<Rightarrow> foldl longest_common_prefix n ns)"

definition ed_plain :: "finsh_syscall list \<Rightarrow> char \<Rightarrow> editor \<Rightarrow> editor \<times> (nat \<times> string list) list" where
  "ed_plain tab ch e =
     (if ch = NUL \<or> ch = CHR 0xFF then (e, [])
      else if ch = CHR 0x09 then (ed_set (complete tab (ed_text e)) [] e, [])
      else if ch = CHR 0x7F \<or> ch = CHR 0x08 then (if ed_left e = [] then e else ed_set (butlast (ed_left e)) (ed_right e) e, [])
      else if ch = CHR 0x0D \<or> ch = CHR 0x0A then
        (let h = remember (ed_hist e) (ed_text e)
         in (ed_set [] [] (e\<lparr>ed_hist := h, ed_pos := length h\<rparr>), command tab (ed_text e)))
      else (ed_set (ed_left e @ [ch]) (ed_right e) e, []))"

definition ed_func :: "char \<Rightarrow> editor \<Rightarrow> editor" where
  "ed_func ch e =
     (if ch = CHR 0x41 then if ed_pos e > 0 then ed_recall (ed_pos e - 1) e else e
      else if ch = CHR 0x42 then
        if ed_hist e = [] then e else ed_recall (min (ed_pos e + 1) (length (ed_hist e) - 1)) e
      else if ch = CHR 0x44 then
        if ed_left e = [] then e else ed_set (butlast (ed_left e)) (last (ed_left e) # ed_right e) e
      else if ed_right e = [] then e else ed_set (ed_left e @ [hd (ed_right e)]) (tl (ed_right e)) e)"

definition ed_key :: "finsh_syscall list \<Rightarrow> char option \<Rightarrow> editor \<Rightarrow> editor \<times> (nat \<times> string list) list" where
  "ed_key tab inp e =
     (case inp of
        None \<Rightarrow> (e, [])
      | Some ch \<Rightarrow>
          if ch = CHR 0x1B then (e\<lparr>ed_stat := WAIT_SPEC_KEY\<rparr>, [])
          else if ed_stat e = WAIT_SPEC_KEY \<and> ch = CHR 0x5B then (e\<lparr>ed_stat := WAIT_FUNC_KEY\<rparr>, [])
          else if ed_stat e = WAIT_FUNC_KEY \<and> ch \<in> {CHR 0x41, CHR 0x42, CHR 0x43, CHR 0x44}
          then (ed_func ch (e\<lparr>ed_stat := WAIT_NORMAL\<rparr>), [])
          else ed_plain tab ch (e\<lparr>ed_stat := WAIT_NORMAL\<rparr>))"

text \<open>The lines stay below eighty characters.\<close>

fun ed_fits :: "finsh_syscall list \<Rightarrow> char option list \<Rightarrow> editor \<Rightarrow> bool" where
  "ed_fits tab [] e = True"
| "ed_fits tab (x # xs) e =
     (length (ed_text (fst (ed_key tab x e))) < FINSH_CMD_SIZE \<and> ed_fits tab xs (fst (ed_key tab x e)))"

fun ed_keys :: "finsh_syscall list \<Rightarrow> char option list \<Rightarrow> editor \<Rightarrow> editor \<times> (nat \<times> string list) list" where
  "ed_keys tab [] e = (e, [])"
| "ed_keys tab (x # xs) e =
     (let (e, c) = ed_key tab x e; (e, c') = ed_keys tab xs e in (e, c @ c'))"

section \<open>How the shell represents an editor\<close>

definition padded :: "nat \<Rightarrow> string \<Rightarrow> string" where
  "padded n t = t @ replicate (n - length t) NUL"

definition line_text :: "string \<Rightarrow> bool" where
  "line_text t \<longleftrightarrow> length t < FINSH_CMD_SIZE \<and> NUL \<notin> set t"

definition shell_is :: "finsh_shell \<Rightarrow> editor \<Rightarrow> bool" where
  "shell_is s e \<longleftrightarrow>
     shell_stat s = ed_stat e \<and> finsh_get_prompt s \<noteq> None \<and>
     line_text (ed_text e) \<and> line s = padded (FINSH_CMD_SIZE + 1) (ed_text e) \<and>
     line_position s = of_nat (length (ed_text e)) \<and> line_curpos s = of_nat (length (ed_left e)) \<and>
     length (ed_hist e) \<le> FINSH_HISTORY_LINES \<and> history_count s = of_nat (length (ed_hist e)) \<and>
     ed_pos e \<le> length (ed_hist e) \<and> current_history s = of_nat (ed_pos e) \<and>
     length (cmd_history s) = FINSH_HISTORY_LINES \<and>
     take (length (ed_hist e)) (cmd_history s) = map (padded FINSH_CMD_SIZE) (ed_hist e) \<and>
     (\<forall>t \<in> set (ed_hist e). line_text t)"

lemma finsh_get_prompt_upd [simp]:
  "finsh_get_prompt (s\<lparr>shell_stat := x\<rparr>) = finsh_get_prompt s" "finsh_get_prompt (s\<lparr>line := l\<rparr>) = finsh_get_prompt s"
  "finsh_get_prompt (s\<lparr>line_position := n\<rparr>) = finsh_get_prompt s" "finsh_get_prompt (s\<lparr>line_curpos := n\<rparr>) = finsh_get_prompt s"
  "finsh_get_prompt (s\<lparr>current_history := n\<rparr>) = finsh_get_prompt s" "finsh_get_prompt (s\<lparr>history_count := n\<rparr>) = finsh_get_prompt s"
  "finsh_get_prompt (s\<lparr>cmd_history := h\<rparr>) = finsh_get_prompt s" "finsh_get_prompt (s\<lparr>echo_mode := b\<rparr>) = finsh_get_prompt s"
  by (simp_all add: finsh_get_prompt_def)

lemma u16_small: "n < 65536 \<Longrightarrow> unat (of_nat n :: 16 word) = n"
  by (simp add: unat_of_nat take_bit_eq_mod)

lemma takeWhile_NUL: "NUL \<notin> set t \<Longrightarrow> takeWhile (\<lambda>c. c \<noteq> NUL) (t @ replicate n NUL) = t"
  by (subst takeWhile_append2) auto

lemma cstr_padded: "length t < n \<Longrightarrow> NUL \<notin> set t \<Longrightarrow> cstr (padded n t) = Some t"
  by (simp add: cstr_def padded_def takeWhile_NUL)

lemma cstr_drop_padded: "length l + length r < n \<Longrightarrow> NUL \<notin> set r \<Longrightarrow> cstr (drop (length l) (padded n (l @ r))) = Some r"
  by (simp add: cstr_def padded_def takeWhile_NUL)

lemma length_padded [simp]: "length (padded n t) = max n (length t)"
  by (simp add: padded_def)

lemma padded_Nil: "padded n [] = replicate n NUL"
  by (simp add: padded_def)

lemma padded_inj: "padded n t = padded n u \<Longrightarrow> line_text t \<Longrightarrow> line_text u \<Longrightarrow> FINSH_CMD_SIZE \<le> n \<Longrightarrow> t = u"
  by (metis cstr_padded line_text_def option.inject order_less_le_trans)

section \<open>Editing keys\<close>

lemma insert_chars: "(memcpy_at (l @ r @ y # z) (Suc (length l)) r)[length l := ch] = l @ ch # r @ z"
proof -
  obtain x v where xv: "r @ y # z = x # v" by (cases "r @ y # z") auto
  have "take (Suc (length l)) (l @ r @ y # z) = l @ [x]" using xv by simp
  moreover have "drop (Suc (length l) + length r) (l @ r @ y # z) = z" by simp
  ultimately have "memcpy_at (l @ r @ y # z) (Suc (length l)) r = l @ x # r @ z"
    unfolding memcpy_at_def by (simp only: append_assoc append_Cons append_Nil)
  then show ?thesis by simp
qed

lemma normal_key_mem:
  assumes "line s = l @ r @ y # z" "line_position s = of_nat (length (l @ r))" "line_curpos s = of_nat (length l)"
    and "length l + length r < FINSH_CMD_SIZE" "NUL \<in> set z"
  shows "normal_key ch s =
    Some (if length l + length r + 1 < FINSH_CMD_SIZE
          then s\<lparr>line := l @ ch # r @ z, line_position := of_nat (length (l @ ch # r)), line_curpos := of_nat (length (l @ [ch]))\<rparr>
          else s\<lparr>line := l @ ch # r @ z, line_position := 0, line_curpos := 0\<rparr>,
          (if echo_mode s then kout (if r = [] then [ch] else takeWhile (\<lambda>c. c \<noteq> NUL) (ch # r @ z)) else []) @ backspaces (length r))"
proof -
  have p: "unat (line_position s) = length l + length r" "unat (line_curpos s) = length l"
    using assms(2,3,4) by (auto simp: u16_small simp del: of_nat_add)
  have p1: "line_position s + 1 = of_nat (length l + length r + 1)" using assms(2) by simp
  have u1: "unat (line_position s + 1) = length l + length r + 1" unfolding p1 using assms(4) by (intro u16_small) simp
  show ?thesis
  proof (cases "r = []")
    case True
    then have "\<not> line_curpos s < line_position s" using assms by simp
    then show ?thesis
      using True p u1 assms by (simp add: normal_key_def store_char_def backspaces_def Let_def add.commute)
  next
    case False
    then have lt: "line_curpos s < line_position s" using p by (simp add: word_less_nat_alt)
    have d: "unat (line_position s - line_curpos s) = length r"
      using lt p by (simp add: unat_sub order.strict_implies_order)
    have tk: "take (length r) (drop (length l) (line s)) = r" using assms(1) by simp
    have "cstr (drop (length l) (l @ ch # r @ z)) = Some (takeWhile (\<lambda>c. c \<noteq> NUL) (ch # r @ z))"
      using assms(5) by (simp add: cstr_def)
    then show ?thesis
      using p u1 lt d tk False assms insert_chars [of l r y z ch]
      by (simp add: normal_key_def store_char_def move_chars_def Let_def add.commute)
  qed
qed

lemma padded_split: "length (l @ r) < n \<Longrightarrow> padded n (l @ r) = l @ r @ NUL # replicate (n - length (l @ r) - 1) NUL"
  by (cases "n - length (l @ r)") (auto simp: padded_def)

lemma normal_key_text:
  assumes "line s = padded (FINSH_CMD_SIZE + 1) (l @ r)" "line_position s = of_nat (length (l @ r))" "line_curpos s = of_nat (length l)"
    and "length l + length r + 1 < FINSH_CMD_SIZE" "NUL \<notin> set r" "ch \<noteq> NUL"
  shows "normal_key ch s =
    Some (s\<lparr>line := padded (FINSH_CMD_SIZE + 1) (l @ ch # r), line_position := of_nat (length (l @ ch # r)),
            line_curpos := of_nat (length (l @ [ch]))\<rparr>,
          (if echo_mode s then kout (ch # r) else []) @ backspaces (length r))"
proof -
  let ?z = "replicate (80 - (length l + length r)) NUL"
  have z: "NUL \<in> set ?z" using assms(4) by simp
  have ln: "line s = l @ r @ NUL # ?z" using assms(1,4) padded_split [of l r 81] by simp
  have "takeWhile (\<lambda>c. c \<noteq> NUL) ((ch # r) @ ?z) = ch # r" using assms(5,6) by (intro takeWhile_NUL) auto
  moreover have "padded 81 (l @ ch # r) = l @ ch # r @ ?z" by (simp add: padded_def)
  moreover have "length l + length r < FINSH_CMD_SIZE" using assms(4) by simp
  ultimately show ?thesis using normal_key_mem [OF ln assms(2,3) _ z, of ch] assms(4) by (cases r) simp_all
qed

lemma delete_char: "(memcpy_at (l @ x # r @ z) (length l) r)[length l + length r := NUL] = l @ r @ NUL # z"
proof -
  obtain y where y: "drop (length r) (x # r) = [y]"
    by (cases "drop (length r) (x # r)") (auto dest: arg_cong [of _ _ length])
  have "drop (length l + length r) (l @ x # r @ z) = drop (length r) ((x # r) @ z)" by simp
  also have "\<dots> = y # z" unfolding drop_append y by simp
  finally have "memcpy_at (l @ x # r @ z) (length l) r = l @ r @ y # z" unfolding memcpy_at_def by simp
  then show ?thesis by (simp add: list_update_append)
qed

lemma backspace_key_mem:
  assumes "line s = l @ x # r @ z" "line_position s = of_nat (length (l @ x # r))"
    and "line_curpos s = of_nat (length (l @ [x]))" "length l + length r + 1 < FINSH_CMD_SIZE" "NUL \<notin> set r"
  shows "backspace_key s =
    Some (s\<lparr>line := l @ r @ NUL # z, line_position := of_nat (length (l @ r)), line_curpos := of_nat (length l)\<rparr>,
          if r = [] then kout [CHR 0x08, CHR '' '', CHR 0x08]
          else kout ([CHR 0x08] @ r @ ''  '' @ [CHR 0x08]) @ backspaces (length r + 1))"
proof -
  have c0: "line_curpos s \<noteq> 0" using assms(3,4) u16_small [of "Suc (length l)"] by auto
  have p1: "line_position s - 1 = of_nat (length l + length r)" "line_curpos s - 1 = of_nat (length l)" using assms(2,3) by simp_all
  have u: "unat (of_nat (length l + length r) :: 16 word) = length l + length r" "unat (of_nat (length l) :: 16 word) = length l"
    using assms(4) by (auto intro!: u16_small simp del: of_nat_add)
  show ?thesis
  proof (cases "r = []")
    case True
    then show ?thesis using c0 p1 u assms(1,2,3)
      by (simp add: backspace_key_def store_char_def Let_def)
  next
    case False
    then have lt: "(of_nat (length l) :: 16 word) < of_nat (length l + length r)" using u by (simp only: word_less_nat_alt) simp
    have d: "unat (of_nat (length l + length r) - of_nat (length l) :: 16 word) = length r"
      using lt u by (simp only: unat_sub order.strict_implies_order)
    have tk: "take (length r) (drop (Suc (length l)) (line s)) = r" using assms(1) by simp
    have "takeWhile (\<lambda>c. c \<noteq> NUL) (r @ NUL # z) = r" using assms(5) by (subst takeWhile_append2) auto
    then have "cstr (drop (length l) (l @ r @ NUL # z)) = Some r" by (simp add: cstr_def)
    then show ?thesis
      using c0 p1 u lt d tk False assms(1,2,3) delete_char [of l x r z]
      by (simp add: backspace_key_def store_char_def move_chars_def Let_def del: of_nat_add)
  qed
qed

lemma backspace_key_text:
  assumes "line s = padded (FINSH_CMD_SIZE + 1) (l @ x # r)" "line_position s = of_nat (length (l @ x # r))"
    and "line_curpos s = of_nat (length (l @ [x]))" "length l + length r + 1 < FINSH_CMD_SIZE" "NUL \<notin> set r"
  shows "backspace_key s =
    Some (s\<lparr>line := padded (FINSH_CMD_SIZE + 1) (l @ r), line_position := of_nat (length (l @ r)), line_curpos := of_nat (length l)\<rparr>,
          if r = [] then kout [CHR 0x08, CHR '' '', CHR 0x08]
          else kout ([CHR 0x08] @ r @ ''  '' @ [CHR 0x08]) @ backspaces (length r + 1))"
proof -
  let ?z = "replicate (80 - (length l + length r)) NUL"
  have "line s = l @ x # r @ ?z" using assms(1) by (simp add: padded_def)
  moreover have "padded 81 (l @ r) = l @ r @ NUL # ?z" using assms(4) padded_split [of l r 81] by simp
  ultimately show ?thesis using backspace_key_mem [OF _ assms(2-5)] by simp
qed

lemma left_key_text:
  assumes "line_curpos s = of_nat (length (l @ [x]))" "length l + 1 < FINSH_CMD_SIZE"
  shows "left_key s = (s\<lparr>line_curpos := of_nat (length l)\<rparr>, kout [CHR 0x08])"
proof -
  have "line_curpos s \<noteq> 0" using assms u16_small [of "Suc (length l)"] by auto
  then show ?thesis using assms(1) by (simp add: left_key_def)
qed

lemma right_key_text:
  assumes "line s = padded (FINSH_CMD_SIZE + 1) (l @ x # r)" "line_position s = of_nat (length (l @ x # r))"
    and "line_curpos s = of_nat (length l)" "length l + length r + 1 < FINSH_CMD_SIZE"
  shows "right_key s = Some (s\<lparr>line_curpos := of_nat (length (l @ [x]))\<rparr>, kout [x])"
proof -
  have u: "unat (line_position s) = length l + length r + 1" "unat (line_curpos s) = length l"
    using assms by (simp_all add: u16_small del: of_nat_add of_nat_Suc)
  then have "line_curpos s < line_position s" by (simp add: word_less_nat_alt)
  then show ?thesis using u assms by (simp add: right_key_def padded_def nth_append add.commute)
qed

lemma cursor_ends:
  assumes "length l + length r < FINSH_CMD_SIZE"
  shows "(of_nat (length l) :: 16 word) = 0 \<longleftrightarrow> l = []" "(of_nat (length l) :: 16 word) < of_nat (length (l @ r)) \<longleftrightarrow> r \<noteq> []"
proof -
  have "unat (of_nat (length l) :: 16 word) = length l" "unat (of_nat (length (l @ r)) :: 16 word) = length (l @ r)"
    using assms by (auto intro!: u16_small simp del: of_nat_add)
  then show "(of_nat (length l) :: 16 word) = 0 \<longleftrightarrow> l = []" "(of_nat (length l) :: 16 word) < of_nat (length (l @ r)) \<longleftrightarrow> r \<noteq> []"
    by (simp only: unat_eq_0 [symmetric], simp, simp only: word_less_nat_alt, simp)
qed

section \<open>Running a line\<close>

lemma trim_command_text: "trim_command (t @ z) (length t) = Some (dropWhile blank t @ z, length (dropWhile blank t))"
proof (induction t)
  case Nil
  show ?case by (cases z) auto
qed auto

lemma strncmp_name: "NUL \<notin> set w \<Longrightarrow> strncmp_eq n w (length w) \<longleftrightarrow> take (length w) (n @ [NUL]) = w"
  by (simp add: strncmp_eq_def)

lemma take_name:
  assumes "NUL \<notin> set w" "take (length w) (n @ [NUL]) = w"
  shows "length w \<le> length n" "take (length w) n = w"
proof -
  show "length w \<le> length n"
  proof (rule ccontr)
    assume "\<not> length w \<le> length n"
    then have "n @ [NUL] = w" using assms(2) by simp
    then show False using assms(1) by (auto simp: set_append [symmetric])
  qed
  then show "take (length w) n = w" using assms(2) by simp
qed

lemma msh_get_cmd_lookup:
  assumes "NUL \<notin> set w"
  shows "msh_get_cmd tab w (length w) = Some (lookup tab w)"
proof (induction tab)
  case (Cons x tab)
  show ?case
  proof (cases "strncmp_eq (syscall_name x) w (length w)")
    case True
    then have "length w \<le> length (syscall_name x)" "take (length w) (syscall_name x) = w"
      using take_name [OF assms] strncmp_name [OF assms] by blast+
    then show ?thesis using True Cons by (auto simp: strncmp_name assms)
  next
    case False
    then have "syscall_name x \<noteq> w" by (auto simp: strncmp_name assms)
    then show ?thesis using False Cons by simp
  qed
qed simp

text \<open>The first word of a command \<open>u\<close> in the memory \<open>u @ z\<close>.\<close>

lemma first_word:
  assumes "z \<noteq> []" "NUL \<notin> set u" "w = takeWhile (\<lambda>c. \<not> blank c) u"
  shows "skip_word (length u) (u @ z) 0 = Some (length w)" "takeWhile (\<lambda>c. c \<noteq> NUL) (take (length w) (u @ z)) = w" "NUL \<notin> set w"
proof -
  have "unread (u @ z) (length u) 0 = u" by (simp add: unread_def)
  then show "skip_word (length u) (u @ z) 0 = Some (length w)"
    using skip_word_text [of "length u" "u @ z" 0 u] assms by simp
  show n: "NUL \<notin> set w" using assms(2,3) takeWhile_unread_set by metis
  have "take (length w) (u @ z) = w" using assms(3) length_takeWhile_le [of "\<lambda>c. \<not> blank c" u] by (simp add: takeWhile_eq_take [symmetric])
  then show "takeWhile (\<lambda>c. c \<noteq> NUL) (take (length w) (u @ z)) = w" using n by (simp add: takeWhile_eq_all_conv) metis
qed

lemma takeWhile_before:
  assumes "NUL \<in> set m"
  shows "length (takeWhile (\<lambda>c. c \<noteq> CHR '' '' \<and> c \<noteq> NUL) m) < length m"
  using assms by (induction m) auto

lemma msh_exec_cmd_text:
  assumes "nul_at_end (u @ z)" "z \<noteq> []" "NUL \<notin> set u" "u \<noteq> []" "\<not> blank (hd u)"
  shows "\<exists>e ret cmd' out. msh_exec_cmd tab (u @ z) (length u) = Some (e, ret, cmd', out) \<and> NUL \<in> set cmd' \<and>
    (hd z = NUL \<longrightarrow> calls out = (case lookup tab (takeWhile (\<lambda>c. \<not> blank c) u) of
       None \<Rightarrow> [] | Some i \<Rightarrow> [(i, take FINSH_ARG_MAX (split_args u))]) \<and> (e \<noteq> 0 \<longrightarrow> calls out = []))"
proof -
  define w where "w = takeWhile (\<lambda>c. \<not> blank c) u"
  note fw = first_word [OF assms(2,3) w_def]
  have w0: "w \<noteq> []" using assms(4,5) by (cases u) (auto simp: w_def)
  have nul: "NUL \<in> set m" if "nul_at_end m" for m
    using that by (metis last_in_set nul_at_end_def)
  have len: "length u < length (u @ z)" using assms(2) by simp
  obtain argv cmd' out as where sp: "msh_split (u @ z) (length u) = Some (argv, cmd', out)" "nul_at_end cmd'" "argv_strings cmd' argv = Some as"
    using msh_split_in [OF len assms(1)] by blast
  show ?thesis
  proof (cases "lookup tab w")
    case None
    then show ?thesis
      using fw w0 msh_get_cmd_lookup [OF fw(3), of tab] nul [OF assms(1)] by (simp add: msh_exec_cmd_def w_def [symmetric])
  next
    case (Some i)
    have ca: "hd z = NUL \<longrightarrow> calls out = [] \<and> as = take FINSH_ARG_MAX (split_args u)"
    proof
      assume "hd z = NUL"
      then have "(u @ z) ! length u = NUL" using assms(2) by (simp add: nth_append hd_conv_nth)
      then show "calls out = [] \<and> as = take FINSH_ARG_MAX (split_args u)"
        using msh_split_args [OF len _ _ assms(1)] assms(3) sp by auto
    qed
    have "split_args u \<noteq> []" using assms(4,5) by (cases u) (auto simp: split_args.simps split: prod.splits)
    then have "argv \<noteq> []" if "hd z = NUL"
      using that ca sp(3) by (cases argv) auto
    then show ?thesis
      using fw w0 msh_get_cmd_lookup [OF fw(3), of tab] sp ca Some nul [OF sp(2)]
      by (auto simp: msh_exec_cmd_def w_def [symmetric])
  qed
qed

lemma msh_exec_text:
  assumes "nul_at_end (t @ z)" "z \<noteq> []" "NUL \<notin> set t"
  shows "\<exists>ret out. msh_exec tab (t @ z) (length t) = Some (ret, out) \<and> (hd z = NUL \<longrightarrow> calls out = command tab t)"
proof -
  define u where "u = dropWhile blank t"
  have tr: "trim_command (t @ z) (length t) = Some (u @ z, length u)" by (simp add: trim_command_text u_def)
  show ?thesis
  proof (cases "u = []")
    case True
    then show ?thesis using tr by (simp add: msh_exec_def command_def u_def [symmetric])
  next
    case False
    have "nul_at_end (u @ z)" using assms(1,2) by (simp add: nul_at_end_def)
    moreover have "NUL \<notin> set u" using assms(3) set_dropWhileD by (fastforce simp: u_def)
    moreover have "\<not> blank (hd u)" using False hd_dropWhile by (metis u_def)
    ultimately obtain e ret cmd' out where ex: "msh_exec_cmd tab (u @ z) (length u) = Some (e, ret, cmd', out)" "NUL \<in> set cmd'"
      "hd z = NUL \<longrightarrow> calls out = (case lookup tab (takeWhile (\<lambda>c. \<not> blank c) u) of
         None \<Rightarrow> [] | Some i \<Rightarrow> [(i, take FINSH_ARG_MAX (split_args u))]) \<and> (e \<noteq> 0 \<longrightarrow> calls out = [])"
      using msh_exec_cmd_text [of u z tab] assms(2) False by blast
    then show ?thesis
      using tr False takeWhile_before [OF ex(2)]
      by (auto simp: msh_exec_def command_def u_def [symmetric] Let_def)
  qed
qed

section \<open>History\<close>

lemma remember_length: "length h \<le> FINSH_HISTORY_LINES \<Longrightarrow> length (remember h t) \<le> FINSH_HISTORY_LINES"
  by (auto simp: remember_def)

lemma remember_set: "set (remember h t) \<subseteq> insert t (set h)"
  by (cases h) (auto simp: remember_def)

lemma take_padded: "length t < n \<Longrightarrow> take n (padded (n + 1) t) = padded n t"
  by (simp add: padded_def min_def)

lemma history_entry_text:
  assumes "line_text t"
  shows "history_entry (padded (FINSH_CMD_SIZE + 1) t) (length t) = Some (padded FINSH_CMD_SIZE t)"
  using assms by (simp add: history_entry_def line_text_def padded_def)

lemma shell_push_history_text:
  assumes "line s = padded (FINSH_CMD_SIZE + 1) t" "line_position s = of_nat (length t)" "line_text t"
    and "length h \<le> FINSH_HISTORY_LINES" "history_count s = of_nat (length h)" "length (cmd_history s) = FINSH_HISTORY_LINES"
    and "take (length h) (cmd_history s) = map (padded FINSH_CMD_SIZE) h" "\<forall>t \<in> set h. line_text t"
  shows "\<exists>H. shell_push_history s = Some (s\<lparr>cmd_history := H, history_count := of_nat (length (remember h t)),
      current_history := of_nat (length (remember h t))\<rparr>) \<and> length H = FINSH_HISTORY_LINES \<and>
    take (length (remember h t)) H = map (padded FINSH_CMD_SIZE) (remember h t)"
proof -
  have n: "unat (line_position s) = length t" using assms(2,3) by (simp add: line_text_def u16_small)
  have ct: "unat (history_count s) = length h" using assms(4,5) by (simp add: u16_small)
  have tl: "take FINSH_CMD_SIZE (line s) = padded FINSH_CMD_SIZE t"
    using assms(1,3) take_padded [of t FINSH_CMD_SIZE] by (simp add: line_text_def)
  have last: "cmd_history s ! (length h - 1) = padded FINSH_CMD_SIZE (last h)" if "h \<noteq> []"
  proof -
    have "cmd_history s ! (length h - 1) = take (length h) (cmd_history s) ! (length h - 1)" using that by simp
    also have "\<dots> = padded FINSH_CMD_SIZE (last h)" using that assms(7) by (simp add: last_conv_nth)
    finally show ?thesis .
  qed
  have same: "padded FINSH_CMD_SIZE (last h) = padded FINSH_CMD_SIZE t \<longleftrightarrow> last h = t" if "h \<noteq> []"
    using that assms(3,8) padded_inj by (metis last_in_set order_refl)
  have he: "history_entry (line s) (length t) = Some (padded FINSH_CMD_SIZE t)"
    using history_entry_text [OF assms(3)] assms(1) by simp
  show ?thesis
  proof (cases "t = [] \<or> (h \<noteq> [] \<and> last h = t)")
    case True
    then have "remember h t = h" by (simp add: remember_def)
    moreover have "shell_push_history s = Some (s\<lparr>current_history := history_count s\<rparr>)"
      using True n ct tl last same assms(4)
      by (cases "h = []"; cases "length h = 5") (auto simp: shell_push_history_def Let_def)
    ultimately show ?thesis using assms by (intro exI [of _ "cmd_history s"]) simp
  next
    case new: False
    show ?thesis
    proof (cases "length h < FINSH_HISTORY_LINES")
      case True
      have r: "remember h t = h @ [t]" using new True by (simp add: remember_def)
      have "length h = 0 \<or> cmd_history s ! (length h - 1) \<noteq> padded FINSH_CMD_SIZE t"
        using new last same by auto
      then have "shell_push_history s = Some (s\<lparr>cmd_history := (cmd_history s)[length h := padded FINSH_CMD_SIZE t],
          history_count := of_nat (Suc (length h)), current_history := of_nat (Suc (length h))\<rparr>)"
        using new n ct tl True he assms(5) by (simp add: shell_push_history_def Let_def add.commute)
      moreover have "take (Suc (length h)) ((cmd_history s)[length h := padded FINSH_CMD_SIZE t]) = map (padded FINSH_CMD_SIZE) (h @ [t])"
        using True assms(6,7) by (simp add: take_Suc_conv_app_nth)
      ultimately show ?thesis using assms(6) by (intro exI) (auto simp: r)
    next
      case False
      then have h5: "length h = 5" using assms(4) by simp
      then have hne: "h \<noteq> []" by auto
      have r: "remember h t = tl h @ [t]" using new False by (auto simp: remember_def)
      have H: "cmd_history s = map (padded FINSH_CMD_SIZE) h" using assms(6,7) h5 by simp
      have "cmd_history s ! 4 \<noteq> padded FINSH_CMD_SIZE t" using new last [OF hne] same [OF hne] h5 hne by simp
      then have "shell_push_history s = Some (s\<lparr>cmd_history := tl (cmd_history s) @ [padded FINSH_CMD_SIZE t],
          history_count := 5, current_history := 5\<rparr>)"
        using new n ct tl h5 he by (simp add: shell_push_history_def Let_def)
      then show ?thesis using H h5 by (intro exI) (auto simp: r map_tl)
    qed
  qed
qed

lemma recall_history_text:
  assumes "line s = padded (FINSH_CMD_SIZE + 1) u" "line_text u" "current_history s = of_nat i" "i < length h"
    and "length h \<le> FINSH_HISTORY_LINES" "length (cmd_history s) = FINSH_HISTORY_LINES"
    and "take (length h) (cmd_history s) = map (padded FINSH_CMD_SIZE) h" "line_text (h ! i)" "finsh_get_prompt s = Some p"
  shows "recall_history s = Some (s\<lparr>line := padded (FINSH_CMD_SIZE + 1) (h ! i), line_curpos := of_nat (length (h ! i)),
      line_position := of_nat (length (h ! i))\<rparr>,
    kout ([CHR 0x1B] @ ''[2K'' @ [CHR 0x0D]) @ kout (p @ h ! i))"
proof -
  have c: "unat (current_history s) = i" using assms(3-5) by (simp add: u16_small)
  have "cmd_history s ! i = take (length h) (cmd_history s) ! i" using assms(4) by simp
  also have "\<dots> = padded FINSH_CMD_SIZE (h ! i)" using assms(4,7) by simp
  finally have e: "cmd_history s ! i = padded FINSH_CMD_SIZE (h ! i)" .
  have m: "memcpy_at (line s) 0 (cmd_history s ! i) = padded (FINSH_CMD_SIZE + 1) (h ! i)"
  proof -
    have "81 - length (h ! i) = Suc (80 - length (h ! i))" using assms(8) unfolding line_text_def by linarith
    then show ?thesis using assms(1,2,8) unfolding e
      by (simp add: memcpy_at_def padded_def line_text_def replicate_append_same)
  qed
  have cs: "cstr (padded 81 (h ! i)) = Some (h ! i)" using assms(8) by (intro cstr_padded) (auto simp: line_text_def)
  have i5: "i < length (cmd_history s)" using assms(4,5,6) by simp
  have pr: "finsh_get_prompt (s\<lparr>line := l, line_curpos := a, line_position := b\<rparr>) = Some p" for l a b
    using assms(9) by simp
  show ?thesis
    using c m i5 cs pr by (simp add: recall_history_def shell_handle_history_def Let_def)
qed

section \<open>Completion\<close>

lemma str_common_le: "str_common a b \<le> length a"
  by (induction a b rule: str_common.induct) auto

lemma longest_common_prefix_take:
  "longest_common_prefix (take m n) c = take (min m (str_common n c)) n"
proof (induction n arbitrary: c m)
  case (Cons a as)
  then show ?case by (cases c; cases m) auto
qed simp

lemma str_common_prefix: "prefix t n \<Longrightarrow> prefix t c \<Longrightarrow> length t \<le> str_common n c"
proof (induction n c arbitrary: t rule: str_common.induct)
  case (1 a as b bs)
  show ?case
  proof (cases t)
    case (Cons x xs)
    then show ?thesis using 1 by simp
  qed simp
qed auto

lemma strncmp_prefix:
  assumes "NUL \<notin> set t"
  shows "strncmp_eq t c (length t) \<longleftrightarrow> prefix t c"
proof -
  have "strncmp_eq t c (length t) \<longleftrightarrow> take (length t) (c @ [NUL]) = t" by (auto simp: strncmp_eq_def)
  also have "\<dots> \<longleftrightarrow> take (length t) c = t"
  proof
    show "take (length t) c = t" if "take (length t) (c @ [NUL]) = t" by (rule take_name(2) [OF assms that])
    show "take (length t) (c @ [NUL]) = t" if "take (length t) c = t"
    proof -
      have "length t \<le> length c" using that by (metis length_take min.cobounded1)
      then show ?thesis using that by simp
    qed
  qed
  also have "\<dots> \<longleftrightarrow> prefix t c" by (metis append_eq_conv_conj prefix_def take_is_prefix)
  finally show ?thesis .
qed

lemma complete_loop_some:
  assumes "NUL \<notin> set t" "t \<noteq> []" "prefix t n" "length t \<le> m" "m \<le> length n"
  shows "\<exists>m' out. complete_loop t tab (Some n) m = (Some n, m', out) \<and> calls out = [] \<and> length t \<le> m' \<and> m' \<le> length n \<and>
    take m' n = foldl longest_common_prefix (take m n) (filter (prefix t) (map syscall_name tab))"
  using assms(4,5)
proof (induction tab arbitrary: m)
  case (Cons x tab)
  show ?case
  proof (cases "prefix t (syscall_name x)")
    case True
    let ?m = "min m (str_common n (syscall_name x))"
    have "length t \<le> ?m" "?m \<le> length n"
      using str_common_prefix [OF assms(3) True] Cons.prems by auto
    then obtain m' out where "complete_loop t tab (Some n) ?m = (Some n, m', out)" "calls out = []" "length t \<le> m'" "m' \<le> length n"
      "take m' n = foldl longest_common_prefix (take ?m n) (filter (prefix t) (map syscall_name tab))"
      using Cons.IH by blast
    moreover have "m \<noteq> 0" using assms(2) Cons.prems by (cases t) auto
    ultimately show ?thesis using True
      by (simp add: strncmp_prefix assms(1) longest_common_prefix_take)
  next
    case False
    then show ?thesis using Cons by (simp add: strncmp_prefix assms(1))
  qed
qed simp

lemma complete_loop_none:
  assumes "NUL \<notin> set t" "t \<noteq> []"
  shows "\<exists>n m out. complete_loop t tab None 0 = (n, m, out) \<and> calls out = [] \<and>
    (case n of None \<Rightarrow> complete tab t = t | Some n \<Rightarrow> length t \<le> m \<and> m \<le> length n \<and> take m n = complete tab t)"
proof (induction tab)
  case Nil
  then show ?case by (simp add: complete_def)
next
  case (Cons x tab)
  show ?case
  proof (cases "prefix t (syscall_name x)")
    case True
    let ?n = "syscall_name x"
    have self: "str_common a a = length a" for a by (induction a) auto
    obtain m' out where "complete_loop t tab (Some ?n) (length ?n) = (Some ?n, m', out)" "calls out = []" "length t \<le> m'" "m' \<le> length ?n"
      "take m' ?n = foldl longest_common_prefix (take (length ?n) ?n) (filter (prefix t) (map syscall_name tab))"
      using complete_loop_some [OF assms True prefix_length_le [OF True] order_refl, of tab] by blast
    then show ?thesis using True assms
      by (simp add: strncmp_prefix self complete_def Let_def)
  next
    case False
    then have "complete (x # tab) t = complete tab t" using assms by (simp add: complete_def)
    moreover obtain n m out where "complete_loop t tab None 0 = (n, m, out)" "calls out = []"
      "case n of None \<Rightarrow> complete tab t = t | Some n \<Rightarrow> length t \<le> m \<and> m \<le> length n \<and> take m n = complete tab t"
      using Cons by blast
    ultimately show ?thesis using False assms by (cases n) (auto simp: strncmp_prefix)
  qed
qed

lemma calls_backspaces [simp]: "calls (backspaces n) = []"
  by (induction n) (simp_all add: backspaces_def)

lemma tab_key_text:
  assumes "line s = padded (FINSH_CMD_SIZE + 1) t" "line_text t" "line_text (complete tab t)" "finsh_get_prompt s = Some p"
  shows "\<exists>out. tab_key tab s = Some (s\<lparr>line := padded (FINSH_CMD_SIZE + 1) (complete tab t),
      line_curpos := of_nat (length (complete tab t)), line_position := of_nat (length (complete tab t))\<rparr>, out) \<and> calls out = []"
proof -
  have cs: "cstr (padded 81 u) = Some u" if "line_text u" for u
    using that by (intro cstr_padded) (auto simp: line_text_def)
  have hlp: "calls (msh_help tab) = []" by (simp add: msh_help_def)
  have "\<exists>out. msh_auto_complete tab (line s) = Some (padded 81 (complete tab t), out) \<and> calls out = []"
  proof (cases "t = []")
    case True
    then show ?thesis using assms(1) cs [OF assms(2)] hlp by (simp add: msh_auto_complete_def complete_def)
  next
    case False
    have nt: "NUL \<notin> set t" using assms(2) by (simp add: line_text_def)
    obtain n m out where l: "complete_loop t tab None 0 = (n, m, out)" "calls out = []"
      "case n of None \<Rightarrow> complete tab t = t | Some n \<Rightarrow> length t \<le> m \<and> m \<le> length n \<and> take m n = complete tab t"
      using complete_loop_none [OF nt False, of tab] by blast
    show ?thesis
    proof (cases n)
      case None
      then show ?thesis using l False assms(1) cs [OF assms(2)] by (simp add: msh_auto_complete_def)
    next
      case (Some nm)
      then have c: "take m nm = complete tab t" "length (complete tab t) = m" "length t \<le> m"
        using l(3) by (auto, metis length_take min.absorb2)
      then have "m < 80" using assms(3) by (simp add: line_text_def)
      then have "memcpy_at (padded 81 t) 0 (take m nm) = padded 81 (complete tab t)"
        using c by (simp add: memcpy_at_def padded_def)
      then show ?thesis using l Some False assms(1) cs [OF assms(2)] \<open>m < 80\<close> by (simp add: msh_auto_complete_def)
    qed
  qed
  then show ?thesis
    using assms(4) cs [OF assms(3)] by (auto simp: tab_key_def shell_auto_complete_def)
qed

section \<open>The shell implements the editor\<close>

definition names_ok :: "finsh_syscall list \<Rightarrow> bool" where
  "names_ok tab \<longleftrightarrow> (\<forall>x \<in> set tab. NUL \<notin> set (syscall_name x))"

lemma foldl_lcp_set: "set (foldl longest_common_prefix n ns) \<subseteq> set n"
proof (induction ns arbitrary: n)
  case (Cons a ns)
  have "set (longest_common_prefix n a) \<subseteq> set n"
    using set_mono_prefix [OF longest_common_prefix_prefix1] .
  then show ?case using Cons [of "longest_common_prefix n a"] by auto
qed simp

lemma complete_NUL: "names_ok tab \<Longrightarrow> NUL \<notin> set t \<Longrightarrow> NUL \<notin> set (complete tab t)"
proof -
  assume a: "names_ok tab" "NUL \<notin> set t"
  show ?thesis
  proof (cases "t = [] \<or> filter (prefix t) (map syscall_name tab) = []")
    case True
    then show ?thesis using a(2) by (auto simp: complete_def)
  next
    case False
    then obtain n ns where f: "filter (prefix t) (map syscall_name tab) = n # ns" by (cases "filter (prefix t) (map syscall_name tab)") auto
    then have "n \<in> set (map syscall_name tab)" by (metis filter_eq_ConsD in_set_conv_decomp)
    then have "NUL \<notin> set n" using a(1) by (auto simp: names_ok_def)
    then show ?thesis using f False foldl_lcp_set [of n ns] by (auto simp: complete_def)
  qed
qed

lemma shell_is_set:
  assumes "shell_is s e" "line_text (l @ r)"
  shows "shell_is (s\<lparr>line := padded (FINSH_CMD_SIZE + 1) (l @ r), line_position := of_nat (length (l @ r)), line_curpos := of_nat (length l)\<rparr>)
    (ed_set l r e)"
    "shell_is (s\<lparr>line := padded (FINSH_CMD_SIZE + 1) (l @ r), line_curpos := of_nat (length l), line_position := of_nat (length (l @ r))\<rparr>)
    (ed_set l r e)"
  using assms by (simp_all add: shell_is_def ed_set_def ed_text_def)

lemma shell_is_move:
  assumes "shell_is s e" "l @ r = ed_text e"
  shows "shell_is (s\<lparr>line_curpos := of_nat (length l)\<rparr>) (ed_set l r e)"
  using assms by (simp add: shell_is_def ed_set_def ed_text_def)

lemma shell_is_stat: "shell_is s e \<Longrightarrow> shell_is (s\<lparr>shell_stat := x\<rparr>) (e\<lparr>ed_stat := x\<rparr>)"
  by (simp add: shell_is_def ed_text_def)

lemma shell_isD:
  assumes "shell_is s e"
  shows "line_text (ed_text e)" "line s = padded (FINSH_CMD_SIZE + 1) (ed_left e @ ed_right e)"
    "line_position s = of_nat (length (ed_left e @ ed_right e))" "line_curpos s = of_nat (length (ed_left e))"
    "\<exists>p. finsh_get_prompt s = Some p" "length (ed_left e) + length (ed_right e) < FINSH_CMD_SIZE"
    "NUL \<notin> set (ed_left e)" "NUL \<notin> set (ed_right e)" "length (ed_hist e) \<le> FINSH_HISTORY_LINES"
    "history_count s = of_nat (length (ed_hist e))" "current_history s = of_nat (ed_pos e)" "ed_pos e \<le> length (ed_hist e)"
    "length (cmd_history s) = FINSH_HISTORY_LINES"
    "take (length (ed_hist e)) (cmd_history s) = map (padded FINSH_CMD_SIZE) (ed_hist e)" "\<forall>t \<in> set (ed_hist e). line_text t"
  using assms by (auto simp: shell_is_def ed_text_def line_text_def)

lemma recall_edits:
  assumes "shell_is s e" "i < length (ed_hist e)"
  shows "\<exists>s' out. recall_history (s\<lparr>current_history := of_nat i\<rparr>) = Some (s', out) \<and> shell_is s' (ed_recall i e) \<and> calls out = []"
proof -
  note d = shell_isD [OF assms(1)]
  obtain p where p: "finsh_get_prompt s = Some p" using d(5) by blast
  have lt: "line_text (ed_hist e ! i)" using d(15) assms(2) by simp
  let ?s = "s\<lparr>current_history := of_nat i\<rparr>"
  have is': "shell_is ?s (e\<lparr>ed_pos := i\<rparr>)" using assms by (simp add: shell_is_def ed_text_def)
  have "recall_history ?s = Some (?s\<lparr>line := padded (FINSH_CMD_SIZE + 1) (ed_hist e ! i), line_curpos := of_nat (length (ed_hist e ! i)),
      line_position := of_nat (length (ed_hist e ! i))\<rparr>,
    kout ([CHR 0x1B] @ ''[2K'' @ [CHR 0x0D]) @ kout (p @ ed_hist e ! i))"
    using d lt assms(2) p by (intro recall_history_text) (simp_all add: ed_text_def)
  then show ?thesis
    using shell_is_set(2) [OF is', of "ed_hist e ! i" "[]"] lt by (simp add: ed_recall_def)
qed

lemma down_key_recall:
  assumes "shell_is s e" "ed_hist e \<noteq> []"
  shows "down_key s = recall_history (s\<lparr>current_history := of_nat (min (ed_pos e + 1) (length (ed_hist e) - 1))\<rparr>)"
proof -
  note d = shell_isD [OF assms(1)]
  have c: "unat (current_history s) = ed_pos e" "unat (history_count s) = length (ed_hist e)"
    using d by (simp_all add: u16_small)
  let ?i = "min (ed_pos e + 1) (length (ed_hist e) - 1)"
  show ?thesis
  proof (cases "ed_pos e + 1 < length (ed_hist e)")
    case True
    then have "?i = ed_pos e + 1" by simp
    then show ?thesis using True c d(11) by (simp add: down_key_def add.commute)
  next
    case False
    then have "?i = length (ed_hist e) - 1" by simp
    moreover have "history_count s \<noteq> 0" using assms(2) c by auto
    moreover have "history_count s - 1 = of_nat (length (ed_hist e) - 1)" using assms(2) d(10) by (simp add: of_nat_diff Suc_leI)
    ultimately show ?thesis using False c by (simp add: down_key_def)
  qed
qed

lemma func_key_edits:
  assumes "shell_is s e" "ch \<in> {CHR 0x41, CHR 0x42, CHR 0x43, CHR 0x44}"
  shows "\<exists>s' out. (if ch = CHR 0x41 then up_key s else if ch = CHR 0x42 then down_key s
      else if ch = CHR 0x44 then Some (left_key s) else right_key s) = Some (s', out) \<and>
    shell_is s' (ed_func ch e) \<and> calls out = []"
proof -
  note d = shell_isD [OF assms(1)]
  have c: "unat (current_history s) = ed_pos e" "unat (history_count s) = length (ed_hist e)"
    using d by (simp_all add: u16_small)
  consider "ch = CHR 0x41" | "ch = CHR 0x42" | "ch = CHR 0x44" | "ch = CHR 0x43" using assms(2) by blast
  then show ?thesis
  proof cases
    case 1
    show ?thesis
    proof (cases "ed_pos e > 0")
      case True
      then have "current_history s > 0" "current_history s - 1 = of_nat (ed_pos e - 1)" "ed_pos e - 1 < length (ed_hist e)"
        using c d(11,12) by (auto simp: word_less_nat_alt of_nat_diff)
      then show ?thesis using recall_edits [OF assms(1), of "ed_pos e - 1"] True 1
        by (simp add: up_key_def ed_func_def)
    next
      case False
      then have "\<not> current_history s > 0" "s\<lparr>current_history := 0\<rparr> = s" using d(11) by simp_all
      then show ?thesis using False 1 assms(1) by (simp add: up_key_def ed_func_def)
    qed
  next
    case 2
    show ?thesis
    proof (cases "ed_hist e = []")
      case True
      then show ?thesis using c d(10) 2 assms(1) by (simp add: down_key_def ed_func_def)
    next
      case False
      then have n0: "0 < length (ed_hist e)" by simp
      let ?i = "min (ed_pos e + 1) (length (ed_hist e) - 1)"
      have "down_key s = recall_history (s\<lparr>current_history := of_nat ?i\<rparr>)" by (rule down_key_recall [OF assms(1) False])
      moreover have "?i < length (ed_hist e)" using n0 by linarith
      moreover have "ed_func ch e = ed_recall ?i e" using 2 False by (simp add: ed_func_def)
      ultimately show ?thesis using recall_edits [OF assms(1), of ?i] 2 by simp
    qed
  next
    case 3
    show ?thesis
    proof (cases "ed_left e" rule: rev_cases)
      case Nil
      then show ?thesis using 3 d assms(1) by (simp add: left_key_def ed_func_def)
    next
      case (snoc l x)
      then have "left_key s = (s\<lparr>line_curpos := of_nat (length l)\<rparr>, kout [CHR 0x08])"
        using d by (intro left_key_text) simp_all
      then show ?thesis using 3 snoc shell_is_move [OF assms(1), of l "x # ed_right e"] by (simp add: ed_func_def ed_text_def)
    qed
  next
    case 4
    show ?thesis
    proof (cases "ed_right e")
      case Nil
      then show ?thesis using 4 d assms(1) by (simp add: right_key_def ed_func_def)
    next
      case (Cons x r)
      then have "right_key s = Some (s\<lparr>line_curpos := of_nat (length (ed_left e @ [x]))\<rparr>, kout [x])"
        using d by (intro right_key_text [of _ _ _ r]) simp_all
      then show ?thesis using 4 Cons shell_is_move [OF assms(1), of "ed_left e @ [x]" r] by (simp add: ed_func_def ed_text_def)
    qed
  qed
qed

lemma enter_edits:
  assumes "shell_is s e"
  shows "\<exists>s' out. enter_key tab s = Some (s', out) \<and>
    shell_is s' (ed_set [] [] (e\<lparr>ed_hist := remember (ed_hist e) (ed_text e), ed_pos := length (remember (ed_hist e) (ed_text e))\<rparr>)) \<and>
    calls out = command tab (ed_text e)"
proof -
  note d = shell_isD [OF assms]
  let ?t = "ed_text e" and ?h = "remember (ed_hist e) (ed_text e)"
  obtain p where p: "finsh_get_prompt s = Some p" using d(5) by blast
  have ln: "line s = padded (FINSH_CMD_SIZE + 1) ?t" "line_position s = of_nat (length ?t)" using d(2,3) by (simp_all add: ed_text_def)
  obtain H where ph: "shell_push_history s = Some (s\<lparr>cmd_history := H, history_count := of_nat (length ?h),
      current_history := of_nat (length ?h)\<rparr>)" "length H = FINSH_HISTORY_LINES" "take (length ?h) H = map (padded FINSH_CMD_SIZE) ?h"
    using shell_push_history_text [OF ln d(1,9,10,13,14,15)] by blast
  have n: "unat (line_position s) = length ?t" using d(1) ln(2) by (simp add: line_text_def u16_small)
  let ?z = "replicate (FINSH_CMD_SIZE + 1 - length ?t) NUL"
  have z: "?z \<noteq> []" "hd ?z = NUL" "last ?z = NUL" using d(1) by (simp_all add: line_text_def)
  then have "nul_at_end (?t @ ?z)" "NUL \<notin> set ?t" using d(1) by (simp_all add: nul_at_end_def line_text_def)
  then obtain ret out where ex: "msh_exec tab (?t @ ?z) (length ?t) = Some (ret, out)" "calls out = command tab ?t"
    using msh_exec_text [of ?t ?z tab] z by blast
  have ex': "msh_exec tab (line s) (length ?t) = Some (ret, out)" using ex(1) ln(1) by (simp add: padded_def)
  have lh: "length ?h \<le> FINSH_HISTORY_LINES" by (rule remember_length [OF d(9)])
  have hs: "\<forall>t \<in> set ?h. line_text t" using remember_set [of "ed_hist e" ?t] d(1,15) by blast
  have ll: "length (line s) = FINSH_CMD_SIZE + 1" using ln(1) d(1) by (simp add: line_text_def)
  show ?thesis
    using ph ex' ex(2) p n ll lh hs assms
    by (simp add: enter_key_def shell_is_def ed_set_def ed_text_def padded_def line_text_def)
qed

lemma plain_key_edits:
  assumes "shell_is s e" "names_ok tab" "length (ed_text (fst (ed_plain tab ch e))) < FINSH_CMD_SIZE"
  shows "\<exists>s' out. plain_key tab ch s = Some (s', out) \<and> shell_is s' (fst (ed_plain tab ch e)) \<and> calls out = snd (ed_plain tab ch e)"
proof -
  note d = shell_isD [OF assms(1)]
  obtain p where p: "finsh_get_prompt s = Some p" using d(5) by blast
  consider "ch = NUL \<or> ch = CHR 0xFF" | "ch = CHR 0x09" | "ch = CHR 0x7F \<or> ch = CHR 0x08" | "ch = CHR 0x0D \<or> ch = CHR 0x0A"
    | "ch \<notin> {NUL, CHR 0xFF, CHR 0x09, CHR 0x7F, CHR 0x08, CHR 0x0D, CHR 0x0A}" by blast
  then show ?thesis
  proof cases
    case 1
    then show ?thesis using assms(1) by (simp add: plain_key_def ed_plain_def)
  next
    case 2
    let ?c = "complete tab (ed_text e)"
    have lt: "line_text ?c" using assms(3) complete_NUL [OF assms(2)] d(1) 2 by (simp add: line_text_def ed_plain_def ed_set_def ed_text_def)
    have "line s = padded (FINSH_CMD_SIZE + 1) (ed_text e)" using d(2) by (simp add: ed_text_def)
    from tab_key_text [OF this d(1) lt p] show ?thesis
      using 2 shell_is_set(2) [OF assms(1), of ?c "[]"] lt by (auto simp: plain_key_def ed_plain_def)
  next
    case 3
    then have pk: "plain_key tab ch s = backspace_key s"
      "ed_plain tab ch e = (if ed_left e = [] then e else ed_set (butlast (ed_left e)) (ed_right e) e, [])"
      by (auto simp: plain_key_def ed_plain_def)
    show ?thesis
    proof (cases "ed_left e" rule: rev_cases)
      case Nil
      then show ?thesis using assms(1) d(4) by (simp add: pk backspace_key_def)
    next
      case (snoc l x)
      have "backspace_key s = Some (s\<lparr>line := padded (FINSH_CMD_SIZE + 1) (l @ ed_right e),
          line_position := of_nat (length (l @ ed_right e)), line_curpos := of_nat (length l)\<rparr>,
        if ed_right e = [] then kout [CHR 0x08, CHR '' '', CHR 0x08]
        else kout ([CHR 0x08] @ ed_right e @ ''  '' @ [CHR 0x08]) @ backspaces (length (ed_right e) + 1))"
        using d snoc by (intro backspace_key_text [of _ _ x]) simp_all
      moreover have "line_text (l @ ed_right e)" using d(1) snoc by (simp add: line_text_def ed_text_def)
      ultimately show ?thesis using snoc shell_is_set(1) [OF assms(1), of l "ed_right e"] by (simp add: pk)
    qed
  next
    case 4
    then have "plain_key tab ch s = enter_key tab s" by (auto simp: plain_key_def)
    moreover have "ed_plain tab ch e = (let h = remember (ed_hist e) (ed_text e)
      in (ed_set [] [] (e\<lparr>ed_hist := h, ed_pos := length h\<rparr>), command tab (ed_text e)))"
      using 4 by (auto simp: ed_plain_def)
    ultimately show ?thesis using enter_edits [OF assms(1), of tab] by (simp add: Let_def)
  next
    case 5
    then have pk: "plain_key tab ch s = normal_key ch s" "ed_plain tab ch e = (ed_set (ed_left e @ [ch]) (ed_right e) e, [])"
      by (auto simp: plain_key_def ed_plain_def)
    have b: "length (ed_left e) + length (ed_right e) + 1 < FINSH_CMD_SIZE" using assms(3) by (simp add: pk ed_set_def ed_text_def)
    have "line_text ((ed_left e @ [ch]) @ ed_right e)" using b d(7,8) 5 by (auto simp: line_text_def)
    moreover have "normal_key ch s = Some (s\<lparr>line := padded (FINSH_CMD_SIZE + 1) (ed_left e @ ch # ed_right e),
        line_position := of_nat (length (ed_left e @ ch # ed_right e)), line_curpos := of_nat (length (ed_left e @ [ch]))\<rparr>,
      (if echo_mode s then kout (ch # ed_right e) else []) @ backspaces (length (ed_right e)))"
      using d b 5 by (intro normal_key_text) simp_all
    ultimately show ?thesis using shell_is_set(1) [OF assms(1), of "ed_left e @ [ch]" "ed_right e"] by (simp add: pk)
  qed
qed

lemma finsh_key_edits:
  assumes "shell_is s e" "names_ok tab" "length (ed_text (fst (ed_key tab inp e))) < FINSH_CMD_SIZE"
  shows "\<exists>s' out. finsh_key tab inp s = Some (s', out) \<and> shell_is s' (fst (ed_key tab inp e)) \<and> calls out = snd (ed_key tab inp e)"
proof (cases inp)
  case None
  then show ?thesis using assms(1) by (simp add: finsh_key_def ed_key_def)
next
  case (Some ch)
  have st: "shell_stat s = ed_stat e" using assms(1) by (simp add: shell_is_def)
  let ?s = "s\<lparr>shell_stat := WAIT_NORMAL\<rparr>" and ?e = "e\<lparr>ed_stat := WAIT_NORMAL\<rparr>"
  have n: "shell_is ?s ?e" by (rule shell_is_stat [OF assms(1)])
  consider "ch = CHR 0x1B" | "ch \<noteq> CHR 0x1B" "ed_stat e = WAIT_SPEC_KEY \<and> ch = CHR 0x5B"
    | "ch \<noteq> CHR 0x1B" "ed_stat e = WAIT_FUNC_KEY" "ch \<in> {CHR 0x41, CHR 0x42, CHR 0x43, CHR 0x44}"
    | "ch \<noteq> CHR 0x1B" "\<not> (ed_stat e = WAIT_SPEC_KEY \<and> ch = CHR 0x5B)"
      "\<not> (ed_stat e = WAIT_FUNC_KEY \<and> ch \<in> {CHR 0x41, CHR 0x42, CHR 0x43, CHR 0x44})" by blast
  then show ?thesis
  proof cases
    case 1
    then show ?thesis using Some shell_is_stat [OF assms(1)] by (simp add: finsh_key_def ed_key_def)
  next
    case 2
    then show ?thesis using Some st shell_is_stat [OF assms(1)] by (simp add: finsh_key_def ed_key_def)
  next
    case 3
    then have "finsh_key tab inp s = (if ch = CHR 0x41 then up_key ?s else if ch = CHR 0x42 then down_key ?s
      else if ch = CHR 0x44 then Some (left_key ?s) else right_key ?s)"
      using Some st by (auto simp: finsh_key_def)
    moreover have "ed_key tab inp e = (ed_func ch ?e, [])" using 3 Some by (auto simp: ed_key_def)
    ultimately show ?thesis using func_key_edits [OF n 3(3)] by simp
  next
    case 4
    then have "finsh_key tab inp s = plain_key tab ch ?s" using Some st by (auto simp: finsh_key_def)
    moreover have "ed_key tab inp e = ed_plain tab ch ?e" using 4 Some by (auto simp: ed_key_def)
    ultimately show ?thesis using plain_key_edits [OF n assms(2), of ch] assms(3) by simp
  qed
qed

lemma finsh_keys_edits:
  assumes "shell_is s e" "names_ok tab" "ed_fits tab inp e"
  shows "\<exists>s' out. finsh_keys tab inp s = Some (s', out) \<and> shell_is s' (fst (ed_keys tab inp e)) \<and> calls out = snd (ed_keys tab inp e)"
  using assms(1,3)
proof (induction inp arbitrary: s e)
  case (Cons x xs)
  then obtain s1 out1 where 1: "finsh_key tab x s = Some (s1, out1)" "shell_is s1 (fst (ed_key tab x e))" "calls out1 = snd (ed_key tab x e)"
    using finsh_key_edits [OF Cons.prems(1) assms(2), of x] by auto
  with Cons obtain s2 out2 where "finsh_keys tab xs s1 = Some (s2, out2)" "shell_is s2 (fst (ed_keys tab xs (fst (ed_key tab x e))))"
    "calls out2 = snd (ed_keys tab xs (fst (ed_key tab x e)))" by fastforce
  then show ?case using 1 by (simp add: split_beta)
qed simp

end
