(* ===== verification/Shell_Props.thy ===== *)
theory Shell_Props
  imports Shell_Edit Kprintf_Props
begin

text \<open>
  The properties of the shell: it implements the editor as long as lines stay short; without the Tab key it
  stays inside its line whatever is typed; the terminal shows the line and the cursor; and what goes wrong with
  a line of eighty characters.
\<close>

section \<open>The printed texts\<close>

text \<open>\<^const>\<open>kout\<close> is what the model of \<^verbatim>\<open>rt_kprintf\<close> sends for a format with that text, and the texts of the shell
  are those of its formats.\<close>

lemma kout_is_rt_kprintf:
  assumes "text_run fmt args = Some t" "unat log_buf + 256 < 2 ^ 32" "unat log_buf + length t < 2 ^ 32"
    and "length t < 2 ^ 31"
  shows "\<exists>len m' out. rt_kprintf log_buf fmt args m = Some (len, map of_char out, m') \<and> kout t = [Out out]"
  using rt_kprintf_sends [OF assms, of m] by (auto simp: kout_def)

lemma shell_formats:
  assumes "length t < 2 ^ 30" "length u < 2 ^ 30"
  shows "text_run ''%s%s'' [Str (Some t), Str (Some u)] = Some (t @ u)"
    "text_run ''%c'' [Num v] = Some [char_of (unat (ucast v :: 8 word))]"
    "text_run (''%s: command not found.'' @ [CHR 0x0A]) [Str (Some t)] = Some (t @ '': command not found.'' @ [CHR 0x0A])"
    "length (syscall_name x) < 2 ^ 30 \<Longrightarrow> length (syscall_desc x) < 2 ^ 30 \<Longrightarrow>
     text_run (''%-16s - %s'' @ [CHR 0x0A]) [Str (Some (syscall_name x)), Str (Some (syscall_desc x))] = Some (help_line x)"
  using assms by (simp_all add: fmt_parse_def fmt_width_def fmt_precision_def fmt_qualifier_def ISDIGIT_def skip_atoi_def first_char_def
    convert_text_def string_text_def justify_def flag_def next_int_def Let_def help_line_def rt_assert_def min_def)

section \<open>Memory safety\<close>

definition shell_ok :: "finsh_shell \<Rightarrow> bool" where
  "shell_ok s \<longleftrightarrow>
     length (line s) = FINSH_CMD_SIZE + 1 \<and> nul_at_end (line s) \<and>
     unat (line_position s) < FINSH_CMD_SIZE \<and> line_curpos s \<le> line_position s \<and>
     NUL \<notin> set (take (unat (line_position s)) (line s)) \<and>
     length (cmd_history s) = FINSH_HISTORY_LINES \<and>
     (\<forall>h \<in> set (cmd_history s). length h = FINSH_CMD_SIZE \<and> NUL \<in> set h) \<and>
     history_count s \<le> of_nat FINSH_HISTORY_LINES \<and> current_history s \<le> history_count s \<and>
     finsh_get_prompt s \<noteq> None"

lemma shell_ok_line:
  assumes "shell_ok s"
  obtains l r y z where "line s = l @ r @ y # z" "line_position s = of_nat (length (l @ r))" "line_curpos s = of_nat (length l)"
    "length l + length r < FINSH_CMD_SIZE" "NUL \<notin> set (l @ r)" "nul_at_end z" "length l + length r + length z = FINSH_CMD_SIZE"
proof -
  define c where "c = unat (line_curpos s)"
  define p where "p = unat (line_position s)"
  have cp: "c \<le> p" "p < FINSH_CMD_SIZE" "length (line s) = 81" "nul_at_end (line s)" "NUL \<notin> set (take p (line s))"
    using assms by (simp_all add: shell_ok_def c_def p_def word_le_nat_alt)
  define l where "l = take c (line s)"
  define r where "r = take (p - c) (drop c (line s))"
  have lr: "l @ r = take p (line s)" using cp(1) by (simp add: l_def r_def take_drop [symmetric] flip: take_add)
  obtain y z where yz: "drop p (line s) = y # z" using cp(2,3) by (cases "drop p (line s)") auto
  have e: "line s = l @ r @ y # z" by (metis append_assoc append_take_drop_id lr yz)
  have ll: "length l = c" "length r = p - c" using cp by (simp_all add: l_def r_def)
  have "length z = 80 - p" using arg_cong [OF yz, of length] cp(3) by simp
  moreover have "nul_at_end z" using cp(2,4) e \<open>length z = 80 - p\<close> by (auto simp: nul_at_end_def split: if_splits)
  moreover have "line_position s = of_nat (length (l @ r))" "line_curpos s = of_nat (length l)"
    using ll cp(1) by (simp_all add: c_def p_def del: of_nat_add)
  moreover have "length l + length r < FINSH_CMD_SIZE" "NUL \<notin> set (l @ r)" "length l + length r + length z = FINSH_CMD_SIZE"
    using ll cp(1,2) cp(5) lr \<open>length z = 80 - p\<close> by simp_all
  ultimately show ?thesis using that e by blast
qed

lemma shell_ok_set:
  assumes "shell_ok s" "length ln = FINSH_CMD_SIZE + 1" "nul_at_end ln" "n < FINSH_CMD_SIZE" "c \<le> n" "NUL \<notin> set (take n ln)"
  shows "shell_ok (s\<lparr>line := ln, line_position := of_nat n, line_curpos := of_nat c\<rparr>)"
    "shell_ok (s\<lparr>line := ln, line_curpos := of_nat c, line_position := of_nat n\<rparr>)"
  using assms by (simp_all add: shell_ok_def word_le_nat_alt u16_small)

lemma nul_at_end_append [simp]: "z \<noteq> [] \<Longrightarrow> nul_at_end (t @ z) \<longleftrightarrow> nul_at_end z"
  by (simp add: nul_at_end_def)

lemma nul_at_end_set: "nul_at_end z \<Longrightarrow> NUL \<in> set z"
  by (metis last_in_set nul_at_end_def)

lemma nul_at_end_ne: "nul_at_end z \<Longrightarrow> z \<noteq> []"
  by (simp add: nul_at_end_def)

lemma recall_ok:
  assumes "shell_ok s" "i < history_count s"
  shows "\<exists>s' out. recall_history (s\<lparr>current_history := i\<rparr>) = Some (s', out) \<and> shell_ok s'"
proof -
  have "unat (history_count s) \<le> 5" using assms(1) by (simp add: shell_ok_def word_le_nat_alt)
  then have i: "unat i < length (cmd_history s)" using assms by (simp add: shell_ok_def word_less_nat_alt)
  define h where "h = cmd_history s ! unat i"
  have h: "length h = FINSH_CMD_SIZE" "NUL \<in> set h" using assms(1) i by (auto simp: shell_ok_def h_def)
  define t where "t = takeWhile (\<lambda>c. c \<noteq> NUL) h"
  obtain p where p: "finsh_get_prompt s = Some p" using assms(1) by (auto simp: shell_ok_def)
  have d: "drop 80 (line s) = [NUL]"
  proof -
    have "length (line s) = 81" "nul_at_end (line s)" using assms(1) by (simp_all add: shell_ok_def)
    then show ?thesis
      by (cases "line s" rule: rev_cases) (auto simp: nul_at_end_def)
  qed
  have m: "memcpy_at (line s) 0 h = h @ [NUL]" using d h(1) by (simp add: memcpy_at_def)
  have cs: "cstr (h @ [NUL]) = Some t" using h(2) by (simp add: cstr_def t_def)
  have "length t < length h"
    using h(2) unfolding t_def by (induction h) auto
  then have lt: "length t < FINSH_CMD_SIZE" using h(1) by simp
  have "take (length t) (h @ [NUL]) = t"
    using lt h(1) by (simp add: t_def takeWhile_eq_take [symmetric])
  then have "NUL \<notin> set (take (length t) (h @ [NUL]))" using set_takeWhileD by (fastforce simp: t_def)
  moreover have "shell_ok (s\<lparr>current_history := i\<rparr>)" using assms by (simp add: shell_ok_def)
  ultimately have "shell_ok (s\<lparr>current_history := i, line := h @ [NUL], line_curpos := of_nat (length t), line_position := of_nat (length t)\<rparr>)"
    using shell_ok_set(2) [of "s\<lparr>current_history := i\<rparr>" "h @ [NUL]" "length t" "length t"] lt h(1)
    by (simp add: nul_at_end_def)
  then show ?thesis using i m cs p
    by (simp add: recall_history_def shell_handle_history_def Let_def h_def [symmetric])
qed

lemma editing_ok:
  assumes "shell_ok s"
  shows "\<exists>s' out. normal_key ch s = Some (s', out) \<and> (ch \<noteq> NUL \<longrightarrow> shell_ok s')"
    "\<exists>s' out. backspace_key s = Some (s', out) \<and> shell_ok s'"
    "shell_ok (fst (left_key s))"
    "\<exists>s' out. right_key s = Some (s', out) \<and> shell_ok s'"
proof -
  obtain l r y z where L: "line s = l @ r @ y # z" "line_position s = of_nat (length (l @ r))" "line_curpos s = of_nat (length l)"
    "length l + length r < FINSH_CMD_SIZE" "NUL \<notin> set (l @ r)" "nul_at_end z" "length l + length r + length z = FINSH_CMD_SIZE"
    by (rule shell_ok_line [OF assms])
  have z: "NUL \<in> set z" "z \<noteq> []" using L(6) nul_at_end_set nul_at_end_ne by blast+
  show "\<exists>s' out. normal_key ch s = Some (s', out) \<and> (ch \<noteq> NUL \<longrightarrow> shell_ok s')"
  proof -
    have "shell_ok (s\<lparr>line := l @ ch # r @ z, line_position := of_nat n, line_curpos := of_nat c\<rparr>)"
      if "ch \<noteq> NUL" "c \<le> n" "n \<le> length (l @ ch # r)" "n < FINSH_CMD_SIZE" for n c
    proof (rule shell_ok_set(1) [OF assms])
      have "take n (l @ ch # r @ z) = take n (l @ ch # r)"
        using that(3) take_append [of n "l @ ch # r" z] by simp
      then have "set (take n (l @ ch # r @ z)) \<subseteq> set (l @ ch # r)"
        by (metis set_take_subset)
      then show "NUL \<notin> set (take n (l @ ch # r @ z))" using L(5) that(1) by auto
    qed (use L z that in \<open>auto simp: nul_at_end_def\<close>)
    from this [of 0 0] this [of "length (l @ [ch])" "length (l @ ch # r)"] show ?thesis
      unfolding normal_key_mem [OF L(1-4) z(1), of ch] by auto
  qed
  show "\<exists>s' out. backspace_key s = Some (s', out) \<and> shell_ok s'"
  proof (cases l rule: rev_cases)
    case Nil
    then show ?thesis using L(3) assms by (simp add: backspace_key_def)
  next
    case (snoc l' x)
    have "backspace_key s =
      Some (s\<lparr>line := l' @ r @ NUL # y # z, line_position := of_nat (length (l' @ r)), line_curpos := of_nat (length l')\<rparr>,
            if r = [] then kout [CHR 0x08, CHR '' '', CHR 0x08]
            else kout ([CHR 0x08] @ r @ ''  '' @ [CHR 0x08]) @ backspaces (length r + 1))"
      using L snoc by (intro backspace_key_mem [of _ _ x]) simp_all
    moreover have "shell_ok (s\<lparr>line := l' @ r @ NUL # y # z, line_position := of_nat (length (l' @ r)), line_curpos := of_nat (length l')\<rparr>)"
      using L snoc z by (intro shell_ok_set(1) [OF assms]) (auto simp: nul_at_end_def)
    ultimately show ?thesis by blast
  qed
  have mv: "shell_ok (s\<lparr>line_curpos := of_nat c\<rparr>)" if "c \<le> length (l @ r)" for c
    using assms that L(2,4) by (simp add: shell_ok_def word_le_nat_alt u16_small del: of_nat_add)
  show "shell_ok (fst (left_key s))"
  proof (cases l rule: rev_cases)
    case Nil
    then show ?thesis using L(3) assms by (simp add: left_key_def)
  next
    case (snoc l' x)
    then show ?thesis using left_key_text [of s l' x] L(3,4) mv [of "length l'"] by simp
  qed
  show "\<exists>s' out. right_key s = Some (s', out) \<and> shell_ok s'"
  proof (cases "line_curpos s < line_position s")
    case True
    then have "unat (line_curpos s) < length (line s)" using assms by (simp add: shell_ok_def word_less_nat_alt)
    moreover have "r \<noteq> []" using True L by (auto simp: word_less_nat_alt)
    then have "shell_ok (s\<lparr>line_curpos := of_nat (Suc (length l))\<rparr>)" by (intro mv) (cases r, auto)
    ultimately show ?thesis using True L(3) by (simp add: right_key_def add.commute)
  next
    case False
    then show ?thesis using assms by (simp add: right_key_def)
  qed
qed

lemma push_history_ok:
  assumes "shell_ok s"
  shows "\<exists>s'. shell_push_history s = Some s' \<and> shell_ok s' \<and> line s' = line s \<and> line_position s' = line_position s"
proof -
  let ?n = "unat (line_position s)"
  have b: "length (line s) = 81" "?n < 80" "length (cmd_history s) = 5" "unat (history_count s) \<le> 5"
    and hs: "\<forall>h \<in> set (cmd_history s). length h = 80 \<and> NUL \<in> set h"
    using assms by (simp_all add: shell_ok_def word_le_nat_alt)
  define h where "h = take ?n (line s) @ replicate (80 - ?n) NUL"
  have he: "history_entry (line s) ?n = Some h" using b by (simp add: history_entry_def h_def)
  have hp: "length h = 80 \<and> NUL \<in> set h" using b by (simp add: h_def)
  have upd: "set ((cmd_history s)[i := h]) \<subseteq> insert h (set (cmd_history s))" for i by (rule set_update_subset_insert)
  have tl: "set (tl (cmd_history s) @ [h]) \<subseteq> insert h (set (cmd_history s))" by (cases "cmd_history s") auto
  have H: "shell_ok (s\<lparr>cmd_history := H, history_count := n, current_history := n\<rparr>)"
    if "set H \<subseteq> insert h (set (cmd_history s))" "length H = 5" "unat n \<le> 5" for H n
    using assms that hs hp unfolding shell_ok_def by (simp add: word_le_nat_alt) blast
  have H': "shell_ok (s\<lparr>current_history := history_count s\<rparr>)" using assms by (simp add: shell_ok_def)
  consider "?n = 0" | "?n \<noteq> 0" "unat (history_count s) \<ge> 5" | "?n \<noteq> 0" "unat (history_count s) < 5" by linarith
  then show ?thesis
  proof cases
    case 1
    then show ?thesis using H' by (simp add: shell_push_history_def)
  next
    case 2
    show ?thesis
    proof (cases "cmd_history s ! 4 \<noteq> take 80 (line s)")
      case True
      then show ?thesis using 2 he H [OF tl, of 5] b(3) by (simp add: shell_push_history_def)
    next
      case False
      then show ?thesis using 2 H' by (simp add: shell_push_history_def)
    qed
  next
    case 3
    let ?c = "unat (history_count s)"
    show ?thesis
    proof (cases "?c = 0 \<or> cmd_history s ! (?c - 1) \<noteq> take 80 (line s)")
      case True
      have "unat (history_count s + 1) \<le> 5" using 3(2) by (simp add: unat_word_ariths)
      then show ?thesis using True 3 he H [OF upd, of ?c "history_count s + 1"] b(3)
        by (simp add: shell_push_history_def)
    next
      case False
      then show ?thesis using 3 H' by (simp add: shell_push_history_def)
    qed
  qed
qed

lemma enter_ok:
  assumes "shell_ok s"
  shows "\<exists>s' out. enter_key tab s = Some (s', out) \<and> shell_ok s'"
proof -
  obtain s1 where p: "shell_push_history s = Some s1" "shell_ok s1"
    using push_history_ok [OF assms] by blast
  obtain l r y z where L: "line s1 = l @ r @ y # z" "line_position s1 = of_nat (length (l @ r))" "line_curpos s1 = of_nat (length l)"
    "length l + length r < FINSH_CMD_SIZE" "NUL \<notin> set (l @ r)" "nul_at_end z"
    by (rule shell_ok_line [OF p(2)])
  have "unat (line_position s1) = length (l @ r)" using L(2,4) by (auto simp: u16_small simp del: of_nat_add)
  moreover have "nul_at_end ((l @ r) @ y # z)" using L(6) by (auto simp: nul_at_end_def)
  ultimately obtain ret out where "msh_exec tab (line s1) (unat (line_position s1)) = Some (ret, out)"
    using msh_exec_text [of "l @ r" "y # z" tab] L(1,5) by auto
  moreover obtain pr where "finsh_get_prompt s1 = Some pr" using p(2) by (auto simp: shell_ok_def)
  moreover have "shell_ok (s1\<lparr>line := replicate (length (line s1)) NUL, line_curpos := 0, line_position := 0\<rparr>)"
    using p(2) by (simp add: shell_ok_def nul_at_end_def)
  ultimately show ?thesis using p(1) by (simp add: enter_key_def)
qed

lemma finsh_key_ok:
  assumes "shell_ok s" "inp \<noteq> Some (CHR 0x09)"
  shows "\<exists>s' out. finsh_key tab inp s = Some (s', out) \<and> shell_ok s'"
proof (cases inp)
  case None
  then show ?thesis using assms by (simp add: finsh_key_def)
next
  case (Some ch)
  have st: "shell_ok (s\<lparr>shell_stat := x\<rparr>)" for x using assms(1) by (simp add: shell_ok_def)
  let ?s = "s\<lparr>shell_stat := WAIT_NORMAL\<rparr>"
  have cnt: "unat (history_count s) \<le> 5" "unat (current_history s) \<le> unat (history_count s)"
    using assms(1) by (simp_all add: shell_ok_def word_le_nat_alt)
  have up: "\<exists>s' out. up_key ?s = Some (s', out) \<and> shell_ok s'"
  proof (cases "current_history s > 0")
    case True
    then have "current_history s - 1 < history_count s"
      using cnt word_dec_Suc [OF True] by (simp add: word_less_nat_alt)
    then show ?thesis using recall_ok [OF st, of "current_history s - 1" WAIT_NORMAL] True by (simp add: up_key_def)
  next
    case False
    then show ?thesis using st [of WAIT_NORMAL] by (simp add: up_key_def shell_ok_def)
  qed
  have down: "\<exists>s' out. down_key ?s = Some (s', out) \<and> shell_ok s'"
  proof (cases "int (unat (current_history s)) < int (unat (history_count s)) - 1")
    case True
    then have "Suc (unat (current_history s)) < unat (history_count s)" by linarith
    then have "current_history s + 1 < history_count s" using cnt by (simp add: word_less_nat_alt unat_word_ariths)
    then show ?thesis using recall_ok [OF st, of "current_history s + 1" WAIT_NORMAL] True by (simp add: down_key_def)
  next
    case no: False
    show ?thesis
    proof (cases "history_count s = 0")
      case True
      have "0 \<le> uint (current_history s)" by simp
      then have "\<not> uint (current_history s) < - 1" by linarith
      then show ?thesis using True st [of WAIT_NORMAL] by (simp add: down_key_def)
    next
      case False
      then have "history_count s - 1 < history_count s"
        using word_dec_Suc [of "history_count s"] word_zero_cases [of "history_count s"] by (auto simp: word_less_nat_alt)
      then show ?thesis using recall_ok [OF st, of "history_count s - 1" WAIT_NORMAL] False no by (simp add: down_key_def)
    qed
  qed
  have plain: "\<exists>s' out. plain_key tab ch ?s = Some (s', out) \<and> shell_ok s'"
    using editing_ok(1) [OF st [of WAIT_NORMAL], of ch] editing_ok(2) [OF st [of WAIT_NORMAL]] enter_ok [OF st [of WAIT_NORMAL], of tab]
      st [of WAIT_NORMAL] assms(2) Some by (auto simp: plain_key_def)
  have right: "\<exists>s' out. right_key ?s = Some (s', out) \<and> shell_ok s'" by (rule editing_ok(4) [OF st])
  have left: "shell_ok (fst (left_key ?s))" by (rule editing_ok(3) [OF st])
  then show ?thesis
    using st up down plain right Some by (auto simp: finsh_key_def Let_def intro: prod.exhaust_sel)
qed

lemma finsh_keys_ok:
  assumes "shell_ok s" "Some (CHR 0x09) \<notin> set inp"
  shows "\<exists>s' out. finsh_keys tab inp s = Some (s', out) \<and> shell_ok s'"
  using assms
proof (induction inp arbitrary: s)
  case (Cons x xs)
  then obtain s1 out1 where "finsh_key tab x s = Some (s1, out1)" "shell_ok s1"
    using finsh_key_ok [of s x tab] by auto
  moreover from this Cons obtain s2 out2 where "finsh_keys tab xs s1 = Some (s2, out2)" "shell_ok s2" by fastforce
  ultimately show ?case by simp
qed simp

section \<open>The terminal\<close>

text \<open>The row of a terminal that interprets what the shell prints while a line is edited: the characters and the
  column of the cursor.\<close>

type_synonym terminal = "string \<times> nat"

definition term_char :: "char \<Rightarrow> terminal \<Rightarrow> terminal" where
  "term_char c = (\<lambda>(row, col).
     if c = CHR 0x08 then (row, col - 1)
     else if c = CHR 0x0D then (row, 0)
     else (take col (row @ replicate col CHR '' '') @ c # drop (Suc col) row, Suc col))"

fun term_text :: "string \<Rightarrow> terminal \<Rightarrow> terminal" where
  "term_text [] tm = tm"
| "term_text (c # cs) tm =
     (if take 4 (c # cs) = [CHR 0x1B] @ ''[2K'' then term_text (drop 3 cs) ([], snd tm) else term_text cs (term_char c tm))"

fun term_events :: "shell_event list \<Rightarrow> terminal \<Rightarrow> terminal" where
  "term_events [] tm = tm"
| "term_events (Out t # es) tm = term_events es (term_text t tm)"
| "term_events (Call i as # es) tm = term_events es tm"

text \<open>The row shows a text, with nothing but blanks behind it.\<close>

definition shows_text :: "string \<Rightarrow> string \<Rightarrow> bool" where
  "shows_text row t \<longleftrightarrow> (\<exists>n. row = t @ replicate n CHR '' '')"

definition displays :: "string \<Rightarrow> editor \<Rightarrow> terminal \<Rightarrow> bool" where
  "displays p e tm \<longleftrightarrow> shows_text (fst tm) (p @ ed_text e) \<and> snd tm = length (p @ ed_left e)"

definition graphic :: "char \<Rightarrow> bool" where
  "graphic c \<longleftrightarrow> 32 \<le> (of_char c :: nat) \<and> (of_char c :: nat) < 127"

lemma graphic_simps [simp]:
  "\<not> graphic (CHR 0x08)" "\<not> graphic (CHR 0x0D)" "\<not> graphic (CHR 0x1B)" "\<not> graphic NUL" "\<not> graphic (CHR 0x0A)" "\<not> graphic (CHR 0x09)"
  "graphic CHR '' ''" "\<not> graphic (CHR 0x7F)" "\<not> graphic (CHR 0xFF)"
  by (simp_all add: graphic_def)

lemma term_char_backspace [simp]: "term_char CHR 0x08 (row, n) = (row, n - 1)"
  by (simp add: term_char_def)

lemma term_events_append [simp]: "term_events (a @ b) tm = term_events b (term_events a tm)"
  by (induction a tm rule: term_events.induct) auto

lemma term_events_kout: "length t < 255 \<Longrightarrow> term_events (kout t) tm = term_text t tm"
  by (simp add: kout_def)

text \<open>Printing a text over a row that is long enough or just at its end.\<close>

lemma term_text_graphic:
  assumes "\<forall>c \<in> set t. graphic c" "length a = n" "length b = length t \<or> c = [] \<and> length b \<le> length t"
  shows "term_text (t @ u) (a @ b @ c, n) = term_text u (a @ t @ c, n + length t)"
  using assms
proof (induction t arbitrary: a b n)
  case Nil
  then show ?case by auto
next
  case (Cons x t)
  have x: "x \<noteq> CHR 0x08" "x \<noteq> CHR 0x0D" "x \<noteq> CHR 0x1B" using Cons.prems(1) by auto
  have "term_char x (a @ b @ c, n) = ((a @ [x]) @ tl b @ c, Suc n)"
    using Cons.prems(2,3) x by (cases b) (auto simp: term_char_def)
  moreover have "length (tl b) = length t \<or> c = [] \<and> length (tl b) \<le> length t" using Cons.prems(3) by auto
  then have "term_text (t @ u) ((a @ [x]) @ tl b @ c, Suc n) = term_text u ((a @ [x]) @ t @ c, Suc n + length t)"
    using Cons.prems(1,2) by (intro Cons.IH) simp_all
  ultimately show ?case using x by simp
qed

lemma term_backspaces: "term_events (backspaces k) (row, n) = (row, n - k)"
  by (induction k arbitrary: n) (simp_all add: backspaces_def term_events_kout)

definition ed_graphic :: "editor \<Rightarrow> bool" where
  "ed_graphic e \<longleftrightarrow> (\<forall>c \<in> set (ed_text e). graphic c) \<and> (\<forall>t \<in> set (ed_hist e). \<forall>c \<in> set t. graphic c)"

text \<open>The keys that edit the line and nothing else.\<close>

definition editing_key :: "char option \<Rightarrow> bool" where
  "editing_key inp \<longleftrightarrow> (case inp of None \<Rightarrow> True | Some ch \<Rightarrow> graphic ch \<or> ch \<in> {CHR 0x1B, CHR 0x08, CHR 0x7F})"

lemma blanks_cases: "(n :: nat) = 0 \<or> (\<exists>m. n = Suc m)"
  by (cases n) auto

lemma displays_row:
  "displays p (ed_set l r e) (row, col) \<longleftrightarrow> (\<exists>n. row = (p @ l) @ r @ replicate n CHR '' '') \<and> col = length (p @ l)"
  by (simp add: displays_def shows_text_def ed_set_def ed_text_def)

lemma display_normal:
  assumes "\<forall>c \<in> set (ch # r). graphic c" "length r < 254"
  shows "\<exists>m. term_events (kout (ch # r) @ backspaces (length r)) (a @ r @ replicate n CHR '' '', length a) =
    ((a @ [ch]) @ r @ replicate m CHR '' '', length (a @ [ch]))"
proof (cases n)
  case 0
  have "term_text ((ch # r) @ []) (a @ r @ [], length a) = term_text [] (a @ (ch # r) @ [], length a + length (ch # r))"
    using assms(1) by (intro term_text_graphic) simp_all
  then show ?thesis using assms(2) 0 by (intro exI [of _ 0]) (simp add: term_events_kout term_backspaces)
next
  case (Suc m)
  have "term_text ((ch # r) @ []) (a @ (r @ '' '') @ replicate m CHR '' '', length a) =
    term_text [] (a @ (ch # r) @ replicate m CHR '' '', length a + length (ch # r))"
    using assms(1) by (intro term_text_graphic) simp_all
  then show ?thesis using assms(2) Suc by (intro exI [of _ m]) (simp add: term_events_kout term_backspaces)
qed

lemma display_backspace:
  assumes "\<forall>c \<in> set r. graphic c" "length r < 250"
  shows "\<exists>m. term_events (if r = [] then kout [CHR 0x08, CHR '' '', CHR 0x08]
        else kout ([CHR 0x08] @ r @ ''  '' @ [CHR 0x08]) @ backspaces (length r + 1))
      ((a @ [x]) @ r @ replicate n CHR '' '', length (a @ [x])) = (a @ r @ replicate m CHR '' '', length a)"
proof (cases "r = []")
  case True
  have "term_text ('' '' @ [CHR 0x08]) (a @ [x] @ replicate n CHR '' '', length a) =
    term_text [CHR 0x08] (a @ '' '' @ replicate n CHR '' '', length a + length '' '')"
    by (intro term_text_graphic) simp_all
  then show ?thesis using True by (intro exI [of _ "Suc n"]) (simp add: term_events_kout)
next
  case False
  have g: "\<forall>c \<in> set (r @ ''  ''). graphic c" using assms(1) by auto
  have e: "term_events (kout ([CHR 0x08] @ r @ ''  '' @ [CHR 0x08]) @ backspaces (length r + 1))
      ((a @ [x]) @ r @ replicate n CHR '' '', length (a @ [x])) =
    term_events (backspaces (length r + 1)) (term_text ((r @ ''  '') @ [CHR 0x08]) (a @ (x # r) @ replicate n CHR '' '', length a))"
    using assms(2) by (simp add: term_events_kout)
  show ?thesis
  proof (cases n)
    case 0
    have "term_text ((r @ ''  '') @ [CHR 0x08]) (a @ (x # r) @ [], length a) =
      term_text [CHR 0x08] (a @ (r @ ''  '') @ [], length a + length (r @ ''  ''))"
      using g by (intro term_text_graphic) simp_all
    then show ?thesis using False 0 e by (intro exI [of _ 2]) (simp add: term_backspaces eval_nat_numeral)
  next
    case (Suc m)
    have "term_text ((r @ ''  '') @ [CHR 0x08]) (a @ (x # r @ '' '') @ replicate m CHR '' '', length a) =
      term_text [CHR 0x08] (a @ (r @ ''  '') @ replicate m CHR '' '', length a + length (r @ ''  ''))"
      using g by (intro term_text_graphic) simp_all
    then show ?thesis using False Suc e by (intro exI [of _ "Suc (Suc m)"]) (simp add: term_backspaces)
  qed
qed

lemma display_recall:
  assumes "\<forall>c \<in> set (p @ t). graphic c" "length (p @ t) < 255"
  shows "term_events (kout ([CHR 0x1B] @ ''[2K'' @ [CHR 0x0D]) @ kout (p @ t)) tm = (p @ t, length (p @ t))"
proof -
  have "term_events (kout ([CHR 0x1B] @ ''[2K'' @ [CHR 0x0D])) tm = ([], 0)"
    by (simp add: term_events_kout term_char_def)
  moreover have "term_text ((p @ t) @ []) ([] @ [] @ [], 0) = term_text [] ([] @ (p @ t) @ [], 0 + length (p @ t))"
    using assms(1) by (intro term_text_graphic) simp_all
  ultimately show ?thesis using assms(2) by (simp add: term_events_kout)
qed

lemma display_right:
  assumes "graphic x"
  shows "term_events (kout [x]) (a @ x # r, length a) = (a @ x # r, Suc (length a))"
proof -
  have "term_text ([x] @ []) (a @ [x] @ r, length a) = term_text [] (a @ [x] @ r, length a + length [x])"
    using assms by (intro term_text_graphic) simp_all
  then show ?thesis by (simp add: term_events_kout)
qed

text \<open>What a key keeps: the terminal shows the line, and the settings of the shell.\<close>

definition in_sync :: "string \<Rightarrow> finsh_shell \<Rightarrow> editor \<Rightarrow> terminal \<Rightarrow> bool" where
  "in_sync p s e tm \<longleftrightarrow> displays p e tm \<and> ed_graphic e \<and> echo_mode s \<and> finsh_get_prompt s = Some p"

lemma in_sync_row:
  assumes "in_sync p s e tm"
  obtains n where "tm = ((p @ ed_left e) @ ed_right e @ replicate n CHR '' '', length (p @ ed_left e))"
  using assms by (cases tm) (auto simp: in_sync_def displays_def shows_text_def ed_text_def)

lemma in_sync_set:
  assumes "in_sync p s e tm" "\<forall>c \<in> set (l @ r). graphic c" "tm' = ((p @ l) @ r @ replicate n CHR '' '', length (p @ l))"
    and "echo_mode s' = echo_mode s" "finsh_get_prompt s' = finsh_get_prompt s"
  shows "in_sync p s' (ed_set l r e) tm'"
proof -
  have "displays p (ed_set l r e) tm'" using assms(3) by (auto simp: displays_row)
  moreover have "ed_graphic (ed_set l r e)" using assms(1,2) by (simp add: in_sync_def ed_graphic_def ed_set_def ed_text_def)
  ultimately show ?thesis using assms(1,4,5) by (simp add: in_sync_def)
qed

lemma recall_display:
  assumes "shell_is s e" "in_sync p s e tm" "i < length (ed_hist e)" "\<forall>c \<in> set p. graphic c" "length p < 170"
    and "recall_history (s\<lparr>current_history := of_nat i\<rparr>) = Some (s', out)"
  shows "in_sync p s' (ed_recall i e) (term_events out tm)"
proof -
  note d = shell_isD [OF assms(1)]
  have lt: "line_text (ed_hist e ! i)" using d(15) assms(3) by simp
  have g: "\<forall>c \<in> set (ed_hist e ! i). graphic c" using assms(2,3) nth_mem [OF assms(3)] unfolding in_sync_def ed_graphic_def by blast
  have "recall_history (s\<lparr>current_history := of_nat i\<rparr>) =
    Some (s\<lparr>current_history := of_nat i, line := padded (FINSH_CMD_SIZE + 1) (ed_hist e ! i), line_curpos := of_nat (length (ed_hist e ! i)),
      line_position := of_nat (length (ed_hist e ! i))\<rparr>,
    kout ([CHR 0x1B] @ ''[2K'' @ [CHR 0x0D]) @ kout (p @ ed_hist e ! i))"
    using d lt assms(2,3) by (intro recall_history_text) (simp_all add: ed_text_def in_sync_def)
  moreover have "term_events (kout ([CHR 0x1B] @ ''[2K'' @ [CHR 0x0D]) @ kout (p @ ed_hist e ! i)) tm = (p @ ed_hist e ! i, length (p @ ed_hist e ! i))"
    using g lt assms(4,5) by (intro display_recall) (auto simp: line_text_def)
  moreover have "in_sync p s (e\<lparr>ed_pos := i\<rparr>) tm" using assms(2) by (simp add: in_sync_def displays_def ed_graphic_def ed_text_def)
  ultimately show ?thesis
    using assms(6) g in_sync_set [of p s "e\<lparr>ed_pos := i\<rparr>" tm "ed_hist e ! i" "[]" _ 0 s'] by (auto simp: ed_recall_def)
qed

lemma func_key_display:
  assumes "shell_is s e" "in_sync p s e tm" "\<forall>c \<in> set p. graphic c" "length p < 170" "ch \<in> {CHR 0x41, CHR 0x42, CHR 0x43, CHR 0x44}"
    and "(if ch = CHR 0x41 then up_key s else if ch = CHR 0x42 then down_key s
      else if ch = CHR 0x44 then Some (left_key s) else right_key s) = Some (s', out)"
  shows "in_sync p s' (ed_func ch e) (term_events out tm)"
proof -
  note d = shell_isD [OF assms(1)]
  have c: "unat (current_history s) = ed_pos e" "unat (history_count s) = length (ed_hist e)"
    using d by (simp_all add: u16_small)
  obtain n where tm: "tm = ((p @ ed_left e) @ ed_right e @ replicate n CHR '' '', length (p @ ed_left e))"
    by (rule in_sync_row [OF assms(2)])
  have g: "\<forall>c \<in> set (ed_left e @ ed_right e). graphic c" using assms(2) by (simp add: in_sync_def ed_graphic_def ed_text_def)
  consider "ch = CHR 0x41" | "ch = CHR 0x42" | "ch = CHR 0x44" | "ch = CHR 0x43" using assms(5) by blast
  then show ?thesis
  proof cases
    case 1
    show ?thesis
    proof (cases "ed_pos e > 0")
      case True
      then have "current_history s > 0" "current_history s - 1 = of_nat (ed_pos e - 1)" "ed_pos e - 1 < length (ed_hist e)"
        using c d(11,12) by (auto simp: word_less_nat_alt of_nat_diff)
      then show ?thesis using recall_display [OF assms(1,2) _ assms(3,4), of "ed_pos e - 1" s' out] True 1 assms(6)
        by (simp add: up_key_def ed_func_def)
    next
      case False
      then have "\<not> current_history s > 0" "s\<lparr>current_history := 0\<rparr> = s" using d(11) by simp_all
      then show ?thesis using False 1 assms(2,6) by (simp add: up_key_def ed_func_def)
    qed
  next
    case 2
    show ?thesis
    proof (cases "ed_hist e = []")
      case True
      then show ?thesis using c d(10) 2 assms(2,6) by (simp add: down_key_def ed_func_def)
    next
      case False
      then have n0: "0 < length (ed_hist e)" by simp
      let ?i = "min (ed_pos e + 1) (length (ed_hist e) - 1)"
      have "down_key s = recall_history (s\<lparr>current_history := of_nat ?i\<rparr>)" by (rule down_key_recall [OF assms(1) False])
      moreover have "?i < length (ed_hist e)" using n0 by linarith
      moreover have "ed_func ch e = ed_recall ?i e" using 2 False by (simp add: ed_func_def)
      ultimately show ?thesis using recall_display [OF assms(1,2) _ assms(3,4), of ?i s' out] 2 assms(6) by simp
    qed
  next
    case 3
    show ?thesis
    proof (cases "ed_left e" rule: rev_cases)
      case Nil
      then show ?thesis using 3 d assms(2,6) by (simp add: left_key_def ed_func_def)
    next
      case (snoc l x)
      then have "left_key s = (s\<lparr>line_curpos := of_nat (length l)\<rparr>, kout [CHR 0x08])"
        using d by (intro left_key_text) simp_all
      then show ?thesis
        using 3 snoc assms(6) g tm in_sync_set [OF assms(2), of l "x # ed_right e" _ n s'] by (auto simp: ed_func_def term_events_kout)
    qed
  next
    case 4
    show ?thesis
    proof (cases "ed_right e")
      case Nil
      then show ?thesis using 4 d assms(2,6) by (simp add: right_key_def ed_func_def)
    next
      case (Cons x r)
      then have "right_key s = Some (s\<lparr>line_curpos := of_nat (length (ed_left e @ [x]))\<rparr>, kout [x])"
        using d by (intro right_key_text [of _ _ _ r]) simp_all
      moreover have "term_events (kout [x]) tm = ((p @ ed_left e @ [x]) @ r @ replicate n CHR '' '', length (p @ ed_left e @ [x]))"
        using display_right [of x "p @ ed_left e"] g Cons tm by simp
      ultimately show ?thesis
        using 4 Cons assms(6) g in_sync_set [OF assms(2), of "ed_left e @ [x]" r _ n s'] by (auto simp: ed_func_def)
    qed
  qed
qed

lemma plain_key_display:
  assumes "shell_is s e" "in_sync p s e tm" "editing_key (Some ch)" "ch \<noteq> CHR 0x1B" "length (ed_text (fst (ed_plain tab ch e))) < FINSH_CMD_SIZE"
    and "plain_key tab ch s = Some (s', out)"
  shows "in_sync p s' (fst (ed_plain tab ch e)) (term_events out tm)"
proof -
  note d = shell_isD [OF assms(1)]
  obtain n where tm: "tm = ((p @ ed_left e) @ ed_right e @ replicate n CHR '' '', length (p @ ed_left e))"
    by (rule in_sync_row [OF assms(2)])
  have g: "\<forall>c \<in> set (ed_left e @ ed_right e). graphic c" using assms(2) by (simp add: in_sync_def ed_graphic_def ed_text_def)
  show ?thesis
  proof (cases "ch = CHR 0x7F \<or> ch = CHR 0x08")
    case True
    then have pk: "plain_key tab ch s = backspace_key s"
      "ed_plain tab ch e = (if ed_left e = [] then e else ed_set (butlast (ed_left e)) (ed_right e) e, [])"
      by (auto simp: plain_key_def ed_plain_def)
    show ?thesis
    proof (cases "ed_left e" rule: rev_cases)
      case Nil
      then show ?thesis using assms(2,6) d(4) by (simp add: pk backspace_key_def)
    next
      case (snoc l x)
      have b: "backspace_key s = Some (s\<lparr>line := padded (FINSH_CMD_SIZE + 1) (l @ ed_right e),
          line_position := of_nat (length (l @ ed_right e)), line_curpos := of_nat (length l)\<rparr>,
        if ed_right e = [] then kout [CHR 0x08, CHR '' '', CHR 0x08]
        else kout ([CHR 0x08] @ ed_right e @ ''  '' @ [CHR 0x08]) @ backspaces (length (ed_right e) + 1))"
        using d snoc by (intro backspace_key_text [of _ _ x]) simp_all
      have tm2: "tm = (((p @ l) @ [x]) @ ed_right e @ replicate n CHR '' '', length ((p @ l) @ [x]))" using tm snoc by simp
      have "\<forall>c \<in> set (ed_right e). graphic c" "length (ed_right e) < 250" using g d(6) by auto
      from display_backspace [OF this, of "p @ l" x n] obtain m where
        "term_events (if ed_right e = [] then kout [CHR 0x08, CHR '' '', CHR 0x08]
          else kout ([CHR 0x08] @ ed_right e @ ''  '' @ [CHR 0x08]) @ backspaces (length (ed_right e) + 1)) tm =
         ((p @ l) @ ed_right e @ replicate m CHR '' '', length (p @ l))" unfolding tm2 by blast
      then show ?thesis
        using snoc g assms(6) b in_sync_set [OF assms(2), of l "ed_right e" "term_events out tm" m s'] by (auto simp: pk)
    qed
  next
    case False
    then have gr: "graphic ch" using assms(3,4) by (auto simp: editing_key_def)
    then have "ch \<notin> {NUL, CHR 0xFF, CHR 0x09, CHR 0x0D, CHR 0x0A}" by auto
    then have pk: "plain_key tab ch s = normal_key ch s" "ed_plain tab ch e = (ed_set (ed_left e @ [ch]) (ed_right e) e, [])"
      using False by (auto simp: plain_key_def ed_plain_def)
    have b: "length (ed_left e) + length (ed_right e) + 1 < FINSH_CMD_SIZE" using assms(5) by (simp add: pk ed_set_def ed_text_def)
    have nk: "normal_key ch s = Some (s\<lparr>line := padded (FINSH_CMD_SIZE + 1) (ed_left e @ ch # ed_right e),
        line_position := of_nat (length (ed_left e @ ch # ed_right e)), line_curpos := of_nat (length (ed_left e @ [ch]))\<rparr>,
      (if echo_mode s then kout (ch # ed_right e) else []) @ backspaces (length (ed_right e)))"
      using d b gr by (intro normal_key_text) auto
    have ec: "echo_mode s" using assms(2) by (simp add: in_sync_def)
    have "\<forall>c \<in> set (ch # ed_right e). graphic c" "length (ed_right e) < 254" using g gr b by auto
    from display_normal [OF this, of "p @ ed_left e" n] obtain m where
      "term_events (kout (ch # ed_right e) @ backspaces (length (ed_right e))) tm =
       (((p @ ed_left e) @ [ch]) @ ed_right e @ replicate m CHR '' '', length ((p @ ed_left e) @ [ch]))" unfolding tm by blast
    then show ?thesis
      using g gr assms(6) nk ec in_sync_set [OF assms(2), of "ed_left e @ [ch]" "ed_right e" "term_events out tm" m s'] by (auto simp: pk)
  qed
qed

lemma finsh_key_display:
  assumes "shell_is s e" "in_sync p s e tm" "\<forall>c \<in> set p. graphic c" "length p < 170" "editing_key inp"
    and "length (ed_text (fst (ed_key tab inp e))) < FINSH_CMD_SIZE" "finsh_key tab inp s = Some (s', out)"
  shows "in_sync p s' (fst (ed_key tab inp e)) (term_events out tm)"
proof (cases inp)
  case None
  then show ?thesis using assms(2,7) by (simp add: finsh_key_def ed_key_def)
next
  case (Some ch)
  have st: "shell_stat s = ed_stat e" using assms(1) by (simp add: shell_is_def)
  let ?s = "s\<lparr>shell_stat := WAIT_NORMAL\<rparr>" and ?e = "e\<lparr>ed_stat := WAIT_NORMAL\<rparr>"
  have n: "shell_is ?s ?e" by (rule shell_is_stat [OF assms(1)])
  have y: "in_sync p (s\<lparr>shell_stat := x\<rparr>) (e\<lparr>ed_stat := x\<rparr>) tm" for x
    using assms(2) by (simp add: in_sync_def displays_def ed_graphic_def ed_text_def)
  consider "ch = CHR 0x1B" | "ch \<noteq> CHR 0x1B" "ed_stat e = WAIT_SPEC_KEY \<and> ch = CHR 0x5B"
    | "ch \<noteq> CHR 0x1B" "ed_stat e = WAIT_FUNC_KEY" "ch \<in> {CHR 0x41, CHR 0x42, CHR 0x43, CHR 0x44}"
    | "ch \<noteq> CHR 0x1B" "\<not> (ed_stat e = WAIT_SPEC_KEY \<and> ch = CHR 0x5B)"
      "\<not> (ed_stat e = WAIT_FUNC_KEY \<and> ch \<in> {CHR 0x41, CHR 0x42, CHR 0x43, CHR 0x44})" by blast
  then show ?thesis
  proof cases
    case 1
    then show ?thesis using Some y assms(7) by (auto simp: finsh_key_def ed_key_def)
  next
    case 2
    then show ?thesis using Some st y assms(7) by (auto simp: finsh_key_def ed_key_def)
  next
    case 3
    then have "(if ch = CHR 0x41 then up_key ?s else if ch = CHR 0x42 then down_key ?s
      else if ch = CHR 0x44 then Some (left_key ?s) else right_key ?s) = Some (s', out)"
      using Some st assms(7) by (auto simp: finsh_key_def split: if_splits)
    from func_key_display [OF n y assms(3,4) 3(3) this] show ?thesis using 3 Some by (auto simp: ed_key_def)
  next
    case 4
    then have e: "ed_key tab inp e = ed_plain tab ch ?e" using Some by (auto simp: ed_key_def)
    have "plain_key tab ch ?s = Some (s', out)" using 4 Some st assms(7) by (auto simp: finsh_key_def split: if_splits)
    from plain_key_display [OF n y _ 4(1) _ this] show ?thesis using assms(5,6) e Some by simp
  qed
qed

lemma finsh_keys_display:
  assumes "shell_is s e" "in_sync p s e tm" "\<forall>c \<in> set p. graphic c" "length p < 170" "names_ok tab" "list_all editing_key inp"
    and "ed_fits tab inp e" "finsh_keys tab inp s = Some (s', out)"
  shows "in_sync p s' (fst (ed_keys tab inp e)) (term_events out tm)"
  using assms(1,2,6,7,8)
proof (induction inp arbitrary: s e tm out)
  case (Cons x xs)
  obtain s1 out1 where 1: "finsh_key tab x s = Some (s1, out1)" "shell_is s1 (fst (ed_key tab x e))"
    using finsh_key_edits [OF Cons.prems(1) assms(5), of x] Cons.prems(4) by auto
  then obtain out2 where 2: "finsh_keys tab xs s1 = Some (s', out2)" "out = out1 @ out2"
    using Cons.prems(5) by (auto split: bind_splits)
  have "in_sync p s1 (fst (ed_key tab x e)) (term_events out1 tm)"
    using finsh_key_display [OF Cons.prems(1,2) assms(3,4) _ _ 1(1)] Cons.prems(3,4) by simp
  then show ?case using Cons.IH [OF 1(2) _ _ _ 2(1)] Cons.prems(3,4) 2(2) by (simp add: split_beta)
qed simp

section \<open>The start\<close>

definition editor_init :: editor where
  "editor_init = \<lparr>ed_stat = WAIT_NORMAL, ed_left = [], ed_right = [], ed_hist = [], ed_pos = 0\<rparr>"

lemma shell_init_is: "shell_is (finsh_shell_init\<lparr>echo_mode := True\<rparr>) editor_init"
  by (simp add: shell_is_def finsh_shell_init_def editor_init_def finsh_set_prompt_mode_def finsh_get_prompt_def ed_text_def line_text_def padded_Nil)

lemma shell_init_ok: "shell_ok (finsh_shell_init\<lparr>echo_mode := True\<rparr>)"
  by (simp add: shell_ok_def finsh_shell_init_def finsh_set_prompt_mode_def finsh_get_prompt_def nul_at_end_def)

lemma prompt_init: "finsh_get_prompt (finsh_shell_init\<lparr>echo_mode := b\<rparr>) = Some ''msh >''"
  by (simp add: finsh_shell_init_def finsh_set_prompt_mode_def finsh_get_prompt_def)

section \<open>A line of eighty characters\<close>

text \<open>Typing over the rest of an old line.\<close>

lemma plain_stat:
  assumes "shell_stat s = WAIT_NORMAL" "ch \<noteq> CHR 0x1B"
  shows "finsh_key tab (Some ch) s = plain_key tab ch s"
proof -
  have "finsh_key tab (Some ch) s = plain_key tab ch (s\<lparr>shell_stat := WAIT_NORMAL\<rparr>)"
    using assms by (simp add: finsh_key_def)
  also have "s\<lparr>shell_stat := WAIT_NORMAL\<rparr> = s" by (simp flip: assms(1))
  finally show ?thesis .
qed

lemma plain_graphic:
  assumes "graphic ch" "shell_stat s = WAIT_NORMAL"
  shows "finsh_key tab (Some ch) s = normal_key ch s"
proof -
  have "ch \<notin> {CHR 0x1B, NUL, CHR 0xFF, CHR 0x09, CHR 0x7F, CHR 0x08, CHR 0x0D, CHR 0x0A}" using assms(1) by auto
  then show ?thesis using plain_stat [OF assms(2), of ch] by (simp add: plain_key_def)
qed

lemma type_over:
  assumes "line s = u @ z" "line_position s = of_nat (length u)" "line_curpos s = of_nat (length u)" "shell_stat s = WAIT_NORMAL"
    and "\<forall>c \<in> set w. graphic c" "length u + length w < FINSH_CMD_SIZE" "length z = FINSH_CMD_SIZE + 1 - length u" "nul_at_end z"
  shows "\<exists>out. finsh_keys tab (map Some w) s = Some (s\<lparr>line := u @ w @ drop (length w) z,
      line_position := of_nat (length (u @ w)), line_curpos := of_nat (length (u @ w))\<rparr>, out) \<and> calls out = []"
  using assms
proof (induction w arbitrary: s u z)
  case Nil
  then have "s\<lparr>line := u @ z, line_position := of_nat (length u), line_curpos := of_nat (length u)\<rparr> = s" by simp
  then show ?case by simp
next
  case (Cons c w)
  obtain y v where z: "z = y # v" using Cons.prems(6,7) by (cases z) auto
  have v: "nul_at_end v" "length v = FINSH_CMD_SIZE - length u" using Cons.prems(6-8) z by (auto simp: nul_at_end_def split: if_splits)
  let ?s = "s\<lparr>line := (u @ [c]) @ v, line_position := of_nat (length (u @ [c])), line_curpos := of_nat (length (u @ [c]))\<rparr>"
  have "normal_key c s = Some (?s, (if echo_mode s then kout [c] else []))"
    using normal_key_mem [of s u "[]" y v c] Cons.prems(1-3,6) z nul_at_end_set [OF v(1)]
    by (simp add: backspaces_def)
  then have k: "finsh_key tab (Some c) s = Some (?s, (if echo_mode s then kout [c] else []))"
    using plain_graphic [of c s tab] Cons.prems(4,5) by simp
  have "\<exists>out. finsh_keys tab (map Some w) ?s = Some (?s\<lparr>line := (u @ [c]) @ w @ drop (length w) v,
      line_position := of_nat (length ((u @ [c]) @ w)), line_curpos := of_nat (length ((u @ [c]) @ w))\<rparr>, out) \<and> calls out = []"
    using Cons.prems v by (intro Cons.IH) auto
  then show ?case using k z by auto
qed

lemma finsh_keys_append:
  "finsh_keys tab (xs @ ys) s = do {
     (s1, o1) \<leftarrow> finsh_keys tab xs s;
     (s2, o2) \<leftarrow> finsh_keys tab ys s1;
     Some (s2, o1 @ o2) }"
  by (induction xs arbitrary: s) (auto split: bind_splits)

text \<open>After eighty characters the positions are reset, but the characters stay.\<close>

lemma type_eighty:
  assumes "length t = FINSH_CMD_SIZE" "\<forall>c \<in> set t. graphic c"
  shows "\<exists>out. finsh_keys tab (map Some t) (finsh_shell_init\<lparr>echo_mode := True\<rparr>) =
    Some (finsh_shell_init\<lparr>echo_mode := True, line := t @ [NUL], line_position := 0, line_curpos := 0\<rparr>, out) \<and> calls out = []"
proof -
  obtain u c where t: "t = u @ [c]" using assms(1) by (cases t rule: rev_cases) auto
  let ?s = "finsh_shell_init\<lparr>echo_mode := True\<rparr>"
  have s: "line ?s = replicate 81 NUL" "line_position ?s = 0" "line_curpos ?s = 0" "shell_stat ?s = WAIT_NORMAL"
    by (simp_all add: finsh_shell_init_def finsh_set_prompt_mode_def)
  have "nul_at_end (replicate 81 NUL)" by (simp add: nul_at_end_def)
  then obtain out where o: "finsh_keys tab (map Some u) ?s = Some (?s\<lparr>line := u @ [NUL, NUL],
      line_position := 79, line_curpos := 79\<rparr>, out)" "calls out = []"
    using type_over [of ?s "[]" "replicate 81 NUL" u tab] s assms t by (auto simp: eval_nat_numeral)
  have "normal_key c (?s\<lparr>line := u @ [NUL, NUL], line_position := 79, line_curpos := 79\<rparr>) =
    Some (?s\<lparr>line := u @ [c, NUL], line_position := 0, line_curpos := 0\<rparr>, kout [c])"
    using normal_key_mem [of "?s\<lparr>line := u @ [NUL, NUL], line_position := 79, line_curpos := 79\<rparr>" u "[]" NUL "[NUL]" c] assms(1) t
    by (simp add: backspaces_def)
  then have "finsh_key tab (Some c) (?s\<lparr>line := u @ [NUL, NUL], line_position := 79, line_curpos := 79\<rparr>) =
    Some (?s\<lparr>line := u @ [c, NUL], line_position := 0, line_curpos := 0\<rparr>, kout [c])"
    using plain_graphic assms(2) t s(4) by simp
  then show ?thesis using o t by (simp add: finsh_keys_append)
qed

text \<open>Then the Tab key makes the position eighty, the next character makes the cursor lie behind the end of the line,
  and the second backspace wraps the position around to 65535.\<close>

lemma complete_loop_no_match: "NUL \<notin> set t \<Longrightarrow> \<forall>x \<in> set tab. \<not> prefix t (syscall_name x) \<Longrightarrow> complete_loop t tab None 0 = (None, 0, [])"
  by (induction tab) (simp_all add: strncmp_prefix)

lemma tab_after_eighty:
  assumes "length t = FINSH_CMD_SIZE" "NUL \<notin> set t" "\<forall>x \<in> set tab. length (syscall_name x) < FINSH_CMD_SIZE"
    and "line s = t @ [NUL]" "finsh_get_prompt s = Some p"
  shows "\<exists>out. tab_key tab s = Some (s\<lparr>line := t @ [NUL], line_curpos := 80, line_position := 80\<rparr>, out)"
proof -
  have "\<forall>x \<in> set tab. \<not> prefix t (syscall_name x)"
    using assms(1,3) prefix_length_le by (metis leD)
  then have "complete_loop t tab None 0 = (None, 0, [])" by (rule complete_loop_no_match [OF assms(2)])
  moreover have "takeWhile (\<lambda>c. c \<noteq> NUL) (t @ replicate 1 NUL) = t" by (rule takeWhile_NUL [OF assms(2)])
  then have "cstr (t @ [NUL]) = Some t" by (simp add: cstr_def)
  moreover have "t \<noteq> []" using assms(1) by auto
  ultimately show ?thesis using assms(1,4,5)
    by (simp add: tab_key_def shell_auto_complete_def msh_auto_complete_def)
qed

lemma eighty_tab_overrun:
  assumes "length t = FINSH_CMD_SIZE" "\<forall>c \<in> set t. graphic c" "\<forall>x \<in> set tab. length (syscall_name x) < FINSH_CMD_SIZE" "graphic x"
  shows "finsh_thread_entry tab (map Some t @ [Some (CHR 0x09), Some x, Some (CHR 0x08), Some (CHR 0x08)]) finsh_shell_init = None"
proof -
  let ?s = "finsh_shell_init\<lparr>echo_mode := True, line := t @ [NUL], line_position := 0, line_curpos := 0\<rparr>"
  obtain out where t: "finsh_keys tab (map Some t) (finsh_shell_init\<lparr>echo_mode := True\<rparr>) = Some (?s, out)"
    using type_eighty [OF assms(1,2)] by blast
  have st: "shell_stat ?s = WAIT_NORMAL" "finsh_get_prompt ?s = Some ''msh >''"
    using prompt_init [of True] by (simp add: finsh_shell_init_def finsh_set_prompt_mode_def, simp)
  have nul: "NUL \<notin> set t" using assms(2) by auto
  let ?s1 = "finsh_shell_init\<lparr>echo_mode := True, line := t @ [NUL], line_position := 80, line_curpos := 80\<rparr>"
  have "finsh_key tab (Some (CHR 0x09)) s = tab_key tab s" "finsh_key tab (Some (CHR 0x08)) s = backspace_key s"
    if "shell_stat s = WAIT_NORMAL" for s
    using plain_stat [OF that] by (simp_all add: plain_key_def)
  note key = this
  obtain out1 where k1: "finsh_key tab (Some (CHR 0x09)) ?s = Some (?s1, out1)"
    using tab_after_eighty [OF assms(1) nul assms(3), of ?s] st key(1) [OF st(1)] by auto
  let ?s2 = "finsh_shell_init\<lparr>echo_mode := True, line := (t @ [NUL])[0 := x], line_position := 1, line_curpos := 81\<rparr>"
  have "finsh_key tab (Some x) ?s1 = normal_key x ?s1" using plain_graphic [OF assms(4)] st(1) by simp
  also have "\<dots> = Some (?s2, kout [x])" by (simp add: normal_key_def store_char_def)
  finally have k2: "finsh_key tab (Some x) ?s1 = Some (?s2, kout [x])" .
  let ?s3 = "finsh_shell_init\<lparr>echo_mode := True, line := (t @ [NUL])[0 := NUL], line_position := 0, line_curpos := 80\<rparr>"
  have "backspace_key ?s2 = Some (?s3, kout [CHR 0x08, CHR '' '', CHR 0x08])"
    by (simp add: backspace_key_def store_char_def)
  then have k3: "finsh_key tab (Some (CHR 0x08)) ?s2 = Some (?s3, kout [CHR 0x08, CHR '' '', CHR 0x08])"
    using key(2) st(1) by simp
  have "backspace_key ?s3 = None" using assms(1) by (simp add: backspace_key_def move_chars_def)
  then have k4: "finsh_key tab (Some (CHR 0x08)) ?s3 = None" using key(2) st(1) by simp
  show ?thesis using t k1 k2 k3 k4 prompt_init [of True]
    by (simp add: finsh_thread_entry_def finsh_keys_append)
qed

text \<open>A command typed after eighty characters gets the rest of them as part of its name.\<close>

lemma stale_characters:
  assumes "length t = FINSH_CMD_SIZE" "\<forall>c \<in> set t. graphic c" "\<forall>c \<in> set w. graphic c \<and> c \<noteq> CHR '' '' \<and> c \<noteq> CHR 0x22" "w \<noteq> []"
    and "length w < FINSH_CMD_SIZE" "lookup tab w = Some i"
  shows "\<exists>s out. finsh_thread_entry tab (map Some t @ map Some w @ [Some (CHR 0x0D)]) finsh_shell_init = Some (s, out) \<and>
    calls out = [(i, [w @ drop (length w) t])]"
proof -
  let ?s = "finsh_shell_init\<lparr>echo_mode := True, line := t @ [NUL], line_position := 0, line_curpos := 0\<rparr>"
  obtain out where t: "finsh_keys tab (map Some t) (finsh_shell_init\<lparr>echo_mode := True\<rparr>) = Some (?s, out)" "calls out = []"
    using type_eighty [OF assms(1,2)] by blast
  have st: "shell_stat ?s = WAIT_NORMAL" by (simp add: finsh_shell_init_def finsh_set_prompt_mode_def)
  define z where "z = drop (length w) t @ [NUL]"
  have dr: "drop (length w) (t @ [NUL]) = z" using assms(1,5) by (simp add: z_def)
  let ?s1 = "?s\<lparr>line := w @ z, line_position := of_nat (length w), line_curpos := of_nat (length w)\<rparr>"
  obtain out1 where k: "finsh_keys tab (map Some w) ?s = Some (?s1, out1)" "calls out1 = []"
    using type_over [of ?s "[]" "t @ [NUL]" w tab, unfolded dr] st assms(1,3,5) by (simp add: nul_at_end_def) blast
  have nw: "NUL \<notin> set w" using assms(3) graphic_simps(4) by blast
  have ok: "shell_ok ?s1"
  proof -
    have "NUL \<notin> set (take (length w) (w @ z))" using nw by simp
    moreover have "nul_at_end (w @ z)" "length (w @ z) = 81" using assms(1,5) by (simp_all add: z_def nul_at_end_def)
    ultimately show ?thesis
      using shell_ok_set(1) [OF shell_init_ok, of "w @ z" "length w" "length w"] assms(5) by simp
  qed
  have bl: "\<forall>c \<in> set w. \<not> blank c" using assms(3) graphic_simps(6) unfolding blank_def by blast
  have tw: "takeWhile (\<lambda>c. \<not> blank c) w = w" "dropWhile blank w = w" using bl assms(4) by (simp_all add: takeWhile_eq_all_conv dropWhile_eq_self_iff)
  have zne: "z \<noteq> []" by (simp add: z_def)
  note fw = first_word [OF zne nw tw(1) [symmetric]]
  have u0: "unread (w @ z) (length w) 0 = w" by (simp add: unread_def)
  have split: "msh_split (w @ z) (length w) = Some ([0], w @ z, [])"
  proof -
    have "strip_blanks (length w) (w @ z) 0 = Some (w @ z, 0)"
      using strip_blanks_text [of "length w" "w @ z" 0 w] zne u0 bl assms(4) by (cases w) simp_all
    moreover have "(w @ z) ! 0 \<noteq> CHR 0x22" using assms(3,4) by (cases w) auto
    ultimately show ?thesis using fw(1) assms(4)
      unfolding msh_split_def by (subst split_loop.simps) simp
  qed
  have "NUL \<notin> set (drop (length w) t)" using assms(2) in_set_dropD [of NUL "length w" t] graphic_simps(4) by blast
  then have "takeWhile (\<lambda>c. c \<noteq> NUL) ((w @ drop (length w) t) @ replicate 1 NUL) = w @ drop (length w) t"
    using nw by (intro takeWhile_NUL) simp
  then have as: "cstr (w @ z) = Some (w @ drop (length w) t)" by (simp add: cstr_def z_def)
  have tk: "takeWhile (\<lambda>c. c \<noteq> NUL) w = w" using nw by (auto simp: takeWhile_eq_all_conv)
  have "msh_exec_cmd tab (w @ z) (length w) = Some (0, syscall_func (tab ! i) [w @ drop (length w) t], w @ z, [Call i [w @ drop (length w) t]])"
    using fw(1) tk split as assms(4,6) msh_get_cmd_lookup [OF nw, of tab] by (simp add: msh_exec_cmd_def del: takeWhile_eq_all_conv)
  then have ex: "msh_exec tab (w @ z) (length w) = Some (syscall_func (tab ! i) [w @ drop (length w) t], [Call i [w @ drop (length w) t]])"
    using trim_command_text [of w z] tw(2) assms(4) by (simp add: msh_exec_def)
  obtain s2 where ph: "shell_push_history ?s1 = Some s2" "shell_ok s2" "line s2 = w @ z" "line_position s2 = of_nat (length w)"
    using push_history_ok [OF ok] by auto
  have n: "unat (of_nat (length w) :: 16 word) = length w" using assms(5) by (simp add: u16_small)
  obtain pr where "finsh_get_prompt s2 = Some pr" using ph(2) by (auto simp: shell_ok_def)
  then obtain s3 out3 where en: "enter_key tab ?s1 = Some (s3, out3)" "calls out3 = [(i, [w @ drop (length w) t])]"
    using ph ex n by (simp add: enter_key_def)
  have "finsh_key tab (Some (CHR 0x0D)) ?s1 = enter_key tab ?s1"
    using plain_stat [of ?s1 "CHR 0x0D" tab] st by (simp add: plain_key_def)
  then show ?thesis using t k en prompt_init [of True]
    by (simp add: finsh_thread_entry_def finsh_keys_append)
qed

section \<open>Properties\<close>

text \<open>C15: The shell implements the editor. Whatever is typed, completion, history, cursor and escape sequences included,
  as long as no line reaches eighty characters, the shell survives, runs exactly the commands of the
  specification with the first ten of their arguments, and its line, cursor and history are those of the editor.\<close>

theorem shell_refines_editor:
  assumes "names_ok tab" "ed_fits tab inp editor_init"
  shows "\<exists>s out. finsh_thread_entry tab inp finsh_shell_init = Some (s, out) \<and>
    calls out = snd (ed_keys tab inp editor_init) \<and> shell_is s (fst (ed_keys tab inp editor_init))"
  using finsh_keys_edits [OF shell_init_is assms] prompt_init [of True]
  by (auto simp: finsh_thread_entry_def)

text \<open>C16: Without the Tab key no sequence of characters, lines of any length included, makes the shell access memory outside
  its line, its history or a command name.\<close>

theorem shell_memory_safe:
  assumes "Some (CHR 0x09) \<notin> set inp"
  shows "\<exists>s out. finsh_thread_entry tab inp finsh_shell_init = Some (s, out) \<and> shell_ok s"
  using finsh_keys_ok [OF shell_init_ok assms, of tab] prompt_init [of True]
  by (auto simp: finsh_thread_entry_def)

text \<open>C17: What you see is what the shell holds. While a line is edited, with the cursor and history keys, the terminal
  shows the prompt and the text of the line, nothing else, and its cursor is the cursor of the line.\<close>

theorem shell_terminal_in_sync:
  assumes "shell_is s e" "in_sync p s e tm" "\<forall>c \<in> set p. graphic c" "length p < 170" "names_ok tab" "list_all editing_key inp"
    and "ed_fits tab inp e"
  shows "\<exists>s' out. finsh_keys tab inp s = Some (s', out) \<and> shell_is s' (fst (ed_keys tab inp e)) \<and>
    displays p (fst (ed_keys tab inp e)) (term_events out tm)"
proof -
  obtain s' out where k: "finsh_keys tab inp s = Some (s', out)" "shell_is s' (fst (ed_keys tab inp e))"
    using finsh_keys_edits [OF assms(1,5,7)] by blast
  moreover have "displays p (fst (ed_keys tab inp e)) (term_events out tm)"
    using finsh_keys_display [OF assms k(1)] by (simp add: in_sync_def)
  ultimately show ?thesis by blast
qed

text \<open>Examples with two commands.\<close>

definition demo_tab :: "finsh_syscall list" where
  "demo_tab = [\<lparr>syscall_name = ''ps'', syscall_desc = ''List threads'', syscall_func = (\<lambda>_. 0)\<rparr>,
    \<lparr>syscall_name = ''free'', syscall_desc = ''Show memory'', syscall_func = (\<lambda>_. 0)\<rparr>]"

definition demo_command :: "char option list" where
  "demo_command = map Some (''fr'' @ [CHR 0x09] @ '' x'' @ [CHR 0x08] @ ''z'' @ [CHR 0x0D])"

definition demo_edit :: "char option list" where
  "demo_edit = map Some (''ac'' @ [CHR 0x1B, CHR 0x5B, CHR 0x44] @ ''b'')"

lemma demo_command_runs: "names_ok demo_tab" "ed_fits demo_tab demo_command editor_init"
  "snd (ed_keys demo_tab demo_command editor_init) = [(1, [''free'', ''z''])]"
  by code_simp+

lemma demo_edit_result: "ed_fits demo_tab demo_edit editor_init" "list_all editing_key demo_edit"
  "ed_text (fst (ed_keys demo_tab demo_edit editor_init)) = ''abc''"
  by code_simp+

theorem shell_refines_editor_witness:
  "\<exists>s out. finsh_thread_entry demo_tab demo_command finsh_shell_init = Some (s, out) \<and> calls out = [(1, [''free'', ''z''])]"
  using shell_refines_editor [OF demo_command_runs(1,2)] demo_command_runs(3) by auto

theorem shell_memory_safe_witness:
  "\<exists>s out. finsh_thread_entry demo_tab (replicate 200 (Some CHR ''a'')) finsh_shell_init = Some (s, out) \<and> shell_ok s"
proof -
  have "Some (CHR 0x09) \<notin> set (replicate 200 (Some CHR ''a''))" by simp
  from shell_memory_safe [OF this] show ?thesis .
qed

theorem shell_terminal_in_sync_witness:
  "\<exists>s' out e'. finsh_keys demo_tab demo_edit (finsh_shell_init\<lparr>echo_mode := True\<rparr>) = Some (s', out) \<and>
    displays ''msh >'' e' (term_events out (''msh >'', 5)) \<and> ed_text e' = ''abc''"
proof -
  have "in_sync ''msh >'' (finsh_shell_init\<lparr>echo_mode := True\<rparr>) editor_init (''msh >'', 5)"
    using prompt_init [of True]
    by (simp add: in_sync_def displays_def shows_text_def ed_graphic_def editor_init_def ed_text_def)
  moreover have "\<forall>c \<in> set ''msh >''. graphic c" "length ''msh >'' < 170" by (simp_all add: graphic_def)
  ultimately show ?thesis
    using shell_terminal_in_sync [OF shell_init_is _ _ _ demo_command_runs(1) demo_edit_result(2,1)] demo_edit_result(3) by blast
qed

end
