(* ===== verification/Syn6288.thy ===== *)
theory Syn6288
  imports Prelude
begin

text \<open>
  The speech synthesiser (\<^verbatim>\<open>hardware/syn6288/syn6288.c\<close> and \<^verbatim>\<open>syn6288_uart.c\<close>): the frame that carries a
  text, the commands, and the bytes the routines put on USART1. A C string is the array that holds it,
  terminator included. A routine returns the bytes it sends; \<^term>\<open>None\<close> is an access outside an array.
\<close>

section \<open>Strings\<close>

definition strlen :: "8 word list \<Rightarrow> nat option" where
  "strlen s = (if 0 \<in> set s then Some (length (takeWhile (\<lambda>b. b \<noteq> 0) s)) else None)"

lemma strlen_terminated: "0 \<notin> set t \<Longrightarrow> strlen (t @ 0 # rest) = Some (length t)"
proof -
  assume "0 \<notin> set t"
  then have "takeWhile (\<lambda>b. b \<noteq> 0) (t @ 0 # rest) = t"
    by (induction t) auto
  then show ?thesis
    by (simp add: strlen_def)
qed

section \<open>The UART\<close>

text \<open>The loop of \<^verbatim>\<open>USART1_SendString\<close>: \<open>len\<close> bytes starting at the pointer, one \<^verbatim>\<open>USART1_SendData\<close> each.\<close>

definition USART1_SendData :: "8 word \<Rightarrow> 8 word list" where
  "USART1_SendData ucch = [ucch]"

definition USART1_SendString :: "8 word list \<Rightarrow> 8 word \<Rightarrow> 8 word list option" where
  "USART1_SendString DAT len =
     (if unat len \<le> length DAT then Some (concat (map USART1_SendData (take (unat len) DAT))) else None)"

definition pack_num :: nat where "pack_num = 5"

definition data_test :: "8 word list \<Rightarrow> bool" where
  "data_test data =
     (if data ! 0 \<noteq> 0xa3 then False
      else if data ! 1 \<noteq> 0xb3 then False
      else if data ! (pack_num - 1) \<noteq> 0x5a then False
      else True)"

section \<open>Speech frames\<close>

definition SYN_FrameInfo :: "8 word \<Rightarrow> 8 word list \<Rightarrow> 8 word list option" where
  "SYN_FrameInfo Music HZdata = do {
     n \<leftarrow> strlen HZdata;
     let HZ_Length = (of_nat n :: 8 word);
     let head = [0xFD, 0x00, HZ_Length + 3, 0x01, 0x01 OR push_bit 4 Music];
     let text = take (unat HZ_Length) HZdata;
     let ecc = fold (XOR) text (fold (XOR) head 0);
     rt_assert (5 + unat HZ_Length + 1 \<le> 50);
     USART1_SendString (head @ text @ [ecc] @ replicate (50 - (5 + unat HZ_Length + 1)) 0) (5 + HZ_Length + 1) }"

definition YS_SYN_Set :: "8 word list \<Rightarrow> 8 word list option" where
  "YS_SYN_Set Info_data = do {
     n \<leftarrow> strlen Info_data;
     USART1_SendString Info_data (of_nat n) }"

text \<open>The commands of \<^verbatim>\<open>processing.c\<close>.\<close>

definition SYN_StopCom :: "8 word list" where "SYN_StopCom = [0xFD, 0x00, 0x02, 0x02, 0xFD]"
definition SYN_SuspendCom :: "8 word list" where "SYN_SuspendCom = [0xFD, 0x00, 0x02, 0x03, 0xFC]"
definition SYN_RecoverCom :: "8 word list" where "SYN_RecoverCom = [0xFD, 0x00, 0x02, 0x04, 0xFB]"
definition SYN_ChackCom :: "8 word list" where "SYN_ChackCom = [0xFD, 0x00, 0x02, 0x21, 0xDE]"
definition SYN_PowerDownCom :: "8 word list" where "SYN_PowerDownCom = [0xFD, 0x00, 0x02, 0x88, 0x77]"

section \<open>What is sent\<close>

lemma USART1_SendString_take: "unat len \<le> length DAT \<Longrightarrow> USART1_SendString DAT len = Some (take (unat len) DAT)"
proof -
  have "concat (map USART1_SendData xs) = xs" for xs
    by (induction xs) (simp_all add: USART1_SendData_def)
  then show "unat len \<le> length DAT \<Longrightarrow> USART1_SendString DAT len = Some (take (unat len) DAT)"
    by (simp add: USART1_SendString_def)
qed

lemma USART1_SendString_prefix: "unat len = length xs \<Longrightarrow> USART1_SendString (xs @ ys) len = Some xs"
  by (simp add: USART1_SendString_take)

lemma fold_xor_self: "fold (XOR) xs c = c XOR fold (XOR) xs (0::8 word)"
proof (induction xs arbitrary: c)
  case (Cons x xs)
  show ?case
    using Cons [of "x XOR c"] Cons [of "x XOR 0"] by (simp add: ac_simps)
qed simp

text \<open>A receiver of the synthesiser's protocol: the start byte, the two bytes of the length, and as many
  bytes as the length says, whose last makes the exclusive-or of the whole frame zero.\<close>

definition syn_receive :: "8 word list \<Rightarrow> (8 word \<times> 8 word \<times> 8 word list) option" where
  "syn_receive f =
     (if length f \<ge> 6 \<and> f ! 0 = 0xFD \<and> length f = 3 + 256 * unat (f ! 1) + unat (f ! 2) \<and> fold (XOR) f 0 = 0
      then Some (f ! 3, f ! 4, butlast (drop 5 f)) else None)"

lemma SYN_FrameInfo_short:
  assumes nz: "0 \<notin> set t" and short: "length t \<le> 44"
  shows "\<exists>f. SYN_FrameInfo m (t @ 0 # rest) = Some f \<and>
    syn_receive f = Some (0x01, 0x01 OR push_bit 4 m, t)"
proof -
  have n: "unat (of_nat (length t) :: 8 word) = length t"
    using short by (simp add: unat_of_nat take_bit_nat_eq_self)
  have len: "strlen (t @ 0 # rest) = Some (length t)"
    using nz by (rule strlen_terminated)
  let ?l = "of_nat (length t) :: 8 word"
  let ?head = "[0xFD, 0x00, ?l + 3, 0x01, 0x01 OR push_bit 4 m]"
  let ?ecc = "fold (XOR) t (fold (XOR) ?head 0)"
  have total: "unat (5 + ?l + 1) = 6 + length t"
    using short n by (simp add: unat_word_ariths)
  have l3: "unat (?l + 3) = length t + 3"
    using short n by (simp add: unat_word_ariths)
  have "SYN_FrameInfo m (t @ 0 # rest) = Some (?head @ t @ [?ecc])"
    using short total USART1_SendString_prefix [of "5 + ?l + 1" "?head @ t @ [?ecc]" "replicate (44 - length t) 0"]
    by (simp add: SYN_FrameInfo_def len n Let_def)
  moreover have "fold (XOR) (?head @ t @ [?ecc]) 0 = 0"
    using fold_xor_self [of t "fold (XOR) ?head 0"] by (simp add: ac_simps)
  then have "syn_receive (?head @ t @ [?ecc]) = Some (0x01, 0x01 OR push_bit 4 m, t)"
    by (simp add: syn_receive_def l3 butlast_append del: fold_append fold_simps)
  ultimately show ?thesis
    by blast
qed

lemma SYN_FrameInfo_long:
  assumes "0 \<notin> set t" and "44 < length t" and "length t \<le> 255"
  shows "SYN_FrameInfo m (t @ 0 # rest) = None"
  using assms by (simp add: SYN_FrameInfo_def strlen_terminated Let_def unat_of_nat take_bit_nat_eq_self)

text \<open>The number of bytes of \<^verbatim>\<open>Frame_Info\<close> that \<^verbatim>\<open>SYN_FrameInfo\<close> writes; the array has 50.\<close>

definition SYN_frame_length :: "8 word list \<Rightarrow> nat option" where
  "SYN_frame_length HZdata = map_option (\<lambda>n. 5 + unat (of_nat n :: 8 word) + 1) (strlen HZdata)"

lemma SYN_FrameInfo_overruns_iff:
  assumes "SYN_frame_length HZdata = Some n"
  shows "SYN_FrameInfo m HZdata = None \<longleftrightarrow> 50 < n"
proof -
  obtain l where l: "strlen HZdata = Some l" and n: "n = 5 + unat (of_nat l :: 8 word) + 1"
    using assms by (auto simp: SYN_frame_length_def)
  have le: "unat (of_nat l :: 8 word) \<le> length HZdata"
  proof -
    have "l \<le> length HZdata"
      using l by (auto simp: strlen_def intro: length_takeWhile_le split: if_splits)
    then show ?thesis
      by (auto simp: unat_of_nat intro: order_trans [OF take_bit_nat_less_eq_self])
  qed
  have len: "unat (6 + (of_nat l :: 8 word)) = n" if "n \<le> 50"
    using that by (simp add: n unat_word_ariths)
  show ?thesis
  proof (cases "n \<le> 50")
    case True
    then show ?thesis
      using len le n by (simp add: SYN_FrameInfo_def l Let_def USART1_SendString_def)
  next
    case False
    then show ?thesis
      using n by (simp add: SYN_FrameInfo_def l Let_def)
  qed
qed

text \<open>C38: A text of at most 44 bytes reaches the synthesiser: the frame that \<^verbatim>\<open>SYN_FrameInfo\<close> sends is
  accepted by a receiver of the protocol, which recovers the play command, the music selection and the
  text. A longer text of up to 255 bytes makes the function write past its 50-byte frame buffer.\<close>

theorem SYN_FrameInfo_received:
  assumes "0 \<notin> set t" and "length t \<le> 255"
  shows "(length t \<le> 44 \<longrightarrow> (\<exists>f. SYN_FrameInfo m (t @ 0 # rest) = Some f \<and>
           syn_receive f = Some (0x01, 0x01 OR push_bit 4 m, t))) \<and>
         (44 < length t \<longrightarrow> SYN_FrameInfo m (t @ 0 # rest) = None)"
  using SYN_FrameInfo_short SYN_FrameInfo_long assms by blast

text \<open>\<^verbatim>\<open>YS_SYN_Set\<close> never sends a command: the second byte of every command frame is zero, the routine
  takes the frame for a string, and only the start byte 0xFD goes out.\<close>

theorem YS_SYN_Set_sends_one_byte:
  "YS_SYN_Set SYN_StopCom = Some [0xFD] \<and> YS_SYN_Set SYN_SuspendCom = Some [0xFD] \<and>
   YS_SYN_Set SYN_RecoverCom = Some [0xFD] \<and> YS_SYN_Set SYN_ChackCom = Some [0xFD] \<and>
   YS_SYN_Set SYN_PowerDownCom = Some [0xFD]"
  by (simp add: YS_SYN_Set_def strlen_def USART1_SendString_take SYN_StopCom_def SYN_SuspendCom_def
    SYN_RecoverCom_def SYN_ChackCom_def SYN_PowerDownCom_def)

theorem SYN_FrameInfo_received_witness:
  "\<exists>f. SYN_FrameInfo 2 ([0x41, 0x42] @ 0 # []) = Some f \<and>
     syn_receive f = Some (0x01, 0x01 OR push_bit 4 2, [0x41, 0x42])"
  using SYN_FrameInfo_received [of "[0x41, 0x42]" 2 "[]"] by simp

end
