(* ===== verification/K230.thy ===== *)
theory K230
  imports Syn6288
begin

text \<open>
  The link to the vision module: the UART4 branch of \<^verbatim>\<open>HAL_UART_RxCpltCallback\<close> in
  \<^verbatim>\<open>hardware/processing.c\<close>, which sorts the bytes of the module into two kinds of packets. A packet of
  the first kind has five bytes, \<^verbatim>\<open>a3 b3 x id 5a\<close>; one of the second kind is a text between \<^verbatim>\<open>a3 b3\<close> and
  \<^verbatim>\<open>c3\<close>. The record holds the static variables of the branch and the globals it writes. \<^term>\<open>None\<close> is an
  access outside an array.
\<close>

section \<open>The byte handler\<close>

definition MAX_BUFFER_SIZE :: nat where "MAX_BUFFER_SIZE = 200"

record k230 =
  u4_i :: nat
  fun3_state :: nat
  fun3_buffer :: "8 word list"
  fun3_index :: nat
  k230_data :: "8 word list"
  receive_x :: "8 word"
  receive_flag :: "8 word"
  current_mode :: "8 word"
  rx_buffer :: "8 word list"
  message_received :: "8 word"

text \<open>An assignment to an array element.\<close>

definition put_at :: "'a list \<Rightarrow> nat \<Rightarrow> 'a \<Rightarrow> 'a list option" where
  "put_at xs i v = (if i < length xs then Some (xs[i := v]) else None)"

definition fun3_put :: "8 word \<Rightarrow> k230 \<Rightarrow> k230 option" where
  "fun3_put c s = do {
     b \<leftarrow> put_at (fun3_buffer s) (fun3_index s) c;
     Some (s\<lparr>fun3_buffer := b, fun3_index := fun3_index s + 1\<rparr>) }"

definition fun3_reset :: "k230 \<Rightarrow> k230" where
  "fun3_reset s = s\<lparr>fun3_state := 0, fun3_index := 0\<rparr>"

text \<open>The text of a complete packet goes to \<^verbatim>\<open>rx_buffer\<close>, with a terminator.\<close>

definition fun3_deliver :: "k230 \<Rightarrow> k230 option" where
  "fun3_deliver s =
     (if fun3_index s \<ge> 3 \<and> fun3_buffer s ! 0 = 0xa3 \<and> fun3_buffer s ! 1 = 0xb3 then do {
        let n = fun3_index s - 3;
        rt_assert (2 + n \<le> length (fun3_buffer s) \<and> n \<le> length (rx_buffer s));
        b \<leftarrow> put_at (memcpy_at (rx_buffer s) 0 (take n (drop 2 (fun3_buffer s)))) n 0;
        Some (s\<lparr>rx_buffer := b, message_received := 1, current_mode := 1\<rparr>) }
      else Some s)"

definition uart4_head1 :: "8 word \<Rightarrow> k230 \<Rightarrow> k230 option" where
  "uart4_head1 c s = do {
     d \<leftarrow> put_at (k230_data s) (u4_i s) c;
     b \<leftarrow> put_at (fun3_buffer s) 0 c;
     Some (s\<lparr>k230_data := d, u4_i := u4_i s + 1, fun3_buffer := b, fun3_index := 1, fun3_state := 1\<rparr>) }"

definition uart4_head2 :: "8 word \<Rightarrow> k230 \<Rightarrow> k230 option" where
  "uart4_head2 c s = do {
     d \<leftarrow> put_at (k230_data s) (u4_i s) c;
     s1 \<leftarrow> fun3_put c (s\<lparr>k230_data := d, u4_i := u4_i s + 1\<rparr>);
     Some (s1\<lparr>fun3_state := 2\<rparr>) }"

definition uart4_middle :: "8 word \<Rightarrow> k230 \<Rightarrow> k230 option" where
  "uart4_middle c s = do {
     d \<leftarrow> put_at (k230_data s) (u4_i s) c;
     let s1 = s\<lparr>k230_data := d, u4_i := u4_i s + 1\<rparr>;
     if fun3_state s1 = 2 then do {
       s2 \<leftarrow> fun3_put c s1;
       Some (if fun3_index s2 \<ge> MAX_BUFFER_SIZE then fun3_reset s2 else s2) }
     else Some s1 }"

definition uart4_fifth :: "8 word \<Rightarrow> k230 \<Rightarrow> k230 option" where
  "uart4_fifth c s = do {
     d \<leftarrow> put_at (k230_data s) (u4_i s) c;
     let s1 = s\<lparr>k230_data := d, u4_i := 0\<rparr>;
     let s2 = (if d ! (pack_num - 1) = 0x5a \<and> data_test d
               then fun3_reset (s1\<lparr>receive_x := d ! 2, receive_flag := d ! 3, current_mode := 0\<rparr>) else s1);
     if fun3_state s2 = 2 then fun3_put c s2 else Some s2 }"

definition uart4_other :: "8 word \<Rightarrow> k230 \<Rightarrow> k230 option" where
  "uart4_other c s = do {
     s1 \<leftarrow> (if fun3_state s = 2 then do {
              t \<leftarrow> fun3_put c s;
              if c = 0xc3 then map_option fun3_reset (fun3_deliver t)
              else Some (if fun3_index t \<ge> MAX_BUFFER_SIZE then fun3_reset t else t) }
            else Some s);
     if fun3_state s1 = 0 then
       if c = 0xa3 then do {
         b \<leftarrow> put_at (fun3_buffer s1) 0 c;
         Some (s1\<lparr>u4_i := 0, fun3_buffer := b, fun3_index := 1, fun3_state := 1\<rparr>) }
       else Some (s1\<lparr>u4_i := 0\<rparr>)
     else Some s1 }"

definition uart4_rx :: "8 word \<Rightarrow> k230 \<Rightarrow> k230 option" where
  "uart4_rx ucTemp4 s =
     (if fun3_state s = 0 \<and> u4_i s = 0 \<and> ucTemp4 = 0xa3 then uart4_head1 ucTemp4 s
      else if fun3_state s = 1 \<and> u4_i s = 1 \<and> ucTemp4 = 0xb3 then uart4_head2 ucTemp4 s
      else if 2 \<le> u4_i s \<and> u4_i s < pack_num - 1 then uart4_middle ucTemp4 s
      else if u4_i s = pack_num - 1 then uart4_fifth ucTemp4 s
      else uart4_other ucTemp4 s)"

primrec uart4_feed :: "8 word list \<Rightarrow> k230 \<Rightarrow> k230 option" where
  "uart4_feed [] s = Some s"
| "uart4_feed (c # cs) s = uart4_rx c s \<bind> uart4_feed cs"

section \<open>Every access is inside the buffers\<close>

text \<open>The states the branch can be in: idle, after the first byte, inside the five bytes of the first kind,
  inside a longer text, and the state after an overlong text (below).\<close>

definition uart4_inv :: "k230 \<Rightarrow> bool" where
  "uart4_inv s \<longleftrightarrow> length (fun3_buffer s) = MAX_BUFFER_SIZE \<and> length (k230_data s) = pack_num \<and>
     length (rx_buffer s) = MAX_BUFFER_SIZE \<and>
     (fun3_state s = 0 \<and> u4_i s = 0 \<or>
      fun3_state s = 1 \<and> u4_i s \<le> 1 \<and> fun3_index s = 1 \<or>
      fun3_state s = 2 \<and> 2 \<le> u4_i s \<and> u4_i s < pack_num \<and> fun3_index s = u4_i s \<or>
      fun3_state s = 2 \<and> u4_i s = 0 \<and> fun3_index s < MAX_BUFFER_SIZE)"

lemma uart4_rx_inv:
  assumes "uart4_inv s"
  shows "\<exists>s'. uart4_rx c s = Some s' \<and> uart4_inv s'"
proof -
  have head1: ?thesis if "fun3_state s = 0" "u4_i s = 0" "c = 0xa3"
    using that assms by (simp add: uart4_rx_def uart4_head1_def put_at_def uart4_inv_def pack_num_def MAX_BUFFER_SIZE_def)
  have head2: ?thesis if "fun3_state s = 1" "u4_i s = 1" "c = 0xb3"
    using that assms by (simp add: uart4_rx_def uart4_head2_def put_at_def fun3_put_def uart4_inv_def
      pack_num_def MAX_BUFFER_SIZE_def)
  have middle: ?thesis if "fun3_state s = 2" "u4_i s = 2 \<or> u4_i s = 3"
    using that assms by (auto simp: uart4_rx_def uart4_middle_def put_at_def fun3_put_def uart4_inv_def
      pack_num_def MAX_BUFFER_SIZE_def)
  have fifth: ?thesis if "fun3_state s = 2" "u4_i s = 4"
    using that assms by (auto simp: uart4_rx_def uart4_fifth_def put_at_def fun3_put_def uart4_inv_def
      pack_num_def MAX_BUFFER_SIZE_def fun3_reset_def Let_def)
  have wait: ?thesis if "fun3_state s = 1" "\<not> (u4_i s = 1 \<and> c = 0xb3)"
    using that assms by (auto simp: uart4_rx_def uart4_other_def uart4_inv_def pack_num_def)
  have idle: ?thesis if "fun3_state s = 0" "u4_i s = 0" "c \<noteq> 0xa3"
    using that assms by (auto simp: uart4_rx_def uart4_other_def uart4_inv_def pack_num_def)
  have long: ?thesis if "fun3_state s = 2" "u4_i s = 0"
    using that assms by (auto simp: uart4_rx_def uart4_other_def put_at_def fun3_put_def fun3_deliver_def
      rt_assert_def uart4_inv_def pack_num_def MAX_BUFFER_SIZE_def fun3_reset_def Let_def)
  consider "fun3_state s = 0" "u4_i s = 0" | "fun3_state s = 1" | "fun3_state s = 2" "u4_i s = 2 \<or> u4_i s = 3"
    | "fun3_state s = 2" "u4_i s = 4" | "fun3_state s = 2" "u4_i s = 0"
    using assms unfolding uart4_inv_def pack_num_def by linarith
  then show ?thesis
    by cases (use head1 head2 middle fifth wait idle long in blast)+
qed

lemma uart4_feed_append: "uart4_feed (xs @ ys) s = uart4_feed xs s \<bind> uart4_feed ys"
  by (induction xs arbitrary: s) (simp_all split: bind_split)

lemma uart4_feed_inv: "uart4_inv s \<Longrightarrow> \<exists>s'. uart4_feed cs s = Some s' \<and> uart4_inv s'"
proof (induction cs arbitrary: s)
  case (Cons c cs)
  then show ?case
    using uart4_rx_inv [OF Cons.prems, of c] by auto
qed simp

section \<open>Packets\<close>

datatype k230_packet = Fun2 "8 word" "8 word" | Fun3 "8 word list"

fun packet_bytes :: "k230_packet \<Rightarrow> 8 word list" where
  "packet_bytes (Fun2 x ident) = [0xa3, 0xb3, x, ident, 0x5a]"
| "packet_bytes (Fun3 t) = [0xa3, 0xb3] @ t @ [0xc3]"

text \<open>The texts the handler can receive: at least three bytes, the third not the end mark of the other kind,
  and no end mark after it.\<close>

fun packet_ok :: "k230_packet \<Rightarrow> bool" where
  "packet_ok (Fun2 x ident) \<longleftrightarrow> True"
| "packet_ok (Fun3 t) \<longleftrightarrow> 3 \<le> length t \<and> length t \<le> MAX_BUFFER_SIZE - 3 \<and> t ! 2 \<noteq> 0x5a \<and> 0xc3 \<notin> set (drop 3 t)"

definition uart4_idle :: "k230 \<Rightarrow> bool" where
  "uart4_idle s \<longleftrightarrow> uart4_inv s \<and> fun3_state s = 0 \<and> u4_i s = 0"

text \<open>What the rest of the program sees of the link.\<close>

record k230_view =
  v_x :: "8 word"
  v_flag :: "8 word"
  v_mode :: "8 word"
  v_text :: "8 word list"
  v_received :: "8 word"

definition view :: "k230 \<Rightarrow> k230_view" where
  "view s = \<lparr>v_x = receive_x s, v_flag = receive_flag s, v_mode = current_mode s, v_text = rx_buffer s,
     v_received = message_received s\<rparr>"

fun packet_effect :: "k230_packet \<Rightarrow> k230_view \<Rightarrow> k230_view" where
  "packet_effect (Fun2 x ident) v = v\<lparr>v_x := x, v_flag := ident, v_mode := 0\<rparr>"
| "packet_effect (Fun3 t) v = v\<lparr>v_mode := 1, v_text := memcpy_at (v_text v) 0 (t @ [0]), v_received := 1\<rparr>"

lemmas uart4_defs = uart4_rx_def uart4_head1_def uart4_head2_def uart4_middle_def uart4_fifth_def
  uart4_other_def put_at_def fun3_put_def fun3_reset_def Let_def pack_num_def MAX_BUFFER_SIZE_def

lemma list_of_five: "length xs = 5 \<Longrightarrow> \<exists>a b c d e. xs = [a, b, c, d, e]"
  by (auto simp: numeral_eq_Suc length_Suc_conv)

lemma uart4_fun2:
  assumes "uart4_idle s"
  shows "\<exists>s'. uart4_feed (packet_bytes (Fun2 x ident)) s = Some s' \<and> uart4_idle s' \<and>
    view s' = packet_effect (Fun2 x ident) (view s)"
proof -
  have l: "length (k230_data s) = 5" "length (fun3_buffer s) = 200" "length (rx_buffer s) = 200"
    "fun3_state s = 0" "u4_i s = 0"
    using assms by (simp_all add: uart4_idle_def uart4_inv_def pack_num_def MAX_BUFFER_SIZE_def)
  obtain d0 d1 d2 d3 d4 where "k230_data s = [d0, d1, d2, d3, d4]"
    using list_of_five [OF l(1)] by blast
  then show ?thesis
    using l by (simp add: uart4_defs data_test_def uart4_idle_def uart4_inv_def view_def)
qed

lemma uart4_fun3_head:
  assumes "uart4_idle s" and "c2 \<noteq> 0x5a"
  shows "\<exists>s'. uart4_feed [0xa3, 0xb3, c0, c1, c2] s = Some s' \<and> view s' = view s \<and>
    fun3_buffer s' = memcpy_at (fun3_buffer s) 0 [0xa3, 0xb3, c0, c1, c2] \<and>
    length (k230_data s') = 5 \<and> fun3_state s' = 2 \<and> u4_i s' = 0 \<and> fun3_index s' = 5"
proof -
  have l: "length (k230_data s) = 5" "length (fun3_buffer s) = 200" "fun3_state s = 0" "u4_i s = 0"
    using assms by (simp_all add: uart4_idle_def uart4_inv_def pack_num_def MAX_BUFFER_SIZE_def)
  have five: "memcpy_at (fun3_buffer s) 0 [0xa3, 0xb3, c0, c1, c2] = (fun3_buffer s)[0 := 0xa3, Suc 0 := 0xb3,
      Suc (Suc 0) := c0, Suc (Suc (Suc 0)) := c1, Suc (Suc (Suc (Suc 0))) := c2]"
    using l memcpy_at_one [of 0 "fun3_buffer s" "0xa3"] memcpy_at_snoc [of 0 "[0xa3]" "fun3_buffer s" "0xb3"]
      memcpy_at_snoc [of 0 "[0xa3, 0xb3]" "fun3_buffer s" c0] memcpy_at_snoc [of 0 "[0xa3, 0xb3, c0]" "fun3_buffer s" c1]
      memcpy_at_snoc [of 0 "[0xa3, 0xb3, c0, c1]" "fun3_buffer s" c2] by simp
  obtain d0 d1 d2 d3 d4 where "k230_data s = [d0, d1, d2, d3, d4]"
    using list_of_five [OF l(1)] by blast
  then show ?thesis
    using assms(2) l by (simp add: uart4_defs view_def five)
qed

lemma uart4_fun3_body:
  assumes "fun3_state s = 2" "u4_i s = 0" "length (fun3_buffer s) = 200" "0xc3 \<notin> set ts"
    "fun3_index s + length ts < 200"
  shows "\<exists>s'. uart4_feed ts s = Some s' \<and> view s' = view s \<and>
    fun3_buffer s' = memcpy_at (fun3_buffer s) (fun3_index s) ts \<and> k230_data s' = k230_data s \<and>
    fun3_state s' = 2 \<and> u4_i s' = 0 \<and> fun3_index s' = fun3_index s + length ts"
  using assms
proof (induction ts arbitrary: s)
  case (Cons c ts)
  let ?s = "s\<lparr>fun3_buffer := (fun3_buffer s)[fun3_index s := c], fun3_index := fun3_index s + 1\<rparr>"
  have "uart4_rx c s = Some ?s"
    using Cons.prems by (simp add: uart4_defs)
  then show ?case
    using Cons.IH [of ?s] Cons.prems by (simp add: view_def memcpy_at_Cons)
qed (simp add: view_def)

lemma uart4_fun3_tail:
  assumes st: "fun3_state s = 2" "u4_i s = 0" and idx: "fun3_index s = 2 + length t"
    and buf: "fun3_buffer s = memcpy_at b 0 ([0xa3, 0xb3] @ t)" and len: "length b = 200" "length t \<le> 197"
    "length (rx_buffer s) = 200" "length (k230_data s) = 5"
  shows "\<exists>s'. uart4_rx 0xc3 s = Some s' \<and> uart4_idle s' \<and> view s' = packet_effect (Fun3 t) (view s)"
proof -
  let ?b = "memcpy_at b 0 ([0xa3, 0xb3] @ t @ [0xc3])"
  let ?s = "s\<lparr>fun3_buffer := ?b, fun3_index := 3 + length t\<rparr>"
  have put: "fun3_put 0xc3 s = Some ?s"
    using memcpy_at_snoc [of 0 "[0xa3, 0xb3] @ t" b "0xc3"] len by (simp add: fun3_put_def put_at_def buf idx)
  have head: "?b ! 0 = 0xa3" "?b ! 1 = 0xb3" "take (length t) (drop 2 ?b) = t" "length ?b = 200"
    using len by (simp_all add: memcpy_at_def)
  have "fun3_deliver ?s = Some (?s\<lparr>rx_buffer := memcpy_at (rx_buffer s) 0 (t @ [0]), message_received := 1,
      current_mode := 1\<rparr>)"
    using head len memcpy_at_snoc [of 0 t "rx_buffer s" 0]
    by (simp add: fun3_deliver_def put_at_def rt_assert_def Let_def del: append.simps)
  then show ?thesis
    using st len head(4) by (simp add: uart4_rx_def uart4_other_def put fun3_reset_def pack_num_def
      uart4_idle_def uart4_inv_def view_def MAX_BUFFER_SIZE_def del: append.simps)
qed

lemma list_of_three: "3 \<le> length t \<Longrightarrow> \<exists>a b c u. t = [a, b, c] @ u"
  by (cases t; cases "tl t"; cases "tl (tl t)") auto

text \<open>After a text of at least three bytes, before its end mark.\<close>

lemma uart4_fun3_text:
  assumes idle: "uart4_idle s" and t: "3 \<le> length t" "length t \<le> 197" "t ! 2 \<noteq> 0x5a" "0xc3 \<notin> set (drop 3 t)"
  shows "\<exists>s'. uart4_feed ([0xa3, 0xb3] @ t) s = Some s' \<and> view s' = view s \<and>
    fun3_buffer s' = memcpy_at (fun3_buffer s) 0 ([0xa3, 0xb3] @ t) \<and> length (k230_data s') = 5 \<and>
    fun3_state s' = 2 \<and> u4_i s' = 0 \<and> fun3_index s' = 2 + length t"
proof -
  have len: "length (fun3_buffer s) = 200"
    using idle by (simp add: uart4_idle_def uart4_inv_def MAX_BUFFER_SIZE_def)
  obtain a b c u where t_def: "t = [a, b, c] @ u"
    using list_of_three [OF t(1)] by blast
  obtain s1 where s1: "uart4_feed [0xa3, 0xb3, a, b, c] s = Some s1" "view s1 = view s"
    "fun3_buffer s1 = memcpy_at (fun3_buffer s) 0 [0xa3, 0xb3, a, b, c]"
    "length (k230_data s1) = 5" "fun3_state s1 = 2" "u4_i s1 = 0" "fun3_index s1 = 5"
    using uart4_fun3_head [OF idle, of c a b] t(3) by (auto simp: t_def)
  obtain s2 where s2: "uart4_feed u s1 = Some s2" "view s2 = view s1"
    "fun3_buffer s2 = memcpy_at (fun3_buffer s1) 5 u" "k230_data s2 = k230_data s1" "fun3_state s2 = 2"
    "u4_i s2 = 0" "fun3_index s2 = 5 + length u"
    using uart4_fun3_body [of s1 u] s1 t len by (auto simp: t_def)
  have "fun3_buffer s2 = memcpy_at (fun3_buffer s) 0 ([0xa3, 0xb3] @ t)"
    using memcpy_at_append [of 0 "[0xa3, 0xb3, a, b, c]" "fun3_buffer s" u] s1(3) s2(3) len
    by (simp add: t_def eval_nat_numeral)
  moreover have "uart4_feed ([0xa3, 0xb3] @ t) s = Some s2"
    using uart4_feed_append [of "[0xa3, 0xb3, a, b, c]" u s] s1(1) s2(1)
    by (simp add: t_def del: uart4_feed.simps)
  ultimately show ?thesis
    using s1 s2 by (auto simp: t_def)
qed

lemma uart4_feed_one: "uart4_feed [c] s = uart4_rx c s"
  by (cases "uart4_rx c s") simp_all

lemma uart4_fun3:
  assumes idle: "uart4_idle s" and ok: "packet_ok (Fun3 t)"
  shows "\<exists>s'. uart4_feed (packet_bytes (Fun3 t)) s = Some s' \<and> uart4_idle s' \<and>
    view s' = packet_effect (Fun3 t) (view s)"
proof -
  have len: "length (fun3_buffer s) = 200" "length (rx_buffer s) = 200"
    using idle by (simp_all add: uart4_idle_def uart4_inv_def MAX_BUFFER_SIZE_def)
  obtain s2 where s2: "uart4_feed ([0xa3, 0xb3] @ t) s = Some s2" "view s2 = view s"
    "fun3_buffer s2 = memcpy_at (fun3_buffer s) 0 ([0xa3, 0xb3] @ t)" "length (k230_data s2) = 5"
    "fun3_state s2 = 2" "u4_i s2 = 0" "fun3_index s2 = 2 + length t"
    using uart4_fun3_text [OF idle, of t] ok by (auto simp: MAX_BUFFER_SIZE_def)
  have feed: "uart4_feed (packet_bytes (Fun3 t)) s = uart4_rx 0xc3 s2"
    using uart4_feed_append [of "[0xa3, 0xb3] @ t" "[0xc3]" s] s2(1)
    by (simp add: uart4_feed_one del: uart4_feed.simps)
  have "length t \<le> 197" "length (rx_buffer s2) = 200"
    using ok s2(2) len by (auto simp: view_def MAX_BUFFER_SIZE_def)
  then show ?thesis
    using uart4_fun3_tail [OF s2(5,6,7,3) len(1) _ _ s2(4)] s2(2) unfolding feed by simp
qed

section \<open>Streams of packets\<close>

lemma uart4_stream_refines_idle:
  assumes "uart4_idle s" and "list_all packet_ok ps"
  shows "\<exists>s'. uart4_feed (concat (map packet_bytes ps)) s = Some s' \<and> uart4_idle s' \<and>
    view s' = fold packet_effect ps (view s)"
  using assms
proof (induction ps arbitrary: s)
  case (Cons p ps)
  have "\<exists>s'. uart4_feed (packet_bytes p) s = Some s' \<and> uart4_idle s' \<and> view s' = packet_effect p (view s)"
    using uart4_fun2 [OF Cons.prems(1)] uart4_fun3 [OF Cons.prems(1)] Cons.prems(2) by (cases p) auto
  then obtain s1 where s1: "uart4_feed (packet_bytes p) s = Some s1" "uart4_idle s1"
    "view s1 = packet_effect p (view s)"
    by blast
  then show ?case
    using Cons.IH [OF s1(2)] Cons.prems(2) by (simp add: uart4_feed_append)
qed simp

text \<open>C22: The byte handler of the vision module's link refines the packet protocol: from the idle state,
  the bytes of any sequence of packets, five-byte packets with any contents and texts of 3 to 197 bytes
  mixed, have exactly the effect of the packets one after the other on the position, the object, the mode,
  the text (stored with its terminator) and the received flag, and leave the handler idle.\<close>

theorem uart4_stream_refines:
  assumes "uart4_idle s" and "list_all packet_ok ps"
  shows "\<exists>s'. uart4_feed (concat (map packet_bytes ps)) s = Some s' \<and> uart4_idle s' \<and>
    view s' = fold packet_effect ps (view s)"
  using assms by (rule uart4_stream_refines_idle)

definition k230_boot :: k230 where
  "k230_boot = \<lparr>u4_i = 0, fun3_state = 0, fun3_buffer = replicate MAX_BUFFER_SIZE 0, fun3_index = 0,
     k230_data = replicate pack_num 0, receive_x = 0, receive_flag = 0, current_mode = 0,
     rx_buffer = replicate MAX_BUFFER_SIZE 0, message_received = 0\<rparr>"

lemma k230_boot_idle: "uart4_idle k230_boot"
  by (simp add: uart4_idle_def uart4_inv_def k230_boot_def)

theorem uart4_stream_refines_witness:
  "\<exists>s'. uart4_feed (concat (map packet_bytes [Fun2 7 3, Fun3 [0x41, 0x42, 0x43]])) k230_boot = Some s' \<and>
    uart4_idle s' \<and> view s' = fold packet_effect [Fun2 7 3, Fun3 [0x41, 0x42, 0x43]] (view k230_boot)"
  by (rule uart4_stream_refines [OF k230_boot_idle]) (simp add: MAX_BUFFER_SIZE_def)

text \<open>From power-up, no sequence of bytes on the vision module's link makes the handler access one of
  its buffers outside its bounds.\<close>

theorem uart4_memory_safe: "\<exists>s'. uart4_feed cs k230_boot = Some s' \<and> uart4_inv s'"
  using uart4_feed_inv k230_boot_idle by (auto simp: uart4_idle_def)

section \<open>The handler can stop for ever\<close>

lemma uart4_stuck_rx:
  assumes "fun3_state s = 1" and "u4_i s = 0"
  shows "uart4_rx c s = Some s"
  using assms by (simp add: uart4_rx_def uart4_other_def pack_num_def)

lemma uart4_stuck_feed: "fun3_state s = 1 \<Longrightarrow> u4_i s = 0 \<Longrightarrow> uart4_feed cs s = Some s"
  by (induction cs) (simp_all add: uart4_stuck_rx)

text \<open>A text without an end mark that fills the 200-byte buffer with a byte \<^verbatim>\<open>a3\<close> last stops the
  link for ever: the overflow branch takes that byte for the start of a packet without counting it, and
  in the resulting state the handler ignores every later byte, so that no packet is received any more.\<close>

theorem uart4_overlong_text_hangs:
  assumes idle: "uart4_idle s" and t: "length t = 197" "t ! 2 \<noteq> 0x5a" "0xc3 \<notin> set (drop 3 t)"
  shows "\<exists>s'. uart4_feed ([0xa3, 0xb3] @ t @ [0xa3]) s = Some s' \<and> (\<forall>cs. uart4_feed cs s' = Some s')"
proof -
  have len: "length (fun3_buffer s) = 200"
    using idle by (simp add: uart4_idle_def uart4_inv_def MAX_BUFFER_SIZE_def)
  obtain s2 where s2: "uart4_feed ([0xa3, 0xb3] @ t) s = Some s2" "fun3_state s2 = 2" "u4_i s2 = 0"
    "fun3_buffer s2 = memcpy_at (fun3_buffer s) 0 ([0xa3, 0xb3] @ t)" "fun3_index s2 = 199"
    using uart4_fun3_text [OF idle, of t] t by auto
  have "length (fun3_buffer s2) = 200"
    using len t(1) unfolding s2(4) by simp
  then obtain s3 where s3: "uart4_rx 0xa3 s2 = Some s3" "fun3_state s3 = 1" "u4_i s3 = 0"
    using s2(2,3,5) by (simp add: uart4_rx_def uart4_other_def fun3_put_def put_at_def fun3_reset_def
      MAX_BUFFER_SIZE_def pack_num_def)
  have "uart4_feed (([0xa3, 0xb3] @ t) @ [0xa3]) s = Some s3"
    unfolding uart4_feed_append [of "[0xa3, 0xb3] @ t"] s2(1) by (simp only: bind.bind_lunit uart4_feed_one s3)
  then show ?thesis
    using uart4_stuck_feed [OF s3(2,3)] by auto
qed

theorem uart4_overlong_text_hangs_witness:
  "\<exists>s'. uart4_feed ([0xa3, 0xb3] @ replicate 197 0x41 @ [0xa3]) k230_boot = Some s' \<and>
    (\<forall>cs. uart4_feed cs s' = Some s')"
  by (rule uart4_overlong_text_hangs [OF k230_boot_idle]) simp_all

end
