(* ===== verification/Crc16.thy ===== *)
theory Crc16
  imports Prelude
begin

text \<open>
  The check sum of the Modbus frames of the inertial sensor (\<^verbatim>\<open>__CRC16\<close> of
  \<^verbatim>\<open>hardware/WT61C/wit_c_sdk.c\<close>). The code works with two tables of 256 bytes; the reference
  definition divides bit by bit by the reversed polynomial \<^verbatim>\<open>0xA001\<close>.
\<close>

section \<open>The tables and the routine\<close>

definition auchCRCHi :: "8 word list" where
  "auchCRCHi = [
    0x00, 0xC1, 0x81, 0x40, 0x01, 0xC0, 0x80, 0x41, 0x01, 0xC0, 0x80, 0x41, 0x00, 0xC1, 0x81, 0x40,
    0x01, 0xC0, 0x80, 0x41, 0x00, 0xC1, 0x81, 0x40, 0x00, 0xC1, 0x81, 0x40, 0x01, 0xC0, 0x80, 0x41,
    0x01, 0xC0, 0x80, 0x41, 0x00, 0xC1, 0x81, 0x40, 0x00, 0xC1, 0x81, 0x40, 0x01, 0xC0, 0x80, 0x41,
    0x00, 0xC1, 0x81, 0x40, 0x01, 0xC0, 0x80, 0x41, 0x01, 0xC0, 0x80, 0x41, 0x00, 0xC1, 0x81, 0x40,
    0x01, 0xC0, 0x80, 0x41, 0x00, 0xC1, 0x81, 0x40, 0x00, 0xC1, 0x81, 0x40, 0x01, 0xC0, 0x80, 0x41,
    0x00, 0xC1, 0x81, 0x40, 0x01, 0xC0, 0x80, 0x41, 0x01, 0xC0, 0x80, 0x41, 0x00, 0xC1, 0x81, 0x40,
    0x00, 0xC1, 0x81, 0x40, 0x01, 0xC0, 0x80, 0x41, 0x01, 0xC0, 0x80, 0x41, 0x00, 0xC1, 0x81, 0x40,
    0x01, 0xC0, 0x80, 0x41, 0x00, 0xC1, 0x81, 0x40, 0x00, 0xC1, 0x81, 0x40, 0x01, 0xC0, 0x80, 0x41,
    0x01, 0xC0, 0x80, 0x41, 0x00, 0xC1, 0x81, 0x40, 0x00, 0xC1, 0x81, 0x40, 0x01, 0xC0, 0x80, 0x41,
    0x00, 0xC1, 0x81, 0x40, 0x01, 0xC0, 0x80, 0x41, 0x01, 0xC0, 0x80, 0x41, 0x00, 0xC1, 0x81, 0x40,
    0x00, 0xC1, 0x81, 0x40, 0x01, 0xC0, 0x80, 0x41, 0x01, 0xC0, 0x80, 0x41, 0x00, 0xC1, 0x81, 0x40,
    0x01, 0xC0, 0x80, 0x41, 0x00, 0xC1, 0x81, 0x40, 0x00, 0xC1, 0x81, 0x40, 0x01, 0xC0, 0x80, 0x41,
    0x00, 0xC1, 0x81, 0x40, 0x01, 0xC0, 0x80, 0x41, 0x01, 0xC0, 0x80, 0x41, 0x00, 0xC1, 0x81, 0x40,
    0x01, 0xC0, 0x80, 0x41, 0x00, 0xC1, 0x81, 0x40, 0x00, 0xC1, 0x81, 0x40, 0x01, 0xC0, 0x80, 0x41,
    0x01, 0xC0, 0x80, 0x41, 0x00, 0xC1, 0x81, 0x40, 0x00, 0xC1, 0x81, 0x40, 0x01, 0xC0, 0x80, 0x41,
    0x00, 0xC1, 0x81, 0x40, 0x01, 0xC0, 0x80, 0x41, 0x01, 0xC0, 0x80, 0x41, 0x00, 0xC1, 0x81, 0x40]"

definition auchCRCLo :: "8 word list" where
  "auchCRCLo = [
    0x00, 0xC0, 0xC1, 0x01, 0xC3, 0x03, 0x02, 0xC2, 0xC6, 0x06, 0x07, 0xC7, 0x05, 0xC5, 0xC4, 0x04,
    0xCC, 0x0C, 0x0D, 0xCD, 0x0F, 0xCF, 0xCE, 0x0E, 0x0A, 0xCA, 0xCB, 0x0B, 0xC9, 0x09, 0x08, 0xC8,
    0xD8, 0x18, 0x19, 0xD9, 0x1B, 0xDB, 0xDA, 0x1A, 0x1E, 0xDE, 0xDF, 0x1F, 0xDD, 0x1D, 0x1C, 0xDC,
    0x14, 0xD4, 0xD5, 0x15, 0xD7, 0x17, 0x16, 0xD6, 0xD2, 0x12, 0x13, 0xD3, 0x11, 0xD1, 0xD0, 0x10,
    0xF0, 0x30, 0x31, 0xF1, 0x33, 0xF3, 0xF2, 0x32, 0x36, 0xF6, 0xF7, 0x37, 0xF5, 0x35, 0x34, 0xF4,
    0x3C, 0xFC, 0xFD, 0x3D, 0xFF, 0x3F, 0x3E, 0xFE, 0xFA, 0x3A, 0x3B, 0xFB, 0x39, 0xF9, 0xF8, 0x38,
    0x28, 0xE8, 0xE9, 0x29, 0xEB, 0x2B, 0x2A, 0xEA, 0xEE, 0x2E, 0x2F, 0xEF, 0x2D, 0xED, 0xEC, 0x2C,
    0xE4, 0x24, 0x25, 0xE5, 0x27, 0xE7, 0xE6, 0x26, 0x22, 0xE2, 0xE3, 0x23, 0xE1, 0x21, 0x20, 0xE0,
    0xA0, 0x60, 0x61, 0xA1, 0x63, 0xA3, 0xA2, 0x62, 0x66, 0xA6, 0xA7, 0x67, 0xA5, 0x65, 0x64, 0xA4,
    0x6C, 0xAC, 0xAD, 0x6D, 0xAF, 0x6F, 0x6E, 0xAE, 0xAA, 0x6A, 0x6B, 0xAB, 0x69, 0xA9, 0xA8, 0x68,
    0x78, 0xB8, 0xB9, 0x79, 0xBB, 0x7B, 0x7A, 0xBA, 0xBE, 0x7E, 0x7F, 0xBF, 0x7D, 0xBD, 0xBC, 0x7C,
    0xB4, 0x74, 0x75, 0xB5, 0x77, 0xB7, 0xB6, 0x76, 0x72, 0xB2, 0xB3, 0x73, 0xB1, 0x71, 0x70, 0xB0,
    0x50, 0x90, 0x91, 0x51, 0x93, 0x53, 0x52, 0x92, 0x96, 0x56, 0x57, 0x97, 0x55, 0x95, 0x94, 0x54,
    0x9C, 0x5C, 0x5D, 0x9D, 0x5F, 0x9F, 0x9E, 0x5E, 0x5A, 0x9A, 0x9B, 0x5B, 0x99, 0x59, 0x58, 0x98,
    0x88, 0x48, 0x49, 0x89, 0x4B, 0x8B, 0x8A, 0x4A, 0x4E, 0x8E, 0x8F, 0x4F, 0x8D, 0x4D, 0x4C, 0x8C,
    0x44, 0x84, 0x85, 0x45, 0x87, 0x47, 0x46, 0x86, 0x82, 0x42, 0x43, 0x83, 0x41, 0x81, 0x80, 0x40]"

fun crc16_loop :: "8 word list \<Rightarrow> 8 word \<Rightarrow> 8 word \<Rightarrow> 8 word \<times> 8 word" where
  "crc16_loop [] uchCRCHi uchCRCLo = (uchCRCHi, uchCRCLo)"
| "crc16_loop (b # puchMsg) uchCRCHi uchCRCLo =
     (let uIndex = uchCRCHi XOR b in
      crc16_loop puchMsg (uchCRCLo XOR auchCRCHi ! unat uIndex) (auchCRCLo ! unat uIndex))"

text \<open>\<open>puchMsg\<close> are the \<^verbatim>\<open>usDataLen\<close> bytes the code reads.\<close>

definition CRC16 :: "8 word list \<Rightarrow> 16 word" where
  "CRC16 puchMsg =
     (let (hi, lo) = crc16_loop puchMsg 0xFF 0xFF in push_bit 8 (ucast hi) OR ucast lo)"

section \<open>The reference: division by the polynomial\<close>

definition crc_bit :: "16 word \<Rightarrow> 16 word" where
  "crc_bit c = (if bit c 0 then drop_bit 1 c XOR 0xA001 else drop_bit 1 c)"

definition crc_byte :: "16 word \<Rightarrow> 16 word" where
  "crc_byte c = (crc_bit ^^ 8) c"

definition crc16_modbus :: "8 word list \<Rightarrow> 16 word" where
  "crc16_modbus bs = fold (\<lambda>b c. crc_byte (c XOR ucast b)) bs 0xFFFF"

section \<open>The tables are the remainders of the bytes\<close>

definition crc_table_entry :: "nat \<Rightarrow> 16 word" where
  "crc_table_entry i = push_bit 8 (ucast (auchCRCLo ! i)) OR ucast (auchCRCHi ! i)"

lemma crc_bit_xor: "crc_bit (x XOR y) = crc_bit x XOR crc_bit y"
proof (rule bit_word_eqI)
  fix n assume "n < LENGTH(16)"
  show "bit (crc_bit (x XOR y)) n \<longleftrightarrow> bit (crc_bit x XOR crc_bit y) n"
    by (auto simp: crc_bit_def bit_xor_iff bit_drop_bit_eq)
qed

lemma crc_byte_xor: "crc_byte (x XOR y) = crc_byte x XOR crc_byte y"
  by (simp add: crc_byte_def crc_bit_xor numeral_eq_Suc)

lemma crc_byte_0: "crc_byte 0 = 0"
  using crc_byte_xor [of 0 0] by simp

text \<open>A word whose low byte is zero is only shifted.\<close>

lemma crc_byte_high: "crc_byte (push_bit 8 (ucast (h::8 word))) = ucast h"
proof -
  have step: "crc_bit (push_bit (Suc n) x) = push_bit n x" if "n < 8" "x = ucast h" for n x
  proof (rule bit_word_eqI)
    fix m assume "m < LENGTH(16)"
    have "\<not> bit (push_bit (Suc n) x) 0"
      by (simp only: bit_push_bit_iff) simp
    then show "bit (crc_bit (push_bit (Suc n) x)) m \<longleftrightarrow> bit (push_bit n x) m"
      using \<open>m < LENGTH(16)\<close> that
      by (auto simp: crc_bit_def bit_drop_bit_eq bit_push_bit_iff bit_ucast_iff simp del: push_bit_Suc dest: bit_imp_le_length)
  qed
  have "(crc_bit ^^ n) (push_bit n x) = x" if "n \<le> 8" "x = ucast h" for n and x :: "16 word"
    using that
  proof (induction n)
    case (Suc n)
    then show ?case
      by (simp add: funpow_Suc_right step del: funpow.simps push_bit_Suc)
  qed simp
  then show ?thesis
    unfolding crc_byte_def by blast
qed

text \<open>A linear function on the numbers of \<open>k\<close> bits is determined by its values on the powers of two.\<close>

definition xor_span :: "'a::len word list \<Rightarrow> 'a word list" where
  "xor_span gs = foldl (\<lambda>T g. T @ map (\<lambda>x. g XOR x) T) [0] gs"

lemma of_nat_xor_high:
  assumes "i < 2 ^ k" and "k < LENGTH('a)"
  shows "(of_nat (2 ^ k + i) :: 'a::len word) = 2 ^ k XOR of_nat i"
proof -
  have "(2 ^ k :: nat) AND i = 0"
  proof (rule bit_eqI)
    fix n
    have "\<not> bit i k"
      using assms(1) by (simp add: bit_iff_odd)
    then show "bit ((2 ^ k :: nat) AND i) n \<longleftrightarrow> bit (0 :: nat) n"
      by (auto simp: bit_and_iff bit_exp_iff)
  qed
  then have "2 ^ k + i = (2 ^ k XOR i :: nat)"
    by (simp add: disjunctive_add_eq_xor)
  then have "(of_nat (2 ^ k + i) :: 'a word) = of_nat (2 ^ k XOR i)"
    by simp
  also have "\<dots> = 2 ^ k XOR of_nat i"
    by (simp add: of_nat_xor_eq)
  finally show ?thesis .
qed

lemma xor_span_linear:
  fixes f :: "'a::len word \<Rightarrow> 'b::len word"
  assumes lin: "\<And>x y. f (x XOR y) = f x XOR f y"
  shows "k \<le> LENGTH('a) \<Longrightarrow>
    xor_span (map (\<lambda>j. f (2 ^ j)) [0..<k]) = map (\<lambda>i. f (of_nat i)) [0..<2 ^ k]"
proof (induction k)
  case 0
  have "f 0 = 0" using lin [of 0 0] by simp
  then show ?case by (simp add: xor_span_def)
next
  case (Suc k)
  have "map (\<lambda>i. f (of_nat i)) [2 ^ k..<2 ^ k + 2 ^ k] = map (\<lambda>i. f (of_nat (2 ^ k + i))) [0..<2 ^ k]"
    by (rule nth_equalityI) simp_all
  also have "\<dots> = map (\<lambda>x. f (2 ^ k) XOR x) (map (\<lambda>i. f (of_nat i)) [0..<2 ^ k])"
    using Suc.prems by (simp add: of_nat_xor_high lin del: of_nat_add)
  finally have high: "map (\<lambda>i. f (of_nat i)) [2 ^ k..<2 ^ k + 2 ^ k] = \<dots>" .
  have "[0..<2 ^ Suc k] = [0..<2 ^ k] @ [2 ^ k..<2 ^ k + 2 ^ k]"
    using upt_add_eq_append [of 0 "2 ^ k" "2 ^ k"] by (simp only: power_Suc mult_2 le0 add_0)
  then show ?case
    using Suc by (simp add: xor_span_def high)
qed

lemma crc_bit_numerals:
  "crc_bit 1 = 0xA001" "crc_bit 2 = 1" "crc_bit 4 = 2" "crc_bit 8 = 4" "crc_bit 16 = 8"
  "crc_bit 32 = 16" "crc_bit 64 = 32" "crc_bit 128 = 64"
  "crc_bit 0xA001 = 0xF001" "crc_bit 0xF001 = 0xD801" "crc_bit 0xD801 = 0xCC01"
  "crc_bit 0xCC01 = 0xC601" "crc_bit 0xC601 = 0xC301" "crc_bit 0xC301 = 0xC181"
  "crc_bit 0xC181 = 0xC0C1"
  by (simp_all add: crc_bit_def)

lemma crc_byte_unfold:
  "crc_byte c = crc_bit (crc_bit (crc_bit (crc_bit (crc_bit (crc_bit (crc_bit (crc_bit c)))))))"
  by (simp add: crc_byte_def numeral_eq_Suc)

definition crc_gens :: "16 word list" where
  "crc_gens = [0xC0C1, 0xC181, 0xC301, 0xC601, 0xCC01, 0xD801, 0xF001, 0xA001]"

lemma crc_gens_powers: "map (\<lambda>j. crc_byte (2 ^ j)) [0..<8] = crc_gens"
  by (simp add: crc_byte_unfold crc_bit_numerals crc_gens_def upt_rec)

lemma auchCRCHi_span: "auchCRCHi = xor_span (map ucast crc_gens)"
  by (simp add: auchCRCHi_def crc_gens_def xor_span_def)

lemma auchCRCLo_span: "auchCRCLo = xor_span (map (\<lambda>c. ucast (drop_bit 8 c)) crc_gens)"
  by (simp add: auchCRCLo_def crc_gens_def xor_span_def)

lemma length_tables: "length auchCRCHi = 256" "length auchCRCLo = 256"
  by (simp_all add: auchCRCHi_def auchCRCLo_def)

lemma ucast_xor16: "(ucast (x XOR y) :: 8 word) = ucast x XOR ucast (y::16 word)"
  by (rule bit_word_eqI) (auto simp: bit_xor_iff bit_ucast_iff)

lemma auchCRCHi_nth: "auchCRCHi ! unat b = ucast (crc_byte (ucast (b::8 word)))"
proof -
  have "auchCRCHi = xor_span (map (\<lambda>j. ucast (crc_byte (2 ^ j))) [0..<8])"
    by (simp only: auchCRCHi_span crc_gens_powers [symmetric] map_map comp_def)
  also have "\<dots> = map (\<lambda>i. ucast (crc_byte (of_nat i))) [0..<2 ^ 8]"
    by (rule xor_span_linear) (simp_all add: crc_byte_xor ucast_xor16)
  finally have table: "auchCRCHi = \<dots>" .
  show ?thesis
    using unsigned_less [of b, where 'a = nat] unfolding table by (subst nth_map) simp_all
qed

lemma auchCRCLo_nth: "auchCRCLo ! unat b = ucast (drop_bit 8 (crc_byte (ucast (b::8 word))))"
proof -
  have "auchCRCLo = xor_span (map (\<lambda>j. ucast (drop_bit 8 (crc_byte (2 ^ j)))) [0..<8])"
    by (simp only: auchCRCLo_span crc_gens_powers [symmetric] map_map comp_def)
  also have "\<dots> = map (\<lambda>i. ucast (drop_bit 8 (crc_byte (of_nat i)))) [0..<2 ^ 8]"
    by (rule xor_span_linear) (simp_all add: crc_byte_xor ucast_xor16 drop_bit_xor)
  finally have table: "auchCRCLo = \<dots>" .
  show ?thesis
    using unsigned_less [of b, where 'a = nat] unfolding table by (subst nth_map) simp_all
qed

section \<open>The table routine computes the remainder\<close>

text \<open>The two bytes of the routine, as the register of the reference.\<close>

definition crc_reg :: "8 word \<times> 8 word \<Rightarrow> 16 word" where
  "crc_reg p = (case p of (hi, lo) \<Rightarrow> push_bit 8 (ucast lo) XOR ucast hi)"

lemma crc_reg_split: "crc_reg (ucast c, ucast (drop_bit 8 c)) = c"
  by (rule bit_word_eqI) (auto simp: crc_reg_def bit_xor_iff bit_push_bit_iff bit_ucast_iff bit_drop_bit_eq)

lemma crc_reg_step:
  "crc_byte (crc_reg (hi, lo) XOR ucast b) =
   crc_reg (lo XOR auchCRCHi ! unat (hi XOR b), auchCRCLo ! unat (hi XOR b))"
proof -
  let ?c = "crc_byte (ucast (hi XOR b))"
  have cast: "ucast (x XOR y) = (ucast x XOR ucast y :: 16 word)" for x y :: "8 word"
    by (rule bit_word_eqI) (auto simp: bit_xor_iff bit_ucast_iff)
  have "crc_byte (crc_reg (hi, lo) XOR ucast b) = ucast lo XOR ?c"
    by (simp add: crc_reg_def crc_byte_xor crc_byte_high cast ac_simps)
  also have "\<dots> = ucast lo XOR crc_reg (ucast ?c, ucast (drop_bit 8 ?c))"
    by (simp only: crc_reg_split)
  also have "\<dots> = crc_reg (lo XOR ucast ?c, ucast (drop_bit 8 ?c))"
    by (simp add: crc_reg_def cast ac_simps)
  finally show ?thesis
    by (simp only: auchCRCHi_nth auchCRCLo_nth)
qed

lemma crc16_loop_reg:
  "crc_reg (crc16_loop bs hi lo) = fold (\<lambda>b c. crc_byte (c XOR ucast b)) bs (crc_reg (hi, lo))"
  by (induction bs arbitrary: hi lo) (simp_all add: Let_def crc_reg_step)

lemma crc16_modbus_loop: "crc16_modbus bs = crc_reg (crc16_loop bs 0xFF 0xFF)"
proof -
  have "crc_reg (0xFF, 0xFF) = 0xFFFF"
    by (simp add: crc_reg_def)
  then show ?thesis
    by (simp add: crc16_modbus_def crc16_loop_reg)
qed

text \<open>C37: \<^verbatim>\<open>__CRC16\<close> computes the CRC-16 of the Modbus protocol: for every message the result of the table
  routine is the remainder of the bitwise division by the polynomial with its two bytes exchanged, and a
  receiver that divides the message followed by the two bytes of that result, most significant first
  as the code sends them, finds the remainder zero.\<close>

theorem CRC16_is_modbus:
  "CRC16 bs = push_bit 8 (crc16_modbus bs) OR drop_bit 8 (crc16_modbus bs) \<and>
   crc16_modbus (bs @ [ucast (drop_bit 8 (CRC16 bs)), ucast (CRC16 bs)]) = 0"
proof -
  obtain hi lo where p: "crc16_loop bs 0xFF 0xFF = (hi, lo)"
    by fastforce
  have 1: "crc16_modbus bs = crc_reg (hi, lo)"
    by (simp add: crc16_modbus_loop p)
  have 2: "CRC16 bs = push_bit 8 (ucast hi) OR ucast lo"
    by (simp add: CRC16_def p)
  have 3: "ucast (drop_bit 8 (CRC16 bs)) = hi" "ucast (CRC16 bs) = lo"
    unfolding 2 by (rule bit_word_eqI;
      auto simp: bit_or_iff bit_push_bit_iff bit_ucast_iff bit_drop_bit_eq dest: bit_imp_le_length)+
  have "crc16_modbus (bs @ [hi, lo]) = crc_byte (crc_byte (crc_reg (hi, lo) XOR ucast hi) XOR ucast lo)"
    using 1 by (simp add: crc16_modbus_def)
  also have "\<dots> = 0"
    by (simp only: crc_reg_def prod.case xor.assoc xor_self_eq xor.right_neutral crc_byte_high crc_byte_0)
  finally have "crc16_modbus (bs @ [hi, lo]) = 0" .
  moreover have "CRC16 bs = push_bit 8 (crc16_modbus bs) OR drop_bit 8 (crc16_modbus bs)"
    unfolding 1 2 by (rule bit_word_eqI)
      (auto simp: crc_reg_def bit_or_iff bit_xor_iff bit_push_bit_iff bit_ucast_iff bit_drop_bit_eq dest: bit_imp_le_length)
  ultimately show ?thesis
    unfolding 3 by blast
qed

end
