(* ===== verification/Wit_Sdk.thy ===== *)
theory Wit_Sdk
  imports Crc16
begin

text \<open>
  The driver of the inertial sensor (\<^verbatim>\<open>hardware/WT61C/wit_c_sdk.c\<close>): the frame parser that the UART
  interrupt feeds byte by byte, the register file it fills, and the commands it sends over a serial line,
  CAN or I2C. The static variables of the file are the record \<open>wit\<close>. The functions the client registers
  are pointers, here options; they act on a client state of type \<open>'e\<close>. The value \<^term>\<open>None\<close> stands for an
  access outside an array or a call through a null pointer, which C leaves undefined.
\<close>

section \<open>State and constants\<close>

abbreviation (input) WIT_HAL_OK :: int where "WIT_HAL_OK \<equiv> 0"
abbreviation (input) WIT_HAL_ERROR :: int where "WIT_HAL_ERROR \<equiv> - 3"
abbreviation (input) WIT_HAL_NOMEM :: int where "WIT_HAL_NOMEM \<equiv> - 4"
abbreviation (input) WIT_HAL_EMPTY :: int where "WIT_HAL_EMPTY \<equiv> - 5"
abbreviation (input) WIT_HAL_INVAL :: int where "WIT_HAL_INVAL \<equiv> - 6"

definition WIT_DATA_BUFF_SIZE :: nat where "WIT_DATA_BUFF_SIZE = 256"
definition REGSIZE :: nat where "REGSIZE = 0x90"

abbreviation (input) WIT_PROTOCOL_NORMAL :: "32 word" where "WIT_PROTOCOL_NORMAL \<equiv> 0"
abbreviation (input) WIT_PROTOCOL_MODBUS :: "32 word" where "WIT_PROTOCOL_MODBUS \<equiv> 1"
abbreviation (input) WIT_PROTOCOL_CAN :: "32 word" where "WIT_PROTOCOL_CAN \<equiv> 2"
abbreviation (input) WIT_PROTOCOL_I2C :: "32 word" where "WIT_PROTOCOL_I2C \<equiv> 3"

text \<open>The register numbers of \<^verbatim>\<open>REG.h\<close> that the driver names.\<close>

abbreviation (input) reg_SAVE :: "32 word" where "reg_SAVE \<equiv> 0x00"
abbreviation (input) reg_CALSW :: "32 word" where "reg_CALSW \<equiv> 0x01"
abbreviation (input) reg_RSW :: "32 word" where "reg_RSW \<equiv> 0x02"
abbreviation (input) reg_RRATE :: "32 word" where "reg_RRATE \<equiv> 0x03"
abbreviation (input) reg_BAUD :: "32 word" where "reg_BAUD \<equiv> 0x04"
abbreviation (input) reg_BANDWIDTH :: "32 word" where "reg_BANDWIDTH \<equiv> 0x1f"
abbreviation (input) reg_VERSION :: "32 word" where "reg_VERSION \<equiv> 0x2e"
abbreviation (input) reg_YYMM :: "32 word" where "reg_YYMM \<equiv> 0x30"
abbreviation (input) reg_AX :: "32 word" where "reg_AX \<equiv> 0x34"
abbreviation (input) reg_GX :: "32 word" where "reg_GX \<equiv> 0x37"
abbreviation (input) reg_HX :: "32 word" where "reg_HX \<equiv> 0x3a"
abbreviation (input) reg_Roll :: "32 word" where "reg_Roll \<equiv> 0x3d"
abbreviation (input) reg_TEMP :: "32 word" where "reg_TEMP \<equiv> 0x40"
abbreviation (input) reg_D0Status :: "32 word" where "reg_D0Status \<equiv> 0x41"
abbreviation (input) reg_PressureL :: "32 word" where "reg_PressureL \<equiv> 0x45"
abbreviation (input) reg_LonL :: "32 word" where "reg_LonL \<equiv> 0x49"
abbreviation (input) reg_GPSHeight :: "32 word" where "reg_GPSHeight \<equiv> 0x4d"
abbreviation (input) reg_q0 :: "32 word" where "reg_q0 \<equiv> 0x51"
abbreviation (input) reg_SVNUM :: "32 word" where "reg_SVNUM \<equiv> 0x55"
abbreviation (input) reg_KEY :: "32 word" where "reg_KEY \<equiv> 0x69"

record 'e wit =
  p_WitSerialWriteFunc :: "(8 word list \<Rightarrow> 'e \<Rightarrow> 'e) option"
  p_WitI2cWriteFunc :: "(8 word \<Rightarrow> 8 word \<Rightarrow> 8 word list \<Rightarrow> 'e \<Rightarrow> int \<times> 'e) option"
  p_WitI2cReadFunc :: "(8 word \<Rightarrow> 8 word \<Rightarrow> nat \<Rightarrow> 'e \<Rightarrow> int \<times> 8 word list \<times> 'e) option"
  p_WitCanWriteFunc :: "(8 word \<Rightarrow> 8 word list \<Rightarrow> 'e \<Rightarrow> 'e) option"
  p_WitRegUpdateCbFunc :: "(32 word \<Rightarrow> 32 word \<Rightarrow> 'e \<Rightarrow> 'e) option"
  p_WitDelaymsFunc :: "(16 word \<Rightarrow> 'e \<Rightarrow> 'e) option"
  s_ucAddr :: "8 word"
  s_ucWitDataBuff :: "8 word list"
  s_uiWitDataCnt :: "32 word"
  s_uiProtoclo :: "32 word"
  s_uiReadRegIndex :: "32 word"
  sReg :: "16 word list"
  wit_env :: 'e

section \<open>Frames in\<close>

fun CaliSum :: "8 word list \<Rightarrow> 8 word" where
  "CaliSum [] = 0"
| "CaliSum (d # ds) = d + CaliSum ds"

text \<open>A copy into the register file starting at register \<open>r\<close>, and the call of the client's callback.\<close>

definition put_regs :: "32 word \<Rightarrow> 16 word list \<Rightarrow> 'e wit \<Rightarrow> 'e wit option" where
  "put_regs r vs s =
     (if vs = [] \<or> unat r + length vs \<le> length (sReg s)
      then Some (s\<lparr>sReg := memcpy_at (sReg s) (unat r) vs\<rparr>) else None)"

definition call_reg_update :: "32 word \<Rightarrow> 32 word \<Rightarrow> 'e wit \<Rightarrow> 'e wit option" where
  "call_reg_update r n s =
     map_option (\<lambda>cb. s\<lparr>wit_env := cb r n (wit_env s)\<rparr>) (p_WitRegUpdateCbFunc s)"

text \<open>The switch of \<^verbatim>\<open>CopeWitData\<close>: the values of \<^verbatim>\<open>uiReg1\<close>, \<^verbatim>\<open>uiReg1Len\<close>, \<^verbatim>\<open>uiReg2\<close>,
  \<^verbatim>\<open>uiReg2Len\<close> and \<^verbatim>\<open>uiLen\<close> after it, and none on the default case.\<close>

definition cope_switch ::
  "8 word \<Rightarrow> nat \<Rightarrow> 32 word \<Rightarrow> (32 word \<times> nat \<times> 32 word \<times> nat \<times> nat) option" where
  "cope_switch ucIndex uiLen readRegIndex =
     (if ucIndex = 0x51 then Some (reg_AX, 3, reg_TEMP, 1, uiLen)
      else if ucIndex = 0x53 then Some (reg_Roll, 3, reg_VERSION, 1, uiLen)
      else if ucIndex = 0x50 then Some (reg_YYMM, 4, 0, 0, uiLen)
      else if ucIndex = 0x52 then Some (reg_GX, 4, 0, 0, 3)
      else if ucIndex = 0x54 then Some (reg_HX, 4, 0, 0, 3)
      else if ucIndex = 0x55 then Some (reg_D0Status, 4, 0, 0, uiLen)
      else if ucIndex = 0x56 then Some (reg_PressureL, 4, 0, 0, uiLen)
      else if ucIndex = 0x57 then Some (reg_LonL, 4, 0, 0, uiLen)
      else if ucIndex = 0x58 then Some (reg_GPSHeight, 4, 0, 0, uiLen)
      else if ucIndex = 0x59 then Some (reg_q0, 4, 0, 0, uiLen)
      else if ucIndex = 0x5A then Some (reg_SVNUM, 4, 0, 0, uiLen)
      else if ucIndex = 0x5F then Some (readRegIndex, 4, 0, 0, uiLen)
      else None)"

definition cope_copy :: "32 word \<Rightarrow> 16 word list \<Rightarrow> nat \<Rightarrow> 'e wit \<Rightarrow> 'e wit option" where
  "cope_copy r src n s =
     (if n = 0 then Some s
      else do {
        rt_assert (n \<le> length src);
        s1 \<leftarrow> put_regs r (take n src) s;
        call_reg_update r (of_nat n) s1 })"

definition CopeWitData :: "8 word \<Rightarrow> 16 word list \<Rightarrow> nat \<Rightarrow> 'e wit \<Rightarrow> 'e wit option" where
  "CopeWitData ucIndex p_data uiLen s =
     (case cope_switch ucIndex uiLen (s_uiReadRegIndex s) of
        None \<Rightarrow> Some s
      | Some (uiReg1, uiReg1Len, uiReg2, uiReg2Len, uiLen') \<Rightarrow> do {
          let (len1, len2) = (if uiLen' = 3 then (3, 0) else (uiReg1Len, uiReg2Len));
          s1 \<leftarrow> cope_copy uiReg1 p_data len1 s;
          cope_copy uiReg2 (drop 3 p_data) len2 s1 })"

definition u16_of :: "8 word \<Rightarrow> 8 word \<Rightarrow> 16 word" where
  "u16_of hi lo = push_bit 8 (ucast hi) OR ucast lo"

text \<open>Dropping the first byte: the count is decremented and the rest moved down, byte by byte upwards.\<close>

definition wit_drop_first :: "'e wit \<Rightarrow> 'e wit" where
  "wit_drop_first s =
     (let cnt = s_uiWitDataCnt s - 1; buf = s_ucWitDataBuff s in
      s\<lparr>s_uiWitDataCnt := cnt,
        s_ucWitDataBuff := memcpy_at buf 0 (take (unat cnt) (drop 1 buf))\<rparr>)"

definition wit_wrap :: "'e wit \<Rightarrow> 'e wit" where
  "wit_wrap s =
     (if s_uiWitDataCnt s = of_nat WIT_DATA_BUFF_SIZE then s\<lparr>s_uiWitDataCnt := 0\<rparr> else s)"

definition wit_normal_words :: "8 word list \<Rightarrow> 16 word list" where
  "wit_normal_words buf =
     [u16_of (buf ! 3) (buf ! 2), u16_of (buf ! 5) (buf ! 4),
      u16_of (buf ! 7) (buf ! 6), u16_of (buf ! 9) (buf ! 8)]"

text \<open>The cases of the switch, after the new byte is in the buffer. A path that leaves the function
  early skips the final \<open>wit_wrap\<close>.\<close>

definition wit_normal_in :: "'e wit \<Rightarrow> 'e wit option" where
  "wit_normal_in s =
     (let buf = s_ucWitDataBuff s in
      if buf ! 0 \<noteq> 0x55 then Some (wit_drop_first s)
      else if s_uiWitDataCnt s \<ge> 11 then
        (if CaliSum (take 10 buf) \<noteq> buf ! 10 then Some (wit_drop_first s)
         else do {
           s1 \<leftarrow> CopeWitData (buf ! 1) (wit_normal_words buf) 4 s;
           Some (wit_wrap (s1\<lparr>s_uiWitDataCnt := 0\<rparr>)) })
      else Some (wit_wrap s))"

definition modbus_words :: "8 word list \<Rightarrow> nat \<Rightarrow> 16 word list" where
  "modbus_words buf n = map (\<lambda>i. u16_of (buf ! (2 * i + 3)) (buf ! (2 * i + 4))) [0..<n]"

definition wit_modbus_in :: "'e wit \<Rightarrow> 'e wit option" where
  "wit_modbus_in s =
     (let buf = s_ucWitDataBuff s; cnt = unat (s_uiWitDataCnt s) in
      if s_uiWitDataCnt s > 2 then
        if buf ! 1 \<noteq> 0x03 then Some (wit_drop_first s)
        else if cnt < unat (buf ! 2) + 5 then Some s
        else if u16_of (buf ! (cnt - 2)) (buf ! (cnt - 1)) \<noteq> CRC16 (take (cnt - 2) buf)
        then Some (wit_drop_first s)
        else do {
          let usTemp = unat (drop_bit 1 (buf ! 2));
          s1 \<leftarrow> put_regs (s_uiReadRegIndex s) (modbus_words buf usTemp) s;
          s2 \<leftarrow> call_reg_update (s_uiReadRegIndex s) (of_nat usTemp) s1;
          Some (wit_wrap (s2\<lparr>s_uiWitDataCnt := 0\<rparr>)) }
      else Some (wit_wrap s))"

definition WitSerialDataIn :: "8 word \<Rightarrow> 'e wit \<Rightarrow> 'e wit option" where
  "WitSerialDataIn ucData s =
     (if p_WitRegUpdateCbFunc s = None then Some s
      else do {
        rt_assert (unat (s_uiWitDataCnt s) < length (s_ucWitDataBuff s));
        let s1 = s\<lparr>s_ucWitDataBuff := (s_ucWitDataBuff s)[unat (s_uiWitDataCnt s) := ucData],
                   s_uiWitDataCnt := s_uiWitDataCnt s + 1\<rparr>;
        if s_uiProtoclo s1 = WIT_PROTOCOL_NORMAL then wit_normal_in s1
        else if s_uiProtoclo s1 = WIT_PROTOCOL_MODBUS then wit_modbus_in s1
        else if s_uiProtoclo s1 = WIT_PROTOCOL_CAN \<or> s_uiProtoclo s1 = WIT_PROTOCOL_I2C
        then Some (wit_wrap (s1\<lparr>s_uiWitDataCnt := 0\<rparr>))
        else Some (wit_wrap s1) })"

definition WitCanDataIn :: "8 word list \<Rightarrow> 8 word \<Rightarrow> 'e wit \<Rightarrow> 'e wit option" where
  "WitCanDataIn ucData ucLen s =
     (if p_WitRegUpdateCbFunc s = None then Some s
      else if ucLen < 8 then Some s
      else if s_uiProtoclo s = WIT_PROTOCOL_CAN then
        (if ucData ! 0 \<noteq> 0x55 then Some s
         else CopeWitData (ucData ! 1)
                [u16_of (ucData ! 3) (ucData ! 2), u16_of (ucData ! 5) (ucData ! 4),
                 u16_of (ucData ! 7) (ucData ! 6)] 3 s)
      else Some s)"

section \<open>Registration and set-up\<close>

definition WitSerialWriteRegister ::
  "(8 word list \<Rightarrow> 'e \<Rightarrow> 'e) option \<Rightarrow> 'e wit \<Rightarrow> int \<times> 'e wit" where
  "WitSerialWriteRegister Write_func s =
     (if Write_func = None then (WIT_HAL_INVAL, s)
      else (WIT_HAL_OK, s\<lparr>p_WitSerialWriteFunc := Write_func\<rparr>))"

definition WitI2cFuncRegister ::
  "(8 word \<Rightarrow> 8 word \<Rightarrow> 8 word list \<Rightarrow> 'e \<Rightarrow> int \<times> 'e) option \<Rightarrow>
   (8 word \<Rightarrow> 8 word \<Rightarrow> nat \<Rightarrow> 'e \<Rightarrow> int \<times> 8 word list \<times> 'e) option \<Rightarrow> 'e wit \<Rightarrow> int \<times> 'e wit" where
  "WitI2cFuncRegister write_func read_func s =
     (if write_func = None then (WIT_HAL_INVAL, s)
      else if read_func = None then (WIT_HAL_INVAL, s)
      else (WIT_HAL_OK, s\<lparr>p_WitI2cWriteFunc := write_func, p_WitI2cReadFunc := read_func\<rparr>))"

definition WitCanWriteRegister ::
  "(8 word \<Rightarrow> 8 word list \<Rightarrow> 'e \<Rightarrow> 'e) option \<Rightarrow> 'e wit \<Rightarrow> int \<times> 'e wit" where
  "WitCanWriteRegister Write_func s =
     (if Write_func = None then (WIT_HAL_INVAL, s)
      else (WIT_HAL_OK, s\<lparr>p_WitCanWriteFunc := Write_func\<rparr>))"

definition WitRegisterCallBack ::
  "(32 word \<Rightarrow> 32 word \<Rightarrow> 'e \<Rightarrow> 'e) option \<Rightarrow> 'e wit \<Rightarrow> int \<times> 'e wit" where
  "WitRegisterCallBack update_func s =
     (if update_func = None then (WIT_HAL_INVAL, s)
      else (WIT_HAL_OK, s\<lparr>p_WitRegUpdateCbFunc := update_func\<rparr>))"

definition WitDelayMsRegister :: "(16 word \<Rightarrow> 'e \<Rightarrow> 'e) option \<Rightarrow> 'e wit \<Rightarrow> int \<times> 'e wit" where
  "WitDelayMsRegister delayms_func s =
     (if delayms_func = None then (WIT_HAL_INVAL, s)
      else (WIT_HAL_OK, s\<lparr>p_WitDelaymsFunc := delayms_func\<rparr>))"

definition WitInit :: "32 word \<Rightarrow> 8 word \<Rightarrow> 'e wit \<Rightarrow> int \<times> 'e wit" where
  "WitInit uiProtocol ucAddr s =
     (if uiProtocol > WIT_PROTOCOL_I2C then (WIT_HAL_INVAL, s)
      else (WIT_HAL_OK, s\<lparr>s_uiProtoclo := uiProtocol, s_ucAddr := ucAddr, s_uiWitDataCnt := 0\<rparr>))"

definition WitDeInit :: "'e wit \<Rightarrow> 'e wit" where
  "WitDeInit s = s\<lparr>p_WitSerialWriteFunc := None, p_WitI2cWriteFunc := None, p_WitI2cReadFunc := None,
     p_WitCanWriteFunc := None, p_WitRegUpdateCbFunc := None, s_ucAddr := 0xff, s_uiWitDataCnt := 0,
     s_uiProtoclo := 0\<rparr>"

section \<open>Commands out\<close>

definition serial_send :: "8 word list \<Rightarrow> 'e wit \<Rightarrow> int \<times> 'e wit" where
  "serial_send bs s = (case p_WitSerialWriteFunc s of
       None \<Rightarrow> (WIT_HAL_EMPTY, s)
     | Some f \<Rightarrow> (WIT_HAL_OK, s\<lparr>wit_env := f bs (wit_env s)\<rparr>))"

definition can_send :: "8 word list \<Rightarrow> 'e wit \<Rightarrow> int \<times> 'e wit" where
  "can_send bs s = (case p_WitCanWriteFunc s of
       None \<Rightarrow> (WIT_HAL_EMPTY, s)
     | Some f \<Rightarrow> (WIT_HAL_OK, s\<lparr>wit_env := f (s_ucAddr s) bs (wit_env s)\<rparr>))"

text \<open>The six bytes of a Modbus request and the two bytes of its check sum.\<close>

definition modbus_request :: "8 word \<Rightarrow> 8 word \<Rightarrow> 32 word \<Rightarrow> 16 word \<Rightarrow> 8 word list" where
  "modbus_request addr func uiReg v =
     (let m = [addr, func, ucast (drop_bit 8 uiReg), ucast uiReg, ucast (drop_bit 8 v), ucast v];
          usCRC = CRC16 m in
      m @ [ucast (drop_bit 8 usCRC), ucast usCRC])"

definition WitWriteReg :: "32 word \<Rightarrow> 16 word \<Rightarrow> 'e wit \<Rightarrow> int \<times> 'e wit" where
  "WitWriteReg uiReg usData s =
     (if uiReg \<ge> of_nat REGSIZE then (WIT_HAL_INVAL, s)
      else if s_uiProtoclo s = WIT_PROTOCOL_NORMAL then
        serial_send [0xFF, 0xAA, ucast uiReg, ucast usData, ucast (drop_bit 8 usData)] s
      else if s_uiProtoclo s = WIT_PROTOCOL_MODBUS then
        serial_send (modbus_request (s_ucAddr s) 0x06 uiReg usData) s
      else if s_uiProtoclo s = WIT_PROTOCOL_CAN then
        can_send [0xFF, 0xAA, ucast uiReg, ucast usData, ucast (drop_bit 8 usData)] s
      else if s_uiProtoclo s = WIT_PROTOCOL_I2C then
        (case p_WitI2cWriteFunc s of
           None \<Rightarrow> (WIT_HAL_EMPTY, s)
         | Some f \<Rightarrow>
             (let (_, e) = f (push_bit 1 (s_ucAddr s)) (ucast uiReg)
                             [ucast usData, ucast (drop_bit 8 usData)] (wit_env s) in
              (WIT_HAL_OK, s\<lparr>wit_env := e\<rparr>)))
      else (WIT_HAL_INVAL, s))"

text \<open>The I2C read fills the data buffer; the client function returns the bytes it stores there.\<close>

definition i2c_words :: "8 word list \<Rightarrow> nat \<Rightarrow> 16 word list" where
  "i2c_words buf n = map (\<lambda>i. u16_of (buf ! (2 * i + 1)) (buf ! (2 * i))) [0..<n]"

definition wit_i2c_read :: "32 word \<Rightarrow> 32 word \<Rightarrow> 'e wit \<Rightarrow> (int \<times> 'e wit) option" where
  "wit_i2c_read uiReg uiReadNum s =
     (case p_WitI2cReadFunc s of
        None \<Rightarrow> Some (WIT_HAL_EMPTY, s)
      | Some f \<Rightarrow>
          (let usTemp = ucast (push_bit 1 uiReadNum) :: 16 word in
           if WIT_DATA_BUFF_SIZE < unat usTemp then Some (WIT_HAL_NOMEM, s)
           else
             let (ok, bytes, e) = f (push_bit 1 (s_ucAddr s)) (ucast uiReg) (unat usTemp) (wit_env s);
                 s1 = s\<lparr>s_ucWitDataBuff := memcpy_at (s_ucWitDataBuff s) 0 bytes, wit_env := e\<rparr> in
             if ok = 1 then
               if p_WitRegUpdateCbFunc s1 = None then Some (WIT_HAL_EMPTY, s1)
               else do {
                 rt_assert (2 * unat uiReadNum \<le> length (s_ucWitDataBuff s1));
                 s2 \<leftarrow> put_regs uiReg (i2c_words (s_ucWitDataBuff s1) (unat uiReadNum)) s1;
                 s3 \<leftarrow> call_reg_update uiReg uiReadNum s2;
                 Some (WIT_HAL_OK, s3\<lparr>s_uiReadRegIndex := uiReg\<rparr>) }
             else Some (WIT_HAL_OK, s1\<lparr>s_uiReadRegIndex := uiReg\<rparr>)))"

text \<open>The index of the read is remembered when the request was sent.\<close>

definition wit_sent :: "32 word \<Rightarrow> int \<times> 'e wit \<Rightarrow> (int \<times> 'e wit) option" where
  "wit_sent uiReg r =
     Some (if fst r = WIT_HAL_OK then (WIT_HAL_OK, (snd r)\<lparr>s_uiReadRegIndex := uiReg\<rparr>) else r)"

definition WitReadReg :: "32 word \<Rightarrow> 32 word \<Rightarrow> 'e wit \<Rightarrow> (int \<times> 'e wit) option" where
  "WitReadReg uiReg uiReadNum s =
     (if uiReg + uiReadNum \<ge> of_nat REGSIZE then Some (WIT_HAL_INVAL, s)
      else if s_uiProtoclo s = WIT_PROTOCOL_NORMAL then
        (if uiReadNum > 4 then Some (WIT_HAL_INVAL, s)
         else wit_sent uiReg (serial_send [0xFF, 0xAA, 0x27, ucast uiReg, ucast (drop_bit 8 uiReg)] s))
      else if s_uiProtoclo s = WIT_PROTOCOL_MODBUS then
        (if p_WitSerialWriteFunc s = None then Some (WIT_HAL_EMPTY, s)
         else if unat (ucast (push_bit 1 uiReadNum) :: 16 word) + 5 > WIT_DATA_BUFF_SIZE
         then Some (WIT_HAL_NOMEM, s)
         else wit_sent uiReg (serial_send (modbus_request (s_ucAddr s) 0x03 uiReg (ucast uiReadNum)) s))
      else if s_uiProtoclo s = WIT_PROTOCOL_CAN then
        (if uiReadNum > 3 then Some (WIT_HAL_INVAL, s)
         else wit_sent uiReg (can_send [0xFF, 0xAA, 0x27, ucast uiReg, ucast (drop_bit 8 uiReg)] s))
      else if s_uiProtoclo s = WIT_PROTOCOL_I2C then wit_i2c_read uiReg uiReadNum s
      else Some (WIT_HAL_INVAL, s))"

section \<open>Calibration and configuration\<close>

text \<open>The pause between two commands, whose length depends on the protocol.\<close>

definition wit_delay :: "'e wit \<Rightarrow> 'e wit option" where
  "wit_delay s =
     (let wait = (\<lambda>ms. map_option (\<lambda>f. s\<lparr>wit_env := f ms (wit_env s)\<rparr>) (p_WitDelaymsFunc s)) in
      if s_uiProtoclo s = WIT_PROTOCOL_MODBUS then wait 20
      else if s_uiProtoclo s = WIT_PROTOCOL_NORMAL then wait 1
      else Some s)"

text \<open>Two register writes with the pause between them: the body all the commands share.\<close>

definition wit_write_two ::
  "32 word \<Rightarrow> 16 word \<Rightarrow> 32 word \<Rightarrow> 16 word \<Rightarrow> 'e wit \<Rightarrow> (int \<times> 'e wit) option" where
  "wit_write_two r1 v1 r2 v2 s =
     (let (e1, s1) = WitWriteReg r1 v1 s in
      if e1 \<noteq> WIT_HAL_OK then Some (WIT_HAL_ERROR, s1)
      else do {
        s2 \<leftarrow> wit_delay s1;
        let (e2, s3) = WitWriteReg r2 v2 s2;
        Some (if e2 \<noteq> WIT_HAL_OK then (WIT_HAL_ERROR, s3) else (WIT_HAL_OK, s3)) })"

definition WitStartAccCali :: "'e wit \<Rightarrow> (int \<times> 'e wit) option" where
  "WitStartAccCali = wit_write_two reg_KEY 0xB588 reg_CALSW 0x01"

definition WitStopAccCali :: "'e wit \<Rightarrow> (int \<times> 'e wit) option" where
  "WitStopAccCali = wit_write_two reg_CALSW 0x00 reg_SAVE 0x00"

definition WitStartMagCali :: "'e wit \<Rightarrow> (int \<times> 'e wit) option" where
  "WitStartMagCali = wit_write_two reg_KEY 0xB588 reg_CALSW 0x07"

definition WitStopMagCali :: "'e wit \<Rightarrow> (int \<times> 'e wit) option" where
  "WitStopMagCali = wit_write_two reg_KEY 0xB588 reg_CALSW 0x00"

definition CheckRange :: "16 word \<Rightarrow> 16 word \<Rightarrow> 16 word \<Rightarrow> bool" where
  "CheckRange sTemp sMin sMax \<longleftrightarrow> sMin \<le>s sTemp \<and> sTemp \<le>s sMax"

text \<open>The argument is a 32-bit integer; \<^verbatim>\<open>CheckRange\<close> sees its low 16 bits, and so does the register.\<close>

definition wit_set :: "32 word \<Rightarrow> 16 word \<Rightarrow> 16 word \<Rightarrow> 32 word \<Rightarrow> 'e wit \<Rightarrow> (int \<times> 'e wit) option" where
  "wit_set r lo hi v s =
     (if \<not> CheckRange (ucast v) lo hi then Some (WIT_HAL_INVAL, s)
      else wit_write_two reg_KEY 0xB588 r (ucast v) s)"

definition WitSetUartBaud :: "32 word \<Rightarrow> 'e wit \<Rightarrow> (int \<times> 'e wit) option" where
  "WitSetUartBaud = wit_set reg_BAUD 1 7"

definition WitSetCanBaud :: "32 word \<Rightarrow> 'e wit \<Rightarrow> (int \<times> 'e wit) option" where
  "WitSetCanBaud = wit_set reg_BAUD 0 14"

definition WitSetBandwidth :: "32 word \<Rightarrow> 'e wit \<Rightarrow> (int \<times> 'e wit) option" where
  "WitSetBandwidth = wit_set reg_BANDWIDTH 0 6"

definition WitSetOutputRate :: "32 word \<Rightarrow> 'e wit \<Rightarrow> (int \<times> 'e wit) option" where
  "WitSetOutputRate = wit_set reg_RRATE 1 0xd"

definition WitSetContent :: "32 word \<Rightarrow> 'e wit \<Rightarrow> (int \<times> 'e wit) option" where
  "WitSetContent = wit_set reg_RSW 1 0xfff"

end
