(* ===== verification/Wit_Props.thy ===== *)
theory Wit_Props
  imports Wit_Sdk
begin

text \<open>
  Properties of the sensor driver with the protocol the application selects: the parser never leaves its
  buffers whatever bytes arrive, a stream of frames fills the registers the way the sensor's protocol
  says, and a read request near the end of the register file makes the reply overrun it.
\<close>

section \<open>The parser stays inside its buffers\<close>

definition wit_core :: "'e wit \<Rightarrow> bool" where
  "wit_core s \<longleftrightarrow> s_uiProtoclo s = WIT_PROTOCOL_NORMAL \<and> p_WitRegUpdateCbFunc s \<noteq> None \<and>
     length (s_ucWitDataBuff s) = WIT_DATA_BUFF_SIZE \<and> length (sReg s) = REGSIZE \<and>
     unat (s_uiWitDataCnt s) \<le> 10"

definition wit_ok :: "'e wit \<Rightarrow> bool" where
  "wit_ok s \<longleftrightarrow> wit_core s \<and> unat (s_uiReadRegIndex s) + 4 \<le> REGSIZE"

lemma wit_ok_core: "wit_ok s \<Longrightarrow> wit_core s"
  by (simp add: wit_ok_def)

text \<open>The bytes of a transfer, one interrupt each.\<close>

primrec wit_feed :: "8 word list \<Rightarrow> 'e wit \<Rightarrow> 'e wit option" where
  "wit_feed [] s = Some s"
| "wit_feed (b # bs) s = WitSerialDataIn b s \<bind> wit_feed bs"

lemma wit_feed_append: "wit_feed (xs @ ys) s = wit_feed xs s \<bind> wit_feed ys"
  by (induction xs arbitrary: s) (simp_all split: bind_split)

lemma wit_feed_one: "wit_feed [b] s = WitSerialDataIn b s"
  by (cases "WitSerialDataIn b s") simp_all

text \<open>Where \<^verbatim>\<open>CopeWitData\<close> puts the four values of a serial frame.\<close>

definition frame_slots :: "8 word \<Rightarrow> nat \<Rightarrow> nat list" where
  "frame_slots ty idx =
     (if ty = 0x50 then [0x30, 0x31, 0x32, 0x33]
      else if ty = 0x51 then [0x34, 0x35, 0x36, 0x40]
      else if ty = 0x52 then [0x37, 0x38, 0x39]
      else if ty = 0x53 then [0x3d, 0x3e, 0x3f, 0x2e]
      else if ty = 0x54 then [0x3a, 0x3b, 0x3c]
      else if ty = 0x55 then [0x41, 0x42, 0x43, 0x44]
      else if ty = 0x56 then [0x45, 0x46, 0x47, 0x48]
      else if ty = 0x57 then [0x49, 0x4a, 0x4b, 0x4c]
      else if ty = 0x58 then [0x4d, 0x4e, 0x4f, 0x50]
      else if ty = 0x59 then [0x51, 0x52, 0x53, 0x54]
      else if ty = 0x5A then [0x55, 0x56, 0x57, 0x58]
      else if ty = 0x5F then [idx, idx + 1, idx + 2, idx + 3]
      else [])"

definition store_slots :: "nat list \<Rightarrow> 16 word list \<Rightarrow> 16 word list \<Rightarrow> 16 word list" where
  "store_slots is vs regs = fold (\<lambda>(i, v) r. r[i := v]) (zip is vs) regs"

lemma length_store_slots [simp]: "length (store_slots is vs regs) = length regs"
proof -
  have "length (fold (\<lambda>(i, v) r. r[i := v]) ps regs) = length regs" for ps :: "(nat \<times> 16 word) list"
    by (induction ps arbitrary: regs) auto
  then show ?thesis
    by (simp add: store_slots_def)
qed

lemma memcpy_at_slots:
  "i + 4 \<le> length r \<Longrightarrow> memcpy_at r i [a, b, c, d] = r[i := a, i + 1 := b, i + 2 := c, i + 3 := d]"
  "i + 3 \<le> length r \<Longrightarrow> memcpy_at r i [a, b, c] = r[i := a, i + 1 := b, i + 2 := c]"
  "i + 1 \<le> length r \<Longrightarrow> memcpy_at r i [a] = r[i := a]"
  by (rule nth_equalityI; auto simp: nth_memcpy_at nth_list_update nth_Cons' less_Suc_eq; arith)+

lemma cope_copy_some:
  assumes "p_WitRegUpdateCbFunc s \<noteq> None" and "n \<le> length src" and "unat r + n \<le> length (sReg s)"
  shows "\<exists>e. cope_copy r src n s = Some (s\<lparr>sReg := memcpy_at (sReg s) (unat r) (take n src), wit_env := e\<rparr>)"
proof (cases "n = 0")
  case True
  then show ?thesis
    by (auto simp: cope_copy_def intro: exI [of _ "wit_env s"])
next
  case False
  then show ?thesis
    using assms by (auto simp: cope_copy_def put_regs_def call_reg_update_def rt_assert_def)
qed

lemma cope_switch_cases:
  assumes "unat i + 4 \<le> REGSIZE"
  shows "(cope_switch ty 4 i = None \<and> frame_slots ty (unat i) = []) \<or>
    (\<exists>r. cope_switch ty 4 i = Some (r, 4, 0, 0, 4) \<and> unat r + 4 \<le> REGSIZE \<and>
         frame_slots ty (unat i) = [unat r, unat r + 1, unat r + 2, unat r + 3]) \<or>
    (\<exists>r. cope_switch ty 4 i = Some (r, 4, 0, 0, 3) \<and> unat r + 4 \<le> REGSIZE \<and>
         frame_slots ty (unat i) = [unat r, unat r + 1, unat r + 2]) \<or>
    (\<exists>r r2. cope_switch ty 4 i = Some (r, 3, r2, 1, 4) \<and> unat r + 4 \<le> REGSIZE \<and> unat r2 < REGSIZE \<and>
         frame_slots ty (unat i) = [unat r, unat r + 1, unat r + 2, unat r2])"
  using assms by (simp add: cope_switch_def frame_slots_def REGSIZE_def)

lemma CopeWitData_slots:
  assumes cb: "p_WitRegUpdateCbFunc s \<noteq> None" and len: "length (sReg s) = REGSIZE"
    and idx: "unat (s_uiReadRegIndex s) + 4 \<le> REGSIZE" and ws: "length ws = 4"
  shows "\<exists>e. CopeWitData ty ws 4 s = Some (s\<lparr>sReg :=
    store_slots (frame_slots ty (unat (s_uiReadRegIndex s))) ws (sReg s), wit_env := e\<rparr>)"
proof -
  obtain a b c d where [simp]: "ws = [a, b, c, d]"
    using ws by (auto simp: numeral_eq_Suc length_Suc_conv)
  have four: "\<exists>e. CopeWitData ty ws 4 s = Some (s\<lparr>sReg := (sReg s)[unat r := a, unat r + 1 := b,
      unat r + 2 := c, unat r + 3 := d], wit_env := e\<rparr>)"
    if "cope_switch ty 4 (s_uiReadRegIndex s) = Some (r, 4, 0, 0, 4)" "unat r + 4 \<le> REGSIZE" for r
    using that cope_copy_some [of s 4 ws r] cb len
    by (auto simp: CopeWitData_def cope_copy_def [of 0] memcpy_at_slots)
  have three: "\<exists>e. CopeWitData ty ws 4 s = Some (s\<lparr>sReg := (sReg s)[unat r := a, unat r + 1 := b,
      unat r + 2 := c], wit_env := e\<rparr>)"
    if "cope_switch ty 4 (s_uiReadRegIndex s) = Some (r, 4, 0, 0, 3)" "unat r + 4 \<le> REGSIZE" for r
    using that cope_copy_some [of s 3 ws r] cb len
    by (auto simp: CopeWitData_def cope_copy_def [of 0] memcpy_at_slots)
  have split: "\<exists>e. CopeWitData ty ws 4 s = Some (s\<lparr>sReg := (sReg s)[unat r := a, unat r + 1 := b,
      unat r + 2 := c, unat r2 := d], wit_env := e\<rparr>)"
    if sw: "cope_switch ty 4 (s_uiReadRegIndex s) = Some (r, 3, r2, 1, 4)"
      and r: "unat r + 4 \<le> REGSIZE" "unat r2 < REGSIZE" for r r2
  proof -
    obtain e where 1: "cope_copy r ws 3 s =
        Some (s\<lparr>sReg := (sReg s)[unat r := a, unat r + 1 := b, unat r + 2 := c], wit_env := e\<rparr>)"
      using r cope_copy_some [of s 3 ws r] cb len by (auto simp: memcpy_at_slots)
    show ?thesis
      using sw r cb len
        cope_copy_some [of "s\<lparr>sReg := (sReg s)[unat r := a, unat r + 1 := b, unat r + 2 := c], wit_env := e\<rparr>" 1 "[d]" r2]
      by (auto simp: CopeWitData_def 1 [unfolded \<open>ws = _\<close>] memcpy_at_slots)
  qed
  from cope_switch_cases [OF idx, of ty] show ?thesis
  proof (elim disjE exE conjE)
    assume "cope_switch ty 4 (s_uiReadRegIndex s) = None" "frame_slots ty (unat (s_uiReadRegIndex s)) = []"
    then show ?thesis
      by (auto simp: CopeWitData_def store_slots_def intro: exI [of _ "wit_env s"])
  qed (use four three split in \<open>auto simp: store_slots_def\<close>)
qed

section \<open>One byte\<close>

lemma cnt_inc:
  assumes "unat (c::32 word) \<le> 10"
  shows "unat (c + 1) = Suc (unat c)" "c + 1 \<noteq> 0x100" "(11 \<le> c + 1) = (unat c = 10)"
proof -
  show 1: "unat (c + 1) = Suc (unat c)"
    using assms by (simp add: unat_word_ariths)
  show "c + 1 \<noteq> 0x100" "(11 \<le> c + 1) = (unat c = 10)"
    using assms by (auto simp: word_le_nat_alt word_unat_eq_iff 1)
qed

definition wit_push :: "8 word \<Rightarrow> 'e wit \<Rightarrow> 'e wit" where
  "wit_push b s = s\<lparr>s_ucWitDataBuff := (s_ucWitDataBuff s)[unat (s_uiWitDataCnt s) := b],
     s_uiWitDataCnt := s_uiWitDataCnt s + 1\<rparr>"

lemma WitSerialDataIn_push: "wit_core s \<Longrightarrow> WitSerialDataIn b s = wit_normal_in (wit_push b s)"
  by (auto simp: WitSerialDataIn_def wit_core_def wit_push_def WIT_DATA_BUFF_SIZE_def)

lemma wit_drop_first_ok:
  assumes "wit_ok s"
  shows "wit_ok (wit_drop_first (wit_push b s))"
  using assms by (auto simp: wit_ok_def wit_core_def wit_drop_first_def wit_push_def WIT_DATA_BUFF_SIZE_def Let_def)

lemma length_wit_normal_words [simp]: "length (wit_normal_words buf) = 4"
  by (simp add: wit_normal_words_def)

lemma nested_if_cases:
  "P x \<Longrightarrow> (b \<Longrightarrow> P y) \<Longrightarrow> (\<not> b \<Longrightarrow> P z) \<Longrightarrow> P (if a then x else if b then if c then x else y else z)"
  by simp

lemma WitSerialDataIn_if:
  assumes ok: "wit_core s"
  shows "WitSerialDataIn b s = (let t = wit_push b s; buf = s_ucWitDataBuff t in
    if buf ! 0 \<noteq> 0x55 then Some (wit_drop_first t)
    else if unat (s_uiWitDataCnt s) = 10 then
      if CaliSum (take 10 buf) \<noteq> buf ! 10 then Some (wit_drop_first t)
      else map_option (\<lambda>u. u\<lparr>s_uiWitDataCnt := 0\<rparr>) (CopeWitData (buf ! 1) (wit_normal_words buf) 4 t)
    else Some t)"
proof -
  have cnt: "unat (s_uiWitDataCnt s) \<le> 10"
    using ok by (simp add: wit_core_def)
  have "s_uiWitDataCnt (wit_push b s) = s_uiWitDataCnt s + 1"
    by (simp add: wit_push_def)
  then show ?thesis
    using cnt_inc (2,3) [OF cnt]
    by (simp add: WitSerialDataIn_push [OF ok] wit_normal_in_def Let_def wit_wrap_def
      WIT_DATA_BUFF_SIZE_def map_conv_bind_option comp_def)
qed

lemma WitSerialDataIn_ok:
  assumes ok: "wit_ok s"
  shows "\<exists>s'. WitSerialDataIn b s = Some s' \<and> wit_ok s'"
proof -
  let ?s = "wit_push b s" and ?buf = "s_ucWitDataBuff (wit_push b s)"
  have cnt: "unat (s_uiWitDataCnt s) \<le> 10"
    using ok by (simp add: wit_ok_def wit_core_def)
  obtain e where cope: "CopeWitData (?buf ! 1) (wit_normal_words ?buf) 4 ?s = Some (?s\<lparr>sReg :=
      store_slots (frame_slots (?buf ! 1) (unat (s_uiReadRegIndex ?s))) (wit_normal_words ?buf) (sReg ?s),
      wit_env := e\<rparr>)"
    using CopeWitData_slots [of ?s "wit_normal_words ?buf" "?buf ! 1"] ok
    by (auto simp: wit_ok_def wit_core_def wit_push_def)
  have fill: "wit_ok ?s" if "unat (s_uiWitDataCnt s) \<noteq> 10"
    using that cnt ok by (simp add: wit_ok_def wit_core_def wit_push_def cnt_inc)
  show ?thesis
    unfolding WitSerialDataIn_if [OF wit_ok_core [OF ok]] Let_def
  proof (rule nested_if_cases)
    show "\<exists>s'. map_option (\<lambda>u. u\<lparr>s_uiWitDataCnt := 0\<rparr>)
        (CopeWitData (?buf ! 1) (wit_normal_words ?buf) 4 ?s) = Some s' \<and> wit_ok s'"
      unfolding cope using ok by (simp add: wit_ok_def wit_core_def wit_push_def)
  qed (use fill wit_drop_first_ok [OF ok, of b] in auto)
qed

lemma wit_feed_ok: "wit_ok s \<Longrightarrow> \<exists>s'. wit_feed bs s = Some s' \<and> wit_ok s'"
proof (induction bs arbitrary: s)
  case (Cons b bs)
  then show ?case
    using WitSerialDataIn_ok [OF Cons.prems, of b] by auto
qed simp

text \<open>The client state changes only through its own callback.\<close>

definition env_kept :: "('e \<Rightarrow> bool) \<Rightarrow> 'e wit \<Rightarrow> 'e wit \<Rightarrow> bool" where
  "env_kept P s s' \<longleftrightarrow> p_WitRegUpdateCbFunc s' = p_WitRegUpdateCbFunc s \<and> (P (wit_env s) \<longrightarrow> P (wit_env s'))"

lemma cope_copy_env:
  assumes "\<And>cb r n e. p_WitRegUpdateCbFunc s = Some cb \<Longrightarrow> P e \<Longrightarrow> P (cb r n e)"
  shows "cope_copy r src n s = Some s' \<Longrightarrow> env_kept P s s'"
  using assms by (auto simp: cope_copy_def put_regs_def call_reg_update_def env_kept_def split: if_splits)

lemma CopeWitData_env:
  assumes cb: "\<And>cb r n e. p_WitRegUpdateCbFunc s = Some cb \<Longrightarrow> P e \<Longrightarrow> P (cb r n e)"
    and run: "CopeWitData ty ws n s = Some s'"
  shows "env_kept P s s'"
proof (cases "cope_switch ty n (s_uiReadRegIndex s)")
  case None
  then show ?thesis
    using run by (simp add: CopeWitData_def env_kept_def)
next
  case (Some sw)
  obtain r1 l1 r2 l2 where "\<exists>s1. cope_copy r1 ws l1 s = Some s1 \<and> cope_copy r2 (drop 3 ws) l2 s1 = Some s'"
    using run Some by (cases sw) (auto simp: CopeWitData_def bind_eq_Some_conv split: if_splits)
  then obtain s1 where 1: "cope_copy r1 ws l1 s = Some s1" and 2: "cope_copy r2 (drop 3 ws) l2 s1 = Some s'"
    by blast
  have e1: "env_kept P s s1"
    by (rule cope_copy_env [OF _ 1]) (rule cb)
  then have "env_kept P s1 s'"
    using cope_copy_env [where P = P, OF _ 2] cb by (simp add: env_kept_def)
  then show ?thesis
    using e1 by (simp add: env_kept_def)
qed

lemma WitSerialDataIn_env:
  assumes ok: "wit_ok s" and cb: "\<And>cb r n e. p_WitRegUpdateCbFunc s = Some cb \<Longrightarrow> P e \<Longrightarrow> P (cb r n e)"
    and run: "WitSerialDataIn b s = Some s'"
  shows "env_kept P s s'"
proof -
  let ?t = "wit_push b s" and ?buf = "s_ucWitDataBuff (wit_push b s)"
  have t: "env_kept P s ?t" "p_WitRegUpdateCbFunc ?t = p_WitRegUpdateCbFunc s" "wit_env ?t = wit_env s"
    by (simp_all add: env_kept_def wit_push_def)
  have d: "env_kept P s (wit_drop_first ?t)"
    using t by (simp add: env_kept_def wit_drop_first_def Let_def)
  have c: "env_kept P s (u\<lparr>s_uiWitDataCnt := 0\<rparr>)"
    if "CopeWitData (?buf ! 1) (wit_normal_words ?buf) 4 ?t = Some u" for u
    using CopeWitData_env [of ?t P, OF _ that] cb t by (simp add: env_kept_def)
  have "\<forall>s'. WitSerialDataIn b s = Some s' \<longrightarrow> env_kept P s s'"
    unfolding WitSerialDataIn_if [OF wit_ok_core [OF ok]] Let_def
    by (rule nested_if_cases) (use t(1) d c in auto)
  then show ?thesis
    using run by blast
qed

section \<open>One frame\<close>

lemma WitSerialDataIn_fill:
  assumes ok: "wit_core s" and n: "unat (s_uiWitDataCnt s) < 10"
    and head: "if s_uiWitDataCnt s = 0 then b = 0x55 else s_ucWitDataBuff s ! 0 = 0x55"
  shows "WitSerialDataIn b s = Some (wit_push b s)"
proof -
  have "s_ucWitDataBuff (wit_push b s) ! 0 = 0x55"
    using head ok by (auto simp: wit_push_def wit_core_def WIT_DATA_BUFF_SIZE_def nth_list_update unat_eq_zero split: if_splits)
  moreover have "\<not> s_uiWitDataCnt (wit_push b s) \<ge> 11" "s_uiWitDataCnt (wit_push b s) \<noteq> 0x100"
    using n cnt_inc [of "s_uiWitDataCnt s"] by (simp_all add: wit_push_def)
  ultimately show ?thesis
    by (simp add: WitSerialDataIn_push [OF ok] wit_normal_in_def Let_def wit_wrap_def WIT_DATA_BUFF_SIZE_def)
qed

lemma wit_feed_prefix:
  assumes ok: "wit_core s" and zero: "s_uiWitDataCnt s = 0"
  shows "length bs \<le> 10 \<Longrightarrow> (bs \<noteq> [] \<longrightarrow> bs ! 0 = 0x55) \<Longrightarrow>
    wit_feed bs s = Some (s\<lparr>s_ucWitDataBuff := memcpy_at (s_ucWitDataBuff s) 0 bs,
                             s_uiWitDataCnt := of_nat (length bs)\<rparr>)"
proof (induction bs rule: rev_induct)
  case Nil
  then show ?case using zero by simp
next
  case (snoc b bs)
  let ?s = "s\<lparr>s_ucWitDataBuff := memcpy_at (s_ucWitDataBuff s) 0 bs, s_uiWitDataCnt := of_nat (length bs)\<rparr>"
  have len: "length (s_ucWitDataBuff s) = 256"
    using ok by (simp add: wit_core_def WIT_DATA_BUFF_SIZE_def)
  have n: "unat (of_nat (length bs) :: 32 word) = length bs"
    using snoc.prems by (simp add: unat_of_nat take_bit_nat_eq_self)
  have "wit_core ?s"
    using ok snoc.prems by (simp add: wit_core_def WIT_DATA_BUFF_SIZE_def n)
  moreover have "memcpy_at (s_ucWitDataBuff s) 0 bs ! 0 = bs ! 0" if "bs \<noteq> []"
    using that by (simp add: memcpy_at_def nth_append)
  ultimately have "WitSerialDataIn b ?s = Some (wit_push b ?s)"
    using snoc.prems by (intro WitSerialDataIn_fill)
      (auto simp: n nth_append split: if_splits simp flip: unat_eq_zero)
  moreover have "wit_push b ?s = s\<lparr>s_ucWitDataBuff := memcpy_at (s_ucWitDataBuff s) 0 (bs @ [b]),
      s_uiWitDataCnt := of_nat (length (bs @ [b]))\<rparr>"
    using snoc.prems len by (simp add: wit_push_def n memcpy_at_def list_update_append Cons_nth_drop_Suc upd_conv_take_nth_drop add.commute)
  moreover have "wit_feed bs s = Some ?s"
    using snoc by (auto simp: nth_append split: if_splits)
  ultimately show ?case
    by (simp add: wit_feed_append)
qed

definition wit_frame :: "8 word list \<Rightarrow> bool" where
  "wit_frame f \<longleftrightarrow> length f = 11 \<and> f ! 0 = 0x55 \<and> f ! 10 = CaliSum (take 10 f)"

definition frame_regs :: "nat \<Rightarrow> 8 word list \<Rightarrow> 16 word list \<Rightarrow> 16 word list" where
  "frame_regs idx f = store_slots (frame_slots (f ! 1) idx) (wit_normal_words f)"

lemma frame_last: "length f = 11 \<Longrightarrow> take 10 f @ [f ! 10] = f"
  using take_Suc_conv_app_nth [of 10 f] by simp

lemma wit_feed_frame_cope:
  assumes core: "wit_core s" and zero: "s_uiWitDataCnt s = 0" and f: "wit_frame f"
  shows "wit_feed f s = map_option (\<lambda>u. u\<lparr>s_uiWitDataCnt := 0\<rparr>) (CopeWitData (f ! 1) (wit_normal_words f) 4
    (s\<lparr>s_ucWitDataBuff := memcpy_at (s_ucWitDataBuff s) 0 f, s_uiWitDataCnt := 11\<rparr>))"
proof -
  have len: "length f = 11" "length (s_ucWitDataBuff s) = 256"
    using f core by (auto simp: wit_frame_def wit_core_def WIT_DATA_BUFF_SIZE_def)
  define t where "t = s\<lparr>s_ucWitDataBuff := memcpy_at (s_ucWitDataBuff s) 0 (take 10 f), s_uiWitDataCnt := 10\<rparr>"
  have pre: "wit_feed (take 10 f) s = Some t"
    using wit_feed_prefix [OF core zero, of "take 10 f"] f by (simp add: t_def wit_frame_def)
  have t_core: "wit_core t"
    using core len by (simp add: t_def wit_core_def WIT_DATA_BUFF_SIZE_def)
  have u: "wit_push (f ! 10) t =
      s\<lparr>s_ucWitDataBuff := memcpy_at (s_ucWitDataBuff s) 0 f, s_uiWitDataCnt := 11\<rparr>" (is "_ = ?u")
  proof -
    have "(memcpy_at (s_ucWitDataBuff s) 0 (take 10 f))[10 := f ! 10] = memcpy_at (s_ucWitDataBuff s) 0 f"
      using len frame_last [OF len(1)]
      by (auto simp: memcpy_at_def list_update_append upd_conv_take_nth_drop simp flip: append_assoc)
    then show ?thesis
      by (simp add: wit_push_def t_def)
  qed
  have at: "s_ucWitDataBuff ?u ! i = f ! i" if "i < 11" for i
    using that len by (simp add: nth_memcpy_at)
  have take: "take 10 (s_ucWitDataBuff ?u) = take 10 f"
    using len by (simp add: memcpy_at_def)
  have words: "wit_normal_words (s_ucWitDataBuff ?u) = wit_normal_words f"
    using len by (simp add: wit_normal_words_def nth_memcpy_at)
  have "f ! 0 = 0x55" "CaliSum (take 10 f) = f ! 10" "unat (s_uiWitDataCnt t) = 10"
    using f by (simp_all add: wit_frame_def t_def)
  then have "WitSerialDataIn (f ! 10) t =
      map_option (\<lambda>u. u\<lparr>s_uiWitDataCnt := 0\<rparr>) (CopeWitData (f ! 1) (wit_normal_words f) 4 ?u)"
    unfolding WitSerialDataIn_if [OF t_core] Let_def u words take
    using at [of 0] at [of 1] at [of 10] by simp
  moreover have "wit_feed f s = wit_feed (take 10 f @ [f ! 10]) s"
    by (simp only: frame_last [OF len(1)])
  ultimately show ?thesis
    by (simp add: wit_feed_append pre wit_feed_one del: wit_feed.simps)
qed

lemma wit_feed_frame:
  assumes ok: "wit_ok s" and zero: "s_uiWitDataCnt s = 0" and f: "wit_frame f"
  shows "\<exists>s'. wit_feed f s = Some s' \<and> wit_ok s' \<and> s_uiWitDataCnt s' = 0 \<and>
    s_uiReadRegIndex s' = s_uiReadRegIndex s \<and>
    sReg s' = frame_regs (unat (s_uiReadRegIndex s)) f (sReg s)"
proof -
  let ?u = "s\<lparr>s_ucWitDataBuff := memcpy_at (s_ucWitDataBuff s) 0 f, s_uiWitDataCnt := 11\<rparr>"
  obtain e where "CopeWitData (f ! 1) (wit_normal_words f) 4 ?u = Some (?u\<lparr>sReg :=
      store_slots (frame_slots (f ! 1) (unat (s_uiReadRegIndex ?u))) (wit_normal_words f) (sReg ?u), wit_env := e\<rparr>)"
    using CopeWitData_slots [of ?u "wit_normal_words f" "f ! 1"] ok by (auto simp: wit_ok_def wit_core_def)
  then show ?thesis
    using ok f by (simp add: wit_feed_frame_cope [OF wit_ok_core [OF ok] zero f] frame_regs_def
      wit_ok_def wit_core_def wit_frame_def WIT_DATA_BUFF_SIZE_def)
qed

section \<open>Streams of frames\<close>

text \<open>Bytes that cannot start a frame, while no frame has begun, change nothing but the first byte of the
  data buffer.\<close>

lemma WitSerialDataIn_noise:
  assumes "wit_core s" "s_uiWitDataCnt s = 0" "b \<noteq> 0x55"
  shows "WitSerialDataIn b s = Some (s\<lparr>s_ucWitDataBuff := (s_ucWitDataBuff s)[0 := b]\<rparr>)"
proof -
  have "s_ucWitDataBuff (wit_push b s) ! 0 = b"
    using assms by (simp add: wit_push_def wit_core_def WIT_DATA_BUFF_SIZE_def)
  moreover have "wit_drop_first (wit_push b s) = s\<lparr>s_ucWitDataBuff := (s_ucWitDataBuff s)[0 := b]\<rparr>"
    using assms(2) by (simp add: wit_drop_first_def wit_push_def memcpy_at_def)
  ultimately show ?thesis
    using assms(3) by (simp add: WitSerialDataIn_if [OF assms(1)] Let_def)
qed

lemma wit_feed_noise:
  assumes "wit_ok s" "s_uiWitDataCnt s = 0" "0x55 \<notin> set g"
  shows "\<exists>s'. wit_feed g s = Some s' \<and> wit_ok s' \<and> s_uiWitDataCnt s' = 0 \<and>
    s_uiReadRegIndex s' = s_uiReadRegIndex s \<and> sReg s' = sReg s \<and> wit_env s' = wit_env s"
  using assms
proof (induction g arbitrary: s)
  case (Cons b g)
  let ?s = "s\<lparr>s_ucWitDataBuff := (s_ucWitDataBuff s)[0 := b]\<rparr>"
  have "wit_ok ?s"
    using Cons.prems(1) by (simp add: wit_ok_def wit_core_def)
  then show ?case
    using Cons.IH [of ?s] Cons.prems WitSerialDataIn_noise [of s b] by (simp add: wit_ok_core)
qed simp

text \<open>A transmission: each frame with the bytes before it, and the bytes after the last one.\<close>

definition wit_stream :: "(8 word list \<times> 8 word list) list \<Rightarrow> 8 word list \<Rightarrow> 8 word list" where
  "wit_stream gfs end_gap = concat (map (\<lambda>(gap, f). gap @ f) gfs) @ end_gap"

text \<open>C23: The parser of the sensor's serial protocol refines its specification: from a synchronised
  state, feeding the bytes of any number of well-formed frames (0x55, type, eight data bytes, sum), with
  any number of other bytes that are not 0x55 before, between and behind them, one interrupt at a time,
  stores, frame after frame, the four little-endian values of each frame in the registers of its type,
  and leaves the parser synchronised. (A 0x55 among the bytes between two frames can begin a false
  frame and is excluded.)\<close>

theorem wit_stream_refines:
  assumes "wit_ok s" and "s_uiWitDataCnt s = 0"
    and "\<forall>(gap, f)\<in>set gfs. 0x55 \<notin> set gap \<and> wit_frame f" and "0x55 \<notin> set end_gap"
  shows "\<exists>s'. wit_feed (wit_stream gfs end_gap) s = Some s' \<and> wit_ok s' \<and> s_uiWitDataCnt s' = 0 \<and>
    sReg s' = fold (frame_regs (unat (s_uiReadRegIndex s))) (map snd gfs) (sReg s)"
  using assms
proof (induction gfs arbitrary: s)
  case Nil
  then show ?case
    using wit_feed_noise [of s end_gap] by (auto simp: wit_stream_def)
next
  case (Cons gf gfs)
  obtain gap f where gf: "gf = (gap, f)"
    by fastforce
  from wit_feed_noise [OF Cons.prems(1,2), of gap] Cons.prems(3) gf obtain s0 where
    s0: "wit_feed gap s = Some s0" "wit_ok s0" "s_uiWitDataCnt s0 = 0"
      "s_uiReadRegIndex s0 = s_uiReadRegIndex s" "sReg s0 = sReg s"
    by auto
  from wit_feed_frame [OF s0(2,3), of f] Cons.prems(3) gf obtain s1 where
    s1: "wit_feed f s0 = Some s1" "wit_ok s1" "s_uiWitDataCnt s1 = 0"
      "s_uiReadRegIndex s1 = s_uiReadRegIndex s"
      "sReg s1 = frame_regs (unat (s_uiReadRegIndex s)) f (sReg s)"
    using s0(4,5) by auto
  then show ?case
    using Cons.IH [of s1] Cons.prems(3,4) s0(1) gf by (auto simp: wit_stream_def wit_feed_append)
qed

text \<open>The state after \<^verbatim>\<open>WT61C_Init\<close>, with a client that only counts its callbacks.\<close>

definition wit_start :: "nat wit" where
  "wit_start = \<lparr>p_WitSerialWriteFunc = Some (\<lambda>_ n. n), p_WitI2cWriteFunc = None, p_WitI2cReadFunc = None,
     p_WitCanWriteFunc = None, p_WitRegUpdateCbFunc = Some (\<lambda>_ _ n. n + 1), p_WitDelaymsFunc = Some (\<lambda>_ n. n),
     s_ucAddr = 0x50, s_ucWitDataBuff = replicate WIT_DATA_BUFF_SIZE 0, s_uiWitDataCnt = 0,
     s_uiProtoclo = WIT_PROTOCOL_NORMAL, s_uiReadRegIndex = 0, sReg = replicate REGSIZE 0, wit_env = 0\<rparr>"

lemma wit_start_ok: "wit_ok wit_start"
  by (simp add: wit_ok_def wit_core_def wit_start_def REGSIZE_def)

definition acc_frame :: "8 word list" where
  "acc_frame = [0x55, 0x51, 0x01, 0x02, 0x03, 0x04, 0x05, 0x06, 0x07, 0x08, 0xCA]"

lemma acc_frame_ok: "wit_frame acc_frame"
  by (simp add: wit_frame_def acc_frame_def)

theorem wit_stream_refines_witness:
  "\<exists>s'. wit_feed ([0x00, 0xCA] @ acc_frame @ [0x13] @ acc_frame @ [0xFF]) wit_start = Some s' \<and> wit_ok s' \<and>
    s_uiWitDataCnt s' = 0 \<and> sReg s' = fold (frame_regs 0) [acc_frame, acc_frame] (replicate REGSIZE 0)"
proof -
  have "wit_stream [([0x00, 0xCA], acc_frame), ([0x13], acc_frame)] [0xFF] =
      [0x00, 0xCA] @ acc_frame @ [0x13] @ acc_frame @ [0xFF]"
    by (simp add: wit_stream_def)
  moreover have "s_uiWitDataCnt wit_start = 0" "unat (s_uiReadRegIndex wit_start) = 0"
      "sReg wit_start = replicate REGSIZE 0"
    by (simp_all add: wit_start_def)
  ultimately show ?thesis
    using wit_stream_refines [OF wit_start_ok, of "[([0x00, 0xCA], acc_frame), ([0x13], acc_frame)]" "[0xFF]"]
      acc_frame_ok by simp
qed

text \<open>The parser is memory safe whatever arrives: for every sequence of bytes, also garbage and
  broken frames, every access stays inside the data buffer and the register file, every callback is
  called through a valid pointer, and no more than ten bytes wait for a frame afterwards.\<close>

theorem wit_feed_safe:
  assumes "wit_ok s"
  shows "\<exists>s'. wit_feed bs s = Some s' \<and> wit_ok s'"
  using assms by (rule wit_feed_ok)

theorem wit_feed_safe_witness: "\<exists>s'. wit_feed [0x55, 0x00, 0x55] wit_start = Some s' \<and> wit_ok s'"
  using wit_feed_safe [OF wit_start_ok] by blast

section \<open>A reply past the end of the register file\<close>

text \<open>C36: A read request for one of the last three registers is accepted, since only the requested
  registers are checked against the size of the register file; but the sensor's reply to a read always
  carries four values, and the parser stores all of them: any well-formed reply then makes it write past
  the end of the register file.\<close>

theorem wit_reply_overruns:
  assumes core: "wit_core s" and zero: "s_uiWitDataCnt s = 0" and out: "p_WitSerialWriteFunc s \<noteq> None"
    and r: "0x8D \<le> r" "r < 0x90" and n: "r + n < 0x90" "n \<le> 3"
  shows "\<exists>s'. WitReadReg r n s = Some (WIT_HAL_OK, s') \<and>
    (\<forall>f. wit_frame f \<and> f ! 1 = 0x5F \<longrightarrow> wit_feed f s' = None)"
proof -
  obtain w where w: "p_WitSerialWriteFunc s = Some w"
    using out by auto
  have small: "\<not> n > 4"
    using n(2) by (simp add: word_less_nat_alt word_le_nat_alt)
  define s' where "s' = s\<lparr>wit_env := w [0xFF, 0xAA, 0x27, ucast r, ucast (drop_bit 8 r)] (wit_env s),
    s_uiReadRegIndex := r\<rparr>"
  have "WitReadReg r n s = Some (WIT_HAL_OK, s')"
    using core n(1) small w
    by (simp add: WitReadReg_def REGSIZE_def wit_core_def wit_sent_def serial_send_def s'_def)
  moreover have "wit_feed f s' = None" if "wit_frame f" "f ! 1 = 0x5F" for f
  proof -
    have s': "wit_core s'" "s_uiWitDataCnt s' = 0" "s_uiReadRegIndex s' = r" "length (sReg s') = 0x90"
      using core zero by (simp_all add: s'_def wit_core_def REGSIZE_def)
    have "141 \<le> unat r"
      using r(1) by (simp add: word_le_nat_alt)
    then have "put_regs r (wit_normal_words f) u = None" if "length (sReg u) = 0x90" for u :: "'a wit"
      using that by (auto simp: put_regs_def wit_normal_words_def)
    then show ?thesis
      using s' that by (simp add: wit_feed_frame_cope CopeWitData_def cope_switch_def cope_copy_def)
  qed
  ultimately show ?thesis
    by blast
qed

theorem wit_reply_overruns_witness:
  "\<exists>s'. WitReadReg 0x8E 1 wit_start = Some (WIT_HAL_OK, s') \<and>
    (\<forall>f. wit_frame f \<and> f ! 1 = 0x5F \<longrightarrow> wit_feed f s' = None)"
  by (rule wit_reply_overruns [OF wit_ok_core [OF wit_start_ok]]) (simp_all add: wit_start_def)

end
