(* ===== verification/Float32.thy ===== *)
theory Float32
  imports Complex_Main
begin

text \<open>
  Single-precision arithmetic. The application computes with \<^verbatim>\<open>float\<close>: each operation returns the exact
  real result rounded to 24 significant bits, to the nearest number and to the even one on a tie. The
  exponent is not bounded here; the values of the application are far from overflow and underflow. What
  the proofs need of rounding is the interface \<open>float_rounding\<close>.
\<close>

section \<open>Rounding to nearest even\<close>

definition round_even :: "real \<Rightarrow> int" where
  "round_even x =
     (let n = \<lfloor>x\<rfloor>; d = x - of_int n in
      if d < 1 / 2 then n else if d > 1 / 2 then n + 1 else if even n then n else n + 1)"

definition f32_exp :: "real \<Rightarrow> int" where
  "f32_exp x = \<lfloor>log 2 \<bar>x\<bar>\<rfloor> - 23"

definition f32_round :: "real \<Rightarrow> real" where
  "f32_round x =
     (if x = 0 then 0
      else of_int (round_even (x * 2 powr (- of_int (f32_exp x)))) * 2 powr (of_int (f32_exp x)))"

lemma round_even_bounds: "\<lfloor>x\<rfloor> \<le> round_even x" "round_even x \<le> \<lfloor>x\<rfloor> + 1"
  by (simp_all add: round_even_def Let_def)

lemma round_even_int [simp]: "round_even (of_int n) = n"
  by (simp add: round_even_def)

lemma round_even_mono:
  assumes "x \<le> y"
  shows "round_even x \<le> round_even y"
proof (cases "\<lfloor>x\<rfloor> = \<lfloor>y\<rfloor>")
  case True
  then show ?thesis
    using assms by (auto simp: round_even_def Let_def)
next
  case False
  then have "\<lfloor>x\<rfloor> + 1 \<le> \<lfloor>y\<rfloor>"
    using floor_mono [OF assms] by linarith
  then show ?thesis
    using round_even_bounds [of x] round_even_bounds [of y] by linarith
qed

lemma round_even_minus: "round_even (- x) = - round_even x"
proof (cases "x = of_int \<lfloor>x\<rfloor>")
  case True
  then show ?thesis
    by (metis of_int_minus round_even_int)
next
  case False
  then have "\<lfloor>- x\<rfloor> = - \<lfloor>x\<rfloor> - 1"
    by (simp add: floor_minus ceiling_altdef)
  then show ?thesis
    by (auto simp: round_even_def Let_def)
qed

section \<open>The interface of rounding\<close>

locale float_rounding =
  fixes rnd :: "real \<Rightarrow> real"
  assumes mono: "x \<le> y \<Longrightarrow> rnd x \<le> rnd y"
    and exact: "\<bar>n\<bar> \<le> 2 ^ 24 \<Longrightarrow> rnd (of_int n) = of_int n"
begin

lemma le_int: "x \<le> of_int n \<Longrightarrow> \<bar>n\<bar> \<le> 2 ^ 24 \<Longrightarrow> rnd x \<le> of_int n"
  using mono [of x "of_int n"] by (simp add: exact)

lemma ge_int: "of_int n \<le> x \<Longrightarrow> \<bar>n\<bar> \<le> 2 ^ 24 \<Longrightarrow> of_int n \<le> rnd x"
  using mono [of "of_int n" x] by (simp add: exact)

lemma abs_le_int: "\<bar>x\<bar> \<le> of_int n \<Longrightarrow> 0 \<le> n \<Longrightarrow> n \<le> 2 ^ 24 \<Longrightarrow> \<bar>rnd x\<bar> \<le> of_int n"
  using le_int [of x n] ge_int [of "- n" x] by (simp add: abs_le_iff)

lemma square_le_int: "\<bar>x\<bar> \<le> of_int m \<Longrightarrow> m * m \<le> 2 ^ 24 \<Longrightarrow> rnd (x * x) \<le> of_int (m * m)"
  using mult_mono [of "\<bar>x\<bar>" "of_int m" "\<bar>x\<bar>" "of_int m"]
  by (intro le_int) (simp_all add: abs_mult [symmetric])

end

section \<open>Single precision satisfies it\<close>

lemma f32_exp_bounds:
  assumes "0 < x"
  shows "2 ^ 23 \<le> x * 2 powr (- of_int (f32_exp x))" "x * 2 powr (- of_int (f32_exp x)) < 2 ^ 24"
proof -
  have x: "x = 2 powr (log 2 x)"
    using assms by simp
  have "x * 2 powr (- of_int (f32_exp x)) = 2 powr (log 2 x - of_int (f32_exp x))"
    by (subst x) (simp add: powr_add [symmetric])
  moreover have "23 \<le> log 2 x - of_int (f32_exp x)" "log 2 x - of_int (f32_exp x) < 24"
    using assms by (simp_all add: f32_exp_def) linarith+
  ultimately show "2 ^ 23 \<le> x * 2 powr (- of_int (f32_exp x))" "x * 2 powr (- of_int (f32_exp x)) < 2 ^ 24"
    using powr_mono [of 23 "log 2 x - of_int (f32_exp x)" 2] powr_less_mono [of "log 2 x - of_int (f32_exp x)" 24 2]
    by simp_all
qed

lemma f32_round_0 [simp]: "f32_round 0 = 0"
  by (simp add: f32_round_def)

lemma f32_round_minus: "f32_round (- x) = - f32_round x"
  by (simp add: f32_round_def f32_exp_def round_even_minus minus_mult_left [symmetric] del: minus_mult_left)

lemma f32_exp_mono: "0 < x \<Longrightarrow> x \<le> y \<Longrightarrow> f32_exp x \<le> f32_exp y"
  by (simp add: f32_exp_def floor_mono)

lemma f32_round_range:
  assumes "0 < x"
  shows "2 ^ 23 * 2 powr (of_int (f32_exp x)) \<le> f32_round x"
    "f32_round x \<le> 2 ^ 24 * 2 powr (of_int (f32_exp x))"
proof -
  let ?y = "x * 2 powr (- of_int (f32_exp x))"
  have "round_even (of_int (2 ^ 23)) \<le> round_even ?y" "round_even ?y \<le> round_even (of_int (2 ^ 24))"
    using f32_exp_bounds [OF assms] by (auto intro: round_even_mono)
  then have "(2::real) ^ 23 \<le> of_int (round_even ?y)" "of_int (round_even ?y) \<le> (2::real) ^ 24"
    unfolding round_even_int by simp_all
  then show "2 ^ 23 * 2 powr (of_int (f32_exp x)) \<le> f32_round x"
    "f32_round x \<le> 2 ^ 24 * 2 powr (of_int (f32_exp x))"
    using assms by (simp_all add: f32_round_def)
qed

lemma f32_round_nonneg: "0 \<le> x \<Longrightarrow> 0 \<le> f32_round x"
  using f32_round_range(1) [of x] by (cases "x = 0") (auto intro: order_trans [rotated])

lemma f32_round_mono_pos:
  assumes x: "0 < x" and xy: "x \<le> y"
  shows "f32_round x \<le> f32_round y"
proof (cases "f32_exp x = f32_exp y")
  case True
  have "round_even (x * 2 powr (- of_int (f32_exp y))) \<le> round_even (y * 2 powr (- of_int (f32_exp y)))"
    using xy by (intro round_even_mono mult_right_mono) simp_all
  then show ?thesis
    using x xy True by (simp add: f32_round_def)
next
  case False
  then have "f32_exp x + 1 \<le> f32_exp y"
    using f32_exp_mono [OF x xy] by simp
  then have "real_of_int (f32_exp x) + 1 \<le> of_int (f32_exp y)"
    by linarith
  then have "(2::real) powr (of_int (f32_exp x) + 1) \<le> 2 powr (of_int (f32_exp y))"
    by (intro powr_mono) simp_all
  then have "2 ^ 24 * 2 powr (of_int (f32_exp x)) \<le> 2 ^ 23 * (2::real) powr (of_int (f32_exp y))"
    by (simp add: powr_add)
  then show ?thesis
    using f32_round_range(2) [OF x] f32_round_range(1) [of y] x xy by linarith
qed

lemma f32_round_mono: "x \<le> y \<Longrightarrow> f32_round x \<le> f32_round y"
proof (cases "0 < x")
  case False
  assume xy: "x \<le> y"
  show ?thesis
  proof (cases "0 \<le> y")
    case True
    then show ?thesis
      using False f32_round_nonneg [of "- x"] f32_round_nonneg [of y] f32_round_minus [of x] by linarith
  next
    case neg: False
    then show ?thesis
      using f32_round_mono_pos [of "- y" "- x"] xy f32_round_minus [of x] f32_round_minus [of y] by linarith
  qed
qed (rule f32_round_mono_pos)

lemma f32_round_exact_pos:
  assumes "0 < n" and "n \<le> 2 ^ 24"
  shows "f32_round (of_int n) = of_int n"
proof -
  let ?e = "f32_exp (of_int n)"
  have scaled: "\<exists>k. of_int n * 2 powr (- of_int ?e) = real_of_int k"
  proof (cases "?e \<le> 0")
    case True
    then have "- real_of_int ?e = real (nat (- ?e))"
      by simp
    then have "(2::real) powr (- of_int ?e) = 2 ^ nat (- ?e)"
      by (metis powr_realpow zero_less_numeral)
    then have "of_int n * 2 powr (- of_int ?e) = real_of_int (n * 2 ^ nat (- ?e))"
      by (simp only: of_int_mult of_int_power of_int_numeral)
    then show ?thesis
      by blast
  next
    case False
    have le: "log 2 (of_int n) \<le> 24"
      using assms by (subst log_le_iff) simp_all
    then have "?e \<le> 1"
      using assms by (simp add: f32_exp_def)
    then have e: "?e = 1"
      using False by simp
    then have "24 \<le> log 2 (of_int n)"
      using assms by (simp add: f32_exp_def) linarith
    then have "log 2 (of_int n) = 24"
      using le by simp
    then have "real_of_int n = 2 powr 24"
      using assms powr_log_cancel [of 2 "of_int n"] by simp
    then have "n = 2 ^ 24"
      by simp
    then show ?thesis
      using e by (intro exI [of _ "2 ^ 23"]) (simp add: powr_minus)
  qed
  then obtain k where k: "of_int n * 2 powr (- of_int ?e) = real_of_int k"
    by blast
  then have "f32_round (of_int n) = of_int n * 2 powr (- of_int ?e) * 2 powr (of_int ?e)"
    using assms by (simp only: f32_round_def k round_even_int) simp
  then show ?thesis
    by (simp add: mult.assoc powr_add [symmetric])
qed

lemma f32_round_exact: "\<bar>n\<bar> \<le> 2 ^ 24 \<Longrightarrow> f32_round (of_int n) = of_int n"
  using f32_round_exact_pos [of n] f32_round_exact_pos [of "- n"] f32_round_minus [of "of_int n"]
  by (cases "n = 0"; cases "0 < n") auto

interpretation f32: float_rounding f32_round
  by unfold_locales (auto intro: f32_round_mono f32_round_exact)

end
