(* ===== verification/Fall_Detection.thy ===== *)
theory Fall_Detection
  imports Wit_Props Float32
begin

text \<open>
  From the inertial sensor to the alarm: the glue between the sensor driver and the board
  (\<^verbatim>\<open>hardware/WT61C/wt61c_bsp.c\<close>), and the functions of \<^verbatim>\<open>applications/main.c\<close> that read the
  acceleration and the angular velocity and decide whether the wearer fell. A \<^verbatim>\<open>float\<close> operation is the
  real operation followed by \<^const>\<open>f32_round\<close>.
\<close>

section \<open>The board's side of the driver\<close>

record bsp =
  s_cDataUpdate :: "8 word"
  uart2_tx :: "8 word list"
  hal_delayed :: nat
  fAcc :: "real list"
  fGyro :: "real list"
  fAngle :: "real list"

abbreviation (input) ACC_UPDATE :: "8 word" where "ACC_UPDATE \<equiv> 0x01"
abbreviation (input) GYRO_UPDATE :: "8 word" where "GYRO_UPDATE \<equiv> 0x02"
abbreviation (input) ANGLE_UPDATE :: "8 word" where "ANGLE_UPDATE \<equiv> 0x04"
abbreviation (input) MAG_UPDATE :: "8 word" where "MAG_UPDATE \<equiv> 0x08"
abbreviation (input) READ_UPDATE :: "8 word" where "READ_UPDATE \<equiv> 0x80"

definition SensorUartSend :: "8 word list \<Rightarrow> bsp \<Rightarrow> bsp" where
  "SensorUartSend p_data e = e\<lparr>uart2_tx := uart2_tx e @ p_data\<rparr>"

definition Delayms :: "16 word \<Rightarrow> bsp \<Rightarrow> bsp" where
  "Delayms ucMs e = e\<lparr>hal_delayed := hal_delayed e + unat ucMs\<rparr>"

definition sensor_flag :: "32 word \<Rightarrow> 8 word" where
  "sensor_flag uiReg =
     (if uiReg = 0x36 then ACC_UPDATE else if uiReg = 0x39 then GYRO_UPDATE
      else if uiReg = 0x3c then MAG_UPDATE else if uiReg = 0x3f then ANGLE_UPDATE else READ_UPDATE)"

primrec sensor_update_loop :: "nat \<Rightarrow> 32 word \<Rightarrow> bsp \<Rightarrow> bsp" where
  "sensor_update_loop 0 uiReg e = e"
| "sensor_update_loop (Suc n) uiReg e =
     sensor_update_loop n (uiReg + 1) (e\<lparr>s_cDataUpdate := s_cDataUpdate e OR sensor_flag uiReg\<rparr>)"

definition SensorDataUpdata :: "32 word \<Rightarrow> 32 word \<Rightarrow> bsp \<Rightarrow> bsp" where
  "SensorDataUpdata uiReg uiRegNum e = sensor_update_loop (unat uiRegNum) uiReg e"

definition WT61C_Init :: "bsp wit \<Rightarrow> bsp wit" where
  "WT61C_Init s =
     snd (WitDelayMsRegister (Some Delayms) (snd (WitRegisterCallBack (Some SensorDataUpdata)
       (snd (WitSerialWriteRegister (Some SensorUartSend) (snd (WitInit WIT_PROTOCOL_NORMAL 0x50 s)))))))"

text \<open>A register value as a number: the conversion to \<^verbatim>\<open>float\<close>, the division by 32768 and the
  multiplication by the full scale.\<close>

definition sensor_scale :: "real \<Rightarrow> 16 word \<Rightarrow> real" where
  "sensor_scale full v = f32_round (f32_round (f32_round (of_int (sint v)) / 32768) * full)"

definition getWT61C :: "bsp wit \<Rightarrow> bsp wit" where
  "getWT61C s =
     (let e = wit_env s; three = (\<lambda>r full. map (\<lambda>i. sensor_scale full (sReg s ! (r + i))) [0..<3]) in
      if s_cDataUpdate e \<noteq> 0 then
        s\<lparr>wit_env := e\<lparr>fAcc := three 0x34 16, fGyro := three 0x37 2000, fAngle := three 0x3d 180,
          s_cDataUpdate := s_cDataUpdate e AND NOT ACC_UPDATE AND NOT GYRO_UPDATE AND NOT ANGLE_UPDATE
                             AND NOT MAG_UPDATE\<rparr>\<rparr>
      else s)"

section \<open>The decision\<close>

definition read_imu_data :: "bsp wit \<Rightarrow> (real list \<times> real list) \<times> bsp wit" where
  "read_imu_data s =
     (let s1 = getWT61C s in ((take 3 (fAcc (wit_env s1)), take 3 (fGyro (wit_env s1))), s1))"

definition f32_magnitude :: "real list \<Rightarrow> real" where
  "f32_magnitude v =
     f32_round (sqrt (f32_round (f32_round (f32_round (v ! 0 * v ! 0) + f32_round (v ! 1 * v ! 1))
                                 + f32_round (v ! 2 * v ! 2))))"

definition run_fall_detection_algorithm :: "real list \<Rightarrow> real list \<Rightarrow> int" where
  "run_fall_detection_algorithm acc gyro =
     (if f32_magnitude acc > 30 \<and> f32_magnitude gyro > 300 then 1 else 0)"

section \<open>The range of the sensor\<close>

lemma sensor_scale_acc: "\<bar>sensor_scale 16 v\<bar> \<le> 16"
proof -
  have "\<bar>sint v\<bar> \<le> 32768"
    using sint_ge [of v] sint_lt [of v] by simp
  then have "\<bar>f32_round (of_int (sint v))\<bar> \<le> of_int 32768"
    by (intro f32.abs_le_int) (linarith, simp_all)
  then have "\<bar>f32_round (f32_round (of_int (sint v)) / 32768)\<bar> \<le> of_int 1"
    by (intro f32.abs_le_int) simp_all
  then have "\<bar>sensor_scale 16 v\<bar> \<le> of_int 16"
    unfolding sensor_scale_def by (intro f32.abs_le_int) simp_all
  then show ?thesis
    by simp
qed

lemma magnitude_acc:
  assumes "\<forall>i<3. \<bar>acc ! i\<bar> \<le> 16"
  shows "f32_magnitude acc \<le> 28"
proof -
  have sq: "f32_round (acc ! i * acc ! i) \<le> 256" if "i < 3" for i
    using f32.square_le_int [of "acc ! i" 16] assms that by simp
  have "f32_round (f32_round (acc ! 0 * acc ! 0) + f32_round (acc ! 1 * acc ! 1)) \<le> of_int 512"
    using sq [of 0] sq [of 1] by (intro f32.le_int) simp_all
  then have "f32_round (f32_round (f32_round (acc ! 0 * acc ! 0) + f32_round (acc ! 1 * acc ! 1))
      + f32_round (acc ! 2 * acc ! 2)) \<le> of_int 768"
    using sq [of 2] by (intro f32.le_int) simp_all
  then have "sqrt (f32_round (f32_round (f32_round (acc ! 0 * acc ! 0) + f32_round (acc ! 1 * acc ! 1))
      + f32_round (acc ! 2 * acc ! 2))) \<le> of_int 28"
    by (intro real_le_lsqrt) simp_all
  then have "f32_magnitude acc \<le> of_int 28"
    unfolding f32_magnitude_def by (intro f32.le_int) simp_all
  then show ?thesis
    by simp
qed

definition imu_ok :: "bsp wit \<Rightarrow> bool" where
  "imu_ok s \<longleftrightarrow> length (fAcc (wit_env s)) = 3 \<and> (\<forall>i<3. \<bar>fAcc (wit_env s) ! i\<bar> \<le> 16)"

lemma getWT61C_ok: "imu_ok s \<Longrightarrow> imu_ok (getWT61C s)"
  by (simp add: imu_ok_def getWT61C_def Let_def sensor_scale_acc)

lemma fall_detection_zero:
  assumes "imu_ok s" and "read_imu_data s = ((acc, gyro), s')"
  shows "run_fall_detection_algorithm acc gyro = 0"
proof -
  have "\<forall>i<3. \<bar>acc ! i\<bar> \<le> 16"
    using getWT61C_ok [OF assms(1)] assms(2) by (auto simp: read_imu_data_def Let_def imu_ok_def)
  then show ?thesis
    using magnitude_acc [of acc] by (simp add: run_fall_detection_algorithm_def)
qed

section \<open>Bytes and detection loops in any order\<close>

datatype imu_event = Uart2_byte "8 word" | Fall_loop

text \<open>\<^verbatim>\<open>Uart2_byte\<close> is the USART2 branch of \<^verbatim>\<open>HAL_UART_RxCpltCallback\<close>, \<^verbatim>\<open>Fall_loop\<close> one pass of the loop
  of \<^verbatim>\<open>fall_detection_thread_entry\<close> up to its decision. The result lists the decisions.\<close>

primrec imu_run :: "imu_event list \<Rightarrow> bsp wit \<Rightarrow> (int list \<times> bsp wit) option" where
  "imu_run [] s = Some ([], s)"
| "imu_run (ev # evs) s =
     (case ev of
        Uart2_byte b \<Rightarrow> WitSerialDataIn b s \<bind> imu_run evs
      | Fall_loop \<Rightarrow>
          (let ((acc, gyro), s1) = read_imu_data s in
           map_option (apfst (Cons (run_fall_detection_algorithm acc gyro))) (imu_run evs s1)))"

text \<open>The state at power-up.\<close>

definition imu_boot :: "bsp wit" where
  "imu_boot = \<lparr>p_WitSerialWriteFunc = None, p_WitI2cWriteFunc = None, p_WitI2cReadFunc = None,
     p_WitCanWriteFunc = None, p_WitRegUpdateCbFunc = None, p_WitDelaymsFunc = None,
     s_ucAddr = 0xff, s_ucWitDataBuff = replicate WIT_DATA_BUFF_SIZE 0, s_uiWitDataCnt = 0,
     s_uiProtoclo = 0, s_uiReadRegIndex = 0, sReg = replicate REGSIZE 0,
     wit_env = \<lparr>s_cDataUpdate = 0, uart2_tx = [], hal_delayed = 0, fAcc = [0, 0, 0], fGyro = [0, 0, 0],
       fAngle = [0, 0, 0]\<rparr>\<rparr>"

definition imu_inv :: "bsp wit \<Rightarrow> bool" where
  "imu_inv s \<longleftrightarrow> wit_ok s \<and> p_WitRegUpdateCbFunc s = Some SensorDataUpdata \<and> imu_ok s"

lemma sensor_update_loop_fAcc [simp]: "fAcc (sensor_update_loop n r e) = fAcc e"
  by (induction n arbitrary: r e) simp_all

lemma SensorDataUpdata_fAcc [simp]: "fAcc (SensorDataUpdata r n e) = fAcc e"
  by (simp add: SensorDataUpdata_def)

lemma imu_inv_boot: "imu_inv (WT61C_Init imu_boot)"
  by (simp add: imu_inv_def WT61C_Init_def imu_boot_def WitDelayMsRegister_def WitRegisterCallBack_def
    WitSerialWriteRegister_def WitInit_def wit_ok_def wit_core_def imu_ok_def REGSIZE_def nth_Cons' )

lemma imu_inv_byte:
  assumes "imu_inv s"
  shows "\<exists>s'. WitSerialDataIn b s = Some s' \<and> imu_inv s'"
proof -
  have ok: "wit_ok s" and cb: "p_WitRegUpdateCbFunc s = Some SensorDataUpdata"
    using assms by (simp_all add: imu_inv_def)
  obtain s' where s': "WitSerialDataIn b s = Some s'" "wit_ok s'"
    using WitSerialDataIn_ok [OF ok] by blast
  have "env_kept (\<lambda>e. length (fAcc e) = 3 \<and> (\<forall>i<3. \<bar>fAcc e ! i\<bar> \<le> 16)) s s'"
    using cb by (intro WitSerialDataIn_env [OF ok _ s'(1)]) auto
  then show ?thesis
    using assms s' by (auto simp: imu_inv_def env_kept_def imu_ok_def)
qed

lemma imu_inv_read: "imu_inv s \<Longrightarrow> imu_inv (snd (read_imu_data s))"
  using getWT61C_ok [of s]
  by (auto simp: imu_inv_def read_imu_data_def Let_def getWT61C_def wit_ok_def wit_core_def)

lemma imu_run_length: "imu_run evs s = Some (rs, s') \<Longrightarrow> length rs = count_list evs Fall_loop"
  by (induction evs arbitrary: s rs)
    (auto simp: bind_eq_Some_conv Let_def split: imu_event.splits prod.splits)

lemma imu_run_zero: "imu_inv s \<Longrightarrow> \<exists>rs s'. imu_run evs s = Some (rs, s') \<and> set rs \<subseteq> {0} \<and> imu_inv s'"
proof (induction evs arbitrary: s)
  case (Cons ev evs)
  show ?case
  proof (cases ev)
    case (Uart2_byte b)
    then show ?thesis
      using imu_inv_byte [OF Cons.prems, of b] Cons.IH by auto
  next
    case Fall_loop
    obtain acc gyro s1 where r: "read_imu_data s = ((acc, gyro), s1)"
      by (metis prod.exhaust)
    have "imu_inv s1"
      using imu_inv_read [OF Cons.prems] r by simp
    moreover have "run_fall_detection_algorithm acc gyro = 0"
      using fall_detection_zero [OF _ r] Cons.prems by (simp add: imu_inv_def)
    ultimately show ?thesis
      using Cons.IH [of s1] Fall_loop r by auto
  qed
qed simp

text \<open>C4: The fall detector never reports a fall. After start-up, whatever bytes the sensor sends and
  however the passes of the detection loop are interleaved with them, every pass decides 0: the driver
  scales an acceleration to at most 16 in each axis, so the magnitude it computes in single precision is at
  most 28 and never exceeds the threshold of 30, and no fall triggers the emergency response.\<close>

theorem fall_detection_never_fires:
  "\<exists>s'. imu_run evs (WT61C_Init imu_boot) = Some (replicate (count_list evs Fall_loop) 0, s')"
proof -
  obtain rs s' where run: "imu_run evs (WT61C_Init imu_boot) = Some (rs, s')" "set rs \<subseteq> {0}"
    using imu_run_zero [OF imu_inv_boot] by blast
  then have "length rs = count_list evs Fall_loop"
    using imu_run_length by blast
  then have "rs = replicate (count_list evs Fall_loop) 0"
    using run(2) by (auto intro!: replicate_eqI)
  then show ?thesis
    using run(1) by blast
qed

end
