(* ===== verification/Processing.thy ===== *)
theory Processing
  imports K230 Fall_Detection
begin

text \<open>
  The board application of \<^verbatim>\<open>hardware/processing.c\<close>: the dispatch of received bytes to the four serial
  lines, the spoken announcements, the five vibration motors, the mode switches and the servo commands.
  The record \<open>app\<close> holds its global variables. What the code does to the outside world, bytes on a serial
  line, a compare value of a timer channel, a delay, a pin, a call of the LED library, is appended to
  the list \<open>io\<close>; the LED library itself is not part of the repository.
\<close>

section \<open>State\<close>

datatype uart = USART1 | USART2 | USART3 | UART4 | USART6

datatype pwm_channel = Motor nat | Servo_up | Servo_down

datatype led_mode = MODE_WHITE_LOW | MODE_WHITE_MID | MODE_WHITE_HIGH | MODE_BLINK_BREATH | MODE_COLOR_FLOW

datatype io_event =
    Uart_tx uart "8 word list"
  | Pwm pwm_channel "32 word"
  | Delay nat
  | Buzzer bool
  | Led_mode led_mode
  | Led_black
  | Tim10_stop | Tim10_zero | Tim10_start

text \<open>\<^verbatim>\<open>VibrationControl_t\<close>; its timer and channel are the motor of the same index.\<close>

record vibration =
  start_time :: "32 word"
  vib_duration :: "32 word"
  is_vibrating :: "8 word"
  vib_intensity :: "16 word"

text \<open>The result of a ranging measurement.\<close>

record ranging =
  RangeMilliMeter :: "16 word"
  RangeStatus :: "8 word"

record app =
  imu :: "bsp wit"
  link :: k230
  bluetooth_data :: "8 word list"
  data_index :: "8 word"
  valid_data :: "8 word"
  duojirun_flag :: "8 word"
  shangduoji :: "16 word"
  xiaduoji :: "16 word"
  USART1_RX_BUF :: "8 word list"
  USART1_RX_STA :: "16 word"
  full_message :: "8 word list"
  vibration_controls :: "vibration list"
  vl53l0x_data :: "ranging list"
  light_mode :: "8 word"
  vl53l0_mode :: "8 word"
  sendmessage_mode :: "8 word"
  askhelp_mode :: "8 word"
  notice_mode :: "8 word"
  send_message_falg :: "8 word"
  hal_tick :: "32 word"
  io :: "io_event list"

definition emit :: "io_event \<Rightarrow> app \<Rightarrow> app" where
  "emit e s = s\<lparr>io := io s @ [e]\<rparr>"

section \<open>Received bytes\<close>

text \<open>The USART3 branch. The interrupt stores the byte at the place the last \<^verbatim>\<open>HAL_UART_Receive_IT\<close> armed,
  which is always \<^verbatim>\<open>bluetooth_data[data_index]\<close>.\<close>

definition usart3_rx :: "8 word \<Rightarrow> app \<Rightarrow> app option" where
  "usart3_rx c s = do {
     d \<leftarrow> put_at (bluetooth_data s) (unat (data_index s)) c;
     let s1 = s\<lparr>bluetooth_data := d\<rparr>;
     if data_index s1 = 0 \<and> d ! 0 \<noteq> 0x33 then Some (s1\<lparr>data_index := 0\<rparr>)
     else
       let s2 = s1\<lparr>data_index := data_index s1 + 1\<rparr> in
       if data_index s2 \<ge> 3 then
         let s3 = (if d ! 0 = 0x33 \<and> d ! 2 = 0x66 then s2\<lparr>valid_data := d ! 1, duojirun_flag := 0\<rparr> else s2)
         in Some (s3\<lparr>data_index := 0\<rparr>)
       else Some s2 }"

text \<open>The USART1 branch.\<close>

definition usart1_rx :: "8 word \<Rightarrow> app \<Rightarrow> app option" where
  "usart1_rx c s =
     (if USART1_RX_STA s AND 0x8000 = 0 then
        if USART1_RX_STA s < 200 then do {
          let s1 = emit Tim10_zero (emit Tim10_stop s);
          let s2 = (if USART1_RX_STA s1 = 0 then emit Tim10_start s1 else s1);
          b \<leftarrow> put_at (USART1_RX_BUF s2) (unat (USART1_RX_STA s2)) c;
          Some (s2\<lparr>USART1_RX_BUF := b, USART1_RX_STA := USART1_RX_STA s2 + 1\<rparr>) }
        else Some (s\<lparr>USART1_RX_STA := USART1_RX_STA s OR 0x8000\<rparr>)
      else Some s)"

definition HAL_UART_RxCpltCallback :: "uart \<Rightarrow> 8 word \<Rightarrow> app \<Rightarrow> app option" where
  "HAL_UART_RxCpltCallback huart c s =
     (case huart of
        USART2 \<Rightarrow> map_option (\<lambda>w. s\<lparr>imu := w\<rparr>) (WitSerialDataIn c (imu s))
      | USART3 \<Rightarrow> usart3_rx c s
      | UART4 \<Rightarrow> map_option (\<lambda>l. s\<lparr>link := l\<rparr>) (uart4_rx c (link s))
      | USART1 \<Rightarrow> usart1_rx c s
      | USART6 \<Rightarrow> Some s)"

section \<open>Announcements\<close>

definition fun2_prefix :: "8 word list" where
  "fun2_prefix = [0x5b, 0x76, 0x31, 0x30, 0x5d, 0x5b, 0x6d, 0x30, 0x5d, 0x5b, 0x74, 0x31, 0x5d]"

definition prefix :: "8 word list" where
  "prefix = fun2_prefix @ [0xc7, 0xb0, 0xb7, 0xbd, 0xd3, 0xd0]"

text \<open>The names of the objects in the order of the switch of \<^verbatim>\<open>select_yuyin\<close>, cases 0x01 to 0x4F, in
  the encoding of the source file.\<close>

definition yuyin_names :: "8 word list list" where
  "yuyin_names = [
    [0xc8, 0xcb],
    [0xd7, 0xd4, 0xd0, 0xd0, 0xb3, 0xb5],
    [0xc6, 0xfb, 0xb3, 0xb5],
    [0xc4, 0xa6, 0xcd, 0xd0, 0xb3, 0xb5],
    [0xb7, 0xc9, 0xbb, 0xfa],
    [0xb9, 0xab, 0xb9, 0xb2, 0xc6, 0xfb, 0xb3, 0xb5],
    [0xbb, 0xf0, 0xb3, 0xb5],
    [0xbf, 0xa8, 0xb3, 0xb5],
    [0xb4, 0xac],
    [0xbd, 0xbb, 0xcd, 0xa8, 0xb5, 0xc6],
    [0xcf, 0xfb, 0xb7, 0xc0, 0xcb, 0xa8],
    [0xcd, 0xa3, 0xb3, 0xb5, 0xb1, 0xea, 0xd6, 0xbe],
    [0xcd, 0xa3, 0xb3, 0xb5, 0xca, 0xd5, 0xb7, 0xd1, 0xb1, 0xed],
    [0xb3, 0xa4, 0xb5, 0xca],
    [0xc4, 0xf1],
    [0xc3, 0xa8],
    [0xb9, 0xb7],
    [0xc2, 0xed],
    [0xd1, 0xf2],
    [0xc5, 0xa3],
    [0xb4, 0xf3, 0xcf, 0xf3],
    [0xd0, 0xdc],
    [0xb0, 0xdf, 0xc2, 0xed],
    [0xb3, 0xa4, 0xbe, 0xb1, 0xc2, 0xb9],
    [0xb1, 0xb3, 0xb0, 0xfc],
    [0xd3, 0xea, 0xc9, 0xa1],
    [0xca, 0xd6, 0xcc, 0xe1, 0xb0, 0xfc],
    [0xc1, 0xec, 0xb4, 0xf8],
    [0xca, 0xd6, 0xcc, 0xe1, 0xcf, 0xe4],
    [0xb7, 0xc9, 0xc5, 0xcc],
    [0xbb, 0xac, 0xd1, 0xa9, 0xb0, 0xe5],
    [0xd4, 0xcb, 0xb6, 0xaf, 0xc7, 0xf2],
    [0xb7, 0xe7, 0xf3, 0xdd],
    [0xb0, 0xf4, 0xc7, 0xf2, 0xb0, 0xf4],
    [0xb0, 0xf4, 0xc7, 0xf2, 0xca, 0xd6, 0xcc, 0xd7],
    [0xbb, 0xac, 0xb0, 0xe5],
    [0xb3, 0xe5, 0xc0, 0xcb, 0xb0, 0xe5],
    [0xcd, 0xf8, 0xc7, 0xf2, 0xc5, 0xc4],
    [0xc6, 0xbf, 0xd7, 0xd3],
    [0xbe, 0xc6, 0xb1, 0xad],
    [0xb1, 0xad, 0xd7, 0xd3],
    [0xb2, 0xe6, 0xd7, 0xd3],
    [0xb5, 0xb6, 0xd7, 0xd3],
    [0xc9, 0xd7, 0xd7, 0xd3],
    [0xcd, 0xeb],
    [0xcf, 0xe3, 0xbd, 0xb6],
    [0xc6, 0xbb, 0xb9, 0xfb],
    [0xc8, 0xfd, 0xc3, 0xf7, 0xd6, 0xce],
    [0xb3, 0xc8, 0xd7, 0xd3],
    [0xce, 0xf7, 0xc0, 0xbc, 0xbb, 0xa8],
    [0xba, 0xfa, 0xc2, 0xdc, 0xb2, 0xb7],
    [0xc8, 0xc8, 0xb9, 0xb7],
    [0xc5, 0xfb, 0xc8, 0xf8],
    [0xcc, 0xf0, 0xcc, 0xf0, 0xc8, 0xa6],
    [0xb5, 0xb0, 0xb8, 0xe2],
    [0xd2, 0xce, 0xd7, 0xd3],
    [0xc9, 0xb3, 0xb7, 0xa2],
    [0xc5, 0xe8, 0xd4, 0xd4],
    [0xb4, 0xb2],
    [0xb2, 0xcd, 0xd7, 0xc0],
    [0xc2, 0xed, 0xcd, 0xb0],
    [0xb5, 0xe7, 0xca, 0xd3],
    [0xb1, 0xca, 0xbc, 0xc7, 0xb1, 0xbe, 0xb5, 0xe7, 0xc4, 0xd4],
    [0xca, 0xf3, 0xb1, 0xea],
    [0xd2, 0xa3, 0xbf, 0xd8, 0xc6, 0xf7],
    [0xbc, 0xfc, 0xc5, 0xcc],
    [0xca, 0xd6, 0xbb, 0xfa],
    [0xce, 0xa2, 0xb2, 0xa8, 0xc2, 0xaf],
    [0xbf, 0xbe, 0xcf, 0xe4],
    [0xbf, 0xbe, 0xc3, 0xe6, 0xb0, 0xfc, 0xbb, 0xfa],
    [0xcb, 0xae, 0xb2, 0xdb],
    [0xb1, 0xf9, 0xcf, 0xe4],
    [0xca, 0xe9],
    [0xd6, 0xd3, 0xb1, 0xed],
    [0xbb, 0xa8, 0xc6, 0xbf],
    [0xbc, 0xf4, 0xb5, 0xb6],
    [0xcc, 0xa9, 0xb5, 0xcf, 0xd0, 0xdc],
    [0xb4, 0xb5, 0xb7, 0xe7, 0xbb, 0xfa],
    [0xd1, 0xc0, 0xcb, 0xa2]]"

text \<open>\<^verbatim>\<open>full_message\<close> as a C string with its terminator. The buffer has 220 bytes, more than any message
  the code builds.\<close>

definition full_message_size :: nat where "full_message_size = 220"

definition select_yuyin :: "app \<Rightarrow> app" where
  "select_yuyin s =
     (let n = unat (receive_flag (link s)) in
      if 1 \<le> n \<and> n \<le> 0x4F
      then s\<lparr>full_message := take (full_message_size - 1) (prefix @ yuyin_names ! (n - 1)) @ [0]\<rparr>
      else s)"

definition speak :: "8 word list \<Rightarrow> app \<Rightarrow> app option" where
  "speak msg s = map_option (\<lambda>f. emit (Uart_tx USART1 f) s) (SYN_FrameInfo 2 msg)"

definition Send_String :: "uart \<Rightarrow> 8 word list \<Rightarrow> app \<Rightarrow> app option" where
  "Send_String huart str s = map_option (\<lambda>n. emit (Uart_tx huart (take n str)) s) (strlen str)"

definition k230_run :: "app \<Rightarrow> app option" where
  "k230_run s =
     (if current_mode (link s) = 0 then
        if receive_flag (link s) \<noteq> 0 then do {
          let s1 = select_yuyin s;
          s2 \<leftarrow> (if receive_flag (link s1) \<noteq> 0 then speak (full_message s1) s1 else Some s1);
          Some (s2\<lparr>link := (link s2)\<lparr>receive_flag := 0\<rparr>\<rparr>) }
        else Some s
      else if current_mode (link s) = 1 then
        if message_received (link s) \<noteq> 0 then do {
          n \<leftarrow> strlen (rx_buffer (link s));
          rt_assert (length fun2_prefix + n + 1 \<le> full_message_size);
          let s1 = s\<lparr>full_message := fun2_prefix @ take n (rx_buffer (link s)) @ [0]\<rparr>;
          s2 \<leftarrow> speak (full_message s1) s1;
          Some (s2\<lparr>link := (link s2)\<lparr>message_received := 0\<rparr>\<rparr>) }
        else Some s
      else Some s)"

section \<open>Vibration motors\<close>

text \<open>\<^verbatim>\<open>VL53L0X_GetValue\<close>: one ranging measurement per sensor, whose results the sensor library (not part of
  this file) leaves in the five data records, and a pause of half a second.\<close>

definition VL53L0X_GetValue :: "ranging list \<Rightarrow> app \<Rightarrow> app" where
  "VL53L0X_GetValue measured s = emit (Delay 500) (s\<lparr>vl53l0x_data := measured\<rparr>)"

definition start_vibration :: "16 word \<Rightarrow> 16 word \<Rightarrow> nat \<Rightarrow> app \<Rightarrow> app" where
  "start_vibration intensity dur i s =
     (if i \<ge> 5 then s
      else
        let s1 = emit (Pwm (Motor i) (ucast intensity)) s in
        s1\<lparr>vibration_controls := (vibration_controls s1)[i :=
             \<lparr>start_time = hal_tick s1, vib_duration = ucast dur, is_vibrating = 1,
              vib_intensity = intensity\<rparr>]\<rparr>)"

text \<open>Intensity and time for a distance: \<^verbatim>\<open>(float)\<close> arithmetic truncated to 16 bits between the limits 100
  and 2000.\<close>

definition vib_ratio :: "16 word \<Rightarrow> real" where
  "vib_ratio distance =
     f32_round (1 - f32_round (f32_round (of_int (uint distance - 100)) / f32_round (of_int (2000 - 100))))"

definition f32_to_u16 :: "real \<Rightarrow> 16 word" where
  "f32_to_u16 x = word_of_int \<lfloor>x\<rfloor>"

definition vib_params :: "16 word \<Rightarrow> 16 word \<times> 16 word" where
  "vib_params distance =
     (if distance \<le> 100 then (100, 2000)
      else if distance \<ge> 2000 then (0, 0)
      else (f32_to_u16 (f32_round (0 + f32_round (vib_ratio distance * 100))),
            f32_to_u16 (f32_round (vib_ratio distance * 2000))))"

definition control_vibration_by_distance :: "16 word \<Rightarrow> nat \<Rightarrow> app \<Rightarrow> app" where
  "control_vibration_by_distance distance i s =
     (if i \<ge> 5 then s
      else
        let (intensity, time) = vib_params distance in
        if time > 0 \<and> is_vibrating (vibration_controls s ! i) = 0 then start_vibration intensity time i s else s)"

definition update_vibration :: "nat \<Rightarrow> app \<Rightarrow> app" where
  "update_vibration i s =
     (let v = vibration_controls s ! i in
      if is_vibrating v \<noteq> 0 \<and> hal_tick s - start_time v \<ge> vib_duration v then
        let s1 = emit (Pwm (Motor i) 0) s in
        s1\<lparr>vibration_controls := (vibration_controls s1)[i := v\<lparr>is_vibrating := 0\<rparr>]\<rparr>
      else s)"

definition update_vibrations :: "app \<Rightarrow> app" where
  "update_vibrations s = fold update_vibration [0..<5] s"

definition VL53L0_process :: "ranging list \<Rightarrow> app \<Rightarrow> app" where
  "VL53L0_process measured s =
     (let s1 = VL53L0X_GetValue measured s;
          s2 = fold (\<lambda>i t. if RangeStatus (vl53l0x_data t ! i) = 0
                           then control_vibration_by_distance (RangeMilliMeter (vl53l0x_data t ! i)) i t
                           else t) [0..<5] s1
      in update_vibrations s2)"

section \<open>Modes and servo commands\<close>

text \<open>The pins of port E as a function of the pin number.\<close>

definition get_current_mode :: "(nat \<Rightarrow> bool) \<Rightarrow> app \<Rightarrow> app" where
  "get_current_mode pin s =
     (let light = (if \<not> pin 11 \<and> \<not> pin 10 then 1 else if \<not> pin 11 \<and> pin 10 then 2
                   else if pin 11 \<and> \<not> pin 10 then 3 else 4);
          light1 = (if pin 7 then 6 else light);
          light2 = (if pin 8 then 5 else light1)
      in s\<lparr>light_mode := light2, vl53l0_mode := of_bool (pin 15), sendmessage_mode := of_bool (pin 14),
           askhelp_mode := of_bool (pin 13), notice_mode := of_bool (pin 12)\<rparr>)"

definition light_processing :: "app \<Rightarrow> app" where
  "light_processing s =
     (if light_mode s = 1 then (emit (Delay 1000) (emit Led_black (emit (Delay 1000) s)))\<lparr>light_mode := 10\<rparr>
      else if light_mode s = 2 then emit (Led_mode MODE_WHITE_LOW) s
      else if light_mode s = 3 then emit (Led_mode MODE_WHITE_MID) s
      else if light_mode s = 4 then emit (Led_mode MODE_WHITE_HIGH) s
      else if light_mode s = 5 then emit (Led_mode MODE_BLINK_BREATH) s
      else if light_mode s = 6 then emit (Led_mode MODE_COLOR_FLOW) s
      else s)"

definition all_motors_off :: "app \<Rightarrow> app" where
  "all_motors_off s = fold (\<lambda>i. emit (Pwm (Motor i) 0)) [0..<5] s"

definition help_text :: "8 word list" where
  "help_text = fun2_prefix @ [0xc4, 0xe3, 0xba, 0xc3, 0xa3, 0xac, 0xce, 0xd2, 0xca, 0xc7, 0xc3, 0xa4, 0xc8,
     0xcb, 0xa3, 0xac, 0xce, 0xd2, 0xd0, 0xe8, 0xd2, 0xaa, 0xb0, 0xef, 0xd6, 0xfa, 0]"

definition notice_text :: "8 word list" where
  "notice_text = fun2_prefix @ [0xc4, 0xe3, 0xba, 0xc3, 0xa3, 0xac, 0xce, 0xd2, 0xca, 0xc7, 0xc3, 0xa4, 0xc8,
     0xcb, 0xa3, 0xac, 0xc7, 0xeb, 0xd7, 0xa2, 0xd2, 0xe2, 0xb1, 0xdc, 0xc8, 0xc3, 0]"

definition fall_text :: "8 word list" where
  "fall_text = fun2_prefix @ [0xd2, 0xc9, 0xcb, 0xc6, 0xcb, 0xa4, 0xb5, 0xb9, 0xc1, 0xcb, 0xa3, 0xac, 0xd2,
     0xd1, 0xcf, 0xf2, 0xbd, 0xf4, 0xbc, 0xb1, 0xc1, 0xaa, 0xcf, 0xb5, 0xc8, 0xcb, 0xc7, 0xf3, 0xd6, 0xfa, 0]"

text \<open>\<open>sms\<close> and \<open>sms2\<close> are the two message commands of the file, terminated.\<close>

definition mode_processing :: "8 word list \<Rightarrow> ranging list \<Rightarrow> app \<Rightarrow> app option" where
  "mode_processing sms measured s = do {
     let s1 = light_processing s;
     let s2 = (if vl53l0_mode s1 \<noteq> 0 then VL53L0_process measured s1 else all_motors_off s1);
     s3 \<leftarrow> (if sendmessage_mode s2 \<noteq> 0 \<and> send_message_falg s2 = 0
            then map_option (\<lambda>t. t\<lparr>send_message_falg := 1\<rparr>) (Send_String USART6 sms s2) else Some s2);
     s4 \<leftarrow> (if askhelp_mode s3 \<noteq> 0 then map_option (emit (Delay 4000)) (speak help_text s3) else Some s3);
     if notice_mode s4 \<noteq> 0 then map_option (emit (Delay 4000)) (speak notice_text s4) else Some s4 }"

text \<open>The buzzer is on while its pin is low.\<close>

definition buzz :: "app \<Rightarrow> app" where
  "buzz s = emit (Buzzer False) (emit (Delay 5000) (emit (Buzzer True) s))"

definition servo_up :: "16 word \<Rightarrow> app \<Rightarrow> app" where
  "servo_up v s = (emit (Pwm Servo_up (ucast v)) (s\<lparr>shangduoji := v\<rparr>))\<lparr>duojirun_flag := 1\<rparr>"

definition servo_down :: "16 word \<Rightarrow> app \<Rightarrow> app" where
  "servo_down v s = (emit (Pwm Servo_down (ucast v)) (s\<lparr>xiaduoji := v\<rparr>))\<lparr>duojirun_flag := 1\<rparr>"

definition buletooth_process :: "8 word list \<Rightarrow> app \<Rightarrow> app option" where
  "buletooth_process sms2 s =
     (if duojirun_flag s = 0 then
        if valid_data s = 0x01 then Some (servo_up (shangduoji s - 10) s)
        else if valid_data s = 0x02 then Some (servo_up (shangduoji s + 10) s)
        else if valid_data s = 0x03 then Some (servo_down (xiaduoji s + 10) s)
        else if valid_data s = 0x04 then Some (servo_down (xiaduoji s - 10) s)
        else if valid_data s = 0x05 then do {
          s1 \<leftarrow> speak fall_text s;
          s2 \<leftarrow> Send_String USART6 sms2 s1;
          Some ((buzz (emit (Led_mode MODE_BLINK_BREATH) s2))\<lparr>duojirun_flag := 1\<rparr>) }
        else if valid_data s = 0x06 then Some (buzz s)
        else Some s
      else Some s)"

end
