(* ===== verification/Processing_Props.thy ===== *)
theory Processing_Props
  imports Processing
begin

text \<open>
  Properties of the board application: from the bytes of the vision module to the spoken name of the
  object, the range and the direction of the vibration, the end of every vibration, and the command
  frames of the remote control.
\<close>

section \<open>Announcements\<close>

lemma fun2_prefix_facts: "length fun2_prefix = 13" "0 \<notin> set fun2_prefix"
  by (simp_all add: fun2_prefix_def)

lemma prefix_facts: "length prefix = 19" "0 \<notin> set prefix"
  using fun2_prefix_facts by (simp_all add: prefix_def)

lemma yuyin_names_facts:
  "length yuyin_names = 79" "list_all (\<lambda>n. length n \<le> 10 \<and> 0 \<notin> set n) yuyin_names"
  by (simp_all add: yuyin_names_def)

lemma yuyin_name:
  assumes "i < 79"
  shows "length (yuyin_names ! i) \<le> 10" "0 \<notin> set (yuyin_names ! i)"
  using yuyin_names_facts assms by (auto simp: list_all_length)

lemma speak_text:
  assumes "0 \<notin> set t" and "length t \<le> 44"
  shows "\<exists>f. speak (t @ [0]) s = Some (emit (Uart_tx USART1 f) s) \<and> syn_receive f = Some (0x01, 0x21, t)"
proof -
  have "0x01 OR push_bit 4 2 = (0x21 :: 8 word)"
    by simp
  moreover obtain f where "SYN_FrameInfo 2 (t @ 0 # []) = Some f"
    "syn_receive f = Some (0x01, 0x01 OR push_bit 4 2, t)"
    using SYN_FrameInfo_short [OF assms] by blast
  ultimately show ?thesis
    by (auto simp: speak_def)
qed

lemma emit_sel [simp]:
  "link (emit e s) = link s" "io (emit e s) = io s @ [e]" "vibration_controls (emit e s) = vibration_controls s"
  "hal_tick (emit e s) = hal_tick s" "full_message (emit e s) = full_message s"
  by (simp_all add: emit_def)

definition object_known :: "8 word \<Rightarrow> bool" where
  "object_known b \<longleftrightarrow> 1 \<le> b \<and> b \<le> 0x4F"

lemma k230_run_object:
  assumes mode: "current_mode (link s) = 0" and known: "object_known (receive_flag (link s))"
  shows "\<exists>s' f. k230_run s = Some s' \<and> io s' = io s @ [Uart_tx USART1 f] \<and>
    syn_receive f = Some (0x01, 0x21, prefix @ yuyin_names ! (unat (receive_flag (link s)) - 1)) \<and>
    receive_flag (link s') = 0 \<and> current_mode (link s') = 0"
proof -
  let ?n = "unat (receive_flag (link s))"
  let ?t = "prefix @ yuyin_names ! (?n - 1)"
  have n: "1 \<le> ?n" "?n \<le> 0x4F" "receive_flag (link s) \<noteq> 0"
    using known by (auto simp: object_known_def word_le_nat_alt)
  have t: "0 \<notin> set ?t" "length ?t \<le> 29"
    using yuyin_name [of "?n - 1"] n prefix_facts by auto
  let ?s1 = "s\<lparr>full_message := ?t @ [0]\<rparr>"
  have "select_yuyin s = ?s1"
    using n t(2) by (simp add: select_yuyin_def full_message_size_def Let_def)
  moreover obtain f where "speak (?t @ [0]) ?s1 = Some (emit (Uart_tx USART1 f) ?s1)"
    "syn_receive f = Some (0x01, 0x21, ?t)"
    using speak_text [OF t(1), of ?s1] t(2) by auto
  ultimately show ?thesis
    using mode n(3) by (auto simp: k230_run_def)
qed

section \<open>From the vision module to the loudspeaker\<close>

primrec uart_feed :: "uart \<Rightarrow> 8 word list \<Rightarrow> app \<Rightarrow> app option" where
  "uart_feed u [] s = Some s"
| "uart_feed u (c # cs) s = HAL_UART_RxCpltCallback u c s \<bind> uart_feed u cs"

lemma uart_feed_UART4: "uart_feed UART4 cs s = map_option (\<lambda>l. s\<lparr>link := l\<rparr>) (uart4_feed cs (link s))"
proof (induction cs arbitrary: s)
  case (Cons c cs)
  then show ?case
    by (cases "uart4_rx c (link s)") (simp_all add: HAL_UART_RxCpltCallback_def option.map_comp comp_def)
qed simp

lemma uart_feed_packets:
  assumes "uart4_idle (link s)" and "list_all packet_ok ps"
  shows "\<exists>l. uart_feed UART4 (concat (map packet_bytes ps)) s = Some (s\<lparr>link := l\<rparr>) \<and>
    view l = fold packet_effect ps (view (link s))"
  using uart4_stream_refines_idle [OF assms] by (auto simp: uart_feed_UART4)

text \<open>C5: The main path of the vision module: after any stream of packets, when a packet that names one of
  the 79 known objects arrives over the receive interrupt, the next pass of \<^verbatim>\<open>k230_run\<close> sends exactly
  one frame to the synthesiser, and a receiver of the synthesiser's protocol recovers from it the announcement
  with the name of that object; no announcement overflows the frame buffer, and the object is spoken once.\<close>

theorem object_announced:
  assumes "uart4_idle (link s)" and "list_all packet_ok ps" and known: "object_known ident"
  shows "\<exists>s1 s2 f. uart_feed UART4 (concat (map packet_bytes (ps @ [Fun2 x ident]))) s = Some s1 \<and>
    k230_run s1 = Some s2 \<and> io s2 = io s @ [Uart_tx USART1 f] \<and>
    syn_receive f = Some (0x01, 0x21, prefix @ yuyin_names ! (unat ident - 1)) \<and> k230_run s2 = Some s2"
proof -
  obtain l where feed: "uart_feed UART4 (concat (map packet_bytes (ps @ [Fun2 x ident]))) s = Some (s\<lparr>link := l\<rparr>)"
    and v: "view l = packet_effect (Fun2 x ident) (fold packet_effect ps (view (link s)))"
    using uart_feed_packets [OF assms(1), of "ps @ [Fun2 x ident]"] assms(2) by auto
  let ?s1 = "s\<lparr>link := l\<rparr>"
  have l: "current_mode l = 0" "receive_flag l = ident"
    using arg_cong [OF v, of v_mode] arg_cong [OF v, of v_flag] by (simp_all add: view_def)
  obtain s2 f where s2: "k230_run ?s1 = Some s2" "io s2 = io ?s1 @ [Uart_tx USART1 f]"
    "syn_receive f = Some (0x01, 0x21, prefix @ yuyin_names ! (unat ident - 1))" "receive_flag (link s2) = 0"
    "current_mode (link s2) = 0"
    using k230_run_object [of ?s1] known l by auto
  have "k230_run s2 = Some s2"
    using s2(4,5) by (simp add: k230_run_def)
  then show ?thesis
    using feed s2(1-3) by auto
qed

text \<open>The application before the first interrupt.\<close>

definition app_boot :: app where
  "app_boot = \<lparr>imu = WT61C_Init imu_boot, link = k230_boot, bluetooth_data = [0, 0, 0], data_index = 0,
     valid_data = 0, duojirun_flag = 0, shangduoji = 50, xiaduoji = 60, USART1_RX_BUF = replicate 200 0,
     USART1_RX_STA = 0, full_message = [0],
     vibration_controls = replicate 5 \<lparr>start_time = 0, vib_duration = 0, is_vibrating = 0, vib_intensity = 0\<rparr>,
     vl53l0x_data = replicate 5 \<lparr>RangeMilliMeter = 0, RangeStatus = 0\<rparr>,
     light_mode = 0, vl53l0_mode = 0, sendmessage_mode = 0, askhelp_mode = 0, notice_mode = 0,
     send_message_falg = 0, hal_tick = 0, io = []\<rparr>"

lemma app_boot_sel [simp]: "link app_boot = k230_boot" "io app_boot = []"
  by (simp_all add: app_boot_def)

theorem object_announced_witness:
  "\<exists>s1 s2 f. uart_feed UART4 (concat (map packet_bytes ([Fun3 [0x41, 0x42, 0x43]] @ [Fun2 7 3]))) app_boot = Some s1 \<and>
    k230_run s1 = Some s2 \<and> io s2 = [Uart_tx USART1 f] \<and>
    syn_receive f = Some (0x01, 0x21, prefix @ yuyin_names ! 2) \<and> k230_run s2 = Some s2"
  using object_announced [of app_boot "[Fun3 [0x41, 0x42, 0x43]]" 3 7] k230_boot_idle
  by (simp add: object_known_def MAX_BUFFER_SIZE_def)

text \<open>The text path of the vision module: a text packet of at most 31 bytes is spoken by the next pass
  of \<^verbatim>\<open>k230_run\<close>; a longer one, which the receive interrupt accepts up to 197 bytes, makes that pass write
  past the 50 bytes of the speech frame on its stack.\<close>

theorem text_spoken_or_overflow:
  assumes idle: "uart4_idle (link s)" and ok: "packet_ok (Fun3 t)" and nz: "0 \<notin> set t"
  shows "\<exists>s1. uart_feed UART4 (packet_bytes (Fun3 t)) s = Some s1 \<and>
    (if length t \<le> 31
     then \<exists>s2 f. k230_run s1 = Some s2 \<and> io s2 = io s @ [Uart_tx USART1 f] \<and>
            syn_receive f = Some (0x01, 0x21, fun2_prefix @ t)
     else k230_run s1 = None)"
proof -
  obtain l where feed: "uart_feed UART4 (packet_bytes (Fun3 t)) s = Some (s\<lparr>link := l\<rparr>)"
    and v: "view l = packet_effect (Fun3 t) (view (link s))"
    using uart_feed_packets [OF idle, of "[Fun3 t]"] ok by auto
  have t: "length t \<le> 197" "length (rx_buffer (link s)) = 200"
    using ok idle by (simp_all add: MAX_BUFFER_SIZE_def uart4_idle_def uart4_inv_def)
  have l: "current_mode l = 1" "message_received l = 1" "rx_buffer l = memcpy_at (rx_buffer (link s)) 0 (t @ [0])"
    using arg_cong [OF v, of v_mode] arg_cong [OF v, of v_received] arg_cong [OF v, of v_text]
    by (simp_all add: view_def)
  then have rx: "rx_buffer l = t @ 0 # drop (length t + 1) (rx_buffer (link s))"
    by (simp add: memcpy_at_def)
  let ?s1 = "s\<lparr>link := l\<rparr>" and ?m = "fun2_prefix @ t"
  let ?s2 = "?s1\<lparr>full_message := ?m @ [0]\<rparr>"
  have run: "k230_run ?s1 = map_option (\<lambda>s2. s2\<lparr>link := (link s2)\<lparr>message_received := 0\<rparr>\<rparr>) (speak (?m @ [0]) ?s2)"
    using l(1,2) t fun2_prefix_facts
    by (simp add: k230_run_def rx strlen_terminated [OF nz] full_message_size_def Let_def
      map_conv_bind_option comp_def)
  have m: "0 \<notin> set ?m" "length ?m = 13 + length t"
    using nz fun2_prefix_facts by simp_all
  show ?thesis
  proof (cases "length t \<le> 31")
    case True
    then obtain f where "speak (?m @ [0]) ?s2 = Some (emit (Uart_tx USART1 f) ?s2)"
      "syn_receive f = Some (0x01, 0x21, ?m)"
      using speak_text [OF m(1), of ?s2] m(2) by auto
    then show ?thesis
      using True feed run by auto
  next
    case False
    then have "speak (?m @ [0]) ?s2 = None"
      using SYN_FrameInfo_long [OF m(1), of 2 "[]"] m(2) t(1) by (simp add: speak_def)
    then show ?thesis
      using False feed run by auto
  qed
qed

theorem text_spoken_or_overflow_witness:
  "\<exists>s1. uart_feed UART4 (packet_bytes (Fun3 (replicate 32 0x41))) app_boot = Some s1 \<and> k230_run s1 = None"
  using text_spoken_or_overflow [of app_boot "replicate 32 0x41"] k230_boot_idle
  by (simp add: MAX_BUFFER_SIZE_def)

text \<open>An object number above the table speaks the last message again.\<close>

lemma k230_run_unknown:
  assumes "current_mode (link s) = 0" and "receive_flag (link s) > 0x4F"
  shows "k230_run s = map_option (\<lambda>s2. s2\<lparr>link := (link s2)\<lparr>receive_flag := 0\<rparr>\<rparr>) (speak (full_message s) s)"
proof -
  have "receive_flag (link s) \<noteq> 0" "\<not> unat (receive_flag (link s)) \<le> 0x4F"
    using assms(2) by (auto simp: word_less_nat_alt)
  then show ?thesis
    using assms(1) by (simp add: k230_run_def select_yuyin_def Let_def map_conv_bind_option comp_def)
qed

section \<open>Vibration\<close>

lemma vib_quot_range:
  assumes "100 < d" and "d < 2000"
  shows "0 \<le> f32_round (f32_round (of_int (uint (d::16 word) - 100)) / f32_round (of_int (2000 - 100)))"
    "f32_round (f32_round (of_int (uint d - 100)) / f32_round (of_int (2000 - 100))) \<le> 1"
proof -
  have d: "100 < uint d" "uint d < 2000"
    using assms by (simp_all add: word_less_def)
  have e: "f32_round (of_int (uint d - 100)) = of_int (uint d - 100)"
    "f32_round (of_int (2000 - 100)) = of_int (2000 - 100)"
    using d by (intro f32_round_exact; simp)+
  have "real_of_int (uint d - 100) \<le> of_int (2000 - 100)"
    using d by (simp only: of_int_le_iff)
  then have "(of_int (uint d - 100) :: real) / of_int (2000 - 100) \<le> of_int 1"
    by simp
  moreover have "real_of_int 0 \<le> of_int (uint d - 100)"
    using d by (simp only: of_int_le_iff)
  then have "of_int 0 \<le> (of_int (uint d - 100) :: real) / of_int (2000 - 100)"
    by simp
  ultimately show "0 \<le> f32_round (f32_round (of_int (uint d - 100)) / f32_round (of_int (2000 - 100)))"
    "f32_round (f32_round (of_int (uint d - 100)) / f32_round (of_int (2000 - 100))) \<le> 1"
    unfolding e using f32.ge_int [of 0] f32.le_int [of _ 1] by fastforce+
qed

lemma vib_ratio_range:
  assumes "100 < d" and "d < 2000"
  shows "0 \<le> vib_ratio d" "vib_ratio d \<le> 1"
  unfolding vib_ratio_def
  using vib_quot_range [OF assms] f32.ge_int [of 0] f32.le_int [of _ 1] by fastforce+

lemma vib_ratio_antimono:
  assumes "100 < d" and "d \<le> d'" and "d' < 2000"
  shows "vib_ratio d' \<le> vib_ratio d"
proof -
  have d: "100 < uint d" "uint d \<le> uint d'" "uint d' < 2000"
    using assms by (simp_all add: word_less_def word_le_def)
  have e: "f32_round (of_int (2000 - 100)) = of_int (2000 - 100)"
    by (intro f32_round_exact) simp
  have "real_of_int (uint d - 100) \<le> of_int (uint d' - 100)"
    using d by (simp only: of_int_le_iff)
  then have "f32_round (of_int (uint d - 100)) / of_int (2000 - 100)
      \<le> f32_round (of_int (uint d' - 100)) / of_int (2000 - 100)"
    by (intro divide_right_mono f32.mono) simp_all
  then show ?thesis
    unfolding vib_ratio_def e by (intro f32.mono diff_left_mono)
qed

lemma f32_to_u16_nat:
  assumes "0 \<le> x" and "x \<le> 2000"
  shows "unat (f32_to_u16 x) = nat \<lfloor>x\<rfloor>"
proof -
  have "0 \<le> \<lfloor>x\<rfloor>" "\<lfloor>x\<rfloor> \<le> 2000"
    using assms floor_mono [OF assms(2)] by simp_all
  then show ?thesis
    by (simp add: f32_to_u16_def unat_eq_nat_uint unsigned_of_int take_bit_int_eq_self)
qed

text \<open>The scaled values before truncation.\<close>

lemma f32_scaled:
  assumes "0 \<le> r" "r \<le> 1" and "0 \<le> n" "n \<le> 2000"
  shows "0 \<le> f32_round (r * of_int n)" "f32_round (r * of_int n) \<le> of_int n"
    "0 \<le> f32_round (0 + f32_round (r * of_int n))" "f32_round (0 + f32_round (r * of_int n)) \<le> of_int n"
proof -
  show 1: "0 \<le> f32_round (r * of_int n)"
    using f32.ge_int [of 0 "r * of_int n"] assms by simp
  show 2: "f32_round (r * of_int n) \<le> of_int n"
    using f32.le_int [of "r * of_int n" n] assms mult_right_mono [of r 1 "of_int n"] by simp
  show "0 \<le> f32_round (0 + f32_round (r * of_int n))" "f32_round (0 + f32_round (r * of_int n)) \<le> of_int n"
    using f32.ge_int [of 0 "0 + f32_round (r * of_int n)"] f32.le_int [of "0 + f32_round (r * of_int n)" n] 1 2 assms
    by simp_all
qed

lemma f32_scaled_mono:
  assumes "r' \<le> r" and "0 \<le> n"
  shows "f32_round (r' * of_int n) \<le> f32_round (r * of_int n)"
    "f32_round (0 + f32_round (r' * of_int n)) \<le> f32_round (0 + f32_round (r * of_int n))"
  using assms by (intro f32.mono add_left_mono mult_right_mono; simp)+

text \<open>The parameters of a distance between the limits, as natural numbers.\<close>

lemma vib_params_middle:
  assumes "100 < d" and "d < 2000"
  shows "unat (fst (vib_params d)) = nat \<lfloor>f32_round (0 + f32_round (vib_ratio d * of_int 100))\<rfloor>"
    "unat (snd (vib_params d)) = nat \<lfloor>f32_round (vib_ratio d * of_int 2000)\<rfloor>"
proof -
  have p: "vib_params d = (f32_to_u16 (f32_round (0 + f32_round (vib_ratio d * of_int 100))),
      f32_to_u16 (f32_round (vib_ratio d * of_int 2000)))"
    using assms by (auto simp: vib_params_def)
  note r = vib_ratio_range [OF assms]
  show "unat (fst (vib_params d)) = nat \<lfloor>f32_round (0 + f32_round (vib_ratio d * of_int 100))\<rfloor>"
    unfolding p fst_conv using f32_scaled(3,4) [OF r, of 100] by (intro f32_to_u16_nat) linarith+
  show "unat (snd (vib_params d)) = nat \<lfloor>f32_round (vib_ratio d * of_int 2000)\<rfloor>"
    unfolding p snd_conv using f32_scaled(1,2) [OF r, of 2000] by (intro f32_to_u16_nat) linarith+
qed

lemma vib_params_limits: "unat (fst (vib_params d)) \<le> 100" "unat (snd (vib_params d)) \<le> 2000"
proof -
  have "unat (fst (vib_params d)) \<le> 100 \<and> unat (snd (vib_params d)) \<le> 2000"
  proof (cases "100 < d \<and> d < 2000")
    case True
    then have d: "100 < d" "d < 2000"
      by auto
    show ?thesis
      using f32_scaled [OF vib_ratio_range [OF d], of 100] f32_scaled [OF vib_ratio_range [OF d], of 2000]
      unfolding vib_params_middle [OF d] by (auto simp: nat_le_iff floor_le_iff)
  next
    case False
    then show ?thesis
      by (auto simp: vib_params_def not_less)
  qed
  then show "unat (fst (vib_params d)) \<le> 100" "unat (snd (vib_params d)) \<le> 2000"
    by auto
qed

text \<open>The vibration that \<^verbatim>\<open>control_vibration_by_distance\<close> computes in single precision stays inside
  its limits and is never weaker for a nearer obstacle: the intensity is at most 100, the time at most 2000
  ms, and both decrease, or stay equal, when the distance grows.\<close>

theorem vib_params_antimono:
  assumes "d \<le> d'"
  shows "unat (fst (vib_params d)) \<le> 100 \<and> unat (snd (vib_params d)) \<le> 2000 \<and>
    fst (vib_params d') \<le> fst (vib_params d) \<and> snd (vib_params d') \<le> snd (vib_params d)"
proof -
  consider "d \<le> 100" | "100 < d'" "2000 \<le> d'" | "100 < d" "d' < 2000"
    using assms by (cases "d \<le> 100"; cases "2000 \<le> d'") (auto simp: not_le)
  then have "fst (vib_params d') \<le> fst (vib_params d) \<and> snd (vib_params d') \<le> snd (vib_params d)"
  proof cases
    case 1
    then have "vib_params d = (100, 2000)"
      by (simp add: vib_params_def)
    then show ?thesis
      using vib_params_limits [of d'] by (simp add: word_le_nat_alt)
  next
    case 2
    then have "vib_params d' = (0, 0)"
      by (simp add: vib_params_def)
    then show ?thesis
      by simp
  next
    case 3
    then have d: "100 < d" "d < 2000" "100 < d'" "d' < 2000"
      using assms by auto
    note r = vib_ratio_antimono [OF d(1) assms d(4)]
    show ?thesis
      unfolding word_le_nat_alt vib_params_middle [OF d(1,2)] vib_params_middle [OF d(3,4)]
      using f32_scaled_mono(2) [OF r, of 100] f32_scaled_mono(1) [OF r, of 2000]
      by (auto intro!: nat_mono floor_mono)
  qed
  then show ?thesis
    using vib_params_limits [of d] by simp
qed

theorem vib_params_antimono_witness: "fst (vib_params 1000) \<le> fst (vib_params 500)"
  using vib_params_antimono [of 500 1000] by simp

definition expired :: "32 word \<Rightarrow> vibration \<Rightarrow> bool" where
  "expired now v \<longleftrightarrow> is_vibrating v \<noteq> 0 \<and> now - start_time v \<ge> vib_duration v"

lemma update_vibration_expired:
  "update_vibration i s = (if expired (hal_tick s) (vibration_controls s ! i)
     then (emit (Pwm (Motor i) 0) s)\<lparr>vibration_controls :=
       (vibration_controls s)[i := (vibration_controls s ! i)\<lparr>is_vibrating := 0\<rparr>]\<rparr> else s)"
  by (simp add: update_vibration_def expired_def Let_def)

definition stop_if :: "32 word \<Rightarrow> vibration \<Rightarrow> vibration" where
  "stop_if now v = (if expired now v then v\<lparr>is_vibrating := 0\<rparr> else v)"

lemma fold_update_vibration:
  assumes "length (vibration_controls s) = 5"
  shows "n \<le> 5 \<Longrightarrow>
    hal_tick (fold update_vibration [0..<n] s) = hal_tick s \<and>
    length (vibration_controls (fold update_vibration [0..<n] s)) = 5 \<and>
    (\<forall>j. vibration_controls (fold update_vibration [0..<n] s) ! j =
      (if j < n then stop_if (hal_tick s) (vibration_controls s ! j) else vibration_controls s ! j)) \<and>
    io (fold update_vibration [0..<n] s) = io s @ map (\<lambda>i. Pwm (Motor i) 0)
      (filter (\<lambda>i. expired (hal_tick s) (vibration_controls s ! i)) [0..<n])"
proof (induction n)
  case (Suc n)
  then show ?case
    using assms by (auto simp: update_vibration_expired stop_if_def nth_list_update less_Suc_eq)
qed (simp add: assms)

text \<open>C39: A vibration ends on time, also when the tick counter wraps: from the tick at which a motor was
  started, \<^verbatim>\<open>update_vibrations\<close> switches it off, and sets its compare value to 0, exactly when at least its
  duration of at most 2 seconds has passed; before that it keeps running.\<close>

theorem vibration_ends_on_time:
  assumes len: "length (vibration_controls s) = 5" and i: "i < 5"
    and off: "is_vibrating (vibration_controls s ! i) = 0" and on: "snd (vib_params d) > 0"
  shows "let s1 = control_vibration_by_distance d i s;
             s2 = update_vibrations (s1\<lparr>hal_tick := hal_tick s1 + elapsed\<rparr>);
             dur = vib_duration (vibration_controls s1 ! i)
         in io s1 = io s @ [Pwm (Motor i) (ucast (fst (vib_params d)))] \<and>
            is_vibrating (vibration_controls s1 ! i) = 1 \<and> 0 < unat dur \<and> unat dur \<le> 2000 \<and>
            (is_vibrating (vibration_controls s2 ! i) = 0 \<longleftrightarrow> dur \<le> elapsed) \<and>
            (Pwm (Motor i) 0 \<in> set (drop (length (io s1)) (io s2)) \<longleftrightarrow> dur \<le> elapsed)"
proof -
  let ?p = "vib_params d"
  let ?v = "\<lparr>start_time = hal_tick s, vib_duration = ucast (snd ?p), is_vibrating = 1, vib_intensity = fst ?p\<rparr>"
  let ?s1 = "control_vibration_by_distance d i s"
  have s1: "?s1 = (emit (Pwm (Motor i) (ucast (fst ?p))) s)\<lparr>vibration_controls := (vibration_controls s)[i := ?v]\<rparr>"
    using i off on by (auto simp: control_vibration_by_distance_def start_vibration_def Let_def split: prod.split)
  have dur: "unat (ucast (snd ?p) :: 32 word) = unat (snd ?p)"
    using vib_params_limits(2) [of d] by (simp add: unsigned_ucast_eq take_bit_nat_eq_self)
  let ?t = "?s1\<lparr>hal_tick := hal_tick ?s1 + elapsed\<rparr>"
  have f: "vibration_controls (update_vibrations ?t) ! i = stop_if (hal_tick s + elapsed) ?v"
    "io (update_vibrations ?t) = io ?s1 @ map (\<lambda>j. Pwm (Motor j) 0)
      (filter (\<lambda>j. expired (hal_tick s + elapsed) (vibration_controls ?t ! j)) [0..<5])"
    using fold_update_vibration [of ?t 5] len i by (simp_all add: s1 update_vibrations_def)
  have e: "expired (hal_tick s + elapsed) ?v \<longleftrightarrow> ucast (snd ?p) \<le> elapsed"
    by (simp add: expired_def)
  have "Pwm (Motor i) 0 \<in> set (drop (length (io ?s1)) (io (update_vibrations ?t))) \<longleftrightarrow> ucast (snd ?p) \<le> elapsed"
    unfolding f(2) using i len e by (auto simp: s1)
  moreover have "0 < unat (snd ?p)"
    using on by (simp add: word_less_nat_alt)
  ultimately show ?thesis
    using len i e f(1) vib_params_limits(2) [of d] dur by (simp add: s1 stop_if_def)
qed

theorem vibration_ends_on_time_witness:
  "let s1 = control_vibration_by_distance 50 0 app_boot;
       s2 = update_vibrations (s1\<lparr>hal_tick := hal_tick s1 + 2000\<rparr>)
   in is_vibrating (vibration_controls s1 ! 0) = 1 \<and>
     (is_vibrating (vibration_controls s2 ! 0) = 0 \<longleftrightarrow> vib_duration (vibration_controls s1 ! 0) \<le> 2000)"
  using vibration_ends_on_time [of app_boot 0 50 2000]
  by (simp add: app_boot_def vib_params_def Let_def)

section \<open>Remote control\<close>

text \<open>The three bytes of a command.\<close>

lemma bluetooth_frame:
  assumes "length (bluetooth_data s) = 3" and "data_index s = 0"
  shows "uart_feed USART3 [0x33, d, 0x66] s =
    Some (s\<lparr>bluetooth_data := [0x33, d, 0x66], valid_data := d, duojirun_flag := 0, data_index := 0\<rparr>)"
proof -
  obtain a b c where "bluetooth_data s = [a, b, c]"
    using assms(1) by (auto simp: numeral_eq_Suc length_Suc_conv)
  then show ?thesis
    using assms(2) by (simp add: HAL_UART_RxCpltCallback_def usart3_rx_def put_at_def Let_def word_le_nat_alt)
qed

section \<open>The receive interrupt\<close>

text \<open>What every receive interrupt keeps: the invariants of the two parsers, and the indices of the other
  two lines inside their buffers.\<close>

definition rx_inv :: "app \<Rightarrow> bool" where
  "rx_inv s \<longleftrightarrow> imu_inv (imu s) \<and> uart4_inv (link s) \<and>
     length (bluetooth_data s) = 3 \<and> unat (data_index s) < 3 \<and> (data_index s = 0 \<or> bluetooth_data s ! 0 = 0x33) \<and>
     length (USART1_RX_BUF s) = 200 \<and> (USART1_RX_STA s AND 0x8000 = 0 \<longrightarrow> unat (USART1_RX_STA s) \<le> 200)"

lemma u8_below_3: "unat (x::8 word) < 3 \<Longrightarrow> x = 0 \<or> x = 1 \<or> x = 2"
proof -
  assume "unat x < 3"
  then have "unat x = 0 \<or> unat x = 1 \<or> unat x = 2"
    by arith
  then show ?thesis
    by (auto simp: word_unat_eq_iff)
qed

lemma usart3_rx_inv: "rx_inv s \<Longrightarrow> \<exists>s'. usart3_rx c s = Some s' \<and> rx_inv s'"
proof -
  assume inv: "rx_inv s"
  then consider "data_index s = 0" | "data_index s = 1" | "data_index s = 2"
    using u8_below_3 [of "data_index s"] by (auto simp: rx_inv_def)
  moreover obtain a b d where "bluetooth_data s = [a, b, d]"
    using inv by (auto simp: rx_inv_def numeral_eq_Suc length_Suc_conv)
  ultimately show ?thesis
    using inv by cases (auto simp: usart3_rx_def put_at_def rx_inv_def Let_def word_le_nat_alt)
qed

lemma usart1_rx_inv: "rx_inv s \<Longrightarrow> \<exists>s'. usart1_rx c s = Some s' \<and> rx_inv s'"
proof -
  assume inv: "rx_inv s"
  consider (marked) "USART1_RX_STA s AND 0x8000 \<noteq> 0" | (full) "USART1_RX_STA s AND 0x8000 = 0" "\<not> USART1_RX_STA s < 200"
    | (room) "USART1_RX_STA s AND 0x8000 = 0" "USART1_RX_STA s < 200"
    by blast
  then show ?thesis
  proof cases
    case marked
    then show ?thesis
      using inv by (simp add: usart1_rx_def)
  next
    case full
    have "bit ((USART1_RX_STA s OR 0x8000) AND 0x8000) 15"
      by (simp add: bit_and_iff bit_or_iff)
    then have "(USART1_RX_STA s OR 0x8000) AND 0x8000 \<noteq> 0"
      by (metis bit_0_eq bot_apply bot_bool_def)
    then show ?thesis
      using inv full by (simp add: usart1_rx_def rx_inv_def)
  next
    case room
    have n: "unat (USART1_RX_STA s) < 200" "unat (USART1_RX_STA s + 1) = Suc (unat (USART1_RX_STA s))"
      using room(2) by (simp_all add: word_less_nat_alt unat_word_ariths)
    then show ?thesis
      using inv room by (simp add: usart1_rx_def rx_inv_def put_at_def emit_def Let_def)
  qed
qed

lemma rx_callback_inv: "rx_inv s \<Longrightarrow> \<exists>s'. HAL_UART_RxCpltCallback u c s = Some s' \<and> rx_inv s'"
proof -
  assume inv: "rx_inv s"
  have "\<exists>w. WitSerialDataIn c (imu s) = Some w \<and> imu_inv w"
    using inv by (intro imu_inv_byte) (simp add: rx_inv_def)
  moreover have "\<exists>l. uart4_rx c (link s) = Some l \<and> uart4_inv l"
    using inv by (intro uart4_rx_inv) (simp add: rx_inv_def)
  ultimately show ?thesis
    using inv usart3_rx_inv [OF inv, of c] usart1_rx_inv [OF inv, of c]
    by (cases u) (auto simp: HAL_UART_RxCpltCallback_def rx_inv_def)
qed

primrec rx_interrupts :: "(uart \<times> 8 word) list \<Rightarrow> app \<Rightarrow> app option" where
  "rx_interrupts [] s = Some s"
| "rx_interrupts (e # es) s = HAL_UART_RxCpltCallback (fst e) (snd e) s \<bind> rx_interrupts es"

lemma rx_interrupts_inv: "rx_inv s \<Longrightarrow> \<exists>s'. rx_interrupts es s = Some s' \<and> rx_inv s'"
proof (induction es arbitrary: s)
  case (Cons e es)
  then show ?case
    using rx_callback_inv [OF Cons.prems, of "fst e" "snd e"] by auto
qed simp

text \<open>C6: The receive interrupt of the board is memory safe: from power-up, for every sequence of bytes
  arriving in any interleaving on the sensor, the remote control, the vision module and the console, no
  branch of \<^verbatim>\<open>HAL_UART_RxCpltCallback\<close> indexes a buffer outside its bounds or calls a null pointer, and
  the invariants of the parsers hold afterwards.\<close>

theorem rx_interrupts_memory_safe: "\<exists>s'. rx_interrupts es app_boot = Some s' \<and> rx_inv s'"
proof -
  have "rx_inv app_boot"
    using imu_inv_boot k230_boot_idle by (simp add: rx_inv_def app_boot_def uart4_idle_def)
  then show ?thesis
    by (rule rx_interrupts_inv)
qed

end
