(* ===== verification/Ipc_Msgqueue.thy ===== *)
theory Ipc_Msgqueue
  imports Ipc_Channel
begin

text \<open>
  Message queues (\<^verbatim>\<open>src/ipc.c\<close>): fixed-size messages in slots that are linked into a queue and a
  free list. A send takes a slot from the free list, enables interrupts while it copies the message,
  and links the slot in a second critical section; a receive does the converse. The two sections
  are separate steps here (\<open>_begin\<close> and \<open>_end\<close>), so that other operations may come in between, and a
  message queue is shown to be a message channel under any such interleaving.
\<close>

section \<open>Operations\<close>

definition upd_mq :: "nat \<Rightarrow> (rt_messagequeue \<Rightarrow> rt_messagequeue) \<Rightarrow> kernel \<Rightarrow> kernel" where
  "upd_mq n f k = k\<lparr>msgqueues := (msgqueues k)(n := f (msgqueues k n))\<rparr>"

definition mq_add_free :: "nat \<Rightarrow> rt_messagequeue \<Rightarrow> rt_messagequeue" where
  "mq_add_free i m = m\<lparr>mq_next := (mq_next m)(i := msg_queue_free m), msg_queue_free := Some i\<rparr>"

text \<open>The initial lists: \<^verbatim>\<open>for (temp = 0; temp < mq->max_msgs; temp ++)\<close>.\<close>

definition mq_pool_init :: "rt_messagequeue \<Rightarrow> rt_messagequeue" where
  "mq_pool_init m =
     (fold mq_add_free [0..<unat (max_msgs m)]
        (m\<lparr>msg_queue_head := None, msg_queue_tail := None, msg_queue_free := None\<rparr>))\<lparr>mq_entry := 0\<rparr>"

text \<open>\<open>pool i\<close> are the bytes of slot \<open>i\<close> of the message pool behind its link.\<close>

definition rt_mq_init :: "nat \<Rightarrow> string \<Rightarrow> (nat \<Rightarrow> 8 word list) \<Rightarrow> 32 word \<Rightarrow> 32 word \<Rightarrow> 8 word \<Rightarrow> kernel \<Rightarrow>
    (int \<times> kernel) option" where
  "rt_mq_init n nm pool msgsz poolsz flag k = do {
     rt_assert (flag = RT_IPC_FLAG_FIFO \<or> flag = RT_IPC_FLAG_PRIO);
     k1 \<leftarrow> rt_object_init (Obj_ipc (Msgqueue n)) RT_Object_Class_MessageQueue nm k;
     let k2 = set_ipc_flag (Msgqueue n) flag k1;
     let k3 = ipc_object_init (Msgqueue n) k2;
     let sz = (ucast (RT_ALIGN msgsz 4) :: 16 word);
     let k4 = upd_mq n (\<lambda>m. mq_pool_init (m\<lparr>mq_data := pool, msg_size := sz,
                max_msgs := ucast (poolsz div (ucast sz + 4))\<rparr>)) k3;
     Some (RT_EOK, sender_list_init (Msgqueue n) k4) }"

definition rt_mq_detach :: "nat \<Rightarrow> kernel \<Rightarrow> (int \<times> kernel) option" where
  "rt_mq_detach n k = do {
     rt_assert (rt_object_get_type (Obj_ipc (Msgqueue n)) k = RT_Object_Class_MessageQueue);
     rt_assert (rt_object_is_systemobject (Obj_ipc (Msgqueue n)) k);
     (_, k1) \<leftarrow> ipc_list_resume_all (Suspend (Msgqueue n)) k;
     (_, k2) \<leftarrow> ipc_list_resume_all (Sender (Msgqueue n)) k1;
     Some (RT_EOK, rt_object_detach (Obj_ipc (Msgqueue n)) k2) }"

text \<open>\<open>mem\<close> is the object the heap returns, \<open>pool\<close> the memory for the messages.\<close>

definition rt_mq_create :: "string \<Rightarrow> 32 word \<Rightarrow> 32 word \<Rightarrow> 8 word \<Rightarrow> nat option \<Rightarrow>
    (nat \<Rightarrow> 8 word list) option \<Rightarrow> kernel \<Rightarrow> (nat option \<times> kernel) option" where
  "rt_mq_create nm msgsz maxm flag mem pool k = do {
     rt_assert (flag = RT_IPC_FLAG_FIFO \<or> flag = RT_IPC_FLAG_PRIO);
     RT_DEBUG_NOT_IN_INTERRUPT k;
     (_, k1) \<leftarrow> rt_object_allocate RT_Object_Class_MessageQueue nm (map_option (Obj_ipc \<circ> Msgqueue) mem) k;
     case mem of
       None \<Rightarrow> Some (None, k1)
     | Some n \<Rightarrow>
         let k2 = set_ipc_flag (Msgqueue n) flag k1;
             k3 = ipc_object_init (Msgqueue n) k2;
             k4 = upd_mq n (\<lambda>m. m\<lparr>msg_size := ucast (RT_ALIGN msgsz 4), max_msgs := ucast maxm\<rparr>) k3
         in (case pool of
               None \<Rightarrow> do {
                 k5 \<leftarrow> rt_object_delete (Obj_ipc (Msgqueue n)) k4;
                 Some (None, k5) }
             | Some p \<Rightarrow>
                 let k5 = upd_mq n (\<lambda>m. mq_pool_init (m\<lparr>mq_data := p\<rparr>)) k4
                 in Some (Some n, sender_list_init (Msgqueue n) k5)) }"

definition rt_mq_delete :: "nat \<Rightarrow> kernel \<Rightarrow> (int \<times> kernel) option" where
  "rt_mq_delete n k = do {
     rt_assert (rt_object_get_type (Obj_ipc (Msgqueue n)) k = RT_Object_Class_MessageQueue);
     rt_assert (\<not> rt_object_is_systemobject (Obj_ipc (Msgqueue n)) k);
     RT_DEBUG_NOT_IN_INTERRUPT k;
     (_, k1) \<leftarrow> ipc_list_resume_all (Suspend (Msgqueue n)) k;
     (_, k2) \<leftarrow> ipc_list_resume_all (Sender (Msgqueue n)) k1;
     k3 \<leftarrow> rt_object_delete (Obj_ipc (Msgqueue n)) k2;
     Some (RT_EOK, k3) }"

text \<open>The first critical section of a send for thread \<open>th\<close>: a free slot (\<open>Inl\<close>), or the outcome of a
  round of the loop that waits for one (\<open>Inr\<close>).\<close>

definition mq_send_begin ::
  "tid option \<Rightarrow> nat \<Rightarrow> 32 word \<Rightarrow> kernel \<Rightarrow> ((nat + int outcome) \<times> kernel) option" where
  "mq_send_begin th n timeout k =
     (case msg_queue_free (msgqueues k n) of
        None \<Rightarrow> do {
          t \<leftarrow> th;
          let k1 = upd_thread t (\<lambda>r. r\<lparr>thread_error := RT_EOK\<rparr>) k;
          if timeout = 0 then Some (Inr (Return (- RT_EFULL)), k1)
          else do {
            k2 \<leftarrow> ipc_block (Sender (Msgqueue n)) t (ipc_flag k1 (Msgqueue n)) timeout k1;
            Some (Inr Block, k2) } }
      | Some i \<Rightarrow> Some (Inl i, upd_mq n (\<lambda>m. m\<lparr>msg_queue_free := mq_next m i\<rparr>) k))"

text \<open>Filling slot \<open>i\<close> and linking it at the tail.\<close>

definition mq_fill :: "nat \<Rightarrow> 8 word list \<Rightarrow> rt_messagequeue \<Rightarrow> rt_messagequeue" where
  "mq_fill i buf m = m\<lparr>mq_data := (mq_data m)(i := memcpy_at (mq_data m i) 0 buf)\<rparr>"

definition mq_link_tail :: "nat \<Rightarrow> rt_messagequeue \<Rightarrow> rt_messagequeue" where
  "mq_link_tail i m =
     (let m1 = (case msg_queue_tail m of
                  Some t \<Rightarrow> m\<lparr>mq_next := (mq_next m)(t := Some i)\<rparr>
                | None \<Rightarrow> m)
      in m1\<lparr>msg_queue_tail := Some i,
            msg_queue_head := (if msg_queue_head m1 = None then Some i else msg_queue_head m1)\<rparr>)"

definition mq_link_head :: "nat \<Rightarrow> rt_messagequeue \<Rightarrow> rt_messagequeue" where
  "mq_link_head i m = m\<lparr>mq_next := (mq_next m)(i := msg_queue_head m), msg_queue_head := Some i,
     msg_queue_tail := (if msg_queue_tail m = None then Some i else msg_queue_tail m)\<rparr>"

text \<open>The end of a send: count the message and wake a receiver.\<close>

definition mq_count_wake :: "nat \<Rightarrow> kernel \<Rightarrow> (int \<times> kernel) option" where
  "mq_count_wake n k =
     (if mq_entry (msgqueues k n) < 0xFFFF then do {
        k1 \<leftarrow> ipc_wake (Suspend (Msgqueue n)) (upd_mq n (\<lambda>m. m\<lparr>mq_entry := mq_entry m + 1\<rparr>) k);
        Some (RT_EOK, k1) }
      else Some (- RT_EFULL, k))"

definition mq_send_end :: "nat \<Rightarrow> nat \<Rightarrow> 8 word list \<Rightarrow> kernel \<Rightarrow> (int \<times> kernel) option" where
  "mq_send_end n i buf k =
     mq_count_wake n (upd_mq n (\<lambda>m. mq_link_tail i (mq_fill i buf (m\<lparr>mq_next := (mq_next m)(i := None)\<rparr>))) k)"

definition mq_send_run :: "tid option \<Rightarrow> nat \<Rightarrow> 8 word list \<Rightarrow> 32 word \<Rightarrow> kernel \<Rightarrow>
    (int outcome \<times> kernel) option" where
  "mq_send_run th n buf timeout k = do {
     (x, k1) \<leftarrow> mq_send_begin th n timeout k;
     case x of
       Inr r \<Rightarrow> Some (r, k1)
     | Inl i \<Rightarrow> do {
         (e, k2) \<leftarrow> mq_send_end n i buf k1;
         Some (Return e, k2) } }"

definition rt_mq_send_wait ::
  "nat \<Rightarrow> 8 word list \<Rightarrow> 32 word \<Rightarrow> kernel \<Rightarrow> (int outcome \<times> kernel) option" where
  "rt_mq_send_wait n buf timeout k = do {
     rt_assert (rt_object_get_type (Obj_ipc (Msgqueue n)) k = RT_Object_Class_MessageQueue);
     rt_assert (buf \<noteq> []);
     RT_DEBUG_SCHEDULER_AVAILABLE (timeout \<noteq> 0) k;
     if length buf > unat (msg_size (msgqueues k n)) then Some (Return (- RT_ERROR), k)
     else if msg_queue_free (msgqueues k n) = None \<and> timeout = 0 then Some (Return (- RT_EFULL), k)
     else mq_send_run (rt_thread_self k) n buf timeout k }"

text \<open>The sender \<open>t\<close> that blocked at tick \<open>tick0\<close> runs again.\<close>

definition rt_mq_send_wait_resume ::
  "nat \<Rightarrow> 8 word list \<Rightarrow> tid \<Rightarrow> 32 word \<Rightarrow> 32 word \<Rightarrow> kernel \<Rightarrow> (int outcome \<times> kernel) option" where
  "rt_mq_send_wait_resume n buf t timeout tick0 k =
     (if thread_error (threads k t) \<noteq> RT_EOK then Some (Return (thread_error (threads k t)), k)
      else mq_send_run (Some t) n buf (remaining_timeout timeout tick0 k) k)"

definition rt_mq_send :: "nat \<Rightarrow> 8 word list \<Rightarrow> kernel \<Rightarrow> (int outcome \<times> kernel) option" where
  "rt_mq_send n buf k = rt_mq_send_wait n buf 0 k"

definition mq_urgent_end :: "nat \<Rightarrow> nat \<Rightarrow> 8 word list \<Rightarrow> kernel \<Rightarrow> (int \<times> kernel) option" where
  "mq_urgent_end n i buf k = mq_count_wake n (upd_mq n (\<lambda>m. mq_link_head i (mq_fill i buf m)) k)"

definition rt_mq_urgent :: "nat \<Rightarrow> 8 word list \<Rightarrow> kernel \<Rightarrow> (int \<times> kernel) option" where
  "rt_mq_urgent n buf k = do {
     rt_assert (rt_object_get_type (Obj_ipc (Msgqueue n)) k = RT_Object_Class_MessageQueue);
     rt_assert (buf \<noteq> []);
     if length buf > unat (msg_size (msgqueues k n)) then Some (- RT_ERROR, k)
     else (case msg_queue_free (msgqueues k n) of
             None \<Rightarrow> Some (- RT_EFULL, k)
           | Some i \<Rightarrow> mq_urgent_end n i buf (upd_mq n (\<lambda>m. m\<lparr>msg_queue_free := mq_next m i\<rparr>) k)) }"

text \<open>Unlinking the first message.\<close>

definition mq_unlink_head :: "nat \<Rightarrow> rt_messagequeue \<Rightarrow> rt_messagequeue" where
  "mq_unlink_head i m = m\<lparr>msg_queue_head := mq_next m i,
     msg_queue_tail := (if msg_queue_tail m = Some i then None else msg_queue_tail m)\<rparr>"

definition mq_recv_begin :: "tid option \<Rightarrow> nat \<Rightarrow> 32 word \<Rightarrow> kernel \<Rightarrow>
    ((nat + (int \<times> 8 word list option) outcome) \<times> kernel) option" where
  "mq_recv_begin th n timeout k =
     (if mq_entry (msgqueues k n) = 0 then do {
        t \<leftarrow> th;
        let k1 = upd_thread t (\<lambda>r. r\<lparr>thread_error := RT_EOK\<rparr>) k;
        if timeout = 0 then
          Some (Inr (Return (- RT_ETIMEOUT, None)), upd_thread t (\<lambda>r. r\<lparr>thread_error := - RT_ETIMEOUT\<rparr>) k1)
        else do {
          k2 \<leftarrow> ipc_block (Suspend (Msgqueue n)) t (ipc_flag k1 (Msgqueue n)) timeout k1;
          Some (Inr Block, k2) } }
      else do {
        i \<leftarrow> msg_queue_head (msgqueues k n);
        Some (Inl i, upd_mq n (\<lambda>m. (mq_unlink_head i m)\<lparr>mq_entry :=
          (if mq_entry m > 0 then mq_entry m - 1 else mq_entry m)\<rparr>) k) })"

text \<open>Copying at most \<open>sz\<close> bytes out of slot \<open>i\<close> and giving the slot back.\<close>

definition mq_recv_end :: "nat \<Rightarrow> nat \<Rightarrow> 32 word \<Rightarrow> kernel \<Rightarrow> (8 word list \<times> kernel) option" where
  "mq_recv_end n i sz k = do {
     let m = msgqueues k n;
     let len = (if unat sz > unat (msg_size m) then unat (msg_size m) else unat sz);
     k1 \<leftarrow> ipc_wake (Sender (Msgqueue n)) (upd_mq n (mq_add_free i) k);
     Some (take len (mq_data m i), k1) }"

definition mq_recv_run :: "tid option \<Rightarrow> nat \<Rightarrow> 32 word \<Rightarrow> 32 word \<Rightarrow> kernel \<Rightarrow>
    ((int \<times> 8 word list option) outcome \<times> kernel) option" where
  "mq_recv_run th n sz timeout k = do {
     (x, k1) \<leftarrow> mq_recv_begin th n timeout k;
     case x of
       Inr r \<Rightarrow> Some (r, k1)
     | Inl i \<Rightarrow> do {
         (bs, k2) \<leftarrow> mq_recv_end n i sz k1;
         Some (Return (RT_EOK, Some bs), k2) } }"

definition rt_mq_recv :: "nat \<Rightarrow> 32 word \<Rightarrow> 32 word \<Rightarrow> kernel \<Rightarrow>
    ((int \<times> 8 word list option) outcome \<times> kernel) option" where
  "rt_mq_recv n sz timeout k = do {
     rt_assert (rt_object_get_type (Obj_ipc (Msgqueue n)) k = RT_Object_Class_MessageQueue);
     rt_assert (sz \<noteq> 0);
     RT_DEBUG_SCHEDULER_AVAILABLE (timeout \<noteq> 0) k;
     if mq_entry (msgqueues k n) = 0 \<and> timeout = 0 then Some (Return (- RT_ETIMEOUT, None), k)
     else mq_recv_run (rt_thread_self k) n sz timeout k }"

definition rt_mq_recv_resume :: "nat \<Rightarrow> 32 word \<Rightarrow> tid \<Rightarrow> 32 word \<Rightarrow> 32 word \<Rightarrow> kernel \<Rightarrow>
    ((int \<times> 8 word list option) outcome \<times> kernel) option" where
  "rt_mq_recv_resume n sz t timeout tick0 k =
     (if thread_error (threads k t) \<noteq> RT_EOK then Some (Return (thread_error (threads k t), None), k)
      else mq_recv_run (Some t) n sz (remaining_timeout timeout tick0 k) k)"

text \<open>The loop of a reset that moves the messages to the free list; it may not end on a cyclic queue.\<close>

partial_function (option) mq_drain :: "rt_messagequeue \<Rightarrow> rt_messagequeue option" where
  "mq_drain m =
     (case msg_queue_head m of
        None \<Rightarrow> Some m
      | Some i \<Rightarrow> mq_drain (mq_add_free i (mq_unlink_head i m)))"

definition rt_mq_control :: "nat \<Rightarrow> bool \<Rightarrow> kernel \<Rightarrow> (int \<times> kernel) option" where
  "rt_mq_control n reset k = do {
     rt_assert (rt_object_get_type (Obj_ipc (Msgqueue n)) k = RT_Object_Class_MessageQueue);
     if reset then do {
       (_, k1) \<leftarrow> ipc_list_resume_all (Suspend (Msgqueue n)) k;
       (_, k2) \<leftarrow> ipc_list_resume_all (Sender (Msgqueue n)) k1;
       m \<leftarrow> mq_drain (msgqueues k2 n);
       k3 \<leftarrow> rt_schedule (upd_mq n (\<lambda>_. m\<lparr>mq_entry := 0\<rparr>) k2);
       Some (RT_EOK, k3) }
     else Some (- RT_ERROR, k) }"

section \<open>Slots and lists\<close>

text \<open>The queue holds the slots \<open>qs\<close>, the free list the slots \<open>fs\<close>, and the slots \<open>B\<close> are in use by
  sends and receives that are between their two critical sections.\<close>

definition mq_lists :: "rt_messagequeue \<Rightarrow> nat list \<Rightarrow> nat list \<Rightarrow> nat list \<Rightarrow> bool" where
  "mq_lists m qs fs B \<longleftrightarrow> chain (mq_next m) (msg_queue_head m) qs \<and> chain (mq_next m) (msg_queue_free m) fs \<and>
     msg_queue_tail m = (if qs = [] then None else Some (last qs)) \<and> distinct (qs @ fs @ B) \<and>
     set (qs @ fs @ B) = {..<unat (max_msgs m)}"

lemma mq_lists_grab:
  assumes "mq_lists m qs fs B" "msg_queue_free m = Some i"
  obtains fs' where "fs = i # fs'" "mq_lists (m\<lparr>msg_queue_free := mq_next m i\<rparr>) qs fs' (i # B)"
  using assms by (auto simp: mq_lists_def chain_Some)

lemma mq_lists_link_tail:
  assumes l: "mq_lists m qs fs B" and i: "i \<in> set B"
  shows "mq_lists (mq_link_tail i (mq_fill i buf (m\<lparr>mq_next := (mq_next m)(i := None)\<rparr>))) (qs @ [i]) fs (removeAll i B)"
proof -
  let ?nx = "(mq_next m)(i := None)"
  have d: "i \<notin> set qs" "i \<notin> set fs" "distinct qs" "distinct B" "set qs \<inter> set fs = {}"
    using l i by (auto simp: mq_lists_def)
  have "distinct (qs @ [i] @ fs @ removeAll i B)" "set (qs @ [i] @ fs @ removeAll i B) = {..<unat (max_msgs m)}"
    using l i d by (auto simp: mq_lists_def distinct_removeAll)
  moreover have "chain (?nx(last qs := Some i)) (msg_queue_head m) (qs @ [i])" if "qs \<noteq> []"
    using chain_snoc [of ?nx "msg_queue_head m" qs i] l d that by (auto simp: mq_lists_def)
  moreover have "last qs \<notin> set fs" if "qs \<noteq> []" using last_in_set [OF that] d by blast
  ultimately show ?thesis
    using l d by (cases "qs = []") (auto simp: mq_lists_def mq_link_tail_def mq_fill_def Let_def
        split: option.splits)
qed

lemma mq_lists_link_head:
  assumes l: "mq_lists m qs fs B" and i: "i \<in> set B"
  shows "mq_lists (mq_link_head i (mq_fill i buf m)) (i # qs) fs (removeAll i B)"
proof -
  have d: "i \<notin> set qs" "i \<notin> set fs" "distinct B" using l i by (auto simp: mq_lists_def)
  have "distinct ((i # qs) @ fs @ removeAll i B)" "set ((i # qs) @ fs @ removeAll i B) = {..<unat (max_msgs m)}"
    using l i d by (auto simp: mq_lists_def distinct_removeAll)
  then show ?thesis using l d by (auto simp: mq_lists_def mq_link_head_def mq_fill_def)
qed

lemma mq_lists_unlink:
  assumes "mq_lists m (i # qs) fs B" shows "mq_lists (mq_unlink_head i m) qs fs (i # B)"
proof -
  have "last qs \<noteq> i" if "qs \<noteq> []" using assms that by (auto simp: mq_lists_def)
  then show ?thesis using assms by (auto simp: mq_lists_def mq_unlink_head_def)
qed

lemma mq_lists_add_free:
  assumes l: "mq_lists m qs fs B" and i: "i \<in> set B"
  shows "mq_lists (mq_add_free i m) qs (i # fs) (removeAll i B)"
proof -
  have d: "i \<notin> set qs" "i \<notin> set fs" "distinct B" using l i by (auto simp: mq_lists_def)
  have "distinct (qs @ (i # fs) @ removeAll i B)" "set (qs @ (i # fs) @ removeAll i B) = {..<unat (max_msgs m)}"
    using l i d by (auto simp: mq_lists_def distinct_removeAll)
  then show ?thesis using l d by (auto simp: mq_lists_def mq_add_free_def)
qed

text \<open>Draining a queue ends.\<close>

lemma mq_drain_ends:
  "mq_lists m qs fs B \<Longrightarrow> \<exists>m' fs'. mq_drain m = Some m' \<and> mq_lists m' [] fs' B \<and> mq_data m' = mq_data m \<and>
     msg_size m' = msg_size m \<and> max_msgs m' = max_msgs m"
proof (induction qs arbitrary: m fs)
  case Nil
  then show ?case by (subst mq_drain.simps) (auto simp: mq_lists_def)
next
  case (Cons i qs)
  then have head: "msg_queue_head m = Some i" by (simp add: mq_lists_def)
  let ?m = "mq_add_free i (mq_unlink_head i m)"
  have "i \<notin> set B" using Cons.prems by (auto simp: mq_lists_def)
  then have "mq_lists ?m qs (i # fs) B"
    using mq_lists_add_free [OF mq_lists_unlink [OF Cons.prems], of i] by simp
  from Cons.IH [OF this] obtain m' fs' where "mq_drain ?m = Some m'" "mq_lists m' [] fs' B"
    "mq_data m' = mq_data m" "msg_size m' = msg_size m" "max_msgs m' = max_msgs m"
    by (auto simp: mq_add_free_def mq_unlink_head_def)
  then show ?case by (subst mq_drain.simps) (auto simp: head)
qed

text \<open>The initial lists.\<close>

lemma mq_pool_init_lists: "mq_lists (mq_pool_init m) [] (rev [0..<unat (max_msgs m)]) []"
proof -
  let ?m0 = "m\<lparr>msg_queue_head := None, msg_queue_tail := None, msg_queue_free := None\<rparr>"
  have "let m' = fold mq_add_free [0..<n] ?m0 in chain (mq_next m') (msg_queue_free m') (rev [0..<n]) \<and>
      msg_queue_head m' = None \<and> msg_queue_tail m' = None \<and> max_msgs m' = max_msgs m" for n
    by (induction n) (auto simp: Let_def mq_add_free_def)
  then show ?thesis by (auto simp: mq_lists_def mq_pool_init_def Let_def)
qed

section \<open>The queue of messages\<close>

text \<open>\<open>S\<close> are the slots of sends, \<open>R\<close> those of receives with the message they took, that are between
  their critical sections.\<close>

definition mq_ok :: "rt_messagequeue \<Rightarrow> nat list \<Rightarrow> (nat \<times> 8 word list) list \<Rightarrow> bool" where
  "mq_ok m S R \<longleftrightarrow> (\<exists>qs fs. mq_lists m qs fs (S @ map fst R) \<and> unat (mq_entry m) = length qs) \<and>
     (\<forall>i < unat (max_msgs m). length (mq_data m i) = unat (msg_size m)) \<and>
     (\<forall>(i, c) \<in> set R. mq_data m i = c)"

definition mq_msgs :: "rt_messagequeue \<Rightarrow> 8 word list list" where
  "mq_msgs m = map (mq_data m) (walk (mq_next m) (msg_queue_head m) (unat (mq_entry m)))"

lemma mq_msgs_eq: "mq_lists m qs fs B \<Longrightarrow> unat (mq_entry m) = length qs \<Longrightarrow> mq_msgs m = map (mq_data m) qs"
  using walk_chain by (auto simp: mq_msgs_def mq_lists_def)

lemma mq_okE:
  assumes "mq_ok m S R"
  obtains qs fs where "mq_lists m qs fs (S @ map fst R)" "unat (mq_entry m) = length qs"
    "mq_msgs m = map (mq_data m) qs" "\<And>i. i < unat (max_msgs m) \<Longrightarrow> length (mq_data m i) = unat (msg_size m)"
    "\<And>i c. (i, c) \<in> set R \<Longrightarrow> mq_data m i = c"
proof -
  obtain qs fs where q: "mq_lists m qs fs (S @ map fst R)" "unat (mq_entry m) = length qs"
    using assms unfolding mq_ok_def by blast
  show thesis
    by (rule that [OF q mq_msgs_eq [OF q]]) (use assms in \<open>auto simp: mq_ok_def\<close>)
qed

lemma mq_okI:
  assumes "mq_lists m qs fs (S @ map fst R)" "unat (mq_entry m) = length qs"
    "\<And>i. i < unat (max_msgs m) \<Longrightarrow> length (mq_data m i) = unat (msg_size m)"
    "\<And>i c. (i, c) \<in> set R \<Longrightarrow> mq_data m i = c"
  shows "mq_ok m S R" "mq_msgs m = map (mq_data m) qs"
  unfolding mq_ok_def
  by (intro conjI exI [of _ qs] exI [of _ fs], use assms in auto) (rule mq_msgs_eq [OF assms(1,2)])

lemma mq_lists_data [simp]: "mq_lists (m\<lparr>mq_entry := e\<rparr>) qs fs B = mq_lists m qs fs B"
  by (simp add: mq_lists_def)

lemma mq_lists_length:
  assumes "mq_lists m qs fs B" shows "length qs + length fs + length B = unat (max_msgs m)"
proof -
  have "card (set (qs @ fs @ B)) = length (qs @ fs @ B)"
    using assms distinct_card unfolding mq_lists_def by blast
  then show ?thesis using assms by (simp add: mq_lists_def)
qed

lemma mq_lists_slot: "mq_lists m qs fs B \<Longrightarrow> i \<in> set B \<Longrightarrow> i < unat (max_msgs m) \<and> i \<notin> set qs"
  by (auto simp: mq_lists_def)

lemma mq_ok_bound: "mq_ok m S R \<Longrightarrow> length (mq_msgs m) \<le> unat (max_msgs m)"
  by (erule mq_okE) (auto dest: mq_lists_length)

lemma mq_grab_ok:
  assumes "mq_ok m S R" "msg_queue_free m = Some i"
  shows "mq_ok (m\<lparr>msg_queue_free := mq_next m i\<rparr>) (i # S) R"
    "mq_msgs (m\<lparr>msg_queue_free := mq_next m i\<rparr>) = mq_msgs m"
proof -
  obtain qs fs where q: "mq_lists m qs fs (S @ map fst R)"
    "unat (mq_entry m) = length qs" "mq_msgs m = map (mq_data m) qs"
    "\<And>i. i < unat (max_msgs m) \<Longrightarrow> length (mq_data m i) = unat (msg_size m)"
    "\<And>i c. (i, c) \<in> set R \<Longrightarrow> mq_data m i = c" by (rule mq_okE [OF assms(1)]) blast
  from mq_lists_grab [OF q(1) assms(2)] obtain fs' where
    "mq_lists (m\<lparr>msg_queue_free := mq_next m i\<rparr>) qs fs' (i # S @ map fst R)" by blast
  with q show "mq_ok (m\<lparr>msg_queue_free := mq_next m i\<rparr>) (i # S) R"
    "mq_msgs (m\<lparr>msg_queue_free := mq_next m i\<rparr>) = mq_msgs m"
    using mq_okI [of "m\<lparr>msg_queue_free := mq_next m i\<rparr>" qs fs' "i # S" R] by simp_all
qed

text \<open>Linking a filled slot, at either end: what the two kinds of send share.\<close>

lemma mq_link_ok:
  assumes ok: "mq_ok m S R" and i: "i \<in> set S" and len: "length buf \<le> unat (msg_size m)"
    and l: "\<And>qs fs. mq_lists m qs fs (S @ map fst R) \<Longrightarrow> mq_lists m1 (put qs) fs (removeAll i (S @ map fst R))"
    and put: "\<And>qs. length (put qs) = Suc (length qs)"
    and m1: "mq_data m1 = (mq_data m)(i := memcpy_at (mq_data m i) 0 buf)" "mq_entry m1 = mq_entry m"
      "max_msgs m1 = max_msgs m" "msg_size m1 = msg_size m"
  shows "mq_entry m1 < 0xFFFF" "mq_ok (m1\<lparr>mq_entry := mq_entry m1 + 1\<rparr>) (removeAll i S) R"
    "\<exists>qs. i \<notin> set qs \<and> mq_msgs m = map (mq_data m) qs \<and>
       mq_msgs (m1\<lparr>mq_entry := mq_entry m1 + 1\<rparr>) = map (mq_data m1) (put qs)"
proof -
  obtain qs fs where q: "mq_lists m qs fs (S @ map fst R)"
    "unat (mq_entry m) = length qs" "mq_msgs m = map (mq_data m) qs"
    "\<And>i. i < unat (max_msgs m) \<Longrightarrow> length (mq_data m i) = unat (msg_size m)"
    "\<And>i c. (i, c) \<in> set R \<Longrightarrow> mq_data m i = c" by (rule mq_okE [OF ok]) blast
  have slot: "i < unat (max_msgs m)" "i \<notin> set qs" using mq_lists_slot [OF q(1), of i] i by auto
  have "length qs < unat (max_msgs m)"
    using mq_lists_length [OF q(1)] i by (cases S) auto
  then have "length qs < 0xFFFF" using unat_16_bound [of "max_msgs m"] by simp
  then show e: "mq_entry m1 < 0xFFFF" using q(2) m1(2) by (simp add: word_less_nat_alt)
  have notR: "i \<notin> fst ` set R" using q(1) i by (auto simp: mq_lists_def)
  then have rem: "removeAll i (S @ map fst R) = removeAll i S @ map fst R" by (simp add: image_def)
  let ?m2 = "m1\<lparr>mq_entry := mq_entry m1 + 1\<rparr>"
  have "mq_ok ?m2 (removeAll i S) R \<and> mq_msgs ?m2 = map (mq_data ?m2) (put qs)"
  proof (intro conjI mq_okI)
    show "mq_lists ?m2 (put qs) fs (removeAll i S @ map fst R)" using l [OF q(1)] rem by simp
    then show "mq_lists ?m2 (put qs) fs (removeAll i S @ map fst R)" .
    show "unat (mq_entry ?m2) = length (put qs)" using u16_inc [OF e] q(2) m1(2) put by simp
    then show "unat (mq_entry ?m2) = length (put qs)" .
    show "length (mq_data ?m2 j) = unat (msg_size ?m2)" if "j < unat (max_msgs ?m2)" for j
      using that q(4) m1 len slot(1) by auto
    then show "length (mq_data ?m2 j) = unat (msg_size ?m2)" if "j < unat (max_msgs ?m2)" for j using that .
    show "mq_data ?m2 j = c" if "(j, c) \<in> set R" for j c using that q(5) m1(1) notR by force
    then show "mq_data ?m2 j = c" if "(j, c) \<in> set R" for j c using that .
  qed
  then show "mq_ok ?m2 (removeAll i S) R"
    "\<exists>qs. i \<notin> set qs \<and> mq_msgs m = map (mq_data m) qs \<and> mq_msgs ?m2 = map (mq_data m1) (put qs)"
    using q(3) slot(2) by auto
qed

lemma mq_send_link_ok:
  assumes ok: "mq_ok m S R" and i: "i \<in> set S" and len: "length buf \<le> unat (msg_size m)"
    and m1: "m1 = mq_link_tail i (mq_fill i buf (m\<lparr>mq_next := (mq_next m)(i := None)\<rparr>))"
  shows "mq_entry m1 < 0xFFFF" "mq_ok (m1\<lparr>mq_entry := mq_entry m1 + 1\<rparr>) (removeAll i S) R"
    "mq_msgs (m1\<lparr>mq_entry := mq_entry m1 + 1\<rparr>) = mq_msgs m @ [memcpy_at (mq_data m i) 0 buf]"
    "max_msgs m1 = max_msgs m"
proof -
  have sel: "mq_data m1 = (mq_data m)(i := memcpy_at (mq_data m i) 0 buf)" "mq_entry m1 = mq_entry m"
      "max_msgs m1 = max_msgs m" "msg_size m1 = msg_size m"
    by (simp_all add: m1 mq_link_tail_def mq_fill_def Let_def split: option.splits)
  have l: "mq_lists m1 (qs @ [i]) fs (removeAll i (S @ map fst R))" if "mq_lists m qs fs (S @ map fst R)" for qs fs
    using mq_lists_link_tail [OF that, of i buf] i by (simp add: m1)
  note ln = mq_link_ok [where put = "\<lambda>qs. qs @ [i]", OF ok i len l _ sel, simplified]
  show "mq_entry m1 < 0xFFFF" "mq_ok (m1\<lparr>mq_entry := mq_entry m1 + 1\<rparr>) (removeAll i S) R" "max_msgs m1 = max_msgs m"
    using ln(1,2) sel(3) by simp_all
  obtain qs where qs: "i \<notin> set qs" "mq_msgs m = map (mq_data m) qs"
    "mq_msgs (m1\<lparr>mq_entry := mq_entry m1 + 1\<rparr>) = map (mq_data m1) qs @ [mq_data m1 i]" using ln(3) by auto
  have "map (mq_data m1) qs = map (mq_data m) qs" using qs(1) by (simp add: sel(1))
  then show "mq_msgs (m1\<lparr>mq_entry := mq_entry m1 + 1\<rparr>) = mq_msgs m @ [memcpy_at (mq_data m i) 0 buf]"
    using qs sel(1) by simp
qed

lemma mq_urgent_link_ok:
  assumes ok: "mq_ok m S R" and i: "i \<in> set S" and len: "length buf \<le> unat (msg_size m)"
    and m1: "m1 = mq_link_head i (mq_fill i buf m)"
  shows "mq_entry m1 < 0xFFFF" "mq_ok (m1\<lparr>mq_entry := mq_entry m1 + 1\<rparr>) (removeAll i S) R"
    "mq_msgs (m1\<lparr>mq_entry := mq_entry m1 + 1\<rparr>) = memcpy_at (mq_data m i) 0 buf # mq_msgs m"
    "max_msgs m1 = max_msgs m"
proof -
  have sel: "mq_data m1 = (mq_data m)(i := memcpy_at (mq_data m i) 0 buf)" "mq_entry m1 = mq_entry m"
      "max_msgs m1 = max_msgs m" "msg_size m1 = msg_size m"
    by (simp_all add: m1 mq_link_head_def mq_fill_def)
  have l: "mq_lists m1 (i # qs) fs (removeAll i (S @ map fst R))" if "mq_lists m qs fs (S @ map fst R)" for qs fs
    using mq_lists_link_head [OF that, of i buf] i by (simp add: m1)
  note ln = mq_link_ok [where put = "\<lambda>qs. i # qs", OF ok i len l _ sel, simplified]
  show "mq_entry m1 < 0xFFFF" "mq_ok (m1\<lparr>mq_entry := mq_entry m1 + 1\<rparr>) (removeAll i S) R" "max_msgs m1 = max_msgs m"
    using ln(1,2) sel(3) by simp_all
  obtain qs where qs: "i \<notin> set qs" "mq_msgs m = map (mq_data m) qs"
    "mq_msgs (m1\<lparr>mq_entry := mq_entry m1 + 1\<rparr>) = mq_data m1 i # map (mq_data m1) qs" using ln(3) by auto
  have "map (mq_data m1) qs = map (mq_data m) qs" using qs(1) by (simp add: sel(1))
  then show "mq_msgs (m1\<lparr>mq_entry := mq_entry m1 + 1\<rparr>) = memcpy_at (mq_data m i) 0 buf # mq_msgs m"
    using qs sel(1) by simp
qed

lemma mq_unlink_ok:
  assumes ok: "mq_ok m S R" and ne: "mq_entry m \<noteq> 0"
  obtains i where "msg_queue_head m = Some i"
    "mq_ok ((mq_unlink_head i m)\<lparr>mq_entry := mq_entry m - 1\<rparr>) S ((i, mq_data m i) # R)"
    "mq_msgs m = mq_data m i # mq_msgs ((mq_unlink_head i m)\<lparr>mq_entry := mq_entry m - 1\<rparr>)"
proof -
  obtain qs fs where q: "mq_lists m qs fs (S @ map fst R)"
    "unat (mq_entry m) = length qs" "mq_msgs m = map (mq_data m) qs"
    "\<And>i. i < unat (max_msgs m) \<Longrightarrow> length (mq_data m i) = unat (msg_size m)"
    "\<And>i c. (i, c) \<in> set R \<Longrightarrow> mq_data m i = c" by (rule mq_okE [OF ok]) blast
  have e: "unat (mq_entry m) = Suc (unat (mq_entry m - 1))" using ne word_zero_cases by (intro word_dec_Suc) blast
  then obtain i qs' where qs: "qs = i # qs'" using q(2) by (cases qs) auto
  let ?m1 = "(mq_unlink_head i m)\<lparr>mq_entry := mq_entry m - 1\<rparr>"
  have "mq_lists ?m1 qs' fs (i # S @ map fst R)" using mq_lists_unlink q(1) qs by simp
  then have l: "mq_lists ?m1 qs' fs (S @ map fst ((i, mq_data m i) # R))" by (auto simp: mq_lists_def)
  have sel: "mq_data ?m1 = mq_data m" "max_msgs ?m1 = max_msgs m" "msg_size ?m1 = msg_size m"
    by (simp_all add: mq_unlink_head_def)
  have "mq_ok ?m1 S ((i, mq_data m i) # R)" "mq_msgs ?m1 = map (mq_data m) qs'"
    using mq_okI [OF l] e q(2,4,5) qs sel by auto
  moreover have "msg_queue_head m = Some i" using q(1) qs by (simp add: mq_lists_def)
  ultimately show thesis using that q(3) qs by simp
qed

lemma removeAll_map_fst: "removeAll i (map fst R) = map fst (filter (\<lambda>(j, _). j \<noteq> i) R)"
  by (induction R) auto

lemma mq_give_back_ok:
  assumes ok: "mq_ok m S R" and i: "(i, c) \<in> set R"
  shows "mq_ok (mq_add_free i m) S (filter (\<lambda>(j, _). j \<noteq> i) R)" "mq_msgs (mq_add_free i m) = mq_msgs m"
    "mq_data m i = c"
proof -
  obtain qs fs where q: "mq_lists m qs fs (S @ map fst R)"
    "unat (mq_entry m) = length qs" "mq_msgs m = map (mq_data m) qs"
    "\<And>i. i < unat (max_msgs m) \<Longrightarrow> length (mq_data m i) = unat (msg_size m)"
    "\<And>i c. (i, c) \<in> set R \<Longrightarrow> mq_data m i = c" by (rule mq_okE [OF ok]) blast
  have "i \<in> set (map fst R)" using i by force
  then have "i \<notin> set S" using q(1) by (auto simp: mq_lists_def simp del: set_map)
  then have "removeAll i (S @ map fst R) = S @ map fst (filter (\<lambda>(j, _). j \<noteq> i) R)"
    by (simp add: removeAll_map_fst)
  moreover have "i \<in> set (S @ map fst R)" using i by force
  ultimately have l: "mq_lists (mq_add_free i m) qs (i # fs) (S @ map fst (filter (\<lambda>(j, _). j \<noteq> i) R))"
    using mq_lists_add_free [OF q(1), of i] by simp
  have sel: "mq_data (mq_add_free i m) = mq_data m" "max_msgs (mq_add_free i m) = max_msgs m"
    "msg_size (mq_add_free i m) = msg_size m" "mq_entry (mq_add_free i m) = mq_entry m"
    by (simp_all add: mq_add_free_def)
  show "mq_ok (mq_add_free i m) S (filter (\<lambda>(j, _). j \<noteq> i) R)" "mq_msgs (mq_add_free i m) = mq_msgs m"
    using mq_okI [OF l] q(2-5) sel by auto
  show "mq_data m i = c" using q(5) i .
qed

lemma mq_drain_ok:
  assumes "mq_ok m S R"
  obtains m' where "mq_drain m = Some m'" "mq_ok (m'\<lparr>mq_entry := 0\<rparr>) S R" "mq_msgs (m'\<lparr>mq_entry := 0\<rparr>) = []"
    "max_msgs m' = max_msgs m"
proof -
  obtain qs fs where q: "mq_lists m qs fs (S @ map fst R)"
    "unat (mq_entry m) = length qs" "mq_msgs m = map (mq_data m) qs"
    "\<And>i. i < unat (max_msgs m) \<Longrightarrow> length (mq_data m i) = unat (msg_size m)"
    "\<And>i c. (i, c) \<in> set R \<Longrightarrow> mq_data m i = c" by (rule mq_okE [OF assms]) blast
  obtain m' fs' where m': "mq_drain m = Some m'" "mq_lists m' [] fs' (S @ map fst R)"
    "mq_data m' = mq_data m" "msg_size m' = msg_size m" "max_msgs m' = max_msgs m"
    using mq_drain_ends [OF q(1)] by blast
  have "mq_lists (m'\<lparr>mq_entry := 0\<rparr>) [] fs' (S @ map fst R)" using m'(2) by simp
  from mq_okI [OF this] show thesis using that [OF m'(1)] m' q(4,5) by auto
qed

section \<open>The operations on the kernel state\<close>

lemma upd_mq_sel [simp]:
  "msgqueues (upd_mq n f k) = (msgqueues k)(n := f (msgqueues k n))"
  "tlists (upd_mq n f k) = tlists k" "threads (upd_mq n f k) = threads k"
  "rt_current_thread (upd_mq n f k) = rt_current_thread k" "objects (upd_mq n f k) = objects k"
  "rt_thread_ready_priority_group (upd_mq n f k) = rt_thread_ready_priority_group k"
  "rt_object_get_type q (upd_mq n f k) = rt_object_get_type q k"
  by (simp_all add: upd_mq_def rt_object_get_type_def)

lemma kready_upd_mq [simp]: "kready (upd_mq n f k) = kready k"
proof -
  have "sched_inv (upd_mq n f k) = sched_inv k"
    unfolding sched_inv_def by (rule sched_inv_except_cong) simp_all
  then show ?thesis
    using live_ok_cong [of "upd_mq n f k" k] by (auto simp: kready_def thread_timers_hard_def)
qed

lemma msgqueues_upd_thread [simp]: "msgqueues (upd_thread t f k) = msgqueues k"
  by (simp add: upd_thread_def)

type_synonym mq_state = "kernel \<times> nat list \<times> (nat \<times> 8 word list) list"

definition mq_inv :: "nat \<Rightarrow> mq_state \<Rightarrow> bool" where
  "mq_inv n s \<longleftrightarrow> (case s of (k, S, R) \<Rightarrow> kready k \<and> rt_current_thread k \<noteq> None \<and>
     rt_object_get_type (Obj_ipc (Msgqueue n)) k = RT_Object_Class_MessageQueue \<and> mq_ok (msgqueues k n) S R)"

lemma mq_wake:
  assumes k: "kready k" "rt_current_thread k \<noteq> None" and h: "h = Suspend (Msgqueue n) \<or> h = Sender (Msgqueue n)"
  obtains k' where "ipc_wake h k = Some k'" "kready k'" "rt_current_thread k' \<noteq> None"
    "msgqueues k' = msgqueues k" "\<And>q. rt_object_get_type q k' = rt_object_get_type q k"
    "tlists k' h = tl (tlists k h)"
    "\<forall>t \<in> set (take 1 (tlists k h)). tstat k' t \<in> {RT_THREAD_READY, RT_THREAD_RUNNING}"
proof -
  obtain c where c: "rt_current_thread k = Some c" using k(2) by blast
  obtain k' d where k': "ipc_wake h k = Some k'" "kready k'" "kframe k k'" "rt_current_thread k' = Some d"
    "tlists k' h = tl (tlists k h)"
    "\<And>t ts. tlists k h = t # ts \<Longrightarrow> tstat k' t \<in> {RT_THREAD_READY, RT_THREAD_RUNNING}"
    "\<And>q. rt_object_get_type q k' = rt_object_get_type q k"
    using ipc_wake_total [OF k(1) c h] by blast
  have "\<forall>t \<in> set (take 1 (tlists k h)). tstat k' t \<in> {RT_THREAD_READY, RT_THREAD_RUNNING}"
    using k'(6) by (cases "tlists k h") auto
  then show thesis using that [OF k'(1,2) _ _ k'(7,5)] k'(4) kframe_sel(5) [OF k'(3)] by simp
qed

lemma mq_send_begin_spec:
  assumes inv: "mq_inv n (k, S, R)"
    and legal: "msg_queue_free (msgqueues k n) = None \<Longrightarrow> th = Some c \<and> may_wait c (Msgqueue n) timeout k"
  obtains (grabbed) i k' where "mq_send_begin th n timeout k = Some (Inl i, k')"
      "msg_queue_free (msgqueues k n) = Some i" "mq_inv n (k', i # S, R)"
      "mq_msgs (msgqueues k' n) = mq_msgs (msgqueues k n)" "max_msgs (msgqueues k' n) = max_msgs (msgqueues k n)"
      "msg_size (msgqueues k' n) = msg_size (msgqueues k n)" "mq_data (msgqueues k' n) = mq_data (msgqueues k n)"
      "tlists k' = tlists k"
  | (full) k' where "mq_send_begin th n timeout k = Some (Inr (Return (- RT_EFULL)), k')"
      "msg_queue_free (msgqueues k n) = None" "timeout = 0" "mq_inv n (k', S, R)" "msgqueues k' = msgqueues k"
  | (wait) k' where "mq_send_begin th n timeout k = Some (Inr Block, k')"
      "msg_queue_free (msgqueues k n) = None" "timeout \<noteq> 0" "mq_inv n (k', S, R)" "msgqueues k' = msgqueues k"
      "tstat k' c = RT_THREAD_SUSPEND" "c \<in> set (tlists k' (Sender (Msgqueue n)))"
proof (cases "msg_queue_free (msgqueues k n)")
  case (Some i)
  have "mq_ok (msgqueues k n) S R" using inv by (simp add: mq_inv_def)
  note g = mq_grab_ok [OF this Some]
  let ?k' = "upd_mq n (\<lambda>m. m\<lparr>msg_queue_free := mq_next m i\<rparr>) k"
  have "mq_send_begin th n timeout k = Some (Inl i, ?k')" using Some by (simp add: mq_send_begin_def)
  then show thesis using grabbed [of i ?k'] Some g inv by (simp add: mq_inv_def)
next
  case None
  note l = legal [OF None]
  let ?k1 = "upd_thread c (\<lambda>r. r\<lparr>thread_error := RT_EOK\<rparr>) k"
  have ty: "rt_object_get_type q ?k1 = rt_object_get_type q k" for q by (simp add: rt_object_get_type_def)
  show thesis
  proof (cases "timeout = 0")
    case True
    then have "mq_send_begin th n timeout k = Some (Inr (Return (- RT_EFULL)), ?k1)"
      using None l by (simp add: mq_send_begin_def)
    then show thesis using full [of ?k1] True None inv ty by (simp add: mq_inv_def)
  next
    case False
    have rdy: "kready k" and may: "may_wait c (Msgqueue n) timeout k" using inv l by (auto simp: mq_inv_def)
    obtain k' d where b: "ipc_block (Sender (Msgqueue n)) c (ipc_flag k (Msgqueue n)) timeout ?k1 = Some k'"
      "kready k'" "rt_current_thread k' = Some d" "tstat k' c = RT_THREAD_SUSPEND"
      "c \<in> set (tlists k' (Sender (Msgqueue n)))" "msgqueues k' = msgqueues k"
      "\<And>q. rt_object_get_type q k' = rt_object_get_type q k"
      using ipc_wait_total [OF rdy may disjI2 [OF refl]] by metis
    have "mq_send_begin th n timeout k = Some (Inr Block, k')"
      using False None l b(1) by (simp add: mq_send_begin_def)
    then show thesis using wait [of k'] None False b inv by (simp add: mq_inv_def)
  qed
qed

lemma mq_recv_begin_spec:
  assumes inv: "mq_inv n (k, S, R)"
    and legal: "mq_entry (msgqueues k n) = 0 \<Longrightarrow> th = Some c \<and> may_wait c (Msgqueue n) timeout k"
  obtains (taken) i k' where "mq_recv_begin th n timeout k = Some (Inl i, k')"
      "mq_inv n (k', S, (i, mq_data (msgqueues k n) i) # R)"
      "mq_msgs (msgqueues k n) = mq_data (msgqueues k n) i # mq_msgs (msgqueues k' n)"
      "max_msgs (msgqueues k' n) = max_msgs (msgqueues k n)"
      "msg_size (msgqueues k' n) = msg_size (msgqueues k n)" "tlists k' = tlists k"
  | (empty) k' where "mq_recv_begin th n timeout k = Some (Inr (Return (- RT_ETIMEOUT, None)), k')"
      "mq_entry (msgqueues k n) = 0" "timeout = 0" "mq_inv n (k', S, R)" "msgqueues k' = msgqueues k"
  | (wait) k' where "mq_recv_begin th n timeout k = Some (Inr Block, k')"
      "mq_entry (msgqueues k n) = 0" "timeout \<noteq> 0" "mq_inv n (k', S, R)" "msgqueues k' = msgqueues k"
      "tstat k' c = RT_THREAD_SUSPEND" "c \<in> set (tlists k' (Suspend (Msgqueue n)))"
proof (cases "mq_entry (msgqueues k n) = 0")
  case False
  have ok: "mq_ok (msgqueues k n) S R" using inv by (simp add: mq_inv_def)
  obtain i where i: "msg_queue_head (msgqueues k n) = Some i"
    "mq_ok ((mq_unlink_head i (msgqueues k n))\<lparr>mq_entry := mq_entry (msgqueues k n) - 1\<rparr>) S
       ((i, mq_data (msgqueues k n) i) # R)"
    "mq_msgs (msgqueues k n) = mq_data (msgqueues k n) i #
       mq_msgs ((mq_unlink_head i (msgqueues k n))\<lparr>mq_entry := mq_entry (msgqueues k n) - 1\<rparr>)"
    by (rule mq_unlink_ok [OF ok False]) blast
  have pos: "0 < mq_entry (msgqueues k n)" using False word_zero_cases by blast
  let ?k' = "upd_mq n (\<lambda>m. (mq_unlink_head i m)\<lparr>mq_entry :=
    (if mq_entry m > 0 then mq_entry m - 1 else mq_entry m)\<rparr>) k"
  have "mq_recv_begin th n timeout k = Some (Inl i, ?k')" using False i(1) by (simp add: mq_recv_begin_def)
  then show thesis using taken [of i ?k'] pos i inv by (simp add: mq_inv_def mq_unlink_head_def)
next
  case True
  note l = legal [OF True]
  let ?k1 = "upd_thread c (\<lambda>r. r\<lparr>thread_error := RT_EOK\<rparr>) k"
  let ?k2 = "upd_thread c (\<lambda>r. r\<lparr>thread_error := - RT_ETIMEOUT\<rparr>) ?k1"
  have ty: "rt_object_get_type q ?k2 = rt_object_get_type q k" for q by (simp add: rt_object_get_type_def)
  show thesis
  proof (cases "timeout = 0")
    case t0: True
    then have "mq_recv_begin th n timeout k = Some (Inr (Return (- RT_ETIMEOUT, None)), ?k2)"
      using True l by (simp add: mq_recv_begin_def)
    then show thesis using empty [of ?k2] True t0 inv ty by (simp add: mq_inv_def)
  next
    case False
    have rdy: "kready k" and may: "may_wait c (Msgqueue n) timeout k" using inv l by (auto simp: mq_inv_def)
    obtain k' d where b: "ipc_block (Suspend (Msgqueue n)) c (ipc_flag k (Msgqueue n)) timeout ?k1 = Some k'"
      "kready k'" "rt_current_thread k' = Some d" "tstat k' c = RT_THREAD_SUSPEND"
      "c \<in> set (tlists k' (Suspend (Msgqueue n)))" "msgqueues k' = msgqueues k"
      "\<And>q. rt_object_get_type q k' = rt_object_get_type q k"
      using ipc_wait_total [OF rdy may disjI1 [OF refl]] by metis
    have "mq_recv_begin th n timeout k = Some (Inr Block, k')"
      using False True l b(1) by (simp add: mq_recv_begin_def)
    then show thesis using wait [of k'] True False b inv by (simp add: mq_inv_def)
  qed
qed

lemma mq_count_wake_spec:
  assumes k: "kready k" "rt_current_thread k \<noteq> None"
    "rt_object_get_type (Obj_ipc (Msgqueue n)) k = RT_Object_Class_MessageQueue"
    and m: "mq_entry (msgqueues k n) < 0xFFFF"
      "mq_ok ((msgqueues k n)\<lparr>mq_entry := mq_entry (msgqueues k n) + 1\<rparr>) S R"
  obtains k' where "mq_count_wake n k = Some (RT_EOK, k')" "mq_inv n (k', S, R)"
    "msgqueues k' n = (msgqueues k n)\<lparr>mq_entry := mq_entry (msgqueues k n) + 1\<rparr>"
    "tlists k' (Suspend (Msgqueue n)) = tl (tlists k (Suspend (Msgqueue n)))"
    "\<forall>t \<in> set (take 1 (tlists k (Suspend (Msgqueue n)))). tstat k' t \<in> {RT_THREAD_READY, RT_THREAD_RUNNING}"
proof -
  let ?k1 = "upd_mq n (\<lambda>m. m\<lparr>mq_entry := mq_entry m + 1\<rparr>) k"
  have k1: "kready ?k1" "rt_current_thread ?k1 \<noteq> None" using k by simp_all
  obtain k' where k': "ipc_wake (Suspend (Msgqueue n)) ?k1 = Some k'" "kready k'" "rt_current_thread k' \<noteq> None"
    "msgqueues k' = msgqueues ?k1" "\<And>q. rt_object_get_type q k' = rt_object_get_type q ?k1"
    "tlists k' (Suspend (Msgqueue n)) = tl (tlists ?k1 (Suspend (Msgqueue n)))"
    "\<forall>t \<in> set (take 1 (tlists ?k1 (Suspend (Msgqueue n)))). tstat k' t \<in> {RT_THREAD_READY, RT_THREAD_RUNNING}"
    by (rule mq_wake [where n = n, OF k1 disjI1 [OF refl]]) blast
  show thesis
    by (rule that [of k']) (use k' k(3) m in \<open>simp_all add: mq_count_wake_def mq_inv_def\<close>)
qed

lemma mq_send_end_spec:
  assumes inv: "mq_inv n (k, S, R)" and i: "i \<in> set S" and len: "length buf \<le> unat (msg_size (msgqueues k n))"
  obtains k' where "mq_send_end n i buf k = Some (RT_EOK, k')" "mq_inv n (k', removeAll i S, R)"
    "mq_msgs (msgqueues k' n) = mq_msgs (msgqueues k n) @ [memcpy_at (mq_data (msgqueues k n) i) 0 buf]"
    "max_msgs (msgqueues k' n) = max_msgs (msgqueues k n)"
    "tlists k' (Suspend (Msgqueue n)) = tl (tlists k (Suspend (Msgqueue n)))"
    "\<forall>t \<in> set (take 1 (tlists k (Suspend (Msgqueue n)))). tstat k' t \<in> {RT_THREAD_READY, RT_THREAD_RUNNING}"
proof -
  have ok: "mq_ok (msgqueues k n) S R" using inv by (simp add: mq_inv_def)
  note s = mq_send_link_ok [OF ok i len refl]
  define k1 where "k1 = upd_mq n (\<lambda>m. mq_link_tail i (mq_fill i buf (m\<lparr>mq_next := (mq_next m)(i := None)\<rparr>))) k"
  have k1: "kready k1" "rt_current_thread k1 \<noteq> None"
    "rt_object_get_type (Obj_ipc (Msgqueue n)) k1 = RT_Object_Class_MessageQueue"
    "mq_entry (msgqueues k1 n) < 0xFFFF"
    "mq_ok ((msgqueues k1 n)\<lparr>mq_entry := mq_entry (msgqueues k1 n) + 1\<rparr>) (removeAll i S) R"
    using inv s by (simp_all add: k1_def mq_inv_def)
  obtain k' where k': "mq_count_wake n k1 = Some (RT_EOK, k')" "mq_inv n (k', removeAll i S, R)"
    "msgqueues k' n = (msgqueues k1 n)\<lparr>mq_entry := mq_entry (msgqueues k1 n) + 1\<rparr>"
    "tlists k' (Suspend (Msgqueue n)) = tl (tlists k1 (Suspend (Msgqueue n)))"
    "\<forall>t \<in> set (take 1 (tlists k1 (Suspend (Msgqueue n)))). tstat k' t \<in> {RT_THREAD_READY, RT_THREAD_RUNNING}"
    by (rule mq_count_wake_spec [OF k1])
  show thesis
    by (rule that [of k']) (use k' s in \<open>simp_all add: mq_send_end_def k1_def\<close>)
qed

lemma mq_urgent_end_spec:
  assumes inv: "mq_inv n (k, S, R)" and i: "i \<in> set S" and len: "length buf \<le> unat (msg_size (msgqueues k n))"
  obtains k' where "mq_urgent_end n i buf k = Some (RT_EOK, k')" "mq_inv n (k', removeAll i S, R)"
    "mq_msgs (msgqueues k' n) = memcpy_at (mq_data (msgqueues k n) i) 0 buf # mq_msgs (msgqueues k n)"
    "max_msgs (msgqueues k' n) = max_msgs (msgqueues k n)"
proof -
  have ok: "mq_ok (msgqueues k n) S R" using inv by (simp add: mq_inv_def)
  note s = mq_urgent_link_ok [OF ok i len refl]
  define k1 where "k1 = upd_mq n (\<lambda>m. mq_link_head i (mq_fill i buf m)) k"
  have k1: "kready k1" "rt_current_thread k1 \<noteq> None"
    "rt_object_get_type (Obj_ipc (Msgqueue n)) k1 = RT_Object_Class_MessageQueue"
    "mq_entry (msgqueues k1 n) < 0xFFFF"
    "mq_ok ((msgqueues k1 n)\<lparr>mq_entry := mq_entry (msgqueues k1 n) + 1\<rparr>) (removeAll i S) R"
    using inv s by (simp_all add: k1_def mq_inv_def)
  obtain k' where k': "mq_count_wake n k1 = Some (RT_EOK, k')" "mq_inv n (k', removeAll i S, R)"
    "msgqueues k' n = (msgqueues k1 n)\<lparr>mq_entry := mq_entry (msgqueues k1 n) + 1\<rparr>"
    by (rule mq_count_wake_spec [OF k1])
  show thesis
    by (rule that [of k']) (use k' s in \<open>simp_all add: mq_urgent_end_def k1_def\<close>)
qed

lemma mq_recv_end_spec:
  assumes inv: "mq_inv n (k, S, R)" and i: "(i, c) \<in> set R"
  obtains k' where "mq_recv_end n i sz k = Some (take (min (unat sz) (unat (msg_size (msgqueues k n)))) c, k')"
    "mq_inv n (k', S, filter (\<lambda>(j, _). j \<noteq> i) R)" "mq_msgs (msgqueues k' n) = mq_msgs (msgqueues k n)"
    "max_msgs (msgqueues k' n) = max_msgs (msgqueues k n)"
    "tlists k' (Sender (Msgqueue n)) = tl (tlists k (Sender (Msgqueue n)))"
    "\<forall>t \<in> set (take 1 (tlists k (Sender (Msgqueue n)))). tstat k' t \<in> {RT_THREAD_READY, RT_THREAD_RUNNING}"
proof -
  have ok: "mq_ok (msgqueues k n) S R" using inv by (simp add: mq_inv_def)
  note g = mq_give_back_ok [OF ok i]
  let ?k1 = "upd_mq n (mq_add_free i) k"
  have k1: "kready ?k1" "rt_current_thread ?k1 \<noteq> None" using inv by (simp_all add: mq_inv_def)
  obtain k' where k': "ipc_wake (Sender (Msgqueue n)) ?k1 = Some k'" "kready k'" "rt_current_thread k' \<noteq> None"
    "msgqueues k' = msgqueues ?k1" "\<And>q. rt_object_get_type q k' = rt_object_get_type q ?k1"
    "tlists k' (Sender (Msgqueue n)) = tl (tlists ?k1 (Sender (Msgqueue n)))"
    "\<forall>t \<in> set (take 1 (tlists ?k1 (Sender (Msgqueue n)))). tstat k' t \<in> {RT_THREAD_READY, RT_THREAD_RUNNING}"
    by (rule mq_wake [where n = n, OF k1 disjI2 [OF refl]]) blast
  have "max_msgs (mq_add_free i m) = max_msgs m" for m by (simp add: mq_add_free_def)
  then show thesis
    by (intro that [of k'])
      (use k' g inv in \<open>simp_all add: mq_recv_end_def mq_inv_def min_def Let_def\<close>)
qed

lemma rt_mq_control_spec:
  assumes inv: "mq_inv n (k, S, R)"
  obtains k' where "rt_mq_control n True k = Some (RT_EOK, k')" "mq_inv n (k', S, R)"
    "mq_msgs (msgqueues k' n) = []" "max_msgs (msgqueues k' n) = max_msgs (msgqueues k n)"
proof -
  have rdy: "kready k" and ok: "mq_ok (msgqueues k n) S R" using inv by (simp_all add: mq_inv_def)
  obtain k1 where k1: "ipc_list_resume_all (Suspend (Msgqueue n)) k = Some (RT_EOK, k1)" "kready k1"
    "rt_current_thread k1 = rt_current_thread k" "msgqueues k1 = msgqueues k"
    "\<And>q. rt_object_get_type q k1 = rt_object_get_type q k"
    using resume_all_total [OF rdy disjI1 [OF refl]] by metis
  obtain k2 where k2: "ipc_list_resume_all (Sender (Msgqueue n)) k1 = Some (RT_EOK, k2)" "kready k2"
    "rt_current_thread k2 = rt_current_thread k1" "msgqueues k2 = msgqueues k1"
    "\<And>q. rt_object_get_type q k2 = rt_object_get_type q k1"
    using resume_all_total [OF k1(2) disjI2 [OF refl]] by metis
  obtain m where m: "mq_drain (msgqueues k n) = Some m" "mq_ok (m\<lparr>mq_entry := 0\<rparr>) S R"
    "mq_msgs (m\<lparr>mq_entry := 0\<rparr>) = []" "max_msgs m = max_msgs (msgqueues k n)"
    by (rule mq_drain_ok [OF ok])
  let ?k3 = "upd_mq n (\<lambda>_. m\<lparr>mq_entry := 0\<rparr>) k2"
  have k3: "kready ?k3" "sched_inv ?k3" using k2(2) kready_upd_mq [of n _ k2] by (auto simp: kready_def)
  obtain c where cur: "rt_current_thread ?k3 = Some c" using inv k1(3) k2(3) by (auto simp: mq_inv_def)
  obtain k4 where k4: "rt_schedule ?k3 = Some k4"
    using rt_schedule_returns [OF k3(2) cur] k3(1) by (auto simp: kready_def)
  note sel = same_but_sched_sel [OF rt_schedule_same [OF k4]]
  have "rt_mq_control n True k = Some (RT_EOK, k4)"
    using k1(1) k2(1,4) k1(4) m(1) k4 inv by (simp add: rt_mq_control_def mq_inv_def)
  moreover have "msgqueues k4 n = m\<lparr>mq_entry := 0\<rparr>" using sel(12) by simp
  moreover have "rt_object_get_type q k4 = rt_object_get_type q k" for q
    using sel(6) k1(5) k2(5) by (simp add: rt_object_get_type_def)
  ultimately show thesis
    using that [of k4] kready_schedule [OF k4 k3(1) cur] sched_inv_rt_schedule(2) [OF k3(2) cur k4] m inv
    by (auto simp: mq_inv_def)
qed

section \<open>A message queue is a message channel\<close>

text \<open>The critical sections as steps. A send or urgent send is a \<open>begin\<close> with a slot followed later by
  its \<open>end\<close>; the message counts as sent at the end and as received at the \<open>begin\<close> of a receive. The
  first rule for each also covers a woken thread that goes on (\<open>th = Some c\<close>).\<close>

inductive mq_step :: "nat \<Rightarrow> mq_state \<Rightarrow> 8 word list chan_event \<Rightarrow> mq_state \<Rightarrow> bool" for n where
  qs_begin: "(msg_queue_free (msgqueues k n) = None \<Longrightarrow> th = Some c \<and> may_wait c (Msgqueue n) timeout k) \<Longrightarrow>
    mq_send_begin th n timeout k = Some (x, k') \<Longrightarrow>
    mq_step n (k, S, R) Silent (k', case x of Inl i \<Rightarrow> i # S | Inr _ \<Rightarrow> S, R)"
| qs_send: "i \<in> set S \<Longrightarrow> length buf \<le> unat (msg_size (msgqueues k n)) \<Longrightarrow>
    mq_send_end n i buf k = Some (e, k') \<Longrightarrow>
    mq_step n (k, S, R) (Sent (memcpy_at (mq_data (msgqueues k n) i) 0 buf)) (k', removeAll i S, R)"
| qs_urgent: "i \<in> set S \<Longrightarrow> length buf \<le> unat (msg_size (msgqueues k n)) \<Longrightarrow>
    mq_urgent_end n i buf k = Some (e, k') \<Longrightarrow>
    mq_step n (k, S, R) (Urgent (memcpy_at (mq_data (msgqueues k n) i) 0 buf)) (k', removeAll i S, R)"
| qs_take: "(mq_entry (msgqueues k n) = 0 \<Longrightarrow> th = Some c \<and> may_wait c (Msgqueue n) timeout k) \<Longrightarrow>
    mq_recv_begin th n timeout k = Some (Inl i, k') \<Longrightarrow>
    mq_step n (k, S, R) (Received (mq_data (msgqueues k n) i)) (k', S, (i, mq_data (msgqueues k n) i) # R)"
| qs_empty: "(mq_entry (msgqueues k n) = 0 \<Longrightarrow> th = Some c \<and> may_wait c (Msgqueue n) timeout k) \<Longrightarrow>
    mq_recv_begin th n timeout k = Some (Inr r, k') \<Longrightarrow> mq_step n (k, S, R) Silent (k', S, R)"
| qs_recv: "(i, c) \<in> set R \<Longrightarrow> mq_recv_end n i sz k = Some (bs, k') \<Longrightarrow>
    mq_step n (k, S, R) Silent (k', S, filter (\<lambda>(j, _). j \<noteq> i) R)"
| qs_reset: "rt_mq_control n True k = Some (e, k') \<Longrightarrow> mq_step n (k, S, R) Cleared (k', S, R)"
| qs_other: "mq_inv n (k', S, R) \<Longrightarrow> msgqueues k' n = msgqueues k n \<Longrightarrow> mq_step n (k, S, R) Silent (k', S, R)"

definition mq_chan_ok :: "nat \<Rightarrow> mq_state \<Rightarrow> 8 word list chan_event \<Rightarrow> mq_state \<Rightarrow> bool" where
  "mq_chan_ok n s e s' \<longleftrightarrow> mq_inv n s' \<and>
     max_msgs (msgqueues (fst s') n) = max_msgs (msgqueues (fst s) n) \<and>
     chan_update e (mq_msgs (msgqueues (fst s) n)) = Some (mq_msgs (msgqueues (fst s') n))"

lemma mq_step_chan_ok:
  assumes "mq_step n s e s'" and "mq_inv n s"
  shows "mq_chan_ok n s e s'"
  using assms
proof (induction rule: mq_step.induct)
  case (qs_begin k th c timeout x k' S R)
  show ?case
    by (rule mq_send_begin_spec [OF qs_begin.prems qs_begin.hyps(1)])
      (use qs_begin.hyps(2) in \<open>auto simp: mq_chan_ok_def\<close>)
next
  case (qs_send i S buf k e k' R)
  show ?case
    by (rule mq_send_end_spec [OF qs_send.prems qs_send.hyps(1,2)])
      (use qs_send.hyps(3) in \<open>simp add: mq_chan_ok_def\<close>)
next
  case (qs_urgent i S buf k e k' R)
  show ?case
    by (rule mq_urgent_end_spec [OF qs_urgent.prems qs_urgent.hyps(1,2)])
      (use qs_urgent.hyps(3) in \<open>simp add: mq_chan_ok_def\<close>)
next
  case (qs_take k th c timeout i k' S R)
  show ?case
    by (rule mq_recv_begin_spec [OF qs_take.prems qs_take.hyps(1)])
      (use qs_take.hyps(2) in \<open>auto simp: mq_chan_ok_def\<close>)
next
  case (qs_empty k th c timeout r k' S R)
  show ?case
    by (rule mq_recv_begin_spec [OF qs_empty.prems qs_empty.hyps(1)])
      (use qs_empty.hyps(2) in \<open>auto simp: mq_chan_ok_def\<close>)
next
  case (qs_recv i c R sz k bs k' S)
  show ?case
    by (rule mq_recv_end_spec [OF qs_recv.prems qs_recv.hyps(1), where sz = sz])
      (use qs_recv.hyps(2) in \<open>simp add: mq_chan_ok_def\<close>)
next
  case (qs_reset k e k' S R)
  show ?case
    by (rule rt_mq_control_spec [OF qs_reset.prems]) (use qs_reset.hyps in \<open>simp add: mq_chan_ok_def\<close>)
next
  case (qs_other k' S R k)
  then show ?case by (simp add: mq_chan_ok_def)
qed

interpretation mq: message_channel "mq_step n" "\<lambda>s. mq_msgs (msgqueues (fst s) n)" "mq_inv n"
  "\<lambda>s. unat (max_msgs (msgqueues (fst s) n))" for n
proof
  show "length (mq_msgs (msgqueues (fst s) n)) \<le> unat (max_msgs (msgqueues (fst s) n))" if "mq_inv n s" for s
    using that mq_ok_bound by (auto simp: mq_inv_def split: prod.splits)
qed (auto dest: mq_step_chan_ok simp: mq_chan_ok_def)

section \<open>Uninterrupted calls\<close>

lemma mq_full_iff:
  assumes "mq_ok m [] []"
  shows "msg_queue_free m = None \<longleftrightarrow> length (mq_msgs m) = unat (max_msgs m)" "mq_entry m = 0 \<longleftrightarrow> mq_msgs m = []"
proof -
  obtain qs fs where q: "mq_lists m qs fs []" "unat (mq_entry m) = length qs" "mq_msgs m = map (mq_data m) qs"
    using assms by (auto elim: mq_okE)
  have "msg_queue_free m = None \<longleftrightarrow> fs = []" using q(1) by (cases fs) (auto simp: mq_lists_def)
  then show "msg_queue_free m = None \<longleftrightarrow> length (mq_msgs m) = unat (max_msgs m)"
    using mq_lists_length [OF q(1)] q(3) by auto
  show "mq_entry m = 0 \<longleftrightarrow> mq_msgs m = []" using q(2,3) by (auto simp: unat_eq_0)
qed

lemma rt_mq_send_wait_total:
  assumes inv: "mq_inv n (k, [], [])" and legal: "chan_legal c (Msgqueue n) timeout k" and buf: "buf \<noteq> []"
  shows "\<exists>r k'. rt_mq_send_wait n buf timeout k = Some (r, k') \<and> mq_inv n (k', [], []) \<and>
    (if length buf > unat (msg_size (msgqueues k n)) then r = Return (- RT_ERROR) \<and> k' = k
     else if length (mq_msgs (msgqueues k n)) < unat (max_msgs (msgqueues k n)) then
       r = Return RT_EOK \<and>
       (\<exists>old. length old = unat (msg_size (msgqueues k n)) - length buf \<and>
          mq_msgs (msgqueues k' n) = mq_msgs (msgqueues k n) @ [buf @ old]) \<and>
       tlists k' (Suspend (Msgqueue n)) = tl (tlists k (Suspend (Msgqueue n))) \<and>
       (\<forall>t \<in> set (take 1 (tlists k (Suspend (Msgqueue n)))). tstat k' t \<in> {RT_THREAD_READY, RT_THREAD_RUNNING})
     else msgqueues k' = msgqueues k \<and>
       (if timeout = 0 then r = Return (- RT_EFULL)
        else r = Block \<and> tstat k' c = RT_THREAD_SUSPEND \<and> c \<in> set (tlists k' (Sender (Msgqueue n)))))"
proof -
  let ?m = "msgqueues k n"
  have ok: "mq_ok ?m [] []" and ty: "rt_object_get_type (Obj_ipc (Msgqueue n)) k = RT_Object_Class_MessageQueue"
    using inv by (simp_all add: mq_inv_def)
  have free: "length (mq_msgs ?m) < unat (max_msgs ?m) \<longleftrightarrow> msg_queue_free ?m \<noteq> None"
    using mq_full_iff(1) [OF ok] mq_ok_bound [OF ok] by auto
  have av: "RT_DEBUG_SCHEDULER_AVAILABLE (timeout \<noteq> 0) k = Some ()"
    using chan_legal_attempt(2) [OF legal, of False] by simp
  consider (big) "length buf > unat (msg_size ?m)"
    | (full) "length buf \<le> unat (msg_size ?m)" "msg_queue_free ?m = None" "timeout = 0"
    | (run) "length buf \<le> unat (msg_size ?m)" "\<not> (msg_queue_free ?m = None \<and> timeout = 0)"
    by linarith
  then show ?thesis
  proof cases
    case big
    then show ?thesis using inv ty av buf by (simp add: rt_mq_send_wait_def)
  next
    case full
    then show ?thesis using inv ty av buf free by (simp add: rt_mq_send_wait_def)
  next
    case run
    note l = chan_legal_attempt(1) [OF legal run(2)]
    have eq: "rt_mq_send_wait n buf timeout k = mq_send_run (rt_thread_self k) n buf timeout k"
      using run ty av buf by (auto simp: rt_mq_send_wait_def)
    show ?thesis
    proof (rule mq_send_begin_spec [OF inv l])
      fix i k1 assume g: "mq_send_begin (rt_thread_self k) n timeout k = Some (Inl i, k1)"
        "msg_queue_free ?m = Some i" "mq_inv n (k1, [i], [])" "mq_msgs (msgqueues k1 n) = mq_msgs ?m"
        "max_msgs (msgqueues k1 n) = max_msgs ?m" "msg_size (msgqueues k1 n) = msg_size ?m"
        "mq_data (msgqueues k1 n) = mq_data ?m" "tlists k1 = tlists k"
      have len: "length (mq_data ?m i) = unat (msg_size ?m)"
        using g(3,5,6,7) by (auto simp: mq_inv_def elim!: mq_okE dest: mq_lists_slot)
      have sz: "length buf \<le> unat (msg_size (msgqueues k1 n))" using run(1) g(6) by simp
      show ?thesis
      proof (rule mq_send_end_spec [OF g(3) _ sz, of i])
        fix k2 assume e: "mq_send_end n i buf k1 = Some (RT_EOK, k2)" "mq_inv n (k2, removeAll i [i], [])"
          "mq_msgs (msgqueues k2 n) = mq_msgs (msgqueues k1 n) @ [memcpy_at (mq_data (msgqueues k1 n) i) 0 buf]"
          "tlists k2 (Suspend (Msgqueue n)) = tl (tlists k1 (Suspend (Msgqueue n)))"
          "\<forall>t \<in> set (take 1 (tlists k1 (Suspend (Msgqueue n)))). tstat k2 t \<in> {RT_THREAD_READY, RT_THREAD_RUNNING}"
        have "mq_send_run (rt_thread_self k) n buf timeout k = Some (Return RT_EOK, k2)"
          using g(1) e(1) by (simp add: mq_send_run_def)
        moreover have "mq_msgs (msgqueues k2 n) = mq_msgs ?m @ [buf @ drop (length buf) (mq_data ?m i)]"
          using e(3) g(4,7) by (simp add: memcpy_at_def)
        ultimately show ?thesis
          using e(2,4,5) g(2,8) free run(1) len unfolding eq by (intro exI [of _ "Return RT_EOK"] exI [of _ k2]) auto
      qed simp
    qed (use run free in \<open>auto simp: eq mq_send_run_def\<close>)
  qed
qed

lemma rt_mq_recv_total:
  assumes inv: "mq_inv n (k, [], [])" and legal: "chan_legal c (Msgqueue n) timeout k" and sz: "sz \<noteq> 0"
  shows "\<exists>r k'. rt_mq_recv n sz timeout k = Some (r, k') \<and> mq_inv n (k', [], []) \<and>
    (case mq_msgs (msgqueues k n) of
       c # cs \<Rightarrow> r = Return (RT_EOK, Some (take (min (unat sz) (unat (msg_size (msgqueues k n)))) c)) \<and>
         mq_msgs (msgqueues k' n) = cs \<and>
         tlists k' (Sender (Msgqueue n)) = tl (tlists k (Sender (Msgqueue n))) \<and>
         (\<forall>t \<in> set (take 1 (tlists k (Sender (Msgqueue n)))). tstat k' t \<in> {RT_THREAD_READY, RT_THREAD_RUNNING})
     | [] \<Rightarrow> msgqueues k' = msgqueues k \<and>
         (if timeout = 0 then r = Return (- RT_ETIMEOUT, None)
          else r = Block \<and> tstat k' c = RT_THREAD_SUSPEND \<and> c \<in> set (tlists k' (Suspend (Msgqueue n)))))"
proof -
  let ?m = "msgqueues k n"
  have ok: "mq_ok ?m [] []" and ty: "rt_object_get_type (Obj_ipc (Msgqueue n)) k = RT_Object_Class_MessageQueue"
    using inv by (simp_all add: mq_inv_def)
  note em = mq_full_iff(2) [OF ok]
  have av: "RT_DEBUG_SCHEDULER_AVAILABLE (timeout \<noteq> 0) k = Some ()"
    using chan_legal_attempt(2) [OF legal, of False] by simp
  show ?thesis
  proof (cases "mq_entry ?m = 0 \<and> timeout = 0")
    case True
    then show ?thesis using inv ty av sz em by (simp add: rt_mq_recv_def)
  next
    case False
    note l = chan_legal_attempt(1) [OF legal False]
    have eq: "rt_mq_recv n sz timeout k = mq_recv_run (rt_thread_self k) n sz timeout k"
      using False ty av sz by (auto simp: rt_mq_recv_def)
    show ?thesis
    proof (rule mq_recv_begin_spec [OF inv l])
      fix i k1 assume g: "mq_recv_begin (rt_thread_self k) n timeout k = Some (Inl i, k1)"
        "mq_inv n (k1, [], [(i, mq_data ?m i)])" "mq_msgs ?m = mq_data ?m i # mq_msgs (msgqueues k1 n)"
        "msg_size (msgqueues k1 n) = msg_size ?m" "tlists k1 = tlists k"
      show ?thesis
      proof (rule mq_recv_end_spec [OF g(2), of i "mq_data ?m i" sz])
        fix k2 assume e: "mq_recv_end n i sz k1 =
            Some (take (min (unat sz) (unat (msg_size (msgqueues k1 n)))) (mq_data ?m i), k2)"
          "mq_inv n (k2, [], filter (\<lambda>(j, _). j \<noteq> i) [(i, mq_data ?m i)])"
          "mq_msgs (msgqueues k2 n) = mq_msgs (msgqueues k1 n)"
          "tlists k2 (Sender (Msgqueue n)) = tl (tlists k1 (Sender (Msgqueue n)))"
          "\<forall>t \<in> set (take 1 (tlists k1 (Sender (Msgqueue n)))). tstat k2 t \<in> {RT_THREAD_READY, RT_THREAD_RUNNING}"
        show ?thesis using g e by (simp add: eq mq_recv_run_def)
      qed simp
    qed (use False em in \<open>auto simp: eq mq_recv_run_def\<close>)
  qed
qed

section \<open>Properties\<close>

text \<open>The example state with message queue 0: two messages of four bytes.\<close>

definition mq_demo :: kernel where
  "mq_demo = upd_mq 0 (\<lambda>_. mq_pool_init \<lparr>mq_next = (\<lambda>_. None), mq_data = (\<lambda>_. [0, 0, 0, 0]), msg_size = 4,
     max_msgs = 2, mq_entry = 0, msg_queue_head = None, msg_queue_tail = None, msg_queue_free = None\<rparr>)
     three_threads"

lemma mq_pool_init_sel:
  "mq_data (mq_pool_init m) = mq_data m" "msg_size (mq_pool_init m) = msg_size m"
  "max_msgs (mq_pool_init m) = max_msgs m" "mq_entry (mq_pool_init m) = 0"
proof -
  have "mq_data (fold mq_add_free is m) = mq_data m \<and> msg_size (fold mq_add_free is m) = msg_size m \<and>
      max_msgs (fold mq_add_free is m) = max_msgs m" for "is" m
    by (induction "is" arbitrary: m) (auto simp: mq_add_free_def)
  then show "mq_data (mq_pool_init m) = mq_data m" "msg_size (mq_pool_init m) = msg_size m"
    "max_msgs (mq_pool_init m) = max_msgs m" "mq_entry (mq_pool_init m) = 0"
    by (simp_all add: mq_pool_init_def)
qed

lemma mq_pool_init_ok:
  assumes "\<And>i. i < unat (max_msgs m) \<Longrightarrow> length (mq_data m i) = unat (msg_size m)"
  shows "mq_ok (mq_pool_init m) [] []" "mq_msgs (mq_pool_init m) = []"
  using mq_okI [of "mq_pool_init m" "[]" "rev [0..<unat (max_msgs m)]" "[]" "[]"] mq_pool_init_lists [of m] assms
  by (simp_all add: mq_pool_init_sel)

lemma mq_demo_ok: "mq_inv 0 (mq_demo, [], [])" "mq_msgs (msgqueues mq_demo 0) = []"
  "msg_size (msgqueues mq_demo 0) = 4" "max_msgs (msgqueues mq_demo 0) = 2" "chan_legal c r 0 k"
  using kready_three_threads three_threads_types(6) [of 0]
  by (simp_all add: mq_demo_def mq_inv_def mq_pool_init_sel mq_pool_init_ok chan_legal_def)

lemma mq_msgs_size:
  assumes "mq_ok m S R" "c \<in> set (mq_msgs m)" shows "length c = unat (msg_size m)"
proof -
  obtain qs fs where q: "mq_lists m qs fs (S @ map fst R)" "mq_msgs m = map (mq_data m) qs"
    "\<And>i. i < unat (max_msgs m) \<Longrightarrow> length (mq_data m i) = unat (msg_size m)" by (rule mq_okE [OF assms(1)]) blast
  have "set qs \<subseteq> {..<unat (max_msgs m)}" using q(1) by (auto simp: mq_lists_def)
  then show ?thesis using assms(2) q(2,3) by auto
qed

text \<open>The two sections of a send.\<close>

lemma mq_demo_trace:
  "\<exists>old k'. trace (mq_step 0) (mq_demo, [], []) [Silent, Sent ([7, 8] @ old)] (k', [], [])"
proof -
  have free: "msg_queue_free (msgqueues mq_demo 0) \<noteq> None"
    using mq_full_iff(1) [of "msgqueues mq_demo 0"] mq_demo_ok(1,2,4) by (simp add: mq_inv_def)
  then have no_wait: "msg_queue_free (msgqueues mq_demo 0) = None \<Longrightarrow>
    None = Some 0 \<and> may_wait 0 (Msgqueue 0) 0 mq_demo" by simp
  show ?thesis
  proof (rule mq_send_begin_spec [OF mq_demo_ok(1) no_wait])
    fix i k1 assume g: "mq_send_begin None 0 0 mq_demo = Some (Inl i, k1)" "mq_inv 0 (k1, [i], [])"
      "msg_size (msgqueues k1 0) = msg_size (msgqueues mq_demo 0)"
    have s1: "mq_step 0 (mq_demo, [], []) Silent (k1, [i], [])"
      using qs_begin [OF no_wait g(1), of "[]" "[]"] by simp
    have len: "length [7, 8 :: 8 word] \<le> unat (msg_size (msgqueues k1 0))" using g(3) mq_demo_ok(3) by simp
    show ?thesis
    proof (rule mq_send_end_spec [OF g(2) _ len, of i])
      fix k2 assume "mq_send_end 0 i [7, 8] k1 = Some (RT_EOK, k2)"
      from qs_send [OF _ len this, of "[i]" "[]"] have
        "mq_step 0 (k1, [i], []) (Sent ([7, 8] @ drop (Suc (Suc 0)) (mq_data (msgqueues k1 0) i))) (k2, [], [])"
        by (simp add: memcpy_at_def)
      with s1 show ?thesis by (blast intro: trace_Cons trace_Nil)
    qed simp
  qed (use free in auto)
qed

text \<open>C9: Order of a message queue under any interleaving of the critical sections of sends and receives
  with each other and with any other activity: without urgent messages and resets, the messages
  taken by receivers followed by the queue are the initial queue followed by the messages linked by
  senders, and the queue never exceeds its capacity.\<close>

theorem mq_fifo:
  assumes "trace (mq_step n) (k, S, R) es (k', S', R')" and "mq_inv n (k, S, R)"
    and "chan_urgent es = []" and "Cleared \<notin> set es"
  shows "chan_received es @ mq_msgs (msgqueues k' n) = mq_msgs (msgqueues k n) @ chan_sent es \<and>
    length (mq_msgs (msgqueues k' n)) \<le> unat (max_msgs (msgqueues k n))"
  using mq.fifo [OF assms] mq.trace_bounded [OF assms(1,2)] by simp

theorem mq_fifo_witness:
  "\<exists>old k'. trace (mq_step 0) (mq_demo, [], []) [Silent, Sent ([7, 8] @ old)] (k', [], []) \<and>
     mq_msgs (msgqueues k' 0) = [[7, 8] @ old]"
proof -
  obtain old k' where tr: "trace (mq_step 0) (mq_demo, [], []) [Silent, Sent ([7, 8] @ old)] (k', [], [])"
    using mq_demo_trace by blast
  from mq_fifo [OF tr mq_demo_ok(1)] tr mq_demo_ok(2) show ?thesis by auto
qed

text \<open>C32: Slots are neither lost nor shared. In every state reached from a consistent one by any
  interleaving, resets and urgent messages included, each of the \<^verbatim>\<open>max_msgs\<close> slots is in exactly one
  place: the queue, the free list, or the hands of one send or receive between its critical
  sections; and a receiver's slot still holds the message it took.\<close>

theorem mq_slots_partition:
  assumes "trace (mq_step n) (k, S, R) es (k', S', R')" and "mq_inv n (k, S, R)"
  shows "\<exists>qs fs. chain (mq_next (msgqueues k' n)) (msg_queue_head (msgqueues k' n)) qs \<and>
    chain (mq_next (msgqueues k' n)) (msg_queue_free (msgqueues k' n)) fs \<and>
    distinct (qs @ fs @ S' @ map fst R') \<and>
    set (qs @ fs @ S' @ map fst R') = {..<unat (max_msgs (msgqueues k n))} \<and>
    (\<forall>(i, c) \<in> set R'. mq_data (msgqueues k' n) i = c)"
proof -
  have "mq_inv n (k', S', R')" "max_msgs (msgqueues k' n) = max_msgs (msgqueues k n)"
    using mq.trace_inv [OF assms] by (simp_all add: word_unat_eq_iff)
  then show ?thesis by (auto simp: mq_inv_def mq_ok_def mq_lists_def)
qed

theorem mq_slots_partition_witness:
  "\<exists>(k' :: kernel) qs fs. chain (mq_next (msgqueues k' 0)) (msg_queue_head (msgqueues k' 0)) qs \<and>
     chain (mq_next (msgqueues k' 0)) (msg_queue_free (msgqueues k' 0)) fs \<and> distinct (qs @ fs) \<and>
     set (qs @ fs) = {..<2}"
proof -
  obtain old k' where tr: "trace (mq_step 0) (mq_demo, [], []) [Silent, Sent ([7, 8] @ old)] (k', [], [])"
    using mq_demo_trace by blast
  from mq_slots_partition [OF tr mq_demo_ok(1)] show ?thesis
    by (intro exI [of _ k']) (simp add: mq_demo_ok(4))
qed

text \<open>Results of an uninterrupted \<^verbatim>\<open>rt_mq_send_wait\<close>. A message longer than the message size is
  refused with \<^verbatim>\<open>RT_ERROR\<close>; with room, the message is appended (the rest of the slot keeps old bytes),
  the call returns \<^verbatim>\<open>RT_EOK\<close> and the first waiting receiver becomes runnable; a full queue stays as it
  is and the call returns \<^verbatim>\<open>RT_EFULL\<close> without a timeout and blocks otherwise.\<close>

theorem rt_mq_send_wait_result:
  assumes "mq_inv n (k, [], [])" and "chan_legal c (Msgqueue n) timeout k" and "buf \<noteq> []"
  shows "\<exists>r k'. rt_mq_send_wait n buf timeout k = Some (r, k') \<and> mq_inv n (k', [], []) \<and>
    (if length buf > unat (msg_size (msgqueues k n)) then r = Return (- RT_ERROR) \<and> k' = k
     else if length (mq_msgs (msgqueues k n)) < unat (max_msgs (msgqueues k n)) then
       r = Return RT_EOK \<and>
       (\<exists>old. length old = unat (msg_size (msgqueues k n)) - length buf \<and>
          mq_msgs (msgqueues k' n) = mq_msgs (msgqueues k n) @ [buf @ old]) \<and>
       tlists k' (Suspend (Msgqueue n)) = tl (tlists k (Suspend (Msgqueue n))) \<and>
       (\<forall>t \<in> set (take 1 (tlists k (Suspend (Msgqueue n)))). tstat k' t \<in> {RT_THREAD_READY, RT_THREAD_RUNNING})
     else msgqueues k' = msgqueues k \<and>
       (if timeout = 0 then r = Return (- RT_EFULL)
        else r = Block \<and> tstat k' c = RT_THREAD_SUSPEND \<and> c \<in> set (tlists k' (Sender (Msgqueue n)))))"
  by (rule rt_mq_send_wait_total [OF assms])

theorem rt_mq_send_wait_result_witness:
  "\<exists>k'. rt_mq_send_wait 0 [1, 2] 0 mq_demo = Some (Return RT_EOK, k') \<and> length (mq_msgs (msgqueues k' 0)) = 1"
  using rt_mq_send_wait_result [OF mq_demo_ok(1) mq_demo_ok(5), of "[1, 2]"] mq_demo_ok(2-4) by auto

text \<open>Round trip. A message sent to an empty queue of consistent state is returned, byte for byte,
  by a receive that asks for its length.\<close>

theorem rt_mq_send_recv_roundtrip:
  assumes "mq_inv n (k, [], [])" and "mq_msgs (msgqueues k n) = []" and "buf \<noteq> []"
    and "length buf \<le> unat (msg_size (msgqueues k n))" and "0 < max_msgs (msgqueues k n)"
    and "rt_mq_send n buf k = Some (r, k1)"
  shows "r = Return RT_EOK \<and>
    (\<exists>k2. rt_mq_recv n (of_nat (length buf)) 0 k1 = Some (Return (RT_EOK, Some buf), k2) \<and>
       mq_msgs (msgqueues k2 n) = [])"
proof -
  from rt_mq_send_wait_total [OF assms(1) mq_demo_ok(5) assms(3)] assms(2,4-6) obtain old where
    s: "r = Return RT_EOK" "mq_inv n (k1, [], [])" "mq_msgs (msgqueues k1 n) = [buf @ old]"
    by (auto simp: rt_mq_send_def word_less_nat_alt)
  have sz: "length buf \<le> unat (msg_size (msgqueues k1 n))"
    using mq_msgs_size [of "msgqueues k1 n" "[]" "[]" "buf @ old"] s(2,3) by (simp add: mq_inv_def)
  have len: "unat (of_nat (length buf) :: 32 word) = length buf"
    using assms(4) unat_16_bound [of "msg_size (msgqueues k n)"] by (simp add: unat_of_nat)
  then have "of_nat (length buf) \<noteq> (0 :: 32 word)" using assms(3) by (metis length_0_conv unat_0)
  from rt_mq_recv_total [OF s(2) mq_demo_ok(5) this] s(3) show ?thesis
    using s(1) len sz by auto
qed

theorem rt_mq_send_recv_roundtrip_witness:
  "\<exists>k1 k2. rt_mq_send 0 [7, 8, 9] mq_demo = Some (Return RT_EOK, k1) \<and>
     rt_mq_recv 0 3 0 k1 = Some (Return (RT_EOK, Some [7, 8, 9]), k2)"
proof -
  obtain r k1 where s: "rt_mq_send 0 [7, 8, 9] mq_demo = Some (r, k1)"
    using rt_mq_send_wait_total [OF mq_demo_ok(1) mq_demo_ok(5) [of 0], of "[7, 8, 9]"]
    unfolding rt_mq_send_def by blast
  from rt_mq_send_recv_roundtrip [OF mq_demo_ok(1,2) _ _ _ s] s show ?thesis using mq_demo_ok(3,4) by auto
qed

text \<open>The pool is never overrun. For a pool of \<open>poolsz\<close> bytes, \<^verbatim>\<open>rt_mq_init\<close> creates an empty queue
  whose slots (message and link) fit into the pool together, with a message size of at least the
  requested one if that is at most 65532.\<close>

theorem rt_mq_init_bounds:
  assumes "rt_mq_init n nm pool msgsz poolsz flag k = Some (e, k')"
    and "\<And>i. length (pool i) = unat (msg_size (msgqueues k' n))" and "unat msgsz \<le> 65532"
  shows "unat (max_msgs (msgqueues k' n)) * (unat (msg_size (msgqueues k' n)) + 4) \<le> unat poolsz \<and>
    unat msgsz \<le> unat (msg_size (msgqueues k' n)) \<and> mq_ok (msgqueues k' n) [] [] \<and>
    mq_msgs (msgqueues k' n) = []"
proof -
  let ?sz = "ucast (RT_ALIGN msgsz 4) :: 16 word"
  let ?q = "poolsz div (ucast ?sz + 4)"
  from assms(1) obtain m where m: "msgqueues k' n = mq_pool_init (m\<lparr>mq_data := pool, msg_size := ?sz,
      max_msgs := ucast ?q\<rparr>)"
    by (auto simp: rt_mq_init_def bind_eq_Some_conv Let_def sender_list_init_def)
  have sel: "msg_size (msgqueues k' n) = ?sz" "max_msgs (msgqueues k' n) = ucast ?q"
    by (simp_all add: m mq_pool_init_sel)
  have sz: "unat ?sz = unat (RT_ALIGN msgsz 4)"
    using RT_ALIGN_4_word [of msgsz] assms(3) by (simp add: unsigned_ucast_eq take_bit_eq_mod)
  have w: "unat (ucast ?sz + 4 :: 32 word) = unat ?sz + 4"
    using unat_16_bound [of ?sz] by (simp add: unat_word_ariths unsigned_ucast_eq take_bit_eq_mod)
  have "unat (ucast x :: 16 word) \<le> unat x" for x :: "32 word"
    by (simp add: unsigned_ucast_eq take_bit_eq_mod)
  moreover have "unat ?q = unat poolsz div (unat ?sz + 4)" by (simp only: unat_div w)
  ultimately have "unat (ucast ?q :: 16 word) \<le> unat poolsz div (unat ?sz + 4)" by metis
  then have "unat (ucast ?q :: 16 word) * (unat ?sz + 4) \<le> unat poolsz"
    by (meson div_times_less_eq_dividend le_trans mult_le_mono1)
  moreover have "unat msgsz \<le> unat ?sz" unfolding sz using RT_ALIGN_4_word [of msgsz] assms(3) by simp
  moreover have "mq_ok (msgqueues k' n) [] []" "mq_msgs (msgqueues k' n) = []"
    using mq_pool_init_ok [of "m\<lparr>mq_data := pool, msg_size := ?sz, max_msgs := ucast ?q\<rparr>"] assms(2) sel
    by (simp_all add: m)
  ultimately show ?thesis by (simp add: sel)
qed

theorem rt_mq_init_bounds_witness:
  "\<exists>e k'. rt_mq_init 0 ''q'' (\<lambda>_. replicate 8 0) 6 100 0 zero_kernel = Some (e, k') \<and>
     unat (max_msgs (msgqueues k' 0)) * (unat (msg_size (msgqueues k' 0)) + 4) \<le> 100 \<and>
     mq_msgs (msgqueues k' 0) = []"
proof -
  have info: "rt_object_get_information 6 = Some 6" by (simp add: get_information_iff object_container_def)
  obtain k1 where "rt_object_init (Obj_ipc (Msgqueue 0)) 6 ''q'' zero_kernel = Some k1"
    by (simp add: rt_object_init_def info Let_def rt_enter_critical_def rt_exit_critical_def)
  then obtain e k' where k': "rt_mq_init 0 ''q'' (\<lambda>_. replicate 8 0) 6 100 0 zero_kernel = Some (e, k')"
    by (simp add: rt_mq_init_def Let_def)
  have "msg_size (msgqueues k' 0) = 8"
    using k' by (auto simp: rt_mq_init_def bind_eq_Some_conv Let_def sender_list_init_def mq_pool_init_sel RT_ALIGN_def)
  then show ?thesis using rt_mq_init_bounds [OF k'] k' by auto
qed

end
