(* ===== verification/App.thy ===== *)
theory App
  imports Processing_Props Ipc_Sem Ipc_Mutex Ipc_Msgqueue
begin

text \<open>
  The application of \<^verbatim>\<open>applications/main.c\<close> on top of the kernel: what \<^verbatim>\<open>main\<close> creates, and one pass of
  the loop of each of its threads. A pass works on the kernel state, on the board state of theory
  \<open>Processing\<close> and on the static variables of the file. A pass that blocks on a kernel object gives
  \<^const>\<open>Block\<close>.
\<close>

abbreviation (input) RT_WAITING_FOREVER :: "32 word" where "RT_WAITING_FOREVER \<equiv> 0xFFFFFFFF"

section \<open>Haptic feedback\<close>

definition update_motor_pwm :: "int \<Rightarrow> int \<Rightarrow> app \<Rightarrow> app" where
  "update_motor_pwm motor_id duty_cycle a =
     (if motor_id < 0 \<or> motor_id \<ge> 5 then a
      else
        let duty1 = (if duty_cycle > 100 then 100 else duty_cycle);
            duty2 = (if duty1 < 0 then 0 else duty1)
        in emit (Pwm (Motor (nat motor_id)) (word_of_int duty2)) a)"

definition sensor_distance :: "ranging \<Rightarrow> int" where
  "sensor_distance r = (if RangeStatus r = 0 then uint (RangeMilliMeter r) else 0)"

definition read_vl53l0x_data ::
  "nat \<Rightarrow> int \<Rightarrow> ranging list \<Rightarrow> kernel \<Rightarrow> (int outcome \<times> kernel) option" where
  "read_vl53l0x_data mutex sensor_id sensors k = do {
     (r, k1) \<leftarrow> rt_mutex_take mutex RT_WAITING_FOREVER k;
     (case r of
        Block \<Rightarrow> Some (Block, k1)
      | Return _ \<Rightarrow> do {
          let distance = (if 0 \<le> sensor_id \<and> sensor_id < 5 then sensor_distance (sensors ! nat sensor_id) else 0);
          (_, k2) \<leftarrow> rt_mutex_release mutex k1;
          Some (Return distance, k2) }) }"

fun read_all ::
  "nat \<Rightarrow> nat list \<Rightarrow> ranging list \<Rightarrow> kernel \<Rightarrow> (int list outcome \<times> kernel) option" where
  "read_all mutex [] sensors k = Some (Return [], k)"
| "read_all mutex (i # is) sensors k = do {
     (r, k1) \<leftarrow> read_vl53l0x_data mutex (int i) sensors k;
     (case r of
        Block \<Rightarrow> Some (Block, k1)
      | Return d \<Rightarrow> do {
          (rs, k2) \<leftarrow> read_all mutex is sensors k1;
          Some (case rs of Block \<Rightarrow> (Block, k2) | Return ds \<Rightarrow> (Return (d # ds), k2)) }) }"

text \<open>The section between the outer \<^verbatim>\<open>rt_mutex_take\<close> and \<^verbatim>\<open>rt_mutex_release\<close>.\<close>

definition haptic_sense ::
  "nat \<Rightarrow> ranging list \<Rightarrow> app \<Rightarrow> kernel \<Rightarrow> (int list outcome \<times> app \<times> kernel) option" where
  "haptic_sense mutex measured a k = do {
     (r, k1) \<leftarrow> rt_mutex_take mutex RT_WAITING_FOREVER k;
     (case r of
        Block \<Rightarrow> Some (Block, a, k1)
      | Return _ \<Rightarrow> do {
          let a1 = VL53L0X_GetValue measured a;
          (rs, k2) \<leftarrow> read_all mutex [0..<5] (vl53l0x_data a1) k1;
          (case rs of
             Block \<Rightarrow> Some (Block, a1, k2)
           | Return ds \<Rightarrow> do {
               (_, k3) \<leftarrow> rt_mutex_release mutex k2;
               Some (Return ds, a1, k3) }) }) }"

definition haptic_pwm :: "int \<Rightarrow> int" where
  "haptic_pwm d =
     (if d > 0 then
        if d < 100 then 100
        else if d > 2000 then 0
        else 100 - (d - 100) * (100 - 0) div (2000 - 100)
      else 0)"

definition update_motors :: "int list \<Rightarrow> app \<Rightarrow> app" where
  "update_motors ds a = fold (\<lambda>i. update_motor_pwm (int i) (haptic_pwm (ds ! i))) [0..<5] a"

definition haptic_pass ::
  "nat \<Rightarrow> ranging list \<Rightarrow> app \<Rightarrow> kernel \<Rightarrow> (app \<times> kernel) option" where
  "haptic_pass mutex measured a k = do {
     (r, a1, k1) \<leftarrow> haptic_sense mutex measured a k;
     (case r of
        Block \<Rightarrow> Some (a1, k1)
      | Return ds \<Rightarrow> do {
          let a2 = update_motors ds a1;
          k2 \<leftarrow> rt_thread_mdelay 50 k1;
          Some (a2, k2) }) }"

section \<open>Fall detection\<close>

text \<open>The text of the emergency announcement, in the encoding of \<^verbatim>\<open>main.c\<close> (UTF-8), terminated.\<close>

definition emergency_text :: "8 word list" where
  "emergency_text = [0x5b, 0x76, 0x31, 0x30, 0x5d, 0x5b, 0x6d, 0x30, 0x5d, 0x5b, 0x74, 0x35, 0x5d, 0xe7, 0xb4,
     0xa7, 0xe6, 0x80, 0xa5, 0xe6, 0x83, 0x85, 0xe5, 0x86, 0xb5, 0xef, 0xbc, 0x81, 0xe6, 0xa3, 0x80, 0xe6,
     0xb5, 0x8b, 0xe5, 0x88, 0xb0, 0xe6, 0x91, 0x94, 0xe5, 0x80, 0x92, 0xe4, 0xba, 0x8b, 0xe4, 0xbb, 0xb6,
     0xef, 0xbc, 0x81, 0]"

text \<open>How a call ends. \<open>Returned\<close> has the value of \<^verbatim>\<open>last_trigger_time\<close> and the states on return.
  \<open>Frame_overrun\<close> has them at the moment at which \<^verbatim>\<open>SYN_FrameInfo\<close> writes past \<^verbatim>\<open>Frame_Info[50]\<close> on the
  stack, with the number of bytes it writes behind the array; what the program does afterwards C leaves
  undefined.\<close>

datatype emergency = Returned "32 word" app kernel | Frame_overrun nat "32 word" app kernel

definition trigger_emergency_response ::
  "nat \<Rightarrow> 8 word list \<Rightarrow> 32 word \<Rightarrow> app \<Rightarrow> kernel \<Rightarrow> emergency option" where
  "trigger_emergency_response sem sms2 last_trigger_time a k =
     (let now = rt_tick_get k in
      if now - last_trigger_time < RT_TICK_PER_SECOND * 5 then Some (Returned last_trigger_time a k)
      else do {
        (_, k1) \<leftarrow> rt_sem_release sem k;
        n \<leftarrow> SYN_frame_length emergency_text;
        (case speak emergency_text a of
           None \<Rightarrow> Some (Frame_overrun (n - 50) now a k1)
         | Some a1 \<Rightarrow> do {
             a2 \<leftarrow> Send_String USART1 sms2 a1;
             Some (Returned now a2 k1) }) })"

definition fall_detection_pass ::
  "nat \<Rightarrow> 8 word list \<Rightarrow> 32 word \<Rightarrow> app \<Rightarrow> kernel \<Rightarrow> emergency option" where
  "fall_detection_pass sem sms2 last_trigger_time a k = do {
     let ((acc, gyro), w) = read_imu_data (imu a);
     let a1 = a\<lparr>imu := w\<rparr>;
     e \<leftarrow> (if run_fall_detection_algorithm acc gyro \<noteq> 0
        then trigger_emergency_response sem sms2 last_trigger_time a1 k
        else Some (Returned last_trigger_time a1 k));
     (case e of
        Frame_overrun n last1 a2 k1 \<Rightarrow> Some e
      | Returned last1 a2 k1 \<Rightarrow> do {
          k2 \<leftarrow> rt_thread_mdelay 10 k1;
          Some (Returned last1 a2 k2) }) }"

section \<open>Recognition results\<close>

definition ai_data_pass :: "nat \<Rightarrow> app \<Rightarrow> kernel \<Rightarrow> (app \<times> kernel) option" where
  "ai_data_pass queue a k = do {
     (a1, k1) \<leftarrow> (if message_received (link a) \<noteq> 0 then do {
          let a1 = a\<lparr>link := (link a)\<lparr>message_received := 0\<rparr>\<rparr>;
          n \<leftarrow> strlen (rx_buffer (link a1));
          let msg_buffer = take 127 (prefix @ take n (rx_buffer (link a1))) @ [0];
          (_, k1) \<leftarrow> rt_mq_send queue msg_buffer k;
          a2 \<leftarrow> speak msg_buffer a1;
          Some (a2, k1) }
        else Some (a, k));
     k2 \<leftarrow> rt_thread_mdelay 50 k1;
     Some (a1, k2) }"

section \<open>Voice commands\<close>

fun starts_with :: "8 word list \<Rightarrow> 8 word list \<Rightarrow> bool" where
  "starts_with [] s = True"
| "starts_with (p # ps) [] = False"
| "starts_with (p # ps) (c # cs) \<longleftrightarrow> p = c \<and> starts_with ps cs"

text \<open>\<^verbatim>\<open>strstr\<close> as a test, on the bytes before the terminator.\<close>

fun strstr :: "8 word list \<Rightarrow> 8 word list \<Rightarrow> bool" where
  "strstr [] needle \<longleftrightarrow> needle = []"
| "strstr (c # cs) needle \<longleftrightarrow> starts_with needle (c # cs) \<or> strstr cs needle"

definition cmd_light_on :: "8 word list" where "cmd_light_on = [0xe5, 0xbc, 0x80, 0xe7, 0x81, 0xaf]"
definition cmd_light_off :: "8 word list" where "cmd_light_off = [0xe5, 0x85, 0xb3, 0xe7, 0x81, 0xaf]"
definition cmd_help :: "8 word list" where "cmd_help = [0xe6, 0xb1, 0x82, 0xe5, 0x8a, 0xa9]"
definition cmd_navigate :: "8 word list" where "cmd_navigate = [0xe5, 0xaf, 0xbc, 0xe8, 0x88, 0xaa]"
definition cmd_stop :: "8 word list" where "cmd_stop = [0xe5, 0x81, 0x9c, 0xe6, 0xad, 0xa2]"

text \<open>The interpretation of the bytes one \<^verbatim>\<open>rt_device_read\<close> of the speech module returned, at most 63; as a
  string they end at the first zero.\<close>

definition voice_command :: "8 word list \<Rightarrow> 8 word list \<Rightarrow> app \<Rightarrow> app option" where
  "voice_command sms received a =
     (let buffer = takeWhile (\<lambda>b. b \<noteq> 0) received in
      if received = [] then Some a
      else if strstr buffer cmd_light_on then Some (a\<lparr>light_mode := 1\<rparr>)
      else if strstr buffer cmd_light_off then Some (a\<lparr>light_mode := 0\<rparr>)
      else if strstr buffer cmd_help then Send_String USART1 sms (a\<lparr>askhelp_mode := 1\<rparr>)
      else if strstr buffer cmd_navigate then Some (a\<lparr>vl53l0_mode := 1\<rparr>)
      else if strstr buffer cmd_stop then Some (a\<lparr>vl53l0_mode := 0\<rparr>)
      else Some a)"

section \<open>Remote commands\<close>

definition is_space :: "8 word \<Rightarrow> bool" where
  "is_space c \<longleftrightarrow> c = 0x20 \<or> 0x09 \<le> c \<and> c \<le> 0x0d"

definition is_digit :: "8 word \<Rightarrow> bool" where
  "is_digit c \<longleftrightarrow> 0x30 \<le> c \<and> c \<le> 0x39"

text \<open>The conversion \<^verbatim>\<open>%d\<close> of \<^verbatim>\<open>sscanf\<close>: leading space, an optional sign, at least one digit. Numbers that
  do not fit an \<^verbatim>\<open>int\<close> have no defined result in C; here they are the integer they denote.\<close>

fun scan_digits :: "int \<Rightarrow> 8 word list \<Rightarrow> int \<times> 8 word list" where
  "scan_digits acc [] = (acc, [])"
| "scan_digits acc (c # cs) =
     (if is_digit c then scan_digits (acc * 10 + uint (c - 0x30)) cs else (acc, c # cs))"

definition scan_int :: "8 word list \<Rightarrow> (int \<times> 8 word list) option" where
  "scan_int str =
     (let s = dropWhile is_space str;
          neg = (s \<noteq> [] \<and> hd s = 0x2d);
          t = (if s \<noteq> [] \<and> (hd s = 0x2d \<or> hd s = 0x2b) then tl s else s)
      in if t \<noteq> [] \<and> is_digit (hd t)
         then (let (v, rest) = scan_digits 0 t in Some (if neg then - v else v, rest))
         else None)"

definition cmd_servo :: "8 word list" where "cmd_servo = [0x73, 0x65, 0x72, 0x76, 0x6f]"

definition scan_servo :: "8 word list \<Rightarrow> (int \<times> int) option" where
  "scan_servo buffer =
     (if starts_with cmd_servo buffer then do {
        (servo_id, rest) \<leftarrow> scan_int (drop 5 buffer);
        (angle, _) \<leftarrow> scan_int rest;
        Some (servo_id, angle) }
      else None)"

definition remote_command :: "8 word list \<Rightarrow> app \<Rightarrow> app" where
  "remote_command received a =
     (let buffer = takeWhile (\<lambda>b. b \<noteq> 0) received in
      if received = [] then a
      else if strstr buffer cmd_servo then
        (case scan_servo buffer of
           None \<Rightarrow> a
         | Some (servo_id, angle) \<Rightarrow>
             let a1 = (if servo_id = 1 then a\<lparr>shangduoji := word_of_int angle\<rparr>
                       else if servo_id = 2 then a\<lparr>xiaduoji := word_of_int angle\<rparr> else a)
             in a1\<lparr>duojirun_flag := 1\<rparr>)
      else a)"

section \<open>LED control\<close>

text \<open>The local and static variables of the thread. The colour calls go to a library that is not in the
  repository; they are listed, as is the constant \<^verbatim>\<open>desired_brightness\<close> a parameter.\<close>

datatype led_event = RGB_SetColor nat "32 word" | RGB_Refresh

record led_thread =
  led_state :: bool
  emergency_mode :: bool
  brightness :: real
  led_step :: real
  led_io :: "led_event list"

definition led_all :: "32 word \<Rightarrow> led_thread \<Rightarrow> led_thread" where
  "led_all color l = l\<lparr>led_io := led_io l @ map (\<lambda>i. RGB_SetColor i color) [0..<10] @ [RGB_Refresh]\<rparr>"

definition led_blink :: "32 word \<Rightarrow> led_thread \<Rightarrow> led_thread" where
  "led_blink color l =
     (let l1 = l\<lparr>led_state := \<not> led_state l\<rparr> in led_all (if led_state l1 then color else 0) l1)"

definition led_breathe :: "real \<Rightarrow> led_thread \<Rightarrow> led_thread" where
  "led_breathe desired_brightness l =
     (let b = f32_round (brightness l + led_step l);
          l1 = l\<lparr>brightness := b, led_step := (if b \<ge> 1 \<or> b \<le> 0 then - led_step l else led_step l)\<rparr>;
          scaled = (\<lambda>n. word_of_int \<lfloor>f32_round (f32_round (f32_round (n * b) * desired_brightness) * 255)\<rfloor> :: 8 word)
      in led_all (push_bit 16 (ucast (scaled 0)) OR push_bit 8 (ucast (scaled 1)) OR ucast (scaled 0)) l1)"

text \<open>One pass, with the pause in milliseconds that ends it.\<close>

definition led_pass ::
  "real \<Rightarrow> nat \<Rightarrow> app \<Rightarrow> led_thread \<Rightarrow> kernel \<Rightarrow> (led_thread \<times> 32 word \<times> kernel) option" where
  "led_pass desired_brightness sem a l k = do {
     (r, k1) \<leftarrow> rt_sem_trytake sem k;
     let l1 = (if r = Return RT_EOK then l\<lparr>emergency_mode := True\<rparr> else l);
     let (l2, pause) =
       (if emergency_mode l1 then (led_blink 0x00FF0000 l1, 200)
        else if askhelp_mode a \<noteq> 0 then (led_blink 0x000000FF l1, 500)
        else if light_mode a \<noteq> 0 then (led_all 0x00FFFFFF l1, 1000)
        else (led_breathe desired_brightness l1, 50));
     k2 \<leftarrow> rt_thread_mdelay pause k1;
     Some (l2, pause, k2) }"

section \<open>The main function\<close>

text \<open>The kernel objects of the application. \<open>mem\<close> and \<open>stk\<close> are what the heap returns for each object.\<close>

record app_objects =
  vl53l0x_mutex :: "nat option"
  fall_detected_sem :: "nat option"
  ai_msg_queue :: "nat option"

definition create_thread ::
  "string \<Rightarrow> nat \<Rightarrow> 32 word \<Rightarrow> 8 word \<Rightarrow> tid option \<Rightarrow> 32 word option \<Rightarrow> kernel \<Rightarrow> kernel option" where
  "create_thread nm entry sz prio mem stk k = do {
     (t, k1) \<leftarrow> rt_thread_create nm entry 0 sz prio 20 mem stk k;
     (case t of
        None \<Rightarrow> Some k1
      | Some tid \<Rightarrow> map_option snd (rt_thread_startup tid k1)) }"

definition app_main ::
  "nat option \<Rightarrow> nat option \<Rightarrow> nat option \<Rightarrow> (nat \<Rightarrow> 8 word list) option \<Rightarrow>
   (nat \<Rightarrow> tid option) \<Rightarrow> (nat \<Rightarrow> 32 word option) \<Rightarrow> kernel \<Rightarrow> (app_objects \<times> kernel) option" where
  "app_main mutex_mem sem_mem mq_mem mq_pool mem stk k = do {
     (m, k1) \<leftarrow> rt_mutex_create ''vl53l0x'' RT_IPC_FLAG_FIFO mutex_mem k;
     (s, k2) \<leftarrow> rt_sem_create ''fall'' 0 RT_IPC_FLAG_FIFO sem_mem k1;
     (q, k3) \<leftarrow> rt_mq_create ''ai_msg'' 128 10 RT_IPC_FLAG_FIFO mq_mem mq_pool k2;
     k4 \<leftarrow> create_thread ''haptic'' 0 1024 5 (mem 0) (stk 0) k3;
     k5 \<leftarrow> create_thread ''fall'' 1 2048 6 (mem 1) (stk 1) k4;
     k6 \<leftarrow> create_thread ''voice'' 2 1024 15 (mem 2) (stk 2) k5;
     k7 \<leftarrow> create_thread ''ai_data'' 3 1024 16 (mem 3) (stk 3) k6;
     k8 \<leftarrow> create_thread ''remote'' 4 1024 17 (mem 4) (stk 4) k7;
     k9 \<leftarrow> create_thread ''led'' 5 512 25 (mem 5) (stk 5) k8;
     Some (\<lparr>vl53l0x_mutex = m, fall_detected_sem = s, ai_msg_queue = q\<rparr>, k9) }"

end
