(* ===== verification/App_Props.thy ===== *)
theory App_Props
  imports App Ipc_Mutex_Free
begin

text \<open>
  Properties of the application's threads that combine the board state with the kernel: the haptic pass
  takes the sensor mutex recursively and gives it back, and drives the motors from the distances; the
  emergency response is limited to one per five seconds and cannot complete.
\<close>

section \<open>One haptic pass\<close>

lemma read_held:
  assumes "mutex_free n c k" and "i < 5"
  shows "read_vl53l0x_data n (int i) sensors (held n c 1 k) =
    Some (Return (sensor_distance (sensors ! i)), held n c 1 k)"
  using take_again [OF assms(1), of 1] release_again [OF assms(1), of 1] assms(2)
  by (simp add: read_vl53l0x_data_def)

lemma read_all_held:
  assumes "mutex_free n c k"
  shows "list_all (\<lambda>i. i < 5) is \<Longrightarrow> read_all n is sensors (held n c 1 k) =
    Some (Return (map (\<lambda>i. sensor_distance (sensors ! i)) is), held n c 1 k)"
  by (induction "is") (simp_all add: read_held [OF assms])

lemma haptic_sense_free:
  assumes "mutex_free n c k"
  shows "haptic_sense n measured a k = Some (Return (map (\<lambda>i. sensor_distance (measured ! i)) [0..<5]),
    VL53L0X_GetValue measured a, given_back n c k)"
proof -
  have "vl53l0x_data (VL53L0X_GetValue measured a) = measured"
    by (simp add: VL53L0X_GetValue_def emit_def)
  moreover have "list_all (\<lambda>i. i < 5) [0..<5]"
    by (simp add: list_all_iff)
  ultimately show ?thesis
    using take_free [OF assms] read_all_held [OF assms, of "[0..<5]"] release_last [OF assms]
    by (simp add: haptic_sense_def del: upt_Suc upt_rec_numeral upt_conv_Cons)
qed

lemma haptic_pwm_bounds: "0 \<le> haptic_pwm d" "haptic_pwm d \<le> 100"
proof -
  have "0 \<le> (d - 100) * 100 div 1900 \<and> (d - 100) * 100 div 1900 \<le> 100" if "100 \<le> d" "d \<le> 2000"
    using that zdiv_mono1 [of "(d - 100) * 100" 190000 1900] by (simp add: pos_imp_zdiv_nonneg_iff)
  then show "0 \<le> haptic_pwm d" "haptic_pwm d \<le> 100"
    by (auto simp: haptic_pwm_def)
qed

lemma haptic_pwm_antimono: "0 < d \<Longrightarrow> d \<le> d' \<Longrightarrow> haptic_pwm d' \<le> haptic_pwm d"
proof -
  assume d: "0 < d" "d \<le> d'"
  have "(d - 100) * 100 div 1900 \<le> (d' - 100) * 100 div 1900"
    using d by (intro zdiv_mono1) simp_all
  then show ?thesis
    using d haptic_pwm_bounds [of d] haptic_pwm_bounds [of d'] by (auto simp: haptic_pwm_def)
qed

lemma update_motors_io:
  "io (update_motors ds a) = io a @ map (\<lambda>i. Pwm (Motor i) (word_of_int (haptic_pwm (ds ! i)))) [0..<5]"
proof -
  have one: "update_motor_pwm (int i) (haptic_pwm d) b = emit (Pwm (Motor i) (word_of_int (haptic_pwm d))) b"
    if "i < 5" for i d b
    using that haptic_pwm_bounds [of d] by (simp add: update_motor_pwm_def Let_def)
  have "list_all (\<lambda>i. i < 5) is \<Longrightarrow>
      io (fold (\<lambda>i. update_motor_pwm (int i) (haptic_pwm (ds ! i))) is b) =
      io b @ map (\<lambda>i. Pwm (Motor i) (word_of_int (haptic_pwm (ds ! i)))) is" for "is" b
    by (induction "is" arbitrary: b) (simp_all add: one)
  then show ?thesis
    unfolding update_motors_def by (simp add: list_all_iff)
qed

text \<open>One pass of the haptic thread, over the real mutex operations of the kernel: when the sensor
  mutex is free, the pass takes it once and then once more for each of the five sensors without blocking,
  reads the five distances, gives the mutex completely back, and sets every motor to a duty cycle of 0 to
  100 that depends only on its own sensor; then it sleeps 50 ms. Of two valid distances the nearer never
  gives the weaker duty cycle, and a sensor without a valid distance switches its motor off.\<close>

theorem haptic_pass_result:
  assumes "mutex_free n c k"
  shows "\<exists>a'. haptic_pass n measured a k = map_option (\<lambda>k2. (a', k2)) (rt_thread_mdelay 50 (given_back n c k)) \<and>
    mutex_free n c (given_back n c k) \<and>
    io a' = io a @ Delay 500 # map (\<lambda>i. Pwm (Motor i) (word_of_int (haptic_pwm (sensor_distance (measured ! i))))) [0..<5] \<and>
    (\<forall>d d'. 0 \<le> haptic_pwm d \<and> haptic_pwm d \<le> 100 \<and> (0 < d \<and> d \<le> d' \<longrightarrow> haptic_pwm d' \<le> haptic_pwm d) \<and>
      haptic_pwm 0 = 0)"
proof -
  let ?ds = "map (\<lambda>i. sensor_distance (measured ! i)) [0..<5]"
  let ?a = "update_motors ?ds (VL53L0X_GetValue measured a)"
  have "haptic_pass n measured a k = map_option (\<lambda>k2. (?a, k2)) (rt_thread_mdelay 50 (given_back n c k))"
    unfolding haptic_pass_def haptic_sense_free [OF assms]
    by (simp add: map_conv_bind_option comp_def del: upt_rec_numeral)
  moreover have "io ?a = io a @ Delay 500 # map (\<lambda>i. Pwm (Motor i) (word_of_int (haptic_pwm (sensor_distance (measured ! i))))) [0..<5]"
    unfolding update_motors_io by (simp add: VL53L0X_GetValue_def)
  moreover have "haptic_pwm 0 = 0"
    by (simp add: haptic_pwm_def)
  ultimately show ?thesis
    using given_back_free [OF assms] haptic_pwm_bounds haptic_pwm_antimono by blast
qed

theorem haptic_pass_result_witness:
  "mutex_free 0 2 (mutex_demo 0) \<and>
   (\<exists>a'. haptic_pass 0 [] app_boot (mutex_demo 0) =
      map_option (\<lambda>k2. (a', k2)) (rt_thread_mdelay 50 (given_back 0 2 (mutex_demo 0))))"
proof -
  have free: "mutex_free 0 2 (mutex_demo 0)"
    using three_threads_types(3) [of 0] running_three_threads
    by (simp add: mutex_free_def mutex_demo_def thread_context_def running_def rt_critical_level_def
      upd_mutex_def rt_object_get_type_def)
  then show ?thesis
    using haptic_pass_result [OF free, of "[]" app_boot] by blast
qed

section \<open>The emergency response\<close>

lemma emergency_text_long: "emergency_text = butlast emergency_text @ 0 # []"
    "0 \<notin> set (butlast emergency_text)" "length (butlast emergency_text) = 52"
  by (simp_all add: emergency_text_def)

lemma emergency_frame_length: "SYN_frame_length emergency_text = Some 58"
  using strlen_terminated [OF emergency_text_long(2), of "[]"] emergency_text_long(1,3)
  by (simp add: SYN_frame_length_def)

lemma speak_emergency: "speak emergency_text a = None"
  using SYN_FrameInfo_overruns_iff [OF emergency_frame_length, of 2] by (simp add: speak_def)

lemma trigger_emergency_response_eq:
  "trigger_emergency_response sem sms2 prev a k =
     (if rt_tick_get k - prev < 5000 then Some (Returned prev a k)
      else map_option (\<lambda>(e, k1). Frame_overrun 8 (rt_tick_get k) a k1) (rt_sem_release sem k))"
  by (simp add: trigger_emergency_response_def Let_def speak_emergency emergency_frame_length split: bind_split)

text \<open>The semaphore of the LED thread, given once more and taken again; nobody waits for it, since the LED
  thread only tries to take it.\<close>

definition led_sem_ready :: "nat \<Rightarrow> kernel \<Rightarrow> bool" where
  "led_sem_ready sem k \<longleftrightarrow>
     rt_object_get_type (Obj_ipc (Sem sem)) k = RT_Object_Class_Semaphore \<and>
     tlists k (Suspend (Sem sem)) = [] \<and> sem_value (sems k sem) < 0xFFFF"

lemma led_sem_signal:
  assumes "led_sem_ready sem k"
  shows "rt_sem_release sem k = Some (RT_EOK, set_sem_value sem (sem_value (sems k sem) + 1) k)"
    and "rt_sem_trytake sem (set_sem_value sem (sem_value (sems k sem) + 1) k) =
      Some (Return RT_EOK, set_sem_value sem (sem_value (sems k sem)) (set_sem_value sem (sem_value (sems k sem) + 1) k))"
proof -
  show "rt_sem_release sem k = Some (RT_EOK, set_sem_value sem (sem_value (sems k sem) + 1) k)"
    using assms by (simp add: rt_sem_release_def led_sem_ready_def)
  have "sem_value (sems k sem) \<noteq> - 1"
    using assms by (auto simp: led_sem_ready_def)
  then have "0 < sem_value (sems k sem) + 1"
    by (simp add: word_neq_0_conv [symmetric] eq_neg_iff_add_eq_0)
  then show "rt_sem_trytake sem (set_sem_value sem (sem_value (sems k sem) + 1) k) =
      Some (Return RT_EOK, set_sem_value sem (sem_value (sems k sem)) (set_sem_value sem (sem_value (sems k sem) + 1) k))"
    using assms by (simp add: rt_sem_trytake_def rt_sem_take_def led_sem_ready_def rt_object_get_type_def)
qed

lemma led_pass_alarm:
  assumes "rt_sem_trytake sem k = Some (Return RT_EOK, k1)"
  shows "led_pass db sem a l k =
    map_option (\<lambda>k2. (led_blink 0x00FF0000 (l\<lparr>emergency_mode := True\<rparr>), 200, k2)) (rt_thread_mdelay 200 k1)"
  using assms by (simp add: led_pass_def led_blink_def led_all_def Let_def map_conv_bind_option comp_def)

text \<open>C40: The emergency response raises the light alarm and then damages its stack before it says or sends
  anything. Within five seconds of the last response, and, since the time of the last response starts at
  zero, in the first five seconds after power-up, the call changes nothing. At any other time it notes the
  time and releases the semaphore of the LED thread, whose next pass then takes it and switches to the
  emergency display, in which all LEDs flash red; after that \<^verbatim>\<open>SYN_FrameInfo\<close> writes 8 bytes behind its
  50-byte frame, because the announcement has 52 bytes and only 44 fit, while no byte of the announcement
  or of the message has been sent. The semaphore is below its maximum and nobody waits for it (the LED
  thread never blocks on it).\<close>

theorem emergency_response_overruns:
  assumes "led_sem_ready sem k"
  shows "if rt_tick_get k - prev < 5000
    then trigger_emergency_response sem sms2 prev a k = Some (Returned prev a k)
    else \<exists>k1 k2. trigger_emergency_response sem sms2 prev a k = Some (Frame_overrun 8 (rt_tick_get k) a k1) \<and>
      sem_value (sems k1 sem) = sem_value (sems k sem) + 1 \<and>
      sem_value (sems k2 sem) = sem_value (sems k sem) \<and>
      (\<forall>db b l. led_pass db sem b l k1 =
        map_option (\<lambda>k3. (led_blink 0x00FF0000 (l\<lparr>emergency_mode := True\<rparr>), 200, k3)) (rt_thread_mdelay 200 k2))"
proof (cases "rt_tick_get k - prev < 5000")
  case False
  let ?k1 = "set_sem_value sem (sem_value (sems k sem) + 1) k"
  let ?k2 = "set_sem_value sem (sem_value (sems k sem)) ?k1"
  have "trigger_emergency_response sem sms2 prev a k = Some (Frame_overrun 8 (rt_tick_get k) a ?k1)"
    using False led_sem_signal(1) [OF assms] by (simp add: trigger_emergency_response_eq)
  moreover have "led_pass db sem b l ?k1 = map_option
      (\<lambda>k3. (led_blink 0x00FF0000 (l\<lparr>emergency_mode := True\<rparr>), 200, k3)) (rt_thread_mdelay 200 ?k2)" for db b l
    using led_pass_alarm [OF led_sem_signal(2) [OF assms]] .
  moreover have "sem_value (sems ?k1 sem) = sem_value (sems k sem) + 1" "sem_value (sems ?k2 sem) = sem_value (sems k sem)"
    by simp_all
  ultimately show ?thesis
    using False by (auto intro!: exI [of _ ?k1] exI [of _ ?k2])
qed (simp add: trigger_emergency_response_eq)

text \<open>Six seconds after power-up, in the demonstration state of the semaphores.\<close>

theorem emergency_response_overruns_witness:
  "led_sem_ready 0 (three_threads\<lparr>rt_tick := 6000\<rparr>) \<and>
   (\<exists>k1. trigger_emergency_response 0 [] 0 app_boot (three_threads\<lparr>rt_tick := 6000\<rparr>) =
      Some (Frame_overrun 8 6000 app_boot k1) \<and> sem_value (sems k1 0) = 1)"
proof -
  have ready: "led_sem_ready 0 (three_threads\<lparr>rt_tick := 6000\<rparr>)" and zero: "sem_value (sems three_threads 0) = 0"
    using three_threads_types(2) by (simp_all add: led_sem_ready_def rt_object_get_type_def three_threads_def zero_kernel_def)
  show ?thesis
    using emergency_response_overruns [OF ready, of 0 "[]" app_boot] ready zero by (auto simp: rt_tick_get_def)
qed

text \<open>The detector of theory \<open>Fall_Detection\<close> never calls it: a pass of the detection thread only reads the
  sensor and sleeps.\<close>

lemma fall_detection_pass_sleeps:
  assumes "imu_inv (imu a)"
  shows "\<exists>w. imu_inv w \<and> fall_detection_pass sem sms2 prev a k =
    map_option (\<lambda>k2. Returned prev (a\<lparr>imu := w\<rparr>) k2) (rt_thread_mdelay 10 k)"
proof -
  obtain acc gyro w where r: "read_imu_data (imu a) = ((acc, gyro), w)"
    by (metis prod.exhaust)
  have "run_fall_detection_algorithm acc gyro = 0"
    using fall_detection_zero [OF _ r] assms by (simp add: imu_inv_def)
  then show ?thesis
    using imu_inv_read [OF assms] r
    by (intro exI [of _ w]) (simp add: fall_detection_pass_def map_conv_bind_option comp_def)
qed

section \<open>The LED thread\<close>

text \<open>The emergency display, once entered, is never left.\<close>

lemma led_emergency_latched:
  assumes "led_pass db sem a l k = Some (l', pause, k')" and "emergency_mode l"
  shows "emergency_mode l' \<and> pause = 200"
  using assms by (auto simp: led_pass_def led_blink_def led_all_def Let_def bind_eq_Some_conv split: if_splits)

end
