(* ===== verification/Ws2812.thy ===== *)
theory Ws2812
  imports Float32 K230
begin

text \<open>
  The LED strip (\<^verbatim>\<open>hardware/WS2821T/bsp_ws2812.c\<close>): the colour buffer and the bits on the data line. A bit is
  a long or a short pulse; the debug output and the pauses are left out. \<^term>\<open>None\<close> is a write outside the
  colour buffer.
\<close>

definition WS2812_MAX :: nat where "WS2812_MAX = 10"
definition ledsCount :: nat where "ledsCount = 10"
definition nbLedsBytes :: nat where "nbLedsBytes = 30"

definition rgb_SetColor :: "8 word \<Rightarrow> 32 word \<Rightarrow> 8 word list \<Rightarrow> 8 word list option" where
  "rgb_SetColor LedId color leds =
     (if unat LedId > ledsCount then Some leds
      else do {
        l1 \<leftarrow> put_at leds (unat LedId * 3) (ucast (drop_bit 8 color));
        l2 \<leftarrow> put_at l1 (unat LedId * 3 + 1) (ucast (drop_bit 16 color));
        put_at l2 (unat LedId * 3 + 2) (ucast color) })"

definition rgb_SetRGB :: "8 word \<Rightarrow> 32 word \<Rightarrow> 32 word \<Rightarrow> 32 word \<Rightarrow> 8 word list \<Rightarrow> 8 word list option" where
  "rgb_SetRGB LedId red green blue leds =
     rgb_SetColor LedId (push_bit 16 red OR push_bit 8 green OR blue) leds"

text \<open>The pulses of a byte, from the most significant bit.\<close>

definition Ws2812b_WriteByte :: "8 word \<Rightarrow> bool list" where
  "Ws2812b_WriteByte byte = map (\<lambda>i. byte AND drop_bit i 0x80 \<noteq> 0) [0..<8]"

definition rgb_SendArray :: "8 word list \<Rightarrow> bool list" where
  "rgb_SendArray leds = concat (map (\<lambda>i. Ws2812b_WriteByte (leds ! i)) [0..<nbLedsBytes])"

definition f32_to_u8 :: "real \<Rightarrow> 8 word" where
  "f32_to_u8 x = word_of_int \<lfloor>x\<rfloor>"

definition apply_brightness :: "32 word \<Rightarrow> real \<Rightarrow> 32 word" where
  "apply_brightness original_color brightness_factor =
     (let r = ucast (drop_bit 16 original_color) :: 8 word;
          g = ucast (drop_bit 8 original_color) :: 8 word;
          b = ucast original_color :: 8 word;
          scale = (\<lambda>c :: 8 word. f32_to_u8 (f32_round (of_int (uint c) * brightness_factor)))
      in push_bit 16 (ucast (scale r)) OR push_bit 8 (ucast (scale g)) OR ucast (scale b))"

section \<open>What the strip receives\<close>

text \<open>A chip shifts the bits in, most significant first.\<close>

definition shift_in :: "bool list \<Rightarrow> 8 word" where
  "shift_in bs = fold (\<lambda>b w. push_bit 1 w OR of_bool b) bs 0"

lemma WriteByte_bits: "Ws2812b_WriteByte w = map (bit w) [7, 6, 5, 4, 3, 2, 1, 0]"
proof -
  have "w AND 2 ^ n \<noteq> 0 \<longleftrightarrow> bit w n" if "n < 8" for n
    using that by (simp add: and_exp_eq_0_iff_not_bit)
  from this [of 0] this [of 1] this [of 2] this [of 3] this [of 4] this [of 5] this [of 6] this [of 7]
  show ?thesis
    by (simp add: Ws2812b_WriteByte_def upt_rec)
qed

lemma shift_in_WriteByte: "shift_in (Ws2812b_WriteByte w) = w"
proof (rule bit_word_eqI)
  fix n assume "n < LENGTH(8)"
  then consider "n = 0" | "n = 1" | "n = 2" | "n = 3" | "n = 4" | "n = 5" | "n = 6" | "n = 7"
    by fastforce
  then show "bit (shift_in (Ws2812b_WriteByte w)) n = bit w n"
    by cases (simp_all add: WriteByte_bits shift_in_def bit_or_iff bit_push_bit_iff bit_of_bool_iff del: push_bit_Suc)
qed

text \<open>Setting a LED of the strip stores green, red and blue at its place; the number just past the end also
  passes the check and writes behind the buffer.\<close>

lemma rgb_SetColor_result:
  assumes "length leds = 3 * WS2812_MAX"
  shows "unat i < 10 \<Longrightarrow> rgb_SetColor i color leds = Some (leds[unat i * 3 := ucast (drop_bit 8 color),
      unat i * 3 + 1 := ucast (drop_bit 16 color), unat i * 3 + 2 := ucast color])"
    "unat i = 10 \<Longrightarrow> rgb_SetColor i color leds = None"
    "unat i > 10 \<Longrightarrow> rgb_SetColor i color leds = Some leds"
  using assms by (simp_all add: rgb_SetColor_def put_at_def ledsCount_def WS2812_MAX_def)

end
