(* ===== verification/Spec2Isabelle.thy ===== *)
theory Spec2Isabelle
  imports Ringbuffer Ipc_Event Ipc_Mailbox Data_Queue Completion Tick_Props Mempool Kheap_Props Kprintf_Props Shell_Props App_Props Ws2812
begin

text \<open>
  Verification of the firmware under \<^verbatim>\<open>src/vl_test2\<close>, a walking aid for the blind: the RT-Thread
  kernel (\<^verbatim>\<open>rt-thread\<close>) in the configuration of \<^verbatim>\<open>rtconfig.h\<close> (one Cortex-M4 core, 32 priorities, 1000
  ticks per second, software timers, one level of timer list, all IPC objects, memory pools), and the
  application on it (\<^verbatim>\<open>applications\<close>, \<^verbatim>\<open>hardware\<close>). File names of the kernel are relative to
  \<^verbatim>\<open>src/vl_test2/rt-thread\<close>, those of the application to \<^verbatim>\<open>src/vl_test2\<close>.

  \<^bold>\<open>The parts and how they interact.\<close> Threads (\<^verbatim>\<open>src/thread.c\<close>) are in one of five states and, when they
  do not run, in one list: the ready list of their priority or the wait list of an object. The
  scheduler (\<^verbatim>\<open>src/scheduler.c\<close>) picks the first thread of the most urgent ready list through a
  bitmap. A blocking operation of an IPC object (\<^verbatim>\<open>src/ipc.c\<close>) or of a memory pool
  (\<^verbatim>\<open>src/mempool.c\<close>) suspends the calling thread, links it into the wait list of the object, starts
  the timer of the thread (\<^verbatim>\<open>src/timer.c\<close>) if the wait is bounded, and calls the scheduler; the
  matching operation of another thread resumes it. The clock interrupt (\<^verbatim>\<open>src/clock.c\<close>) counts ticks,
  takes the processor away at the end of a time slice and runs the functions of the timers that are
  due; the function of a thread timer makes the thread ready with the error \<^verbatim>\<open>-RT_ETIMEOUT\<close>. All
  objects are registered by class and name (\<^verbatim>\<open>src/object.c\<close>). The lists are intrusive, doubly linked
  rings (\<^verbatim>\<open>include/rtservice.h\<close>). The byte ring buffer (\<^verbatim>\<open>components/drivers/ipc/ringbuffer.c\<close>) is a
  data structure of its own, used by drivers; data queues and completions, also of the drivers, block
  threads like the IPC objects of the kernel.

  The application (\<^verbatim>\<open>applications/main.c\<close>) runs six threads. One reads five ranging sensors under a
  mutex and drives five vibration motors; one reads the inertial sensor, decides whether the user has
  fallen, and then releases a semaphore and sends a spoken and a text message; one shows the mode of
  the device on an LED strip and takes the semaphore; one speaks the messages of a camera module that
  recognises objects and texts; two obey commands from serial lines. The bytes of the serial lines
  arrive in one interrupt routine (\<^verbatim>\<open>hardware/processing.c\<close>), which feeds the frame parser of the
  inertial sensor (\<^verbatim>\<open>hardware/WT61C\<close>), the packet parser of the camera, and two smaller receivers.
  Speech goes out as frames of a synthesiser (\<^verbatim>\<open>hardware/syn6288\<close>).

  \<^bold>\<open>Theories.\<close>
  \<^item> \<open>Prelude\<close>: assertions, alignment, counters, rings of cells, linked lists of cells.
  \<^item> \<open>Rt_List\<close>: the pointer operations of \<^verbatim>\<open>rtservice.h\<close> on an explicit store of \<^verbatim>\<open>next\<close> and \<^verbatim>\<open>prev\<close>
    pointers, and the proof that they implement operations on a family of lists whose nodes are in
    at most one list. The other theories use those list operations (\<open>push_front\<close>, \<open>push_back\<close>,
    \<open>push_before\<close>, \<open>unlink\<close>).
  \<^item> \<open>Rtdef\<close>: the structures of \<^verbatim>\<open>rtdef.h\<close> and the static variables of the kernel as one record
    \<open>kernel\<close>.
  \<^item> \<open>Scheduler\<close>: \<^verbatim>\<open>scheduler.c\<close>, \<^verbatim>\<open>irq.c\<close> and the context checks of \<^verbatim>\<open>rtdebug.h\<close>; the scheduler
    invariant \<open>sched_inv\<close> (bitmap, ready lists and thread states agree, one thread runs) and its
    preservation.
  \<^item> \<open>Kobject\<close>: \<^verbatim>\<open>object.c\<close>. \<open>Timer\<close>: the timer objects and the order of the timer lists across the
    wrap-around of the tick counter. \<open>Thread\<close>, \<open>Thread_Props\<close>: \<^verbatim>\<open>thread.c\<close>, \<^verbatim>\<open>rt_timer_start\<close>, the
    clean-up of \<^verbatim>\<open>idle.c\<close>, and their properties. \<open>Kservice\<close>: \<^verbatim>\<open>errno\<close>.
  \<^item> \<open>Ipc\<close>: the wait lists and the blocking sequence all IPC objects share, and the invariant \<open>kready\<close>
    under which blocking and waking return. \<open>Ipc_Sem\<close>, \<open>Ipc_Mutex\<close>, \<open>Ipc_Event\<close>: one object each.
  \<^item> \<open>Ipc_Channel\<close>: the locale \<open>message_channel\<close>, the contract of a queue of messages with senders
    and receivers, and what follows from it for any sequence of operations (order, conservation).
    \<open>Ipc_Mailbox\<close>, \<open>Ipc_Msgqueue\<close> and \<open>Data_Queue\<close> (\<^verbatim>\<open>components/drivers/ipc/dataqueue.c\<close>) interpret it.
    \<open>Completion\<close>: \<^verbatim>\<open>components/drivers/ipc/completion.c\<close>.
  \<^item> \<open>Tick\<close>: the expiry loops and the clock interrupt, with the locale \<open>timer_callbacks\<close> that says what
    the kernel needs from the functions of user timers; \<open>Tick_Props\<close> interprets it with timers that
    release semaphores and shows that sleeping threads wake.
  \<^item> \<open>Mempool\<close>: \<^verbatim>\<open>mempool.c\<close>. \<open>Ringbuffer\<close>: \<^verbatim>\<open>ringbuffer.c\<close>.
  \<^item> \<open>Memory\<close>: the bytes of the memory. \<open>Kmem\<close>: the memory routines of \<^verbatim>\<open>src/kservice.c\<close>. \<open>Kprintf\<close>,
    \<open>Kprintf_Props\<close>: the formatted output of \<^verbatim>\<open>src/kservice.c\<close>, and the text of a format as its
    specification. \<open>Smem\<close>: the heap \<^verbatim>\<open>src/mem.c\<close>, whose headers lie in that memory.
    \<open>Smem_Blocks\<close>: the abstract heap, a list of block sizes with first fit and merging. \<open>Smem_Refine\<close>: how
    headers represent such a list, and the search loops. \<open>Smem_Ops\<close>: each operation on headers is one on the
    list and writes to headers only. \<open>Smem_Client\<close>: the contents of the live blocks. \<open>Smem_Props\<close>: the
    properties of the heap. \<open>Ipc_Mutex_Free\<close>: a mutex without contention. \<open>Kheap\<close>, \<open>Kheap_Props\<close>: the
    allocation functions of \<^verbatim>\<open>src/kservice.c\<close>, which lock a mutex around the heap.
  \<^item> \<open>Shell\<close>: the shell of \<^verbatim>\<open>components/finsh\<close>, with the line, its cursor and the history as one record.
    \<open>Shell_Split\<close>: the arguments of a text, and that \<^verbatim>\<open>msh_split\<close> finds them. \<open>Shell_Edit\<close>: an editor as the
    specification of the shell, and the refinement. \<open>Shell_Props\<close>: the properties of the shell.
  \<^item> \<open>Crc16\<close>, \<open>Wit_Sdk\<close>, \<open>Wit_Props\<close>: the driver of the inertial sensor (\<^verbatim>\<open>hardware/WT61C/wit_c_sdk.c\<close>)
    with its checksums, frame parser and commands. \<open>Float32\<close>: rounding to single precision and the
    locale \<open>float_rounding\<close>, the laws of a rounding on which the bounds of computed values rest.
    \<open>Fall_Detection\<close>: \<^verbatim>\<open>hardware/WT61C/wt61c_bsp.c\<close> and the detection algorithm of \<^verbatim>\<open>main.c\<close>.
  \<^item> \<open>Syn6288\<close>: speech frames. \<open>K230\<close>: the packet parser of the camera, with an abstract specification
    of its packets. \<open>Processing\<close>, \<open>Processing_Props\<close>: \<^verbatim>\<open>hardware/processing.c\<close> as one record \<open>app\<close>.
    \<open>Ws2812\<close>: \<^verbatim>\<open>hardware/WS2821T/bsp_ws2812.c\<close>.
  \<^item> \<open>App\<close>, \<open>App_Props\<close>: \<^verbatim>\<open>applications/main.c\<close>, one pass of the loop of each thread, on the states
    \<open>app\<close> and \<open>kernel\<close>.

  \<^bold>\<open>How the code is modelled.\<close> An operation is a function from the state to the optional result and
  state. \<^term>\<open>None\<close> means that the call does not come back: a failed \<^verbatim>\<open>RT_ASSERT\<close> (which loops for
  ever), a null pointer that is used, a write outside an array, an endless loop. Error codes are
  values. Ticks, counters, flags, offsets and sizes are words of their width, so wrap-around is
  that of the code. Code between \<^verbatim>\<open>rt_hw_interrupt_disable\<close> and \<^verbatim>\<open>rt_hw_interrupt_enable\<close> is one step.
  Where an operation has two such sections, as the sends and receives of message queues have, they
  are separate definitions, and the properties quantify over their interleavings. A call that
  switches to another thread is split there: the operation returns \<^term>\<open>Block\<close>, and the definition
  with the suffix \<open>_resume\<close> is what the thread does when it runs again, any number of steps of other
  threads later. Memory is abstract outside the heap: records for objects, lists for buffers. The heap
  works on a memory of bytes, and the operations that allocate an object or a buffer take what the heap
  returned as an argument (\<open>mem\<close>, \<open>pool\<close>, \<open>stk\<close>). Hooks are not installed, as in this configuration. Loops that end by the structure of the
  data are recursive functions; those that may not end (\<open>ipc_list_resume_all\<close>, \<open>rt_defunct_execute\<close>,
  \<open>timer_check_loop\<close>, \<open>soft_timer_check_loop\<close>, \<open>smem_search\<close>, \<open>smem_next_free\<close>, the length of a ring) are partial functions with
  value \<^term>\<open>None\<close> for an endless run, and that they return is proved from the invariants. There is no
  fuel. Where an endless run is itself the property (a timer of period zero), the rounds of the loop are
  counted, so that it is told from a failed assertion. The emergency response keeps the state at the write that
  leaves its frame buffer. Single-precision arithmetic is real arithmetic rounded to 24 bits after every operation. What
  the application does to the outside (frames, messages, motor strengths, LED colours, delays) is
  recorded as a list of events. Client functions of the sensor driver act on a client state that is a
  parameter of its state record.

  \<^bold>\<open>What the properties show.\<close> The scheduler returns and runs a most urgent thread; yielding among
  three or more equal threads starves the third (a defect of the code). Timers stay ordered; the
  timer check ends, wakes every thread whose time is up, and a sleeping thread wakes after its
  ticks; a timer with a period of zero whose function leaves it running hangs the clock interrupt (a
  defect). A semaphore with a positive count
  has no waiters, and a release hands its token to the first waiter. A mutex changes its owner only
  by the owner's last release; every outcome of take and release, with priority inheritance; an
  inherited priority outlives a waiter that timed out (a defect). Events: no missed wake-up, and
  delivery equals a reference definition. Mailboxes, message queues and data queues: messages arrive in
  order, none is lost or duplicated, capacities hold, slots of a message queue are never shared, and every
  outcome of the operations. A completion wakes its waiter, but is lost when it comes between the
  time-out and the next run of the waiter (a defect). Memory pools: no block is handed out twice or lost. The heap: live blocks
  never overlap and keep what was written to them, all memory comes back when all blocks are given
  back, allocation is first fit on an abstract list of blocks, and aligned blocks find their way back.
  The word-wise memory routines do what byte-wise ones would. Formatted output is a text defined
  without pointers, cut to the buffer; numbers come back from their text within the limits of \<^verbatim>\<open>int\<close>, beyond
  which the code overflows (a defect). The shell is an editor with
  history and completion that runs the commands its lines name, and the terminal shows what the line
  holds; a line of eighty characters breaks it (a defect). Registered objects are found. The ring buffer
  delivers a byte stream, and its single-byte routines agree with the block routines.

  No sequence of bytes on the serial lines makes the receive interrupts access memory outside their
  buffers; the sensor and camera parsers refine their frame and packet formats, for the sensor also with other bytes
  between the frames; the checksum is that
  of Modbus. A recognised object is announced by its name; a text is spoken if it is short enough,
  and overruns a buffer otherwise (a defect), as the emergency message always does, after the light alarm
  has been raised (a defect). The
  fall detector never reports a fall (a defect). The motors follow the distances within their limits,
  and a vibration ends on time.

  \<^bold>\<open>Not modelled.\<close> Context switching itself and the initial stack frame (assembly of
  \<^verbatim>\<open>libcpu\<close>; only the stack pointer and the overflow mark are kept), the SMP variants, signals, slab
  and memheap allocators, modules and hooks (not compiled in this configuration),
  \<^verbatim>\<open>rt_strnlen\<close> and \<^verbatim>\<open>rt_strdup\<close> of \<^verbatim>\<open>kservice.c\<close> (the other string routines are those of the C library), the device layer and the
  drivers, block ring buffers, work queues, wait queues and pipes, the start-up code. The text that a command of the shell prints, and what it does, are its own: the model
  of the shell ends at the call with the arguments. Of the application: \<^verbatim>\<open>hw_init\<close>, \<^verbatim>\<open>VL53L0X_Init\<close> and the opening
  of serial devices, which only call the vendor libraries; the ranging library \<^verbatim>\<open>hardware/VL53L0X\<close>,
  whose measurements are an argument; the pulse timing and the test routines of \<^verbatim>\<open>bsp_ws2812.c\<close>; the
  unused \<^verbatim>\<open>AutoScanSensor\<close>. \<^verbatim>\<open>RGB_SetColor\<close>, \<^verbatim>\<open>RGB_Refresh\<close> and \<^verbatim>\<open>ws2812_set_mode\<close> are called but
  have no definition in the repository; they are events. The text that \<^verbatim>\<open>rt_kprintf\<close> prints is left out.
\<close>

end
